(* ===== verification/JsPrelude.thy ===== *)
theory JsPrelude
  imports Complex_Main "HOL-Library.Word" "HOL-Library.Char_ord" "HOL-Library.List_Lexorder"
begin

text \<open>
  Shared vocabulary of the development: the JavaScript numbers, values and errors the
  helpers exchange, the 32-bit integer operators they use for masks and shifts, arrays
  whose unwritten slots read as \<open>undefined\<close>, and the insertion-ordered \<open>Map\<close>.

  Numbers are exact: a finite number is a rational, with \<open>NaN\<close> and the two infinities
  as separate values.  Rounding of IEEE doubles and the sign of zero are not modelled; the
  places where the code's behaviour rests on 32-bit wrap-around are written out with
  \<open>to_int32\<close>.
\<close>

named_theorems js_simps \<open>evaluation rules of the JavaScript primitives\<close>

section \<open>Numbers\<close>

datatype js_num = NaN | PosInf | NegInf | Fin rat

fun is_finite :: "js_num \<Rightarrow> bool" where
  "is_finite (Fin r) = True"
| "is_finite _ = False"

text \<open>\<open>Number.isInteger\<close>.\<close>

fun is_integer :: "js_num \<Rightarrow> bool" where
  "is_integer (Fin r) = (of_int \<lfloor>r\<rfloor> = r)"
| "is_integer _ = False"

text \<open>The relational operator \<open>a < b\<close>: false as soon as one side is \<open>NaN\<close>.\<close>

fun num_lt :: "js_num \<Rightarrow> js_num \<Rightarrow> bool" where
  "num_lt NaN b = False"
| "num_lt a NaN = False"
| "num_lt (Fin a) (Fin b) = (a < b)"
| "num_lt a PosInf = (a \<noteq> PosInf)"
| "num_lt NegInf b = (b \<noteq> NegInf)"
| "num_lt a NegInf = False"
| "num_lt PosInf b = False"

text \<open>\<open>Math.max(a, b)\<close>: \<open>NaN\<close> wins.\<close>

definition num_max :: "js_num \<Rightarrow> js_num \<Rightarrow> js_num" where
  "num_max a b = (if a = NaN \<or> b = NaN then NaN else if num_lt a b then b else a)"

section \<open>Values and errors\<close>

text \<open>
  The values a caller can hand to an option: objects carry their own enumerable
  properties in \<open>Object.keys\<close> order; functions and symbols are opaque.
\<close>

datatype js_val =
    JUndefined
  | JNull
  | JBool bool
  | JNum js_num
  | JStr string
  | JSymbol
  | JFun nat
  | JObj "(string \<times> js_val) list"

fun is_nullish :: "js_val \<Rightarrow> bool" where
  "is_nullish JUndefined = True"
| "is_nullish JNull = True"
| "is_nullish _ = False"

fun is_number :: "js_val \<Rightarrow> bool" where
  "is_number (JNum n) = True"
| "is_number _ = False"

text \<open>Reading \<open>v.key\<close> of an object; a primitive has none of the keys the options use.\<close>

fun get_prop :: "string \<Rightarrow> js_val \<Rightarrow> js_val" where
  "get_prop k (JObj ps) = (case map_of ps k of Some v \<Rightarrow> v | None \<Rightarrow> JUndefined)"
| "get_prop k _ = JUndefined"

text \<open>
  The errors the modelled code throws or rejects with.  A message the caller may override
  is kept as the \<open>string option\<close> argument; the generated text is represented by what
  it names (class, option, received value).  \<open>NullOptions\<close> is the engine's own error on
  destructuring \<open>null\<close>; \<open>TypeErr\<close> and \<open>RangeErr\<close> name the throwing site and what it checks.
\<close>

datatype js_error =
    NotFinite "string option" string string js_val
  | NotWhole "string option" string string js_val
  | BelowMin "string option" string string rat js_num
  | NotANumber string string js_val
  | UnknownOption string string "string option" "string list"
  | CountNotFinite string string js_val
  | BadTtl string js_val
  | NegativeTtl js_val
  | BadSeed string js_val
  | FunctionRequired string string
  | NotAFunction string string
  | SymbolToNumber
  | InvalidArrayLength
  | WeightExceedsCapacity string rat rat
  | QueueFull string js_num
  | Aborted
  | ResetError
  | SetAfterDispose
  | BadSequence js_val
  | NullOptions
  | BadRate js_val
  | NeverAdmits int int
  | TypeErr string string
  | RangeErr string string

type_synonym 'a result = "js_error + 'a"

text \<open>
  A method that mutates its receiver: the receiver afterwards and the completion, a
  thrown error or a returned value.
\<close>

type_synonym ('s, 'r) step = "'s \<times> 'r result"

section \<open>Results and coercions\<close>

text \<open>Sequencing of code that may throw, the coercion to a boolean, and \<open>Math.round\<close>.\<close>

definition res_bind :: "'a result \<Rightarrow> ('a \<Rightarrow> 'b result) \<Rightarrow> 'b result" where
  "res_bind r f = (case r of Inl e \<Rightarrow> Inl e | Inr x \<Rightarrow> f x)"

definition js_truthy :: "js_val \<Rightarrow> bool" where
  "js_truthy v = (case v of JUndefined \<Rightarrow> False | JNull \<Rightarrow> False | JBool b \<Rightarrow> b
     | JNum n \<Rightarrow> n \<noteq> NaN \<and> n \<noteq> Fin 0 | JStr t \<Rightarrow> t \<noteq> [] | _ \<Rightarrow> True)"

definition js_round :: "rat \<Rightarrow> int" where
  "js_round r = \<lfloor>r + 1 / 2\<rfloor>"

lemma res_bind_Inr: "res_bind r f = Inr y \<longleftrightarrow> (\<exists>x. r = Inr x \<and> f x = Inr y)"
  by (cases r) (simp_all add: res_bind_def)

lemma res_bindE: "res_bind r f = Inr y \<Longrightarrow> (\<And>x. r = Inr x \<Longrightarrow> f x = Inr y \<Longrightarrow> P) \<Longrightarrow> P"
  by (cases r) (simp_all add: res_bind_def)

lemma if_InlE: "(if b then Inl e else r) = Inr y \<Longrightarrow> (\<not> b \<Longrightarrow> r = Inr y \<Longrightarrow> P) \<Longrightarrow> P"
  by (simp split: if_splits)

lemma JNum_caseE:
  "(case v of JNum n \<Rightarrow> f n | _ \<Rightarrow> Inl e) = Inr y \<Longrightarrow> (\<And>n. v = JNum n \<Longrightarrow> f n = Inr y \<Longrightarrow> P) \<Longrightarrow> P"
  by (cases v) simp_all

lemma Inr_eqE: "Inr x = Inr y \<Longrightarrow> (x = y \<Longrightarrow> P) \<Longrightarrow> P"
  by simp

lemma map_sum_InrE: "map_sum f g r = Inr y \<Longrightarrow> (\<And>x. r = Inr x \<Longrightarrow> y = g x \<Longrightarrow> P) \<Longrightarrow> P"
  by (cases r) simp_all

section \<open>Number conversion\<close>

text \<open>The white space that \<open>Number(string)\<close> strips, within one-byte characters.\<close>

definition is_ws :: "char \<Rightarrow> bool" where
  "is_ws c \<longleftrightarrow> (let n = (of_char c :: nat) in n = 32 \<or> (9 \<le> n \<and> n \<le> 13) \<or> n = 160)"

definition trim_ws :: "string \<Rightarrow> string" where
  "trim_ws s = rev (dropWhile is_ws (rev (dropWhile is_ws s)))"

definition digit_of :: "nat \<Rightarrow> char \<Rightarrow> nat option" where
  "digit_of base c =
     (let n = (of_char c :: nat);
          d = (if 48 \<le> n \<and> n \<le> 57 then n - 48
               else if 97 \<le> n \<and> n \<le> 102 then n - 87
               else if 65 \<le> n \<and> n \<le> 70 then n - 55 else 99)
      in if d < base then Some d else None)"

fun digits_val :: "nat \<Rightarrow> nat \<Rightarrow> string \<Rightarrow> nat option" where
  "digits_val base acc [] = Some acc"
| "digits_val base acc (c # cs) =
     (case digit_of base c of None \<Rightarrow> None | Some d \<Rightarrow> digits_val base (acc * base + d) cs)"

definition is_dec :: "char \<Rightarrow> bool" where
  "is_dec c \<longleftrightarrow> digit_of 10 c \<noteq> None"

definition dec_val :: "string \<Rightarrow> nat" where
  "dec_val s = (case digits_val 10 0 s of Some n \<Rightarrow> n | None \<Rightarrow> 0)"

definition strip_sign :: "string \<Rightarrow> bool \<times> string" where
  "strip_sign s = (case s of c # cs \<Rightarrow>
       (if c = CHR ''-'' then (True, cs) else if c = CHR ''+'' then (False, cs) else (False, s))
     | [] \<Rightarrow> (False, s))"

text \<open>The exponent part after the mantissa: \<open>None\<close> when the rest is not one.\<close>

definition exponent_val :: "string \<Rightarrow> int option" where
  "exponent_val s = (case s of [] \<Rightarrow> Some 0
     | c # cs \<Rightarrow>
       (if c = CHR ''e'' \<or> c = CHR ''E'' then
          (let (neg, ds) = strip_sign cs in
           if ds \<noteq> [] \<and> list_all is_dec ds
           then Some (if neg then - int (dec_val ds) else int (dec_val ds)) else None)
        else None))"

definition scale10 :: "nat \<Rightarrow> int \<Rightarrow> rat" where
  "scale10 m e = (if 0 \<le> e then of_nat m * 10 ^ nat e else of_nat m / 10 ^ nat (- e))"

definition decimal_to_num :: "string \<Rightarrow> js_num" where
  "decimal_to_num s0 =
     (let (neg, s) = strip_sign s0 in
      if s = ''Infinity'' then (if neg then NegInf else PosInf)
      else
        let ip = takeWhile is_dec s;
            r1 = dropWhile is_dec s;
            (fp, r2) = (case r1 of c # t \<Rightarrow>
                 (if c = CHR ''.'' then (takeWhile is_dec t, dropWhile is_dec t) else ([], r1))
               | [] \<Rightarrow> ([], r1))
        in if ip = [] \<and> fp = [] then NaN
           else (case exponent_val r2 of None \<Rightarrow> NaN
             | Some e \<Rightarrow>
                 let v = scale10 (dec_val (ip @ fp)) (e - int (length fp))
                 in Fin (if neg then - v else v)))"

definition radix_to_num :: "nat \<Rightarrow> string \<Rightarrow> js_num" where
  "radix_to_num base ds =
     (if ds = [] then NaN
      else case digits_val base 0 ds of None \<Rightarrow> NaN | Some n \<Rightarrow> Fin (of_nat n))"

definition string_to_num :: "string \<Rightarrow> js_num" where
  "string_to_num s0 =
     (let s = trim_ws s0 in
      case s of [] \<Rightarrow> Fin 0
      | [c] \<Rightarrow> decimal_to_num s
      | c # d # ds \<Rightarrow>
          (if c = CHR ''0'' \<and> (d = CHR ''x'' \<or> d = CHR ''X'') then radix_to_num 16 ds
           else if c = CHR ''0'' \<and> (d = CHR ''o'' \<or> d = CHR ''O'') then radix_to_num 8 ds
           else if c = CHR ''0'' \<and> (d = CHR ''b'' \<or> d = CHR ''B'') then radix_to_num 2 ds
           else decimal_to_num s))"

text \<open>
  \<open>Number(v)\<close>.  A symbol throws; a plain object and a function convert through their
  default string form, which is not numeric.
\<close>

fun to_number :: "js_val \<Rightarrow> js_num result" where
  "to_number JUndefined = Inr NaN"
| "to_number JNull = Inr (Fin 0)"
| "to_number (JBool b) = Inr (Fin (if b then 1 else 0))"
| "to_number (JNum n) = Inr n"
| "to_number (JStr s) = Inr (string_to_num s)"
| "to_number JSymbol = Inl SymbolToNumber"
| "to_number (JFun f) = Inr NaN"
| "to_number (JObj ps) = Inr NaN"

section \<open>32-bit integer operators\<close>

definition to_int32 :: "int \<Rightarrow> int" where
  "to_int32 a = signed_take_bit 31 a"

definition js_and :: "int \<Rightarrow> int \<Rightarrow> int" where
  "js_and a b = and (to_int32 a) (to_int32 b)"

definition js_shl1 :: "int \<Rightarrow> int" where
  "js_shl1 a = to_int32 (2 * to_int32 a)"

lemma to_int32_small: "- (2 ^ 31) \<le> a \<Longrightarrow> a < 2 ^ 31 \<Longrightarrow> to_int32 a = a"
  by (simp add: to_int32_def signed_take_bit_int_eq_self)

lemma pow2_le30: "k \<le> 30 \<Longrightarrow> (2::int) ^ k \<le> 1073741824"
  using power_increasing [of k 30 "2::int"] by simp

lemma to_int32_pow:
  assumes "k \<le> 30"
  shows "to_int32 (2 ^ k) = 2 ^ k" and "to_int32 (2 ^ k - 1) = 2 ^ k - 1"
proof -
  have b: "0 < (2::int) ^ k" "(2::int) ^ k \<le> 1073741824"
    using pow2_le30 [OF assms] by simp_all
  have lo: "- (2 ^ 31) \<le> (0::int)" by simp
  have hi: "(2::int) ^ k < 2 ^ 31" using b(2) by simp
  show "to_int32 (2 ^ k) = 2 ^ k" using lo b(1) hi by (intro to_int32_small) linarith+
  show "to_int32 (2 ^ k - 1) = 2 ^ k - 1" using lo b(1) hi by (intro to_int32_small) linarith+
qed

text \<open>Masking with \<open>2 ^ k - 1\<close> is reduction modulo \<open>2 ^ k\<close>, for negative operands too.\<close>

lemma js_and_mask:
  assumes "k \<le> 30"
  shows "js_and a (2 ^ k - 1) = a mod 2 ^ k"
proof -
  have "js_and a (2 ^ k - 1) = and (to_int32 a) (mask k)"
    by (simp add: js_and_def to_int32_pow(2) [OF assms] mask_eq_exp_minus_1)
  also have "\<dots> = take_bit k (signed_take_bit 31 a)"
    by (simp add: take_bit_eq_mask to_int32_def)
  also have "\<dots> = take_bit k a"
    using assms by (simp add: take_bit_signed_take_bit)
  finally show ?thesis by (simp add: take_bit_eq_mod)
qed

lemma js_shl1_pow: "k < 30 \<Longrightarrow> js_shl1 (2 ^ k) = 2 ^ Suc k"
  using to_int32_pow(1) [of k] to_int32_pow(1) [of "Suc k"] by (simp add: js_shl1_def)

lemma js_shl1_top: "js_shl1 (2 ^ 30) = - (2 ^ 31)"
  by (simp add: js_shl1_def to_int32_def signed_take_bit_eq_take_bit_shift take_bit_eq_mod)

lemma js_shl1_neg_top: "js_shl1 (- (2 ^ 31)) = 0"
  by (simp add: js_shl1_def to_int32_def signed_take_bit_eq_take_bit_shift take_bit_eq_mod)

lemma js_shl1_zero: "js_shl1 0 = 0"
  by (simp add: js_shl1_def to_int32_def)

section \<open>Arrays\<close>

text \<open>
  An array is the list of its slots; \<open>None\<close> is a hole or a slot holding
  \<open>undefined\<close>, which read the same.  \<open>new Array(n)\<close> throws a \<open>RangeError\<close>
  unless \<open>n\<close> is a 32-bit length; a read out of range is \<open>undefined\<close>; a write past
  the end extends the array with holes.
\<close>

definition new_array :: "int \<Rightarrow> 'a option list result" where
  "new_array n = (if 0 \<le> n \<and> n < 2 ^ 32 then Inr (replicate (nat n) None) else Inl InvalidArrayLength)"

definition arr_get :: "'a option list \<Rightarrow> int \<Rightarrow> 'a option" where
  "arr_get xs i = (if 0 \<le> i \<and> i < int (length xs) then xs ! nat i else None)"

definition arr_set :: "'a option list \<Rightarrow> int \<Rightarrow> 'a option \<Rightarrow> 'a option list" where
  "arr_set xs i v =
     (if i < 0 then xs
      else if i < int (length xs) then xs[nat i := v]
      else xs @ replicate (nat i - length xs) None @ [v])"

lemma length_arr_set [simp]:
  "i < int (length xs) \<Longrightarrow> length (arr_set xs i v) = length xs"
  by (simp add: arr_set_def)

lemma arr_get_set [simp]:
  "0 \<le> i \<Longrightarrow> i < int (length xs) \<Longrightarrow> arr_get (arr_set xs i v) j = (if i = j then v else arr_get xs j)"
  by (auto simp: arr_get_def arr_set_def nth_list_update)

lemma arr_get_replicate_None [simp]: "arr_get (replicate n None) i = None"
  by (auto simp: arr_get_def)

lemma arr_eqI:
  assumes "length xs = length ys"
    and "\<And>i. 0 \<le> i \<Longrightarrow> i < int (length xs) \<Longrightarrow> arr_get xs i = arr_get ys i"
  shows "xs = ys"
proof (rule nth_equalityI)
  show "length xs = length ys" by fact
  fix i assume "i < length xs"
  then show "xs ! i = ys ! i" using assms(1) assms(2) [of "int i"] by (simp add: arr_get_def)
qed

end
