(* ===== verification/Options.thy ===== *)
theory Options
  imports JsPrelude
begin

text \<open>
  Option validation (\<open>src/utils/options.js\<close>): the validators every constructor of the
  library goes through, the request-count and TTL coercions, and the rejection of
  misspelled option names with its edit-distance suggestion.
\<close>

section \<open>Numeric limits\<close>

record limit_spec =
  sp_name :: string
  sp_className :: string
  sp_min :: rat
  sp_integer :: bool
  sp_allowInfinity :: bool
  sp_fallback :: js_val
  sp_invalidMessage :: "string option"
  sp_minMessage :: "string option"
  sp_integerMessage :: "string option"

text \<open>A specification with only a name and a class: the destructuring defaults of \<open>assertLimit\<close>.\<close>

definition limit_spec :: "string \<Rightarrow> string \<Rightarrow> limit_spec" where
  "limit_spec name cls =
     \<lparr>sp_name = name, sp_className = cls, sp_min = 0, sp_integer = False,
      sp_allowInfinity = False, sp_fallback = JUndefined, sp_invalidMessage = None,
      sp_minMessage = None, sp_integerMessage = None\<rparr>"

definition assertLimit :: "js_val \<Rightarrow> limit_spec \<Rightarrow> js_val result" where
  "assertLimit v spec =
     (if is_nullish v then
        (if sp_fallback spec \<noteq> JUndefined then Inr (sp_fallback spec) else Inr v)
      else case to_number v of
        Inl e \<Rightarrow> Inl e
      | Inr n \<Rightarrow>
          if n = PosInf \<and> sp_allowInfinity spec then Inr (JNum n)
          else if \<not> is_finite n then
            Inl (NotFinite (sp_invalidMessage spec) (sp_className spec) (sp_name spec) v)
          else if sp_integer spec \<and> \<not> is_integer n then
            Inl (NotWhole (sp_integerMessage spec) (sp_className spec) (sp_name spec) v)
          else if num_lt n (Fin (sp_min spec)) then
            Inl (BelowMin (sp_minMessage spec) (sp_className spec) (sp_name spec) (sp_min spec) n)
          else Inr (JNum n))"

definition assertLimitRequired :: "js_val \<Rightarrow> limit_spec \<Rightarrow> js_num result" where
  "assertLimitRequired v spec =
     (case assertLimit v spec of
        Inl e \<Rightarrow> Inl e
      | Inr w \<Rightarrow> (case w of JNum n \<Rightarrow> Inr n
                 | _ \<Rightarrow> Inl (NotANumber (sp_className spec) (sp_name spec) w)))"

definition assertCount :: "js_val \<Rightarrow> string \<Rightarrow> string \<Rightarrow> int result" where
  "assertCount v name site =
     (case to_number v of
        Inl e \<Rightarrow> Inl e
      | Inr n \<Rightarrow> (case n of Fin r \<Rightarrow> Inr (max 0 \<lfloor>r\<rfloor>)
                 | _ \<Rightarrow> Inl (CountNotFinite site name v)))"

definition normalizeTtl :: "js_val \<Rightarrow> string \<Rightarrow> rat result" where
  "normalizeTtl ttl cls =
     (if is_nullish ttl \<or> ttl = JNum PosInf then Inr 0
      else case ttl of
        JNum n \<Rightarrow> (case n of Fin r \<Rightarrow> Inr r | _ \<Rightarrow> Inl (BadTtl cls ttl))
      | JStr s \<Rightarrow> (case string_to_num s of Fin r \<Rightarrow> Inr r | _ \<Rightarrow> Inl (BadTtl cls ttl))
      | _ \<Rightarrow> Inl (BadTtl cls ttl))"

text \<open>\<open>None\<close> is the \<open>undefined\<close> that asks for a random seed.\<close>

definition assertSeed :: "js_val \<Rightarrow> string \<Rightarrow> int option result" where
  "assertSeed seed cls =
     (if is_nullish seed then Inr None
      else case to_number seed of
        Inl e \<Rightarrow> Inl e
      | Inr n \<Rightarrow> (case n of
            Fin r \<Rightarrow> (if of_int \<lfloor>r\<rfloor> \<noteq> r \<or> r < - 2147483648 \<or> 2147483647 < r
                      then Inl (BadSeed cls seed) else Inr (Some \<lfloor>r\<rfloor>))
          | _ \<Rightarrow> Inl (BadSeed cls seed)))"

text \<open>\<open>None\<close> is the \<open>null\<close> of an absent optional function.\<close>

definition assertFunction :: "js_val \<Rightarrow> string \<Rightarrow> string \<Rightarrow> bool \<Rightarrow> nat option result" where
  "assertFunction v name cls optional =
     (if is_nullish v then
        (if optional then Inr None else Inl (FunctionRequired cls name))
      else case v of JFun f \<Rightarrow> Inr (Some f) | _ \<Rightarrow> Inl (NotAFunction cls name))"

section \<open>Unknown options\<close>

text \<open>
  The inner loop of \<open>levenshtein\<close>: \<open>prev\<close> is the previous row from column
  \<open>j - 1\<close> on, \<open>left\<close> the cell just written, and the result is the rest of the row.
\<close>

fun lev_cells :: "char \<Rightarrow> string \<Rightarrow> nat list \<Rightarrow> nat \<Rightarrow> nat list" where
  "lev_cells c (d # ds) (p0 # p1 # ps) left =
     (let x = min (min (p1 + 1) (left + 1)) (p0 + (if c = d then 0 else 1))
      in x # lev_cells c ds (p1 # ps) x)"
| "lev_cells c _ _ left = []"

fun lev_rows :: "string \<Rightarrow> string \<Rightarrow> nat \<Rightarrow> nat list \<Rightarrow> nat list" where
  "lev_rows [] b i prev = prev"
| "lev_rows (c # cs) b i prev = lev_rows cs b (Suc i) (i # lev_cells c b prev i)"

definition levenshtein :: "string \<Rightarrow> string \<Rightarrow> nat" where
  "levenshtein a b =
     (if a = b then 0
      else if length a = 0 then length b
      else if length b = 0 then length a
      else lev_rows a b 1 [0..<length b + 1] ! length b)"

text \<open>The loop over the candidates keeps the first one at the least distance.\<close>

fun suggest_loop :: "string \<Rightarrow> string list \<Rightarrow> (string \<times> nat) option \<Rightarrow> (string \<times> nat) option" where
  "suggest_loop word [] best = best"
| "suggest_loop word (c # cs) best =
     (let d = levenshtein word c in
      suggest_loop word cs
        (case best of None \<Rightarrow> Some (c, d)
         | Some (b, bd) \<Rightarrow> (if d < bd then Some (c, d) else best)))"

definition suggestOption :: "string \<Rightarrow> string list \<Rightarrow> string option" where
  "suggestOption word candidates =
     (case suggest_loop word candidates None of
        None \<Rightarrow> None
      | Some (best, bestDistance) \<Rightarrow>
          let limit = max 2 (max (length word) (length best) div 3)
          in if 0 < bestDistance \<and> bestDistance \<le> limit then Some best else None)"

fun check_keys :: "string list \<Rightarrow> string list \<Rightarrow> string \<Rightarrow> js_error option" where
  "check_keys [] known cls = None"
| "check_keys (key # keys) known cls =
     (if key \<in> set known then check_keys keys known cls
      else Some (UnknownOption cls key (suggestOption key known) (sort (remdups known))))"

text \<open>\<open>Inr ()\<close> is a normal return.\<close>

definition assertKnownOptions :: "js_val \<Rightarrow> string list \<Rightarrow> string \<Rightarrow> unit result" where
  "assertKnownOptions options known cls =
     (case options of
        JObj ps \<Rightarrow> (case check_keys (map fst ps) known cls of None \<Rightarrow> Inr () | Some e \<Rightarrow> Inl e)
      | _ \<Rightarrow> Inr ())"

section \<open>Lemmas\<close>

lemma assertLimit_number:
  "assertLimit v spec = Inr (JNum n) \<Longrightarrow> \<not> is_nullish v \<Longrightarrow>
     (n = PosInf \<and> sp_allowInfinity spec) \<or>
     (\<exists>r. n = Fin r \<and> sp_min spec \<le> r \<and> (sp_integer spec \<longrightarrow> of_int \<lfloor>r\<rfloor> = r))"
  by (cases n) (auto simp: assertLimit_def split: sum.splits if_splits)

lemma assertLimitRequired_cases:
  assumes "assertLimitRequired v spec = Inr n"
  shows "is_nullish v \<and> sp_fallback spec = JNum n \<or>
     n = PosInf \<and> sp_allowInfinity spec \<or>
     (\<exists>r. n = Fin r \<and> sp_min spec \<le> r \<and> (sp_integer spec \<longrightarrow> of_int \<lfloor>r\<rfloor> = r))"
proof -
  have a: "assertLimit v spec = Inr (JNum n)"
    using assms by (auto simp: assertLimitRequired_def split: sum.splits js_val.splits)
  show ?thesis
  proof (cases "is_nullish v")
    case True
    with a show ?thesis
      by (cases v) (auto simp: assertLimit_def split: if_splits)
  next
    case False
    with a show ?thesis by (auto dest: assertLimit_number)
  qed
qed

lemma lev_cells_length: "length prev = Suc (length ds) \<Longrightarrow> length (lev_cells c ds prev left) = length ds"
  by (induction c ds prev left rule: lev_cells.induct) (auto simp: Let_def)

text \<open>The textbook recurrence: the distance between the first \<open>i\<close> and the first \<open>j\<close> characters.\<close>

fun prefix_distance :: "string \<Rightarrow> string \<Rightarrow> nat \<Rightarrow> nat \<Rightarrow> nat" where
  "prefix_distance a b 0 j = j"
| "prefix_distance a b (Suc i) 0 = Suc i"
| "prefix_distance a b (Suc i) (Suc j) =
     min (min (prefix_distance a b i (Suc j) + 1) (prefix_distance a b (Suc i) j + 1))
         (prefix_distance a b i j + (if a ! i = b ! j then 0 else 1))"

lemma prefix_distance_0 [simp]: "prefix_distance a b i 0 = i"
  by (cases i) auto

definition distance_row :: "string \<Rightarrow> string \<Rightarrow> nat \<Rightarrow> nat list" where
  "distance_row a b i = map (prefix_distance a b i) [0..<Suc (length b)]"

lemma lev_cells_row:
  assumes "i < length a" "j \<le> length b"
  shows "lev_cells (a ! i) (drop j b) (map (prefix_distance a b i) [j..<Suc (length b)])
           (prefix_distance a b (Suc i) j)
         = map (prefix_distance a b (Suc i)) [Suc j..<Suc (length b)]"
  using assms(2)
proof (induction "length b - j" arbitrary: j)
  case 0
  then show ?case by (simp add: upt_rec)
next
  case (Suc n)
  then have j: "j < length b" by simp
  have d: "drop j b = b ! j # drop (Suc j) b" using j by (simp add: Cons_nth_drop_Suc)
  have u: "[j..<Suc (length b)] = j # Suc j # [Suc (Suc j)..<Suc (length b)]"
    using j by (simp add: upt_rec)
  have u': "[Suc j..<Suc (length b)] = Suc j # [Suc (Suc j)..<Suc (length b)]"
    using j by (simp add: upt_rec)
  have IH: "lev_cells (a ! i) (drop (Suc j) b)
      (map (prefix_distance a b i) [Suc j..<Suc (length b)]) (prefix_distance a b (Suc i) (Suc j))
      = map (prefix_distance a b (Suc i)) [Suc (Suc j)..<Suc (length b)]"
    using Suc(2) j by (intro Suc(1)) auto
  show ?case
    unfolding d u using IH unfolding u' by (simp add: Let_def del: upt_Suc)
qed

lemma lev_rows_row:
  "i \<le> length a \<Longrightarrow> lev_rows (drop i a) b (Suc i) (distance_row a b i) = distance_row a b (length a)"
proof (induction "length a - i" arbitrary: i)
  case 0
  then show ?case by simp
next
  case (Suc n)
  then have i: "i < length a" by simp
  have d: "drop i a = a ! i # drop (Suc i) a" using i by (simp add: Cons_nth_drop_Suc)
  have "Suc i # lev_cells (a ! i) b (distance_row a b i) (Suc i) = distance_row a b (Suc i)"
    using lev_cells_row [OF i, of 0 b]
    by (simp add: distance_row_def upt_conv_Cons del: upt_Suc)
  then show ?case using Suc i by (simp add: d)
qed

lemma prefix_distance_refl: "prefix_distance a a i i = 0"
  by (induction i) auto

lemma levenshtein_prefix_distance:
  "levenshtein a b = prefix_distance a b (length a) (length b)"
proof -
  have row0: "distance_row a b 0 = [0..<length b + 1]"
    by (simp add: distance_row_def map_idI del: upt_Suc)
  have "lev_rows a b 1 [0..<length b + 1] = distance_row a b (length a)"
    using lev_rows_row [of 0 a b] unfolding row0 by simp
  then have "lev_rows a b 1 [0..<length b + 1] ! length b = prefix_distance a b (length a) (length b)"
    by (simp add: distance_row_def del: upt_Suc)
  then show ?thesis by (auto simp: levenshtein_def prefix_distance_refl)
qed

lemma suggest_loop_best:
  "suggest_loop word cs best = Some (c, d) \<Longrightarrow>
     (\<forall>b bd. best = Some (b, bd) \<longrightarrow> d \<le> bd) \<and> (\<forall>x \<in> set cs. d \<le> levenshtein word x) \<and>
     (best = Some (c, d) \<or> c \<in> set cs \<and> d = levenshtein word c)"
proof (induction word cs best rule: suggest_loop.induct)
  case (1 word best)
  then show ?case by simp
next
  case (2 word x cs best)
  show ?case
  proof (cases best)
    case None
    with 2 show ?thesis by (auto simp: Let_def)
  next
    case (Some p)
    obtain b bd where p: "p = (b, bd)" by (cases p)
    show ?thesis
    proof (cases "levenshtein word x < bd")
      case True
      with 2 Some p show ?thesis by (fastforce simp: Let_def)
    next
      case False
      with 2 Some p show ?thesis by (fastforce simp: Let_def)
    qed
  qed
qed

lemma check_keys_None: "check_keys keys known cls = None \<longleftrightarrow> set keys \<subseteq> set known"
  by (induction keys known cls rule: check_keys.induct) auto

section \<open>The distance is the length of a shortest edit\<close>

text \<open>One edit: a character deleted, inserted or substituted.\<close>

inductive edit1 :: "string \<Rightarrow> string \<Rightarrow> bool" where
  edit_delete: "edit1 (u @ x # v) (u @ v)"
| edit_insert: "edit1 (u @ v) (u @ x # v)"
| edit_subst: "edit1 (u @ x # v) (u @ y # v)"

lemma edit1_append: "edit1 s t \<Longrightarrow> edit1 (s @ w) (t @ w)"
  by (induction rule: edit1.induct) (simp_all add: edit1.intros)

lemma edits_append: "(edit1 ^^ n) s t \<Longrightarrow> (edit1 ^^ n) (s @ w) (t @ w)"
proof (induction n arbitrary: t)
  case (Suc n)
  then obtain r where "(edit1 ^^ n) s r" "edit1 r t" by (auto simp: OO_def)
  then show ?case using relpowp_Suc_I [OF Suc.IH edit1_append] by blast
qed simp

lemma edits_snoc: "(edit1 ^^ n) s r \<Longrightarrow> edit1 r t \<Longrightarrow> (edit1 ^^ (n + 1)) s t"
  by auto

text \<open>The recurrence over the front of the strings.\<close>

fun ed :: "string \<Rightarrow> string \<Rightarrow> nat" where
  "ed [] ys = length ys"
| "ed (x # xs) [] = Suc (length xs)"
| "ed (x # xs) (y # ys) =
     min (min (ed xs (y # ys) + 1) (ed (x # xs) ys + 1)) (ed xs ys + (if x = y then 0 else 1))"

lemma ed_Nil2 [simp]: "ed xs [] = length xs"
  by (cases xs) auto

lemma ed_insert: "ed xs (y # ys) \<le> ed xs ys + 1"
  by (cases xs) auto

lemma ed_Cons: "ed (x # xs) ys \<le> ed xs ys + 1"
  by (cases ys) auto

lemma ed_delete: "ed xs v \<le> ed xs (y # v) + 1"
proof (induction xs)
  case (Cons z zs)
  then show ?case using ed_Cons [of z zs v] by auto
qed simp

lemma ed_subst: "ed xs (x # v) \<le> ed xs (y # v) + 1"
  by (induction xs) auto

lemma ed_step_Cons:
  assumes "\<And>xs. ed xs s \<le> ed xs t + 1"
  shows "ed xs (c # s) \<le> ed xs (c # t) + 1"
proof (induction xs)
  case Nil
  then show ?case using assms [of "[]"] by simp
next
  case (Cons x xs)
  then show ?case using assms [of xs] assms [of "x # xs"] by auto
qed

lemma ed_step_append: "(\<And>xs. ed xs s \<le> ed xs t + 1) \<Longrightarrow> ed xs (u @ s) \<le> ed xs (u @ t) + 1"
proof (induction u arbitrary: xs)
  case (Cons c u)
  then have "\<And>xs. ed xs (u @ s) \<le> ed xs (u @ t) + 1" by blast
  then show ?case using ed_step_Cons [of "u @ s" "u @ t"] by simp
qed simp

lemma ed_edit1: "edit1 s t \<Longrightarrow> ed xs t \<le> ed xs s + 1"
proof (induction rule: edit1.induct)
  case (edit_delete u x v)
  show ?case by (rule ed_step_append) (rule ed_delete)
next
  case (edit_insert u v x)
  show ?case by (rule ed_step_append) (rule ed_insert)
next
  case (edit_subst u x v y)
  show ?case by (rule ed_step_append) (rule ed_subst)
qed

lemma ed_refl [simp]: "ed xs xs = 0"
  by (induction xs) auto

lemma edit1_rev: "edit1 s t \<Longrightarrow> edit1 (rev s) (rev t)"
  by (induction rule: edit1.induct) (simp_all add: edit1.intros)

lemma ed_edits: "(edit1 ^^ n) s t \<Longrightarrow> ed (rev s) (rev t) \<le> n"
proof (induction n arbitrary: t)
  case (Suc n)
  then obtain r where r: "(edit1 ^^ n) s r" "edit1 r t" by (auto simp: OO_def)
  show ?case using Suc.IH [OF r(1)] ed_edit1 [OF edit1_rev [OF r(2)], of "rev s"] by linarith
qed simp

lemma rev_take_Suc: "i < length a \<Longrightarrow> rev (take (Suc i) a) = a ! i # rev (take i a)"
  by (simp add: take_Suc_conv_app_nth)

lemma prefix_distance_ed:
  "i \<le> length a \<Longrightarrow> j \<le> length b \<Longrightarrow> prefix_distance a b i j = ed (rev (take i a)) (rev (take j b))"
proof (induction a b i j rule: prefix_distance.induct)
  case (3 a b i j)
  then show ?case by (simp add: rev_take_Suc)
qed simp_all

lemma prefix_distance_edits:
  "i \<le> length a \<Longrightarrow> j \<le> length b \<Longrightarrow>
     (edit1 ^^ prefix_distance a b i j) (take i a) (take j b)"
proof (induction a b i j rule: prefix_distance.induct)
  case (1 a b j)
  show ?case using "1.prems"
  proof (induction j)
    case (Suc j)
    then have "edit1 (take j b) (take (Suc j) b)"
      using edit_insert [of "take j b" "[]" "b ! j"] by (simp add: take_Suc_conv_app_nth)
    then show ?case using Suc by auto
  qed simp
next
  case (2 a b i)
  have "(edit1 ^^ k) (take k a) []" if "k \<le> length a" for k
    using that
  proof (induction k)
    case (Suc k)
    then have "edit1 (take (Suc k) a) (take k a)"
      using edit_delete [of "take k a" "a ! k" "[]"] by (simp add: take_Suc_conv_app_nth)
    then show ?case using Suc by (auto simp: relpowp_commute [symmetric] intro: relcomppI)
  qed simp
  from this [OF "2.prems"(1)] show ?case by simp
next
  case (3 a b i j)
  let ?d = "prefix_distance a b"
  have ai: "take (Suc i) a = take i a @ [a ! i]" and bj: "take (Suc j) b = take j b @ [b ! j]"
    using "3.prems" by (simp_all add: take_Suc_conv_app_nth)
  have del: "(edit1 ^^ (?d i (Suc j) + 1)) (take (Suc i) a) (take (Suc j) b)"
    using edit_delete [of "take i a" "a ! i" "[]"] "3.IH"(1) "3.prems"
    by (auto simp: ai relpowp_commute [symmetric] intro!: relcomppI)
  have ins: "(edit1 ^^ (?d (Suc i) j + 1)) (take (Suc i) a) (take (Suc j) b)"
    using edit_insert [of "take j b" "[]" "b ! j"] "3.IH"(2) "3.prems"
    by (intro edits_snoc) (auto simp: bj)
  have same: "(edit1 ^^ ?d i j) (take (Suc i) a) (take j b @ [a ! i])"
    using edits_append [of "?d i j" "take i a" "take j b" "[a ! i]"] "3.IH"(3) "3.prems" by (simp add: ai)
  have sub: "(edit1 ^^ (?d i j + (if a ! i = b ! j then 0 else 1))) (take (Suc i) a) (take (Suc j) b)"
  proof (cases "a ! i = b ! j")
    case True
    then show ?thesis using same by (simp add: bj)
  next
    case False
    then show ?thesis
      using edits_snoc [OF same edit_subst [of "take j b" "a ! i" "[]" "b ! j"]] by (simp add: bj)
  qed
  show ?case using del ins sub by (simp only: prefix_distance.simps(3) min_def split: if_split) simp
qed

lemma levenshtein_edits: "(edit1 ^^ levenshtein a b) a b"
  using prefix_distance_edits [of "length a" a "length b" b] by (simp add: levenshtein_prefix_distance)

lemma levenshtein_pos: "a \<noteq> b \<Longrightarrow> 0 < levenshtein a b"
  using levenshtein_edits [of a b] by (cases "levenshtein a b") auto

lemma suggest_loop_None: "suggest_loop word cs best = None \<longleftrightarrow> cs = [] \<and> best = None"
proof (induction word cs best rule: suggest_loop.induct)
  case (2 word c cs best)
  then show ?case by (cases best) (auto simp: Let_def split: if_splits)
qed simp

lemma suggestOption_nearest:
  assumes "key \<notin> set known"
  shows "\<forall>s. suggestOption key known = Some s \<longrightarrow> s \<in> set known \<and>
      (\<forall>c \<in> set known. levenshtein key s \<le> levenshtein key c) \<and>
      levenshtein key s \<le> max 2 (max (length key) (length s) div 3)"
    and "suggestOption key known = None \<Longrightarrow> known \<noteq> [] \<Longrightarrow>
      \<exists>s \<in> set known. (\<forall>c \<in> set known. levenshtein key s \<le> levenshtein key c) \<and>
        max 2 (max (length key) (length s) div 3) < levenshtein key s"
proof -
  show "\<forall>s. suggestOption key known = Some s \<longrightarrow> s \<in> set known \<and>
      (\<forall>c \<in> set known. levenshtein key s \<le> levenshtein key c) \<and>
      levenshtein key s \<le> max 2 (max (length key) (length s) div 3)"
  proof (intro allI impI)
    fix s assume "suggestOption key known = Some s"
    then obtain d where "suggest_loop key known None = Some (s, d)"
        "d \<le> max 2 (max (length key) (length s) div 3)"
      by (auto simp: suggestOption_def Let_def split: option.splits prod.splits if_splits)
    then show "s \<in> set known \<and> (\<forall>c \<in> set known. levenshtein key s \<le> levenshtein key c) \<and>
      levenshtein key s \<le> max 2 (max (length key) (length s) div 3)"
      using suggest_loop_best [of key known None s d] by auto
  qed
  assume none: "suggestOption key known = None" and ne: "known \<noteq> []"
  obtain s d where s: "suggest_loop key known None = Some (s, d)"
    using ne suggest_loop_None [of key known None] by (cases "suggest_loop key known None") auto
  have b: "\<forall>x \<in> set known. d \<le> levenshtein key x" "s \<in> set known" "d = levenshtein key s"
    using suggest_loop_best [OF s] by auto
  then have "0 < d" using levenshtein_pos assms by metis
  then have "max 2 (max (length key) (length s) div 3) < d"
    using none s by (simp add: suggestOption_def Let_def split: if_splits) linarith
  then show "\<exists>s \<in> set known. (\<forall>c \<in> set known. levenshtein key s \<le> levenshtein key c) \<and>
        max 2 (max (length key) (length s) div 3) < levenshtein key s"
    using b by blast
qed

lemma check_keys_Some:
  "check_keys keys known cls = Some e \<Longrightarrow>
     \<exists>pre key post. keys = pre @ key # post \<and> set pre \<subseteq> set known \<and> key \<notin> set known \<and>
       e = UnknownOption cls key (suggestOption key known) (sort (remdups known))"
proof (induction keys known cls rule: check_keys.induct)
  case (2 key keys known cls)
  show ?case
  proof (cases "key \<in> set known")
    case True
    then obtain pre k post where "keys = pre @ k # post \<and> set pre \<subseteq> set known \<and> k \<notin> set known \<and>
       e = UnknownOption cls k (suggestOption k known) (sort (remdups known))"
      using 2 by auto
    then show ?thesis using True
      by (intro exI [of _ "key # pre"] exI [of _ k] exI [of _ post]) simp
  next
    case False
    then show ?thesis using 2 by (intro exI [of _ "[]"] exI [of _ key] exI [of _ keys]) simp
  qed
qed simp

section \<open>Properties\<close>

text \<open>
  Numeric options: \<open>assertLimitRequired\<close> returns a number exactly when the option is
  absent and the fallback is that number, or the option converts to it and it is within the
  declared domain: finite (or positive infinity where that is allowed), whole where whole
  numbers are asked for, and not below the minimum.  Every other value is an error, \<open>NaN\<close>
  included.
\<close>

theorem assertLimitRequired_domain:
  "assertLimitRequired v spec = Inr n \<longleftrightarrow>
     (if is_nullish v then sp_fallback spec = JNum n
      else to_number v = Inr n \<and>
        ((n = PosInf \<and> sp_allowInfinity spec) \<or>
         (\<exists>r. n = Fin r \<and> sp_min spec \<le> r \<and> (sp_integer spec \<longrightarrow> of_int \<lfloor>r\<rfloor> = r))))"
proof (cases "is_nullish v")
  case True
  then show ?thesis
    by (cases v) (auto simp: assertLimitRequired_def assertLimit_def split: js_val.splits)
next
  case False
  then show ?thesis
    by (cases "to_number v"; cases n)
      (auto simp: assertLimitRequired_def assertLimit_def split: if_splits)
qed

theorem assertLimitRequired_domain_witness:
  "assertLimitRequired (JStr ''0x10'') (limit_spec ''limit'' ''C'') = Inr (Fin 16)"
proof -
  have "to_number (JStr ''0x10'') = Inr (Fin 16)" by code_simp
  then show ?thesis by (subst assertLimitRequired_domain) (simp add: limit_spec_def)
qed

text \<open>
  C33. \<open>levenshtein\<close> is the edit distance: the least number of single-character deletions,
  insertions and substitutions that turn the first string into the second.
\<close>

theorem levenshtein_is_least_edit:
  "(edit1 ^^ levenshtein a b) a b \<and> (\<forall>n. (edit1 ^^ n) a b \<longrightarrow> levenshtein a b \<le> n)"
  using prefix_distance_edits [of "length a" a "length b" b]
    prefix_distance_ed [of "length a" a "length b" b] ed_edits [of _ a b]
  by (simp add: levenshtein_prefix_distance)

theorem levenshtein_is_least_edit_witness:
  "levenshtein ''maxSzie'' ''maxSize'' \<le> 2"
proof -
  have "edit1 ''maxSzie'' ''maxSiie''" using edit_subst [of "''maxS''" "CHR ''z''" "''ie''" "CHR ''i''"] by simp
  moreover have "edit1 ''maxSiie'' ''maxSize''" using edit_subst [of "''maxSi''" "CHR ''i''" "''e''" "CHR ''z''"] by simp
  ultimately have "(edit1 ^^ 2) ''maxSzie'' ''maxSize''" by (auto simp: numeral_2_eq_2)
  then show ?thesis using levenshtein_is_least_edit [of "''maxSzie''" "''maxSize''"] by blast
qed

text \<open>
  C34. Misspelled options are rejected.  \<open>assertKnownOptions\<close> returns exactly when every key
  of the options object is a known option.  Otherwise it throws an error naming the first
  unknown key and listing the known ones; a suggestion in that error is a known option, none
  is closer, and its distance is at most two or a third of the longer name.
\<close>

theorem assertKnownOptions_rejects_unknown:
  "(assertKnownOptions (JObj ps) known cls = Inr () \<longleftrightarrow> fst ` set ps \<subseteq> set known) \<and>
   (\<forall>e. assertKnownOptions (JObj ps) known cls = Inl e \<longrightarrow>
      (\<exists>pre key post hint. map fst ps = pre @ key # post \<and> set pre \<subseteq> set known \<and> key \<notin> set known \<and>
         e = UnknownOption cls key hint (sort (remdups known)) \<and>
         (\<forall>s. hint = Some s \<longrightarrow> s \<in> set known \<and> (\<forall>c \<in> set known. levenshtein key s \<le> levenshtein key c) \<and>
            levenshtein key s \<le> max 2 (max (length key) (length s) div 3)) \<and>
         (hint = None \<longrightarrow> known \<noteq> [] \<longrightarrow> (\<exists>s \<in> set known. (\<forall>c \<in> set known. levenshtein key s \<le> levenshtein key c) \<and>
            max 2 (max (length key) (length s) div 3) < levenshtein key s))))"
proof (intro conjI allI impI)
  show "assertKnownOptions (JObj ps) known cls = Inr () \<longleftrightarrow> fst ` set ps \<subseteq> set known"
    using check_keys_None [of "map fst ps" known cls]
    by (auto simp: assertKnownOptions_def split: option.splits)
next
  fix e assume "assertKnownOptions (JObj ps) known cls = Inl e"
  then have "check_keys (map fst ps) known cls = Some e"
    by (simp add: assertKnownOptions_def split: option.splits)
  then obtain pre key post where k: "map fst ps = pre @ key # post" "set pre \<subseteq> set known"
      "key \<notin> set known" "e = UnknownOption cls key (suggestOption key known) (sort (remdups known))"
    using check_keys_Some by blast
  show "\<exists>pre key post hint. map fst ps = pre @ key # post \<and> set pre \<subseteq> set known \<and> key \<notin> set known \<and>
         e = UnknownOption cls key hint (sort (remdups known)) \<and>
         (\<forall>s. hint = Some s \<longrightarrow> s \<in> set known \<and> (\<forall>c \<in> set known. levenshtein key s \<le> levenshtein key c) \<and>
            levenshtein key s \<le> max 2 (max (length key) (length s) div 3)) \<and>
         (hint = None \<longrightarrow> known \<noteq> [] \<longrightarrow> (\<exists>s \<in> set known. (\<forall>c \<in> set known. levenshtein key s \<le> levenshtein key c) \<and>
            max 2 (max (length key) (length s) div 3) < levenshtein key s))"
    by (intro exI [of _ pre] exI [of _ key] exI [of _ post] exI [of _ "suggestOption key known"]
        conjI k suggestOption_nearest(1) impI suggestOption_nearest(2))
qed

theorem assertKnownOptions_rejects_unknown_witness:
  "assertKnownOptions (JObj [(''limit'', JNull)]) [''limit'', ''queueCapacity''] ''C'' = Inr () \<and>
   assertKnownOptions (JObj [(''limt'', JNull)]) [''limit'', ''queueCapacity''] ''C''
      = Inl (UnknownOption ''C'' ''limt'' (Some ''limit'') [''limit'', ''queueCapacity''])"
proof
  show "assertKnownOptions (JObj [(''limit'', JNull)]) [''limit'', ''queueCapacity''] ''C'' = Inr ()"
    using assertKnownOptions_rejects_unknown [of "[(''limit'', JNull)]" "[''limit'', ''queueCapacity'']" "''C''"]
    by simp
  show "assertKnownOptions (JObj [(''limt'', JNull)]) [''limit'', ''queueCapacity''] ''C''
      = Inl (UnknownOption ''C'' ''limt'' (Some ''limit'') [''limit'', ''queueCapacity''])"
    by code_simp
qed

end
