(* ===== verification/Fifo.thy ===== *)
theory Fifo
  imports JsPrelude
begin

text \<open>
  The queue interface the concurrency helpers rely on: a bounded first-in first-out
  container seen as a list.  \<open>push\<close> is only promised to succeed below \<open>limit\<close> items.
\<close>

text \<open>Pushing the elements of a list one by one, up to the first failure.\<close>

fun push_each :: "('a \<Rightarrow> 'q \<Rightarrow> ('q, int) step) \<Rightarrow> 'a list \<Rightarrow> 'q \<Rightarrow> ('q, unit) step" where
  "push_each push [] q = (q, Inr ())"
| "push_each push (x # xs) q =
     (case push x q of (q1, Inl e) \<Rightarrow> (q1, Inl e) | (q1, Inr n) \<Rightarrow> push_each push xs q1)"

text \<open>Shifting \<open>n\<close> times and collecting what comes out.\<close>

fun shift_each :: "('q \<Rightarrow> 'q \<times> 'a option) \<Rightarrow> nat \<Rightarrow> 'q \<Rightarrow> 'q \<times> 'a option list" where
  "shift_each shift 0 q = (q, [])"
| "shift_each shift (Suc n) q =
     (let (q1, v) = shift q; (q2, vs) = shift_each shift n q1 in (q2, v # vs))"

locale fifo =
  fixes rep :: "'q \<Rightarrow> 'a list \<Rightarrow> bool"
    and push :: "'a \<Rightarrow> 'q \<Rightarrow> ('q, int) step"
    and shift :: "'q \<Rightarrow> 'q \<times> 'a option"
    and peek :: "'q \<Rightarrow> 'a option"
    and len :: "'q \<Rightarrow> int"
    and limit :: nat
  assumes push_ok: "rep q xs \<Longrightarrow> length xs < limit \<Longrightarrow>
      \<exists>q'. push x q = (q', Inr (int (length xs) + 1)) \<and> rep q' (xs @ [x])"
    and shift_nil: "rep q [] \<Longrightarrow> shift q = (q, None)"
    and shift_cons: "rep q (x # xs) \<Longrightarrow> \<exists>q'. shift q = (q', Some x) \<and> rep q' xs"
    and peek_head: "rep q xs \<Longrightarrow> peek q = (case xs of [] \<Rightarrow> None | x # _ \<Rightarrow> Some x)"
    and len_length: "rep q xs \<Longrightarrow> len q = int (length xs)"
begin

lemma push_each_ok:
  "rep q xs \<Longrightarrow> length xs + length ys \<le> limit \<Longrightarrow>
     \<exists>q'. push_each push ys q = (q', Inr ()) \<and> rep q' (xs @ ys)"
proof (induction ys arbitrary: q xs)
  case Nil
  then show ?case by simp
next
  case (Cons y ys)
  obtain q1 where "push y q = (q1, Inr (int (length xs) + 1))" "rep q1 (xs @ [y])"
    using push_ok [OF Cons.prems(1), of y] Cons.prems(2) by auto
  then show ?case using Cons.IH [of q1 "xs @ [y]"] Cons.prems(2) by auto
qed

lemma shift_each_ok:
  "rep q (xs @ ys) \<Longrightarrow> \<exists>q'. shift_each shift (length xs) q = (q', map Some xs) \<and> rep q' ys"
proof (induction xs arbitrary: q)
  case Nil
  then show ?case by simp
next
  case (Cons x xs)
  obtain q1 where "shift q = (q1, Some x)" "rep q1 (xs @ ys)"
    using shift_cons [of q x "xs @ ys"] Cons.prems by auto
  then show ?case using Cons.IH [of q1] by auto
qed

text \<open>What is pushed comes out in the same order, after what was there before.\<close>

lemma first_in_first_out:
  assumes "rep q xs" "length xs + length ys \<le> limit"
  shows "\<exists>q1 q2. push_each push ys q = (q1, Inr ()) \<and>
     shift_each shift (length xs + length ys) q1 = (q2, map Some (xs @ ys)) \<and> rep q2 []"
proof -
  obtain q1 where q1: "push_each push ys q = (q1, Inr ())" "rep q1 (xs @ ys)"
    using push_each_ok [OF assms] by blast
  then show ?thesis using shift_each_ok [of q1 "xs @ ys" "[]"] by auto
qed

end

end
