(* ===== verification/PowerQueue.thy ===== *)
theory PowerQueue
  imports Options Fifo
begin

text \<open>
  The resizable ring buffer \<open>PowerQueue\<close> (\<open>src/helpers/powerQueue.js\<close>): its state,
  every operation, the representation relation between a buffer and the list of its items,
  and the refinement of each operation to its list counterpart.
\<close>

section \<open>State\<close>

record 'a queue =
  q_capacity :: int
  q_mask :: int
  q_buffer :: "'a option list"
  q_head :: int
  q_tail :: int
  q_size :: int
  q_total :: rat

definition POWER_QUEUE_INITIAL_CAPACITY :: rat where
  "POWER_QUEUE_INITIAL_CAPACITY = 16"

text \<open>\<open>itemWeight\<close>, from the value of \<open>item.weight\<close> (\<open>undefined\<close> for a nullish item).\<close>

fun itemWeight :: "js_val \<Rightarrow> rat" where
  "itemWeight (JNum (Fin w)) = w"
| "itemWeight _ = 1"

text \<open>
  The functions below take \<open>wt\<close>, which reads the \<open>weight\<close> property of an item; a slot
  that reads as \<open>undefined\<close> weighs 1.
\<close>

fun slotWeight :: "('a \<Rightarrow> js_val) \<Rightarrow> 'a option \<Rightarrow> rat" where
  "slotWeight wt None = itemWeight JUndefined"
| "slotWeight wt (Some x) = itemWeight (wt x)"

text \<open>\<open>while (cap < want) cap <<= 1\<close>: \<open>None\<close> when the loop never ends.\<close>

partial_function (option) round_pow2 :: "js_num \<Rightarrow> int \<Rightarrow> int option" where
  "round_pow2 want cap =
     (if num_lt (Fin (of_int cap)) want then round_pow2 want (js_shl1 cap) else Some cap)"

declare round_pow2.simps [code]

section \<open>Construction\<close>

definition queue_limit_spec :: "string \<Rightarrow> limit_spec" where
  "queue_limit_spec name =
     (limit_spec name ''PowerQueue'')\<lparr>sp_fallback := JNum (Fin POWER_QUEUE_INITIAL_CAPACITY)\<rparr>"

text \<open>The options-object form is recognised only when it carries \<open>initialCapacity\<close>.\<close>

definition queue_new_arg :: "js_val \<Rightarrow> js_val result" where
  "queue_new_arg v =
     (case v of
        JObj ps \<Rightarrow>
          (if ''initialCapacity'' \<in> set (map fst ps) then
             (case assertKnownOptions v [''initialCapacity''] ''PowerQueue'' of
                Inl e \<Rightarrow> Inl e
              | Inr _ \<Rightarrow> Inr (get_prop ''initialCapacity'' v))
           else Inr v)
      | JUndefined \<Rightarrow> Inr (JNum (Fin POWER_QUEUE_INITIAL_CAPACITY))
      | _ \<Rightarrow> Inr v)"

definition queue_empty :: "int \<Rightarrow> 'a option list \<Rightarrow> 'a queue" where
  "queue_empty cap buf =
     \<lparr>q_capacity = cap, q_mask = cap - 1, q_buffer = buf, q_head = 0, q_tail = 0,
      q_size = 0, q_total = 0\<rparr>"

definition queue_new :: "js_val \<Rightarrow> 'a queue result option" where
  "queue_new v =
     (case queue_new_arg v of
        Inl e \<Rightarrow> Some (Inl e)
      | Inr w \<Rightarrow>
          (case assertLimitRequired w (queue_limit_spec ''initialCapacity'') of
             Inl e \<Rightarrow> Some (Inl e)
           | Inr requested \<Rightarrow>
               (case round_pow2 (num_max (Fin 2) requested) 1 of
                  None \<Rightarrow> None
                | Some cap \<Rightarrow>
                    (case new_array cap of
                       Inl e \<Rightarrow> Some (Inl e)
                     | Inr buf \<Rightarrow> Some (Inr (queue_empty cap buf))))))"

section \<open>Operations\<close>

text \<open>The slot of the item at logical index \<open>i\<close>: \<open>buffer[(head + i) & mask]\<close>.\<close>

definition ring_at :: "'a queue \<Rightarrow> int \<Rightarrow> 'a option" where
  "ring_at q i = arr_get (q_buffer q) (js_and (q_head q + i) (q_mask q))"

text \<open>The copy loop of \<open>_grow\<close> and \<open>shrink\<close>: \<open>nb[i] = ring_at i\<close> for \<open>i < size\<close>.\<close>

definition ring_copy :: "'a queue \<Rightarrow> 'a option list \<Rightarrow> 'a option list" where
  "ring_copy q nb = fold (\<lambda>i nb. arr_set nb (int i) (ring_at q (int i))) [0..<nat (q_size q)] nb"

definition queue_grow :: "'a queue \<Rightarrow> ('a queue, unit) step" where
  "queue_grow q =
     (let newCap = js_shl1 (q_capacity q) in
      case new_array newCap of
        Inl e \<Rightarrow> (q, Inl e)
      | Inr nb \<Rightarrow>
          (q\<lparr>q_buffer := ring_copy q nb, q_capacity := newCap, q_mask := newCap - 1,
             q_head := 0, q_tail := js_and (q_size q) (newCap - 1)\<rparr>, Inr ()))"

text \<open>\<open>while (this._capacity < need) this._grow()\<close>; \<open>None\<close> when it never ends.\<close>

partial_function (option) grow_until :: "int \<Rightarrow> 'a queue \<Rightarrow> ('a queue, unit) step option" where
  "grow_until need q =
     (if q_capacity q < need then
        (case queue_grow q of
           (q1, Inl e) \<Rightarrow> Some (q1, Inl e)
         | (q1, Inr u) \<Rightarrow> grow_until need q1)
      else Some (q, Inr ()))"

declare grow_until.simps [code]

definition queue_push :: "('a \<Rightarrow> js_val) \<Rightarrow> 'a \<Rightarrow> 'a queue \<Rightarrow> ('a queue, int) step" where
  "queue_push wt x q =
     (case (if q_size q = q_capacity q then queue_grow q else (q, Inr ())) of
        (q1, Inl e) \<Rightarrow> (q1, Inl e)
      | (q1, Inr u) \<Rightarrow>
          (let q2 = q1\<lparr>q_buffer := arr_set (q_buffer q1) (q_tail q1) (Some x),
                       q_tail := js_and (q_tail q1 + 1) (q_mask q1),
                       q_size := q_size q1 + 1,
                       q_total := q_total q1 + itemWeight (wt x)\<rparr>
           in (q2, Inr (q_size q2))))"

definition queue_unshift :: "('a \<Rightarrow> js_val) \<Rightarrow> 'a \<Rightarrow> 'a queue \<Rightarrow> ('a queue, int) step" where
  "queue_unshift wt x q =
     (case (if q_size q = q_capacity q then queue_grow q else (q, Inr ())) of
        (q1, Inl e) \<Rightarrow> (q1, Inl e)
      | (q1, Inr u) \<Rightarrow>
          (let head = js_and (q_head q1 - 1) (q_mask q1);
               q2 = q1\<lparr>q_buffer := arr_set (q_buffer q1) head (Some x),
                       q_head := head,
                       q_size := q_size q1 + 1,
                       q_total := q_total q1 + itemWeight (wt x)\<rparr>
           in (q2, Inr (q_size q2))))"

text \<open>\<open>None\<close> as the returned item is \<open>undefined\<close>.\<close>

definition queue_shift :: "('a \<Rightarrow> js_val) \<Rightarrow> 'a queue \<Rightarrow> 'a queue \<times> 'a option" where
  "queue_shift wt q =
     (if q_size q = 0 then (q, None)
      else
        let v = arr_get (q_buffer q) (q_head q) in
        (q\<lparr>q_buffer := arr_set (q_buffer q) (q_head q) None,
           q_head := js_and (q_head q + 1) (q_mask q),
           q_size := q_size q - 1,
           q_total := q_total q - slotWeight wt v\<rparr>, v))"

definition queue_peek :: "'a queue \<Rightarrow> 'a option" where
  "queue_peek q = (if q_size q = 0 then None else arr_get (q_buffer q) (q_head q))"

primrec clear_slots :: "nat \<Rightarrow> int \<Rightarrow> int \<Rightarrow> 'a option list \<Rightarrow> 'a option list" where
  "clear_slots 0 i msk buf = buf"
| "clear_slots (Suc n) i msk buf =
     clear_slots n (js_and (i + 1) msk) msk (arr_set buf i None)"

definition queue_clear :: "'a queue \<Rightarrow> 'a queue" where
  "queue_clear q =
     (if q_size q = 0 then q
      else q\<lparr>q_buffer := clear_slots (nat (q_size q)) (q_head q) (q_mask q) (q_buffer q),
             q_head := 0, q_tail := 0, q_size := 0, q_total := 0\<rparr>)"

definition queue_shrink :: "js_val \<Rightarrow> 'a queue \<Rightarrow> ('a queue, int) step option" where
  "queue_shrink minimum q =
     (let m = (if minimum = JUndefined then JNum (Fin POWER_QUEUE_INITIAL_CAPACITY) else minimum) in
      case assertLimitRequired m (queue_limit_spec ''minimum'') of
        Inl e \<Rightarrow> Some (q, Inl e)
      | Inr requested \<Rightarrow>
          (case round_pow2 (num_max (num_max (Fin 2) requested) (Fin (of_int (q_size q)))) 1 of
             None \<Rightarrow> None
           | Some cap \<Rightarrow>
               (if q_capacity q \<le> cap then Some (q, Inr (q_capacity q))
                else case new_array cap of
                  Inl e \<Rightarrow> Some (q, Inl e)
                | Inr nb \<Rightarrow>
                    Some (q\<lparr>q_buffer := ring_copy q nb, q_capacity := cap, q_mask := cap - 1,
                            q_head := 0, q_tail := js_and (q_size q) (cap - 1)\<rparr>, Inr cap))))"

text \<open>One contiguous block: \<open>buffer[tail + j] = src(idx + j)\<close> for \<open>j < n\<close>.\<close>

definition write_block ::
  "(nat \<Rightarrow> 'a) \<Rightarrow> nat \<Rightarrow> nat \<Rightarrow> int \<Rightarrow> 'a option list \<Rightarrow> 'a option list" where
  "write_block src idx n tail buf =
     fold (\<lambda>j buf. arr_set buf (tail + int j) (Some (src (idx + j)))) [0..<n] buf"

text \<open>
  The block loop of \<open>fill\<close> and \<open>pushMany\<close>: it writes \<open>src idx\<close> up to
  \<open>src (len - 1)\<close> at the tail, wrapping at the end of the buffer.
\<close>

partial_function (option) write_blocks ::
  "(nat \<Rightarrow> 'a) \<Rightarrow> int \<Rightarrow> int \<Rightarrow> 'a queue \<Rightarrow> 'a queue option" where
  "write_blocks src idx len q =
     (if idx < len then
        (let block = min (len - idx) (q_capacity q - q_tail q) in
         write_blocks src (idx + block) len
           (q\<lparr>q_buffer := write_block src (nat idx) (nat block) (q_tail q) (q_buffer q),
              q_tail := js_and (q_tail q + block) (q_mask q)\<rparr>))
      else Some q)"

declare write_blocks.simps [code]

definition queue_fill :: "('a \<Rightarrow> js_val) \<Rightarrow> 'a \<Rightarrow> js_val \<Rightarrow> 'a queue \<Rightarrow> ('a queue, int) step option" where
  "queue_fill wt x count q =
     (let c = (if count = JUndefined then JNum (Fin 1) else count) in
      case assertLimitRequired c
             ((limit_spec ''count'' ''PowerQueue'')\<lparr>sp_integer := True, sp_fallback := JNum (Fin 0)\<rparr>) of
        Inl e \<Rightarrow> Some (q, Inl e)
      | Inr (Fin r) \<Rightarrow>
          (let n = \<lfloor>r\<rfloor> in
           if n = 0 then Some (q, Inr (q_size q))
           else
             let w = itemWeight (wt x) * of_int n; need = q_size q + n in
             case grow_until need q of
               None \<Rightarrow> None
             | Some (q1, Inl e) \<Rightarrow> Some (q1, Inl e)
             | Some (q1, Inr u) \<Rightarrow>
                 (case write_blocks (\<lambda>_. x) 0 n q1 of
                    None \<Rightarrow> None
                  | Some q2 \<Rightarrow>
                      Some (q2\<lparr>q_size := need, q_total := q_total q2 + w\<rparr>, Inr need)))
      | Inr _ \<Rightarrow> None)"

definition queue_pushMany :: "('a \<Rightarrow> js_val) \<Rightarrow> 'a list \<Rightarrow> 'a queue \<Rightarrow> ('a queue, int) step option" where
  "queue_pushMany wt items q =
     (if items = [] then Some (q, Inr (q_size q))
      else
        let len = int (length items); need = q_size q + len in
        case grow_until need q of
          None \<Rightarrow> None
        | Some (q1, Inl e) \<Rightarrow> Some (q1, Inl e)
        | Some (q1, Inr u) \<Rightarrow>
            (let firstBlock = min len (q_capacity q1 - q_tail q1);
                 q2 = q1\<lparr>q_buffer := write_block (nth items) 0 (nat firstBlock) (q_tail q1) (q_buffer q1),
                         q_tail := js_and (q_tail q1 + firstBlock) (q_mask q1)\<rparr>
             in case write_blocks (nth items) firstBlock len q2 of
                  None \<Rightarrow> None
                | Some q3 \<Rightarrow>
                    Some (q3\<lparr>q_size := need,
                             q_total := fold (\<lambda>x t. t + itemWeight (wt x)) items (q_total q3)\<rparr>,
                          Inr need)))"

definition queue_unshiftMany :: "('a \<Rightarrow> js_val) \<Rightarrow> 'a list \<Rightarrow> 'a queue \<Rightarrow> ('a queue, int) step option" where
  "queue_unshiftMany wt items q =
     (if items = [] then Some (q, Inr (q_size q))
      else
        let len = int (length items); need = q_size q + len in
        case grow_until need q of
          None \<Rightarrow> None
        | Some (q1, Inl e) \<Rightarrow> Some (q1, Inl e)
        | Some (q1, Inr u) \<Rightarrow>
            (let start = js_and (q_head q1 - len) (q_mask q1) in
             Some (q1\<lparr>q_buffer := fold (\<lambda>i buf. arr_set buf (js_and (start + int i) (q_mask q1))
                                              (Some (items ! i))) [0..<length items] (q_buffer q1),
                      q_head := start, q_size := need,
                      q_total := fold (\<lambda>x t. t + itemWeight (wt x)) items (q_total q1)\<rparr>,
                   Inr need)))"

text \<open>The loop of \<open>removeAt\<close>: \<open>ring[i] = ring[i + 1]\<close> for \<open>index <= i < size - 1\<close>.\<close>

definition remove_loop :: "'a queue \<Rightarrow> nat \<Rightarrow> 'a option list" where
  "remove_loop q index =
     fold (\<lambda>i buf. arr_set buf (js_and (q_head q + int i) (q_mask q))
                     (arr_get buf (js_and (q_head q + int i + 1) (q_mask q))))
       [index..<nat (q_size q - 1)] (q_buffer q)"

definition queue_removeAt :: "('a \<Rightarrow> js_val) \<Rightarrow> int \<Rightarrow> 'a queue \<Rightarrow> 'a queue \<times> 'a option" where
  "queue_removeAt wt index q =
     (if index < 0 \<or> q_size q \<le> index then (q, None)
      else
        let removed = ring_at q index;
            buf = remove_loop q (nat index);
            tail = js_and (q_head q + q_size q - 1) (q_mask q)
        in (q\<lparr>q_buffer := arr_set buf tail None, q_tail := tail, q_size := q_size q - 1,
              q_total := q_total q - slotWeight wt removed\<rparr>, removed))"

text \<open>The scan of \<open>shiftHighestPriority\<close>: the first index of a strictly greatest priority.\<close>

fun best_index :: "('a option \<Rightarrow> js_num) \<Rightarrow> 'a queue \<Rightarrow> nat list \<Rightarrow> nat \<Rightarrow> js_num \<Rightarrow> nat" where
  "best_index priorityFn q [] bestIdx bestPri = bestIdx"
| "best_index priorityFn q (i # is) bestIdx bestPri =
     (let pri = priorityFn (ring_at q (int i)) in
      if num_lt bestPri pri then best_index priorityFn q is i pri
      else best_index priorityFn q is bestIdx bestPri)"

definition queue_shiftHighestPriority ::
  "('a \<Rightarrow> js_val) \<Rightarrow> ('a option \<Rightarrow> js_num) \<Rightarrow> 'a queue \<Rightarrow> 'a queue \<times> 'a option" where
  "queue_shiftHighestPriority wt priorityFn q =
     (if q_size q = 0 then (q, None)
      else
        let bestPri = priorityFn (arr_get (q_buffer q) (js_and (q_head q) (q_mask q)))
        in queue_removeAt wt (int (best_index priorityFn q [1..<nat (q_size q)] 0 bestPri)) q)"

definition queue_toArray :: "'a queue \<Rightarrow> 'a option list" where
  "queue_toArray q = map (\<lambda>i. ring_at q (int i)) [0..<nat (q_size q)]"

definition queue_entries :: "'a queue \<Rightarrow> (nat \<times> 'a option) list" where
  "queue_entries q = map (\<lambda>n. (n, ring_at q (int n))) [0..<nat (q_size q)]"

function queue_drain :: "('a \<Rightarrow> js_val) \<Rightarrow> 'a queue \<Rightarrow> 'a queue \<times> 'a option list" where
  "queue_drain wt q =
     (if 0 < q_size q then
        (let (q1, v) = queue_shift wt q; (q2, vs) = queue_drain wt q1 in (q2, v # vs))
      else (q, []))"
  by pat_completeness auto
termination
  by (relation "measure (\<lambda>(wt, q). nat (q_size q))") (auto simp: queue_shift_def Let_def)

declare queue_drain.simps [simp del]

definition queue_dispose :: "'a queue \<Rightarrow> ('a queue, unit) step" where
  "queue_dispose q =
     (let q1 = queue_clear q in
      case new_array (q_capacity q1) of
        Inl e \<Rightarrow> (q1, Inl e)
      | Inr buf \<Rightarrow> (q1\<lparr>q_buffer := buf, q_head := 0, q_tail := 0\<rparr>, Inr ()))"

section \<open>Representation\<close>

text \<open>
  The shape every reachable buffer keeps: a power-of-two capacity that fits a 32-bit
  shift, the mask derived from it, and head, tail and size in range.
\<close>

definition queue_shape :: "'a queue \<Rightarrow> bool" where
  "queue_shape q \<longleftrightarrow>
     (\<exists>k. 1 \<le> k \<and> k \<le> 30 \<and> q_capacity q = 2 ^ k) \<and> q_mask q = q_capacity q - 1 \<and>
     int (length (q_buffer q)) = q_capacity q \<and>
     0 \<le> q_head q \<and> q_head q < q_capacity q \<and>
     0 \<le> q_size q \<and> q_size q \<le> q_capacity q \<and>
     q_tail q = (q_head q + q_size q) mod q_capacity q"

definition weights :: "('a \<Rightarrow> js_val) \<Rightarrow> 'a list \<Rightarrow> rat" where
  "weights wt xs = sum_list (map (\<lambda>x. itemWeight (wt x)) xs)"

text \<open>
  \<open>queue_rep wt q xs\<close>: the buffer holds exactly the items \<open>xs\<close>, in order from the
  head; every other slot is empty, and the running weight is their total weight.
\<close>

definition slot_of :: "'a list \<Rightarrow> int \<Rightarrow> 'a option" where
  "slot_of xs i = (if 0 \<le> i \<and> i < int (length xs) then Some (xs ! nat i) else None)"

definition queue_rep :: "('a \<Rightarrow> js_val) \<Rightarrow> 'a queue \<Rightarrow> 'a list \<Rightarrow> bool" where
  "queue_rep wt q xs \<longleftrightarrow>
     queue_shape q \<and> q_size q = int (length xs) \<and> q_total q = weights wt xs \<and>
     (\<forall>i. 0 \<le> i \<and> i < q_capacity q \<longrightarrow>
        arr_get (q_buffer q) ((q_head q + i) mod q_capacity q) = slot_of xs i)"

lemma weights_simps [simp]:
  "weights wt [] = 0" "weights wt (x # xs) = itemWeight (wt x) + weights wt xs"
  "weights wt (xs @ ys) = weights wt xs + weights wt ys"
  by (simp_all add: weights_def)

lemma queue_shape_pos: "queue_shape q \<Longrightarrow> 2 \<le> q_capacity q \<and> q_capacity q \<le> 2 ^ 30"
proof -
  assume "queue_shape q"
  then obtain k where k: "1 \<le> k" "k \<le> 30" "q_capacity q = 2 ^ k" by (auto simp: queue_shape_def)
  have "(2::int) ^ 1 \<le> 2 ^ k" using k(1) by (intro power_increasing) auto
  moreover have "(2::int) ^ k \<le> 2 ^ 30" using k(2) by (intro power_increasing) auto
  ultimately show ?thesis using k(3) by simp
qed

lemma mask_mod: "queue_shape q \<Longrightarrow> js_and x (q_mask q) = x mod q_capacity q"
  by (auto simp: queue_shape_def js_and_mask)

lemma capacity_mask_mod: "queue_shape q \<Longrightarrow> js_and x (q_capacity q - 1) = x mod q_capacity q"
  by (auto simp: queue_shape_def js_and_mask)

lemma ring_at_mod: "queue_shape q \<Longrightarrow> ring_at q i = arr_get (q_buffer q) ((q_head q + i) mod q_capacity q)"
  by (simp add: ring_at_def mask_mod)

lemma ring_inj:
  fixes c :: int
  assumes "0 \<le> i" "i < c" "0 \<le> j" "j < c"
  shows "(h + i) mod c = (h + j) mod c \<longleftrightarrow> i = j"
proof
  assume "(h + i) mod c = (h + j) mod c"
  then have "c dvd (h + i) - (h + j)" by (simp add: mod_eq_dvd_iff)
  then have "c dvd i - j" by simp
  then show "i = j" using assms by (metis mod_eq_dvd_iff mod_pos_pos_trivial)
qed simp

lemma slot_of_simps [simp]:
  "slot_of [] i = None"
  "slot_of (x # xs) 0 = Some x"
  by (simp_all add: slot_of_def)

lemma slot_of_Cons: "0 \<le> i \<Longrightarrow> slot_of (x # xs) (i + 1) = slot_of xs i"
  by (auto simp: slot_of_def nat_add_distrib)

lemma slot_of_snoc:
  "slot_of (xs @ [x]) i = (if i = int (length xs) then Some x else slot_of xs i)"
  by (auto simp: slot_of_def nth_append)

lemma queue_rep_ring_at:
  "queue_rep wt q xs \<Longrightarrow> 0 \<le> i \<Longrightarrow> i < q_capacity q \<Longrightarrow> ring_at q i = slot_of xs i"
  by (auto simp: queue_rep_def ring_at_mod)

lemma queue_rep_size: "queue_rep wt q xs \<Longrightarrow> q_size q = int (length xs)"
  by (simp add: queue_rep_def)

lemma queue_rep_shape: "queue_rep wt q xs \<Longrightarrow> queue_shape q"
  by (simp add: queue_rep_def)

lemma queue_rep_length: "queue_rep wt q xs \<Longrightarrow> int (length xs) \<le> q_capacity q"
  by (auto simp: queue_rep_def queue_shape_def)

lemma queue_toArray_rep:
  assumes "queue_rep wt q xs"
  shows "queue_toArray q = map Some xs"
proof (rule nth_equalityI)
  show "length (queue_toArray q) = length (map Some xs)"
    using assms by (simp add: queue_toArray_def queue_rep_size)
next
  fix i assume "i < length (queue_toArray q)"
  then have i: "i < length xs" using assms by (simp add: queue_toArray_def queue_rep_size)
  then have "ring_at q (int i) = slot_of xs (int i)"
    using queue_rep_length [OF assms] by (intro queue_rep_ring_at [OF assms]) auto
  then show "queue_toArray q ! i = map Some xs ! i"
    using i by (simp add: queue_toArray_def queue_rep_size [OF assms] slot_of_def)
qed

lemma queue_rep_unique: "queue_rep wt q xs \<Longrightarrow> queue_rep wt q ys \<Longrightarrow> xs = ys"
  using queue_toArray_rep by (metis list.inj_map_strong option.inject)

lemma queue_rep_empty:
  assumes "1 \<le> k" "k \<le> 30"
  shows "queue_rep wt (queue_empty (2 ^ k) (replicate (nat (2 ^ k)) None)) []"
  using assms by (auto simp: queue_rep_def queue_shape_def queue_empty_def)

section \<open>Growing and shrinking\<close>

lemma length_ring_copy:
  assumes "nat (q_size q) \<le> length nb"
  shows "length (ring_copy q nb) = length nb"
proof -
  have "length (fold (\<lambda>i nb. arr_set nb (int i) (ring_at q (int i))) [0..<n] nb) = length nb"
    if "n \<le> length nb" for n
    using that by (induction n) auto
  then show ?thesis using assms by (simp add: ring_copy_def)
qed

lemma arr_get_ring_copy:
  assumes "nat (q_size q) \<le> length nb" "0 \<le> i"
  shows "arr_get (ring_copy q nb) i = (if i < q_size q then ring_at q i else arr_get nb i)"
proof -
  have len: "length (fold (\<lambda>i nb. arr_set nb (int i) (ring_at q (int i))) [0..<n] nb) = length nb"
    if "n \<le> length nb" for n
    using that by (induction n) auto
  have "arr_get (fold (\<lambda>i nb. arr_set nb (int i) (ring_at q (int i))) [0..<n] nb) i =
        (if i < int n then ring_at q i else arr_get nb i)" if "n \<le> length nb" for n
    using that
  proof (induction n)
    case (Suc n)
    then show ?case using len [of n] assms(2) by auto
  qed (use assms(2) in auto)
  then show ?thesis using assms by (auto simp: ring_copy_def)
qed

text \<open>Laying the items out from slot 0 of a fresh, large enough buffer keeps them.\<close>

lemma queue_rep_relayout:
  assumes rep: "queue_rep wt q xs" and k: "1 \<le> k" "k \<le> 30" and room: "int (length xs) \<le> 2 ^ k"
  shows "queue_rep wt (q\<lparr>q_buffer := ring_copy q (replicate (nat (2 ^ k)) None), q_capacity := 2 ^ k,
           q_mask := 2 ^ k - 1, q_head := 0, q_tail := js_and (q_size q) (2 ^ k - 1)\<rparr>) xs"
proof -
  have n: "nat (q_size q) \<le> length (replicate (nat (2 ^ k)) None)"
    using nat_mono [OF room] by (simp add: queue_rep_size [OF rep])
  have "arr_get (ring_copy q (replicate (nat (2 ^ k)) None)) i = slot_of xs i" if "0 \<le> i" "i < 2 ^ k" for i
    using arr_get_ring_copy [OF n that(1)] that queue_rep_size [OF rep] queue_rep_length [OF rep]
      queue_rep_ring_at [OF rep that(1)] by (auto simp: slot_of_def)
  then show ?thesis
    using rep k room length_ring_copy [OF n]
    by (auto simp: queue_rep_def queue_shape_def js_and_mask)
qed

lemma queue_grow_rep:
  assumes rep: "queue_rep wt q xs" and small: "q_capacity q < 2 ^ 30"
  shows "\<exists>q'. queue_grow q = (q', Inr ()) \<and> queue_rep wt q' xs \<and> q_capacity q' = 2 * q_capacity q"
proof -
  obtain k where k: "1 \<le> k" "k \<le> 30" "q_capacity q = 2 ^ k"
    using queue_rep_shape [OF rep] by (auto simp: queue_shape_def)
  have k30: "k < 30"
  proof (rule ccontr)
    assume "\<not> k < 30"
    then have "k = 30" using k by simp
    then show False using small k by simp
  qed
  have cap: "js_shl1 (q_capacity q) = 2 ^ Suc k" using js_shl1_pow [OF k30] k by simp
  have room: "int (length xs) \<le> 2 ^ Suc k"
  proof -
    have "int (length xs) \<le> 2 ^ k" using queue_rep_length [OF rep] k(3) by metis
    moreover have "(2::int) ^ k \<le> 2 ^ Suc k" by simp
    ultimately show ?thesis by linarith
  qed
  have "(2::int) ^ Suc k \<le> 2 ^ 30" using k30 by (intro power_increasing) auto
  then have arr: "new_array (2 ^ Suc k) = Inr (replicate (nat (2 ^ Suc k)) None)"
    by (simp add: new_array_def)
  have g: "queue_grow q = (q\<lparr>q_buffer := ring_copy q (replicate (nat (2 ^ Suc k)) None),
      q_capacity := 2 ^ Suc k, q_mask := 2 ^ Suc k - 1, q_head := 0,
      q_tail := js_and (q_size q) (2 ^ Suc k - 1)\<rparr>, Inr ())"
    by (simp only: queue_grow_def cap arr Let_def sum.case)
  show ?thesis
    using queue_rep_relayout [OF rep _ _ room] k30 k(3) by (simp add: g)
qed

lemma queue_grow_full:
  "q_capacity q = 2 ^ 30 \<Longrightarrow> queue_grow q = (q, Inl InvalidArrayLength)"
  by (simp add: queue_grow_def js_shl1_top [simplified] new_array_def Let_def)

lemma grow_until_ok:
  assumes "queue_rep wt q xs" "need \<le> 2 ^ 30"
  shows "\<exists>q'. grow_until need q = Some (q', Inr ()) \<and> queue_rep wt q' xs \<and> need \<le> q_capacity q' \<and>
     q_capacity q \<le> q_capacity q'"
  using assms
proof (induction "nat (2 ^ 30 - q_capacity q)" arbitrary: q rule: less_induct)
  case less
  show ?case
  proof (cases "q_capacity q < need")
    case False
    then show ?thesis using less.prems by (subst grow_until.simps) auto
  next
    case True
    then have lt: "q_capacity q < 2 ^ 30" using less.prems by simp
    obtain q1 where q1: "queue_grow q = (q1, Inr ())" "queue_rep wt q1 xs" "q_capacity q1 = 2 * q_capacity q"
      using queue_grow_rep [OF less.prems(1) lt] by blast
    have pos: "2 \<le> q_capacity q" using queue_shape_pos queue_rep_shape less.prems(1) by blast
    have "nat (2 ^ 30 - q_capacity q1) < nat (2 ^ 30 - q_capacity q)"
      using q1(3) pos lt by simp
    then obtain q' where "grow_until need q1 = Some (q', Inr ())" "queue_rep wt q' xs"
        "need \<le> q_capacity q'" "q_capacity q1 \<le> q_capacity q'"
      using less.hyps [OF _ q1(2) less.prems(2)] by blast
    then show ?thesis using True q1 pos
      by (subst grow_until.simps) auto
  qed
qed

section \<open>Adding and removing one item\<close>

text \<open>Writing one free slot \<open>h'\<close> turns a representation into that of \<open>ys\<close>.\<close>

lemma queue_push_room:
  assumes rep: "queue_rep wt q xs" and room: "q_size q < q_capacity q"
  shows "queue_rep wt (q\<lparr>q_buffer := arr_set (q_buffer q) (q_tail q) (Some x),
           q_tail := js_and (q_tail q + 1) (q_mask q), q_size := q_size q + 1,
           q_total := q_total q + itemWeight (wt x)\<rparr>) (xs @ [x])"
proof -
  let ?c = "q_capacity q" and ?h = "q_head q" and ?n = "int (length xs)"
  note sh = queue_rep_shape [OF rep]
  have n: "q_size q = ?n" by (rule queue_rep_size [OF rep])
  have t: "q_tail q = (?h + ?n) mod ?c" "0 \<le> q_tail q" "q_tail q < ?c" "0 < ?c"
    using sh queue_shape_pos [OF sh] n by (auto simp: queue_shape_def)
  have len: "int (length (q_buffer q)) = ?c" using sh by (simp add: queue_shape_def)
  have "arr_get (arr_set (q_buffer q) (q_tail q) (Some x)) ((?h + i) mod ?c) = slot_of (xs @ [x]) i"
    if i: "0 \<le> i" "i < ?c" for i
  proof -
    have "q_tail q = (?h + i) mod ?c \<longleftrightarrow> i = ?n"
      using ring_inj [of i ?c ?n ?h] i n room t(1) by auto
    then show ?thesis
      using i t len rep by (auto simp: slot_of_snoc queue_rep_def)
  qed
  moreover have "js_and (q_tail q + 1) (q_mask q) = (?h + (?n + 1)) mod ?c"
    using t by (simp add: mask_mod [OF sh] mod_simps add.assoc)
  ultimately show ?thesis
    using rep room sh n t len by (auto simp: queue_rep_def queue_shape_def)
qed

lemma queue_unshift_room:
  assumes rep: "queue_rep wt q xs" and room: "q_size q < q_capacity q"
  shows "queue_rep wt (q\<lparr>q_buffer := arr_set (q_buffer q) (js_and (q_head q - 1) (q_mask q)) (Some x),
           q_head := js_and (q_head q - 1) (q_mask q), q_size := q_size q + 1,
           q_total := q_total q + itemWeight (wt x)\<rparr>) (x # xs)"
proof -
  let ?c = "q_capacity q" and ?h = "(q_head q - 1) mod q_capacity q" and ?n = "int (length xs)"
  note sh = queue_rep_shape [OF rep]
  have n: "q_size q = ?n" by (rule queue_rep_size [OF rep])
  have c: "0 < ?c" using queue_shape_pos [OF sh] by simp
  have m: "js_and (q_head q - 1) (q_mask q) = ?h" by (rule mask_mod [OF sh])
  have h: "0 \<le> ?h" "?h < ?c" using c by simp_all
  have len: "int (length (q_buffer q)) = ?c" using sh by (simp add: queue_shape_def)
  have shift: "(?h + i) mod ?c = (q_head q + (i - 1)) mod ?c" for i
    by (simp add: mod_simps algebra_simps)
  have "arr_get (arr_set (q_buffer q) ?h (Some x)) ((?h + i) mod ?c) = slot_of (x # xs) i"
    if i: "0 \<le> i" "i < ?c" for i
  proof (cases "i = 0")
    case True
    then show ?thesis using h len by simp
  next
    case False
    then have i1: "0 \<le> i - 1" "i - 1 < ?c" using i by auto
    have "?h \<noteq> (?h + i) mod ?c"
      using ring_inj [of 0 ?c i ?h] i False c by simp
    then have "arr_get (arr_set (q_buffer q) ?h (Some x)) ((?h + i) mod ?c) = slot_of xs (i - 1)"
      using h len rep i1 by (simp add: shift queue_rep_def)
    then show ?thesis using slot_of_Cons [OF i1(1), of x xs] by simp
  qed
  moreover have "(?h + (?n + 1)) mod ?c = q_tail q"
    using sh n by (simp add: shift queue_shape_def)
  ultimately show ?thesis
    unfolding m using rep room sh n h len by (auto simp: queue_rep_def queue_shape_def)
qed

text \<open>Growing when full, then writing: the two enqueues below the largest capacity.\<close>

lemma queue_grow_if_full:
  assumes rep: "queue_rep wt q xs" and room: "length xs < 2 ^ 30"
  shows "\<exists>q1. (if q_size q = q_capacity q then queue_grow q else (q, Inr ())) = (q1, Inr ())
     \<and> queue_rep wt q1 xs \<and> q_size q1 < q_capacity q1"
proof (cases "q_size q = q_capacity q")
  case True
  have "int (length xs) < 2 ^ 30" using room by (simp flip: of_nat_less_iff)
  then have "q_capacity q < 2 ^ 30" using True queue_rep_size [OF rep] by simp
  then show ?thesis
    using queue_grow_rep [OF rep] True queue_shape_pos [OF queue_rep_shape [OF rep]]
    by (fastforce dest: queue_rep_size simp: queue_rep_size [OF rep])
next
  case False
  then show ?thesis using rep queue_rep_length [OF rep] queue_rep_size [OF rep] by auto
qed

lemma queue_push_rep:
  assumes "queue_rep wt q xs" and "length xs < 2 ^ 30"
  shows "\<exists>q'. queue_push wt x q = (q', Inr (int (length xs) + 1)) \<and> queue_rep wt q' (xs @ [x])"
proof -
  obtain q1 where q1: "(if q_size q = q_capacity q then queue_grow q else (q, Inr ())) = (q1, Inr ())"
      "queue_rep wt q1 xs" "q_size q1 < q_capacity q1"
    using queue_grow_if_full [OF assms] by blast
  then show ?thesis
    using queue_push_room [OF q1(2,3), of x] queue_rep_size [OF q1(2)]
    by (simp add: queue_push_def Let_def)
qed

lemma queue_unshift_rep:
  assumes "queue_rep wt q xs" and "length xs < 2 ^ 30"
  shows "\<exists>q'. queue_unshift wt x q = (q', Inr (int (length xs) + 1)) \<and> queue_rep wt q' (x # xs)"
proof -
  obtain q1 where q1: "(if q_size q = q_capacity q then queue_grow q else (q, Inr ())) = (q1, Inr ())"
      "queue_rep wt q1 xs" "q_size q1 < q_capacity q1"
    using queue_grow_if_full [OF assms] by blast
  then show ?thesis
    using queue_unshift_room [OF q1(2,3), of x] queue_rep_size [OF q1(2)]
    by (simp add: queue_unshift_def Let_def)
qed

text \<open>At the largest capacity an enqueue throws and leaves the queue as it was.\<close>

lemma queue_full_throws:
  assumes rep: "queue_rep wt q xs" and full: "length xs = 2 ^ 30"
  shows "queue_push wt x q = (q, Inl InvalidArrayLength)"
    and "queue_unshift wt x q = (q, Inl InvalidArrayLength)"
proof -
  have "q_size q = 2 ^ 30" "q_capacity q = 2 ^ 30"
    using queue_rep_size [OF rep] queue_rep_length [OF rep] full
      queue_shape_pos [OF queue_rep_shape [OF rep]] by auto
  then show "queue_push wt x q = (q, Inl InvalidArrayLength)"
    and "queue_unshift wt x q = (q, Inl InvalidArrayLength)"
    using queue_grow_full [of q] by (simp_all add: queue_push_def queue_unshift_def)
qed

lemma queue_rep_head:
  "queue_rep wt q (x # xs) \<Longrightarrow> arr_get (q_buffer q) (q_head q) = Some x"
proof -
  assume rep: "queue_rep wt q (x # xs)"
  then have "arr_get (q_buffer q) ((q_head q + 0) mod q_capacity q) = slot_of (x # xs) 0"
    using queue_shape_pos [OF queue_rep_shape [OF rep]] by (auto simp: queue_rep_def)
  then show ?thesis using queue_rep_shape [OF rep] by (simp add: queue_shape_def)
qed

lemma queue_peek_rep:
  "queue_rep wt q xs \<Longrightarrow> queue_peek q = (case xs of [] \<Rightarrow> None | x # _ \<Rightarrow> Some x)"
  by (auto simp: queue_peek_def queue_rep_size queue_rep_head split: list.split)

lemma queue_shift_empty: "queue_rep wt q [] \<Longrightarrow> queue_shift wt q = (q, None)"
  by (simp add: queue_shift_def queue_rep_size)

lemma queue_shift_rep:
  assumes rep: "queue_rep wt q (x # xs)"
  shows "\<exists>q'. queue_shift wt q = (q', Some x) \<and> queue_rep wt q' xs"
proof -
  let ?c = "q_capacity q" and ?h = "q_head q" and ?n = "int (length xs)"
  note sh = queue_rep_shape [OF rep]
  have n: "q_size q = ?n + 1" using queue_rep_size [OF rep] by simp
  have c: "0 < ?c" using queue_shape_pos [OF sh] by simp
  have h: "0 \<le> ?h" "?h < ?c" using sh by (simp_all add: queue_shape_def)
  have len: "int (length (q_buffer q)) = ?c" using sh by (simp add: queue_shape_def)
  have hm: "?h mod ?c = ?h" using h by simp
  let ?q = "q\<lparr>q_buffer := arr_set (q_buffer q) ?h None, q_head := (?h + 1) mod ?c,
       q_size := ?n, q_total := weights wt xs\<rparr>"
  have "arr_get (arr_set (q_buffer q) ?h None) ((?h + (i + 1)) mod ?c) = slot_of xs i"
    if i: "0 \<le> i" "i < ?c" for i
  proof (cases "i + 1 = ?c")
    case True
    then have "(?h + (i + 1)) mod ?c = ?h" using hm by simp
    moreover have "?n \<le> i" using True sh n by (simp add: queue_shape_def)
    ultimately show ?thesis using h len by (simp add: slot_of_def)
  next
    case False
    then have i1: "0 \<le> i + 1" "i + 1 < ?c" using i by auto
    have "?h \<noteq> (?h + (i + 1)) mod ?c"
      using ring_inj [of 0 ?c "i + 1" ?h] i1 i c hm by simp
    then show ?thesis
      using h len rep i i1 slot_of_Cons [OF i(1), of x xs] by (simp add: queue_rep_def)
  qed
  moreover have "((?h + 1) mod ?c + i) mod ?c = (?h + (i + 1)) mod ?c" for i
    by (simp add: mod_simps algebra_simps)
  ultimately have "queue_rep wt ?q xs"
    using rep sh n h len c by (auto simp: queue_rep_def queue_shape_def algebra_simps)
  moreover have "queue_shift wt q = (?q, Some x)"
    using rep n by (simp add: queue_shift_def queue_rep_head [OF rep] mask_mod [OF sh] Let_def queue_rep_def)
  ultimately show ?thesis by blast
qed

section \<open>Clearing, draining, disposing\<close>

lemma length_clear_slots:
  "queue_shape q \<Longrightarrow> length b = length (q_buffer q) \<Longrightarrow> 0 \<le> i \<Longrightarrow> i < q_capacity q \<Longrightarrow>
     length (clear_slots n i (q_mask q) b) = length b"
proof (induction n arbitrary: i b)
  case (Suc n)
  have "0 \<le> js_and (i + 1) (q_mask q) \<and> js_and (i + 1) (q_mask q) < q_capacity q"
    using queue_shape_pos [OF Suc.prems(1)] by (simp add: mask_mod [OF Suc.prems(1)])
  moreover have "length (arr_set b i None) = length b"
    using Suc.prems by (simp add: queue_shape_def)
  ultimately show ?case using Suc.IH Suc.prems by simp
qed simp

lemma clear_slots_get:
  assumes "queue_shape q" "length b = length (q_buffer q)" "0 \<le> i" "i < q_capacity q"
  shows "arr_get (clear_slots n i (q_mask q) b) j =
     (if \<exists>d. 0 \<le> d \<and> d < int n \<and> j = (i + d) mod q_capacity q then None else arr_get b j)"
  using assms
proof (induction n arbitrary: i b)
  case (Suc n)
  let ?c = "q_capacity q"
  have i1: "js_and (i + 1) (q_mask q) = (i + 1) mod ?c" by (rule mask_mod [OF Suc.prems(1)])
  have r: "0 \<le> (i + 1) mod ?c" "(i + 1) mod ?c < ?c"
    using queue_shape_pos [OF Suc.prems(1)] by simp_all
  have len: "int (length b) = ?c" using Suc.prems by (simp add: queue_shape_def)
  have "arr_get (clear_slots (Suc n) i (q_mask q) b) j =
      (if \<exists>d. 0 \<le> d \<and> d < int n \<and> j = ((i + 1) mod ?c + d) mod ?c then None
       else arr_get (arr_set b i None) j)"
    using Suc.IH [of "arr_set b i None" "(i + 1) mod ?c"] Suc.prems r len by (simp add: i1)
  moreover have "(\<exists>d. 0 \<le> d \<and> d < int (Suc n) \<and> j = (i + d) mod ?c) \<longleftrightarrow>
      j = i \<or> (\<exists>d. 0 \<le> d \<and> d < int n \<and> j = ((i + 1) mod ?c + d) mod ?c)" (is "?L \<longleftrightarrow> ?R")
  proof
    assume ?L
    then obtain d where d: "0 \<le> d" "d < int (Suc n)" "j = (i + d) mod ?c" by blast
    show ?R
    proof (cases "d = 0")
      case True
      then show ?thesis using d Suc.prems by simp
    next
      case False
      then have "0 \<le> d - 1 \<and> d - 1 < int n \<and> j = ((i + 1) mod ?c + (d - 1)) mod ?c"
        using d by (simp add: mod_simps)
      then show ?thesis by blast
    qed
  next
    assume ?R
    then show ?L
    proof
      assume "j = i"
      then show ?L using Suc.prems by (intro exI [of _ 0]) simp
    next
      assume "\<exists>d. 0 \<le> d \<and> d < int n \<and> j = ((i + 1) mod ?c + d) mod ?c"
      then obtain d where "0 \<le> d" "d < int n" "j = ((i + 1) mod ?c + d) mod ?c" by blast
      then show ?L by (intro exI [of _ "d + 1"]) (simp add: mod_simps algebra_simps)
    qed
  qed
  ultimately show ?case
    using Suc.prems len by (auto simp: arr_get_set)
qed auto

lemma queue_clear_rep:
  assumes rep: "queue_rep wt q xs"
  shows "queue_rep wt (queue_clear q) []"
proof (cases "q_size q = 0")
  case True
  then show ?thesis using rep queue_rep_size [OF rep] by (simp add: queue_clear_def)
next
  case False
  let ?c = "q_capacity q" and ?b = "clear_slots (nat (q_size q)) (q_head q) (q_mask q) (q_buffer q)"
  note sh = queue_rep_shape [OF rep]
  have h: "0 \<le> q_head q" "q_head q < ?c" and c: "0 < ?c"
    using sh queue_shape_pos [OF sh] by (auto simp: queue_shape_def)
  have "arr_get ?b (i mod ?c) = None" if "0 \<le> i" "i < ?c" for i
  proof -
    let ?d = "(i - q_head q) mod ?c"
    have d: "0 \<le> ?d" "?d < ?c" "(q_head q + ?d) mod ?c = i"
      using c that by (simp_all add: mod_simps)
    show ?thesis
    proof (cases "?d < q_size q")
      case True
      then show ?thesis using clear_slots_get [OF sh refl h, of "nat (q_size q)" i] d that
        by auto
    next
      case False
      have "arr_get (q_buffer q) i = slot_of xs ?d"
        using rep d by (auto simp: queue_rep_def)
      also have "\<dots> = None" using False queue_rep_size [OF rep] by (simp add: slot_of_def)
      finally show ?thesis
        using clear_slots_get [OF sh refl h, of "nat (q_size q)" i] that by simp
    qed
  qed
  then show ?thesis
    using False sh c length_clear_slots [OF sh refl h]
    by (auto simp: queue_rep_def queue_shape_def queue_clear_def)
qed

lemma queue_drain_rep:
  "queue_rep wt q xs \<Longrightarrow> \<exists>q'. queue_drain wt q = (q', map Some xs) \<and> queue_rep wt q' []"
proof (induction xs arbitrary: q)
  case Nil
  then show ?case by (subst queue_drain.simps) (simp add: queue_rep_size)
next
  case (Cons x xs)
  obtain q1 where q1: "queue_shift wt q = (q1, Some x)" "queue_rep wt q1 xs"
    using queue_shift_rep [OF Cons.prems] by blast
  obtain q' where "queue_drain wt q1 = (q', map Some xs)" "queue_rep wt q' []"
    using Cons.IH [OF q1(2)] by blast
  then show ?case
    using q1 queue_rep_size [OF Cons.prems] by (subst queue_drain.simps) simp
qed

lemma queue_dispose_rep:
  fixes q :: "'a queue"
  assumes rep: "queue_rep wt q xs"
  shows "\<exists>q'. queue_dispose q = (q', Inr ()) \<and> queue_rep wt q' []"
proof -
  let ?q = "queue_clear q"
  have r: "queue_rep wt ?q []" by (rule queue_clear_rep [OF rep])
  obtain k where k: "1 \<le> k" "k \<le> 30" "q_capacity ?q = 2 ^ k"
    using queue_rep_shape [OF r] by (auto simp: queue_shape_def)
  have "0 \<le> q_capacity ?q \<and> q_capacity ?q < 2 ^ 32"
    using queue_shape_pos [OF queue_rep_shape [OF r]] by simp
  then have "new_array (q_capacity ?q) = Inr (replicate (nat (q_capacity ?q)) (None :: 'a option))"
    unfolding new_array_def by simp
  then have "queue_dispose q =
      (?q\<lparr>q_buffer := replicate (nat (q_capacity ?q)) None, q_head := 0, q_tail := 0\<rparr>, Inr ())"
    by (simp add: queue_dispose_def Let_def)
  moreover have "queue_rep wt
      (?q\<lparr>q_buffer := replicate (nat (q_capacity ?q)) None, q_head := 0, q_tail := 0\<rparr>) []"
    using r queue_shape_pos [OF queue_rep_shape [OF r]]
    by (auto simp: queue_rep_def queue_shape_def)
  ultimately show ?thesis by blast
qed

section \<open>Rounding the capacity\<close>

lemma round_pow2_ok:
  assumes "k \<le> 30" "r \<le> 2 ^ 30"
  shows "\<exists>m. round_pow2 (Fin r) (2 ^ k) = Some (2 ^ m) \<and> k \<le> m \<and> m \<le> 30 \<and> r \<le> 2 ^ m \<and>
     (k < m \<longrightarrow> 2 ^ (m - 1) < r)"
  using assms
proof (induction "30 - k" arbitrary: k)
  case 0
  then have "k = 30" by simp
  then have "\<not> num_lt (Fin (of_int (2 ^ k))) (Fin r)" using 0 by simp
  then have "round_pow2 (Fin r) (2 ^ k) = Some (2 ^ k)" by (subst round_pow2.simps) simp
  then show ?case using 0 \<open>k = 30\<close> by (intro exI [of _ k]) simp
next
  case (Suc n)
  then have k: "k < 30" by simp
  show ?case
  proof (cases "2 ^ k < r")
    case True
    have "round_pow2 (Fin r) (2 ^ k) = round_pow2 (Fin r) (2 ^ Suc k)"
      using True js_shl1_pow [OF k] by (subst round_pow2.simps) simp
    moreover obtain m where "round_pow2 (Fin r) (2 ^ Suc k) = Some (2 ^ m)" "Suc k \<le> m" "m \<le> 30"
        "r \<le> 2 ^ m" "Suc k < m \<longrightarrow> 2 ^ (m - 1) < r"
    proof -
      have "n = 30 - Suc k" using Suc.hyps(2) by simp
      then show ?thesis using Suc.hyps(1) [of "Suc k"] Suc.prems k that by force
    qed
    moreover have "2 ^ (m - 1) < r"
      using True calculation by (cases "m = Suc k") auto
    ultimately show ?thesis by auto
  next
    case False
    then have "round_pow2 (Fin r) (2 ^ k) = Some (2 ^ k)" by (subst round_pow2.simps) simp
    then show ?thesis using False Suc.prems by auto
  qed
qed

text \<open>
  Above \<open>2 ^ 30\<close> the doubled capacity turns negative and then stays at zero, so the
  loop condition never fails: the loop has no result.
\<close>


lemma round_pow2_diverges:
  assumes "2 ^ 30 < r"
  shows "round_pow2 (Fin r) 1 = None"
proof (rule ccontr)
  define S :: "int set" where "S = {0, - (2 ^ 31)} \<union> (\<lambda>k. 2 ^ k) ` {..30}"
  assume "round_pow2 (Fin r) 1 \<noteq> None"
  then obtain c where ret: "round_pow2 (Fin r) 1 = Some c" by auto
  have closed: "js_shl1 x \<in> S" if "x \<in> S" for x
  proof -
    have "js_shl1 (2 ^ k) \<in> S" if "k \<le> 30" for k
    proof (cases "k = 30")
      case True
      then show ?thesis using js_shl1_top by (simp add: S_def)
    next
      case False
      then have "Suc k \<in> {..30}" "js_shl1 (2 ^ k) = 2 ^ Suc k" using that js_shl1_pow by simp_all
      then show ?thesis unfolding S_def by blast
    qed
    then show ?thesis using \<open>x \<in> S\<close> js_shl1_neg_top js_shl1_zero by (auto simp: S_def)
  qed
  have below: "of_int x < r" if "x \<in> S" for x
  proof -
    have "x \<le> 2 ^ 30" using that pow2_le30 by (auto simp: S_def)
    then have "of_int x \<le> (of_int (2 ^ 30) :: rat)" by (simp only: of_int_le_iff)
    then show ?thesis using assms by simp
  qed
  have "Fin r = Fin r \<longrightarrow> 1 \<notin> S"
  proof (rule round_pow2.raw_induct [where P = "\<lambda>want cap c. want = Fin r \<longrightarrow> cap \<notin> S", OF _ ret])
    fix f want cap c
    assume IH: "\<And>want cap c. f want cap = Some c \<Longrightarrow> want = Fin r \<longrightarrow> cap \<notin> S"
      and eq: "(if num_lt (Fin (of_int cap)) want then f want (js_shl1 cap) else Some cap) = Some c"
    show "want = Fin r \<longrightarrow> cap \<notin> S"
    proof (intro impI notI)
      assume w: "want = Fin r" and "cap \<in> S"
      then have "f want (js_shl1 cap) = Some c" using eq below by simp
      then show False using IH [of want "js_shl1 cap" c] w closed \<open>cap \<in> S\<close> by simp
    qed
  qed
  moreover have "1 \<in> S" by (auto simp: S_def image_iff intro!: bexI [of _ 0])
  ultimately show False by simp
qed

lemma new_array_pow2:
  "m \<le> 30 \<Longrightarrow> new_array (2 ^ m) = Inr (replicate (nat (2 ^ m)) None)"
  using pow2_le30 [of m] by (simp add: new_array_def)

lemma queue_shrink_rep:
  assumes rep: "queue_rep wt q xs" and r: "0 \<le> r" "r \<le> 2 ^ 30"
  shows "\<exists>q'. queue_shrink (JNum (Fin r)) q = Some (q', Inr (q_capacity q')) \<and> queue_rep wt q' xs \<and>
     q_capacity q' \<le> q_capacity q \<and> (q_capacity q \<noteq> q_capacity q' \<longrightarrow> r \<le> of_int (q_capacity q'))"
proof -
  let ?w = "max (max 2 r) (of_int (q_size q))"
  have s: "of_int (q_size q) \<le> (2 ^ 30 :: rat)"
  proof -
    have "q_size q \<le> 2 ^ 30"
      using queue_shape_pos [OF queue_rep_shape [OF rep]] queue_rep_length [OF rep] queue_rep_size [OF rep] by simp
    then have "of_int (q_size q) \<le> (of_int (2 ^ 30) :: rat)" by (simp only: of_int_le_iff)
    then show ?thesis by simp
  qed
  have "?w \<le> 2 ^ 30" using r s by simp
  then obtain m where m: "round_pow2 (Fin ?w) 1 = Some (2 ^ m)" "m \<le> 30" "?w \<le> 2 ^ m"
    using round_pow2_ok [of 0 ?w] by auto
  have m1: "1 \<le> m"
  proof (rule ccontr)
    assume "\<not> 1 \<le> m"
    then have "m = 0" by simp
    then show False using m(3) by simp
  qed
  have "of_int (q_size q) \<le> (of_int (2 ^ m) :: rat)" using m(3) by simp
  then have room: "int (length xs) \<le> 2 ^ m"
    using queue_rep_size [OF rep] by (simp only: of_int_le_iff)
  have lim: "assertLimitRequired (JNum (Fin r)) (queue_limit_spec ''minimum'') = Inr (Fin r)"
    using r by (simp add: assertLimitRequired_def assertLimit_def queue_limit_spec_def limit_spec_def)
  have mx: "num_max (num_max (Fin 2) (Fin r)) (Fin (of_int (q_size q))) = Fin ?w"
    by (auto simp: num_max_def max_def)
  show ?thesis
  proof (cases "q_capacity q \<le> 2 ^ m")
    case True
    then have "queue_shrink (JNum (Fin r)) q = Some (q, Inr (q_capacity q))"
      by (simp add: queue_shrink_def lim mx m(1) Let_def)
    then show ?thesis using rep by auto
  next
    case False
    then have "queue_shrink (JNum (Fin r)) q =
      Some (q\<lparr>q_buffer := ring_copy q (replicate (nat (2 ^ m)) None), q_capacity := 2 ^ m,
         q_mask := 2 ^ m - 1, q_head := 0, q_tail := js_and (q_size q) (2 ^ m - 1)\<rparr>, Inr (2 ^ m))"
      by (simp add: queue_shrink_def lim mx m(1) Let_def new_array_pow2 [OF m(2)])
    then show ?thesis
      using queue_rep_relayout [OF rep m1 m(2) room] False m(3) by auto
  qed
qed

section \<open>Removing at an index\<close>

lemma remove_loop_get:
  assumes rep: "queue_rep wt q xs" and "index \<le> m" "Suc m \<le> length xs"
  shows "length (fold (\<lambda>i buf. arr_set buf (js_and (q_head q + int i) (q_mask q))
             (arr_get buf (js_and (q_head q + int i + 1) (q_mask q)))) [index..<m] (q_buffer q))
           = length (q_buffer q) \<and>
     (\<forall>j. 0 \<le> j \<and> j < q_capacity q \<longrightarrow>
       arr_get (fold (\<lambda>i buf. arr_set buf (js_and (q_head q + int i) (q_mask q))
             (arr_get buf (js_and (q_head q + int i + 1) (q_mask q)))) [index..<m] (q_buffer q))
         ((q_head q + j) mod q_capacity q)
       = (if int index \<le> j \<and> j < int m then slot_of xs (j + 1) else slot_of xs j))"
  using assms(2,3)
proof (induction m)
  case 0
  then show ?case using rep by (simp add: queue_rep_def)
next
  case (Suc m)
  let ?c = "q_capacity q"
  note sh = queue_rep_shape [OF rep]
  show ?case
  proof (cases "index = Suc m")
    case True
    then show ?thesis using rep by (auto simp: queue_rep_def)
  next
    case False
    then have IH: "index \<le> m" "Suc m \<le> length xs" using Suc.prems by auto
    let ?b = "fold (\<lambda>i buf. arr_set buf (js_and (q_head q + int i) (q_mask q))
             (arr_get buf (js_and (q_head q + int i + 1) (q_mask q)))) [index..<m] (q_buffer q)"
    have b: "length ?b = length (q_buffer q)"
        "\<And>j. 0 \<le> j \<Longrightarrow> j < ?c \<Longrightarrow> arr_get ?b ((q_head q + j) mod ?c)
            = (if int index \<le> j \<and> j < int m then slot_of xs (j + 1) else slot_of xs j)"
      using Suc.IH IH by blast+
    have c: "0 < ?c" "int (Suc m) < ?c"
      using queue_shape_pos [OF sh] queue_rep_length [OF rep] Suc.prems by auto
    have v: "arr_get ?b ((q_head q + int m + 1) mod ?c) = slot_of xs (int m + 1)"
      using b(2) [of "int m + 1"] c by (simp add: add.assoc)
    have p: "0 \<le> (q_head q + int m) mod ?c" "(q_head q + int m) mod ?c < int (length ?b)"
      using c(1) b(1) sh by (simp_all add: queue_shape_def)
    have "(q_head q + int m) mod ?c = (q_head q + j) mod ?c \<longleftrightarrow> j = int m"
      if "0 \<le> j" "j < ?c" for j
      using ring_inj [of "int m" ?c j "q_head q"] that c by auto
    moreover have "[index..<Suc m] = [index..<m] @ [m]" using IH by simp
    ultimately show ?thesis
      using b p v IH(1) by (auto simp: mask_mod [OF sh])
  qed
qed

definition remove_nth :: "nat \<Rightarrow> 'a list \<Rightarrow> 'a list" where
  "remove_nth i xs = take i xs @ drop (Suc i) xs"

lemma slot_of_remove_nth:
  assumes "i < length xs" "0 \<le> j"
  shows "slot_of (remove_nth i xs) j =
     (if j < int i then slot_of xs j else if j < int (length xs) - 1 then slot_of xs (j + 1) else None)"
  using assms by (auto simp: slot_of_def remove_nth_def nth_append nat_less_iff nat_add_distrib
      min_def algebra_simps)

lemma weights_remove_nth:
  "i < length xs \<Longrightarrow> weights wt (remove_nth i xs) = weights wt xs - itemWeight (wt (xs ! i))"
proof -
  assume i: "i < length xs"
  have "xs = take i xs @ xs ! i # drop (Suc i) xs" using i by (rule id_take_nth_drop)
  then have "weights wt xs = weights wt (take i xs) + (itemWeight (wt (xs ! i)) + weights wt (drop (Suc i) xs))"
    by (metis weights_simps(2,3))
  then show ?thesis by (simp add: remove_nth_def)
qed

lemma queue_removeAt_rep:
  assumes rep: "queue_rep wt q xs" and i: "i < length xs"
  shows "\<exists>q'. queue_removeAt wt (int i) q = (q', Some (xs ! i)) \<and> queue_rep wt q' (remove_nth i xs)"
proof -
  let ?c = "q_capacity q" and ?n = "length xs"
  note sh = queue_rep_shape [OF rep]
  let ?b = "remove_loop q i" and ?t = "(q_head q + (int ?n - 1)) mod q_capacity q"
  have n: "q_size q = int ?n" by (rule queue_rep_size [OF rep])
  have nn: "nat (q_size q - 1) = ?n - 1" using n by simp
  have c: "0 < ?c" "int ?n \<le> ?c" using queue_shape_pos [OF sh] queue_rep_length [OF rep] by auto
  have b: "length ?b = length (q_buffer q)"
      "\<And>j. 0 \<le> j \<Longrightarrow> j < ?c \<Longrightarrow> arr_get ?b ((q_head q + j) mod ?c)
          = (if int i \<le> j \<and> j < int (?n - 1) then slot_of xs (j + 1) else slot_of xs j)"
    using remove_loop_get [OF rep, of i "?n - 1"] i unfolding remove_loop_def nn by auto
  have len: "int (length (q_buffer q)) = ?c" using sh by (simp add: queue_shape_def)
  have t: "0 \<le> ?t" "?t < int (length ?b)" using c len b(1) by simp_all
  have it: "ring_at q (int i) = Some (xs ! i)"
    using queue_rep_ring_at [OF rep, of "int i"] i c by (simp add: slot_of_def)
  have "arr_get (arr_set ?b ?t None) ((q_head q + j) mod ?c) = slot_of (remove_nth i xs) j"
    if j: "0 \<le> j" "j < ?c" for j
  proof -
    have "?t = (q_head q + j) mod ?c \<longleftrightarrow> j = int ?n - 1"
      using ring_inj [of "int ?n - 1" ?c j "q_head q"] j c i by (cases xs) auto
    then show ?thesis
      using t b(2) [OF j] i j by (auto simp: slot_of_remove_nth) (auto simp: slot_of_def)
  qed
  moreover have "length (remove_nth i xs) = ?n - 1" using i by (simp add: remove_nth_def)
  moreover have m: "js_and (q_head q + q_size q - 1) (q_mask q) = ?t"
    using n by (simp add: mask_mod [OF sh] algebra_simps)
  ultimately show ?thesis
    using rep sh n i c it b(1) weights_remove_nth [OF i, of wt]
    by (auto simp: queue_removeAt_def Let_def queue_rep_def queue_shape_def of_nat_diff algebra_simps)
qed

lemma best_index_first_max:
  assumes "\<And>i. i < n \<Longrightarrow> priorityFn (ring_at q (int i)) = Fin (p i)"
    and "lo \<le> n" "b < lo" "\<And>j. j < lo \<Longrightarrow> p j \<le> p b" "\<And>j. j < b \<Longrightarrow> p j < p b"
  shows "best_index priorityFn q [lo..<n] b (Fin (p b)) < n \<and>
     (\<forall>j<n. p j \<le> p (best_index priorityFn q [lo..<n] b (Fin (p b)))) \<and>
     (\<forall>j<best_index priorityFn q [lo..<n] b (Fin (p b)).
        p j < p (best_index priorityFn q [lo..<n] b (Fin (p b))))"
  using assms(2-)
proof (induction "n - lo" arbitrary: lo b)
  case 0
  then show ?case by simp
next
  case (Suc k)
  then have lo: "lo < n" by simp
  have u: "[lo..<n] = lo # [Suc lo..<n]" using lo by (simp add: upt_conv_Cons)
  show ?case
  proof (cases "p b < p lo")
    case True
    have "best_index priorityFn q [lo..<n] b (Fin (p b)) = best_index priorityFn q [Suc lo..<n] lo (Fin (p lo))"
      using True assms(1) [OF lo] by (simp add: u Let_def)
    moreover have "\<And>j. j < Suc lo \<Longrightarrow> p j \<le> p lo" "\<And>j. j < lo \<Longrightarrow> p j < p lo"
      using True Suc.prems(3) by (force simp: less_Suc_eq)+
    ultimately show ?thesis using Suc.hyps(1) [of "Suc lo" lo] Suc.hyps(2) lo by simp
  next
    case False
    have "best_index priorityFn q [lo..<n] b (Fin (p b)) = best_index priorityFn q [Suc lo..<n] b (Fin (p b))"
      using False assms(1) [OF lo] by (simp add: u Let_def)
    moreover have "\<And>j. j < Suc lo \<Longrightarrow> p j \<le> p b"
      using False Suc.prems(3) by (force simp: less_Suc_eq)
    ultimately show ?thesis using Suc.hyps(1) [of "Suc lo" b] Suc.hyps(2) Suc.prems lo by simp
  qed
qed

section \<open>Bulk writes\<close>

lemma write_block_get:
  assumes "0 \<le> t" "t + int n \<le> int (length buf)"
  shows "length (write_block src idx n t buf) = length buf \<and>
     (\<forall>p. 0 \<le> p \<longrightarrow> arr_get (write_block src idx n t buf) p =
        (if t \<le> p \<and> p < t + int n then Some (src (idx + nat (p - t))) else arr_get buf p))"
  using assms(2)
proof (induction n)
  case 0
  then show ?case by (auto simp: write_block_def)
next
  case (Suc n)
  let ?b = "write_block src idx n t buf"
  have IH: "length ?b = length buf" "\<And>p. 0 \<le> p \<Longrightarrow> arr_get ?b p =
      (if t \<le> p \<and> p < t + int n then Some (src (idx + nat (p - t))) else arr_get buf p)"
    using Suc by auto
  have s: "write_block src idx (Suc n) t buf = arr_set ?b (t + int n) (Some (src (idx + n)))"
    by (simp add: write_block_def)
  have "t + int n < int (length ?b)" "0 \<le> t + int n" using Suc.prems IH(1) assms(1) by simp_all
  then show ?case using IH unfolding s by (auto simp: nat_diff_distrib)
qed

text \<open>
  Between the writes and the final update of \<open>_size\<close> and \<open>_totalWeight\<close> the buffer
  already holds the longer list; \<open>queue_ahead\<close> says which.
\<close>

definition queue_ahead :: "'a queue \<Rightarrow> 'a list \<Rightarrow> bool" where
  "queue_ahead q ys \<longleftrightarrow> queue_rep (\<lambda>_. JUndefined)
     (q\<lparr>q_size := int (length ys), q_total := weights (\<lambda>_. JUndefined) ys\<rparr>) ys"

lemma queue_rep_ahead: "queue_rep wt q xs \<Longrightarrow> queue_ahead q xs"
  by (auto simp: queue_ahead_def queue_rep_def queue_shape_def)

lemma queue_ahead_rep:
  "queue_ahead q ys \<Longrightarrow> queue_rep wt (q\<lparr>q_size := int (length ys), q_total := weights wt ys\<rparr>) ys"
  by (auto simp: queue_ahead_def queue_rep_def queue_shape_def)

lemma queue_ahead_cong:
  "queue_ahead q ys \<Longrightarrow> queue_ahead (q\<lparr>q_size := n, q_total := w\<rparr>) ys"
  by (simp add: queue_ahead_def)

lemma queue_ahead_block:
  assumes a: "queue_ahead q ys" and room: "int (length ys) + int n \<le> q_capacity q"
    and contiguous: "q_tail q + int n \<le> q_capacity q"
  shows "queue_ahead (q\<lparr>q_buffer := write_block src idx n (q_tail q) (q_buffer q),
           q_tail := js_and (q_tail q + int n) (q_mask q)\<rparr>) (ys @ map src [idx..<idx + n])"
proof -
  let ?c = "q_capacity q" and ?h = "q_head q" and ?t = "q_tail q" and ?k = "int (length ys)"
  let ?q = "q\<lparr>q_size := ?k, q_total := weights (\<lambda>_. JUndefined) ys\<rparr>"
  have rep: "queue_rep (\<lambda>_. JUndefined) ?q ys" using a by (simp add: queue_ahead_def)
  note sh = queue_rep_shape [OF rep]
  have c: "0 < ?c" using queue_shape_pos [OF sh] by simp
  have len: "int (length (q_buffer q)) = ?c" using sh by (simp add: queue_shape_def)
  have t: "?t = (?h + ?k) mod ?c" using sh by (simp add: queue_shape_def)
  then have t0: "0 \<le> ?t" using c by simp
  have wb: "length (write_block src idx n ?t (q_buffer q)) = length (q_buffer q)"
      "\<And>p. 0 \<le> p \<Longrightarrow> arr_get (write_block src idx n ?t (q_buffer q)) p =
        (if ?t \<le> p \<and> p < ?t + int n then Some (src (idx + nat (p - ?t))) else arr_get (q_buffer q) p)"
    using write_block_get [of ?t n "q_buffer q" src idx] t0 contiguous len by auto
  have "arr_get (write_block src idx n ?t (q_buffer q)) ((?h + i) mod ?c) =
      slot_of (ys @ map src [idx..<idx + n]) i" if i: "0 \<le> i" "i < ?c" for i
  proof (cases "?k \<le> i \<and> i < ?k + int n")
    case True
    have "(?h + i) mod ?c = (?t + (i - ?k)) mod ?c" unfolding t by (simp add: mod_simps)
    also have "\<dots> = ?t + (i - ?k)" using True t0 contiguous by (intro mod_pos_pos_trivial) auto
    finally have e: "(?h + i) mod ?c = ?t + (i - ?k)" .
    have "nat i - length ys < n" using True by auto
    then show ?thesis
      using True t0 wb(2) [of "?t + (i - ?k)"] unfolding e
      by (auto simp: slot_of_def nth_append nat_diff_distrib)
  next
    case False
    have "\<not> (?t \<le> (?h + i) mod ?c \<and> (?h + i) mod ?c < ?t + int n)"
    proof
      assume p: "?t \<le> (?h + i) mod ?c \<and> (?h + i) mod ?c < ?t + int n"
      let ?d = "(?h + i) mod ?c - ?t"
      have d: "0 \<le> ?d" "?d < int n" using p by auto
      have "?t + ?d < ?c" using c by simp
      have "(?h + (?k + x)) mod ?c = (?t + x) mod ?c" for x
        unfolding t by (simp add: mod_simps add.assoc)
      then have "(?h + (?k + ?d)) mod ?c = (?t + ?d) mod ?c" .
      also have "\<dots> = (?h + i) mod ?c" by simp
      finally have "?k + ?d = i"
        using ring_inj [of "?k + ?d" ?c i ?h] d room i by simp
      then show False using False d by simp
    qed
    then have "arr_get (write_block src idx n ?t (q_buffer q)) ((?h + i) mod ?c) = slot_of ys i"
      using wb(2) [of "(?h + i) mod ?c"] c rep i by (auto simp: queue_rep_def)
    then show ?thesis using False by (auto simp: slot_of_def nth_append)
  qed
  moreover have "js_and (?t + int n) (q_mask q) = (?h + (?k + int n)) mod ?c"
    using mask_mod [OF sh, of "?t + int n"] unfolding t by (simp add: mod_simps add.assoc)
  ultimately show ?thesis
    using sh wb(1) room by (auto simp: queue_ahead_def queue_rep_def queue_shape_def)
qed

lemma queue_ahead_shape: "queue_ahead q ys \<Longrightarrow> 0 \<le> q_tail q \<and> q_tail q < q_capacity q"
  by (auto simp: queue_ahead_def queue_rep_def queue_shape_def)

text \<open>The block loop ends, and appends the remaining elements of the source.\<close>

lemma write_blocks_ok:
  assumes "queue_ahead q ys" "idx \<le> len" "int (length ys) + int (len - idx) \<le> q_capacity q"
  shows "\<exists>q'. write_blocks src (int idx) (int len) q = Some q' \<and>
     queue_ahead q' (ys @ map src [idx..<len]) \<and> q_total q' = q_total q \<and> q_size q' = q_size q"
  using assms
proof (induction "len - idx" arbitrary: idx ys q rule: less_induct)
  case less
  show ?case
  proof (cases "idx < len")
    case False
    then show ?thesis using less.prems by (subst write_blocks.simps) simp
  next
    case True
    have t: "0 \<le> q_tail q" "q_tail q < q_capacity q"
      using queue_ahead_shape [OF less.prems(1)] by auto
    obtain n where bl: "min (int len - int idx) (q_capacity q - q_tail q) = int n"
      using t True by (metis diff_ge_0_iff_ge less_imp_le min.boundedI of_nat_le_iff zero_le_imp_eq_int)
    have n: "1 \<le> n" "n \<le> len - idx" "q_tail q + int n \<le> q_capacity q" using bl t True by auto
    let ?q = "q\<lparr>q_buffer := write_block src idx n (q_tail q) (q_buffer q),
        q_tail := js_and (q_tail q + int n) (q_mask q)\<rparr>"
    have a: "queue_ahead ?q (ys @ map src [idx..<idx + n])"
      using n less.prems by (intro queue_ahead_block) auto
    have "write_blocks src (int idx) (int len) q = write_blocks src (int (idx + n)) (int len) ?q"
      using True by (subst write_blocks.simps) (simp add: Let_def bl)
    moreover obtain q' where q': "write_blocks src (int (idx + n)) (int len) ?q = Some q'"
        "queue_ahead q' ((ys @ map src [idx..<idx + n]) @ map src [idx + n..<len])"
        "q_total q' = q_total ?q" "q_size q' = q_size ?q"
    proof -
      have "\<exists>q'. write_blocks src (int (idx + n)) (int len) ?q = Some q' \<and>
        queue_ahead q' ((ys @ map src [idx..<idx + n]) @ map src [idx + n..<len]) \<and>
        q_total q' = q_total ?q \<and> q_size q' = q_size ?q"
        using n True less.prems by (intro less.hyps [OF _ a]) auto
      then show ?thesis using that by blast
    qed
    moreover have "map src [idx..<idx + n] @ map src [idx + n..<len] = map src [idx..<len]"
      using n(2) upt_add_eq_append [of idx "idx + n" "len - (idx + n)"] True
      by (simp flip: map_append)
    ultimately show ?thesis using q' by simp
  qed
qed

lemma fold_weights: "fold (\<lambda>x t. t + itemWeight (wt x)) items w = w + weights wt items"
  by (induction items arbitrary: w) auto

lemma queue_pushMany_rep:
  assumes rep: "queue_rep wt q xs" and room: "length xs + length items \<le> 2 ^ 30"
  shows "\<exists>q'. queue_pushMany wt items q = Some (q', Inr (int (length xs + length items))) \<and>
     queue_rep wt q' (xs @ items)"
proof (cases "items = []")
  case True
  then show ?thesis using rep by (simp add: queue_pushMany_def queue_rep_size)
next
  case False
  let ?len = "length items"
  have n: "q_size q = int (length xs)" by (rule queue_rep_size [OF rep])
  have "q_size q + int ?len \<le> 2 ^ 30"
  proof -
    have "int (length xs + ?len) \<le> int (2 ^ 30)" using room by (simp only: of_nat_le_iff)
    then show ?thesis using n by simp
  qed
  then obtain q1 where q1: "grow_until (q_size q + int ?len) q = Some (q1, Inr ())"
      "queue_rep wt q1 xs" "q_size q + int ?len \<le> q_capacity q1"
    using grow_until_ok [OF rep] by blast
  note a1 = queue_rep_ahead [OF q1(2)]
  have t: "0 \<le> q_tail q1" "q_tail q1 < q_capacity q1" using queue_ahead_shape [OF a1] by auto
  obtain k where bl: "min (int ?len) (q_capacity q1 - q_tail q1) = int k"
    using t by (metis diff_ge_0_iff_ge less_imp_le min.boundedI of_nat_0_le_iff zero_le_imp_eq_int)
  have k: "k \<le> ?len" "q_tail q1 + int k \<le> q_capacity q1" using bl t by auto
  let ?q2 = "q1\<lparr>q_buffer := write_block (nth items) 0 k (q_tail q1) (q_buffer q1),
      q_tail := js_and (q_tail q1 + int k) (q_mask q1)\<rparr>"
  have a2: "queue_ahead ?q2 (xs @ map (nth items) [0..<k])"
    using queue_ahead_block [OF a1, of k "nth items" 0] k q1(3) n by auto
  obtain q3 where q3: "write_blocks (nth items) (int k) (int ?len) ?q2 = Some q3"
      "queue_ahead q3 ((xs @ map (nth items) [0..<k]) @ map (nth items) [k..<?len])"
      "q_total q3 = q_total ?q2" "q_size q3 = q_size ?q2"
    using write_blocks_ok [OF a2 k(1), of "nth items"] k q1(3) n by auto
  have "[0..<k] @ [k..<?len] = [0..<?len]"
    using upt_add_eq_append [of 0 k "?len - k"] k(1) by simp
  then have "map (nth items) [0..<k] @ map (nth items) [k..<?len] = items"
    by (simp only: map_append [symmetric] map_nth)
  then have a3: "queue_ahead q3 (xs @ items)" using q3(2) by simp
  have "q_total q3 + weights wt items = weights wt (xs @ items)"
    using q3(3) q1(2) by (simp add: queue_rep_def)
  then have "queue_rep wt (q3\<lparr>q_size := int (length (xs @ items)), q_total := q_total q3 + weights wt items\<rparr>) (xs @ items)"
    using queue_ahead_rep [OF a3, of wt] by simp
  moreover have "queue_pushMany wt items q = Some (q3\<lparr>q_size := int (length (xs @ items)),
      q_total := q_total q3 + weights wt items\<rparr>, Inr (int (length xs + ?len)))"
    using False n q1(1) q3(1) by (simp add: queue_pushMany_def Let_def bl fold_weights)
  ultimately show ?thesis by blast
qed

lemma queue_fill_rep:
  assumes rep: "queue_rep wt q xs" and room: "length xs + n \<le> 2 ^ 30"
  shows "\<exists>q'. queue_fill wt x (JNum (Fin (of_nat n))) q = Some (q', Inr (int (length xs + n))) \<and>
     queue_rep wt q' (xs @ replicate n x)"
proof -
  have lim: "assertLimitRequired (JNum (Fin (of_nat n)))
      ((limit_spec ''count'' ''PowerQueue'')\<lparr>sp_integer := True, sp_fallback := JNum (Fin 0)\<rparr>)
      = Inr (Fin (of_nat n))"
    by (simp add: assertLimitRequired_def assertLimit_def limit_spec_def)
  have nn: "q_size q = int (length xs)" by (rule queue_rep_size [OF rep])
  show ?thesis
  proof (cases "n = 0")
    case True
    then show ?thesis using rep lim nn by (simp add: queue_fill_def Let_def)
  next
    case False
    have "q_size q + int n \<le> 2 ^ 30"
    proof -
      have "int (length xs + n) \<le> int (2 ^ 30)" using room by (simp only: of_nat_le_iff)
      then show ?thesis using nn by simp
    qed
    then obtain q1 where q1: "grow_until (q_size q + int n) q = Some (q1, Inr ())"
        "queue_rep wt q1 xs" "q_size q + int n \<le> q_capacity q1"
      using grow_until_ok [OF rep] by blast
    note a1 = queue_rep_ahead [OF q1(2)]
    obtain q2 where q2: "write_blocks (\<lambda>_. x) 0 (int n) q1 = Some q2"
        "queue_ahead q2 (xs @ replicate n x)" "q_total q2 = q_total q1"
      using write_blocks_ok [OF a1, of 0 n "\<lambda>_. x"] q1(3) nn by (auto simp: map_replicate_const)
    have "weights wt (replicate n x) = itemWeight (wt x) * of_nat n" for n
      by (induction n) (simp_all add: algebra_simps)
    then have "q_total q2 + itemWeight (wt x) * of_nat n = weights wt (xs @ replicate n x)"
      using q2(3) q1(2) by (simp add: queue_rep_def)
    then have "queue_rep wt (q2\<lparr>q_size := int (length (xs @ replicate n x)),
        q_total := q_total q2 + itemWeight (wt x) * of_nat n\<rparr>) (xs @ replicate n x)"
      using queue_ahead_rep [OF q2(2), of wt] by simp
    moreover have "queue_fill wt x (JNum (Fin (of_nat n))) q = Some (q2\<lparr>q_size := int (length (xs @ replicate n x)),
        q_total := q_total q2 + itemWeight (wt x) * of_nat n\<rparr>, Inr (int (length xs + n)))"
      using False lim nn q1(1) q2(1) by (simp add: queue_fill_def Let_def)
    ultimately show ?thesis by blast
  qed
qed

lemma unshift_fold_get:
  assumes sh: "queue_shape q" and m: "int m \<le> q_capacity q"
  shows "length (fold (\<lambda>i buf. arr_set buf (js_and (s + int i) (q_mask q)) (Some (items ! i)))
             [0..<m] (q_buffer q)) = length (q_buffer q) \<and>
     (\<forall>j. 0 \<le> j \<and> j < q_capacity q \<longrightarrow>
       arr_get (fold (\<lambda>i buf. arr_set buf (js_and (s + int i) (q_mask q)) (Some (items ! i)))
             [0..<m] (q_buffer q)) ((s + j) mod q_capacity q)
       = (if j < int m then Some (items ! nat j) else arr_get (q_buffer q) ((s + j) mod q_capacity q)))"
  using m
proof (induction m)
  case 0
  then show ?case by simp
next
  case (Suc m)
  let ?c = "q_capacity q"
  have p: "0 \<le> (s + int m) mod ?c" "(s + int m) mod ?c < int (length (q_buffer q))"
    using sh queue_shape_pos [OF sh] by (simp_all add: queue_shape_def)
  have "(s + int m) mod ?c = (s + j) mod ?c \<longleftrightarrow> j = int m" if "0 \<le> j" "j < ?c" for j
    using ring_inj [of "int m" ?c j s] that Suc.prems by auto
  then show ?case using Suc p by (auto simp: mask_mod [OF sh])
qed

lemma queue_unshiftMany_rep:
  assumes rep: "queue_rep wt q xs" and room: "length xs + length items \<le> 2 ^ 30"
  shows "\<exists>q'. queue_unshiftMany wt items q = Some (q', Inr (int (length xs + length items))) \<and>
     queue_rep wt q' (items @ xs)"
proof (cases "items = []")
  case True
  then show ?thesis using rep by (simp add: queue_unshiftMany_def queue_rep_size)
next
  case False
  let ?len = "int (length items)"
  have n: "q_size q = int (length xs)" by (rule queue_rep_size [OF rep])
  have "q_size q + ?len \<le> 2 ^ 30"
  proof -
    have "int (length xs + length items) \<le> int (2 ^ 30)" using room by (simp only: of_nat_le_iff)
    then show ?thesis using n by simp
  qed
  then obtain q1 where q1: "grow_until (q_size q + ?len) q = Some (q1, Inr ())"
      "queue_rep wt q1 xs" "q_size q + ?len \<le> q_capacity q1"
    using grow_until_ok [OF rep] by blast
  let ?c = "q_capacity q1" and ?s = "(q_head q1 - ?len) mod q_capacity q1"
  note sh = queue_rep_shape [OF q1(2)]
  have c: "0 < ?c" using queue_shape_pos [OF sh] by simp
  let ?b = "fold (\<lambda>i buf. arr_set buf (js_and (?s + int i) (q_mask q1)) (Some (items ! i)))
      [0..<length items] (q_buffer q1)"
  have b: "length ?b = length (q_buffer q1)"
      "\<And>j. 0 \<le> j \<Longrightarrow> j < ?c \<Longrightarrow> arr_get ?b ((?s + j) mod ?c) =
        (if j < ?len then Some (items ! nat j) else arr_get (q_buffer q1) ((?s + j) mod ?c))"
    using unshift_fold_get [OF sh, of "length items" ?s items] q1(3) n by auto
  have sj: "(?s + j) mod ?c = (q_head q1 + (j - ?len)) mod ?c" for j
    by (simp add: mod_simps algebra_simps)
  have "arr_get ?b ((?s + j) mod ?c) = slot_of (items @ xs) j" if j: "0 \<le> j" "j < ?c" for j
  proof (cases "j < ?len")
    case True
    then show ?thesis using b(2) [OF j] j by (auto simp: slot_of_def nth_append nat_less_iff)
  next
    case False
    then have "arr_get (q_buffer q1) ((q_head q1 + (j - ?len)) mod ?c) = slot_of xs (j - ?len)"
      using q1(2) j by (auto simp: queue_rep_def)
    then show ?thesis
      using False b(2) [OF j] j by (auto simp: sj slot_of_def nth_append nat_less_iff nat_diff_distrib)
  qed
  moreover have "q_tail q1 = (?s + (int (length xs) + ?len)) mod ?c"
    using sh queue_rep_size [OF q1(2)] by (simp add: sj queue_shape_def)
  ultimately have "queue_rep wt (q1\<lparr>q_buffer := ?b, q_head := ?s, q_size := q_size q + ?len,
      q_total := q_total q1 + weights wt items\<rparr>) (items @ xs)"
    using q1(2,3) sh n b(1) c by (auto simp: queue_rep_def queue_shape_def)
  moreover have "queue_unshiftMany wt items q = Some (q1\<lparr>q_buffer := ?b, q_head := ?s,
      q_size := q_size q + ?len, q_total := q_total q1 + weights wt items\<rparr>,
      Inr (int (length xs + length items)))"
    using False n q1(1) by (simp add: queue_unshiftMany_def Let_def mask_mod [OF sh] fold_weights)
  ultimately show ?thesis by blast
qed

section \<open>Priority removal and construction\<close>

lemma queue_shiftHighestPriority_rep:
  assumes rep: "queue_rep wt q xs" and ne: "xs \<noteq> []"
    and pri: "\<And>x. x \<in> set xs \<Longrightarrow> priorityFn (Some x) = Fin (p x)"
  shows "\<exists>q' i. queue_shiftHighestPriority wt priorityFn q = (q', Some (xs ! i)) \<and>
     queue_rep wt q' (remove_nth i xs) \<and> i < length xs \<and>
     (\<forall>x \<in> set xs. p x \<le> p (xs ! i)) \<and> (\<forall>j<i. p (xs ! j) < p (xs ! i))"
proof -
  let ?n = "length xs" and ?p = "\<lambda>j. p (xs ! j)"
  note sh = queue_rep_shape [OF rep]
  have n: "q_size q = int ?n" by (rule queue_rep_size [OF rep])
  have at: "ring_at q (int j) = Some (xs ! j)" if "j < ?n" for j
    using queue_rep_ring_at [OF rep, of "int j"] queue_rep_length [OF rep] that by (simp add: slot_of_def)
  have prij: "priorityFn (ring_at q (int j)) = Fin (?p j)" if "j < ?n" for j
    using at [OF that] pri that by simp
  let ?b = "best_index priorityFn q [1..<?n] 0 (Fin (?p 0))"
  have b: "?b < ?n" "\<forall>j<?n. ?p j \<le> ?p ?b" "\<forall>j<?b. ?p j < ?p ?b"
  proof -
    have "1 \<le> ?n" using ne by (simp add: Suc_le_eq)
    then show "?b < ?n" "\<forall>j<?n. ?p j \<le> ?p ?b" "\<forall>j<?b. ?p j < ?p ?b"
      using best_index_first_max [of ?n priorityFn q ?p 1 0, OF prij] by simp_all
  qed
  have h: "priorityFn (arr_get (q_buffer q) (js_and (q_head q) (q_mask q))) = Fin (?p 0)"
    using prij [of 0] ne by (simp add: ring_at_def)
  have nz: "q_size q \<noteq> 0" using n ne by simp
  have nat_n: "nat (q_size q) = ?n" using n by simp
  have red: "queue_shiftHighestPriority wt priorityFn q = queue_removeAt wt (int ?b) q"
    unfolding queue_shiftHighestPriority_def Let_def h nat_n using nz by (simp only: if_False)
  obtain q' where q': "queue_removeAt wt (int ?b) q = (q', Some (xs ! ?b))"
      "queue_rep wt q' (remove_nth ?b xs)"
    using queue_removeAt_rep [OF rep b(1)] by blast
  have "\<forall>x \<in> set xs. p x \<le> p (xs ! ?b)"
  proof
    fix x assume "x \<in> set xs"
    then obtain j where "j < ?n" "x = xs ! j" by (auto simp: in_set_conv_nth)
    then show "p x \<le> p (xs ! ?b)" using b(2) by simp
  qed
  then show ?thesis
    using red q' b(1,3) by (intro exI [of _ q'] exI [of _ ?b] conjI) simp_all
qed

lemma queue_new_ok:
  assumes "0 \<le> r" "r \<le> 2 ^ 30"
  shows "\<exists>m. queue_new (JNum (Fin r)) =
       Some (Inr (queue_empty (2 ^ m) (replicate (nat (2 ^ m)) None) :: 'a queue)) \<and>
     1 \<le> m \<and> m \<le> 30 \<and> r \<le> 2 ^ m \<and> (1 < m \<longrightarrow> 2 ^ (m - 1) < r)"
proof -
  have lim: "assertLimitRequired (JNum (Fin r)) (queue_limit_spec ''initialCapacity'') = Inr (Fin r)"
    using assms by (simp add: assertLimitRequired_def assertLimit_def queue_limit_spec_def limit_spec_def)
  have mx: "num_max (Fin 2) (Fin r) = Fin (max 2 r)" by (auto simp: num_max_def max_def)
  obtain m where m: "round_pow2 (Fin (max 2 r)) 1 = Some (2 ^ m)" "m \<le> 30" "max 2 r \<le> 2 ^ m"
      "0 < m \<longrightarrow> 2 ^ (m - 1) < max 2 r"
    using round_pow2_ok [of 0 "max 2 r"] assms by auto
  have m1: "1 \<le> m"
  proof (rule ccontr)
    assume "\<not> 1 \<le> m"
    then have "m = 0" by simp
    then show False using m(3) by simp
  qed
  have "2 ^ (m - 1) < r" if "1 < m"
  proof -
    have "(2::rat) ^ 1 \<le> 2 ^ (m - 1)" using that by (intro power_increasing) auto
    then show ?thesis using m(4) that by simp
  qed
  then show ?thesis
    using m m1 lim mx by (auto simp: queue_new_def queue_new_arg_def new_array_pow2)
qed

section \<open>The queue interface\<close>

interpretation ring: fifo "queue_rep wt" "queue_push wt" "queue_shift wt" queue_peek q_size "2 ^ 30"
  for wt
  by unfold_locales
    (simp_all add: queue_push_rep queue_shift_empty queue_shift_rep queue_peek_rep queue_rep_size)

section \<open>Properties\<close>

definition wrapped_queue :: "nat queue" where
  "wrapped_queue = \<lparr>q_capacity = 2, q_mask = 1, q_buffer = [Some 8, Some 7], q_head = 1, q_tail = 1,
     q_size = 2, q_total = 2\<rparr>"

lemma wrapped_queue_rep: "queue_rep (\<lambda>_. JUndefined) wrapped_queue [7, 8]"
proof -
  have "arr_get [Some 8, Some 7] ((1 + i) mod 2) = slot_of [7, 8] i" if "0 \<le> i" "i < 2" for i :: int
  proof -
    from that have "i = 0 \<or> i = 1" by linarith
    then show ?thesis by (auto simp: arr_get_def slot_of_def)
  qed
  then show ?thesis
    by (auto simp: queue_rep_def queue_shape_def wrapped_queue_def intro!: exI [of _ 1])
qed

text \<open>
  C1. \<open>PowerQueue\<close> refines a list: \<open>push\<close> appends and \<open>unshift\<close> prepends (growing
  the buffer when it is full) and return the new length, \<open>shift\<close> removes the head,
  \<open>peek\<close> and \<open>toArray\<close> read without consuming, and the running weight is the total
  weight of the items.  With \<open>2 ^ 30\<close> items the next enqueue throws the
  \<open>RangeError\<close> of the array allocation and leaves the queue as it was.
\<close>

theorem queue_refines_list:
  assumes "queue_rep wt q xs"
  shows "(if length xs < 2 ^ 30
          then (\<exists>q'. queue_push wt x q = (q', Inr (int (length xs) + 1)) \<and> queue_rep wt q' (xs @ [x])) \<and>
               (\<exists>q'. queue_unshift wt x q = (q', Inr (int (length xs) + 1)) \<and> queue_rep wt q' (x # xs))
          else queue_push wt x q = (q, Inl InvalidArrayLength) \<and>
               queue_unshift wt x q = (q, Inl InvalidArrayLength)) \<and>
     (case xs of
        [] \<Rightarrow> queue_shift wt q = (q, None)
      | y # ys \<Rightarrow> (\<exists>q'. queue_shift wt q = (q', Some y) \<and> queue_rep wt q' ys)) \<and>
     queue_peek q = (case xs of [] \<Rightarrow> None | y # _ \<Rightarrow> Some y) \<and>
     queue_toArray q = map Some xs \<and> q_total q = weights wt xs"
proof -
  have "length xs = 2 ^ 30" if "\<not> length xs < 2 ^ 30"
  proof -
    have "int (length xs) \<le> 2 ^ 30"
      using queue_rep_length [OF assms] queue_shape_pos [OF queue_rep_shape [OF assms]] by linarith
    then have "length xs \<le> 2 ^ 30" by simp
    then show ?thesis using that by linarith
  qed
  then have "if length xs < 2 ^ 30
      then (\<exists>q'. queue_push wt x q = (q', Inr (int (length xs) + 1)) \<and> queue_rep wt q' (xs @ [x])) \<and>
           (\<exists>q'. queue_unshift wt x q = (q', Inr (int (length xs) + 1)) \<and> queue_rep wt q' (x # xs))
      else queue_push wt x q = (q, Inl InvalidArrayLength) \<and>
           queue_unshift wt x q = (q, Inl InvalidArrayLength)"
    using queue_push_rep [OF assms] queue_unshift_rep [OF assms] queue_full_throws [OF assms] by auto
  moreover have "case xs of [] \<Rightarrow> queue_shift wt q = (q, None)
      | y # ys \<Rightarrow> (\<exists>q'. queue_shift wt q = (q', Some y) \<and> queue_rep wt q' ys)"
    using queue_shift_empty queue_shift_rep assms by (cases xs) auto
  ultimately show ?thesis
    using queue_peek_rep [OF assms] queue_toArray_rep [OF assms] assms by (simp add: queue_rep_def)
qed

theorem queue_refines_list_witness:
  "(\<exists>q'. queue_push (\<lambda>_. JUndefined) 9 wrapped_queue = (q', Inr 3) \<and>
      queue_rep (\<lambda>_. JUndefined) q' [7, 8, 9]) \<and> queue_toArray wrapped_queue = [Some 7, Some 8]"
  using queue_refines_list [OF wrapped_queue_rep, of 9] by simp

text \<open>
  The bulk enqueues end and agree with their one-by-one meaning, whatever the position
  of head and tail: \<open>pushMany\<close> appends the items in order, \<open>fill\<close> appends copies,
  \<open>unshiftMany\<close> prepends them with the first item at the head.
\<close>

theorem queue_bulk_operations:
  assumes "queue_rep wt q xs" and "length xs + length items \<le> 2 ^ 30"
  shows "(\<exists>q'. queue_pushMany wt items q = Some (q', Inr (int (length xs + length items))) \<and>
            queue_rep wt q' (xs @ items)) \<and>
     (\<exists>q'. queue_fill wt x (JNum (Fin (of_nat (length items)))) q
             = Some (q', Inr (int (length xs + length items))) \<and>
            queue_rep wt q' (xs @ replicate (length items) x)) \<and>
     (\<exists>q'. queue_unshiftMany wt items q = Some (q', Inr (int (length xs + length items))) \<and>
            queue_rep wt q' (items @ xs))"
  using queue_pushMany_rep [OF assms] queue_fill_rep [OF assms] queue_unshiftMany_rep [OF assms]
  by blast

theorem queue_bulk_operations_witness:
  "\<exists>q'. queue_pushMany (\<lambda>_. JUndefined) [1, 2, 3] wrapped_queue = Some (q', Inr 5) \<and>
     queue_rep (\<lambda>_. JUndefined) q' [7, 8, 1, 2, 3]"
  using queue_bulk_operations [OF wrapped_queue_rep, of "[1, 2, 3]" 0] by simp

text \<open>
  \<open>shiftHighestPriority\<close> removes exactly one item, one of the greatest priority and
  among those the one closest to the head, and keeps the order of the others.
\<close>

theorem queue_priority_removal:
  assumes "queue_rep wt q xs" and "xs \<noteq> []"
    and "\<And>x. x \<in> set xs \<Longrightarrow> priorityFn (Some x) = Fin (p x)"
  shows "\<exists>q' i. queue_shiftHighestPriority wt priorityFn q = (q', Some (xs ! i)) \<and>
     queue_rep wt q' (take i xs @ drop (Suc i) xs) \<and> i < length xs \<and>
     (\<forall>x \<in> set xs. p x \<le> p (xs ! i)) \<and> (\<forall>j<i. p (xs ! j) < p (xs ! i))"
  using queue_shiftHighestPriority_rep [OF assms(1,2), of priorityFn p] assms(3)
  by (simp add: remove_nth_def)

theorem queue_priority_removal_witness:
  "\<exists>q'. queue_shiftHighestPriority (\<lambda>_. JUndefined) (\<lambda>v. Fin (of_nat (the v))) wrapped_queue
      = (q', Some 8) \<and> queue_rep (\<lambda>_. JUndefined) q' [7]"
proof -
  obtain q' i where q: "queue_shiftHighestPriority (\<lambda>_. JUndefined) (\<lambda>v. Fin (of_nat (the v))) wrapped_queue
        = (q', Some ([7, 8] ! i))"
      "queue_rep (\<lambda>_. JUndefined) q' (take i [7, 8] @ drop (Suc i) [7, 8])" "i < length [7::nat, 8]"
      "\<forall>x \<in> set [7::nat, 8]. (of_nat x :: rat) \<le> of_nat ([7, 8] ! i)"
    using queue_priority_removal [OF wrapped_queue_rep, of "\<lambda>v. Fin (of_nat (the v))" of_nat] by auto
  have "i = 1"
  proof (rule ccontr)
    assume "i \<noteq> 1"
    then have "i = 0" using q(3) by simp
    then show False using q(4) by simp
  qed
  then show ?thesis using q(1,2) by simp
qed

text \<open>
  C2. The constructor rounds a requested capacity up to the least power of two that holds
  it (at least 2) and returns an empty queue; for a request above \<open>2 ^ 30\<close>, which the
  option check accepts, the doubling overflows 32 bits and the constructor never returns.
\<close>

theorem queue_new_capacity:
  assumes "0 \<le> r"
  shows "((queue_new (JNum (Fin r)) :: 'a queue result option) = None \<longleftrightarrow> 2 ^ 30 < r) \<and>
     (r \<le> 2 ^ 30 \<longrightarrow> (\<exists>m. (queue_new (JNum (Fin r)) :: 'a queue result option) =
         Some (Inr (queue_empty (2 ^ m) (replicate (nat (2 ^ m)) None))) \<and>
       queue_rep wt (queue_empty (2 ^ m) (replicate (nat (2 ^ m)) (None :: 'a option))) [] \<and>
       1 \<le> m \<and> m \<le> 30 \<and> r \<le> 2 ^ m \<and> (1 < m \<longrightarrow> 2 ^ (m - 1) < r)))"
proof (cases "r \<le> 2 ^ 30")
  case True
  obtain m where m: "(queue_new (JNum (Fin r)) :: 'a queue result option) =
       Some (Inr (queue_empty (2 ^ m) (replicate (nat (2 ^ m)) None)))"
      "1 \<le> m" "m \<le> 30" "r \<le> 2 ^ m" "1 < m \<longrightarrow> 2 ^ (m - 1) < r"
    using queue_new_ok [OF assms True, where 'a = 'a] by blast
  have "\<not> 2 ^ 30 < r" using True by simp
  then show ?thesis
    using m queue_rep_empty [OF m(2,3), of wt] by (auto intro!: exI [of _ m])
next
  case False
  then have r: "2 ^ 30 < r" by simp
  have "assertLimitRequired (JNum (Fin r)) (queue_limit_spec ''initialCapacity'') = Inr (Fin r)"
    using assms by (simp add: assertLimitRequired_def assertLimit_def queue_limit_spec_def limit_spec_def)
  moreover have "num_max (Fin 2) (Fin r) = Fin r" using r by (simp add: num_max_def)
  ultimately have "(queue_new (JNum (Fin r)) :: 'a queue result option) = None"
    by (simp add: queue_new_def queue_new_arg_def round_pow2_diverges [OF r])
  then show ?thesis using r False by simp
qed

theorem queue_new_capacity_witness:
  "(queue_new (JNum (Fin 2000000000)) :: nat queue result option) = None \<and>
   (queue_new (JNum (Fin 3)) :: nat queue result option) \<noteq> None"
  using queue_new_capacity [of 2000000000, where 'a = nat] queue_new_capacity [of 3, where 'a = nat]
  by simp

text \<open>
  First in, first out: items pushed one by one onto a queue are shifted out in the same
  order, after the items that were there before, and the queue is then empty.
\<close>

theorem queue_first_in_first_out:
  assumes "queue_rep wt q xs" and "length xs + length ys \<le> 2 ^ 30"
  shows "\<exists>q1 q2. push_each (queue_push wt) ys q = (q1, Inr ()) \<and>
     shift_each (queue_shift wt) (length xs + length ys) q1 = (q2, map Some (xs @ ys)) \<and>
     queue_rep wt q2 []"
  using assms by (rule ring.first_in_first_out)

theorem queue_first_in_first_out_witness:
  "\<exists>q1 q2. push_each (queue_push (\<lambda>_. JUndefined)) [9, 10] wrapped_queue = (q1, Inr ()) \<and>
     shift_each (queue_shift (\<lambda>_. JUndefined)) 4 q1 = (q2, [Some 7, Some 8, Some 9, Some 10])"
proof -
  have e: "length [7, 8 :: nat] + length [9, 10 :: nat] = 4" by simp
  show ?thesis
    using queue_first_in_first_out [OF wrapped_queue_rep, of "[9, 10]"] unfolding e
    by (auto simp del: push_each.simps)
qed

end
