(* ===== verification/PermitGate.thy ===== *)
theory PermitGate
  imports PowerQueue
begin

text \<open>
  The permit gate (\<open>src/helpers/powerPermitGate.js\<close>) and the semaphore built on it
  (\<open>src/helpers/powerSemaphore.js\<close>).  Every method runs to completion, so a method is
  one step of the state.  The objects the code shares by reference are kept in stores and
  named by their index: the waiter entries (reachable from the queue and from their abort
  listener) and the release callbacks.  Reclaiming a dropped callback through a
  \<open>FinalizationRegistry\<close> is a garbage-collector effect and is not modelled.
\<close>

section \<open>State\<close>

text \<open>The mutable part of a waiter entry; \<open>e_listening\<close> says its abort listener is attached.\<close>

record entry =
  e_cancelled :: bool
  e_settled :: bool
  e_listening :: bool

text \<open>A release callback: the units it returns and its own \<open>released\<close> flag.\<close>

record lease =
  l_weight :: int
  l_released :: bool

text \<open>How a waiting promise was settled.\<close>

datatype settlement = Granted nat | RejectedWith js_error

record gate =
  g_capacity :: int
  g_queueCapacity :: js_num
  g_available :: int
  g_held :: int
  g_cancelledWaiters :: int
  g_waiters :: "(nat \<times> int) queue"
  g_entries :: "entry list"
  g_leases :: "lease list"
  g_log :: "(nat \<times> settlement) list"
  g_className :: string
  g_resetInert :: bool

text \<open>The immutable fields of a queued entry: its identity and its \<open>weight\<close> property.\<close>

fun waiter_wt :: "nat \<times> int \<Rightarrow> js_val" where
  "waiter_wt (i, w) = JNum (Fin (of_int w))"

text \<open>What \<open>acquire\<close> hands back: a promise already settled, or one of the waiters.\<close>

datatype acquired = AcqGranted nat | AcqRejected js_error | AcqPending nat

section \<open>Construction\<close>

definition gate_known_options :: "string list" where
  "gate_known_options =
     [''capacity'', ''queueCapacity'', ''initialTokens'', ''className'', ''limitName'']"

definition str_or :: "js_val \<Rightarrow> string \<Rightarrow> bool \<Rightarrow> string" where
  "str_or v d nonempty = (case v of JStr s \<Rightarrow> (if nonempty \<and> s = [] then d else s) | _ \<Rightarrow> d)"

definition num_int :: "js_num \<Rightarrow> int" where
  "num_int n = (case n of Fin r \<Rightarrow> \<lfloor>r\<rfloor> | _ \<Rightarrow> 0)"

definition gate_new :: "js_val \<Rightarrow> gate result option" where
  "gate_new options =
     (case assertKnownOptions options gate_known_options ''PowerPermitGate'' of
        Inl e \<Rightarrow> Some (Inl e)
      | Inr _ \<Rightarrow>
          (let className = str_or (get_prop ''className'' options) ''PowerPermitGate'' False;
               capacityName = str_or (get_prop ''limitName'' options) ''capacity'' True;
               queueCapacity = get_prop ''queueCapacity'' options;
               initialTokens = get_prop ''initialTokens'' options
           in case assertLimitRequired (get_prop ''capacity'' options)
                     ((limit_spec capacityName className)\<lparr>sp_min := 1, sp_integer := True,
                        sp_fallback := JNum (Fin 1)\<rparr>) of
                Inl e \<Rightarrow> Some (Inl e)
              | Inr cap \<Rightarrow>
                  (case (if is_nullish queueCapacity then Inr PosInf
                         else assertLimitRequired queueCapacity
                                ((limit_spec ''queueCapacity'' className)\<lparr>sp_integer := True,
                                   sp_allowInfinity := True\<rparr>)) of
                     Inl e \<Rightarrow> Some (Inl e)
                   | Inr qcap \<Rightarrow>
                       (case (if is_nullish initialTokens then Inr cap
                              else assertLimitRequired initialTokens
                                     ((limit_spec ''initialTokens'' className)\<lparr>sp_integer := True\<rparr>)) of
                          Inl e \<Rightarrow> Some (Inl e)
                        | Inr tokens \<Rightarrow>
                            (case queue_new (JNum (Fin POWER_QUEUE_INITIAL_CAPACITY)) of
                               None \<Rightarrow> None
                             | Some (Inl e) \<Rightarrow> Some (Inl e)
                             | Some (Inr q) \<Rightarrow>
                                 Some (Inr \<lparr>g_capacity = num_int cap, g_queueCapacity = qcap,
                                   g_available = min (num_int cap) (num_int tokens), g_held = 0,
                                   g_cancelledWaiters = 0, g_waiters = q, g_entries = [],
                                   g_leases = [], g_log = [], g_className = className,
                                   g_resetInert = False\<rparr>))))))"

section \<open>Queries\<close>

definition gate_pending :: "gate \<Rightarrow> int" where
  "gate_pending g = max 0 (q_size (g_waiters g) - g_cancelledWaiters g)"

definition gate_isFull :: "gate \<Rightarrow> bool" where
  "gate_isFull g \<longleftrightarrow> \<not> num_lt (Fin (of_int (gate_pending g))) (g_queueCapacity g)"

section \<open>Granting\<close>

text \<open>\<open>_makeRelease\<close>: a fresh callback, not yet called.\<close>

definition gate_makeRelease :: "int \<Rightarrow> gate \<Rightarrow> gate \<times> nat" where
  "gate_makeRelease w g =
     (g\<lparr>g_leases := g_leases g @ [\<lparr>l_weight = w, l_released = False\<rparr>]\<rparr>, length (g_leases g))"

definition gate_grant :: "int \<Rightarrow> gate \<Rightarrow> gate \<times> nat" where
  "gate_grant w g =
     gate_makeRelease w (g\<lparr>g_available := g_available g - w, g_held := g_held g + w\<rparr>)"

definition gate_grantTo :: "nat \<times> int \<Rightarrow> bool \<Rightarrow> gate \<Rightarrow> gate" where
  "gate_grantTo entry fromAvailable g =
     (let w = snd entry;
          g1 = (if fromAvailable
                then g\<lparr>g_available := g_available g - w, g_held := g_held g + w\<rparr> else g);
          (g2, l) = gate_makeRelease w g1
      in g2\<lparr>g_log := g_log g2 @ [(fst entry, Granted l)]\<rparr>)"

definition gate_entry :: "gate \<Rightarrow> nat \<Rightarrow> entry" where
  "gate_entry g i = (if i < length (g_entries g) then g_entries g ! i
     else \<lparr>e_cancelled = False, e_settled = False, e_listening = False\<rparr>)"

definition gate_setEntry :: "nat \<Rightarrow> (entry \<Rightarrow> entry) \<Rightarrow> gate \<Rightarrow> gate" where
  "gate_setEntry i f g = g\<lparr>g_entries := (g_entries g)[i := f (gate_entry g i)]\<rparr>"

definition gate_dropHead :: "gate \<Rightarrow> gate" where
  "gate_dropHead g = g\<lparr>g_waiters := fst (queue_shift waiter_wt (g_waiters g))\<rparr>"

lemma gate_dropHead_size [simp]:
  "q_size (g_waiters g) \<noteq> 0 \<Longrightarrow> q_size (g_waiters (gate_dropHead g)) = q_size (g_waiters g) - 1"
  by (simp add: gate_dropHead_def queue_shift_def Let_def)

text \<open>The body of the loop of \<open>_serveWaiters\<close> for a head that is served: settle, shift, detach, grant.\<close>

definition gate_serveHead :: "nat \<times> int \<Rightarrow> bool \<Rightarrow> gate \<Rightarrow> gate" where
  "gate_serveHead entry fromAvailable g =
     gate_grantTo entry fromAvailable
       (gate_setEntry (fst entry) (\<lambda>e. e\<lparr>e_listening := False\<rparr>)
         (gate_dropHead (gate_setEntry (fst entry) (\<lambda>e. e\<lparr>e_settled := True\<rparr>) g)))"

lemma gate_serveHead_size:
  "q_size (g_waiters g) \<noteq> 0 \<Longrightarrow> q_size (g_waiters (gate_serveHead x b g)) = q_size (g_waiters g) - 1"
  by (simp add: gate_serveHead_def gate_grantTo_def gate_makeRelease_def gate_setEntry_def
      gate_dropHead_def queue_shift_def Let_def)

function gate_serveWaiters :: "int \<Rightarrow> bool \<Rightarrow> int \<Rightarrow> gate \<Rightarrow> gate \<times> int" where
  "gate_serveWaiters permits fromAvailable served g =
     (if served < permits \<and> 0 < q_size (g_waiters g) then
        (case queue_peek (g_waiters g) of
           None \<Rightarrow> gate_serveWaiters permits fromAvailable served (gate_dropHead g)
         | Some nxt \<Rightarrow>
             if e_cancelled (gate_entry g (fst nxt)) then
               gate_serveWaiters permits fromAvailable served
                 (gate_dropHead (g\<lparr>g_cancelledWaiters := max 0 (g_cancelledWaiters g - 1)\<rparr>))
             else if permits - served < snd nxt then (g, served)
             else gate_serveWaiters permits fromAvailable (served + snd nxt)
                    (gate_serveHead nxt fromAvailable g))
      else (g, served))"
  by pat_completeness auto
termination
  by (relation "measure (\<lambda>(p, b, s, g). nat (q_size (g_waiters g)))")
    (auto simp: gate_serveHead_size)

declare gate_serveWaiters.simps [simp del]

section \<open>Operations\<close>

definition weight_spec :: "string \<Rightarrow> limit_spec" where
  "weight_spec cls = (limit_spec ''weight'' cls)\<lparr>sp_min := 1, sp_integer := True,
     sp_fallback := JNum (Fin 1)\<rparr>"

text \<open>
  \<open>acquire({ weight, signal })\<close>: \<open>signal\<close> is \<open>None\<close> without a signal and the
  signal's \<open>aborted\<close> flag otherwise.
\<close>

definition gate_acquire :: "js_val \<Rightarrow> bool option \<Rightarrow> gate \<Rightarrow> gate \<times> acquired" where
  "gate_acquire weight signal g =
     (case assertLimitRequired weight (weight_spec (g_className g)) of
        Inl e \<Rightarrow> (g, AcqRejected e)
      | Inr n \<Rightarrow>
          (let w = num_int n in
           if g_capacity g < w then
             (g, AcqRejected (WeightExceedsCapacity (g_className g) (of_int w) (of_int (g_capacity g))))
           else if signal = Some True then (g, AcqRejected Aborted)
           else if w \<le> g_available g then
             (let (g1, l) = gate_grant w g in (g1, AcqGranted l))
           else if gate_isFull g then (g, AcqRejected (QueueFull (g_className g) (g_queueCapacity g)))
           else
             (let i = length (g_entries g) in
              case queue_push waiter_wt (i, w) (g_waiters g) of
                (q, Inl e) \<Rightarrow> (g\<lparr>g_waiters := q\<rparr>, AcqRejected e)
              | (q, Inr _) \<Rightarrow>
                  (g\<lparr>g_waiters := q,
                     g_entries := g_entries g @
                       [\<lparr>e_cancelled = False, e_settled = False, e_listening = (signal \<noteq> None)\<rparr>]\<rparr>,
                   AcqPending i))))"

text \<open>\<open>tryAcquire(weight)\<close>: \<open>Inr None\<close> is \<open>null\<close>.\<close>

definition gate_tryAcquire :: "js_val \<Rightarrow> gate \<Rightarrow> (gate, nat option) step" where
  "gate_tryAcquire weight g =
     (let v = (if weight = JUndefined then JNum (Fin 1) else weight) in
      case assertLimitRequired v (weight_spec (g_className g)) of
        Inl e \<Rightarrow> (g, Inl e)
      | Inr n \<Rightarrow>
          (let w = num_int n in
           if w \<le> g_available g then (let (g1, l) = gate_grant w g in (g1, Inr (Some l)))
           else (g, Inr None)))"

text \<open>\<open>release(count)\<close> for a finite count; the result is the number of permits returned.\<close>

definition gate_release :: "rat \<Rightarrow> gate \<Rightarrow> gate \<times> int" where
  "gate_release count g =
     (let wanted = max 0 \<lfloor>if count = 0 then 1 else count\<rfloor>;
          before = g_available g;
          (g1, served) = gate_serveWaiters wanted False 0 g;
          freed = wanted - served;
          g2 = (if 0 < freed
                then g1\<lparr>g_available := min (g_capacity g1) (g_available g1 + freed)\<rparr> else g1);
          g3 = g2\<lparr>g_held := max 0 (g_held g2 - freed)\<rparr>
      in (g3, g_available g3 - before))"

text \<open>Calling the release callback \<open>l\<close>: the second and later calls do nothing.\<close>

definition gate_callRelease :: "nat \<Rightarrow> gate \<Rightarrow> gate" where
  "gate_callRelease l g =
     (if l < length (g_leases g) then
        (if l_released (g_leases g ! l) then g
         else fst (gate_release (of_int (l_weight (g_leases g ! l)))
                (g\<lparr>g_leases := (g_leases g)[l := (g_leases g ! l)\<lparr>l_released := True\<rparr>]\<rparr>)))
      else g)"

text \<open>The abort listener of entry \<open>i\<close>; it was attached with \<open>once\<close>.\<close>

definition gate_abort :: "nat \<Rightarrow> gate \<Rightarrow> gate" where
  "gate_abort i g =
     (if i < length (g_entries g) \<and> e_listening (gate_entry g i) then
        (if e_cancelled (gate_entry g i) \<or> e_settled (gate_entry g i) then
           gate_setEntry i (\<lambda>e. e\<lparr>e_listening := False\<rparr>) g
         else
           (gate_setEntry i (\<lambda>e. e\<lparr>e_cancelled := True, e_listening := False\<rparr>) g)
             \<lparr>g_cancelledWaiters := g_cancelledWaiters g + 1,
              g_log := g_log g @ [(i, RejectedWith Aborted)]\<rparr>)
      else g)"

text \<open>The loop of \<open>reset\<close>: shift every waiter and reject it.\<close>

function gate_rejectAll :: "js_error \<Rightarrow> gate \<Rightarrow> gate" where
  "gate_rejectAll reason g =
     (if 0 < q_size (g_waiters g) then
        gate_rejectAll reason
          ((gate_dropHead g)\<lparr>g_log := g_log g @
             (case queue_peek (g_waiters g) of None \<Rightarrow> [] | Some x \<Rightarrow> [(fst x, RejectedWith reason)])\<rparr>)
      else g)"
  by pat_completeness auto
termination
  by (relation "measure (\<lambda>(e, g). nat (q_size (g_waiters g)))") auto

declare gate_rejectAll.simps [simp del]

text \<open>\<open>reset({ available })\<close>; \<open>None\<close> is the default, the whole capacity.\<close>

definition gate_reset :: "rat option \<Rightarrow> gate \<Rightarrow> gate" where
  "gate_reset available g =
     (if g_resetInert g then g
      else
        (let wanted = (case available of None \<Rightarrow> g_capacity g
                       | Some a \<Rightarrow> min (g_capacity g) (max 0 \<lfloor>a\<rfloor>));
             g1 = gate_rejectAll ResetError g
         in g1\<lparr>g_cancelledWaiters := 0,
               g_available := max 0 (min wanted (g_capacity g1 - g_held g1))\<rparr>))"

definition gate_dispose :: "gate \<Rightarrow> gate" where
  "gate_dispose g = (gate_reset None g)\<lparr>g_resetInert := True\<rparr>"

section \<open>Semaphore\<close>

text \<open>
  \<open>new PowerSemaphore(limit, queueCapacity)\<close>: an object with at least one own key is the
  options form.
\<close>

definition semaphore_new :: "js_val \<Rightarrow> js_val \<Rightarrow> gate result option" where
  "semaphore_new limit queueCapacity =
     (let l0 = (if limit = JUndefined then JNum (Fin 1) else limit);
          build = (\<lambda>l q. gate_new (JObj [(''capacity'', l), (''initialTokens'', l),
             (''queueCapacity'', q), (''className'', JStr ''PowerSemaphore''), (''limitName'', JStr ''limit'')]))
      in case l0 of
           JObj ps \<Rightarrow>
             (if ps = [] then build l0 queueCapacity
              else case assertKnownOptions l0 [''limit'', ''queueCapacity''] ''PowerSemaphore'' of
                     Inl e \<Rightarrow> Some (Inl e)
                   | Inr _ \<Rightarrow> build (get_prop ''limit'' l0) (get_prop ''queueCapacity'' l0))
         | _ \<Rightarrow> build l0 queueCapacity)"

text \<open>
  The semaphore keeps its gate and whether \<open>dispose\<close> has replaced its own \<open>reset\<close>.
\<close>

record semaphore =
  sem_gate :: gate
  sem_resetInert :: bool

definition semaphore_isLocked :: "semaphore \<Rightarrow> bool" where
  "semaphore_isLocked s \<longleftrightarrow> g_available (sem_gate s) = 0"

definition semaphore_acquire :: "js_val \<Rightarrow> bool option \<Rightarrow> semaphore \<Rightarrow> semaphore \<times> acquired" where
  "semaphore_acquire weight signal s =
     (let (g, r) = gate_acquire weight signal (sem_gate s) in (s\<lparr>sem_gate := g\<rparr>, r))"

definition semaphore_tryAcquire :: "semaphore \<Rightarrow> (semaphore, nat option) step" where
  "semaphore_tryAcquire s =
     (let (g, r) = gate_tryAcquire JUndefined (sem_gate s) in (s\<lparr>sem_gate := g\<rparr>, r))"

definition semaphore_reset :: "semaphore \<Rightarrow> semaphore" where
  "semaphore_reset s =
     (if sem_resetInert s then s
      else s\<lparr>sem_gate := gate_reset (Some (of_int (g_capacity (sem_gate s)))) (sem_gate s)\<rparr>)"

definition semaphore_dispose :: "semaphore \<Rightarrow> semaphore" where
  "semaphore_dispose s = (semaphore_reset s)\<lparr>sem_resetInert := True\<rparr>"


section \<open>Serving the waiters\<close>

text \<open>
  What a budget of \<open>b\<close> units does to the queued waiters: the ones granted, the ones
  left, and how many aborted ones were dropped on the way.  The head is never skipped.
\<close>

fun serve_spec :: "(nat \<Rightarrow> bool) \<Rightarrow> int \<Rightarrow> (nat \<times> int) list \<Rightarrow>
    (nat \<times> int) list \<times> (nat \<times> int) list \<times> nat" where
  "serve_spec cancelled b [] = ([], [], 0)"
| "serve_spec cancelled b ((i, w) # ws) =
     (if b \<le> 0 then ([], (i, w) # ws, 0)
      else if cancelled i then
        (let (gr, rest, k) = serve_spec cancelled b ws in (gr, rest, Suc k))
      else if b < w then ([], (i, w) # ws, 0)
      else (let (gr, rest, k) = serve_spec cancelled (b - w) ws in ((i, w) # gr, rest, k)))"

lemma gate_entry_setEntry [simp]:
  "i < length (g_entries g) \<Longrightarrow>
     gate_entry (gate_setEntry i f g) j = (if i = j then f (gate_entry g i) else gate_entry g j)"
  by (auto simp: gate_entry_def gate_setEntry_def)

lemma gate_setEntry_simps [simp]:
  "length (g_entries (gate_setEntry i f g)) = length (g_entries g)"
  "g_capacity (gate_setEntry i f g) = g_capacity g"
  "g_queueCapacity (gate_setEntry i f g) = g_queueCapacity g"
  "g_available (gate_setEntry i f g) = g_available g"
  "g_held (gate_setEntry i f g) = g_held g"
  "g_cancelledWaiters (gate_setEntry i f g) = g_cancelledWaiters g"
  "g_waiters (gate_setEntry i f g) = g_waiters g"
  "g_leases (gate_setEntry i f g) = g_leases g"
  "g_log (gate_setEntry i f g) = g_log g"
  "g_className (gate_setEntry i f g) = g_className g"
  "g_resetInert (gate_setEntry i f g) = g_resetInert g"
  by (simp_all add: gate_setEntry_def)

lemma gate_dropHead_simps [simp]:
  "g_entries (gate_dropHead g) = g_entries g"
  "g_capacity (gate_dropHead g) = g_capacity g"
  "g_queueCapacity (gate_dropHead g) = g_queueCapacity g"
  "g_available (gate_dropHead g) = g_available g"
  "g_held (gate_dropHead g) = g_held g"
  "g_cancelledWaiters (gate_dropHead g) = g_cancelledWaiters g"
  "g_leases (gate_dropHead g) = g_leases g"
  "g_log (gate_dropHead g) = g_log g"
  "g_className (gate_dropHead g) = g_className g"
  "g_resetInert (gate_dropHead g) = g_resetInert g"
  "gate_entry (gate_dropHead g) = gate_entry g"
  by (simp_all add: gate_dropHead_def gate_entry_def fun_eq_iff)

lemma gate_entry_cong [simp]:
  "gate_entry (g\<lparr>g_cancelledWaiters := c\<rparr>) = gate_entry g"
  "gate_entry (g\<lparr>g_log := lg\<rparr>) = gate_entry g"
  "gate_entry (g\<lparr>g_available := a\<rparr>) = gate_entry g"
  "gate_entry (g\<lparr>g_held := h\<rparr>) = gate_entry g"
  "gate_entry (g\<lparr>g_leases := ls\<rparr>) = gate_entry g"
  "gate_entry (g\<lparr>g_waiters := q\<rparr>) = gate_entry g"
  "gate_entry (g\<lparr>g_resetInert := b\<rparr>) = gate_entry g"
  by (simp_all add: gate_entry_def fun_eq_iff)

lemma gate_dropHead_rep:
  "queue_rep waiter_wt (g_waiters g) (x # ws) \<Longrightarrow> queue_rep waiter_wt (g_waiters (gate_dropHead g)) ws"
  by (auto simp: gate_dropHead_def dest: queue_shift_rep)

text \<open>Fields a method of the serving family leaves alone.\<close>

definition same_config :: "gate \<Rightarrow> gate \<Rightarrow> bool" where
  "same_config g g' \<longleftrightarrow> g_capacity g' = g_capacity g \<and> g_queueCapacity g' = g_queueCapacity g \<and>
     g_className g' = g_className g \<and> g_resetInert g' = g_resetInert g"

lemma same_config_trans: "same_config a b \<Longrightarrow> same_config b c \<Longrightarrow> same_config a c"
  by (simp add: same_config_def)

definition served_state :: "(nat \<times> int) list \<Rightarrow> (nat \<times> int) list \<Rightarrow> nat \<Rightarrow> gate \<Rightarrow> gate \<Rightarrow> bool" where
  "served_state gr rest k g g' \<longleftrightarrow>
     queue_rep waiter_wt (g_waiters g') rest \<and> same_config g g' \<and>
     g_available g' = g_available g \<and> g_held g' = g_held g \<and>
     g_cancelledWaiters g' = max 0 (g_cancelledWaiters g - int k) \<and>
     g_leases g' = g_leases g @ map (\<lambda>x. \<lparr>l_weight = snd x, l_released = False\<rparr>) gr \<and>
     g_log g' = g_log g @ zip (map fst gr) (map Granted [length (g_leases g)..<length (g_leases g) + length gr]) \<and>
     length (g_entries g') = length (g_entries g) \<and>
     (\<forall>i. e_cancelled (gate_entry g' i) = e_cancelled (gate_entry g i) \<and>
          e_settled (gate_entry g' i) = (e_settled (gate_entry g i) \<or> i \<in> fst ` set gr) \<and>
          e_listening (gate_entry g' i) = (e_listening (gate_entry g i) \<and> i \<notin> fst ` set gr))"

lemma gate_serveHead_state:
  assumes rep: "queue_rep waiter_wt (g_waiters g) (x # ws)" and i: "fst x < length (g_entries g)"
    and c: "0 \<le> g_cancelledWaiters g"
  shows "served_state [x] ws 0 g (gate_serveHead x False g)"
proof -
  let ?g1 = "gate_setEntry (fst x) (\<lambda>e. e\<lparr>e_settled := True\<rparr>) g"
  have "queue_rep waiter_wt (g_waiters (gate_dropHead ?g1)) ws"
    using rep by (intro gate_dropHead_rep) simp
  then show ?thesis
    using i c by (simp add: served_state_def same_config_def gate_serveHead_def gate_grantTo_def
        gate_makeRelease_def Let_def)
qed

lemma served_state_trans:
  assumes a: "served_state gr1 mid k1 g g1" and b: "served_state gr2 rest k2 g1 g2"
  shows "served_state (gr1 @ gr2) rest (k1 + k2) g g2"
proof -
  have "length (g_leases g1) = length (g_leases g) + length gr1"
    using a by (simp add: served_state_def)
  moreover have "[n..<n + (length gr1 + length gr2)] = [n..<n + length gr1] @ [n + length gr1..<n + length gr1 + length gr2]"
    for n using upt_add_eq_append [of n "n + length gr1" "length gr2"] by (simp add: add.assoc)
  ultimately show ?thesis
    using a b by (auto simp: served_state_def same_config_def add.assoc)
qed

text \<open>The loop of \<open>_serveWaiters\<close> implements \<open>serve_spec\<close>.\<close>

lemma gate_serveWaiters_spec:
  assumes "queue_rep waiter_wt (g_waiters g) ws" "\<forall>x \<in> set ws. fst x < length (g_entries g)"
    and "0 \<le> g_cancelledWaiters g" and "distinct (map fst ws)"
    and "serve_spec (\<lambda>i. e_cancelled (gate_entry g i)) (p - s) ws = (gr, rest, k)"
  shows "\<exists>g'. gate_serveWaiters p False s g = (g', s + sum_list (map snd gr)) \<and>
     served_state gr rest k g g'"
  using assms
proof (induction ws arbitrary: g s gr rest k)
  case Nil
  then show ?case
    by (subst gate_serveWaiters.simps) (simp add: queue_rep_size served_state_def same_config_def)
next
  case (Cons x ws)
  obtain i w where x: "x = (i, w)" by (cases x)
  have size: "0 < q_size (g_waiters g)" using queue_rep_size [OF Cons.prems(1)] by simp
  have peek: "queue_peek (g_waiters g) = Some x" using queue_peek_rep [OF Cons.prems(1)] by simp
  have stop: "served_state [] (x # ws) 0 g g"
    using Cons.prems(1,3) by (simp add: served_state_def same_config_def)
  consider (empty) "p \<le> s" | (cancelled) "s < p" "e_cancelled (gate_entry g i)"
    | (heavy) "s < p" "\<not> e_cancelled (gate_entry g i)" "p - s < w"
    | (serve) "s < p" "\<not> e_cancelled (gate_entry g i)" "w \<le> p - s" by linarith
  then show ?case
  proof cases
    case empty
    then show ?thesis using Cons.prems(5) stop x
      by (subst gate_serveWaiters.simps) auto
  next
    case heavy
    then show ?thesis using Cons.prems(5) stop x size peek
      by (subst gate_serveWaiters.simps) auto
  next
    case cancelled
    let ?g1 = "gate_dropHead (g\<lparr>g_cancelledWaiters := max 0 (g_cancelledWaiters g - 1)\<rparr>)"
    obtain k' where k': "serve_spec (\<lambda>i. e_cancelled (gate_entry g i)) (p - s) ws = (gr, rest, k')" "k = Suc k'"
      using Cons.prems(5) cancelled x by (auto split: prod.splits)
    have rep1: "queue_rep waiter_wt (g_waiters ?g1) ws"
      using Cons.prems(1) by (intro gate_dropHead_rep) simp
    have "served_state [] ws 1 g ?g1"
      using rep1 by (simp add: served_state_def same_config_def)
    moreover have "\<exists>g'. gate_serveWaiters p False s ?g1 = (g', s + sum_list (map snd gr)) \<and>
        served_state gr rest k' ?g1 g'"
      using Cons.prems k' by (intro Cons.IH [OF rep1]) auto
    moreover have "gate_serveWaiters p False s g = gate_serveWaiters p False s ?g1"
      using cancelled size peek x by (subst gate_serveWaiters.simps) simp
    ultimately show ?thesis
      using served_state_trans [of "[]" ws 1 g ?g1 gr rest k'] k'(2) by auto
  next
    case serve
    let ?g1 = "gate_serveHead x False g"
    obtain gr' where gr': "serve_spec (\<lambda>i. e_cancelled (gate_entry g i)) (p - (s + w)) ws = (gr', rest, k)"
        "gr = x # gr'"
      using Cons.prems(5) serve x by (auto split: prod.splits simp: algebra_simps)
    have s1: "served_state [x] ws 0 g ?g1"
      using Cons.prems by (intro gate_serveHead_state) auto
    have canc: "(\<lambda>i. e_cancelled (gate_entry ?g1 i)) = (\<lambda>i. e_cancelled (gate_entry g i))"
      using s1 by (simp add: served_state_def fun_eq_iff)
    have "\<exists>g'. gate_serveWaiters p False (s + w) ?g1 = (g', (s + w) + sum_list (map snd gr')) \<and>
        served_state gr' rest k ?g1 g'"
      using Cons.prems s1 gr'(1) canc by (intro Cons.IH) (auto simp: served_state_def)
    moreover have "gate_serveWaiters p False s g = gate_serveWaiters p False (s + w) ?g1"
      using serve size peek x by (subst gate_serveWaiters.simps) simp
    ultimately show ?thesis
      using served_state_trans [OF s1, of gr' rest k] gr'(2) x by auto
  qed
qed

lemma serve_spec_suffix:
  "serve_spec c b ws = (gr, rest, k) \<Longrightarrow>
     \<exists>pre. ws = pre @ rest \<and> gr = filter (\<lambda>x. \<not> c (fst x)) pre \<and> k = length (filter (\<lambda>x. c (fst x)) pre)"
proof (induction c b ws arbitrary: gr rest k rule: serve_spec.induct)
  case (1 c b)
  then show ?case by simp
next
  case (2 c b i w ws)
  consider "b \<le> 0" | "0 < b" "c i" | "0 < b" "\<not> c i" "b < w" | "0 < b" "\<not> c i" "w \<le> b" by linarith
  then show ?case
  proof cases
    case 1
    then show ?thesis using 2 by (intro exI [of _ "[]"]) simp
  next
    case 2
    obtain k' where r: "serve_spec c b ws = (gr, rest, k')" "k = Suc k'"
      using 2 "2.prems" by (auto split: prod.splits)
    obtain pre where "ws = pre @ rest" "gr = filter (\<lambda>x. \<not> c (fst x)) pre"
        "k' = length (filter (\<lambda>x. c (fst x)) pre)"
      using "2.IH"(1) [OF _ _ r(1)] 2 by auto
    then show ?thesis using 2 r(2) by (intro exI [of _ "(i, w) # pre"]) simp
  next
    case 3
    then show ?thesis using "2.prems" by (intro exI [of _ "[]"]) simp
  next
    case 4
    obtain gr' where r: "serve_spec c (b - w) ws = (gr', rest, k)" "gr = (i, w) # gr'"
      using 4 "2.prems" by (auto split: prod.splits)
    obtain pre where "ws = pre @ rest" "gr' = filter (\<lambda>x. \<not> c (fst x)) pre"
        "k = length (filter (\<lambda>x. c (fst x)) pre)"
      using "2.IH"(2) [OF _ _ _ r(1)] 4 by auto
    then show ?thesis using 4 r(2) by (intro exI [of _ "(i, w) # pre"]) simp
  qed
qed

lemma serve_spec_budget:
  "serve_spec c b ws = (gr, rest, k) \<Longrightarrow> 0 \<le> b \<Longrightarrow> sum_list (map snd gr) \<le> b"
proof (induction c b ws arbitrary: gr rest k rule: serve_spec.induct)
  case (2 c b i w ws)
  then show ?case by (fastforce split: if_splits prod.splits)
qed simp

text \<open>Serving stops at a live head only when the budget left is too small for it.\<close>

lemma serve_spec_stops:
  "serve_spec c b ws = (gr, (i, w) # rest, k) \<Longrightarrow>
     b - sum_list (map snd gr) \<le> 0 \<or> (\<not> c i \<and> b - sum_list (map snd gr) < w)"
proof (induction c b ws arbitrary: gr k rule: serve_spec.induct)
  case (2 c b j v ws)
  then show ?case by (fastforce split: if_splits prod.splits)
qed simp

section \<open>Runs\<close>

datatype gate_op =
    Acquire js_val "bool option"
  | TryAcquire js_val
  | CallRelease nat
  | ReleaseUnits rat
  | AbortSignal nat
  | ResetGate "rat option"
  | DisposeGate

fun gate_step :: "gate_op \<Rightarrow> gate \<Rightarrow> gate" where
  "gate_step (Acquire v sg) g = fst (gate_acquire v sg g)"
| "gate_step (TryAcquire v) g = fst (gate_tryAcquire v g)"
| "gate_step (CallRelease l) g = gate_callRelease l g"
| "gate_step (ReleaseUnits c) g = fst (gate_release c g)"
| "gate_step (AbortSignal i) g = gate_abort i g"
| "gate_step (ResetGate a) g = gate_reset a g"
| "gate_step DisposeGate g = gate_dispose g"

definition gate_run :: "gate_op list \<Rightarrow> gate \<Rightarrow> gate" where
  "gate_run ops g = fold gate_step ops g"

text \<open>The units out with callers: the weights of the release callbacks not yet called.\<close>

definition owed :: "lease list \<Rightarrow> int" where
  "owed ls = sum_list (map (\<lambda>l. if l_released l then 0 else l_weight l) ls)"

definition gate_queue :: "gate \<Rightarrow> (nat \<times> int) list" where
  "gate_queue g = map the (queue_toArray (g_waiters g))"

definition live_waiters :: "gate \<Rightarrow> (nat \<times> int) list" where
  "live_waiters g = filter (\<lambda>x. \<not> e_cancelled (gate_entry g (fst x))) (gate_queue g)"

text \<open>
  The units a call of \<open>release(count)\<close> asks for, on top of what the callbacks return; the runs
  without such a call pair every unit with a callback.
\<close>

definition release_units :: "rat \<Rightarrow> int" where
  "release_units c = max 0 \<lfloor>if c = 0 then 1 else c\<rfloor>"

fun direct_units :: "gate_op \<Rightarrow> int" where
  "direct_units (ReleaseUnits c) = release_units c"
| "direct_units _ = 0"

definition paired :: "gate_op \<Rightarrow> bool" where
  "paired op \<longleftrightarrow> direct_units op = 0"

section \<open>The capacity invariant\<close>

definition gate_shape :: "(nat \<times> int) list \<Rightarrow> gate \<Rightarrow> bool" where
  "gate_shape ws g \<longleftrightarrow>
     queue_rep waiter_wt (g_waiters g) ws \<and> distinct (map fst ws) \<and>
     (\<forall>x \<in> set ws. fst x < length (g_entries g) \<and> 1 \<le> snd x \<and> snd x \<le> g_capacity g \<and>
        \<not> e_settled (gate_entry g (fst x))) \<and>
     1 \<le> g_capacity g \<and> (\<forall>l \<in> set (g_leases g). 1 \<le> l_weight l) \<and> 0 \<le> g_cancelledWaiters g"

text \<open>With \<open>x\<close> units returned by \<open>release(count)\<close>, the callbacks may owe up to \<open>x\<close> more than is held.\<close>

definition gate_loose :: "int \<Rightarrow> (nat \<times> int) list \<Rightarrow> gate \<Rightarrow> bool" where
  "gate_loose x ws g \<longleftrightarrow>
     gate_shape ws g \<and> 0 \<le> g_available g \<and> 0 \<le> g_held g \<and> g_available g + g_held g \<le> g_capacity g \<and>
     g_held g \<le> owed (g_leases g) \<and> owed (g_leases g) \<le> g_held g + x"

definition gate_inv :: "(nat \<times> int) list \<Rightarrow> gate \<Rightarrow> bool" where
  "gate_inv ws g \<longleftrightarrow>
     queue_rep waiter_wt (g_waiters g) ws \<and> distinct (map fst ws) \<and>
     (\<forall>x \<in> set ws. fst x < length (g_entries g) \<and> 1 \<le> snd x \<and> snd x \<le> g_capacity g \<and>
        \<not> e_settled (gate_entry g (fst x))) \<and>
     1 \<le> g_capacity g \<and> 0 \<le> g_available g \<and> g_held g = owed (g_leases g) \<and>
     g_available g + g_held g \<le> g_capacity g \<and> (\<forall>l \<in> set (g_leases g). 1 \<le> l_weight l) \<and>
     0 \<le> g_cancelledWaiters g"

lemma owed_append: "owed (xs @ ys) = owed xs + owed ys"
  by (simp add: owed_def)

lemma owed_nonneg: "\<forall>l \<in> set ls. 1 \<le> l_weight l \<Longrightarrow> 0 \<le> owed ls"
  unfolding owed_def by (intro sum_list_nonneg) auto

lemma owed_fresh: "owed (map (\<lambda>x. \<lparr>l_weight = snd x, l_released = False\<rparr>) gr) = sum_list (map snd gr)"
  by (induction gr) (auto simp: owed_def)

lemma owed_release:
  "l < length ls \<Longrightarrow> \<not> l_released (ls ! l) \<Longrightarrow>
     owed (ls[l := (ls ! l)\<lparr>l_released := True\<rparr>]) = owed ls - l_weight (ls ! l)"
proof (induction ls arbitrary: l)
  case (Cons x ls)
  then show ?case by (cases l) (auto simp: owed_def)
qed simp

lemma gate_inv_loose: "gate_inv ws g \<longleftrightarrow> gate_loose 0 ws g"
  using owed_nonneg [of "g_leases g"] by (auto simp: gate_inv_def gate_loose_def gate_shape_def)

lemma gate_loose_queue: "gate_loose x ws g \<Longrightarrow> gate_queue g = ws"
  by (auto simp: gate_loose_def gate_shape_def gate_queue_def queue_toArray_rep comp_def)

lemma gate_inv_queue: "gate_inv ws g \<Longrightarrow> gate_queue g = ws"
  by (simp add: gate_inv_loose gate_loose_queue)

lemma weight_value:
  assumes "assertLimitRequired v (weight_spec c) = Inr n"
  shows "1 \<le> num_int n" and "n = Fin (of_int (num_int n))"
proof -
  from assertLimitRequired_cases [OF assms]
  have "\<exists>r. n = Fin r \<and> 1 \<le> r \<and> of_int \<lfloor>r\<rfloor> = r"
    by (auto simp: weight_spec_def limit_spec_def)
  then show "1 \<le> num_int n" and "n = Fin (of_int (num_int n))"
    by (auto simp: num_int_def le_floor_iff)
qed

lemma gate_grant_loose:
  assumes "gate_loose x ws g" "1 \<le> w" "w \<le> g_available g"
  shows "gate_loose x ws (fst (gate_grant w g))"
  using assms
  by (auto simp: gate_loose_def gate_shape_def gate_grant_def gate_makeRelease_def owed_append gate_entry_def)
    (auto simp: owed_def)

lemma gate_grant_inv:
  "gate_inv ws g \<Longrightarrow> 1 \<le> w \<Longrightarrow> w \<le> g_available g \<Longrightarrow> gate_inv ws (fst (gate_grant w g))"
  by (simp add: gate_inv_loose gate_grant_loose)

text \<open>What \<open>acquire\<close> does to the state, in one of four ways.\<close>

lemma gate_acquire_cases:
  assumes rep: "queue_rep waiter_wt (g_waiters g) ws" and n: "assertLimitRequired v (weight_spec (g_className g)) = Inr n"
  shows "fst (gate_acquire v sg g) = g \<or>
    (num_int n \<le> g_available g \<and> fst (gate_acquire v sg g) = fst (gate_grant (num_int n) g)) \<or>
    (g_available g < num_int n \<and> \<not> gate_isFull g \<and> num_int n \<le> g_capacity g \<and>
     (\<exists>q'. queue_rep waiter_wt q' (ws @ [(length (g_entries g), num_int n)]) \<and>
       fst (gate_acquire v sg g) = g\<lparr>g_waiters := q', g_entries := g_entries g @
         [\<lparr>e_cancelled = False, e_settled = False, e_listening = (sg \<noteq> None)\<rparr>]\<rparr>))"
proof -
  let ?i = "length (g_entries g)" and ?w = "num_int n"
  consider (rej) "g_capacity g < ?w \<or> sg = Some True"
    | (grant) "\<not> g_capacity g < ?w" "sg \<noteq> Some True" "?w \<le> g_available g"
    | (isfull) "\<not> g_capacity g < ?w" "sg \<noteq> Some True" "g_available g < ?w" "gate_isFull g"
    | (wait) "\<not> g_capacity g < ?w" "sg \<noteq> Some True" "g_available g < ?w" "\<not> gate_isFull g" by linarith
  then show ?thesis
  proof cases
    case wait
    show ?thesis
    proof (cases "length ws < 2 ^ 30")
      case True
      then obtain q' where "queue_push waiter_wt (?i, ?w) (g_waiters g) = (q', Inr (int (length ws) + 1))"
          "queue_rep waiter_wt q' (ws @ [(?i, ?w)])"
        using queue_push_rep [OF rep] by blast
      then show ?thesis using wait n by (simp add: gate_acquire_def Let_def) blast
    next
      case False
      then have "length ws = 2 ^ 30"
        using queue_rep_length [OF rep] queue_shape_pos [OF queue_rep_shape [OF rep]] by simp
      then have "queue_push waiter_wt (?i, ?w) (g_waiters g) = (g_waiters g, Inl InvalidArrayLength)"
        by (rule queue_full_throws [OF rep])
      then show ?thesis using wait n by (simp add: gate_acquire_def Let_def)
    qed
  qed (use n in \<open>auto simp: gate_acquire_def Let_def case_prod_unfold\<close>)
qed


lemmas gate_acquire_effect = gate_acquire_cases [OF gate_inv_def [THEN iffD1, THEN conjunct1]]

lemma gate_acquire_loose:
  assumes inv: "gate_loose x ws g"
  shows "\<exists>ws'. gate_loose x ws' (fst (gate_acquire v sg g))"
proof (cases "assertLimitRequired v (weight_spec (g_className g))")
  case (Inl e)
  then show ?thesis using inv by (auto simp: gate_acquire_def)
next
  case (Inr n)
  have w: "1 \<le> num_int n" by (rule weight_value [OF Inr])
  have rep: "queue_rep waiter_wt (g_waiters g) ws" using inv by (simp add: gate_loose_def gate_shape_def)
  from gate_acquire_cases [OF rep Inr, of sg] show ?thesis
  proof (elim disjE conjE exE)
    fix q' assume "queue_rep waiter_wt q' (ws @ [(length (g_entries g), num_int n)])"
      "num_int n \<le> g_capacity g" and g': "fst (gate_acquire v sg g) = g\<lparr>g_waiters := q', g_entries := g_entries g @
         [\<lparr>e_cancelled = False, e_settled = False, e_listening = (sg \<noteq> None)\<rparr>]\<rparr>"
    then have "gate_loose x (ws @ [(length (g_entries g), num_int n)]) (fst (gate_acquire v sg g))"
      using inv w by (auto simp: gate_loose_def gate_shape_def gate_entry_def nth_append split: if_splits dest: bspec)
    then show ?thesis by blast
  qed (use inv gate_grant_loose [OF inv w] in auto)
qed

lemma gate_acquire_inv: "gate_inv ws g \<Longrightarrow> \<exists>ws'. gate_inv ws' (fst (gate_acquire v sg g))"
  by (simp add: gate_inv_loose gate_acquire_loose)

lemma gate_tryAcquire_loose:
  assumes inv: "gate_loose x ws g"
  shows "gate_loose x ws (fst (gate_tryAcquire v g))"
proof -
  let ?v = "if v = JUndefined then JNum (Fin 1) else v"
  show ?thesis
  proof (cases "assertLimitRequired ?v (weight_spec (g_className g))")
    case (Inl e)
    then show ?thesis using inv unfolding gate_tryAcquire_def Let_def by (simp only: sum.case fst_conv)
  next
    case (Inr n)
    have "fst (gate_tryAcquire v g) = g \<or>
        (num_int n \<le> g_available g \<and> fst (gate_tryAcquire v g) = fst (gate_grant (num_int n) g))"
      unfolding gate_tryAcquire_def Let_def Inr by (simp add: case_prod_unfold)
    then show ?thesis using gate_grant_loose [OF inv weight_value(1) [OF Inr]] inv by auto
  qed
qed

lemma gate_tryAcquire_inv: "gate_inv ws g \<Longrightarrow> gate_inv ws (fst (gate_tryAcquire v g))"
  by (simp add: gate_inv_loose gate_tryAcquire_loose)

text \<open>A release: what the waiters get, what returns to the pool, what leaves the held count.\<close>

lemma granted_nonneg:
  assumes "serve_spec c b ws = (gr, rest, k)" "\<forall>x \<in> set ws. 1 \<le> snd x"
  shows "0 \<le> sum_list (map snd gr)" and "\<forall>x \<in> set gr. 1 \<le> snd x"
proof -
  obtain pre where "ws = pre @ rest" "gr = filter (\<lambda>x. \<not> c (fst x)) pre"
    using serve_spec_suffix [OF assms(1)] by auto
  then show *: "\<forall>x \<in> set gr. 1 \<le> snd x" using assms(2) by auto
  then show "0 \<le> sum_list (map snd gr)" by (intro sum_list_nonneg) force
qed

lemma gate_release_spec:
  assumes shape: "gate_shape ws g" and le: "g_available g \<le> g_capacity g"
    and s: "serve_spec (\<lambda>i. e_cancelled (gate_entry g i)) (release_units c) ws = (gr, rest, k)"
  shows "served_state gr rest k g ((fst (gate_release c g))\<lparr>g_available := g_available g, g_held := g_held g\<rparr>)"
    and "g_available (fst (gate_release c g)) = min (g_capacity g) (g_available g + (release_units c - sum_list (map snd gr)))"
    and "g_held (fst (gate_release c g)) = max 0 (g_held g - (release_units c - sum_list (map snd gr)))"
    and "sum_list (map snd gr) \<le> release_units c"
proof -
  let ?b = "release_units c" and ?s = "sum_list (map snd gr)"
  obtain g1 where g1: "gate_serveWaiters ?b False 0 g = (g1, ?s)" "served_state gr rest k g g1"
    using gate_serveWaiters_spec [of g ws ?b 0] s shape by (auto simp: gate_shape_def)
  show f: "?s \<le> ?b" using serve_spec_budget [OF s] by (simp add: release_units_def)
  have r: "gate_release c g = (g1\<lparr>g_available := min (g_capacity g) (g_available g + (?b - ?s)),
      g_held := max 0 (g_held g - (?b - ?s))\<rparr>, min (g_capacity g) (g_available g + (?b - ?s)) - g_available g)"
    using f le g1 unfolding gate_release_def release_units_def [symmetric]
    by (auto simp: Let_def served_state_def same_config_def min_def)
  show "served_state gr rest k g ((fst (gate_release c g))\<lparr>g_available := g_available g, g_held := g_held g\<rparr>)"
    using g1(2) by (simp add: r served_state_def same_config_def)
  show "g_available (fst (gate_release c g)) = min (g_capacity g) (g_available g + (?b - ?s))"
    "g_held (fst (gate_release c g)) = max 0 (g_held g - (?b - ?s))"
    by (simp_all add: r)
qed

lemma gate_loose_shape:
  "gate_loose x ws g \<Longrightarrow> gate_shape ws g" "gate_loose x ws g \<Longrightarrow> g_available g \<le> g_capacity g"
  by (simp_all add: gate_loose_def)

text \<open>Marking a callback as called.\<close>

definition gate_called :: "nat \<Rightarrow> gate \<Rightarrow> gate" where
  "gate_called l g = g\<lparr>g_leases := (g_leases g)[l := (g_leases g ! l)\<lparr>l_released := True\<rparr>]\<rparr>"

lemma gate_called_same [simp]:
  "gate_entry (gate_called l g) = gate_entry g" "g_available (gate_called l g) = g_available g"
  "g_held (gate_called l g) = g_held g" "g_capacity (gate_called l g) = g_capacity g"
  "g_leases (gate_called l g) = (g_leases g)[l := (g_leases g ! l)\<lparr>l_released := True\<rparr>]"
  by (simp_all add: gate_called_def)

lemma gate_called_shape:
  "gate_shape ws g \<Longrightarrow> l < length (g_leases g) \<Longrightarrow> gate_shape ws (gate_called l g)"
  by (auto simp: gate_shape_def gate_called_def dest!: set_update_subset_insert [THEN subsetD])

lemma gate_callRelease_called:
  "l < length (g_leases g) \<Longrightarrow> \<not> l_released (g_leases g ! l) \<Longrightarrow>
     gate_callRelease l g = fst (gate_release (of_int (l_weight (g_leases g ! l))) (gate_called l g))"
  by (simp add: gate_callRelease_def gate_called_def)

lemma release_units_whole: "1 \<le> w \<Longrightarrow> release_units (of_int w) = w"
  by (simp add: release_units_def)

lemma gate_callRelease_spec:
  assumes inv: "gate_inv ws g" and l: "l < length (g_leases g)" "\<not> l_released (g_leases g ! l)"
    and s: "serve_spec (\<lambda>i. e_cancelled (gate_entry g i)) (l_weight (g_leases g ! l)) ws = (gr, rest, k)"
  shows "\<exists>g0. g0 = g\<lparr>g_leases := (g_leases g)[l := (g_leases g ! l)\<lparr>l_released := True\<rparr>]\<rparr> \<and>
     served_state gr rest k g0
       ((gate_callRelease l g)\<lparr>g_available := g_available g, g_held := g_held g\<rparr>) \<and>
     g_available (gate_callRelease l g) = g_available g + (l_weight (g_leases g ! l) - sum_list (map snd gr)) \<and>
     g_held (gate_callRelease l g) = g_held g - (l_weight (g_leases g ! l) - sum_list (map snd gr)) \<and>
     0 \<le> l_weight (g_leases g ! l) - sum_list (map snd gr)"
proof -
  let ?w = "l_weight (g_leases g ! l)"
  have sh: "gate_shape ws (gate_called l g)" "g_available (gate_called l g) \<le> g_capacity (gate_called l g)"
    using inv l gate_called_shape gate_loose_shape by (auto simp: gate_inv_loose)
  have w: "1 \<le> ?w" "\<forall>x\<in>set ws. 1 \<le> snd x" using inv l by (auto simp: gate_inv_def)
  have "0 \<le> owed (g_leases (gate_called l g))" using sh(1) by (intro owed_nonneg) (simp add: gate_shape_def)
  then have held: "?w \<le> g_held g" using inv owed_release [OF l] by (simp add: gate_inv_def)
  have s': "serve_spec (\<lambda>i. e_cancelled (gate_entry (gate_called l g) i)) (release_units (of_int ?w)) ws = (gr, rest, k)"
    using s w by (simp add: release_units_whole)
  have "g_available g + g_held g \<le> g_capacity g" using inv by (simp add: gate_inv_def)
  then show ?thesis
    using gate_release_spec [OF sh s'] granted_nonneg(1) [OF s w(2)] held w(1)
    by (simp add: gate_callRelease_called [OF l] release_units_whole gate_called_def)
qed

text \<open>
  Releasing \<open>b\<close> units against at most \<open>b\<close> held ones more than the callbacks still owe: this is a
  callback that has just been called, or \<open>release(count)\<close> on its own.
\<close>

lemma gate_release_loose:
  assumes sh: "gate_shape ws g" and n: "0 \<le> g_available g" "0 \<le> g_held g" "g_available g + g_held g \<le> g_capacity g"
    and o: "g_held g \<le> owed (g_leases g) + release_units c" "owed (g_leases g) \<le> g_held g + y"
  shows "\<exists>ws'. gate_loose (y + release_units c) ws' (fst (gate_release c g)) \<and> set ws' \<subseteq> set ws
    \<and> (g_available (fst (gate_release c g)) \<noteq> g_available g \<longrightarrow>
         (\<exists>gr k. serve_spec (\<lambda>i. e_cancelled (gate_entry g i)) (release_units c) ws = (gr, ws', k)
            \<and> sum_list (map snd gr) < release_units c))
    \<and> (\<forall>i. e_cancelled (gate_entry (fst (gate_release c g)) i) = e_cancelled (gate_entry g i))
    \<and> (\<forall>x\<in>set (g_leases (fst (gate_release c g))). x \<in> set (g_leases g) \<or> l_weight x \<in> snd ` set ws)"
proof -
  let ?b = "release_units c" and ?g' = "fst (gate_release c g)"
  obtain gr rest k where s: "serve_spec (\<lambda>i. e_cancelled (gate_entry g i)) ?b ws = (gr, rest, k)"
    by (metis prod_cases3)
  obtain pre where pre: "ws = pre @ rest" "gr = filter (\<lambda>x. \<not> e_cancelled (gate_entry g (fst x))) pre"
    using serve_spec_suffix [OF s] by auto
  note r = gate_release_spec [OF sh _ s]
  have le: "g_available g \<le> g_capacity g" using n by simp
  have pos: "0 \<le> sum_list (map snd gr)" "\<forall>x\<in>set gr. 1 \<le> snd x"
    using granted_nonneg [OF s] sh by (simp_all add: gate_shape_def)
  have f: "served_state gr rest k g (?g'\<lparr>g_available := g_available g, g_held := g_held g\<rparr>)"
    using r(1) [OF le] .
  have leases: "g_leases ?g' = g_leases g @ map (\<lambda>x. \<lparr>l_weight = snd x, l_released = False\<rparr>) gr"
    and entries: "gate_entry ?g' i = gate_entry (?g'\<lparr>g_available := g_available g, g_held := g_held g\<rparr>) i"
    and canc: "e_cancelled (gate_entry ?g' i) = e_cancelled (gate_entry g i)" for i
    using f by (simp_all add: served_state_def)
  have owed: "owed (g_leases ?g') = owed (g_leases g) + sum_list (map snd gr)" "0 \<le> owed (g_leases ?g')"
    using pos sh by (simp_all add: leases owed_append owed_fresh owed_nonneg gate_shape_def)
  have "\<forall>x \<in> set rest. fst x \<notin> fst ` set gr" using sh pre by (auto simp: gate_shape_def)
  moreover have "\<forall>x\<in>set (g_leases ?g'). 1 \<le> l_weight x"
    unfolding leases using sh pos(2) by (auto simp: gate_shape_def)
  ultimately have "gate_shape rest ?g'"
    using sh f pre(1) by (auto simp: gate_shape_def served_state_def same_config_def)
  moreover have "g_capacity ?g' = g_capacity g" using f by (simp add: served_state_def same_config_def)
  ultimately have "gate_loose (y + ?b) rest ?g'"
    using r(2-4) [OF le] n o owed pos by (simp add: gate_loose_def min_def max_def)
  moreover have "sum_list (map snd gr) < ?b" if "g_available ?g' \<noteq> g_available g"
    using that r(2,4) [OF le] le by (cases "sum_list (map snd gr) = ?b") simp_all
  moreover have "\<forall>x\<in>set (g_leases ?g'). x \<in> set (g_leases g) \<or> l_weight x \<in> snd ` set ws"
    unfolding leases pre by (force simp: image_iff)
  ultimately show ?thesis using s canc pre(1) by (intro exI [of _ rest]) auto
qed

lemma gate_release_direct:
  assumes "gate_loose x ws g"
  shows "\<exists>ws'. gate_loose (x + release_units c) ws' (fst (gate_release c g))"
  using gate_release_loose [of ws g c x] assms unfolding gate_loose_def release_units_def by fastforce

lemma gate_callRelease_loose:
  assumes inv: "gate_loose x ws g"
  shows "\<exists>ws'. gate_loose x ws' (gate_callRelease l g)"
proof (cases "l < length (g_leases g) \<and> \<not> l_released (g_leases g ! l)")
  case False
  then show ?thesis using inv by (auto simp: gate_callRelease_def)
next
  case True
  let ?w = "l_weight (g_leases g ! l)"
  have w: "release_units (of_int ?w) = ?w" using inv True by (auto simp: gate_loose_def gate_shape_def release_units_whole)
  have "owed (g_leases (gate_called l g)) = owed (g_leases g) - ?w" using True by (simp add: owed_release)
  then show ?thesis
    using gate_release_loose [of ws "gate_called l g" "of_int ?w" "x - ?w"] gate_called_shape [of ws g l] inv True
    by (auto simp: gate_loose_def gate_callRelease_called w)
qed

lemma gate_callRelease_inv: "gate_inv ws g \<Longrightarrow> \<exists>ws'. gate_inv ws' (gate_callRelease l g)"
  by (simp add: gate_inv_loose gate_callRelease_loose)

lemma gate_setEntry_loose:
  assumes "gate_loose x ws g" "i < length (g_entries g)" "\<And>e. e_settled (f e) = e_settled e"
  shows "gate_loose x ws (gate_setEntry i f g)"
  using assms by (auto simp: gate_loose_def gate_shape_def)

lemma gate_loose_counters:
  "gate_loose x ws g \<Longrightarrow> 0 \<le> c \<Longrightarrow> gate_loose x ws (g\<lparr>g_cancelledWaiters := c, g_log := lg\<rparr>)"
  by (simp add: gate_loose_def gate_shape_def)

lemma gate_abort_loose:
  assumes inv: "gate_loose x ws g"
  shows "gate_loose x ws (gate_abort i g)"
proof (cases "i < length (g_entries g) \<and> e_listening (gate_entry g i)")
  case True
  then have "gate_loose x ws (gate_setEntry i (\<lambda>e. e\<lparr>e_listening := False\<rparr>) g)"
    "gate_loose x ws (gate_setEntry i (\<lambda>e. e\<lparr>e_cancelled := True, e_listening := False\<rparr>) g)"
    using gate_setEntry_loose [OF inv] by simp_all
  moreover have "0 \<le> g_cancelledWaiters g" using inv by (simp add: gate_loose_def gate_shape_def)
  ultimately show ?thesis using True gate_loose_counters by (simp add: gate_abort_def)
next
  case False
  then show ?thesis using inv by (auto simp: gate_abort_def)
qed

lemma gate_abort_inv: "gate_inv ws g \<Longrightarrow> gate_inv ws (gate_abort i g)"
  by (simp add: gate_inv_loose gate_abort_loose)

lemma gate_rejectAll_spec:
  "queue_rep waiter_wt (g_waiters g) ws \<Longrightarrow>
     gate_rejectAll e g = g\<lparr>g_waiters := g_waiters (gate_rejectAll e g),
        g_log := g_log g @ map (\<lambda>x. (fst x, RejectedWith e)) ws\<rparr> \<and>
     queue_rep waiter_wt (g_waiters (gate_rejectAll e g)) []"
proof (induction ws arbitrary: g)
  case Nil
  then show ?case by (subst (1 2 3) gate_rejectAll.simps) (simp add: queue_rep_size)
next
  case (Cons x ws)
  have size: "0 < q_size (g_waiters g)" and peek: "queue_peek (g_waiters g) = Some x"
    using queue_rep_size [OF Cons.prems] queue_peek_rep [OF Cons.prems] by simp_all
  let ?g1 = "(gate_dropHead g)\<lparr>g_log := g_log g @ [(fst x, RejectedWith e)]\<rparr>"
  have r: "gate_rejectAll e g = gate_rejectAll e ?g1"
    using size peek by (subst gate_rejectAll.simps) simp
  have "queue_rep waiter_wt (g_waiters ?g1) ws" using gate_dropHead_rep [OF Cons.prems] by simp
  from Cons.IH [OF this] show ?case unfolding r
    by (auto simp: gate_dropHead_def)
qed

lemma gate_reset_parts:
  assumes rep: "queue_rep waiter_wt (g_waiters g) ws" and live: "\<not> g_resetInert g"
  shows "queue_rep waiter_wt (g_waiters (gate_reset a g)) []" and "g_leases (gate_reset a g) = g_leases g"
    and "g_log (gate_reset a g) = g_log g @ map (\<lambda>x. (fst x, RejectedWith ResetError)) ws"
    and "g_entries (gate_reset a g) = g_entries g" and "g_held (gate_reset a g) = g_held g"
    and "g_capacity (gate_reset a g) = g_capacity g" and "g_cancelledWaiters (gate_reset a g) = 0"
    and "g_available (gate_reset a g) = max 0 (min (case a of None \<Rightarrow> g_capacity g
          | Some x \<Rightarrow> min (g_capacity g) (max 0 \<lfloor>x\<rfloor>)) (g_capacity g - g_held g))"
proof -
  let ?g1 = "gate_rejectAll ResetError g"
  have g1: "?g1 = g\<lparr>g_waiters := g_waiters ?g1, g_log := g_log g @ map (\<lambda>x. (fst x, RejectedWith ResetError)) ws\<rparr>"
      "queue_rep waiter_wt (g_waiters ?g1) []"
    using gate_rejectAll_spec [OF rep] by blast+
  have f: "g_capacity ?g1 = g_capacity g" "g_held ?g1 = g_held g" "g_leases ?g1 = g_leases g"
      "g_entries ?g1 = g_entries g"
      "g_log ?g1 = g_log g @ map (\<lambda>x. (fst x, RejectedWith ResetError)) ws"
    by (subst g1(1), simp)+
  show "queue_rep waiter_wt (g_waiters (gate_reset a g)) []" using live g1(2) by (simp add: gate_reset_def Let_def)
  from f show "g_leases (gate_reset a g) = g_leases g"
    "g_log (gate_reset a g) = g_log g @ map (\<lambda>x. (fst x, RejectedWith ResetError)) ws"
    "g_entries (gate_reset a g) = g_entries g" "g_held (gate_reset a g) = g_held g"
    "g_capacity (gate_reset a g) = g_capacity g" "g_cancelledWaiters (gate_reset a g) = 0"
    "g_available (gate_reset a g) = max 0 (min (case a of None \<Rightarrow> g_capacity g
          | Some x \<Rightarrow> min (g_capacity g) (max 0 \<lfloor>x\<rfloor>)) (g_capacity g - g_held g))"
    using live by (simp_all add: gate_reset_def Let_def)
qed

lemma gate_reset_loose:
  assumes inv: "gate_loose x ws g" and live: "\<not> g_resetInert g"
  shows "gate_loose x [] (gate_reset a g)"
proof -
  have rep: "queue_rep waiter_wt (g_waiters g) ws" using inv by (simp add: gate_loose_def gate_shape_def)
  show ?thesis
    using gate_reset_parts [OF rep live] inv by (auto simp: gate_loose_def gate_shape_def split: option.splits)
qed

lemma gate_reset_inv: "gate_inv ws g \<Longrightarrow> \<exists>ws'. gate_inv ws' (gate_reset a g)"
  using gate_reset_loose [of 0 ws g a] by (cases "g_resetInert g") (auto simp: gate_inv_loose gate_reset_def)

lemma gate_dispose_loose:
  "gate_loose x ws g \<Longrightarrow> \<exists>ws'. gate_loose x ws' (gate_dispose g)"
  using gate_reset_loose [of x ws g None]
  by (cases "g_resetInert g") (auto simp: gate_dispose_def gate_loose_def gate_shape_def gate_reset_def)

lemma gate_step_loose:
  assumes "gate_loose x ws g"
  shows "\<exists>ws'. gate_loose (x + direct_units op) ws' (gate_step op g)"
proof (cases op)
  case (ResetGate a)
  then show ?thesis using assms gate_reset_loose [OF assms, of a] by (cases "g_resetInert g") (auto simp: gate_reset_def)
qed (use assms in \<open>auto intro: gate_acquire_loose gate_tryAcquire_loose gate_callRelease_loose
       gate_release_direct gate_abort_loose gate_dispose_loose\<close>)

lemma gate_run_loose:
  "gate_loose x ws g \<Longrightarrow> \<exists>ws'. gate_loose (x + sum_list (map direct_units ops)) ws' (gate_run ops g)"
proof (induction ops arbitrary: x ws g)
  case (Cons op ops)
  obtain ws1 where "gate_loose (x + direct_units op) ws1 (gate_step op g)" using gate_step_loose [OF Cons.prems] by blast
  from Cons.IH [OF this] show ?case by (simp add: gate_run_def add.assoc)
qed (auto simp: gate_run_def)

lemma paired_units: "list_all paired ops \<Longrightarrow> sum_list (map direct_units ops) = 0"
  by (induction ops) (simp_all add: paired_def)

lemma gate_run_inv: "gate_inv ws g \<Longrightarrow> list_all paired ops \<Longrightarrow> \<exists>ws'. gate_inv ws' (gate_run ops g)"
  using gate_run_loose [of 0 ws g ops] by (simp add: gate_inv_loose paired_units)

section \<open>From the constructor\<close>

lemma gate_new_parts:
  assumes "gate_new options = Some (Inr g)"
  shows "\<exists>cls cname cap qcap tok q.
    assertLimitRequired (get_prop ''capacity'' options)
      ((limit_spec cname cls)\<lparr>sp_min := 1, sp_integer := True, sp_fallback := JNum (Fin 1)\<rparr>) = Inr cap \<and>
    (if is_nullish (get_prop ''queueCapacity'' options) then Inr PosInf
     else assertLimitRequired (get_prop ''queueCapacity'' options)
        ((limit_spec ''queueCapacity'' cls)\<lparr>sp_integer := True, sp_allowInfinity := True\<rparr>)) = Inr qcap \<and>
    (if is_nullish (get_prop ''initialTokens'' options) then Inr cap
     else assertLimitRequired (get_prop ''initialTokens'' options)
        ((limit_spec ''initialTokens'' cls)\<lparr>sp_integer := True\<rparr>)) = Inr tok \<and>
    queue_new (JNum (Fin POWER_QUEUE_INITIAL_CAPACITY)) = Some (Inr q) \<and>
    g = \<lparr>g_capacity = num_int cap, g_queueCapacity = qcap,
        g_available = min (num_int cap) (num_int tok), g_held = 0, g_cancelledWaiters = 0,
        g_waiters = q, g_entries = [], g_leases = [], g_log = [], g_className = cls,
        g_resetInert = False\<rparr>"
proof -
  let ?cls = "str_or (get_prop ''className'' options) ''PowerPermitGate'' False"
  let ?name = "str_or (get_prop ''limitName'' options) ''capacity'' True"
  let ?qc = "get_prop ''queueCapacity'' options"
  let ?it = "get_prop ''initialTokens'' options"
  obtain cap where cap: "assertLimitRequired (get_prop ''capacity'' options)
      ((limit_spec ?name ?cls)\<lparr>sp_min := 1, sp_integer := True, sp_fallback := JNum (Fin 1)\<rparr>) = Inr cap"
    using assms by (auto simp: gate_new_def Let_def split: sum.splits)
  obtain qcap where qcap: "(if is_nullish ?qc then Inr PosInf
       else assertLimitRequired ?qc ((limit_spec ''queueCapacity'' ?cls)\<lparr>sp_integer := True,
              sp_allowInfinity := True\<rparr>)) = Inr qcap"
    using assms cap unfolding gate_new_def Let_def by (fastforce split: sum.splits)
  obtain tok where tok: "(if is_nullish ?it then Inr cap
       else assertLimitRequired ?it ((limit_spec ''initialTokens'' ?cls)\<lparr>sp_integer := True\<rparr>)) = Inr tok"
    using assms cap qcap unfolding gate_new_def Let_def by (fastforce split: sum.splits)
  obtain q where q: "queue_new (JNum (Fin POWER_QUEUE_INITIAL_CAPACITY)) = Some (Inr q)"
      "g = \<lparr>g_capacity = num_int cap, g_queueCapacity = qcap,
        g_available = min (num_int cap) (num_int tok), g_held = 0, g_cancelledWaiters = 0,
        g_waiters = q, g_entries = [], g_leases = [], g_log = [], g_className = ?cls,
        g_resetInert = False\<rparr>"
  proof -
    obtain u where k: "assertKnownOptions options gate_known_options ''PowerPermitGate'' = Inr u"
      using assms by (auto simp: gate_new_def split: sum.splits)
    show ?thesis
      using assms unfolding gate_new_def Let_def
      by (simp only: k cap qcap tok sum.case split: option.splits sum.splits)
        (auto intro: that)
  qed
  show ?thesis using cap qcap tok q by blast
qed

lemma gate_new_cases:
  assumes "gate_new options = Some (Inr g)"
  shows "g_held g = 0 \<and> g_cancelledWaiters g = 0 \<and> g_entries g = [] \<and> g_leases g = [] \<and>
    g_log g = [] \<and> \<not> g_resetInert g \<and>
    queue_new (JNum (Fin POWER_QUEUE_INITIAL_CAPACITY)) = Some (Inr (g_waiters g)) \<and>
    1 \<le> g_capacity g \<and> 0 \<le> g_available g \<and> g_available g \<le> g_capacity g \<and>
    (g_queueCapacity g = PosInf \<or> (\<exists>k. 0 \<le> k \<and> g_queueCapacity g = Fin (of_int k)))"
proof -
  let ?qc = "get_prop ''queueCapacity'' options"
  let ?it = "get_prop ''initialTokens'' options"
  obtain cls cname cap qcap tok q where cap: "assertLimitRequired (get_prop ''capacity'' options)
      ((limit_spec cname cls)\<lparr>sp_min := 1, sp_integer := True, sp_fallback := JNum (Fin 1)\<rparr>) = Inr cap"
    and qcap: "(if is_nullish ?qc then Inr PosInf else assertLimitRequired ?qc
        ((limit_spec ''queueCapacity'' cls)\<lparr>sp_integer := True, sp_allowInfinity := True\<rparr>)) = Inr qcap"
    and tok: "(if is_nullish ?it then Inr cap else assertLimitRequired ?it
        ((limit_spec ''initialTokens'' cls)\<lparr>sp_integer := True\<rparr>)) = Inr tok"
    and q: "queue_new (JNum (Fin POWER_QUEUE_INITIAL_CAPACITY)) = Some (Inr q)"
      "g = \<lparr>g_capacity = num_int cap, g_queueCapacity = qcap,
        g_available = min (num_int cap) (num_int tok), g_held = 0, g_cancelledWaiters = 0,
        g_waiters = q, g_entries = [], g_leases = [], g_log = [], g_className = cls,
        g_resetInert = False\<rparr>"
    using gate_new_parts [OF assms] by blast
  have c: "1 \<le> num_int cap"
    using assertLimitRequired_cases [OF cap] by (auto simp: limit_spec_def num_int_def le_floor_iff)
  have t: "0 \<le> num_int tok"
  proof (cases "is_nullish ?it")
    case True
    then show ?thesis using tok c by simp
  next
    case False
    then have "assertLimitRequired ?it ((limit_spec ''initialTokens'' cls)\<lparr>sp_integer := True\<rparr>) = Inr tok"
      using tok by simp
    from assertLimitRequired_cases [OF this] show ?thesis by (auto simp: limit_spec_def num_int_def)
  qed
  have "qcap = PosInf \<or> (\<exists>k. 0 \<le> k \<and> qcap = Fin (of_int k))"
  proof (cases "is_nullish ?qc")
    case True
    then show ?thesis using qcap by simp
  next
    case False
    then have "assertLimitRequired ?qc ((limit_spec ''queueCapacity'' cls)\<lparr>sp_integer := True,
              sp_allowInfinity := True\<rparr>) = Inr qcap" using qcap by simp
    from assertLimitRequired_cases [OF this] show ?thesis
      by (auto simp: limit_spec_def)
  qed
  then show ?thesis using c t q by auto
qed

lemma gate_new_inv:
  assumes "gate_new options = Some (Inr g)"
  shows "gate_inv [] g"
proof -
  note g = gate_new_cases [OF assms]
  obtain m where "queue_new (JNum (Fin POWER_QUEUE_INITIAL_CAPACITY)) =
      Some (Inr (queue_empty (2 ^ m) (replicate (nat (2 ^ m)) None) :: (nat \<times> int) queue))"
      "1 \<le> m" "m \<le> 30"
    using queue_new_ok [of POWER_QUEUE_INITIAL_CAPACITY] by (auto simp: POWER_QUEUE_INITIAL_CAPACITY_def)
  then have "queue_rep waiter_wt (g_waiters g) []" using g queue_rep_empty by simp
  then show ?thesis using g by (simp add: gate_inv_def owed_def)
qed

text \<open>
  C3. Permit safety.  Whatever the callers do with a fresh gate (acquire with any weight
  and signal, try to acquire, call any release callback any number of times, call
  \<open>release(count)\<close> with any finite count, abort, reset, dispose), the free permits and the held count
  are not negative and never exceed the capacity together.  The held count never exceeds the weight of the
  release callbacks not yet called, and falls short of it by no more than the units asked back through
  \<open>release(count)\<close>: without such a call the two are equal.
\<close>

theorem gate_permit_safety:
  assumes "gate_new options = Some (Inr g0)"
  shows "let g = gate_run ops g0 in
    0 \<le> g_available g \<and> 0 \<le> g_held g \<and> g_available g + g_held g \<le> g_capacity g \<and>
    g_held g \<le> owed (g_leases g) \<and> owed (g_leases g) \<le> g_held g + sum_list (map direct_units ops) \<and>
    (list_all paired ops \<longrightarrow> g_held g = owed (g_leases g))"
proof -
  have "gate_loose 0 [] g0" using gate_new_inv [OF assms] by (simp add: gate_inv_loose)
  then obtain ws where "gate_loose (0 + sum_list (map direct_units ops)) ws (gate_run ops g0)"
    using gate_run_loose by blast
  then show ?thesis by (auto simp: gate_loose_def Let_def paired_units)
qed

text \<open>The slack is real: a permit given back twice is held twice.\<close>

theorem gate_permit_safety_witness:
  "case gate_new (JObj [(''capacity'', JNum (Fin 3))]) of
     Some (Inr g0) \<Rightarrow>
       (let g = gate_run [Acquire (JNum (Fin 3)) None, Acquire (JNum (Fin 2)) None, ReleaseUnits 2] g0
        in g_available g = 0 \<and> g_held g = 3 \<and> owed (g_leases g) = 5 \<and> owed (g_leases g) \<le> g_held g + 2)
   | _ \<Rightarrow> False"
proof -
  let ?ops = "[Acquire (JNum (Fin 3)) None, Acquire (JNum (Fin 2)) None, ReleaseUnits 2]"
  have "case gate_new (JObj [(''capacity'', JNum (Fin 3))]) of
      Some (Inr g0) \<Rightarrow> (let g = gate_run ?ops g0 in g_available g = 0 \<and> g_held g = 3 \<and> owed (g_leases g) = 5) | _ \<Rightarrow> False"
    by code_simp
  then obtain g0 where g0: "gate_new (JObj [(''capacity'', JNum (Fin 3))]) = Some (Inr g0)"
      "g_available (gate_run ?ops g0) = 0" "g_held (gate_run ?ops g0) = 3" "owed (g_leases (gate_run ?ops g0)) = 5"
    by (auto simp: Let_def split: option.splits sum.splits)
  then show ?thesis using gate_permit_safety [OF g0(1), of ?ops] by (simp add: Let_def release_units_def)
qed

section \<open>No lost wakeup\<close>

text \<open>The calls of a client that only takes single permits, as \<open>PowerSemaphore\<close> users do by default.\<close>

fun unit_op :: "gate_op \<Rightarrow> bool" where
  "unit_op (Acquire v sg) = (v = JUndefined \<or> v = JNum (Fin 1))"
| "unit_op (TryAcquire v) = (v = JUndefined \<or> v = JNum (Fin 1))"
| "unit_op _ = True"

definition unit_gate :: "(nat \<times> int) list \<Rightarrow> gate \<Rightarrow> bool" where
  "unit_gate ws g \<longleftrightarrow> (\<exists>x. gate_loose x ws g) \<and> (\<forall>x \<in> set ws. snd x = 1) \<and>
     (\<forall>l \<in> set (g_leases g). l_weight l = 1) \<and>
     (0 < g_available g \<longrightarrow> (\<forall>x \<in> set ws. e_cancelled (gate_entry g (fst x))))"

lemma gate_queue_rep: "queue_rep waiter_wt (g_waiters g) ws \<Longrightarrow> gate_queue g = ws"
  by (simp add: gate_queue_def queue_toArray_rep comp_def)

lemma unit_weight:
  "v = JUndefined \<or> v = JNum (Fin 1) \<Longrightarrow> assertLimitRequired v (weight_spec c) = Inr (Fin 1)"
  by (auto simp: assertLimitRequired_def assertLimit_def weight_spec_def limit_spec_def)

lemma num_int_1 [simp]: "num_int (Fin 1) = 1"
  by (simp add: num_int_def)

lemma gate_grant_fields:
  "g_waiters (fst (gate_grant w g)) = g_waiters g"
  "g_leases (fst (gate_grant w g)) = g_leases g @ [\<lparr>l_weight = w, l_released = False\<rparr>]"
  "g_available (fst (gate_grant w g)) = g_available g - w"
  "g_held (fst (gate_grant w g)) = g_held g + w"
  "g_capacity (fst (gate_grant w g)) = g_capacity g"
  "g_cancelledWaiters (fst (gate_grant w g)) = g_cancelledWaiters g"
  "g_queueCapacity (fst (gate_grant w g)) = g_queueCapacity g"
  "g_entries (fst (gate_grant w g)) = g_entries g"
  "gate_entry (fst (gate_grant w g)) = gate_entry g"
  by (simp_all add: gate_grant_def gate_makeRelease_def gate_entry_def fun_eq_iff)

lemma gate_grant_unit:
  assumes "unit_gate ws g" "1 \<le> g_available g"
  shows "unit_gate ws (fst (gate_grant 1 g))"
proof -
  obtain x where "gate_loose x ws g" using assms(1) by (auto simp: unit_gate_def)
  then have "gate_loose x ws (fst (gate_grant 1 g))" using gate_grant_loose assms(2) by simp
  then show ?thesis using assms by (auto simp: unit_gate_def gate_grant_fields)
qed

lemma unit_gate_acquire:
  assumes u: "unit_gate ws g" and v: "v = JUndefined \<or> v = JNum (Fin 1)"
  shows "\<exists>ws'. unit_gate ws' (fst (gate_acquire v sg g))"
proof -
  obtain x where inv: "gate_loose x ws g" using u by (auto simp: unit_gate_def)
  have rep: "queue_rep waiter_wt (g_waiters g) ws" using inv by (simp add: gate_loose_def gate_shape_def)
  obtain ws' where inv': "gate_loose x ws' (fst (gate_acquire v sg g))" using gate_acquire_loose [OF inv] by blast
  consider "fst (gate_acquire v sg g) = g"
    | "1 \<le> g_available g" "fst (gate_acquire v sg g) = fst (gate_grant 1 g)"
    | (wait) q' where "g_available g < 1" "queue_rep waiter_wt q' (ws @ [(length (g_entries g), 1)])"
       "fst (gate_acquire v sg g) = g\<lparr>g_waiters := q', g_entries := g_entries g @
         [\<lparr>e_cancelled = False, e_settled = False, e_listening = (sg \<noteq> None)\<rparr>]\<rparr>"
    using gate_acquire_cases [OF rep unit_weight [OF v], of sg] by (simp only: num_int_1) blast
  then show ?thesis
  proof cases
    case wait
    have "gate_queue (fst (gate_acquire v sg g)) = ws @ [(length (g_entries g), 1)]"
      using wait(2,3) by (intro gate_queue_rep) simp
    then have "ws' = ws @ [(length (g_entries g), 1)]" using gate_loose_queue [OF inv'] by simp
    then have "unit_gate ws' (fst (gate_acquire v sg g))"
      using inv' u wait(1,3) by (auto simp: unit_gate_def)
    then show ?thesis by blast
  qed (use u gate_grant_unit in auto)
qed

lemma gate_tryAcquire_effect:
  assumes "assertLimitRequired (if v = JUndefined then JNum (Fin 1) else v) (weight_spec (g_className g)) = Inr n"
  shows "fst (gate_tryAcquire v g) =
     (if num_int n \<le> g_available g then fst (gate_grant (num_int n) g) else g)"
  unfolding gate_tryAcquire_def Let_def assms by (simp add: case_prod_unfold)

lemma unit_gate_tryAcquire:
  assumes u: "unit_gate ws g" and v: "v = JUndefined \<or> v = JNum (Fin 1)"
  shows "unit_gate ws (fst (gate_tryAcquire v g))"
proof -
  have "assertLimitRequired (if v = JUndefined then JNum (Fin 1) else v) (weight_spec (g_className g)) = Inr (Fin 1)"
    using v by (intro unit_weight) auto
  from gate_tryAcquire_effect [OF this] show ?thesis using u gate_grant_unit by simp
qed

text \<open>With unit weights a release that returns units to the pool has served every live waiter.\<close>

lemma unit_release:
  assumes sh: "gate_shape ws g" and n: "0 \<le> g_available g" "0 \<le> g_held g" "g_available g + g_held g \<le> g_capacity g"
    and o: "g_held g \<le> owed (g_leases g) + release_units c"
    and units: "\<forall>x \<in> set ws. snd x = 1" "\<forall>l \<in> set (g_leases g). l_weight l = 1"
    and live: "0 < g_available g \<longrightarrow> (\<forall>x \<in> set ws. e_cancelled (gate_entry g (fst x)))"
  shows "\<exists>ws'. unit_gate ws' (fst (gate_release c g))"
proof -
  let ?g' = "fst (gate_release c g)"
  obtain ws' where r: "gate_loose (owed (g_leases g) + release_units c) ws' ?g'" "set ws' \<subseteq> set ws"
      "g_available ?g' \<noteq> g_available g \<longrightarrow>
         (\<exists>gr k. serve_spec (\<lambda>i. e_cancelled (gate_entry g i)) (release_units c) ws = (gr, ws', k)
            \<and> sum_list (map snd gr) < release_units c)"
      "\<forall>i. e_cancelled (gate_entry ?g' i) = e_cancelled (gate_entry g i)"
      "\<forall>x\<in>set (g_leases ?g'). x \<in> set (g_leases g) \<or> l_weight x \<in> snd ` set ws"
    using gate_release_loose [OF sh n o, of "owed (g_leases g)"] n by auto
  have "ws' = []" if "g_available ?g' \<noteq> g_available g"
  proof (cases ws')
    case (Cons x rest)
    obtain i w where x: "x = (i, w)" by (cases x)
    have "w = 1" using r(2) units(1) Cons x by auto
    then show ?thesis using r(3) that serve_spec_stops x Cons by fastforce
  qed simp
  moreover have "\<forall>x\<in>set (g_leases ?g'). l_weight x = 1" using r(5) units by fastforce
  ultimately have "unit_gate ws' ?g'"
    using r(1,2,4) units(1) live unfolding unit_gate_def by (metis empty_iff list.set(1) subsetD)
  then show ?thesis by blast
qed

lemma unit_gate_release:
  assumes "unit_gate ws g"
  shows "\<exists>ws'. unit_gate ws' (fst (gate_release c g))"
  using assms by (intro unit_release [of ws]) (auto simp: unit_gate_def gate_loose_def release_units_def)

lemma unit_gate_callRelease:
  assumes u: "unit_gate ws g"
  shows "\<exists>ws'. unit_gate ws' (gate_callRelease l g)"
proof (cases "l < length (g_leases g) \<and> \<not> l_released (g_leases g ! l)")
  case False
  then show ?thesis using u by (auto simp: gate_callRelease_def)
next
  case True
  have w: "l_weight (g_leases g ! l) = 1" using u True by (simp add: unit_gate_def)
  have "owed (g_leases (gate_called l g)) = owed (g_leases g) - 1" using True w by (simp add: owed_release)
  moreover have "\<forall>x \<in> set (g_leases (gate_called l g)). l_weight x = 1"
    using u True by (auto simp: unit_gate_def dest!: set_update_subset_insert [THEN subsetD])
  ultimately have "\<exists>ws'. unit_gate ws' (fst (gate_release (of_int 1) (gate_called l g)))"
    using u True by (intro unit_release [of ws])
      (auto simp: unit_gate_def gate_loose_def release_units_whole intro!: gate_called_shape simp del: of_int_1)
  then show ?thesis using True by (simp add: gate_callRelease_called w)
qed

lemma gate_reset_fields:
  assumes inv: "gate_inv ws g" and live: "\<not> g_resetInert g"
  shows "gate_inv [] (gate_reset a g)" and "g_leases (gate_reset a g) = g_leases g"
    and "g_log (gate_reset a g) = g_log g @ map (\<lambda>x. (fst x, RejectedWith ResetError)) ws"
    and "g_entries (gate_reset a g) = g_entries g" and "g_held (gate_reset a g) = g_held g"
    and "g_capacity (gate_reset a g) = g_capacity g"
    and "g_available (gate_reset a g) = max 0 (min (case a of None \<Rightarrow> g_capacity g
          | Some x \<Rightarrow> min (g_capacity g) (max 0 \<lfloor>x\<rfloor>)) (g_capacity g - g_held g))"
  using inv live gate_reset_parts [of g ws a] gate_reset_loose [of 0 ws g a] by (simp_all add: gate_inv_loose gate_inv_def [symmetric])
    (simp_all add: gate_loose_def gate_shape_def)

lemma unit_gate_reset:
  assumes u: "unit_gate ws g"
  shows "\<exists>ws'. unit_gate ws' (gate_reset a g)"
proof (cases "g_resetInert g")
  case True
  then show ?thesis using u by (auto simp: gate_reset_def)
next
  case False
  obtain x where inv: "gate_loose x ws g" using u by (auto simp: unit_gate_def)
  have "queue_rep waiter_wt (g_waiters g) ws" using inv by (simp add: gate_loose_def gate_shape_def)
  then have "unit_gate [] (gate_reset a g)"
    using gate_reset_loose [OF inv False] gate_reset_parts(2) [OF _ False] u by (auto simp: unit_gate_def)
  then show ?thesis by blast
qed

lemma unit_gate_abort:
  assumes u: "unit_gate ws g"
  shows "unit_gate ws (gate_abort i g)"
proof -
  obtain x where "gate_loose x ws g" using u by (auto simp: unit_gate_def)
  then have "gate_loose x ws (gate_abort i g)" by (rule gate_abort_loose)
  moreover have "e_cancelled (gate_entry g j) \<Longrightarrow> e_cancelled (gate_entry (gate_abort i g) j)" for j
    by (simp add: gate_abort_def)
  moreover have "g_available (gate_abort i g) = g_available g" "g_leases (gate_abort i g) = g_leases g"
    by (simp_all add: gate_abort_def)
  ultimately show ?thesis using u by (auto simp: unit_gate_def)
qed

lemma unit_gate_step:
  assumes "unit_gate ws g" "unit_op op"
  shows "\<exists>ws'. unit_gate ws' (gate_step op g)"
proof (cases op)
  case DisposeGate
  obtain ws' where "unit_gate ws' (gate_reset None g)" using unit_gate_reset [OF assms(1)] by blast
  then have "unit_gate ws' (gate_dispose g)" by (simp add: unit_gate_def gate_loose_def gate_shape_def gate_dispose_def)
  then show ?thesis using DisposeGate by auto
qed (use assms in \<open>auto intro: unit_gate_acquire unit_gate_tryAcquire unit_gate_callRelease
       unit_gate_release unit_gate_abort unit_gate_reset\<close>)

lemma unit_gate_run:
  "unit_gate ws g \<Longrightarrow> list_all unit_op ops \<Longrightarrow> \<exists>ws'. unit_gate ws' (gate_run ops g)"
proof (induction ops arbitrary: ws g)
  case (Cons op ops)
  then show ?case using unit_gate_step [OF Cons.prems(1), of op] by (auto simp: gate_run_def)
qed (auto simp: gate_run_def)

text \<open>
  C4. No lost wakeup for single permits: when every caller takes one permit, a free permit
  means that no live waiter is queued, after any run, calls of \<open>release(count)\<close> included.  With weights
  this fails: in the run
  at the end a holder of two of three permits leaves a waiter of weight two behind, both
  holders then release one at a time, and the waiter stays queued with every permit free.
\<close>

theorem gate_no_lost_wakeup:
  assumes "gate_new options = Some (Inr g0)" "list_all unit_op ops"
  shows "(0 < g_available (gate_run ops g0) \<longrightarrow> live_waiters (gate_run ops g0) = []) \<and>
    (case gate_new (JObj [(''capacity'', JNum (Fin 2))]) of
       Some (Inr h) \<Rightarrow>
         (let g = gate_run [Acquire JUndefined None, Acquire JUndefined None,
                    Acquire (JNum (Fin 2)) None, CallRelease 0, CallRelease 1] h
          in g_available g = 2 \<and> g_held g = 0 \<and> live_waiters g = [(0, 2)])
     | _ \<Rightarrow> False)"
proof
  have "unit_gate [] g0"
    using gate_new_inv [OF assms(1)] gate_new_cases [OF assms(1)]
    by (auto simp: unit_gate_def gate_inv_loose)
  then obtain ws where u: "unit_gate ws (gate_run ops g0)" using unit_gate_run assms(2) by blast
  then have "gate_queue (gate_run ops g0) = ws" by (auto simp: unit_gate_def intro: gate_loose_queue)
  then show "0 < g_available (gate_run ops g0) \<longrightarrow> live_waiters (gate_run ops g0) = []"
    using u by (auto simp: unit_gate_def live_waiters_def)
qed code_simp

theorem gate_no_lost_wakeup_witness:
  "case gate_new (JObj [(''capacity'', JNum (Fin 1))]) of
     Some (Inr g0) \<Rightarrow>
       (let g = gate_run [Acquire JUndefined None, Acquire JUndefined None, CallRelease 0, CallRelease 1] g0
        in g_available g = 1 \<and> live_waiters g = [])
   | _ \<Rightarrow> False"
proof -
  let ?ops = "[Acquire JUndefined None, Acquire JUndefined None, CallRelease 0, CallRelease 1]"
  have "case gate_new (JObj [(''capacity'', JNum (Fin 1))]) of
      Some (Inr g0) \<Rightarrow> g_available (gate_run ?ops g0) = 1 | _ \<Rightarrow> False"
    by code_simp
  then obtain g0 where g0: "gate_new (JObj [(''capacity'', JNum (Fin 1))]) = Some (Inr g0)"
      "g_available (gate_run ?ops g0) = 1"
    by (auto split: option.splits sum.splits)
  then show ?thesis using gate_no_lost_wakeup [OF g0(1), of ?ops] by (simp add: Let_def)
qed

text \<open>
  Releasing is first in, first out.  In any state reached without \<open>release(count)\<close>, calling a release callback
  for the first time hands its units to the queued waiters exactly as \<open>serve_spec\<close> says
  (each live waiter is granted while the budget covers its weight, aborted ones are dropped,
  the first one too heavy stops the service): the granted ones are a prefix of the queue
  without the aborted ones, in order; each gets a fresh callback; the remaining units, and no
  more, return to the pool; the rest of the queue is kept in order; and calling the same
  callback again changes nothing.
\<close>

theorem gate_release_serves_in_order:
  assumes "gate_new options = Some (Inr g0)" and "g = gate_run ops g0" and "list_all paired ops"
    and "l < length (g_leases g)" "\<not> l_released (g_leases g ! l)"
    and "serve_spec (\<lambda>i. e_cancelled (gate_entry g i)) (l_weight (g_leases g ! l)) (gate_queue g)
         = (gr, rest, k)"
  shows "gate_queue (gate_callRelease l g) = rest \<and>
    (\<exists>pre. gate_queue g = pre @ rest \<and> gr = filter (\<lambda>x. \<not> e_cancelled (gate_entry g (fst x))) pre) \<and>
    g_log (gate_callRelease l g) = g_log g @ zip (map fst gr)
      (map Granted [length (g_leases g)..<length (g_leases g) + length gr]) \<and>
    map l_weight (drop (length (g_leases g)) (g_leases (gate_callRelease l g))) = map snd gr \<and>
    sum_list (map snd gr) \<le> l_weight (g_leases g ! l) \<and>
    g_available (gate_callRelease l g) =
      g_available g + l_weight (g_leases g ! l) - sum_list (map snd gr) \<and>
    gate_callRelease l (gate_callRelease l g) = gate_callRelease l g"
proof -
  obtain ws where inv: "gate_inv ws g" using gate_run_inv [OF gate_new_inv [OF assms(1)] assms(3)] assms(2) by blast
  note q = gate_inv_queue [OF inv]
  note s = assms(6) [unfolded q]
  let ?g0 = "g\<lparr>g_leases := (g_leases g)[l := (g_leases g ! l)\<lparr>l_released := True\<rparr>]\<rparr>"
  have r: "served_state gr rest k ?g0 ((gate_callRelease l g)\<lparr>g_available := g_available g, g_held := g_held g\<rparr>)"
      "g_available (gate_callRelease l g) = g_available g + (l_weight (g_leases g ! l) - sum_list (map snd gr))"
      "0 \<le> l_weight (g_leases g ! l) - sum_list (map snd gr)"
    using gate_callRelease_spec [OF inv assms(4,5) s] by auto
  have leases: "g_leases (gate_callRelease l g) = (g_leases g)[l := (g_leases g ! l)\<lparr>l_released := True\<rparr>] @
      map (\<lambda>x. \<lparr>l_weight = snd x, l_released = False\<rparr>) gr"
    using r(1) by (simp add: served_state_def)
  have "gate_queue (gate_callRelease l g) = rest"
    using r(1) by (intro gate_queue_rep) (simp add: served_state_def)
  moreover have "gate_callRelease l (gate_callRelease l g) = gate_callRelease l g"
    using assms(4) by (subst gate_callRelease_def) (simp add: leases nth_append)
  moreover have "g_log (gate_callRelease l g) = g_log g @ zip (map fst gr)
      (map Granted [length (g_leases g)..<length (g_leases g) + length gr])"
    using r(1) by (simp add: served_state_def)
  moreover have "map l_weight (drop (length (g_leases g)) (g_leases (gate_callRelease l g))) = map snd gr"
    by (simp add: leases comp_def)
  moreover have "\<exists>pre. gate_queue g = pre @ rest \<and> gr = filter (\<lambda>x. \<not> e_cancelled (gate_entry g (fst x))) pre"
    using serve_spec_suffix [OF s] q by auto
  ultimately show ?thesis using r(2,3) by simp
qed

theorem gate_release_serves_in_order_witness:
  "case gate_new (JObj [(''capacity'', JNum (Fin 3))]) of
     Some (Inr g0) \<Rightarrow>
       (let g = gate_run [Acquire (JNum (Fin 3)) None, Acquire (JNum (Fin 2)) None,
                  Acquire JUndefined (Some False), Acquire (JNum (Fin 2)) None, AbortSignal 1] g0
        in gate_queue g = [(0, 2), (1, 1), (2, 2)] \<and> gate_queue (gate_callRelease 0 g) = [(2, 2)] \<and>
           g_log (gate_callRelease 0 g) = g_log g @ [(0, Granted 1)] \<and>
           g_available (gate_callRelease 0 g) = 1)
   | _ \<Rightarrow> False"
proof -
  let ?ops = "[Acquire (JNum (Fin 3)) None, Acquire (JNum (Fin 2)) None,
                  Acquire JUndefined (Some False), Acquire (JNum (Fin 2)) None, AbortSignal 1]"
  have "case gate_new (JObj [(''capacity'', JNum (Fin 3))]) of
      Some (Inr g0) \<Rightarrow> (let g = gate_run ?ops g0 in gate_queue g = [(0, 2), (1, 1), (2, 2)] \<and>
        g_available g = 0 \<and> g_leases g = [\<lparr>l_weight = 3, l_released = False\<rparr>] \<and>
        map (e_cancelled \<circ> gate_entry g) [0,1,2] = [False, True, False]) | _ \<Rightarrow> False"
    by code_simp
  then obtain g0 g where g: "gate_new (JObj [(''capacity'', JNum (Fin 3))]) = Some (Inr g0)"
      "g = gate_run ?ops g0" "gate_queue g = [(0, 2), (1, 1), (2, 2)]"
        "g_available g = 0" "g_leases g = [\<lparr>l_weight = 3, l_released = False\<rparr>]"
        "map (e_cancelled \<circ> gate_entry g) [0,1,2] = [False, True, False]"
    by (auto simp: Let_def split: option.splits sum.splits)
  have "serve_spec (\<lambda>i. e_cancelled (gate_entry g i)) (l_weight (g_leases g ! 0)) (gate_queue g)
         = ([(0, 2)], [(2, 2)], 1)"
    using g by simp
  from gate_release_serves_in_order [OF g(1,2) _ _ _ this] show ?thesis
    using g by (simp add: Let_def upt_rec paired_def)
qed

section \<open>Counting the queued waiters\<close>

fun keeps_queue :: "gate_op \<Rightarrow> bool" where
  "keeps_queue (ResetGate a) = False"
| "keeps_queue DisposeGate = False"
| "keeps_queue (ReleaseUnits c) = False"
| "keeps_queue _ = True"

text \<open>
  The counter of aborted entries matches the queue, and an entry whose listener can still
  fire is queued.
\<close>

definition counted_gate :: "(nat \<times> int) list \<Rightarrow> gate \<Rightarrow> bool" where
  "counted_gate ws g \<longleftrightarrow> gate_inv ws g \<and>
     (g_queueCapacity g = PosInf \<or> (\<exists>k. g_queueCapacity g = Fin (of_int k))) \<and>
     g_cancelledWaiters g = int (length (filter (\<lambda>x. e_cancelled (gate_entry g (fst x))) ws)) \<and>
     (\<forall>i < length (g_entries g). e_listening (gate_entry g i) \<longrightarrow>
        \<not> e_cancelled (gate_entry g i) \<longrightarrow> \<not> e_settled (gate_entry g i) \<longrightarrow> i \<in> fst ` set ws) \<and>
     (\<forall>k. g_queueCapacity g = Fin (of_int k) \<longrightarrow>
        int (length (filter (\<lambda>x. \<not> e_cancelled (gate_entry g (fst x))) ws)) \<le> k)"

lemma counted_pending:
  assumes c: "counted_gate ws g"
  shows "gate_pending g = int (length (live_waiters g))"
    and "live_waiters g = filter (\<lambda>x. \<not> e_cancelled (gate_entry g (fst x))) ws"
proof -
  have inv: "gate_inv ws g" using c by (simp add: counted_gate_def)
  then have rep: "queue_rep waiter_wt (g_waiters g) ws" by (simp add: gate_inv_def)
  show l: "live_waiters g = filter (\<lambda>x. \<not> e_cancelled (gate_entry g (fst x))) ws"
    by (simp add: live_waiters_def gate_inv_queue [OF inv])
  show "gate_pending g = int (length (live_waiters g))"
    using c sum_length_filter_compl [of "\<lambda>x. e_cancelled (gate_entry g (fst x))" ws]
    by (simp add: gate_pending_def queue_rep_size [OF rep] l counted_gate_def)
qed

lemma counted_gate_grant:
  assumes "counted_gate ws g" "1 \<le> w" "w \<le> g_available g"
  shows "counted_gate ws (fst (gate_grant w g))"
  using assms gate_grant_inv [of ws g w]
  by (auto simp: counted_gate_def gate_grant_fields)

lemma filter_cong_fst:
  "(\<And>x. x \<in> set ws \<Longrightarrow> P (fst x) = Q (fst x)) \<Longrightarrow>
     filter (\<lambda>x. P (fst x)) ws = filter (\<lambda>x. Q (fst x)) ws"
  by (rule filter_cong) auto

lemma counted_gate_acquire:
  assumes c: "counted_gate ws g"
  shows "\<exists>ws'. counted_gate ws' (fst (gate_acquire v sg g))"
proof (cases "assertLimitRequired v (weight_spec (g_className g))")
  case (Inl e)
  then show ?thesis using c by (auto simp: gate_acquire_def)
next
  case (Inr n)
  have inv: "gate_inv ws g" using c by (simp add: counted_gate_def)
  let ?i = "length (g_entries g)"
  from gate_acquire_effect [OF inv Inr, of sg] show ?thesis
  proof (elim disjE conjE exE)
    fix q' assume full: "\<not> gate_isFull g" "queue_rep waiter_wt q' (ws @ [(?i, num_int n)])"
      "num_int n \<le> g_capacity g" and g': "fst (gate_acquire v sg g) = g\<lparr>g_waiters := q', g_entries := g_entries g @
         [\<lparr>e_cancelled = False, e_settled = False, e_listening = (sg \<noteq> None)\<rparr>]\<rparr>"
    let ?g' = "fst (gate_acquire v sg g)" and ?ws' = "ws @ [(?i, num_int n)]"
    have q: "gate_queue ?g' = ?ws'"
      using full(2) g' by (intro gate_queue_rep) simp
    obtain ws' where "gate_inv ws' ?g'" using gate_acquire_inv [OF inv] by blast
    then have inv': "gate_inv ?ws' ?g'" using gate_inv_queue q by simp
    have e: "gate_entry ?g' i = (if i = ?i then \<lparr>e_cancelled = False, e_settled = False, e_listening = (sg \<noteq> None)\<rparr>
        else gate_entry g i)" for i
      by (simp add: g' gate_entry_def nth_append)
    have lt: "\<forall>x \<in> set ws. fst x \<noteq> ?i" using inv by (auto simp: gate_inv_def)
    have fl: "filter (\<lambda>x. P (gate_entry ?g' (fst x))) ws = filter (\<lambda>x. P (gate_entry g (fst x))) ws" for P
      using lt e by (intro filter_cong) auto
    have room: "1 + int (length (live_waiters g)) \<le> k" if "g_queueCapacity g = Fin (of_int k)" for k
      using full(1) that counted_pending(1) [OF c] by (auto simp: gate_isFull_def)
    have "counted_gate ?ws' ?g'"
      unfolding counted_gate_def
    proof (intro conjI)
      show "gate_inv ?ws' ?g'" by (rule inv')
      show "g_queueCapacity ?g' = PosInf \<or> (\<exists>k. g_queueCapacity ?g' = Fin (of_int k))"
        using c by (simp add: counted_gate_def g')
      show "g_cancelledWaiters ?g' = int (length (filter (\<lambda>x. e_cancelled (gate_entry ?g' (fst x))) ?ws'))"
        using c fl [of e_cancelled] e by (simp add: counted_gate_def g')
      show "\<forall>i<length (g_entries ?g'). e_listening (gate_entry ?g' i) \<longrightarrow>
         \<not> e_cancelled (gate_entry ?g' i) \<longrightarrow> \<not> e_settled (gate_entry ?g' i) \<longrightarrow> i \<in> fst ` set ?ws'"
        using c e by (auto simp: counted_gate_def g' less_Suc_eq)
      show "\<forall>k. g_queueCapacity ?g' = Fin (of_int k) \<longrightarrow>
         int (length (filter (\<lambda>x. \<not> e_cancelled (gate_entry ?g' (fst x))) ?ws')) \<le> k"
        using room fl [of "\<lambda>e. \<not> e_cancelled e"] e counted_pending(2) [OF c] by (auto simp: g')
    qed
    then show ?thesis by blast
  next
    assume "num_int n \<le> g_available g" "fst (gate_acquire v sg g) = fst (gate_grant (num_int n) g)"
    then show ?thesis using counted_gate_grant [OF c weight_value(1) [OF Inr]] by auto
  qed (use c in auto)
qed


lemma counted_gate_tryAcquire:
  assumes c: "counted_gate ws g"
  shows "counted_gate ws (fst (gate_tryAcquire v g))"
proof (cases "assertLimitRequired (if v = JUndefined then JNum (Fin 1) else v) (weight_spec (g_className g))")
  case (Inl e)
  then show ?thesis using c unfolding gate_tryAcquire_def Let_def by (simp only: sum.case fst_conv)
next
  case (Inr n)
  show ?thesis
    using gate_tryAcquire_effect [OF Inr] counted_gate_grant [OF c weight_value(1) [OF Inr]] c by simp
qed

lemma counted_gate_callRelease:
  assumes c: "counted_gate ws g"
  shows "\<exists>ws'. counted_gate ws' (gate_callRelease l g)"
proof (cases "l < length (g_leases g) \<and> \<not> l_released (g_leases g ! l)")
  case False
  then show ?thesis using c by (auto simp: gate_callRelease_def)
next
  case True
  let ?g' = "gate_callRelease l g"
  let ?c = "\<lambda>i. e_cancelled (gate_entry g i)"
  have inv: "gate_inv ws g" using c by (simp add: counted_gate_def)
  obtain gr rest k where s: "serve_spec ?c (l_weight (g_leases g ! l)) ws = (gr, rest, k)"
    by (metis prod_cases3)
  have r: "served_state gr rest k
        (g\<lparr>g_leases := (g_leases g)[l := (g_leases g ! l)\<lparr>l_released := True\<rparr>]\<rparr>)
        (?g'\<lparr>g_available := g_available g, g_held := g_held g\<rparr>)"
    using gate_callRelease_spec [OF inv _ _ s] True by auto
  obtain pre where pre: "ws = pre @ rest" "gr = filter (\<lambda>x. \<not> ?c (fst x)) pre"
      "k = length (filter (\<lambda>x. ?c (fst x)) pre)"
    using serve_spec_suffix [OF s] by auto
  have q: "gate_queue ?g' = rest"
    using r by (intro gate_queue_rep) (simp add: served_state_def)
  have inv': "gate_inv rest ?g'"
    using gate_callRelease_inv [OF inv, of l] gate_inv_queue q by metis
  have e: "\<And>i. e_cancelled (gate_entry ?g' i) = ?c i"
      "\<And>i. e_settled (gate_entry ?g' i) = (e_settled (gate_entry g i) \<or> i \<in> fst ` set gr)"
      "\<And>i. e_listening (gate_entry ?g' i) = (e_listening (gate_entry g i) \<and> i \<notin> fst ` set gr)"
      "length (g_entries ?g') = length (g_entries g)"
      "g_queueCapacity ?g' = g_queueCapacity g"
      "g_cancelledWaiters ?g' = max 0 (g_cancelledWaiters g - int k)"
    using r by (simp_all add: served_state_def same_config_def)
  have gone: "i \<in> fst ` set rest" if "i \<in> fst ` set ws" "\<not> ?c i" "i \<notin> fst ` set gr" for i
    using that pre by auto
  have "counted_gate rest ?g'"
    using c inv' gone pre(1,3) by (auto simp: counted_gate_def e)
  then show ?thesis by blast
qed

lemma counted_gate_abort:
  assumes c: "counted_gate ws g"
  shows "counted_gate ws (gate_abort i g)"
proof (cases "i < length (g_entries g) \<and> e_listening (gate_entry g i) \<and>
    \<not> e_cancelled (gate_entry g i) \<and> \<not> e_settled (gate_entry g i)")
  case False
  have inv: "gate_inv ws (gate_abort i g)" using gate_abort_inv c by (simp add: counted_gate_def)
  have e: "e_cancelled (gate_entry (gate_abort i g) j) = e_cancelled (gate_entry g j)"
      "e_settled (gate_entry (gate_abort i g) j) = e_settled (gate_entry g j)"
      "e_listening (gate_entry (gate_abort i g) j) \<Longrightarrow> e_listening (gate_entry g j)" for j
    using False by (auto simp: gate_abort_def split: if_splits)
  have "g_cancelledWaiters (gate_abort i g) = g_cancelledWaiters g"
      "g_queueCapacity (gate_abort i g) = g_queueCapacity g"
      "length (g_entries (gate_abort i g)) = length (g_entries g)"
    using False by (auto simp: gate_abort_def)
  then show ?thesis using c inv e by (simp add: counted_gate_def)
next
  case True
  let ?g' = "gate_abort i g"
  have inv: "gate_inv ws g" using c by (simp add: counted_gate_def)
  have e: "gate_entry ?g' j = (if i = j then (gate_entry g i)\<lparr>e_cancelled := True, e_listening := False\<rparr>
       else gate_entry g j)" for j
    using True by (simp add: gate_abort_def)
  have f: "g_cancelledWaiters ?g' = g_cancelledWaiters g + 1" "g_queueCapacity ?g' = g_queueCapacity g"
      "length (g_entries ?g') = length (g_entries g)"
    using True by (simp_all add: gate_abort_def)
  obtain w pre post where ws: "ws = pre @ (i, w) # post"
    using c True unfolding counted_gate_def by (metis (no_types, lifting) imageE prod.collapse split_list)
  have no: "\<forall>x \<in> set pre \<union> set post. fst x \<noteq> i"
    using inv ws by (auto simp: gate_inv_def)
  have "filter (\<lambda>x. P (gate_entry ?g' (fst x))) xs = filter (\<lambda>x. P (gate_entry g (fst x))) xs"
    if "set xs \<subseteq> set pre \<union> set post" for P and xs :: "(nat \<times> int) list"
    using that no e by (intro filter_cong) auto
  note fl = this [of pre e_cancelled] this [of post e_cancelled]
    this [of pre "\<lambda>e. \<not> e_cancelled e"] this [of post "\<lambda>e. \<not> e_cancelled e"]
  show ?thesis
    unfolding counted_gate_def
  proof (intro conjI)
    show "gate_inv ws ?g'" using gate_abort_inv [OF inv] .
    show "g_queueCapacity ?g' = PosInf \<or> (\<exists>k. g_queueCapacity ?g' = Fin (of_int k))"
      using c by (simp add: counted_gate_def f)
    show "g_cancelledWaiters ?g' = int (length (filter (\<lambda>x. e_cancelled (gate_entry ?g' (fst x))) ws))"
      using c fl e True by (simp add: counted_gate_def f ws)
    show "\<forall>j<length (g_entries ?g'). e_listening (gate_entry ?g' j) \<longrightarrow>
         \<not> e_cancelled (gate_entry ?g' j) \<longrightarrow> \<not> e_settled (gate_entry ?g' j) \<longrightarrow> j \<in> fst ` set ws"
      using c by (simp add: counted_gate_def f e)
    show "\<forall>k. g_queueCapacity ?g' = Fin (of_int k) \<longrightarrow>
         int (length (filter (\<lambda>x. \<not> e_cancelled (gate_entry ?g' (fst x))) ws)) \<le> k"
      using c fl e True by (auto simp: counted_gate_def f ws)
  qed
qed

lemma counted_gate_run:
  "counted_gate ws g \<Longrightarrow> list_all keeps_queue ops \<Longrightarrow> \<exists>ws'. counted_gate ws' (gate_run ops g)"
proof (induction ops arbitrary: ws g)
  case (Cons op ops)
  have "\<exists>ws'. counted_gate ws' (gate_step op g)"
    by (cases op) (use Cons.prems in \<open>auto intro: counted_gate_acquire counted_gate_tryAcquire
      counted_gate_callRelease counted_gate_abort\<close>)
  then show ?case using Cons by (auto simp: gate_run_def)
qed (auto simp: gate_run_def)

text \<open>
  The waiter count.  As long as the gate has not been reset or disposed, \<open>pending\<close> is
  the number of queued waiters that have not been aborted and never exceeds
  \<open>queueCapacity\<close>.  A reset breaks the count: it leaves the abort listeners of the rejected
  waiters attached, so a signal that fires afterwards is counted although its waiter is gone,
  \<open>pending\<close> reads 0 with a waiter queued, and one waiter too many is admitted.
\<close>

theorem gate_pending_counts_waiters:
  assumes "gate_new options = Some (Inr g0)" "list_all keeps_queue ops"
  shows "gate_pending (gate_run ops g0) = int (length (live_waiters (gate_run ops g0))) \<and>
    \<not> num_lt (g_queueCapacity (gate_run ops g0)) (Fin (of_int (gate_pending (gate_run ops g0)))) \<and>
    (case gate_new (JObj [(''capacity'', JNum (Fin 1)), (''queueCapacity'', JNum (Fin 1))]) of
       Some (Inr h) \<Rightarrow>
         (let g = gate_run [Acquire JUndefined None, Acquire JUndefined (Some False), ResetGate None,
                    Acquire JUndefined None, AbortSignal 0, Acquire JUndefined None] h
          in length (live_waiters g) = 2 \<and> gate_pending g = 1)
     | _ \<Rightarrow> False)"
proof -
  have new: "gate_inv [] g0" "g_entries g0 = []" "g_cancelledWaiters g0 = 0"
      "g_queueCapacity g0 = PosInf \<or> (\<exists>k. 0 \<le> k \<and> g_queueCapacity g0 = Fin (of_int k))"
    using gate_new_inv [OF assms(1)] gate_new_cases [OF assms(1)] by auto
  then have "counted_gate [] g0" by (auto simp: counted_gate_def)
  then obtain ws where c: "counted_gate ws (gate_run ops g0)" using counted_gate_run assms(2) by blast
  have "\<not> num_lt (g_queueCapacity (gate_run ops g0)) (Fin (of_int (gate_pending (gate_run ops g0))))"
    using c counted_pending [OF c] by (auto simp: counted_gate_def)
  moreover have "case gate_new (JObj [(''capacity'', JNum (Fin 1)), (''queueCapacity'', JNum (Fin 1))]) of
       Some (Inr h) \<Rightarrow>
         (let g = gate_run [Acquire JUndefined None, Acquire JUndefined (Some False), ResetGate None,
                    Acquire JUndefined None, AbortSignal 0, Acquire JUndefined None] h
          in length (live_waiters g) = 2 \<and> gate_pending g = 1)
     | _ \<Rightarrow> False" by code_simp
  ultimately show ?thesis using counted_pending(1) [OF c] by blast
qed

theorem gate_pending_counts_waiters_witness:
  "case gate_new (JObj [(''capacity'', JNum (Fin 1)), (''queueCapacity'', JNum (Fin 1))]) of
     Some (Inr g0) \<Rightarrow>
       (let g = gate_run [Acquire JUndefined None, Acquire JUndefined (Some False), AbortSignal 0,
                  Acquire JUndefined None, Acquire JUndefined None] g0
        in length (live_waiters g) = 1 \<and> gate_pending g = 1 \<and> gate_queue g = [(0, 1), (1, 1)])
   | _ \<Rightarrow> False"
proof -
  let ?ops = "[Acquire JUndefined None, Acquire JUndefined (Some False), AbortSignal 0,
                  Acquire JUndefined None, Acquire JUndefined None]"
  have "case gate_new (JObj [(''capacity'', JNum (Fin 1)), (''queueCapacity'', JNum (Fin 1))]) of
      Some (Inr g0) \<Rightarrow> (let g = gate_run ?ops g0 in gate_queue g = [(0, 1), (1, 1)] \<and> gate_pending g = 1)
    | _ \<Rightarrow> False" by code_simp
  then obtain g0 where g0: "gate_new (JObj [(''capacity'', JNum (Fin 1)), (''queueCapacity'', JNum (Fin 1))])
       = Some (Inr g0)" "gate_queue (gate_run ?ops g0) = [(0, 1), (1, 1)]" "gate_pending (gate_run ?ops g0) = 1"
    by (auto simp: Let_def split: option.splits sum.splits)
  then show ?thesis using gate_pending_counts_waiters [OF g0(1), of ?ops] by (simp add: Let_def)
qed

section \<open>The semaphore\<close>

datatype semaphore_op =
    SemAcquire js_val "bool option"
  | SemTryAcquire
  | SemCallRelease nat
  | SemAbort nat
  | SemReset
  | SemDispose

fun semaphore_step :: "semaphore_op \<Rightarrow> semaphore \<Rightarrow> semaphore" where
  "semaphore_step (SemAcquire v sg) s = fst (semaphore_acquire v sg s)"
| "semaphore_step SemTryAcquire s = fst (semaphore_tryAcquire s)"
| "semaphore_step (SemCallRelease l) s = s\<lparr>sem_gate := gate_callRelease l (sem_gate s)\<rparr>"
| "semaphore_step (SemAbort i) s = s\<lparr>sem_gate := gate_abort i (sem_gate s)\<rparr>"
| "semaphore_step SemReset s = semaphore_reset s"
| "semaphore_step SemDispose s = semaphore_dispose s"

definition semaphore_run :: "semaphore_op list \<Rightarrow> semaphore \<Rightarrow> semaphore" where
  "semaphore_run ops s = fold semaphore_step ops s"

definition sem_inv :: "int \<Rightarrow> gate \<Rightarrow> bool" where
  "sem_inv n g \<longleftrightarrow> (\<exists>ws. gate_inv ws g) \<and> g_capacity g = n \<and> g_available g + g_held g = n"

lemma gate_acquire_capacity:
  "g_capacity (fst (gate_acquire v sg g)) = g_capacity g \<and>
   g_available (fst (gate_acquire v sg g)) + g_held (fst (gate_acquire v sg g)) = g_available g + g_held g"
  by (auto simp: gate_acquire_def Let_def gate_grant_def gate_makeRelease_def
      split: sum.splits prod.splits)

lemma gate_tryAcquire_capacity:
  "g_capacity (fst (gate_tryAcquire v g)) = g_capacity g \<and>
   g_available (fst (gate_tryAcquire v g)) + g_held (fst (gate_tryAcquire v g)) = g_available g + g_held g"
proof (cases "assertLimitRequired (if v = JUndefined then JNum (Fin 1) else v) (weight_spec (g_className g))")
  case (Inl e)
  then show ?thesis unfolding gate_tryAcquire_def Let_def by (simp only: sum.case fst_conv)
next
  case (Inr n)
  then show ?thesis using gate_tryAcquire_effect [OF Inr] by (simp add: gate_grant_fields)
qed

lemma gate_callRelease_capacity:
  assumes inv: "gate_inv ws g"
  shows "g_capacity (gate_callRelease l g) = g_capacity g \<and>
   g_available (gate_callRelease l g) + g_held (gate_callRelease l g) = g_available g + g_held g"
proof (cases "l < length (g_leases g) \<and> \<not> l_released (g_leases g ! l)")
  case True
  obtain gr rest k where "serve_spec (\<lambda>i. e_cancelled (gate_entry g i)) (l_weight (g_leases g ! l)) ws = (gr, rest, k)"
    by (metis prod_cases3)
  from gate_callRelease_spec [OF inv _ _ this] True show ?thesis
    by (auto simp: served_state_def same_config_def)
qed (auto simp: gate_callRelease_def)

lemma sem_inv_reset:
  assumes "sem_inv n g"
  shows "sem_inv n (gate_reset (Some (of_int (g_capacity g))) g)"
proof (cases "g_resetInert g")
  case True
  then show ?thesis using assms by (simp add: gate_reset_def)
next
  case False
  obtain ws where inv: "gate_inv ws g" using assms by (auto simp: sem_inv_def)
  have "0 \<le> g_held g" using inv owed_nonneg by (simp add: gate_inv_def)
  then show ?thesis
    using gate_reset_fields [OF inv False, of "Some (of_int (g_capacity g))"] assms inv
    by (auto simp: sem_inv_def gate_inv_def)
qed

lemma sem_inv_step:
  assumes "sem_inv n (sem_gate s)"
  shows "sem_inv n (sem_gate (semaphore_step op s))"
proof -
  obtain ws where inv: "gate_inv ws (sem_gate s)" using assms by (auto simp: sem_inv_def)
  have reset: "sem_inv n (sem_gate (semaphore_reset s))"
    using sem_inv_reset assms by (simp add: semaphore_reset_def)
  show ?thesis
  proof (cases op)
    case (SemAcquire v sg)
    then show ?thesis
      using gate_acquire_inv [OF inv, of v sg] gate_acquire_capacity [of v sg "sem_gate s"] assms
      by (simp add: sem_inv_def semaphore_acquire_def case_prod_unfold Let_def)
  next
    case SemTryAcquire
    then show ?thesis
      using gate_tryAcquire_inv [OF inv] gate_tryAcquire_capacity [of JUndefined "sem_gate s"] assms
      by (auto simp: sem_inv_def semaphore_tryAcquire_def case_prod_unfold Let_def)
  next
    case (SemCallRelease l)
    then show ?thesis
      using gate_callRelease_inv [OF inv, of l] gate_callRelease_capacity [OF inv, of l] assms
      by (simp add: sem_inv_def)
  next
    case (SemAbort i)
    then show ?thesis
      using gate_abort_inv [OF inv, of i] assms by (auto simp: sem_inv_def gate_abort_def)
  qed (use reset in \<open>simp_all add: semaphore_dispose_def\<close>)
qed

lemma sem_inv_run: "sem_inv n (sem_gate s) \<Longrightarrow> sem_inv n (sem_gate (semaphore_run ops s))"
proof (induction ops arbitrary: s)
  case (Cons op ops)
  then show ?case using sem_inv_step [OF Cons.prems, of op] by (simp add: semaphore_run_def)
qed (simp add: semaphore_run_def)

lemma assertLimitRequired_value:
  "assertLimitRequired v spec = Inr n \<Longrightarrow> \<not> is_nullish v \<Longrightarrow> to_number v = Inr n"
  by (auto simp: assertLimitRequired_def assertLimit_def split: sum.splits js_val.splits if_splits)

text \<open>A gate whose two limits are the same value starts with every permit free.\<close>

lemma gate_new_full:
  assumes "gate_new options = Some (Inr g)"
    and "get_prop ''initialTokens'' options = get_prop ''capacity'' options"
  shows "g_available g = g_capacity g"
proof -
  obtain sp1 sp2 cap tok where cap: "assertLimitRequired (get_prop ''capacity'' options) sp1 = Inr cap"
    and tok: "(if is_nullish (get_prop ''initialTokens'' options) then Inr cap
       else assertLimitRequired (get_prop ''initialTokens'' options) sp2) = Inr tok"
    and g: "g_capacity g = num_int cap" "g_available g = min (num_int cap) (num_int tok)"
    using gate_new_parts [OF assms(1)] by force
  have "tok = cap"
  proof (cases "is_nullish (get_prop ''capacity'' options)")
    case False
    then show ?thesis
      using assertLimitRequired_value [OF cap False] tok assertLimitRequired_value [of _ sp2 tok] assms(2)
      by simp
  qed (use tok assms(2) in simp)
  then show ?thesis using g by simp
qed

lemma semaphore_new_inv:
  assumes "semaphore_new limit qc = Some (Inr g)"
  shows "sem_inv (g_capacity g) g"
proof -
  obtain l q where new: "gate_new (JObj [(''capacity'', l), (''initialTokens'', l),
       (''queueCapacity'', q), (''className'', JStr ''PowerSemaphore''), (''limitName'', JStr ''limit'')]) = Some (Inr g)"
    using assms by (auto simp: semaphore_new_def Let_def split: js_val.splits sum.splits if_splits)
  have "g_available g = g_capacity g" by (rule gate_new_full [OF new]) simp
  then show ?thesis using gate_new_inv [OF new] gate_new_cases [OF new] by (auto simp: sem_inv_def)
qed

text \<open>
  The semaphore conserves its permits.  After any sequence of calls (resets and
  disposal included) the free permits and the ones held by callers add up to \<open>limit\<close>
  exactly, so no call can leak or mint one, and \<open>isLocked\<close> holds exactly when callers hold
  all of them.
\<close>

theorem semaphore_conserves_permits:
  assumes "semaphore_new limit queueCapacity = Some (Inr g0)"
    and "s = semaphore_run ops \<lparr>sem_gate = g0, sem_resetInert = False\<rparr>"
  shows "g_available (sem_gate s) + owed (g_leases (sem_gate s)) = g_capacity g0 \<and>
    0 \<le> g_available (sem_gate s) \<and> g_capacity (sem_gate s) = g_capacity g0 \<and>
    (semaphore_isLocked s \<longleftrightarrow> owed (g_leases (sem_gate s)) = g_capacity g0)"
proof -
  have "sem_inv (g_capacity g0) (sem_gate s)"
    unfolding assms(2) using semaphore_new_inv [OF assms(1)] by (intro sem_inv_run) simp
  then show ?thesis by (auto simp: sem_inv_def gate_inv_def semaphore_isLocked_def)
qed

theorem semaphore_conserves_permits_witness:
  "case semaphore_new (JObj [(''limit'', JNum (Fin 2))]) JUndefined of
     Some (Inr g0) \<Rightarrow>
       (let s = semaphore_run [SemAcquire JUndefined None, SemAcquire JUndefined None, SemTryAcquire,
                  SemReset, SemCallRelease 1, SemCallRelease 1] \<lparr>sem_gate = g0, sem_resetInert = False\<rparr>
        in g_available (sem_gate s) = 1 \<and> owed (g_leases (sem_gate s)) = 1 \<and> \<not> semaphore_isLocked s)
   | _ \<Rightarrow> False"
proof -
  let ?ops = "[SemAcquire JUndefined None, SemAcquire JUndefined None, SemTryAcquire,
                  SemReset, SemCallRelease 1, SemCallRelease 1]"
  have "case semaphore_new (JObj [(''limit'', JNum (Fin 2))]) JUndefined of
      Some (Inr g0) \<Rightarrow> g_capacity g0 = 2 \<and>
        g_available (sem_gate (semaphore_run ?ops \<lparr>sem_gate = g0, sem_resetInert = False\<rparr>)) = 1
    | _ \<Rightarrow> False" by code_simp
  then obtain g0 where g0: "semaphore_new (JObj [(''limit'', JNum (Fin 2))]) JUndefined = Some (Inr g0)"
      "g_capacity g0 = 2" "g_available (sem_gate (semaphore_run ?ops \<lparr>sem_gate = g0, sem_resetInert = False\<rparr>)) = 1"
    by (auto split: option.splits sum.splits)
  then show ?thesis using semaphore_conserves_permits [OF g0(1) refl, of ?ops]
    by (simp add: Let_def semaphore_isLocked_def)
qed

end
