(* ===== verification/PriorityQueue.thy ===== *)
theory PriorityQueue
  imports PowerQueue "HOL-Library.Multiset"
begin

text \<open>
  The priority queue (\<open>src/helpers/powerPriorityQueue.js\<close>): a binary heap in the slots
  \<open>1 .. _size\<close> of an array, ordered by priority and, among equals, by insertion number.
  The items are of any type; \<open>prio\<close> and \<open>wt\<close> read their \<open>priority\<close> and
  \<open>weight\<close> properties (\<open>undefined\<close> for a nullish item).  The code reads a slot of the
  heap only within \<open>1 .. _size\<close>, where the invariant keeps an entry; \<open>entry_at\<close> is
  unspecified on an empty slot, which the code would answer with a \<open>TypeError\<close>.
\<close>

section \<open>State\<close>

record 'a pentry =
  pe_item :: 'a
  pe_priority :: rat
  pe_seq :: nat

record 'a pqueue =
  pq_capacity :: int
  pq_heap :: "'a pentry option list"
  pq_size :: nat
  pq_seq :: nat

definition itemPriority :: "('a \<Rightarrow> js_val) \<Rightarrow> ('a \<Rightarrow> js_val) \<Rightarrow> 'a \<Rightarrow> rat" where
  "itemPriority prio wt item =
     (case prio item of
        JNum (Fin p) \<Rightarrow> p
      | _ \<Rightarrow> (case wt item of JNum (Fin w) \<Rightarrow> w | _ \<Rightarrow> 0))"

text \<open>The option forms of the constructor: a number, or an object with \<open>initialCapacity\<close>.\<close>

definition pq_new_arg :: "js_val \<Rightarrow> js_val result" where
  "pq_new_arg initialCapacity =
     (case initialCapacity of
        JObj ps \<Rightarrow> (case assertKnownOptions initialCapacity [''initialCapacity''] ''PowerPriorityQueue'' of
                      Inl e \<Rightarrow> Inl e
                    | Inr _ \<Rightarrow> Inr (get_prop ''initialCapacity'' initialCapacity))
      | JUndefined \<Rightarrow> Inr (JNum (Fin POWER_QUEUE_INITIAL_CAPACITY))
      | _ \<Rightarrow> Inr initialCapacity)"

text \<open>The empty heap for a validated request; an infinite one is refused by the validation.\<close>

definition pq_alloc :: "js_num \<Rightarrow> 'a pqueue result" where
  "pq_alloc requested =
     (let cap = (case requested of Fin r \<Rightarrow> max 2 \<lfloor>r\<rfloor> | _ \<Rightarrow> 2)
      in case new_array cap of
           Inl e \<Rightarrow> Inl e
         | Inr heap \<Rightarrow> Inr \<lparr>pq_capacity = cap, pq_heap = heap, pq_size = 0, pq_seq = 0\<rparr>)"

definition pq_new :: "js_val \<Rightarrow> 'a pqueue result" where
  "pq_new initialCapacity =
     (case pq_new_arg initialCapacity of
        Inl e \<Rightarrow> Inl e
      | Inr capInput \<Rightarrow>
          (case assertLimitRequired capInput ((limit_spec ''initialCapacity'' ''PowerPriorityQueue'')
                  \<lparr>sp_fallback := JNum (Fin 16)\<rparr>) of
             Inl e \<Rightarrow> Inl e
           | Inr requested \<Rightarrow> pq_alloc requested))"

section \<open>Heap order\<close>

definition pq_isBetter :: "'a pentry \<Rightarrow> 'a pentry \<Rightarrow> bool" where
  "pq_isBetter candidate current =
     (if pe_priority candidate \<noteq> pe_priority current
      then pe_priority current < pe_priority candidate
      else pe_seq candidate < pe_seq current)"

definition entry_at :: "'a pentry option list \<Rightarrow> nat \<Rightarrow> 'a pentry" where
  "entry_at heap i = the (arr_get heap (int i))"

definition pq_swap :: "nat \<Rightarrow> nat \<Rightarrow> 'a pentry option list \<Rightarrow> 'a pentry option list" where
  "pq_swap i j heap =
     (let tmp = arr_get heap (int i)
      in arr_set (arr_set heap (int i) (arr_get heap (int j))) (int j) tmp)"

fun pq_siftUp :: "nat \<Rightarrow> 'a pentry option list \<Rightarrow> 'a pentry option list" where
  "pq_siftUp i heap =
     (if 1 < i then
        (let parent = i div 2 in
         if \<not> pq_isBetter (entry_at heap i) (entry_at heap parent) then heap
         else pq_siftUp parent (pq_swap i parent heap))
      else heap)"

declare pq_siftUp.simps [simp del]

text \<open>The child that has to move up, or \<open>i\<close> itself.\<close>

definition pq_best :: "nat \<Rightarrow> nat \<Rightarrow> 'a pentry option list \<Rightarrow> nat" where
  "pq_best n i heap =
     (let left = 2 * i; right = 2 * i + 1;
          best = (if left \<le> n \<and> pq_isBetter (entry_at heap left) (entry_at heap i) then left else i)
      in if right \<le> n \<and> pq_isBetter (entry_at heap right) (entry_at heap best) then right else best)"

lemma pq_isBetter_irrefl [simp]: "\<not> pq_isBetter a a"
  by (simp add: pq_isBetter_def)

lemma pq_best_grows: "pq_best n i heap \<noteq> i \<Longrightarrow> i < pq_best n i heap \<and> pq_best n i heap \<le> n"
  by (cases "i = 0") (auto simp: pq_best_def Let_def split: if_splits)

function pq_siftDown :: "nat \<Rightarrow> nat \<Rightarrow> 'a pentry option list \<Rightarrow> 'a pentry option list" where
  "pq_siftDown n i heap =
     (let best = pq_best n i heap in
      if best = i then heap else pq_siftDown n best (pq_swap i best heap))"
  by pat_completeness auto
termination
  by (relation "measure (\<lambda>(n, i, h). n - i)") (auto dest: pq_best_grows intro: diff_less_mono2)

declare pq_siftDown.simps [simp del]

section \<open>Operations\<close>

definition pq_grow :: "'a pqueue \<Rightarrow> ('a pqueue, unit) step" where
  "pq_grow q =
     (let newCap = max 4 (pq_capacity q * 2)
      in case (new_array newCap :: 'a pentry option list result) of
           Inl e \<Rightarrow> (q, Inl e)
         | Inr nxt \<Rightarrow>
             (q\<lparr>pq_heap := fold (\<lambda>i n. arr_set n (int i) (arr_get (pq_heap q) (int i)))
                  [0..<length (pq_heap q)] nxt,
                pq_capacity := newCap\<rparr>, Inr ()))"

definition pq_push :: "('a \<Rightarrow> js_val) \<Rightarrow> ('a \<Rightarrow> js_val) \<Rightarrow> 'a \<Rightarrow> 'a pqueue \<Rightarrow> ('a pqueue, nat) step" where
  "pq_push prio wt item q =
     (case (if pq_capacity q - 1 \<le> int (pq_size q) then pq_grow q else (q, Inr ())) of
        (q1, Inl e) \<Rightarrow> (q1, Inl e)
      | (q1, Inr _) \<Rightarrow>
          (let entry = \<lparr>pe_item = item, pe_priority = itemPriority prio wt item, pe_seq = pq_seq q1\<rparr>;
               size = pq_size q1 + 1;
               heap = pq_siftUp size (arr_set (pq_heap q1) (int size) (Some entry))
           in (q1\<lparr>pq_heap := heap, pq_size := size, pq_seq := pq_seq q1 + 1\<rparr>, Inr size)))"

text \<open>\<open>pushMany\<close> on an array; an item that throws ends the loop.\<close>

fun pq_pushMany :: "('a \<Rightarrow> js_val) \<Rightarrow> ('a \<Rightarrow> js_val) \<Rightarrow> 'a list \<Rightarrow> 'a pqueue \<Rightarrow> ('a pqueue, nat) step" where
  "pq_pushMany prio wt [] q = (q, Inr (pq_size q))"
| "pq_pushMany prio wt (x # xs) q =
     (case pq_push prio wt x q of (q1, Inl e) \<Rightarrow> (q1, Inl e) | (q1, Inr _) \<Rightarrow> pq_pushMany prio wt xs q1)"

text \<open>\<open>Array.prototype.sort\<close>: stable, so an insertion sort with the same comparator.\<close>

fun sort_insert :: "('b \<Rightarrow> 'b \<Rightarrow> int) \<Rightarrow> 'b \<Rightarrow> 'b list \<Rightarrow> 'b list" where
  "sort_insert cmp x [] = [x]"
| "sort_insert cmp x (y # ys) = (if 0 < cmp x y then y # sort_insert cmp x ys else x # y # ys)"

definition js_sort :: "('b \<Rightarrow> 'b \<Rightarrow> int) \<Rightarrow> 'b list \<Rightarrow> 'b list" where
  "js_sort cmp xs = foldr (sort_insert cmp) xs []"

definition pq_toArray :: "'a pqueue \<Rightarrow> 'a list" where
  "pq_toArray q =
     map pe_item (js_sort (\<lambda>a b. if pq_isBetter a b then - 1 else if pq_isBetter b a then 1 else 0)
       (map (entry_at (pq_heap q)) [1..<Suc (pq_size q)]))"

text \<open>\<open>None\<close> is the \<open>undefined\<close> of an empty queue.\<close>

definition pq_shift :: "'a pqueue \<Rightarrow> 'a pqueue \<times> 'a option" where
  "pq_shift q =
     (if pq_size q = 0 then (q, None)
      else
        (let root = entry_at (pq_heap q) 1;
             last = arr_get (pq_heap q) (int (pq_size q));
             heap = arr_set (pq_heap q) (int (pq_size q)) None;
             size = pq_size q - 1;
             heap1 = (if 0 < size then pq_siftDown size 1 (arr_set heap 1 last) else heap)
         in (q\<lparr>pq_heap := heap1, pq_size := size\<rparr>, Some (pe_item root))))"

text \<open>The scan of \<open>popLowest\<close> over the slots \<open>is\<close>.\<close>

fun pq_worst :: "'a pentry option list \<Rightarrow> nat list \<Rightarrow> nat \<Rightarrow> nat" where
  "pq_worst heap [] worst = worst"
| "pq_worst heap (i # is) worst =
     pq_worst heap is (if pq_isBetter (entry_at heap worst) (entry_at heap i) then i else worst)"

definition pq_popLowest :: "'a pqueue \<Rightarrow> 'a pqueue \<times> 'a option" where
  "pq_popLowest q =
     (if pq_size q = 0 then (q, None)
      else
        (let worst = pq_worst (pq_heap q) [2..<Suc (pq_size q)] 1;
             entry = entry_at (pq_heap q) worst;
             last = arr_get (pq_heap q) (int (pq_size q));
             heap = arr_set (pq_heap q) (int (pq_size q)) None;
             size = pq_size q - 1;
             heap1 = (if worst \<le> size
                      then pq_siftUp worst (pq_siftDown size worst (arr_set heap (int worst) last))
                      else heap)
         in (q\<lparr>pq_heap := heap1, pq_size := size\<rparr>, Some (pe_item entry))))"

definition pq_peek :: "'a pqueue \<Rightarrow> 'a option" where
  "pq_peek q = (if pq_size q = 0 then None else Some (pe_item (entry_at (pq_heap q) 1)))"

definition pq_clear :: "'a pqueue \<Rightarrow> 'a pqueue" where
  "pq_clear q =
     q\<lparr>pq_heap := fold (\<lambda>i h. arr_set h (int i) None) [1..<Suc (pq_size q)] (pq_heap q),
       pq_size := 0, pq_seq := 0\<rparr>"

definition pq_isEmpty :: "'a pqueue \<Rightarrow> bool" where
  "pq_isEmpty q \<longleftrightarrow> pq_size q = 0"

definition pq_dispose :: "'a pqueue \<Rightarrow> 'a pqueue" where
  "pq_dispose q = pq_clear q"

section \<open>The dispatch order\<close>

lemma pq_isBetter_asym: "pq_isBetter a b \<Longrightarrow> \<not> pq_isBetter b a"
  by (auto simp: pq_isBetter_def split: if_splits)

lemma pq_isBetter_trans: "pq_isBetter a b \<Longrightarrow> pq_isBetter b c \<Longrightarrow> pq_isBetter a c"
  by (auto simp: pq_isBetter_def split: if_splits)

lemma not_better_trans: "\<not> pq_isBetter a b \<Longrightarrow> \<not> pq_isBetter b c \<Longrightarrow> \<not> pq_isBetter a c"
  by (auto simp: pq_isBetter_def split: if_splits)

lemma not_better_sym: "\<not> pq_isBetter a b \<Longrightarrow> \<not> pq_isBetter b a \<Longrightarrow> pe_priority a = pe_priority b \<and> pe_seq a = pe_seq b"
  by (auto simp: pq_isBetter_def split: if_splits)

section \<open>Slots\<close>

definition cells :: "nat \<Rightarrow> 'b list \<Rightarrow> 'b list" where
  "cells n h = tl (take (Suc n) h)"

lemma arr_set_nat: "i < length h \<Longrightarrow> arr_set h (int i) v = h[i := v]"
  by (simp add: arr_set_def)

lemma arr_get_nat: "i < length h \<Longrightarrow> arr_get h (int i) = h ! i"
  by (simp add: arr_get_def)

lemma pq_swap_nat:
  "i < length h \<Longrightarrow> j < length h \<Longrightarrow> pq_swap i j h = h[i := h ! j, j := h ! i]"
  by (simp add: pq_swap_def arr_get_nat arr_set_nat)

lemma entry_at_swap:
  assumes "i < length h" "j < length h"
  shows "entry_at (pq_swap i j h) k =
    (if k = j then entry_at h i else if k = i then entry_at h j else entry_at h k)"
  using assms by (auto simp: pq_swap_nat entry_at_def arr_get_def nth_list_update)

lemma entry_at_update:
  "i < length h \<Longrightarrow> entry_at (h[i := Some e]) k = (if k = i then e else entry_at h k)"
  by (auto simp: entry_at_def arr_get_def)

lemma length_pq_swap [simp]: "i < length h \<Longrightarrow> j < length h \<Longrightarrow> length (pq_swap i j h) = length h"
  by (simp add: pq_swap_nat)

lemma cells_length: "n < length h \<Longrightarrow> length (cells n h) = n"
  by (simp add: cells_def)

lemma cells_nth: "n < length h \<Longrightarrow> k < n \<Longrightarrow> cells n h ! k = h ! Suc k"
  by (simp add: cells_def nth_tl)

lemma cells_update:
  "n < length h \<Longrightarrow> 1 \<le> i \<Longrightarrow> i \<le> n \<Longrightarrow> cells n (h[i := v]) = (cells n h)[i - 1 := v]"
  by (cases i; cases h) (auto simp: cells_def take_update_swap)

lemma cells_update_outside: "n < i \<Longrightarrow> cells n (h[i := v]) = cells n h"
  by (simp add: cells_def)

lemma cells_Suc: "Suc n < length h \<Longrightarrow> cells (Suc n) h = cells n h @ [h ! Suc n]"
  by (cases h) (auto simp: cells_def take_Suc_conv_app_nth)

lemma mset_cells_swap:
  assumes "n < length h" "1 \<le> i" "i \<le> n" "1 \<le> j" "j \<le> n"
  shows "mset (cells n (pq_swap i j h)) = mset (cells n h)"
proof -
  have "cells n (pq_swap i j h) = (cells n h)[i - 1 := cells n h ! (j - 1), j - 1 := cells n h ! (i - 1)]"
    using assms by (simp add: pq_swap_nat cells_update cells_nth)
  then show ?thesis using assms mset_swap [of "j - 1" "cells n h" "i - 1"] by (simp add: cells_length)
qed

section \<open>Sifting\<close>

definition heap_ok :: "nat \<Rightarrow> 'a pentry option list \<Rightarrow> bool" where
  "heap_ok n h \<longleftrightarrow> (\<forall>i. 2 \<le> i \<longrightarrow> i \<le> n \<longrightarrow> \<not> pq_isBetter (entry_at h i) (entry_at h (i div 2)))"

text \<open>A heap but for the slot \<open>i\<close>, which may be better than its parent.\<close>

definition up_ok :: "nat \<Rightarrow> nat \<Rightarrow> 'a pentry option list \<Rightarrow> bool" where
  "up_ok n i h \<longleftrightarrow> (\<forall>j. 2 \<le> j \<longrightarrow> j \<le> n \<longrightarrow> j \<noteq> i \<longrightarrow> \<not> pq_isBetter (entry_at h j) (entry_at h (j div 2))) \<and>
     (2 \<le> i \<longrightarrow> (\<forall>j. 2 \<le> j \<longrightarrow> j \<le> n \<longrightarrow> j div 2 = i \<longrightarrow> \<not> pq_isBetter (entry_at h j) (entry_at h (i div 2))))"

text \<open>A heap but for the slot \<open>i\<close>, which may be worse than its children.\<close>

definition down_ok :: "nat \<Rightarrow> nat \<Rightarrow> 'a pentry option list \<Rightarrow> bool" where
  "down_ok n i h \<longleftrightarrow> (\<forall>j. 2 \<le> j \<longrightarrow> j \<le> n \<longrightarrow> j div 2 \<noteq> i \<longrightarrow> \<not> pq_isBetter (entry_at h j) (entry_at h (j div 2))) \<and>
     (2 \<le> i \<longrightarrow> (\<forall>j. 2 \<le> j \<longrightarrow> j \<le> n \<longrightarrow> j div 2 = i \<longrightarrow> \<not> pq_isBetter (entry_at h j) (entry_at h (i div 2))))"

lemma up_ok_swap:
  assumes up: "up_ok n i h" and i: "2 \<le> i" "i \<le> n" "n < length h"
    and b: "pq_isBetter (entry_at h i) (entry_at h (i div 2))"
  shows "up_ok n (i div 2) (pq_swap i (i div 2) h)"
proof -
  let ?p = "i div 2" and ?h = "pq_swap i (i div 2) h"
  have p: "1 \<le> ?p" "?p < i" using i by auto
  have e: "entry_at ?h k = (if k = ?p then entry_at h i else if k = i then entry_at h ?p else entry_at h k)" for k
    using i p by (intro entry_at_swap) auto
  have inv: "\<not> pq_isBetter (entry_at h j) (entry_at h (j div 2))" if "2 \<le> j" "j \<le> n" "j \<noteq> i" for j
    using up that by (simp add: up_ok_def)
  have kids: "\<not> pq_isBetter (entry_at h j) (entry_at h ?p)" if "2 \<le> j" "j \<le> n" "j div 2 = i" for j
    using up that i by (simp add: up_ok_def)
  have "\<not> pq_isBetter (entry_at ?h j) (entry_at ?h (j div 2))" if j: "2 \<le> j" "j \<le> n" "j \<noteq> ?p" for j
  proof -
    consider "j = i" | "j \<noteq> i" "j div 2 = i" | "j \<noteq> i" "j div 2 = ?p" | "j \<noteq> i" "j div 2 \<noteq> i" "j div 2 \<noteq> ?p"
      by blast
    then show ?thesis
    proof cases
      case 1
      then show ?thesis using p pq_isBetter_asym [OF b] by (simp add: e)
    next
      case 2
      then have "entry_at ?h j = entry_at h j" "entry_at ?h (j div 2) = entry_at h ?p" using j p by (simp_all add: e)
      then show ?thesis using kids j 2 by simp
    next
      case 3
      have "\<not> pq_isBetter (entry_at h j) (entry_at h ?p)" using inv [OF j(1,2) 3(1)] 3(2) by simp
      then have "\<not> pq_isBetter (entry_at h j) (entry_at h i)" using b pq_isBetter_trans by blast
      then show ?thesis using 3 j by (simp add: e)
    next
      case 4
      then show ?thesis using inv j by (simp add: e)
    qed
  qed
  moreover have "\<not> pq_isBetter (entry_at ?h j) (entry_at ?h (?p div 2))"
    if j: "2 \<le> ?p" "2 \<le> j" "j \<le> n" "j div 2 = ?p" for j
  proof -
    have pp: "?p div 2 \<noteq> ?p" "?p div 2 \<noteq> i" using j(1) p by auto
    have up_p: "\<not> pq_isBetter (entry_at h ?p) (entry_at h (?p div 2))" using inv [of ?p] j p i by auto
    show ?thesis
    proof (cases "j = i")
      case True
      then show ?thesis using up_p pp p by (simp add: e)
    next
      case False
      have "\<not> pq_isBetter (entry_at h j) (entry_at h ?p)" using inv [OF j(2,3) False] j(4) by simp
      then have "\<not> pq_isBetter (entry_at h j) (entry_at h (?p div 2))" using up_p not_better_trans by blast
      moreover have "j \<noteq> ?p" using j by auto
      ultimately show ?thesis using False pp by (simp add: e)
    qed
  qed
  ultimately show ?thesis unfolding up_ok_def by blast
qed

lemma pq_siftUp_ok:
  assumes "up_ok n i h" "1 \<le> i" "i \<le> n" "n < length h"
  shows "heap_ok n (pq_siftUp i h) \<and> mset (cells n (pq_siftUp i h)) = mset (cells n h) \<and>
     length (pq_siftUp i h) = length h \<and> (\<forall>k > n. pq_siftUp i h ! k = h ! k)"
  using assms
proof (induction i h rule: pq_siftUp.induct)
  case (1 i h)
  show ?case
  proof (cases "1 < i \<and> pq_isBetter (entry_at h i) (entry_at h (i div 2))")
    case True
    let ?h = "pq_swap i (i div 2) h"
    have p: "1 \<le> i div 2" "i div 2 \<le> n" "i div 2 < i" using True "1.prems" by auto
    have step: "pq_siftUp i h = pq_siftUp (i div 2) ?h"
      using True by (subst pq_siftUp.simps) (simp add: Let_def)
    have "up_ok n (i div 2) ?h" using True "1.prems" by (intro up_ok_swap) auto
    then have "heap_ok n (pq_siftUp (i div 2) ?h) \<and> mset (cells n (pq_siftUp (i div 2) ?h)) = mset (cells n ?h) \<and>
       length (pq_siftUp (i div 2) ?h) = length ?h \<and> (\<forall>k > n. pq_siftUp (i div 2) ?h ! k = ?h ! k)"
      using True p "1.prems" by (intro "1.IH") auto
    moreover have "mset (cells n ?h) = mset (cells n h)"
      using p "1.prems" by (intro mset_cells_swap) auto
    moreover have "length ?h = length h" "\<forall>k > n. ?h ! k = h ! k"
      using p "1.prems" by (auto simp: pq_swap_nat)
    ultimately show ?thesis unfolding step by simp
  next
    case False
    then have "pq_siftUp i h = h" by (subst pq_siftUp.simps) (simp add: Let_def)
    moreover have "heap_ok n h"
      unfolding heap_ok_def
    proof (intro allI impI)
      fix j assume "2 \<le> j" "j \<le> n"
      then show "\<not> pq_isBetter (entry_at h j) (entry_at h (j div 2))"
        using False "1.prems"(1,2) by (cases "j = i") (auto simp: up_ok_def)
    qed
    ultimately show ?thesis by simp
  qed
qed

lemma pq_best_cases:
  assumes "1 \<le> i"
  shows "(pq_best n i h = i \<and> (\<forall>j. 2 \<le> j \<longrightarrow> j \<le> n \<longrightarrow> j div 2 = i \<longrightarrow> \<not> pq_isBetter (entry_at h j) (entry_at h i))) \<or>
    (i < pq_best n i h \<and> pq_best n i h \<le> n \<and> pq_best n i h div 2 = i \<and>
     pq_isBetter (entry_at h (pq_best n i h)) (entry_at h i) \<and>
     (\<forall>j. 2 \<le> j \<longrightarrow> j \<le> n \<longrightarrow> j div 2 = i \<longrightarrow> \<not> pq_isBetter (entry_at h j) (entry_at h (pq_best n i h))))"
proof -
  have kids: "(\<forall>j. 2 \<le> j \<longrightarrow> j \<le> n \<longrightarrow> j div 2 = i \<longrightarrow> Q j) \<longleftrightarrow>
      (2 * i \<le> n \<longrightarrow> Q (2 * i)) \<and> (2 * i + 1 \<le> n \<longrightarrow> Q (2 * i + 1))" for Q
  proof -
    have "j div 2 = i \<longleftrightarrow> j = 2 * i \<or> j = 2 * i + 1" for j by auto
    moreover have "2 \<le> 2 * i" "2 \<le> 2 * i + 1" using assms by simp_all
    ultimately show ?thesis by metis
  qed
  let ?l = "2 * i \<le> n \<and> pq_isBetter (entry_at h (2 * i)) (entry_at h i)"
  let ?r = "2 * i + 1 \<le> n \<and> pq_isBetter (entry_at h (2 * i + 1)) (entry_at h i)"
  let ?rl = "2 * i + 1 \<le> n \<and> pq_isBetter (entry_at h (2 * i + 1)) (entry_at h (2 * i))"
  have best: "pq_best n i h = (if ?l then (if ?rl then 2 * i + 1 else 2 * i) else if ?r then 2 * i + 1 else i)"
    by (auto simp add: pq_best_def Let_def)
  consider (rl) "?l" "?rl" | (l) "?l" "\<not> ?rl" | (r) "\<not> ?l" "?r" | (none) "\<not> ?l" "\<not> ?r" by blast
  then show ?thesis
  proof cases
    case rl
    then have "\<not> pq_isBetter (entry_at h (2 * i)) (entry_at h (2 * i + 1))"
        "pq_isBetter (entry_at h (2 * i + 1)) (entry_at h i)"
      using pq_isBetter_asym pq_isBetter_trans by blast+
    then show ?thesis unfolding kids best using rl assms by auto
  next
    case l
    then show ?thesis unfolding kids best using assms by auto
  next
    case r
    then have "\<not> pq_isBetter (entry_at h (2 * i)) (entry_at h (2 * i + 1))" if "2 * i \<le> n"
      using that pq_isBetter_trans by blast
    then show ?thesis unfolding kids best using r assms by auto
  next
    case none
    then show ?thesis unfolding kids best using assms by auto
  qed
qed

lemma down_ok_swap:
  assumes down: "down_ok n i h" and i: "1 \<le> i" "n < length h" and b: "pq_best n i h \<noteq> i"
  shows "down_ok n (pq_best n i h) (pq_swap i (pq_best n i h) h)"
proof -
  let ?b = "pq_best n i h" and ?h = "pq_swap i (pq_best n i h) h"
  have c: "i < ?b" "?b \<le> n" "?b div 2 = i" "pq_isBetter (entry_at h ?b) (entry_at h i)"
    and sib: "\<And>j. 2 \<le> j \<Longrightarrow> j \<le> n \<Longrightarrow> j div 2 = i \<Longrightarrow> \<not> pq_isBetter (entry_at h j) (entry_at h ?b)"
    using pq_best_cases [OF i(1), of n h] b by auto
  have e: "entry_at ?h k = (if k = ?b then entry_at h i else if k = i then entry_at h ?b else entry_at h k)" for k
    using i c by (intro entry_at_swap) auto
  have inv: "\<not> pq_isBetter (entry_at h j) (entry_at h (j div 2))" if "2 \<le> j" "j \<le> n" "j div 2 \<noteq> i" for j
    using down that by (simp add: down_ok_def)
  have kids: "\<not> pq_isBetter (entry_at h j) (entry_at h (i div 2))" if "2 \<le> i" "2 \<le> j" "j \<le> n" "j div 2 = i" for j
    using down that by (simp add: down_ok_def)
  have "\<not> pq_isBetter (entry_at ?h j) (entry_at ?h (j div 2))" if j: "2 \<le> j" "j \<le> n" "j div 2 \<noteq> ?b" for j
  proof -
    consider "j = ?b" | "j = i" | "j \<noteq> ?b" "j \<noteq> i" "j div 2 = i" | "j \<noteq> ?b" "j \<noteq> i" "j div 2 \<noteq> i" by blast
    then show ?thesis
    proof cases
      case 1
      have "entry_at ?h j = entry_at h i" "entry_at ?h (j div 2) = entry_at h ?b" using 1 c by (simp_all add: e)
      then show ?thesis using pq_isBetter_asym [OF c(4)] by simp
    next
      case 2
      have "j div 2 \<noteq> i" using 2 i by auto
      then have "entry_at ?h j = entry_at h ?b" "entry_at ?h (j div 2) = entry_at h (i div 2)"
        using 2 j c by (simp_all add: e)
      then show ?thesis using kids [of ?b] 2 j c by simp
    next
      case 3
      then have "entry_at ?h j = entry_at h j" "entry_at ?h (j div 2) = entry_at h ?b" using j by (simp_all add: e)
      then show ?thesis using sib j 3 by simp
    next
      case 4
      then have "entry_at ?h j = entry_at h j" "entry_at ?h (j div 2) = entry_at h (j div 2)" using j by (simp_all add: e)
      then show ?thesis using inv 4 j by simp
    qed
  qed
  moreover have "\<not> pq_isBetter (entry_at ?h j) (entry_at ?h (?b div 2))" if j: "2 \<le> j" "j \<le> n" "j div 2 = ?b" for j
  proof -
    have "j \<noteq> i" "j \<noteq> ?b" using j c by auto
    then have "entry_at ?h j = entry_at h j" "entry_at ?h (?b div 2) = entry_at h ?b" using c by (simp_all add: e)
    then show ?thesis using inv [of j] j c by simp
  qed
  ultimately show ?thesis unfolding down_ok_def by blast
qed

lemma pq_siftDown_ok:
  assumes "down_ok n i h" "1 \<le> i" "i \<le> n" "n < length h"
  shows "heap_ok n (pq_siftDown n i h) \<and> mset (cells n (pq_siftDown n i h)) = mset (cells n h) \<and>
     length (pq_siftDown n i h) = length h \<and> (\<forall>k > n. pq_siftDown n i h ! k = h ! k)"
  using assms
proof (induction n i h rule: pq_siftDown.induct)
  case (1 n i h)
  let ?b = "pq_best n i h"
  show ?case
  proof (cases "?b = i")
    case True
    then have "pq_siftDown n i h = h" by (subst pq_siftDown.simps) (simp add: Let_def)
    moreover have "heap_ok n h"
      unfolding heap_ok_def
    proof (intro allI impI)
      fix j assume "2 \<le> j" "j \<le> n"
      then show "\<not> pq_isBetter (entry_at h j) (entry_at h (j div 2))"
        using True "1.prems"(1) pq_best_cases [OF "1.prems"(2), of n h]
        by (cases "j div 2 = i") (auto simp: down_ok_def)
    qed
    ultimately show ?thesis by simp
  next
    case False
    let ?h = "pq_swap i ?b h"
    have b: "i < ?b" "?b \<le> n" using False pq_best_grows by blast+
    have step: "pq_siftDown n i h = pq_siftDown n ?b ?h"
      using False by (subst pq_siftDown.simps) (simp add: Let_def)
    have "heap_ok n (pq_siftDown n ?b ?h) \<and> mset (cells n (pq_siftDown n ?b ?h)) = mset (cells n ?h) \<and>
       length (pq_siftDown n ?b ?h) = length ?h \<and> (\<forall>k > n. pq_siftDown n ?b ?h ! k = ?h ! k)"
      using False b "1.prems" down_ok_swap [OF "1.prems"(1,2,4) False] by (intro "1.IH") auto
    moreover have "mset (cells n ?h) = mset (cells n h)"
      using b "1.prems" by (intro mset_cells_swap) auto
    moreover have "length ?h = length h" "\<forall>k > n. ?h ! k = h ! k"
      using b "1.prems" by (auto simp: pq_swap_nat)
    ultimately show ?thesis unfolding step by simp
  qed
qed

section \<open>Refinement to a dispatch-ordered list\<close>

definition pq_rep :: "'a pqueue \<Rightarrow> 'a pentry list \<Rightarrow> bool" where
  "pq_rep q es \<longleftrightarrow>
     2 \<le> pq_capacity q \<and> pq_capacity q < 2 ^ 32 \<and> int (length (pq_heap q)) = pq_capacity q \<and>
     pq_size q = length es \<and> length es < length (pq_heap q) \<and>
     mset (cells (length es) (pq_heap q)) = mset (map Some es) \<and>
     heap_ok (length es) (pq_heap q) \<and> sorted_wrt pq_isBetter es \<and>
     (\<forall>e \<in> set es. pe_seq e < pq_seq q) \<and>
     (\<forall>i > length es. i < length (pq_heap q) \<longrightarrow> pq_heap q ! i = None)"

text \<open>Where a new entry goes: after every entry of at least its priority.\<close>

definition pq_insert :: "'a pentry \<Rightarrow> 'a pentry list \<Rightarrow> 'a pentry list" where
  "pq_insert e es =
     takeWhile (\<lambda>x. pe_priority e \<le> pe_priority x) es @ [e] @
     dropWhile (\<lambda>x. pe_priority e \<le> pe_priority x) es"

lemma sorted_priorities:
  "sorted_wrt pq_isBetter (x # es) \<Longrightarrow> y \<in> set es \<Longrightarrow> pe_priority y \<le> pe_priority x"
  by (auto simp: pq_isBetter_def split: if_splits)

lemma sorted_pq_insert:
  assumes "sorted_wrt pq_isBetter es" "\<forall>x \<in> set es. pe_seq x < pe_seq e"
  shows "sorted_wrt pq_isBetter (pq_insert e es)"
  using assms
proof (induction es)
  case (Cons x es)
  show ?case
  proof (cases "pe_priority e \<le> pe_priority x")
    case True
    have r: "pq_insert e (x # es) = x # pq_insert e es" using True by (simp add: pq_insert_def)
    have xe: "pq_isBetter x e" using True Cons.prems(2) by (auto simp: pq_isBetter_def)
    have "set (pq_insert e es) = insert e (set es)"
      using set_append [of "takeWhile (\<lambda>x. pe_priority e \<le> pe_priority x) es"
          "dropWhile (\<lambda>x. pe_priority e \<le> pe_priority x) es"]
      by (auto simp: pq_insert_def)
    then show ?thesis using Cons xe by (auto simp: r)
  next
    case False
    have "pq_isBetter e y" if "y \<in> set (x # es)" for y
      using that False sorted_priorities [OF Cons.prems(1)] by (fastforce simp: pq_isBetter_def)
    then show ?thesis using False Cons.prems by (simp add: pq_insert_def)
  qed
qed (simp add: pq_insert_def)

lemma mset_pq_insert: "mset (pq_insert e es) = add_mset e (mset es)"
proof -
  have "mset es = mset (takeWhile P es) + mset (dropWhile P es)" for P
    by (metis mset_append takeWhile_dropWhile_id)
  then show ?thesis by (simp add: pq_insert_def)
qed

lemma entry_at_nat: "i < length h \<Longrightarrow> entry_at h i = the (h ! i)"
  by (simp add: entry_at_def arr_get_nat)

lemma pq_rep_set: "pq_rep q es \<Longrightarrow> set (cells (length es) (pq_heap q)) = Some ` set es"
  using mset_eq_setD [of "cells (length es) (pq_heap q)" "map Some es"] by (simp add: pq_rep_def)

lemma pq_rep_full:
  assumes "pq_rep q es" "1 \<le> i" "i \<le> length es"
  shows "\<exists>e \<in> set es. pq_heap q ! i = Some e \<and> entry_at (pq_heap q) i = e"
proof -
  have n: "length es < length (pq_heap q)" using assms(1) by (simp add: pq_rep_def)
  have "pq_heap q ! i \<in> set (cells (length es) (pq_heap q))"
    using assms(2,3) n cells_nth [OF n, of "i - 1"] cells_length [OF n] nth_mem [of "i - 1" "cells (length es) (pq_heap q)"]
    by simp
  also have "\<dots> = Some ` set es" by (rule pq_rep_set [OF assms(1)])
  finally show ?thesis using n assms(3) by (auto simp: entry_at_nat)
qed

lemma pq_rep_slot:
  assumes "pq_rep q es" "e \<in> set es"
  shows "\<exists>i. 1 \<le> i \<and> i \<le> length es \<and> entry_at (pq_heap q) i = e"
proof -
  have n: "length es < length (pq_heap q)" using assms(1) by (simp add: pq_rep_def)
  have "Some e \<in> set (cells (length es) (pq_heap q))"
    using assms(2) by (simp add: pq_rep_set [OF assms(1)])
  then obtain k where "k < length es" "pq_heap q ! Suc k = Some e"
    using n by (auto simp: in_set_conv_nth cells_length cells_nth)
  then show ?thesis using n by (intro exI [of _ "Suc k"]) (auto simp: entry_at_nat)
qed

text \<open>The root is not worse than any slot.\<close>

lemma heap_root: "heap_ok n h \<Longrightarrow> 1 \<le> i \<Longrightarrow> i \<le> n \<Longrightarrow> \<not> pq_isBetter (entry_at h i) (entry_at h 1)"
proof (induction i rule: less_induct)
  case (less i)
  show ?case
  proof (cases "i = 1")
    case False
    then have "1 \<le> i div 2" "i div 2 < i" "i div 2 \<le> n" "2 \<le> i" using less.prems by auto
    then show ?thesis
      using less.IH [of "i div 2"] less.prems not_better_trans by (auto simp: heap_ok_def)
  qed simp
qed

lemma pq_rep_root:
  assumes rep: "pq_rep q (e # es)"
  shows "entry_at (pq_heap q) 1 = e"
proof -
  obtain i where i: "1 \<le> i" "i \<le> length (e # es)" "entry_at (pq_heap q) i = e" using pq_rep_slot [OF rep] by auto
  have n: "1 \<le> length (e # es)" by simp
  obtain r where r: "r \<in> set (e # es)" "entry_at (pq_heap q) 1 = r" using pq_rep_full [OF rep _ n] by auto
  have "heap_ok (length (e # es)) (pq_heap q)" using rep by (simp add: pq_rep_def)
  then have "\<not> pq_isBetter e r" using heap_root i r(2) by blast
  then show ?thesis using r rep by (auto simp: pq_rep_def)
qed

lemma sorted_wrt_distinct: "sorted_wrt pq_isBetter es \<Longrightarrow> distinct es"
  by (induction es) auto

text \<open>Growing copies the slots.\<close>

lemma copy_slots:
  "k \<le> length src \<Longrightarrow> length src \<le> length dst \<Longrightarrow>
     fold (\<lambda>i n. arr_set n (int i) (arr_get src (int i))) [0..<k] dst = take k src @ drop k dst"
proof (induction k)
  case (Suc k)
  then have "fold (\<lambda>i n. arr_set n (int i) (arr_get src (int i))) [0..<Suc k] dst =
      (take k src @ drop k dst)[k := src ! k]"
    by (simp add: arr_get_nat arr_set_nat)
  also have "\<dots> = take (Suc k) src @ drop (Suc k) dst"
    using Suc.prems by (intro nth_equalityI) (auto simp: nth_list_update nth_append less_Suc_eq)
  finally show ?case .
qed simp

lemma pq_grow_ok:
  assumes cap: "2 \<le> pq_capacity q" "pq_capacity q < 2 ^ 31" "int (length (pq_heap q)) = pq_capacity q"
  shows "\<exists>cap'. pq_grow q = (q\<lparr>pq_heap := pq_heap q @ replicate (nat (cap' - pq_capacity q)) None,
       pq_capacity := cap'\<rparr>, Inr ()) \<and> 2 * pq_capacity q \<le> cap' \<and> cap' < 2 ^ 32"
proof -
  let ?c = "max 4 (pq_capacity q * 2)"
  have c: "2 * pq_capacity q \<le> ?c" "?c < 2 ^ 32" using cap by auto
  have na: "(new_array ?c :: 'a pentry option list result) = Inr (replicate (nat ?c) None)"
    using c by (simp add: new_array_def)
  have "length (pq_heap q) \<le> nat ?c" using cap(3) c by linarith
  then have "fold (\<lambda>i n. arr_set n (int i) (arr_get (pq_heap q) (int i))) [0..<length (pq_heap q)]
      (replicate (nat ?c) None) = pq_heap q @ replicate (nat (?c - pq_capacity q)) None"
    using copy_slots [of "length (pq_heap q)" "pq_heap q" "replicate (nat ?c) None"] cap(3)
    by (simp add: nat_diff_distrib [symmetric])
  then show ?thesis using na c by (intro exI [of _ ?c]) (simp add: pq_grow_def Let_def)
qed

section \<open>The operations\<close>

text \<open>A heap grows unless it is full at a capacity whose double is no array length.\<close>

lemma pq_rep_grow:
  assumes rep: "pq_rep q es" and room: "pq_capacity q - 1 \<le> int (pq_size q) \<Longrightarrow> pq_capacity q < 2 ^ 31"
  shows "\<exists>q1. (if pq_capacity q - 1 \<le> int (pq_size q) then pq_grow q else (q, Inr ())) = (q1, Inr ()) \<and>
     pq_rep q1 es \<and> Suc (length es) < length (pq_heap q1) \<and> pq_seq q1 = pq_seq q"
proof (cases "pq_capacity q - 1 \<le> int (pq_size q)")
  case False
  then show ?thesis using rep by (auto simp: pq_rep_def)
next
  case True
  have b: "2 \<le> pq_capacity q" "pq_capacity q < 2 ^ 31" "int (length (pq_heap q)) = pq_capacity q"
    using True rep room [OF True] by (simp_all add: pq_rep_def)
  obtain cap' where g: "pq_grow q = (q\<lparr>pq_heap := pq_heap q @ replicate (nat (cap' - pq_capacity q)) None,
       pq_capacity := cap'\<rparr>, Inr ())" "2 * pq_capacity q \<le> cap'" "cap' < 2 ^ 32"
    using pq_grow_ok [OF b] by blast
  let ?h = "pq_heap q @ replicate (nat (cap' - pq_capacity q)) None"
  let ?q1 = "q\<lparr>pq_heap := ?h, pq_capacity := cap'\<rparr>"
  have n: "length es < length (pq_heap q)" using rep by (simp add: pq_rep_def)
  have len: "int (length ?h) = cap'" using b g by simp
  have e: "entry_at ?h i = entry_at (pq_heap q) i" if "i \<le> length es" for i
    using that n by (simp add: entry_at_nat nth_append)
  have "cells (length es) ?h = cells (length es) (pq_heap q)" using n by (simp add: cells_def)
  moreover have "heap_ok (length es) ?h"
    using rep e by (auto simp: pq_rep_def heap_ok_def)
  moreover have "\<forall>i > length es. i < length ?h \<longrightarrow> ?h ! i = None"
    using rep by (auto simp: pq_rep_def nth_append)
  ultimately have "pq_rep ?q1 es"
    using rep b g(2,3) len n by (simp add: pq_rep_def)
  moreover have "int (Suc (length es)) < int (length ?h)" unfolding len using n b g by linarith
  then have "Suc (length es) < length ?h" by linarith
  ultimately show ?thesis using True g(1) by (intro exI [of _ ?q1]) simp
qed

lemma pq_push_rep_cap:
  assumes rep: "pq_rep q es" and room: "pq_capacity q - 1 \<le> int (pq_size q) \<Longrightarrow> pq_capacity q < 2 ^ 31"
  shows "\<exists>q'. pq_push prio wt x q = (q', Inr (Suc (length es))) \<and> pq_seq q' = Suc (pq_seq q) \<and>
     pq_rep q' (pq_insert \<lparr>pe_item = x, pe_priority = itemPriority prio wt x, pe_seq = pq_seq q\<rparr> es)"
proof -
  obtain q1 where q1: "(if pq_capacity q - 1 \<le> int (pq_size q) then pq_grow q else (q, Inr ())) = (q1, Inr ())"
      "pq_rep q1 es" "Suc (length es) < length (pq_heap q1)" "pq_seq q1 = pq_seq q"
    using pq_rep_grow [OF rep room] by blast
  let ?n = "Suc (length es)"
  let ?e = "\<lparr>pe_item = x, pe_priority = itemPriority prio wt x, pe_seq = pq_seq q\<rparr>"
  let ?h = "(pq_heap q1)[?n := Some ?e]"
  let ?h' = "pq_siftUp ?n ?h"
  let ?q' = "q1\<lparr>pq_heap := ?h', pq_size := ?n, pq_seq := Suc (pq_seq q)\<rparr>"
  have sz: "pq_size q1 = length es" using q1(2) by (simp add: pq_rep_def)
  have push: "pq_push prio wt x q = (?q', Inr ?n)"
    using q1 sz arr_set_nat [of ?n "pq_heap q1" "Some ?e"] by (simp add: pq_push_def Let_def)
  have e: "entry_at ?h i = (if i = ?n then ?e else entry_at (pq_heap q1) i)" for i
    using q1(3) by (simp add: entry_at_update)
  have ok: "heap_ok (length es) (pq_heap q1)" using q1(2) by (simp add: pq_rep_def)
  have up: "up_ok ?n ?n ?h"
    using ok by (auto simp: up_ok_def heap_ok_def e)
  have up_h: "heap_ok ?n ?h' \<and> mset (cells ?n ?h') = mset (cells ?n ?h) \<and>
     length ?h' = length ?h \<and> (\<forall>k > ?n. ?h' ! k = ?h ! k)"
    using q1(3) by (intro pq_siftUp_ok [OF up]) auto
  have "cells ?n ?h = cells (length es) (pq_heap q1) @ [Some ?e]"
    using cells_Suc [of "length es" ?h] q1(3) by (simp add: cells_update_outside)
  then have "mset (cells ?n ?h) = add_mset (Some ?e) (mset (map Some es))"
    using q1(2) by (simp add: pq_rep_def)
  then have "mset (cells ?n ?h') = mset (map Some (pq_insert ?e es))"
    using up_h mset_pq_insert [of ?e es] by simp
  moreover have len: "length (pq_insert ?e es) = ?n"
    using arg_cong [OF mset_pq_insert [of ?e es], of size] by simp
  moreover have seqs: "\<forall>x \<in> set es. pe_seq x < pq_seq q" using q1(2,4) by (simp add: pq_rep_def)
  then have "sorted_wrt pq_isBetter (pq_insert ?e es)"
    using q1(2) by (intro sorted_pq_insert) (auto simp: pq_rep_def)
  moreover have "\<forall>x \<in> set (pq_insert ?e es). pe_seq x < Suc (pq_seq q)"
    using seqs arg_cong [OF mset_pq_insert [of ?e es], of set_mset] by auto
  moreover have "\<forall>k > ?n. k < length ?h' \<longrightarrow> ?h' ! k = None"
    using up_h q1(2) by (simp add: pq_rep_def)
  ultimately have "pq_rep ?q' (pq_insert ?e es)"
    using up_h q1(2,3) by (simp add: pq_rep_def)
  then show ?thesis using push by auto
qed

lemma pq_push_rep:
  assumes rep: "pq_rep q es" and room: "int (length es) < 2 ^ 31 - 1"
  shows "\<exists>q'. pq_push prio wt x q = (q', Inr (Suc (length es))) \<and> pq_seq q' = Suc (pq_seq q) \<and>
     pq_rep q' (pq_insert \<lparr>pe_item = x, pe_priority = itemPriority prio wt x, pe_seq = pq_seq q\<rparr> es)"
  by (rule pq_push_rep_cap [OF rep]) (use rep room in \<open>simp add: pq_rep_def\<close>)

text \<open>A push that throws leaves the heap alone.\<close>

lemma pq_push_keeps:
  assumes rep: "pq_rep q es"
  shows "\<exists>es'. pq_rep (fst (pq_push prio wt x q)) es'"
proof (cases "pq_capacity q - 1 \<le> int (pq_size q) \<and> 2 ^ 31 \<le> pq_capacity q")
  case True
  then have "pq_push prio wt x q = (q, Inl InvalidArrayLength)"
    by (simp add: pq_push_def pq_grow_def new_array_def Let_def)
  then show ?thesis using rep by auto
next
  case False
  then have "pq_capacity q - 1 \<le> int (pq_size q) \<Longrightarrow> pq_capacity q < 2 ^ 31" by simp
  from pq_push_rep_cap [OF rep this, of prio wt x] show ?thesis by auto
qed

text \<open>Taking the last slot and writing it over slot \<open>w\<close> removes the entry that was there.\<close>

lemma mset_cells_move:
  assumes "Suc n < length h" "1 \<le> w" "w \<le> n"
  shows "mset (cells n (h[Suc n := None, w := h ! Suc n])) = mset (cells (Suc n) h) - {#h ! w#}"
proof -
  have c: "cells (Suc n) h = cells n h @ [h ! Suc n]" using cells_Suc [OF assms(1)] .
  have w: "w - 1 < length (cells n h)" "cells n h ! (w - 1) = h ! w"
    using assms by (simp_all add: cells_length cells_nth)
  have "cells n (h[Suc n := None, w := h ! Suc n]) = (cells n h)[w - 1 := h ! Suc n]"
    using assms by (simp add: cells_update cells_update_outside)
  then have "mset (cells n (h[Suc n := None, w := h ! Suc n])) = add_mset (h ! Suc n) (mset (cells n h) - {#h ! w#})"
    using w by (simp add: mset_update)
  moreover have "h ! w \<in># mset (cells n h)" using w nth_mem [OF w(1)] by simp
  ultimately show ?thesis by (simp add: c)
qed

lemma entry_at_move:
  assumes "Suc n < length h" "w \<le> n" "1 \<le> i" "i \<le> n" "h ! Suc n \<noteq> None"
  shows "entry_at (h[Suc n := None, w := h ! Suc n]) i = (if i = w then entry_at h (Suc n) else entry_at h i)"
  using assms by (auto simp: entry_at_nat)

lemma pq_rep_remove:
  assumes rep: "pq_rep q es" and w: "1 \<le> w" "w \<le> n" "length es = Suc n"
    and e: "entry_at (pq_heap q) w = e" "mset es' = mset es - {#e#}" "sorted_wrt pq_isBetter es'"
    and h: "heap_ok n h" "length h = length (pq_heap q)"
      "mset (cells n h) = mset (cells n ((pq_heap q)[Suc n := None, w := pq_heap q ! Suc n]))"
      "\<forall>k > n. h ! k = ((pq_heap q)[Suc n := None, w := pq_heap q ! Suc n]) ! k"
  shows "pq_rep (q\<lparr>pq_heap := h, pq_size := n\<rparr>) es'"
proof -
  have n: "Suc n < length (pq_heap q)" using rep w(3) by (simp add: pq_rep_def)
  obtain x where x: "x \<in> set es" "pq_heap q ! w = Some x" "entry_at (pq_heap q) w = x"
    using pq_rep_full [OF rep w(1)] w by auto
  have sub: "set es' \<subseteq> set es" using e(2) by (metis in_diffD set_mset_mset subsetI)
  have "mset (cells n h) = mset (map Some es) - {#Some e#}"
    using mset_cells_move [OF n w(1,2)] h(3) rep w(3) x e(1) by (simp add: pq_rep_def)
  also have "\<dots> = mset (map Some es')"
    using e x by (simp add: image_mset_Diff)
  finally have ms: "mset (cells n h) = mset (map Some es')" .
  have len: "length es' = n"
    using arg_cong [OF e(2), of size] x e(1) w(3) by (simp add: size_Diff_singleton)
  have "\<forall>k > n. k < length h \<longrightarrow> h ! k = None"
    using h(2,4) rep w n by (auto simp: pq_rep_def nth_list_update)
  then show ?thesis using rep n h ms len e(3) sub by (auto simp: pq_rep_def)
qed

lemma pq_shift_empty: "pq_rep q [] \<Longrightarrow> pq_shift q = (q, None)"
  by (simp add: pq_shift_def pq_rep_def)

lemma pq_rep_single:
  assumes rep: "pq_rep q [e]"
  shows "pq_rep (q\<lparr>pq_heap := arr_set (pq_heap q) (int (Suc 0)) None, pq_size := 0\<rparr>) []"
proof -
  have n: "Suc 0 < length (pq_heap q)" using rep by (simp add: pq_rep_def)
  have "arr_set (pq_heap q) (int (Suc 0)) None = (pq_heap q)[Suc 0 := None]" by (rule arr_set_nat [OF n])
  moreover have "cells 0 ((pq_heap q)[Suc 0 := None]) = []" by (cases "pq_heap q") (auto simp: cells_def)
  ultimately show ?thesis using rep n by (auto simp: pq_rep_def heap_ok_def nth_list_update)
qed

lemma pq_shift_rep:
  assumes rep: "pq_rep q (e # es)"
  shows "\<exists>q'. pq_shift q = (q', Some (pe_item e)) \<and> pq_rep q' es \<and> pq_seq q' = pq_seq q"
proof -
  have root: "entry_at (pq_heap q) 1 = e" by (rule pq_rep_root [OF rep])
  have sz: "pq_size q = Suc (length es)" and n: "Suc (length es) < length (pq_heap q)"
    using rep by (simp_all add: pq_rep_def)
  show ?thesis
  proof (cases "es = []")
    case True
    then show ?thesis using pq_rep_single [of q e] rep root sz by (simp add: pq_shift_def Let_def)
  next
    case False
    let ?n = "length es"
    let ?h = "(pq_heap q)[Suc ?n := None, 1 := pq_heap q ! Suc ?n]"
    have pos: "1 \<le> ?n" using False by (simp add: Suc_le_eq)
    have ne: "pq_heap q ! Suc ?n \<noteq> None" using pq_rep_full [OF rep, of "Suc ?n"] by auto
    have en: "entry_at ?h i = (if i = 1 then entry_at (pq_heap q) (Suc ?n) else entry_at (pq_heap q) i)"
      if "1 \<le> i" "i \<le> ?n" for i using entry_at_move [OF n pos that ne] .
    have ok: "heap_ok (Suc ?n) (pq_heap q)" using rep by (simp add: pq_rep_def)
    have down: "down_ok ?n 1 ?h"
      unfolding down_ok_def
    proof (intro conjI allI impI)
      fix j :: nat assume j: "2 \<le> j" "j \<le> ?n" "j div 2 \<noteq> 1"
      then have "1 \<le> j div 2" "j div 2 \<le> ?n" by auto
      then show "\<not> pq_isBetter (entry_at ?h j) (entry_at ?h (j div 2))"
        using en [of j] en [of "j div 2"] j ok by (simp add: heap_ok_def)
    qed simp
    have sift: "heap_ok ?n (pq_siftDown ?n 1 ?h) \<and> mset (cells ?n (pq_siftDown ?n 1 ?h)) = mset (cells ?n ?h) \<and>
       length (pq_siftDown ?n 1 ?h) = length ?h \<and> (\<forall>k > ?n. pq_siftDown ?n 1 ?h ! k = ?h ! k)"
      using pos n by (intro pq_siftDown_ok [OF down]) auto
    have "pq_rep (q\<lparr>pq_heap := pq_siftDown ?n 1 ?h, pq_size := ?n\<rparr>) es"
      using rep pos root sift by (intro pq_rep_remove [OF rep, of 1 ?n e]) (auto simp: pq_rep_def)
    moreover have "arr_set (arr_set (pq_heap q) (int (Suc ?n)) None) (int 1) (arr_get (pq_heap q) (int (Suc ?n))) = ?h"
      using n arr_set_nat [OF n] arr_get_nat [OF n] arr_set_nat [of 1 "(pq_heap q)[Suc ?n := None]"] by simp
    ultimately show ?thesis
      using sz root pos False by (simp add: pq_shift_def Let_def)
  qed
qed

lemma pq_worst_least:
  "pq_worst h is w \<in> insert w (set is) \<and>
     (\<forall>i \<in> insert w (set is). \<not> pq_isBetter (entry_at h (pq_worst h is w)) (entry_at h i))"
proof (induction h "is" w rule: pq_worst.induct)
  case (2 h i "is" w)
  let ?w = "if pq_isBetter (entry_at h w) (entry_at h i) then i else w"
  have "\<not> pq_isBetter (entry_at h ?w) (entry_at h i)" "\<not> pq_isBetter (entry_at h ?w) (entry_at h w)"
    using pq_isBetter_asym by auto
  then have "\<forall>j \<in> {w, i}. \<not> pq_isBetter (entry_at h (pq_worst h is ?w)) (entry_at h j)"
    using 2 not_better_trans by blast
  moreover have "pq_worst h (i # is) w = pq_worst h is ?w" by simp
  ultimately show ?case using 2 by auto
qed simp

lemma pq_worst_is_last:
  assumes rep: "pq_rep q (es @ [e])" and w_def: "w = pq_worst (pq_heap q) [2..<Suc (pq_size q)] 1"
  shows "1 \<le> w" "w \<le> Suc (length es)" "entry_at (pq_heap q) w = e"
    "\<And>i. 1 \<le> i \<Longrightarrow> i \<le> Suc (length es) \<Longrightarrow> \<not> pq_isBetter e (entry_at (pq_heap q) i)"
proof -
  let ?n = "length es"
  have all: "i \<in> insert 1 (set [2..<Suc (pq_size q)]) \<longleftrightarrow> 1 \<le> i \<and> i \<le> Suc ?n" for i
    using rep by (auto simp: pq_rep_def)
  show w: "1 \<le> w" "w \<le> Suc ?n"
    unfolding w_def using pq_worst_least [of "pq_heap q" "[2..<Suc (pq_size q)]" 1] all by blast+
  have least: "\<not> pq_isBetter (entry_at (pq_heap q) w) (entry_at (pq_heap q) i)" if "1 \<le> i" "i \<le> Suc ?n" for i
    unfolding w_def using pq_worst_least [of "pq_heap q" "[2..<Suc (pq_size q)]" 1] all that by blast
  obtain i where i: "1 \<le> i" "i \<le> Suc ?n" "entry_at (pq_heap q) i = e" using pq_rep_slot [OF rep] by auto
  obtain x where x: "x \<in> set (es @ [e])" "entry_at (pq_heap q) w = x" using pq_rep_full [OF rep w(1)] w(2) by auto
  have "\<not> pq_isBetter x e" using least [OF i(1,2)] i x by simp
  then show "entry_at (pq_heap q) w = e" using x rep by (auto simp: pq_rep_def sorted_wrt_append)
  then show "\<And>i. 1 \<le> i \<Longrightarrow> i \<le> Suc ?n \<Longrightarrow> \<not> pq_isBetter e (entry_at (pq_heap q) i)" using least by simp
qed

lemma pq_rep_distinct_cells:
  assumes "pq_rep q es"
  shows "distinct (cells (length es) (pq_heap q))"
proof -
  have "distinct (map Some es)"
    using assms sorted_wrt_distinct [of es] by (simp add: pq_rep_def distinct_map inj_on_def)
  then show ?thesis
    using assms mset_eq_imp_distinct_iff [of "cells (length es) (pq_heap q)" "map Some es"] by (simp add: pq_rep_def)
qed

lemma pq_last_is_leaf:
  assumes rep: "pq_rep q (es @ [e])" and w: "1 \<le> w" "w \<le> Suc (length es)" "entry_at (pq_heap q) w = e"
    and least: "\<And>i. 1 \<le> i \<Longrightarrow> i \<le> Suc (length es) \<Longrightarrow> \<not> pq_isBetter e (entry_at (pq_heap q) i)"
    and j: "2 \<le> j" "j \<le> Suc (length es)"
  shows "j div 2 \<noteq> w"
proof
  assume jw: "j div 2 = w"
  have n: "Suc (length es) < length (pq_heap q)" and ok: "heap_ok (Suc (length es)) (pq_heap q)"
    using rep by (simp_all add: pq_rep_def)
  have better: "\<not> pq_isBetter (entry_at (pq_heap q) j) e" "\<not> pq_isBetter e (entry_at (pq_heap q) j)"
    using ok jw j w(3) least [of j] by (auto simp: heap_ok_def)
  have "1 \<le> j" "j \<le> length (es @ [e])" using j by simp_all
  from pq_rep_full [OF rep this]
  obtain x where x: "x \<in> set (es @ [e])" "entry_at (pq_heap q) j = x" "pq_heap q ! j = Some x" by blast
  have "x = e" using x better rep by (auto simp: pq_rep_def sorted_wrt_append)
  \<comment> \<open>two slots with the same entry would give it twice in the multiset\<close>
  moreover have "pq_heap q ! w = Some e" using w pq_rep_full [OF rep w(1)] by auto
  ultimately have "j - 1 = w - 1"
    using x j w(1,2) n pq_rep_distinct_cells [OF rep]
      nth_eq_iff_index_eq [of "cells (Suc (length es)) (pq_heap q)" "j - 1" "w - 1"]
    by (simp add: cells_nth cells_length)
  then show False using jw j w(1) by linarith
qed

lemma pq_rep_remove_last:
  assumes rep: "pq_rep q (es @ [e])" and last: "entry_at (pq_heap q) (Suc (length es)) = e"
  shows "pq_rep (q\<lparr>pq_heap := (pq_heap q)[Suc (length es) := None], pq_size := length es\<rparr>) es"
proof -
  let ?n = "length es" and ?h = "(pq_heap q)[Suc (length es) := None]"
  have n: "Suc ?n < length (pq_heap q)" and ok: "heap_ok (Suc ?n) (pq_heap q)"
    using rep by (simp_all add: pq_rep_def)
  have "pq_heap q ! Suc ?n = Some e" using last pq_rep_full [OF rep, of "Suc ?n"] by auto
  then have ms: "mset (cells ?n ?h) = mset (map Some es)"
    using rep cells_Suc [OF n] by (simp add: pq_rep_def cells_update_outside)
  have "entry_at ?h i = entry_at (pq_heap q) i" if "i \<le> ?n" for i using that n by (simp add: entry_at_nat)
  then have "heap_ok ?n ?h" using ok by (auto simp: heap_ok_def)
  then show ?thesis using rep ms n by (auto simp: pq_rep_def nth_list_update sorted_wrt_append)
qed

lemma pq_rep_remove_leaf:
  assumes rep: "pq_rep q (es @ [e])" and w: "1 \<le> w" "w \<le> length es" "entry_at (pq_heap q) w = e"
    and leaf: "\<And>j. 2 \<le> j \<Longrightarrow> j \<le> Suc (length es) \<Longrightarrow> j div 2 \<noteq> w"
  defines "h \<equiv> (pq_heap q)[Suc (length es) := None, w := pq_heap q ! Suc (length es)]"
  shows "pq_siftDown (length es) w h = h"
    "pq_rep (q\<lparr>pq_heap := pq_siftUp w h, pq_size := length es\<rparr>) es"
proof -
  let ?n = "length es"
  have n: "Suc ?n < length (pq_heap q)" and ok: "heap_ok (Suc ?n) (pq_heap q)"
    and sorted: "sorted_wrt pq_isBetter es" "mset es = mset (es @ [e]) - {#e#}"
    using rep by (simp_all add: pq_rep_def sorted_wrt_append)
  have ne: "pq_heap q ! Suc ?n \<noteq> None" using pq_rep_full [OF rep, of "Suc ?n"] by auto
  have en: "entry_at h i = (if i = w then entry_at (pq_heap q) (Suc ?n) else entry_at (pq_heap q) i)"
    if "1 \<le> i" "i \<le> ?n" for i unfolding h_def using entry_at_move [OF n w(2) that ne] .
  have "pq_best ?n w h = w"
    using pq_best_cases [OF w(1), of ?n h] leaf [of "pq_best ?n w h"] w(1) by auto
  then show "pq_siftDown ?n w h = h" by (subst pq_siftDown.simps) (simp add: Let_def)
  have up: "up_ok ?n w h"
    unfolding up_ok_def
  proof (intro conjI allI impI)
    fix j :: nat assume j: "2 \<le> j" "j \<le> ?n" "j \<noteq> w"
    then have "1 \<le> j div 2" "j div 2 \<le> ?n" "j div 2 \<noteq> w" using leaf [of j] by auto
    then show "\<not> pq_isBetter (entry_at h j) (entry_at h (j div 2))"
      using en [of j] en [of "j div 2"] j ok by (simp add: heap_ok_def)
  next
    fix j :: nat assume "2 \<le> j" "j \<le> ?n" "j div 2 = w"
    then show "\<not> pq_isBetter (entry_at h j) (entry_at h (w div 2))" using leaf [of j] by auto
  qed
  have "heap_ok ?n (pq_siftUp w h) \<and> mset (cells ?n (pq_siftUp w h)) = mset (cells ?n h) \<and>
     length (pq_siftUp w h) = length h \<and> (\<forall>k > ?n. pq_siftUp w h ! k = h ! k)"
    using w(1,2) n by (intro pq_siftUp_ok [OF up]) (auto simp: h_def)
  then show "pq_rep (q\<lparr>pq_heap := pq_siftUp w h, pq_size := ?n\<rparr>) es"
    using w sorted by (intro pq_rep_remove [OF rep, of w ?n e]) (auto simp: h_def)
qed

lemma pq_popLowest_rep:
  assumes rep: "pq_rep q (es @ [e])"
  shows "\<exists>q'. pq_popLowest q = (q', Some (pe_item e)) \<and> pq_rep q' es \<and> pq_seq q' = pq_seq q"
proof -
  let ?n = "length es"
  define w where "w = pq_worst (pq_heap q) [2..<Suc (pq_size q)] 1"
  have sz: "pq_size q = Suc ?n" and n: "Suc ?n < length (pq_heap q)"
    using rep by (simp_all add: pq_rep_def)
  note w = pq_worst_is_last [OF rep w_def]
  have pop: "pq_popLowest q = (q\<lparr>pq_heap := (if w \<le> ?n then pq_siftUp w (pq_siftDown ?n w
        (arr_set (arr_set (pq_heap q) (int (Suc ?n)) None) (int w) (arr_get (pq_heap q) (int (Suc ?n)))))
      else arr_set (pq_heap q) (int (Suc ?n)) None), pq_size := ?n\<rparr>, Some (pe_item e))"
    unfolding pq_popLowest_def Let_def w_def [symmetric] using sz w(3) by simp
  show ?thesis
  proof (cases "w \<le> ?n")
    case False
    then have "w = Suc ?n" using w(2) by simp
    then show ?thesis using False pq_rep_remove_last [OF rep] w(3) arr_set_nat [OF n, of None] by (simp add: pop)
  next
    case True
    note leaf = pq_rep_remove_leaf [OF rep w(1) True w(3) pq_last_is_leaf [OF rep w]]
    have "arr_set (arr_set (pq_heap q) (int (Suc ?n)) None) (int w) (arr_get (pq_heap q) (int (Suc ?n))) =
        (pq_heap q)[Suc ?n := None, w := pq_heap q ! Suc ?n]"
      using n True arr_set_nat [OF n] arr_get_nat [OF n] arr_set_nat [of w "(pq_heap q)[Suc ?n := None]"] by simp
    then show ?thesis using True leaf by (simp add: pop)
  qed
qed

lemma pq_peek_rep: "pq_rep q es \<Longrightarrow> pq_peek q = (case es of [] \<Rightarrow> None | e # _ \<Rightarrow> Some (pe_item e))"
  using pq_rep_root by (cases es) (auto simp: pq_peek_def pq_rep_def)

lemma clear_slots_fold:
  "Suc n \<le> length h \<Longrightarrow> \<forall>i > n. i < length h \<longrightarrow> h ! i = None \<Longrightarrow>
    length (fold (\<lambda>i h. arr_set h (int i) None) [1..<Suc n] h) = length h \<and>
    (\<forall>i \<ge> 1. i < length h \<longrightarrow> fold (\<lambda>i h. arr_set h (int i) None) [1..<Suc n] h ! i = None)"
proof -
  assume len: "Suc n \<le> length h" and none: "\<forall>i > n. i < length h \<longrightarrow> h ! i = None"
  have "k \<le> n \<Longrightarrow> length (fold (\<lambda>i h. arr_set h (int i) None) [1..<Suc k] h) = length h \<and>
    (\<forall>i < length h. fold (\<lambda>i h. arr_set h (int i) None) [1..<Suc k] h ! i = (if 1 \<le> i \<and> i \<le> k then None else h ! i))" for k
  proof (induction k)
    case (Suc k)
    let ?h = "fold (\<lambda>i h. arr_set h (int i) None) [1..<Suc k] h"
    have IH: "length ?h = length h" "\<forall>i < length h. ?h ! i = (if 1 \<le> i \<and> i \<le> k then None else h ! i)"
      using Suc by simp_all
    have "fold (\<lambda>i h. arr_set h (int i) None) [1..<Suc (Suc k)] h = ?h[Suc k := None]"
      using Suc.prems len IH(1) arr_set_nat [of "Suc k" ?h None] by simp
    have "?h[Suc k := None] ! i = (if 1 \<le> i \<and> i \<le> Suc k then None else h ! i)" if "i < length h" for i
    proof (cases "i = Suc k")
      case True
      then show ?thesis using that IH(1) by simp
    next
      case False
      then have "i \<le> Suc k \<longleftrightarrow> i \<le> k" by auto
      then show ?thesis using that IH False by simp
    qed
    then show ?case using IH(1) \<open>_ = ?h[Suc k := None]\<close> by simp
  qed simp
  from this [of n] show ?thesis using none by auto
qed

lemma pq_clear_rep:
  assumes rep: "pq_rep q es"
  shows "pq_rep (pq_clear q) []" and "pq_seq (pq_clear q) = 0"
proof -
  have sz: "pq_size q = length es" and n: "Suc (length es) \<le> length (pq_heap q)"
    using rep by (simp_all add: pq_rep_def)
  let ?h = "fold (\<lambda>i h. arr_set h (int i) None) [1..<Suc (length es)] (pq_heap q)"
  have h: "length ?h = length (pq_heap q) \<and> (\<forall>i \<ge> 1. i < length (pq_heap q) \<longrightarrow> ?h ! i = None)"
    using rep by (intro clear_slots_fold [OF n]) (simp add: pq_rep_def)
  have "cells 0 ?h = []" by (cases ?h) (auto simp: cells_def)
  then show "pq_rep (pq_clear q) []"
    using rep h sz by (auto simp: pq_rep_def pq_clear_def heap_ok_def)
qed (simp add: pq_clear_def)

text \<open>\<open>toArray\<close> sorts the slots into the dispatch order.\<close>

abbreviation pq_cmp :: "'a pentry \<Rightarrow> 'a pentry \<Rightarrow> int" where
  "pq_cmp \<equiv> (\<lambda>a b. if pq_isBetter a b then - 1 else if pq_isBetter b a then 1 else 0)"

lemma sort_insert_ok:
  "sorted_wrt (\<lambda>a b. \<not> pq_isBetter b a) ys \<Longrightarrow>
     mset (sort_insert pq_cmp x ys) = add_mset x (mset ys) \<and>
     sorted_wrt (\<lambda>a b. \<not> pq_isBetter b a) (sort_insert pq_cmp x ys)"
proof (induction ys)
  case (Cons y ys)
  show ?case
  proof (cases "pq_isBetter y x")
    case True
    have IH: "mset (sort_insert pq_cmp x ys) = add_mset x (mset ys)"
      "sorted_wrt (\<lambda>a b. \<not> pq_isBetter b a) (sort_insert pq_cmp x ys)" using Cons by auto
    have "set (sort_insert pq_cmp x ys) = insert x (set ys)"
      using arg_cong [OF IH(1), of set_mset] by simp
    then show ?thesis using True IH Cons.prems pq_isBetter_asym [OF True] by auto
  next
    case False
    then show ?thesis using Cons.prems not_better_trans by (auto split: if_splits)
  qed
qed simp

lemma js_sort_ok:
  "mset (js_sort pq_cmp xs) = mset xs \<and> sorted_wrt (\<lambda>a b. \<not> pq_isBetter b a) (js_sort pq_cmp xs)"
  unfolding js_sort_def by (induction xs) (simp_all add: sort_insert_ok)

lemma dispatch_order_unique:
  "sorted_wrt pq_isBetter es \<Longrightarrow> sorted_wrt (\<lambda>a b. \<not> pq_isBetter b a) zs \<Longrightarrow> mset zs = mset es \<Longrightarrow> zs = es"
proof (induction es arbitrary: zs)
  case (Cons e es)
  then obtain z zs' where z: "zs = z # zs'" by (cases zs) auto
  have "z \<in> set (e # es)" "e \<in> set zs" using Cons.prems(3) z mset_eq_setD by fastforce+
  then have "z = e" using Cons.prems(1,2) z by auto
  then show ?case using Cons z by auto
qed simp

lemma pq_toArray_rep:
  assumes rep: "pq_rep q es"
  shows "pq_toArray q = map pe_item es"
proof -
  let ?zs = "map (entry_at (pq_heap q)) [1..<Suc (pq_size q)]"
  have sz: "pq_size q = length es" and n: "length es < length (pq_heap q)"
    using rep by (simp_all add: pq_rep_def)
  have "map Some ?zs = cells (length es) (pq_heap q)"
  proof (rule nth_equalityI)
    show "length (map Some ?zs) = length (cells (length es) (pq_heap q))"
      using n sz by (simp add: cells_length del: upt_Suc)
    fix i assume "i < length (map Some ?zs)"
    then have i: "i < length es" using sz by (simp del: upt_Suc)
    then show "map Some ?zs ! i = cells (length es) (pq_heap q) ! i"
      using n sz pq_rep_full [OF rep, of "Suc i"] by (auto simp: cells_nth simp del: upt_Suc)
  qed
  then have "image_mset Some (mset ?zs) = image_mset Some (mset es)"
    using rep by (metis mset_map pq_rep_def)
  from arg_cong [OF this, of "image_mset the"] have "mset ?zs = mset es"
    by (simp add: multiset.map_comp comp_def del: upt_Suc)
  then have "js_sort pq_cmp ?zs = es"
    using rep js_sort_ok [of ?zs] by (intro dispatch_order_unique) (auto simp: pq_rep_def)
  then show ?thesis unfolding pq_toArray_def by simp
qed

lemma pq_new_rep:
  assumes "pq_new v = Inr q"
  shows "pq_rep q [] \<and> pq_seq q = 0"
proof -
  obtain requested where "pq_alloc requested = Inr q"
    using assms by (auto simp: pq_new_def split: sum.splits)
  moreover define cap where "cap = (case requested of Fin r \<Rightarrow> max 2 \<lfloor>r\<rfloor> | _ \<Rightarrow> 2)"
  moreover have "2 \<le> cap" unfolding cap_def by (cases requested) auto
  ultimately obtain heap where c: "2 \<le> cap" "new_array cap = Inr heap"
      "q = \<lparr>pq_capacity = cap, pq_heap = heap, pq_size = 0, pq_seq = 0\<rparr>"
    by (auto simp: pq_alloc_def Let_def split: sum.splits)
  have "cap < 2 ^ 32" "heap = replicate (nat cap) None"
    using c(2) by (auto simp: new_array_def split: if_splits)
  then show ?thesis using c(1,3) by (simp add: pq_rep_def heap_ok_def cells_def)
qed

section \<open>Properties\<close>

text \<open>
  C5. The heap refines a list in dispatch order.  \<open>pq_rep q es\<close> says that \<open>es\<close> are the
  entries of the queue, best first.  \<open>push\<close> places the item behind every item of at least its
  priority and returns the new length, growing the array when it is full; \<open>shift\<close> removes
  the first, \<open>popLowest\<close> the last, \<open>peek\<close> and \<open>toArray\<close> read in that order, and
  \<open>clear\<close> leaves the empty queue.
\<close>

theorem pq_refines_dispatch_order:
  assumes rep: "pq_rep q es" and room: "int (length es) < 2 ^ 31 - 1"
  shows "(\<exists>q'. pq_push prio wt x q = (q', Inr (length es + 1)) \<and>
      pq_rep q' (pq_insert \<lparr>pe_item = x, pe_priority = itemPriority prio wt x, pe_seq = pq_seq q\<rparr> es)) \<and>
    (\<exists>q'. pq_shift q = (q', if es = [] then None else Some (pe_item (hd es))) \<and> pq_rep q' (tl es)) \<and>
    (\<exists>q'. pq_popLowest q = (q', if es = [] then None else Some (pe_item (last es))) \<and> pq_rep q' (butlast es)) \<and>
    pq_peek q = (if es = [] then None else Some (pe_item (hd es))) \<and>
    pq_toArray q = map pe_item es \<and> pq_rep (pq_clear q) []"
proof (intro conjI)
  show "\<exists>q'. pq_push prio wt x q = (q', Inr (length es + 1)) \<and>
      pq_rep q' (pq_insert \<lparr>pe_item = x, pe_priority = itemPriority prio wt x, pe_seq = pq_seq q\<rparr> es)"
    using pq_push_rep [OF rep room, of prio wt x] by auto
  show "\<exists>q'. pq_shift q = (q', if es = [] then None else Some (pe_item (hd es))) \<and> pq_rep q' (tl es)"
    using rep pq_shift_empty pq_shift_rep by (cases es) fastforce+
  show "\<exists>q'. pq_popLowest q = (q', if es = [] then None else Some (pe_item (last es))) \<and> pq_rep q' (butlast es)"
  proof (cases es rule: rev_cases)
    case Nil
    then show ?thesis using rep by (auto simp: pq_popLowest_def pq_rep_def)
  next
    case (snoc ys y)
    then show ?thesis using rep pq_popLowest_rep [of q ys y] by auto
  qed
  show "pq_peek q = (if es = [] then None else Some (pe_item (hd es)))"
    using pq_peek_rep [OF rep] by (cases es) auto
  show "pq_toArray q = map pe_item es" by (rule pq_toArray_rep [OF rep])
  show "pq_rep (pq_clear q) []" by (rule pq_clear_rep(1) [OF rep])
qed

theorem pq_refines_dispatch_order_witness:
  "case pq_new (JNum (Fin 3)) of
     Inr q \<Rightarrow> pq_rep q [] \<and> pq_toArray q = [] \<and> snd (pq_shift q) = (None :: nat option)
   | Inl e \<Rightarrow> False"
proof -
  obtain q :: "nat pqueue" where q: "pq_new (JNum (Fin 3)) = Inr q"
    by (simp add: pq_new_def pq_new_arg_def pq_alloc_def Let_def assertLimitRequired_def assertLimit_def
        limit_spec_def new_array_def)
  then have "pq_rep q []" using pq_new_rep by blast
  note rep = this
  obtain q' where "pq_shift q = (q', None)" "pq_toArray q = []"
    using pq_refines_dispatch_order [OF rep] by fastforce
  then show ?thesis using rep q by simp
qed

text \<open>Draining: shift until the queue is empty.\<close>

function pq_drain :: "'a pqueue \<Rightarrow> 'a list" where
  "pq_drain q = (case pq_shift q of (q', None) \<Rightarrow> [] | (q', Some x) \<Rightarrow> x # pq_drain q')"
  by pat_completeness auto
termination
  by (relation "measure pq_size") (auto simp: pq_shift_def Let_def split: if_splits)

declare pq_drain.simps [simp del]

lemma pq_drain_rep: "pq_rep q es \<Longrightarrow> pq_drain q = map pe_item es"
proof (induction es arbitrary: q)
  case Nil
  then show ?case by (subst pq_drain.simps) (simp add: pq_shift_empty)
next
  case (Cons e es)
  then obtain q' where "pq_shift q = (q', Some (pe_item e))" "pq_rep q' es"
    using pq_shift_rep by blast
  then show ?case using Cons.IH by (subst pq_drain.simps) simp
qed

text \<open>The place of a new item among items sorted by falling priority, as the library's stable sort has it.\<close>

definition after_equals :: "('a \<Rightarrow> rat) \<Rightarrow> 'a \<Rightarrow> 'a list \<Rightarrow> 'a list" where
  "after_equals f x xs = takeWhile (\<lambda>y. f y \<le> f x) xs @ [x] @ dropWhile (\<lambda>y. f y \<le> f x) xs"

lemma insort_after_equals:
  "sorted (map f xs) \<Longrightarrow> insort_key f y (after_equals f x xs) = after_equals f x (insort_key f y xs)"
proof (induction xs)
  case (Cons z zs)
  then show ?case by (auto simp: after_equals_def)
qed (auto simp: after_equals_def)

lemma sort_key_snoc: "sort_key f (xs @ [x]) = after_equals f x (sort_key f xs)"
proof (induction xs)
  case (Cons y ys)
  then show ?case by (simp add: insort_after_equals)
qed (simp add: after_equals_def)

lemma pq_insert_items:
  "\<forall>x \<in> set es. pe_priority x = f (pe_item x) \<Longrightarrow> pe_priority e = f (pe_item e) \<Longrightarrow>
     map pe_item (pq_insert e es) = after_equals (\<lambda>x. - f x) (pe_item e) (map pe_item es)"
proof -
  assume a: "\<forall>x \<in> set es. pe_priority x = f (pe_item x)" "pe_priority e = f (pe_item e)"
  have "takeWhile (\<lambda>x. pe_priority e \<le> pe_priority x) es = takeWhile (\<lambda>x. f (pe_item e) \<le> f (pe_item x)) es"
    "dropWhile (\<lambda>x. pe_priority e \<le> pe_priority x) es = dropWhile (\<lambda>x. f (pe_item e) \<le> f (pe_item x)) es"
    using a by (auto intro: takeWhile_cong dropWhile_cong)
  then show ?thesis
    by (simp add: pq_insert_def after_equals_def takeWhile_map dropWhile_map comp_def)
qed

lemma pq_pushMany_rep:
  assumes "pq_rep q es" "\<forall>x \<in> set es. pe_priority x = itemPriority prio wt (pe_item x)"
    and "map pe_item es = sort_key (\<lambda>x. - itemPriority prio wt x) ys"
    and "int (length ys + length xs) < 2 ^ 31"
  shows "\<exists>q' es'. pq_pushMany prio wt xs q = (q', Inr (length ys + length xs)) \<and> pq_rep q' es' \<and>
     map pe_item es' = sort_key (\<lambda>x. - itemPriority prio wt x) (ys @ xs)"
  using assms
proof (induction xs arbitrary: q es ys)
  case Nil
  then have "length es = length ys" by (metis length_map length_sort)
  moreover have "pq_size q = length es" using Nil.prems(1) by (simp add: pq_rep_def)
  ultimately show ?case using Nil.prems(1,3) by auto
next
  case (Cons x xs)
  have len: "length es = length ys" using Cons.prems(3) by (metis length_map length_sort)
  let ?e = "\<lparr>pe_item = x, pe_priority = itemPriority prio wt x, pe_seq = pq_seq q\<rparr>"
  obtain q1 where q1: "pq_push prio wt x q = (q1, Inr (Suc (length es)))" "pq_rep q1 (pq_insert ?e es)"
    using pq_push_rep [OF Cons.prems(1), of prio wt x] Cons.prems(4) len by auto
  have set_ins: "set (pq_insert ?e es) = insert ?e (set es)"
    using arg_cong [OF mset_pq_insert [of ?e es], of set_mset] by simp
  have "map pe_item (pq_insert ?e es) = sort_key (\<lambda>x. - itemPriority prio wt x) (ys @ [x])"
    using Cons.prems(2,3) pq_insert_items [of es "itemPriority prio wt" ?e] by (simp add: sort_key_snoc)
  then have "\<exists>q' es'. pq_pushMany prio wt xs q1 = (q', Inr (length (ys @ [x]) + length xs)) \<and> pq_rep q' es' \<and>
     map pe_item es' = sort_key (\<lambda>x. - itemPriority prio wt x) ((ys @ [x]) @ xs)"
    using Cons.prems(2,4) set_ins by (intro Cons.IH [OF q1(2)]) auto
  then show ?case using q1(1) by auto
qed

text \<open>
  Dispatch order, end to end.  Items pushed on a new queue come out sorted by falling
  priority, and equal priorities in the order they were pushed: draining the queue, and
  \<open>toArray\<close>, give the stable sort of the input.
\<close>

theorem pq_drains_in_stable_order:
  assumes "pq_new v = Inr q" "int (length xs) < 2 ^ 31"
  shows "\<exists>q'. pq_pushMany prio wt xs q = (q', Inr (length xs)) \<and>
    pq_drain q' = sort_key (\<lambda>x. - itemPriority prio wt x) xs \<and> pq_toArray q' = pq_drain q'"
proof -
  have "pq_rep q []" using pq_new_rep [OF assms(1)] by blast
  from pq_pushMany_rep [OF this, of prio wt "[]" xs] assms(2)
  obtain q' es' where "pq_pushMany prio wt xs q = (q', Inr (length xs))" "pq_rep q' es'"
     "map pe_item es' = sort_key (\<lambda>x. - itemPriority prio wt x) xs" by auto
  then show ?thesis using pq_drain_rep pq_toArray_rep by metis
qed

theorem pq_drains_in_stable_order_witness:
  "case pq_new (JNum (Fin 2)) of
     Inr q \<Rightarrow> (\<exists>q'. pq_pushMany (\<lambda>(p, n). JNum (Fin (of_nat p))) (\<lambda>_. JUndefined)
         [(1, ''a''), (5, ''b''), (1, ''c''), (5, ''d'')] q = (q', Inr 4) \<and>
       pq_drain q' = [(5 :: nat, ''b''), (5, ''d''), (1, ''a''), (1, ''c'')])
   | Inl e \<Rightarrow> False"
proof -
  let ?p = "\<lambda>(p :: nat, n :: string). JNum (Fin (of_nat p))" and ?w = "\<lambda>_ :: nat \<times> string. JUndefined"
  let ?xs = "[(1, ''a''), (5, ''b''), (1, ''c''), (5, ''d'')]"
  obtain q :: "(nat \<times> string) pqueue" where q: "pq_new (JNum (Fin 2)) = Inr q"
    by (simp add: pq_new_def pq_new_arg_def pq_alloc_def Let_def assertLimitRequired_def assertLimit_def
        limit_spec_def new_array_def)
  have "sort_key (\<lambda>x. - itemPriority ?p ?w x) ?xs = [(5, ''b''), (5, ''d''), (1, ''a''), (1, ''c'')]"
    by (simp add: itemPriority_def)
  then show ?thesis using pq_drains_in_stable_order [OF q, of ?xs ?p ?w] q by auto
qed

end
