(* ===== verification/JsMap.thy ===== *)
theory JsMap
  imports JsPrelude
begin

text \<open>
  The insertion-ordered \<open>Map\<close> of JavaScript: an association list with distinct keys.
  \<open>set\<close> on a present key keeps its place, on a new key appends; \<open>delete\<close> keeps the
  order of the rest.  The locale states the laws its clients rely on; the sequencer, the
  deduplication table and the expiring map are such clients.
\<close>

type_synonym ('k, 'v) js_map = "('k \<times> 'v) list"

definition jm_get :: "'k \<Rightarrow> ('k, 'v) js_map \<Rightarrow> 'v option" where
  "jm_get k m = map_of m k"

definition jm_has :: "'k \<Rightarrow> ('k, 'v) js_map \<Rightarrow> bool" where
  "jm_has k m \<longleftrightarrow> k \<in> fst ` set m"

definition jm_keys :: "('k, 'v) js_map \<Rightarrow> 'k list" where
  "jm_keys m = map fst m"

fun jm_set :: "'k \<Rightarrow> 'v \<Rightarrow> ('k, 'v) js_map \<Rightarrow> ('k, 'v) js_map" where
  "jm_set k v [] = [(k, v)]"
| "jm_set k v ((k', v') # m) = (if k = k' then (k, v) # m else (k', v') # jm_set k v m)"

definition jm_delete :: "'k \<Rightarrow> ('k, 'v) js_map \<Rightarrow> ('k, 'v) js_map" where
  "jm_delete k m = filter (\<lambda>p. fst p \<noteq> k) m"

definition jm_ok :: "('k, 'v) js_map \<Rightarrow> bool" where
  "jm_ok m \<longleftrightarrow> distinct (map fst m)"

section \<open>Laws\<close>

locale ordered_map =
  fixes ok :: "'m \<Rightarrow> bool"
    and get :: "'k \<Rightarrow> 'm \<Rightarrow> 'v option"
    and put :: "'k \<Rightarrow> 'v \<Rightarrow> 'm \<Rightarrow> 'm"
    and del :: "'k \<Rightarrow> 'm \<Rightarrow> 'm"
    and keys :: "'m \<Rightarrow> 'k list"
  assumes ok_put: "ok m \<Longrightarrow> ok (put k v m)"
    and ok_del: "ok m \<Longrightarrow> ok (del k m)"
    and ok_keys: "ok m \<Longrightarrow> distinct (keys m)"
    and get_put: "get j (put k v m) = (if j = k then Some v else get j m)"
    and get_del: "get j (del k m) = (if j = k then None else get j m)"
    and get_keys: "get k m = None \<longleftrightarrow> k \<notin> set (keys m)"
    and keys_put: "keys (put k v m) = (if k \<in> set (keys m) then keys m else keys m @ [k])"
    and keys_del: "keys (del k m) = filter (\<lambda>j. j \<noteq> k) (keys m)"
begin

text \<open>Deleting and setting again moves a key to the end: the idiom of every recency list.\<close>

lemma keys_refresh: "keys (put k v (del k m)) = filter (\<lambda>j. j \<noteq> k) (keys m) @ [k]"
  by (simp add: keys_put keys_del)

lemma get_refresh: "get j (put k v (del k m)) = (if j = k then Some v else get j m)"
  by (simp add: get_put get_del)

lemma put_each:
  "get j (fold (\<lambda>(k, v). put k v) xs m) =
     (case map_of (rev xs) j of Some v \<Rightarrow> Some v | None \<Rightarrow> get j m)"
proof (induction xs arbitrary: m)
  case (Cons x xs)
  obtain k v where x: "x = (k, v)" by (cases x)
  show ?case using Cons.IH [of "put k v m"]
    by (auto simp: x get_put map_add_def split: option.splits)
qed simp

lemma ok_put_each: "ok m \<Longrightarrow> ok (fold (\<lambda>(k, v). put k v) xs m)"
  by (induction xs arbitrary: m) (auto simp: ok_put split: prod.splits)

lemma del_each: "get j (fold del ks m) = (if j \<in> set ks then None else get j m)"
  by (induction ks arbitrary: m) (auto simp: get_del)

lemma ok_del_each: "ok m \<Longrightarrow> ok (fold del ks m)"
  by (induction ks arbitrary: m) (auto simp: ok_del)

lemma keys_del_each: "keys (fold del ks m) = filter (\<lambda>j. j \<notin> set ks) (keys m)"
proof (induction ks arbitrary: m)
  case (Cons k ks)
  then show ?case by (auto simp: keys_del intro: filter_cong)
qed simp

end

lemma img_fst: "(k, b) \<in> set m \<Longrightarrow> k \<in> fst ` set m"
  by force

lemma jm_keys_set_eq: "set (jm_keys m) = fst ` set m"
  by (simp add: jm_keys_def)

lemma jm_set_keys:
  "jm_keys (jm_set k v m) = (if k \<in> set (jm_keys m) then jm_keys m else jm_keys m @ [k])"
  by (induction m) (auto simp: jm_keys_def dest: img_fst)

lemma jm_set_get: "jm_get j (jm_set k v m) = (if j = k then Some v else jm_get j m)"
  by (induction m) (auto simp: jm_get_def)

lemma jm_delete_get: "jm_get j (jm_delete k m) = (if j = k then None else jm_get j m)"
  by (induction m) (auto simp: jm_get_def jm_delete_def)

lemma jm_delete_keys: "jm_keys (jm_delete k m) = filter (\<lambda>j. j \<noteq> k) (jm_keys m)"
  by (simp add: jm_keys_def jm_delete_def filter_map comp_def)

lemma jm_get_None: "jm_get k m = None \<longleftrightarrow> k \<notin> set (jm_keys m)"
  by (simp add: jm_get_def jm_keys_def map_of_eq_None_iff)

lemma jm_has_iff: "jm_has k m \<longleftrightarrow> k \<in> set (jm_keys m)"
  by (simp add: jm_has_def jm_keys_def)

lemma jm_has_get: "jm_has k m \<longleftrightarrow> jm_get k m \<noteq> None"
  by (simp add: jm_has_iff jm_get_None)

interpretation js: ordered_map jm_ok jm_get jm_set jm_delete jm_keys
  by unfold_locales
    (auto simp: jm_ok_def jm_set_get jm_delete_get jm_get_None jm_set_keys jm_delete_keys
      simp flip: jm_keys_def)

lemma jm_length_delete:
  "jm_ok m \<Longrightarrow> jm_has k m \<Longrightarrow> Suc (length (jm_delete k m)) = length m"
proof (induction m)
  case (Cons p m)
  then show ?case
    by (cases "fst p = k") (auto simp: jm_ok_def jm_has_def jm_delete_def intro!: arg_cong [where f = length] filter_True intro: rev_image_eqI)
qed (simp add: jm_has_def)

lemma jm_length_set: "length (jm_set k v m) = (if jm_has k m then length m else Suc (length m))"
  by (induction m) (auto simp: jm_has_def dest: img_fst)

lemma jm_set_new: "\<not> jm_has k m \<Longrightarrow> jm_set k v m = m @ [(k, v)]"
  by (induction m) (auto simp: jm_has_def)

lemma jm_length_keys: "length (jm_keys m) = length m"
  by (simp add: jm_keys_def)

end
