(* ===== verification/Sequencer.thy ===== *)
theory Sequencer
  imports Options JsMap
begin

text \<open>
  In-order reassembly (\<open>src/helpers/powerSequencer.js\<close>).  The buffer is the \<open>Map\<close> of
  the payloads that arrived early.  The callbacks are the caller's: whether they are set is
  part of the state, and the calls made to them are logged in order.  An exception of a
  callback is swallowed by the code, so it has no effect here; a callback that calls
  \<open>push\<close> again before it returns is not modelled, nor are the metrics registration and
  the \<open>TypeError\<close> of \<open>new PowerSequencer(null)\<close>.
\<close>

section \<open>State\<close>

record 'p sequencer =
  sq_windowSize :: rat
  sq_startAt :: int
  sq_hasGap :: bool
  sq_hasMessage :: bool
  sq_buffer :: "(int, 'p) js_map"
  sq_next :: int
  sq_disposed :: bool
  sq_delivered :: int
  sq_duplicates :: int
  sq_outOfWindow :: int
  sq_gapsOpened :: int
  sq_messages :: "(int \<times> 'p) list"
  sq_gaps :: "(int \<times> int list) list"

definition is_function :: "js_val \<Rightarrow> bool" where
  "is_function v = (case v of JFun f \<Rightarrow> True | _ \<Rightarrow> False)"

definition sequencer_known :: "string list" where
  "sequencer_known = [''windowSize'', ''startAt'', ''onGap'', ''onMessage'', ''observability'']"

definition sequencer_new :: "js_val \<Rightarrow> 'p sequencer result" where
  "sequencer_new options =
     (let opts = (case options of JNum n \<Rightarrow> JObj [(''windowSize'', options)] | _ \<Rightarrow> options) in
      case assertKnownOptions opts sequencer_known ''PowerSequencer'' of
        Inl e \<Rightarrow> Inl e
      | Inr _ \<Rightarrow>
          (case assertLimitRequired (get_prop ''windowSize'' opts)
                  ((limit_spec ''windowSize'' ''PowerSequencer'')\<lparr>sp_min := 1, sp_fallback := JNum (Fin 64)\<rparr>) of
             Inl e \<Rightarrow> Inl e
           | Inr w \<Rightarrow>
               (case assertLimitRequired (get_prop ''startAt'' opts)
                       ((limit_spec ''startAt'' ''PowerSequencer'')\<lparr>sp_integer := True,
                          sp_fallback := JNum (Fin 0)\<rparr>) of
                  Inl e \<Rightarrow> Inl e
                | Inr st \<Rightarrow>
                    (let start = (case st of Fin r \<Rightarrow> \<lfloor>r\<rfloor> | _ \<Rightarrow> 0) in
                     Inr \<lparr>sq_windowSize = (case w of Fin r \<Rightarrow> r | _ \<Rightarrow> 0), sq_startAt = start,
                       sq_hasGap = is_function (get_prop ''onGap'' opts),
                       sq_hasMessage = is_function (get_prop ''onMessage'' opts),
                       sq_buffer = [], sq_next = start, sq_disposed = False, sq_delivered = 0,
                       sq_duplicates = 0, sq_outOfWindow = 0, sq_gapsOpened = 0,
                       sq_messages = [], sq_gaps = []\<rparr>))))"

section \<open>Operations\<close>

text \<open>\<open>missing()\<close>: the loop leaves at the first absent number.\<close>

function sequencer_missing_from :: "int \<Rightarrow> (int, 'p) js_map \<Rightarrow> int list" where
  "sequencer_missing_from seq buffer =
     (if jm_has seq buffer then sequencer_missing_from (seq + 1) buffer else [seq])"
  by pat_completeness auto
termination
proof (relation "measure (\<lambda>(s, b). card {k \<in> fst ` set b. s \<le> k})")
  fix s :: int and b :: "(int, 'p) js_map"
  assume "jm_has s b"
  then have "s \<in> {k \<in> fst ` set b. s \<le> k}" "s \<notin> {k \<in> fst ` set b. s + 1 \<le> k}"
    "{k \<in> fst ` set b. s + 1 \<le> k} \<subseteq> {k \<in> fst ` set b. s \<le> k}"
    by (auto simp: jm_has_def)
  then have "{k \<in> fst ` set b. s + 1 \<le> k} \<subset> {k \<in> fst ` set b. s \<le> k}" by blast
  then show "((s + 1, b), s, b) \<in> measure (\<lambda>(s, b). card {k \<in> fst ` set b. s \<le> k})"
    by (simp add: psubset_card_mono)
qed auto

declare sequencer_missing_from.simps [simp del]

definition sequencer_missing :: "'p sequencer \<Rightarrow> int list" where
  "sequencer_missing s = sequencer_missing_from (sq_next s) (sq_buffer s)"

lemma jm_delete_shorter: "jm_has k m \<Longrightarrow> length (jm_delete k m) < length m"
  unfolding jm_has_def jm_delete_def by (auto intro!: length_filter_less)

function sequencer_release :: "'p sequencer \<Rightarrow> 'p sequencer" where
  "sequencer_release s =
     (case jm_get (sq_next s) (sq_buffer s) of
        None \<Rightarrow> s
      | Some payload \<Rightarrow>
          sequencer_release
            (s\<lparr>sq_buffer := jm_delete (sq_next s) (sq_buffer s), sq_next := sq_next s + 1,
               sq_delivered := sq_delivered s + 1,
               sq_messages := sq_messages s @ (if sq_hasMessage s then [(sq_next s, payload)] else [])\<rparr>))"
  by pat_completeness auto
termination
  by (relation "measure (\<lambda>s. length (sq_buffer s))")
    (auto intro!: jm_delete_shorter simp: jm_has_get)

declare sequencer_release.simps [simp del]

text \<open>
  The gap report of \<open>push\<close>: only an arrival that opens a gap where there was none counts.
\<close>

definition sequencer_noteGap :: "int \<Rightarrow> bool \<Rightarrow> bool \<Rightarrow> 'p sequencer \<Rightarrow> 'p sequencer" where
  "sequencer_noteGap n wasContiguous hadGap s =
     (let hasGap = (0 < length (sq_buffer s) \<and> \<not> jm_has (sq_next s) (sq_buffer s)) in
      if \<not> wasContiguous \<and> \<not> hadGap \<and> hasGap
      then s\<lparr>sq_gapsOpened := sq_gapsOpened s + 1,
             sq_gaps := sq_gaps s @ (if sq_hasGap s then [(n, sequencer_missing s)] else [])\<rparr>
      else s)"

definition sequencer_push :: "js_val \<Rightarrow> 'p \<Rightarrow> 'p sequencer \<Rightarrow> ('p sequencer, bool) step" where
  "sequencer_push seq payload s =
     (if sq_disposed s then (s, Inr False)
      else case to_number seq of
        Inl e \<Rightarrow> (s, Inl e)
      | Inr num \<Rightarrow>
          if \<not> is_integer num then (s, Inl (BadSequence seq))
          else
            (let n = (case num of Fin r \<Rightarrow> \<lfloor>r\<rfloor> | _ \<Rightarrow> 0) in
             if n < sq_next s then (s\<lparr>sq_duplicates := sq_duplicates s + 1\<rparr>, Inr False)
             else if of_int (sq_next s) + sq_windowSize s \<le> of_int n
               then (s\<lparr>sq_outOfWindow := sq_outOfWindow s + 1\<rparr>, Inr False)
             else if jm_has n (sq_buffer s) then (s\<lparr>sq_duplicates := sq_duplicates s + 1\<rparr>, Inr False)
             else
               (let wasContiguous = (n = sq_next s);
                    hadGap = (0 < length (sq_buffer s) \<and> \<not> jm_has (sq_next s) (sq_buffer s));
                    s1 = sequencer_noteGap n wasContiguous hadGap
                           (s\<lparr>sq_buffer := jm_set n payload (sq_buffer s)\<rparr>)
                in (if wasContiguous then sequencer_release s1 else s1, Inr True))))"

definition sequencer_reset :: "'p sequencer \<Rightarrow> 'p sequencer" where
  "sequencer_reset s =
     s\<lparr>sq_buffer := [], sq_next := sq_startAt s, sq_delivered := 0, sq_duplicates := 0,
       sq_outOfWindow := 0, sq_gapsOpened := 0\<rparr>"

definition sequencer_dispose :: "'p sequencer \<Rightarrow> 'p sequencer" where
  "sequencer_dispose s =
     (if sq_disposed s then s
      else s\<lparr>sq_disposed := True, sq_buffer := [], sq_hasGap := False, sq_hasMessage := False\<rparr>)"

record sequencer_report =
  rp_nextExpected :: int
  rp_buffered :: int
  rp_missing :: int
  rp_delivered :: int
  rp_duplicates :: int
  rp_outOfWindow :: int
  rp_gapsOpened :: int
  rp_windowSize :: rat

definition sequencer_stats :: "'p sequencer \<Rightarrow> sequencer_report" where
  "sequencer_stats s =
     \<lparr>rp_nextExpected = sq_next s, rp_buffered = int (length (sq_buffer s)),
      rp_missing = int (length (sequencer_missing s)), rp_delivered = sq_delivered s,
      rp_duplicates = sq_duplicates s, rp_outOfWindow = sq_outOfWindow s,
      rp_gapsOpened = sq_gapsOpened s, rp_windowSize = sq_windowSize s\<rparr>"

section \<open>Releasing\<close>

text \<open>
  Between two calls the buffer holds only numbers inside the window and not the next one;
  right after a contiguous arrival it also holds the next one.
\<close>

definition in_window :: "'p sequencer \<Rightarrow> bool" where
  "in_window s \<longleftrightarrow> jm_ok (sq_buffer s) \<and> 1 \<le> sq_windowSize s \<and>
     (\<forall>k \<in> set (jm_keys (sq_buffer s)). sq_next s \<le> k \<and> of_int k < of_int (sq_next s) + sq_windowSize s)"

definition sequencer_ok :: "'p sequencer \<Rightarrow> bool" where
  "sequencer_ok s \<longleftrightarrow> in_window s \<and> \<not> jm_has (sq_next s) (sq_buffer s)"

text \<open>What a sequencer holds or has handed out: the payload of each accepted number.\<close>

definition received :: "'p sequencer \<Rightarrow> int \<Rightarrow> 'p option" where
  "received s k = (case map_of (sq_messages s) k of Some p \<Rightarrow> Some p | None \<Rightarrow> jm_get k (sq_buffer s))"

text \<open>The messages handed out are the numbers from \<open>a\<close> up to the next expected one.\<close>

definition delivered_from :: "int \<Rightarrow> 'p sequencer \<Rightarrow> bool" where
  "delivered_from a s \<longleftrightarrow> sq_hasMessage s \<and> a \<le> sq_next s \<and> map fst (sq_messages s) = [a..sq_next s - 1]"

lemma sequencer_release_ok:
  "in_window s \<Longrightarrow> sequencer_ok (sequencer_release s)"
proof (induction s rule: sequencer_release.induct)
  case (1 s)
  show ?case
  proof (cases "jm_get (sq_next s) (sq_buffer s)")
    case None
    then show ?thesis using 1 by (subst sequencer_release.simps) (simp add: sequencer_ok_def jm_has_get)
  next
    case (Some p)
    let ?s = "s\<lparr>sq_buffer := jm_delete (sq_next s) (sq_buffer s), sq_next := sq_next s + 1,
        sq_delivered := sq_delivered s + 1,
        sq_messages := sq_messages s @ (if sq_hasMessage s then [(sq_next s, p)] else [])\<rparr>"
    have "in_window ?s" using 1(2) by (force simp: in_window_def js.ok_del js.keys_del)
    then show ?thesis using "1.IH" [OF Some] Some by (subst sequencer_release.simps) simp
  qed
qed


lemma delivered_from_None:
  "delivered_from a s \<Longrightarrow> sq_next s \<le> k \<Longrightarrow> map_of (sq_messages s) k = None"
  unfolding delivered_from_def map_of_eq_None_iff by (metis atLeastAtMost_iff le_less_trans less_irrefl list.set_map set_upto zle_diff1_eq)

lemma upto_snoc: "a \<le> b \<Longrightarrow> [a..b] = [a..b - 1] @ [b :: int]"
  by (simp add: upto_rec2)

text \<open>What releasing leaves alone, and what it keeps true.\<close>

lemma sequencer_release_frame:
  "sq_windowSize (sequencer_release s) = sq_windowSize s \<and> sq_startAt (sequencer_release s) = sq_startAt s \<and>
   sq_hasMessage (sequencer_release s) = sq_hasMessage s \<and> sq_hasGap (sequencer_release s) = sq_hasGap s \<and>
   sq_disposed (sequencer_release s) = sq_disposed s \<and> sq_next s \<le> sq_next (sequencer_release s) \<and>
   sq_duplicates (sequencer_release s) = sq_duplicates s \<and> sq_outOfWindow (sequencer_release s) = sq_outOfWindow s \<and>
   sq_delivered (sequencer_release s) - sq_next (sequencer_release s) = sq_delivered s - sq_next s"
proof (induction s rule: sequencer_release.induct)
  case (1 s)
  show ?case
  proof (cases "jm_get (sq_next s) (sq_buffer s)")
    case None
    then show ?thesis by (subst (1 2 3 4 5 6 7 8 9 10) sequencer_release.simps) simp
  next
    case (Some p)
    show ?thesis using "1.IH" [OF Some] Some by (subst (1 2 3 4 5 6 7 8 9 10) sequencer_release.simps) simp
  qed
qed

lemma sequencer_release_delivers:
  "delivered_from a s \<Longrightarrow> delivered_from a (sequencer_release s) \<and>
     (\<forall>k. received (sequencer_release s) k = received s k)"
proof (induction s rule: sequencer_release.induct)
  case (1 s)
  show ?case
  proof (cases "jm_get (sq_next s) (sq_buffer s)")
    case None
    then show ?thesis using 1(2) by (subst (1 2) sequencer_release.simps) simp
  next
    case (Some p)
    let ?s = "s\<lparr>sq_buffer := jm_delete (sq_next s) (sq_buffer s), sq_next := sq_next s + 1,
        sq_delivered := sq_delivered s + 1,
        sq_messages := sq_messages s @ (if sq_hasMessage s then [(sq_next s, p)] else [])\<rparr>"
    have d: "delivered_from a ?s" using 1(2) upto_snoc [of a "sq_next s"] by (simp add: delivered_from_def)
    have "received ?s k = received s k" for k
      using 1(2) Some delivered_from_None [OF 1(2), of k]
      by (auto simp: received_def delivered_from_def js.get_del map_add_def split: option.splits)
    then show ?thesis using "1.IH" [OF Some d] Some by (subst (1 2) sequencer_release.simps) simp
  qed
qed

section \<open>Pushing\<close>

definition seq_accepts :: "int \<Rightarrow> 'p sequencer \<Rightarrow> bool" where
  "seq_accepts n s \<longleftrightarrow> \<not> sq_disposed s \<and> sq_next s \<le> n \<and>
     of_int n < of_int (sq_next s) + sq_windowSize s \<and> \<not> jm_has n (sq_buffer s)"

lemma sequencer_push_refused:
  assumes "to_number v = Inr (Fin (of_int n))" "\<not> seq_accepts n s"
  shows "\<exists>d w. sequencer_push v p s = (s\<lparr>sq_duplicates := d, sq_outOfWindow := w\<rparr>, Inr False)"
proof -
  have dup: "s\<lparr>sq_duplicates := d\<rparr> = s\<lparr>sq_duplicates := d, sq_outOfWindow := sq_outOfWindow s\<rparr>"
    and out: "s\<lparr>sq_outOfWindow := w\<rparr> = s\<lparr>sq_duplicates := sq_duplicates s, sq_outOfWindow := w\<rparr>"
    and id: "s = s\<lparr>sq_duplicates := sq_duplicates s, sq_outOfWindow := sq_outOfWindow s\<rparr>" for d w
    by simp_all
  consider "sq_disposed s" | "\<not> sq_disposed s" "n < sq_next s"
    | "\<not> sq_disposed s" "\<not> n < sq_next s" "of_int (sq_next s) + sq_windowSize s \<le> of_int n"
    | "\<not> sq_disposed s" "\<not> n < sq_next s" "\<not> of_int (sq_next s) + sq_windowSize s \<le> of_int n"
      "jm_has n (sq_buffer s)"
    using assms(2) unfolding seq_accepts_def by (meson not_le)
  then show ?thesis
  proof cases
    case 1
    then have "sequencer_push v p s = (s, Inr False)" by (simp add: sequencer_push_def)
    then show ?thesis using id by metis
  next
    case 3
    then have "sequencer_push v p s = (s\<lparr>sq_outOfWindow := sq_outOfWindow s + 1\<rparr>, Inr False)"
      using assms(1) by (simp add: sequencer_push_def)
    then show ?thesis using out by metis
  next
    case 2
    then have "sequencer_push v p s = (s\<lparr>sq_duplicates := sq_duplicates s + 1\<rparr>, Inr False)"
      using assms(1) by (simp add: sequencer_push_def)
    then show ?thesis using dup by metis
  next
    case 4
    then have "sequencer_push v p s = (s\<lparr>sq_duplicates := sq_duplicates s + 1\<rparr>, Inr False)"
      using assms(1) by (simp add: sequencer_push_def)
    then show ?thesis using dup by metis
  qed
qed

lemma sequencer_noteGap_frame:
  "\<exists>c g. sequencer_noteGap n wc hg s = s\<lparr>sq_gapsOpened := c, sq_gaps := g\<rparr>"
proof -
  have "s = s\<lparr>sq_gapsOpened := sq_gapsOpened s, sq_gaps := sq_gaps s\<rparr>" by simp
  then show ?thesis unfolding sequencer_noteGap_def Let_def by metis
qed

lemma sequencer_push_accepted:
  assumes v: "to_number v = Inr (Fin (of_int n))" and acc: "seq_accepts n s" and ok: "sequencer_ok s"
    and d: "delivered_from a s"
  shows "\<exists>s'. sequencer_push v p s = (s', Inr True) \<and> sequencer_ok s' \<and> delivered_from a s' \<and>
     (\<forall>k. received s' k = (if k = n then Some p else received s k)) \<and>
     sq_windowSize s' = sq_windowSize s \<and> sq_disposed s' = sq_disposed s \<and> sq_startAt s' = sq_startAt s \<and>
     sq_delivered s' - sq_next s' = sq_delivered s - sq_next s \<and>
     sq_next s' = (if n = sq_next s then sq_next s' else sq_next s)"
proof -
  let ?s1 = "s\<lparr>sq_buffer := jm_set n p (sq_buffer s)\<rparr>"
  have not_in: "\<not> jm_has n (sq_buffer s)" "sq_next s \<le> n" "\<not> sq_disposed s"
    "of_int n < of_int (sq_next s) + sq_windowSize s" using acc by (auto simp: seq_accepts_def)
  obtain c g where gap: "sequencer_noteGap n (n = sq_next s)
      (0 < length (sq_buffer s) \<and> \<not> jm_has (sq_next s) (sq_buffer s)) ?s1 = ?s1\<lparr>sq_gapsOpened := c, sq_gaps := g\<rparr>"
    using sequencer_noteGap_frame by blast
  have push: "sequencer_push v p s =
      ((let s2 = ?s1\<lparr>sq_gapsOpened := c, sq_gaps := g\<rparr> in if n = sq_next s then sequencer_release s2 else s2), Inr True)"
    using v not_in unfolding gap [symmetric] by (simp add: sequencer_push_def Let_def)
  let ?s2 = "?s1\<lparr>sq_gapsOpened := c, sq_gaps := g\<rparr>"
  have w2: "in_window ?s2"
    using ok not_in by (auto simp: sequencer_ok_def in_window_def js.ok_put js.keys_put jm_has_iff)
  have d2: "delivered_from a ?s2" using d by (simp add: delivered_from_def)
  have r2: "received ?s2 k = (if k = n then Some p else received s k)" for k
    using delivered_from_None [OF d not_in(2)] by (auto simp: received_def js.get_put split: option.splits)
  show ?thesis
  proof (cases "n = sq_next s")
    case True
    then show ?thesis
      using push sequencer_release_ok [OF w2] sequencer_release_delivers [OF d2] r2
        sequencer_release_frame [of ?s2] by (simp add: Let_def)
  next
    case False
    have "sequencer_ok ?s2"
      using w2 ok False by (simp add: sequencer_ok_def jm_has_iff js.keys_put)
    then show ?thesis using False push d2 r2 by (simp add: Let_def)
  qed
qed


section \<open>Runs\<close>

definition sequencer_run :: "(js_val \<times> 'p) list \<Rightarrow> 'p sequencer \<Rightarrow> 'p sequencer" where
  "sequencer_run xs s = fold (\<lambda>(v, p) s. fst (sequencer_push v p s)) xs s"

text \<open>A sequencer with an \<open>onMessage\<close> callback that has delivered everything from \<open>a\<close> on.\<close>

definition sequencer_live :: "int \<Rightarrow> 'p sequencer \<Rightarrow> bool" where
  "sequencer_live a s \<longleftrightarrow> sequencer_ok s \<and> delivered_from a s \<and> \<not> sq_disposed s \<and>
     sq_delivered s - sq_next s = - a \<and> sq_startAt s = a"

lemma sequencer_new_live:
  assumes "sequencer_new options = Inr s" "sq_hasMessage s"
  shows "sequencer_live (sq_startAt s) s \<and> (\<forall>k. received s k = None) \<and> sq_next s = sq_startAt s"
proof -
  obtain opts w st where w: "assertLimitRequired (get_prop ''windowSize'' opts)
       ((limit_spec ''windowSize'' ''PowerSequencer'')\<lparr>sp_min := 1, sp_fallback := JNum (Fin 64)\<rparr>) = Inr w"
    and s: "sq_windowSize s = (case w of Fin r \<Rightarrow> r | _ \<Rightarrow> 0)" "sq_startAt s = st" "sq_next s = st"
      "sq_buffer s = []" "\<not> sq_disposed s" "sq_delivered s = 0" "sq_messages s = []"
    using assms(1) unfolding sequencer_new_def Let_def by (auto split: sum.splits)
  have "1 \<le> sq_windowSize s"
    using assertLimitRequired_cases [OF w] s(1) by (auto simp: limit_spec_def)
  then show ?thesis using s assms(2)
    by (auto simp: sequencer_live_def sequencer_ok_def in_window_def delivered_from_def received_def
        jm_ok_def jm_keys_def jm_has_def jm_get_def)
qed

lemma to_number_integer:
  assumes "to_number v = Inr num" "is_integer num"
  shows "to_number v = Inr (Fin (of_int (case num of Fin r \<Rightarrow> \<lfloor>r\<rfloor> | _ \<Rightarrow> 0)))"
  using assms by (cases num) auto

lemma sequencer_push_not_number:
  "\<not> (\<exists>n. to_number v = Inr (Fin (of_int n))) \<Longrightarrow> fst (sequencer_push v p s) = s"
  using to_number_integer [of v] by (auto simp: sequencer_push_def split: sum.splits)

text \<open>One push, whatever is pushed: refused without effect on the stream, or recorded.\<close>

lemma sequencer_push_cases:
  assumes live: "sequencer_live a s"
  shows "sequencer_live a (fst (sequencer_push v p s)) \<and>
     sq_windowSize (fst (sequencer_push v p s)) = sq_windowSize s \<and>
     ((\<forall>k. received (fst (sequencer_push v p s)) k = received s k) \<or>
      (\<exists>n. to_number v = Inr (Fin (of_int n)) \<and> seq_accepts n s \<and>
        (\<forall>k. received (fst (sequencer_push v p s)) k = (if k = n then Some p else received s k))))"
proof (cases "\<exists>n. to_number v = Inr (Fin (of_int n))")
  case False
  then show ?thesis using live sequencer_push_not_number [OF False, of p s] by simp
next
  case True
  then obtain n where n: "to_number v = Inr (Fin (of_int n))" by blast
  show ?thesis
  proof (cases "seq_accepts n s")
    case True
    then show ?thesis
      using sequencer_push_accepted [OF n True, of a p] live n by (auto simp: sequencer_live_def)
  next
    case False
    obtain d w where "sequencer_push v p s = (s\<lparr>sq_duplicates := d, sq_outOfWindow := w\<rparr>, Inr False)"
      using sequencer_push_refused [OF n False] by blast
    moreover have "received (s\<lparr>sq_duplicates := d, sq_outOfWindow := w\<rparr>) k = received s k" for k
      by (simp add: received_def split: option.split)
    ultimately show ?thesis using live
      by (simp add: sequencer_live_def sequencer_ok_def in_window_def delivered_from_def)
  qed
qed

lemma sequencer_run_live:
  "sequencer_live a s \<Longrightarrow> sequencer_live a (sequencer_run xs s) \<and>
     (\<forall>k p. received (sequencer_run xs s) k = Some p \<longrightarrow> received s k = Some p \<or>
        (\<exists>v. (v, p) \<in> set xs \<and> to_number v = Inr (Fin (of_int k))))"
proof (induction xs arbitrary: s)
  case (Cons x xs)
  obtain v p where x: "x = (v, p)" by (cases x)
  let ?s = "fst (sequencer_push v p s)"
  note one = sequencer_push_cases [OF Cons.prems, of v p]
  have run: "sequencer_run (x # xs) s = sequencer_run xs ?s" by (simp add: sequencer_run_def x)
  have IH: "sequencer_live a (sequencer_run xs ?s)"
     "\<And>k q. received (sequencer_run xs ?s) k = Some q \<Longrightarrow> received ?s k = Some q \<or>
        (\<exists>v. (v, q) \<in> set xs \<and> to_number v = Inr (Fin (of_int k)))"
    using Cons.IH [of ?s] one by blast+
  have step: "received s k = Some q \<or> (q = p \<and> to_number v = Inr (Fin (of_int k)))"
    if "received ?s k = Some q" for k q
  proof -
    from one consider "received ?s k = received s k"
      | n where "to_number v = Inr (Fin (of_int n))" "received ?s k = (if k = n then Some p else received s k)"
      by blast
    then show ?thesis using that by cases (auto split: if_splits)
  qed
  have "received s k = Some q \<or> (\<exists>v. (v, q) \<in> set (x # xs) \<and> to_number v = Inr (Fin (of_int k)))"
    if "received (sequencer_run xs ?s) k = Some q" for k q
    using IH(2) [OF that] step [of k q] x by auto
  then show ?case using IH(1) unfolding run by blast
qed (simp add: sequencer_run_def)

lemma delivered_received:
  assumes "delivered_from a s" "(k, p) \<in> set (sq_messages s)"
  shows "received s k = Some p"
proof -
  have "distinct (map fst (sq_messages s))" using assms(1) by (simp add: delivered_from_def)
  then show ?thesis using assms(2) by (simp add: received_def)
qed

text \<open>
  C6. In order, exactly once.  Whatever is pushed on a new sequencer, in any order and with
  any repetitions and losses, \<open>onMessage\<close> is called with consecutive numbers starting at
  \<open>startAt\<close>, none skipped and none repeated, each with a payload pushed under that number;
  \<open>delivered\<close> counts them, and the messages held back all lie inside the window behind the
  next expected number.
\<close>

theorem sequencer_delivers_in_order:
  assumes "sequencer_new options = Inr s0" "sq_hasMessage s0" and s: "s = sequencer_run xs s0"
  shows "map fst (sq_messages s) = [sq_startAt s0..sq_next s - 1] \<and>
    (\<forall>(k, p) \<in> set (sq_messages s). \<exists>v. (v, p) \<in> set xs \<and> to_number v = Inr (Fin (of_int k))) \<and>
    sq_delivered s = int (length (sq_messages s)) \<and>
    (\<forall>k \<in> set (jm_keys (sq_buffer s)). sq_next s < k \<and> of_int k < of_int (sq_next s) + sq_windowSize s)"
proof -
  note new = sequencer_new_live [OF assms(1,2)]
  have live: "sequencer_live (sq_startAt s0) s"
    and rec: "\<And>k p. received s k = Some p \<Longrightarrow> \<exists>v. (v, p) \<in> set xs \<and> to_number v = Inr (Fin (of_int k))"
    unfolding s using sequencer_run_live [of "sq_startAt s0" s0 xs] new by auto
  have d: "delivered_from (sq_startAt s0) s" using live by (simp add: sequencer_live_def)
  have keys: "map fst (sq_messages s) = [sq_startAt s0..sq_next s - 1]" "sq_startAt s0 \<le> sq_next s"
    using d by (simp_all add: delivered_from_def)
  have "length (sq_messages s) = nat (sq_next s - sq_startAt s0)"
    using arg_cong [OF keys(1), of length] by simp
  then have cnt: "sq_delivered s = int (length (sq_messages s))"
    using live keys(2) by (simp add: sequencer_live_def)
  have "sq_next s < k \<and> of_int k < of_int (sq_next s) + sq_windowSize s" if "k \<in> set (jm_keys (sq_buffer s))" for k
    using live that by (force simp: sequencer_live_def sequencer_ok_def in_window_def jm_has_iff order_le_less)
  then show ?thesis using keys(1) cnt rec delivered_received [OF d] by blast
qed


theorem sequencer_delivers_in_order_witness:
  "case sequencer_new (JObj [(''startAt'', JNum (Fin 5)), (''onMessage'', JFun 1)]) of
     Inr s0 \<Rightarrow>
       (let s = sequencer_run [(JNum (Fin 7), ''c''), (JNum (Fin 5), ''a''), (JNum (Fin 5), ''x''),
                  (JStr ''6'', ''b''), (JNum (Fin 9), ''e'')] s0
        in sq_messages s = [(5, ''a''), (6, ''b''), (7, ''c'')] \<and> sq_next s = 8 \<and>
           map fst (sq_messages s) = [sq_startAt s0..sq_next s - 1])
   | Inl e \<Rightarrow> False"
proof -
  let ?xs = "[(JNum (Fin 7), ''c''), (JNum (Fin 5), ''a''), (JNum (Fin 5), ''x''),
                  (JStr ''6'', ''b''), (JNum (Fin 9), ''e'')]"
  have "case sequencer_new (JObj [(''startAt'', JNum (Fin 5)), (''onMessage'', JFun 1)]) of
      Inr s0 \<Rightarrow> sq_hasMessage s0 \<and>
        (let s = sequencer_run ?xs s0 in sq_messages s = [(5, ''a''), (6, ''b''), (7, ''c'')] \<and> sq_next s = 8)
    | Inl e \<Rightarrow> False" by code_simp
  then obtain s0 where s0: "sequencer_new (JObj [(''startAt'', JNum (Fin 5)), (''onMessage'', JFun 1)]) = Inr s0"
      "sq_hasMessage s0" "sq_messages (sequencer_run ?xs s0) = [(5, ''a''), (6, ''b''), (7, ''c'')]"
      "sq_next (sequencer_run ?xs s0) = 8"
    by (auto simp: Let_def split: sum.splits)
  show ?thesis using sequencer_delivers_in_order [OF s0(1,2) refl, of ?xs] s0 by (simp add: Let_def)
qed

lemma sequencer_run_block:
  assumes live: "sequencer_live a s" and m: "of_int m \<le> sq_windowSize s"
    and ks: "\<forall>k. received s k \<noteq> None \<longrightarrow> a \<le> k \<and> k < a + m"
    and new: "distinct (map fst xs)" "\<forall>k \<in> fst ` set xs. a \<le> k \<and> k < a + m \<and> received s k = None"
  shows "sequencer_live a (sequencer_run (map (\<lambda>(k, p). (JNum (Fin (of_int k)), p)) xs) s) \<and>
    (\<forall>k. received (sequencer_run (map (\<lambda>(k, p). (JNum (Fin (of_int k)), p)) xs) s) k =
      (case map_of xs k of Some p \<Rightarrow> Some p | None \<Rightarrow> received s k))"
  using assms
proof (induction xs arbitrary: s)
  case (Cons x xs)
  obtain n p where x: "x = (n, p)" by (cases x)
  have n: "a \<le> n" "n < a + m" "received s n = None" using Cons.prems(5) x by auto
  have d: "delivered_from a s" and ok: "sequencer_ok s" "\<not> sq_disposed s"
    using Cons.prems(1) by (simp_all add: sequencer_live_def)
  have nx: "sq_next s \<le> n"
  proof (rule ccontr)
    assume "\<not> sq_next s \<le> n"
    then have "n \<in> set (map fst (sq_messages s))" using d n(1) by (simp add: delivered_from_def)
    then obtain q where "(n, q) \<in> set (sq_messages s)" by auto
    then show False using delivered_received [OF d] n(3) by simp
  qed
  have "a \<le> sq_next s" using d by (simp add: delivered_from_def)
  then have "n < sq_next s + m" using n(2) by linarith
  then have "rat_of_int n < of_int (sq_next s) + of_int m"
    by (simp flip: of_int_add)
  moreover have "\<not> jm_has n (sq_buffer s)"
    using n(3) delivered_from_None [OF d nx] by (simp add: received_def jm_has_get)
  ultimately have acc: "seq_accepts n s" using nx ok Cons.prems(2) by (simp add: seq_accepts_def)
  have v: "to_number (JNum (Fin (of_int n))) = Inr (Fin (of_int n))" by simp
  let ?s = "fst (sequencer_push (JNum (Fin (of_int n))) p s)"
  have one: "sequencer_live a ?s" "sq_windowSize ?s = sq_windowSize s"
      "\<And>k. received ?s k = (if k = n then Some p else received s k)"
    using sequencer_push_accepted [OF v acc ok(1) d, of p] Cons.prems(1) by (auto simp: sequencer_live_def)
  let ?f = "\<lambda>xs. map (\<lambda>(k, p). (JNum (Fin (rat_of_int k)), p)) xs"
  have "sequencer_live a (sequencer_run (?f xs) ?s) \<and>
    (\<forall>k. received (sequencer_run (?f xs) ?s) k = (case map_of xs k of Some p \<Rightarrow> Some p | None \<Rightarrow> received ?s k))"
    using Cons.prems(2-5) n one x by (intro Cons.IH) auto
  moreover have "map_of xs n = None" using Cons.prems(4) x by (simp add: map_of_eq_None_iff)
  ultimately show ?case using one(3) by (auto simp: sequencer_run_def x split: option.splits)
qed (simp add: sequencer_run_def)

text \<open>Once exactly the block \<open>a .. a + m - 1\<close> has been received, the whole block is delivered and the buffer is empty.\<close>

lemma block_received_next:
  assumes d: "delivered_from a s" and ok: "sequencer_ok s" and rec: "\<And>k. received s k \<noteq> None \<longleftrightarrow> a \<le> k \<and> k < a + m"
  shows "a + m \<le> sq_next s" "[a..sq_next s - 1] = [a..a + m - 1]"
proof -
  have keys: "map fst (sq_messages s) = [a..sq_next s - 1]" "a \<le> sq_next s"
    using d by (simp_all add: delivered_from_def)
  have "\<not> jm_has (sq_next s) (sq_buffer s)" using ok by (simp add: sequencer_ok_def)
  then have "received s (sq_next s) = None"
    using delivered_from_None [OF d order_refl] by (simp add: received_def jm_has_get)
  then show ge: "a + m \<le> sq_next s" using rec [of "sq_next s"] keys(2) by auto
  have le: "sq_next s \<le> a + m \<or> sq_next s \<le> a"
  proof (rule ccontr)
    assume c: "\<not> ?thesis"
    then have "sq_next s - 1 \<in> set (map fst (sq_messages s))" using keys by simp
    then obtain p where "(sq_next s - 1, p) \<in> set (sq_messages s)" by auto
    then show False using delivered_received [OF d, of "sq_next s - 1" p] rec [of "sq_next s - 1"] c by simp
  qed
  show "[a..sq_next s - 1] = [a..a + m - 1]"
    using le ge keys(2) by (cases "sq_next s = a + m") simp_all
qed

lemma block_received_buffer:
  assumes d: "delivered_from a s" and ok: "sequencer_ok s" and rec: "\<And>k. received s k \<noteq> None \<longleftrightarrow> a \<le> k \<and> k < a + m"
  shows "sq_buffer s = []"
proof -
  have "jm_keys (sq_buffer s) = []"
  proof (rule ccontr)
    assume "jm_keys (sq_buffer s) \<noteq> []"
    then obtain k where k: "k \<in> set (jm_keys (sq_buffer s))" by (metis last_in_set)
    then have nx: "sq_next s \<le> k" using ok by (auto simp: sequencer_ok_def in_window_def)
    then have "received s k \<noteq> None"
      using k delivered_from_None [OF d nx] js.get_keys [of k "sq_buffer s"] by (simp add: received_def)
    then show False using rec [of k] nx block_received_next(1) [OF d ok rec] by simp
  qed
  then show ?thesis by (simp add: jm_keys_def)
qed

text \<open>
  C7. Reassembly is complete within the window: the numbers of a block no longer than
  \<open>windowSize\<close> may arrive in any order, and every message of the block is delivered, in
  order, with nothing left in the buffer.
\<close>

theorem sequencer_reassembles_block:
  assumes "sequencer_new options = Inr s0" "sq_hasMessage s0" "of_int m \<le> sq_windowSize s0"
    and "distinct (map fst xs)" "fst ` set xs = {sq_startAt s0..<sq_startAt s0 + m}"
    and s: "s = sequencer_run (map (\<lambda>(k, p). (JNum (Fin (of_int k)), p)) xs) s0"
  shows "sq_messages s = map (\<lambda>k. (k, the (map_of xs k))) [sq_startAt s0..sq_startAt s0 + m - 1] \<and>
    sq_buffer s = []"
proof -
  let ?a = "sq_startAt s0"
  note new = sequencer_new_live [OF assms(1,2)]
  have "sequencer_live ?a s \<and> (\<forall>k. received s k = (case map_of xs k of Some p \<Rightarrow> Some p | None \<Rightarrow> received s0 k))"
    unfolding s by (rule sequencer_run_block) (use new assms(3-5) in auto)
  then have live: "sequencer_live ?a s" and rec: "received s k = map_of xs k" for k
    using new by (auto split: option.split)
  then have d: "delivered_from ?a s" and ok: "sequencer_ok s" by (simp_all add: sequencer_live_def)
  have dom: "received s k \<noteq> None \<longleftrightarrow> ?a \<le> k \<and> k < ?a + m" for k
    using assms(5) map_of_eq_None_iff [of xs k] rec by auto
  have "map_of xs k = Some p" if "(k, p) \<in> set (sq_messages s)" for k p
    using delivered_received [OF d that] rec by simp
  then have "sq_messages s = map (\<lambda>k. (k, the (map_of xs k))) (map fst (sq_messages s))"
    by (intro nth_equalityI) (auto simp: in_set_conv_nth, metis nth_mem option.sel prod.collapse)
  moreover have "map fst (sq_messages s) = [?a..?a + m - 1]"
    using d block_received_next(2) [OF d ok dom] by (simp add: delivered_from_def)
  ultimately show ?thesis using block_received_buffer [OF d ok dom] by metis
qed

theorem sequencer_reassembles_block_witness:
  "case sequencer_new (JObj [(''windowSize'', JNum (Fin 3)), (''onMessage'', JFun 1)]) of
     Inr s0 \<Rightarrow> sq_messages (sequencer_run [(JNum (Fin 2), ''c''), (JNum (Fin 1), ''b''), (JNum (Fin 0), ''a'')] s0)
       = [(0, ''a''), (1, ''b''), (2, ''c'')]
   | Inl e \<Rightarrow> False"
proof -
  let ?xs = "[(2, ''c''), (1, ''b''), (0 :: int, ''a'')]"
  have "case sequencer_new (JObj [(''windowSize'', JNum (Fin 3)), (''onMessage'', JFun 1)]) of
      Inr (s0 :: string sequencer) \<Rightarrow> sq_hasMessage s0 \<and> sq_startAt s0 = 0 \<and> sq_windowSize s0 = 3 | Inl e \<Rightarrow> False"
    by code_simp
  then obtain s0 :: "string sequencer" where s0: "sequencer_new (JObj [(''windowSize'', JNum (Fin 3)), (''onMessage'', JFun 1)]) = Inr s0"
      "sq_hasMessage s0" "sq_startAt s0 = 0" "sq_windowSize s0 = 3"
    by (auto split: sum.splits)
  have u: "[0..2 :: int] = [0, 1, 2]" by code_simp
  have e: "{0..<3 :: int} = {0, 1, 2}" by auto
  have "sq_messages (sequencer_run (map (\<lambda>(k, p). (JNum (Fin (of_int k)), p)) ?xs) s0) =
      map (\<lambda>k. (k, the (map_of ?xs k))) [sq_startAt s0..sq_startAt s0 + 3 - 1]"
    by (rule conjunct1 [OF sequencer_reassembles_block [OF s0(1,2) _ _ _ refl]])
      (use s0(3,4) e in auto)
  then show ?thesis using s0(1,3) u by simp
qed


text \<open>
  \<open>missing()\<close> names only the head of the gap.  After any pushes it is the next expected
  number and nothing else, however many numbers are being waited on: with 5 buffered and
  nothing delivered, the numbers 0 to 4 are all absent, \<open>missing()\<close> lists 0 alone and
  \<open>stats().missing\<close> is 1.
\<close>

theorem sequencer_missing_only_next:
  assumes "sequencer_new options = Inr s0" "sq_hasMessage s0" and s: "s = sequencer_run xs s0"
  shows "sequencer_missing s = [sq_next s] \<and> rp_missing (sequencer_stats s) = 1 \<and>
    (case sequencer_new (JObj [(''onMessage'', JFun 1)]) of
       Inr t0 \<Rightarrow> (let t = sequencer_run [(JNum (Fin 5), ''f'')] t0 in
         sequencer_missing t = [0] \<and> jm_keys (sq_buffer t) = [5] \<and> sq_messages t = [])
     | Inl e \<Rightarrow> False)"
proof -
  have "sequencer_live (sq_startAt s0) s"
    unfolding s using sequencer_run_live [of "sq_startAt s0" s0 xs] sequencer_new_live [OF assms(1,2)] by simp
  then have "\<not> jm_has (sq_next s) (sq_buffer s)" by (simp add: sequencer_live_def sequencer_ok_def)
  then have "sequencer_missing s = [sq_next s]"
    unfolding sequencer_missing_def by (subst sequencer_missing_from.simps) simp
  moreover have "case sequencer_new (JObj [(''onMessage'', JFun 1)]) of
       Inr t0 \<Rightarrow> (let t = sequencer_run [(JNum (Fin 5), ''f'')] t0 in
         sequencer_missing t = [0] \<and> jm_keys (sq_buffer t) = [5] \<and> sq_messages t = [])
     | Inl e \<Rightarrow> False" by code_simp
  ultimately show ?thesis by (simp add: sequencer_stats_def)
qed

theorem sequencer_missing_only_next_witness:
  "case sequencer_new (JObj [(''startAt'', JNum (Fin 2)), (''onMessage'', JFun 1)]) of
     Inr s0 \<Rightarrow> sequencer_missing (sequencer_run [(JNum (Fin 4), ''x'')] s0) = [2]
   | Inl e \<Rightarrow> False"
proof -
  have "case sequencer_new (JObj [(''startAt'', JNum (Fin 2)), (''onMessage'', JFun 1)]) of
      Inr s0 \<Rightarrow> sq_hasMessage s0 \<and> sq_next (sequencer_run [(JNum (Fin 4), ''x'')] s0) = 2 | Inl e \<Rightarrow> False"
    by code_simp
  then obtain s0 where "sequencer_new (JObj [(''startAt'', JNum (Fin 2)), (''onMessage'', JFun 1)]) = Inr s0"
      "sq_hasMessage s0" "sq_next (sequencer_run [(JNum (Fin 4), ''x'')] s0) = 2"
    by (auto split: sum.splits)
  then show ?thesis using sequencer_missing_only_next [of _ s0 _ "[(JNum (Fin 4), ''x'')]"] by simp
qed

end
