(* ===== verification/LimiterClock.thy ===== *)
theory LimiterClock
  imports Options
begin

text \<open>
  What the rate limiters share: the choice of the clock of a call and the check of an
  injected one (\<open>src/utils/limiterClock.js\<close>), options destructured with a default, and the
  contract under which a limiter bounds the rate of what it admits.
\<close>

section \<open>The clock of a call\<close>

text \<open>
  \<open>resolveLimiterNow\<close>: an injected clock wins over the per-call value.  \<open>reading\<close> is what
  the limiter's own clock returns.
\<close>

definition resolveLimiterNow :: "rat \<Rightarrow> bool \<Rightarrow> rat option \<Rightarrow> rat" where
  "resolveLimiterNow reading injectedExplicitly perCall =
     (if injectedExplicitly then reading
      else case perCall of Some t \<Rightarrow> t | None \<Rightarrow> reading)"

text \<open>\<open>attachLimiterClock\<close>: whether a clock was injected; anything but a function throws.\<close>

definition attachLimiterClock :: "js_val \<Rightarrow> string \<Rightarrow> bool result" where
  "attachLimiterClock now cls =
     (case now of
        JUndefined \<Rightarrow> Inr False
      | JFun f \<Rightarrow> Inr True
      | _ \<Rightarrow> Inl (NotAFunction cls ''now''))"

definition MS_PER_SEC :: rat where
  "MS_PER_SEC = 1000"

definition num_rat :: "js_num \<Rightarrow> rat" where
  "num_rat n = (case n of Fin r \<Rightarrow> r | _ \<Rightarrow> 0)"

text \<open>An option destructured with a default: only \<open>undefined\<close> takes it.\<close>

definition default_to :: "js_val \<Rightarrow> js_val \<Rightarrow> js_val" where
  "default_to d v = (if v = JUndefined then d else v)"

section \<open>The contract of a rate limiter\<close>

text \<open>The state after a list of calls, each a count and a time, and the units they were granted.\<close>

fun limiter_run :: "(rat \<Rightarrow> nat \<Rightarrow> 's \<Rightarrow> 's \<times> bool) \<Rightarrow> (nat \<times> rat) list \<Rightarrow> 's \<Rightarrow> 's \<times> nat" where
  "limiter_run take_units [] s = (s, 0)"
| "limiter_run take_units ((n, t) # calls) s =
     (let (s1, granted) = take_units t n s; (s2, k) = limiter_run take_units calls s1
      in (s2, (if granted then n else 0) + k))"

lemma limiter_run_append:
  "limiter_run take_units (xs @ ys) s =
     (let (s1, j) = limiter_run take_units xs s; (s2, k) = limiter_run take_units ys s1 in (s2, j + k))"
proof (induction xs arbitrary: s)
  case (Cons x xs)
  obtain n t where "x = (n, t)" by (cases x)
  then show ?case using Cons.IH by (simp add: case_prod_unfold Let_def)
qed (simp add: case_prod_unfold)

text \<open>
  A limiter seen by its clients: \<open>take t n s\<close> asks for \<open>n\<close> units at time \<open>t\<close>, \<open>level s t\<close>
  is what could be spent at \<open>t\<close>, fractions included, and \<open>speed\<close> the units earned per
  millisecond.  Under these laws the units admitted in any stretch of calls are bounded by
  the burst and the time the stretch lasts.
\<close>

locale rate_limiter =
  fixes ok :: "'s \<Rightarrow> rat \<Rightarrow> bool"
    and take_units :: "rat \<Rightarrow> nat \<Rightarrow> 's \<Rightarrow> 's \<times> bool"
    and level :: "'s \<Rightarrow> rat \<Rightarrow> rat"
    and speed :: "'s \<Rightarrow> rat"
    and burst :: "'s \<Rightarrow> rat"
  assumes ok_take: "ok s t \<Longrightarrow> t \<le> u \<Longrightarrow> ok (fst (take_units u n s)) u"
    and ok_later: "ok s t \<Longrightarrow> t \<le> u \<Longrightarrow> ok s u"
    and speed_take: "speed (fst (take_units u n s)) = speed s"
    and burst_take: "burst (fst (take_units u n s)) = burst s"
    and speed_nonneg: "ok s t \<Longrightarrow> 0 \<le> speed s"
    and level_grows: "ok s t \<Longrightarrow> t \<le> u \<Longrightarrow> level s u \<le> level s t + speed s * (u - t)"
    and level_burst: "ok s t \<Longrightarrow> level s t \<le> burst s"
    and level_taken: "ok s t \<Longrightarrow> t \<le> u \<Longrightarrow> snd (take_units u n s) \<Longrightarrow>
        rat_of_nat n \<le> max 0 (level s u) \<and> level (fst (take_units u n s)) u = level s u - rat_of_nat n"
    and level_refused: "ok s t \<Longrightarrow> t \<le> u \<Longrightarrow> \<not> snd (take_units u n s) \<Longrightarrow>
        level (fst (take_units u n s)) u = level s u"
begin

lemma run_ok:
  "ok s t \<Longrightarrow> sorted (t # map snd calls) \<Longrightarrow> ok (fst (limiter_run take_units calls s)) (last (t # map snd calls)) \<and>
     speed (fst (limiter_run take_units calls s)) = speed s \<and> burst (fst (limiter_run take_units calls s)) = burst s"
proof (induction calls arbitrary: s t)
  case (Cons call calls)
  obtain n u where call: "call = (n, u)" by (cases call)
  have "ok (fst (take_units u n s)) u" using ok_take [OF Cons.prems(1)] Cons.prems(2) call by simp
  from Cons.IH [OF this] Cons.prems(2) show ?case
    by (simp add: call case_prod_unfold Let_def speed_take burst_take)
qed simp

lemma run_bound:
  "ok s t \<Longrightarrow> sorted (t # map snd calls) \<Longrightarrow>
     rat_of_nat (snd (limiter_run take_units calls s)) \<le> max 0 (level s t + speed s * (last (t # map snd calls) - t))"
proof (induction calls arbitrary: s t)
  case (Cons call calls)
  obtain n u where call: "call = (n, u)" by (cases call)
  have tu: "t \<le> u" and srt: "sorted (u # map snd calls)" using Cons.prems(2) call by auto
  let ?s = "fst (take_units u n s)" and ?g = "snd (take_units u n s)"
  let ?e = "last (u # map snd calls)"
  have IH: "rat_of_nat (snd (limiter_run take_units calls ?s)) \<le> max 0 (level ?s u + speed s * (?e - u))"
    using Cons.IH [OF ok_take [OF Cons.prems(1) tu] srt, of n] speed_take by simp
  have grow: "level s u \<le> level s t + speed s * (u - t)" by (rule level_grows [OF Cons.prems(1) tu])
  have split: "speed s * (?e - t) = speed s * (?e - u) + speed s * (u - t)" by (simp add: algebra_simps)
  have run: "snd (limiter_run take_units (call # calls) s) = (if ?g then n else 0) + snd (limiter_run take_units calls ?s)"
    by (simp add: call case_prod_unfold Let_def)
  have last: "last (t # map snd (call # calls)) = ?e" by (simp add: call)
  show ?case
  proof (cases ?g)
    case True
    have "rat_of_nat n \<le> max 0 (level s u)" "level ?s u = level s u - rat_of_nat n"
      using level_taken [OF Cons.prems(1) tu True] by simp_all
    moreover have "u \<le> ?e" using srt by (metis last_in_set list.discI list.set_intros(1) sorted_wrt.simps(2) set_ConsD last_ConsL last_ConsR order_refl)
    then have "0 \<le> speed s * (?e - u)" using speed_nonneg [OF Cons.prems(1)] by simp
    ultimately show ?thesis
      using IH grow split True unfolding run last by (auto simp: max_def split: if_splits)
  next
    case False
    then show ?thesis
      using IH grow split level_refused [OF Cons.prems(1) tu False] unfolding run last by simp
  qed
qed simp

text \<open>In any stretch of calls, whatever came before it.\<close>

lemma window_bound:
  assumes "ok s t" "sorted (t # map snd pre @ u # map snd mid)"
  shows "rat_of_nat (snd (limiter_run take_units ((n, u) # mid) (fst (limiter_run take_units pre s))))
    \<le> max 0 (burst s + speed s * (last (u # map snd mid) - u))"
proof -
  let ?s = "fst (limiter_run take_units pre s)"
  have srt: "sorted (t # map snd pre)" "sorted (u # map snd mid)"
    using assms(2) by (auto simp: sorted_append)
  have "\<forall>x\<in>set (t # map snd pre). x \<le> u" using assms(2) by (auto simp: sorted_append)
  then have lst: "last (t # map snd pre) \<le> u" using last_in_set [of "t # map snd pre"] by blast
  have pre: "ok ?s (last (t # map snd pre))" "speed ?s = speed s" "burst ?s = burst s"
    using run_ok [OF assms(1) srt(1)] by auto
  have ok: "ok ?s u" using ok_later [OF pre(1) lst] .
  have "rat_of_nat (snd (limiter_run take_units ((n, u) # mid) ?s))
    \<le> max 0 (level ?s u + speed ?s * (last (u # map snd ((n, u) # mid)) - u))"
    using srt(2) by (intro run_bound [OF ok]) simp
  moreover have "level ?s u \<le> burst s" using level_burst [OF ok] pre(3) by simp
  ultimately show ?thesis using pre(2) by simp
qed

end

end
