(* ===== verification/SlidingWindow.thy ===== *)
theory SlidingWindow
  imports PowerQueue LimiterClock
begin

text \<open>
  The sliding-window limiter (\<open>src/helpers/powerSlidingWindow.js\<close>) over a \<open>PowerQueue\<close> of
  timestamps.  A call reads its clock once; the reading is an argument of the model.  The metrics registration is left out.
\<close>

section \<open>State\<close>

record sliding =
  sw_capacity :: rat
  sw_windowMs :: rat
  sw_nowExplicit :: bool
  sw_timestamps :: "rat queue"

text \<open>A timestamp is a number, so it has no \<open>weight\<close> of its own.\<close>

definition stamp_wt :: "rat \<Rightarrow> js_val" where
  "stamp_wt t = JUndefined"

definition sliding_new :: "js_val \<Rightarrow> sliding result option" where
  "sliding_new options =
     (let opts = default_to (JObj []) options in
      case assertKnownOptions opts [''capacity'', ''windowMs'', ''observability'', ''now''] ''PowerSlidingWindow'' of
        Inl e \<Rightarrow> Some (Inl e)
      | Inr _ \<Rightarrow>
          if opts = JNull then Some (Inl NullOptions)
          else (case assertLimitRequired (default_to (JNum (Fin 1)) (get_prop ''capacity'' opts))
                  ((limit_spec ''capacity'' ''PowerSlidingWindow'')\<lparr>sp_min := 1, sp_fallback := JNum (Fin 1)\<rparr>) of
             Inl e \<Rightarrow> Some (Inl e)
           | Inr cap \<Rightarrow>
               (case assertLimitRequired (default_to (JNum (Fin MS_PER_SEC)) (get_prop ''windowMs'' opts))
                       ((limit_spec ''windowMs'' ''PowerSlidingWindow'')
                          \<lparr>sp_min := 1, sp_fallback := JNum (Fin MS_PER_SEC)\<rparr>) of
                  Inl e \<Rightarrow> Some (Inl e)
                | Inr win \<Rightarrow>
                    (case attachLimiterClock (get_prop ''now'' opts) ''PowerSlidingWindow'' of
                       Inl e \<Rightarrow> Some (Inl e)
                     | Inr isfun \<Rightarrow>
                          (case queue_new (JNum (Fin POWER_QUEUE_INITIAL_CAPACITY)) of
                             None \<Rightarrow> None
                           | Some (Inl e) \<Rightarrow> Some (Inl e)
                           | Some (Inr q) \<Rightarrow>
                               Some (Inr \<lparr>sw_capacity = num_rat cap, sw_windowMs = num_rat win,
                                 sw_nowExplicit = isfun, sw_timestamps = q\<rparr>))))))"

section \<open>Operations\<close>

text \<open>The loop of \<open>_prune\<close>.\<close>

function prune_loop :: "rat \<Rightarrow> rat queue \<Rightarrow> rat queue" where
  "prune_loop threshold q =
     (if 0 < q_size q then
        (case queue_peek q of
           None \<Rightarrow> q
         | Some t \<Rightarrow> (if threshold < t then q else prune_loop threshold (fst (queue_shift stamp_wt q))))
      else q)"
  by pat_completeness auto
termination
  by (relation "measure (\<lambda>(th, q). nat (q_size q))") (auto simp: queue_shift_def Let_def)

declare prune_loop.simps [simp del]

definition sliding_prune :: "rat \<Rightarrow> sliding \<Rightarrow> (sliding, unit) step option" where
  "sliding_prune now s =
     (let threshold = now - sw_windowMs s;
          before = q_size (sw_timestamps s);
          q = prune_loop threshold (sw_timestamps s)
      in if q_size q < before \<and> before * 2 < q_capacity q then
           (case queue_shrink (JNum (Fin (of_int before))) q of
              None \<Rightarrow> None
            | Some (q1, Inl e) \<Rightarrow> Some (s\<lparr>sw_timestamps := q1\<rparr>, Inl e)
            | Some (q1, Inr _) \<Rightarrow> Some (s\<lparr>sw_timestamps := q1\<rparr>, Inr ()))
         else Some (s\<lparr>sw_timestamps := q\<rparr>, Inr ()))"

definition sliding_tryConsume :: "js_val \<Rightarrow> rat \<Rightarrow> rat option \<Rightarrow> sliding \<Rightarrow> (sliding, bool) step option" where
  "sliding_tryConsume n reading perCall s =
     (case assertCount (default_to (JNum (Fin 1)) n) ''n'' ''PowerSlidingWindow.tryConsume'' of
        Inl e \<Rightarrow> Some (s, Inl e)
      | Inr want \<Rightarrow>
          if want = 0 then Some (s, Inr True)
          else
            (let now = resolveLimiterNow reading (sw_nowExplicit s) perCall in
             case sliding_prune now s of
               None \<Rightarrow> None
             | Some (s1, Inl e) \<Rightarrow> Some (s1, Inl e)
             | Some (s1, Inr _) \<Rightarrow>
                 if of_int (q_size (sw_timestamps s1) + want) \<le> sw_capacity s1 then
                   (if want = 1 then
                      (case queue_push stamp_wt now (sw_timestamps s1) of
                         (q, Inl e) \<Rightarrow> Some (s1\<lparr>sw_timestamps := q\<rparr>, Inl e)
                       | (q, Inr _) \<Rightarrow> Some (s1\<lparr>sw_timestamps := q\<rparr>, Inr True))
                    else
                      (case queue_fill stamp_wt now (JNum (Fin (of_int want))) (sw_timestamps s1) of
                         None \<Rightarrow> None
                       | Some (q, Inl e) \<Rightarrow> Some (s1\<lparr>sw_timestamps := q\<rparr>, Inl e)
                       | Some (q, Inr _) \<Rightarrow> Some (s1\<lparr>sw_timestamps := q\<rparr>, Inr True)))
                 else Some (s1, Inr False)))"

definition sliding_available :: "rat \<Rightarrow> rat option \<Rightarrow> sliding \<Rightarrow> (sliding, rat) step option" where
  "sliding_available reading perCall s =
     (case sliding_prune (resolveLimiterNow reading (sw_nowExplicit s) perCall) s of
        None \<Rightarrow> None
      | Some (s1, Inl e) \<Rightarrow> Some (s1, Inl e)
      | Some (s1, Inr _) \<Rightarrow> Some (s1, Inr (max 0 (sw_capacity s1 - of_int (q_size (sw_timestamps s1))))))"

definition sliding_reset :: "sliding \<Rightarrow> sliding" where
  "sliding_reset s = s\<lparr>sw_timestamps := queue_clear (sw_timestamps s)\<rparr>"

record sliding_report =
  sr_capacity :: rat
  sr_windowMs :: rat
  sr_used :: int
  sr_available :: rat

text \<open>\<open>stats()\<close> reads the limiter's own clock.\<close>

definition sliding_stats :: "rat \<Rightarrow> sliding \<Rightarrow> (sliding, sliding_report) step option" where
  "sliding_stats reading s =
     (case sliding_prune reading s of
        None \<Rightarrow> None
      | Some (s1, Inl e) \<Rightarrow> Some (s1, Inl e)
      | Some (s1, Inr _) \<Rightarrow>
          (let used = q_size (sw_timestamps s1) in
           Some (s1, Inr \<lparr>sr_capacity = sw_capacity s1, sr_windowMs = sw_windowMs s1, sr_used = used,
             sr_available = max 0 (sw_capacity s1 - of_int used)\<rparr>)))"

definition sliding_dispose :: "sliding \<Rightarrow> (sliding, unit) step option" where
  "sliding_dispose s =
     (case queue_shrink JUndefined (queue_clear (sw_timestamps s)) of
        None \<Rightarrow> None
      | Some (q, Inl e) \<Rightarrow> Some (s\<lparr>sw_timestamps := q\<rparr>, Inl e)
      | Some (q, Inr _) \<Rightarrow> Some (s\<lparr>sw_timestamps := q\<rparr>, Inr ()))"

section \<open>The window as a log of admissions\<close>

text \<open>
  \<open>sliding_rep s t hist\<close>: \<open>hist\<close> is every admission so far in order, none later than the
  last clock reading \<open>t\<close>, and the queue is an end of it that still has every admission younger
  than the window.
\<close>

definition sliding_rep :: "sliding \<Rightarrow> rat \<Rightarrow> rat list \<Rightarrow> bool" where
  "sliding_rep s t hist \<longleftrightarrow> (\<exists>xs gone. queue_rep stamp_wt (sw_timestamps s) xs \<and> hist = gone @ xs \<and>
     sorted hist \<and> (\<forall>x \<in> set hist. x \<le> t) \<and> (\<forall>x \<in> set gone. x \<le> t - sw_windowMs s)) \<and>
     1 \<le> sw_windowMs s \<and> sw_capacity s \<le> 2 ^ 30"

text \<open>How many admissions of the log lie in the window that ends at \<open>t\<close>.\<close>

definition in_last :: "rat \<Rightarrow> rat \<Rightarrow> rat list \<Rightarrow> nat" where
  "in_last w t hist = length (filter (\<lambda>x. t - w < x \<and> x \<le> t) hist)"

lemma prune_loop_rep:
  "queue_rep stamp_wt q xs \<Longrightarrow> queue_rep stamp_wt (prune_loop th q) (dropWhile (\<lambda>x. x \<le> th) xs)"
proof (induction xs arbitrary: q)
  case Nil
  then show ?case by (subst prune_loop.simps) (simp add: ring.len_length)
next
  case (Cons x xs)
  have size: "0 < q_size q" and peek: "queue_peek q = Some x"
    using ring.len_length [OF Cons.prems] ring.peek_head [OF Cons.prems] by simp_all
  obtain q' where "queue_shift stamp_wt q = (q', Some x)" "queue_rep stamp_wt q' xs"
    using ring.shift_cons [OF Cons.prems] by blast
  then show ?case using Cons.IH [of q'] Cons.prems size peek
    by (subst prune_loop.simps) simp
qed

lemma dropWhile_sorted:
  "sorted xs \<Longrightarrow> dropWhile (\<lambda>x. x \<le> th) xs = filter (\<lambda>x. th < x) (xs :: rat list)"
proof (induction xs)
  case (Cons x xs)
  show ?case
  proof (cases "x \<le> th")
    case False
    then have "\<forall>y \<in> set (x # xs). th < y" using Cons.prems by auto
    then show ?thesis using False by (metis dropWhile.simps(2) filter_True)
  qed (use Cons in auto)
qed simp

lemma sliding_prune_rep:
  assumes rep: "sliding_rep s t hist" and t: "t \<le> now"
  shows "\<exists>s'. sliding_prune now s = Some (s', Inr ()) \<and> sliding_rep s' now hist \<and>
     sw_capacity s' = sw_capacity s \<and> sw_windowMs s' = sw_windowMs s \<and> sw_nowExplicit s' = sw_nowExplicit s \<and>
     q_size (sw_timestamps s') = int (in_last (sw_windowMs s) now hist)"
proof -
  obtain xs gone where xs: "queue_rep stamp_wt (sw_timestamps s) xs" "hist = gone @ xs" "sorted hist"
      "\<forall>x \<in> set hist. x \<le> t" "\<forall>x \<in> set gone. x \<le> t - sw_windowMs s"
    using rep by (auto simp: sliding_rep_def)
  let ?th = "now - sw_windowMs s" and ?q = "prune_loop (now - sw_windowMs s) (sw_timestamps s)"
  let ?ys = "dropWhile (\<lambda>x. x \<le> now - sw_windowMs s) xs"
  have q: "queue_rep stamp_wt ?q ?ys" by (rule prune_loop_rep [OF xs(1)])
  have sx: "sorted xs" using xs(2,3) by (simp add: sorted_append)
  have gone: "\<forall>x \<in> set gone. x \<le> ?th" using xs(5) t by force
  have "filter (\<lambda>x. ?th < x \<and> x \<le> now) hist = filter (\<lambda>x. ?th < x) xs"
  proof -
    have "filter (\<lambda>x. ?th < x \<and> x \<le> now) gone = []" using gone by (auto simp: filter_empty_conv)
    moreover have "filter (\<lambda>x. ?th < x \<and> x \<le> now) xs = filter (\<lambda>x. ?th < x) xs"
      using xs(2,4) t by (intro filter_cong) force+
    ultimately show ?thesis by (simp add: xs(2))
  qed
  then have cnt: "int (length ?ys) = int (in_last (sw_windowMs s) now hist)"
    by (simp add: in_last_def dropWhile_sorted [OF sx])
  have split: "hist = (gone @ takeWhile (\<lambda>x. x \<le> ?th) xs) @ ?ys" by (simp add: xs(2))
  have gone': "\<forall>x \<in> set (gone @ takeWhile (\<lambda>x. x \<le> ?th) xs). x \<le> ?th"
    using gone by (auto dest: set_takeWhileD)
  have new: "sliding_rep (s\<lparr>sw_timestamps := q'\<rparr>) now hist" if "queue_rep stamp_wt q' ?ys" for q'
  proof -
    have "\<forall>x \<in> set hist. x \<le> now" using xs(4) t by force
    moreover have "1 \<le> sw_windowMs s \<and> sw_capacity s \<le> 2 ^ 30" using rep by (simp add: sliding_rep_def)
    ultimately show ?thesis
      unfolding sliding_rep_def using that split xs(3) gone'
      by (intro conjI exI [of _ ?ys] exI [of _ "gone @ takeWhile (\<lambda>x. x \<le> ?th) xs"]) simp_all
  qed
  show ?thesis
  proof (cases "q_size ?q < q_size (sw_timestamps s) \<and> q_size (sw_timestamps s) * 2 < q_capacity ?q")
    case False
    then show ?thesis using new [OF q] ring.len_length [OF q] cnt by (auto simp: sliding_prune_def Let_def)
  next
    case True
    let ?b = "q_size (sw_timestamps s)"
    have b: "?b = int (length xs)" by (rule ring.len_length [OF xs(1)])
    have "q_capacity ?q \<le> 2 ^ 30" using queue_shape_pos [OF queue_rep_shape [OF q]] by simp
    then have "(0 :: rat) \<le> of_int ?b" "?b \<le> 2 ^ 30" using True b by simp_all
    then have "(0 :: rat) \<le> of_int ?b" "(of_int ?b :: rat) \<le> 2 ^ 30"
      using of_int_le_iff [of ?b "2 ^ 30", where 'a = rat] by simp_all
    then obtain q' where "queue_shrink (JNum (Fin (of_int ?b))) ?q = Some (q', Inr (q_capacity q'))"
        "queue_rep stamp_wt q' ?ys"
      using queue_shrink_rep [OF q] by blast
    moreover have "q_size q' = int (length ?ys)" by (rule ring.len_length [OF calculation(2)])
    ultimately show ?thesis using True new cnt by (auto simp: sliding_prune_def Let_def)
  qed
qed


lemma sliding_rep_later:
  assumes "sliding_rep s t hist" "t \<le> u"
  shows "sliding_rep s u hist"
proof -
  obtain xs gone where xs: "queue_rep stamp_wt (sw_timestamps s) xs" "hist = gone @ xs" "sorted hist"
      "\<forall>x \<in> set hist. x \<le> t" "\<forall>x \<in> set gone. x \<le> t - sw_windowMs s"
    using assms(1) by (auto simp: sliding_rep_def)
  have "\<forall>x \<in> set hist. x \<le> u" "\<forall>x \<in> set gone. x \<le> u - sw_windowMs s" using xs(4,5) assms(2) by force+
  then show ?thesis using assms(1) xs(1-3) unfolding sliding_rep_def by blast
qed

lemma sliding_admit_rep:
  assumes rep: "sliding_rep s now hist" and q: "queue_rep stamp_wt q (ys @ replicate n now)"
    and ys: "queue_rep stamp_wt (sw_timestamps s) ys"
  shows "sliding_rep (s\<lparr>sw_timestamps := q\<rparr>) now (hist @ replicate n now)"
proof -
  obtain xs gone where xs: "queue_rep stamp_wt (sw_timestamps s) xs" "hist = gone @ xs" "sorted hist"
      "\<forall>x \<in> set hist. x \<le> now" "\<forall>x \<in> set gone. x \<le> now - sw_windowMs s"
    using rep by (auto simp: sliding_rep_def)
  have "xs = ys" using queue_rep_unique [OF xs(1) ys] .
  moreover have "sorted (hist @ replicate n now)" using xs(3,4) by (auto simp: sorted_append)
  ultimately show ?thesis
    using rep q xs(2,4,5) unfolding sliding_rep_def
    by (intro conjI exI [of _ "ys @ replicate n now"] exI [of _ gone]) auto
qed

lemma sliding_tryConsume_rep:
  assumes rep: "sliding_rep s t hist" and now: "now = resolveLimiterNow reading (sw_nowExplicit s) perCall" "t \<le> now"
    and n: "assertCount (default_to (JNum (Fin 1)) v) ''n'' ''PowerSlidingWindow.tryConsume'' = Inr (int n)" "0 < n"
  shows "\<exists>s'. sliding_tryConsume v reading perCall s =
      Some (s', Inr (rat_of_nat (in_last (sw_windowMs s) now hist + n) \<le> sw_capacity s)) \<and>
    sliding_rep s' now (if rat_of_nat (in_last (sw_windowMs s) now hist + n) \<le> sw_capacity s
       then hist @ replicate n now else hist) \<and>
    sw_capacity s' = sw_capacity s \<and> sw_windowMs s' = sw_windowMs s \<and> sw_nowExplicit s' = sw_nowExplicit s"
proof -
  obtain s1 where s1: "sliding_prune now s = Some (s1, Inr ())" "sliding_rep s1 now hist"
     "sw_capacity s1 = sw_capacity s" "sw_windowMs s1 = sw_windowMs s" "sw_nowExplicit s1 = sw_nowExplicit s"
     "q_size (sw_timestamps s1) = int (in_last (sw_windowMs s) now hist)"
    using sliding_prune_rep [OF rep now(2)] by blast
  let ?m = "in_last (sw_windowMs s) now hist"
  have cond: "of_int (q_size (sw_timestamps s1) + int n) \<le> sw_capacity s1 \<longleftrightarrow> rat_of_nat (?m + n) \<le> sw_capacity s"
    by (simp add: s1)
  show ?thesis
  proof (cases "rat_of_nat (?m + n) \<le> sw_capacity s")
    case False
    then show ?thesis using n s1 cond by (auto simp: sliding_tryConsume_def Let_def simp flip: now(1))
  next
    case True
    obtain ys where ys: "queue_rep stamp_wt (sw_timestamps s1) ys" using s1(2) by (auto simp: sliding_rep_def)
    have m: "length ys = ?m" using ring.len_length [OF ys] s1(6) by simp
    have "rat_of_nat (?m + n) \<le> 2 ^ 30" using True s1(2,3) by (auto simp: sliding_rep_def)
    then have room: "length ys + n \<le> 2 ^ 30"
      using m of_nat_le_iff [of "?m + n" "2 ^ 30", where 'a = rat] by simp
    show ?thesis
    proof (cases "n = 1")
      case one: True
      obtain q where "queue_push stamp_wt now (sw_timestamps s1) = (q, Inr (int (length ys) + 1))"
          "queue_rep stamp_wt q (ys @ [now])"
        using ring.push_ok [OF ys, of now] room one by auto
      then show ?thesis
        using True one n s1 cond sliding_admit_rep [OF s1(2), of q ys 1] ys
        by (auto simp: sliding_tryConsume_def Let_def simp flip: now(1))
    next
      case False
      obtain q where "queue_fill stamp_wt now (JNum (Fin (of_nat n))) (sw_timestamps s1) = Some (q, Inr (int (length ys + n)))"
          "queue_rep stamp_wt q (ys @ replicate n now)"
        using queue_fill_rep [OF ys room] by blast
      then show ?thesis
        using True False n s1 cond sliding_admit_rep [OF s1(2), of q ys n] ys
        by (auto simp: sliding_tryConsume_def Let_def simp flip: now(1))
    qed
  qed
qed

text \<open>
  No window of length \<open>w\<close>, wherever it starts, holds more than \<open>c\<close> admissions.
\<close>

definition windows_bounded :: "rat \<Rightarrow> rat \<Rightarrow> rat list \<Rightarrow> bool" where
  "windows_bounded w c hist \<longleftrightarrow> (\<forall>x. rat_of_nat (length (filter (\<lambda>y. x < y \<and> y \<le> x + w) hist)) \<le> c)"

lemma windows_bounded_admit:
  assumes "windows_bounded w c hist" "\<forall>x \<in> set hist. x \<le> now" "rat_of_nat (in_last w now hist + n) \<le> c"
  shows "windows_bounded w c (hist @ replicate n now)"
  unfolding windows_bounded_def
proof
  fix x
  let ?in = "\<lambda>y. x < y \<and> y \<le> x + w"
  show "rat_of_nat (length (filter ?in (hist @ replicate n now))) \<le> c"
  proof (cases "?in now")
    case False
    then show ?thesis using assms(1) by (auto simp: windows_bounded_def)
  next
    case True
    have "filter ?in hist = filter ?in (filter (\<lambda>y. now - w < y \<and> y \<le> now) hist)"
      using True assms(2) by (auto simp: filter_filter intro: filter_cong)
    then have "length (filter ?in hist) \<le> in_last w now hist"
      using length_filter_le [of ?in "filter (\<lambda>y. now - w < y \<and> y \<le> now) hist"] by (simp add: in_last_def)
    then have "rat_of_nat (length (filter ?in (hist @ replicate n now))) \<le> rat_of_nat (in_last w now hist + n)"
      using True by simp
    then show ?thesis using assms(3) by linarith
  qed
qed

text \<open>
  A run: calls asking for \<open>n\<close> units at clock reading \<open>t\<close>.  The result is the limiter and
  the admitted units, each with its time; \<open>None\<close> when a call throws or does not return.
\<close>

fun sliding_run :: "(nat \<times> rat) list \<Rightarrow> sliding \<Rightarrow> (sliding \<times> rat list) option" where
  "sliding_run [] s = Some (s, [])"
| "sliding_run ((n, t) # calls) s =
     (case sliding_tryConsume (JNum (Fin (of_nat n))) t None s of
        Some (s1, Inr ok) \<Rightarrow>
          (case sliding_run calls s1 of
             None \<Rightarrow> None
           | Some (s2, hist) \<Rightarrow> Some (s2, (if ok then replicate n t else []) @ hist))
      | _ \<Rightarrow> None)"

lemma sliding_run_rep:
  assumes "sliding_rep s t hist" "windows_bounded (sw_windowMs s) (sw_capacity s) hist"
    and "sorted (t # map snd calls)"
  shows "\<exists>s' h. sliding_run calls s = Some (s', h) \<and>
     windows_bounded (sw_windowMs s) (sw_capacity s) (hist @ h) \<and> sliding_rep s' (last (t # map snd calls)) (hist @ h)"
  using assms
proof (induction calls arbitrary: s t hist)
  case (Cons call calls)
  obtain n u where call: "call = (n, u)" by (cases call)
  have tu: "t \<le> u" and srt: "sorted (u # map snd calls)" using Cons.prems(3) call by auto
  show ?case
  proof (cases "n = 0")
    case True
    have "sliding_tryConsume (JNum (Fin (of_nat n))) u None s = Some (s, Inr True)"
      using True by (simp add: sliding_tryConsume_def assertCount_def default_to_def)
    moreover have "sliding_rep s u hist"
      using sliding_rep_later [OF Cons.prems(1) tu] .
    then obtain s' h where "sliding_run calls s = Some (s', h)"
        "windows_bounded (sw_windowMs s) (sw_capacity s) (hist @ h)"
        "sliding_rep s' (last (u # map snd calls)) (hist @ h)"
      using Cons.IH [OF _ Cons.prems(2) srt] by blast
    ultimately show ?thesis using True call by simp
  next
    case False
    let ?ok = "rat_of_nat (in_last (sw_windowMs s) u hist + n) \<le> sw_capacity s"
    let ?hist = "if ?ok then hist @ replicate n u else hist"
    have cnt: "assertCount (default_to (JNum (Fin 1)) (JNum (Fin (rat_of_nat n)))) ''n'' ''PowerSlidingWindow.tryConsume'' = Inr (int n)"
      by (simp add: assertCount_def default_to_def)
    have now: "u = resolveLimiterNow u (sw_nowExplicit s) None" by (simp add: resolveLimiterNow_def)
    obtain s1 where s1: "sliding_tryConsume (JNum (Fin (of_nat n))) u None s = Some (s1, Inr ?ok)"
        "sliding_rep s1 u ?hist" "sw_capacity s1 = sw_capacity s" "sw_windowMs s1 = sw_windowMs s"
      using sliding_tryConsume_rep [OF Cons.prems(1) now tu cnt] False by blast
    have "sliding_rep s u hist" using sliding_rep_later [OF Cons.prems(1) tu] .
    have "\<forall>x \<in> set hist. x \<le> u" using \<open>sliding_rep s u hist\<close> by (auto simp: sliding_rep_def)
    then have "windows_bounded (sw_windowMs s1) (sw_capacity s1) ?hist"
      using windows_bounded_admit [OF Cons.prems(2)] Cons.prems(2) s1(3,4) by simp
    from Cons.IH [OF s1(2) this srt]
    obtain s' h where r: "sliding_run calls s1 = Some (s', h)"
        "windows_bounded (sw_windowMs s) (sw_capacity s) (?hist @ h)"
        "sliding_rep s' (last (u # map snd calls)) (?hist @ h)"
      using s1(3,4) by metis
    have "?hist @ h = hist @ ((if ?ok then replicate n u else []) @ h)" by simp
    then show ?thesis using r s1(1) call by (auto simp: Let_def)
  qed
qed simp


lemma sliding_new_rep:
  assumes "sliding_new options = Some (Inr s)" "sw_capacity s \<le> 2 ^ 30"
  shows "sliding_rep s t [] \<and> 1 \<le> sw_capacity s \<and> 1 \<le> sw_windowMs s"
proof -
  obtain v1 cls1 cap v2 cls2 win where cap: "assertLimitRequired v1 ((limit_spec ''capacity'' cls1)
        \<lparr>sp_min := 1, sp_fallback := JNum (Fin 1)\<rparr>) = Inr cap" "sw_capacity s = num_rat cap"
    and win: "assertLimitRequired v2 ((limit_spec ''windowMs'' cls2)
        \<lparr>sp_min := 1, sp_fallback := JNum (Fin MS_PER_SEC)\<rparr>) = Inr win" "sw_windowMs s = num_rat win"
    and q: "queue_new (JNum (Fin POWER_QUEUE_INITIAL_CAPACITY)) = Some (Inr (sw_timestamps s))"
    using assms(1) unfolding sliding_new_def Let_def
    by (auto split: sum.splits option.splits if_splits)
  have c: "1 \<le> sw_capacity s" using assertLimitRequired_cases [OF cap(1)] cap(2)
    by (auto simp: limit_spec_def num_rat_def)
  have w: "1 \<le> sw_windowMs s" using assertLimitRequired_cases [OF win(1)] win(2)
    by (auto simp: limit_spec_def num_rat_def MS_PER_SEC_def)
  obtain m where "queue_new (JNum (Fin POWER_QUEUE_INITIAL_CAPACITY)) =
      Some (Inr (queue_empty (2 ^ m) (replicate (nat (2 ^ m)) None) :: rat queue))" "1 \<le> m" "m \<le> 30"
    using queue_new_ok [of POWER_QUEUE_INITIAL_CAPACITY] by (auto simp: POWER_QUEUE_INITIAL_CAPACITY_def)
  then have "queue_rep stamp_wt (sw_timestamps s) []" using q queue_rep_empty by simp
  then show ?thesis using c w assms(2) by (simp add: sliding_rep_def)
qed

section \<open>Properties\<close>

text \<open>
  C8. The limit holds in every window.  In any run of calls with non-decreasing clock
  readings on a new limiter of capacity at most \<open>2 ^ 30\<close>, no call throws or hangs, and
  wherever a window of \<open>windowMs\<close> is placed, at most \<open>capacity\<close> units were admitted inside it.
\<close>

theorem sliding_window_bound:
  assumes "sliding_new options = Some (Inr s)" "sw_capacity s \<le> 2 ^ 30" "sorted (map snd calls)"
  shows "\<exists>s' hist. sliding_run calls s = Some (s', hist) \<and>
    (\<forall>x. rat_of_nat (length (filter (\<lambda>y. x < y \<and> y \<le> x + sw_windowMs s) hist)) \<le> sw_capacity s)"
proof (cases calls)
  case Nil
  have "0 \<le> sw_capacity s" using sliding_new_rep [OF assms(1,2)] by (meson order_trans zero_le_one)
  then show ?thesis using Nil by simp
next
  case (Cons call rest)
  have rep: "sliding_rep s (snd call) []" "0 \<le> sw_capacity s"
    using sliding_new_rep [OF assms(1,2), of "snd call"] by auto
  have "windows_bounded (sw_windowMs s) (sw_capacity s) []" using rep(2) by (simp add: windows_bounded_def)
  from sliding_run_rep [OF rep(1) this, of calls] assms(3) Cons
  show ?thesis by (auto simp: windows_bounded_def)
qed

theorem sliding_window_bound_witness:
  "case sliding_new (JObj [(''capacity'', JNum (Fin 2)), (''windowMs'', JNum (Fin 10))]) of
     Some (Inr s) \<Rightarrow>
       (\<exists>s' hist. sliding_run [(1, 0), (2, 4), (1, 5), (1, 10), (1, 14)] s = Some (s', hist) \<and>
          (\<forall>x. rat_of_nat (length (filter (\<lambda>y. x < y \<and> y \<le> x + 10) hist)) \<le> 2))
   | _ \<Rightarrow> False"
proof -
  have "case sliding_new (JObj [(''capacity'', JNum (Fin 2)), (''windowMs'', JNum (Fin 10))]) of
     Some (Inr s) \<Rightarrow> sw_capacity s = 2 \<and> sw_windowMs s = 10 | _ \<Rightarrow> False" by code_simp
  then obtain s where s: "sliding_new (JObj [(''capacity'', JNum (Fin 2)), (''windowMs'', JNum (Fin 10))]) = Some (Inr s)"
     "sw_capacity s = 2" "sw_windowMs s = 10"
    by (auto split: option.splits sum.splits)
  show ?thesis
    using sliding_window_bound [OF s(1), of "[(1, 0), (2, 4), (1, 5), (1, 10), (1, 14)]"] s by simp
qed

text \<open>
  Admission is exact.  \<open>tryConsume\<close> admits the \<open>n\<close> units exactly when they fit beside the
  units already admitted in the window that ends now, and records them if so;
  \<open>available\<close> answers what is left of the capacity in that window and admits nothing.
\<close>

theorem sliding_admits_exactly:
  assumes rep: "sliding_rep s t hist" and now: "now = resolveLimiterNow reading (sw_nowExplicit s) perCall" "t \<le> now"
    and n: "assertCount (default_to (JNum (Fin 1)) v) ''n'' ''PowerSlidingWindow.tryConsume'' = Inr (int n)" "0 < n"
  shows "(\<exists>s'. sliding_tryConsume v reading perCall s =
      Some (s', Inr (rat_of_nat (in_last (sw_windowMs s) now hist + n) \<le> sw_capacity s)) \<and>
     sliding_rep s' now (if rat_of_nat (in_last (sw_windowMs s) now hist + n) \<le> sw_capacity s
       then hist @ replicate n now else hist)) \<and>
    (\<exists>s'. sliding_available reading perCall s =
      Some (s', Inr (max 0 (sw_capacity s - rat_of_nat (in_last (sw_windowMs s) now hist)))) \<and>
     sliding_rep s' now hist)"
  using sliding_tryConsume_rep [OF rep now n] sliding_prune_rep [OF rep now(2)]
  by (auto simp: sliding_available_def simp flip: now(1))

theorem sliding_admits_exactly_witness:
  "case sliding_new (JObj [(''capacity'', JNum (Fin 2))]) of
     Some (Inr s) \<Rightarrow> sw_capacity s = 2 \<and>
       (\<exists>s'. sliding_tryConsume (JNum (Fin 3)) 7 None s = Some (s', Inr False)) \<and>
       (\<exists>s'. sliding_available 7 None s = Some (s', Inr 2))
   | _ \<Rightarrow> False"
proof -
  have "case sliding_new (JObj [(''capacity'', JNum (Fin 2))]) of
     Some (Inr s) \<Rightarrow> sw_capacity s = 2 | _ \<Rightarrow> False" by code_simp
  then obtain s where s: "sliding_new (JObj [(''capacity'', JNum (Fin 2))]) = Some (Inr s)" "sw_capacity s = 2"
    by (auto split: option.splits sum.splits)
  have rep: "sliding_rep s 7 []" using sliding_new_rep [OF s(1)] s(2) by simp
  have "assertCount (default_to (JNum (Fin 1)) (JNum (Fin 3))) ''n'' ''PowerSlidingWindow.tryConsume'' = Inr (int 3)"
    by (simp add: assertCount_def default_to_def)
  moreover have "7 = resolveLimiterNow 7 (sw_nowExplicit s) None" by (simp add: resolveLimiterNow_def)
  ultimately show ?thesis
    using sliding_admits_exactly [OF rep, of 7 7 None "JNum (Fin 3)" 3] s by (auto simp: in_last_def)
qed

end
