(* ===== verification/Throttle.thy ===== *)
theory Throttle
  imports LimiterClock
begin

text \<open>
  The token bucket (\<open>src/helpers/powerThrottle.js\<close>).  Tokens are earned lazily, in proportion
  to the time since the last refill, with the fraction of a token carried over.  Clock readings
  are arguments of the model; the metrics registration is left out.
\<close>

section \<open>State\<close>

definition BACKWARD_CLOCK_TOLERANCE :: nat where
  "BACKWARD_CLOCK_TOLERANCE = 3"

record throttle =
  th_capacity :: rat
  th_tokens :: rat
  th_refillRate :: rat
  th_nowExplicit :: bool
  th_lastRefill :: rat
  th_tokenRemainder :: rat
  th_backwardSteps :: nat

text \<open>\<open>reading\<close> is the clock at construction.\<close>

definition throttle_new :: "js_val \<Rightarrow> rat \<Rightarrow> throttle result" where
  "throttle_new options reading =
     (let opts = default_to (JObj []) options in
      case assertKnownOptions opts [''capacity'', ''tokens'', ''refillRate'', ''observability'', ''now''] ''PowerThrottle'' of
        Inl e \<Rightarrow> Inl e
      | Inr _ \<Rightarrow>
          if opts = JNull then Inl NullOptions
          else (case assertLimitRequired (default_to (JNum (Fin 1)) (get_prop ''capacity'' opts))
                  ((limit_spec ''capacity'' ''PowerThrottle'')\<lparr>sp_min := 1, sp_integer := True,
                     sp_fallback := JNum (Fin 1)\<rparr>) of
             Inl e \<Rightarrow> Inl e
           | Inr cap \<Rightarrow>
               (case assertLimitRequired (default_to (JNum (Fin 0)) (get_prop ''refillRate'' opts))
                       ((limit_spec ''refillRate'' ''PowerThrottle'')\<lparr>sp_fallback := JNum (Fin 0)\<rparr>) of
                  Inl e \<Rightarrow> Inl e
                | Inr rate \<Rightarrow>
                    (case attachLimiterClock (get_prop ''now'' opts) ''PowerThrottle'' of
                       Inl e \<Rightarrow> Inl e
                     | Inr explicit \<Rightarrow>
                         Inr \<lparr>th_capacity = num_rat cap,
                           th_tokens = (case get_prop ''tokens'' opts of
                              JNum (Fin r) \<Rightarrow> min (num_rat cap) r | _ \<Rightarrow> num_rat cap),
                           th_refillRate = num_rat rate, th_nowExplicit = explicit,
                           th_lastRefill = reading, th_tokenRemainder = 0, th_backwardSteps = 0\<rparr>))))"

section \<open>Operations\<close>

definition throttle_refill :: "rat \<Rightarrow> throttle \<Rightarrow> throttle" where
  "throttle_refill now s =
     (if th_refillRate s \<le> 0 then s
      else if now < th_lastRefill s then
        (let steps = th_backwardSteps s + 1 in
         if BACKWARD_CLOCK_TOLERANCE \<le> steps
         then s\<lparr>th_lastRefill := now, th_backwardSteps := 0\<rparr>
         else s\<lparr>th_backwardSteps := steps\<rparr>)
      else
        (let s1 = s\<lparr>th_backwardSteps := 0\<rparr>;
             elapsedMs = now - th_lastRefill s
         in if elapsedMs \<le> 0 then s1
            else
              (let tokensToAdd = (elapsedMs / MS_PER_SEC) * th_refillRate s + th_tokenRemainder s;
                   whole = \<lfloor>tokensToAdd\<rfloor>;
                   s2 = s1\<lparr>th_tokenRemainder := tokensToAdd - of_int whole, th_lastRefill := now\<rparr>
               in if 0 < whole then s2\<lparr>th_tokens := min (th_capacity s) (th_tokens s + of_int whole)\<rparr>
                  else s2)))"

text \<open>The part \<open>tryConsume\<close> and \<open>reserve\<close> share: refill, then take the tokens if they are there.\<close>

definition throttle_take :: "rat \<Rightarrow> int \<Rightarrow> throttle \<Rightarrow> throttle \<times> bool" where
  "throttle_take now want s =
     (let s1 = throttle_refill now s in
      if of_int want \<le> th_tokens s1 then (s1\<lparr>th_tokens := th_tokens s1 - of_int want\<rparr>, True)
      else (s1, False))"

definition throttle_tryConsume :: "js_val \<Rightarrow> rat \<Rightarrow> rat option \<Rightarrow> throttle \<Rightarrow> (throttle, bool) step" where
  "throttle_tryConsume n reading perCall s =
     (case assertCount (default_to (JNum (Fin 1)) n) ''n'' ''PowerThrottle.tryConsume'' of
        Inl e \<Rightarrow> (s, Inl e)
      | Inr want \<Rightarrow>
          (if want = 0 then (s, Inr True)
           else (let (s1, granted) = throttle_take (resolveLimiterNow reading (th_nowExplicit s) perCall) want s
                 in (s1, Inr granted))))"

definition throttle_addTokens :: "js_val \<Rightarrow> throttle \<Rightarrow> (throttle, unit) step" where
  "throttle_addTokens n s =
     (case assertCount n ''n'' ''PowerThrottle.addTokens'' of
        Inl e \<Rightarrow> (s, Inl e)
      | Inr add \<Rightarrow>
          (if add = 0 then (s, Inr ())
           else (s\<lparr>th_tokens := min (th_capacity s) (th_tokens s + of_int add)\<rparr>, Inr ())))"

text \<open>\<open>reserve\<close>: the reservation \<open>{ n }\<close>, or \<open>null\<close>.\<close>

definition throttle_reserve :: "js_val \<Rightarrow> rat \<Rightarrow> rat option \<Rightarrow> throttle \<Rightarrow> (throttle, int option) step" where
  "throttle_reserve n reading perCall s =
     (case assertCount (default_to (JNum (Fin 1)) n) ''n'' ''PowerThrottle.reserve'' of
        Inl e \<Rightarrow> (s, Inl e)
      | Inr want \<Rightarrow>
          (if want = 0 then (s, Inr (Some 0))
           else (let (s1, granted) = throttle_take (resolveLimiterNow reading (th_nowExplicit s) perCall) want s
                 in (s1, Inr (if granted then Some want else None)))))"

text \<open>
  \<open>release(tokenOrN)\<close> and its alias \<open>rollback\<close>, on a reservation object or a number.  An
  infinite amount fills the bucket; minus infinity in a reservation object is outside the model,
  whose token counts are finite, and is read as no tokens.
\<close>

definition throttle_release :: "js_val \<Rightarrow> throttle \<Rightarrow> (throttle, unit) step" where
  "throttle_release tokenOrN s =
     (if is_nullish tokenOrN then (s, Inr ())
      else
        (let isObj = (case tokenOrN of JObj ps \<Rightarrow> True | _ \<Rightarrow> False) in
         case to_number (if isObj then get_prop ''n'' tokenOrN else tokenOrN) of
           Inl e \<Rightarrow> (s, Inl e)
         | Inr num \<Rightarrow>
             (case num of
                Fin r \<Rightarrow>
                  (let n = (if isObj then r else max 0 (of_int \<lfloor>r\<rfloor>)) in
                   if n = 0 then (s, Inr ())
                   else (s\<lparr>th_tokens := min (th_capacity s) (th_tokens s + n)\<rparr>, Inr ()))
              | PosInf \<Rightarrow> (s\<lparr>th_tokens := th_capacity s\<rparr>, Inr ())
              | _ \<Rightarrow> (s, Inr ()))))"

definition throttle_available :: "rat \<Rightarrow> rat option \<Rightarrow> throttle \<Rightarrow> throttle \<times> rat" where
  "throttle_available reading perCall s =
     (let s1 = throttle_refill (resolveLimiterNow reading (th_nowExplicit s) perCall) s
      in (s1, th_tokens s1))"

definition throttle_reset :: "js_val \<Rightarrow> rat \<Rightarrow> throttle \<Rightarrow> (throttle, unit) step" where
  "throttle_reset count reading s =
     (let base = s\<lparr>th_lastRefill := reading, th_tokenRemainder := 0, th_backwardSteps := 0\<rparr> in
      if is_nullish count then (base\<lparr>th_tokens := th_capacity s\<rparr>, Inr ())
      else case to_number count of
        Inl e \<Rightarrow> (s, Inl e)
      | Inr num \<Rightarrow>
          (base\<lparr>th_tokens := (case num of Fin r \<Rightarrow> max 0 (min (th_capacity s) r)
             | PosInf \<Rightarrow> max 0 (th_capacity s) | _ \<Rightarrow> max 0 (min (th_capacity s) 0))\<rparr>, Inr ()))"

record throttle_report =
  tr_capacity :: rat
  tr_tokens :: rat
  tr_refillRate :: rat

definition throttle_stats :: "rat \<Rightarrow> throttle \<Rightarrow> throttle \<times> throttle_report" where
  "throttle_stats reading s =
     (let s1 = throttle_refill reading s
      in (s1, \<lparr>tr_capacity = th_capacity s1, tr_tokens = th_tokens s1, tr_refillRate = th_refillRate s1\<rparr>))"

definition throttle_dispose :: "rat \<Rightarrow> throttle \<Rightarrow> throttle" where
  "throttle_dispose reading s = fst (throttle_reset JUndefined reading s)"

section \<open>Earning tokens\<close>

text \<open>The bucket between calls: a carried fraction, and at most the capacity.\<close>

definition throttle_ok :: "throttle \<Rightarrow> rat \<Rightarrow> bool" where
  "throttle_ok s t \<longleftrightarrow> 1 \<le> th_capacity s \<and> th_tokens s \<le> th_capacity s \<and> 0 \<le> th_refillRate s \<and>
     0 \<le> th_tokenRemainder s \<and> th_tokenRemainder s < 1 \<and> th_lastRefill s \<le> t"

lemma throttle_refill_frame:
  "th_capacity (throttle_refill t s) = th_capacity s"
  "th_refillRate (throttle_refill t s) = th_refillRate s"
  "th_nowExplicit (throttle_refill t s) = th_nowExplicit s"
  by (simp_all add: throttle_refill_def Let_def)

text \<open>A refill going forward in time, in one equation for the tokens and the fraction.\<close>

lemma throttle_refill_forward:
  assumes "th_lastRefill s \<le> t" "0 < th_refillRate s" "0 \<le> th_tokenRemainder s" "th_tokenRemainder s < 1"
    and "th_tokens s \<le> th_capacity s"
  shows "throttle_refill t s =
    (let add = (t - th_lastRefill s) / MS_PER_SEC * th_refillRate s + th_tokenRemainder s in
     s\<lparr>th_backwardSteps := 0, th_tokenRemainder := add - of_int \<lfloor>add\<rfloor>, th_lastRefill := t,
       th_tokens := min (th_capacity s) (th_tokens s + of_int \<lfloor>add\<rfloor>)\<rparr>)"
proof (cases "th_lastRefill s = t")
  case True
  have "\<lfloor>th_tokenRemainder s\<rfloor> = 0" using assms(3,4) by (simp add: floor_eq_iff)
  then show ?thesis using True assms by (simp add: throttle_refill_def Let_def)
next
  case False
  let ?add = "(t - th_lastRefill s) / MS_PER_SEC * th_refillRate s + th_tokenRemainder s"
  have "0 \<le> ?add" using assms by (simp add: MS_PER_SEC_def)
  then have "0 < \<lfloor>?add\<rfloor> \<or> \<lfloor>?add\<rfloor> = 0" by linarith
  then show ?thesis using False assms by (auto simp: throttle_refill_def Let_def)
qed

lemma throttle_refill_ok:
  assumes "throttle_ok s t" "t \<le> u"
  shows "throttle_ok (throttle_refill u s) u"
proof (cases "th_refillRate s = 0")
  case True
  then show ?thesis using assms by (simp add: throttle_refill_def throttle_ok_def)
next
  case False
  then have pos: "0 < th_refillRate s" using assms by (simp add: throttle_ok_def)
  let ?add = "(u - th_lastRefill s) / MS_PER_SEC * th_refillRate s + th_tokenRemainder s"
  have "0 \<le> ?add - of_int \<lfloor>?add\<rfloor>" "?add - of_int \<lfloor>?add\<rfloor> < 1" by linarith+
  then show ?thesis
    using throttle_refill_forward [of s u] assms pos by (simp add: throttle_ok_def Let_def)
qed

text \<open>What can be spent: after a refill, the tokens and the carried fraction.\<close>

definition throttle_level :: "throttle \<Rightarrow> rat \<Rightarrow> rat" where
  "throttle_level s t = th_tokens (throttle_refill t s) + th_tokenRemainder (throttle_refill t s)"

text \<open>Refilling twice is refilling once: polling never changes what is earned.\<close>

lemma throttle_refill_twice:
  assumes "throttle_ok s t" "t \<le> u" "u \<le> v"
  shows "throttle_refill v (throttle_refill u s) = throttle_refill v s"
proof (cases "th_refillRate s = 0")
  case True
  then show ?thesis by (simp add: throttle_refill_def)
next
  case False
  have b: "0 < th_refillRate s" "th_lastRefill s \<le> u" "0 \<le> th_tokenRemainder s" "th_tokenRemainder s < 1"
      "th_tokens s \<le> th_capacity s"
    using False assms by (simp_all add: throttle_ok_def)
  let ?r = "th_refillRate s" and ?l = "th_lastRefill s"
  define a where "a = (u - ?l) / MS_PER_SEC * ?r + th_tokenRemainder s"
  define c where "c = (v - u) / MS_PER_SEC * ?r"
  have ac: "(v - ?l) / MS_PER_SEC * ?r + th_tokenRemainder s = a + c"
    by (simp add: a_def c_def MS_PER_SEC_def field_simps)
  let ?s = "s\<lparr>th_backwardSteps := 0, th_tokenRemainder := a - of_int \<lfloor>a\<rfloor>, th_lastRefill := u,
       th_tokens := min (th_capacity s) (th_tokens s + of_int \<lfloor>a\<rfloor>)\<rparr>"
  have one: "throttle_refill u s = ?s"
    using throttle_refill_forward [of s u] b by (simp add: Let_def a_def)
  have fr: "0 \<le> a - of_int \<lfloor>a\<rfloor>" "a - of_int \<lfloor>a\<rfloor> < 1" by linarith+
  have c0: "0 \<le> c" using b(1) assms(3) by (simp add: c_def MS_PER_SEC_def)
  have fl: "\<lfloor>c + (a - of_int \<lfloor>a\<rfloor>)\<rfloor> = \<lfloor>a + c\<rfloor> - \<lfloor>a\<rfloor>" by linarith
  have "\<lfloor>a\<rfloor> \<le> \<lfloor>a + c\<rfloor>" using c0 by (intro floor_mono) simp
  then have mn: "min (th_capacity s) (min (th_capacity s) (th_tokens s + of_int \<lfloor>a\<rfloor>) + of_int (\<lfloor>a + c\<rfloor> - \<lfloor>a\<rfloor>))
      = min (th_capacity s) (th_tokens s + of_int \<lfloor>a + c\<rfloor>)"
    using of_int_le_iff [of "\<lfloor>a\<rfloor>" "\<lfloor>a + c\<rfloor>", where 'a = rat] by (auto simp: min_def)
  have nz: "MS_PER_SEC \<noteq> 0" by (simp add: MS_PER_SEC_def)
  have "throttle_refill v ?s =
      (let add = c + (a - of_int \<lfloor>a\<rfloor>) in
       ?s\<lparr>th_backwardSteps := 0, th_tokenRemainder := add - of_int \<lfloor>add\<rfloor>, th_lastRefill := v,
         th_tokens := min (th_capacity s) (min (th_capacity s) (th_tokens s + of_int \<lfloor>a\<rfloor>) + of_int \<lfloor>add\<rfloor>)\<rparr>)"
    using throttle_refill_forward [of ?s v] b assms fr unfolding c_def by simp
  also have "\<dots> = s\<lparr>th_backwardSteps := 0, th_tokenRemainder := a + c - of_int \<lfloor>a + c\<rfloor>,
      th_lastRefill := v, th_tokens := min (th_capacity s) (th_tokens s + of_int \<lfloor>a + c\<rfloor>)\<rparr>"
    unfolding Let_def fl mn by simp
  also have "\<dots> = throttle_refill v s"
    using throttle_refill_forward [of s v] b assms ac by (simp add: Let_def)
  finally show ?thesis using one by simp
qed

section \<open>The bucket as a rate limiter\<close>

text \<open>One call of \<open>tryConsume(n)\<close> at a clock reading.\<close>

definition throttle_try :: "rat \<Rightarrow> nat \<Rightarrow> throttle \<Rightarrow> throttle \<times> bool" where
  "throttle_try now n s =
     (let (s1, r) = throttle_tryConsume (JNum (Fin (rat_of_nat n))) now None s in (s1, r = Inr True))"

lemma throttle_try_take:
  "throttle_try now n s = (if n = 0 then (s, True) else throttle_take now (int n) s)"
  by (simp add: throttle_try_def throttle_tryConsume_def default_to_def assertCount_def resolveLimiterNow_def
      case_prod_unfold Let_def)

lemma throttle_refill_idle:
  assumes "throttle_ok s t" "0 \<le> k" "t \<le> u"
  shows "throttle_refill u (throttle_refill u s\<lparr>th_tokens := th_tokens (throttle_refill u s) - k\<rparr>) =
    throttle_refill u s\<lparr>th_tokens := th_tokens (throttle_refill u s) - k\<rparr>"
proof (cases "th_refillRate s = 0")
  case True
  then show ?thesis by (simp add: throttle_refill_def)
next
  case False
  let ?s = "throttle_refill u s"
  have ok: "throttle_ok ?s u" using throttle_refill_ok [OF assms(1,3)] .
  have r: "0 < th_refillRate s" using False assms by (simp add: throttle_ok_def)
  have "?s = throttle_refill u ?s" using throttle_refill_twice [OF assms(1,3) order_refl] by simp
  moreover have "th_lastRefill ?s = u \<and> th_backwardSteps ?s = 0"
    using throttle_refill_forward [of s u] assms r by (simp add: throttle_ok_def Let_def)
  ultimately show ?thesis by (simp add: throttle_refill_def [of u "?s\<lparr>th_tokens := _\<rparr>"] throttle_refill_frame)
qed

lemma throttle_level_grows:
  assumes "throttle_ok s t" "t \<le> u"
  shows "throttle_level s u \<le> throttle_level s t + th_refillRate s / 1000 * (u - t)"
proof (cases "th_refillRate s = 0")
  case True
  then show ?thesis by (simp add: throttle_level_def throttle_refill_def)
next
  case False
  let ?s = "throttle_refill t s"
  have ok: "throttle_ok ?s t" using throttle_refill_ok [OF assms(1) order_refl] .
  have r: "0 < th_refillRate s" using False assms by (simp add: throttle_ok_def)
  have l: "th_lastRefill ?s = t"
    using throttle_refill_forward [of s t] assms(1) r by (simp add: throttle_ok_def Let_def)
  have "throttle_refill u s = throttle_refill u ?s"
    using throttle_refill_twice [OF assms(1) order_refl assms(2)] by simp
  moreover define add where "add = (u - t) / MS_PER_SEC * th_refillRate s + th_tokenRemainder ?s"
  moreover have "throttle_level ?s u = min (th_capacity s) (th_tokens ?s + of_int \<lfloor>add\<rfloor>) + (add - of_int \<lfloor>add\<rfloor>)"
    using throttle_refill_forward [of ?s u] ok r l assms(2)
    unfolding add_def by (simp add: throttle_level_def throttle_ok_def Let_def throttle_refill_frame)
  moreover have "add = th_refillRate s / 1000 * (u - t) + th_tokenRemainder ?s"
    by (simp add: add_def MS_PER_SEC_def)
  ultimately show ?thesis by (simp add: throttle_level_def)
qed

lemma throttle_level_now:
  assumes "throttle_ok s t" "t \<le> u"
  shows "throttle_level (throttle_refill u s) u = throttle_level s u"
  using throttle_refill_twice [OF assms order_refl] by (simp add: throttle_level_def)

lemma throttle_take_laws:
  assumes "throttle_ok s t" "t \<le> u"
  shows "throttle_ok (fst (throttle_take u (int n) s)) u"
    and "th_refillRate (fst (throttle_take u (int n) s)) = th_refillRate s"
    and "th_capacity (fst (throttle_take u (int n) s)) = th_capacity s"
    and "snd (throttle_take u (int n) s) \<Longrightarrow> rat_of_nat n \<le> throttle_level s u \<and>
      throttle_level (fst (throttle_take u (int n) s)) u = throttle_level s u - rat_of_nat n"
    and "\<not> snd (throttle_take u (int n) s) \<Longrightarrow>
      throttle_level (fst (throttle_take u (int n) s)) u = throttle_level s u"
proof -
  have ok: "throttle_ok (throttle_refill u s) u" by (rule throttle_refill_ok [OF assms])
  then show "throttle_ok (fst (throttle_take u (int n) s)) u"
    by (auto simp: throttle_take_def throttle_ok_def Let_def)
  show "th_refillRate (fst (throttle_take u (int n) s)) = th_refillRate s"
    "th_capacity (fst (throttle_take u (int n) s)) = th_capacity s"
    by (simp_all add: throttle_take_def Let_def throttle_refill_frame)
  show "rat_of_nat n \<le> throttle_level s u \<and>
      throttle_level (fst (throttle_take u (int n) s)) u = throttle_level s u - rat_of_nat n"
    if "snd (throttle_take u (int n) s)"
    using that ok throttle_refill_idle [OF assms(1) _ assms(2), of "rat_of_nat n"]
    by (auto simp: throttle_take_def throttle_level_def Let_def throttle_ok_def split: if_splits)
  show "throttle_level (fst (throttle_take u (int n) s)) u = throttle_level s u"
    if "\<not> snd (throttle_take u (int n) s)"
    using that throttle_level_now [OF assms] by (auto simp: throttle_take_def Let_def split: if_splits)
qed

interpretation bucket: rate_limiter throttle_ok throttle_try throttle_level "\<lambda>s. th_refillRate s / 1000"
    "\<lambda>s. th_capacity s + 1"
proof
  fix s :: throttle and t u :: rat and n :: nat
  show "throttle_ok s t \<Longrightarrow> t \<le> u \<Longrightarrow> throttle_ok s u" by (auto simp: throttle_ok_def)
  show "throttle_ok s t \<Longrightarrow> t \<le> u \<Longrightarrow> throttle_ok (fst (throttle_try u n s)) u"
    using throttle_take_laws(1) by (auto simp: throttle_try_take throttle_ok_def)
  show "th_refillRate (fst (throttle_try u n s)) / 1000 = th_refillRate s / 1000"
    "th_capacity (fst (throttle_try u n s)) + 1 = th_capacity s + 1"
    by (simp_all add: throttle_try_take throttle_take_def Let_def throttle_refill_frame)
  show "throttle_ok s t \<Longrightarrow> 0 \<le> th_refillRate s / 1000" by (simp add: throttle_ok_def)
  show "throttle_ok s t \<Longrightarrow> t \<le> u \<Longrightarrow> throttle_level s u \<le> throttle_level s t + th_refillRate s / 1000 * (u - t)"
    by (rule throttle_level_grows)
  show "throttle_level s t \<le> th_capacity s + 1" if "throttle_ok s t"
    using throttle_refill_ok [OF that order_refl] by (simp add: throttle_ok_def throttle_level_def throttle_refill_frame)
  show "throttle_ok s t \<Longrightarrow> t \<le> u \<Longrightarrow> snd (throttle_try u n s) \<Longrightarrow> rat_of_nat n \<le> max 0 (throttle_level s u) \<and>
      throttle_level (fst (throttle_try u n s)) u = throttle_level s u - rat_of_nat n"
    using throttle_take_laws(4) [of s t u n] by (auto simp: throttle_try_take split: if_splits)
  show "throttle_ok s t \<Longrightarrow> t \<le> u \<Longrightarrow> \<not> snd (throttle_try u n s) \<Longrightarrow>
      throttle_level (fst (throttle_try u n s)) u = throttle_level s u"
    using throttle_take_laws(5) [of s t u n] by (auto simp: throttle_try_take split: if_splits)
qed

lemma throttle_new_ok:
  assumes "throttle_new options t = Inr s"
  shows "throttle_ok s t"
proof -
  obtain v1 cls1 cap v2 cls2 rt where cap: "assertLimitRequired v1 ((limit_spec ''capacity'' cls1)
        \<lparr>sp_min := 1, sp_integer := True, sp_fallback := JNum (Fin 1)\<rparr>) = Inr cap" "th_capacity s = num_rat cap"
    and rt: "assertLimitRequired v2 ((limit_spec ''refillRate'' cls2)\<lparr>sp_fallback := JNum (Fin 0)\<rparr>) = Inr rt"
      "th_refillRate s = num_rat rt"
    and rest: "th_lastRefill s = t" "th_tokenRemainder s = 0" "th_tokens s \<le> th_capacity s"
    using assms unfolding throttle_new_def Let_def
    by (auto split: sum.splits if_splits js_val.splits js_num.splits)
  have "1 \<le> th_capacity s" using assertLimitRequired_cases [OF cap(1)] cap(2)
    by (auto simp: limit_spec_def num_rat_def)
  moreover have "0 \<le> th_refillRate s" using assertLimitRequired_cases [OF rt(1)] rt(2)
    by (auto simp: limit_spec_def num_rat_def)
  ultimately show ?thesis using rest by (simp add: throttle_ok_def)
qed

lemma fold_refill_frame: "th_nowExplicit (fold throttle_refill us s) = th_nowExplicit s"
  by (induction us arbitrary: s) (simp_all add: throttle_refill_frame)

section \<open>Properties\<close>

text \<open>
  C9. The rate holds.  On a new throttle, whatever was asked of it before, any stretch of
  \<open>tryConsume\<close> calls with non-decreasing clock readings is granted at most the capacity, one
  token for the carried fraction, and the tokens the refill rate earns while the stretch lasts.
\<close>

theorem throttle_rate_bound:
  assumes "throttle_new options t = Inr s" "sorted (t # map snd pre @ u # map snd mid)"
  shows "rat_of_nat (snd (limiter_run throttle_try ((n, u) # mid) (fst (limiter_run throttle_try pre s))))
    \<le> th_capacity s + 1 + th_refillRate s / 1000 * (last (u # map snd mid) - u)"
proof -
  have ok: "throttle_ok s t" by (rule throttle_new_ok [OF assms(1)])
  have "\<forall>x\<in>set (u # map snd mid). u \<le> x" using assms(2) by (auto simp: sorted_append)
  then have "u \<le> last (u # map snd mid)" using last_in_set [of "u # map snd mid"] by blast
  then have "0 \<le> th_capacity s + 1 + th_refillRate s / 1000 * (last (u # map snd mid) - u)"
    using ok by (simp add: throttle_ok_def)
  then show ?thesis using bucket.window_bound [OF ok assms(2), of n] by simp
qed

theorem throttle_rate_bound_witness:
  "case throttle_new (JObj [(''capacity'', JNum (Fin 2)), (''refillRate'', JNum (Fin 100))]) 0 of
     Inr s \<Rightarrow> rat_of_nat (snd (limiter_run throttle_try [(2, 5), (1, 9), (1, 25)]
         (fst (limiter_run throttle_try [(1, 3)] s)))) \<le> 5
   | _ \<Rightarrow> False"
proof -
  have "case throttle_new (JObj [(''capacity'', JNum (Fin 2)), (''refillRate'', JNum (Fin 100))]) 0 of
     Inr s \<Rightarrow> th_capacity s = 2 \<and> th_refillRate s = 100 | _ \<Rightarrow> False" by code_simp
  then obtain s where s: "throttle_new (JObj [(''capacity'', JNum (Fin 2)), (''refillRate'', JNum (Fin 100))]) 0 = Inr s"
     "th_capacity s = 2" "th_refillRate s = 100"
    by (auto split: sum.splits)
  show ?thesis
    using throttle_rate_bound [OF s(1), of "[(1, 3)]" 5 "[(1, 9), (1, 25)]" 2] s by simp
qed

text \<open>
  Looking is free.  However often \<open>available()\<close> is polled between two points in time, the
  next \<open>tryConsume\<close> answers and leaves the bucket exactly as if nobody had looked: the carried
  fraction makes lazy refills add up.
\<close>

theorem throttle_polling_free:
  assumes "throttle_ok s t" "sorted (t # polls @ [v])"
    and "assertCount (default_to (JNum (Fin 1)) x) ''n'' ''PowerThrottle.tryConsume'' = Inr (int n)" "0 < n"
  shows "throttle_tryConsume x v None (fold (\<lambda>u s. fst (throttle_available u None s)) polls s) =
    throttle_tryConsume x v None s"
proof -
  have poll: "fst (throttle_available u None s') = throttle_refill u s'" for u s'
    by (simp add: throttle_available_def resolveLimiterNow_def Let_def)
  have "throttle_refill v (fold throttle_refill polls s) = throttle_refill v s"
    using assms(1,2)
  proof (induction polls arbitrary: s t)
    case (Cons u polls)
    have ok: "throttle_ok (throttle_refill u s) u" using throttle_refill_ok [OF Cons.prems(1)] Cons.prems(2) by simp
    have "throttle_refill v (fold throttle_refill polls (throttle_refill u s)) = throttle_refill v (throttle_refill u s)"
      using Cons.IH [OF ok] Cons.prems(2) by simp
    then show ?case using throttle_refill_twice [OF Cons.prems(1), of u v] Cons.prems(2) by simp
  qed simp
  then show ?thesis
    using assms(3,4) by (simp add: poll throttle_tryConsume_def throttle_take_def resolveLimiterNow_def
        fold_refill_frame)
qed

theorem throttle_polling_free_witness:
  "case throttle_new (JObj [(''capacity'', JNum (Fin 2)), (''refillRate'', JNum (Fin 100))]) 0 of
     Inr s \<Rightarrow> throttle_tryConsume (JNum (Fin 1)) 10 None
         (fold (\<lambda>u s. fst (throttle_available u None s)) [3, 6, 9] (fst (throttle_take 0 2 s))) =
       throttle_tryConsume (JNum (Fin 1)) 10 None (fst (throttle_take 0 2 s)) \<and>
       snd (throttle_tryConsume (JNum (Fin 1)) 10 None (fst (throttle_take 0 2 s))) = Inr True
   | _ \<Rightarrow> False"
proof -
  have "case throttle_new (JObj [(''capacity'', JNum (Fin 2)), (''refillRate'', JNum (Fin 100))]) 0 of
     Inr s \<Rightarrow> snd (throttle_tryConsume (JNum (Fin 1)) 10 None (fst (throttle_take 0 2 s))) = Inr True | _ \<Rightarrow> False"
    by code_simp
  then obtain s where s: "throttle_new (JObj [(''capacity'', JNum (Fin 2)), (''refillRate'', JNum (Fin 100))]) 0 = Inr s"
     "snd (throttle_tryConsume (JNum (Fin 1)) 10 None (fst (throttle_take 0 2 s))) = Inr True"
    by (auto split: sum.splits)
  have ok: "throttle_ok (fst (throttle_take 0 2 s)) 0"
    using throttle_take_laws(1) [OF throttle_new_ok [OF s(1)] order_refl, of 2] by simp
  have n: "assertCount (default_to (JNum (Fin 1)) (JNum (Fin 1))) ''n'' ''PowerThrottle.tryConsume'' = Inr (int 1)"
    by (simp add: assertCount_def default_to_def)
  show ?thesis using throttle_polling_free [OF ok _ n, of "[3, 6, 9]" 10] s by simp
qed

text \<open>
  A clock that steps back.  While the clock reads earlier than the last refill, looking at
  the bucket changes nothing but the count of such readings; the third in a row is accepted as
  the new time base.  No tokens are ever credited for it.
\<close>

theorem throttle_backward_clock:
  assumes "0 < th_refillRate s" "th_backwardSteps s = 0" "\<forall>u \<in> set us. u < th_lastRefill s"
  shows "(length us < 3 \<longrightarrow> fold (\<lambda>u s. fst (throttle_available u None s)) us s = s\<lparr>th_backwardSteps := length us\<rparr>) \<and>
    (length us = 3 \<longrightarrow> fold (\<lambda>u s. fst (throttle_available u None s)) us s =
       s\<lparr>th_lastRefill := last us, th_backwardSteps := 0\<rparr>)"
proof -
  have poll: "fst (throttle_available u None s') = throttle_refill u s'" for u s'
    by (simp add: throttle_available_def resolveLimiterNow_def Let_def)
  have step_back: "throttle_refill u (s\<lparr>th_backwardSteps := k\<rparr>) =
      (if k = 2 then s\<lparr>th_lastRefill := u, th_backwardSteps := 0\<rparr> else s\<lparr>th_backwardSteps := Suc k\<rparr>)"
    if "u < th_lastRefill s" "k \<le> 2" for u k
    using that assms(1) by (auto simp: throttle_refill_def BACKWARD_CLOCK_TOLERANCE_def)
  have short: "fold throttle_refill xs s = s\<lparr>th_backwardSteps := length xs\<rparr>"
    if "length xs < 3" "set xs \<subseteq> set us" for xs
    using that
  proof (induction xs rule: rev_induct)
    case Nil
    then show ?case using assms(2) by simp
  next
    case (snoc x xs)
    then show ?case using step_back [of x "length xs"] assms(3) by auto
  qed
  have "fold throttle_refill us s = s\<lparr>th_lastRefill := last us, th_backwardSteps := 0\<rparr>" if l: "length us = 3"
  proof -
    have us: "us = butlast us @ [last us]" using l by (cases us) auto
    have "fold throttle_refill (butlast us) s = s\<lparr>th_backwardSteps := 2\<rparr>"
      using short [of "butlast us"] l by (auto dest: in_set_butlastD)
    moreover have "last us < th_lastRefill s" using assms(3) l by (cases us) auto
    ultimately show ?thesis using step_back [of "last us" 2] us by (metis fold_append comp_apply fold_simps(1) fold_simps(2) order_refl)
  qed
  then show ?thesis using short [of us] by (simp add: poll)
qed

theorem throttle_backward_clock_witness:
  "case throttle_new (JObj [(''refillRate'', JNum (Fin 100))]) 50 of
     Inr s \<Rightarrow> th_lastRefill (fold (\<lambda>u s. fst (throttle_available u None s)) [40, 45] s) = 50 \<and>
       th_lastRefill (fold (\<lambda>u s. fst (throttle_available u None s)) [40, 45, 42] s) = 42
   | _ \<Rightarrow> False"
proof -
  have "case throttle_new (JObj [(''refillRate'', JNum (Fin 100))]) 50 of
     Inr s \<Rightarrow> th_refillRate s = 100 \<and> th_backwardSteps s = 0 \<and> th_lastRefill s = 50 | _ \<Rightarrow> False" by code_simp
  then obtain s where s: "throttle_new (JObj [(''refillRate'', JNum (Fin 100))]) 50 = Inr s"
     "th_refillRate s = 100" "th_backwardSteps s = 0" "th_lastRefill s = 50"
    by (auto split: sum.splits)
  show ?thesis
    using throttle_backward_clock [of s "[40, 45]"] throttle_backward_clock [of s "[40, 45, 42]"] s by simp
qed

end
