(* ===== verification/Gcra.thy ===== *)
theory Gcra
  imports LimiterClock
begin

text \<open>
  The generic cell rate algorithm (\<open>src/helpers/powerGCRA.js\<close>).  The state is one instant, the
  theoretical arrival time: \<open>None\<close> is the code's \<open>-Infinity\<close>.  The error handler is represented
  by the list of readings it was called with; it is taken not to call back into the limiter.
  The metrics registration is left out.
\<close>

section \<open>State\<close>

record gcra =
  gc_rate :: rat
  gc_per :: rat
  gc_burst :: rat
  gc_emission :: rat
  gc_delayTolerance :: rat
  gc_tat :: "rat option"
  gc_nowExplicit :: bool
  gc_lastNow :: "rat option"
  gc_onError :: bool
  gc_reports :: "rat list"

definition valid_rate :: "js_val \<Rightarrow> rat result" where
  "valid_rate v =
     (case to_number v of
        Inl e \<Rightarrow> Inl e
      | Inr n \<Rightarrow> (case n of Fin r \<Rightarrow> (if r \<le> 0 then Inl (BadRate v) else Inr r) | _ \<Rightarrow> Inl (BadRate v)))"

text \<open>
  The constructor checks \<open>per\<close> and \<open>burst\<close> but keeps \<open>Number(per)\<close> and \<open>Number(burst)\<close>, not the
  values the checks return.
\<close>

definition number_of :: "js_val \<Rightarrow> rat" where
  "number_of v = (case to_number v of Inr (Fin r) \<Rightarrow> r | _ \<Rightarrow> 0)"

definition gcra_new :: "js_val \<Rightarrow> gcra result" where
  "gcra_new options =
     (case assertKnownOptions options [''rate'', ''per'', ''burst'', ''observability'', ''now'', ''onError''] ''PowerGCRA'' of
        Inl e \<Rightarrow> Inl e
      | Inr _ \<Rightarrow>
          (let per = default_to (JNum (Fin 1000)) (get_prop ''per'' options);
               burst = default_to (JNum (Fin 0)) (get_prop ''burst'' options);
               onError = default_to JNull (get_prop ''onError'' options)
           in case valid_rate (get_prop ''rate'' options) of
                Inl e \<Rightarrow> Inl e
              | Inr r \<Rightarrow>
                  (case assertLimitRequired per
                          ((limit_spec ''per'' ''PowerGCRA'')\<lparr>sp_min := 1, sp_fallback := JNum (Fin 1000)\<rparr>) of
                     Inl e \<Rightarrow> Inl e
                   | Inr _ \<Rightarrow>
                       (case assertLimitRequired burst
                               ((limit_spec ''burst'' ''PowerGCRA'')\<lparr>sp_fallback := JNum (Fin 0)\<rparr>) of
                          Inl e \<Rightarrow> Inl e
                        | Inr _ \<Rightarrow>
                            (case attachLimiterClock (get_prop ''now'' options) ''PowerGCRA'' of
                               Inl e \<Rightarrow> Inl e
                             | Inr explicit \<Rightarrow>
                                 Inr \<lparr>gc_rate = r, gc_per = number_of per, gc_burst = number_of burst,
                                   gc_emission = number_of per / r,
                                   gc_delayTolerance = number_of burst * (number_of per / r),
                                   gc_tat = None, gc_nowExplicit = explicit, gc_lastNow = None,
                                   gc_onError = (case onError of JFun f \<Rightarrow> True | _ \<Rightarrow> False), gc_reports = []\<rparr>)))))"

section \<open>Operations\<close>

definition gcra_setRate :: "js_val \<Rightarrow> gcra \<Rightarrow> (gcra, rat) step" where
  "gcra_setRate rate s =
     (case valid_rate rate of
        Inl e \<Rightarrow> (s, Inl e)
      | Inr r \<Rightarrow> (s\<lparr>gc_rate := r, gc_emission := gc_per s / r, gc_delayTolerance := gc_burst s * (gc_per s / r)\<rparr>, Inr r))"

definition gcra_notifyClock :: "rat \<Rightarrow> gcra \<Rightarrow> gcra" where
  "gcra_notifyClock now s = (if \<not> gc_onError s then s else s\<lparr>gc_reports := gc_reports s @ [now]\<rparr>)"

definition gcra_ceiling :: "gcra \<Rightarrow> int" where
  "gcra_ceiling s = \<lfloor>gc_burst s\<rfloor> + 1"

definition gcra_remainingAt :: "gcra \<Rightarrow> rat \<Rightarrow> rat \<Rightarrow> rat" where
  "gcra_remainingAt s tat now = gc_delayTolerance s - (tat - now)"

definition gcra_tatAt :: "gcra \<Rightarrow> rat \<Rightarrow> rat" where
  "gcra_tatAt s now = (case gc_tat s of None \<Rightarrow> now | Some tat \<Rightarrow> max now tat)"

text \<open>The division is reached with a positive emission only: with none, nothing lies below the tolerance 0.\<close>

definition gcra_covers :: "gcra \<Rightarrow> rat \<Rightarrow> rat \<Rightarrow> int" where
  "gcra_covers s tat now =
     (let remaining = gcra_remainingAt s tat now in
      if remaining < 0 then 0
      else if gc_delayTolerance s \<le> remaining then gcra_ceiling s
      else \<lfloor>remaining / gc_emission s\<rfloor> + 1)"

text \<open>Noting the reading, and reporting it when the clock went back: the preamble of both consuming methods.\<close>

definition gcra_see :: "rat \<Rightarrow> gcra \<Rightarrow> gcra" where
  "gcra_see now s =
     (let s1 = (case gc_lastNow s of Some l \<Rightarrow> (if now < l then gcra_notifyClock now s else s) | None \<Rightarrow> s)
      in s1\<lparr>gc_lastNow := Some now\<rparr>)"

definition gcra_tryConsume :: "js_val \<Rightarrow> rat \<Rightarrow> rat option \<Rightarrow> gcra \<Rightarrow> (gcra, bool) step" where
  "gcra_tryConsume n reading perCall s =
     (case assertCount (default_to (JNum (Fin 1)) n) ''n'' ''PowerGCRA.tryConsume'' of
        Inl e \<Rightarrow> (s, Inl e)
      | Inr count \<Rightarrow>
          (if count = 0 then (s, Inr True)
           else
             (let now = resolveLimiterNow reading (gc_nowExplicit s) perCall;
                  s1 = gcra_see now s;
                  tat = gcra_tatAt s1 now
              in if count \<le> gcra_covers s1 tat now
                 then (s1\<lparr>gc_tat := Some (tat + of_int count * gc_emission s1)\<rparr>, Inr True)
                 else (s1, Inr False))))"

definition gcra_retryAfter :: "js_val \<Rightarrow> rat \<Rightarrow> rat option \<Rightarrow> gcra \<Rightarrow> rat result" where
  "gcra_retryAfter n reading perCall s =
     (case assertCount (default_to (JNum (Fin 1)) n) ''n'' ''PowerGCRA.retryAfter'' of
        Inl e \<Rightarrow> Inl e
      | Inr count \<Rightarrow>
          (if count = 0 then Inr 0
           else if gcra_ceiling s < count then Inl (NeverAdmits count (gcra_ceiling s))
           else
             (let now = resolveLimiterNow reading (gc_nowExplicit s) perCall;
                  remaining = gcra_remainingAt s (gcra_tatAt s now) now;
                  wait = of_int (count - 1) * gc_emission s - remaining
              in Inr (if wait \<le> 0 then 0 else wait))))"

text \<open>\<open>Inr None\<close> is \<open>{ ok: true, runAt: null }\<close>, \<open>Inr (Some t)\<close> is \<open>{ ok: false, runAt: t }\<close>.\<close>

definition gcra_tryReserve :: "js_val \<Rightarrow> rat \<Rightarrow> rat option \<Rightarrow> gcra \<Rightarrow> (gcra, rat option) step" where
  "gcra_tryReserve n reading perCall s =
     (case assertCount (default_to (JNum (Fin 1)) n) ''n'' ''PowerGCRA.tryReserve'' of
        Inl e \<Rightarrow> (s, Inl e)
      | Inr count \<Rightarrow>
          (if count = 0 then (s, Inr None)
           else
             (let now = resolveLimiterNow reading (gc_nowExplicit s) perCall;
                  s1 = gcra_see now s;
                  tat = gcra_tatAt s1 now
              in if count \<le> gcra_covers s1 tat now
                 then (s1\<lparr>gc_tat := Some (tat + of_int count * gc_emission s1)\<rparr>, Inr None)
                 else
                   (let remaining = gcra_remainingAt s1 tat now;
                        wait = of_int (count - 1) * gc_emission s1 - remaining
                    in (s1, Inr (Some (now + (if 0 < wait then wait else 0))))))))"

text \<open>\<open>take(n)\<close> reads the clock once for each of its two calls; \<open>Inr None\<close> is \<open>{ ok: true }\<close>.\<close>

definition gcra_take :: "js_val \<Rightarrow> rat \<Rightarrow> rat \<Rightarrow> gcra \<Rightarrow> (gcra, rat option) step" where
  "gcra_take n reading1 reading2 s =
     (case gcra_tryConsume n reading1 None s of
        (s1, Inl e) \<Rightarrow> (s1, Inl e)
      | (s1, Inr granted) \<Rightarrow>
          (if granted then (s1, Inr None)
           else (case gcra_retryAfter n reading2 None s1 of
                   Inl e \<Rightarrow> (s1, Inl e) | Inr w \<Rightarrow> (s1, Inr (Some w)))))"

definition gcra_available :: "rat \<Rightarrow> rat option \<Rightarrow> gcra \<Rightarrow> int" where
  "gcra_available reading perCall s =
     (let now = resolveLimiterNow reading (gc_nowExplicit s) perCall
      in gcra_covers s (gcra_tatAt s now) now)"

definition gcra_hasCapacity :: "rat \<Rightarrow> gcra \<Rightarrow> bool" where
  "gcra_hasCapacity reading s \<longleftrightarrow> 0 < gcra_available reading None s"

definition gcra_reset :: "gcra \<Rightarrow> gcra" where
  "gcra_reset s = s\<lparr>gc_tat := None\<rparr>"

definition gcra_clear :: "gcra \<Rightarrow> gcra" where
  "gcra_clear s = gcra_reset s"

definition gcra_dispose :: "gcra \<Rightarrow> gcra" where
  "gcra_dispose s = s\<lparr>gc_tat := None\<rparr>"

record gcra_report =
  gr_rate :: rat
  gr_per :: rat
  gr_burst :: rat
  gr_emissionInterval :: rat
  gr_delayTolerance :: rat
  gr_tat :: "rat option"

definition gcra_stats :: "gcra \<Rightarrow> gcra_report" where
  "gcra_stats s = \<lparr>gr_rate = gc_rate s, gr_per = gc_per s, gr_burst = gc_burst s,
     gr_emissionInterval = gc_emission s, gr_delayTolerance = gc_delayTolerance s, gr_tat = gc_tat s\<rparr>"

section \<open>Admission is one comparison\<close>

definition gcra_ok :: "gcra \<Rightarrow> bool" where
  "gcra_ok s \<longleftrightarrow> 0 < gc_emission s \<and> 0 \<le> gc_burst s \<and> gc_delayTolerance s = gc_burst s * gc_emission s"

lemma gcra_see_frame [simp]:
  "gc_emission (gcra_see now s) = gc_emission s" "gc_burst (gcra_see now s) = gc_burst s"
  "gc_delayTolerance (gcra_see now s) = gc_delayTolerance s" "gc_tat (gcra_see now s) = gc_tat s"
  "gc_nowExplicit (gcra_see now s) = gc_nowExplicit s" "gc_onError (gcra_see now s) = gc_onError s"
  "gcra_tatAt (gcra_see now s) t = gcra_tatAt s t" "gcra_covers (gcra_see now s) a b = gcra_covers s a b"
  "gcra_remainingAt (gcra_see now s) a b = gcra_remainingAt s a b"
  by (simp_all add: gcra_see_def gcra_notifyClock_def gcra_tatAt_def gcra_covers_def gcra_remainingAt_def
      gcra_ceiling_def Let_def split: option.split)

text \<open>The budget at an instant, after clamping the arrival time to the clock.\<close>

definition gcra_budget :: "gcra \<Rightarrow> rat \<Rightarrow> rat" where
  "gcra_budget s now = gcra_remainingAt s (gcra_tatAt s now) now"

lemma gcra_budget_max: "gcra_budget s now \<le> gc_delayTolerance s"
  by (simp add: gcra_budget_def gcra_remainingAt_def gcra_tatAt_def split: option.split)

text \<open>Both branches of \<open>_covers\<close> answer the same question.\<close>

lemma gcra_covers_iff:
  assumes "gcra_ok s" "0 < n"
  shows "n \<le> gcra_covers s (gcra_tatAt s now) now \<longleftrightarrow> of_int (n - 1) * gc_emission s \<le> gcra_budget s now"
proof -
  define r where "r = gcra_budget s now"
  have em: "0 < gc_emission s" and d: "gc_delayTolerance s = gc_burst s * gc_emission s"
    using assms by (simp_all add: gcra_ok_def)
  have le: "r \<le> gc_delayTolerance s" unfolding r_def by (rule gcra_budget_max)
  have cov: "gcra_covers s (gcra_tatAt s now) now = (if r < 0 then 0
      else if gc_delayTolerance s \<le> r then gcra_ceiling s else \<lfloor>r / gc_emission s\<rfloor> + 1)"
    by (simp add: gcra_covers_def Let_def r_def gcra_budget_def)
  have fl: "n \<le> \<lfloor>x\<rfloor> + 1 \<longleftrightarrow> of_int (n - 1) \<le> x" for x :: rat by linarith
  have nn: "0 \<le> of_int (n - 1) * gc_emission s" using assms(2) em by simp
  consider "r < 0" | "0 \<le> r" "gc_delayTolerance s \<le> r" | "0 \<le> r" "r < gc_delayTolerance s" by linarith
  then show ?thesis
  proof cases
    case 1
    then show ?thesis using cov assms(2) nn unfolding r_def [symmetric] by auto
  next
    case 2
    then have "r = gc_burst s * gc_emission s" using le d by simp
    then show ?thesis using 2 cov fl [of "gc_burst s"] em unfolding r_def [symmetric] by (simp add: gcra_ceiling_def)
  next
    case 3
    then show ?thesis using cov fl [of "r / gc_emission s"] em unfolding r_def [symmetric]
      by (simp add: pos_le_divide_eq)
  qed
qed

lemma gcra_tryConsume_step:
  assumes "gcra_ok s" "assertCount (default_to (JNum (Fin 1)) v) ''n'' ''PowerGCRA.tryConsume'' = Inr n" "0 < n"
    and "now = resolveLimiterNow reading (gc_nowExplicit s) perCall"
  shows "gcra_tryConsume v reading perCall s =
    (if of_int (n - 1) * gc_emission s \<le> gcra_budget s now
     then ((gcra_see now s)\<lparr>gc_tat := Some (gcra_tatAt s now + of_int n * gc_emission s)\<rparr>, Inr True)
     else (gcra_see now s, Inr False))"
  using gcra_covers_iff [OF assms(1,3), of now] assms(2,3) by (simp add: gcra_tryConsume_def Let_def assms(4))

lemma gcra_new_ok:
  assumes "gcra_new options = Inr s"
  shows "gc_tat s = None \<and> gc_lastNow s = None \<and> gc_reports s = [] \<and> 0 < gc_rate s \<and> 0 \<le> gc_burst s \<and>
    gc_emission s = gc_per s / gc_rate s \<and> gc_delayTolerance s = gc_burst s * gc_emission s \<and>
    (if get_prop ''per'' options = JNull then gc_per s = 0 else 1 \<le> gc_per s)"
proof -
  define per where "per = default_to (JNum (Fin 1000)) (get_prop ''per'' options)"
  define burst where "burst = default_to (JNum (Fin 0)) (get_prop ''burst'' options)"
  obtain p b where p: "assertLimitRequired per
        ((limit_spec ''per'' ''PowerGCRA'')\<lparr>sp_min := 1, sp_fallback := JNum (Fin 1000)\<rparr>) = Inr p"
    and b: "assertLimitRequired burst ((limit_spec ''burst'' ''PowerGCRA'')\<lparr>sp_fallback := JNum (Fin 0)\<rparr>) = Inr b"
    and s: "gc_per s = number_of per" "gc_burst s = number_of burst" "gc_emission s = gc_per s / gc_rate s"
      "gc_delayTolerance s = gc_burst s * gc_emission s" "gc_tat s = None" "gc_lastNow s = None" "gc_reports s = []"
      "0 < gc_rate s"
    using assms unfolding gcra_new_def Let_def per_def burst_def valid_rate_def
    by (auto split: sum.splits if_splits js_num.splits)
  have num: "is_nullish v \<or> lo \<le> number_of v"
    if "assertLimitRequired v ((limit_spec nm ''PowerGCRA'')\<lparr>sp_min := lo, sp_fallback := fb\<rparr>) = Inr x" for v nm lo fb x
    using that by (auto simp: assertLimitRequired_def assertLimit_def limit_spec_def number_of_def
        split: if_splits sum.splits js_num.splits js_val.splits)
  have pu: "per \<noteq> JUndefined" "burst \<noteq> JUndefined" by (simp_all add: per_def burst_def default_to_def)
  have "get_prop ''per'' options = JNull \<longleftrightarrow> per = JNull" by (simp add: per_def default_to_def)
  moreover have "is_nullish per \<longleftrightarrow> per = JNull" using pu by (cases per) auto
  moreover have "number_of JNull = 0" by (simp add: number_of_def)
  moreover have "0 \<le> number_of burst"
  proof (cases "is_nullish burst")
    case True
    then show ?thesis using pu by (cases burst) (auto simp: number_of_def)
  next
    case False
    have "(limit_spec ''burst'' ''PowerGCRA'')\<lparr>sp_fallback := JNum (Fin 0)\<rparr> =
        (limit_spec ''burst'' ''PowerGCRA'')\<lparr>sp_min := 0, sp_fallback := JNum (Fin 0)\<rparr>"
      by (simp add: limit_spec_def)
    with b have "assertLimitRequired burst
        ((limit_spec ''burst'' ''PowerGCRA'')\<lparr>sp_min := 0, sp_fallback := JNum (Fin 0)\<rparr>) = Inr b" by simp
    from num [OF this] False show ?thesis by simp
  qed
  ultimately show ?thesis using s num [OF p] by auto
qed

lemma gcra_budget_see [simp]: "gcra_budget (gcra_see t s) now = gcra_budget s now"
  by (simp add: gcra_budget_def)

lemma gcra_budget_spend:
  assumes "0 \<le> k"
  shows "gcra_budget (s\<lparr>gc_tat := Some (gcra_tatAt s now + k)\<rparr>) now = gcra_budget s now - k"
proof -
  have "now \<le> gcra_tatAt s now" by (simp add: gcra_tatAt_def split: option.split)
  then show ?thesis using assms
    by (simp add: gcra_budget_def gcra_remainingAt_def gcra_tatAt_def [of "s\<lparr>gc_tat := _\<rparr>"])
qed

text \<open>Time gives the budget back at its own pace, up to the tolerance.\<close>

lemma gcra_budget_later:
  assumes "now \<le> later"
  shows "gcra_budget s later = min (gc_delayTolerance s) (gcra_budget s now + (later - now))"
proof (cases "gc_tat s")
  case None
  then show ?thesis using assms by (simp add: gcra_budget_def gcra_remainingAt_def gcra_tatAt_def)
next
  case (Some tat)
  then show ?thesis using assms by (simp add: gcra_budget_def gcra_remainingAt_def gcra_tatAt_def min_def max_def)
qed

lemma gcra_budget_grows: "now \<le> later \<Longrightarrow> gcra_budget s later \<le> gcra_budget s now + (later - now)"
  by (simp add: gcra_budget_later)

section \<open>The limiter under the contract\<close>

definition gcra_try :: "rat \<Rightarrow> nat \<Rightarrow> gcra \<Rightarrow> gcra \<times> bool" where
  "gcra_try now n s =
     (let (s1, r) = gcra_tryConsume (JNum (Fin (rat_of_nat n))) now None s in (s1, r = Inr True))"

lemma gcra_try_step:
  assumes "gcra_ok s"
  shows "gcra_try now n s =
    (if n = 0 then (s, True)
     else if rat_of_int (int n - 1) * gc_emission s \<le> gcra_budget s now
     then ((gcra_see now s)\<lparr>gc_tat := Some (gcra_tatAt s now + rat_of_nat n * gc_emission s)\<rparr>, True)
     else (gcra_see now s, False))"
proof (cases "n = 0")
  case True
  then show ?thesis by (simp add: gcra_try_def gcra_tryConsume_def default_to_def assertCount_def)
next
  case False
  have "assertCount (default_to (JNum (Fin 1)) (JNum (Fin (rat_of_nat n)))) ''n'' ''PowerGCRA.tryConsume'' = Inr (int n)"
    by (simp add: default_to_def assertCount_def)
  from gcra_tryConsume_step [OF assms this, of now now None] False show ?thesis
    by (simp add: gcra_try_def resolveLimiterNow_def)
qed

text \<open>Operations left, with the fraction: the whole burst and one at rest.\<close>

definition gcra_level :: "gcra \<Rightarrow> rat \<Rightarrow> rat" where
  "gcra_level s now = gcra_budget s now / gc_emission s + 1"

lemma gcra_try_laws:
  assumes "gcra_ok s"
  shows "gcra_ok (fst (gcra_try u n s))"
    and "gc_emission (fst (gcra_try u n s)) = gc_emission s" and "gc_burst (fst (gcra_try u n s)) = gc_burst s"
    and "gc_nowExplicit (fst (gcra_try u n s)) = gc_nowExplicit s"
    and "snd (gcra_try u n s) \<Longrightarrow> rat_of_nat n \<le> max 0 (gcra_level s u) \<and>
      gcra_level (fst (gcra_try u n s)) u = gcra_level s u - rat_of_nat n"
    and "\<not> snd (gcra_try u n s) \<Longrightarrow> gcra_level (fst (gcra_try u n s)) u = gcra_level s u"
proof -
  have em: "0 < gc_emission s" using assms by (simp add: gcra_ok_def)
  show "gcra_ok (fst (gcra_try u n s))" "gc_emission (fst (gcra_try u n s)) = gc_emission s"
    "gc_burst (fst (gcra_try u n s)) = gc_burst s" "gc_nowExplicit (fst (gcra_try u n s)) = gc_nowExplicit s"
    using assms by (simp_all add: gcra_try_step gcra_ok_def)
  show "\<not> snd (gcra_try u n s) \<Longrightarrow> gcra_level (fst (gcra_try u n s)) u = gcra_level s u"
    using assms by (auto simp: gcra_try_step gcra_level_def split: if_splits)
  assume g: "snd (gcra_try u n s)"
  show "rat_of_nat n \<le> max 0 (gcra_level s u) \<and> gcra_level (fst (gcra_try u n s)) u = gcra_level s u - rat_of_nat n"
  proof (cases "n = 0")
    case False
    then have fits: "rat_of_int (int n - 1) * gc_emission s \<le> gcra_budget s u"
      and st: "fst (gcra_try u n s) =
        (gcra_see u s)\<lparr>gc_tat := Some (gcra_tatAt (gcra_see u s) u + rat_of_nat n * gc_emission s)\<rparr>"
      using g assms by (auto simp: gcra_try_step split: if_splits)
    have "rat_of_nat n - 1 \<le> gcra_budget s u / gc_emission s" using fits em by (simp add: pos_le_divide_eq)
    moreover have "gcra_budget (fst (gcra_try u n s)) u = gcra_budget s u - rat_of_nat n * gc_emission s"
      unfolding st using em by (subst gcra_budget_spend) simp_all
    ultimately show ?thesis using em st by (simp add: gcra_level_def diff_divide_distrib)
  qed (simp add: gcra_try_step assms)
qed

interpretation cell: rate_limiter "\<lambda>s t. gcra_ok s" gcra_try gcra_level "\<lambda>s. 1 / gc_emission s" "\<lambda>s. gc_burst s + 1"
proof
  fix s :: gcra and t u :: rat and n :: nat
  assume ok: "gcra_ok s"
  then have em: "0 < gc_emission s" by (simp add: gcra_ok_def)
  then show "0 \<le> 1 / gc_emission s" by simp
  show "gcra_level s t \<le> gc_burst s + 1"
    using gcra_budget_max [of s t] ok em by (simp add: gcra_level_def gcra_ok_def pos_divide_le_eq)
  show "t \<le> u \<Longrightarrow> gcra_level s u \<le> gcra_level s t + 1 / gc_emission s * (u - t)"
    using gcra_budget_grows [of t u s] em by (simp add: gcra_level_def divide_right_mono flip: add_divide_distrib)
  show "gcra_ok (fst (gcra_try u n s))" by (rule gcra_try_laws(1) [OF ok])
  show "snd (gcra_try u n s) \<Longrightarrow> rat_of_nat n \<le> max 0 (gcra_level s u) \<and>
      gcra_level (fst (gcra_try u n s)) u = gcra_level s u - rat_of_nat n"
    by (rule gcra_try_laws(5) [OF ok])
  show "\<not> snd (gcra_try u n s) \<Longrightarrow> gcra_level (fst (gcra_try u n s)) u = gcra_level s u"
    by (rule gcra_try_laws(6) [OF ok])
next
  fix s :: gcra and u :: rat and n :: nat
  show "1 / gc_emission (fst (gcra_try u n s)) = 1 / gc_emission s" "gc_burst (fst (gcra_try u n s)) + 1 = gc_burst s + 1"
    by (simp_all add: gcra_try_def gcra_tryConsume_def Let_def split: sum.split)
qed assumption

section \<open>Single calls and batches at one instant\<close>

lemma gcra_see_twice: "gcra_see now ((gcra_see now s)\<lparr>gc_tat := x\<rparr>) = (gcra_see now s)\<lparr>gc_tat := x\<rparr>"
  by (simp add: gcra_see_def gcra_notifyClock_def Let_def split: option.split)

definition gcra_spent :: "rat \<Rightarrow> nat \<Rightarrow> gcra \<Rightarrow> gcra" where
  "gcra_spent now k s =
     (if k = 0 then gcra_see now s
      else (gcra_see now s)\<lparr>gc_tat := Some (gcra_tatAt s now + rat_of_nat k * gc_emission s)\<rparr>)"

lemma gcra_spent_state:
  assumes "gcra_ok s"
  shows "gcra_ok (gcra_spent now k s)" "gc_emission (gcra_spent now k s) = gc_emission s"
    "gcra_see now (gcra_spent now k s) = gcra_spent now k s"
    "gcra_tatAt (gcra_spent now k s) now = gcra_tatAt s now + rat_of_nat k * gc_emission s"
    "gcra_budget (gcra_spent now k s) now = gcra_budget s now - rat_of_nat k * gc_emission s"
proof -
  have em: "0 < gc_emission s" using assms by (simp add: gcra_ok_def)
  show "gcra_ok (gcra_spent now k s)" "gc_emission (gcra_spent now k s) = gc_emission s"
    using assms by (simp_all add: gcra_spent_def gcra_ok_def)
  show "gcra_see now (gcra_spent now k s) = gcra_spent now k s"
    by (simp add: gcra_spent_def gcra_see_twice)
      (simp add: gcra_see_def gcra_notifyClock_def Let_def split: option.split)
  have "now \<le> gcra_tatAt s now" by (simp add: gcra_tatAt_def split: option.split)
  moreover have "0 \<le> rat_of_nat k * gc_emission s" using em by simp
  ultimately show t: "gcra_tatAt (gcra_spent now k s) now = gcra_tatAt s now + rat_of_nat k * gc_emission s"
    by (simp add: gcra_spent_def gcra_tatAt_def [of "_\<lparr>gc_tat := _\<rparr>"])
  have "gc_delayTolerance (gcra_spent now k s) = gc_delayTolerance s" by (simp add: gcra_spent_def)
  then show "gcra_budget (gcra_spent now k s) now = gcra_budget s now - rat_of_nat k * gc_emission s"
    using t by (simp add: gcra_budget_def gcra_remainingAt_def)
qed

lemma gcra_try_spent:
  assumes "gcra_ok s"
  shows "gcra_try now n s =
    (if n = 0 then (s, True) else if int n \<le> gcra_available now None s then (gcra_spent now n s, True)
     else (gcra_see now s, False))"
  using gcra_try_step [OF assms] gcra_covers_iff [OF assms, of "int n" now]
  by (cases "n = 0") (simp_all add: gcra_spent_def gcra_available_def resolveLimiterNow_def)

lemma gcra_covers_nonneg: "gcra_ok s \<Longrightarrow> 0 \<le> gcra_covers s tat now"
  by (auto simp: gcra_covers_def gcra_ok_def gcra_ceiling_def Let_def)

text \<open>After \<open>k\<close> operations the limiter has \<open>k\<close> less to give.\<close>

lemma gcra_spent_available:
  assumes "gcra_ok s" "int k \<le> gcra_available now None s"
  shows "gcra_available now None (gcra_spent now k s) = gcra_available now None s - int k"
proof -
  let ?a = "gcra_available now None s" and ?s = "gcra_spent now k s"
  let ?b = "gcra_available now None ?s"
  have em: "0 < gc_emission s" using assms by (simp add: gcra_ok_def)
  have a: "?a = gcra_covers s (gcra_tatAt s now) now" and b: "?b = gcra_covers ?s (gcra_tatAt ?s now) now"
    by (simp_all add: gcra_available_def resolveLimiterNow_def)
  have shift: "n \<le> ?b \<longleftrightarrow> n + int k \<le> ?a" if "0 < n" for n
    using that gcra_covers_iff [OF assms(1), of "n + int k" now]
      gcra_covers_iff [OF gcra_spent_state(1) [OF assms(1)], of n now k now]
    unfolding a b by (simp add: gcra_spent_state [OF assms(1)] algebra_simps)
  have "0 \<le> ?b" unfolding b by (rule gcra_covers_nonneg [OF gcra_spent_state(1) [OF assms(1)]])
  then show ?thesis using shift [of "?a - int k"] shift [of "?b"] shift [of 1] assms(2) by linarith
qed

lemma gcra_singles:
  assumes "gcra_ok s"
  shows "limiter_run gcra_try (replicate m (1, now)) s =
    (let k = min m (nat (gcra_available now None s)) in (if m = 0 then s else gcra_spent now k s, k))"
proof (induction m)
  case (Suc m)
  define a where "a = gcra_available now None s"
  define k where "k = min m (nat a)"
  have a0: "0 \<le> a" using gcra_covers_nonneg [OF assms] by (simp add: a_def gcra_available_def Let_def)
  have one: "gcra_try now 1 (if m = 0 then s else gcra_spent now k s) =
      (gcra_spent now (min (Suc m) (nat a)) s, m < nat a)"
  proof (cases "m = 0")
    case True
    then show ?thesis using gcra_try_spent [OF assms, of now 1] a0
      by (auto simp: a_def gcra_spent_def min_def)
  next
    case False
    have av: "gcra_available now None (gcra_spent now k s) = a - int k"
      using gcra_spent_available [OF assms, of k now] a0 by (simp add: a_def k_def)
    have "gcra_spent now 1 (gcra_spent now k s) = gcra_spent now (Suc k) s"
      unfolding gcra_spent_def [of now 1] gcra_spent_state [OF assms]
      by (simp add: gcra_spent_def algebra_simps)
    then have tr: "gcra_try now 1 (gcra_spent now k s) =
        (if int k < a then (gcra_spent now (Suc k) s, True) else (gcra_spent now k s, False))"
      using gcra_try_spent [OF gcra_spent_state(1) [OF assms], of now 1 now k]
      unfolding av gcra_spent_state(3) [OF assms] by simp
    show ?thesis
    proof (cases "m < nat a")
      case True
      then have "k = m" "int k < a" "min (Suc m) (nat a) = Suc m" by (simp_all add: k_def)
      then show ?thesis using tr True False by simp
    next
      case less: False
      then have "k = nat a" "\<not> int k < a" "min (Suc m) (nat a) = nat a" using a0 by (simp_all add: k_def)
      then show ?thesis using tr less False by simp
    qed
  qed
  have step: "limiter_run gcra_try (replicate (Suc m) (1, now)) s =
      (let (s1, j) = limiter_run gcra_try (replicate m (1, now)) s; (s2, i) = limiter_run gcra_try [(1, now)] s1
       in (s2, j + i))"
    using limiter_run_append [of gcra_try "replicate m (1, now)" "[(1, now)]" s]
    by (simp only: replicate_append_same [symmetric] replicate_Suc)
  have IH: "limiter_run gcra_try (replicate m (1, now)) s = (if m = 0 then s else gcra_spent now k s, k)"
    using Suc.IH by (simp add: k_def a_def Let_def)
  have "limiter_run gcra_try (replicate (Suc m) (1, now)) s =
      (gcra_spent now (min (Suc m) (nat a)) s, k + (if m < nat a then 1 else 0))"
    unfolding step IH Let_def prod.case limiter_run.simps one by simp
  moreover have "k + (if m < nat a then 1 else 0) = min (Suc m) (nat a)" by (simp add: k_def)
  ultimately show ?case by (simp add: a_def Let_def)
qed simp

section \<open>Properties\<close>

text \<open>
  C10. The rate holds.  On a new limiter, whatever was asked of it before, any stretch of calls
  with non-decreasing clock readings is granted at most \<open>burst + 1\<close> operations and the
  operations the rate yields while the stretch lasts.  A \<open>per\<close> of \<open>null\<close> is excluded.
\<close>

theorem gcra_rate_bound:
  assumes "gcra_new options = Inr s" "get_prop ''per'' options \<noteq> JNull" "sorted (map snd pre @ u # map snd mid)"
  shows "rat_of_nat (snd (limiter_run gcra_try ((n, u) # mid) (fst (limiter_run gcra_try pre s))))
    \<le> gc_burst s + 1 + gc_rate s / gc_per s * (last (u # map snd mid) - u)"
proof -
  have new: "0 < gc_rate s" "0 \<le> gc_burst s" "gc_emission s = gc_per s / gc_rate s" "1 \<le> gc_per s"
    "gc_delayTolerance s = gc_burst s * gc_emission s"
    using gcra_new_ok [OF assms(1)] assms(2) by simp_all
  then have ok: "gcra_ok s" by (simp add: gcra_ok_def)
  define t where "t = hd (map snd pre @ u # map snd mid)"
  have srt: "sorted (t # map snd pre @ u # map snd mid)"
    using assms(3) by (cases pre) (auto simp: t_def)
  have "\<forall>x\<in>set (u # map snd mid). u \<le> x" using assms(3) by (auto simp: sorted_append)
  then have "u \<le> last (u # map snd mid)" using last_in_set [of "u # map snd mid"] by blast
  then have "0 \<le> gc_burst s + 1 + gc_rate s / gc_per s * (last (u # map snd mid) - u)"
    using new by simp
  then show ?thesis using cell.window_bound [OF ok srt, of n] new by simp
qed

theorem gcra_rate_bound_witness:
  "case gcra_new (JObj [(''rate'', JNum (Fin 2)), (''per'', JNum (Fin 10)), (''burst'', JNum (Fin 1))]) of
     Inr s \<Rightarrow> rat_of_nat (snd (limiter_run gcra_try [(1, 5), (2, 9), (1, 15)]
         (fst (limiter_run gcra_try [(1, 3)] s)))) \<le> 4
   | _ \<Rightarrow> False"
proof -
  let ?o = "JObj [(''rate'', JNum (Fin 2)), (''per'', JNum (Fin 10)), (''burst'', JNum (Fin 1))]"
  have "case gcra_new ?o of Inr s \<Rightarrow> gc_burst s = 1 \<and> gc_rate s = 2 \<and> gc_per s = 10 | _ \<Rightarrow> False" by code_simp
  then obtain s where s: "gcra_new ?o = Inr s" "gc_burst s = 1" "gc_rate s = 2" "gc_per s = 10"
    by (auto split: sum.splits)
  show ?thesis
    using gcra_rate_bound [OF s(1), of "[(1, 3)]" 5 "[(2, 9), (1, 15)]" 1] s by simp
qed

text \<open>
  \<open>available()\<close> is exact, and a batch is its single calls.  Of any number of single calls at
  one instant exactly the first \<open>available()\<close> are granted; a batch within that number is granted
  and leaves the limiter exactly as its single calls would, a larger one is refused.
\<close>

theorem gcra_batch_is_singles:
  assumes "gcra_ok s"
  shows "snd (limiter_run gcra_try (replicate m (1, now)) s) = min m (nat (gcra_available now None s)) \<and>
    (if int m \<le> gcra_available now None s
     then gcra_try now m s = (fst (limiter_run gcra_try (replicate m (1, now)) s), True)
     else \<not> snd (gcra_try now m s))"
proof (cases "int m \<le> gcra_available now None s")
  case True
  then have "min m (nat (gcra_available now None s)) = m" by simp
  then show ?thesis using True gcra_singles [OF assms, of m now] gcra_try_spent [OF assms, of now m]
    by (simp add: Let_def)
next
  case False
  have "0 \<le> gcra_available now None s" using gcra_covers_nonneg [OF assms] by (simp add: gcra_available_def Let_def)
  then have "m \<noteq> 0" using False by (cases m) auto
  then show ?thesis using False gcra_singles [OF assms, of m now] gcra_try_spent [OF assms, of now m]
    by (simp add: Let_def)
qed

theorem gcra_batch_is_singles_witness:
  "case gcra_new (JObj [(''rate'', JNum (Fin 2)), (''per'', JNum (Fin 10)), (''burst'', JNum (Fin 2))]) of
     Inr s \<Rightarrow> gcra_available 7 None s = 3 \<and> snd (limiter_run gcra_try (replicate 5 (1, 7)) s) = 3 \<and>
       gcra_try 7 2 s = (fst (limiter_run gcra_try (replicate 2 (1, 7)) s), True)
   | _ \<Rightarrow> False"
proof -
  let ?o = "JObj [(''rate'', JNum (Fin 2)), (''per'', JNum (Fin 10)), (''burst'', JNum (Fin 2))]"
  have "case gcra_new ?o of Inr s \<Rightarrow> gcra_available 7 None s = 3 \<and> gcra_ok s | _ \<Rightarrow> False" by code_simp
  then obtain s where s: "gcra_new ?o = Inr s" "gcra_available 7 None s = 3" "gcra_ok s"
    by (auto split: sum.splits)
  show ?thesis
    using gcra_batch_is_singles [OF s(3), of 5 7] gcra_batch_is_singles [OF s(3), of 2 7] s by simp
qed

text \<open>
  C11. \<open>retryAfter\<close> is the exact boundary.  For a batch the burst can ever cover it answers the
  least wait after which \<open>tryConsume\<close> of that batch succeeds; a larger batch throws, and no wait
  would have admitted it.
\<close>

theorem gcra_retryAfter_exact:
  assumes "gcra_ok s" "0 < n"
  shows "if int n \<le> gcra_ceiling s
    then \<exists>w. gcra_retryAfter (JNum (Fin (rat_of_nat n))) now None s = Inr w \<and> 0 \<le> w \<and>
      (\<forall>later. now \<le> later \<longrightarrow> snd (gcra_try later n s) = (now + w \<le> later))
    else gcra_retryAfter (JNum (Fin (rat_of_nat n))) now None s = Inl (NeverAdmits (int n) (gcra_ceiling s)) \<and>
      (\<forall>later. \<not> snd (gcra_try later n s))"
proof -
  have em: "0 < gc_emission s" and d: "gc_delayTolerance s = gc_burst s * gc_emission s"
    using assms by (simp_all add: gcra_ok_def)
  have ac: "assertCount (default_to (JNum (Fin 1)) (JNum (Fin (rat_of_nat n)))) ''n'' ''PowerGCRA.retryAfter'' = Inr (int n)"
    by (simp add: default_to_def assertCount_def)
  define need where "need = rat_of_int (int n - 1) * gc_emission s"
  have fit: "snd (gcra_try t n s) \<longleftrightarrow> need \<le> gcra_budget s t" for t
    using gcra_try_step [OF assms(1), of t n] assms(2) by (simp add: need_def)
  have ceil: "int n \<le> gcra_ceiling s \<longleftrightarrow> need \<le> gc_delayTolerance s"
  proof -
    have "int n \<le> \<lfloor>x\<rfloor> + 1 \<longleftrightarrow> rat_of_int (int n - 1) \<le> x" for x :: rat by linarith
    then show ?thesis using em by (simp add: gcra_ceiling_def need_def d)
  qed
  show ?thesis
  proof (cases "int n \<le> gcra_ceiling s")
    case True
    define w where "w = max 0 (need - gcra_budget s now)"
    have retry: "gcra_retryAfter (JNum (Fin (rat_of_nat n))) now None s = Inr w"
      using True ac assms(2)
      by (simp add: gcra_retryAfter_def resolveLimiterNow_def gcra_budget_def need_def w_def Let_def max_def)
    have exact: "snd (gcra_try later n s) = (now + w \<le> later)" if "now \<le> later" for later
      unfolding fit w_def using that True ceil gcra_budget_later [OF that, of s] by linarith
    have "gcra_retryAfter (JNum (Fin (rat_of_nat n))) now None s = Inr w \<and> 0 \<le> w \<and>
        (\<forall>later. now \<le> later \<longrightarrow> snd (gcra_try later n s) = (now + w \<le> later))"
      by (intro conjI allI impI retry exact) (simp add: w_def)
    then show ?thesis unfolding if_P [OF True] by (rule exI)
  next
    case False
    then have "\<not> need \<le> gcra_budget s t" for t using ceil gcra_budget_max [of s t] by linarith
    then show ?thesis using False ac fit assms(2) by (simp add: gcra_retryAfter_def)
  qed
qed

theorem gcra_retryAfter_exact_witness:
  "case gcra_new (JObj [(''rate'', JNum (Fin 2)), (''per'', JNum (Fin 10)), (''burst'', JNum (Fin 2))]) of
     Inr s \<Rightarrow> (\<exists>w. gcra_retryAfter (JNum (Fin 3)) 7 None s = Inr w \<and> (\<forall>later \<ge> 7. snd (gcra_try later 3 s) = (7 + w \<le> later))) \<and>
       (\<forall>later. \<not> snd (gcra_try later 4 s))
   | _ \<Rightarrow> False"
proof -
  let ?o = "JObj [(''rate'', JNum (Fin 2)), (''per'', JNum (Fin 10)), (''burst'', JNum (Fin 2))]"
  have "case gcra_new ?o of Inr s \<Rightarrow> gcra_ok s \<and> gcra_ceiling s = 3 | _ \<Rightarrow> False" by code_simp
  then obtain s where s: "gcra_new ?o = Inr s" "gcra_ok s" "gcra_ceiling s = 3"
    by (auto split: sum.splits)
  show ?thesis
    using gcra_retryAfter_exact [OF s(2), of 3 7] gcra_retryAfter_exact [OF s(2), of 4 7] s by auto
qed

text \<open>
  The error handler hears of backward steps only.  On a new limiter with a handler, the
  readings reported are exactly those below the reading of the call before; refusals are not
  reported.
\<close>

theorem gcra_reports_backward_steps:
  assumes "gcra_new options = Inr s" "gc_onError s" "list_all (\<lambda>(n, t). 0 < n) calls"
  shows "gc_reports (fst (limiter_run gcra_try calls s)) =
    map snd (filter (\<lambda>(prev, now). now < prev) (zip (map snd calls) (tl (map snd calls))))"
proof -
  have see: "gc_onError (fst (gcra_try t n s)) = gc_onError s \<and> gc_lastNow (fst (gcra_try t n s)) = Some t \<and>
      gc_reports (fst (gcra_try t n s)) =
        gc_reports s @ (case gc_lastNow s of Some l \<Rightarrow> if t < l \<and> gc_onError s then [t] else [] | None \<Rightarrow> [])"
    if "0 < n" for n t s
    using that by (simp add: gcra_try_def gcra_tryConsume_def default_to_def assertCount_def resolveLimiterNow_def
        gcra_see_def gcra_notifyClock_def Let_def split: option.split)
  have run: "gc_reports (fst (limiter_run gcra_try calls s)) =
      gc_reports s @ map snd (filter (\<lambda>(prev, now). now < prev) (zip (l # map snd calls) (map snd calls)))"
    if "gc_onError s" "gc_lastNow s = Some l" "list_all (\<lambda>(n, t). 0 < n) calls" for calls s l
    using that
  proof (induction calls arbitrary: s l)
    case (Cons call calls)
    obtain n t where c: "call = (n, t)" by (cases call)
    then show ?case using Cons.IH [of "fst (gcra_try t n s)" t] see [of n t s] Cons.prems
      by (simp add: case_prod_unfold Let_def)
  qed simp
  show ?thesis
  proof (cases calls)
    case Nil
    then show ?thesis using gcra_new_ok [OF assms(1)] by simp
  next
    case (Cons call rest)
    obtain n t where c: "call = (n, t)" by (cases call)
    then show ?thesis
      using run [of "fst (gcra_try t n s)" t rest] see [of n t s] assms(2,3) Cons gcra_new_ok [OF assms(1)]
      by (simp add: case_prod_unfold Let_def)
  qed
qed

theorem gcra_reports_backward_steps_witness:
  "case gcra_new (JObj [(''rate'', JNum (Fin 1)), (''onError'', JFun 0)]) of
     Inr s \<Rightarrow> gc_reports (fst (limiter_run gcra_try [(1, 5), (1, 6), (1, 2), (1, 2), (1, 1)] s)) = [2, 1]
   | _ \<Rightarrow> False"
proof -
  have "case gcra_new (JObj [(''rate'', JNum (Fin 1)), (''onError'', JFun 0)]) of
     Inr s \<Rightarrow> gc_onError s | _ \<Rightarrow> False" by code_simp
  then obtain s where s: "gcra_new (JObj [(''rate'', JNum (Fin 1)), (''onError'', JFun 0)]) = Inr s" "gc_onError s"
    by (auto split: sum.splits)
  show ?thesis
    using gcra_reports_backward_steps [OF s, of "[(1, 5), (1, 6), (1, 2), (1, 2), (1, 1)]"] s by simp
qed

text \<open>
  \<open>per: null\<close> disables the limiter.  The check of \<open>per\<close> accepts \<open>null\<close> and answers the
  default, but the constructor keeps \<open>Number(null)\<close>: the emission interval is 0 and every batch
  within the burst is granted, at any rate of calls.
\<close>

theorem gcra_null_per_unlimited:
  assumes "gcra_new options = Inr s" "get_prop ''per'' options = JNull"
    and "sorted (map snd calls)" "\<forall>(n, t) \<in> set calls. int n \<le> gcra_ceiling s"
  shows "snd (limiter_run gcra_try calls s) = sum_list (map fst calls)"
proof -
  have run: "snd (limiter_run gcra_try calls s) = sum_list (map fst calls)"
    if "gc_emission s = 0" "gc_delayTolerance s = 0" "\<forall>tat. gc_tat s = Some tat \<longrightarrow> tat \<le> l"
      "sorted (l # map snd calls)" "\<forall>(n, t) \<in> set calls. int n \<le> gcra_ceiling s" for calls s l
    using that
  proof (induction calls arbitrary: s l)
    case (Cons call calls)
    obtain n t where c: "call = (n, t)" by (cases call)
    have tat: "gcra_tatAt s t = t"
      using Cons.prems(3,4) c by (force simp: gcra_tatAt_def max_def split: option.split)
    have cov: "int n \<le> gcra_covers s t t" using Cons.prems c
      by (simp add: gcra_covers_def gcra_remainingAt_def)
    have grant: "gcra_try t n s =
        (if n = 0 then (s, True) else ((gcra_see t s)\<lparr>gc_tat := Some t\<rparr>, True))"
      using cov tat Cons.prems(1)
      by (simp add: gcra_try_def gcra_tryConsume_def default_to_def assertCount_def resolveLimiterNow_def Let_def)
    have IH: "snd (limiter_run gcra_try calls (fst (gcra_try t n s))) = sum_list (map fst calls)"
    proof (rule Cons.IH [where l = t])
      show "\<forall>tat. gc_tat (fst (gcra_try t n s)) = Some tat \<longrightarrow> tat \<le> t"
        using Cons.prems(3,4) c by (auto simp: grant)
      show "\<forall>(n', t') \<in> set calls. int n' \<le> gcra_ceiling (fst (gcra_try t n s))"
        using Cons.prems(5) by (simp add: grant gcra_ceiling_def)
    qed (use Cons.prems c in \<open>simp_all add: grant\<close>)
    show ?case using IH c by (simp add: grant case_prod_unfold Let_def split: if_splits)
  qed simp
  have new: "gc_emission s = 0" "gc_delayTolerance s = 0" "gc_tat s = None"
    using gcra_new_ok [OF assms(1)] assms(2) by simp_all
  have "sorted (hd (map snd calls) # map snd calls)" if "calls \<noteq> []"
    using assms(3) that by (cases calls) auto
  then show ?thesis using run [OF new(1,2), of "hd (map snd calls)" calls] new(3) assms(4) by (cases "calls = []") simp_all
qed

theorem gcra_null_per_unlimited_witness:
  "case gcra_new (JObj [(''rate'', JNum (Fin 1)), (''per'', JNull)]) of
     Inr s \<Rightarrow> snd (limiter_run gcra_try (replicate 1000 (1, 0)) s) = 1000
   | _ \<Rightarrow> False"
proof -
  have "case gcra_new (JObj [(''rate'', JNum (Fin 1)), (''per'', JNull)]) of
     Inr s \<Rightarrow> gcra_ceiling s = 1 | _ \<Rightarrow> False" by code_simp
  then obtain s where s: "gcra_new (JObj [(''rate'', JNum (Fin 1)), (''per'', JNull)]) = Inr s" "gcra_ceiling s = 1"
    by (auto split: sum.splits)
  show ?thesis
    using gcra_null_per_unlimited [OF s(1), of "replicate 1000 (1, 0)"] s
    by (simp add: sum_list_replicate)
qed

end
