(* ===== verification/TtlMap.thy ===== *)
theory TtlMap
  imports JsMap LimiterClock
begin

text \<open>
  The expiring map (\<open>src/helpers/powerTTLMap.js\<close>): values with a deadline, an index of the
  deadlines, the cached earliest deadline that lets a sweep be skipped, and the recency order
  that bounds the size.  A key is \<open>None\<close> for the JavaScript value \<open>undefined\<close>.  Deadlines are
  \<open>js_num\<close>, for an infinite default lifetime; \<open>Fin 0\<close> is the code's "no expiry".  The clock
  readings of a call are arguments; the calls of \<open>onExpire\<close> are a list, and the callback is
  taken not to call back into the map.
\<close>

section \<open>State\<close>

type_synonym 'v ttl_entry = "'v \<times> js_num"

record ('k, 'v) ttl_map =
  tm_defaultTTL :: js_num
  tm_onExpire :: bool
  tm_maxSize :: nat
  tm_map :: "('k option, 'v ttl_entry) js_map"
  tm_expirations :: "('k option, js_num) js_map"
  tm_nextExpiryAt :: js_num
  tm_nextExpiryDirty :: bool
  tm_disposed :: bool
  tm_expired :: "('k option \<times> 'v) list"

definition NO_EXPIRY :: js_num where
  "NO_EXPIRY = Fin 0"

definition nullish_or :: "js_val \<Rightarrow> js_val \<Rightarrow> js_val" where
  "nullish_or v d = (if is_nullish v then d else v)"

text \<open>The deadline of a write: \<open>ms > 0 ? now + ms + 1 : 0\<close>.\<close>

definition ttl_deadline :: "rat \<Rightarrow> js_num \<Rightarrow> js_num" where
  "ttl_deadline now ms =
     (case ms of Fin r \<Rightarrow> (if 0 < r then Fin (now + r + 1) else NO_EXPIRY)
      | PosInf \<Rightarrow> PosInf | _ \<Rightarrow> NO_EXPIRY)"

definition ttl_past :: "rat \<Rightarrow> js_num \<Rightarrow> bool" where
  "ttl_past now e \<longleftrightarrow> e \<noteq> NO_EXPIRY \<and> num_lt e (Fin now)"

definition ttl_new :: "js_val \<Rightarrow> js_val \<Rightarrow> ('k, 'v) ttl_map result" where
  "ttl_new defaultTTL options =
     (let dflt = default_to (JNum (Fin 0)) defaultTTL; options0 = default_to (JObj []) options in
      case assertKnownOptions options0 [''defaultTTL'', ''onExpire'', ''now'', ''maxSize''] ''PowerTTLMap'' of
        Inl e \<Rightarrow> Inl e
      | Inr _ \<Rightarrow>
          (let isObj = (case dflt of JObj ps \<Rightarrow> True | _ \<Rightarrow> False);
               opts = (if isObj then dflt else options0);
               ttl = (if isObj then JNum (Fin 0) else dflt)
           in case to_number (nullish_or (get_prop ''defaultTTL'' opts) ttl) of
                Inl e \<Rightarrow> Inl e
              | Inr n \<Rightarrow>
                  Inr \<lparr>tm_defaultTTL = (if n = NaN then Fin 0 else n),
                    tm_onExpire = (case get_prop ''onExpire'' opts of JFun f \<Rightarrow> True | _ \<Rightarrow> False),
                    tm_maxSize = (case get_prop ''maxSize'' opts of
                       JNum (Fin r) \<Rightarrow> (if 0 < r then nat \<lfloor>r\<rfloor> else 0) | _ \<Rightarrow> 0),
                    tm_map = [], tm_expirations = [], tm_nextExpiryAt = Fin 0,
                    tm_nextExpiryDirty = False, tm_disposed = False, tm_expired = []\<rparr>))"

section \<open>Operations\<close>

text \<open>\<open>_resolveTtl\<close>; the values have no arrays.\<close>

definition ttl_resolve :: "js_val \<Rightarrow> js_num \<Rightarrow> js_num result" where
  "ttl_resolve ttl0 dflt =
     (let ttl = (case ttl0 of JObj ps \<Rightarrow> get_prop ''ttl'' ttl0 | _ \<Rightarrow> ttl0) in
      if is_nullish ttl then Inr dflt
      else if ttl = JNum PosInf then Inr (Fin 0)
      else case normalizeTtl ttl ''PowerTTLMap'' of
        Inl e \<Rightarrow> Inl e
      | Inr ms \<Rightarrow> (if ms < 0 then Inl (NegativeTtl ttl) else Inr (Fin ms)))"

definition ttl_updateNext :: "js_num \<Rightarrow> js_num \<Rightarrow> ('k, 'v) ttl_map \<Rightarrow> ('k, 'v) ttl_map" where
  "ttl_updateNext prevExpiry nextExpiry s =
     (let s1 = (if prevExpiry \<noteq> NO_EXPIRY \<and> tm_nextExpiryAt s = prevExpiry \<and> prevExpiry \<noteq> nextExpiry
                then s\<lparr>tm_nextExpiryDirty := True\<rparr> else s)
      in if nextExpiry \<noteq> NO_EXPIRY \<and> (tm_nextExpiryAt s1 = Fin 0 \<or> num_lt nextExpiry (tm_nextExpiryAt s1))
         then s1\<lparr>tm_nextExpiryAt := nextExpiry\<rparr> else s1)"

text \<open>Writing the deadline index: \<open>set\<close>, or \<open>delete\<close> when there is none.\<close>

definition ttl_index :: "'k option \<Rightarrow> js_num \<Rightarrow> ('k, 'v) ttl_map \<Rightarrow> ('k, 'v) ttl_map" where
  "ttl_index key e s =
     (if e \<noteq> NO_EXPIRY then s\<lparr>tm_expirations := jm_set key e (tm_expirations s)\<rparr>
      else s\<lparr>tm_expirations := jm_delete key (tm_expirations s)\<rparr>)"

text \<open>The recency step shared by \<open>set\<close>, \<open>get\<close> and \<open>touch\<close>: delete and set again.\<close>

definition ttl_refresh :: "'k option \<Rightarrow> 'v ttl_entry \<Rightarrow> ('k, 'v) ttl_map \<Rightarrow> ('k, 'v) ttl_map" where
  "ttl_refresh key entry s =
     (let s1 = s\<lparr>tm_map := jm_set key entry (jm_delete key (tm_map s))\<rparr> in
      if snd entry \<noteq> NO_EXPIRY then
        (case jm_get key (tm_expirations s1) of
           Some ex \<Rightarrow> s1\<lparr>tm_expirations := jm_set key ex (jm_delete key (tm_expirations s1))\<rparr>
         | None \<Rightarrow> s1)
      else s1)"

text \<open>The body of the eviction loop, and the loop.  It stops at a least recent key \<open>undefined\<close>.\<close>

definition ttl_evict_one :: "'k option \<Rightarrow> 'v ttl_entry \<Rightarrow> ('k, 'v) ttl_map \<Rightarrow> ('k, 'v) ttl_map" where
  "ttl_evict_one lruKey lruEntry s =
     (let s1 = s\<lparr>tm_map := jm_delete lruKey (tm_map s), tm_expirations := jm_delete lruKey (tm_expirations s)\<rparr>
      in if snd lruEntry \<noteq> NO_EXPIRY \<and> tm_nextExpiryAt s1 = snd lruEntry
         then s1\<lparr>tm_nextExpiryDirty := True\<rparr> else s1)"

lemma evict_one_frame [simp]:
  "tm_map (ttl_evict_one k en s) = jm_delete k (tm_map s)"
  "tm_expirations (ttl_evict_one k en s) = jm_delete k (tm_expirations s)"
  "tm_nextExpiryAt (ttl_evict_one k en s) = tm_nextExpiryAt s" "tm_disposed (ttl_evict_one k en s) = tm_disposed s"
  "tm_maxSize (ttl_evict_one k en s) = tm_maxSize s" "tm_onExpire (ttl_evict_one k en s) = tm_onExpire s"
  "tm_expired (ttl_evict_one k en s) = tm_expired s" "tm_defaultTTL (ttl_evict_one k en s) = tm_defaultTTL s"
  by (simp_all add: ttl_evict_one_def Let_def)

function ttl_evict :: "('k, 'v) ttl_map \<Rightarrow> ('k, 'v) ttl_map" where
  "ttl_evict s =
     (if tm_maxSize s < length (tm_map s) then
        (case tm_map s of
           [] \<Rightarrow> s
         | (lruKey, lruEntry) # rest \<Rightarrow>
             (if lruKey = None then s else ttl_evict (ttl_evict_one lruKey lruEntry s)))
      else s)"
  by pat_completeness auto
termination
  by (relation "measure (\<lambda>s. length (tm_map s))")
    (auto simp: jm_delete_def less_Suc_eq_le length_filter_le)

declare ttl_evict.simps [simp del]

definition ttl_set :: "'k option \<Rightarrow> 'v \<Rightarrow> js_val \<Rightarrow> rat \<Rightarrow> ('k, 'v) ttl_map \<Rightarrow> (('k, 'v) ttl_map, unit) step" where
  "ttl_set key v ttl now s =
     (if tm_disposed s then (s, Inl SetAfterDispose)
      else case ttl_resolve ttl (tm_defaultTTL s) of
        Inl e \<Rightarrow> (s, Inl e)
      | Inr ms \<Rightarrow>
          (let expiresAt = ttl_deadline now ms;
               prevExpiry = (case jm_get key (tm_expirations s) of Some e \<Rightarrow> e | None \<Rightarrow> NO_EXPIRY);
               isNew = (\<not> jm_has key (tm_map s));
               s1 = ttl_index key expiresAt (s\<lparr>tm_map := jm_set key (v, expiresAt) (tm_map s)\<rparr>);
               s2 = (if \<not> isNew \<and> 0 < tm_maxSize s then ttl_refresh key (v, expiresAt) s1 else s1);
               s3 = ttl_updateNext prevExpiry expiresAt s2;
               s4 = (if 0 < tm_maxSize s \<and> isNew then ttl_evict s3 else s3)
           in (s4, Inr ())))"

definition ttl_expireKey :: "'k option \<Rightarrow> 'v ttl_entry option \<Rightarrow> ('k, 'v) ttl_map \<Rightarrow> ('k, 'v) ttl_map" where
  "ttl_expireKey key entry s =
     (case entry of
        None \<Rightarrow> s
      | Some (val, e) \<Rightarrow>
          (let expiresAt = (if e \<noteq> NO_EXPIRY then e
                 else case jm_get key (tm_expirations s) of Some x \<Rightarrow> x | None \<Rightarrow> NO_EXPIRY);
               s1 = s\<lparr>tm_map := jm_delete key (tm_map s), tm_expirations := jm_delete key (tm_expirations s)\<rparr>;
               s2 = (if expiresAt \<noteq> NO_EXPIRY \<and> tm_nextExpiryAt s1 = expiresAt
                     then s1\<lparr>tm_nextExpiryDirty := True\<rparr> else s1)
           in if tm_onExpire s2 then s2\<lparr>tm_expired := tm_expired s2 @ [(key, val)]\<rparr> else s2))"

definition ttl_checkExpire :: "'k option \<Rightarrow> 'v ttl_entry option \<Rightarrow> rat \<Rightarrow> ('k, 'v) ttl_map \<Rightarrow> ('k, 'v) ttl_map \<times> bool" where
  "ttl_checkExpire key entry now s =
     (case entry of
        None \<Rightarrow> (s, True)
      | Some (val, e) \<Rightarrow> (if ttl_past now e then (ttl_expireKey key entry s, True) else (s, False)))"

definition ttl_get :: "'k option \<Rightarrow> rat \<Rightarrow> ('k, 'v) ttl_map \<Rightarrow> ('k, 'v) ttl_map \<times> 'v option" where
  "ttl_get key now s =
     (case jm_get key (tm_map s) of
        None \<Rightarrow> (s, None)
      | Some entry \<Rightarrow>
          (let (s1, gone) = ttl_checkExpire key (Some entry) now s in
           if gone then (s1, None)
           else (if 0 < tm_maxSize s1 then ttl_refresh key entry s1 else s1, Some (fst entry))))"

definition ttl_has :: "'k option \<Rightarrow> rat \<Rightarrow> ('k, 'v) ttl_map \<Rightarrow> ('k, 'v) ttl_map \<times> bool" where
  "ttl_has key now s =
     (let (s1, gone) = ttl_checkExpire key (jm_get key (tm_map s)) now s in (s1, \<not> gone))"

definition ttl_delete :: "'k option \<Rightarrow> ('k, 'v) ttl_map \<Rightarrow> ('k, 'v) ttl_map \<times> bool" where
  "ttl_delete key s =
     (let expiresAt = (case jm_get key (tm_expirations s) of Some e \<Rightarrow> e | None \<Rightarrow> NO_EXPIRY);
          s1 = s\<lparr>tm_expirations := jm_delete key (tm_expirations s)\<rparr>;
          s2 = (if expiresAt \<noteq> NO_EXPIRY \<and> tm_nextExpiryAt s1 = expiresAt
                then s1\<lparr>tm_nextExpiryDirty := True\<rparr> else s1)
      in (s2\<lparr>tm_map := jm_delete key (tm_map s2)\<rparr>, jm_has key (tm_map s2)))"

text \<open>\<open>clear\<close>; \<open>dispose\<close> neutralises it.  \<open>reset\<close> is the same call.\<close>

definition ttl_wipe :: "('k, 'v) ttl_map \<Rightarrow> ('k, 'v) ttl_map" where
  "ttl_wipe s = s\<lparr>tm_map := [], tm_expirations := [], tm_nextExpiryAt := Fin 0, tm_nextExpiryDirty := False\<rparr>"

definition ttl_clear :: "('k, 'v) ttl_map \<Rightarrow> ('k, 'v) ttl_map" where
  "ttl_clear s = (if tm_disposed s then s else ttl_wipe s)"

definition ttl_dispose :: "('k, 'v) ttl_map \<Rightarrow> ('k, 'v) ttl_map" where
  "ttl_dispose s = (if tm_disposed s then s else ttl_wipe (s\<lparr>tm_disposed := True\<rparr>))"

text \<open>\<open>touch\<close> reads the clock twice.\<close>

definition ttl_touch ::
    "'k option \<Rightarrow> js_val \<Rightarrow> rat \<Rightarrow> rat \<Rightarrow> ('k, 'v) ttl_map \<Rightarrow> (('k, 'v) ttl_map, bool) step" where
  "ttl_touch key ttl now1 now2 s =
     (case jm_get key (tm_map s) of
        None \<Rightarrow> (s, Inr False)
      | Some (v, e) \<Rightarrow>
          (if ttl_past now1 e then (ttl_expireKey key (Some (v, e)) s, Inr False)
           else case ttl_resolve ttl (tm_defaultTTL s) of
             Inl err \<Rightarrow> (s, Inl err)
           | Inr ms \<Rightarrow>
               (let expiresAt = ttl_deadline now2 ms;
                    s1 = ttl_index key expiresAt (s\<lparr>tm_map := jm_set key (v, expiresAt) (tm_map s)\<rparr>);
                    s2 = ttl_updateNext e expiresAt s1;
                    s3 = (if 0 < tm_maxSize s then ttl_refresh key (v, expiresAt) s2 else s2)
                in (s3, Inr True))))"

definition ttl_size :: "('k, 'v) ttl_map \<Rightarrow> nat" where
  "ttl_size s = length (tm_map s)"

text \<open>The shortcut of \<open>expiredCount\<close> and \<open>purge\<close>: nothing can have expired yet.\<close>

definition ttl_nothing_due :: "rat \<Rightarrow> ('k, 'v) ttl_map \<Rightarrow> bool" where
  "ttl_nothing_due now s \<longleftrightarrow> tm_map s = [] \<or> tm_expirations s = [] \<or>
     (tm_nextExpiryAt s \<noteq> Fin 0 \<and> \<not> tm_nextExpiryDirty s \<and> num_lt (Fin now) (tm_nextExpiryAt s))"

definition ttl_expiredCount :: "rat \<Rightarrow> rat \<Rightarrow> ('k, 'v) ttl_map \<Rightarrow> nat" where
  "ttl_expiredCount now1 now2 s =
     (if ttl_nothing_due now1 s then 0
      else length (filter (\<lambda>(k, e). ttl_past now2 e) (tm_expirations s)))"

text \<open>The loop of \<open>_sweepExpirations\<close> over the deadline index as it was when the loop began.\<close>

fun ttl_sweep_loop :: "rat \<Rightarrow> ('k option \<times> js_num) list \<Rightarrow> js_num \<Rightarrow> ('k, 'v) ttl_map \<Rightarrow> ('k, 'v) ttl_map \<times> js_num" where
  "ttl_sweep_loop now [] nextAt s = (s, nextAt)"
| "ttl_sweep_loop now ((k, e) # es) nextAt s =
     (if ttl_past now e then ttl_sweep_loop now es nextAt (ttl_expireKey k (jm_get k (tm_map s)) s)
      else ttl_sweep_loop now es
        (if e \<noteq> NO_EXPIRY \<and> (nextAt = Fin 0 \<or> num_lt e nextAt) then e else nextAt) s)"

definition ttl_sweep :: "rat \<Rightarrow> ('k, 'v) ttl_map \<Rightarrow> ('k, 'v) ttl_map" where
  "ttl_sweep now s =
     (let (s1, nextAt) = ttl_sweep_loop now (tm_expirations s) (Fin 0) s
      in s1\<lparr>tm_nextExpiryAt := nextAt, tm_nextExpiryDirty := False\<rparr>)"

definition ttl_purge :: "rat \<Rightarrow> rat \<Rightarrow> ('k, 'v) ttl_map \<Rightarrow> ('k, 'v) ttl_map \<times> nat" where
  "ttl_purge now1 now2 s =
     (if ttl_nothing_due now1 s then (s, 0)
      else
        (let removed = length (filter (\<lambda>(k, e). ttl_past now2 e) (tm_expirations s))
         in (if 0 < removed then ttl_sweep now2 s else s, removed)))"

text \<open>\<open>entries()\<close> run to its end: the live pairs, the expired ones dropped on the way.\<close>

fun ttl_entries_loop :: "rat \<Rightarrow> ('k option \<times> 'v ttl_entry) list \<Rightarrow> ('k, 'v) ttl_map \<Rightarrow>
    ('k, 'v) ttl_map \<times> ('k option \<times> 'v) list" where
  "ttl_entries_loop now [] s = (s, [])"
| "ttl_entries_loop now ((k, v, e) # es) s =
     (if ttl_past now e then ttl_entries_loop now es (ttl_expireKey k (Some (v, e)) s)
      else (let (s1, out) = ttl_entries_loop now es s in (s1, (k, v) # out)))"

definition ttl_entries :: "rat \<Rightarrow> ('k, 'v) ttl_map \<Rightarrow> ('k, 'v) ttl_map \<times> ('k option \<times> 'v) list" where
  "ttl_entries now s = ttl_entries_loop now (tm_map s) s"

definition ttl_keys :: "rat \<Rightarrow> ('k, 'v) ttl_map \<Rightarrow> ('k, 'v) ttl_map \<times> 'k option list" where
  "ttl_keys now s = (let (s1, out) = ttl_entries now s in (s1, map fst out))"

definition ttl_values :: "rat \<Rightarrow> ('k, 'v) ttl_map \<Rightarrow> ('k, 'v) ttl_map \<times> 'v list" where
  "ttl_values now s = (let (s1, out) = ttl_entries now s in (s1, map snd out))"

section \<open>The deadline index and the cached earliest deadline\<close>

text \<open>The order of deadlines, which are finite or plus infinity.\<close>

fun stamp_le :: "js_num \<Rightarrow> js_num \<Rightarrow> bool" where
  "stamp_le (Fin a) (Fin b) = (a \<le> b)"
| "stamp_le (Fin a) PosInf = True"
| "stamp_le PosInf PosInf = True"
| "stamp_le _ _ = False"

text \<open>The deadline the map itself holds for a key.\<close>

definition ttl_dl :: "('k option, 'v ttl_entry) js_map \<Rightarrow> 'k option \<Rightarrow> js_num option" where
  "ttl_dl m k = (case jm_get k m of None \<Rightarrow> None | Some (v, e) \<Rightarrow> if e = NO_EXPIRY then None else Some e)"

definition ttl_agree :: "('k option, 'v ttl_entry) js_map \<Rightarrow> ('k option, js_num) js_map \<Rightarrow> bool" where
  "ttl_agree m x \<longleftrightarrow> jm_ok m \<and> jm_ok x \<and> (\<forall>k. jm_get k x = ttl_dl m k)"

definition ttl_bound :: "('k option, js_num) js_map \<Rightarrow> js_num \<Rightarrow> bool" where
  "ttl_bound x n \<longleftrightarrow> (\<forall>k e. jm_get k x = Some e \<longrightarrow> stamp_le n e \<and> n \<noteq> Fin 0)"

definition ttl_inv :: "('k, 'v) ttl_map \<Rightarrow> bool" where
  "ttl_inv s \<longleftrightarrow> ttl_agree (tm_map s) (tm_expirations s) \<and> ttl_bound (tm_expirations s) (tm_nextExpiryAt s) \<and>
     stamp_le (tm_nextExpiryAt s) (tm_nextExpiryAt s) \<and> (tm_disposed s \<longrightarrow> tm_map s = [])"

lemma agree_delete: "ttl_agree m x \<Longrightarrow> ttl_agree (jm_delete k m) (jm_delete k x)"
  by (auto simp: ttl_agree_def ttl_dl_def js.ok_del js.get_del)

lemma agree_write:
  "ttl_agree m x \<Longrightarrow> ttl_agree (jm_set k (v, e) m) (if e \<noteq> NO_EXPIRY then jm_set k e x else jm_delete k x)"
  by (auto simp: ttl_agree_def ttl_dl_def js.ok_del js.ok_put js.get_del js.get_put)

lemma bound_delete: "ttl_bound x n \<Longrightarrow> ttl_bound (jm_delete k x) n"
  by (auto simp: ttl_bound_def js.get_del split: if_splits)

lemma bound_cong: "ttl_bound x n \<Longrightarrow> (\<And>k. jm_get k y = jm_get k x) \<Longrightarrow> ttl_bound y n"
  by (simp add: ttl_bound_def)

lemma agree_cong:
  "ttl_agree m x \<Longrightarrow> jm_ok m' \<Longrightarrow> jm_ok x' \<Longrightarrow> (\<And>k. jm_get k m' = jm_get k m) \<Longrightarrow> (\<And>k. jm_get k x' = jm_get k x) \<Longrightarrow>
     ttl_agree m' x'"
  by (simp add: ttl_agree_def ttl_dl_def)

lemma deadline_stamp: "stamp_le (ttl_deadline now ms) (ttl_deadline now ms)"
  by (cases ms) (simp_all add: ttl_deadline_def NO_EXPIRY_def)

lemma stamp_le_swap: "stamp_le a a \<Longrightarrow> stamp_le b b \<Longrightarrow> \<not> num_lt a b \<Longrightarrow> stamp_le b a"
  by (cases a; cases b) auto

lemma stamp_le_trans: "stamp_le a b \<Longrightarrow> stamp_le b c \<Longrightarrow> stamp_le a c"
  by (cases a; cases b; cases c) auto

lemma stamp_le_less: "num_lt a b \<Longrightarrow> stamp_le a a \<Longrightarrow> stamp_le b c \<Longrightarrow> stamp_le a c"
  by (cases a; cases b; cases c) auto

text \<open>The cached deadline stays below every other deadline of the index.\<close>

lemma bound_write:
  assumes "ttl_bound x n" "stamp_le e e"
    and "stamp_le n n"
  shows "ttl_bound (if e \<noteq> NO_EXPIRY then jm_set k e x else jm_delete k x)
    (if e \<noteq> NO_EXPIRY \<and> (n = Fin 0 \<or> num_lt e n) then e else n)"
  using assms
  by (auto simp: ttl_bound_def js.get_put js.get_del NO_EXPIRY_def split: if_splits
      intro: stamp_le_swap stamp_le_less)

lemma updateNext_frame [simp]:
  "tm_map (ttl_updateNext p e s) = tm_map s" "tm_expirations (ttl_updateNext p e s) = tm_expirations s"
  "tm_disposed (ttl_updateNext p e s) = tm_disposed s" "tm_maxSize (ttl_updateNext p e s) = tm_maxSize s"
  "tm_defaultTTL (ttl_updateNext p e s) = tm_defaultTTL s" "tm_onExpire (ttl_updateNext p e s) = tm_onExpire s"
  "tm_expired (ttl_updateNext p e s) = tm_expired s"
  "tm_nextExpiryAt (ttl_updateNext p e s) =
     (if e \<noteq> NO_EXPIRY \<and> (tm_nextExpiryAt s = Fin 0 \<or> num_lt e (tm_nextExpiryAt s)) then e else tm_nextExpiryAt s)"
  by (simp_all add: ttl_updateNext_def Let_def)

lemma index_frame [simp]:
  "tm_map (ttl_index k e s) = tm_map s"
  "tm_expirations (ttl_index k e s) =
     (if e \<noteq> NO_EXPIRY then jm_set k e (tm_expirations s) else jm_delete k (tm_expirations s))"
  "tm_disposed (ttl_index k e s) = tm_disposed s" "tm_maxSize (ttl_index k e s) = tm_maxSize s"
  "tm_defaultTTL (ttl_index k e s) = tm_defaultTTL s" "tm_onExpire (ttl_index k e s) = tm_onExpire s"
  "tm_nextExpiryAt (ttl_index k e s) = tm_nextExpiryAt s" "tm_expired (ttl_index k e s) = tm_expired s"
  by (simp_all add: ttl_index_def)

lemma refresh_frame [simp]:
  "tm_map (ttl_refresh k p s) = jm_set k p (jm_delete k (tm_map s))"
  "tm_disposed (ttl_refresh k p s) = tm_disposed s" "tm_maxSize (ttl_refresh k p s) = tm_maxSize s"
  "tm_defaultTTL (ttl_refresh k p s) = tm_defaultTTL s" "tm_onExpire (ttl_refresh k p s) = tm_onExpire s"
  "tm_nextExpiryAt (ttl_refresh k p s) = tm_nextExpiryAt s" "tm_expired (ttl_refresh k p s) = tm_expired s"
  "jm_get j (tm_expirations (ttl_refresh k p s)) = jm_get j (tm_expirations s)"
  by (auto simp: ttl_refresh_def Let_def js.get_refresh split: option.split)

lemma refresh_ok: "jm_ok (tm_expirations s) \<Longrightarrow> jm_ok (tm_expirations (ttl_refresh k p s))"
  by (auto simp: ttl_refresh_def Let_def js.ok_put js.ok_del split: option.split)

lemma refresh_inv:
  assumes "ttl_agree (tm_map s) (tm_expirations s)" "jm_get k (tm_map s) = Some p"
  shows "ttl_agree (tm_map (ttl_refresh k p s)) (tm_expirations (ttl_refresh k p s))"
  using assms by (intro agree_cong [OF assms(1)]) (auto simp: js.get_refresh js.ok_put js.ok_del refresh_ok ttl_agree_def)

lemma expireKey_frame [simp]:
  "tm_disposed (ttl_expireKey k en s) = tm_disposed s" "tm_maxSize (ttl_expireKey k en s) = tm_maxSize s"
  "tm_nextExpiryAt (ttl_expireKey k en s) = tm_nextExpiryAt s" "tm_onExpire (ttl_expireKey k en s) = tm_onExpire s"
  "tm_map (ttl_expireKey k (Some p) s) = jm_delete k (tm_map s)"
  "tm_expirations (ttl_expireKey k (Some p) s) = jm_delete k (tm_expirations s)"
  "tm_expired (ttl_expireKey k (Some p) s) = tm_expired s @ (if tm_onExpire s then [(k, fst p)] else [])"
  by (auto simp: ttl_expireKey_def Let_def split: option.split prod.split)

lemma expireKey_inv: "ttl_inv s \<Longrightarrow> ttl_inv (ttl_expireKey k en s)"
proof (cases en)
  case (Some p)
  assume "ttl_inv s"
  then show ?thesis using Some by (auto simp: ttl_inv_def agree_delete bound_delete) (simp add: jm_delete_def)
qed (simp add: ttl_expireKey_def)

lemma evict_one_inv: "ttl_inv s \<Longrightarrow> ttl_inv (ttl_evict_one k en s)"
  by (auto simp: ttl_inv_def agree_delete bound_delete) (simp add: jm_delete_def)

text \<open>What each removal keeps, the loop keeps.\<close>

lemma evict_keeps:
  assumes "P s" "\<And>s k en. P s \<Longrightarrow> P (ttl_evict_one k en s)"
  shows "P (ttl_evict s)"
  using assms(1)
proof (induction s rule: ttl_evict.induct)
  case (1 s)
  show ?case
  proof (cases "tm_maxSize s < length (tm_map s)")
    case True
    obtain k en rest where m: "tm_map s = (k, en) # rest" using True by (cases "tm_map s") auto
    show ?thesis using "1.IH" [OF True m refl] "1.prems" assms(2) [of s k en] True m by (subst ttl_evict.simps) auto
  qed (use "1.prems" in \<open>subst ttl_evict.simps, simp\<close>)
qed

lemma evict_inv: "ttl_inv s \<Longrightarrow> ttl_inv (ttl_evict s)"
  by (rule evict_keeps) (auto intro: evict_one_inv)

lemma evict_frame [simp]: "tm_disposed (ttl_evict s) = tm_disposed s" "tm_maxSize (ttl_evict s) = tm_maxSize s"
  "tm_onExpire (ttl_evict s) = tm_onExpire s" "tm_defaultTTL (ttl_evict s) = tm_defaultTTL s"
  "tm_expired (ttl_evict s) = tm_expired s" "tm_nextExpiryAt (ttl_evict s) = tm_nextExpiryAt s"
proof -
  have "tm_disposed (ttl_evict s) = tm_disposed s \<and> tm_maxSize (ttl_evict s) = tm_maxSize s \<and>
      tm_onExpire (ttl_evict s) = tm_onExpire s \<and> tm_defaultTTL (ttl_evict s) = tm_defaultTTL s \<and>
      tm_expired (ttl_evict s) = tm_expired s \<and> tm_nextExpiryAt (ttl_evict s) = tm_nextExpiryAt s"
    by (rule evict_keeps) simp_all
  then show "tm_disposed (ttl_evict s) = tm_disposed s" "tm_maxSize (ttl_evict s) = tm_maxSize s"
    "tm_onExpire (ttl_evict s) = tm_onExpire s" "tm_defaultTTL (ttl_evict s) = tm_defaultTTL s"
    "tm_expired (ttl_evict s) = tm_expired s" "tm_nextExpiryAt (ttl_evict s) = tm_nextExpiryAt s" by auto
qed

text \<open>A write, with or without the recency step: the core of \<open>set\<close> and \<open>touch\<close>.\<close>

lemma write_inv:
  fixes s :: "('k, 'v) ttl_map"
  assumes inv: "ttl_inv s" and nd: "\<not> tm_disposed s"
    and m: "tm_map s' = tm_map s1 \<or> tm_map s' = jm_set k (v, e) (jm_delete k (tm_map s1))"
    and s1: "tm_map s1 = jm_set k (v, e) (tm_map s)"
    and x: "jm_ok (tm_expirations s')"
      "\<And>j. jm_get j (tm_expirations s') = jm_get j (if e \<noteq> NO_EXPIRY then jm_set k e (tm_expirations s) else jm_delete k (tm_expirations s))"
    and n: "tm_nextExpiryAt s' = (if e \<noteq> NO_EXPIRY \<and> (tm_nextExpiryAt s = Fin 0 \<or> num_lt e (tm_nextExpiryAt s))
       then e else tm_nextExpiryAt s)"
    and e: "stamp_le e e"
    and d: "tm_disposed s' = tm_disposed s"
  shows "ttl_inv s'"
proof -
  let ?x = "if e \<noteq> NO_EXPIRY then jm_set k e (tm_expirations s) else jm_delete k (tm_expirations s)"
  have a: "ttl_agree (jm_set k (v, e) (tm_map s)) ?x"
    by (rule agree_write) (use inv in \<open>simp add: ttl_inv_def\<close>)
  have b: "ttl_bound ?x (tm_nextExpiryAt s')"
    unfolding n by (rule bound_write [OF _ e]) (use inv in \<open>simp_all add: ttl_inv_def\<close>)
  have "jm_ok (tm_map s')" 
    using inv m by (elim disjE) (simp_all add: s1 ttl_inv_def ttl_agree_def js.ok_put js.ok_del)
  moreover have "jm_get j (tm_map s') = jm_get j (jm_set k (v, e) (tm_map s))" for j
    using m by (elim disjE) (simp_all add: s1 js.get_put js.get_del)
  ultimately have "ttl_agree (tm_map s') (tm_expirations s')" using agree_cong [OF a] x by simp
  moreover have "ttl_bound (tm_expirations s') (tm_nextExpiryAt s')" using bound_cong [OF b] x by simp
  moreover have "stamp_le (tm_nextExpiryAt s') (tm_nextExpiryAt s')" using n e inv by (simp add: ttl_inv_def)
  ultimately show ?thesis using d nd by (simp add: ttl_inv_def)
qed

lemma set_inv:
  assumes "ttl_inv s" shows "ttl_inv (fst (ttl_set k v ttl now s))"
proof (cases "tm_disposed s \<or> (\<exists>e. ttl_resolve ttl (tm_defaultTTL s) = Inl e)")
  case True
  then show ?thesis using assms by (auto simp: ttl_set_def)
next
  case False
  then obtain ms where ms: "ttl_resolve ttl (tm_defaultTTL s) = Inr ms" and nd: "\<not> tm_disposed s"
    by (cases "ttl_resolve ttl (tm_defaultTTL s)") auto
  define e where "e = ttl_deadline now ms"
  define p where "p = (case jm_get k (tm_expirations s) of Some e \<Rightarrow> e | None \<Rightarrow> NO_EXPIRY)"
  define s1 where "s1 = ttl_index k e (s\<lparr>tm_map := jm_set k (v, e) (tm_map s)\<rparr>)"
  define s2 where "s2 = (if jm_has k (tm_map s) \<and> 0 < tm_maxSize s then ttl_refresh k (v, e) s1 else s1)"
  have s3: "ttl_inv (ttl_updateNext p e s2)"
  proof (rule write_inv [OF assms nd, of _ s1 k v e])
    show "stamp_le e e" by (simp add: e_def deadline_stamp)
    have ok: "jm_ok (tm_expirations s1)"
      using assms by (simp add: s1_def ttl_inv_def ttl_agree_def js.ok_put js.ok_del)
    then show "jm_ok (tm_expirations (ttl_updateNext p e s2))" by (simp add: s2_def refresh_ok)
  qed (simp_all add: s1_def s2_def)
  have "fst (ttl_set k v ttl now s) = (if 0 < tm_maxSize s \<and> \<not> jm_has k (tm_map s)
      then ttl_evict (ttl_updateNext p e s2) else ttl_updateNext p e s2)"
    using ms nd by (simp add: ttl_set_def Let_def e_def p_def s1_def s2_def)
  then show ?thesis using s3 evict_inv [OF s3] by simp
qed

lemma touch_inv:
  assumes "ttl_inv s" shows "ttl_inv (fst (ttl_touch k ttl now1 now2 s))"
proof (cases "jm_get k (tm_map s)")
  case (Some p)
  obtain v e0 where p: "p = (v, e0)" by (cases p)
  have nd: "\<not> tm_disposed s" using assms Some by (auto simp: ttl_inv_def jm_get_def)
  show ?thesis
  proof (cases "ttl_past now1 e0 \<or> (\<exists>e. ttl_resolve ttl (tm_defaultTTL s) = Inl e)")
    case True
    then show ?thesis using assms Some p by (auto simp: ttl_touch_def expireKey_inv)
  next
    case False
    then obtain ms where ms: "ttl_resolve ttl (tm_defaultTTL s) = Inr ms" and live: "\<not> ttl_past now1 e0"
      by (cases "ttl_resolve ttl (tm_defaultTTL s)") auto
    define e where "e = ttl_deadline now2 ms"
    define s1 where "s1 = ttl_index k e (s\<lparr>tm_map := jm_set k (v, e) (tm_map s)\<rparr>)"
    define s2 where "s2 = ttl_updateNext e0 e s1"
    have "ttl_inv (if 0 < tm_maxSize s then ttl_refresh k (v, e) s2 else s2)"
    proof (rule write_inv [OF assms nd, of _ s1 k v e])
      show "stamp_le e e" by (simp add: e_def deadline_stamp)
      have "jm_ok (tm_expirations s2)"
        using assms by (simp add: s1_def s2_def ttl_inv_def ttl_agree_def js.ok_put js.ok_del)
      then show "jm_ok (tm_expirations (if 0 < tm_maxSize s then ttl_refresh k (v, e) s2 else s2))"
        by (simp add: refresh_ok)
    qed (simp_all add: s1_def s2_def)
    moreover have "fst (ttl_touch k ttl now1 now2 s) = (if 0 < tm_maxSize s then ttl_refresh k (v, e) s2 else s2)"
      using Some p live ms by (simp add: ttl_touch_def Let_def e_def s1_def s2_def)
    ultimately show ?thesis by simp
  qed
qed (simp add: ttl_touch_def assms)

lemma get_inv:
  assumes "ttl_inv s" shows "ttl_inv (fst (ttl_get k now s))"
proof (cases "jm_get k (tm_map s)")
  case (Some p)
  have "tm_map s \<noteq> []" using Some by (auto simp: jm_get_def)
  then have "ttl_inv (ttl_refresh k p s)" using assms Some refresh_inv [of s k p]
    by (auto simp: ttl_inv_def intro: bound_cong)
  then show ?thesis using assms Some expireKey_inv [OF assms]
    by (cases p) (simp add: ttl_get_def ttl_checkExpire_def)
qed (simp add: ttl_get_def assms)

lemma has_inv: "ttl_inv s \<Longrightarrow> ttl_inv (fst (ttl_has k now s))"
  by (auto simp: ttl_has_def ttl_checkExpire_def Let_def expireKey_inv split: option.split prod.split)

lemma delete_inv: "ttl_inv s \<Longrightarrow> ttl_inv (fst (ttl_delete k s))"
  by (auto simp: ttl_delete_def Let_def ttl_inv_def agree_delete bound_delete) (simp_all add: jm_delete_def)

lemma wipe_inv: "ttl_inv (ttl_wipe s)"
  by (simp add: ttl_wipe_def ttl_inv_def ttl_agree_def ttl_bound_def ttl_dl_def jm_ok_def jm_get_def)

lemma clear_inv: "ttl_inv s \<Longrightarrow> ttl_inv (ttl_clear s)" and dispose_inv: "ttl_inv s \<Longrightarrow> ttl_inv (ttl_dispose s)"
  by (simp_all add: ttl_clear_def ttl_dispose_def wipe_inv)

section \<open>Sweeping\<close>

text \<open>The keys a sweep drops.\<close>

definition ttl_dead :: "rat \<Rightarrow> ('k option \<times> js_num) list \<Rightarrow> 'k option set" where
  "ttl_dead now es = fst ` set (filter (\<lambda>(k, e). ttl_past now e) es)"

lemma dead_Cons: "ttl_dead now ((k, e) # es) = (if ttl_past now e then insert k (ttl_dead now es) else ttl_dead now es)"
  by (simp add: ttl_dead_def)

lemma sweep_loop_maps:
  assumes "distinct (map fst es)" "\<forall>(k, e) \<in> set es. jm_has k (tm_map s)"
  shows "tm_map (fst (ttl_sweep_loop now es n s)) = filter (\<lambda>p. fst p \<notin> ttl_dead now es) (tm_map s) \<and>
    tm_expirations (fst (ttl_sweep_loop now es n s)) = filter (\<lambda>p. fst p \<notin> ttl_dead now es) (tm_expirations s) \<and>
    tm_disposed (fst (ttl_sweep_loop now es n s)) = tm_disposed s \<and>
    tm_expired (fst (ttl_sweep_loop now es n s)) = tm_expired s @ (if tm_onExpire s
      then map (\<lambda>(k, e). (k, fst (the (jm_get k (tm_map s))))) (filter (\<lambda>(k, e). ttl_past now e) es) else [])"
  using assms
proof (induction es arbitrary: n s)
  case Nil
  then show ?case by (simp add: ttl_dead_def)
next
  case (Cons p es)
  obtain k e where p: "p = (k, e)" by (cases p)
  obtain v d where en: "jm_get k (tm_map s) = Some (v, d)"
    using Cons.prems(2) p by (auto simp: jm_has_get)
  show ?case
  proof (cases "ttl_past now e")
    case True
    let ?s = "ttl_expireKey k (Some (v, d)) s"
    have has: "\<forall>(j, e) \<in> set es. jm_has j (tm_map ?s)"
    proof clarify
      fix j d assume j: "(j, d) \<in> set es"
      then have "j \<noteq> k" using Cons.prems(1) p by force
      moreover have "jm_has j (tm_map s)" using Cons.prems(2) j by auto
      ultimately show "jm_has j (tm_map ?s)" by (simp add: jm_has_get js.get_del)
    qed
    have log: "map (\<lambda>(j, e). (j, fst (the (jm_get j (tm_map ?s))))) (filter (\<lambda>(k, e). ttl_past now e) es) =
        map (\<lambda>(j, e). (j, fst (the (jm_get j (tm_map s))))) (filter (\<lambda>(k, e). ttl_past now e) es)"
      using Cons.prems p by (intro map_cong refl) (auto simp: js.get_del, force)
    show ?thesis using Cons.IH [of ?s n] has Cons.prems True en p log
      by (simp add: dead_Cons jm_delete_def conj_commute)
  next
    case False
    then show ?thesis using Cons.IH Cons.prems p by (simp add: dead_Cons)
  qed
qed

lemma sweep_loop_next:
  assumes "stamp_le n n" "\<forall>(k, e) \<in> set es. stamp_le e e \<and> e \<noteq> NO_EXPIRY"
  shows "stamp_le (snd (ttl_sweep_loop now es n s)) (snd (ttl_sweep_loop now es n s)) \<and>
    (n \<noteq> Fin 0 \<longrightarrow> snd (ttl_sweep_loop now es n s) \<noteq> Fin 0 \<and> stamp_le (snd (ttl_sweep_loop now es n s)) n) \<and>
    (\<forall>(k, e) \<in> set es. \<not> ttl_past now e \<longrightarrow>
       snd (ttl_sweep_loop now es n s) \<noteq> Fin 0 \<and> stamp_le (snd (ttl_sweep_loop now es n s)) e)"
  using assms
proof (induction es arbitrary: n s)
  case (Cons p es)
  obtain k e where p: "p = (k, e)" by (cases p)
  show ?case
  proof (cases "ttl_past now e")
    case True
    then show ?thesis
      using Cons.IH [OF Cons.prems(1), of "ttl_expireKey k (jm_get k (tm_map s)) s"] Cons.prems p by simp
  next
    case False
    define n' where "n' = (if n = Fin 0 \<or> num_lt e n then e else n)"
    have e: "stamp_le e e" "e \<noteq> Fin 0" using Cons.prems p by (simp_all add: NO_EXPIRY_def)
    have n': "stamp_le n' n'" "n' \<noteq> Fin 0" "stamp_le n' e" "n \<noteq> Fin 0 \<longrightarrow> stamp_le n' n"
      using e Cons.prems(1) stamp_le_swap [of e n] stamp_le_less [of e n n] by (auto simp: n'_def)
    have run: "snd (ttl_sweep_loop now ((k, e) # es) n s) = snd (ttl_sweep_loop now es n' s)"
      using False e by (simp add: n'_def NO_EXPIRY_def)
    have IH: "stamp_le (snd (ttl_sweep_loop now es n' s)) (snd (ttl_sweep_loop now es n' s))"
      "snd (ttl_sweep_loop now es n' s) \<noteq> Fin 0" "stamp_le (snd (ttl_sweep_loop now es n' s)) n'"
      "\<forall>(k, e) \<in> set es. \<not> ttl_past now e \<longrightarrow> stamp_le (snd (ttl_sweep_loop now es n' s)) e"
      using Cons.IH [OF n'(1), of s] Cons.prems(2) n'(2) by auto
    define r where "r = snd (ttl_sweep_loop now es n' s)"
    have "stamp_le r e" "n \<noteq> Fin 0 \<longrightarrow> stamp_le r n"
      using stamp_le_trans [OF IH(3) n'(3)] n'(4) stamp_le_trans [OF IH(3), of n] by (simp_all add: r_def)
    then show ?thesis unfolding p run using IH(1,2,4) unfolding r_def [symmetric] by simp
  qed
qed simp

text \<open>An entry of the map is past its deadline exactly when the index says so.\<close>

lemma dead_iff:
  assumes "ttl_agree m x" "(k, v, e) \<in> set m"
  shows "k \<in> ttl_dead now x \<longleftrightarrow> ttl_past now e"
proof -
  have "jm_get k m = Some (v, e)" using assms by (simp add: ttl_agree_def jm_ok_def jm_get_def)
  then have g: "jm_get k x = (if e = NO_EXPIRY then None else Some e)" using assms by (simp add: ttl_agree_def ttl_dl_def)
  have "k \<in> ttl_dead now x \<longleftrightarrow> (\<exists>d. jm_get k x = Some d \<and> ttl_past now d)"
  proof -
    have x: "jm_get k x = Some d \<longleftrightarrow> (k, d) \<in> set x" for d
      using assms(1) unfolding ttl_agree_def jm_ok_def jm_get_def by (metis map_of_SomeD map_of_is_SomeI)
    show ?thesis unfolding x by (force simp: ttl_dead_def)
  qed
  then show ?thesis by (auto simp: g ttl_past_def)
qed

lemma jm_get_filter: "jm_get k (filter (\<lambda>p. fst p \<notin> D) m) = (if k \<in> D then None else jm_get k m)"
  by (induction m) (auto simp: jm_get_def)

lemma jm_ok_filter: "jm_ok m \<Longrightarrow> jm_ok (filter P m)"
  by (simp add: jm_ok_def distinct_map_filter)

lemma agree_filter:
  "ttl_agree m x \<Longrightarrow> ttl_agree (filter (\<lambda>p. fst p \<notin> D) m) (filter (\<lambda>p. fst p \<notin> D) x)"
  by (simp add: ttl_agree_def jm_ok_filter jm_get_filter ttl_dl_def)

definition ttl_live :: "rat \<Rightarrow> ('k option \<times> 'v ttl_entry) list \<Rightarrow> ('k option \<times> 'v ttl_entry) list" where
  "ttl_live now m = filter (\<lambda>(k, v, e). \<not> ttl_past now e) m"

lemma jm_ok_get: "jm_ok m \<Longrightarrow> (k, v) \<in> set m \<Longrightarrow> jm_get k m = Some v"
  by (simp add: jm_ok_def jm_get_def)

lemma inv_index:
  assumes "ttl_inv s" "(k, e) \<in> set (tm_expirations s)"
  shows "jm_get k (tm_expirations s) = Some e" "ttl_dl (tm_map s) k = Some e" "stamp_le (tm_nextExpiryAt s) e"
proof -
  show g: "jm_get k (tm_expirations s) = Some e"
    using assms by (intro jm_ok_get) (simp_all add: ttl_inv_def ttl_agree_def)
  then show "ttl_dl (tm_map s) k = Some e" "stamp_le (tm_nextExpiryAt s) e"
    using assms(1) by (auto simp: ttl_inv_def ttl_agree_def ttl_bound_def)
qed

lemma inv_index_has: "ttl_inv s \<Longrightarrow> \<forall>(k, e) \<in> set (tm_expirations s). jm_has k (tm_map s)"
  using inv_index(2) by (fastforce simp: ttl_dl_def jm_has_get split: option.splits)

lemma inv_index_stamps: "ttl_inv s \<Longrightarrow> \<forall>(k, e) \<in> set (tm_expirations s). stamp_le e e \<and> e \<noteq> NO_EXPIRY"
proof clarify
  fix k e assume inv: "ttl_inv s" and k: "(k, e) \<in> set (tm_expirations s)"
  have "stamp_le e e" using inv_index(3) [OF inv k] by (cases e; cases "tm_nextExpiryAt s") auto
  then show "stamp_le e e \<and> e \<noteq> NO_EXPIRY"
    using inv_index(2) [OF inv k] by (auto simp: ttl_dl_def split: option.splits if_splits)
qed

lemma live_filter:
  assumes "ttl_agree m x" shows "filter (\<lambda>p. fst p \<notin> ttl_dead now x) m = ttl_live now m"
  unfolding ttl_live_def using dead_iff [OF assms] by (intro filter_cong) auto

lemma sweep_inv:
  assumes "ttl_inv s"
  shows "ttl_inv (ttl_sweep now s) \<and> tm_map (ttl_sweep now s) = ttl_live now (tm_map s)"
proof -
  define r where "r = ttl_sweep_loop now (tm_expirations s) (Fin 0) s"
  have a: "ttl_agree (tm_map s) (tm_expirations s)" using assms by (simp add: ttl_inv_def)
  have "distinct (map fst (tm_expirations s))" using a by (simp add: ttl_agree_def jm_ok_def)
  note maps = sweep_loop_maps [OF this inv_index_has [OF assms], of now "Fin 0", folded r_def]
  have nxt: "stamp_le (snd r) (snd r)" "\<forall>(k, e) \<in> set (tm_expirations s). \<not> ttl_past now e \<longrightarrow>
      snd r \<noteq> Fin 0 \<and> stamp_le (snd r) e"
    using sweep_loop_next [OF _ inv_index_stamps [OF assms], of "Fin 0" now s] by (simp_all add: r_def)
  have "ttl_bound (filter (\<lambda>p. fst p \<notin> ttl_dead now (tm_expirations s)) (tm_expirations s)) (snd r)"
    unfolding ttl_bound_def jm_get_filter
  proof (intro allI impI)
    fix k e
    assume "(if k \<in> ttl_dead now (tm_expirations s) then None else jm_get k (tm_expirations s)) = Some e"
    then have k: "k \<notin> ttl_dead now (tm_expirations s)" "(k, e) \<in> set (tm_expirations s)"
      by (auto simp: jm_get_def dest: map_of_SomeD split: if_splits)
    then have "\<not> ttl_past now e" by (force simp: ttl_dead_def)
    then show "stamp_le (snd r) e \<and> snd r \<noteq> Fin 0" using nxt(2) k(2) by auto
  qed
  then show ?thesis
    using maps agree_filter [OF a, of "ttl_dead now (tm_expirations s)"] nxt(1) live_filter [OF a, of now] assms
    by (auto simp: ttl_sweep_def ttl_inv_def case_prod_unfold simp flip: r_def)
qed

text \<open>When the shortcut is taken nothing is past its deadline.\<close>

lemma nothing_due_sound:
  assumes "ttl_inv s" "ttl_nothing_due now s"
  shows "ttl_dead now (tm_expirations s) = {}"
proof -
  have "\<not> ttl_past now e" if "(k, e) \<in> set (tm_expirations s)" for k e
  proof -
    have b: "stamp_le (tm_nextExpiryAt s) e" by (rule inv_index(3) [OF assms(1) that])
    have "tm_map s \<noteq> []" using inv_index_has [OF assms(1)] that by (auto simp: jm_has_def)
    then have "num_lt (Fin now) (tm_nextExpiryAt s)" using assms(2) that by (auto simp: ttl_nothing_due_def)
    then show ?thesis using b by (cases e; cases "tm_nextExpiryAt s") (auto simp: ttl_past_def)
  qed
  then show ?thesis by (auto simp: ttl_dead_def)
qed

lemma dead_count:
  assumes "ttl_inv s"
  shows "length (filter (\<lambda>(k, e). ttl_past now e) (tm_expirations s)) =
    length (filter (\<lambda>(k, v, e). ttl_past now e) (tm_map s))"
proof -
  have a: "ttl_agree (tm_map s) (tm_expirations s)" using assms by (simp add: ttl_inv_def)
  have d: "distinct (map fst (filter P (tm_map s)))" "distinct (map fst (filter Q (tm_expirations s)))" for P Q
    using a by (simp_all add: ttl_agree_def jm_ok_def distinct_map_filter)
  have "fst ` set (filter (\<lambda>(k, v, e). ttl_past now e) (tm_map s)) = ttl_dead now (tm_expirations s)"
  proof (rule equalityI)
    show "fst ` set (filter (\<lambda>(k, v, e). ttl_past now e) (tm_map s)) \<subseteq> ttl_dead now (tm_expirations s)"
      using dead_iff [OF a] by auto
    show "ttl_dead now (tm_expirations s) \<subseteq> fst ` set (filter (\<lambda>(k, v, e). ttl_past now e) (tm_map s))"
    proof
      fix k assume k: "k \<in> ttl_dead now (tm_expirations s)"
      then obtain e where "(k, e) \<in> set (tm_expirations s)" by (auto simp: ttl_dead_def)
      then have "jm_has k (tm_map s)" using inv_index_has [OF assms] by auto
      then obtain v d where m: "(k, v, d) \<in> set (tm_map s)" by (auto simp: jm_has_def)
      then have "ttl_past now d" using dead_iff [OF a m] k by simp
      then show "k \<in> fst ` set (filter (\<lambda>(k, v, e). ttl_past now e) (tm_map s))" using m by force
    qed
  qed
  then show ?thesis
    using distinct_card [OF d(1), of "\<lambda>(k, v, e). ttl_past now e"]
      distinct_card [OF d(2), of "\<lambda>(k, e). ttl_past now e"]
    by (simp add: ttl_dead_def)
qed

lemma purge_inv:
  assumes "ttl_inv s" shows "ttl_inv (fst (ttl_purge now1 now2 s))"
  using assms sweep_inv [OF assms] by (simp add: ttl_purge_def Let_def)

lemma entries_loop:
  assumes "ttl_inv s" "distinct (map fst es)" "\<forall>(k, v, e) \<in> set es. jm_get k (tm_map s) = Some (v, e)"
  shows "ttl_inv (fst (ttl_entries_loop now es s)) \<and>
    snd (ttl_entries_loop now es s) = map (\<lambda>(k, v, e). (k, v)) (ttl_live now es) \<and>
    tm_map (fst (ttl_entries_loop now es s)) = filter (\<lambda>p. fst p \<notin> fst ` set (filter (\<lambda>(k, v, e). ttl_past now e) es)) (tm_map s)"
  using assms
proof (induction es arbitrary: s)
  case (Cons p es)
  obtain k v e where p: "p = (k, v, e)" by (cases p)
  show ?case
  proof (cases "ttl_past now e")
    case True
    let ?s = "ttl_expireKey k (Some (v, e)) s"
    have g: "\<forall>(j, w, d) \<in> set es. jm_get j (tm_map ?s) = Some (w, d)"
    proof clarify
      fix j w d assume j: "(j, w, d) \<in> set es"
      then have "j \<noteq> k" using Cons.prems(2) p by force
      then show "jm_get j (tm_map ?s) = Some (w, d)" using Cons.prems(3) j by (auto simp: js.get_del)
    qed
    have d: "distinct (map fst es)" using Cons.prems(2) by simp
    show ?thesis using Cons.IH [OF expireKey_inv [OF Cons.prems(1)] d g] True p
      by (simp add: ttl_live_def jm_delete_def conj_commute)
  next
    case False
    then show ?thesis using Cons.IH [OF Cons.prems(1)] Cons.prems p
      by (simp add: ttl_live_def case_prod_unfold Let_def)
  qed
qed (simp add: ttl_live_def)

lemma entries_inv:
  assumes "ttl_inv s"
  shows "ttl_inv (fst (ttl_entries now s)) \<and> snd (ttl_entries now s) = map (\<lambda>(k, v, e). (k, v)) (ttl_live now (tm_map s)) \<and>
    tm_map (fst (ttl_entries now s)) = ttl_live now (tm_map s)"
proof -
  have ok: "distinct (map fst (tm_map s))" using assms by (simp add: ttl_inv_def ttl_agree_def jm_ok_def)
  then have g: "\<forall>(k, v, e) \<in> set (tm_map s). jm_get k (tm_map s) = Some (v, e)" by (simp add: jm_get_def)
  have "filter (\<lambda>p. fst p \<notin> fst ` set (filter (\<lambda>(k, v, e). ttl_past now e) (tm_map s))) (tm_map s) = ttl_live now (tm_map s)"
    unfolding ttl_live_def
  proof (intro filter_cong refl)
    fix p assume p: "p \<in> set (tm_map s)"
    obtain k v e where kve: "p = (k, v, e)" by (cases p)
    have "q = p" if "q \<in> set (tm_map s)" "fst q = fst p" for q
      using ok p that eq_key_imp_eq_value [OF ok, of "fst p" "snd p" "snd q"] by (metis prod.collapse)
    then have "fst p \<in> fst ` set (filter (\<lambda>(k, v, e). ttl_past now e) (tm_map s)) \<longleftrightarrow>
        p \<in> set (filter (\<lambda>(k, v, e). ttl_past now e) (tm_map s))"
      by (metis (no_types, lifting) filter_is_subset image_iff subsetD)
    then show "(fst p \<notin> fst ` set (filter (\<lambda>(k, v, e). ttl_past now e) (tm_map s))) = (case p of (k, v, e) \<Rightarrow> \<not> ttl_past now e)"
      using p kve by simp
  qed
  then show ?thesis using entries_loop [OF assms ok g, of now] by (simp add: ttl_entries_def)
qed

section \<open>Size and recency\<close>

definition ttl_fits :: "('k, 'v) ttl_map \<Rightarrow> bool" where
  "ttl_fits s \<longleftrightarrow> None \<notin> set (jm_keys (tm_map s)) \<and> (0 < tm_maxSize s \<longrightarrow> length (tm_map s) \<le> tm_maxSize s)"

text \<open>Without the key \<open>undefined\<close> the loop drops just the least recent keys that are too many.\<close>

lemma evict_map:
  "jm_ok (tm_map s) \<Longrightarrow> None \<notin> set (jm_keys (tm_map s)) \<Longrightarrow>
     tm_map (ttl_evict s) = drop (length (tm_map s) - tm_maxSize s) (tm_map s)"
proof (induction s rule: ttl_evict.induct)
  case (1 s)
  show ?case
  proof (cases "tm_maxSize s < length (tm_map s)")
    case True
    obtain k en rest where m: "tm_map s = (k, en) # rest" using True by (cases "tm_map s") auto
    have k: "k \<noteq> None" using "1.prems"(2) m by (auto simp: jm_keys_def)
    have "k \<notin> fst ` set rest" using "1.prems"(1) m by (simp add: jm_ok_def)
    then have del: "jm_delete k (tm_map s) = rest"
      using m by (auto simp: jm_delete_def filter_id_conv intro: rev_image_eqI)
    have IH: "tm_map (ttl_evict (ttl_evict_one k en s)) = drop (length rest - tm_maxSize s) rest"
      using "1.IH" [OF True m refl k] "1.prems" m del by (simp add: jm_ok_def jm_keys_def)
    have "tm_map (ttl_evict s) = tm_map (ttl_evict (ttl_evict_one k en s))"
      using True m k by (subst ttl_evict.simps) (simp del: not_None_eq)
    moreover have "length (tm_map s) - tm_maxSize s = Suc (length rest - tm_maxSize s)" using True m by simp
    ultimately show ?thesis using IH by (simp add: m)
  qed (subst ttl_evict.simps, simp)
qed

text \<open>What a successful \<open>set\<close> leaves in the map.\<close>

lemma jm_delete_set: "jm_delete k (jm_set k p m) = jm_delete k m"
  by (induction m) (auto simp: jm_delete_def)

lemma set_map:
  fixes v :: 'v and now :: rat
  assumes "ttl_fits s" "ttl_inv s" "\<not> tm_disposed s" "ttl_resolve ttl (tm_defaultTTL s) = Inr ms"
  defines "p \<equiv> (v, ttl_deadline now ms)"
  shows "tm_map (fst (ttl_set (Some k) v ttl now s)) =
    (if jm_has (Some k) (tm_map s)
     then (if 0 < tm_maxSize s then jm_delete (Some k) (tm_map s) @ [(Some k, p)] else jm_set (Some k) p (tm_map s))
     else (if 0 < tm_maxSize s then drop (length (tm_map s) + 1 - tm_maxSize s) (tm_map s @ [(Some k, p)])
       else tm_map s @ [(Some k, p)]))"
proof -
  let ?k = "Some k"
  define s0 where "s0 = ttl_updateNext (case jm_get ?k (tm_expirations s) of Some e \<Rightarrow> e | None \<Rightarrow> NO_EXPIRY) (snd p)
     (ttl_index ?k (snd p) (s\<lparr>tm_map := jm_set ?k p (tm_map s)\<rparr>))"
  have ok: "jm_ok (tm_map s)" using assms by (simp add: ttl_inv_def ttl_agree_def)
  have del: "jm_delete ?k (jm_set ?k p (tm_map s)) = jm_delete ?k (tm_map s)"
    by (rule jm_delete_set)
  have new: "jm_set ?k p (jm_delete ?k (tm_map s)) = jm_delete ?k (tm_map s) @ [(?k, p)]"
    by (rule jm_set_new) (auto simp: jm_has_def jm_delete_def)
  show ?thesis
  proof (cases "jm_has ?k (tm_map s)")
    case True
    then show ?thesis using assms(3,4) del new by (simp add: ttl_set_def Let_def p_def)
  next
    case False
    have m: "tm_map s0 = tm_map s @ [(?k, p)]" using False by (simp add: s0_def jm_set_new)
    have "jm_ok (tm_map s0)" using js.ok_put [OF ok] by (simp add: s0_def)
    moreover have "None \<notin> set (jm_keys (tm_map s0))" using assms(1) m by (simp add: ttl_fits_def jm_keys_def)
    moreover have "tm_maxSize s0 = tm_maxSize s" by (simp add: s0_def)
    ultimately have ev: "tm_map (ttl_evict s0) = drop (length (tm_map s) + 1 - tm_maxSize s) (tm_map s @ [(?k, p)])"
      using evict_map [of s0] m by simp
    have "tm_map (fst (ttl_set ?k v ttl now s)) = (if 0 < tm_maxSize s then tm_map (ttl_evict s0) else tm_map s0)"
      using False assms(3,4) by (simp add: ttl_set_def Let_def s0_def p_def)
    then show ?thesis using False ev m by simp
  qed
qed

section \<open>Runs\<close>

text \<open>The calls on a map, each with the two clock readings it may take.\<close>

datatype ('k, 'v) ttl_op =
    TSet "'k option" 'v js_val
  | TGet "'k option"
  | THas "'k option"
  | TDelete "'k option"
  | TTouch "'k option" js_val
  | TClear
  | TPurge
  | TEntries
  | TDispose

fun ttl_exec :: "('k, 'v) ttl_op \<times> rat \<times> rat \<Rightarrow> ('k, 'v) ttl_map \<Rightarrow> ('k, 'v) ttl_map" where
  "ttl_exec (TSet k v ttl, now1, now2) s = fst (ttl_set k v ttl now1 s)"
| "ttl_exec (TGet k, now1, now2) s = fst (ttl_get k now1 s)"
| "ttl_exec (THas k, now1, now2) s = fst (ttl_has k now1 s)"
| "ttl_exec (TDelete k, now1, now2) s = fst (ttl_delete k s)"
| "ttl_exec (TTouch k ttl, now1, now2) s = fst (ttl_touch k ttl now1 now2 s)"
| "ttl_exec (TClear, now1, now2) s = ttl_clear s"
| "ttl_exec (TPurge, now1, now2) s = fst (ttl_purge now1 now2 s)"
| "ttl_exec (TEntries, now1, now2) s = fst (ttl_entries now1 s)"
| "ttl_exec (TDispose, now1, now2) s = ttl_dispose s"

lemma new_inv: "ttl_new d options = Inr s \<Longrightarrow> ttl_inv s"
  by (auto simp: ttl_new_def Let_def ttl_inv_def ttl_agree_def ttl_bound_def ttl_dl_def jm_ok_def jm_get_def
      split: sum.splits)

lemma exec_inv: "ttl_inv s \<Longrightarrow> ttl_inv (ttl_exec c s)"
  by (cases "(c, s)" rule: ttl_exec.cases)
    (auto simp: set_inv get_inv has_inv delete_inv touch_inv clear_inv dispose_inv purge_inv entries_inv)

lemma run_inv: "ttl_inv s \<Longrightarrow> ttl_inv (fold ttl_exec calls s)"
  by (induction calls arbitrary: s) (simp_all add: exec_inv)

definition no_undefined :: "('k, 'v) ttl_op \<times> rat \<times> rat \<Rightarrow> bool" where
  "no_undefined c = (case fst c of TSet k v ttl \<Rightarrow> k \<noteq> None | _ \<Rightarrow> True)"

lemma fits_shrink:
  "ttl_fits s \<Longrightarrow> tm_maxSize s' = tm_maxSize s \<Longrightarrow> tm_map s' = filter P (tm_map s) \<Longrightarrow> ttl_fits s'"
  by (auto simp: ttl_fits_def jm_keys_def intro: order_trans [OF length_filter_le])

lemma fits_expire: "ttl_fits s \<Longrightarrow> ttl_fits (ttl_expireKey k en s)"
  by (cases en) (auto simp: ttl_expireKey_def [of _ None] jm_delete_def intro: fits_shrink)

lemma fits_keep:
  assumes "ttl_fits s" "tm_maxSize s' = tm_maxSize s" "length (tm_map s') = length (tm_map s)"
    "set (jm_keys (tm_map s')) = set (jm_keys (tm_map s))"
  shows "ttl_fits s'"
  using assms by (simp add: ttl_fits_def)

lemma keep_refresh:
  assumes "jm_ok m" "jm_has k m"
  shows "length (jm_set k p (jm_delete k m)) = length m" "set (jm_keys (jm_set k p (jm_delete k m))) = set (jm_keys m)"
proof -
  have "\<not> jm_has k (jm_delete k m)" by (auto simp: jm_has_def jm_delete_def)
  then show "length (jm_set k p (jm_delete k m)) = length m"
    using jm_length_delete [OF assms] by (simp add: jm_length_set)
  show "set (jm_keys (jm_set k p (jm_delete k m))) = set (jm_keys m)"
    using assms(2) by (auto simp: jm_set_keys jm_delete_keys jm_has_iff)
qed

lemma keep_set:
  assumes "jm_has k m"
  shows "length (jm_set k p m) = length m" "set (jm_keys (jm_set k p m)) = set (jm_keys m)" "jm_has k (jm_set k p m)"
  using assms by (auto simp: jm_length_set jm_set_keys jm_has_iff)

lemma fits_refresh: "ttl_inv s \<Longrightarrow> ttl_fits s \<Longrightarrow> jm_has k (tm_map s) \<Longrightarrow> ttl_fits (ttl_refresh k p s)"
  by (rule fits_keep, assumption) (simp_all add: keep_refresh ttl_inv_def ttl_agree_def)

lemma fits_get: "ttl_inv s \<Longrightarrow> ttl_fits s \<Longrightarrow> ttl_fits (fst (ttl_get k now s))"
proof (cases "jm_get k (tm_map s)")
  case (Some p)
  assume "ttl_inv s" "ttl_fits s"
  moreover from this have "jm_ok (tm_map s)" "jm_has k (tm_map s)"
    using Some by (simp_all add: ttl_inv_def ttl_agree_def jm_has_get)
  ultimately show ?thesis using Some
    by (cases p) (simp add: ttl_get_def ttl_checkExpire_def fits_expire fits_refresh)
qed (simp add: ttl_get_def)

lemma fits_touch: "ttl_inv s \<Longrightarrow> ttl_fits s \<Longrightarrow> ttl_fits (fst (ttl_touch k ttl now1 now2 s))"
proof (cases "jm_get k (tm_map s)")
  case (Some p)
  assume "ttl_inv s" and f: "ttl_fits s"
  then have ok: "jm_ok (tm_map s)" "jm_has k (tm_map s)"
    using Some by (simp_all add: ttl_inv_def ttl_agree_def jm_has_get)
  note keep = keep_set [OF ok(2)] keep_refresh [OF js.ok_put [OF ok(1)] keep_set(3) [OF ok(2)]]
  obtain v e where p: "p = (v, e)" by (cases p)
  show ?thesis
  proof (cases "ttl_past now1 e \<or> (\<exists>e. ttl_resolve ttl (tm_defaultTTL s) = Inl e)")
    case True
    then show ?thesis using Some p f by (auto simp: ttl_touch_def fits_expire)
  next
    case False
    then obtain ms where "ttl_resolve ttl (tm_defaultTTL s) = Inr ms" "\<not> ttl_past now1 e"
      by (cases "ttl_resolve ttl (tm_defaultTTL s)") auto
    then show ?thesis using Some p keep
      by (simp add: ttl_touch_def Let_def) (auto intro!: fits_keep [OF f])
  qed
qed (simp add: ttl_touch_def)

lemma fits_set:
  assumes "ttl_inv s" "ttl_fits s" "k \<noteq> None"
  shows "ttl_fits (fst (ttl_set k v ttl now s))"
proof (cases "tm_disposed s \<or> (\<exists>e. ttl_resolve ttl (tm_defaultTTL s) = Inl e)")
  case True
  then show ?thesis using assms by (auto simp: ttl_set_def)
next
  case False
  then obtain ms where ms: "ttl_resolve ttl (tm_defaultTTL s) = Inr ms" and nd: "\<not> tm_disposed s"
    by (cases "ttl_resolve ttl (tm_defaultTTL s)") auto
  obtain j where k: "k = Some j" using assms(3) by auto
  have ok: "jm_ok (tm_map s)" using assms by (simp add: ttl_inv_def ttl_agree_def)
  have mx: "tm_maxSize (fst (ttl_set k v ttl now s)) = tm_maxSize s"
    using ms nd by (simp add: ttl_set_def Let_def)
  note map = set_map [OF assms(2,1) nd ms, of j v now, folded k]
  show ?thesis
  proof (cases "jm_has k (tm_map s)")
    case True
    then have "length (tm_map (fst (ttl_set k v ttl now s))) = length (tm_map s)"
      using jm_length_delete [OF ok True] map by (simp add: jm_length_set)
    moreover have "set (jm_keys (tm_map (fst (ttl_set k v ttl now s)))) = set (jm_keys (tm_map s))"
      using True map by (auto simp: jm_set_keys jm_has_iff) (auto simp: jm_keys_def jm_delete_def)
    ultimately show ?thesis by (rule fits_keep [OF assms(2) mx])
  next
    case False
    have "None \<notin> set (jm_keys (tm_map (fst (ttl_set k v ttl now s))))"
      using assms(2) False map k by (auto simp: ttl_fits_def jm_keys_def dest!: in_set_dropD)
    moreover have "length (tm_map (fst (ttl_set k v ttl now s))) \<le> tm_maxSize s" if "0 < tm_maxSize s"
      using that False map by simp
    ultimately show ?thesis using mx by (simp add: ttl_fits_def)
  qed
qed

lemma sweep_loop_size: "tm_maxSize (fst (ttl_sweep_loop now es n s)) = tm_maxSize s"
  by (induction now es n s rule: ttl_sweep_loop.induct) simp_all

lemma entries_loop_size: "tm_maxSize (fst (ttl_entries_loop now es s)) = tm_maxSize s"
  by (induction now es s rule: ttl_entries_loop.induct) (simp_all add: case_prod_unfold Let_def)

lemma fits_purge:
  assumes "ttl_inv s" "ttl_fits s"
  shows "ttl_fits (fst (ttl_purge now1 now2 s))"
proof -
  have "tm_maxSize (ttl_sweep now2 s) = tm_maxSize s" by (simp add: ttl_sweep_def case_prod_unfold Let_def sweep_loop_size)
  moreover have "tm_map (ttl_sweep now2 s) = filter (\<lambda>(k, v, e). \<not> ttl_past now2 e) (tm_map s)"
    using sweep_inv [OF assms(1), of now2] by (simp add: ttl_live_def)
  ultimately have "ttl_fits (ttl_sweep now2 s)" by (rule fits_shrink [OF assms(2)])
  then show ?thesis using assms(2) by (simp add: ttl_purge_def Let_def)
qed

lemma fits_entries:
  assumes "ttl_inv s" "ttl_fits s"
  shows "ttl_fits (fst (ttl_entries now s))"
proof -
  have "tm_maxSize (fst (ttl_entries now s)) = tm_maxSize s" by (simp add: ttl_entries_def entries_loop_size)
  moreover have "tm_map (fst (ttl_entries now s)) = filter (\<lambda>(k, v, e). \<not> ttl_past now e) (tm_map s)"
    using entries_inv [OF assms(1), of now] by (simp add: ttl_live_def)
  ultimately show ?thesis by (rule fits_shrink [OF assms(2)])
qed

lemma fits_has: "ttl_fits s \<Longrightarrow> ttl_fits (fst (ttl_has k now s))"
  by (auto simp: ttl_has_def ttl_checkExpire_def fits_expire Let_def split: option.split prod.split)

lemma fits_delete: "ttl_fits s \<Longrightarrow> ttl_fits (fst (ttl_delete k s))"
  by (erule fits_shrink [where P = "\<lambda>p. fst p \<noteq> k"]) (simp_all add: ttl_delete_def Let_def jm_delete_def)

lemma fits_wipe: "ttl_fits (ttl_wipe s)"
  by (simp add: ttl_fits_def ttl_wipe_def jm_keys_def)

lemma exec_fits: "ttl_inv s \<Longrightarrow> ttl_fits s \<Longrightarrow> no_undefined c \<Longrightarrow> ttl_fits (ttl_exec c s)"
  by (cases "(c, s)" rule: ttl_exec.cases)
    (simp_all add: fits_get fits_touch fits_set fits_has fits_delete fits_purge fits_entries no_undefined_def
      ttl_clear_def ttl_dispose_def fits_wipe)

lemma run_fits: "ttl_inv s \<Longrightarrow> ttl_fits s \<Longrightarrow> list_all no_undefined calls \<Longrightarrow> ttl_fits (fold ttl_exec calls s)"
  by (induction calls arbitrary: s) (simp_all add: exec_inv exec_fits)

lemma new_fits: "ttl_new d options = Inr s \<Longrightarrow> ttl_fits s"
  by (auto simp: ttl_new_def Let_def ttl_fits_def jm_keys_def split: sum.splits)

section \<open>Properties\<close>

text \<open>
  C12. The map is well formed in every reachable state: keys are distinct, the deadline index
  holds exactly the deadlines of the map's entries, the cached earliest deadline is not after
  any of them, and a disposed map is empty.
\<close>

theorem ttl_well_formed:
  assumes "ttl_new d options = Inr s"
  shows "ttl_inv (fold ttl_exec calls s)"
  by (rule run_inv [OF new_inv [OF assms]])

theorem ttl_well_formed_witness:
  "case (ttl_new (JNum (Fin 5)) (JObj [(''maxSize'', JNum (Fin 2))]) :: (nat, nat) ttl_map result) of
     Inr s \<Rightarrow> ttl_inv (fold ttl_exec [(TSet (Some 1) 10 JUndefined, 0, 0), (TSet (Some 2) 20 (JNum (Fin 1)), 1, 1),
       (TGet (Some 1), 2, 2), (TSet None 30 JUndefined, 3, 3), (TPurge, 9, 9)] s)
   | _ \<Rightarrow> False"
proof -
  have "case (ttl_new (JNum (Fin 5)) (JObj [(''maxSize'', JNum (Fin 2))]) :: (nat, nat) ttl_map result) of
     Inr s \<Rightarrow> tm_maxSize s = 2 | _ \<Rightarrow> False" by code_simp
  then obtain s where s: "(ttl_new (JNum (Fin 5)) (JObj [(''maxSize'', JNum (Fin 2))]) :: (nat, nat) ttl_map result) = Inr s"
    by (auto split: sum.splits)
  show ?thesis unfolding s sum.case by (rule ttl_well_formed [OF s])
qed

text \<open>
  C13. Sweeping is exact, shortcut or not.  In every reachable state \<open>purge\<close> removes exactly the
  entries past their deadline and answers their number, \<open>expiredCount\<close> answers the same number,
  and \<open>entries\<close> yields exactly the live pairs, in the order of the map.
\<close>

theorem ttl_purge_exact:
  assumes "ttl_new d options = Inr s0" "s = fold ttl_exec calls s0"
  shows "tm_map (fst (ttl_purge now now s)) = filter (\<lambda>(k, v, e). \<not> ttl_past now e) (tm_map s) \<and>
    snd (ttl_purge now now s) = length (filter (\<lambda>(k, v, e). ttl_past now e) (tm_map s)) \<and>
    ttl_expiredCount now now s = length (filter (\<lambda>(k, v, e). ttl_past now e) (tm_map s)) \<and>
    snd (ttl_entries now s) = map (\<lambda>(k, v, e). (k, v)) (filter (\<lambda>(k, v, e). \<not> ttl_past now e) (tm_map s))"
proof -
  have inv: "ttl_inv s" unfolding assms(2) by (rule run_inv [OF new_inv [OF assms(1)]])
  have a: "ttl_agree (tm_map s) (tm_expirations s)" using inv by (simp add: ttl_inv_def)
  define dead where "dead = length (filter (\<lambda>(k, e). ttl_past now e) (tm_expirations s))"
  have n: "dead = length (filter (\<lambda>(k, v, e). ttl_past now e) (tm_map s))" unfolding dead_def by (rule dead_count [OF inv])
  have none: "ttl_live now (tm_map s) = tm_map s" if "dead = 0"
    using that unfolding n ttl_live_def by (auto simp: filter_empty_conv filter_id_conv)
  have due: "dead = 0" if "ttl_nothing_due now s"
    using nothing_due_sound [OF inv that] by (force simp: ttl_dead_def dead_def filter_empty_conv)
  have purge: "tm_map (fst (ttl_purge now now s)) = ttl_live now (tm_map s) \<and> snd (ttl_purge now now s) = dead"
    using none due sweep_inv [OF inv, of now] by (simp add: ttl_purge_def Let_def flip: dead_def)
  moreover have "ttl_expiredCount now now s = dead" using due by (simp add: ttl_expiredCount_def flip: dead_def)
  ultimately show ?thesis using entries_inv [OF inv, of now] n by (simp add: ttl_live_def)
qed

theorem ttl_purge_exact_witness:
  "case (ttl_new (JNum (Fin 5)) (JObj []) :: (nat, nat) ttl_map result) of
     Inr s0 \<Rightarrow> (let s = fold ttl_exec [(TSet (Some 1) 10 JUndefined, 0, 0), (TSet (Some 2) 20 (JNum (Fin 1)), 1, 1)] s0
       in tm_map (fst (ttl_purge 4 4 s)) = filter (\<lambda>(k, v, e). \<not> ttl_past 4 e) (tm_map s))
   | _ \<Rightarrow> False"
proof -
  have "case (ttl_new (JNum (Fin 5)) (JObj []) :: (nat, nat) ttl_map result) of
     Inr s \<Rightarrow> tm_maxSize s = 0 | _ \<Rightarrow> False" by code_simp
  then obtain s where s: "(ttl_new (JNum (Fin 5)) (JObj []) :: (nat, nat) ttl_map result) = Inr s"
    by (auto split: sum.splits)
  show ?thesis unfolding s sum.case Let_def using ttl_purge_exact [OF s refl] by blast
qed

text \<open>
  Lookup after write.  In every state reached without writing the key \<open>undefined\<close>, a
  successful \<open>set\<close> is read back by \<open>get\<close> until its lifetime, plus the millisecond of slack, has
  passed; then \<open>get\<close> answers \<open>undefined\<close>.  A lifetime of 0 does not end.
\<close>

theorem ttl_get_after_set:
  assumes "ttl_new d options = Inr s0" "list_all no_undefined calls" "s = fold ttl_exec calls s0"
    and "snd (ttl_set (Some k) v ttl now s) = Inr ()" "ttl_resolve ttl (tm_defaultTTL s) = Inr (Fin r)" "0 \<le> now"
  shows "snd (ttl_get (Some k) later (fst (ttl_set (Some k) v ttl now s))) =
    (if r \<le> 0 \<or> later \<le> now + r + 1 then Some v else None)"
proof -
  have inv: "ttl_inv s" unfolding assms(3) by (rule run_inv [OF new_inv [OF assms(1)]])
  have fit: "ttl_fits s" unfolding assms(3) by (rule run_fits [OF new_inv [OF assms(1)] new_fits [OF assms(1)] assms(2)])
  have nd: "\<not> tm_disposed s" using assms(4) by (auto simp: ttl_set_def)
  let ?p = "(v, ttl_deadline now (Fin r))" and ?s = "fst (ttl_set (Some k) v ttl now s)"
  have ok: "jm_ok (tm_map ?s)" using set_inv [OF inv] by (simp add: ttl_inv_def ttl_agree_def)
  note m = set_map [OF fit inv nd assms(5), of k v now]
  have "(Some k, ?p) \<in> set (tm_map ?s)"
  proof (cases "jm_has (Some k) (tm_map s)")
    case True
    have "(Some k, ?p) \<in> set (jm_set (Some k) ?p (tm_map s))"
      using js.get_put [of "Some k" "Some k" ?p "tm_map s"] by (auto simp: jm_get_def dest: map_of_SomeD)
    then show ?thesis using m True by simp
  next
    case False
    have "length (tm_map s) + 1 - tm_maxSize s \<le> length (tm_map s)" if "0 < tm_maxSize s" using that by linarith
    then show ?thesis using m False by simp
  qed
  then have "jm_get (Some k) (tm_map ?s) = Some ?p" by (rule jm_ok_get [OF ok])
  then have "snd (ttl_get (Some k) later ?s) = (if ttl_past later (ttl_deadline now (Fin r)) then None else Some v)"
    by (simp add: ttl_get_def ttl_checkExpire_def)
  then show ?thesis using assms(6) by (auto simp: ttl_past_def ttl_deadline_def NO_EXPIRY_def)
qed

theorem ttl_get_after_set_witness:
  "case (ttl_new (JNum (Fin 5)) (JObj [(''maxSize'', JNum (Fin 1))]) :: (nat, nat) ttl_map result) of
     Inr s0 \<Rightarrow> snd (ttl_get (Some 7) 12 (fst (ttl_set (Some 7) 3 JUndefined 6 s0))) = Some 3 \<and>
       snd (ttl_get (Some 7) 13 (fst (ttl_set (Some 7) 3 JUndefined 6 s0))) = None
   | _ \<Rightarrow> False"
proof -
  let ?new = "ttl_new (JNum (Fin 5)) (JObj [(''maxSize'', JNum (Fin 1))]) :: (nat, nat) ttl_map result"
  have "case ?new of Inr s \<Rightarrow> \<not> tm_disposed s \<and> tm_defaultTTL s = Fin 5 | _ \<Rightarrow> False" by code_simp
  then obtain s where s: "?new = Inr s" "\<not> tm_disposed s" "tm_defaultTTL s = Fin 5" by (auto split: sum.splits)
  have r: "ttl_resolve JUndefined (tm_defaultTTL s) = Inr (Fin 5)" using s by (simp add: ttl_resolve_def)
  then have "snd (ttl_set (Some 7) 3 JUndefined 6 s) = Inr ()" using s by (simp add: ttl_set_def Let_def)
  then show ?thesis
    using ttl_get_after_set [OF s(1), of "[]" s 7 3 JUndefined 6 5 12] ttl_get_after_set [OF s(1), of "[]" s 7 3 JUndefined 6 5 13] r s
    by simp
qed

section \<open>Recency\<close>

text \<open>
  The history of uses, read off the calls and their answers: a key is used by a \<open>set\<close> that is not
  refused, by a \<open>get\<close> that finds it and by a \<open>touch\<close> that answers true.
\<close>

fun ttl_uses :: "('k, 'v) ttl_op \<times> rat \<times> rat \<Rightarrow> ('k, 'v) ttl_map \<Rightarrow> 'k option list" where
  "ttl_uses (TSet k v ttl, now1, now2) s = (if snd (ttl_set k v ttl now1 s) = Inr () then [k] else [])"
| "ttl_uses (TGet k, now1, now2) s = (if snd (ttl_get k now1 s) \<noteq> None then [k] else [])"
| "ttl_uses (TTouch k ttl, now1, now2) s = (if snd (ttl_touch k ttl now1 now2 s) = Inr True then [k] else [])"
| "ttl_uses c s = []"

fun ttl_history :: "(('k, 'v) ttl_op \<times> rat \<times> rat) list \<Rightarrow> ('k, 'v) ttl_map \<Rightarrow> 'k option list" where
  "ttl_history [] s = []"
| "ttl_history (c # cs) s = ttl_uses c s @ ttl_history cs (ttl_exec c s)"

text \<open>\<open>remdups\<close> keeps the last occurrence of each key: the keys in the order of their last use.\<close>

lemma remdups_snoc: "remdups (xs @ [x]) = filter (\<lambda>y. y \<noteq> x) (remdups xs) @ [x]"
  by (induction xs) auto

lemma filter_member: "filter P xs = filter (\<lambda>x. x \<in> set (filter P xs)) xs"
  by (rule filter_cong) auto

lemma drop_filter: "distinct xs \<Longrightarrow> drop n xs = filter (\<lambda>x. x \<in> set (drop n xs)) xs"
proof -
  assume "distinct xs"
  then have "set (take n xs) \<inter> set (drop n xs) = {}" by (rule set_take_disj_set_drop_if_distinct) simp
  then have "filter (\<lambda>x. x \<in> set (drop n xs)) (take n xs) = []" by (auto simp: filter_empty_conv)
  then have "filter (\<lambda>x. x \<in> set (drop n xs)) (take n xs @ drop n xs) = drop n xs"
    unfolding filter_append by simp
  then show ?thesis by simp
qed

text \<open>One step: the keys that stay keep their order, and the key that was used comes last.\<close>

definition recency_step :: "'k option list \<Rightarrow> ('k, 'v) ttl_map \<Rightarrow> ('k, 'v) ttl_map \<Rightarrow> bool" where
  "recency_step uses s t \<longleftrightarrow>
     (\<exists>P. jm_keys (tm_map t) = filter P (filter (\<lambda>j. j \<notin> set uses) (jm_keys (tm_map s)) @ uses))"

lemma recency_idle: "tm_map t = filter P (tm_map s) \<Longrightarrow> ttl_inv s \<Longrightarrow> recency_step [] s t"
proof -
  assume t: "tm_map t = filter P (tm_map s)" and "ttl_inv s"
  then have d: "distinct (map fst (tm_map s))" by (simp add: ttl_inv_def ttl_agree_def jm_ok_def)
  have "map fst (filter P m) = filter (\<lambda>k. k \<in> set (map fst (filter P m))) (map fst m)" if "distinct (map fst m)" for m
  proof -
    have "fst x \<in> fst ` set (filter P m) \<longleftrightarrow> x \<in> set (filter P m)" if "x \<in> set m" for x
      using \<open>distinct (map fst m)\<close> that by (intro inj_on_image_mem_iff) (auto simp: distinct_map)
    then show ?thesis unfolding filter_map comp_def list.set_map by (intro arg_cong [where f = "map fst"] filter_cong) simp_all
  qed
  from this [OF d] show ?thesis unfolding recency_step_def t jm_keys_def by auto
qed

lemma recency_used: "jm_keys (tm_map t) = filter (\<lambda>j. j \<noteq> k) (jm_keys (tm_map s)) @ [k] \<Longrightarrow> recency_step [k] s t"
  unfolding recency_step_def by (rule exI [of _ "\<lambda>_. True"]) simp

lemma recency_same: "tm_map t = tm_map s \<Longrightarrow> recency_step [] s t"
  unfolding recency_step_def by (rule exI [of _ "\<lambda>_. True"]) simp

lemma expire_map: "tm_map (ttl_expireKey k en s) = (case en of None \<Rightarrow> tm_map s | Some e \<Rightarrow> jm_delete k (tm_map s))"
  by (simp add: ttl_expireKey_def Let_def split: option.split prod.split)

lemma recency_expire: "ttl_inv s \<Longrightarrow> recency_step [] s (ttl_expireKey k (Some en) s)"
  by (rule recency_idle [where P = "\<lambda>p. fst p \<noteq> k"]) (simp_all add: expire_map jm_delete_def)

lemma recency_get:
  assumes "ttl_inv s" "0 < tm_maxSize s"
  shows "recency_step (ttl_uses (TGet k, t, u) s) s (fst (ttl_get k t s))"
proof (cases "jm_get k (tm_map s)")
  case None
  then show ?thesis by (simp add: ttl_get_def recency_same)
next
  case (Some p)
  then show ?thesis using assms
    by (cases p) (auto simp: ttl_get_def ttl_checkExpire_def recency_expire intro!: recency_used js.keys_refresh)
qed

lemma recency_touch:
  assumes "ttl_inv s" "0 < tm_maxSize s"
  shows "recency_step (ttl_uses (TTouch k ttl, t, u) s) s (fst (ttl_touch k ttl t u s))"
proof (cases "jm_get k (tm_map s)")
  case None
  then show ?thesis by (simp add: ttl_touch_def recency_same)
next
  case (Some p)
  obtain v e where p: "p = (v, e)" by (cases p)
  have k: "jm_keys (jm_set k x (jm_delete k (jm_set k y (tm_map s)))) = filter (\<lambda>j. j \<noteq> k) (jm_keys (tm_map s)) @ [k]" for x y
    by (simp add: js.keys_refresh jm_delete_keys jm_set_keys)
  show ?thesis
  proof (cases "ttl_past t e")
    case True
    then show ?thesis using Some p assms by (simp add: ttl_touch_def recency_expire)
  next
    case False
    then show ?thesis using Some p assms
      by (cases "ttl_resolve ttl (tm_defaultTTL s)") (auto simp: ttl_touch_def Let_def k intro!: recency_used recency_same)
  qed
qed

lemma recency_set:
  assumes "ttl_inv s" "ttl_fits s" "0 < tm_maxSize s" "k \<noteq> None"
  shows "recency_step (ttl_uses (TSet k v ttl, t, u) s) s (fst (ttl_set k v ttl t s))"
proof (cases "tm_disposed s \<or> (\<exists>e. ttl_resolve ttl (tm_defaultTTL s) = Inl e)")
  case True
  then show ?thesis by (auto simp: ttl_set_def recency_same)
next
  case False
  then obtain ms where ms: "ttl_resolve ttl (tm_defaultTTL s) = Inr ms" and nd: "\<not> tm_disposed s"
    by (cases "ttl_resolve ttl (tm_defaultTTL s)") auto
  obtain j where k: "k = Some j" using assms(4) by auto
  let ?ks = "jm_keys (tm_map s)"
  have ans: "snd (ttl_set k v ttl t s) = Inr ()" using ms nd by (simp add: ttl_set_def Let_def)
  note m = set_map [OF assms(2,1) nd ms, of j v t, folded k]
  have d: "distinct ?ks" using assms(1) by (simp add: ttl_inv_def ttl_agree_def jm_ok_def jm_keys_def)
  show ?thesis
  proof (cases "jm_has k (tm_map s)")
    case True
    then have "jm_keys (tm_map (fst (ttl_set k v ttl t s))) = filter (\<lambda>j. j \<noteq> k) ?ks @ [k]"
      using m assms(3) by (simp add: jm_keys_def jm_delete_def filter_map comp_def)
    then show ?thesis using ans by (simp add: recency_used)
  next
    case False
    let ?n = "length (tm_map s) + 1 - tm_maxSize s"
    have nk: "k \<notin> set ?ks" using False by (simp add: jm_has_iff)
    have "jm_keys (tm_map (fst (ttl_set k v ttl t s))) = drop ?n (?ks @ [k])"
      using m False assms(3) by (simp add: jm_keys_def drop_map)
    also have "\<dots> = filter (\<lambda>x. x \<in> set (drop ?n (?ks @ [k]))) (?ks @ [k])"
      using d nk by (intro drop_filter) simp
    finally have "jm_keys (tm_map (fst (ttl_set k v ttl t s))) = filter (\<lambda>x. x \<in> set (drop ?n (?ks @ [k]))) (?ks @ [k])" .
    moreover have "filter (\<lambda>j. j \<notin> set [k]) ?ks = ?ks" using nk by (auto simp: filter_id_conv)
    ultimately show ?thesis using ans unfolding recency_step_def by auto
  qed
qed

lemma recency_exec:
  assumes "ttl_inv s" "ttl_fits s" "0 < tm_maxSize s" "no_undefined c"
  shows "recency_step (ttl_uses c s) s (ttl_exec c s)"
proof (cases "(c, s)" rule: ttl_exec.cases)
  case (1 k v ttl now1 now2 s)
  then show ?thesis using assms recency_set [where s = s and k = k and v = v and ttl = ttl and t = now1 and u = now2] by (simp add: no_undefined_def)
next
  case (2 k now1 now2 s)
  then show ?thesis using assms recency_get [where s = s and k = k and t = now1 and u = now2] by simp
next
  case (3 k now1 now2 s)
  then show ?thesis using assms
    by (auto simp: ttl_has_def ttl_checkExpire_def recency_same recency_expire split: option.split)
next
  case (4 k now1 now2 s)
  then show ?thesis using assms
    by (auto simp: ttl_delete_def Let_def jm_delete_def intro: recency_idle [where P = "\<lambda>p. fst p \<noteq> k"])
next
  case (5 k ttl now1 now2 s)
  then show ?thesis using assms recency_touch [where s = s and k = k and ttl = ttl and t = now1 and u = now2] by simp
next
  case (6 now1 now2 s)
  then show ?thesis using assms
    by (auto simp: ttl_clear_def ttl_wipe_def recency_same intro: recency_idle [where P = "\<lambda>_. False"])
next
  case (7 now1 now2 s)
  have "tm_map (ttl_sweep now2 s) = filter (\<lambda>(k, v, e). \<not> ttl_past now2 e) (tm_map s)"
    using sweep_inv [of s now2] assms(1) 7 by (simp add: ttl_live_def)
  then have "recency_step [] s (ttl_sweep now2 s)" using assms(1) 7 by (auto intro: recency_idle)
  then show ?thesis using 7 by (simp add: ttl_purge_def Let_def recency_same)
next
  case (8 now1 now2 s)
  have "tm_map (fst (ttl_entries now1 s)) = filter (\<lambda>(k, v, e). \<not> ttl_past now1 e) (tm_map s)"
    using entries_inv [of s now1] assms(1) 8 by (simp add: ttl_live_def)
  then show ?thesis using assms(1) 8 by (auto intro: recency_idle)
next
  case (9 now1 now2 s)
  then show ?thesis using assms
    by (auto simp: ttl_dispose_def ttl_wipe_def recency_same intro: recency_idle [where P = "\<lambda>_. False"])
qed

lemma exec_maxSize: "tm_maxSize (ttl_exec c s) = tm_maxSize s"
  by (cases "(c, s)" rule: ttl_exec.cases)
    (auto simp: ttl_set_def ttl_get_def ttl_has_def ttl_delete_def ttl_touch_def ttl_clear_def ttl_dispose_def ttl_wipe_def
      ttl_purge_def ttl_sweep_def ttl_entries_def ttl_checkExpire_def Let_def entries_loop_size sweep_loop_size case_prod_unfold
      split: option.split sum.split prod.split)

lemma run_maxSize: "tm_maxSize (fold ttl_exec calls s) = tm_maxSize s"
  by (induction calls arbitrary: s) (simp_all add: exec_maxSize)

text \<open>Over a run: the keys of the map stand in the order of their last use.\<close>

lemma uses_one: "ttl_uses c s = [] \<or> (\<exists>k. ttl_uses c s = [k])"
  by (cases "(c, s)" rule: ttl_uses.cases) auto

lemma recency_run:
  assumes "ttl_inv s" "ttl_fits s" "0 < tm_maxSize s" "list_all no_undefined calls"
    "jm_keys (tm_map s) = filter P (remdups h)"
  shows "\<exists>Q. jm_keys (tm_map (fold ttl_exec calls s)) = filter Q (remdups (h @ ttl_history calls s))"
  using assms
proof (induction calls arbitrary: s h P)
  case Nil
  then show ?case by auto
next
  case (Cons c calls)
  have nu: "no_undefined c" "list_all no_undefined calls" using Cons.prems(4) by simp_all
  obtain R where R: "jm_keys (tm_map (ttl_exec c s)) =
      filter R (filter (\<lambda>j. j \<notin> set (ttl_uses c s)) (jm_keys (tm_map s)) @ ttl_uses c s)"
    using recency_exec [OF Cons.prems(1-3) nu(1)] by (auto simp: recency_step_def)
  have "\<exists>P'. jm_keys (tm_map (ttl_exec c s)) = filter P' (remdups (h @ ttl_uses c s))"
  proof (cases "ttl_uses c s = []")
    case True
    then show ?thesis using R Cons.prems(5) by auto
  next
    case False
    then obtain k where k: "ttl_uses c s = [k]" using uses_one by blast
    have "jm_keys (tm_map (ttl_exec c s)) = filter (\<lambda>x. R x \<and> (x = k \<or> P x)) (remdups (h @ [k]))"
      unfolding R k Cons.prems(5) remdups_snoc by (auto intro!: filter_cong)
    then show ?thesis unfolding k by blast
  qed
  then obtain P' where "jm_keys (tm_map (ttl_exec c s)) = filter P' (remdups (h @ ttl_uses c s))" by blast
  from Cons.IH [OF exec_inv [OF Cons.prems(1)] exec_fits [OF Cons.prems(1,2) nu(1)] _ nu(2) this]
  show ?case using Cons.prems(3) by (simp add: exec_maxSize)
qed

lemma ttl_keys_by_last_use:
  assumes "ttl_new d options = Inr s0" "list_all no_undefined calls" "s = fold ttl_exec calls s0" "0 < tm_maxSize s"
  shows "jm_keys (tm_map s) = filter (\<lambda>k. jm_has k (tm_map s)) (remdups (ttl_history calls s0))"
proof -
  have "0 < tm_maxSize s0" using assms(3,4) by (simp add: run_maxSize)
  moreover have "jm_keys (tm_map s0) = filter (\<lambda>_. True) (remdups [])"
    using assms(1) by (auto simp: ttl_new_def Let_def jm_keys_def split: sum.splits)
  ultimately obtain Q where Q: "jm_keys (tm_map s) = filter Q (remdups (ttl_history calls s0))"
    using recency_run [OF new_inv [OF assms(1)] new_fits [OF assms(1)] _ assms(2), of "\<lambda>_. True" "[]"] assms(3) by auto
  then show ?thesis using filter_member [of Q "remdups (ttl_history calls s0)"] by (simp add: jm_has_iff)
qed

text \<open>In a list with distinct last occurrences, all the keys after the first were used after it.\<close>

lemma remdups_least:
  assumes "filter P (remdups h) = k # ks"
  shows "\<exists>before later. h = before @ k # later \<and> k \<notin> set later \<and> set ks \<subseteq> set later"
proof -
  have "k \<in> set h" using assms by (metis filter_is_subset list.set_intros(1) set_remdups subset_iff)
  then obtain before later where h: "h = before @ k # later" "k \<notin> set later" using split_list_last by metis
  have "remdups h = remdups (filter (\<lambda>x. x \<notin> set (k # later)) before) @ k # remdups later"
    unfolding h(1) using h(2) by (induction before) auto
  then have f: "filter P (remdups h) = filter P (remdups (filter (\<lambda>x. x \<notin> set (k # later)) before)) @ filter P (k # remdups later)"
    by simp
  have "filter P (remdups (filter (\<lambda>x. x \<notin> set (k # later)) before)) = []"
  proof (rule ccontr)
    assume "\<not> ?thesis"
    then have "k \<in> set (filter P (remdups (filter (\<lambda>x. x \<notin> set (k # later)) before)))"
      using assms f by (cases "filter P (remdups (filter (\<lambda>x. x \<notin> set (k # later)) before))") auto
    then show False by simp
  qed
  then have "k # ks = filter P (k # remdups later)" using assms f by simp
  then have "ks = filter P (remdups later) \<or> k # ks = filter P (remdups later)" by (auto split: if_splits)
  then have "set ks \<subseteq> set later" by (metis filter_is_subset list.set_intros(2) set_remdups subset_code(1) subset_trans)
  then show ?thesis using h by blast
qed

text \<open>
  C14. Bounded memory.  With \<open>maxSize\<close> set, no run that writes no key \<open>undefined\<close> leaves more than
  \<open>maxSize\<close> entries, and a new key written to a full map drops exactly one key: one whose last use lies
  before a later use of every other key in the map.  Uses are what the callers saw: a \<open>set\<close>
  that was not refused, a \<open>get\<close> that answered a value, a \<open>touch\<close> that answered true.
\<close>

theorem ttl_bounded_lru:
  assumes "ttl_new d options = Inr s0" "list_all no_undefined calls" "s = fold ttl_exec calls s0" "0 < tm_maxSize s"
  shows "ttl_size s \<le> tm_maxSize s \<and>
    (ttl_size s = tm_maxSize s \<and> \<not> jm_has (Some k) (tm_map s) \<and> snd (ttl_set (Some k) v ttl now s) = Inr () \<longrightarrow>
       (\<exists>old before later. jm_has old (tm_map s)
          \<and> jm_keys (tm_map (fst (ttl_set (Some k) v ttl now s))) = filter (\<lambda>j. j \<noteq> old) (jm_keys (tm_map s)) @ [Some k]
          \<and> ttl_history calls s0 = before @ old # later \<and> old \<notin> set later
          \<and> (\<forall>j. jm_has j (tm_map s) \<and> j \<noteq> old \<longrightarrow> j \<in> set later)))"
proof -
  have inv: "ttl_inv s" unfolding assms(3) by (rule run_inv [OF new_inv [OF assms(1)]])
  have fit: "ttl_fits s" unfolding assms(3) by (rule run_fits [OF new_inv [OF assms(1)] new_fits [OF assms(1)] assms(2)])
  show ?thesis
  proof (intro conjI impI)
    show "ttl_size s \<le> tm_maxSize s" using fit assms(4) by (simp add: ttl_fits_def ttl_size_def)
    assume full: "ttl_size s = tm_maxSize s \<and> \<not> jm_has (Some k) (tm_map s) \<and> snd (ttl_set (Some k) v ttl now s) = Inr ()"
    then have nd: "\<not> tm_disposed s" by (auto simp: ttl_set_def)
    obtain ms where ms: "ttl_resolve ttl (tm_defaultTTL s) = Inr ms"
      using full nd by (auto simp: ttl_set_def split: sum.splits)
    obtain old en rest where m: "tm_map s = (old, en) # rest"
      using full assms(4) by (cases "tm_map s") (auto simp: ttl_size_def)
    have "old \<notin> fst ` set rest" using inv m by (simp add: ttl_inv_def ttl_agree_def jm_ok_def)
    then have "filter (\<lambda>j. j \<noteq> old) (jm_keys (tm_map s)) = map fst rest"
      by (auto simp: m jm_keys_def filter_id_conv)
    then have keys: "jm_keys (tm_map (fst (ttl_set (Some k) v ttl now s))) = filter (\<lambda>j. j \<noteq> old) (jm_keys (tm_map s)) @ [Some k]"
      using set_map [OF fit inv nd ms, of k v now] full assms(4) m by (simp add: ttl_size_def jm_keys_def)
    have "filter (\<lambda>k. jm_has k (tm_map s)) (remdups (ttl_history calls s0)) = old # map fst rest"
      using ttl_keys_by_last_use [OF assms] m by (simp add: jm_keys_def)
    from remdups_least [OF this] obtain before later where
      h: "ttl_history calls s0 = before @ old # later" "old \<notin> set later" "set (map fst rest) \<subseteq> set later" by blast
    have "j \<in> set later" if "jm_has j (tm_map s) \<and> j \<noteq> old" for j
      using that h(3) m by (auto simp: jm_has_def)
    moreover have "jm_has old (tm_map s)" using m by (simp add: jm_has_def)
    ultimately show "\<exists>old before later. jm_has old (tm_map s)
          \<and> jm_keys (tm_map (fst (ttl_set (Some k) v ttl now s))) = filter (\<lambda>j. j \<noteq> old) (jm_keys (tm_map s)) @ [Some k]
          \<and> ttl_history calls s0 = before @ old # later \<and> old \<notin> set later
          \<and> (\<forall>j. jm_has j (tm_map s) \<and> j \<noteq> old \<longrightarrow> j \<in> set later)"
      using keys h by blast
  qed
qed

theorem ttl_bounded_lru_witness:
  "case (ttl_new (JNum (Fin 0)) (JObj [(''maxSize'', JNum (Fin 2))]) :: (nat, nat) ttl_map result) of
     Inr s0 \<Rightarrow>
       (let s = fold ttl_exec [(TSet (Some 1) 1 JUndefined, 0, 0), (TSet (Some 2) 2 JUndefined, 0, 0), (TGet (Some 1), 0, 0)] s0
        in ttl_size s = 2 \<and> jm_keys (tm_map (fst (ttl_set (Some 3) 3 JUndefined 0 s))) = [Some 1, Some 3])
   | _ \<Rightarrow> False"
proof -
  let ?new = "ttl_new (JNum (Fin 0)) (JObj [(''maxSize'', JNum (Fin 2))]) :: (nat, nat) ttl_map result"
  let ?calls = "[(TSet (Some 1) 1 JUndefined, 0, 0), (TSet (Some 2) 2 JUndefined, 0, 0), (TGet (Some 1), 0, 0)]
    :: ((nat, nat) ttl_op \<times> rat \<times> rat) list"
  have "case ?new of Inr s \<Rightarrow> tm_maxSize s = 2 \<and> tm_map s = [] \<and> tm_expirations s = [] \<and> \<not> tm_disposed s
      \<and> tm_defaultTTL s = Fin 0 | _ \<Rightarrow> False" by code_simp
  then obtain s0 where s0: "?new = Inr s0" "tm_maxSize s0 = 2" "tm_map s0 = []" "tm_expirations s0 = []" "\<not> tm_disposed s0"
      "tm_defaultTTL s0 = Fin 0"
    by (auto split: sum.splits)
  define s where "s = fold ttl_exec ?calls s0"
  have stay: "ttl_evict t = t" if "length (tm_map t) \<le> tm_maxSize t" for t :: "(nat, nat) ttl_map"
    using that by (subst ttl_evict.simps) simp
  have s: "tm_map s = [(Some 2, 2, NO_EXPIRY), (Some 1, 1, NO_EXPIRY)]" "tm_maxSize s = 2" "\<not> tm_disposed s"
      "tm_defaultTTL s = Fin 0" and h: "ttl_history ?calls s0 = [Some 1, Some 2, Some 1]"
    using s0 by (simp_all add: s_def ttl_set_def ttl_get_def ttl_resolve_def ttl_deadline_def jm_has_def jm_get_def jm_delete_def
        ttl_checkExpire_def ttl_past_def stay Let_def)
  have "snd (ttl_set (Some 3) 3 JUndefined 0 s) = Inr ()" using s by (simp add: ttl_set_def ttl_resolve_def Let_def)
  then obtain old before later where l: "jm_has old (tm_map s)"
      "jm_keys (tm_map (fst (ttl_set (Some 3) 3 JUndefined 0 s))) = filter (\<lambda>j. j \<noteq> old) (jm_keys (tm_map s)) @ [Some 3]"
      "ttl_history ?calls s0 = before @ old # later" "old \<notin> set later"
      "\<forall>j. jm_has j (tm_map s) \<and> j \<noteq> old \<longrightarrow> j \<in> set later"
    using ttl_bounded_lru [OF s0(1) _ s_def, of 3 3 JUndefined 0] s
    by (auto simp: no_undefined_def ttl_size_def jm_has_def)
  have "old = Some 2"
  proof (rule ccontr)
    assume "old \<noteq> Some 2"
    then have o: "old = Some 1" "Some 2 \<in> set later" using l(1,5) s by (auto simp: jm_has_def)
    have "[Some 1, Some 2, Some 1] = before @ Some 1 # later" using l(3) h o by simp
    then show False using o l(4) by (cases before rule: rev_cases) (auto simp: append_eq_Cons_conv Cons_eq_append_conv)
  qed
  then have "ttl_size s = 2 \<and> jm_keys (tm_map (fst (ttl_set (Some 3) 3 JUndefined 0 s))) = [Some 1, Some 3]"
    using l(2) s(1) by (simp add: ttl_size_def jm_keys_def)
  then show ?thesis unfolding s_def by (simp only: s0(1) sum.case Let_def)
qed

text \<open>
  The key \<open>undefined\<close> ends the bound.  Once it is the least recently used key, the eviction
  loop stops before removing anything: every new key written afterwards makes the map one entry
  larger, whatever \<open>maxSize\<close> says.
\<close>

theorem ttl_undefined_key_unbounded:
  assumes "tm_map s = (None, p) # rest" "jm_ok (tm_map s)" "\<not> jm_has (Some k) (tm_map s)"
    and "snd (ttl_set (Some k) v ttl now s) = Inr ()"
  shows "ttl_size (fst (ttl_set (Some k) v ttl now s)) = ttl_size s + 1 \<and>
    (\<exists>q. tm_map (fst (ttl_set (Some k) v ttl now s)) = (None, p) # rest @ [(Some k, q)])"
proof -
  have nd: "\<not> tm_disposed s" using assms(4) by (auto simp: ttl_set_def)
  obtain ms where ms: "ttl_resolve ttl (tm_defaultTTL s) = Inr ms"
    using assms(4) nd by (auto simp: ttl_set_def split: sum.splits)
  have stuck: "ttl_evict t = t" if "tm_map t = (None, p) # xs" for t :: "('a, 'b) ttl_map" and xs
    using that by (subst ttl_evict.simps) simp
  have "tm_map (fst (ttl_set (Some k) v ttl now s)) = tm_map s @ [(Some k, (v, ttl_deadline now ms))]"
    using jm_set_new [OF assms(3), of "(v, ttl_deadline now ms)"] assms(1,3) nd ms stuck
    by (simp add: ttl_set_def Let_def)
  then show ?thesis using assms(1) by (simp add: ttl_size_def)
qed

theorem ttl_undefined_key_unbounded_witness:
  "case (ttl_new (JNum (Fin 0)) (JObj [(''maxSize'', JNum (Fin 1))]) :: (nat, nat) ttl_map result) of
     Inr s0 \<Rightarrow> ttl_size (fst (ttl_set (Some 1) 1 JUndefined 0 (fst (ttl_set None 0 JUndefined 0 s0)))) = 2 \<and> tm_maxSize s0 = 1
   | _ \<Rightarrow> False"
proof -
  let ?new = "ttl_new (JNum (Fin 0)) (JObj [(''maxSize'', JNum (Fin 1))]) :: (nat, nat) ttl_map result"
  have "case ?new of Inr s \<Rightarrow> \<not> tm_disposed s \<and> tm_maxSize s = 1 \<and> tm_defaultTTL s = Fin 0 \<and> tm_map s = [] | _ \<Rightarrow> False" by code_simp
  then obtain s where s: "?new = Inr s" "\<not> tm_disposed s" "tm_maxSize s = 1" "tm_defaultTTL s = Fin 0" "tm_map s = []"
    by (auto split: sum.splits)
  let ?t = "fst (ttl_set None 0 JUndefined 0 s)"
  have e: "ttl_evict (t :: (nat, nat) ttl_map) = t" if "tm_maxSize t = 1" "length (tm_map t) = 1" for t
    using that by (subst ttl_evict.simps) simp
  have t: "tm_map ?t = (None, (0, NO_EXPIRY)) # []" "\<not> tm_disposed ?t" "tm_defaultTTL ?t = Fin 0"
    using s by (simp_all add: ttl_set_def ttl_resolve_def ttl_deadline_def jm_has_def Let_def e)
  have "snd (ttl_set (Some 1) 1 JUndefined 0 ?t) = Inr ()"
    using t by (simp add: ttl_set_def ttl_resolve_def Let_def)
  then show ?thesis
    using ttl_undefined_key_unbounded [OF t(1), of 1 1 JUndefined 0] t s by (simp add: jm_ok_def jm_has_def ttl_size_def)
qed

end
