(* ===== verification/MessageCodec.thy ===== *)
theory MessageCodec
  imports Options
begin

text \<open>
  The framed messages and the streaming frame decoder (\<open>src/helpers/powerMessageCodec.js\<close>).
  Bytes are \<open>8 word\<close>s and the length field is computed on \<open>32 word\<close>s, as the code's bitwise
  operators do.  A value is binary or not; the JSON text of the others, \<open>JSON.stringify\<close> with
  \<open>TextEncoder\<close> and \<open>JSON.parse\<close> with \<open>TextDecoder\<close>, is a pair of parameters, \<open>None\<close> where they
  throw.  Views and copies of a payload are not told apart.
\<close>

unbundle bit_operations_syntax

type_synonym byte = "8 word"

datatype 'v message = Binary "byte list" | Plain 'v

section \<open>One frame\<close>

definition MESSAGE_PROTOCOL_VERSION :: byte where "MESSAGE_PROTOCOL_VERSION = 1"

definition CODEC_JSON :: byte where "CODEC_JSON = 0"

definition CODEC_RAW :: byte where "CODEC_RAW = 2"

definition HEADER_BYTES :: nat where "HEADER_BYTES = 6"

text \<open>\<open>CODEC_BY_ID\<close> and \<open>ID_BY_CODEC\<close>.\<close>

definition codec_by_id :: "byte \<Rightarrow> string option" where
  "codec_by_id b = (if b = CODEC_JSON then Some ''json'' else if b = CODEC_RAW then Some ''raw'' else None)"

definition id_by_codec :: "string \<Rightarrow> byte option" where
  "id_by_codec c = (if c = ''json'' then Some CODEC_JSON else if c = ''raw'' then Some CODEC_RAW else None)"

definition isRawPayload :: "'v message \<Rightarrow> bool" where
  "isRawPayload m = (case m of Binary bs \<Rightarrow> True | Plain v \<Rightarrow> False)"

definition selectCodec :: "'v message \<Rightarrow> string" where
  "selectCodec m = (if isRawPayload m then ''raw'' else ''json'')"

text \<open>\<open>_frame\<close>.\<close>

definition frame_bytes :: "byte \<Rightarrow> byte list \<Rightarrow> byte list" where
  "frame_bytes codecId payload =
     (let len = word_of_nat (length payload) :: 32 word in
      [MESSAGE_PROTOCOL_VERSION, codecId, ucast (len AND 0xff), ucast (drop_bit 8 len AND 0xff),
       ucast (drop_bit 16 len AND 0xff), ucast (drop_bit 24 len AND 0xff)] @ payload)"

text \<open>\<open>o2u8\<close>: binary as it is, anything else as JSON text.\<close>

definition o2u8 :: "('v \<Rightarrow> byte list option) \<Rightarrow> 'v message \<Rightarrow> byte list result" where
  "o2u8 stringify m =
     (case m of Binary bs \<Rightarrow> Inr bs
      | Plain v \<Rightarrow> (case stringify v of None \<Rightarrow> Inl (TypeErr ''PowerBuffer.o2u8'' ''JSON'') | Some bs \<Rightarrow> Inr bs))"

text \<open>\<open>codec\<close> is the option of that name, \<open>None\<close> when it is absent or empty.\<close>

definition encodeMessage :: "('v \<Rightarrow> byte list option) \<Rightarrow> string option \<Rightarrow> 'v message \<Rightarrow> byte list result" where
  "encodeMessage stringify codec m =
     (let codecName = (case codec of Some c \<Rightarrow> c | None \<Rightarrow> selectCodec m) in
      case id_by_codec codecName of
        None \<Rightarrow> Inl (TypeErr ''PowerMessageCodec'' ''codec'')
      | Some codecId \<Rightarrow>
          (if codecId = CODEC_RAW then
             (case m of Binary bs \<Rightarrow> Inr (frame_bytes codecId bs)
              | Plain v \<Rightarrow> Inl (TypeErr ''PowerMessageCodec'' ''raw''))
           else (case o2u8 stringify m of Inl e \<Rightarrow> Inl e | Inr payload \<Rightarrow> Inr (frame_bytes codecId payload))))"

text \<open>\<open>frameEncodedJson\<close> on bytes, or on the bytes of a string.\<close>

definition frameEncodedJson :: "byte list \<Rightarrow> byte list" where
  "frameEncodedJson json = frame_bytes CODEC_JSON json"

text \<open>An element of a typed array; out of range it is \<open>undefined\<close>, which the operators read as 0.\<close>

definition byte_at :: "byte list \<Rightarrow> nat \<Rightarrow> byte" where
  "byte_at bs i = (if i < length bs then bs ! i else 0)"

definition read_length :: "byte list \<Rightarrow> nat \<Rightarrow> nat" where
  "read_length bs offset =
     unat ((ucast (byte_at bs (offset + 2)) :: 32 word) OR push_bit 8 (ucast (byte_at bs (offset + 3))) OR
       push_bit 16 (ucast (byte_at bs (offset + 4))) OR push_bit 24 (ucast (byte_at bs (offset + 5))))"

record 'v frame =
  fr_version :: byte
  fr_codec :: string
  fr_value :: "'v message"
  fr_byteLength :: nat

definition decodeMessage :: "(byte list \<Rightarrow> 'v option) \<Rightarrow> bool \<Rightarrow> byte list \<Rightarrow> 'v frame result" where
  "decodeMessage parse strict bytes =
     (if length bytes < HEADER_BYTES then Inl (RangeErr ''decodeMessage'' ''header'')
      else if strict \<and> byte_at bytes 0 \<noteq> MESSAGE_PROTOCOL_VERSION then Inl (RangeErr ''decodeMessage'' ''version'')
      else case codec_by_id (byte_at bytes 1) of
        None \<Rightarrow> Inl (RangeErr ''decodeMessage'' ''codec'')
      | Some codec \<Rightarrow>
          (let len = read_length bytes 0 in
           if length bytes < HEADER_BYTES + len then Inl (RangeErr ''decodeMessage'' ''truncated'')
           else
             (let payload = take len (drop HEADER_BYTES bytes);
                  frame = (\<lambda>v. \<lparr>fr_version = byte_at bytes 0, fr_codec = codec, fr_value = v,
                     fr_byteLength = HEADER_BYTES + len\<rparr>)
              in if codec = ''raw'' then Inr (frame (Binary payload))
                 else (case parse payload of
                         None \<Rightarrow> Inl (TypeErr ''JSON.parse'' ''syntax'')
                       | Some v \<Rightarrow> Inr (frame (Plain v))))))"

text \<open>\<open>decodeInbound\<close>: an envelope, whatever recognised it, a binary message, or another value.\<close>

datatype 'v inbound = InEnvelope "'v message" "string option" | InBinary "byte list" | InOther "'v message"

definition canStartJsonDocument :: "byte \<Rightarrow> bool" where
  "canStartJsonDocument b \<longleftrightarrow> b = 0x20 \<or> b = 0x09 \<or> b = 0x0a \<or> b = 0x0d \<or> 0x20 \<le> b"

definition decodeInbound :: "(byte list \<Rightarrow> 'v option) \<Rightarrow> 'v inbound \<Rightarrow> (string \<times> 'v message \<times> string option) result" where
  "decodeInbound parse data =
     (case data of
        InEnvelope v corr \<Rightarrow> Inr (''native'', v, corr)
      | InOther v \<Rightarrow> Inr (''raw'', v, None)
      | InBinary bytes \<Rightarrow>
          (if HEADER_BYTES \<le> length bytes \<and> byte_at bytes 0 = MESSAGE_PROTOCOL_VERSION then
             (case decodeMessage parse True bytes of Inl e \<Rightarrow> Inl e | Inr f \<Rightarrow> Inr (fr_codec f, fr_value f, None))
           else if bytes = [] \<or> \<not> canStartJsonDocument (byte_at bytes 0) then
             (if bytes \<noteq> [] \<and> byte_at bytes 0 = MESSAGE_PROTOCOL_VERSION
              then Inl (RangeErr ''decodeInbound'' ''truncated'') else Inl (RangeErr ''decodeInbound'' ''version''))
           else (case parse bytes of
                   None \<Rightarrow> Inl (TypeErr ''JSON.parse'' ''syntax'')
                 | Some v \<Rightarrow> Inr (''legacy'', Plain v, None))))"

lemma decodeMessage_ok:
  "decodeMessage parse strict bs = Inr f \<Longrightarrow>
     fr_byteLength f = HEADER_BYTES + read_length bs 0 \<and> HEADER_BYTES + read_length bs 0 \<le> length bs"
  by (auto simp: decodeMessage_def Let_def split: if_splits option.splits)

section \<open>The frame decoder\<close>

record frame_decoder =
  fd_maxFrameBytes :: js_num
  fd_strict :: bool
  fd_buf :: "byte list"
  fd_start :: nat
  fd_end :: nat

definition INITIAL_BYTES :: nat where "INITIAL_BYTES = 1024"

definition createFrameDecoder :: "js_val \<Rightarrow> frame_decoder result" where
  "createFrameDecoder options =
     (if get_prop ''maxFrameBytes'' options = JUndefined then Inl (TypeErr ''PowerMessageCodec'' ''maxFrameBytes'')
      else case assertLimitRequired (get_prop ''maxFrameBytes'' options)
              ((limit_spec ''maxFrameBytes'' ''PowerMessageCodec.createFrameDecoder'')
                 \<lparr>sp_min := of_nat HEADER_BYTES, sp_integer := True, sp_allowInfinity := True\<rparr>) of
        Inl e \<Rightarrow> Inl e
      | Inr n \<Rightarrow> Inr \<lparr>fd_maxFrameBytes = n, fd_strict = (get_prop ''strict'' options \<noteq> JBool False),
          fd_buf = replicate INITIAL_BYTES 0, fd_start = 0, fd_end = 0\<rparr>)"

text \<open>The doubling loop of \<open>_reserve\<close>, which starts from a positive capacity.\<close>

function grow_capacity :: "nat \<Rightarrow> nat \<Rightarrow> nat" where
  "grow_capacity need capacity =
     (if capacity < need \<and> 0 < capacity then grow_capacity need (capacity * 2) else capacity)"
  by pat_completeness auto
termination
  by (relation "measure (\<lambda>(need, capacity). need - capacity)") auto

declare grow_capacity.simps [simp del]

definition fd_reserve :: "nat \<Rightarrow> frame_decoder \<Rightarrow> frame_decoder" where
  "fd_reserve incoming d =
     (if fd_end d + incoming \<le> length (fd_buf d) then d
      else
        (let live = fd_end d - fd_start d;
             bytes = take live (drop (fd_start d) (fd_buf d))
         in if live + incoming \<le> length (fd_buf d)
            then d\<lparr>fd_buf := bytes @ drop live (fd_buf d), fd_start := 0, fd_end := live\<rparr>
            else
              (let capacity = grow_capacity (live + incoming)
                     (if length (fd_buf d) = 0 then INITIAL_BYTES else length (fd_buf d))
               in d\<lparr>fd_buf := bytes @ replicate (capacity - live) 0, fd_start := 0, fd_end := live\<rparr>)))"

definition over_limit :: "nat \<Rightarrow> js_num \<Rightarrow> bool" where
  "over_limit n limit = num_lt limit (Fin (of_nat n))"

text \<open>The loop of \<open>push\<close>.  When it throws, the frames it has gathered are dropped.\<close>

function push_loop :: "(byte list \<Rightarrow> 'v option) \<Rightarrow> frame_decoder \<Rightarrow> 'v frame list \<Rightarrow>
    frame_decoder \<times> 'v frame list result" where
  "push_loop parse d frames =
     (if HEADER_BYTES \<le> fd_end d - fd_start d then
        (let declared = read_length (fd_buf d) (fd_start d) in
         if over_limit (HEADER_BYTES + declared) (fd_maxFrameBytes d)
         then (d, Inl (RangeErr ''createFrameDecoder'' ''maxFrameBytes''))
         else if fd_end d - fd_start d < HEADER_BYTES + declared then (d, Inr frames)
         else (case decodeMessage parse (fd_strict d) (take (fd_end d - fd_start d) (drop (fd_start d) (fd_buf d))) of
                 Inl e \<Rightarrow> (d, Inl e)
               | Inr frame \<Rightarrow> push_loop parse (d\<lparr>fd_start := fd_start d + fr_byteLength frame\<rparr>) (frames @ [frame])))
      else (d, Inr frames))"
  by pat_completeness auto
termination
  by (relation "measure (\<lambda>(parse, d, frames). fd_end d - fd_start d)")
    (auto simp: HEADER_BYTES_def dest!: decodeMessage_ok)

declare push_loop.simps [simp del]

definition fd_push :: "(byte list \<Rightarrow> 'v option) \<Rightarrow> byte list \<Rightarrow> frame_decoder \<Rightarrow>
    (frame_decoder, 'v frame list) step" where
  "fd_push parse bytes d =
     (let d1 = fd_reserve (length bytes) d;
          d2 = d1\<lparr>fd_buf := take (fd_end d1) (fd_buf d1) @ bytes @ drop (fd_end d1 + length bytes) (fd_buf d1),
                  fd_end := fd_end d1 + length bytes\<rparr>
      in case push_loop parse d2 [] of
           (d3, Inl e) \<Rightarrow> (d3, Inl e)
         | (d3, Inr frames) \<Rightarrow>
             (if fd_start d3 = fd_end d3 then d3\<lparr>fd_start := 0, fd_end := 0\<rparr> else d3, Inr frames))"

definition fd_flush :: "bool \<Rightarrow> frame_decoder \<Rightarrow> byte list result" where
  "fd_flush strict d =
     (if 0 < fd_end d - fd_start d \<and> strict then Inl (RangeErr ''flush'' ''midFrame'')
      else Inr (take (fd_end d - fd_start d) (drop (fd_start d) (fd_buf d))))"

definition fd_pendingBytes :: "frame_decoder \<Rightarrow> nat" where
  "fd_pendingBytes d = fd_end d - fd_start d"

definition fd_reset :: "frame_decoder \<Rightarrow> frame_decoder" where
  "fd_reset d = d\<lparr>fd_start := 0, fd_end := 0\<rparr>"

definition fd_dispose :: "frame_decoder \<Rightarrow> frame_decoder" where
  "fd_dispose d = (fd_reset d)\<lparr>fd_buf := []\<rparr>"

section \<open>The length field\<close>

lemma byte_of_word: "(ucast (ucast (x AND 0xff) :: byte) :: 32 word) = take_bit 8 x"
proof -
  have ff: "(0xff :: 32 word) = mask 8" by (simp add: mask_eq_exp_minus_1)
  show ?thesis unfolding ff by (rule bit_word_eqI) (auto simp: bit_simps)
qed

lemma length_field:
  "take_bit 8 (len :: 32 word) OR push_bit 8 (take_bit 8 (drop_bit 8 len)) OR
     push_bit 16 (take_bit 8 (drop_bit 16 len)) OR push_bit 24 (take_bit 8 (drop_bit 24 len)) = len"
proof (rule bit_word_eqI)
  fix n assume "n < LENGTH(32)"
  then have "n < 8 \<or> 8 \<le> n \<and> n < 16 \<or> 16 \<le> n \<and> n < 24 \<or> 24 \<le> n \<and> n < 32" by auto
  then show "bit (take_bit 8 len OR push_bit 8 (take_bit 8 (drop_bit 8 len)) OR
     push_bit 16 (take_bit 8 (drop_bit 16 len)) OR push_bit 24 (take_bit 8 (drop_bit 24 len))) n \<longleftrightarrow> bit len n"
    by (elim disjE conjE) (auto simp: bit_or_iff bit_take_bit_iff bit_push_bit_iff bit_drop_bit_eq)
qed

lemma read_length_frame:
  assumes "length payload < 2 ^ 32"
  shows "read_length (frame_bytes codecId payload @ rest) 0 = length payload"
proof -
  have "unat (word_of_nat (length payload) :: 32 word) = length payload" using assms by (simp add: unat_of_nat)
  then show ?thesis
    by (simp add: read_length_def frame_bytes_def byte_at_def byte_of_word length_field Let_def)
qed

text \<open>A frame decodes to what it frames, whatever follows it.\<close>

lemma frame_bytes_simps:
  "length (frame_bytes c p) = HEADER_BYTES + length p" "byte_at (frame_bytes c p @ r) 0 = MESSAGE_PROTOCOL_VERSION"
  "byte_at (frame_bytes c p @ r) 1 = c" "take (length p) (drop HEADER_BYTES (frame_bytes c p @ r)) = p"
  by (simp_all add: frame_bytes_def HEADER_BYTES_def byte_at_def Let_def)

lemma decode_frame:
  assumes "length p < 2 ^ 32"
  shows "decodeMessage parse strict (frame_bytes CODEC_RAW p @ rest) =
      Inr \<lparr>fr_version = MESSAGE_PROTOCOL_VERSION, fr_codec = ''raw'', fr_value = Binary p, fr_byteLength = HEADER_BYTES + length p\<rparr>"
    and "parse p = Some v \<Longrightarrow> decodeMessage parse strict (frame_bytes CODEC_JSON p @ rest) =
      Inr \<lparr>fr_version = MESSAGE_PROTOCOL_VERSION, fr_codec = ''json'', fr_value = Plain v, fr_byteLength = HEADER_BYTES + length p\<rparr>"
  using read_length_frame [OF assms] frame_bytes_simps
  by (simp_all add: decodeMessage_def Let_def codec_by_id_def CODEC_RAW_def CODEC_JSON_def)

text \<open>The value a message of a given codec decodes to, given that its text parses back.\<close>

lemma encode_decode:
  assumes "encodeMessage stringify codec m = Inr bs" "length bs < 2 ^ 32"
    and "\<And>v t. m = Plain v \<Longrightarrow> stringify v = Some t \<Longrightarrow> parse t = Some v"
    and "codec = Some ''json'' \<Longrightarrow> \<not> isRawPayload m"
  shows "\<exists>f. decodeMessage parse strict (bs @ rest) = Inr f \<and> fr_value f = m \<and> fr_byteLength f = length bs"
proof (cases m)
  case (Binary p)
  have "id_by_codec (case codec of Some c \<Rightarrow> c | None \<Rightarrow> selectCodec m) = Some CODEC_RAW"
    using assms(1,4) Binary
    by (auto simp: encodeMessage_def Let_def selectCodec_def isRawPayload_def id_by_codec_def split: option.splits if_splits)
  from this [unfolded Binary] have "bs = frame_bytes CODEC_RAW p"
    using assms(1) [unfolded Binary] by (simp add: encodeMessage_def Let_def)
  then show ?thesis using decode_frame(1) [of p parse strict rest] assms(2) Binary by (simp add: frame_bytes_simps)
next
  case (Plain v)
  then obtain t where t: "stringify v = Some t" "bs = frame_bytes CODEC_JSON t"
    using assms(1)
    by (auto simp: encodeMessage_def Let_def selectCodec_def isRawPayload_def id_by_codec_def o2u8_def CODEC_RAW_def CODEC_JSON_def
        split: option.splits if_splits)
  then show ?thesis using decode_frame(2) [of t parse v strict rest] assms(2,3) Plain by (simp add: frame_bytes_simps)
qed

section \<open>The stream as one sequence of bytes\<close>

text \<open>
  What a stream of bytes holds: the whole frames at its front, the rest, and the error at which
  reading it stops.
\<close>

function unframe :: "(byte list \<Rightarrow> 'v option) \<Rightarrow> js_num \<Rightarrow> bool \<Rightarrow> byte list \<Rightarrow>
    'v frame list \<times> byte list \<times> js_error option" where
  "unframe parse limit strict bs =
     (if length bs < HEADER_BYTES then ([], bs, None)
      else if over_limit (HEADER_BYTES + read_length bs 0) limit
      then ([], bs, Some (RangeErr ''createFrameDecoder'' ''maxFrameBytes''))
      else if length bs < HEADER_BYTES + read_length bs 0 then ([], bs, None)
      else (case decodeMessage parse strict bs of
              Inl e \<Rightarrow> ([], bs, Some e)
            | Inr f \<Rightarrow> (let (fs, rest, err) = unframe parse limit strict (drop (fr_byteLength f) bs)
                        in (f # fs, rest, err))))"
  by pat_completeness auto
termination
  by (relation "measure (\<lambda>(parse, limit, strict, bs). length bs)") (auto simp: HEADER_BYTES_def dest!: decodeMessage_ok)

declare unframe.simps [simp del]

lemma read_length_cong:
  "(\<And>i. i < HEADER_BYTES \<Longrightarrow> byte_at bs (n + i) = byte_at cs (m + i)) \<Longrightarrow> read_length bs n = read_length cs m"
proof -
  assume h: "\<And>i. i < HEADER_BYTES \<Longrightarrow> byte_at bs (n + i) = byte_at cs (m + i)"
  have "byte_at bs (n + 2) = byte_at cs (m + 2)" "byte_at bs (n + 3) = byte_at cs (m + 3)"
    "byte_at bs (n + 4) = byte_at cs (m + 4)" "byte_at bs (n + 5) = byte_at cs (m + 5)"
    by (simp_all only: h HEADER_BYTES_def)
  then show ?thesis unfolding read_length_def by (simp only:)
qed

lemma read_length_append: "HEADER_BYTES \<le> length bs \<Longrightarrow> read_length (bs @ cs) 0 = read_length bs 0"
  by (rule read_length_cong) (simp add: byte_at_def nth_append)

lemma decodeMessage_append:
  assumes "HEADER_BYTES \<le> length bs" "HEADER_BYTES + read_length bs 0 \<le> length bs"
  shows "decodeMessage parse strict (bs @ cs) = decodeMessage parse strict bs"
proof -
  have "byte_at (bs @ cs) i = byte_at bs i" if "i < HEADER_BYTES" for i
    using that assms(1) by (simp add: byte_at_def nth_append)
  then have "byte_at (bs @ cs) 0 = byte_at bs 0" "byte_at (bs @ cs) 1 = byte_at bs 1" by (simp_all add: HEADER_BYTES_def)
  moreover have "take (read_length bs 0) (drop HEADER_BYTES (bs @ cs)) = take (read_length bs 0) (drop HEADER_BYTES bs)"
    using assms by simp
  moreover have "\<not> length (bs @ cs) < HEADER_BYTES" "\<not> length (bs @ cs) < HEADER_BYTES + read_length bs 0"
    "\<not> length bs < HEADER_BYTES" "\<not> length bs < HEADER_BYTES + read_length bs 0" using assms by simp_all
  ultimately show ?thesis using read_length_append [OF assms(1), of cs]
    unfolding decodeMessage_def Let_def by (simp only: if_False)
qed

lemma unframe_append:
  "unframe parse limit strict bs = (fs, rest, None) \<Longrightarrow>
     unframe parse limit strict (bs @ cs) =
       (let (gs, rest', err) = unframe parse limit strict (rest @ cs) in (fs @ gs, rest', err))"
proof (induction parse limit strict bs arbitrary: fs rest rule: unframe.induct)
  case (1 parse limit strict bs)
  show ?case
  proof (cases "length bs < HEADER_BYTES \<or> length bs < HEADER_BYTES + read_length bs 0")
    case True
    then have "fs = [] \<and> rest = bs" using "1.prems" by (subst (asm) unframe.simps) (auto split: if_splits)
    then show ?thesis by (simp add: case_prod_unfold Let_def)
  next
    case False
    then obtain f where f: "\<not> over_limit (HEADER_BYTES + read_length bs 0) limit"
      "decodeMessage parse strict bs = Inr f"
      using "1.prems" by (subst (asm) unframe.simps) (auto split: if_splits sum.splits)
    obtain gs r err where g: "unframe parse limit strict (drop (fr_byteLength f) bs) = (gs, r, err)"
      by (cases "unframe parse limit strict (drop (fr_byteLength f) bs)") auto
    have eq: "fs = f # gs" "rest = r" "err = None"
      using "1.prems" False f g by (subst (asm) unframe.simps; simp)+
    have IH: "unframe parse limit strict (drop (fr_byteLength f) bs @ cs) =
        (let (gs', rest', err) = unframe parse limit strict (r @ cs) in (gs @ gs', rest', err))"
      using "1.IH" False f g eq by simp
    have "drop (fr_byteLength f) (bs @ cs) = drop (fr_byteLength f) bs @ cs"
      using decodeMessage_ok [OF f(2)] by simp
    then have "unframe parse limit strict (bs @ cs) =
        (let (fs, rest, err) = unframe parse limit strict (drop (fr_byteLength f) bs @ cs) in (f # fs, rest, err))"
      using False f read_length_append [of bs cs] decodeMessage_append [of bs parse strict cs]
      by (subst unframe.simps) simp
    then show ?thesis using IH eq by (simp add: case_prod_unfold Let_def)
  qed
qed

lemma unframe_rest:
  assumes "unframe parse limit strict bs = (fs, rest, None)"
  shows "unframe parse limit strict rest = ([], rest, None)"
proof -
  obtain gs r e where g: "unframe parse limit strict rest = (gs, r, e)" by (cases "unframe parse limit strict rest") auto
  have "(fs, rest, None) = (fs @ gs, r, e)"
    using unframe_append [OF assms, of "[]"] assms g by simp
  then show ?thesis using g by simp
qed

lemma unframe_error:
  "unframe parse limit strict bs = (fs, rest, Some e) \<Longrightarrow> unframe parse limit strict (bs @ cs) = (fs, rest @ cs, Some e)"
proof (induction parse limit strict bs arbitrary: fs rest rule: unframe.induct)
  case (1 parse limit strict bs)
  have len: "HEADER_BYTES \<le> length bs" using "1.prems" by (subst (asm) unframe.simps) (auto split: if_splits)
  show ?case
  proof (cases "over_limit (HEADER_BYTES + read_length bs 0) limit")
    case True
    then show ?thesis using "1.prems" len read_length_append [OF len]
      by (subst unframe.simps, subst (asm) unframe.simps) auto
  next
    case False
    then have whole: "HEADER_BYTES + read_length bs 0 \<le> length bs"
      using "1.prems" len by (subst (asm) unframe.simps) (auto split: if_splits)
    note app = decodeMessage_append [OF len whole, of parse strict cs] read_length_append [OF len, of cs]
    show ?thesis
    proof (cases "decodeMessage parse strict bs")
      case (Inl e')
      then show ?thesis using "1.prems" len False whole app
        by (subst unframe.simps, subst (asm) unframe.simps) auto
    next
      case (Inr f)
      obtain gs r err where g: "unframe parse limit strict (drop (fr_byteLength f) bs) = (gs, r, err)"
        by (cases "unframe parse limit strict (drop (fr_byteLength f) bs)") auto
      have eq: "fs = f # gs" "rest = r" "err = Some e"
        using "1.prems" len whole False Inr g by (subst (asm) unframe.simps; simp)+
      have IH: "unframe parse limit strict (drop (fr_byteLength f) bs @ cs) = (gs, r @ cs, Some e)"
        using "1.IH" len whole False Inr g eq by simp
      have "drop (fr_byteLength f) (bs @ cs) = drop (fr_byteLength f) bs @ cs"
        using decodeMessage_ok [OF Inr] by simp
      then show ?thesis using len whole False Inr app IH eq by (subst unframe.simps) simp
    qed
  qed
qed

section \<open>The decoder reads the stream\<close>

definition fd_ok :: "frame_decoder \<Rightarrow> bool" where
  "fd_ok d \<longleftrightarrow> fd_start d \<le> fd_end d \<and> fd_end d \<le> length (fd_buf d)"

text \<open>The bytes received and not yet consumed.\<close>

definition fd_live :: "frame_decoder \<Rightarrow> byte list" where
  "fd_live d = take (fd_end d - fd_start d) (drop (fd_start d) (fd_buf d))"

lemma length_fd_live: "fd_ok d \<Longrightarrow> length (fd_live d) = fd_end d - fd_start d"
  by (auto simp: fd_ok_def fd_live_def)

lemma grow_capacity_enough: "0 < capacity \<Longrightarrow> need \<le> grow_capacity need capacity"
proof (induction need capacity rule: grow_capacity.induct)
  case (1 need capacity)
  then show ?case by (subst grow_capacity.simps) auto
qed

lemma fd_reserve_ok:
  assumes "fd_ok d"
  shows "fd_ok (fd_reserve n d)" "fd_live (fd_reserve n d) = fd_live d"
    "fd_end (fd_reserve n d) + n \<le> length (fd_buf (fd_reserve n d))"
    "fd_maxFrameBytes (fd_reserve n d) = fd_maxFrameBytes d" "fd_strict (fd_reserve n d) = fd_strict d"
proof -
  define live where "live = fd_end d - fd_start d"
  define cap where "cap = grow_capacity (live + n) (if length (fd_buf d) = 0 then INITIAL_BYTES else length (fd_buf d))"
  have cap: "live + n \<le> cap" unfolding cap_def by (rule grow_capacity_enough) (simp add: INITIAL_BYTES_def)
  have len: "length (fd_live d) = live" using length_fd_live [OF assms] by (simp add: live_def)
  have r: "fd_reserve n d = (if fd_end d + n \<le> length (fd_buf d) then d
      else if live + n \<le> length (fd_buf d)
      then d\<lparr>fd_buf := fd_live d @ drop live (fd_buf d), fd_start := 0, fd_end := live\<rparr>
      else d\<lparr>fd_buf := fd_live d @ replicate (cap - live) 0, fd_start := 0, fd_end := live\<rparr>)"
    by (simp add: fd_reserve_def Let_def live_def cap_def fd_live_def)
  show "fd_ok (fd_reserve n d)" using assms len cap unfolding r by (auto simp: fd_ok_def)
  show "fd_live (fd_reserve n d) = fd_live d" using len unfolding r by (auto simp: fd_live_def [of "_\<lparr>fd_end := _\<rparr>"])
  show "fd_end (fd_reserve n d) + n \<le> length (fd_buf (fd_reserve n d))" using len cap unfolding r by auto
  show "fd_maxFrameBytes (fd_reserve n d) = fd_maxFrameBytes d" "fd_strict (fd_reserve n d) = fd_strict d"
    unfolding r by auto
qed

lemma byte_at_live: "fd_ok d \<Longrightarrow> i < fd_end d - fd_start d \<Longrightarrow> byte_at (fd_buf d) (fd_start d + i) = byte_at (fd_live d) i"
  by (auto simp: fd_ok_def fd_live_def byte_at_def)

lemma read_length_live:
  "fd_ok d \<Longrightarrow> HEADER_BYTES \<le> fd_end d - fd_start d \<Longrightarrow> read_length (fd_buf d) (fd_start d) = read_length (fd_live d) 0"
  using read_length_cong [of "fd_buf d" "fd_start d" "fd_live d" 0] byte_at_live [of d] by simp

lemma push_loop_refines:
  "fd_ok d \<Longrightarrow> unframe parse (fd_maxFrameBytes d) (fd_strict d) (fd_live d) = (fs, rest, err) \<Longrightarrow>
     \<exists>d'. push_loop parse d frames = (d', case err of None \<Rightarrow> Inr (frames @ fs) | Some e \<Rightarrow> Inl e) \<and>
       fd_ok d' \<and> fd_live d' = rest \<and> fd_maxFrameBytes d' = fd_maxFrameBytes d \<and> fd_strict d' = fd_strict d"
proof (induction parse d frames arbitrary: fs rest err rule: push_loop.induct)
  case (1 parse d frames)
  note len = length_fd_live [OF "1.prems"(1)]
  show ?case
  proof (cases "HEADER_BYTES \<le> fd_end d - fd_start d \<and>
      \<not> over_limit (HEADER_BYTES + read_length (fd_live d) 0) (fd_maxFrameBytes d) \<and>
      \<not> fd_end d - fd_start d < HEADER_BYTES + read_length (fd_live d) 0 \<and>
      (\<exists>f. decodeMessage parse (fd_strict d) (fd_live d) = Inr f)")
    case True
    then obtain f where f: "decodeMessage parse (fd_strict d) (fd_live d) = Inr f" by auto
    let ?d = "d\<lparr>fd_start := fd_start d + fr_byteLength f\<rparr>"
    have bl: "fr_byteLength f \<le> fd_end d - fd_start d" using decodeMessage_ok [OF f] len by simp
    have ok: "fd_ok ?d" using "1.prems"(1) bl by (auto simp: fd_ok_def)
    have live: "fd_live ?d = drop (fr_byteLength f) (fd_live d)"
      using bl by (simp add: fd_live_def drop_take add.commute)
    obtain gs r e where g: "unframe parse (fd_maxFrameBytes d) (fd_strict d) (fd_live ?d) = (gs, r, e)"
      by (cases "unframe parse (fd_maxFrameBytes d) (fd_strict d) (fd_live ?d)") auto
    have eq: "fs = f # gs" "rest = r" "err = e"
      using "1.prems"(2) True f g live len by (subst (asm) unframe.simps; simp)+
    have rl: "read_length (fd_buf d) (fd_start d) = read_length (fd_live d) 0"
      using read_length_live [OF "1.prems"(1)] True by simp
    have "push_loop parse d frames = push_loop parse ?d (frames @ [f])"
      using True f rl by (subst push_loop.simps) (simp add: Let_def flip: fd_live_def)
    moreover obtain d' where "push_loop parse ?d (frames @ [f]) =
        (d', case e of None \<Rightarrow> Inr ((frames @ [f]) @ gs) | Some e \<Rightarrow> Inl e) \<and> fd_ok d' \<and> fd_live d' = r \<and>
        fd_maxFrameBytes d' = fd_maxFrameBytes ?d \<and> fd_strict d' = fd_strict ?d"
      using "1.IH" [OF _ refl _ _ _ ok, of gs r e] True f rl g by (auto simp: fd_live_def [of d])
    ultimately show ?thesis using eq by (auto split: option.splits)
  next
    case False
    then show ?thesis
      using "1.prems" len read_length_live [OF "1.prems"(1)]
      by (subst push_loop.simps, subst (asm) unframe.simps)
        (auto simp: Let_def simp flip: fd_live_def split: if_splits sum.splits)
  qed
qed

lemma fd_push_refines:
  assumes "fd_ok d" "unframe parse (fd_maxFrameBytes d) (fd_strict d) (fd_live d @ bytes) = (fs, rest, err)"
  shows "\<exists>d'. fd_push parse bytes d = (d', case err of None \<Rightarrow> Inr fs | Some e \<Rightarrow> Inl e) \<and>
    fd_ok d' \<and> fd_live d' = rest \<and> fd_maxFrameBytes d' = fd_maxFrameBytes d \<and> fd_strict d' = fd_strict d"
proof -
  define d1 where "d1 = fd_reserve (length bytes) d"
  define d2 where "d2 = d1\<lparr>fd_buf := take (fd_end d1) (fd_buf d1) @ bytes @ drop (fd_end d1 + length bytes) (fd_buf d1),
    fd_end := fd_end d1 + length bytes\<rparr>"
  note r = fd_reserve_ok [OF assms(1), of "length bytes", folded d1_def]
  have ok: "fd_ok d2" using r(1,3) by (auto simp: fd_ok_def d2_def)
  have "fd_live d2 = fd_live d1 @ bytes"
  proof -
    have e: "fd_start d1 \<le> fd_end d1" "fd_end d1 \<le> length (fd_buf d1)" using r(1) by (simp_all add: fd_ok_def)
    define A C where "A = take (fd_end d1) (fd_buf d1)" and "C = drop (fd_end d1 + length bytes) (fd_buf d1)"
    have A: "drop (fd_start d1) A = fd_live d1" "length A = fd_end d1" using e by (simp_all add: A_def fd_live_def drop_take)
    have n: "fd_end d1 + length bytes - fd_start d1 = length (fd_live d1) + length bytes"
      using e length_fd_live [OF r(1)] by simp
    have "fd_buf d2 = A @ bytes @ C" "fd_start d2 = fd_start d1" "fd_end d2 = fd_end d1 + length bytes"
      by (simp_all add: d2_def A_def C_def)
    then have "fd_live d2 = take (length (fd_live d1) + length bytes) (drop (fd_start d1) (A @ bytes @ C))"
      unfolding fd_live_def [of d2] by (simp only: n)
    also have "\<dots> = fd_live d1 @ bytes" using A e by simp
    finally show ?thesis .
  qed
  then have "unframe parse (fd_maxFrameBytes d2) (fd_strict d2) (fd_live d2) = (fs, rest, err)"
    using assms(2) r by (simp add: d2_def)
  from push_loop_refines [OF ok this, of "[]", unfolded append_Nil] obtain d3 where d3:
    "push_loop parse d2 [] = (d3, case err of None \<Rightarrow> Inr fs | Some e \<Rightarrow> Inl e)" "fd_ok d3" "fd_live d3 = rest"
    "fd_maxFrameBytes d3 = fd_maxFrameBytes d" "fd_strict d3 = fd_strict d"
    using r(4,5) by (elim exE conjE) (simp add: d2_def)
  have push: "fd_push parse bytes d = (case push_loop parse d2 [] of
           (d3, Inl e) \<Rightarrow> (d3, Inl e)
         | (d3, Inr frames) \<Rightarrow>
             (if fd_start d3 = fd_end d3 then d3\<lparr>fd_start := 0, fd_end := 0\<rparr> else d3, Inr frames))"
    by (simp add: fd_push_def Let_def d1_def d2_def)
  show ?thesis
  proof (cases err)
    case None
    let ?d = "if fd_start d3 = fd_end d3 then d3\<lparr>fd_start := 0, fd_end := 0\<rparr> else d3"
    have "fd_push parse bytes d = (?d, Inr fs)" using d3(1) None by (simp add: push)
    moreover have "fd_ok ?d" "fd_live ?d = rest" "fd_maxFrameBytes ?d = fd_maxFrameBytes d" "fd_strict ?d = fd_strict d"
      using d3 by (auto simp: fd_ok_def fd_live_def)
    ultimately show ?thesis using None by auto
  next
    case (Some e)
    then show ?thesis using d3 by (auto simp: push)
  qed
qed

text \<open>A stream delivered in chunks; the first error ends it.\<close>

fun fd_run :: "(byte list \<Rightarrow> 'v option) \<Rightarrow> byte list list \<Rightarrow> frame_decoder \<Rightarrow> (frame_decoder, 'v frame list) step" where
  "fd_run parse [] d = (d, Inr [])"
| "fd_run parse (c # cs) d =
     (case fd_push parse c d of
        (d1, Inl e) \<Rightarrow> (d1, Inl e)
      | (d1, Inr fs) \<Rightarrow>
          (case fd_run parse cs d1 of (d2, Inl e) \<Rightarrow> (d2, Inl e) | (d2, Inr gs) \<Rightarrow> (d2, Inr (fs @ gs))))"

lemma fd_run_refines:
  "fd_ok d \<Longrightarrow> unframe parse (fd_maxFrameBytes d) (fd_strict d) (fd_live d) = ([], fd_live d, None) \<Longrightarrow>
     unframe parse (fd_maxFrameBytes d) (fd_strict d) (fd_live d @ concat chunks) = (fs, rest, None) \<Longrightarrow>
     \<exists>d'. fd_run parse chunks d = (d', Inr fs) \<and> fd_ok d' \<and> fd_live d' = rest"
proof (induction chunks arbitrary: d fs)
  case Nil
  then show ?case by auto
next
  case (Cons c cs)
  let ?u = "unframe parse (fd_maxFrameBytes d) (fd_strict d)"
  obtain gs r err where g: "?u (fd_live d @ c) = (gs, r, err)" by (cases "?u (fd_live d @ c)") auto
  have ne: "err = None"
    using Cons.prems(3) unframe_error [of parse _ _ "fd_live d @ c" gs r _ "concat cs"] g by (cases err) auto
  obtain hs r' e where h: "?u (r @ concat cs) = (hs, r', e)" by (cases "?u (r @ concat cs)") auto
  have eq: "fs = gs @ hs" "r' = rest" "e = None"
    using Cons.prems(3) unframe_append [of parse _ _ "fd_live d @ c" gs r "concat cs"] g ne h by auto
  obtain d1 where d1: "fd_push parse c d = (d1, Inr gs)" "fd_ok d1" "fd_live d1 = r"
    "fd_maxFrameBytes d1 = fd_maxFrameBytes d" "fd_strict d1 = fd_strict d"
    using fd_push_refines [OF Cons.prems(1) g] ne by auto
  have "unframe parse (fd_maxFrameBytes d1) (fd_strict d1) (fd_live d1) = ([], fd_live d1, None)"
    using unframe_rest [of parse _ _ "fd_live d @ c" gs r] g ne d1 by simp
  from Cons.IH [OF d1(2) this, of hs] h eq d1(3-5) obtain d' where
    "fd_run parse cs d1 = (d', Inr hs)" "fd_ok d'" "fd_live d' = rest" by auto
  then show ?case using d1(1) eq by simp
qed

lemma new_decoder:
  assumes "createFrameDecoder options = Inr d"
  shows "fd_ok d" "fd_live d = []" "\<exists>r. fd_maxFrameBytes d = PosInf \<or> fd_maxFrameBytes d = Fin r \<and> 6 \<le> r"
proof -
  show "fd_ok d" "fd_live d = []"
    using assms by (auto simp: createFrameDecoder_def fd_ok_def fd_live_def split: if_splits sum.splits)
  obtain n where n: "assertLimitRequired (get_prop ''maxFrameBytes'' options)
      ((limit_spec ''maxFrameBytes'' ''PowerMessageCodec.createFrameDecoder'')
                 \<lparr>sp_min := of_nat HEADER_BYTES, sp_integer := True, sp_allowInfinity := True\<rparr>) = Inr n"
    "fd_maxFrameBytes d = n"
    using assms by (auto simp: createFrameDecoder_def split: if_splits sum.splits)
  show "\<exists>r. fd_maxFrameBytes d = PosInf \<or> fd_maxFrameBytes d = Fin r \<and> 6 \<le> r"
    using assertLimitRequired_cases [OF n(1)] n(2) by (auto simp: limit_spec_def HEADER_BYTES_def)
qed

text \<open>The bytes a list of messages goes over the wire as.\<close>

definition wire :: "('v \<Rightarrow> byte list option) \<Rightarrow> 'v message list \<Rightarrow> byte list" where
  "wire stringify ms = concat (map (\<lambda>m. case encodeMessage stringify None m of Inr bs \<Rightarrow> bs | Inl e \<Rightarrow> []) ms)"

text \<open>A message can travel: it has an encoding, within the length field and the limit, that parses back.\<close>

definition sendable :: "('v \<Rightarrow> byte list option) \<Rightarrow> (byte list \<Rightarrow> 'v option) \<Rightarrow> js_num \<Rightarrow> 'v message \<Rightarrow> bool" where
  "sendable stringify parse limit m \<longleftrightarrow>
     (case encodeMessage stringify None m of
        Inl e \<Rightarrow> False
      | Inr bs \<Rightarrow> length bs < 2 ^ 32 \<and> \<not> over_limit (length bs) limit) \<and>
     (case m of Binary bs \<Rightarrow> True
      | Plain v \<Rightarrow> (case stringify v of None \<Rightarrow> False | Some t \<Rightarrow> parse t = Some v))"

lemma unframe_wire:
  "\<forall>m \<in> set ms. sendable stringify parse limit m \<Longrightarrow>
     \<exists>fs. unframe parse limit strict (wire stringify ms) = (fs, [], None) \<and> map fr_value fs = ms"
proof (induction ms)
  case Nil
  then show ?case by (simp add: wire_def unframe.simps HEADER_BYTES_def)
next
  case (Cons m ms)
  then obtain bs where bs: "encodeMessage stringify None m = Inr bs" "length bs < 2 ^ 32" "\<not> over_limit (length bs) limit"
    by (auto simp: sendable_def split: sum.splits)
  have parse: "parse t = Some v" if "m = Plain v" "stringify v = Some t" for v t
    using Cons.prems that by (simp add: sendable_def)
  let ?rest = "wire stringify ms"
  obtain f where f: "decodeMessage parse strict (bs @ ?rest) = Inr f" "fr_value f = m" "fr_byteLength f = length bs"
    using encode_decode [where parse = parse and strict = strict and rest = ?rest, OF bs(1,2)] parse by auto
  obtain fs where fs: "unframe parse limit strict ?rest = (fs, [], None)" "map fr_value fs = ms"
    using Cons.IH Cons.prems by auto
  have l: "HEADER_BYTES + read_length (bs @ ?rest) 0 = length bs" "length bs \<le> length (bs @ ?rest)"
    using decodeMessage_ok [OF f(1)] f(3) by simp_all
  have "unframe parse limit strict (bs @ ?rest) = (f # fs, [], None)"
    using bs(3) f l fs by (subst unframe.simps) simp
  moreover have "wire stringify (m # ms) = bs @ ?rest" using bs(1) by (simp add: wire_def)
  ultimately show ?case using fs f by auto
qed

section \<open>Properties\<close>

text \<open>
  A message survives its frame.  Encoding a message and decoding the frame, with any bytes
  after it, gives back the message and the length of its frame, in both decoding modes; the
  sniffing \<open>decodeInbound\<close> reads it as the same message.
\<close>

theorem frame_roundtrip:
  assumes "encodeMessage stringify None m = Inr bs" "length bs < 2 ^ 32"
    and "\<And>v t. m = Plain v \<Longrightarrow> stringify v = Some t \<Longrightarrow> parse t = Some v"
  shows "\<exists>f. decodeMessage parse strict (bs @ rest) = Inr f \<and> fr_value f = m \<and> fr_byteLength f = length bs \<and>
    decodeInbound parse (InBinary (bs @ rest)) = Inr (fr_codec f, m, None)"
proof -
  obtain f where f: "decodeMessage parse strict (bs @ rest) = Inr f" "fr_value f = m" "fr_byteLength f = length bs"
    using encode_decode [where parse = parse and strict = strict and rest = rest, OF assms(1,2)] assms(3) by auto
  obtain g where g: "decodeMessage parse True (bs @ rest) = Inr g" "fr_value g = m"
    using encode_decode [where parse = parse and strict = True and rest = rest, OF assms(1,2)] assms(3) by auto
  have "byte_at (bs @ rest) 0 = MESSAGE_PROTOCOL_VERSION" "HEADER_BYTES \<le> length (bs @ rest)"
    using g(1) by (auto simp: decodeMessage_def split: if_splits)
  moreover have "fr_codec f = fr_codec g"
    using f(1) g(1) by (auto simp: decodeMessage_def Let_def split: if_splits option.splits)
  ultimately show ?thesis using f g by (auto simp: decodeInbound_def)
qed

theorem frame_roundtrip_witness:
  "\<exists>f. decodeMessage (\<lambda>t. Some t) True ([1, 0, 2, 0, 0, 0, 7, 8] @ [9]) = Inr f \<and> fr_value f = Plain [7, 8] \<and>
     fr_byteLength f = 8 \<and> decodeInbound (\<lambda>t. Some t) (InBinary ([1, 0, 2, 0, 0, 0, 7, 8] @ [9])) = Inr (fr_codec f, Plain [7, 8], None)"
proof -
  have e: "encodeMessage (\<lambda>v. Some v) None (Plain [7, 8]) = Inr [1, 0, 2, 0, 0, 0, 7, 8]" by code_simp
  from frame_roundtrip [where parse = "\<lambda>t. Some t" and strict = True and rest = "[9]", OF e] show ?thesis by auto
qed

text \<open>
  C15. A stream is read whole however it is cut.  Messages within the frame limit, encoded one
  after the other and delivered in chunks of any sizes, come out of a new decoder as exactly
  those messages, in order, and nothing stays pending.
\<close>

theorem stream_roundtrip:
  assumes "createFrameDecoder options = Inr d" "\<forall>m \<in> set ms. sendable stringify parse (fd_maxFrameBytes d) m"
    and "concat chunks = wire stringify ms"
  shows "\<exists>d' fs. fd_run parse chunks d = (d', Inr fs) \<and> map fr_value fs = ms \<and> fd_pendingBytes d' = 0 \<and>
    fd_flush True d' = Inr []"
proof -
  obtain fs where fs: "unframe parse (fd_maxFrameBytes d) (fd_strict d) (wire stringify ms) = (fs, [], None)"
    "map fr_value fs = ms"
    using unframe_wire [OF assms(2)] by blast
  note new = new_decoder [OF assms(1)]
  have "unframe parse (fd_maxFrameBytes d) (fd_strict d) [] = ([], [], None)"
    by (simp add: unframe.simps HEADER_BYTES_def)
  then obtain d' where d': "fd_run parse chunks d = (d', Inr fs)" "fd_ok d'" "fd_live d' = []"
    using fd_run_refines [OF new(1), of parse chunks fs "[]"] fs(1) new(2) assms(3) by auto
  then have "fd_end d' - fd_start d' = 0" using length_fd_live [OF d'(2)] by simp
  then show ?thesis using d' fs(2) by (auto simp: fd_pendingBytes_def fd_flush_def)
qed

theorem stream_roundtrip_witness:
  "case createFrameDecoder (JObj [(''maxFrameBytes'', JNum (Fin 64))]) of
     Inr d \<Rightarrow> (\<exists>d' fs. fd_run (\<lambda>t. Some t) [[1, 0, 1], [0, 0, 0, 7, 1, 2], [2, 0, 0, 0, 5], [6]] d = (d', Inr fs) \<and>
         map fr_value fs = [Plain [7], Binary [5, 6]])
   | _ \<Rightarrow> False"
proof -
  have "case createFrameDecoder (JObj [(''maxFrameBytes'', JNum (Fin 64))]) of
     Inr d \<Rightarrow> fd_maxFrameBytes d = Fin 64 | _ \<Rightarrow> False" by code_simp
  then obtain d where d: "createFrameDecoder (JObj [(''maxFrameBytes'', JNum (Fin 64))]) = Inr d" "fd_maxFrameBytes d = Fin 64"
    by (auto split: sum.splits)
  have "encodeMessage Some None (Plain [7 :: byte]) = Inr [1, 0, 1, 0, 0, 0, 7]"
    "encodeMessage Some None (Binary [5, 6] :: byte list message) = Inr [1, 2, 2, 0, 0, 0, 5, 6]" by code_simp+
  then have "sendable Some Some (Fin 64) (Plain [7 :: byte]) \<and> sendable Some Some (Fin 64) (Binary [5, 6] :: byte list message)"
    by (simp add: sendable_def over_limit_def)
  then have s: "\<forall>m \<in> set [Plain [7], Binary [5, 6]]. sendable Some Some (fd_maxFrameBytes d) m" using d by simp
  have w: "concat [[1, 0, 1], [0, 0, 0, 7, 1, 2], [2, 0, 0, 0, 5], [6]] = wire Some [Plain [7], Binary [5, 6]]" by code_simp
  show ?thesis using stream_roundtrip [OF d(1) s w] d by auto
qed

text \<open>
  The ceiling bounds what is buffered.  After any chunks a decoder accepts, the bytes pending
  for an incomplete frame are fewer than \<open>maxFrameBytes\<close>: a header that declares more is refused
  before its payload arrives.
\<close>

theorem pending_below_ceiling:
  assumes "createFrameDecoder options = Inr d" "fd_maxFrameBytes d = Fin r" "fd_run parse chunks d = (d', Inr fs)"
  shows "rat_of_nat (fd_pendingBytes d') < r"
proof -
  have run: "fd_ok d' \<and> unframe parse (Fin r) b (fd_live d') = ([], fd_live d', None)"
    if "fd_ok d" "fd_maxFrameBytes d = Fin r" "fd_strict d = b"
      "unframe parse (Fin r) b (fd_live d) = ([], fd_live d, None)" "fd_run parse chunks d = (d', Inr fs)"
    for d b d' fs and chunks :: "byte list list"
    using that
  proof (induction chunks arbitrary: d fs)
    case (Cons c cs)
    obtain gs rest err where g: "unframe parse (fd_maxFrameBytes d) (fd_strict d) (fd_live d @ c) = (gs, rest, err)"
      by (cases "unframe parse (fd_maxFrameBytes d) (fd_strict d) (fd_live d @ c)") auto
    obtain d1 where d1: "fd_push parse c d = (d1, case err of None \<Rightarrow> Inr gs | Some e \<Rightarrow> Inl e)" "fd_ok d1"
      "fd_live d1 = rest" "fd_maxFrameBytes d1 = fd_maxFrameBytes d" "fd_strict d1 = fd_strict d"
      using fd_push_refines [OF Cons.prems(1) g] by auto
    have err: "err = None" using Cons.prems(5) d1(1) by (auto split: option.splits)
    then obtain hs where "fd_run parse cs d1 = (d', Inr hs)"
      using Cons.prems(5) d1(1) by (auto split: prod.splits sum.splits)
    moreover have "unframe parse (Fin r) b (fd_live d1) = ([], fd_live d1, None)"
      using unframe_rest [of parse _ _ "fd_live d @ c" gs rest] g err d1 Cons.prems(2,3) by simp
    ultimately show ?case using Cons.IH [of d1 hs] d1 Cons.prems by simp
  qed auto
  have "unframe parse (Fin r) (fd_strict d) (fd_live d) = ([], fd_live d, None)"
    using new_decoder [OF assms(1)] by (simp add: unframe.simps HEADER_BYTES_def)
  then have u: "fd_ok d'" "unframe parse (Fin r) (fd_strict d) (fd_live d') = ([], fd_live d', None)"
    using run [of d "fd_strict d" chunks d' fs] new_decoder(1) [OF assms(1)] assms(2,3) by auto
  have r: "6 \<le> r" using new_decoder(3) [OF assms(1)] assms(2) by auto
  have "length (fd_live d') < HEADER_BYTES \<or> \<not> over_limit (HEADER_BYTES + read_length (fd_live d') 0) (Fin r) \<and>
      length (fd_live d') < HEADER_BYTES + read_length (fd_live d') 0"
    using u(2) by (subst (asm) unframe.simps) (auto split: if_splits sum.splits prod.splits)
  then have "rat_of_nat (length (fd_live d')) < r"
  proof (elim disjE conjE)
    assume "length (fd_live d') < HEADER_BYTES"
    then have "rat_of_nat (length (fd_live d')) < 6" by (simp add: HEADER_BYTES_def)
    then show ?thesis using r by simp
  next
    assume "\<not> over_limit (HEADER_BYTES + read_length (fd_live d') 0) (Fin r)"
      and "length (fd_live d') < HEADER_BYTES + read_length (fd_live d') 0"
    then have "rat_of_nat (length (fd_live d')) < rat_of_nat (HEADER_BYTES + read_length (fd_live d') 0)"
      "rat_of_nat (HEADER_BYTES + read_length (fd_live d') 0) \<le> r"
      by (simp_all only: of_nat_less_iff over_limit_def num_lt.simps not_less)
    then show ?thesis by simp
  qed
  then show ?thesis using length_fd_live [OF u(1)] by (simp add: fd_pendingBytes_def)
qed

theorem pending_below_ceiling_witness:
  "case createFrameDecoder (JObj [(''maxFrameBytes'', JNum (Fin 9))]) of
     Inr d \<Rightarrow> (case fd_run (\<lambda>t. Some t) [[1, 0, 1], [0, 0, 0, 7, 1, 2]] d of
         (d', Inr fs) \<Rightarrow> rat_of_nat (fd_pendingBytes d') < 9 | _ \<Rightarrow> False)
   | _ \<Rightarrow> False"
proof -
  have "case createFrameDecoder (JObj [(''maxFrameBytes'', JNum (Fin 9))]) of
     Inr d \<Rightarrow> fd_maxFrameBytes d = Fin 9 | _ \<Rightarrow> False" by code_simp
  then obtain d where d: "createFrameDecoder (JObj [(''maxFrameBytes'', JNum (Fin 9))]) = Inr d" "fd_maxFrameBytes d = Fin 9"
    by (auto split: sum.splits)
  note new = new_decoder [OF d(1)]
  have "unframe Some (Fin 9) True ([1, 0, 1] @ [0, 0, 0, 7, 1, 2] :: byte list) =
      ([\<lparr>fr_version = 1, fr_codec = ''json'', fr_value = Plain [7], fr_byteLength = 7\<rparr>], [1, 2], None)"
    "unframe Some (Fin 9) False ([1, 0, 1] @ [0, 0, 0, 7, 1, 2] :: byte list) =
      ([\<lparr>fr_version = 1, fr_codec = ''json'', fr_value = Plain [7], fr_byteLength = 7\<rparr>], [1, 2], None)" by code_simp+
  then have "unframe Some (Fin 9) s ([1, 0, 1] @ [0, 0, 0, 7, 1, 2] :: byte list) =
      ([\<lparr>fr_version = 1, fr_codec = ''json'', fr_value = Plain [7], fr_byteLength = 7\<rparr>], [1, 2], None)" for s
    by (cases s) simp_all
  moreover have "unframe Some (Fin 9) (fd_strict d) [] = ([], [], None)" by (simp add: unframe.simps HEADER_BYTES_def)
  ultimately obtain d' fs where run: "fd_run Some [[1, 0, 1], [0, 0, 0, 7, 1, 2]] d = (d', Inr fs)"
    using fd_run_refines [OF new(1), of Some "[[1, 0, 1], [0, 0, 0, 7, 1, 2]]"] new(2) d(2) by auto
  show ?thesis using pending_below_ceiling [OF d run] by (simp add: d(1) run del: fd_run.simps)
qed

text \<open>
  An error loses the frames before it.  When a chunk holds a whole valid message and then
  bytes that make \<open>push\<close> throw, the call throws and the decoder is left as if the message had
  never been sent; delivered in a chunk of its own, the same message is returned.
\<close>

theorem push_error_drops_frames:
  assumes "createFrameDecoder options = Inr d" "sendable stringify parse (fd_maxFrameBytes d) m"
    and "fd_push parse bad d = (d2, Inl e)"
  shows "(\<exists>d1. fd_push parse (wire stringify [m] @ bad) d = (d1, Inl e) \<and> fd_live d1 = fd_live d2) \<and>
    (\<exists>d1 f. fd_push parse (wire stringify [m]) d = (d1, Inr [f]) \<and> fr_value f = m)"
proof -
  note new = new_decoder [OF assms(1)]
  let ?u = "unframe parse (fd_maxFrameBytes d) (fd_strict d)"
  obtain fs where fs: "?u (wire stringify [m]) = (fs, [], None)" "map fr_value fs = [m]"
    using unframe_wire [of "[m]" stringify parse "fd_maxFrameBytes d" "fd_strict d"] assms(2) by auto
  obtain gs rest err where g: "?u bad = (gs, rest, err)" by (cases "?u bad") auto
  obtain d' where d': "fd_push parse bad d = (d', case err of None \<Rightarrow> Inr gs | Some e \<Rightarrow> Inl e)" "fd_live d' = rest"
    using fd_push_refines [OF new(1), of parse bad gs rest err] g new(2) by auto
  then have e: "err = Some e" "fd_live d2 = rest" using assms(3) by (auto split: option.splits)
  have "?u (wire stringify [m] @ bad) = (fs @ gs, rest, Some e)"
    using unframe_append [OF fs(1), of bad] g e by simp
  then have one: "\<exists>d1. fd_push parse (wire stringify [m] @ bad) d = (d1, Inl e) \<and> fd_live d1 = fd_live d2"
    using fd_push_refines [OF new(1), of parse "wire stringify [m] @ bad" "fs @ gs" rest "Some e"] new(2) e by auto
  have "\<exists>d1. fd_push parse (wire stringify [m]) d = (d1, Inr fs)"
    using fd_push_refines [OF new(1), of parse "wire stringify [m]" fs "[]" None] new(2) fs(1) by auto
  moreover obtain f where "fs = [f]" "fr_value f = m" using fs(2) by auto
  ultimately show ?thesis using one by auto
qed

theorem push_error_drops_frames_witness:
  "case createFrameDecoder (JObj [(''maxFrameBytes'', JNum (Fin 64))]) of
     Inr d \<Rightarrow> (\<exists>d1 e. fd_push (\<lambda>t. Some t) ([1, 0, 1, 0, 0, 0, 7] @ [1, 9, 0, 0, 0, 0]) d = (d1, Inl e))
   | _ \<Rightarrow> False"
proof -
  have "case createFrameDecoder (JObj [(''maxFrameBytes'', JNum (Fin 64))]) of
     Inr d \<Rightarrow> fd_maxFrameBytes d = Fin 64 | _ \<Rightarrow> False" by code_simp
  then obtain d where d: "createFrameDecoder (JObj [(''maxFrameBytes'', JNum (Fin 64))]) = Inr d" "fd_maxFrameBytes d = Fin 64"
    by (auto split: sum.splits)
  note new = new_decoder [OF d(1)]
  have "encodeMessage Some None (Plain [7 :: byte]) = Inr [1, 0, 1, 0, 0, 0, 7]" by code_simp
  then have "sendable Some Some (Fin 64) (Plain [7 :: byte])" by (simp add: sendable_def over_limit_def)
  then have s: "sendable Some Some (fd_maxFrameBytes d) (Plain [7])" using d by simp
  have "unframe Some (Fin 64) True [1, 9, 0, 0, 0, 0] =
      ([] :: byte list frame list, [1, 9, 0, 0, 0, 0], Some (RangeErr ''decodeMessage'' ''codec''))"
    "unframe Some (Fin 64) False [1, 9, 0, 0, 0, 0] =
      ([] :: byte list frame list, [1, 9, 0, 0, 0, 0], Some (RangeErr ''decodeMessage'' ''codec''))" by code_simp+
  then have "unframe Some (Fin 64) b [1, 9, 0, 0, 0, 0] =
      ([] :: byte list frame list, [1, 9, 0, 0, 0, 0], Some (RangeErr ''decodeMessage'' ''codec''))" for b
    by (cases b) simp_all
  then obtain d2 where "fd_push Some [1, 9, 0, 0, 0, 0] d = (d2, Inl (RangeErr ''decodeMessage'' ''codec''))"
    using fd_push_refines [OF new(1), of Some "[1, 9, 0, 0, 0, 0]"] new(2) d(2) by fastforce
  moreover have "wire Some [Plain [7]] = ([1, 0, 1, 0, 0, 0, 7] :: byte list)" by code_simp
  ultimately show ?thesis using push_error_drops_frames [OF d(1) s] d by fastforce
qed

end
