(* ===== verification/Circuit.thy ===== *)
theory Circuit
  imports LimiterClock
begin

text \<open>
  The circuit breaker (\<open>src/helpers/powerCircuit.js\<close>).  A call is two steps: \<open>circuit_begin\<close> up
  to the point where the guarded function runs, and \<open>circuit_settle\<close> from the point where its
  result, its error or the abort of its signal arrives; between them anything may happen, which
  the step relation at the end of the model expresses.  Clock readings and the draws of
  \<open>Math.random\<close> are arguments; the notifications are a list, and the callbacks behind them are
  taken not to call back into the circuit.
\<close>

section \<open>State\<close>

datatype circuit_state = Closed | Open | HalfOpen

datatype call_error = CircuitOpen | CircuitDisposed | NotCallable | SignalAborted

record circuit =
  ct_threshold :: rat
  ct_timeout :: rat
  ct_maxTimeout :: rat
  ct_halfOpenProbes :: rat
  ct_consecutiveOpens :: nat
  ct_openWindowMs :: rat
  ct_state :: circuit_state
  ct_failures :: nat
  ct_lastError :: "js_val option"
  ct_openedAt :: "rat option"
  ct_trialInFlight :: nat
  ct_halfOpenAnnounced :: bool
  ct_disposed :: bool
  ct_notified :: "(circuit_state \<times> string) list"

definition DEFAULT_TIMEOUT_MS :: rat where "DEFAULT_TIMEOUT_MS = 30 * MS_PER_SEC"

definition DEFAULT_CIRCUIT_MAX_OPEN_FACTOR :: rat where "DEFAULT_CIRCUIT_MAX_OPEN_FACTOR = 16"

definition DEFAULT_CIRCUIT_MIN_JITTER_RATIO :: rat where "DEFAULT_CIRCUIT_MIN_JITTER_RATIO = 1 / 2"

definition circuit_limit :: "js_val \<Rightarrow> string \<Rightarrow> js_val \<Rightarrow> rat result" where
  "circuit_limit v name fallback =
     (case assertLimitRequired v ((limit_spec name ''PowerCircuit'')\<lparr>sp_min := 1, sp_fallback := fallback\<rparr>) of
        Inl e \<Rightarrow> Inl e | Inr n \<Rightarrow> Inr (num_rat n))"

definition circuit_new :: "js_val \<Rightarrow> circuit result" where
  "circuit_new options =
     (let opts = default_to (JObj []) options in
      case assertKnownOptions opts [''threshold'', ''timeout'', ''maxTimeout'', ''onStateChange'', ''eventBus'',
             ''now'', ''halfOpenProbes''] ''PowerCircuit'' of
        Inl e \<Rightarrow> Inl e
      | Inr _ \<Rightarrow>
          if opts = JNull then Inl NullOptions
          else
          (case circuit_limit (default_to (JNum (Fin 5)) (get_prop ''threshold'' opts)) ''threshold'' (JNum (Fin 5)) of
             Inl e \<Rightarrow> Inl e
           | Inr threshold \<Rightarrow>
               (case circuit_limit (default_to (JNum (Fin DEFAULT_TIMEOUT_MS)) (get_prop ''timeout'' opts))
                       ''timeout'' (JNum (Fin DEFAULT_TIMEOUT_MS)) of
                  Inl e \<Rightarrow> Inl e
                | Inr timeout \<Rightarrow>
                    (case (if is_nullish (get_prop ''maxTimeout'' opts)
                           then Inr (timeout * DEFAULT_CIRCUIT_MAX_OPEN_FACTOR)
                           else circuit_limit (get_prop ''maxTimeout'' opts) ''maxTimeout'' JUndefined) of
                       Inl e \<Rightarrow> Inl e
                     | Inr maxTimeout \<Rightarrow>
                         (case circuit_limit (default_to (JNum (Fin 1)) (get_prop ''halfOpenProbes'' opts))
                                 ''halfOpenProbes'' (JNum (Fin 1)) of
                            Inl e \<Rightarrow> Inl e
                          | Inr probes \<Rightarrow>
                              Inr \<lparr>ct_threshold = threshold, ct_timeout = timeout, ct_maxTimeout = maxTimeout,
                                ct_halfOpenProbes = probes, ct_consecutiveOpens = 0, ct_openWindowMs = timeout,
                                ct_state = Closed, ct_failures = 0, ct_lastError = None, ct_openedAt = None,
                                ct_trialInFlight = 0, ct_halfOpenAnnounced = False, ct_disposed = False,
                                ct_notified = []\<rparr>)))))"

section \<open>Operations\<close>

definition circuit_drawOpenWindow :: "rat \<Rightarrow> circuit \<Rightarrow> rat" where
  "circuit_drawOpenWindow random c =
     (let capped = (if 30 \<le> ct_consecutiveOpens c then ct_maxTimeout c
                    else ct_timeout c * 2 ^ ct_consecutiveOpens c);
          delay = min (ct_maxTimeout c) (max (ct_timeout c) capped);
          lo = delay * DEFAULT_CIRCUIT_MIN_JITTER_RATIO
      in lo + random * (delay - lo))"

definition circuit_notifyState :: "circuit_state \<Rightarrow> string \<Rightarrow> circuit \<Rightarrow> circuit" where
  "circuit_notifyState st reason c = c\<lparr>ct_notified := ct_notified c @ [(st, reason)]\<rparr>"

definition circuit_setState :: "circuit_state \<Rightarrow> string \<Rightarrow> rat \<Rightarrow> rat \<Rightarrow> circuit \<Rightarrow> circuit" where
  "circuit_setState newState reason now random c =
     (if ct_state c = newState then c
      else
        (let c1 = c\<lparr>ct_state := newState\<rparr>;
             c2 = (if newState = Open then
                     c1\<lparr>ct_openedAt := Some now, ct_openWindowMs := circuit_drawOpenWindow random c1,
                        ct_consecutiveOpens := ct_consecutiveOpens c1 + 1, ct_halfOpenAnnounced := False\<rparr>
                   else if newState = Closed then
                     c1\<lparr>ct_openedAt := None, ct_consecutiveOpens := 0, ct_openWindowMs := ct_timeout c1\<rparr>
                   else c1\<lparr>ct_openedAt := None\<rparr>);
             c3 = (if newState \<noteq> HalfOpen then c2\<lparr>ct_trialInFlight := 0\<rparr> else c2)
         in circuit_notifyState newState reason c3))"

text \<open>The \<open>state\<close> getter, which announces an elapsed window once.\<close>

definition circuit_readState :: "rat \<Rightarrow> circuit \<Rightarrow> circuit \<times> circuit_state" where
  "circuit_readState now c =
     (case (ct_state c, ct_openedAt c) of
        (Open, Some t) \<Rightarrow>
          (if ct_openWindowMs c \<le> now - t then
             ((if \<not> ct_halfOpenAnnounced c
               then circuit_notifyState HalfOpen ''timeoutElapsed'' (c\<lparr>ct_halfOpenAnnounced := True\<rparr>) else c), HalfOpen)
           else (c, Open))
      | (st, _) \<Rightarrow> (c, st))"

text \<open>
  \<open>call\<close> up to the run of the guarded function: \<open>None\<close> means it runs.  \<open>Number(null)\<close> is 0.
  A disposed circuit has its \<open>call\<close> replaced by one that rejects.
\<close>

definition circuit_begin :: "bool \<Rightarrow> bool \<Rightarrow> rat \<Rightarrow> rat \<Rightarrow> circuit \<Rightarrow> circuit \<times> call_error option" where
  "circuit_begin callable aborted now random c =
     (if ct_disposed c then (c, Some CircuitDisposed)
      else if \<not> callable then (c, Some NotCallable)
      else if aborted then (c, Some SignalAborted)
      else if ct_state c = Open \<and> now - (case ct_openedAt c of Some t \<Rightarrow> t | None \<Rightarrow> 0) < ct_openWindowMs c
      then (c, Some CircuitOpen)
      else
        (let c1 = (if ct_state c = Open then circuit_setState HalfOpen ''timeoutElapsed'' now random c else c) in
         if ct_state c1 = HalfOpen then
           (if ct_halfOpenProbes c1 \<le> of_nat (ct_trialInFlight c1) then (c1, Some CircuitOpen)
            else (c1\<lparr>ct_trialInFlight := ct_trialInFlight c1 + 1\<rparr>, None))
         else (c1, None)))"

text \<open>What arrives: a result, an error, or an error with the signal aborted by then.\<close>

datatype settlement = Success | Failure js_val | AbortFailure js_val

definition circuit_catch :: "settlement \<Rightarrow> rat \<Rightarrow> rat \<Rightarrow> circuit \<Rightarrow> circuit" where
  "circuit_catch outcome now random c =
     (case outcome of
        Success \<Rightarrow> circuit_setState Closed ''success'' now random (c\<lparr>ct_failures := 0, ct_lastError := None\<rparr>)
      | AbortFailure err \<Rightarrow> c\<lparr>ct_lastError := Some err\<rparr>
      | Failure err \<Rightarrow>
          (let c1 = c\<lparr>ct_lastError := Some err\<rparr> in
           if ct_state c1 = HalfOpen
           then (circuit_setState Open ''trialFailed'' now random c1)\<lparr>ct_failures := 0\<rparr>
           else
             (let c2 = c1\<lparr>ct_failures := ct_failures c1 + 1\<rparr> in
              if ct_threshold c2 \<le> of_nat (ct_failures c2)
              then (circuit_setState Open ''thresholdExceeded'' now random c2)\<lparr>ct_failures := 0\<rparr>
              else c2)))"

text \<open>The \<open>finally\<close> block.\<close>

definition circuit_settle :: "settlement \<Rightarrow> rat \<Rightarrow> rat \<Rightarrow> circuit \<Rightarrow> circuit" where
  "circuit_settle outcome now random c =
     (let c1 = circuit_catch outcome now random c in
      if ct_state c1 = HalfOpen \<or> ct_state c1 = Open
      then c1\<lparr>ct_trialInFlight := ct_trialInFlight c1 - 1\<rparr> else c1)"

definition circuit_reset :: "circuit \<Rightarrow> circuit" where
  "circuit_reset c =
     (if ct_disposed c then c
      else (circuit_setState Closed ''reset'' 0 0 c)\<lparr>ct_failures := 0, ct_lastError := None, ct_openedAt := None,
        ct_trialInFlight := 0, ct_consecutiveOpens := 0, ct_openWindowMs := ct_timeout c\<rparr>)"

definition circuit_dispose :: "circuit \<Rightarrow> circuit" where
  "circuit_dispose c = (circuit_reset c)\<lparr>ct_disposed := True\<rparr>"

section \<open>Interleaved calls\<close>

text \<open>
  A circuit with its calls in flight, each marked with whether it was admitted as a half-open
  trial.  The steps are what the event loop may run next.
\<close>

datatype circuit_event =
    Begin bool bool rat rat
  | Settle nat settlement rat rat
  | ReadState rat
  | Reset
  | Dispose

inductive circuit_step :: "circuit \<times> bool list \<Rightarrow> circuit_event \<Rightarrow> circuit \<times> bool list \<Rightarrow> bool" where
  begin_runs: "0 \<le> random \<Longrightarrow> random < 1 \<Longrightarrow> circuit_begin callable aborted now random c = (c', None) \<Longrightarrow>
    circuit_step (c, calls) (Begin callable aborted now random) (c', calls @ [ct_state c' = HalfOpen])"
| begin_rejects: "0 \<le> random \<Longrightarrow> random < 1 \<Longrightarrow> circuit_begin callable aborted now random c = (c', Some e) \<Longrightarrow>
    circuit_step (c, calls) (Begin callable aborted now random) (c', calls)"
| settles: "0 \<le> random \<Longrightarrow> random < 1 \<Longrightarrow> i < length calls \<Longrightarrow>
    circuit_step (c, calls) (Settle i outcome now random)
      (circuit_settle outcome now random c, take i calls @ drop (Suc i) calls)"
| reads: "circuit_step (c, calls) (ReadState now) (fst (circuit_readState now c), calls)"
| resets: "circuit_step (c, calls) Reset (circuit_reset c, calls)"
| disposes: "circuit_step (c, calls) Dispose (circuit_dispose c, calls)"

inductive circuit_reachable :: "js_val \<Rightarrow> circuit \<times> bool list \<Rightarrow> bool" for options where
  new: "circuit_new options = Inr c \<Longrightarrow> circuit_reachable options (c, [])"
| step: "circuit_reachable options s \<Longrightarrow> circuit_step s ev s' \<Longrightarrow> circuit_reachable options s'"

inductive_cases circuit_stepE: "circuit_step (c, calls) ev s'"

section \<open>The invariant\<close>

definition circuit_inv :: "circuit \<Rightarrow> bool" where
  "circuit_inv c \<longleftrightarrow> 1 \<le> ct_threshold c \<and> 1 \<le> ct_timeout c \<and> 1 \<le> ct_maxTimeout c \<and> 1 \<le> ct_halfOpenProbes c \<and>
     of_nat (ct_failures c) < ct_threshold c \<and>
     (ct_openedAt c \<noteq> None \<longleftrightarrow> ct_state c = Open) \<and>
     (ct_state c \<noteq> HalfOpen \<longrightarrow> ct_trialInFlight c = 0) \<and>
     of_nat (ct_trialInFlight c) < ct_halfOpenProbes c + 1 \<and>
     (ct_state c = Open \<longrightarrow> min (ct_timeout c) (ct_maxTimeout c) / 2 \<le> ct_openWindowMs c \<and>
        ct_openWindowMs c \<le> ct_maxTimeout c) \<and>
     (ct_state c = Closed \<longrightarrow> ct_consecutiveOpens c = 0 \<and> ct_openWindowMs c = ct_timeout c)"

lemma circuit_window_bounds:
  assumes "1 \<le> ct_timeout c" "1 \<le> ct_maxTimeout c" "0 \<le> random" "random < 1"
  shows "min (ct_timeout c) (ct_maxTimeout c) / 2 \<le> circuit_drawOpenWindow random c \<and>
    circuit_drawOpenWindow random c \<le> ct_maxTimeout c"
proof -
  define capped where "capped = (if 30 \<le> ct_consecutiveOpens c then ct_maxTimeout c
                    else ct_timeout c * 2 ^ ct_consecutiveOpens c)"
  define delay where "delay = min (ct_maxTimeout c) (max (ct_timeout c) capped)"
  have d: "min (ct_timeout c) (ct_maxTimeout c) \<le> delay" "delay \<le> ct_maxTimeout c" "0 \<le> delay"
    using assms by (auto simp: delay_def)
  have w: "circuit_drawOpenWindow random c = delay / 2 + random * (delay / 2)"
    by (simp add: circuit_drawOpenWindow_def Let_def DEFAULT_CIRCUIT_MIN_JITTER_RATIO_def flip: capped_def delay_def)
  have "0 \<le> random * (delay / 2)" "random * (delay / 2) \<le> delay / 2"
    using d(3) assms(3,4) mult_left_le_one_le [of "delay / 2" random] by simp_all
  then show ?thesis using d unfolding w by linarith
qed

lemma setState_frame [simp]:
  "ct_threshold (circuit_setState st r now random c) = ct_threshold c"
  "ct_timeout (circuit_setState st r now random c) = ct_timeout c"
  "ct_maxTimeout (circuit_setState st r now random c) = ct_maxTimeout c"
  "ct_halfOpenProbes (circuit_setState st r now random c) = ct_halfOpenProbes c"
  "ct_failures (circuit_setState st r now random c) = ct_failures c"
  "ct_disposed (circuit_setState st r now random c) = ct_disposed c"
  "ct_state (circuit_setState st r now random c) = st"
  by (simp_all add: circuit_setState_def circuit_notifyState_def Let_def)

lemma draw_cong:
  "ct_consecutiveOpens d = ct_consecutiveOpens c \<Longrightarrow> ct_timeout d = ct_timeout c \<Longrightarrow> ct_maxTimeout d = ct_maxTimeout c \<Longrightarrow>
     circuit_drawOpenWindow random d = circuit_drawOpenWindow random c"
  by (simp add: circuit_drawOpenWindow_def)

lemma setState_inv:
  assumes "circuit_inv c" "0 \<le> random" "random < 1"
  shows "circuit_inv (circuit_setState st r now random c)"
proof (cases "ct_state c = st")
  case False
  have w: "min (ct_timeout c) (ct_maxTimeout c) / 2 \<le> circuit_drawOpenWindow random (c\<lparr>ct_state := Open\<rparr>) \<and>
      circuit_drawOpenWindow random (c\<lparr>ct_state := Open\<rparr>) \<le> ct_maxTimeout c"
    using circuit_window_bounds [of c random] draw_cong [of "c\<lparr>ct_state := Open\<rparr>" c random] assms
    by (simp add: circuit_inv_def)
  show ?thesis
    using assms(1) False w by (cases st) (auto simp: circuit_inv_def circuit_setState_def circuit_notifyState_def Let_def)
qed (simp add: circuit_setState_def assms)

text \<open>Fields the invariant does not read.\<close>

lemma inv_lastError: "circuit_inv (c\<lparr>ct_lastError := e\<rparr>) = circuit_inv c"
  by (simp add: circuit_inv_def)

lemma inv_no_failures: "circuit_inv c \<Longrightarrow> circuit_inv (c\<lparr>ct_failures := 0\<rparr>)"
  by (simp add: circuit_inv_def)

lemma catch_inv:
  assumes "circuit_inv c" "0 \<le> random" "random < 1"
  shows "circuit_inv (circuit_catch outcome now random c)"
proof (cases outcome)
  case Success
  have "circuit_inv (c\<lparr>ct_failures := 0, ct_lastError := None\<rparr>)" using assms by (simp add: circuit_inv_def)
  then show ?thesis using setState_inv [OF _ assms(2,3)] Success by (simp add: circuit_catch_def)
next
  case (Failure err)
  let ?c = "c\<lparr>ct_lastError := Some err\<rparr>"
  have inv: "circuit_inv ?c" using assms(1) by (simp add: inv_lastError)
  show ?thesis
  proof (cases "ct_state c = HalfOpen \<or> \<not> ct_threshold c \<le> of_nat (ct_failures c + 1)")
    case True
    then show ?thesis using Failure inv_no_failures [OF setState_inv [OF inv assms(2,3)]] inv
      by (auto simp: circuit_catch_def Let_def) (auto simp: circuit_inv_def)
  next
    case False
    let ?d = "?c\<lparr>ct_failures := ct_failures c + 1\<rparr>"
    have "circuit_catch outcome now random c =
        (circuit_setState Open ''thresholdExceeded'' now random ?d)\<lparr>ct_failures := 0\<rparr>"
      using False Failure by (simp add: circuit_catch_def Let_def)
    also have "\<dots> = circuit_setState Open ''thresholdExceeded'' now random (?c\<lparr>ct_failures := 0\<rparr>)"
      by (simp add: circuit_setState_def circuit_notifyState_def Let_def circuit_drawOpenWindow_def)
    finally show ?thesis using setState_inv [OF inv_no_failures [OF inv] assms(2,3)] by simp
  qed
qed (simp add: circuit_catch_def inv_lastError assms)

lemma settle_inv:
  assumes "circuit_inv c" "0 \<le> random" "random < 1"
  shows "circuit_inv (circuit_settle outcome now random c)"
proof -
  let ?c = "circuit_catch outcome now random c"
  have inv: "circuit_inv ?c" by (rule catch_inv [OF assms])
  moreover have "rat_of_nat (ct_trialInFlight ?c - 1) \<le> of_nat (ct_trialInFlight ?c)" by simp
  ultimately show ?thesis by (simp add: circuit_settle_def Let_def circuit_inv_def) linarith
qed

lemma begin_inv:
  assumes "circuit_inv c" "0 \<le> random" "random < 1"
  shows "circuit_inv (fst (circuit_begin callable aborted now random c))"
proof -
  define d where "d = (if ct_state c = Open then circuit_setState HalfOpen ''timeoutElapsed'' now random c else c)"
  have inv: "circuit_inv d" using setState_inv [OF assms] assms(1) by (simp add: d_def)
  have trial: "circuit_inv (d\<lparr>ct_trialInFlight := ct_trialInFlight d + 1\<rparr>)"
    if "ct_state d = HalfOpen" "\<not> ct_halfOpenProbes d \<le> of_nat (ct_trialInFlight d)"
    using inv that by (simp add: circuit_inv_def)
  have "circuit_begin callable aborted now random c \<in> {(c, Some CircuitDisposed), (c, Some NotCallable),
      (c, Some SignalAborted), (c, Some CircuitOpen)} \<or>
    circuit_begin callable aborted now random c = (if ct_state d = HalfOpen then
      (if ct_halfOpenProbes d \<le> of_nat (ct_trialInFlight d) then (d, Some CircuitOpen)
       else (d\<lparr>ct_trialInFlight := ct_trialInFlight d + 1\<rparr>, None)) else (d, None))"
    unfolding circuit_begin_def Let_def d_def [symmetric] by simp
  then show ?thesis using inv assms(1) trial by (elim disjE) (auto split: if_splits)
qed

lemma reset_inv: "circuit_inv c \<Longrightarrow> circuit_inv (circuit_reset c)"
  by (auto simp: circuit_reset_def circuit_inv_def)

lemma dispose_inv: "circuit_inv c \<Longrightarrow> circuit_inv (circuit_dispose c)"
  using reset_inv [of c] by (simp add: circuit_dispose_def circuit_inv_def)

lemma readState_inv: "circuit_inv c \<Longrightarrow> circuit_inv (fst (circuit_readState now c))"
  by (auto simp: circuit_readState_def circuit_inv_def circuit_notifyState_def split: circuit_state.split option.split)

lemma circuit_limit_min: "circuit_limit v name fallback = Inr r \<Longrightarrow> fallback = JUndefined \<or> (\<exists>d. fallback = JNum (Fin d) \<and> 1 \<le> d) \<Longrightarrow> 1 \<le> r"
  by (auto simp: circuit_limit_def limit_spec_def num_rat_def split: sum.splits dest!: assertLimitRequired_cases)

lemma circuit_new_inv:
  assumes "circuit_new options = Inr c"
  shows "circuit_inv c \<and> ct_state c = Closed \<and> ct_failures c = 0 \<and> \<not> ct_disposed c"
proof -
  define v3 where "v3 = get_prop ''maxTimeout'' (default_to (JObj []) options)"
  obtain v1 v2 v4 where lim: "circuit_limit v1 ''threshold'' (JNum (Fin 5)) = Inr (ct_threshold c)"
    "circuit_limit v2 ''timeout'' (JNum (Fin DEFAULT_TIMEOUT_MS)) = Inr (ct_timeout c)"
    "ct_maxTimeout c = ct_timeout c * DEFAULT_CIRCUIT_MAX_OPEN_FACTOR \<or>
       circuit_limit v3 ''maxTimeout'' JUndefined = Inr (ct_maxTimeout c)"
    "circuit_limit v4 ''halfOpenProbes'' (JNum (Fin 1)) = Inr (ct_halfOpenProbes c)"
    and rest: "ct_openedAt c = None" "ct_trialInFlight c = 0" "ct_consecutiveOpens c = 0" "ct_openWindowMs c = ct_timeout c"
      "ct_state c = Closed" "ct_failures c = 0" "\<not> ct_disposed c"
    using assms unfolding circuit_new_def Let_def v3_def [symmetric] by (auto split: sum.splits if_splits)
  have "1 \<le> ct_threshold c" "1 \<le> ct_timeout c" "1 \<le> ct_halfOpenProbes c"
    using circuit_limit_min [OF lim(1)] circuit_limit_min [OF lim(2)] circuit_limit_min [OF lim(4)]
    by (simp_all add: DEFAULT_TIMEOUT_MS_def MS_PER_SEC_def)
  moreover from this have "1 \<le> ct_maxTimeout c"
    using lim(3) circuit_limit_min [of v3 "''maxTimeout''" JUndefined] by (auto simp: DEFAULT_CIRCUIT_MAX_OPEN_FACTOR_def)
  ultimately show ?thesis using rest by (simp add: circuit_inv_def)
qed

lemma step_inv: "circuit_step s ev s' \<Longrightarrow> circuit_inv (fst s) \<Longrightarrow> circuit_inv (fst s')"
proof (induction rule: circuit_step.induct)
  case (begin_runs random callable aborted now c c' calls)
  then show ?case using begin_inv [of c random callable aborted now] by simp
next
  case (begin_rejects random callable aborted now c c' e calls)
  then show ?case using begin_inv [of c random callable aborted now] by simp
qed (simp_all add: settle_inv readState_inv reset_inv dispose_inv)

text \<open>Running an event, for events that can occur.\<close>

fun circuit_exec :: "circuit_event \<Rightarrow> circuit \<times> bool list \<Rightarrow> circuit \<times> bool list" where
  "circuit_exec (Begin callable aborted now random) (c, calls) =
     (let (c1, r) = circuit_begin callable aborted now random c
      in (c1, if r = None then calls @ [ct_state c1 = HalfOpen] else calls))"
| "circuit_exec (Settle i outcome now random) (c, calls) =
     (circuit_settle outcome now random c, take i calls @ drop (Suc i) calls)"
| "circuit_exec (ReadState now) (c, calls) = (fst (circuit_readState now c), calls)"
| "circuit_exec Reset (c, calls) = (circuit_reset c, calls)"
| "circuit_exec Dispose (c, calls) = (circuit_dispose c, calls)"

fun circuit_enabled :: "circuit_event \<Rightarrow> circuit \<times> bool list \<Rightarrow> bool" where
  "circuit_enabled (Begin callable aborted now random) (c, calls) = (0 \<le> random \<and> random < 1)"
| "circuit_enabled (Settle i outcome now random) (c, calls) = (0 \<le> random \<and> random < 1 \<and> i < length calls)"
| "circuit_enabled _ _ = True"

lemma circuit_exec_step: "circuit_enabled ev s \<Longrightarrow> circuit_step s ev (circuit_exec ev s)"
proof (cases "(ev, s)" rule: circuit_exec.cases)
  case (1 callable aborted now random c calls)
  assume en: "circuit_enabled ev s"
  obtain c1 r where "circuit_begin callable aborted now random c = (c1, r)" by (cases "circuit_begin callable aborted now random c")
  then show ?thesis using en 1 by (cases r) (auto intro: circuit_step.intros)
qed (auto intro: circuit_step.intros)

lemma circuit_step_exec: "circuit_step s ev s' \<Longrightarrow> circuit_enabled ev s \<and> s' = circuit_exec ev s"
  by (induction rule: circuit_step.induct) simp_all

lemma reachable_exec: "circuit_reachable options s \<Longrightarrow> circuit_enabled ev s \<Longrightarrow> circuit_reachable options (circuit_exec ev s)"
  by (rule circuit_reachable.step [OF _ circuit_exec_step])

section \<open>Tripping\<close>

text \<open>One call that runs and fails, nothing in between.\<close>

definition circuit_fail_call :: "rat \<times> rat \<times> js_val \<Rightarrow> circuit \<Rightarrow> circuit" where
  "circuit_fail_call = (\<lambda>(now, random, err) c.
     circuit_settle (Failure err) now random (fst (circuit_begin True False now random c)))"

lemma fail_call_closed:
  assumes "circuit_inv c" "ct_state c = Closed" "\<not> ct_disposed c"
  shows "circuit_fail_call (now, random, err) c =
    (if ct_threshold c \<le> of_nat (ct_failures c + 1)
     then c\<lparr>ct_lastError := Some err, ct_state := Open, ct_openedAt := Some now,
            ct_openWindowMs := min (ct_maxTimeout c) (ct_timeout c) * (1 + random) / 2, ct_consecutiveOpens := 1,
            ct_halfOpenAnnounced := False, ct_notified := ct_notified c @ [(Open, ''thresholdExceeded'')], ct_failures := 0\<rparr>
     else c\<lparr>ct_lastError := Some err, ct_failures := ct_failures c + 1\<rparr>)"
proof -
  have b: "circuit_begin True False now random c = (c, None)"
    using assms by (simp add: circuit_begin_def Let_def)
  have w: "min (ct_maxTimeout c) (ct_timeout c) / 2 + random * (min (ct_maxTimeout c) (ct_timeout c) - min (ct_maxTimeout c) (ct_timeout c) / 2)
      = min (ct_maxTimeout c) (ct_timeout c) * (1 + random) / 2"
    by (simp add: field_simps)
  have z: "ct_consecutiveOpens c = 0" "ct_trialInFlight c = 0" using assms(1,2) by (simp_all add: circuit_inv_def)
  show ?thesis
    using assms z w
    by (simp add: circuit_fail_call_def b circuit_settle_def circuit_catch_def circuit_setState_def circuit_notifyState_def
        circuit_drawOpenWindow_def DEFAULT_CIRCUIT_MIN_JITTER_RATIO_def Let_def)
qed

section \<open>Properties\<close>

text \<open>
  C16. However calls begin, settle, abort and interleave with resets and disposal, in every
  reachable state the failure count is below the threshold, an opening time is kept exactly
  while open, trial calls are counted only while half-open and never beyond the probes allowed,
  and an open window lies between half the base timeout and the ceiling.
\<close>

theorem circuit_reachable_ok:
  assumes "circuit_reachable options (c, calls)"
  shows "circuit_inv c"
proof -
  have "circuit_inv (fst s)" if "circuit_reachable options s" for s
    using that
  proof (induction rule: circuit_reachable.induct)
    case (new c)
    then show ?case using circuit_new_inv by simp
  next
    case (step s ev s')
    then show ?case using step_inv by blast
  qed
  from this [OF assms] show ?thesis by simp
qed

theorem circuit_reachable_ok_witness:
  "case circuit_new (JObj [(''threshold'', JNum (Fin 1))]) of
     Inr c \<Rightarrow> circuit_inv (fst (circuit_exec (Settle 0 (Failure JNull) 7 0) (circuit_exec (Begin True False 5 0) (c, []))))
   | _ \<Rightarrow> False"
proof -
  let ?o = "JObj [(''threshold'', JNum (Fin 1))]"
  have "case circuit_new ?o of Inr c \<Rightarrow> ct_state c = Closed | _ \<Rightarrow> False" by code_simp
  then obtain c where c: "circuit_new ?o = Inr c" by (auto split: sum.splits)
  have b: "circuit_exec (Begin True False 5 0) (c, []) = (c, [False])"
    using circuit_new_inv [OF c] by (simp add: circuit_begin_def Let_def)
  have "circuit_reachable ?o (circuit_exec (Begin True False 5 0) (c, []))"
    by (rule reachable_exec [OF circuit_reachable.new [OF c]]) simp
  then have "circuit_reachable ?o (circuit_exec (Settle 0 (Failure JNull) 7 0) (circuit_exec (Begin True False 5 0) (c, [])))"
    by (rule reachable_exec) (simp only: b circuit_enabled.simps, simp)
  then have reach: "circuit_reachable ?o (fst s, snd s)"
    if "s = circuit_exec (Settle 0 (Failure JNull) 7 0) (circuit_exec (Begin True False 5 0) (c, []))" for s
    using that by simp
  show ?thesis unfolding c sum.case by (rule circuit_reachable_ok [OF reach [OF refl]])
qed

text \<open>
  \<open>circuit_counting c n d\<close>: the breaker \<open>d\<close> is the new breaker \<open>c\<close> after \<open>n\<close> counted failures,
  none of which has opened it.
\<close>

definition circuit_counting :: "circuit \<Rightarrow> nat \<Rightarrow> circuit \<Rightarrow> bool" where
  "circuit_counting c n d \<longleftrightarrow>
    circuit_inv d \<and> ct_state d = Closed \<and> ct_failures d = n \<and> \<not> ct_disposed d \<and> ct_trialInFlight d = 0 \<and>
    ct_threshold d = ct_threshold c \<and> ct_timeout d = ct_timeout c \<and> ct_maxTimeout d = ct_maxTimeout c \<and>
    ct_halfOpenProbes d = ct_halfOpenProbes c"

lemma circuit_counts_below:
  assumes "circuit_counting c 0 c" "rat_of_nat n < ct_threshold c + 1" "length xs < n"
  shows "circuit_counting c (length xs) (fold circuit_fail_call xs c)"
  using assms(3)
proof (induction xs rule: rev_induct)
  case Nil
  then show ?case using assms(1) by simp
next
  case (snoc x xs)
  obtain now random err where x: "x = (now, random, err)" by (cases x) auto
  have "rat_of_nat (length xs + 1) \<le> of_nat n - 1" using snoc.prems by (simp add: of_nat_diff flip: of_nat_Suc)
  then have below: "\<not> ct_threshold c \<le> of_nat (length xs + 1)" using assms(2) by linarith
  define e where "e = fold circuit_fail_call xs c"
  have e: "circuit_counting c (length xs) e" using snoc.IH snoc.prems by (simp add: e_def)
  then have "circuit_fail_call x e = e\<lparr>ct_lastError := Some err, ct_failures := length xs + 1\<rparr>"
    using fail_call_closed [of e now random err] below x by (simp add: circuit_counting_def)
  then show ?case using e below by (simp add: circuit_counting_def circuit_inv_def flip: e_def)
qed

lemma circuit_opens_at:
  assumes "circuit_counting c n d" "ct_threshold c \<le> of_nat (n + 1)"
  shows "let d' = circuit_fail_call (now, random, err) d in
    ct_state d' = Open \<and> ct_openedAt d' = Some now \<and>
    ct_openWindowMs d' = min (ct_maxTimeout c) (ct_timeout c) * (1 + random) / 2 \<and>
    \<not> ct_disposed d' \<and> ct_trialInFlight d' = 0 \<and> ct_halfOpenProbes d' = ct_halfOpenProbes c"
  using fail_call_closed [of d now random err] assms by (simp add: circuit_counting_def)

lemma circuit_open_window:
  assumes "ct_state c = Open" "ct_openedAt c = Some t0" "\<not> ct_disposed c" "ct_trialInFlight c = 0" "1 \<le> ct_halfOpenProbes c"
  shows "if t < t0 + ct_openWindowMs c
    then circuit_begin True False t r c = (c, Some CircuitOpen)
    else snd (circuit_begin True False t r c) = None \<and> ct_state (fst (circuit_begin True False t r c)) = HalfOpen"
proof -
  define d where "d = circuit_setState HalfOpen ''timeoutElapsed'' t r c"
  have "ct_state d = HalfOpen" "ct_trialInFlight d = 0" "ct_halfOpenProbes d = ct_halfOpenProbes c"
    using assms by (auto simp: d_def circuit_setState_def circuit_notifyState_def Let_def)
  then show ?thesis
    using assms by (simp add: circuit_begin_def Let_def less_diff_eq diff_less_eq algebra_simps flip: d_def)
qed

text \<open>
  C17. The circuit trips at the threshold and stays shut for its window.  On a new circuit fewer
  consecutive failing calls than the threshold leave it closed, counting them; the call that
  reaches the threshold opens it at that call's time, for between half and all of the base
  timeout (never above the ceiling); until the window has passed every call is rejected without
  running, and the first one after it runs as the half-open trial.
\<close>

theorem circuit_trips_at_threshold:
  assumes "circuit_new options = Inr c" "ct_threshold c \<le> of_nat n" "of_nat n < ct_threshold c + 1"
    and "c' = fold circuit_fail_call fails c"
  shows "(length fails < n \<longrightarrow> ct_state c' = Closed \<and> ct_failures c' = length fails) \<and>
    (length fails = n \<longrightarrow> ct_state c' = Open \<and> ct_openedAt c' = Some (fst (last fails)) \<and>
       ct_openWindowMs c' = min (ct_maxTimeout c) (ct_timeout c) * (1 + fst (snd (last fails))) / 2 \<and>
       (\<forall>t r. if t < fst (last fails) + ct_openWindowMs c'
          then circuit_begin True False t r c' = (c', Some CircuitOpen)
          else snd (circuit_begin True False t r c') = None \<and> ct_state (fst (circuit_begin True False t r c')) = HalfOpen))"
proof -
  note new = circuit_new_inv [OF assms(1)]
  have c: "circuit_counting c 0 c" using new by (auto simp: circuit_counting_def circuit_inv_def)
  have probes: "1 \<le> ct_halfOpenProbes c" using new by (simp add: circuit_inv_def)
  show ?thesis
  proof (intro conjI impI)
    assume "length fails < n"
    from circuit_counts_below [OF c assms(3) this]
    show "ct_state c' = Closed" "ct_failures c' = length fails" by (simp_all add: assms(4) circuit_counting_def)
  next
    assume len: "length fails = n"
    have "0 < n" using assms(2) new by (cases n) (auto simp: circuit_inv_def)
    then obtain xs now random err where fails: "fails = xs @ [(now, random, err)]"
      using len by (cases fails rule: rev_cases) auto
    have "length xs < n" "ct_threshold c \<le> of_nat (length xs + 1)" using assms(2) len fails by auto
    note o = circuit_opens_at [OF circuit_counts_below [OF c assms(3) this(1)] this(2), of now random err]
    then show "ct_state c' = Open" "ct_openedAt c' = Some (fst (last fails))"
      "ct_openWindowMs c' = min (ct_maxTimeout c) (ct_timeout c) * (1 + fst (snd (last fails))) / 2"
      by (simp_all add: assms(4) fails Let_def)
    show "\<forall>t r. if t < fst (last fails) + ct_openWindowMs c'
          then circuit_begin True False t r c' = (c', Some CircuitOpen)
          else snd (circuit_begin True False t r c') = None \<and> ct_state (fst (circuit_begin True False t r c')) = HalfOpen"
      by (intro allI circuit_open_window) (use o probes in \<open>simp_all add: assms(4) fails Let_def\<close>)
  qed
qed

theorem circuit_trips_at_threshold_witness:
  "case circuit_new (JObj [(''threshold'', JNum (Fin 2)), (''timeout'', JNum (Fin 100))]) of
     Inr c \<Rightarrow> ct_state (circuit_fail_call (3, 0, JNull) c) = Closed \<and>
       (let c' = circuit_fail_call (5, 1 / 2, JNull) (circuit_fail_call (3, 0, JNull) c)
        in ct_openWindowMs c' = 75 \<and> snd (circuit_begin True False 79 0 c') = Some CircuitOpen \<and>
           snd (circuit_begin True False 80 0 c') = None)
   | _ \<Rightarrow> False"
proof -
  let ?o = "JObj [(''threshold'', JNum (Fin 2)), (''timeout'', JNum (Fin 100))]"
  have "case circuit_new ?o of Inr c \<Rightarrow> ct_threshold c = 2 \<and> ct_timeout c = 100 \<and> ct_maxTimeout c = 1600 | _ \<Rightarrow> False" by code_simp
  then obtain c where c: "circuit_new ?o = Inr c" "ct_threshold c = 2" "ct_timeout c = 100" "ct_maxTimeout c = 1600"
    by (auto split: sum.splits)
  have th: "ct_threshold c \<le> of_nat 2" "of_nat 2 < ct_threshold c + 1" using c by simp_all
  have one: "ct_state (circuit_fail_call (3, 0, JNull) c) = Closed"
    using circuit_trips_at_threshold [OF c(1) th refl, of "[(3, 0, JNull)]"] by simp
  define c' where "c' = fold circuit_fail_call [(3, 0, JNull), (5, 1 / 2, JNull)] c"
  have two: "ct_openWindowMs c' = 75"
    "\<forall>t r. if t < 5 + ct_openWindowMs c' then circuit_begin True False t r c' = (c', Some CircuitOpen)
       else snd (circuit_begin True False t r c') = None \<and> ct_state (fst (circuit_begin True False t r c')) = HalfOpen"
    using circuit_trips_at_threshold [OF c(1) th c'_def] c by simp_all
  have "snd (circuit_begin True False 79 0 c') = Some CircuitOpen" "snd (circuit_begin True False 80 0 c') = None"
    using two(2) [rule_format, of 79 0] two(2) [rule_format, of 80 0] two(1) by simp_all
  then show ?thesis using one two(1) c(1) by (simp add: c'_def Let_def)
qed

text \<open>
  A stale abort admits one probe too many.  With a single half-open probe allowed, a call
  that began before the circuit opened and is aborted while the trial is running takes the
  trial's place in the count: a second trial is admitted beside the first.
\<close>

theorem circuit_stale_abort_overadmits:
  "\<exists>c. circuit_reachable (JObj [(''threshold'', JNum (Fin 1)), (''timeout'', JNum (Fin 100))]) (c, [True, True]) \<and>
     ct_state c = HalfOpen \<and> ct_halfOpenProbes c = 1"
proof -
  let ?o = "JObj [(''threshold'', JNum (Fin 1)), (''timeout'', JNum (Fin 100))]"
  have "case circuit_new ?o of Inr c \<Rightarrow> ct_threshold c = 1 \<and> ct_timeout c = 100 \<and> ct_maxTimeout c = 1600 \<and>
      ct_halfOpenProbes c = 1 | _ \<Rightarrow> False" by code_simp
  then obtain c0 where c0: "circuit_new ?o = Inr c0" "ct_threshold c0 = 1" "ct_timeout c0 = 100" "ct_maxTimeout c0 = 1600"
    "ct_halfOpenProbes c0 = 1" by (auto split: sum.splits)
  have new: "ct_state c0 = Closed" "ct_failures c0 = 0" "\<not> ct_disposed c0" "ct_trialInFlight c0 = 0" "ct_consecutiveOpens c0 = 0"
    using circuit_new_inv [OF c0(1)] by (simp_all add: circuit_inv_def)
  define s2 where "s2 = circuit_exec (Begin True False 1 0) (circuit_exec (Begin True False 0 0) (c0, []))"
  define s3 where "s3 = circuit_exec (Settle 1 (Failure JNull) 2 0) s2"
  define s4 where "s4 = circuit_exec (Begin True False 60 0) s3"
  define s5 where "s5 = circuit_exec (Settle 0 (AbortFailure JNull) 61 0) s4"
  define s6 where "s6 = circuit_exec (Begin True False 62 0) s5"
  have e2: "s2 = (c0, [False, False])" using new by (simp add: s2_def circuit_begin_def Let_def)
  have e3: "snd s3 = [False]" "ct_state (fst s3) = Open" "ct_openedAt (fst s3) = Some 2" "ct_openWindowMs (fst s3) = 50"
    "ct_trialInFlight (fst s3) = 0" "ct_halfOpenProbes (fst s3) = 1" "\<not> ct_disposed (fst s3)"
    using new c0 by (simp_all add: s3_def e2 circuit_settle_def circuit_catch_def circuit_setState_def circuit_notifyState_def
        circuit_drawOpenWindow_def DEFAULT_CIRCUIT_MIN_JITTER_RATIO_def Let_def)
  have e4: "snd s4 = [False, True]" "ct_state (fst s4) = HalfOpen" "ct_trialInFlight (fst s4) = 1" "ct_halfOpenProbes (fst s4) = 1"
    "\<not> ct_disposed (fst s4)"
    using e3 by (cases s3, simp add: s4_def circuit_begin_def circuit_setState_def circuit_notifyState_def Let_def)+
  have e5: "snd s5 = [True]" "ct_state (fst s5) = HalfOpen" "ct_trialInFlight (fst s5) = 0" "ct_halfOpenProbes (fst s5) = 1"
    "\<not> ct_disposed (fst s5)"
    using e4 by (cases s4, simp add: s5_def circuit_settle_def circuit_catch_def Let_def)+
  have e6: "snd s6 = [True, True]" "ct_state (fst s6) = HalfOpen" "ct_halfOpenProbes (fst s6) = 1"
    using e5 by (cases s5, simp add: s6_def circuit_begin_def Let_def)+
  have "circuit_reachable ?o s2"
    unfolding s2_def by (intro reachable_exec circuit_reachable.new [OF c0(1)]) (simp_all add: case_prod_unfold Let_def)
  then have "circuit_reachable ?o s3" unfolding s3_def by (rule reachable_exec) (simp add: e2)
  then have "circuit_reachable ?o s4" unfolding s4_def by (rule reachable_exec) (cases s3, simp)
  then have "circuit_reachable ?o s5" unfolding s5_def by (rule reachable_exec) (use e4 in \<open>cases s4, simp\<close>)
  then have "circuit_reachable ?o s6" unfolding s6_def by (rule reachable_exec) (cases s5, simp)
  then show ?thesis using e6 by (intro exI [of _ "fst s6"]) (metis prod.collapse)
qed

end
