(* ===== verification/Deduplication.thy ===== *)
theory Deduplication
  imports JsMap LimiterClock
begin

text \<open>
  The time-windowed deduplicator (\<open>src/helpers/powerDeduplication.js\<close>): the times at which keys
  were last recorded, in an insertion-ordered map that is pruned from its front and bounded by
  dropping its first key.  The reference at the end remembers every recording for ever; the
  refinement shows when the pruned and bounded table answers the same.
\<close>

section \<open>State\<close>

record 'k dedup =
  dd_ttl :: js_num
  dd_maxKeys :: js_num
  dd_keys :: "('k, rat) js_map"
  dd_disposed :: bool

definition dedup_limit :: "js_val \<Rightarrow> string \<Rightarrow> rat \<Rightarrow> js_num result" where
  "dedup_limit v name fallback =
     assertLimitRequired v ((limit_spec name ''PowerDeduplication'')\<lparr>sp_fallback := JNum (Fin fallback)\<rparr>)"

definition dedup_new :: "js_val \<Rightarrow> 'k dedup result" where
  "dedup_new options0 =
     (let options = default_to (JObj []) options0;
          opts = (if is_number options then JObj [(''ttl'', options)] else options)
      in case assertKnownOptions opts [''ttl'', ''maxKeys'', ''now''] ''PowerDeduplication'' of
           Inl e \<Rightarrow> Inl e
         | Inr _ \<Rightarrow>
             if opts = JNull then Inl NullOptions
             else
               (case dedup_limit (get_prop ''ttl'' opts) ''ttl'' 60000 of
                  Inl e \<Rightarrow> Inl e
                | Inr ttl \<Rightarrow>
                    (case (if get_prop ''maxKeys'' opts \<noteq> JUndefined
                           then dedup_limit (get_prop ''maxKeys'' opts) ''maxKeys'' 1000
                           else Inr (Fin 1000)) of
                       Inl e \<Rightarrow> Inl e
                     | Inr maxKeys \<Rightarrow>
                         Inr \<lparr>dd_ttl = ttl, dd_maxKeys = maxKeys, dd_keys = [], dd_disposed = False\<rparr>)))"

section \<open>Operations\<close>

text \<open>\<open>now - ts < this._ttl\<close>; its negation is the code's \<open>>=\<close>, neither side being \<open>NaN\<close>.\<close>

definition dedup_fresh :: "js_num \<Rightarrow> rat \<Rightarrow> rat \<Rightarrow> bool" where
  "dedup_fresh ttl now ts \<longleftrightarrow> num_lt (Fin (now - ts)) ttl"

text \<open>The loop of \<open>_prune\<close>: \<open>rest\<close> is what the iteration has not reached yet.\<close>

fun dedup_prune_loop :: "js_num \<Rightarrow> rat \<Rightarrow> ('k, rat) js_map \<Rightarrow> ('k, rat) js_map \<Rightarrow> ('k, rat) js_map" where
  "dedup_prune_loop ttl now [] m = m"
| "dedup_prune_loop ttl now ((k, ts) # rest) m =
     (if \<not> dedup_fresh ttl now ts then dedup_prune_loop ttl now rest (jm_delete k m) else m)"

definition dedup_prune :: "rat \<Rightarrow> 'k dedup \<Rightarrow> 'k dedup" where
  "dedup_prune now d =
     (if \<not> num_lt (Fin 0) (dd_ttl d) then d
      else d\<lparr>dd_keys := dedup_prune_loop (dd_ttl d) now (dd_keys d) (dd_keys d)\<rparr>)"

definition dedup_evict :: "'k dedup \<Rightarrow> 'k dedup" where
  "dedup_evict d =
     (if num_lt (Fin 0) (dd_maxKeys d) \<and> \<not> num_lt (Fin (of_nat (length (dd_keys d)))) (dd_maxKeys d) then
        (case dd_keys d of [] \<Rightarrow> d | (first, _) # _ \<Rightarrow> d\<lparr>dd_keys := jm_delete first (dd_keys d)\<rparr>)
      else d)"

text \<open>The end that \<open>has\<close> and \<open>mark\<close> share: prune, make room, record.\<close>

definition dedup_record :: "rat \<Rightarrow> 'k \<Rightarrow> 'k dedup \<Rightarrow> 'k dedup" where
  "dedup_record now key d =
     (let d1 = dedup_evict (dedup_prune now d) in d1\<lparr>dd_keys := jm_set key now (dd_keys d1)\<rparr>)"

definition dedup_has :: "rat \<Rightarrow> 'k \<Rightarrow> 'k dedup \<Rightarrow> 'k dedup \<times> bool" where
  "dedup_has now key d =
     (if dd_disposed d then (d, True)
      else if (case jm_get key (dd_keys d) of Some ts \<Rightarrow> dedup_fresh (dd_ttl d) now ts | None \<Rightarrow> False)
      then (d, True)
      else (dedup_record now key d, False))"

definition dedup_mark :: "rat \<Rightarrow> 'k \<Rightarrow> 'k dedup \<Rightarrow> 'k dedup" where
  "dedup_mark now key d = (if dd_disposed d then d else dedup_record now key d)"

definition dedup_delete :: "'k \<Rightarrow> 'k dedup \<Rightarrow> 'k dedup \<times> bool" where
  "dedup_delete key d =
     (if dd_disposed d then (d, False)
      else (d\<lparr>dd_keys := jm_delete key (dd_keys d)\<rparr>, jm_has key (dd_keys d)))"

definition dedup_clear :: "'k dedup \<Rightarrow> 'k dedup" where
  "dedup_clear d = d\<lparr>dd_keys := []\<rparr>"

definition dedup_size :: "rat \<Rightarrow> 'k dedup \<Rightarrow> 'k dedup \<times> nat" where
  "dedup_size now d = (let d1 = dedup_prune now d in (d1, length (dd_keys d1)))"

definition dedup_isEmpty :: "rat \<Rightarrow> 'k dedup \<Rightarrow> 'k dedup \<times> bool" where
  "dedup_isEmpty now d = (let (d1, n) = dedup_size now d in (d1, n = 0))"

definition dedup_dispose :: "'k dedup \<Rightarrow> 'k dedup" where
  "dedup_dispose d = (if dd_disposed d then d else dedup_clear (d\<lparr>dd_disposed := True\<rparr>))"

section \<open>Runs, and the reference\<close>

datatype 'k dedup_call = Has 'k | Mark 'k | Delete 'k | Clear | Size

fun dedup_do :: "rat \<Rightarrow> 'k dedup_call \<Rightarrow> 'k dedup \<Rightarrow> 'k dedup \<times> bool option" where
  "dedup_do now (Has k) d = (let (d1, b) = dedup_has now k d in (d1, Some b))"
| "dedup_do now (Mark k) d = (dedup_mark now k d, None)"
| "dedup_do now (Delete k) d = (fst (dedup_delete k d), None)"
| "dedup_do now Clear d = (dedup_clear d, None)"
| "dedup_do now Size d = (fst (dedup_size now d), None)"

text \<open>A run: the table it leaves and the answers of its \<open>has\<close> calls.\<close>

fun dedup_run :: "(rat \<times> 'k dedup_call) list \<Rightarrow> 'k dedup \<Rightarrow> 'k dedup \<times> bool list" where
  "dedup_run [] d = (d, [])"
| "dedup_run ((now, c) # cs) d =
     (let (d1, b) = dedup_do now c d; (d2, bs) = dedup_run cs d1
      in (d2, (case b of Some x \<Rightarrow> [x] | None \<Rightarrow> []) @ bs))"

text \<open>The specification: the time of the last recording of every key, nothing ever dropped.\<close>

fun seen_call :: "js_num \<Rightarrow> rat \<Rightarrow> 'k dedup_call \<Rightarrow> ('k \<Rightarrow> rat option) \<Rightarrow> ('k \<Rightarrow> rat option) \<times> bool option" where
  "seen_call ttl now (Has k) seen =
     (if (case seen k of Some ts \<Rightarrow> dedup_fresh ttl now ts | None \<Rightarrow> False) then (seen, Some True)
      else (seen(k \<mapsto> now), Some False))"
| "seen_call ttl now (Mark k) seen = (seen(k \<mapsto> now), None)"
| "seen_call ttl now (Delete k) seen = (seen(k := None), None)"
| "seen_call ttl now Clear seen = (\<lambda>_. None, None)"
| "seen_call ttl now Size seen = (seen, None)"

fun seen_run :: "js_num \<Rightarrow> (rat \<times> 'k dedup_call) list \<Rightarrow> ('k \<Rightarrow> rat option) \<Rightarrow> bool list" where
  "seen_run ttl [] seen = []"
| "seen_run ttl ((now, c) # cs) seen =
     (let (seen1, b) = seen_call ttl now c seen
      in (case b of Some x \<Rightarrow> [x] | None \<Rightarrow> []) @ seen_run ttl cs seen1)"

definition call_keys :: "(rat \<times> 'k dedup_call) list \<Rightarrow> 'k set" where
  "call_keys cs = (\<Union>(now, c)\<in>set cs. set_dedup_call c)"

section \<open>The table as a partial map\<close>

lemma fresh_mono: "\<not> dedup_fresh ttl now ts \<Longrightarrow> now \<le> later \<Longrightarrow> \<not> dedup_fresh ttl later ts"
  by (cases ttl) (auto simp: dedup_fresh_def)

lemma delete_first: "jm_ok ((k, v) # m) \<Longrightarrow> jm_delete k ((k, v) # m) = m"
  by (auto simp: jm_delete_def jm_ok_def intro!: filter_True)

lemma prune_loop_suffix:
  "jm_ok m \<Longrightarrow> dedup_prune_loop ttl now m m = dropWhile (\<lambda>(k, ts). \<not> dedup_fresh ttl now ts) m"
proof (induction m)
  case (Cons p m)
  obtain k ts where "p = (k, ts)" by (cases p)
  then show ?case using Cons by (simp add: delete_first) (simp add: jm_ok_def)
qed simp

lemma jm_ok_dropWhile: "jm_ok m \<Longrightarrow> jm_ok (dropWhile P m)"
  by (induction m) (auto simp: jm_ok_def)

lemma get_dropWhile:
  assumes "jm_ok m"
  shows "jm_get k (dropWhile (\<lambda>(k, ts). stale ts) m) = Some ts \<Longrightarrow> jm_get k m = Some ts"
    and "jm_get k (dropWhile (\<lambda>(k, ts). stale ts) m) = None \<Longrightarrow> jm_get k m = Some ts \<Longrightarrow> stale ts"
  using assms by (induction m) (auto simp: jm_get_def jm_ok_def split: if_splits dest: map_of_SomeD img_fst)


lemma prune_frame [simp]:
  "dd_ttl (dedup_prune now d) = dd_ttl d" "dd_maxKeys (dedup_prune now d) = dd_maxKeys d"
  "dd_disposed (dedup_prune now d) = dd_disposed d"
  by (simp_all add: dedup_prune_def)

lemma prune_keys:
  "jm_ok (dd_keys d) \<Longrightarrow> dd_keys (dedup_prune now d) =
     (if num_lt (Fin 0) (dd_ttl d) then dropWhile (\<lambda>(k, ts). \<not> dedup_fresh (dd_ttl d) now ts) (dd_keys d)
      else dd_keys d)"
  by (simp add: dedup_prune_def prune_loop_suffix)

lemma prune_ok: "jm_ok (dd_keys d) \<Longrightarrow> jm_ok (dd_keys (dedup_prune now d))"
  by (simp add: prune_keys jm_ok_dropWhile)

lemma prune_length: "jm_ok (dd_keys d) \<Longrightarrow> length (dd_keys (dedup_prune now d)) \<le> length (dd_keys d)"
  by (simp add: prune_keys length_dropWhile_le)

lemma prune_get:
  assumes "jm_ok (dd_keys d)"
  shows "jm_get k (dd_keys (dedup_prune now d)) = Some ts \<Longrightarrow> jm_get k (dd_keys d) = Some ts"
    and "jm_get k (dd_keys (dedup_prune now d)) = None \<Longrightarrow> jm_get k (dd_keys d) = Some ts \<Longrightarrow>
         \<not> dedup_fresh (dd_ttl d) now ts"
  using get_dropWhile [OF assms, of k "\<lambda>ts. \<not> dedup_fresh (dd_ttl d) now ts" ts]
  unfolding prune_keys [OF assms] by (cases "num_lt (Fin 0) (dd_ttl d)"; simp)+

lemma dedup_evict_frame [simp]:
  "dd_ttl (dedup_evict d) = dd_ttl d" "dd_maxKeys (dedup_evict d) = dd_maxKeys d"
  "dd_disposed (dedup_evict d) = dd_disposed d"
  by (simp_all add: dedup_evict_def split: list.split)

lemma evict_keys:
  "jm_ok (dd_keys d) \<Longrightarrow> dd_keys (dedup_evict d) =
     (if num_lt (Fin 0) (dd_maxKeys d) \<and> \<not> num_lt (Fin (of_nat (length (dd_keys d)))) (dd_maxKeys d)
      then tl (dd_keys d) else dd_keys d)"
  by (auto simp: dedup_evict_def delete_first split: list.split)

lemma evict_ok: "jm_ok (dd_keys d) \<Longrightarrow> jm_ok (dd_keys (dedup_evict d))"
  by (cases "dd_keys d") (auto simp: evict_keys jm_ok_def)

lemma record_frame [simp]:
  "dd_ttl (dedup_record now k d) = dd_ttl d" "dd_maxKeys (dedup_record now k d) = dd_maxKeys d"
  "dd_disposed (dedup_record now k d) = dd_disposed d"
  by (simp_all add: dedup_record_def Let_def)

lemma record_ok: "jm_ok (dd_keys d) \<Longrightarrow> jm_ok (dd_keys (dedup_record now k d))"
  by (simp add: dedup_record_def Let_def js.ok_put evict_ok prune_ok)

lemmas dedup_op_defs = dedup_has_def dedup_mark_def dedup_delete_def dedup_clear_def dedup_size_def

lemma do_frame [simp]:
  "dd_ttl (fst (dedup_do now c d)) = dd_ttl d" "dd_maxKeys (fst (dedup_do now c d)) = dd_maxKeys d"
  "dd_disposed (fst (dedup_do now c d)) = dd_disposed d"
  by (cases c; simp add: dedup_op_defs Let_def case_prod_unfold)+

lemma do_ok: "jm_ok (dd_keys d) \<Longrightarrow> jm_ok (dd_keys (fst (dedup_do now c d)))"
  by (cases c)
    (auto simp: dedup_op_defs Let_def record_ok prune_ok js.ok_del jm_ok_def [of "[]"] split: option.split)

lemma dedup_limit_fin: "dedup_limit v name f = Inr x \<Longrightarrow> 0 \<le> f \<Longrightarrow> \<exists>r. x = Fin r \<and> 0 \<le> r"
  by (cases "to_number v"; cases x)
    (auto simp: dedup_limit_def assertLimitRequired_def assertLimit_def limit_spec_def split: if_splits)

lemma dedup_new_state:
  assumes "dedup_new options = Inr d"
  obtains r m where "d = \<lparr>dd_ttl = Fin r, dd_maxKeys = Fin m, dd_keys = [], dd_disposed = False\<rparr>" "0 \<le> r" "0 \<le> m"
  using assms
  by (auto simp: dedup_new_def Let_def split: sum.splits if_splits dest!: dedup_limit_fin)

section \<open>The bound\<close>

lemma record_length:
  assumes "dd_maxKeys d = Fin m" "0 < m" "jm_ok (dd_keys d)" "rat_of_nat (length (dd_keys d)) < m + 1"
  shows "rat_of_nat (length (dd_keys (dedup_record now k d))) < m + 1"
proof -
  let ?p = "dedup_prune now d"
  have p: "rat_of_nat (length (dd_keys ?p)) < m + 1"
    using prune_length [OF assms(3), of now] assms(4) by (meson le_less_trans of_nat_mono)
  have "rat_of_nat (length (dd_keys (dedup_evict ?p))) < m"
    using p assms(1,2) by (cases "dd_keys ?p") (auto simp: evict_keys [OF prune_ok [OF assms(3)]])
  then show ?thesis by (simp add: dedup_record_def Let_def jm_length_set)
qed

lemma do_length:
  "dd_maxKeys d = Fin m \<Longrightarrow> 0 < m \<Longrightarrow> jm_ok (dd_keys d) \<Longrightarrow> rat_of_nat (length (dd_keys d)) < m + 1 \<Longrightarrow>
     rat_of_nat (length (dd_keys (fst (dedup_do now c d)))) < m + 1"
proof -
  assume d: "dd_maxKeys d = Fin m" "0 < m" "jm_ok (dd_keys d)" "rat_of_nat (length (dd_keys d)) < m + 1"
  have "rat_of_nat (length (dd_keys (dedup_prune now d))) < m + 1"
    using prune_length [OF d(3), of now] d(4) by (meson le_less_trans of_nat_mono)
  moreover have "rat_of_nat (length (jm_delete k (dd_keys d))) < m + 1" for k
    using d(4) length_filter_le by (metis jm_delete_def le_less_trans of_nat_mono)
  ultimately show ?thesis using d record_length [OF d]
    by (cases c) (auto simp: dedup_op_defs Let_def split: option.split)
qed

lemma run_length:
  "dd_maxKeys d = Fin m \<Longrightarrow> 0 < m \<Longrightarrow> jm_ok (dd_keys d) \<Longrightarrow> rat_of_nat (length (dd_keys d)) < m + 1 \<Longrightarrow>
     rat_of_nat (length (dd_keys (fst (dedup_run cs d)))) < m + 1"
proof (induction cs arbitrary: d)
  case (Cons call cs)
  obtain now c where "call = (now, c)" by (cases call)
  then show ?case using Cons.IH [of "fst (dedup_do now c d)"] do_length [OF Cons.prems] do_ok [OF Cons.prems(3)] Cons.prems
    by (simp add: Let_def case_prod_unfold)
qed simp

text \<open>
  The table stays bounded: after any run of calls on a new deduplicator, whatever its clock
  reads, it holds at most \<open>maxKeys\<close> keys, rounded up when that is not whole.
\<close>

theorem dedup_bounded:
  assumes "dedup_new options = Inr d" "dd_maxKeys d = Fin m" "0 < m"
  shows "rat_of_nat (length (dd_keys (fst (dedup_run cs d)))) < m + 1"
proof -
  obtain r b where "d = \<lparr>dd_ttl = Fin r, dd_maxKeys = Fin b, dd_keys = [], dd_disposed = False\<rparr>"
    by (rule dedup_new_state [OF assms(1)])
  then have "dd_keys d = []" by simp
  then show ?thesis using run_length [OF assms(2,3), of cs] assms(3) by (simp add: jm_ok_def)
qed

lemma dedup_bounded_witness:
  "let options = JObj [(''ttl'', JNum (Fin 60)), (''maxKeys'', JNum (Fin 2))];
       d = \<lparr>dd_ttl = Fin 60, dd_maxKeys = Fin 2, dd_keys = [], dd_disposed = False\<rparr>
   in dedup_new options = Inr d \<and>
      rat_of_nat (length (dd_keys (fst (dedup_run [(0, Has (1::nat)), (1, Has 2), (2, Has 3)] d)))) < 2 + 1"
proof -
  have "dedup_new (JObj [(''ttl'', JNum (Fin 60)), (''maxKeys'', JNum (Fin 2))]) =
      Inr \<lparr>dd_ttl = Fin 60, dd_maxKeys = Fin 2, dd_keys = [] :: (nat, rat) js_map, dd_disposed = False\<rparr>"
    by code_simp
  from this dedup_bounded [OF this, of 2 "[(0, Has (1::nat)), (1, Has 2), (2, Has 3)]"] show ?thesis
    by (simp only: Let_def) simp
qed

section \<open>The refinement\<close>

text \<open>
  The table against the reference at time \<open>now\<close>: what it holds is what was recorded, and what it
  dropped had expired.  \<open>K\<close> are the keys of the run, fewer than the bound if there is one.
\<close>

definition dedup_rep :: "'k set \<Rightarrow> rat \<Rightarrow> ('k \<Rightarrow> rat option) \<Rightarrow> 'k dedup \<Rightarrow> bool" where
  "dedup_rep K now seen d \<longleftrightarrow>
     jm_ok (dd_keys d) \<and> \<not> dd_disposed d \<and> set (jm_keys (dd_keys d)) \<subseteq> K \<and>
     (\<forall>k ts. jm_get k (dd_keys d) = Some ts \<longrightarrow> seen k = Some ts) \<and>
     (\<forall>k ts. seen k = Some ts \<longrightarrow> jm_get k (dd_keys d) = None \<longrightarrow> \<not> dedup_fresh (dd_ttl d) now ts)"

definition dedup_roomy :: "'k set \<Rightarrow> 'k dedup \<Rightarrow> bool" where
  "dedup_roomy K d \<longleftrightarrow> finite K \<and>
     (num_lt (Fin 0) (dd_maxKeys d) \<longrightarrow> num_lt (Fin (of_nat (card K))) (dd_maxKeys d))"

lemma rep_later: "dedup_rep K now seen d \<Longrightarrow> now \<le> later \<Longrightarrow> dedup_rep K later seen d"
  unfolding dedup_rep_def using fresh_mono by blast

lemma repI:
  assumes "jm_ok (dd_keys d)" "\<not> dd_disposed d" "set (jm_keys (dd_keys d)) \<subseteq> K"
    and "\<And>k ts. jm_get k (dd_keys d) = Some ts \<Longrightarrow> seen k = Some ts"
    and "\<And>k ts. seen k = Some ts \<Longrightarrow> jm_get k (dd_keys d) = None \<Longrightarrow> \<not> dedup_fresh (dd_ttl d) now ts"
  shows "dedup_rep K now seen d"
  using assms by (simp add: dedup_rep_def)

lemma repD:
  assumes "dedup_rep K now seen d"
  shows "jm_ok (dd_keys d)" "\<not> dd_disposed d" "set (jm_keys (dd_keys d)) \<subseteq> K"
    and "jm_get k (dd_keys d) = Some ts \<Longrightarrow> seen k = Some ts"
    and "seen k = Some ts \<Longrightarrow> jm_get k (dd_keys d) = None \<Longrightarrow> \<not> dedup_fresh (dd_ttl d) now ts"
  using assms by (simp_all add: dedup_rep_def)

lemma rep_prune:
  assumes "dedup_rep K now seen d"
  shows "dedup_rep K now seen (dedup_prune now d)"
proof (rule repI)
  note d = repD [OF assms] and get = prune_get [OF repD(1) [OF assms]]
  show "jm_ok (dd_keys (dedup_prune now d))" by (rule prune_ok [OF d(1)])
  show "\<not> dd_disposed (dedup_prune now d)" using d(2) by simp
  show "set (jm_keys (dd_keys (dedup_prune now d))) \<subseteq> K"
  proof
    fix k assume "k \<in> set (jm_keys (dd_keys (dedup_prune now d)))"
    then obtain ts where "jm_get k (dd_keys (dedup_prune now d)) = Some ts"
      using jm_get_None [of k "dd_keys (dedup_prune now d)"] by auto
    then have "jm_get k (dd_keys d) = Some ts" by (rule get(1))
    then show "k \<in> K" using d(3) jm_get_None [of k "dd_keys d"] by auto
  qed
  show "seen k = Some ts" if "jm_get k (dd_keys (dedup_prune now d)) = Some ts" for k ts
    by (rule d(4) [OF get(1) [OF that]])
  show "\<not> dedup_fresh (dd_ttl (dedup_prune now d)) now ts"
    if "seen k = Some ts" "jm_get k (dd_keys (dedup_prune now d)) = None" for k ts
  proof (cases "jm_get k (dd_keys d)")
    case None
    then show ?thesis using d(5) [OF that(1)] by simp
  next
    case (Some t)
    then show ?thesis using get(2) [OF that(2) Some] d(4) [OF Some] that(1) by simp
  qed
qed

lemma rep_no_evict:
  assumes "dedup_rep K now seen d" "dedup_roomy K d"
  shows "dedup_evict d = d"
proof -
  have "length (dd_keys d) = card (set (jm_keys (dd_keys d)))"
    using assms(1) js.ok_keys [of "dd_keys d"] distinct_card [of "jm_keys (dd_keys d)"]
    by (simp add: dedup_rep_def jm_length_keys)
  also have "\<dots> \<le> card K" using assms by (auto simp: dedup_rep_def dedup_roomy_def intro: card_mono)
  finally have "length (dd_keys d) \<le> card K" .
  then show ?thesis using assms(2)
    by (cases "dd_maxKeys d") (auto simp: dedup_evict_def dedup_roomy_def le_less_trans)
qed

lemma rep_record:
  assumes rep: "dedup_rep K now seen d" and room: "dedup_roomy K d" and k: "k \<in> K"
  shows "dedup_rep K now (seen(k \<mapsto> now)) (dedup_record now k d)"
proof -
  let ?p = "dedup_prune now d"
  have p: "dedup_rep K now seen ?p" by (rule rep_prune [OF rep])
  have "dedup_roomy K ?p" using room by (simp add: dedup_roomy_def)
  then have "dedup_record now k d = ?p\<lparr>dd_keys := jm_set k now (dd_keys ?p)\<rparr>"
    by (simp add: dedup_record_def Let_def rep_no_evict [OF p])
  then show ?thesis using p k by (simp add: dedup_rep_def js.ok_put jm_set_keys jm_set_get)
qed

lemma rep_answer:
  assumes "dedup_rep K now seen d"
  shows "(case jm_get k (dd_keys d) of Some ts \<Rightarrow> dedup_fresh (dd_ttl d) now ts | None \<Rightarrow> False) =
     (case seen k of Some ts \<Rightarrow> dedup_fresh (dd_ttl d) now ts | None \<Rightarrow> False)"
  using assms by (cases "jm_get k (dd_keys d)"; cases "seen k") (auto simp: dedup_rep_def)

lemma rep_do:
  assumes rep: "dedup_rep K now seen d" and room: "dedup_roomy K d" and c: "set_dedup_call c \<subseteq> K"
  shows "snd (dedup_do now c d) = snd (seen_call (dd_ttl d) now c seen) \<and>
     dedup_rep K now (fst (seen_call (dd_ttl d) now c seen)) (fst (dedup_do now c d))"
proof (cases c)
  case (Has k)
  then show ?thesis using rep_answer [OF rep, of k] rep_record [OF rep room, of k] rep c
    by (simp add: dedup_has_def dedup_rep_def [of K now seen d])
next
  case (Mark k)
  then show ?thesis using rep_record [OF rep room, of k] rep c
    by (simp add: dedup_mark_def dedup_rep_def [of K now seen d])
next
  case (Delete k)
  then show ?thesis using rep
    by (auto simp: dedup_delete_def dedup_rep_def js.ok_del jm_delete_keys jm_delete_get split: if_splits)
next
  case Clear
  then show ?thesis using rep by (simp add: dedup_clear_def dedup_rep_def jm_ok_def jm_keys_def jm_get_def)
next
  case Size
  then show ?thesis using rep_prune [OF rep] by (simp add: dedup_size_def Let_def)
qed

lemma rep_run:
  "dedup_rep K now seen d \<Longrightarrow> dedup_roomy K d \<Longrightarrow> call_keys cs \<subseteq> K \<Longrightarrow> sorted (now # map fst cs) \<Longrightarrow>
     snd (dedup_run cs d) = seen_run (dd_ttl d) cs seen"
proof (induction cs arbitrary: now seen d)
  case (Cons call cs)
  obtain t c where call: "call = (t, c)" by (cases call)
  have t: "now \<le> t" "sorted (t # map fst cs)" using Cons.prems(4) call by simp_all
  have K: "set_dedup_call c \<subseteq> K" "call_keys cs \<subseteq> K" using Cons.prems(3) by (auto simp: call call_keys_def)
  have "dedup_roomy K (fst (dedup_do t c d))" using Cons.prems(2) by (simp add: dedup_roomy_def)
  with rep_do [OF rep_later [OF Cons.prems(1) t(1)] Cons.prems(2) K(1)]
    Cons.IH [of t "fst (seen_call (dd_ttl d) t c seen)" "fst (dedup_do t c d)", OF _ _ K(2) t(2)]
  show ?case by (simp add: call case_prod_unfold Let_def)
qed simp

lemma finite_call_keys: "finite (call_keys cs)"
  by (auto simp: call_keys_def intro!: finite_UN_I)

text \<open>
  C18. On a clock that does not run backwards, and with fewer distinct keys than \<open>maxKeys\<close> (or no
  bound), pruning never shows: every \<open>has\<close> of any sequence of calls answers as the specification
  that remembers the last recording of every key for ever.
\<close>

theorem dedup_refines_last_seen:
  assumes "dedup_new options = Inr d" "sorted (map fst cs)"
    and "dd_maxKeys d = Fin 0 \<or> num_lt (Fin (of_nat (card (call_keys cs)))) (dd_maxKeys d)"
  shows "snd (dedup_run cs d) = seen_run (dd_ttl d) cs (\<lambda>_. None)"
proof -
  obtain r m where d: "d = \<lparr>dd_ttl = Fin r, dd_maxKeys = Fin m, dd_keys = [], dd_disposed = False\<rparr>"
    by (rule dedup_new_state [OF assms(1)])
  define t where "t = (case cs of [] \<Rightarrow> 0 | call # _ \<Rightarrow> fst call)"
  have "sorted (t # map fst cs)" using assms(2) by (force simp: t_def split: list.split)
  moreover have "dedup_rep (call_keys cs) t (\<lambda>_. None) d"
    by (simp add: d dedup_rep_def jm_ok_def jm_keys_def jm_get_def)
  moreover have "dedup_roomy (call_keys cs) d"
    using assms(3) by (auto simp: d dedup_roomy_def finite_call_keys)
  ultimately show ?thesis using rep_run [of "call_keys cs" t "\<lambda>_. None" d cs] by simp
qed

lemma dedup_refines_last_seen_witness:
  "snd (dedup_run [(0, Has (1::nat)), (10, Has 1), (20, Mark 2), (60, Has 2), (70, Has 1)]
      \<lparr>dd_ttl = Fin 60, dd_maxKeys = Fin 3, dd_keys = [], dd_disposed = False\<rparr>) = [False, True, True, False]"
proof -
  let ?cs = "[(0, Has (1::nat)), (10, Has 1), (20, Mark 2), (60, Has 2), (70, Has 1)]"
  have d: "dedup_new (JObj [(''ttl'', JNum (Fin 60)), (''maxKeys'', JNum (Fin 3))]) =
      Inr \<lparr>dd_ttl = Fin 60, dd_maxKeys = Fin 3, dd_keys = [] :: (nat, rat) js_map, dd_disposed = False\<rparr>"
    by code_simp
  have "call_keys ?cs = {1, 2}" by (auto simp: call_keys_def)
  then have "snd (dedup_run ?cs \<lparr>dd_ttl = Fin 60, dd_maxKeys = Fin 3, dd_keys = [], dd_disposed = False\<rparr>) =
      seen_run (Fin 60) ?cs (\<lambda>_. None)"
    using dedup_refines_last_seen [OF d, of ?cs] by simp
  also have "\<dots> = [False, True, True, False]" by (simp add: dedup_fresh_def)
  finally show ?thesis .
qed

text \<open>
  At capacity a recording drops the first key of the map even when none has to go: when it is
  a refresh of a key already present, or when an expired entry sits behind a refreshed one.  The
  dropped key is still within its window, and its next occurrence is processed again.
\<close>

theorem dedup_forgets_live_key:
  assumes "\<not> dd_disposed d" "jm_ok (dd_keys d)" "dd_keys d = (j, tj) # rest" "dedup_fresh (dd_ttl d) now tj"
    and "dd_maxKeys d = Fin (of_nat (length (dd_keys d)))" "k \<noteq> j"
    and "jm_has k rest \<or> (\<exists>(b, tb) \<in> set rest. \<not> dedup_fresh (dd_ttl d) now tb)"
  shows "snd (dedup_has now j d) = True \<and> \<not> jm_has j (dd_keys (dedup_mark now k d)) \<and>
     snd (dedup_has later j (dedup_mark now k d)) = False \<and>
     (jm_has k rest \<longrightarrow> length (dd_keys (dedup_mark now k d)) < length (dd_keys d))"
proof -
  have "dedup_prune now d = d" using assms by (simp add: dedup_prune_def)
  moreover have "dd_keys (dedup_evict d) = rest" using assms by (simp add: evict_keys)
  ultimately have m: "dd_keys (dedup_mark now k d) = jm_set k now rest"
    using assms(1) by (simp add: dedup_mark_def dedup_record_def Let_def)
  have j: "\<not> jm_has j (dd_keys (dedup_mark now k d))"
    using assms(2,3,6) by (simp add: m jm_has_iff jm_set_keys) (simp add: jm_keys_def jm_ok_def)
  moreover have "snd (dedup_has now j d) = True" using assms by (simp add: dedup_has_def jm_get_def)
  moreover have "snd (dedup_has later j (dedup_mark now k d)) = False"
    using j assms(1) by (simp add: jm_has_get dedup_has_def) (simp add: dedup_mark_def)
  ultimately show ?thesis using assms(3) by (simp add: m jm_length_set)
qed

lemma dedup_forgets_live_key_witness:
  "let d = \<lparr>dd_ttl = Fin 60, dd_maxKeys = Fin 2, dd_keys = [(1::nat, 0), (2, 1)], dd_disposed = False\<rparr>
   in fst (dedup_run [(0, Has 1), (1, Has 2)] (d\<lparr>dd_keys := []\<rparr>)) = d \<and>
      snd (dedup_has 2 1 d) = True \<and> snd (dedup_has 3 1 (dedup_mark 2 2 d)) = False"
proof -
  let ?d = "\<lparr>dd_ttl = Fin 60, dd_maxKeys = Fin 2, dd_keys = [(1::nat, 0), (2, 1)], dd_disposed = False\<rparr>"
  have "snd (dedup_has 2 1 ?d) = True \<and> \<not> jm_has 1 (dd_keys (dedup_mark 2 2 ?d)) \<and>
     snd (dedup_has 3 1 (dedup_mark 2 2 ?d)) = False \<and>
     (jm_has 2 [(2::nat, 1::rat)] \<longrightarrow> length (dd_keys (dedup_mark 2 2 ?d)) < length (dd_keys ?d))"
    by (rule dedup_forgets_live_key [of ?d 1 0 "[(2, 1)]" 2 2 3])
      (simp_all add: jm_ok_def dedup_fresh_def jm_has_def)
  moreover have "fst (dedup_run [(0, Has 1), (1, Has 2)] (?d\<lparr>dd_keys := []\<rparr>)) = ?d"
    by (simp add: dedup_has_def jm_get_def dedup_record_def Let_def dedup_prune_def dedup_evict_def dedup_fresh_def)
  ultimately show ?thesis by (simp add: Let_def)
qed

end
