(* ===== verification/Latch.thy ===== *)
theory Latch
  imports JsMap LimiterClock
begin

text \<open>
  The deferred (\<open>src/helpers/powerDefer.js\<close>) and the count-down latch on it
  (\<open>src/helpers/powerLatch.js\<close>).  Promises, timers and abort listeners are the host's: they are
  the last fields of the state, keyed by the token of the waiter they belong to, and their firing
  is a step.  Values are not thenables, and \<open>onAbort\<close> does not call back into the latch.
\<close>

section \<open>The deferred\<close>

text \<open>What a promise is rejected with: an \<open>Error\<close> (name, message, code), or any other value.\<close>

datatype rejection = RejError string string "string option" | RejValue js_val

datatype 'v promise = PromisePending | PromiseFulfilled 'v | PromiseRejected rejection

datatype defer_status = Pending | Fulfilled | Rejected | Cancelled

record 'v deferred =
  df_settled :: bool
  df_status :: defer_status
  df_promise :: "'v promise"

definition defer_new :: "'v deferred" where
  "defer_new = \<lparr>df_settled = False, df_status = Pending, df_promise = PromisePending\<rparr>"

definition defer_resolve :: "'v \<Rightarrow> 'v deferred \<Rightarrow> 'v deferred" where
  "defer_resolve v d =
     (if df_settled d then d
      else d\<lparr>df_settled := True, df_status := Fulfilled, df_promise := PromiseFulfilled v\<rparr>)"

definition defer_reject :: "rejection \<Rightarrow> 'v deferred \<Rightarrow> 'v deferred" where
  "defer_reject err d =
     (if df_settled d then d
      else d\<lparr>df_settled := True, df_status := Rejected, df_promise := PromiseRejected err\<rparr>)"

definition defer_cancel :: "rejection \<Rightarrow> 'v deferred \<Rightarrow> 'v deferred" where
  "defer_cancel reason d =
     (if df_settled d then d
      else
        (let err = (case reason of
               RejError name msg code \<Rightarrow> RejError (if name = ''Error'' then ''AbortError'' else name) msg code
             | RejValue v \<Rightarrow> RejError ''AbortError''
                 (case v of JStr s \<Rightarrow> s | _ \<Rightarrow> ''PowerDefer cancelled'') None)
         in (defer_reject err d)\<lparr>df_status := Cancelled\<rparr>))"

definition defer_cancelled :: "'v deferred \<Rightarrow> bool" where
  "defer_cancelled d \<longleftrightarrow> df_status d = Cancelled"

definition defer_fulfilled :: "'v deferred \<Rightarrow> bool" where
  "defer_fulfilled d \<longleftrightarrow> df_status d = Fulfilled"

definition defer_rejected :: "'v deferred \<Rightarrow> bool" where
  "defer_rejected d \<longleftrightarrow> df_status d = Rejected"

section \<open>The latch\<close>

record latch_waiter =
  lw_token :: nat
  lw_timer :: bool
  lw_signalHandler :: bool
  lw_signal :: "nat option"

record latch =
  lt_count :: nat
  lt_waiters :: "(nat, latch_waiter) js_map"
  lt_nextWaiterToken :: nat
  lt_aborted :: bool
  lt_abortReason :: "rejection option"
  lt_disposed :: bool
  lt_onAbort :: bool

record latch_world = latch +
  lt_defers :: "nat \<Rightarrow> unit deferred option"
  lt_timers :: "nat set"
  lt_listeners :: "(nat \<times> nat) set"
  lt_onAbortCalls :: "rejection list"

definition err_disposed :: rejection where "err_disposed = RejError ''Error'' ''Disposed'' (Some ''EDISPOSED'')"
definition err_aborted :: rejection where "err_aborted = RejError ''Error'' ''Aborted'' (Some ''EABORT'')"
definition err_timeout :: rejection where "err_timeout = RejError ''Error'' ''Timeout'' (Some ''ETIMEOUT'')"

text \<open>\<open>assertLimitRequired\<close> as the constructor and \<open>reset\<close> call it.\<close>

definition latch_limit :: "js_val \<Rightarrow> rat \<Rightarrow> nat result" where
  "latch_limit v fallback =
     (case assertLimitRequired v
             ((limit_spec ''count'' ''PowerLatch'')\<lparr>sp_integer := True, sp_fallback := JNum (Fin fallback)\<rparr>) of
        Inl e \<Rightarrow> Inl e
      | Inr n \<Rightarrow> Inr (nat \<lfloor>num_rat n\<rfloor>))"

definition latch_new :: "js_val \<Rightarrow> js_val \<Rightarrow> latch_world result" where
  "latch_new count0 options0 =
     (let count1 = default_to (JNum (Fin 1)) count0; options1 = default_to (JObj []) options0;
          carried = (case count1 of JObj ps \<Rightarrow> ''count'' \<in> fst ` set ps | _ \<Rightarrow> False);
          options = (if carried then count1 else options1);
          count = (if carried then get_prop ''count'' count1 else count1)
      in case assertKnownOptions options [''count'', ''onAbort''] ''PowerLatch'' of
           Inl e \<Rightarrow> Inl e
         | Inr _ \<Rightarrow>
             (case latch_limit count 0 of
                Inl e \<Rightarrow> Inl e
              | Inr n \<Rightarrow>
                  if options = JNull then Inl NullOptions
                  else Inr \<lparr>lt_count = n, lt_waiters = [], lt_nextWaiterToken = 1, lt_aborted = False,
                    lt_abortReason = None, lt_disposed = False,
                    lt_onAbort = (case get_prop ''onAbort'' options of JFun f \<Rightarrow> True | _ \<Rightarrow> False),
                    lt_defers = (\<lambda>_. None), lt_timers = {}, lt_listeners = {}, lt_onAbortCalls = []\<rparr>))"

text \<open>
  Letting go of a waiter's timer and listener, which \<open>_removeWaiter\<close> and \<open>_settleAll\<close> do alike,
  and settling its deferred.
\<close>

definition latch_detach :: "latch_waiter \<Rightarrow> latch_world \<Rightarrow> latch_world" where
  "latch_detach wt w =
     (let w1 = (if lw_timer wt then w\<lparr>lt_timers := lt_timers w - {lw_token wt}\<rparr> else w) in
      case lw_signal wt of
        Some sig \<Rightarrow> (if lw_signalHandler wt
                     then w1\<lparr>lt_listeners := lt_listeners w1 - {(sig, lw_token wt)}\<rparr> else w1)
      | None \<Rightarrow> w1)"

definition latch_settle :: "(unit deferred \<Rightarrow> unit deferred) \<Rightarrow> nat \<Rightarrow> latch_world \<Rightarrow> latch_world" where
  "latch_settle settle token w = w\<lparr>lt_defers := (lt_defers w)(token := map_option settle (lt_defers w token))\<rparr>"

definition latch_removeWaiter :: "nat \<Rightarrow> latch_world \<Rightarrow> latch_world" where
  "latch_removeWaiter token w =
     (case jm_get token (lt_waiters w) of
        None \<Rightarrow> w
      | Some wt \<Rightarrow> latch_detach wt (w\<lparr>lt_waiters := jm_delete token (lt_waiters w)\<rparr>))"

fun latch_settle_loop :: "(unit deferred \<Rightarrow> unit deferred) \<Rightarrow> (nat, latch_waiter) js_map \<Rightarrow> latch_world \<Rightarrow> latch_world" where
  "latch_settle_loop settle [] w = w"
| "latch_settle_loop settle ((token, wt) # ws) w =
     latch_settle_loop settle ws (latch_settle settle token (latch_detach wt w))"

definition latch_settleAll :: "(unit deferred \<Rightarrow> unit deferred) \<Rightarrow> latch_world \<Rightarrow> latch_world" where
  "latch_settleAll settle w = latch_settle_loop settle (lt_waiters w) (w\<lparr>lt_waiters := []\<rparr>)"

definition latch_resolveAll :: "latch_world \<Rightarrow> latch_world" where
  "latch_resolveAll w = latch_settleAll (defer_resolve ()) w"

definition latch_rejectAll :: "rejection \<Rightarrow> latch_world \<Rightarrow> latch_world" where
  "latch_rejectAll err w = latch_settleAll (defer_reject err) w"

text \<open>\<open>Math.max(0, Math.floor(Number(n) || 0))\<close>; \<open>None\<close> is infinity.\<close>

definition latch_dec :: "js_num \<Rightarrow> nat option" where
  "latch_dec n = (case n of Fin r \<Rightarrow> Some (nat \<lfloor>r\<rfloor>) | PosInf \<Rightarrow> None | _ \<Rightarrow> Some 0)"

definition latch_countDown :: "js_val \<Rightarrow> latch_world \<Rightarrow> (latch_world, nat) step" where
  "latch_countDown n w =
     (case to_number (default_to (JNum (Fin 1)) n) of
        Inl e \<Rightarrow> (w, Inl e)
      | Inr num \<Rightarrow>
          if latch_dec num = Some 0 then (w, Inr (lt_count w))
          else
            (let w1 = w\<lparr>lt_count := (case latch_dec num of Some dec \<Rightarrow> lt_count w - dec | None \<Rightarrow> 0)\<rparr>;
                 w2 = (if lt_count w1 = 0 then latch_resolveAll w1 else w1)
             in (w2, Inr (lt_count w2))))"

definition latch_decrementUnlessZero :: "latch_world \<Rightarrow> (latch_world, nat) step" where
  "latch_decrementUnlessZero w =
     (if lt_count w = 0 then (w, Inr 0) else latch_countDown (JNum (Fin 1)) w)"

text \<open>
  \<open>wait\<close>: the timeout and the signal of its argument.  A signal has its identity, whether it has
  aborted, its reason if there is one, and whether it takes listeners.
\<close>

record abort_signal =
  sg_id :: nat
  sg_aborted :: bool
  sg_reason :: "rejection option"
  sg_listens :: bool

datatype wait_opts = WaitDefault | WaitTimeout js_num | WaitOptions js_val "abort_signal option"

datatype wait_result = Settled "unit promise" | Waiting nat

definition wait_timeout :: "wait_opts \<Rightarrow> js_num option" where
  "wait_timeout opts =
     (case opts of
        WaitDefault \<Rightarrow> None
      | WaitTimeout n \<Rightarrow> Some n
      | WaitOptions timeout _ \<Rightarrow> (case timeout of JNum n \<Rightarrow> Some n | _ \<Rightarrow> None))"

definition wait_signal :: "wait_opts \<Rightarrow> abort_signal option" where
  "wait_signal opts = (case opts of WaitOptions _ signal \<Rightarrow> signal | _ \<Rightarrow> None)"

definition or_aborted :: "rejection option \<Rightarrow> rejection" where
  "or_aborted reason = (case reason of Some r \<Rightarrow> r | None \<Rightarrow> err_aborted)"

definition latch_wait :: "wait_opts \<Rightarrow> latch_world \<Rightarrow> latch_world \<times> wait_result" where
  "latch_wait opts w =
     (if lt_disposed w then (w, Settled (PromiseRejected err_disposed))
      else if lt_aborted w then (w, Settled (PromiseRejected (or_aborted (lt_abortReason w))))
      else if lt_count w = 0 then (w, Settled (PromiseFulfilled ()))
      else if (case wait_signal opts of Some sig \<Rightarrow> sg_aborted sig | None \<Rightarrow> False)
      then (w, Settled (PromiseRejected (or_aborted (Option.bind (wait_signal opts) sg_reason))))
      else
        (let token = lt_nextWaiterToken w;
             timer = (case wait_timeout opts of Some n \<Rightarrow> num_lt (Fin 0) n | None \<Rightarrow> False);
             listens = (case wait_signal opts of Some sig \<Rightarrow> sg_listens sig | None \<Rightarrow> False);
             sid = map_option sg_id (wait_signal opts);
             w1 = w\<lparr>lt_nextWaiterToken := token + 1, lt_defers := (lt_defers w)(token \<mapsto> defer_new)\<rparr>;
             w2 = (if timer then w1\<lparr>lt_timers := insert token (lt_timers w1)\<rparr> else w1);
             w3 = (case sid of Some i \<Rightarrow>
                     (if listens then w2\<lparr>lt_listeners := insert (i, token) (lt_listeners w2)\<rparr> else w2)
                   | None \<Rightarrow> w2);
             waiter = \<lparr>lw_token = token, lw_timer = timer, lw_signalHandler = listens, lw_signal = sid\<rparr>
         in (w3\<lparr>lt_waiters := jm_set token waiter (lt_waiters w3)\<rparr>, Waiting token)))"

text \<open>The two callbacks \<open>wait\<close> leaves behind.  The host drops a timer, and a listener registered once, as it fires.\<close>

definition latch_timeout_fires :: "nat \<Rightarrow> latch_world \<Rightarrow> latch_world" where
  "latch_timeout_fires token w =
     latch_settle (defer_reject err_timeout) token
       (latch_removeWaiter token (w\<lparr>lt_timers := lt_timers w - {token}\<rparr>))"

definition latch_signal_fires :: "nat \<Rightarrow> nat \<Rightarrow> rejection option \<Rightarrow> latch_world \<Rightarrow> latch_world" where
  "latch_signal_fires sid token reason w =
     latch_settle (defer_reject (or_aborted reason)) token
       (latch_removeWaiter token (w\<lparr>lt_listeners := lt_listeners w - {(sid, token)}\<rparr>))"

text \<open>\<open>reset\<close>; \<open>dispose\<close> replaces it by a function that does nothing.\<close>

definition latch_reset :: "js_val \<Rightarrow> latch_world \<Rightarrow> (latch_world, unit) step" where
  "latch_reset count w =
     (if lt_disposed w then (w, Inr ())
      else case latch_limit (default_to (JNum (Fin 1)) count) 1 of
        Inl e \<Rightarrow> (w, Inl e)
      | Inr n \<Rightarrow>
          (let w1 = w\<lparr>lt_count := n\<rparr>;
               w2 = (if lt_count w1 = 0 then latch_resolveAll w1 else w1)
           in (w2\<lparr>lt_aborted := False, lt_abortReason := None\<rparr>, Inr ())))"

definition latch_abort :: "rejection option \<Rightarrow> latch_world \<Rightarrow> latch_world" where
  "latch_abort reason w =
     (if lt_aborted w then w
      else
        (let why = or_aborted reason;
             w1 = w\<lparr>lt_aborted := True, lt_abortReason := Some why\<rparr>;
             w2 = (if lt_onAbort w1 then w1\<lparr>lt_onAbortCalls := lt_onAbortCalls w1 @ [why]\<rparr> else w1)
         in latch_rejectAll why w2))"

definition latch_set_onAbort :: "js_val \<Rightarrow> latch_world \<Rightarrow> latch_world" where
  "latch_set_onAbort fn w = w\<lparr>lt_onAbort := (case fn of JFun f \<Rightarrow> True | _ \<Rightarrow> False)\<rparr>"

definition latch_dispose :: "latch_world \<Rightarrow> latch_world" where
  "latch_dispose w =
     (if lt_disposed w then w else latch_rejectAll err_disposed (w\<lparr>lt_disposed := True, lt_count := 0\<rparr>))"

definition latch_done :: "latch_world \<Rightarrow> bool" where
  "latch_done w \<longleftrightarrow> lt_count w = 0"

definition latch_one :: "latch_world result" where
  "latch_one = latch_new (JNum (Fin 1)) JUndefined"

section \<open>Steps\<close>

datatype latch_event =
    CountDown js_val | DecrementUnlessZero | Wait wait_opts | TimerFires nat
  | SignalFires nat nat "rejection option" | ResetTo js_val | Abort "rejection option"
  | SetOnAbort js_val | Dispose

inductive latch_step :: "latch_world \<Rightarrow> latch_event \<Rightarrow> latch_world \<Rightarrow> bool" where
  counts: "latch_step w (CountDown n) (fst (latch_countDown n w))"
| decrements: "latch_step w DecrementUnlessZero (fst (latch_decrementUnlessZero w))"
| waits: "latch_step w (Wait opts) (fst (latch_wait opts w))"
| times_out: "t \<in> lt_timers w \<Longrightarrow> latch_step w (TimerFires t) (latch_timeout_fires t w)"
| signals: "(i, t) \<in> lt_listeners w \<Longrightarrow> latch_step w (SignalFires i t reason) (latch_signal_fires i t reason w)"
| resets: "latch_step w (ResetTo n) (fst (latch_reset n w))"
| aborts: "latch_step w (Abort reason) (latch_abort reason w)"
| sets: "latch_step w (SetOnAbort fn) (latch_set_onAbort fn w)"
| disposes: "latch_step w Dispose (latch_dispose w)"

inductive_cases latch_stepE: "latch_step w ev w'"

inductive latch_reachable :: "latch_world \<Rightarrow> bool" where
  new: "latch_new count options = Inr w \<Longrightarrow> latch_reachable w"
| step: "latch_reachable w \<Longrightarrow> latch_step w ev w' \<Longrightarrow> latch_reachable w'"

section \<open>Settling once\<close>

definition deferred_ok :: "'v deferred \<Rightarrow> bool" where
  "deferred_ok d \<longleftrightarrow>
     (case df_status d of
        Pending \<Rightarrow> \<not> df_settled d \<and> df_promise d = PromisePending
      | Fulfilled \<Rightarrow> df_settled d \<and> (\<exists>v. df_promise d = PromiseFulfilled v)
      | _ \<Rightarrow> df_settled d \<and> (\<exists>r. df_promise d = PromiseRejected r))"

text \<open>What \<open>resolve\<close>, \<open>reject\<close> and \<open>cancel\<close> have in common.\<close>

definition settling :: "('v deferred \<Rightarrow> 'v deferred) \<Rightarrow> bool" where
  "settling f \<longleftrightarrow> (\<forall>d. df_settled (f d) \<and> (deferred_ok d \<longrightarrow> deferred_ok (f d)) \<and> (df_settled d \<longrightarrow> f d = d))"

lemma deferred_ok_new: "deferred_ok defer_new" "\<not> df_settled defer_new"
  by (simp_all add: deferred_ok_def defer_new_def)

lemma settling_ops [simp]: "settling (defer_resolve v)" "settling (defer_reject e)" "settling (defer_cancel r)"
  by (auto simp: settling_def deferred_ok_def defer_resolve_def defer_reject_def defer_cancel_def Let_def
      split: rejection.splits js_val.splits defer_status.splits)

lemma settlingD:
  assumes "settling f"
  shows "df_settled (f d)" "deferred_ok d \<Longrightarrow> deferred_ok (f d)" "df_settled d \<Longrightarrow> f d = d"
  using assms by (simp_all add: settling_def)

section \<open>The state of the waiters\<close>

definition latch_core :: "latch_world \<Rightarrow> bool" where
  "latch_core w \<longleftrightarrow>
     jm_ok (lt_waiters w) \<and>
     (\<forall>t wt. jm_get t (lt_waiters w) = Some wt \<longrightarrow> lw_token wt = t) \<and>
     (\<forall>t. lt_defers w t \<noteq> None \<longleftrightarrow> 0 < t \<and> t < lt_nextWaiterToken w) \<and>
     (\<forall>t. jm_get t (lt_waiters w) \<noteq> None \<longrightarrow> lt_defers w t \<noteq> None) \<and>
     (\<forall>t d. lt_defers w t = Some d \<longrightarrow> deferred_ok d \<and> (df_settled d \<longleftrightarrow> jm_get t (lt_waiters w) = None)) \<and>
     (\<forall>t. t \<in> lt_timers w \<longleftrightarrow> (\<exists>wt. jm_get t (lt_waiters w) = Some wt \<and> lw_timer wt)) \<and>
     (\<forall>i t. (i, t) \<in> lt_listeners w \<longleftrightarrow>
        (\<exists>wt. jm_get t (lt_waiters w) = Some wt \<and> lw_signalHandler wt \<and> lw_signal wt = Some i))"

definition latch_ok :: "latch_world \<Rightarrow> bool" where
  "latch_ok w \<longleftrightarrow>
     latch_core w \<and> 0 < lt_nextWaiterToken w \<and>
     (lt_count w = 0 \<or> lt_aborted w \<or> lt_disposed w \<longrightarrow> lt_waiters w = []) \<and>
     (lt_disposed w \<longrightarrow> lt_count w = 0) \<and> (lt_aborted w \<longleftrightarrow> lt_abortReason w \<noteq> None)"

lemma coreD:
  assumes "latch_core w"
  shows "jm_ok (lt_waiters w)"
    and "jm_get t (lt_waiters w) = Some wt \<Longrightarrow> lw_token wt = t"
    and "lt_defers w t \<noteq> None \<longleftrightarrow> 0 < t \<and> t < lt_nextWaiterToken w"
    and "jm_get t (lt_waiters w) \<noteq> None \<Longrightarrow> lt_defers w t \<noteq> None"
    and "lt_defers w t = Some d \<Longrightarrow> deferred_ok d"
    and "lt_defers w t = Some d \<Longrightarrow> df_settled d \<longleftrightarrow> jm_get t (lt_waiters w) = None"
    and "t \<in> lt_timers w \<longleftrightarrow> (\<exists>wt. jm_get t (lt_waiters w) = Some wt \<and> lw_timer wt)"
    and "(i, t) \<in> lt_listeners w \<longleftrightarrow>
        (\<exists>wt. jm_get t (lt_waiters w) = Some wt \<and> lw_signalHandler wt \<and> lw_signal wt = Some i)"
proof -
  note c = assms [unfolded latch_core_def]
  note rest2 = c [THEN conjunct2, THEN conjunct2]
  note rest4 = rest2 [THEN conjunct2, THEN conjunct2]
  show "jm_ok (lt_waiters w)" by (rule c [THEN conjunct1])
  show "jm_get t (lt_waiters w) = Some wt \<Longrightarrow> lw_token wt = t"
    by (rule c [THEN conjunct2, THEN conjunct1, rule_format])
  show "lt_defers w t \<noteq> None \<longleftrightarrow> 0 < t \<and> t < lt_nextWaiterToken w" by (rule rest2 [THEN conjunct1, rule_format])
  show "jm_get t (lt_waiters w) \<noteq> None \<Longrightarrow> lt_defers w t \<noteq> None"
    by (rule rest2 [THEN conjunct2, THEN conjunct1, rule_format])
  show "lt_defers w t = Some d \<Longrightarrow> deferred_ok d"
    by (rule rest4 [THEN conjunct1, rule_format, THEN conjunct1])
  show "lt_defers w t = Some d \<Longrightarrow> df_settled d \<longleftrightarrow> jm_get t (lt_waiters w) = None"
    by (rule rest4 [THEN conjunct1, rule_format, THEN conjunct2])
  show "t \<in> lt_timers w \<longleftrightarrow> (\<exists>wt. jm_get t (lt_waiters w) = Some wt \<and> lw_timer wt)"
    by (rule rest4 [THEN conjunct2, THEN conjunct1, rule_format])
  show "(i, t) \<in> lt_listeners w \<longleftrightarrow>
      (\<exists>wt. jm_get t (lt_waiters w) = Some wt \<and> lw_signalHandler wt \<and> lw_signal wt = Some i)"
    by (rule rest4 [THEN conjunct2, THEN conjunct2, rule_format])
qed

lemma detach_eq:
  "latch_detach wt w = w\<lparr>lt_timers := lt_timers w - {t. t = lw_token wt \<and> lw_timer wt},
     lt_listeners := lt_listeners w -
       {(i, t). t = lw_token wt \<and> lw_signalHandler wt \<and> lw_signal wt = Some i}\<rparr>"
  by (auto simp: latch_detach_def Let_def split: option.split intro!: latch_world.equality)

lemma settle_loop_eq:
  "jm_ok ws \<Longrightarrow> latch_settle_loop f ws w =
     w\<lparr>lt_defers := (\<lambda>t. if jm_get t ws \<noteq> None then map_option f (lt_defers w t) else lt_defers w t),
       lt_timers := lt_timers w - {t. \<exists>k wt. (k, wt) \<in> set ws \<and> t = lw_token wt \<and> lw_timer wt},
       lt_listeners := lt_listeners w -
         {(i, t). \<exists>k wt. (k, wt) \<in> set ws \<and> t = lw_token wt \<and> lw_signalHandler wt \<and> lw_signal wt = Some i}\<rparr>"
proof (induction ws arbitrary: w)
  case Nil
  show ?case by (simp add: jm_get_def)
next
  case (Cons p ws)
  obtain k wt where p: "p = (k, wt)" by (cases p)
  have ok: "jm_ok ws" "jm_get k ws = None" using Cons.prems
    by (auto simp: p jm_ok_def jm_get_def map_of_eq_None_iff)
  show ?case unfolding p latch_settle_loop.simps Cons.IH [OF ok(1)]
    by (rule latch_world.equality)
      (use ok(2) in \<open>auto simp: latch_settle_def detach_eq jm_get_def fun_eq_iff\<close>)
qed

lemma core_get_set: "latch_core w \<Longrightarrow> (t, wt) \<in> set (lt_waiters w) \<longleftrightarrow> jm_get t (lt_waiters w) = Some wt"
  using coreD(1) by (fastforce simp: jm_ok_def jm_get_def)

text \<open>In a well-formed state \<open>_settleAll\<close> leaves no waiter, timer or listener and nothing unsettled.\<close>

lemma settleAll_eq:
  assumes core: "latch_core w" and f: "settling f"
  shows "latch_settleAll f w =
     w\<lparr>lt_waiters := [], lt_timers := {}, lt_listeners := {}, lt_defers := (\<lambda>t. map_option f (lt_defers w t))\<rparr>"
proof -
  have settled: "lt_defers w t = map_option f (lt_defers w t)" if "jm_get t (lt_waiters w) = None" for t
    using that coreD(6) [OF core, of t] settlingD(3) [OF f] by (cases "lt_defers w t") auto
  have "lt_timers w - {t. \<exists>k wt. (k, wt) \<in> set (lt_waiters w) \<and> t = lw_token wt \<and> lw_timer wt} = {}"
    using coreD(2,7) [OF core] by (fastforce simp: core_get_set [OF core])
  moreover have "lt_listeners w - {(i, t). \<exists>k wt. (k, wt) \<in> set (lt_waiters w) \<and> t = lw_token wt \<and>
      lw_signalHandler wt \<and> lw_signal wt = Some i} = {}"
    using coreD(2,8) [OF core] by (fastforce simp: core_get_set [OF core])
  ultimately show ?thesis using settled
    by (auto simp: latch_settleAll_def settle_loop_eq [OF coreD(1) [OF core]] fun_eq_iff intro!: latch_world.equality)
qed

lemma latch_coreI:
  assumes "jm_ok (lt_waiters w)"
    and "\<And>t wt. jm_get t (lt_waiters w) = Some wt \<Longrightarrow> lw_token wt = t"
    and "\<And>t. lt_defers w t \<noteq> None \<longleftrightarrow> 0 < t \<and> t < lt_nextWaiterToken w"
    and "\<And>t. jm_get t (lt_waiters w) \<noteq> None \<Longrightarrow> lt_defers w t \<noteq> None"
    and "\<And>t d. lt_defers w t = Some d \<Longrightarrow> deferred_ok d \<and> (df_settled d \<longleftrightarrow> jm_get t (lt_waiters w) = None)"
    and "\<And>t. t \<in> lt_timers w \<longleftrightarrow> (\<exists>wt. jm_get t (lt_waiters w) = Some wt \<and> lw_timer wt)"
    and "\<And>i t. (i, t) \<in> lt_listeners w \<longleftrightarrow>
        (\<exists>wt. jm_get t (lt_waiters w) = Some wt \<and> lw_signalHandler wt \<and> lw_signal wt = Some i)"
  shows "latch_core w"
  unfolding latch_core_def using assms by blast

lemma core_frame:
  "lt_waiters w' = lt_waiters w \<Longrightarrow> lt_nextWaiterToken w' = lt_nextWaiterToken w \<Longrightarrow> lt_defers w' = lt_defers w \<Longrightarrow>
     lt_timers w' = lt_timers w \<Longrightarrow> lt_listeners w' = lt_listeners w \<Longrightarrow> latch_core w' = latch_core w"
  by (simp add: latch_core_def)

lemma core_settleAll:
  assumes core: "latch_core w" and f: "settling f"
  shows "latch_core (latch_settleAll f w)"
proof (rule latch_coreI; simp only: settleAll_eq [OF core f])
  fix t d assume "lt_defers (w\<lparr>lt_waiters := [], lt_timers := {}, lt_listeners := {},
      lt_defers := \<lambda>t. map_option f (lt_defers w t)\<rparr>) t = Some d"
  then show "deferred_ok d \<and> (df_settled d \<longleftrightarrow> jm_get t (lt_waiters (w\<lparr>lt_waiters := [], lt_timers := {}, lt_listeners := {},
      lt_defers := \<lambda>t. map_option f (lt_defers w t)\<rparr>)) = None)"
    using coreD(5) [OF core] settlingD(1,2) [OF f] by (auto simp: jm_get_def)
qed (use coreD(3) [OF core] in \<open>auto simp: jm_ok_def jm_get_def\<close>)

text \<open>A timer or a listener that fires: its waiter goes with all it holds, and is rejected.\<close>

definition latch_drop :: "nat \<Rightarrow> (unit deferred \<Rightarrow> unit deferred) \<Rightarrow> latch_world \<Rightarrow> latch_world" where
  "latch_drop t f w = w\<lparr>lt_waiters := jm_delete t (lt_waiters w), lt_timers := lt_timers w - {t},
     lt_listeners := {(i, u). (i, u) \<in> lt_listeners w \<and> u \<noteq> t},
     lt_defers := (lt_defers w)(t := map_option f (lt_defers w t))\<rparr>"

lemma fires_eq:
  assumes core: "latch_core w"
  shows "t \<in> lt_timers w \<Longrightarrow> latch_timeout_fires t w = latch_drop t (defer_reject err_timeout) w"
    and "(i, t) \<in> lt_listeners w \<Longrightarrow>
      latch_signal_fires i t reason w = latch_drop t (defer_reject (or_aborted reason)) w"
proof -
  have tok: "lw_token wt = t" if "jm_get t (lt_waiters w) = Some wt" for wt by (rule coreD(2) [OF core that])
  show "latch_timeout_fires t w = latch_drop t (defer_reject err_timeout) w" if t: "t \<in> lt_timers w"
  proof -
    obtain wt where wt: "jm_get t (lt_waiters w) = Some wt" "lw_timer wt" using t coreD(7) [OF core] by blast
    show ?thesis using wt tok coreD(8) [OF core]
      by (auto simp: latch_timeout_fires_def latch_drop_def latch_settle_def latch_removeWaiter_def detach_eq
          intro!: latch_world.equality)
  qed
  show "latch_signal_fires i t reason w = latch_drop t (defer_reject (or_aborted reason)) w" if t: "(i, t) \<in> lt_listeners w"
  proof -
    obtain wt where wt: "jm_get t (lt_waiters w) = Some wt" "lw_signal wt = Some i" using t coreD(8) [OF core] by blast
    show ?thesis using wt tok coreD(7,8) [OF core]
      by (auto simp: latch_signal_fires_def latch_drop_def latch_settle_def latch_removeWaiter_def detach_eq
          intro!: latch_world.equality)
  qed
qed

lemma core_drop:
  assumes core: "latch_core w" and f: "settling f"
  shows "latch_core (latch_drop t f w)"
proof (rule latch_coreI)
  show "jm_ok (lt_waiters (latch_drop t f w))" using coreD(1) [OF core] by (simp add: latch_drop_def js.ok_del)
  show "deferred_ok d \<and> (df_settled d \<longleftrightarrow> jm_get u (lt_waiters (latch_drop t f w)) = None)"
    if "lt_defers (latch_drop t f w) u = Some d" for u d
    using that coreD(5,6) [OF core] settlingD(1,2) [OF f]
    by (auto simp: latch_drop_def jm_delete_get split: if_splits)
qed (use coreD(2,3,4,7,8) [OF core] in \<open>auto simp: latch_drop_def jm_delete_get split: if_splits\<close>)

text \<open>A waiter that joins the latch.\<close>

definition latch_enlist :: "latch_waiter \<Rightarrow> latch_world \<Rightarrow> latch_world" where
  "latch_enlist wt w =
     (let t = lt_nextWaiterToken w in
      w\<lparr>lt_nextWaiterToken := t + 1, lt_waiters := jm_set t wt (lt_waiters w),
        lt_defers := (lt_defers w)(t \<mapsto> defer_new),
        lt_timers := lt_timers w \<union> {u. u = t \<and> lw_timer wt},
        lt_listeners := lt_listeners w \<union> {(i, u). u = t \<and> lw_signalHandler wt \<and> lw_signal wt = Some i}\<rparr>)"

lemma wait_cases:
  obtains p where "latch_wait opts w = (w, Settled p)"
  | wt where "\<not> lt_disposed w" "\<not> lt_aborted w" "0 < lt_count w" "lw_token wt = lt_nextWaiterToken w"
      "latch_wait opts w = (latch_enlist wt w, Waiting (lt_nextWaiterToken w))"
proof (cases "\<exists>p. latch_wait opts w = (w, Settled p)")
  case True
  then show thesis using that(1) by blast
next
  case False
  let ?t = "lt_nextWaiterToken w"
  let ?sid = "map_option sg_id (wait_signal opts)"
  let ?wt = "\<lparr>lw_token = ?t, lw_timer = (case wait_timeout opts of Some n \<Rightarrow> num_lt (Fin 0) n | None \<Rightarrow> False),
     lw_signalHandler = (case wait_signal opts of Some sig \<Rightarrow> sg_listens sig | None \<Rightarrow> False), lw_signal = ?sid\<rparr>"
  have go: "\<not> lt_disposed w" "\<not> lt_aborted w" "0 < lt_count w"
      "\<not> (case wait_signal opts of Some sig \<Rightarrow> sg_aborted sig | None \<Rightarrow> False)"
    using False by (auto simp: latch_wait_def split: if_splits)
  have "latch_wait opts w = (latch_enlist ?wt w, Waiting ?t)"
  proof (cases "wait_signal opts")
    case None
    then show ?thesis using go(1-3)
      by (cases "case wait_timeout opts of Some n \<Rightarrow> num_lt (Fin 0) n | None \<Rightarrow> False")
        (simp_all add: latch_wait_def latch_enlist_def Let_def)
  next
    case (Some sig)
    then have "\<not> sg_aborted sig" using go(4) by simp
    moreover have "{(i, u). u = ?t \<and> sg_id sig = i} = {(sg_id sig, ?t)}" by auto
    ultimately show ?thesis using Some go(1-3)
      by (cases "sg_listens sig"; cases "case wait_timeout opts of Some n \<Rightarrow> num_lt (Fin 0) n | None \<Rightarrow> False")
        (simp_all add: latch_wait_def latch_enlist_def Let_def)
  qed
  with go show thesis using that(2) [of ?wt] by simp
qed

lemma core_enlist:
  assumes core: "latch_core w" and pos: "0 < lt_nextWaiterToken w" and tok: "lw_token wt = lt_nextWaiterToken w"
  shows "latch_core (latch_enlist wt w)"
proof -
  let ?t = "lt_nextWaiterToken w"
  have new: "lt_defers w ?t = None" "jm_get ?t (lt_waiters w) = None"
    using coreD(3,4) [OF core, of ?t] by (cases "jm_get ?t (lt_waiters w)"; simp)+
  have old: "?t \<notin> lt_timers w" "(i, ?t) \<notin> lt_listeners w" for i
    using coreD(7,8) [OF core] new(2) by auto
  show ?thesis
  proof (rule latch_coreI)
    show "jm_ok (lt_waiters (latch_enlist wt w))"
      using coreD(1) [OF core] by (simp add: latch_enlist_def Let_def js.ok_put)
    show "lt_defers (latch_enlist wt w) t \<noteq> None \<longleftrightarrow> 0 < t \<and> t < lt_nextWaiterToken (latch_enlist wt w)" for t
      using coreD(3) [OF core, of t] pos by (auto simp: latch_enlist_def Let_def)
    show "deferred_ok d \<and> (df_settled d \<longleftrightarrow> jm_get t (lt_waiters (latch_enlist wt w)) = None)"
      if "lt_defers (latch_enlist wt w) t = Some d" for t d
      using that coreD(5,6) [OF core, of t] deferred_ok_new
      by (auto simp: latch_enlist_def Let_def jm_set_get split: if_splits)
  qed (use coreD(2,4,7,8) [OF core] new(2) tok in \<open>auto simp: latch_enlist_def Let_def jm_set_get split: if_splits\<close>)
qed

section \<open>The invariant\<close>

lemma latch_okD: "latch_ok w \<Longrightarrow> latch_core w" "latch_ok w \<Longrightarrow> 0 < lt_nextWaiterToken w"
  by (simp_all add: latch_ok_def)

lemma settleAll_frame [simp]:
  assumes "latch_core w" "settling f"
  shows "lt_waiters (latch_settleAll f w) = []" "lt_timers (latch_settleAll f w) = {}"
    "lt_listeners (latch_settleAll f w) = {}" "lt_count (latch_settleAll f w) = lt_count w"
    "lt_aborted (latch_settleAll f w) = lt_aborted w" "lt_abortReason (latch_settleAll f w) = lt_abortReason w"
    "lt_disposed (latch_settleAll f w) = lt_disposed w"
    "lt_nextWaiterToken (latch_settleAll f w) = lt_nextWaiterToken w"
    "lt_defers (latch_settleAll f w) t = map_option f (lt_defers w t)"
  by (simp_all add: settleAll_eq [OF assms])

lemmas latch_settle_defs = latch_resolveAll_def latch_rejectAll_def

lemma ok_settleAll:
  assumes "latch_core w" "settling f" "0 < lt_nextWaiterToken w" "lt_disposed w \<longrightarrow> lt_count w = 0"
    and "lt_aborted w \<longleftrightarrow> lt_abortReason w \<noteq> None"
  shows "latch_ok (latch_settleAll f w)"
  unfolding latch_ok_def using assms(3-5) core_settleAll [OF assms(1,2)]
  by (simp add: settleAll_frame [OF assms(1,2)])

lemma ok_count:
  assumes "latch_ok w" "0 < c" "0 < lt_count w \<or> \<not> lt_disposed w"
  shows "latch_ok (w\<lparr>lt_count := c\<rparr>)"
  using assms by (auto simp: latch_ok_def core_frame [of "w\<lparr>lt_count := c\<rparr>" w])

lemma ok_zero: "latch_ok w \<Longrightarrow> settling f \<Longrightarrow> latch_ok (latch_settleAll f (w\<lparr>lt_count := 0\<rparr>))"
  by (rule ok_settleAll) (simp_all add: latch_ok_def core_frame [of "w\<lparr>lt_count := 0\<rparr>" w])

lemma countDown_cases:
  obtains e where "latch_countDown n w = (w, Inl e)"
  | "latch_countDown n w = (w, Inr (lt_count w))"
  | c where "0 < c" "c < lt_count w" "latch_countDown n w = (w\<lparr>lt_count := c\<rparr>, Inr c)"
  | "latch_countDown n w = (latch_resolveAll (w\<lparr>lt_count := 0\<rparr>), Inr (lt_count (latch_resolveAll (w\<lparr>lt_count := 0\<rparr>))))"
proof (cases "to_number (default_to (JNum (Fin 1)) n)")
  case (Inl e)
  then show thesis using that(1) by (simp add: latch_countDown_def)
next
  case (Inr num)
  let ?c = "case latch_dec num of Some dec \<Rightarrow> lt_count w - dec | None \<Rightarrow> 0"
  consider "latch_dec num = Some 0" | "latch_dec num \<noteq> Some 0" "?c = 0" | "latch_dec num \<noteq> Some 0" "0 < ?c" by blast
  then show thesis
  proof cases
    case 1
    then show thesis using that(2) Inr by (simp add: latch_countDown_def)
  next
    case 2
    then show thesis using that(4) Inr by (simp add: latch_countDown_def Let_def)
  next
    case 3
    then have "?c < lt_count w" by (auto split: option.splits)
    with 3 show thesis using that(3) [of ?c] Inr by (simp add: latch_countDown_def Let_def)
  qed
qed

lemma ok_countDown:
  assumes "latch_ok w"
  shows "latch_ok (fst (latch_countDown n w))"
proof (cases rule: countDown_cases [of n w])
  case (3 c)
  then show ?thesis using ok_count [OF assms] by simp
next
  case 4
  then show ?thesis using ok_zero [OF assms] by (simp add: latch_resolveAll_def)
qed (use assms in simp_all)

lemma ok_reset:
  assumes "latch_ok w"
  shows "latch_ok (fst (latch_reset n w))"
proof (cases "lt_disposed w")
  case False
  have frame: "latch_ok (w'\<lparr>lt_aborted := False, lt_abortReason := None\<rparr>)" if "latch_ok w'" for w'
    using that by (auto simp: latch_ok_def core_frame [of "w'\<lparr>lt_aborted := False, lt_abortReason := None\<rparr>" w'])
  show ?thesis
  proof (cases "latch_limit (default_to (JNum (Fin 1)) n) 1")
    case (Inr c)
    then show ?thesis using False frame [OF ok_count [OF assms, of c]] frame [OF ok_zero [OF assms]]
      by (cases "c = 0") (simp_all add: latch_reset_def Let_def latch_resolveAll_def)
  qed (use assms False in \<open>simp add: latch_reset_def\<close>)
qed (use assms in \<open>simp add: latch_reset_def\<close>)

lemma ok_abort:
  assumes "latch_ok w"
  shows "latch_ok (latch_abort reason w)"
proof (cases "lt_aborted w")
  case False
  define why where "why = or_aborted reason"
  define w1 where "w1 = w\<lparr>lt_aborted := True, lt_abortReason := Some why,
    lt_onAbortCalls := lt_onAbortCalls w @ (if lt_onAbort w then [why] else [])\<rparr>"
  have "latch_abort reason w = latch_settleAll (defer_reject why) w1"
    using False by (simp add: latch_abort_def w1_def why_def latch_rejectAll_def Let_def)
  moreover have "latch_ok (latch_settleAll (defer_reject why) w1)"
    by (rule ok_settleAll) (use assms in \<open>simp_all add: w1_def latch_ok_def core_frame [of w1 w, unfolded w1_def]\<close>)
  ultimately show ?thesis by simp
qed (use assms in \<open>simp add: latch_abort_def\<close>)

lemma ok_dispose:
  assumes "latch_ok w"
  shows "latch_ok (latch_dispose w)"
proof (cases "lt_disposed w")
  case False
  let ?w = "w\<lparr>lt_disposed := True, lt_count := 0\<rparr>"
  have "latch_ok (latch_settleAll (defer_reject err_disposed) ?w)"
    by (rule ok_settleAll) (use assms in \<open>simp_all add: latch_ok_def core_frame [of ?w w]\<close>)
  then show ?thesis using False by (simp add: latch_dispose_def latch_rejectAll_def)
qed (use assms in \<open>simp add: latch_dispose_def\<close>)

lemma ok_wait:
  assumes "latch_ok w"
  shows "latch_ok (fst (latch_wait opts w))"
proof (cases rule: wait_cases [of opts w])
  case (2 wt)
  then show ?thesis using assms core_enlist [OF latch_okD [OF assms] 2(4)]
    by (simp add: latch_ok_def) (simp add: latch_enlist_def Let_def)
qed (use assms in simp)

lemma ok_drop: "latch_ok w \<Longrightarrow> settling f \<Longrightarrow> latch_ok (latch_drop t f w)"
  using core_drop [of w f t] unfolding latch_ok_def
  by (simp add: latch_drop_def jm_delete_def)

lemma ok_step: "latch_step w ev w' \<Longrightarrow> latch_ok w \<Longrightarrow> latch_ok w'"
proof (induction rule: latch_step.induct)
  case (sets w fn)
  then show ?case
    by (simp add: latch_ok_def core_frame [of "latch_set_onAbort fn w" w, unfolded latch_set_onAbort_def]
        latch_set_onAbort_def)
next
  case (decrements w)
  then show ?case by (simp add: latch_decrementUnlessZero_def ok_countDown)
next
  case (times_out t w)
  then show ?case by (simp add: fires_eq [OF latch_okD(1)] ok_drop)
next
  case (signals i t w reason)
  then show ?case by (simp add: fires_eq(2) [OF latch_okD(1)] ok_drop)
qed (simp_all add: ok_countDown ok_wait ok_reset ok_abort ok_dispose)

lemma ok_new: "latch_new count options = Inr w \<Longrightarrow> latch_ok w"
  by (auto simp: latch_new_def Let_def latch_ok_def latch_core_def jm_ok_def jm_get_def
      split: sum.splits if_splits)

lemma ok_reachable: "latch_reachable w \<Longrightarrow> latch_ok w"
  by (induction rule: latch_reachable.induct) (auto intro: ok_new ok_step)

lemma ok_no_waiters:
  assumes "latch_ok w" "lt_waiters w = []"
  shows "lt_timers w = {}" "lt_listeners w = {}"
  using coreD(7,8) [OF latch_okD(1) [OF assms(1)]] assms(2) by (auto simp: jm_get_def)

text \<open>
  In every state a latch can reach, by any interleaving of counting, waiting, resetting,
  aborting, disposal and of the timers and signals of its waiters: a promise handed out is
  pending exactly while its waiter is registered; a timer or an abort listener is armed only for
  a registered waiter; and a latch that is open, aborted or disposed holds no waiter, timer or
  listener.
\<close>

theorem latch_reachable_ok:
  assumes "latch_reachable w"
  shows "(\<forall>t. jm_has t (lt_waiters w) \<longleftrightarrow> map_option df_promise (lt_defers w t) = Some PromisePending) \<and>
     (\<forall>t. t \<in> lt_timers w \<longrightarrow> jm_has t (lt_waiters w)) \<and>
     (\<forall>i t. (i, t) \<in> lt_listeners w \<longrightarrow> jm_has t (lt_waiters w)) \<and>
     (lt_count w = 0 \<or> lt_aborted w \<or> lt_disposed w \<longrightarrow>
        lt_waiters w = [] \<and> lt_timers w = {} \<and> lt_listeners w = {})"
proof -
  note ok = ok_reachable [OF assms]
  note core = latch_okD(1) [OF ok]
  have "jm_has t (lt_waiters w) \<longleftrightarrow> map_option df_promise (lt_defers w t) = Some PromisePending" for t
  proof (cases "lt_defers w t")
    case None
    then show ?thesis using coreD(4) [OF core, of t] by (cases "jm_get t (lt_waiters w)") (auto simp: jm_has_get)
  next
    case (Some d)
    then show ?thesis using coreD(5,6) [OF core Some]
      by (auto simp: jm_has_get deferred_ok_def split: defer_status.splits)
  qed
  moreover have "lt_count w = 0 \<or> lt_aborted w \<or> lt_disposed w \<longrightarrow> lt_waiters w = []"
    using ok by (simp add: latch_ok_def)
  moreover have "t \<in> lt_timers w \<longrightarrow> jm_has t (lt_waiters w)" "(i, t) \<in> lt_listeners w \<longrightarrow> jm_has t (lt_waiters w)" for i t
    using coreD(7,8) [OF core] by (auto simp: jm_has_get)
  ultimately show ?thesis using ok_no_waiters [OF ok] by blast
qed

lemma new_witness:
  "latch_new (JNum (Fin 2)) JUndefined = Inr \<lparr>lt_count = 2, lt_waiters = [], lt_nextWaiterToken = 1,
     lt_aborted = False, lt_abortReason = None, lt_disposed = False, lt_onAbort = False,
     lt_defers = (\<lambda>_. None), lt_timers = {}, lt_listeners = {}, lt_onAbortCalls = []\<rparr>"
  by (simp add: latch_new_def latch_limit_def assertLimitRequired_def assertLimit_def limit_spec_def default_to_def
      assertKnownOptions_def num_rat_def)

text \<open>
  An options object is recognised by its \<open>count\<close> alone: one that carries only \<open>onAbort\<close> is taken
  for the number and rejected, and a \<open>count\<close> that is \<open>undefined\<close> there is a latch already open,
  while an argument that is \<open>undefined\<close> is a latch of one.
\<close>

lemma latch_options_need_count:
  "latch_new (JObj [(''onAbort'', JFun f)]) JUndefined =
     Inl (NotFinite None ''PowerLatch'' ''count'' (JObj [(''onAbort'', JFun f)]))"
  "map_sum id lt_count (latch_new (JObj [(''count'', JUndefined)]) JUndefined) = Inr 0"
  "map_sum id lt_count (latch_new JUndefined JUndefined) = Inr 1"
  by (simp_all add: latch_new_def latch_limit_def assertLimitRequired_def assertLimit_def limit_spec_def default_to_def
      assertKnownOptions_def num_rat_def)

text \<open>A latch of two with one waiter on a timer.\<close>

definition latch_example :: latch_world where
  "latch_example = \<lparr>lt_count = 2,
     lt_waiters = [(1, \<lparr>lw_token = 1, lw_timer = True, lw_signalHandler = False, lw_signal = None\<rparr>)],
     lt_nextWaiterToken = 2, lt_aborted = False, lt_abortReason = None, lt_disposed = False, lt_onAbort = False,
     lt_defers = (\<lambda>_. None)(1 \<mapsto> defer_new), lt_timers = {1}, lt_listeners = {}, lt_onAbortCalls = []\<rparr>"

lemma example_reachable: "latch_reachable latch_example"
proof -
  let ?w = "\<lparr>lt_count = 2, lt_waiters = [], lt_nextWaiterToken = 1,
     lt_aborted = False, lt_abortReason = None, lt_disposed = False, lt_onAbort = False,
     lt_defers = (\<lambda>_. None), lt_timers = {}, lt_listeners = {}, lt_onAbortCalls = []\<rparr>"
  have "latch_reachable (fst (latch_wait (WaitTimeout (Fin 50)) ?w))"
    by (rule latch_reachable.step [OF latch_reachable.new [OF new_witness] latch_step.waits])
  then show ?thesis
    by (simp add: latch_example_def latch_wait_def wait_timeout_def wait_signal_def Let_def numeral_2_eq_2)
qed

lemma latch_reachable_ok_witness:
  "jm_has 1 (lt_waiters latch_example) \<and> map_option df_promise (lt_defers latch_example 1) = Some PromisePending"
  using latch_reachable_ok [OF example_reachable] by (simp add: latch_example_def defer_new_def)

section \<open>Opening\<close>

definition latch_promise :: "nat \<Rightarrow> latch_world \<Rightarrow> unit promise option" where
  "latch_promise t w = map_option df_promise (lt_defers w t)"

definition count_downs :: "nat list \<Rightarrow> latch_world \<Rightarrow> latch_world" where
  "count_downs ns w = fold (\<lambda>n w. fst (latch_countDown (JNum (Fin (of_nat n))) w)) ns w"

lemma countDown_nat:
  "latch_countDown (JNum (Fin (of_nat n))) w =
     (if n = 0 then (w, Inr (lt_count w))
      else if n < lt_count w then (w\<lparr>lt_count := lt_count w - n\<rparr>, Inr (lt_count w - n))
      else (latch_resolveAll (w\<lparr>lt_count := 0\<rparr>), Inr (lt_count (latch_resolveAll (w\<lparr>lt_count := 0\<rparr>)))))"
  by (simp add: latch_countDown_def default_to_def latch_dec_def Let_def)

lemma count_downs_Cons:
  "count_downs (n # ns) w = count_downs ns
     (if n = 0 then w else if n < lt_count w then w\<lparr>lt_count := lt_count w - n\<rparr>
      else latch_resolveAll (w\<lparr>lt_count := 0\<rparr>))"
  using countDown_nat [of n w] by (simp add: count_downs_def)

lemma pending_waiter:
  assumes "latch_ok w" "jm_get t (lt_waiters w) \<noteq> None"
  shows "latch_promise t w = Some PromisePending"
proof -
  note core = latch_okD(1) [OF assms(1)]
  obtain d where d: "lt_defers w t = Some d" using coreD(4) [OF core assms(2)] by blast
  then have "deferred_ok d" "\<not> df_settled d" using coreD(5,6) [OF core d] assms(2) by auto
  then show ?thesis using d by (auto simp: latch_promise_def deferred_ok_def split: defer_status.splits)
qed

lemma resolve_waiter:
  assumes "latch_ok w" "jm_get t (lt_waiters w) \<noteq> None"
  shows "latch_promise t (latch_resolveAll (w\<lparr>lt_count := 0\<rparr>)) = Some (PromiseFulfilled ())"
proof -
  have core: "latch_core (w\<lparr>lt_count := 0\<rparr>)"
    using latch_okD(1) [OF assms(1)] by (simp add: core_frame [of "w\<lparr>lt_count := 0\<rparr>" w])
  obtain d where d: "lt_defers w t = Some d" using coreD(4) [OF latch_okD(1) [OF assms(1)] assms(2)] by blast
  then have "\<not> df_settled d" using coreD(6) [OF latch_okD(1) [OF assms(1)] d] assms(2) by auto
  then show ?thesis using d by (simp add: latch_promise_def latch_resolveAll_def settleAll_frame [OF core] defer_resolve_def)
qed

lemma promise_settled:
  assumes "latch_ok w" "jm_get t (lt_waiters w) = None" "settling f"
  shows "latch_promise t (latch_settleAll f (w\<lparr>lt_count := c\<rparr>)) = latch_promise t w"
proof -
  have core: "latch_core (w\<lparr>lt_count := c\<rparr>)"
    using latch_okD(1) [OF assms(1)] by (simp add: core_frame [of "w\<lparr>lt_count := c\<rparr>" w])
  show ?thesis
    using coreD(6) [OF latch_okD(1) [OF assms(1)], of t] assms(2) settlingD(3) [OF assms(3)]
    by (cases "lt_defers w t") (simp_all add: latch_promise_def settleAll_frame [OF core assms(3)])
qed

lemma count_downs_open:
  assumes "latch_ok w" "lt_count w = 0"
  shows "lt_count (count_downs ns w) = 0 \<and> lt_waiters (count_downs ns w) = [] \<and>
     latch_promise t (count_downs ns w) = latch_promise t w"
  using assms
proof (induction ns arbitrary: w)
  case (Cons n ns)
  have nil: "lt_waiters w = []" using Cons.prems by (simp add: latch_ok_def)
  let ?w = "latch_resolveAll (w\<lparr>lt_count := 0\<rparr>)"
  have "latch_ok ?w" using ok_zero [OF Cons.prems(1)] by (simp add: latch_resolveAll_def)
  moreover have "lt_count ?w = 0"
    using Cons.prems(1) by (simp add: latch_resolveAll_def latch_okD core_frame [of "w\<lparr>lt_count := 0\<rparr>" w])
  moreover have "latch_promise t ?w = latch_promise t w"
    using promise_settled [OF Cons.prems(1)] nil by (simp add: latch_resolveAll_def jm_get_def)
  ultimately show ?case using Cons.IH [of ?w] Cons.IH [OF Cons.prems] Cons.prems(2)
    by (simp add: count_downs_Cons)
qed (simp add: count_downs_def latch_ok_def)

lemma ok_count_downs: "latch_ok w \<Longrightarrow> latch_ok (count_downs ns w)"
  by (induction ns arbitrary: w) (simp_all add: count_downs_def ok_countDown)

lemma count_downs_result:
  assumes "latch_ok w" "jm_get t (lt_waiters w) \<noteq> None"
  shows "lt_count (count_downs ns w) = lt_count w - sum_list ns \<and>
     (if lt_count w \<le> sum_list ns
      then latch_promise t (count_downs ns w) = Some (PromiseFulfilled ()) \<and> lt_waiters (count_downs ns w) = []
      else latch_promise t (count_downs ns w) = Some PromisePending)"
  using assms
proof (induction ns arbitrary: w)
  case Nil
  have "0 < lt_count w" using Nil by (cases "lt_count w = 0") (auto simp: latch_ok_def jm_get_def)
  then show ?case using pending_waiter [OF Nil] by (simp add: count_downs_def)
next
  case (Cons n ns)
  consider "n = 0" | "0 < n" "n < lt_count w" | "0 < n" "lt_count w \<le> n" by linarith
  then show ?case
  proof cases
    case 1
    then show ?thesis using Cons.IH [OF Cons.prems] by (simp add: count_downs_Cons)
  next
    case 2
    have "latch_ok (w\<lparr>lt_count := lt_count w - n\<rparr>)" using ok_count [OF Cons.prems(1)] 2 by simp
    from Cons.IH [OF this] Cons.prems(2) 2 show ?thesis
      by (simp add: count_downs_Cons diff_diff_left le_diff_conv add.commute)
  next
    case 3
    let ?w = "latch_resolveAll (w\<lparr>lt_count := 0\<rparr>)"
    have "latch_ok ?w" using ok_zero [OF Cons.prems(1)] by (simp add: latch_resolveAll_def)
    moreover have "lt_count ?w = 0"
      using Cons.prems(1) by (simp add: latch_resolveAll_def latch_okD core_frame [of "w\<lparr>lt_count := 0\<rparr>" w])
    moreover have "count_downs (n # ns) w = count_downs ns ?w" using 3 by (simp add: count_downs_Cons)
    ultimately show ?thesis using count_downs_open [of ?w ns t] resolve_waiter [OF Cons.prems] 3 by simp
  qed
qed

text \<open>
  C19. Counting down: after any sequence of \<open>countDown\<close> calls the count is what is left of it, and a
  promise that was waiting is still pending when something is left and fulfilled as soon as
  nothing is; then no waiter, timer or listener remains.
\<close>

theorem latch_opens_at_zero:
  assumes "latch_reachable w" "jm_get t (lt_waiters w) \<noteq> None"
  shows "lt_count (count_downs ns w) = lt_count w - sum_list ns \<and>
     (if lt_count w \<le> sum_list ns
      then latch_promise t (count_downs ns w) = Some (PromiseFulfilled ()) \<and> lt_waiters (count_downs ns w) = [] \<and>
        lt_timers (count_downs ns w) = {} \<and> lt_listeners (count_downs ns w) = {}
      else latch_promise t (count_downs ns w) = Some PromisePending)"
proof -
  note ok = ok_reachable [OF assms(1)]
  show ?thesis using count_downs_result [OF ok assms(2), of ns] ok_no_waiters [OF ok_count_downs [OF ok, of ns]]
    by (auto split: if_splits)
qed

lemma latch_opens_at_zero_witness:
  "latch_promise 1 (count_downs [1] latch_example) = Some PromisePending \<and>
   latch_promise 1 (count_downs [1, 1] latch_example) = Some (PromiseFulfilled ())"
  using latch_opens_at_zero [OF example_reachable, of 1 "[1]"] latch_opens_at_zero [OF example_reachable, of 1 "[1, 1]"]
  by (simp add: latch_example_def jm_get_def)

section \<open>Settling of promises\<close>

lemma core_flags:
  assumes "latch_ok w"
  shows "latch_core (w\<lparr>lt_count := c\<rparr>)" "latch_core (w\<lparr>lt_disposed := True, lt_count := c\<rparr>)"
    "latch_core (w\<lparr>lt_aborted := True, lt_abortReason := r\<rparr>)"
    "latch_core (w\<lparr>lt_aborted := True, lt_abortReason := r, lt_onAbortCalls := cs\<rparr>)"
  using latch_okD(1) [OF assms]
    core_frame [of "w\<lparr>lt_count := c\<rparr>" w] core_frame [of "w\<lparr>lt_disposed := True, lt_count := c\<rparr>" w]
    core_frame [of "w\<lparr>lt_aborted := True, lt_abortReason := r\<rparr>" w]
    core_frame [of "w\<lparr>lt_aborted := True, lt_abortReason := r, lt_onAbortCalls := cs\<rparr>" w]
  by simp_all

definition settled_by :: "latch_world \<Rightarrow> latch_world \<Rightarrow> nat \<Rightarrow> bool" where
  "settled_by w w' t \<longleftrightarrow>
     lt_defers w' t = lt_defers w t \<or> (\<exists>e. lt_defers w' t = map_option (defer_reject e) (lt_defers w t))"

definition opened_by :: "latch_world \<Rightarrow> latch_world \<Rightarrow> nat \<Rightarrow> bool" where
  "opened_by w w' t \<longleftrightarrow>
     lt_defers w' t = map_option (defer_resolve ()) (lt_defers w t) \<and> lt_count w' = 0"

lemma countDown_defers:
  assumes "latch_ok w"
  shows "settled_by w (fst (latch_countDown n w)) t \<or> opened_by w (fst (latch_countDown n w)) t"
proof (cases rule: countDown_cases [of n w])
  case 4
  then show ?thesis
    by (simp add: opened_by_def latch_resolveAll_def settleAll_frame [OF core_flags(1) [OF assms]])
qed (simp_all add: settled_by_def)

lemma reset_defers:
  assumes "latch_ok w"
  shows "settled_by w (fst (latch_reset n w)) t \<or> opened_by w (fst (latch_reset n w)) t"
proof (cases "lt_disposed w")
  case False
  show ?thesis
  proof (cases "latch_limit (default_to (JNum (Fin 1)) n) 1")
    case (Inr c)
    then show ?thesis using False
      by (cases "c = 0") (simp_all add: latch_reset_def Let_def opened_by_def settled_by_def latch_resolveAll_def
          settleAll_frame [OF core_flags(1) [OF assms]])
  qed (use False in \<open>simp add: latch_reset_def settled_by_def\<close>)
qed (simp add: latch_reset_def settled_by_def)

lemma reject_defers:
  assumes "latch_ok w"
  shows "settled_by w (latch_abort reason w) t" "settled_by w (latch_dispose w) t"
  using settleAll_frame(9) [OF core_flags(2) [OF assms]] settleAll_frame(9) [OF core_flags(3) [OF assms]]
    settleAll_frame(9) [OF core_flags(4) [OF assms]]
  by (auto simp: settled_by_def latch_abort_def latch_dispose_def latch_rejectAll_def Let_def)

lemma wait_defers:
  assumes "latch_ok w" "lt_defers w t \<noteq> None"
  shows "settled_by w (fst (latch_wait opts w)) t"
proof (cases rule: wait_cases [of opts w])
  case (2 wt)
  have "t \<noteq> lt_nextWaiterToken w" using coreD(3) [OF latch_okD(1) [OF assms(1)], of t] assms(2) by simp
  then show ?thesis using 2 by (simp add: settled_by_def latch_enlist_def Let_def)
qed (simp add: settled_by_def)

lemma drop_defers: "settled_by w (latch_drop u (defer_reject e) w) t"
  by (cases "t = u") (auto simp: settled_by_def latch_drop_def)

lemma step_defers:
  assumes "latch_step w ev w'" "latch_ok w" "lt_defers w t \<noteq> None"
  shows "settled_by w w' t \<or>
     opened_by w w' t \<and> (\<exists>n. ev = CountDown n \<or> ev = DecrementUnlessZero \<or> ev = ResetTo n)"
  using assms
proof (induction rule: latch_step.induct)
  case (decrements w)
  then show ?case
    using countDown_defers [of w _ t] by (auto simp: latch_decrementUnlessZero_def settled_by_def [of w w])
next
  case (times_out u w)
  then show ?case by (simp add: fires_eq(1) [OF latch_okD(1)] drop_defers)
next
  case (signals i u w reason)
  then show ?case by (simp add: fires_eq(2) [OF latch_okD(1)] drop_defers)
next
  case (sets w fn)
  then show ?case by (simp add: settled_by_def latch_set_onAbort_def)
qed (use countDown_defers reset_defers reject_defers wait_defers in blast)+

text \<open>
  A promise settles once: in a reachable state no step changes one that has settled, and one
  that a step fulfils was pending and had its latch brought to zero by that step, by counting
  down or by a reset.
\<close>

theorem latch_settles_once:
  assumes "latch_reachable w" "latch_step w ev w'" "lt_defers w t = Some d"
  shows "(df_settled d \<longrightarrow> lt_defers w' t = Some d) \<and>
     (\<not> df_settled d \<longrightarrow> latch_promise t w' = Some (PromiseFulfilled ()) \<longrightarrow>
        lt_count w' = 0 \<and> (\<exists>n. ev = CountDown n \<or> ev = DecrementUnlessZero \<or> ev = ResetTo n))"
proof -
  note ok = ok_reachable [OF assms(1)]
  have d: "deferred_ok d" by (rule coreD(5) [OF latch_okD(1) [OF ok] assms(3)])
  show ?thesis using step_defers [OF assms(2) ok, of t] assms(3) d
    by (auto simp: settled_by_def opened_by_def settlingD(3) latch_promise_def defer_reject_def deferred_ok_def
        split: defer_status.splits)
qed

lemma latch_settles_once_witness:
  "lt_defers (latch_timeout_fires 1 latch_example) 1 =
     Some \<lparr>df_settled = True, df_status = Rejected, df_promise = PromiseRejected err_timeout\<rparr> \<and>
   lt_defers (fst (latch_countDown (JNum (Fin 2)) (latch_timeout_fires 1 latch_example))) 1 =
     lt_defers (latch_timeout_fires 1 latch_example) 1"
proof -
  let ?w = "latch_timeout_fires 1 latch_example"
  have d: "lt_defers ?w 1 = Some \<lparr>df_settled = True, df_status = Rejected, df_promise = PromiseRejected err_timeout\<rparr>"
    by (simp add: latch_timeout_fires_def latch_example_def latch_settle_def latch_removeWaiter_def jm_get_def
        latch_detach_def defer_reject_def defer_new_def)
  have "latch_reachable ?w"
    by (rule latch_reachable.step [OF example_reachable latch_step.times_out]) (simp add: latch_example_def)
  from latch_settles_once [OF this latch_step.counts d, of "JNum (Fin 2)"] d show ?thesis by simp
qed

end
