(* ===== verification/Sketch.thy ===== *)
theory Sketch
  imports LimiterClock "HOL-Library.Word"
begin

text \<open>
  The frequency sketch of the cache's admission filter (\<open>src/utils/smallLfu.js\<close>) and the
  cardinality estimate that sets its ageing period (\<open>src/utils/hyperLogLog.js\<close>).  Hashes are
  \<open>32 word\<close>s and the packed counters bytes; a key is the UTF-16 code units of \<open>String(key)\<close>, or
  the identity of an object.  \<open>js_log\<close> is the host's \<open>Math.js_log\<close>, used by one estimate only.
\<close>

unbundle bit_operations_syntax

type_synonym u32 = "32 word"

section \<open>Hashing\<close>

text \<open>\<open>h ^ (h >>> 16)\<close> and the two rounds of \<open>Math.imul\<close> that both files share.\<close>

definition xor_shift16 :: "u32 \<Rightarrow> u32" where
  "xor_shift16 h = h XOR drop_bit 16 h"

definition mix32 :: "u32 \<Rightarrow> u32 \<Rightarrow> u32" where
  "mix32 h0 k =
     (let h1 = h0 + k;
          h2 = xor_shift16 h1 * 0x45d9f3b;
          h3 = xor_shift16 h2 * 0x45d9f3b
      in xor_shift16 h3)"

definition finalise :: "u32 \<Rightarrow> u32" where
  "finalise h0 =
     (let h1 = h0 + 0x9e3779b1;
          h2 = xor_shift16 h1 * 0x45d9f3b;
          h3 = xor_shift16 h2 * 0x45d9f3b
      in xor_shift16 h3)"

definition hashKey :: "16 word list \<Rightarrow> u32" where
  "hashKey text = foldl (\<lambda>h c. (h XOR ucast c) * 0x01000193) 0x811c9dc5 text"

section \<open>HyperLogLog\<close>

record hll =
  hl_registerCount :: nat
  hl_alpha :: rat
  hl_shift :: nat
  hl_maxRank :: nat
  hl_registers :: "nat list"
  hl_sparseEnabled :: bool
  hl_sparseThreshold :: nat
  hl_sparseSet :: "u32 list option"
  hl_dense :: bool

definition alphaFor :: "nat \<Rightarrow> rat" where
  "alphaFor m =
     (if m = 16 then 673 / 1000 else if m = 32 then 697 / 1000 else if m = 64 then 709 / 1000
      else (7213 / 10000) / (1 + (1079 / 1000) / of_nat m))"

text \<open>The number of bits of a number, and \<open>Math.log2\<close> of a power of two.\<close>

fun bit_len :: "nat \<Rightarrow> nat" where
  "bit_len n = (if n = 0 then 0 else Suc (bit_len (n div 2)))"

declare bit_len.simps [simp del]

definition clz32 :: "u32 \<Rightarrow> nat" where
  "clz32 x = 32 - bit_len (unat x)"

definition DEFAULT_REGISTER_COUNT :: nat where "DEFAULT_REGISTER_COUNT = 64"

definition hll_new :: "js_val \<Rightarrow> js_val \<Rightarrow> hll result" where
  "hll_new registerCount options =
     (case to_number (default_to (JNum (Fin (of_nat DEFAULT_REGISTER_COUNT))) registerCount) of
        Inl e \<Rightarrow> Inl e
      | Inr n \<Rightarrow>
          if \<not> is_integer n \<or> num_lt n (Fin 1) \<or> js_and \<lfloor>num_rat n\<rfloor> (\<lfloor>num_rat n\<rfloor> - 1) \<noteq> 0
          then Inl (TypeErr ''HyperLogLog'' ''registerCount'')
          else
            (let m = nat \<lfloor>num_rat n\<rfloor>;
                 shift = bit_len m - 1;
                 opts = (case options of JObj ps \<Rightarrow> options | _ \<Rightarrow> JObj []);
                 sparse = (get_prop ''sparse'' opts \<noteq> JBool False);
                 threshold = (case get_prop ''sparseThreshold'' opts of
                     JNum (Fin r) \<Rightarrow> (if 0 < r then nat \<lfloor>r\<rfloor> else m * 4) | _ \<Rightarrow> m * 4)
             in Inr \<lparr>hl_registerCount = m, hl_alpha = alphaFor m, hl_shift = shift, hl_maxRank = 32 - shift + 1,
                  hl_registers = replicate m 0, hl_sparseEnabled = sparse, hl_sparseThreshold = threshold,
                  hl_sparseSet = (if sparse then Some [] else None), hl_dense = \<not> sparse\<rparr>))"

text \<open>The update of one register, which \<open>addHash\<close> and \<open>_convertToDense\<close> both write out.\<close>

definition hll_bucket :: "hll \<Rightarrow> u32 \<Rightarrow> nat" where
  "hll_bucket s h = unat (h AND (word_of_nat (hl_registerCount s) - 1))"

definition hll_rank :: "hll \<Rightarrow> u32 \<Rightarrow> nat" where
  "hll_rank s h =
     (let bits = drop_bit (hl_shift s) h
      in if bits = 0 then hl_maxRank s else min (hl_maxRank s - 1) (clz32 bits - hl_shift s + 1))"

definition hll_observe :: "u32 \<Rightarrow> hll \<Rightarrow> hll" where
  "hll_observe h s =
     (let bucket = hll_bucket s h; rank = hll_rank s h
      in if hl_registers s ! bucket < rank then s\<lparr>hl_registers := (hl_registers s)[bucket := rank]\<rparr> else s)"

definition hll_convertToDense :: "hll \<Rightarrow> hll" where
  "hll_convertToDense s =
     (if hl_dense s then s
      else
        (let s1 = s\<lparr>hl_dense := True\<rparr> in
         case hl_sparseSet s1 of
           None \<Rightarrow> s1
         | Some hs \<Rightarrow> (foldl (\<lambda>t h. hll_observe h t) s1 hs)\<lparr>hl_sparseSet := None\<rparr>))"

definition hll_addHash :: "u32 \<Rightarrow> hll \<Rightarrow> hll" where
  "hll_addHash hash s =
     (let h = finalise hash in
      case (hl_dense s, hl_sparseSet s) of
        (False, Some hs) \<Rightarrow>
          (let hs1 = (if h \<in> set hs then hs else hs @ [h]); s1 = s\<lparr>hl_sparseSet := Some hs1\<rparr>
           in if hl_sparseThreshold s1 < length hs1 then hll_convertToDense s1 else s1)
      | _ \<Rightarrow> hll_observe h s)"

definition hll_cardinality :: "(rat \<Rightarrow> rat) \<Rightarrow> hll \<Rightarrow> int" where
  "hll_cardinality js_log s =
     (case (hl_dense s, hl_sparseSet s) of
        (False, Some hs) \<Rightarrow> int (length hs)
      | _ \<Rightarrow>
          (let sum = (\<Sum>r\<leftarrow>hl_registers s. 1 / 2 ^ r);
               zeros = length (filter (\<lambda>r. r = 0) (hl_registers s));
               m = rat_of_nat (hl_registerCount s)
           in if zeros = hl_registerCount s then 0
              else if 0 < zeros then
                (let raw = hl_alpha s * m * m / sum
                 in if raw \<le> m * (5 / 2) then max 1 (js_round (m * js_log (m / of_nat zeros))) else js_round raw)
              else js_round (hl_alpha s * m * m / sum)))"

definition hll_reset :: "hll \<Rightarrow> hll" where
  "hll_reset s =
     (let s1 = s\<lparr>hl_registers := replicate (length (hl_registers s)) 0\<rparr>
      in if hl_sparseEnabled s1 then s1\<lparr>hl_sparseSet := Some [], hl_dense := False\<rparr> else s1)"

definition hll_isDense :: "hll \<Rightarrow> bool" where
  "hll_isDense s = hl_dense s"

section \<open>The sketch\<close>

datatype sketch_key = TextKey "16 word list" | ObjectKey nat

record lfu_sketch =
  sk_width :: nat
  sk_depth :: nat
  sk_mask :: u32
  sk_sampleSize :: js_num
  sk_counters :: "8 word list"
  sk_sample :: nat
  sk_resets :: nat
  sk_seed :: u32
  sk_hll :: hll
  sk_ids :: "nat \<Rightarrow> nat option"
  sk_nextId :: nat

definition DEFAULT_WIDTH :: rat where "DEFAULT_WIDTH = 64"
definition DEFAULT_DEPTH :: rat where "DEFAULT_DEPTH = 4"
definition DEFAULT_SAMPLE_SIZE :: rat where "DEFAULT_SAMPLE_SIZE = 10"

text \<open>\<open>Math.floor(Number(v) || d)\<close>.\<close>

definition floor_or :: "js_num \<Rightarrow> rat \<Rightarrow> js_num" where
  "floor_or n d = (case n of NaN \<Rightarrow> Fin d | Fin r \<Rightarrow> Fin (of_int \<lfloor>if r = 0 then d else r\<rfloor>) | _ \<Rightarrow> n)"

text \<open>\<open>1 << Math.ceil(Math.log2(n))\<close>, the exponent taken modulo 32 and 0 for infinity.\<close>

definition shl_ceil_log2 :: "js_num \<Rightarrow> int" where
  "shl_ceil_log2 n =
     (case n of Fin r \<Rightarrow> to_int32 (2 ^ (bit_len (nat \<lfloor>r\<rfloor> - 1) mod 32)) | _ \<Rightarrow> 1)"

definition sketch_seed :: "js_val \<Rightarrow> u32 \<Rightarrow> u32" where
  "sketch_seed seed random =
     (case seed of JNum (Fin r) \<Rightarrow> word_of_int (if 0 \<le> r then \<lfloor>r\<rfloor> else \<lceil>r\<rceil>) | _ \<Rightarrow> random)"

definition sketch_width :: "js_num \<Rightarrow> nat" where
  "sketch_width n = nat (max 2 (shl_ceil_log2 (num_max (Fin 2) (floor_or n DEFAULT_WIDTH))))"

definition sketch_depth :: "js_num \<Rightarrow> nat" where
  "sketch_depth n = (case floor_or n DEFAULT_DEPTH of Fin r \<Rightarrow> nat (max 1 (min 8 \<lfloor>r\<rfloor>)) | PosInf \<Rightarrow> 8 | _ \<Rightarrow> 1)"

definition sketch_new :: "js_val \<Rightarrow> js_val \<Rightarrow> js_val \<Rightarrow> js_val \<Rightarrow> u32 \<Rightarrow> lfu_sketch result" where
  "sketch_new width depth sampleSize seed random =
     (case to_number (default_to (JNum (Fin DEFAULT_WIDTH)) width) of
        Inl e \<Rightarrow> Inl e
      | Inr wn \<Rightarrow>
     (case to_number (default_to (JNum (Fin DEFAULT_DEPTH)) depth) of
        Inl e \<Rightarrow> Inl e
      | Inr dn \<Rightarrow>
     (case to_number (default_to (JNum (Fin DEFAULT_SAMPLE_SIZE)) sampleSize) of
        Inl e \<Rightarrow> Inl e
      | Inr sn \<Rightarrow>
          (let w = sketch_width wn; d = sketch_depth dn
           in case hll_new JUndefined JUndefined of
                Inl e \<Rightarrow> Inl e
              | Inr h \<Rightarrow>
                  Inr \<lparr>sk_width = w, sk_depth = d, sk_mask = word_of_nat (w - 1),
                    sk_sampleSize = num_max (Fin 1) (floor_or sn DEFAULT_SAMPLE_SIZE),
                    sk_counters = replicate (nat (int (w * d) mod 2 ^ 32 div 2)) 0, sk_sample = 0, sk_resets = 0,
                    sk_seed = sketch_seed seed random, sk_hll = h, sk_ids = Map.empty, sk_nextId = 0\<rparr>))))"

text \<open>\<open>_hash\<close>: an object is known by a number handed out once.\<close>

definition sketch_hash :: "sketch_key \<Rightarrow> lfu_sketch \<Rightarrow> lfu_sketch \<times> u32" where
  "sketch_hash key s =
     (case key of
        TextKey text \<Rightarrow> (s, hashKey text)
      | ObjectKey ob \<Rightarrow>
          (case sk_ids s ob of
             Some i \<Rightarrow> (s, word_of_nat i)
           | None \<Rightarrow> (s\<lparr>sk_nextId := sk_nextId s + 1, sk_ids := (sk_ids s)(ob \<mapsto> sk_nextId s)\<rparr>,
                      word_of_nat (sk_nextId s))))"

definition sketch_size :: "lfu_sketch \<Rightarrow> nat" where
  "sketch_size s = length (sk_counters s)"

definition sketch_indexFor :: "lfu_sketch \<Rightarrow> u32 \<Rightarrow> nat \<Rightarrow> int" where
  "sketch_indexFor s hash row =
     to_int32 (int (row * sk_width s) +
       uint (mix32 hash (sk_seed s + word_of_nat row * 0x9e3779b1) AND sk_mask s))"

text \<open>Reading outside a typed array gives \<open>undefined\<close>, which is 0 to the bitwise operators; writing there does nothing.\<close>

definition sketch_get :: "8 word list \<Rightarrow> int \<Rightarrow> 8 word" where
  "sketch_get cs index =
     (let pos = index div 2; byte = (if 0 \<le> pos \<and> pos < int (length cs) then cs ! nat pos else 0)
      in if odd index then drop_bit 4 byte else byte AND 0x0f)"

definition sketch_set :: "int \<Rightarrow> 8 word \<Rightarrow> 8 word list \<Rightarrow> 8 word list" where
  "sketch_set index value cs =
     (let pos = index div 2; byte = (if 0 \<le> pos \<and> pos < int (length cs) then cs ! nat pos else 0);
          new = (if odd index then (byte AND 0x0f) OR push_bit 4 (value AND 0x0f)
                 else (byte AND 0xf0) OR (value AND 0x0f))
      in if 0 \<le> pos \<and> pos < int (length cs) then cs[nat pos := new] else cs)"

definition sketch_bump :: "u32 \<Rightarrow> nat \<Rightarrow> lfu_sketch \<Rightarrow> lfu_sketch" where
  "sketch_bump hash row s =
     (let i = sketch_indexFor s hash row; v = sketch_get (sk_counters s) i
      in if v < 15 then s\<lparr>sk_counters := sketch_set i (v + 1) (sk_counters s)\<rparr> else s)"

text \<open>
  \<open>reset\<close>: every counter is halved, four bytes at a time through a view of 32-bit words, the
  bytes left over one by one.
\<close>

definition halve_word :: "u32 \<Rightarrow> u32" where
  "halve_word w = (drop_bit 1 w AND 0x07070707) OR push_bit 4 (drop_bit 5 w AND 0x07070707)"

definition halve_byte :: "8 word \<Rightarrow> 8 word" where
  "halve_byte b = (drop_bit 1 b AND 0x07) OR push_bit 4 (drop_bit 5 b AND 0x07)"

definition word_of_bytes :: "8 word \<Rightarrow> 8 word \<Rightarrow> 8 word \<Rightarrow> 8 word \<Rightarrow> u32" where
  "word_of_bytes a b c d = ucast a OR push_bit 8 (ucast b) OR push_bit 16 (ucast c) OR push_bit 24 (ucast d)"

definition bytes_of_word :: "u32 \<Rightarrow> 8 word list" where
  "bytes_of_word w = [ucast w, ucast (drop_bit 8 w), ucast (drop_bit 16 w), ucast (drop_bit 24 w)]"

fun halve_counters :: "8 word list \<Rightarrow> 8 word list" where
  "halve_counters (a # b # c # d # cs) =
     bytes_of_word (halve_word (word_of_bytes a b c d)) @ halve_counters cs"
| "halve_counters cs = map halve_byte cs"

definition sketch_reset :: "(rat \<Rightarrow> rat) \<Rightarrow> lfu_sketch \<Rightarrow> lfu_sketch" where
  "sketch_reset js_log s =
     (let s1 = s\<lparr>sk_counters := halve_counters (sk_counters s), sk_resets := sk_resets s + 1\<rparr>;
          cardinality = hll_cardinality js_log (sk_hll s1)
      in s1\<lparr>sk_hll := hll_reset (sk_hll s1),
           sk_sampleSize := Fin (of_int (min (max 10 (10 * cardinality)) (int (4 * sk_width s * sk_depth s))))\<rparr>)"

definition sketch_increment :: "(rat \<Rightarrow> rat) \<Rightarrow> sketch_key \<Rightarrow> lfu_sketch \<Rightarrow> lfu_sketch" where
  "sketch_increment js_log key s =
     (let (s1, hash) = sketch_hash key s;
          s2 = foldl (\<lambda>t row. sketch_bump hash row t) s1 [0..<sk_depth s1];
          s3 = s2\<lparr>sk_hll := hll_addHash hash (sk_hll s2), sk_sample := sk_sample s2 + 1\<rparr>
      in if \<not> num_lt (Fin (of_nat (sk_sample s3))) (sk_sampleSize s3)
         then (sketch_reset js_log s3)\<lparr>sk_sample := 0\<rparr> else s3)"

definition sketch_estimate :: "sketch_key \<Rightarrow> lfu_sketch \<Rightarrow> lfu_sketch \<times> 8 word" where
  "sketch_estimate key s =
     (let (s1, hash) = sketch_hash key s
      in (s1, foldl (\<lambda>m row. let v = sketch_get (sk_counters s1) (sketch_indexFor s1 hash row)
                               in if v < m then v else m) 15 [0..<sk_depth s1]))"

definition sketch_clear :: "lfu_sketch \<Rightarrow> lfu_sketch" where
  "sketch_clear s = s\<lparr>sk_counters := replicate (length (sk_counters s)) 0, sk_sample := 0, sk_resets := 0\<rparr>"

section \<open>Packed counters\<close>

lemma below8: "(n::nat) < 8 \<longleftrightarrow> n = 0 \<or> n = 1 \<or> n = 2 \<or> n = 3 \<or> n = 4 \<or> n = 5 \<or> n = 6 \<or> n = 7"
  by arith

text \<open>Bit by bit over the eight bits of a byte.\<close>

lemma byte_eqI:
  fixes a b :: "8 word"
  assumes "bit a 0 = bit b 0" "bit a 1 = bit b 1" "bit a 2 = bit b 2" "bit a 3 = bit b 3"
    "bit a 4 = bit b 4" "bit a 5 = bit b 5" "bit a 6 = bit b 6" "bit a 7 = bit b 7"
  shows "a = b"
  by (rule bit_word_eqI) (use assms in \<open>auto simp: below8\<close>)

lemma byte_high [simp]: "8 \<le> n \<Longrightarrow> \<not> bit (b :: 8 word) n"
  using bit_imp_le_length [of b n] by auto

lemma halve_word_bytes:
  "bytes_of_word (halve_word (word_of_bytes a b c d)) = [halve_byte a, halve_byte b, halve_byte c, halve_byte d]"
  unfolding bytes_of_word_def halve_word_def word_of_bytes_def halve_byte_def
  by (intro list.inject [THEN iffD2] conjI refl byte_eqI; simp add: bit_simps; simp add: numeral_2_eq_2 numeral_3_eq_3)

lemma halve_counters_map: "halve_counters cs = map halve_byte cs"
  by (induction cs rule: halve_counters.induct) (simp_all add: halve_word_bytes)

lemma nibble_of_halved:
  "halve_byte b AND 0x0f = drop_bit 1 (b AND 0x0f)" "drop_bit 4 (halve_byte b) = drop_bit 1 (drop_bit 4 b)"
  unfolding halve_byte_def by (rule byte_eqI; simp add: bit_simps)+

lemma get_halved: "sketch_get (halve_counters cs) i = drop_bit 1 (sketch_get cs i)"
  by (simp add: halve_counters_map sketch_get_def Let_def nibble_of_halved nat_less_iff)

lemma nibble_updates:
  fixes b v :: "8 word"
  shows "((b AND 0xf0) OR (v AND 0x0f)) AND 0x0f = v AND 0x0f"
    and "drop_bit 4 ((b AND 0xf0) OR (v AND 0x0f)) = drop_bit 4 b"
    and "((b AND 0x0f) OR push_bit 4 (v AND 0x0f)) AND 0x0f = b AND 0x0f"
    and "drop_bit 4 ((b AND 0x0f) OR push_bit 4 (v AND 0x0f)) = v AND 0x0f"
  by (rule byte_eqI; simp add: bit_simps)+

text \<open>The counters are an array of four-bit cells.\<close>

lemma get_set:
  assumes "0 \<le> i" "i < 2 * int (length cs)"
  shows "sketch_get (sketch_set i v cs) j = (if i = j then v AND 0x0f else sketch_get cs j)"
proof -
  define b where "b = cs ! nat (i div 2)"
  define new where "new = (if odd i then (b AND 0x0f) OR push_bit 4 (v AND 0x0f) else (b AND 0xf0) OR (v AND 0x0f))"
  have pos: "0 \<le> i div 2" "i div 2 < int (length cs)" using assms by auto
  have set: "sketch_set i v cs = cs[nat (i div 2) := new]"
    using pos by (simp only: sketch_set_def Let_def b_def new_def if_True conj_absorb simp_thms)
  show ?thesis
  proof (cases "i div 2 = j div 2")
    case True
    have get: "sketch_get (cs[nat (i div 2) := c]) j = (if odd j then drop_bit 4 c else c AND 0x0f)" for c
      using pos True by (simp add: sketch_get_def Let_def nat_less_iff)
    have old: "sketch_get cs j = (if odd j then drop_bit 4 b else b AND 0x0f)"
      using pos True by (simp add: sketch_get_def Let_def b_def)
    have half: "odd i = odd j \<longleftrightarrow> i = j" using True by (metis even_two_times_div_two odd_two_times_div_two_succ)
    show ?thesis unfolding set get old new_def
      using half by (cases "odd i"; cases "odd j"; simp only: nibble_updates simp_thms if_True if_False)
  next
    case False
    then have "nat (i div 2) \<noteq> nat (j div 2)" if "0 \<le> j div 2" using pos that by simp
    then show ?thesis using False by (auto simp: set sketch_get_def Let_def)
  qed
qed

lemma length_set [simp]: "length (sketch_set i v cs) = length cs"
  by (simp add: sketch_set_def Let_def)

lemma get_below_16: "unat (sketch_get cs i) < 16"
proof -
  have "unat (drop_bit 4 b) < 16" for b :: "8 word"
  proof -
    have "unat b < 2 ^ LENGTH(8)" by (rule unsigned_less)
    then show ?thesis by (simp add: drop_bit_eq_div unat_div_distrib less_mult_imp_div_less)
  qed
  moreover have "unat (b AND 0x0f) < 16" for b :: "8 word"
    using word_and_le1 [of b "0x0f"] by (simp add: word_le_nat_alt)
  ultimately show ?thesis by (simp add: sketch_get_def Let_def)
qed

section \<open>Mixing loses nothing\<close>

lemma xor_shift16_twice: "xor_shift16 (xor_shift16 h) = h"
  unfolding xor_shift16_def by (rule bit_word_eqI) (auto simp: bit_simps)

lemma mult_odd_inj: "a * 0x45d9f3b = b * 0x45d9f3b \<Longrightarrow> a = (b :: u32)"
proof -
  have inv: "(0x45d9f3b * 0x119de1f3 :: u32) = 1" by simp
  assume "a * 0x45d9f3b = b * 0x45d9f3b"
  then have "a * 0x45d9f3b * 0x119de1f3 = b * 0x45d9f3b * 0x119de1f3" by (simp only:)
  then show "a = b" by (simp only: mult.assoc inv mult_1_right)
qed

lemma finalise_inj: "inj finalise"
proof (rule injI)
  fix a b assume "finalise a = finalise b"
  then have "xor_shift16 (finalise a) = xor_shift16 (finalise b)" by simp
  then have "xor_shift16 (xor_shift16 (a + 0x9e3779b1) * 0x45d9f3b) = xor_shift16 (xor_shift16 (b + 0x9e3779b1) * 0x45d9f3b)"
    unfolding finalise_def Let_def xor_shift16_twice by (rule mult_odd_inj)
  then have "xor_shift16 (a + 0x9e3779b1) = xor_shift16 (b + 0x9e3779b1)"
    by (metis mult_odd_inj xor_shift16_twice)
  then show "a = b" by (metis add_right_cancel xor_shift16_twice)
qed

section \<open>The table of counts\<close>

definition sketch_ok :: "lfu_sketch \<Rightarrow> bool" where
  "sketch_ok s \<longleftrightarrow> 0 < sk_width s \<and> 0 < sk_depth s \<and> sk_mask s = word_of_nat (sk_width s - 1) \<and>
     int (sk_width s * sk_depth s) < 2 ^ 31 \<and> 2 * length (sk_counters s) = sk_width s * sk_depth s"

text \<open>The column of a hash in a row, and the count in its cell.\<close>

definition sketch_col :: "lfu_sketch \<Rightarrow> nat \<Rightarrow> u32 \<Rightarrow> nat" where
  "sketch_col s row h = unat (mix32 h (sk_seed s + word_of_nat row * 0x9e3779b1) AND sk_mask s)"

definition sketch_cell :: "lfu_sketch \<Rightarrow> nat \<Rightarrow> u32 \<Rightarrow> nat" where
  "sketch_cell s row h = unat (sketch_get (sk_counters s) (sketch_indexFor s h row))"

lemma width_small:
  assumes "sketch_ok s"
  shows "sk_width s < 2 ^ 31"
proof -
  have "sk_width s * 1 \<le> sk_width s * sk_depth s"
    by (rule mult_le_mono2) (use assms in \<open>simp add: sketch_ok_def\<close>)
  then have "int (sk_width s) \<le> int (sk_width s * sk_depth s)" by (simp only: of_nat_le_iff mult_1_right)
  moreover have "int (sk_width s * sk_depth s) < 2 ^ 31" using assms by (simp add: sketch_ok_def)
  ultimately show ?thesis by simp
qed

lemma col_less:
  assumes "sketch_ok s"
  shows "sketch_col s row h < sk_width s"
proof -
  have "sk_width s - 1 < 2 ^ 32" using width_small [OF assms] by simp
  then have u: "unat (word_of_nat (sk_width s - 1) :: u32) = sk_width s - 1"
    by (simp only: unat_of_nat) (simp add: take_bit_nat_eq_self)
  have mask: "sk_mask s = word_of_nat (sk_width s - 1)" and "0 < sk_width s"
    using assms unfolding sketch_ok_def by blast+
  moreover have "unat (sk_mask s) = sk_width s - 1" by (simp only: mask u)
  moreover have "sketch_col s row h \<le> unat (sk_mask s)"
    unfolding sketch_col_def using word_and_le1 word_le_nat_alt by blast
  ultimately show ?thesis by linarith
qed

lemma index_eq:
  assumes "sketch_ok s" "row < sk_depth s"
  shows "sketch_indexFor s h row = int (row * sk_width s + sketch_col s row h)"
    and "row * sk_width s + sketch_col s row h < 2 * length (sk_counters s)"
proof -
  have "row * sk_width s + sketch_col s row h < Suc row * sk_width s"
    using col_less [OF assms(1)] by simp
  also have "\<dots> \<le> sk_depth s * sk_width s" using assms(2) by (intro mult_le_mono1) simp
  finally have less: "row * sk_width s + sketch_col s row h < sk_width s * sk_depth s" by (simp add: mult.commute)
  then show "row * sk_width s + sketch_col s row h < 2 * length (sk_counters s)"
    using assms(1) by (simp add: sketch_ok_def)
  have "int (row * sk_width s + sketch_col s row h) < 2 ^ 31"
    using less assms(1) by (simp only: sketch_ok_def) linarith
  then show "sketch_indexFor s h row = int (row * sk_width s + sketch_col s row h)"
    unfolding sketch_indexFor_def
    by (subst to_int32_small) (simp_all add: sketch_col_def order_trans [OF _ add_nonneg_nonneg])
qed

lemma index_inj:
  assumes "sketch_ok s" "row < sk_depth s" "row' < sk_depth s"
  shows "sketch_indexFor s h row = sketch_indexFor s h' row' \<longleftrightarrow> row = row' \<and> sketch_col s row h = sketch_col s row' h'"
proof -
  have "row = (row * sk_width s + sketch_col s row h) div sk_width s" for row h
    using col_less [OF assms(1), of row h] by simp
  then show ?thesis using index_eq(1) [OF assms(1,2)] index_eq(1) [OF assms(1,3)] by (metis add_left_cancel of_nat_eq_iff)
qed

lemma bump_frame [simp]:
  "sk_width (sketch_bump h row s) = sk_width s" "sk_depth (sketch_bump h row s) = sk_depth s"
  "sk_mask (sketch_bump h row s) = sk_mask s" "sk_seed (sketch_bump h row s) = sk_seed s"
  "sk_sampleSize (sketch_bump h row s) = sk_sampleSize s" "sk_sample (sketch_bump h row s) = sk_sample s"
  "sk_ids (sketch_bump h row s) = sk_ids s" "sk_nextId (sketch_bump h row s) = sk_nextId s"
  "sk_hll (sketch_bump h row s) = sk_hll s"
  "length (sk_counters (sketch_bump h row s)) = length (sk_counters s)"
  by (simp_all add: sketch_bump_def Let_def)

lemma add_nibble:
  fixes v :: "8 word"
  assumes "v < 15"
  shows "unat ((v + 1) AND 0x0f) = unat v + 1"
proof -
  have u: "unat (v + 1) = unat v + 1" using assms by (simp add: word_less_nat_alt unat_word_ariths)
  have "(v + 1) AND 0x0f = take_bit 4 (v + 1)" by (simp add: take_bit_eq_mask mask_eq_exp_minus_1)
  then show ?thesis using u assms by (simp add: unsigned_take_bit_eq word_less_nat_alt take_bit_nat_eq_self)
qed

lemma bump_cell:
  assumes ok: "sketch_ok s" and row: "row < sk_depth s" "row' < sk_depth s"
  shows "sketch_cell (sketch_bump h row s) row' h' =
     (if row = row' \<and> sketch_col s row h = sketch_col s row' h'
      then min 15 (sketch_cell s row' h' + 1) else sketch_cell s row' h')"
proof -
  let ?v = "sketch_get (sk_counters s) (sketch_indexFor s h row)"
  have same: "sketch_indexFor (sketch_bump h row s) h' row' = sketch_indexFor s h' row'"
    by (simp add: sketch_indexFor_def)
  have rng: "0 \<le> sketch_indexFor s h row" "sketch_indexFor s h row < 2 * int (length (sk_counters s))"
    using index_eq [OF ok row(1), of h] by (simp_all only: of_nat_less_iff [symmetric, where ?'a = int])
  show ?thesis
  proof (cases "?v < 15")
    case True
    then have "sk_counters (sketch_bump h row s) = sketch_set (sketch_indexFor s h row) (?v + 1) (sk_counters s)"
      by (simp add: sketch_bump_def Let_def)
    then have "sketch_cell (sketch_bump h row s) row' h' = (if sketch_indexFor s h row = sketch_indexFor s h' row'
        then unat ?v + 1 else sketch_cell s row' h')"
      unfolding sketch_cell_def same using get_set [OF rng] add_nibble [OF True]
      by (cases "sketch_indexFor s h row = sketch_indexFor s h' row'") (simp_all only: simp_thms if_True if_False)
    moreover have "unat ?v + 1 \<le> 15" using True by (simp add: word_less_nat_alt)
    ultimately show ?thesis unfolding index_inj [OF ok row] sketch_cell_def
      using index_inj [OF ok row, of h h'] by (auto simp: min_def)
  next
    case False
    then have "sketch_bump h row s = s" "unat ?v = 15"
      using get_below_16 [of "sk_counters s" "sketch_indexFor s h row"]
      by (simp_all add: sketch_bump_def Let_def word_less_nat_alt)
    then show ?thesis using index_inj [OF ok row, of h h'] by (auto simp: sketch_cell_def)
  qed
qed

lemma bump_ok: "sketch_ok (sketch_bump h row s) = sketch_ok s"
  by (simp add: sketch_ok_def)

lemma bump_col: "sketch_col (sketch_bump h row s) row' h' = sketch_col s row' h'"
  by (simp add: sketch_col_def)

definition sketch_bumps :: "u32 \<Rightarrow> nat \<Rightarrow> lfu_sketch \<Rightarrow> lfu_sketch" where
  "sketch_bumps h n s = foldl (\<lambda>t row. sketch_bump h row t) s [0..<n]"

lemma bumps_frame [simp]:
  "sk_width (sketch_bumps h n s) = sk_width s" "sk_depth (sketch_bumps h n s) = sk_depth s"
  "sk_mask (sketch_bumps h n s) = sk_mask s" "sk_seed (sketch_bumps h n s) = sk_seed s"
  "sk_sampleSize (sketch_bumps h n s) = sk_sampleSize s" "sk_sample (sketch_bumps h n s) = sk_sample s"
  "sk_ids (sketch_bumps h n s) = sk_ids s" "sk_nextId (sketch_bumps h n s) = sk_nextId s"
  "sk_hll (sketch_bumps h n s) = sk_hll s"
  "length (sk_counters (sketch_bumps h n s)) = length (sk_counters s)"
  by (induction n) (simp_all add: sketch_bumps_def)

lemma bumps_cell:
  assumes "sketch_ok s" "n \<le> sk_depth s" "row < sk_depth s"
  shows "sketch_cell (sketch_bumps h n s) row h' =
     (if row < n \<and> sketch_col s row h = sketch_col s row h'
      then min 15 (sketch_cell s row h' + 1) else sketch_cell s row h')"
  using assms(2)
proof (induction n)
  case (Suc n)
  let ?t = "sketch_bumps h n s"
  have t: "sketch_ok ?t" "sketch_col ?t r x = sketch_col s r x" for r x
    using assms(1) by (simp_all add: sketch_ok_def sketch_col_def)
  have "sketch_bumps h (Suc n) s = sketch_bump h n ?t" by (simp add: sketch_bumps_def)
  then show ?case using bump_cell [OF t(1), of n row h h'] Suc assms(3) by (auto simp: t(2))
qed (simp add: sketch_bumps_def)

section \<open>Runs\<close>

definition sketch_run :: "(rat \<Rightarrow> rat) \<Rightarrow> sketch_key list \<Rightarrow> lfu_sketch \<Rightarrow> lfu_sketch" where
  "sketch_run lg ks s = foldl (\<lambda>t k. sketch_increment lg k t) s ks"

text \<open>The hashes that the increments of a run use.\<close>

fun run_hashes :: "(rat \<Rightarrow> rat) \<Rightarrow> sketch_key list \<Rightarrow> lfu_sketch \<Rightarrow> u32 list" where
  "run_hashes lg [] s = []"
| "run_hashes lg (k # ks) s = snd (sketch_hash k s) # run_hashes lg ks (sketch_increment lg k s)"

lemma hash_frame [simp]:
  "sk_width (fst (sketch_hash k s)) = sk_width s" "sk_depth (fst (sketch_hash k s)) = sk_depth s"
  "sk_mask (fst (sketch_hash k s)) = sk_mask s" "sk_seed (fst (sketch_hash k s)) = sk_seed s"
  "sk_sampleSize (fst (sketch_hash k s)) = sk_sampleSize s" "sk_sample (fst (sketch_hash k s)) = sk_sample s"
  "sk_counters (fst (sketch_hash k s)) = sk_counters s" "sk_hll (fst (sketch_hash k s)) = sk_hll s"
  by (auto simp: sketch_hash_def split: sketch_key.split option.split)

lemma increment_plain:
  assumes "num_lt (Fin (of_nat (sk_sample s + 1))) (sk_sampleSize s)"
  shows "sketch_increment lg k s =
     (let s2 = sketch_bumps (snd (sketch_hash k s)) (sk_depth s) (fst (sketch_hash k s))
      in s2\<lparr>sk_hll := hll_addHash (snd (sketch_hash k s)) (sk_hll s2), sk_sample := sk_sample s + 1\<rparr>)"
  using assms by (simp add: sketch_increment_def case_prod_unfold Let_def flip: sketch_bumps_def)

lemma increment_cell:
  assumes ok: "sketch_ok s" and more: "num_lt (Fin (of_nat (sk_sample s + 1))) (sk_sampleSize s)"
    and row: "row < sk_depth s"
  shows "sketch_cell (sketch_increment lg k s) row h =
     (if sketch_col s row (snd (sketch_hash k s)) = sketch_col s row h
      then min 15 (sketch_cell s row h + 1) else sketch_cell s row h)"
proof -
  let ?s = "fst (sketch_hash k s)" and ?h = "snd (sketch_hash k s)"
  have "sketch_ok ?s" using ok by (simp add: sketch_ok_def)
  moreover have "sketch_cell (sketch_increment lg k s) row h = sketch_cell (sketch_bumps ?h (sk_depth ?s) ?s) row h"
    by (simp add: increment_plain [OF more] Let_def sketch_cell_def sketch_indexFor_def)
  moreover have "sketch_col ?s r x = sketch_col s r x" "sketch_cell ?s r x = sketch_cell s r x" for r x
    by (simp_all add: sketch_col_def sketch_cell_def sketch_indexFor_def)
  ultimately show ?thesis using bumps_cell [of ?s "sk_depth ?s" row ?h h] row by simp
qed

lemma increment_frame:
  assumes more: "num_lt (Fin (of_nat (sk_sample s + 1))) (sk_sampleSize s)"
  shows "sk_sample (sketch_increment lg k s) = sk_sample s + 1" "sk_sampleSize (sketch_increment lg k s) = sk_sampleSize s"
    "sk_depth (sketch_increment lg k s) = sk_depth s" "sketch_ok (sketch_increment lg k s) = sketch_ok s"
    "sketch_col (sketch_increment lg k s) row h = sketch_col s row h"
  by (simp_all add: increment_plain [OF more] Let_def sketch_ok_def sketch_col_def)

lemma num_lt_mono: "num_lt (Fin a) n \<Longrightarrow> b \<le> a \<Longrightarrow> num_lt (Fin b) n"
  by (cases n) auto

lemma run_cell:
  assumes "sketch_ok s" "num_lt (Fin (of_nat (sk_sample s + length ks))) (sk_sampleSize s)" "row < sk_depth s"
  shows "sketch_cell (sketch_run lg ks s) row h =
       min 15 (sketch_cell s row h + length (filter (\<lambda>x. sketch_col s row x = sketch_col s row h) (run_hashes lg ks s))) \<and>
     sketch_ok (sketch_run lg ks s) \<and> sk_depth (sketch_run lg ks s) = sk_depth s"
  using assms
proof (induction ks arbitrary: s)
  case Nil
  then show ?case using get_below_16 [of "sk_counters s" "sketch_indexFor s h row"]
    by (simp add: sketch_run_def sketch_cell_def)
next
  case (Cons k ks)
  have more: "num_lt (Fin (of_nat (sk_sample s + 1))) (sk_sampleSize s)"
    by (rule num_lt_mono [OF Cons.prems(2)]) simp
  note fr = increment_frame [OF more, of lg k]
  have run: "sketch_run lg (k # ks) s = sketch_run lg ks (sketch_increment lg k s)" by (simp add: sketch_run_def)
  show ?case using Cons.IH [of "sketch_increment lg k s"] Cons.prems increment_cell [OF Cons.prems(1) more Cons.prems(3), of lg k h]
    by (auto simp: run fr min_def)
qed

text \<open>A key keeps the hash it was first given.\<close>

definition key_known :: "sketch_key \<Rightarrow> lfu_sketch \<Rightarrow> bool" where
  "key_known k s \<longleftrightarrow> (case k of TextKey t \<Rightarrow> True | ObjectKey ob \<Rightarrow> sk_ids s ob \<noteq> None)"

lemma increment_ids:
  "sk_ids (sketch_increment lg k s) = sk_ids (fst (sketch_hash k s))"
  by (simp add: sketch_increment_def case_prod_unfold Let_def sketch_reset_def flip: sketch_bumps_def)

lemma hash_known:
  assumes "key_known k s"
  shows "key_known k (sketch_increment lg k' s)" "snd (sketch_hash k (sketch_increment lg k' s)) = snd (sketch_hash k s)"
  using assms
  by (auto simp: key_known_def sketch_hash_def increment_ids split: sketch_key.splits option.splits)

lemma hash_first:
  "key_known k (sketch_increment lg k s)" "snd (sketch_hash k (sketch_increment lg k s)) = snd (sketch_hash k s)"
  by (auto simp: key_known_def sketch_hash_def increment_ids split: sketch_key.splits option.splits)

lemma hash_run:
  "key_known k s \<Longrightarrow> snd (sketch_hash k (sketch_run lg ks s)) = snd (sketch_hash k s)"
  by (induction ks arbitrary: s) (simp_all add: sketch_run_def hash_known)

lemma run_hashes_count:
  "count_list ks k \<le> length (filter (\<lambda>x. x = snd (sketch_hash k (sketch_run lg ks s))) (run_hashes lg ks s))"
proof (induction ks arbitrary: s)
  case (Cons k' ks)
  have run: "sketch_run lg (k' # ks) s = sketch_run lg ks (sketch_increment lg k' s)" by (simp add: sketch_run_def)
  show ?case using Cons.IH [of "sketch_increment lg k' s"] hash_run [OF hash_first(1) [of k lg s], of lg ks]
    by (auto simp: run hash_first)
qed simp

section \<open>Estimates\<close>

lemma estimate_min:
  "unat (snd (sketch_estimate k s)) =
     Min (insert 15 ((\<lambda>row. sketch_cell s row (snd (sketch_hash k s))) ` {..<sk_depth s}))"
proof -
  let ?h = "snd (sketch_hash k s)"
  have "unat (foldl (\<lambda>m row. let v = sketch_get (sk_counters s) (sketch_indexFor s ?h row) in if v < m then v else m) 15 [0..<n]) =
      Min (insert 15 ((\<lambda>row. sketch_cell s row ?h) ` {..<n}))" for n
  proof (induction n)
    case (Suc n)
    let ?c = "\<lambda>row. sketch_cell s row ?h"
    have "insert 15 (?c ` {..<Suc n}) = insert (?c n) (insert 15 (?c ` {..<n}))" by (auto simp: lessThan_Suc)
    then have "Min (insert 15 (?c ` {..<Suc n})) = min (?c n) (Min (insert 15 (?c ` {..<n})))" by simp
    then show ?case unfolding Suc.IH [symmetric]
      by (simp only: upt_Suc_append foldl_append foldl.simps le0 if_True Let_def)
        (simp add: word_less_nat_alt min_def sketch_cell_def)
  qed simp
  moreover have "sketch_indexFor (fst (sketch_hash k s)) ?h row = sketch_indexFor s ?h row" for row
    by (simp add: sketch_indexFor_def)
  ultimately show ?thesis by (simp add: sketch_estimate_def case_prod_unfold Let_def cong: if_cong)
qed

lemma filter_length_mono: "(\<And>x. P x \<Longrightarrow> Q x) \<Longrightarrow> length (filter P xs) \<le> length (filter Q xs)"
  by (induction xs) auto

lemma width_even: "e < 32 \<Longrightarrow> even (nat (max 2 (to_int32 (2 ^ e))))"
proof (cases "e = 31")
  case False
  assume "e < 32"
  then have "e \<le> 30" using False by simp
  then have "to_int32 (2 ^ e) = 2 ^ e" using pow2_le30 [of e] by (intro to_int32_small order_trans [OF _ zero_le_power]) simp_all
  then show ?thesis by (cases "e = 0") (auto simp: max_def even_nat_iff)
qed (simp add: to_int32_def)

lemma shl_even: "even (nat (max 2 (shl_ceil_log2 n)))"
  by (cases n) (simp_all add: shl_ceil_log2_def width_even)

lemma get_zero: "sketch_get (replicate n 0) i = 0"
  by (cases "0 \<le> i div 2 \<and> i div 2 < int n") (simp_all add: sketch_get_def Let_def nat_less_iff)

lemma sketch_new_ok:
  assumes new: "sketch_new width depth sampleSize seed random = Inr s" and small: "int (sk_width s * sk_depth s) < 2 ^ 31"
  shows "sketch_ok s" "sk_sample s = 0" "sketch_cell s row h = 0" "sk_sampleSize s \<noteq> NaN"
proof -
  obtain n w d r hl where s: "s = \<lparr>sk_width = sketch_width w, sk_depth = sketch_depth d,
      sk_mask = word_of_nat (sketch_width w - 1), sk_sampleSize = num_max (Fin 1) (floor_or n DEFAULT_SAMPLE_SIZE),
      sk_counters = replicate (nat (int (sketch_width w * sketch_depth d) mod 2 ^ 32 div 2)) 0,
      sk_sample = 0, sk_resets = 0, sk_seed = r, sk_hll = hl, sk_ids = Map.empty, sk_nextId = 0\<rparr>"
    using new by (auto simp: sketch_new_def Let_def split: sum.splits)
  have w: "even (sketch_width w)" "0 < sketch_width w" and d: "0 < sketch_depth d"
    by (simp_all add: sketch_width_def sketch_depth_def shl_even less_max_iff_disj split: js_num.split)
  have wd: "int (sketch_width w * sketch_depth d) < 2 ^ 31" using small by (simp add: s)
  then have "nat (int (sketch_width w * sketch_depth d) mod 2 ^ 32 div 2) = sketch_width w * sketch_depth d div 2" by (simp add: nat_div_distrib flip: of_nat_mult)
  then show "sketch_ok s" using w d wd by (simp add: sketch_ok_def s)
  show "sk_sample s = 0" by (simp add: s)
  show "sketch_cell s row h = 0" by (simp add: sketch_cell_def s get_zero)
  show "sk_sampleSize s \<noteq> NaN" by (auto simp: s num_max_def floor_or_def split: js_num.splits)
qed

text \<open>
  C20. The packed table is the table of counts: after any increments of a new sketch, before it
  ages, the estimate of a key is the least, over the rows, of the number of increments whose hash
  falls into the key's column there, at most 15.  It never counts a key less often than it came.
\<close>

theorem sketch_counts_collisions:
  assumes "sketch_new width depth sampleSize seed random = Inr s" "int (sk_width s * sk_depth s) < 2 ^ 31"
    and "num_lt (Fin (of_nat (length ks))) (sk_sampleSize s)"
  shows "let t = sketch_run lg ks s; h = snd (sketch_hash k t); hs = run_hashes lg ks s;
      hits = \<lambda>row. min 15 (length (filter (\<lambda>x. sketch_col s row x = sketch_col s row h) hs))
    in unat (snd (sketch_estimate k t)) = Min (hits ` {..<sk_depth s}) \<and>
       min 15 (count_list ks k) \<le> unat (snd (sketch_estimate k t))"
proof -
  define t where "t = sketch_run lg ks s"
  define h where "h = snd (sketch_hash k t)"
  define hits where "hits = (\<lambda>row. min 15 (length (filter (\<lambda>x. sketch_col s row x = sketch_col s row h) (run_hashes lg ks s))))"
  note new = sketch_new_ok [OF assms(1,2)]
  have cell: "sketch_cell t row h = hits row" if "row < sk_depth s" for row
    using run_cell [OF new(1), of ks row lg h] that assms(3) new(2,3) by (simp add: t_def hits_def)
  have depth: "sk_depth t = sk_depth s" "0 < sk_depth s"
    using run_cell [OF new(1), of ks 0 lg h] assms(3) new(1,2) by (auto simp: t_def sketch_ok_def)
  have "Min (insert 15 (hits ` {..<sk_depth s})) = Min (hits ` {..<sk_depth s})"
  proof -
    have "hits 0 \<in> hits ` {..<sk_depth s}" "hits 0 \<le> 15" using depth(2) by (auto simp: hits_def)
    then have "Min (hits ` {..<sk_depth s}) \<le> 15" by (meson Min_le finite_imageI finite_lessThan le_trans)
    then show ?thesis using depth(2) by (subst Min_insert) (auto simp: min_def)
  qed
  moreover have "(\<lambda>row. sketch_cell t row h) ` {..<sk_depth s} = hits ` {..<sk_depth s}" using cell by auto
  ultimately have est: "unat (snd (sketch_estimate k t)) = Min (hits ` {..<sk_depth s})"
    using estimate_min [of k t] depth(1) by (simp add: h_def)
  have "min 15 (count_list ks k) \<le> hits row" for row
  proof -
    have "count_list ks k \<le> length (filter (\<lambda>x. x = h) (run_hashes lg ks s))"
      using run_hashes_count [of ks k lg s] by (simp add: h_def t_def)
    also have "\<dots> \<le> length (filter (\<lambda>x. sketch_col s row x = sketch_col s row h) (run_hashes lg ks s))"
      by (rule filter_length_mono) simp
    finally show ?thesis by (simp add: hits_def min_def)
  qed
  then have "min 15 (count_list ks k) \<le> Min (hits ` {..<sk_depth s})"
    using depth(2) by (intro Min.boundedI) auto
  with est show ?thesis by (simp add: Let_def t_def h_def hits_def)
qed

text \<open>
  Ageing: \<open>reset\<close>, which halves four bytes of packed counters at a time through 32-bit words,
  halves the estimate of every key.
\<close>

theorem sketch_reset_halves:
  assumes "0 < sk_depth s"
  shows "unat (snd (sketch_estimate k (sketch_reset lg s))) = unat (snd (sketch_estimate k s)) div 2"
proof -
  let ?h = "snd (sketch_hash k s)" and ?R = "{..<sk_depth s}"
  have hash: "snd (sketch_hash k (sketch_reset lg s)) = ?h"
    by (auto simp: sketch_hash_def sketch_reset_def Let_def split: sketch_key.split option.split)
  have cell: "sketch_cell (sketch_reset lg s) row ?h = sketch_cell s row ?h div 2" for row
    by (simp add: sketch_cell_def sketch_reset_def Let_def sketch_indexFor_def get_halved drop_bit_eq_div unat_div_distrib)
  let ?C = "(\<lambda>row. sketch_cell s row ?h) ` ?R"
  have C: "finite ?C" "?C \<noteq> {}" "\<forall>c\<in>?C. c \<le> 15"
    using assms get_below_16 by (auto simp: sketch_cell_def less_Suc_eq_le [of _ 15, simplified])
  have drop15: "Min (insert 15 D) = Min D" if "finite D" "D \<noteq> {}" "\<forall>c\<in>D. c \<le> 15" for D :: "nat set"
  proof -
    have "Min D \<le> 15" using that Min_in by blast
    then show ?thesis unfolding Min_insert [OF that(1,2)] by (rule min_absorb2)
  qed
  have depth: "sk_depth (sketch_reset lg s) = sk_depth s" by (simp add: sketch_reset_def Let_def)
  have img: "(\<lambda>row. sketch_cell (sketch_reset lg s) row ?h) ` ?R = (\<lambda>c. c div 2) ` ?C"
    by (simp add: cell image_image)
  have "unat (snd (sketch_estimate k (sketch_reset lg s))) = Min (insert 15 ((\<lambda>c. c div 2) ` ?C))"
    using estimate_min [of k "sketch_reset lg s"] by (simp only: hash depth img)
  also have "\<dots> = Min ((\<lambda>c. c div 2) ` ?C)"
    by (rule drop15) (use C in \<open>auto intro: order_trans [OF div_le_dividend]\<close>)
  also have "\<dots> = Min ?C div 2"
    using C(1,2) by (intro mono_Min_commute [symmetric]) (auto simp: mono_def div_le_mono)
  also have "Min ?C = unat (snd (sketch_estimate k s))"
    using estimate_min [of k s] drop15 [OF C] by (simp only:)
  finally show ?thesis .
qed

section \<open>Cardinality\<close>

text \<open>The registers hold the greatest rank among the hashes of each bucket.\<close>

definition hll_covers :: "hll \<Rightarrow> u32 set \<Rightarrow> bool" where
  "hll_covers s H \<longleftrightarrow> 0 < hl_registerCount s \<and> hl_registerCount s < 2 ^ 32 \<and>
     length (hl_registers s) = hl_registerCount s \<and>
     (\<forall>b < hl_registerCount s. hl_registers s ! b = Max (insert 0 (hll_rank s ` {h\<in>H. hll_bucket s h = b})))"

definition hll_same :: "hll \<Rightarrow> hll \<Rightarrow> bool" where
  "hll_same s t \<longleftrightarrow> hl_registerCount t = hl_registerCount s \<and> hl_shift t = hl_shift s \<and> hl_maxRank t = hl_maxRank s \<and>
     hl_sparseThreshold t = hl_sparseThreshold s \<and> hl_sparseEnabled t = hl_sparseEnabled s"

lemma same_rank: "hll_same s t \<Longrightarrow> hll_rank t = hll_rank s" "hll_same s t \<Longrightarrow> hll_bucket t = hll_bucket s"
  by (simp_all add: hll_same_def hll_rank_def hll_bucket_def fun_eq_iff Let_def)

lemma same_trans [trans]: "hll_same s t \<Longrightarrow> hll_same t u \<Longrightarrow> hll_same s u"
  by (simp add: hll_same_def)

lemma observe_same: "hll_same s (hll_observe h s)"
  by (simp add: hll_same_def hll_observe_def Let_def)

lemma bucket_less: "0 < hl_registerCount s \<Longrightarrow> hl_registerCount s < 2 ^ 32 \<Longrightarrow> hll_bucket s h < hl_registerCount s"
proof -
  assume m: "0 < hl_registerCount s" "hl_registerCount s < 2 ^ 32"
  have "unat (word_of_nat (hl_registerCount s) - 1 :: u32) = hl_registerCount s - 1"
  proof -
    have "word_of_nat (hl_registerCount s) - 1 = (word_of_nat (hl_registerCount s - 1) :: u32)" using m(1) by (simp add: of_nat_diff)
    moreover have "unat (word_of_nat (hl_registerCount s - 1) :: u32) = hl_registerCount s - 1"
      using m by (simp only: unat_of_nat) (simp add: take_bit_nat_eq_self)
    ultimately show ?thesis by (simp only:)
  qed
  moreover have "hll_bucket s h \<le> unat (word_of_nat (hl_registerCount s) - 1 :: u32)"
    unfolding hll_bucket_def using word_and_le1 word_le_nat_alt by blast
  ultimately show ?thesis using m by linarith
qed

lemma covers_observe:
  assumes "hll_covers s H" "finite H"
  shows "hll_covers (hll_observe h s) (insert h H)"
proof -
  note c = assms(1) [unfolded hll_covers_def]
  have b: "hll_bucket s h < length (hl_registers s)" using c bucket_less by simp
  have regs: "hl_registers (hll_observe h s) = (hl_registers s)
      [hll_bucket s h := max (hl_registers s ! hll_bucket s h) (hll_rank s h)]"
    by (cases "hl_registers s ! hll_bucket s h < hll_rank s h")
      (simp_all add: hll_observe_def Let_def max_absorb1 max_absorb2)
  have "hl_registers (hll_observe h s) ! b' = Max (insert 0 (hll_rank s ` {x\<in>insert h H. hll_bucket s x = b'}))"
    if "b' < hl_registerCount s" for b'
  proof (cases "b' = hll_bucket s h")
    case True
    let ?R = "insert 0 (hll_rank s ` {x\<in>H. hll_bucket s x = b'})"
    have "insert 0 (hll_rank s ` {x\<in>insert h H. hll_bucket s x = b'}) = insert (hll_rank s h) ?R" using True by auto
    then have "Max (insert 0 (hll_rank s ` {x\<in>insert h H. hll_bucket s x = b'})) = max (hll_rank s h) (Max ?R)"
      using assms(2) by simp
    moreover have "hl_registers s ! b' = Max ?R" using c that by blast
    ultimately show ?thesis using b True by (simp add: regs max.commute)
  next
    case False
    then have "{x\<in>insert h H. hll_bucket s x = b'} = {x\<in>H. hll_bucket s x = b'}" by auto
    then show ?thesis using False c that by (simp add: regs)
  qed
  moreover have "hl_registerCount (hll_observe h s) = hl_registerCount s" using observe_same [of s h] by (simp add: hll_same_def)
  ultimately show ?thesis using c unfolding hll_covers_def same_rank [OF observe_same [of s h]] by (simp add: regs)
qed

lemma covers_foldl:
  "hll_covers s H \<Longrightarrow> finite H \<Longrightarrow>
     hll_covers (foldl (\<lambda>t h. hll_observe h t) s hs) (H \<union> set hs) \<and> hll_same s (foldl (\<lambda>t h. hll_observe h t) s hs)"
proof (induction hs arbitrary: s H)
  case (Cons h hs)
  note IH = Cons.IH [OF covers_observe [OF Cons.prems, of h]]
  show ?case using IH same_trans [OF observe_same IH [THEN conjunct2]] Cons.prems(2) by simp
qed (simp add: hll_same_def)

lemma covers_frame [simp]:
  "hll_covers (t\<lparr>hl_sparseSet := x\<rparr>) H = hll_covers t H" "hll_covers (t\<lparr>hl_dense := b\<rparr>) H = hll_covers t H"
  by (simp_all add: hll_covers_def hll_rank_def hll_bucket_def Let_def cong: if_cong)

lemma same_frame [simp]:
  "hll_same s (t\<lparr>hl_sparseSet := x\<rparr>) = hll_same s t" "hll_same s (t\<lparr>hl_dense := b\<rparr>) = hll_same s t"
  by (simp_all add: hll_same_def)

text \<open>After adding \<open>H\<close> to the new sketch \<open>s0\<close>.\<close>

definition hll_state :: "hll \<Rightarrow> u32 set \<Rightarrow> hll \<Rightarrow> bool" where
  "hll_state s0 H t \<longleftrightarrow> finite H \<and> hll_same s0 t \<and>
     (if hl_dense t then hll_covers t H \<and> (hl_sparseEnabled t \<longrightarrow> hl_sparseThreshold t < card H)
      else hl_sparseEnabled t \<and> hll_covers t {} \<and>
        (\<exists>hs. hl_sparseSet t = Some hs \<and> distinct hs \<and> set hs = H \<and> length hs \<le> hl_sparseThreshold t))"

lemma state_addHash:
  assumes st: "hll_state s0 H t"
  shows "hll_state s0 (insert (finalise x) H) (hll_addHash x t)"
proof (cases "hl_dense t")
  case True
  let ?h = "finalise x"
  have add: "hll_addHash x t = hll_observe ?h t" using True by (simp add: hll_addHash_def)
  have cov: "hll_covers (hll_observe ?h t) (insert ?h H)" using st True covers_observe by (simp add: hll_state_def)
  have "hl_dense (hll_observe ?h t)" "hl_sparseEnabled (hll_observe ?h t) = hl_sparseEnabled t"
    "hl_sparseThreshold (hll_observe ?h t) = hl_sparseThreshold t"
    using True by (simp_all add: hll_observe_def Let_def)
  moreover have "card H \<le> card (insert ?h H)" using st by (simp add: hll_state_def card_insert_le)
  ultimately show ?thesis using st True cov same_trans [OF _ observe_same] by (auto simp: hll_state_def add)
next
  case False
  let ?h = "finalise x"
  obtain hs where hs: "hl_sparseSet t = Some hs" "distinct hs" "set hs = H" "length hs \<le> hl_sparseThreshold t"
    and cov: "hll_covers t {}" and en: "hl_sparseEnabled t" and same: "hll_same s0 t" and fin: "finite H"
    using st False by (auto simp: hll_state_def)
  define hs1 where "hs1 = (if ?h \<in> set hs then hs else hs @ [?h])"
  define t1 where "t1 = t\<lparr>hl_sparseSet := Some hs1\<rparr>"
  have hs1': "distinct hs1" "set hs1 = insert ?h H" using hs by (auto simp: hs1_def)
  note hs1 = hs1' distinct_card [OF hs1'(1), unfolded hs1'(2), symmetric]
  have t1: "hll_covers t1 {}" "hll_same s0 t1" "\<not> hl_dense t1" "hl_sparseEnabled t1"
    "hl_sparseThreshold t1 = hl_sparseThreshold t"
    using cov same False en by (simp_all add: t1_def)
  have add: "hll_addHash x t = (if hl_sparseThreshold t < length hs1 then hll_convertToDense t1 else t1)"
    using False hs(1) by (simp add: hll_addHash_def Let_def hs1_def t1_def)
  show ?thesis
  proof (cases "hl_sparseThreshold t < length hs1")
    case False
    then show ?thesis using t1 hs1 fin by (simp add: add hll_state_def) (simp add: t1_def)
  next
    case True
    let ?d = "t1\<lparr>hl_dense := True\<rparr>"
    let ?f = "foldl (\<lambda>t h. hll_observe h t) ?d hs1"
    have conv: "hll_convertToDense t1 = ?f\<lparr>hl_sparseSet := None\<rparr>"
      using t1(3) by (simp add: hll_convertToDense_def Let_def) (simp add: t1_def)
    have "hll_covers ?d {}" using t1(1) by simp
    from covers_foldl [OF this, of hs1] have f: "hll_covers ?f (insert ?h H)" "hll_same ?d ?f" using hs1(2) by simp_all
    have dense: "hl_dense (foldl (\<lambda>t h. hll_observe h t) u hs)" if "hl_dense u" for u hs
      using that by (induction hs arbitrary: u) (simp_all add: hll_observe_def Let_def)
    have "hl_dense ?f" by (rule dense) simp
    moreover have "hll_same s0 ?f" using same_trans [OF _ f(2), of s0] t1(2) by simp
    moreover have "hl_sparseThreshold ?f = hl_sparseThreshold t" using f(2) t1(5) by (simp add: hll_same_def)
    ultimately show ?thesis using f(1) hs1(3) True fin by (simp add: add conv hll_state_def)
  qed
qed

lemma state_run:
  "hll_state s0 H t \<Longrightarrow> hll_state s0 (H \<union> finalise ` set xs) (foldl (\<lambda>t x. hll_addHash x t) t xs)"
proof (induction xs arbitrary: H t)
  case (Cons x xs)
  show ?case using Cons.IH [OF state_addHash [OF Cons.prems, of x]] by simp
qed simp

lemma hll_new_state:
  assumes "hll_new rc opts = Inr s" "hl_registerCount s < 2 ^ 32"
  shows "hll_state s {} s"
proof -
  obtain n m where n: "is_integer n" "\<not> num_lt n (Fin 1)" and m: "m = nat \<lfloor>num_rat n\<rfloor>"
    and s: "hl_registerCount s = m" "hl_registers s = replicate m 0"
      "hl_sparseSet s = (if hl_sparseEnabled s then Some [] else None)" "hl_dense s = (\<not> hl_sparseEnabled s)"
    using assms(1) by (auto simp: hll_new_def Let_def split: sum.splits if_splits)
  have "0 < m" using n by (cases n) (simp_all add: m num_rat_def not_less)
  then have "hll_covers s {}" using assms(2) s(1,2) by (simp add: hll_covers_def)
  then show ?thesis using s by (simp add: hll_state_def hll_same_def)
qed

text \<open>
  C21. The estimator is exact as long as it is sparse: it counts the distinct hashes, since mixing
  loses none of them, and it is sparse up to its threshold.  Beyond it the registers are those of
  the whole set of hashes, whatever their order and whenever the switch came: every register holds
  the greatest rank of its bucket.
\<close>

theorem hll_exact_then_dense:
  assumes "hll_new rc opts = Inr s" "hl_registerCount s < 2 ^ 32"
  shows "let t = foldl (\<lambda>t x. hll_addHash x t) s xs in
     (hl_dense t \<longleftrightarrow> \<not> hl_sparseEnabled s \<or> hl_sparseThreshold s < card (set xs)) \<and>
     (\<not> hl_dense t \<longrightarrow> hll_cardinality lg t = int (card (set xs))) \<and>
     (hl_dense t \<longrightarrow> (\<forall>b < hl_registerCount s. hl_registers t ! b =
        Max (insert 0 (hll_rank s ` {h \<in> finalise ` set xs. hll_bucket s h = b}))))"
proof -
  define t where "t = foldl (\<lambda>t x. hll_addHash x t) s xs"
  have st: "hll_state s (finalise ` set xs) t"
    using state_run [OF hll_new_state [OF assms], of xs] by (simp add: t_def)
  have card: "card (finalise ` set xs) = card (set xs)" by (rule card_image) (rule inj_on_subset [OF finalise_inj], simp)
  have same: "hll_same s t" using st by (simp add: hll_state_def)
  show ?thesis
  proof (cases "hl_dense t")
    case True
    then have "hll_covers t (finalise ` set xs)" "hl_sparseEnabled t \<longrightarrow> hl_sparseThreshold t < card (finalise ` set xs)"
      using st by (simp_all add: hll_state_def)
    then show ?thesis using same True unfolding t_def [symmetric] Let_def
      by (simp add: hll_covers_def hll_same_def same_rank [OF same] card)
  next
    case False
    then obtain hs where "hl_sparseSet t = Some hs" "distinct hs" "set hs = finalise ` set xs"
      "length hs \<le> hl_sparseThreshold t" "hl_sparseEnabled t"
      using st by (auto simp: hll_state_def)
    then show ?thesis using same False distinct_card [of hs] unfolding t_def [symmetric] Let_def
      by (simp add: hll_cardinality_def hll_same_def card)
  qed
qed

section \<open>Witnesses\<close>

text \<open>A sketch of two columns and one row, and an estimator of two registers and threshold 2.\<close>

lemma default_hll:
  "hll_new JUndefined JUndefined = Inr \<lparr>hl_registerCount = 64, hl_alpha = 709 / 1000, hl_shift = 6, hl_maxRank = 27,
     hl_registers = replicate 64 0, hl_sparseEnabled = True, hl_sparseThreshold = 256, hl_sparseSet = Some [],
     hl_dense = False\<rparr>"
  by code_simp

definition tiny_sketch :: lfu_sketch where
  "tiny_sketch = \<lparr>sk_width = 2, sk_depth = 1, sk_mask = 1, sk_sampleSize = Fin 10, sk_counters = [0], sk_sample = 0,
     sk_resets = 0, sk_seed = 7, sk_hll = \<lparr>hl_registerCount = 64, hl_alpha = 709 / 1000, hl_shift = 6, hl_maxRank = 27,
     hl_registers = replicate 64 0, hl_sparseEnabled = True, hl_sparseThreshold = 256, hl_sparseSet = Some [],
     hl_dense = False\<rparr>, sk_ids = Map.empty, sk_nextId = 0\<rparr>"

lemma tiny_sketch_new: "sketch_new (JNum (Fin 2)) (JNum (Fin 1)) (JNum (Fin 10)) (JNum (Fin 7)) 0 = Inr tiny_sketch"
proof -
  have "sketch_width (Fin 2) = 2" "sketch_depth (Fin 1) = 1" "sketch_seed (JNum (Fin 7)) 0 = 7"
    "num_max (Fin 1) (floor_or (Fin 10) DEFAULT_SAMPLE_SIZE) = Fin 10" by code_simp+
  then show ?thesis by (simp add: sketch_new_def tiny_sketch_def default_to_def default_hll)
qed

lemma sketch_counts_collisions_witness:
  "2 \<le> unat (snd (sketch_estimate (TextKey [97]) (sketch_run id [TextKey [97], TextKey [98], TextKey [97]] tiny_sketch)))"
  using sketch_counts_collisions [OF tiny_sketch_new, of "[TextKey [97], TextKey [98], TextKey [97]]" id "TextKey [97]"]
  by (simp add: Let_def tiny_sketch_def)

lemma sketch_reset_halves_witness:
  "unat (snd (sketch_estimate (TextKey [97]) (sketch_reset id (tiny_sketch\<lparr>sk_counters := [0xB5]\<rparr>)))) =
     unat (snd (sketch_estimate (TextKey [97]) (tiny_sketch\<lparr>sk_counters := [0xB5]\<rparr>))) div 2"
  using sketch_reset_halves [of "tiny_sketch\<lparr>sk_counters := [0xB5]\<rparr>" "TextKey [97]" id] by (simp add: tiny_sketch_def)

lemma hll_exact_then_dense_witness:
  "hll_cardinality id (foldl (\<lambda>t x. hll_addHash x t)
     \<lparr>hl_registerCount = 64, hl_alpha = 709 / 1000, hl_shift = 6, hl_maxRank = 27,
     hl_registers = replicate 64 0, hl_sparseEnabled = True, hl_sparseThreshold = 256, hl_sparseSet = Some [],
     hl_dense = False\<rparr> [5, 6, 5]) = 2"
proof -
  have "card (set [5, 6, 5 :: u32]) = 2" by (simp add: card_insert_if)
  note * = hll_exact_then_dense [OF default_hll, of "[5, 6, 5]" id, unfolded Let_def this]
  show ?thesis using * by (simp del: foldl_Cons list.set)
qed

end
