(* ===== verification/CacheNodes.thy ===== *)
theory CacheNodes
  imports Sketch JsMap "HOL-Library.Monad_Syntax"
begin

text \<open>
  The nodes of the cache (\<open>src/helpers/cache/core.js\<close>): a doubly linked list of entries in a heap
  of node objects, with a free list, the surgery on its links under each eviction policy and the
  eviction loops.  A node is an address of the heap; \<open>None\<close> is \<open>null\<close>.  A loop over links or one
  that evicts until the limits hold is an \<open>option\<close>: \<open>None\<close> would be a loop that does not end.
  Callbacks are recorded as lists of their calls and do not call back into the cache; the hooks
  \<open>weightFn\<close> and \<open>missCost\<close> are functions, \<open>None\<close> when they throw.
\<close>

section \<open>State\<close>

type_synonym addr = nat

datatype node_queue = MainQueue | SmallQueue | GhostQueue

datatype cache_policy = LRU | SLRU | SIEVE | S3FIFO

datatype evict_reason = Evicted | RejectedOversized | Deleted | Invalidated

record ('k, 'v) cache_node =
  nd_key :: "'k option"
  nd_value :: "'v option"
  nd_weight :: rat
  nd_expiresAt :: rat
  nd_prev :: "addr option"
  nd_next :: "addr option"
  nd_inWindow :: bool
  nd_visited :: bool
  nd_queue :: node_queue

record ('k, 'v) cache =
  ca_maxEntries :: js_num
  ca_maxInflightRefreshes :: js_num
  ca_maxWeight :: js_num
  ca_maxPoolSize :: js_num
  ca_weightFn :: "'v \<Rightarrow> js_num option"
  ca_defaultTTL :: js_val
  ca_allowStale :: bool
  ca_staleTtl :: js_num
  ca_missCost :: "('k option \<Rightarrow> 'v option \<Rightarrow> js_num option) option"
  ca_missCostScan :: js_num
  ca_rejectOversized :: bool
  ca_onEvict :: bool
  ca_onExpire :: bool
  ca_maxCleanupPerTick :: rat
  ca_map :: "('k, addr) js_map"
  ca_head :: "addr option"
  ca_tail :: "addr option"
  ca_pool :: "addr list"
  ca_currentWeight :: rat
  ca_hits :: nat
  ca_staleServes :: nat
  ca_misses :: nat
  ca_evictions :: nat
  ca_refreshesSkipped :: nat
  ca_refreshesFailed :: nat
  ca_refreshesAborted :: nat
  ca_rejected :: nat
  ca_rejectedAdmission :: nat
  ca_expirations :: nat
  ca_weightErrors :: nat
  ca_cleanupCursor :: "addr option"
  ca_cleanupCursorValid :: bool
  ca_evictionCandidate :: "addr option"
  ca_sieveHand :: "addr option"
  ca_smallHead :: "addr option"
  ca_smallTail :: "addr option"
  ca_smallSize :: int
  ca_ghostHead :: "addr option"
  ca_ghostTail :: "addr option"
  ca_ghostSize :: int
  ca_smallMaxSize :: int
  ca_ghostMaxSize :: int
  ca_ghostMap :: "('k, addr) js_map"
  ca_smallMap :: "('k, addr) js_map"
  ca_policy :: cache_policy
  ca_sketch :: "lfu_sketch option"
  ca_windowSize :: js_num
  ca_windowStartMemo :: "addr option"
  ca_windowTail :: "addr option"
  ca_probationEnd :: "addr option"
  ca_inflight :: "('k, bool) js_map"
  ca_disposed :: bool
  ca_heap :: "addr \<Rightarrow> ('k, 'v) cache_node"
  ca_fresh :: addr
  ca_sketchKey :: "'k \<Rightarrow> sketch_key"
  ca_log :: "rat \<Rightarrow> rat"
  ca_evicted :: "('k option \<times> 'v option \<times> evict_reason) list"
  ca_expired :: "('k option \<times> 'v option) list"

definition blank_node :: "('k, 'v) cache_node" where
  "blank_node = \<lparr>nd_key = None, nd_value = None, nd_weight = 0, nd_expiresAt = 0, nd_prev = None, nd_next = None,
     nd_inWindow = False, nd_visited = False, nd_queue = MainQueue\<rparr>"

text \<open>An assignment to a field of the node at an address, and to the field of a node that may be absent.\<close>

definition node_upd :: "addr \<Rightarrow> (('k, 'v) cache_node \<Rightarrow> ('k, 'v) cache_node) \<Rightarrow> ('k, 'v) cache \<Rightarrow> ('k, 'v) cache" where
  "node_upd a f s = s\<lparr>ca_heap := (ca_heap s)(a := f (ca_heap s a))\<rparr>"

definition set_prev :: "addr option \<Rightarrow> addr option \<Rightarrow> ('k, 'v) cache \<Rightarrow> ('k, 'v) cache" where
  "set_prev a p s = (case a of None \<Rightarrow> s | Some x \<Rightarrow> node_upd x (\<lambda>n. n\<lparr>nd_prev := p\<rparr>) s)"

definition set_next :: "addr option \<Rightarrow> addr option \<Rightarrow> ('k, 'v) cache \<Rightarrow> ('k, 'v) cache" where
  "set_next a n s = (case a of None \<Rightarrow> s | Some x \<Rightarrow> node_upd x (\<lambda>nd. nd\<lparr>nd_next := n\<rparr>) s)"

abbreviation "prev_of s a \<equiv> nd_prev (ca_heap s a)"
abbreviation "next_of s a \<equiv> nd_next (ca_heap s a)"
abbreviation "key_of s a \<equiv> nd_key (ca_heap s a)"
abbreviation "value_of s a \<equiv> nd_value (ca_heap s a)"

section \<open>Allocation\<close>

definition cache_allocNode :: "'k \<Rightarrow> 'v \<Rightarrow> rat \<Rightarrow> rat \<Rightarrow> ('k, 'v) cache \<Rightarrow> ('k, 'v) cache \<times> addr" where
  "cache_allocNode key v weight expiresAt s =
     (let (s1, a) = (case rev (ca_pool s) of
            [] \<Rightarrow> (s\<lparr>ca_fresh := ca_fresh s + 1\<rparr>, ca_fresh s)
          | x # xs \<Rightarrow> (s\<lparr>ca_pool := rev xs\<rparr>, x))
      in (node_upd a (\<lambda>_. \<lparr>nd_key = Some key, nd_value = Some v, nd_weight = weight, nd_expiresAt = expiresAt,
            nd_prev = None, nd_next = None, nd_inWindow = False, nd_visited = False, nd_queue = MainQueue\<rparr>) s1, a))"

definition cache_freeNode :: "addr \<Rightarrow> ('k, 'v) cache \<Rightarrow> ('k, 'v) cache" where
  "cache_freeNode a s =
     (let s1 = node_upd a (\<lambda>n. n\<lparr>nd_key := None, nd_value := None, nd_weight := 0, nd_expiresAt := 0,
                 nd_prev := None, nd_next := None\<rparr>) s
      in if num_lt (Fin (of_nat (length (ca_pool s1)))) (ca_maxPoolSize s1)
         then s1\<lparr>ca_pool := ca_pool s1 @ [a]\<rparr> else s1)"

text \<open>A key read from a node, looked up in or deleted from a map; \<open>None\<close> is the \<open>null\<close> of a freed node.\<close>

definition jm_delete_opt :: "'k option \<Rightarrow> ('k, 'v) js_map \<Rightarrow> ('k, 'v) js_map" where
  "jm_delete_opt k m = (case k of None \<Rightarrow> m | Some x \<Rightarrow> jm_delete x m)"

definition jm_set_opt :: "'k option \<Rightarrow> 'v \<Rightarrow> ('k, 'v) js_map \<Rightarrow> ('k, 'v) js_map" where
  "jm_set_opt k v m = (case k of None \<Rightarrow> m | Some x \<Rightarrow> jm_set x v m)"

definition cache_notifyEvict :: "'k option \<Rightarrow> 'v option \<Rightarrow> evict_reason \<Rightarrow> ('k, 'v) cache \<Rightarrow> ('k, 'v) cache" where
  "cache_notifyEvict k v why s = (if ca_onEvict s then s\<lparr>ca_evicted := ca_evicted s @ [(k, v, why)]\<rparr> else s)"

definition cache_abortInflight :: "'k option \<Rightarrow> ('k, 'v) cache \<Rightarrow> ('k, 'v) cache \<times> bool" where
  "cache_abortInflight key s =
     (case key of None \<Rightarrow> (s, False) | Some k \<Rightarrow>
        (case jm_get k (ca_inflight s) of
           Some False \<Rightarrow> (s\<lparr>ca_inflight := jm_set k True (ca_inflight s),
                           ca_refreshesAborted := ca_refreshesAborted s + 1\<rparr>, True)
         | _ \<Rightarrow> (s, False)))"

section \<open>Links\<close>

text \<open>\<open>node.prev = tail; node.next = null; tail.next = node; tail = node\<close>.\<close>

definition cache_linkTail :: "addr \<Rightarrow> ('k, 'v) cache \<Rightarrow> ('k, 'v) cache" where
  "cache_linkTail a s =
     (let s1 = set_next (Some a) None (set_prev (Some a) (ca_tail s) s)
      in (set_next (ca_tail s1) (Some a) s1)\<lparr>ca_tail := Some a\<rparr>)"

definition s3fifo_appendSmall :: "addr \<Rightarrow> ('k, 'v) cache \<Rightarrow> ('k, 'v) cache" where
  "s3fifo_appendSmall a s =
     (let s1 = (case ca_smallTail s of
            None \<Rightarrow> s\<lparr>ca_smallHead := Some a, ca_smallTail := Some a\<rparr>
          | Some t \<Rightarrow> (set_prev (Some a) (Some t) (set_next (Some t) (Some a) s))\<lparr>ca_smallTail := Some a\<rparr>);
          s2 = node_upd a (\<lambda>n. n\<lparr>nd_next := None, nd_queue := SmallQueue\<rparr>) s1
      in s2\<lparr>ca_smallMap := jm_set_opt (key_of s2 a) a (ca_smallMap s2), ca_smallSize := ca_smallSize s2 + 1\<rparr>)"

definition s3fifo_appendMain :: "addr \<Rightarrow> ('k, 'v) cache \<Rightarrow> ('k, 'v) cache" where
  "s3fifo_appendMain a s =
     (let s1 = (case ca_tail s of
            None \<Rightarrow> s\<lparr>ca_head := Some a, ca_tail := Some a, ca_evictionCandidate := Some a\<rparr>
          | Some t \<Rightarrow> cache_linkTail a s)
      in s1\<lparr>ca_map := jm_set_opt (key_of s1 a) a (ca_map s1)\<rparr>)"

definition s3fifo_appendGhost :: "addr \<Rightarrow> ('k, 'v) cache \<Rightarrow> ('k, 'v) cache" where
  "s3fifo_appendGhost a s0 =
     (let s = node_upd a (\<lambda>n. n\<lparr>nd_value := None, nd_weight := 0, nd_expiresAt := 0\<rparr>) s0;
          s1 = (case ca_ghostTail s of
            None \<Rightarrow> s\<lparr>ca_ghostHead := Some a, ca_ghostTail := Some a\<rparr>
          | Some t \<Rightarrow> (set_prev (Some a) (Some t) (set_next (Some t) (Some a) s))\<lparr>ca_ghostTail := Some a\<rparr>);
          s2 = node_upd a (\<lambda>n. n\<lparr>nd_next := None, nd_queue := GhostQueue\<rparr>) s1
      in s2\<lparr>ca_ghostMap := jm_set_opt (key_of s2 a) a (ca_ghostMap s2), ca_ghostSize := ca_ghostSize s2 + 1\<rparr>)"

definition s3fifo_removeFromSmall :: "addr \<Rightarrow> ('k, 'v) cache \<Rightarrow> ('k, 'v) cache" where
  "s3fifo_removeFromSmall a s =
     (let p = prev_of s a; n = next_of s a;
          s1 = (case p of Some x \<Rightarrow> set_next p n s | None \<Rightarrow> s\<lparr>ca_smallHead := n\<rparr>);
          s2 = (case n of Some x \<Rightarrow> set_prev n p s1 | None \<Rightarrow> s1\<lparr>ca_smallTail := p\<rparr>)
      in s2\<lparr>ca_smallMap := jm_delete_opt (key_of s2 a) (ca_smallMap s2), ca_smallSize := ca_smallSize s2 - 1\<rparr>)"

definition s3fifo_removeFromGhost :: "addr \<Rightarrow> ('k, 'v) cache \<Rightarrow> ('k, 'v) cache" where
  "s3fifo_removeFromGhost a s =
     (let p = prev_of s a; n = next_of s a;
          s1 = (case p of Some x \<Rightarrow> set_next p n s | None \<Rightarrow> s\<lparr>ca_ghostHead := n\<rparr>);
          s2 = (case n of Some x \<Rightarrow> set_prev n p s1 | None \<Rightarrow> s1\<lparr>ca_ghostTail := p\<rparr>)
      in s2\<lparr>ca_ghostMap := jm_delete_opt (key_of s2 a) (ca_ghostMap s2), ca_ghostSize := ca_ghostSize s2 - 1\<rparr>)"

definition cache_insertIntoProbation :: "addr \<Rightarrow> ('k, 'v) cache \<Rightarrow> ('k, 'v) cache" where
  "cache_insertIntoProbation a s =
     (let s1 = (case ca_probationEnd s of
            None \<Rightarrow>
              (let t = set_prev (Some a) None (set_next (Some a) (ca_head s) s)
               in (set_prev (ca_head t) (Some a) t)\<lparr>ca_head := Some a, ca_evictionCandidate := Some a\<rparr>)
          | Some boundary \<Rightarrow>
              if ca_tail s = Some boundary then cache_linkTail a s
              else (case next_of s boundary of
                  None \<Rightarrow> s
                | Some after \<Rightarrow>
                    set_prev (Some after) (Some a) (set_next (Some boundary) (Some a)
                      (set_next (Some a) (Some after) (set_prev (Some a) (Some boundary) s)))))
      in s1\<lparr>ca_probationEnd := Some a\<rparr>)"

definition cache_append :: "addr \<Rightarrow> ('k, 'v) cache \<Rightarrow> ('k, 'v) cache" where
  "cache_append a s =
     (if ca_tail s = None then
        (if ca_policy s = S3FIFO then s3fifo_appendSmall a s
         else
           (let s1 = s\<lparr>ca_head := Some a, ca_tail := Some a, ca_evictionCandidate := Some a\<rparr>;
                s2 = (if ca_policy s1 = SLRU then s1\<lparr>ca_probationEnd := Some a\<rparr> else s1)
            in if ca_policy s2 = SIEVE then s2\<lparr>ca_sieveHand := Some a\<rparr> else s2))
      else
        (case ca_policy s of
           SLRU \<Rightarrow> cache_insertIntoProbation a s
         | SIEVE \<Rightarrow> cache_linkTail a s
         | S3FIFO \<Rightarrow> s3fifo_appendSmall a s
         | LRU \<Rightarrow> cache_linkTail a s))"

definition cache_remove :: "addr \<Rightarrow> ('k, 'v) cache \<Rightarrow> ('k, 'v) cache" where
  "cache_remove a s =
     (let p = prev_of s a; n = next_of s a;
          s1 = (case p of Some x \<Rightarrow> set_next p n s | None \<Rightarrow> s\<lparr>ca_head := n\<rparr>);
          s2 = (if p = None then s1\<lparr>ca_evictionCandidate := ca_head s1\<rparr> else s1);
          s3 = (case n of Some x \<Rightarrow> set_prev n p s2 | None \<Rightarrow> s2\<lparr>ca_tail := p\<rparr>);
          s4 = (if ca_probationEnd s3 = Some a then s3\<lparr>ca_probationEnd := p\<rparr> else s3);
          s5 = (if ca_policy s4 = SIEVE \<and> ca_sieveHand s4 = Some a
                then s4\<lparr>ca_sieveHand := (case next_of s4 a of Some x \<Rightarrow> Some x | None \<Rightarrow> ca_head s4)\<rparr> else s4);
          s6 = (if ca_policy s5 = S3FIFO
                then (case nd_queue (ca_heap s5 a) of SmallQueue \<Rightarrow> s3fifo_removeFromSmall a s5
                      | GhostQueue \<Rightarrow> s3fifo_removeFromGhost a s5 | MainQueue \<Rightarrow> s5) else s5);
          s7 = (if nd_inWindow (ca_heap s6 a) then s6\<lparr>ca_windowStartMemo := None, ca_windowTail := None\<rparr> else s6)
      in set_next (Some a) None (set_prev (Some a) None s7))"

definition cache_unlinkNode :: "bool \<Rightarrow> addr \<Rightarrow> ('k, 'v) cache \<Rightarrow> ('k, 'v) cache" where
  "cache_unlinkNode advance a s =
     (let nxt = next_of s a;
          s1 = s\<lparr>ca_map := jm_delete_opt (key_of s a) (ca_map s),
                 ca_currentWeight := ca_currentWeight s - nd_weight (ca_heap s a)\<rparr>;
          s2 = (if ca_cleanupCursor s1 = Some a then s1\<lparr>ca_cleanupCursor := nxt\<rparr> else s1);
          s3 = s2\<lparr>ca_cleanupCursorValid := (ca_cleanupCursor s2 \<noteq> None)\<rparr>;
          s4 = (if advance then s3\<lparr>ca_evictionCandidate := nxt\<rparr> else s3)
      in cache_remove a s4)"

section \<open>Eviction\<close>

text \<open>\<open>size > maxEntries || currentWeight > maxWeight\<close>.\<close>

definition cache_over :: "int \<Rightarrow> ('k, 'v) cache \<Rightarrow> bool" where
  "cache_over n s \<longleftrightarrow> num_lt (ca_maxEntries s) (Fin (of_int n)) \<or> num_lt (ca_maxWeight s) (Fin (ca_currentWeight s))"

text \<open>The body that all eviction loops share.\<close>

definition cache_evictAt :: "bool \<Rightarrow> addr \<Rightarrow> ('k, 'v) cache \<Rightarrow> ('k, 'v) cache" where
  "cache_evictAt advance a s =
     (let k = key_of s a; v = value_of s a;
          s1 = fst (cache_abortInflight k s);
          s2 = cache_unlinkNode advance a s1;
          s3 = cache_notifyEvict k v Evicted (s2\<lparr>ca_evictions := ca_evictions s2 + 1\<rparr>)
      in cache_freeNode a s3)"

partial_function (option) cheapest_loop ::
  "('k, 'v) cache \<Rightarrow> ('k option \<Rightarrow> 'v option \<Rightarrow> js_num option) \<Rightarrow> nat \<Rightarrow> addr option \<Rightarrow> addr \<Rightarrow> js_num \<Rightarrow> addr option" where
  "cheapest_loop s hook i nd best bestCost =
     (case nd of
        None \<Rightarrow> Some best
      | Some a \<Rightarrow>
          if \<not> num_lt (Fin (of_nat i)) (ca_missCostScan s) then Some best
          else
            (let c = (case hook (key_of s a) (value_of s a) of Some n \<Rightarrow> n | None \<Rightarrow> NaN) in
             if num_lt c bestCost then cheapest_loop s hook (i + 1) (next_of s a) a c
             else cheapest_loop s hook (i + 1) (next_of s a) best bestCost))"

definition or_else :: "'a option \<Rightarrow> 'a option \<Rightarrow> 'a option" where
  "or_else x y = (case x of None \<Rightarrow> y | Some a \<Rightarrow> x)"

definition cache_cheapestEvictionCandidate :: "('k, 'v) cache \<Rightarrow> addr option option" where
  "cache_cheapestEvictionCandidate s =
     (case or_else (ca_evictionCandidate s) (ca_head s) of
        None \<Rightarrow> Some None
      | Some start \<Rightarrow>
          (case ca_missCost s of
             None \<Rightarrow> Some (Some start)
           | Some hook \<Rightarrow> map_option Some (cheapest_loop s hook 0 (Some start) start PosInf)))"

definition cache_victim :: "('k, 'v) cache \<Rightarrow> addr option option" where
  "cache_victim s =
     (if ca_missCost s \<noteq> None then cache_cheapestEvictionCandidate s
      else Some (or_else (ca_evictionCandidate s) (ca_head s)))"

definition settle_candidate :: "('k, 'v) cache \<Rightarrow> ('k, 'v) cache" where
  "settle_candidate s = (if ca_evictionCandidate s = None then s\<lparr>ca_evictionCandidate := ca_head s\<rparr> else s)"

partial_function (option) evict_loop :: "('k, 'v) cache \<Rightarrow> ('k, 'v) cache option" where
  "evict_loop s =
     (if cache_over (int (length (ca_map s))) s then
        (case cache_victim s of
           None \<Rightarrow> None
         | Some None \<Rightarrow> Some s
         | Some (Some a) \<Rightarrow> evict_loop (cache_evictAt True a s))
      else Some s)"

partial_function (option) sieve_loop :: "('k, 'v) cache \<Rightarrow> ('k, 'v) cache option" where
  "sieve_loop s =
     (if cache_over (int (length (ca_map s))) s then
        (case or_else (ca_sieveHand s) (ca_head s) of
           None \<Rightarrow> Some (s\<lparr>ca_sieveHand := None\<rparr>)
         | Some a \<Rightarrow>
             (let s1 = s\<lparr>ca_sieveHand := or_else (next_of s a) (ca_tail s)\<rparr> in
              if nd_visited (ca_heap s1 a) then sieve_loop (node_upd a (\<lambda>n. n\<lparr>nd_visited := False\<rparr>) s1)
              else sieve_loop (cache_evictAt False a s1)))
      else Some s)"

partial_function (option) s3fifo_small_loop :: "('k, 'v) cache \<Rightarrow> ('k, 'v) cache option" where
  "s3fifo_small_loop s =
     (if ca_smallMaxSize s < ca_smallSize s then
        (case ca_smallHead s of
           None \<Rightarrow> Some s
         | Some a \<Rightarrow>
             (let s1 = s\<lparr>ca_currentWeight := ca_currentWeight s - nd_weight (ca_heap s a)\<rparr>;
                  s2 = s3fifo_removeFromSmall a s1
              in if ca_ghostSize s1 < ca_ghostMaxSize s1 then s3fifo_small_loop (s3fifo_appendGhost a s2)
                 else
                   (let k = key_of s2 a; v = value_of s2 a;
                        s3 = fst (cache_abortInflight k (s2\<lparr>ca_evictions := ca_evictions s2 + 1\<rparr>))
                    in s3fifo_small_loop (cache_freeNode a (cache_notifyEvict k v Evicted s3)))))
      else Some s)"

partial_function (option) s3fifo_main_loop :: "('k, 'v) cache \<Rightarrow> ('k, 'v) cache option" where
  "s3fifo_main_loop s =
     (if cache_over (int (length (ca_map s)) + ca_smallSize s) s then
        (case or_else (ca_evictionCandidate s) (ca_head s) of
           None \<Rightarrow> Some s
         | Some a \<Rightarrow>
             if ca_ghostSize s < ca_ghostMaxSize s
             then s3fifo_main_loop (s3fifo_appendGhost a (cache_unlinkNode True a s))
             else s3fifo_main_loop (cache_evictAt True a s))
      else Some s)"

definition s3fifo_evict :: "('k, 'v) cache \<Rightarrow> ('k, 'v) cache option" where
  "s3fifo_evict s = do {s1 \<leftarrow> s3fifo_small_loop s; s2 \<leftarrow> s3fifo_main_loop s1; Some (settle_candidate s2)}"

definition cache_evictIfNeeded :: "('k, 'v) cache \<Rightarrow> ('k, 'v) cache option" where
  "cache_evictIfNeeded s =
     (case ca_policy s of
        SIEVE \<Rightarrow> sieve_loop s
      | S3FIFO \<Rightarrow> s3fifo_evict s
      | _ \<Rightarrow> do {s1 \<leftarrow> evict_loop s; Some (settle_candidate s1)})"

section \<open>The admission window\<close>

partial_function (option) window_back :: "('k, 'v) cache \<Rightarrow> addr \<Rightarrow> addr option" where
  "window_back s a =
     (case prev_of s a of
        Some p \<Rightarrow> (if nd_inWindow (ca_heap s p) then window_back s p else Some a)
      | None \<Rightarrow> Some a)"

definition cache_windowOldest :: "('k, 'v) cache \<Rightarrow> (('k, 'v) cache \<times> addr option) option" where
  "cache_windowOldest s =
     (let memo = ca_windowStartMemo s;
          hit = (case memo of None \<Rightarrow> False | Some m \<Rightarrow>
            (case prev_of s m of None \<Rightarrow> True | Some p \<Rightarrow> \<not> nd_inWindow (ca_heap s p)) \<and> ca_windowTail s = ca_tail s)
      in if hit then Some (s, memo)
         else (case ca_tail s of
             None \<Rightarrow> Some (s\<lparr>ca_windowStartMemo := None, ca_windowTail := ca_tail s\<rparr>, None)
           | Some t \<Rightarrow>
               if \<not> nd_inWindow (ca_heap s t)
               then Some (s\<lparr>ca_windowStartMemo := None, ca_windowTail := ca_tail s\<rparr>, None)
               else do {a \<leftarrow> window_back s t;
                        Some (s\<lparr>ca_windowStartMemo := Some a, ca_windowTail := ca_tail s\<rparr>, Some a)}))"

definition cache_windowVictim :: "('k, 'v) cache \<Rightarrow> (('k, 'v) cache \<times> addr option) option" where
  "cache_windowVictim s =
     do {(s1, oldest) \<leftarrow> cache_windowOldest s;
         Some (s1, case oldest of None \<Rightarrow> None | Some a \<Rightarrow> if ca_head s1 = Some a then None else prev_of s1 a)}"

definition cache_insertAtMainSpaceMrU :: "addr \<Rightarrow> ('k, 'v) cache \<Rightarrow> ('k, 'v) cache option" where
  "cache_insertAtMainSpaceMrU a s0 =
     do {(s, windowStart) \<leftarrow> cache_windowOldest s0;
         Some (case windowStart of
           None \<Rightarrow>
             (let s1 = set_next (Some a) None (set_prev (Some a) (ca_tail s) s);
                  s2 = (if ca_tail s1 \<noteq> None then set_next (ca_tail s1) (Some a) s1
                        else s1\<lparr>ca_head := Some a, ca_evictionCandidate := Some a\<rparr>)
              in s2\<lparr>ca_tail := Some a\<rparr>)
         | Some w \<Rightarrow>
             (let p = prev_of s w;
                  s1 = set_next (Some a) (Some w) (set_prev (Some a) p s);
                  s2 = (if p \<noteq> None then set_next p (Some a) s1
                        else s1\<lparr>ca_head := Some a, ca_evictionCandidate := Some a\<rparr>)
              in set_prev (Some w) (Some a) s2))}"

definition cache_promoteFromWindow :: "addr \<Rightarrow> ('k, 'v) cache \<Rightarrow> ('k, 'v) cache option" where
  "cache_promoteFromWindow a s =
     do {s1 \<leftarrow> cache_insertAtMainSpaceMrU a (cache_remove a s);
         Some (node_upd a (\<lambda>n. n\<lparr>nd_inWindow := False\<rparr>) s1)}"

text \<open>\<open>_evictNode\<close>, which does not abort a fetch in flight.\<close>

definition cache_evictNode :: "addr \<Rightarrow> ('k, 'v) cache \<Rightarrow> ('k, 'v) cache" where
  "cache_evictNode a s =
     (let k = key_of s a; v = value_of s a; s1 = cache_unlinkNode True a s
      in cache_freeNode a (cache_notifyEvict k v Evicted (s1\<lparr>ca_evictions := ca_evictions s1 + 1\<rparr>)))"

text \<open>The sketch, asked and told about the key of a node or of a call.\<close>

definition cache_estimate :: "'k option \<Rightarrow> ('k, 'v) cache \<Rightarrow> ('k, 'v) cache \<times> 8 word" where
  "cache_estimate key s =
     (case (ca_sketch s, key) of
        (Some sk, Some k) \<Rightarrow> (let (sk1, n) = sketch_estimate (ca_sketchKey s k) sk in (s\<lparr>ca_sketch := Some sk1\<rparr>, n))
      | _ \<Rightarrow> (s, 0))"

definition cache_increment :: "'k \<Rightarrow> ('k, 'v) cache \<Rightarrow> ('k, 'v) cache" where
  "cache_increment key s =
     (case ca_sketch s of
        None \<Rightarrow> s
      | Some sk \<Rightarrow> s\<lparr>ca_sketch := Some (sketch_increment (ca_log s) (ca_sketchKey s key) sk)\<rparr>)"

definition cache_arbitrateWindow :: "nat \<Rightarrow> ('k, 'v) cache \<Rightarrow> ('k, 'v) cache option" where
  "cache_arbitrateWindow previousSize s =
     (if \<not> num_lt (ca_windowSize s) (Fin (of_nat (length (ca_map s)))) then Some s
      else do {
        (s1, challenger) \<leftarrow> cache_windowOldest s;
        (case challenger of
           None \<Rightarrow> Some s1
         | Some ch \<Rightarrow> do {
             (s2, vict) \<leftarrow> cache_windowVictim s1;
             (let heavy = num_lt (ca_maxWeight s2) (Fin (ca_currentWeight s2));
                  full = (\<not> num_lt (Fin (of_nat previousSize)) (ca_maxEntries s2) \<or> heavy)
              in case vict of
                   None \<Rightarrow> cache_promoteFromWindow ch s2
                 | Some v \<Rightarrow>
                     if \<not> full then cache_promoteFromWindow ch s2
                     else
                       (let (s3, ec) = cache_estimate (key_of s2 ch) s2;
                            (s4, ev) = cache_estimate (key_of s3 v) s3
                        in if ev < ec \<or> heavy then cache_promoteFromWindow ch (cache_evictNode v s4)
                           else Some (cache_evictNode ch
                             (s4\<lparr>ca_rejectedAdmission := ca_rejectedAdmission s4 + 1\<rparr>))))})})"

section \<open>Recency\<close>

definition cache_moveToTail :: "addr \<Rightarrow> ('k, 'v) cache \<Rightarrow> ('k, 'v) cache option" where
  "cache_moveToTail a s =
     (case ca_policy s of
        SLRU \<Rightarrow>
          (let wasEnd = (ca_probationEnd s = Some a); prevProbation = prev_of s a in
           if ca_tail s = Some a then Some (if wasEnd then s\<lparr>ca_probationEnd := prevProbation\<rparr> else s)
           else
             (let s1 = cache_linkTail a (cache_remove a s)
              in Some (if wasEnd then s1\<lparr>ca_probationEnd := prevProbation\<rparr> else s1)))
      | SIEVE \<Rightarrow> Some (node_upd a (\<lambda>n. n\<lparr>nd_visited := True\<rparr>) s)
      | S3FIFO \<Rightarrow>
          (let blank = node_upd a (\<lambda>n. n\<lparr>nd_queue := MainQueue, nd_prev := None, nd_next := None\<rparr>) in
           case nd_queue (ca_heap s a) of
             SmallQueue \<Rightarrow> cache_evictIfNeeded (s3fifo_appendMain a (blank (s3fifo_removeFromSmall a s)))
           | GhostQueue \<Rightarrow> cache_evictIfNeeded (s3fifo_appendMain a (blank (s3fifo_removeFromGhost a s)))
           | MainQueue \<Rightarrow> Some s)
      | LRU \<Rightarrow>
          (if num_lt (Fin 0) (ca_windowSize s) then
             (if \<not> nd_inWindow (ca_heap s a) then cache_insertAtMainSpaceMrU a (cache_remove a s)
              else if ca_tail s = Some a then Some s
              else Some (cache_append a (cache_remove a s)))
           else if ca_tail s = Some a then Some s
           else Some (cache_append a (cache_remove a s))))"

text \<open>The loops are run by their equations.\<close>

declare cheapest_loop.simps [code] and evict_loop.simps [code] and sieve_loop.simps [code] and s3fifo_small_loop.simps [code] and s3fifo_main_loop.simps [code] and window_back.simps [code]

end
