(* ===== verification/Cache.thy ===== *)
theory Cache
  imports CacheNodes
begin

text \<open>
  The operations of the cache (\<open>src/helpers/cache/core.js\<close>) on the nodes of \<open>CacheNodes\<close>, for all
  eviction policies.  A call's clock reading is its argument.  \<open>getOrSet\<close> is given what its
  factory returned; the asynchronous reads are split at the points where they wait.
\<close>

section \<open>Construction\<close>

definition POWER_CACHE_OPTIONS :: "string list" where
  "POWER_CACHE_OPTIONS =
     [''maxEntries'', ''maxInflightRefreshes'', ''maxWeight'', ''weightFn'', ''defaultTTL'', ''maxPoolSize'',
      ''rejectOversized'', ''onEvict'', ''onExpire'', ''initialPoolSize'', ''maxCleanupPerTick'',
      ''defaultAsyncTimeout'', ''now'', ''onError'', ''admission'', ''windowSize'', ''seed'', ''policy'',
      ''allowStale'', ''staleTtl'', ''fetchMethod'', ''missCost'', ''missCostScan'', ''observability'']"

definition DEFAULT_CACHE_DEFAULT_TTL_MS :: rat where "DEFAULT_CACHE_DEFAULT_TTL_MS = 60000"
definition DEFAULT_CACHE_MAX_POOL_SIZE :: rat where "DEFAULT_CACHE_MAX_POOL_SIZE = 1000"
definition DEFAULT_MAX_CLEANUP_PER_TICK :: rat where "DEFAULT_MAX_CLEANUP_PER_TICK = 100"
definition ADMISSION_SAMPLE_MULTIPLE :: rat where "ADMISSION_SAMPLE_MULTIPLE = 200"
definition SKETCH_COUNTERS_PER_ENTRY :: rat where "SKETCH_COUNTERS_PER_ENTRY = 16"
definition SKETCH_DEPTH :: rat where "SKETCH_DEPTH = 4"
definition SKETCH_SIZE_CEILING :: rat where "SKETCH_SIZE_CEILING = 1000000"

definition capped_entries :: "js_num \<Rightarrow> rat" where
  "capped_entries maxEntries = (case maxEntries of Fin r \<Rightarrow> min r SKETCH_SIZE_CEILING | _ \<Rightarrow> SKETCH_SIZE_CEILING)"

definition sketchWidthFor :: "js_num \<Rightarrow> rat" where
  "sketchWidthFor maxEntries =
     (let entries = max 1 (capped_entries maxEntries);
          wanted = \<lceil>SKETCH_COUNTERS_PER_ENTRY * entries / SKETCH_DEPTH\<rceil>
      in of_int (max 2 (shl_ceil_log2 (Fin (of_int wanted)))))"

definition cache_limit :: "string \<Rightarrow> bool \<Rightarrow> bool \<Rightarrow> js_val \<Rightarrow> js_num result" where
  "cache_limit name whole allowInf v =
     assertLimitRequired v ((limit_spec name ''PowerCache'')\<lparr>sp_integer := whole, sp_allowInfinity := allowInf\<rparr>)"

definition window_size :: "bool \<Rightarrow> js_num \<Rightarrow> js_val \<Rightarrow> js_num result" where
  "window_size sketched maxEntries v =
     res_bind
       (if \<not> sketched then Inr (Fin 0)
        else if v = JNull then
          Inr (case maxEntries of
            Fin m \<Rightarrow> Fin (of_int (min (max 4 \<lceil>m / 100\<rceil>) \<lfloor>m / 4\<rfloor>)) | n \<Rightarrow> n)
        else res_bind (to_number (default_to (JNum (Fin 0)) v)) (\<lambda>n. Inr (num_max (Fin 0) (floor_or n 0))))
       (\<lambda>w. Inr (case maxEntries of
            Fin m \<Rightarrow> (if \<not> num_lt w maxEntries \<and> 4 \<le> m then Fin (of_int \<lfloor>m / 4\<rfloor>) else w)
          | PosInf \<Rightarrow> (if w = PosInf then PosInf else w)
          | _ \<Rightarrow> w))"

text \<open>
  The constructor.  With \<open>initialPoolSize\<close> and \<open>maxPoolSize\<close> both infinite the code fills its pool for ever
  and never returns; the definition speaks of the calls that return, and has an empty pool there.
\<close>

definition cache_new ::
  "js_val \<Rightarrow> ('v \<Rightarrow> js_num option) \<Rightarrow> ('k option \<Rightarrow> 'v option \<Rightarrow> js_num option) \<Rightarrow> ('k \<Rightarrow> sketch_key) \<Rightarrow> (rat \<Rightarrow> rat) \<Rightarrow> u32 \<Rightarrow>
     ('k, 'v) cache result" where
  "cache_new options0 weightFn missCost sketchKey lg random =
     (let options = default_to (JObj []) options0; opt = (\<lambda>name d. default_to d (get_prop name options)) in
      res_bind (assertKnownOptions options POWER_CACHE_OPTIONS ''PowerCache'') (\<lambda>_.
      if options = JNull then Inl NullOptions
      else if (case options of JObj ps \<Rightarrow> False | _ \<Rightarrow> True) then Inl (TypeErr ''PowerCache'' ''options'')
      else
      res_bind (cache_limit ''maxEntries'' True True (opt ''maxEntries'' (JNum PosInf))) (\<lambda>maxEntries.
      res_bind (if get_prop ''maxInflightRefreshes'' options = JUndefined
                then Inr (if is_finite maxEntries then maxEntries else Fin 1024)
                else cache_limit ''maxInflightRefreshes'' True False (get_prop ''maxInflightRefreshes'' options)) (\<lambda>maxInflight.
      res_bind (cache_limit ''maxWeight'' False True (opt ''maxWeight'' (JNum PosInf))) (\<lambda>maxWeight.
      res_bind (cache_limit ''maxPoolSize'' True True (opt ''maxPoolSize'' (JNum (Fin DEFAULT_CACHE_MAX_POOL_SIZE)))) (\<lambda>maxPool.
      res_bind (assertFunction (opt ''weightFn'' (JFun 0)) ''weightFn'' ''PowerCache'' False) (\<lambda>wf.
      (let staleTtl = opt ''staleTtl'' (JNum PosInf); allowStale = js_truthy (get_prop ''allowStale'' options) in
      case staleTtl of
        JNum st \<Rightarrow>
          if st = NaN \<or> num_lt st (Fin 0) then Inl (TypeErr ''PowerCache'' ''staleTtl'')
          else if allowStale \<and> (case options of JObj ps \<Rightarrow> ''staleTtl'' \<notin> fst ` set ps | _ \<Rightarrow> True)
          then Inl (TypeErr ''PowerCache'' ''allowStale'')
          else if \<not> is_nullish (get_prop ''fetchMethod'' options) \<and> (case get_prop ''fetchMethod'' options of JFun f \<Rightarrow> False | _ \<Rightarrow> True)
          then Inl (TypeErr ''PowerCache'' ''fetchMethod'')
          else if \<not> is_nullish (get_prop ''missCost'' options) \<and> (case get_prop ''missCost'' options of JFun f \<Rightarrow> False | _ \<Rightarrow> True)
          then Inl (TypeErr ''PowerCache'' ''missCost'')
          else
          res_bind (to_number (opt ''missCostScan'' (JNum (Fin 8)))) (\<lambda>scan.
          res_bind (to_number (opt ''maxCleanupPerTick'' (JNum (Fin DEFAULT_MAX_CLEANUP_PER_TICK)))) (\<lambda>tick.
          res_bind (to_number (opt ''initialPoolSize'' (JNum (Fin 0)))) (\<lambda>pool.
          res_bind (assertSeed (get_prop ''seed'' options) ''PowerCache'') (\<lambda>seed.
          (let policy = (case get_prop ''policy'' options of
                 JStr p \<Rightarrow> (if p = ''slru'' then SLRU else if p = ''sieve'' then SIEVE
                           else if p = ''s3fifo'' then S3FIFO else LRU) | _ \<Rightarrow> LRU);
               base = (case maxEntries of Fin m \<Rightarrow> m | _ \<Rightarrow> 1000);
               poolSize = (case pool of
                 Fin r \<Rightarrow> (case maxPool of Fin q \<Rightarrow> nat \<lceil>min r q\<rceil> | _ \<Rightarrow> nat \<lceil>r\<rceil>)
               | PosInf \<Rightarrow> (case maxPool of Fin q \<Rightarrow> nat \<lceil>q\<rceil> | _ \<Rightarrow> 0) | _ \<Rightarrow> 0);
               sketched = (get_prop ''admission'' options = JStr ''tinylfu'' \<and> policy = LRU)
           in res_bind (window_size sketched maxEntries (get_prop ''windowSize'' options)) (\<lambda>windowSize.
              res_bind (if sketched then map_sum id Some
                          (sketch_new (JNum (Fin (sketchWidthFor maxEntries))) JUndefined
                             (JNum (Fin (max 1 (ADMISSION_SAMPLE_MULTIPLE * capped_entries maxEntries))))
                             (case seed of Some i \<Rightarrow> JNum (Fin (of_int i)) | None \<Rightarrow> JUndefined) random)
                        else Inr None) (\<lambda>sketch.
              Inr \<lparr>ca_maxEntries = maxEntries, ca_maxInflightRefreshes = maxInflight, ca_maxWeight = maxWeight,
                ca_maxPoolSize = maxPool,
                ca_weightFn = (if wf = None \<or> get_prop ''weightFn'' options = JUndefined then (\<lambda>_. Some (Fin 1)) else weightFn),
                ca_defaultTTL = opt ''defaultTTL'' (JNum (Fin DEFAULT_CACHE_DEFAULT_TTL_MS)),
                ca_allowStale = allowStale, ca_staleTtl = st,
                ca_missCost = (if is_nullish (get_prop ''missCost'' options) then None else Some missCost),
                ca_missCostScan = num_max (Fin 1) (floor_or scan 1),
                ca_rejectOversized = js_truthy (get_prop ''rejectOversized'' options),
                ca_onEvict = (case get_prop ''onEvict'' options of JFun f \<Rightarrow> True | _ \<Rightarrow> False),
                ca_onExpire = (case get_prop ''onExpire'' options of JFun f \<Rightarrow> True | _ \<Rightarrow> False),
                ca_maxCleanupPerTick = (case tick of Fin r \<Rightarrow> max 1 r | _ \<Rightarrow> DEFAULT_MAX_CLEANUP_PER_TICK),
                ca_map = [], ca_head = None, ca_tail = None, ca_pool = [0..<poolSize], ca_currentWeight = 0,
                ca_hits = 0, ca_staleServes = 0, ca_misses = 0, ca_evictions = 0, ca_refreshesSkipped = 0,
                ca_refreshesFailed = 0, ca_refreshesAborted = 0, ca_rejected = 0, ca_rejectedAdmission = 0,
                ca_expirations = 0, ca_weightErrors = 0, ca_cleanupCursor = None, ca_cleanupCursorValid = False,
                ca_evictionCandidate = None, ca_sieveHand = None, ca_smallHead = None, ca_smallTail = None,
                ca_smallSize = 0, ca_ghostHead = None, ca_ghostTail = None, ca_ghostSize = 0,
                ca_smallMaxSize = (if policy = S3FIFO then max 1 \<lfloor>base / 10\<rfloor> else 0),
                ca_ghostMaxSize = (if policy = S3FIFO then max 1 \<lfloor>base / 5\<rfloor> else 0),
                ca_ghostMap = [], ca_smallMap = [], ca_policy = policy, ca_sketch = sketch,
                ca_windowSize = windowSize, ca_windowStartMemo = None, ca_windowTail = None, ca_probationEnd = None,
                ca_inflight = [], ca_disposed = False, ca_heap = (\<lambda>_. blank_node), ca_fresh = poolSize,
                ca_sketchKey = sketchKey, ca_log = lg, ca_evicted = [], ca_expired = []\<rparr>)))))))
      | _ \<Rightarrow> Inl (TypeErr ''PowerCache'' ''staleTtl'')))))))))"

section \<open>Writing\<close>

definition finite_or_0 :: "js_num \<Rightarrow> rat" where
  "finite_or_0 n = (case n of Fin r \<Rightarrow> max 0 r | _ \<Rightarrow> 0)"

definition cache_computeWeight :: "'v \<Rightarrow> js_val \<Rightarrow> ('k, 'v) cache \<Rightarrow> ('k, 'v) cache \<times> rat result" where
  "cache_computeWeight v explicitWeight s =
     (if \<not> is_nullish explicitWeight then (s, map_sum id finite_or_0 (to_number explicitWeight))
      else case ca_weightFn s v of
        Some n \<Rightarrow> (s, Inr (finite_or_0 n))
      | None \<Rightarrow> (s\<lparr>ca_weightErrors := ca_weightErrors s + 1\<rparr>, Inr 0))"

text \<open>\<open>_expiresAt\<close>; 0 is "never".\<close>

definition cache_expiresAt :: "js_val \<Rightarrow> rat \<Rightarrow> rat result" where
  "cache_expiresAt ttl now =
     (if is_nullish ttl \<or> ttl = JNum PosInf then Inr 0
      else map_sum id (\<lambda>ms. now + ms) (normalizeTtl ttl ''PowerCache''))"

definition cache_rejectIfOversized :: "'k \<Rightarrow> 'v \<Rightarrow> rat \<Rightarrow> ('k, 'v) cache \<Rightarrow> ('k, 'v) cache \<times> bool" where
  "cache_rejectIfOversized key v w s =
     (if \<not> ca_rejectOversized s \<or> \<not> is_finite (ca_maxWeight s) \<or> \<not> num_lt (ca_maxWeight s) (Fin w) then (s, False)
      else (cache_notifyEvict (Some key) (Some v) RejectedOversized (s\<lparr>ca_rejected := ca_rejected s + 1\<rparr>), True))"

definition cache_updateExisting :: "addr \<Rightarrow> 'v \<Rightarrow> rat \<Rightarrow> rat \<Rightarrow> ('k, 'v) cache \<Rightarrow> ('k, 'v) cache option" where
  "cache_updateExisting a v w expiresAt s =
     (let s1 = s\<lparr>ca_currentWeight := ca_currentWeight s - nd_weight (ca_heap s a)\<rparr>;
          s2 = node_upd a (\<lambda>n. n\<lparr>nd_value := Some v, nd_weight := w, nd_expiresAt := expiresAt\<rparr>) s1
      in cache_moveToTail a (s2\<lparr>ca_currentWeight := ca_currentWeight s2 + w\<rparr>))"

definition cache_insertNew ::
  "'k \<Rightarrow> 'v \<Rightarrow> rat \<Rightarrow> rat \<Rightarrow> nat \<Rightarrow> ('k, 'v) cache \<Rightarrow> (('k, 'v) cache \<times> bool) option" where
  "cache_insertNew key v w expiresAt previousSize s =
     (if ca_sketch s \<noteq> None \<and> num_lt (Fin 0) (ca_windowSize s) then
        (let (s1, a) = cache_allocNode key v w expiresAt s;
             s2 = node_upd a (\<lambda>n. n\<lparr>nd_inWindow := True\<rparr>) (s1\<lparr>ca_map := jm_set key a (ca_map s1)\<rparr>);
             s3 = cache_append a s2
         in do {s4 \<leftarrow> cache_arbitrateWindow previousSize (s3\<lparr>ca_currentWeight := ca_currentWeight s3 + w\<rparr>);
                Some (s4, True)})
      else
        (let full = (ca_sketch s \<noteq> None \<and> \<not> num_lt (Fin (of_nat (length (ca_map s)))) (ca_maxEntries s));
             incumbent = or_else (ca_evictionCandidate s) (ca_head s);
             (s1, challenger) = (if full then cache_estimate (Some key) s else (s, 0));
             (s2, refused) = (case (full, incumbent) of
                 (True, Some a) \<Rightarrow> (let (t, e) = cache_estimate (key_of s1 a) s1 in (t, challenger \<le> e))
               | _ \<Rightarrow> (s1, False))
         in if refused then Some (s2\<lparr>ca_rejectedAdmission := ca_rejectedAdmission s2 + 1\<rparr>, False)
            else
              (let (s3, a) = cache_allocNode key v w expiresAt s2;
                   s4 = (if ca_policy s3 \<noteq> S3FIFO then s3\<lparr>ca_map := jm_set key a (ca_map s3)\<rparr> else s3);
                   s5 = cache_append a s4
               in Some (s5\<lparr>ca_currentWeight := ca_currentWeight s5 + w\<rparr>, True))))"

text \<open>\<open>set\<close>: \<open>Inr False\<close> is a refused write, \<open>Inr True\<close> the cache itself.\<close>

definition cache_set ::
  "'k \<Rightarrow> 'v \<Rightarrow> js_val \<Rightarrow> js_val \<Rightarrow> rat \<Rightarrow> ('k, 'v) cache \<Rightarrow> (('k, 'v) cache, bool) step option" where
  "cache_set key v ttl0 weight now s =
     (if ca_disposed s then Some (s, Inr False)
      else case cache_expiresAt (default_to (ca_defaultTTL s) ttl0) now of
        Inl e \<Rightarrow> Some (s, Inl e)
      | Inr expiresAt \<Rightarrow>
          (case cache_computeWeight v weight s of
             (s1, Inl e) \<Rightarrow> Some (s1, Inl e)
           | (s1, Inr w) \<Rightarrow>
               (let (s2, rejected) = cache_rejectIfOversized key v w s1 in
                if rejected then Some (s2, Inr False)
                else
                  (let existing = (case jm_get key (ca_map s2) of
                         Some a \<Rightarrow> Some a
                       | None \<Rightarrow> (if ca_policy s2 = S3FIFO
                                 then or_else (jm_get key (ca_smallMap s2)) (jm_get key (ca_ghostMap s2)) else None))
                   in case existing of
                        Some a \<Rightarrow> do {
                          s3 \<leftarrow> cache_updateExisting a v w expiresAt s2;
                          s4 \<leftarrow> cache_evictIfNeeded (cache_increment key s3);
                          Some (s4, Inr True)}
                      | None \<Rightarrow> do {
                          (s3, inserted) \<leftarrow> cache_insertNew key v w expiresAt (length (ca_map s2)) s2;
                          (if \<not> inserted then Some (cache_increment key s3, Inr True)
                           else do {s4 \<leftarrow> cache_evictIfNeeded (cache_increment key s3); Some (s4, Inr True)})}))))"

section \<open>Reading\<close>

definition cache_removeExpiredNode :: "addr \<Rightarrow> rat \<Rightarrow> ('k, 'v) cache \<Rightarrow> ('k, 'v) cache \<times> bool" where
  "cache_removeExpiredNode a now s =
     (if nd_expiresAt (ca_heap s a) = 0 \<or> now < nd_expiresAt (ca_heap s a) then (s, False)
      else
        (let k = key_of s a; v = value_of s a;
             s1 = cache_unlinkNode False a s;
             s2 = (if ca_onExpire s1 then s1\<lparr>ca_expired := ca_expired s1 @ [(k, v)]\<rparr> else s1);
             s3 = cache_freeNode a s2
         in (s3\<lparr>ca_expirations := ca_expirations s3 + 1\<rparr>, True)))"

definition count_miss :: "bool \<Rightarrow> ('k, 'v) cache \<Rightarrow> ('k, 'v) cache" where
  "count_miss countMiss s = (if countMiss then s\<lparr>ca_misses := ca_misses s + 1\<rparr> else s)"

definition cache_fetchValidNode ::
  "'k \<Rightarrow> bool \<Rightarrow> bool \<Rightarrow> bool \<Rightarrow> rat \<Rightarrow> ('k, 'v) cache \<Rightarrow> ('k, 'v) cache \<times> addr option" where
  "cache_fetchValidNode key ignoreExpiry countMiss allowExpired reading s =
     (case (case jm_get key (ca_map s) of
              Some a \<Rightarrow> Some a
            | None \<Rightarrow> (if ca_policy s = S3FIFO
                      then or_else (jm_get key (ca_smallMap s)) (jm_get key (ca_ghostMap s)) else None)) of
        None \<Rightarrow> (count_miss countMiss s, None)
      | Some a \<Rightarrow>
          if jm_get key (ca_map s) = None \<and> nd_queue (ca_heap s a) = GhostQueue then (count_miss countMiss s, None)
          else
            (let now = (if ignoreExpiry \<or> nd_expiresAt (ca_heap s a) = 0 then 0 else reading) in
             if now \<noteq> 0 \<and> nd_expiresAt (ca_heap s a) \<le> now then
               (if allowExpired then (s, Some a)
                else (count_miss countMiss (fst (cache_removeExpiredNode a now s)), None))
             else (s, Some a)))"

definition cache_get :: "'k \<Rightarrow> rat \<Rightarrow> ('k, 'v) cache \<Rightarrow> (('k, 'v) cache \<times> 'v option) option" where
  "cache_get key now s =
     (case cache_fetchValidNode key False True False now s of
        (s1, None) \<Rightarrow> Some (s1, None)
      | (s1, Some a) \<Rightarrow> do {
          s2 \<leftarrow> cache_moveToTail a s1;
          (let s3 = cache_increment key (s2\<lparr>ca_hits := ca_hits s2 + 1\<rparr>) in Some (s3, value_of s3 a))})"

definition cache_peek :: "'k \<Rightarrow> rat \<Rightarrow> ('k, 'v) cache \<Rightarrow> ('k, 'v) cache \<times> 'v option" where
  "cache_peek key now s =
     (case cache_fetchValidNode key False False False now s of
        (s1, None) \<Rightarrow> (s1, None) | (s1, Some a) \<Rightarrow> (s1, value_of s1 a))"

definition cache_has :: "'k \<Rightarrow> bool \<Rightarrow> rat \<Rightarrow> ('k, 'v) cache \<Rightarrow> ('k, 'v) cache \<times> bool" where
  "cache_has key ignoreExpiry now s =
     (let (s1, a) = cache_fetchValidNode key ignoreExpiry False False now s in (s1, a \<noteq> None))"

definition cache_touch :: "'k \<Rightarrow> js_val \<Rightarrow> rat \<Rightarrow> ('k, 'v) cache \<Rightarrow> (('k, 'v) cache, bool) step option" where
  "cache_touch key ttl now s =
     (case cache_fetchValidNode key False False False now s of
        (s1, None) \<Rightarrow> Some (s1, Inr False)
      | (s1, Some a) \<Rightarrow>
          (case (if ttl \<noteq> JUndefined then map_sum id Some (cache_expiresAt ttl now) else Inr None) of
             Inl e \<Rightarrow> Some (s1, Inl e)
           | Inr ex \<Rightarrow>
               (let s2 = (case ex of Some t \<Rightarrow> node_upd a (\<lambda>n. n\<lparr>nd_expiresAt := t\<rparr>) s1 | None \<Rightarrow> s1)
                in do {s3 \<leftarrow> cache_moveToTail a s2; Some (s3, Inr True)})))"

text \<open>The many-key forms; a write that throws leaves the loop.\<close>

fun setMany_loop ::
  "('k \<times> 'v) list \<Rightarrow> js_val \<Rightarrow> rat \<Rightarrow> ('k, 'v) cache \<Rightarrow> (('k, 'v) cache, unit) step option" where
  "setMany_loop [] weight expiresAt s = Some (s, Inr ())"
| "setMany_loop ((key, v) # entries) weight expiresAt s =
     (case cache_computeWeight v weight s of
        (s1, Inl e) \<Rightarrow> Some (s1, Inl e)
      | (s1, Inr w) \<Rightarrow>
          (let (s2, rejected) = cache_rejectIfOversized key v w s1 in
           if rejected then setMany_loop entries weight expiresAt s2
           else case jm_get key (ca_map s2) of
               Some a \<Rightarrow> do {s3 \<leftarrow> cache_updateExisting a v w expiresAt s2;
                            setMany_loop entries weight expiresAt (cache_increment key s3)}
             | None \<Rightarrow> do {(s3, inserted) \<leftarrow> cache_insertNew key v w expiresAt (length (ca_map s2)) s2;
                          setMany_loop entries weight expiresAt (if inserted then cache_increment key s3 else s3)}))"

definition cache_setMany ::
  "('k \<times> 'v) list \<Rightarrow> js_val \<Rightarrow> js_val \<Rightarrow> rat \<Rightarrow> ('k, 'v) cache \<Rightarrow> (('k, 'v) cache, unit) step option" where
  "cache_setMany entries ttl weight now s =
     (case cache_expiresAt ttl now of
        Inl e \<Rightarrow> Some (s, Inl e)
      | Inr expiresAt \<Rightarrow> do {
          (s1, r) \<leftarrow> setMany_loop entries weight expiresAt s;
          (case r of Inl e \<Rightarrow> Some (s1, Inl e)
           | Inr _ \<Rightarrow> do {s2 \<leftarrow> cache_evictIfNeeded s1; Some (s2, Inr ())})})"

fun cache_getMany ::
  "'k list \<Rightarrow> bool \<Rightarrow> rat \<Rightarrow> ('k, 'v option) js_map \<Rightarrow> ('k, 'v) cache \<Rightarrow> (('k, 'v) cache \<times> ('k, 'v option) js_map) option" where
  "cache_getMany [] ignoreExpiry now res s = Some (s, res)"
| "cache_getMany (key # keys) ignoreExpiry now res s =
     (case cache_fetchValidNode key ignoreExpiry True False now s of
        (s1, None) \<Rightarrow> cache_getMany keys ignoreExpiry now res s1
      | (s1, Some a) \<Rightarrow> do {
          s2 \<leftarrow> cache_moveToTail a s1;
          cache_getMany keys ignoreExpiry now (jm_set key (value_of s2 a) res) (s2\<lparr>ca_hits := ca_hits s2 + 1\<rparr>)})"

text \<open>\<open>load\<close>: an entry of the snapshot with its key, value and options; \<open>None\<close> is one that is not an
  entry and is skipped.\<close>

fun cache_load ::
  "('k \<times> 'v \<times> js_val \<times> js_val) option list \<Rightarrow> rat \<Rightarrow> nat \<Rightarrow> ('k, 'v) cache \<Rightarrow> (('k, 'v) cache, nat) step option" where
  "cache_load [] now accepted s = Some (s, Inr accepted)"
| "cache_load (None # es) now accepted s = cache_load es now accepted s"
| "cache_load (Some (key, v, ttl, weight) # es) now accepted s = do {
     (s1, r) \<leftarrow> cache_set key v ttl (default_to JNull weight) now s;
     (case r of Inl e \<Rightarrow> Some (s1, Inl e)
      | Inr ok \<Rightarrow> cache_load es now (if ok then accepted + 1 else accepted) s1)}"

section \<open>Removal\<close>

definition cache_delete :: "'k \<Rightarrow> ('k, 'v) cache \<Rightarrow> ('k, 'v) cache \<times> bool" where
  "cache_delete key s =
     (let s1 = fst (cache_abortInflight (Some key) s);
          node = (case jm_get key (ca_map s1) of
                Some a \<Rightarrow> Some a
              | None \<Rightarrow> (if ca_policy s1 = S3FIFO
                        then or_else (jm_get key (ca_smallMap s1)) (jm_get key (ca_ghostMap s1)) else None))
      in case node of
           None \<Rightarrow> (s1, False)
         | Some a \<Rightarrow>
             (let s2 = cache_unlinkNode False a s1
              in (cache_freeNode a (cache_notifyEvict (key_of s2 a) (value_of s2 a) Deleted s2), True)))"

partial_function (option) walk_all :: "('k, 'v) cache \<Rightarrow> addr option \<Rightarrow> addr list option" where
  "walk_all s nd =
     (case nd of None \<Rightarrow> Some [] | Some a \<Rightarrow> do {as \<leftarrow> walk_all s (next_of s a); Some (a # as)})"

definition is_linked :: "addr option \<Rightarrow> ('k, 'v) cache \<Rightarrow> bool" where
  "is_linked nd s =
     (case nd of None \<Rightarrow> False
      | Some a \<Rightarrow> prev_of s a \<noteq> None \<or> next_of s a \<noteq> None \<or> ca_head s = Some a \<or> ca_tail s = Some a)"

fun invalidate_loop :: "addr list \<Rightarrow> nat \<Rightarrow> ('k, 'v) cache \<Rightarrow> ('k, 'v) cache \<times> nat" where
  "invalidate_loop [] removed s = (s, removed)"
| "invalidate_loop (a # as) removed s =
     (if (case key_of s a of None \<Rightarrow> None | Some k \<Rightarrow> jm_get k (ca_map s)) \<noteq> Some a then invalidate_loop as removed s
      else
        (let s1 = cache_unlinkNode False a (fst (cache_abortInflight (key_of s a) s));
             s2 = cache_notifyEvict (key_of s1 a) (value_of s1 a) Invalidated (s1\<lparr>ca_evictions := ca_evictions s1 + 1\<rparr>)
         in invalidate_loop as (removed + 1) (cache_freeNode a s2)))"

definition cache_invalidate ::
  "('k option \<Rightarrow> 'v option \<Rightarrow> bool) \<Rightarrow> ('k, 'v) cache \<Rightarrow> (('k, 'v) cache \<times> nat) option" where
  "cache_invalidate predicate s =
     do {
       main \<leftarrow> walk_all s (ca_head s);
       small \<leftarrow> (if ca_policy s = S3FIFO then walk_all s (ca_smallHead s) else Some []);
       ghost \<leftarrow> (if ca_policy s = S3FIFO then walk_all s (ca_ghostHead s) else Some []);
       (let doomed = filter (\<lambda>a. predicate (key_of s a) (value_of s a)) (main @ small @ ghost);
            (s1, removed) = invalidate_loop doomed 0 s
        in Some (if \<not> is_linked (ca_evictionCandidate s1) s1 then s1\<lparr>ca_evictionCandidate := ca_head s1\<rparr> else s1, removed))}"

fun evict_count :: "nat \<Rightarrow> nat \<Rightarrow> ('k, 'v) cache \<Rightarrow> ('k, 'v) cache \<times> nat" where
  "evict_count 0 removed s = (s, removed)"
| "evict_count (Suc n) removed s =
     (case or_else (ca_evictionCandidate s) (ca_head s) of
        None \<Rightarrow> (s, removed)
      | Some a \<Rightarrow> evict_count n (removed + 1) (cache_evictAt True a s))"

definition cache_evict :: "js_val \<Rightarrow> ('k, 'v) cache \<Rightarrow> (('k, 'v) cache, nat) step" where
  "cache_evict count s =
     (case default_to (JNum (Fin 1)) count of
        JNum n \<Rightarrow>
          if \<not> is_integer n \<or> num_lt n (Fin 0) then (s, Inl (TypeErr ''PowerCache'' ''evict''))
          else (let (s1, removed) = evict_count (nat \<lfloor>num_rat n\<rfloor>) 0 s in (settle_candidate s1, Inr removed))
      | _ \<Rightarrow> (s, Inl (TypeErr ''PowerCache'' ''evict'')))"

fun abort_all :: "'k list \<Rightarrow> ('k, 'v) cache \<Rightarrow> ('k, 'v) cache" where
  "abort_all [] s = s"
| "abort_all (k # ks) s = abort_all ks (fst (cache_abortInflight (Some k) s))"

partial_function (option) free_all :: "addr option \<Rightarrow> ('k, 'v) cache \<Rightarrow> ('k, 'v) cache option" where
  "free_all nd s = (case nd of None \<Rightarrow> Some s | Some a \<Rightarrow> (let nxt = next_of s a in free_all nxt (cache_freeNode a s)))"

definition cache_clear :: "('k, 'v) cache \<Rightarrow> ('k, 'v) cache option" where
  "cache_clear s =
     (let s0 = abort_all (jm_keys (ca_inflight s)) s in
      do {s1 \<leftarrow> free_all (ca_head s0) s0;
          Some (s1\<lparr>ca_head := None, ca_tail := None, ca_map := [], ca_smallMap := [], ca_ghostMap := [],
            ca_smallSize := 0, ca_ghostSize := 0, ca_smallHead := None, ca_smallTail := None,
            ca_ghostHead := None, ca_ghostTail := None, ca_sieveHand := None,
            ca_sketch := map_option sketch_clear (ca_sketch s1), ca_rejectedAdmission := 0, ca_currentWeight := 0,
            ca_cleanupCursor := None, ca_cleanupCursorValid := False, ca_evictionCandidate := None,
            ca_probationEnd := None, ca_inflight := []\<rparr>)})"

definition cache_dispose :: "('k, 'v) cache \<Rightarrow> ('k, 'v) cache option" where
  "cache_dispose s = cache_clear (s\<lparr>ca_disposed := True\<rparr>)"

text \<open>The sweep; \<open>scanned\<close> counts up to \<open>maxScan\<close>.\<close>

partial_function (option) cleanup_loop ::
  "rat \<Rightarrow> js_num \<Rightarrow> addr option \<Rightarrow> nat \<Rightarrow> ('k, 'v) cache \<Rightarrow> (('k, 'v) cache \<times> addr option \<times> nat) option" where
  "cleanup_loop now maxScan nd scanned s =
     (case nd of
        None \<Rightarrow> Some (s, nd, scanned)
      | Some a \<Rightarrow>
          if \<not> num_lt (Fin (of_nat scanned)) maxScan then Some (s, nd, scanned)
          else (let nxt = next_of s a
                in cleanup_loop now maxScan nxt (scanned + 1) (fst (cache_removeExpiredNode a now s))))"

definition cache_cleanupExpiredUpTo :: "js_num \<Rightarrow> rat \<Rightarrow> ('k, 'v) cache \<Rightarrow> (('k, 'v) cache \<times> nat) option" where
  "cache_cleanupExpiredUpTo maxScan now s =
     do {
       (s1, nd, scanned) \<leftarrow> cleanup_loop now maxScan
         (if ca_cleanupCursor s \<noteq> None \<and> ca_cleanupCursorValid s then ca_cleanupCursor s else ca_head s) 0 s;
       (let s2 = s1\<lparr>ca_cleanupCursor := or_else nd (ca_head s1)\<rparr>
        in Some (s2\<lparr>ca_cleanupCursorValid := (ca_cleanupCursor s2 \<noteq> None)\<rparr>, scanned))}"

definition cache_cleanupExpired :: "rat \<Rightarrow> ('k, 'v) cache \<Rightarrow> (('k, 'v) cache \<times> nat) option" where
  "cache_cleanupExpired now s = cache_cleanupExpiredUpTo PosInf now s"

definition resized :: "js_val \<Rightarrow> js_num \<Rightarrow> js_num result" where
  "resized v old = map_sum id (\<lambda>n. case n of Fin r \<Rightarrow> Fin (max 0 r) | _ \<Rightarrow> old) (to_number v)"

definition cache_resize :: "js_val \<Rightarrow> js_val \<Rightarrow> ('k, 'v) cache \<Rightarrow> (('k, 'v) cache, unit) step option" where
  "cache_resize maxEntries maxWeight s =
     (case resized maxEntries (ca_maxEntries s) of
        Inl e \<Rightarrow> Some (s, Inl e)
      | Inr m \<Rightarrow>
          (let s1 = s\<lparr>ca_maxEntries := m\<rparr> in
           case resized maxWeight (ca_maxWeight s1) of
             Inl e \<Rightarrow> Some (s1, Inl e)
           | Inr w \<Rightarrow> do {
               s2 \<leftarrow> cache_evictIfNeeded (s1\<lparr>ca_maxWeight := w\<rparr>);
               Some (s2\<lparr>ca_cleanupCursor := None, ca_cleanupCursorValid := False,
                 ca_evictionCandidate := ca_head s2\<rparr>, Inr ())}))"

section \<open>Sizes and iteration\<close>

definition cache_size :: "('k, 'v) cache \<Rightarrow> int" where
  "cache_size s = (if ca_policy s = S3FIFO then int (length (ca_map s)) + ca_smallSize s else int (length (ca_map s)))"

definition cache_ghostSize :: "('k, 'v) cache \<Rightarrow> int" where
  "cache_ghostSize s = (if ca_policy s = S3FIFO then ca_ghostSize s else 0)"

definition cache_hitRate :: "('k, 'v) cache \<Rightarrow> rat" where
  "cache_hitRate s = (let total = ca_hits s + ca_misses s in if total = 0 then 0 else of_nat (ca_hits s) / of_nat total)"

text \<open>A walk of the links with a budget, for a caller that does not change the cache meanwhile.\<close>

fun walk_entries :: "bool \<Rightarrow> nat \<Rightarrow> addr option \<Rightarrow> ('k, 'v) cache \<Rightarrow> ('k option \<times> 'v option) list" where
  "walk_entries mru 0 nd s = []"
| "walk_entries mru (Suc n) nd s =
     (case nd of None \<Rightarrow> []
      | Some a \<Rightarrow> (key_of s a, value_of s a) # walk_entries mru n (if mru then prev_of s a else next_of s a) s)"

definition cache_entries :: "bool \<Rightarrow> ('k, 'v) cache \<Rightarrow> ('k option \<times> 'v option) list" where
  "cache_entries mru s =
     (let main = walk_entries mru (length (ca_map s)) (if mru then ca_tail s else ca_head s) s in
      if ca_policy s = S3FIFO
      then take (nat (cache_size s))
             (main @ walk_entries mru (nat (ca_smallSize s)) (if mru then ca_smallTail s else ca_smallHead s) s)
      else main)"

section \<open>Fetching\<close>

definition cache_staleServable :: "addr \<Rightarrow> rat \<Rightarrow> ('k, 'v) cache \<Rightarrow> bool" where
  "cache_staleServable a now s =
     (case ca_staleTtl s of Fin t \<Rightarrow> now \<le> nd_expiresAt (ca_heap s a) + t | _ \<Rightarrow> True)"

text \<open>A background refresh: its start, and its end with a value or without.\<close>

definition cache_refreshStaleEntry :: "'k \<Rightarrow> ('k, 'v) cache \<Rightarrow> ('k, 'v) cache" where
  "cache_refreshStaleEntry key s =
     (if jm_has key (ca_inflight s) then s
      else if \<not> num_lt (Fin (of_nat (length (ca_inflight s)))) (ca_maxInflightRefreshes s)
      then s\<lparr>ca_refreshesSkipped := ca_refreshesSkipped s + 1\<rparr>
      else s\<lparr>ca_inflight := jm_set key False (ca_inflight s)\<rparr>)"

definition cache_refreshSettles ::
  "'k \<Rightarrow> bool \<Rightarrow> 'v option \<Rightarrow> js_val \<Rightarrow> js_val \<Rightarrow> rat \<Rightarrow> ('k, 'v) cache \<Rightarrow> ('k, 'v) cache option" where
  "cache_refreshSettles key aborted outcome ttl weight now s =
     do {
       s1 \<leftarrow> (case outcome of
           Some v \<Rightarrow> map_option fst (cache_set key v ttl weight now s)
         | None \<Rightarrow> Some (if aborted then s else s\<lparr>ca_refreshesFailed := ca_refreshesFailed s + 1\<rparr>));
       Some (s1\<lparr>ca_inflight := jm_delete key (ca_inflight s1)\<rparr>)}"

text \<open>\<open>getOrSet\<close>: \<open>fetched\<close> is the plain value given, or what the factory, if it is one, returned;
  \<open>later\<close> is the clock when it is stored.\<close>

definition cache_getOrSet ::
  "'k \<Rightarrow> bool \<Rightarrow> 'v \<Rightarrow> js_val \<Rightarrow> js_val \<Rightarrow> bool \<Rightarrow> rat \<Rightarrow> rat \<Rightarrow> ('k, 'v) cache \<Rightarrow> (('k, 'v) cache, 'v option) step option" where
  "cache_getOrSet key isFactory fetched ttl weight staleWhileRevalidate now later s =
     (let store = (\<lambda>t. do {(t1, r) \<leftarrow> cache_set key fetched ttl weight later t;
                            Some (t1, map_sum id (\<lambda>_. Some fetched) r)}) in
      case cache_fetchValidNode key False False staleWhileRevalidate now s of
        (s1, None) \<Rightarrow> store (count_miss True s1)
      | (s1, Some a) \<Rightarrow>
          if nd_expiresAt (ca_heap s1 a) \<noteq> 0 \<and> nd_expiresAt (ca_heap s1 a) \<le> now then
            (if isFactory \<and> cache_staleServable a now s1 then do {
               s2 \<leftarrow> cache_moveToTail a s1;
               (let s3 = cache_refreshStaleEntry key (s2\<lparr>ca_hits := ca_hits s2 + 1, ca_staleServes := ca_staleServes s2 + 1\<rparr>)
                in Some (s3, Inr (value_of s3 a)))}
             else store (count_miss True (fst (cache_removeExpiredNode a now s1))))
          else do {
            s2 \<leftarrow> cache_moveToTail a s1;
            Some (s2\<lparr>ca_hits := ca_hits s2 + 1\<rparr>, Inr (value_of s2 a))})"

datatype 'v fetch_start = Hit "'v option" | Joined | Started

definition cache_getOrSetAsync ::
  "'k \<Rightarrow> bool \<Rightarrow> rat \<Rightarrow> ('k, 'v) cache \<Rightarrow> (('k, 'v) cache \<times> 'v fetch_start) option" where
  "cache_getOrSetAsync key staleWhileRevalidate now s =
     (let start = (\<lambda>t. if jm_has key (ca_inflight t) then (t, Joined)
                        else (t\<lparr>ca_misses := ca_misses t + 1, ca_inflight := jm_set key False (ca_inflight t)\<rparr>, Started)) in
      case jm_get key (ca_map s) of
        None \<Rightarrow> Some (start s)
      | Some a \<Rightarrow>
          if nd_expiresAt (ca_heap s a) \<noteq> 0 \<and> nd_expiresAt (ca_heap s a) \<le> now then
            (if staleWhileRevalidate \<and> cache_staleServable a now s then do {
               s2 \<leftarrow> cache_moveToTail a s;
               (let s3 = cache_refreshStaleEntry key (s2\<lparr>ca_hits := ca_hits s2 + 1, ca_staleServes := ca_staleServes s2 + 1\<rparr>)
                in Some (s3, Hit (value_of s3 a)))}
             else Some (start (fst (cache_removeExpiredNode a now s))))
          else do {
            s2 \<leftarrow> cache_moveToTail a s;
            Some (s2\<lparr>ca_hits := ca_hits s2 + 1\<rparr>, Hit (value_of s2 a))})"

text \<open>The factory's value is stored when it arrives; the slot is released when the call settles or times out.\<close>

definition cache_fetchStores :: "'k \<Rightarrow> 'v \<Rightarrow> js_val \<Rightarrow> js_val \<Rightarrow> rat \<Rightarrow> ('k, 'v) cache \<Rightarrow> ('k, 'v) cache option" where
  "cache_fetchStores key v ttl weight now s = map_option fst (cache_set key v ttl weight now s)"

definition cache_fetchReleases :: "'k \<Rightarrow> ('k, 'v) cache \<Rightarrow> ('k, 'v) cache" where
  "cache_fetchReleases key s =
     (let s1 = fst (cache_abortInflight (Some key) s) in s1\<lparr>ca_inflight := jm_delete key (ca_inflight s1)\<rparr>)"

text \<open>The loops are run by their equations.\<close>

declare walk_all.simps [code] and free_all.simps [code] and cleanup_loop.simps [code]

end
