(* ===== verification/CacheList.thy ===== *)
theory CacheList
  imports Cache
begin

text \<open>
  Segments of the doubly linked list that the nodes of the cache form, and what removing and
  appending a node does to them under the \<open>LRU\<close> policy.
\<close>

section \<open>Segments of a doubly linked list\<close>

fun first :: "'a list \<Rightarrow> 'a option \<Rightarrow> 'a option" where
  "first [] n = n"
| "first (a # as) n = Some a"

fun final :: "'a option \<Rightarrow> 'a list \<Rightarrow> 'a option" where
  "final p [] = p"
| "final p (a # as) = final (Some a) as"

type_synonym ('k, 'v) node_heap = "addr \<Rightarrow> ('k, 'v) cache_node"

fun lseg :: "('k, 'v) node_heap \<Rightarrow> addr option \<Rightarrow> addr list \<Rightarrow> addr option \<Rightarrow> bool" where
  "lseg h p [] n = True"
| "lseg h p (a # as) n \<longleftrightarrow> nd_prev (h a) = p \<and> nd_next (h a) = first as n \<and> lseg h (Some a) as n"

lemma first_append [simp]: "first (xs @ ys) n = first xs (first ys n)"
  by (cases xs) auto

lemma final_append [simp]: "final p (xs @ ys) = final (final p xs) ys"
  by (induction xs arbitrary: p) auto

lemma first_None [simp]: "first xs None = None \<longleftrightarrow> xs = []"
  by (cases xs) auto

lemma final_None [simp]: "final p xs = None \<longleftrightarrow> p = None \<and> xs = []"
  by (cases xs rule: rev_cases) auto

lemma first_Some: "xs \<noteq> [] \<Longrightarrow> first xs n = Some (hd xs)"
  by (cases xs) auto

lemma final_Some: "xs \<noteq> [] \<Longrightarrow> final p xs = Some (last xs)"
  by (cases xs rule: rev_cases) auto

lemma lseg_append [simp]:
  "lseg h p (xs @ ys) n \<longleftrightarrow> lseg h p xs (first ys n) \<and> lseg h (final p xs) ys n"
  by (induction xs arbitrary: p) auto

lemma lseg_other [simp]: "a \<notin> set xs \<Longrightarrow> lseg (h(a := x)) p xs n = lseg h p xs n"
  by (induction xs arbitrary: p) auto

lemma lseg_data:
  "\<forall>a\<in>set xs. nd_prev (h a) = nd_prev (g a) \<and> nd_next (h a) = nd_next (g a) \<Longrightarrow> lseg h p xs n = lseg g p xs n"
  by (induction xs arbitrary: p) auto

definition heap_next :: "addr option \<Rightarrow> addr option \<Rightarrow> ('k, 'v) node_heap \<Rightarrow> ('k, 'v) node_heap" where
  "heap_next a n h = (case a of None \<Rightarrow> h | Some x \<Rightarrow> h(x := (h x)\<lparr>nd_next := n\<rparr>))"

definition heap_prev :: "addr option \<Rightarrow> addr option \<Rightarrow> ('k, 'v) node_heap \<Rightarrow> ('k, 'v) node_heap" where
  "heap_prev a p h = (case a of None \<Rightarrow> h | Some x \<Rightarrow> h(x := (h x)\<lparr>nd_prev := p\<rparr>))"

lemma heap_next_simps [simp]: "heap_next None n h = h" "heap_next (Some x) n h = h(x := (h x)\<lparr>nd_next := n\<rparr>)"
  by (simp_all add: heap_next_def)

lemma heap_prev_simps [simp]: "heap_prev None n h = h" "heap_prev (Some x) n h = h(x := (h x)\<lparr>nd_prev := n\<rparr>)"
  by (simp_all add: heap_prev_def)

lemma set_next_heap: "set_next a n s = s\<lparr>ca_heap := heap_next a n (ca_heap s)\<rparr>"
  by (cases a) (simp_all add: set_next_def node_upd_def)

lemma set_prev_heap: "set_prev a p s = s\<lparr>ca_heap := heap_prev a p (ca_heap s)\<rparr>"
  by (cases a) (simp_all add: set_prev_def node_upd_def)

text \<open>What a node holds beside its links, which relinking keeps.\<close>

definition node_data :: "('k, 'v) cache_node \<Rightarrow> ('k, 'v) cache_node" where
  "node_data n = n\<lparr>nd_prev := None, nd_next := None\<rparr>"

definition same_data :: "('k, 'v) node_heap \<Rightarrow> ('k, 'v) node_heap \<Rightarrow> bool" where
  "same_data h g \<longleftrightarrow> (\<forall>a. node_data (h a) = node_data (g a))"

lemma node_data_upd [simp]:
  "node_data (n\<lparr>nd_prev := p\<rparr>) = node_data n" "node_data (n\<lparr>nd_next := p\<rparr>) = node_data n"
  by (simp_all add: node_data_def)

lemma same_data_refl [simp]: "same_data h h"
  by (simp add: same_data_def)

lemma same_data_trans: "same_data h g \<Longrightarrow> same_data g f \<Longrightarrow> same_data h f"
  by (simp add: same_data_def)

lemma same_data_next [simp]: "same_data (heap_next a n h) g = same_data h g"
  by (cases a) (auto simp: same_data_def)

lemma same_data_prev [simp]: "same_data (heap_prev a n h) g = same_data h g"
  by (cases a) (auto simp: same_data_def)

lemma node_data_eqD:
  "node_data n = node_data m \<Longrightarrow> nd_key n = nd_key m \<and> nd_value n = nd_value m \<and> nd_weight n = nd_weight m
     \<and> nd_expiresAt n = nd_expiresAt m \<and> nd_inWindow n = nd_inWindow m \<and> nd_visited n = nd_visited m
     \<and> nd_queue n = nd_queue m"
  by (cases n, cases m) (simp add: node_data_def)

lemma same_dataD:
  assumes "same_data h g"
  shows "nd_key (h a) = nd_key (g a)" "nd_value (h a) = nd_value (g a)" "nd_weight (h a) = nd_weight (g a)"
    "nd_expiresAt (h a) = nd_expiresAt (g a)"
  using assms node_data_eqD [of "h a" "g a"] by (simp_all add: same_data_def)

lemma lseg_splice:
  assumes "lseg h None (ys @ a # zs) None" "distinct (ys @ a # zs)"
  defines "p \<equiv> final None ys" and "n \<equiv> first zs None"
  shows "lseg (heap_next (Some a) None (heap_prev (Some a) None (heap_prev n p (heap_next p n h)))) None (ys @ zs) None"
proof (cases ys rule: rev_cases)
  case Nil
  then show ?thesis using assms by (cases zs) auto
next
  case (snoc us b)
  then show ?thesis using assms by (cases zs) auto
qed

lemma lseg_snoc:
  assumes "lseg h None xs None" "distinct xs" "a \<notin> set xs"
  defines "p \<equiv> final None xs"
  shows "lseg (heap_next p (Some a) (heap_next (Some a) None (heap_prev (Some a) p h))) None (xs @ [a]) None"
  using assms by (cases xs rule: rev_cases) auto

section \<open>Removing and appending a node\<close>

definition lru_list :: "('k, 'v) cache \<Rightarrow> addr list \<Rightarrow> bool" where
  "lru_list s xs \<longleftrightarrow> lseg (ca_heap s) None xs None \<and> distinct xs \<and> ca_head s = first xs None \<and> ca_tail s = final None xs
     \<and> ca_evictionCandidate s = first xs None"

lemma policy_set_next [simp]: "ca_policy (set_next a n s) = ca_policy s"
  by (simp add: set_next_heap)

lemma policy_set_prev [simp]: "ca_policy (set_prev a n s) = ca_policy s"
  by (simp add: set_prev_heap)

lemma remove_shape:
  fixes s :: "('k, 'v) cache" and a :: addr
  assumes "ca_policy s = LRU"
  defines "p \<equiv> prev_of s a" and "n \<equiv> next_of s a"
  shows "\<exists>pe w1 w2. cache_remove a s =
    s\<lparr>ca_heap := heap_next (Some a) None (heap_prev (Some a) None (heap_prev n p (heap_next p n (ca_heap s)))),
      ca_head := (if p = None then n else ca_head s), ca_tail := (if n = None then p else ca_tail s),
      ca_evictionCandidate := (if p = None then n else ca_evictionCandidate s),
      ca_probationEnd := pe, ca_windowStartMemo := w1, ca_windowTail := w2\<rparr>"
proof -
  define t where "t = s\<lparr>ca_heap := heap_prev n p (heap_next p n (ca_heap s)),
      ca_head := (if p = None then n else ca_head s), ca_tail := (if n = None then p else ca_tail s),
      ca_evictionCandidate := (if p = None then n else ca_evictionCandidate s)\<rparr>"
  have t: "(let s1 = (case p of Some x \<Rightarrow> set_next p n s | None \<Rightarrow> s\<lparr>ca_head := n\<rparr>);
          s2 = (if p = None then s1\<lparr>ca_evictionCandidate := ca_head s1\<rparr> else s1)
      in (case n of Some x \<Rightarrow> set_prev n p s2 | None \<Rightarrow> s2\<lparr>ca_tail := p\<rparr>)) = t"
    by (cases p; cases n; cases s) (simp_all add: t_def set_next_heap set_prev_heap)
  obtain pe w1 w2 where r: "cache_remove a s = set_next (Some a) None (set_prev (Some a) None
          (t\<lparr>ca_probationEnd := pe, ca_windowStartMemo := w1, ca_windowTail := w2\<rparr>))"
  proof -
    have pol: "ca_policy t = LRU" using assms(1) by (simp add: t_def)
    have eq: "cache_remove a s =
      (let s4 = (if ca_probationEnd t = Some a then t\<lparr>ca_probationEnd := p\<rparr> else t);
           s7 = (if nd_inWindow (ca_heap s4 a) then s4\<lparr>ca_windowStartMemo := None, ca_windowTail := None\<rparr> else s4)
       in set_next (Some a) None (set_prev (Some a) None s7))"
      unfolding cache_remove_def p_def [symmetric] n_def [symmetric] Let_def t [unfolded Let_def]
      using pol by (simp cong: if_cong)
    show thesis
      by (rule that [of "if nd_inWindow (ca_heap t a) then None else ca_windowTail t"
            "if nd_inWindow (ca_heap t a) then None else ca_windowStartMemo t"
            "if ca_probationEnd t = Some a then p else ca_probationEnd t"]) (simp add: eq Let_def)
  qed
  show ?thesis
    by (rule exI [of _ pe], rule exI [of _ w1], rule exI [of _ w2]) (simp add: r t_def set_next_heap set_prev_heap)
qed

lemma cache_remove_lru:
  assumes "ca_policy s = LRU" "lseg (ca_heap s) None (ys @ a # zs) None" "distinct (ys @ a # zs)"
    "ca_head s = first (ys @ a # zs) None" "ca_tail s = final None (ys @ a # zs)"
    "ys \<noteq> [] \<Longrightarrow> ca_evictionCandidate s = first ys None"
  obtains h pe w1 w2 where
    "cache_remove a s = s\<lparr>ca_heap := h, ca_head := first (ys @ zs) None, ca_tail := final None (ys @ zs),
       ca_evictionCandidate := first (ys @ zs) None, ca_probationEnd := pe, ca_windowStartMemo := w1, ca_windowTail := w2\<rparr>"
    "lseg h None (ys @ zs) None" "same_data h (ca_heap s)"
proof -
  have p: "prev_of s a = final None ys" and n: "next_of s a = first zs None"
    using assms(2) by simp_all
  obtain pe w1 w2 where r: "cache_remove a s =
    s\<lparr>ca_heap := heap_next (Some a) None (heap_prev (Some a) None
        (heap_prev (first zs None) (final None ys) (heap_next (final None ys) (first zs None) (ca_heap s)))),
      ca_head := (if final None ys = None then first zs None else ca_head s),
      ca_tail := (if first zs None = None then final None ys else ca_tail s),
      ca_evictionCandidate := (if final None ys = None then first zs None else ca_evictionCandidate s),
      ca_probationEnd := pe, ca_windowStartMemo := w1, ca_windowTail := w2\<rparr>"
    using remove_shape [OF assms(1), of a] unfolding p n by blast
  have hd: "(if final None ys = None then first zs None else ca_head s) = first (ys @ zs) None"
    using assms(4) by (cases ys) auto
  have tl: "(if first zs None = None then final None ys else ca_tail s) = final None (ys @ zs)"
    using assms(5) by (cases zs) auto
  have ev: "(if final None ys = None then first zs None else ca_evictionCandidate s) = first (ys @ zs) None"
    using assms(6) by (cases ys) auto
  show ?thesis
    by (rule that [OF r [unfolded hd tl ev] lseg_splice [OF assms(2,3)]])
      (simp only: same_data_next same_data_prev same_data_refl)
qed

lemma cache_append_lru:
  assumes "ca_policy s = LRU" "lru_list s xs" "a \<notin> set xs"
    "xs = [] \<Longrightarrow> prev_of s a = None \<and> next_of s a = None"
  obtains h where
    "cache_append a s = s\<lparr>ca_heap := h, ca_head := first (xs @ [a]) None, ca_tail := Some a,
       ca_evictionCandidate := first (xs @ [a]) None\<rparr>"
    "lseg h None (xs @ [a]) None" "same_data h (ca_heap s)"
proof (cases "xs = []")
  case True
  show ?thesis
    by (rule that [of "ca_heap s"]) (use assms True in \<open>simp_all add: cache_append_def lru_list_def\<close>)
next
  case False
  have l: "lseg (ca_heap s) None xs None" "distinct xs" "ca_head s = first xs None" "ca_tail s = final None xs"
      "ca_evictionCandidate s = first xs None"
    using assms(2) by (simp_all add: lru_list_def)
  have hd: "first (xs @ [a]) None = ca_head s" "first (xs @ [a]) None = ca_evictionCandidate s"
    using False l by (simp_all add: first_Some)
  define h where "h = heap_next (final None xs) (Some a) (heap_next (Some a) None (heap_prev (Some a) (final None xs) (ca_heap s)))"
  obtain t where "ca_tail s = Some t" using False l by (simp add: final_Some)
  then have "cache_append a s = cache_linkTail a s" using assms(1) by (simp add: cache_append_def)
  also have "\<dots> = s\<lparr>ca_heap := h, ca_tail := Some a\<rparr>"
    by (simp add: cache_linkTail_def Let_def set_next_heap set_prev_heap h_def l)
  also have "\<dots> = s\<lparr>ca_heap := h, ca_head := first (xs @ [a]) None, ca_tail := Some a,
       ca_evictionCandidate := first (xs @ [a]) None\<rparr>"
    using hd by (cases s) simp
  finally show ?thesis
    by (rule that) (simp_all only: h_def lseg_snoc [OF l(1,2) assms(3)] same_data_next same_data_prev same_data_refl)
qed

end
