(* ===== verification/CacheRep.thy ===== *)
theory CacheRep
  imports CacheList
begin

text \<open>
  The representation invariant of the cache under its default policy (\<open>LRU\<close>, no admission filter,
  no \<open>missCost\<close>): linked nodes, map, free list and weights against a list of addresses, the
  abstract cache it stands for, and how unlinking, freeing, moving, rewriting and inserting a node
  keep it.
\<close>

section \<open>Representation\<close>

definition lru_mode :: "('k, 'v) cache \<Rightarrow> bool" where
  "lru_mode s \<longleftrightarrow> ca_policy s = LRU \<and> ca_sketch s = None \<and> ca_missCost s = None \<and> ca_windowSize s = Fin 0"

definition map_rep :: "('k, addr) js_map \<Rightarrow> ('k, 'v) node_heap \<Rightarrow> addr list \<Rightarrow> bool" where
  "map_rep m h xs \<longleftrightarrow> jm_ok m \<and> length m = length xs
     \<and> (\<forall>k a. jm_get k m = Some a \<longleftrightarrow> a \<in> set xs \<and> nd_key (h a) = Some k)
     \<and> (\<forall>a\<in>set xs. nd_key (h a) \<noteq> None \<and> nd_value (h a) \<noteq> None)"

definition pool_rep :: "addr list \<Rightarrow> addr \<Rightarrow> addr list \<Rightarrow> bool" where
  "pool_rep pool fresh xs \<longleftrightarrow> distinct pool \<and> set pool \<inter> set xs = {} \<and> (\<forall>a\<in>set pool \<union> set xs. a < fresh)"

definition weight_rep :: "rat \<Rightarrow> ('k, 'v) node_heap \<Rightarrow> addr list \<Rightarrow> bool" where
  "weight_rep w h xs \<longleftrightarrow> w = sum_list (map (\<lambda>a. nd_weight (h a)) xs) \<and> (\<forall>a\<in>set xs. 0 \<le> nd_weight (h a))"

definition lru_inv :: "('k, 'v) cache \<Rightarrow> addr list \<Rightarrow> bool" where
  "lru_inv s xs \<longleftrightarrow> lru_mode s \<and> lru_list s xs \<and> map_rep (ca_map s) (ca_heap s) xs
     \<and> pool_rep (ca_pool s) (ca_fresh s) xs \<and> weight_rep (ca_currentWeight s) (ca_heap s) xs
     \<and> ca_cleanupCursor s \<in> insert None (Some ` set xs)"

text \<open>The abstract cache.\<close>

record ('k, 'v) lru_entry =
  le_key :: 'k
  le_value :: 'v
  le_weight :: rat
  le_expiresAt :: rat

record ('k, 'v) lru =
  lru_entries :: "('k, 'v) lru_entry list"
  lru_maxEntries :: js_num
  lru_maxWeight :: js_num
  lru_weightFn :: "'v \<Rightarrow> js_num option"
  lru_defaultTTL :: js_val
  lru_rejectOversized :: bool
  lru_onEvict :: bool
  lru_onExpire :: bool
  lru_disposed :: bool
  lru_hits :: nat
  lru_misses :: nat
  lru_evictions :: nat
  lru_expirations :: nat
  lru_rejected :: nat
  lru_weightErrors :: nat
  lru_evicted :: "('k option \<times> 'v option \<times> evict_reason) list"
  lru_expired :: "('k option \<times> 'v option) list"

definition entry_of :: "('k, 'v) cache_node \<Rightarrow> ('k, 'v) lru_entry" where
  "entry_of n = \<lparr>le_key = the (nd_key n), le_value = the (nd_value n), le_weight = nd_weight n, le_expiresAt = nd_expiresAt n\<rparr>"

definition entries_of :: "('k, 'v) cache \<Rightarrow> addr list \<Rightarrow> ('k, 'v) lru_entry list" where
  "entries_of s xs = map (\<lambda>a. entry_of (ca_heap s a)) xs"

definition lru_view :: "('k, 'v) cache \<Rightarrow> addr list \<Rightarrow> ('k, 'v) lru" where
  "lru_view s xs = \<lparr>lru_entries = entries_of s xs, lru_maxEntries = ca_maxEntries s, lru_maxWeight = ca_maxWeight s,
     lru_weightFn = ca_weightFn s, lru_defaultTTL = ca_defaultTTL s, lru_rejectOversized = ca_rejectOversized s,
     lru_onEvict = ca_onEvict s, lru_onExpire = ca_onExpire s, lru_disposed = ca_disposed s, lru_hits = ca_hits s,
     lru_misses = ca_misses s, lru_evictions = ca_evictions s, lru_expirations = ca_expirations s,
     lru_rejected = ca_rejected s, lru_weightErrors = ca_weightErrors s, lru_evicted = ca_evicted s,
     lru_expired = ca_expired s\<rparr>"

lemma node_data_entry: "node_data n = node_data m \<Longrightarrow> entry_of n = entry_of m"
  by (drule node_data_eqD) (simp add: entry_of_def)

lemma entries_same: "same_data h (ca_heap s) \<Longrightarrow> map (\<lambda>a. entry_of (h a)) xs = entries_of s xs"
  by (auto simp: entries_of_def same_data_def intro: node_data_entry)

lemma map_rep_same: "same_data h g \<Longrightarrow> map_rep m h xs = map_rep m g xs"
  by (simp add: map_rep_def same_dataD [of h g])

lemma weight_rep_same: "same_data h g \<Longrightarrow> weight_rep m h xs = weight_rep m g xs"
  by (simp add: weight_rep_def same_dataD [of h g])

text \<open>Counters and callbacks are no part of the invariant.\<close>

lemma lru_inv_counters [simp]:
  "lru_inv (s\<lparr>ca_hits := n\<rparr>) xs = lru_inv s xs"
  "lru_inv (s\<lparr>ca_misses := n\<rparr>) xs = lru_inv s xs"
  "lru_inv (s\<lparr>ca_evictions := n\<rparr>) xs = lru_inv s xs"
  "lru_inv (s\<lparr>ca_expirations := n\<rparr>) xs = lru_inv s xs"
  "lru_inv (s\<lparr>ca_rejected := n\<rparr>) xs = lru_inv s xs"
  "lru_inv (s\<lparr>ca_weightErrors := n\<rparr>) xs = lru_inv s xs"
  "lru_inv (s\<lparr>ca_evicted := es\<rparr>) xs = lru_inv s xs"
  "lru_inv (s\<lparr>ca_expired := xp\<rparr>) xs = lru_inv s xs"
  "lru_inv (s\<lparr>ca_inflight := m\<rparr>) xs = lru_inv s xs"
  "lru_inv (s\<lparr>ca_refreshesAborted := n\<rparr>) xs = lru_inv s xs"
  "lru_inv (s\<lparr>ca_maxEntries := l\<rparr>) xs = lru_inv s xs"
  "lru_inv (s\<lparr>ca_maxWeight := l\<rparr>) xs = lru_inv s xs"
  "lru_inv (s\<lparr>ca_disposed := d\<rparr>) xs = lru_inv s xs"
  "lru_inv (s\<lparr>ca_cleanupCursorValid := d\<rparr>) xs = lru_inv s xs"
  by (simp_all add: lru_inv_def lru_mode_def lru_list_def)

lemma entries_of_upd [simp]:
  "entries_of (s\<lparr>ca_hits := n\<rparr>) xs = entries_of s xs"
  "entries_of (s\<lparr>ca_misses := n\<rparr>) xs = entries_of s xs"
  "entries_of (s\<lparr>ca_evictions := n\<rparr>) xs = entries_of s xs"
  "entries_of (s\<lparr>ca_expirations := n\<rparr>) xs = entries_of s xs"
  "entries_of (s\<lparr>ca_rejected := n\<rparr>) xs = entries_of s xs"
  "entries_of (s\<lparr>ca_weightErrors := n\<rparr>) xs = entries_of s xs"
  "entries_of (s\<lparr>ca_evicted := es\<rparr>) xs = entries_of s xs"
  "entries_of (s\<lparr>ca_expired := xp\<rparr>) xs = entries_of s xs"
  "entries_of (s\<lparr>ca_inflight := m\<rparr>) xs = entries_of s xs"
  "entries_of (s\<lparr>ca_refreshesAborted := n\<rparr>) xs = entries_of s xs"
  "entries_of (s\<lparr>ca_maxEntries := l\<rparr>) xs = entries_of s xs"
  "entries_of (s\<lparr>ca_maxWeight := l\<rparr>) xs = entries_of s xs"
  "entries_of (s\<lparr>ca_disposed := d\<rparr>) xs = entries_of s xs"
  "entries_of (s\<lparr>ca_cleanupCursorValid := d\<rparr>) xs = entries_of s xs"
  by (simp_all add: entries_of_def)

section \<open>Looking a key up\<close>

definition lru_find :: "'k \<Rightarrow> ('k, 'v) lru_entry list \<Rightarrow> ('k, 'v) lru_entry option" where
  "lru_find k es = find (\<lambda>e. le_key e = k) es"

definition lru_drop :: "'k \<Rightarrow> ('k, 'v) lru_entry list \<Rightarrow> ('k, 'v) lru_entry list" where
  "lru_drop k es = filter (\<lambda>e. le_key e \<noteq> k) es"

lemma map_rep_key:
  assumes "map_rep m h xs" "a \<in> set xs"
  shows "nd_key (h a) = Some (le_key (entry_of (h a)))" "nd_value (h a) = Some (le_value (entry_of (h a)))"
  using assms by (auto simp: map_rep_def entry_of_def)

lemma lookup_none:
  assumes "lru_inv s xs" "jm_get k (ca_map s) = None"
  shows "lru_find k (entries_of s xs) = None" "lru_drop k (entries_of s xs) = entries_of s xs"
proof -
  have m: "map_rep (ca_map s) (ca_heap s) xs" using assms(1) by (simp add: lru_inv_def)
  have ne: "le_key (entry_of (ca_heap s a)) \<noteq> k" if "a \<in> set xs" for a
  proof
    assume "le_key (entry_of (ca_heap s a)) = k"
    then have "jm_get k (ca_map s) = Some a" using m map_rep_key(1) [OF m that] that by (simp add: map_rep_def)
    then show False using assms(2) by simp
  qed
  show "lru_find k (entries_of s xs) = None"
    using ne by (auto simp: lru_find_def entries_of_def find_None_iff)
  show "lru_drop k (entries_of s xs) = entries_of s xs"
    using ne by (auto simp: lru_drop_def entries_of_def intro: filter_True)
qed

lemma lookup_some:
  assumes "lru_inv s xs" "jm_get k (ca_map s) = Some a"
  obtains ys zs where "xs = ys @ a # zs" "lru_find k (entries_of s xs) = Some (entry_of (ca_heap s a))"
    "lru_drop k (entries_of s xs) = entries_of s (ys @ zs)" "nd_key (ca_heap s a) = Some k"
proof -
  have m: "map_rep (ca_map s) (ca_heap s) xs" and d: "distinct xs"
    using assms(1) by (simp_all add: lru_inv_def lru_list_def)
  have a: "a \<in> set xs" "nd_key (ca_heap s a) = Some k" using m assms(2) by (simp_all add: map_rep_def)
  obtain ys zs where xs: "xs = ys @ a # zs" using a(1) by (meson split_list)
  have ne: "le_key (entry_of (ca_heap s b)) \<noteq> k" if "b \<in> set ys \<union> set zs" for b
  proof
    assume "le_key (entry_of (ca_heap s b)) = k"
    moreover have "b \<in> set xs" using that xs by auto
    ultimately have "jm_get k (ca_map s) = Some b" using m map_rep_key(1) [OF m] by (simp add: map_rep_def)
    then show False using assms(2) that d xs by auto
  qed
  have k: "le_key (entry_of (ca_heap s a)) = k" using map_rep_key(1) [OF m a(1)] a(2) by simp
  have "lru_find k (entries_of s xs) = Some (entry_of (ca_heap s a))"
  proof -
    have "find (\<lambda>e. le_key e = k) (map (\<lambda>a. entry_of (ca_heap s a)) us @ entry_of (ca_heap s a) # vs) = Some (entry_of (ca_heap s a))"
      if "\<forall>b\<in>set us. le_key (entry_of (ca_heap s b)) \<noteq> k" for us vs
      using that k by (induction us) auto
    then show ?thesis using ne xs by (simp add: lru_find_def entries_of_def)
  qed
  moreover have "lru_drop k (entries_of s xs) = entries_of s (ys @ zs)"
    using ne k xs by (auto simp: lru_drop_def entries_of_def intro!: filter_True)
  ultimately show thesis using xs a(2) by (intro that)
qed

section \<open>Taking a node out\<close>

lemma lru_inv_parts:
  assumes "lru_inv s xs"
  shows "lru_mode s" "lru_list s xs" "map_rep (ca_map s) (ca_heap s) xs" "pool_rep (ca_pool s) (ca_fresh s) xs"
    "weight_rep (ca_currentWeight s) (ca_heap s) xs" "ca_cleanupCursor s \<in> insert None (Some ` set xs)"
    "ca_policy s = LRU" "lseg (ca_heap s) None xs None" "distinct xs" "ca_head s = first xs None"
    "ca_tail s = final None xs" "ca_evictionCandidate s = first xs None" "length (ca_map s) = length xs"
  using assms by (simp_all add: lru_inv_def lru_list_def lru_mode_def map_rep_def)

lemma map_rep_delete:
  assumes "map_rep m h (ys @ a # zs)" "distinct (ys @ a # zs)"
  shows "map_rep (jm_delete_opt (nd_key (h a)) m) h (ys @ zs)"
proof -
  have a: "a \<in> set (ys @ a # zs)" by simp
  obtain k where k: "nd_key (h a) = Some k" using assms(1) a unfolding map_rep_def by blast
  have g: "jm_get k m = Some a" using assms(1) k by (simp add: map_rep_def)
  have ok: "jm_ok m" "length m = length (ys @ a # zs)" using assms(1) by (simp_all add: map_rep_def)
  have "jm_get j (jm_delete k m) = Some b \<longleftrightarrow> b \<in> set (ys @ zs) \<and> nd_key (h b) = Some j" for j b
  proof (cases "j = k")
    case True
    have "b \<notin> set (ys @ zs) \<or> nd_key (h b) \<noteq> Some k"
    proof (rule ccontr)
      assume n: "\<not> (b \<notin> set (ys @ zs) \<or> nd_key (h b) \<noteq> Some k)"
      then have "jm_get k m = Some b" using assms(1) by (simp add: map_rep_def)
      then show False using g n assms(2) by auto
    qed
    then show ?thesis using True by (auto simp: jm_delete_get)
  next
    case False
    then show ?thesis using assms(1) k by (auto simp: jm_delete_get map_rep_def)
  qed
  moreover have "length (jm_delete k m) = length (ys @ zs)"
    using jm_length_delete [OF ok(1), of k] g ok(2) by (simp add: jm_has_get)
  ultimately show ?thesis using assms(1) ok(1)
    by (auto simp: map_rep_def k jm_delete_opt_def js.ok_del)
qed

lemma unlink_lru:
  assumes i: "lru_inv s (ys @ a # zs)" and adv: "adv \<Longrightarrow> ys = []"
  defines "t \<equiv> cache_unlinkNode adv a s"
  shows "lru_inv t (ys @ zs)" "lru_view t (ys @ zs) = (lru_view s (ys @ a # zs))\<lparr>lru_entries := entries_of s (ys @ zs)\<rparr>"
    "a \<notin> set (ys @ zs)" "a \<notin> set (ca_pool t)" "a < ca_fresh t" "key_of t a = key_of s a" "value_of t a = value_of s a"
proof -
  note p = lru_inv_parts [OF i]
  have nxt: "next_of s a = first zs None" using p(8) by simp
  define c where "c = (if ca_cleanupCursor s = Some a then first zs None else ca_cleanupCursor s)"
  define s4 where "s4 = s\<lparr>ca_map := jm_delete_opt (key_of s a) (ca_map s),
      ca_currentWeight := ca_currentWeight s - nd_weight (ca_heap s a), ca_cleanupCursor := c,
      ca_cleanupCursorValid := (c \<noteq> None),
      ca_evictionCandidate := (if adv then first zs None else ca_evictionCandidate s)\<rparr>"
  have t: "t = cache_remove a s4"
    unfolding t_def cache_unlinkNode_def Let_def nxt s4_def c_def by (rule arg_cong [where f = "cache_remove a"]) simp
  obtain h pe w1 w2 where r: "cache_remove a s4 = s4\<lparr>ca_heap := h, ca_head := first (ys @ zs) None,
       ca_tail := final None (ys @ zs), ca_evictionCandidate := first (ys @ zs) None, ca_probationEnd := pe,
       ca_windowStartMemo := w1, ca_windowTail := w2\<rparr>"
      and l: "lseg h None (ys @ zs) None" and d: "same_data h (ca_heap s4)"
    by (rule cache_remove_lru [of s4 ys a zs]) (use p adv in \<open>auto simp: s4_def first_Some\<close>)
  have heap4: "ca_heap s4 = ca_heap s" by (simp add: s4_def)
  note d = d [unfolded heap4]
  note tr = t [unfolded r]
  have cur: "c \<in> insert None (Some ` set (ys @ zs))"
    using p(6) by (cases zs) (auto simp: c_def)
  have w: "weight_rep (ca_currentWeight s - nd_weight (ca_heap s a)) (ca_heap s) (ys @ zs)"
    using p(5) by (auto simp: weight_rep_def)
  have pr: "pool_rep (ca_pool s) (ca_fresh s) (ys @ zs)" using p(4) by (auto simp: pool_rep_def)
  have mr: "map_rep (jm_delete_opt (key_of s a) (ca_map s)) (ca_heap s) (ys @ zs)"
    by (rule map_rep_delete [OF p(3,9)])
  show "lru_inv t (ys @ zs)"
    unfolding lru_inv_def
  proof (intro conjI)
    show "lru_mode t" using p(1) by (simp add: tr s4_def lru_mode_def)
    show "lru_list t (ys @ zs)" using l p(9) by (simp add: tr lru_list_def del: lseg_append)
    show "map_rep (ca_map t) (ca_heap t) (ys @ zs)" using mr by (simp add: tr s4_def map_rep_same [OF d])
    show "pool_rep (ca_pool t) (ca_fresh t) (ys @ zs)" using pr by (simp add: tr s4_def)
    show "weight_rep (ca_currentWeight t) (ca_heap t) (ys @ zs)" using w by (simp add: tr s4_def weight_rep_same [OF d])
    show "ca_cleanupCursor t \<in> insert None (Some ` set (ys @ zs))" using cur by (simp add: tr s4_def)
  qed
  show "lru_view t (ys @ zs) = (lru_view s (ys @ a # zs))\<lparr>lru_entries := entries_of s (ys @ zs)\<rparr>"
    using entries_same [OF d, of "ys @ zs"] by (simp add: tr s4_def lru_view_def entries_of_def)
  show "a \<notin> set (ys @ zs)" using p(9) by simp
  show "a \<notin> set (ca_pool t)" "a < ca_fresh t" using p(4) by (auto simp: tr s4_def pool_rep_def)
  show "key_of t a = key_of s a" "value_of t a = value_of s a" using same_dataD [OF d] by (simp_all add: tr s4_def)
qed

lemma free_lru:
  assumes i: "lru_inv s xs" and a: "a \<notin> set xs" "a \<notin> set (ca_pool s)" "a < ca_fresh s"
  shows "lru_inv (cache_freeNode a s) xs" "lru_view (cache_freeNode a s) xs = lru_view s xs"
proof -
  note p = lru_inv_parts [OF i]
  define n where "n = (ca_heap s a)\<lparr>nd_key := None, nd_value := None, nd_weight := 0, nd_expiresAt := 0,
                 nd_prev := None, nd_next := None\<rparr>"
  have f: "cache_freeNode a s = s\<lparr>ca_heap := (ca_heap s)(a := n),
      ca_pool := (if num_lt (Fin (of_nat (length (ca_pool s)))) (ca_maxPoolSize s) then ca_pool s @ [a] else ca_pool s)\<rparr>"
    by (simp add: cache_freeNode_def node_upd_def Let_def n_def)
  have e: "entries_of (cache_freeNode a s) xs = entries_of s xs"
    using a by (auto simp: f entries_of_def)
  show "lru_view (cache_freeNode a s) xs = lru_view s xs"
    using e by (simp add: lru_view_def f)
  have keep: "\<forall>b\<in>set xs. ((ca_heap s)(a := n)) b = ca_heap s b" using a by auto
  show "lru_inv (cache_freeNode a s) xs"
    unfolding lru_inv_def
  proof (intro conjI)
    show "lru_mode (cache_freeNode a s)" using p(1) by (simp add: f lru_mode_def)
    show "lru_list (cache_freeNode a s) xs" using p(2) a by (simp add: f lru_list_def)
    show "map_rep (ca_map (cache_freeNode a s)) (ca_heap (cache_freeNode a s)) xs"
      using p(3) keep by (auto simp: f map_rep_def)
    show "pool_rep (ca_pool (cache_freeNode a s)) (ca_fresh (cache_freeNode a s)) xs"
      using p(4) a by (auto simp: f pool_rep_def)
    show "weight_rep (ca_currentWeight (cache_freeNode a s)) (ca_heap (cache_freeNode a s)) xs"
      using p(5) keep by (simp add: f weight_rep_def cong: map_cong)
    show "ca_cleanupCursor (cache_freeNode a s) \<in> insert None (Some ` set xs)" using p(6) by (simp add: f)
  qed
qed

definition lru_note :: "evict_reason \<Rightarrow> ('k, 'v) lru_entry list \<Rightarrow> ('k, 'v) lru \<Rightarrow> ('k, 'v) lru" where
  "lru_note why es l =
     (if lru_onEvict l then l\<lparr>lru_evicted := lru_evicted l @ map (\<lambda>e. (Some (le_key e), Some (le_value e), why)) es\<rparr> else l)"

lemma node_entry:
  assumes "lru_inv s xs" "a \<in> set xs"
  shows "key_of s a = Some (le_key (entry_of (ca_heap s a)))" "value_of s a = Some (le_value (entry_of (ca_heap s a)))"
  using map_rep_key [OF lru_inv_parts(3) [OF assms(1)] assms(2)] by simp_all

lemma abort_inv [simp]: "lru_inv (fst (cache_abortInflight k s)) xs = lru_inv s xs"
  by (simp add: cache_abortInflight_def split: option.splits bool.splits)

lemma abort_fields [simp]:
  "lru_view (fst (cache_abortInflight k s)) xs = lru_view s xs"
  "ca_heap (fst (cache_abortInflight k s)) = ca_heap s"
  "ca_map (fst (cache_abortInflight k s)) = ca_map s"
  "ca_policy (fst (cache_abortInflight k s)) = ca_policy s"
  by (simp_all add: cache_abortInflight_def lru_view_def split: option.splits bool.splits)

lemma notify_inv [simp]: "lru_inv (cache_notifyEvict k v why s) xs = lru_inv s xs"
  by (simp add: cache_notifyEvict_def)

lemma notify_view:
  "lru_view (cache_notifyEvict (Some (le_key e)) (Some (le_value e)) why s) xs = lru_note why [e] (lru_view s xs)"
  by (simp add: cache_notifyEvict_def lru_note_def lru_view_def)

lemma notify_fields [simp]:
  "ca_pool (cache_notifyEvict k v why s) = ca_pool s" "ca_fresh (cache_notifyEvict k v why s) = ca_fresh s"
  by (simp_all add: cache_notifyEvict_def)

lemma entries_abort [simp]: "entries_of (fst (cache_abortInflight k s)) xs = entries_of s xs"
  by (simp add: entries_of_def)

lemma evictAt_lru:
  assumes "lru_inv s (a # zs)"
  shows "lru_inv (cache_evictAt True a s) zs"
    "lru_view (cache_evictAt True a s) zs = (let l = lru_view s (a # zs) in
       lru_note Evicted [entry_of (ca_heap s a)] (l\<lparr>lru_entries := entries_of s zs, lru_evictions := lru_evictions l + 1\<rparr>))"
proof -
  define s1 where "s1 = fst (cache_abortInflight (key_of s a) s)"
  have i1: "lru_inv s1 ([] @ a # zs)" using assms by (simp add: s1_def)
  define t where "t = cache_unlinkNode True a s1"
  note u = unlink_lru [OF i1, of True, folded t_def, simplified]
  define e where "e = entry_of (ca_heap s a)"
  have k: "key_of s a = Some (le_key e)" "value_of s a = Some (le_value e)"
    using node_entry [OF assms, of a] by (simp_all add: e_def)
  define t' where "t' = cache_notifyEvict (Some (le_key e)) (Some (le_value e)) Evicted (t\<lparr>ca_evictions := ca_evictions t + 1\<rparr>)"
  have r: "cache_evictAt True a s = cache_freeNode a t'"
    by (simp add: cache_evictAt_def Let_def t'_def t_def s1_def k)
  have i': "lru_inv t' zs" using u(1) by (simp add: t'_def)
  have f: "a \<notin> set zs" "a \<notin> set (ca_pool t')" "a < ca_fresh t'" using u(3,4,5) by (simp_all add: t'_def)
  show "lru_inv (cache_evictAt True a s) zs" unfolding r by (rule free_lru(1) [OF i' f])
  have ev: "lru_view (t\<lparr>ca_evictions := n\<rparr>) zs = (lru_view t zs)\<lparr>lru_evictions := n\<rparr>" for n
    by (simp add: lru_view_def)
  have n: "ca_evictions t = lru_evictions (lru_view s (a # zs))"
  proof -
    have "ca_evictions t = lru_evictions (lru_view t zs)" by (simp add: lru_view_def)
    then show ?thesis by (simp add: u(2) s1_def)
  qed
  show "lru_view (cache_evictAt True a s) zs = (let l = lru_view s (a # zs) in
       lru_note Evicted [entry_of (ca_heap s a)] (l\<lparr>lru_entries := entries_of s zs, lru_evictions := lru_evictions l + 1\<rparr>))"
    unfolding r free_lru(2) [OF i' f] by (simp add: t'_def notify_view ev u(2) n Let_def e_def s1_def)
qed

section \<open>Moving and writing a node\<close>

lemma entries_append [simp]: "entries_of s (xs @ ys) = entries_of s xs @ entries_of s ys"
  by (simp add: entries_of_def)

lemma entries_single [simp]: "entries_of s [] = []" "entries_of s (a # xs) = entry_of (ca_heap s a) # entries_of s xs"
  by (simp_all add: entries_of_def)

lemma map_rep_set: "set xs = set ys \<Longrightarrow> length xs = length ys \<Longrightarrow> map_rep m h xs = map_rep m h ys"
  by (simp add: map_rep_def)

lemma moveToTail_lru:
  assumes i: "lru_inv s (ys @ a # zs)"
  obtains t where "cache_moveToTail a s = Some t" "lru_inv t (ys @ zs @ [a])" "value_of t a = value_of s a"
    "lru_view t (ys @ zs @ [a]) = (lru_view s (ys @ a # zs))\<lparr>lru_entries := entries_of s (ys @ zs @ [a])\<rparr>"
proof (cases "zs = []")
  case True
  note p = lru_inv_parts [OF i]
  have "ca_tail s = Some a" using p(11) True by simp
  then have "cache_moveToTail a s = Some s"
    using p(1) by (simp add: cache_moveToTail_def lru_mode_def)
  then show ?thesis
    by (rule that) (use i True in \<open>simp_all add: lru_view_def\<close>)
next
  case False
  note p = lru_inv_parts [OF i]
  obtain h pe w1 w2 where r: "cache_remove a s = s\<lparr>ca_heap := h, ca_head := first (ys @ zs) None,
       ca_tail := final None (ys @ zs), ca_evictionCandidate := first (ys @ zs) None, ca_probationEnd := pe,
       ca_windowStartMemo := w1, ca_windowTail := w2\<rparr>"
      and l: "lseg h None (ys @ zs) None" and d: "same_data h (ca_heap s)"
    by (rule cache_remove_lru [of s ys a zs]) (use p in \<open>auto simp: first_Some\<close>)
  define u where "u = cache_remove a s"
  have u: "ca_policy u = LRU" "lru_list u (ys @ zs)" "a \<notin> set (ys @ zs)"
    using p(7,9) l by (simp_all add: u_def r lru_list_def del: lseg_append)
  obtain g where ap: "cache_append a u = u\<lparr>ca_heap := g, ca_head := first ((ys @ zs) @ [a]) None, ca_tail := Some a,
       ca_evictionCandidate := first ((ys @ zs) @ [a]) None\<rparr>"
      and l2: "lseg g None ((ys @ zs) @ [a]) None" and d2: "same_data g (ca_heap u)"
    by (rule cache_append_lru [OF u]) (use False in auto)
  have d3: "same_data g (ca_heap s)" using same_data_trans [OF d2] d by (simp add: u_def r)
  have "final None (a # zs) \<noteq> Some a"
    using False p(9) by (auto simp: final_Some)
  then have "ca_tail s \<noteq> Some a" using p(11) by (simp add: final_Some False)
  then have m: "cache_moveToTail a s = Some (cache_append a u)"
    using p(1) by (simp add: cache_moveToTail_def lru_mode_def u_def)
  have tr: "cache_append a u = s\<lparr>ca_heap := g, ca_head := first ((ys @ zs) @ [a]) None, ca_tail := Some a,
       ca_evictionCandidate := first ((ys @ zs) @ [a]) None, ca_probationEnd := pe, ca_windowStartMemo := w1, ca_windowTail := w2\<rparr>"
    unfolding ap by (simp add: u_def r)
  have st: "set (ys @ zs @ [a]) = set (ys @ a # zs)" by auto
  show ?thesis
  proof (rule that [OF m])
    show "lru_inv (cache_append a u) (ys @ zs @ [a])"
      unfolding lru_inv_def
    proof (intro conjI)
      show "lru_mode (cache_append a u)" using p(1) by (simp add: tr lru_mode_def)
      show "lru_list (cache_append a u) (ys @ zs @ [a])" using l2 u(3) p(9) by (auto simp: tr lru_list_def)
      show "map_rep (ca_map (cache_append a u)) (ca_heap (cache_append a u)) (ys @ zs @ [a])"
        using p(3) map_rep_set [OF st, of "ca_map s" g] by (simp add: tr map_rep_same [OF d3])
      show "pool_rep (ca_pool (cache_append a u)) (ca_fresh (cache_append a u)) (ys @ zs @ [a])"
        using p(4) by (simp add: tr pool_rep_def)
      show "weight_rep (ca_currentWeight (cache_append a u)) (ca_heap (cache_append a u)) (ys @ zs @ [a])"
      proof -
        have "weight_rep (ca_currentWeight s) (ca_heap s) (ys @ zs @ [a])" using p(5) by (auto simp: weight_rep_def)
        then show ?thesis by (simp add: tr weight_rep_same [OF d3])
      qed
      show "ca_cleanupCursor (cache_append a u) \<in> insert None (Some ` set (ys @ zs @ [a]))"
        using p(6) by (auto simp: tr)
    qed
    show "value_of (cache_append a u) a = value_of s a" using same_dataD [OF d3] by (simp add: tr)
    show "lru_view (cache_append a u) (ys @ zs @ [a]) = (lru_view s (ys @ a # zs))\<lparr>lru_entries := entries_of s (ys @ zs @ [a])\<rparr>"
    proof -
      have "entries_of (cache_append a u) as = entries_of s as" for as
        using entries_same [OF d3, of as] by (simp add: tr entries_of_def)
      note e = this [of "ys @ zs @ [a]"]
      show ?thesis unfolding lru_view_def e by (simp add: tr)
    qed
  qed
qed

lemma rewrite_lru:
  fixes v :: 'v and e :: rat and s :: "('k, 'v) cache"
  assumes i: "lru_inv s (ys @ a # zs)" and w: "0 \<le> w"
  defines "t \<equiv> (node_upd a (\<lambda>n. n\<lparr>nd_value := Some v, nd_weight := w, nd_expiresAt := e\<rparr>) s)
      \<lparr>ca_currentWeight := ca_currentWeight s - nd_weight (ca_heap s a) + w\<rparr>"
  shows "lru_inv t (ys @ a # zs)" "lru_view t (ys @ a # zs) = (lru_view s (ys @ a # zs))
     \<lparr>lru_entries := entries_of s ys @ \<lparr>le_key = the (key_of s a), le_value = v, le_weight = w, le_expiresAt = e\<rparr> # entries_of s zs\<rparr>"
    "entries_of t (ys @ zs) = entries_of s (ys @ zs)"
proof -
  note p = lru_inv_parts [OF i]
  have a: "a \<notin> set ys" "a \<notin> set zs" using p(9) by auto
  show e: "entries_of t (ys @ zs) = entries_of s (ys @ zs)"
    using a by (auto simp: t_def node_upd_def entries_of_def)
  then have e2: "entries_of t (ys @ a # zs) = entries_of s ys @ \<lparr>le_key = the (key_of s a), le_value = v, le_weight = w, le_expiresAt = e\<rparr> # entries_of s zs"
    using a by (simp add: t_def node_upd_def entries_of_def entry_of_def)
  show "lru_view t (ys @ a # zs) = (lru_view s (ys @ a # zs))
     \<lparr>lru_entries := entries_of s ys @ \<lparr>le_key = the (key_of s a), le_value = v, le_weight = w, le_expiresAt = e\<rparr> # entries_of s zs\<rparr>"
    unfolding lru_view_def e2 by (simp add: t_def node_upd_def)
  have kp: "nd_key (ca_heap t b) = nd_key (ca_heap s b)" "nd_prev (ca_heap t b) = nd_prev (ca_heap s b)"
      "nd_next (ca_heap t b) = nd_next (ca_heap s b)" "nd_value (ca_heap s b) \<noteq> None \<Longrightarrow> nd_value (ca_heap t b) \<noteq> None" for b
    by (simp_all add: t_def node_upd_def)
  show "lru_inv t (ys @ a # zs)"
    unfolding lru_inv_def
  proof (intro conjI)
    show "lru_mode t" using p(1) by (simp add: t_def node_upd_def lru_mode_def)
    have "lseg (ca_heap t) None (ys @ a # zs) None = lseg (ca_heap s) None (ys @ a # zs) None"
      by (rule lseg_data) (simp add: kp)
    then show "lru_list t (ys @ a # zs)" using p(2) by (simp add: lru_list_def t_def node_upd_def)
    have mt: "ca_map t = ca_map s" by (simp add: t_def node_upd_def)
    show "map_rep (ca_map t) (ca_heap t) (ys @ a # zs)"
      using p(3) kp(4) unfolding mt map_rep_def kp(1) by blast
    show "pool_rep (ca_pool t) (ca_fresh t) (ys @ a # zs)" using p(4) by (simp add: t_def node_upd_def)
    have same: "\<forall>b\<in>set ys \<union> set zs. nd_weight (ca_heap t b) = nd_weight (ca_heap s b)"
      using a by (auto simp: t_def node_upd_def)
    have at: "nd_weight (ca_heap t a) = w" by (simp add: t_def node_upd_def)
    have cw: "ca_currentWeight t = ca_currentWeight s - nd_weight (ca_heap s a) + w" by (simp add: t_def)
    show "weight_rep (ca_currentWeight t) (ca_heap t) (ys @ a # zs)"
      using p(5) w same unfolding weight_rep_def cw by (simp add: at cong: map_cong)
    show "ca_cleanupCursor t \<in> insert None (Some ` set (ys @ a # zs))" using p(6) by (simp add: t_def node_upd_def)
  qed
qed

lemma alloc_shape:
  obtains a pool fresh where
    "cache_allocNode k v w e s = (s\<lparr>ca_heap := (ca_heap s)(a := \<lparr>nd_key = Some k, nd_value = Some v, nd_weight = w, nd_expiresAt = e,
            nd_prev = None, nd_next = None, nd_inWindow = False, nd_visited = False, nd_queue = MainQueue\<rparr>),
       ca_pool := pool, ca_fresh := fresh\<rparr>, a)"
    "(ca_pool s = pool @ [a] \<and> fresh = ca_fresh s) \<or> (ca_pool s = [] \<and> pool = [] \<and> a = ca_fresh s \<and> fresh = ca_fresh s + 1)"
proof (cases "ca_pool s" rule: rev_cases)
  case Nil
  have "s\<lparr>ca_heap := h, ca_pool := [], ca_fresh := n\<rparr> = s\<lparr>ca_heap := h, ca_fresh := n\<rparr>" for h n
    unfolding Nil [symmetric] by simp
  with Nil show ?thesis
    by (intro that [of "ca_fresh s + 1" "[]" "ca_fresh s"]) (simp_all add: cache_allocNode_def node_upd_def)
next
  case (snoc pool a)
  then show ?thesis
    by (intro that [of "ca_fresh s" pool a]) (simp_all add: cache_allocNode_def node_upd_def)
qed

lemma insert_lru:
  assumes i: "lru_inv s xs" and k: "jm_get k (ca_map s) = None" and w: "0 \<le> w"
  obtains t a where "cache_insertNew k v w e n s = Some (t, True)" "lru_inv t (xs @ [a])"
    "lru_view t (xs @ [a]) = (lru_view s xs)\<lparr>lru_entries := entries_of s xs @ [\<lparr>le_key = k, le_value = v, le_weight = w, le_expiresAt = e\<rparr>]\<rparr>"
proof -
  note p = lru_inv_parts [OF i]
  define nd where "nd = \<lparr>nd_key = Some k, nd_value = Some v, nd_weight = w, nd_expiresAt = e,
            nd_prev = None, nd_next = None, nd_inWindow = False, nd_visited = False, nd_queue = MainQueue\<rparr>"
  obtain a pool fresh where al: "cache_allocNode k v w e s = (s\<lparr>ca_heap := (ca_heap s)(a := nd), ca_pool := pool, ca_fresh := fresh\<rparr>, a)"
      and ch: "(ca_pool s = pool @ [a] \<and> fresh = ca_fresh s) \<or> (ca_pool s = [] \<and> pool = [] \<and> a = ca_fresh s \<and> fresh = ca_fresh s + 1)"
    by (rule alloc_shape [of k v w e s, folded nd_def])
  have a: "a \<notin> set xs" "pool_rep pool fresh (xs @ [a])" using p(4) ch by (auto simp: pool_rep_def less_SucI)
  define u where "u = s\<lparr>ca_heap := (ca_heap s)(a := nd), ca_pool := pool, ca_fresh := fresh, ca_map := jm_set k a (ca_map s)\<rparr>"
  have ul: "ca_policy u = LRU" "lru_list u xs" "prev_of u a = None \<and> next_of u a = None"
    using p(2,7) a by (simp_all add: u_def lru_list_def nd_def)
  obtain h where ap: "cache_append a u = u\<lparr>ca_heap := h, ca_head := first (xs @ [a]) None, ca_tail := Some a,
       ca_evictionCandidate := first (xs @ [a]) None\<rparr>"
      and l: "lseg h None (xs @ [a]) None" and d: "same_data h (ca_heap u)"
    by (rule cache_append_lru [OF ul(1,2) a(1) ul(3)])
  define t where "t = (cache_append a u)\<lparr>ca_currentWeight := ca_currentWeight (cache_append a u) + w\<rparr>"
  have r: "cache_insertNew k v w e n s = Some (t, True)"
    using p(1) by (simp add: cache_insertNew_def lru_mode_def al Let_def t_def u_def)
  have tr: "t = s\<lparr>ca_heap := h, ca_head := first (xs @ [a]) None, ca_tail := Some a, ca_pool := pool, ca_fresh := fresh,
      ca_map := jm_set k a (ca_map s), ca_evictionCandidate := first (xs @ [a]) None, ca_currentWeight := ca_currentWeight s + w\<rparr>"
    unfolding t_def ap by (simp add: u_def)
  define g where "g = (ca_heap s)(a := nd)"
  have d: "same_data h g" using d by (simp add: u_def g_def)
  have nh: "\<not> jm_has k (ca_map s)" using k by (simp add: jm_has_get)
  have nk: "nd_key (ca_heap s b) \<noteq> Some k" if "b \<in> set xs" for b
  proof
    assume "nd_key (ca_heap s b) = Some k"
    then have "jm_get k (ca_map s) = Some b" using p(3) that by (simp add: map_rep_def)
    then show False using k by simp
  qed
  have mr: "map_rep (jm_set k a (ca_map s)) g (xs @ [a])"
  proof -
    have "jm_get j (jm_set k a (ca_map s)) = Some b \<longleftrightarrow> b \<in> set (xs @ [a]) \<and> nd_key (g b) = Some j" for j b
      using p(3) a(1) nk by (cases "b = a") (auto simp: jm_set_get map_rep_def g_def nd_def)
    moreover have "\<forall>b\<in>set (xs @ [a]). nd_key (g b) \<noteq> None \<and> nd_value (g b) \<noteq> None"
      using p(3) by (auto simp: map_rep_def g_def nd_def)
    ultimately show ?thesis using p(3) nh by (simp add: map_rep_def js.ok_put jm_length_set)
  qed
  have gx: "g b = ca_heap s b" if "b \<in> set xs" for b using that a(1) by (auto simp: g_def)
  have ga: "g a = nd" by (simp add: g_def)
  have es: "entries_of t (xs @ [a]) = entries_of s xs @ [\<lparr>le_key = k, le_value = v, le_weight = w, le_expiresAt = e\<rparr>]"
  proof -
    have "entries_of t (xs @ [a]) = map (\<lambda>b. entry_of (g b)) (xs @ [a])"
      using d by (auto simp: entries_of_def tr same_data_def intro: node_data_entry)
    also have "\<dots> = entries_of s xs @ [entry_of nd]" using gx by (simp add: ga entries_of_def)
    finally show ?thesis by (simp add: nd_def entry_of_def)
  qed
  have "lru_inv t (xs @ [a])"
    unfolding lru_inv_def
  proof (intro conjI)
    show "lru_mode t" using p(1) by (simp add: tr lru_mode_def)
    show "lru_list t (xs @ [a])" using l a(1) p(9) by (auto simp: tr lru_list_def)
    show "map_rep (ca_map t) (ca_heap t) (xs @ [a])" using mr by (simp add: tr map_rep_same [OF d])
    show "pool_rep (ca_pool t) (ca_fresh t) (xs @ [a])" using a(2) by (simp add: tr)
    have "weight_rep (ca_currentWeight s + w) g (xs @ [a])"
      using p(5) w gx by (simp add: weight_rep_def ga nd_def cong: map_cong)
    then show "weight_rep (ca_currentWeight t) (ca_heap t) (xs @ [a])" by (simp add: tr weight_rep_same [OF d])
    show "ca_cleanupCursor t \<in> insert None (Some ` set (xs @ [a]))" using p(6) by (auto simp: tr)
  qed
  moreover have "lru_view t (xs @ [a]) = (lru_view s xs)\<lparr>lru_entries := entries_of s xs @ [\<lparr>le_key = k, le_value = v, le_weight = w, le_expiresAt = e\<rparr>]\<rparr>"
    unfolding lru_view_def es by (simp add: tr)
  ultimately show thesis using r by (intro that)
qed

end
