(* ===== verification/CacheLru.thy ===== *)
theory CacheLru
  imports CacheRep
begin

text \<open>
  The cache under its default policy against an abstract cache that is a list of entries, the
  oldest first: every operation answers as the abstract one, and every loop ends.
\<close>

section \<open>The abstract cache\<close>

definition lru_weight :: "('k, 'v) lru_entry list \<Rightarrow> rat" where
  "lru_weight es = sum_list (map le_weight es)"

definition lru_over :: "js_num \<Rightarrow> js_num \<Rightarrow> ('k, 'v) lru_entry list \<Rightarrow> bool" where
  "lru_over m w es \<longleftrightarrow> num_lt m (Fin (of_nat (length es))) \<or> num_lt w (Fin (lru_weight es))"

text \<open>What is kept when the oldest go until the limits hold.\<close>

fun lru_keep :: "js_num \<Rightarrow> js_num \<Rightarrow> ('k, 'v) lru_entry list \<Rightarrow> ('k, 'v) lru_entry list" where
  "lru_keep m w [] = []"
| "lru_keep m w (e # es) = (if lru_over m w (e # es) then lru_keep m w es else e # es)"

definition lru_pop :: "nat \<Rightarrow> ('k, 'v) lru \<Rightarrow> ('k, 'v) lru" where
  "lru_pop n l = lru_note Evicted (take n (lru_entries l))
     (l\<lparr>lru_entries := drop n (lru_entries l), lru_evictions := lru_evictions l + min n (length (lru_entries l))\<rparr>)"

definition lru_shed :: "('k, 'v) lru \<Rightarrow> ('k, 'v) lru" where
  "lru_shed l = lru_pop (length (lru_entries l) - length (lru_keep (lru_maxEntries l) (lru_maxWeight l) (lru_entries l))) l"

definition lru_weigh :: "'v \<Rightarrow> js_val \<Rightarrow> ('k, 'v) lru \<Rightarrow> ('k, 'v) lru \<times> rat result" where
  "lru_weigh v weight l =
     (if \<not> is_nullish weight then (l, map_sum id finite_or_0 (to_number weight))
      else case lru_weightFn l v of
        Some n \<Rightarrow> (l, Inr (finite_or_0 n))
      | None \<Rightarrow> (l\<lparr>lru_weightErrors := lru_weightErrors l + 1\<rparr>, Inr 0))"

definition lru_put :: "'k \<Rightarrow> 'v \<Rightarrow> rat \<Rightarrow> rat \<Rightarrow> ('k, 'v) lru \<Rightarrow> ('k, 'v) lru" where
  "lru_put k v w e l = lru_shed (l\<lparr>lru_entries := lru_drop k (lru_entries l) @
     [\<lparr>le_key = k, le_value = v, le_weight = w, le_expiresAt = e\<rparr>]\<rparr>)"

definition lru_set :: "'k \<Rightarrow> 'v \<Rightarrow> js_val \<Rightarrow> js_val \<Rightarrow> rat \<Rightarrow> ('k, 'v) lru \<Rightarrow> (('k, 'v) lru, bool) step" where
  "lru_set k v ttl weight now l =
     (if lru_disposed l then (l, Inr False)
      else case cache_expiresAt (default_to (lru_defaultTTL l) ttl) now of
        Inl e \<Rightarrow> (l, Inl e)
      | Inr e \<Rightarrow>
          (case lru_weigh v weight l of
             (l1, Inl err) \<Rightarrow> (l1, Inl err)
           | (l1, Inr w) \<Rightarrow>
               if lru_rejectOversized l1 \<and> is_finite (lru_maxWeight l1) \<and> num_lt (lru_maxWeight l1) (Fin w)
               then (lru_note RejectedOversized [\<lparr>le_key = k, le_value = v, le_weight = w, le_expiresAt = e\<rparr>]
                       (l1\<lparr>lru_rejected := lru_rejected l1 + 1\<rparr>), Inr False)
               else (lru_put k v w e l1, Inr True)))"

definition lru_expire :: "('k, 'v) lru_entry \<Rightarrow> ('k, 'v) lru \<Rightarrow> ('k, 'v) lru" where
  "lru_expire e l = l\<lparr>lru_entries := lru_drop (le_key e) (lru_entries l), lru_expirations := lru_expirations l + 1,
     lru_expired := (if lru_onExpire l then lru_expired l @ [(Some (le_key e), Some (le_value e))] else lru_expired l)\<rparr>"

definition lru_miss :: "bool \<Rightarrow> ('k, 'v) lru \<Rightarrow> ('k, 'v) lru" where
  "lru_miss counted l = (if counted then l\<lparr>lru_misses := lru_misses l + 1\<rparr> else l)"

definition lru_fetch ::
  "'k \<Rightarrow> bool \<Rightarrow> bool \<Rightarrow> rat \<Rightarrow> ('k, 'v) lru \<Rightarrow> ('k, 'v) lru \<times> ('k, 'v) lru_entry option" where
  "lru_fetch k ignoreExpiry counted now l =
     (case lru_find k (lru_entries l) of
        None \<Rightarrow> (lru_miss counted l, None)
      | Some e \<Rightarrow>
          if \<not> ignoreExpiry \<and> le_expiresAt e \<noteq> 0 \<and> now \<noteq> 0 \<and> le_expiresAt e \<le> now
          then (lru_miss counted (lru_expire e l), None) else (l, Some e))"

definition lru_refresh :: "('k, 'v) lru_entry \<Rightarrow> ('k, 'v) lru \<Rightarrow> ('k, 'v) lru" where
  "lru_refresh e l = l\<lparr>lru_entries := lru_drop (le_key e) (lru_entries l) @ [e]\<rparr>"

definition lru_get :: "'k \<Rightarrow> rat \<Rightarrow> ('k, 'v) lru \<Rightarrow> ('k, 'v) lru \<times> 'v option" where
  "lru_get k now l =
     (case lru_fetch k False True now l of
        (l1, None) \<Rightarrow> (l1, None)
      | (l1, Some e) \<Rightarrow> ((lru_refresh e l1)\<lparr>lru_hits := lru_hits l1 + 1\<rparr>, Some (le_value e)))"

definition lru_touch :: "'k \<Rightarrow> js_val \<Rightarrow> rat \<Rightarrow> ('k, 'v) lru \<Rightarrow> (('k, 'v) lru, bool) step" where
  "lru_touch k ttl now l =
     (case lru_fetch k False False now l of
        (l1, None) \<Rightarrow> (l1, Inr False)
      | (l1, Some e) \<Rightarrow>
          if ttl = JUndefined then (lru_refresh e l1, Inr True)
          else (case cache_expiresAt ttl now of
             Inl err \<Rightarrow> (l1, Inl err) | Inr t \<Rightarrow> (lru_refresh (e\<lparr>le_expiresAt := t\<rparr>) l1, Inr True)))"

definition lru_delete :: "'k \<Rightarrow> ('k, 'v) lru \<Rightarrow> ('k, 'v) lru \<times> bool" where
  "lru_delete k l =
     (case lru_find k (lru_entries l) of
        None \<Rightarrow> (l, False)
      | Some e \<Rightarrow> (lru_note Deleted [e] (l\<lparr>lru_entries := lru_drop k (lru_entries l)\<rparr>), True))"

definition lru_evict :: "js_val \<Rightarrow> ('k, 'v) lru \<Rightarrow> (('k, 'v) lru, nat) step" where
  "lru_evict count l =
     (case default_to (JNum (Fin 1)) count of
        JNum n \<Rightarrow>
          if \<not> is_integer n \<or> num_lt n (Fin 0) then (l, Inl (TypeErr ''PowerCache'' ''evict''))
          else (let i = nat \<lfloor>num_rat n\<rfloor> in (lru_pop i l, Inr (min i (length (lru_entries l)))))
      | _ \<Rightarrow> (l, Inl (TypeErr ''PowerCache'' ''evict'')))"

definition lru_resize :: "js_val \<Rightarrow> js_val \<Rightarrow> ('k, 'v) lru \<Rightarrow> (('k, 'v) lru, unit) step" where
  "lru_resize maxEntries maxWeight l =
     (case resized maxEntries (lru_maxEntries l) of
        Inl e \<Rightarrow> (l, Inl e)
      | Inr m \<Rightarrow>
          (case resized maxWeight (lru_maxWeight l) of
             Inl e \<Rightarrow> (l\<lparr>lru_maxEntries := m\<rparr>, Inl e)
           | Inr w \<Rightarrow> (lru_shed (l\<lparr>lru_maxEntries := m, lru_maxWeight := w\<rparr>), Inr ())))"

section \<open>Refinement\<close>

text \<open>A cache stands for an abstract one.\<close>

definition lru_refines :: "('k, 'v) cache \<Rightarrow> ('k, 'v) lru \<Rightarrow> bool" where
  "lru_refines s l \<longleftrightarrow> (\<exists>xs. lru_inv s xs \<and> lru_view s xs = l)"

lemma view_simps [simp]:
  "lru_entries (lru_view s xs) = entries_of s xs" "lru_maxEntries (lru_view s xs) = ca_maxEntries s"
  "lru_maxWeight (lru_view s xs) = ca_maxWeight s" "lru_weightFn (lru_view s xs) = ca_weightFn s"
  "lru_defaultTTL (lru_view s xs) = ca_defaultTTL s" "lru_rejectOversized (lru_view s xs) = ca_rejectOversized s"
  "lru_onEvict (lru_view s xs) = ca_onEvict s" "lru_onExpire (lru_view s xs) = ca_onExpire s"
  "lru_disposed (lru_view s xs) = ca_disposed s" "lru_hits (lru_view s xs) = ca_hits s"
  "lru_misses (lru_view s xs) = ca_misses s" "lru_evictions (lru_view s xs) = ca_evictions s"
  "lru_expirations (lru_view s xs) = ca_expirations s" "lru_rejected (lru_view s xs) = ca_rejected s"
  "lru_weightErrors (lru_view s xs) = ca_weightErrors s" "lru_evicted (lru_view s xs) = ca_evicted s"
  "lru_expired (lru_view s xs) = ca_expired s"
  by (simp_all add: lru_view_def)

lemma view_upd:
  "lru_view (s\<lparr>ca_hits := n\<rparr>) xs = (lru_view s xs)\<lparr>lru_hits := n\<rparr>"
  "lru_view (s\<lparr>ca_misses := n\<rparr>) xs = (lru_view s xs)\<lparr>lru_misses := n\<rparr>"
  "lru_view (s\<lparr>ca_evictions := n\<rparr>) xs = (lru_view s xs)\<lparr>lru_evictions := n\<rparr>"
  "lru_view (s\<lparr>ca_expirations := n\<rparr>) xs = (lru_view s xs)\<lparr>lru_expirations := n\<rparr>"
  "lru_view (s\<lparr>ca_rejected := n\<rparr>) xs = (lru_view s xs)\<lparr>lru_rejected := n\<rparr>"
  "lru_view (s\<lparr>ca_weightErrors := n\<rparr>) xs = (lru_view s xs)\<lparr>lru_weightErrors := n\<rparr>"
  "lru_view (s\<lparr>ca_expired := e\<rparr>) xs = (lru_view s xs)\<lparr>lru_expired := e\<rparr>"
  "lru_view (s\<lparr>ca_maxEntries := m\<rparr>) xs = (lru_view s xs)\<lparr>lru_maxEntries := m\<rparr>"
  "lru_view (s\<lparr>ca_maxWeight := m\<rparr>) xs = (lru_view s xs)\<lparr>lru_maxWeight := m\<rparr>"
  by (simp_all add: lru_view_def)

lemma entries_length [simp]: "length (entries_of s xs) = length xs"
  by (simp add: entries_of_def)

lemma entries_weight:
  assumes "lru_inv s xs"
  shows "lru_weight (entries_of s xs) = ca_currentWeight s"
  using lru_inv_parts(5) [OF assms]
  by (simp add: weight_rep_def lru_weight_def entries_of_def entry_of_def comp_def)

lemma over_lru:
  assumes "lru_inv s xs"
  shows "cache_over (int (length (ca_map s))) s = lru_over (ca_maxEntries s) (ca_maxWeight s) (entries_of s xs)"
  by (simp add: cache_over_def lru_over_def entries_weight [OF assms] lru_inv_parts(13) [OF assms])

section \<open>Eviction\<close>

lemma keep_length: "length (lru_keep m w es) \<le> length es"
  by (induction es) auto

lemma lru_pop_0 [simp]: "lru_pop 0 l = l"
  by (simp add: lru_pop_def lru_note_def)

lemma note_simps [simp]:
  "lru_entries (lru_note why es l) = lru_entries l" "lru_maxEntries (lru_note why es l) = lru_maxEntries l"
  "lru_maxWeight (lru_note why es l) = lru_maxWeight l" "lru_onEvict (lru_note why es l) = lru_onEvict l"
  "lru_evictions (lru_note why es l) = lru_evictions l" "lru_onExpire (lru_note why es l) = lru_onExpire l"
  by (simp_all add: lru_note_def)

lemma lru_pop_Suc:
  assumes "lru_entries l = e # es"
  shows "lru_pop (Suc n) l = lru_pop n (lru_note Evicted [e] (l\<lparr>lru_entries := es, lru_evictions := lru_evictions l + 1\<rparr>))"
  by (simp add: lru_pop_def lru_note_def assms)

lemma lru_shed_step:
  assumes "lru_entries l = e # es" "lru_over (lru_maxEntries l) (lru_maxWeight l) (e # es)"
  shows "lru_shed l = lru_shed (lru_note Evicted [e] (l\<lparr>lru_entries := es, lru_evictions := lru_evictions l + 1\<rparr>))"
  using keep_length [of "lru_maxEntries l" "lru_maxWeight l" es] assms
  by (simp add: lru_shed_def Suc_diff_le lru_pop_Suc [OF assms(1)])

lemma lru_shed_done:
  assumes "\<not> lru_over (lru_maxEntries l) (lru_maxWeight l) (lru_entries l)"
  shows "lru_shed l = l"
  using assms by (cases "lru_entries l") (simp_all add: lru_shed_def)

lemma lru_shed_empty: "lru_entries l = [] \<Longrightarrow> lru_shed l = l"
  by (simp add: lru_shed_def)

lemma victim_lru:
  assumes "lru_inv s xs"
  shows "cache_victim s = Some (first xs None)" "or_else (ca_evictionCandidate s) (ca_head s) = first xs None"
proof -
  note p = lru_inv_parts [OF assms]
  show "or_else (ca_evictionCandidate s) (ca_head s) = first xs None"
    unfolding p(10,12) by (simp add: or_else_def split: option.splits)
  then show "cache_victim s = Some (first xs None)"
    using p(1) by (simp add: cache_victim_def lru_mode_def)
qed

lemma evict_loop_lru:
  assumes "lru_inv s xs"
  shows "\<exists>t zs. evict_loop s = Some t \<and> lru_inv t zs \<and> lru_view t zs = lru_shed (lru_view s xs)"
  using assms
proof (induction xs arbitrary: s)
  case Nil
  have "evict_loop s = Some s"
    using victim_lru [OF Nil] by (subst evict_loop.simps) simp
  then show ?case using Nil by (auto intro!: exI [of _ "[]"] simp: lru_shed_empty)
next
  case (Cons a xs)
  show ?case
  proof (cases "lru_over (ca_maxEntries s) (ca_maxWeight s) (entries_of s (a # xs))")
    case True
    have "evict_loop s = evict_loop (cache_evictAt True a s)"
      using victim_lru [OF Cons.prems] True by (subst evict_loop.simps) (simp add: over_lru [OF Cons.prems])
    moreover have "lru_shed (lru_view (cache_evictAt True a s) xs) = lru_shed (lru_view s (a # xs))"
      unfolding evictAt_lru(2) [OF Cons.prems] Let_def
      by (rule lru_shed_step [symmetric]) (use True in simp_all)
    ultimately show ?thesis using Cons.IH [OF evictAt_lru(1) [OF Cons.prems]] by simp
  next
    case False
    then have "evict_loop s = Some s" by (subst evict_loop.simps) (simp add: over_lru [OF Cons.prems])
    then show ?thesis using Cons.prems False by (auto intro!: exI [of _ "a # xs"] simp: lru_shed_done)
  qed
qed

lemma settle_lru: "lru_inv s xs \<Longrightarrow> settle_candidate s = s"
  using lru_inv_parts(10,12) [of s xs] by (auto simp: settle_candidate_def)

lemma evictIfNeeded_lru:
  assumes "lru_inv s xs"
  shows "\<exists>t zs. cache_evictIfNeeded s = Some t \<and> lru_inv t zs \<and> lru_view t zs = lru_shed (lru_view s xs)"
proof -
  obtain t zs where t: "evict_loop s = Some t" "lru_inv t zs" "lru_view t zs = lru_shed (lru_view s xs)"
    using evict_loop_lru [OF assms] by blast
  then show ?thesis
    using lru_inv_parts(7) [OF assms] by (auto simp: cache_evictIfNeeded_def settle_lru)
qed

section \<open>Writing\<close>

lemma weigh_lru:
  assumes "lru_inv s xs"
  obtains t r where "cache_computeWeight v weight s = (t, r)" "lru_weigh v weight (lru_view s xs) = (lru_view t xs, r)"
    "lru_inv t xs" "\<forall>w. r = Inr w \<longrightarrow> 0 \<le> w"
proof (cases "is_nullish weight")
  case False
  have "\<forall>w. map_sum id finite_or_0 (to_number weight) = Inr w \<longrightarrow> 0 \<le> w"
    by (cases "to_number weight") (auto simp: finite_or_0_def split: js_num.splits)
  then show ?thesis
    using False assms by (intro that [of s "map_sum id finite_or_0 (to_number weight)"])
      (simp_all add: cache_computeWeight_def lru_weigh_def)
next
  case True
  show ?thesis
  proof (cases "ca_weightFn s v")
    case None
    show ?thesis
      by (rule that [of "s\<lparr>ca_weightErrors := ca_weightErrors s + 1\<rparr>" "Inr 0"])
        (use None True assms in \<open>simp_all add: cache_computeWeight_def lru_weigh_def view_upd\<close>)
  next
    case (Some n)
    show ?thesis
      by (rule that [of s "Inr (finite_or_0 n)"])
        (use Some True assms in \<open>auto simp: cache_computeWeight_def lru_weigh_def finite_or_0_def split: js_num.splits\<close>)
  qed
qed

lemma increment_lru [simp]: "lru_inv s xs \<Longrightarrow> cache_increment k s = s"
  by (simp add: lru_inv_def lru_mode_def cache_increment_def)

lemma updateExisting_lru:
  assumes i: "lru_inv s (ys @ a # zs)" and w: "0 \<le> w"
  obtains t where "cache_updateExisting a v w e s = Some t" "lru_inv t (ys @ zs @ [a])"
    "lru_view t (ys @ zs @ [a]) = (lru_view s (ys @ a # zs))\<lparr>lru_entries := entries_of s (ys @ zs) @
       [\<lparr>le_key = the (key_of s a), le_value = v, le_weight = w, le_expiresAt = e\<rparr>]\<rparr>"
proof -
  define u where "u = (node_upd a (\<lambda>n. n\<lparr>nd_value := Some v, nd_weight := w, nd_expiresAt := e\<rparr>) s)
      \<lparr>ca_currentWeight := ca_currentWeight s - nd_weight (ca_heap s a) + w\<rparr>"
  note r = rewrite_lru [OF i w, where v = v and e = e, folded u_def]
  obtain t where t: "cache_moveToTail a u = Some t" "lru_inv t (ys @ zs @ [a])"
      "lru_view t (ys @ zs @ [a]) = (lru_view u (ys @ a # zs))\<lparr>lru_entries := entries_of u (ys @ zs @ [a])\<rparr>"
    by (rule moveToTail_lru [OF r(1)])
  have c: "cache_updateExisting a v w e s = cache_moveToTail a u"
    by (simp add: cache_updateExisting_def Let_def u_def node_upd_def)
  have "entry_of (ca_heap u a) = \<lparr>le_key = the (key_of s a), le_value = v, le_weight = w, le_expiresAt = e\<rparr>"
    by (simp add: u_def node_upd_def entry_of_def)
  then show thesis
    using t c r(2,3) by (intro that) simp_all
qed

lemma drop_key: "le_key e = k \<Longrightarrow> lru_drop k (es @ [e]) = lru_drop k es"
  by (simp add: lru_drop_def)

lemma put_lru:
  assumes i: "lru_inv s xs" and w: "0 \<le> w" and c: "lru_view s xs = l"
  shows "\<exists>t zs. (case jm_get k (ca_map s) of
        Some a \<Rightarrow> do {s3 \<leftarrow> cache_updateExisting a v w e s; s4 \<leftarrow> cache_evictIfNeeded (cache_increment k s3); Some (s4, Inr True)}
      | None \<Rightarrow> do {(s3, inserted) \<leftarrow> cache_insertNew k v w e (length (ca_map s)) s;
                    (if \<not> inserted then Some (cache_increment k s3, Inr True)
                     else do {s4 \<leftarrow> cache_evictIfNeeded (cache_increment k s3); Some (s4, Inr True)})})
      = Some (t, (Inr True :: bool result)) \<and> lru_inv t zs \<and> lru_view t zs = lru_put k v w e l"
proof (cases "jm_get k (ca_map s)")
  case None
  obtain u a where u: "cache_insertNew k v w e (length (ca_map s)) s = Some (u, True)" "lru_inv u (xs @ [a])"
      "lru_view u (xs @ [a]) = (lru_view s xs)\<lparr>lru_entries := entries_of s xs @ [\<lparr>le_key = k, le_value = v, le_weight = w, le_expiresAt = e\<rparr>]\<rparr>"
    by (rule insert_lru [OF i None w])
  obtain t zs where t: "cache_evictIfNeeded u = Some t" "lru_inv t zs" "lru_view t zs = lru_shed (lru_view u (xs @ [a]))"
    using evictIfNeeded_lru [OF u(2)] by blast
  show ?thesis
    using None u t lookup_none [OF i None] c by (auto simp: lru_put_def)
next
  case (Some a)
  obtain ys zs where xs: "xs = ys @ a # zs" "lru_drop k (entries_of s xs) = entries_of s (ys @ zs)" "key_of s a = Some k"
    by (rule lookup_some [OF i Some])
  obtain u where u: "cache_updateExisting a v w e s = Some u" "lru_inv u (ys @ zs @ [a])"
    "lru_view u (ys @ zs @ [a]) = (lru_view s (ys @ a # zs))\<lparr>lru_entries := entries_of s (ys @ zs) @
       [\<lparr>le_key = the (key_of s a), le_value = v, le_weight = w, le_expiresAt = e\<rparr>]\<rparr>"
    by (rule updateExisting_lru [OF i [unfolded xs(1)] w])
  obtain t ws where t: "cache_evictIfNeeded u = Some t" "lru_inv t ws" "lru_view t ws = lru_shed (lru_view u (ys @ zs @ [a]))"
    using evictIfNeeded_lru [OF u(2)] by blast
  show ?thesis
    using Some u t xs c by (auto simp: lru_put_def)
qed

lemma set_lru:
  assumes "lru_refines s l"
  shows "\<exists>t. cache_set k v ttl weight now s = Some (t, snd (lru_set k v ttl weight now l))
    \<and> lru_refines t (fst (lru_set k v ttl weight now l))"
proof -
  obtain xs where i: "lru_inv s xs" and l: "l = lru_view s xs" using assms by (auto simp: lru_refines_def)
  show ?thesis
  proof (cases "ca_disposed s")
    case True
    then show ?thesis using assms by (simp add: cache_set_def lru_set_def l)
  next
    case False
    show ?thesis
    proof (cases "cache_expiresAt (default_to (ca_defaultTTL s) ttl) now")
      case (Inl err)
      then show ?thesis using assms False by (simp add: cache_set_def lru_set_def l)
    next
      case (Inr e)
      obtain u r where u: "cache_computeWeight v weight s = (u, r)" "lru_weigh v weight l = (lru_view u xs, r)"
          "lru_inv u xs" and pos: "\<forall>w. r = Inr w \<longrightarrow> 0 \<le> w"
        by (rule weigh_lru [OF i, of v weight, folded l])
      show ?thesis
      proof (cases r)
        case (Inl err)
        then show ?thesis using False Inr u by (auto simp: cache_set_def lru_set_def l lru_refines_def)
      next
        case w: (Inr w)
        note pol = lru_inv_parts(7) [OF u(3)]
        show ?thesis
        proof (cases "ca_rejectOversized u \<and> is_finite (ca_maxWeight u) \<and> num_lt (ca_maxWeight u) (Fin w)")
          case True
          have n: "lru_view (cache_notifyEvict (Some k) (Some v) RejectedOversized (u\<lparr>ca_rejected := Suc (ca_rejected u)\<rparr>)) xs
              = lru_note RejectedOversized [\<lparr>le_key = k, le_value = v, le_weight = w, le_expiresAt = e\<rparr>]
                  ((lru_view u xs)\<lparr>lru_rejected := Suc (ca_rejected u)\<rparr>)"
            using notify_view [of "\<lparr>le_key = k, le_value = v, le_weight = w, le_expiresAt = e\<rparr>"] by (simp add: view_upd)
          show ?thesis
            using True False Inr u w n
            by (auto simp: cache_set_def lru_set_def l cache_rejectIfOversized_def lru_refines_def intro!: exI [of _ xs])
        next
          case f: False
          have rej: "cache_rejectIfOversized k v w u = (u, False)"
            using f by (auto simp: cache_rejectIfOversized_def)
          obtain t zs where t: "(case jm_get k (ca_map u) of
        Some a \<Rightarrow> do {s3 \<leftarrow> cache_updateExisting a v w e u; s4 \<leftarrow> cache_evictIfNeeded (cache_increment k s3); Some (s4, Inr True)}
      | None \<Rightarrow> do {(s3, inserted) \<leftarrow> cache_insertNew k v w e (length (ca_map u)) u;
                    (if \<not> inserted then Some (cache_increment k s3, Inr True)
                     else do {s4 \<leftarrow> cache_evictIfNeeded (cache_increment k s3); Some (s4, Inr True)})})
      = Some (t, (Inr True :: bool result))" "lru_inv t zs" "lru_view t zs = lru_put k v w e (lru_view u xs)"
            using put_lru [OF u(3) pos [rule_format, OF w] refl, of k v e] by blast
          have ex: "(case jm_get k (ca_map u) of Some a \<Rightarrow> Some a
              | None \<Rightarrow> if ca_policy u = S3FIFO then or_else (jm_get k (ca_smallMap u)) (jm_get k (ca_ghostMap u)) else None)
              = jm_get k (ca_map u)" using pol by (simp split: option.splits)
          have "cache_set k v ttl weight now s = Some (t, Inr True)"
            using False Inr u w rej t(1) by (simp add: cache_set_def Let_def ex)
          moreover have "lru_set k v ttl weight now l = (lru_put k v w e (lru_view u xs), Inr True)"
            using False Inr u w f by (simp add: lru_set_def l)
          ultimately show ?thesis using t by (auto simp: lru_refines_def)
        qed
      qed
    qed
  qed
qed

section \<open>Reading\<close>

lemma fetch_lru:
  assumes "lru_inv s xs"
  obtains t e zs where "cache_fetchValidNode k ig cm False now s = (t, e)" "lru_inv t zs"
    "lru_fetch k ig cm now (lru_view s xs) = (lru_view t zs, map_option (\<lambda>a. entry_of (ca_heap t a)) e)"
    "\<forall>a. e = Some a \<longrightarrow> jm_get k (ca_map t) = Some a \<and> t = s"
proof (cases "jm_get k (ca_map s)")
  case None
  have f: "cache_fetchValidNode k ig cm False now s = (count_miss cm s, None)"
    using None lru_inv_parts(7) [OF assms] by (simp add: cache_fetchValidNode_def)
  show ?thesis
    by (rule that [OF f, of xs]) (use assms lookup_none [OF assms None] in
      \<open>simp_all add: count_miss_def lru_fetch_def lru_miss_def view_upd\<close>)
next
  case (Some a)
  obtain ys zs where xs: "xs = ys @ a # zs" "lru_find k (entries_of s xs) = Some (entry_of (ca_heap s a))"
      "lru_drop k (entries_of s xs) = entries_of s (ys @ zs)" "key_of s a = Some k"
    by (rule lookup_some [OF assms Some])
  define x where "x = nd_expiresAt (ca_heap s a)"
  show ?thesis
  proof (cases "\<not> ig \<and> x \<noteq> 0 \<and> now \<noteq> 0 \<and> x \<le> now")
    case True
    define u where "u = cache_unlinkNode False a s"
    note ul = unlink_lru [OF assms [unfolded xs(1)], of False, folded u_def, simplified]
    define e where "e = entry_of (ca_heap s a)"
    have kv: "key_of s a = Some (le_key e)" "value_of s a = Some (le_value e)"
      using node_entry [OF assms, of a] xs(1) by (simp_all add: e_def)
    define u2 where "u2 = (if ca_onExpire u then u\<lparr>ca_expired := ca_expired u @ [(Some (le_key e), Some (le_value e))]\<rparr> else u)"
    have i2: "lru_inv u2 (ys @ zs)" using ul(1) by (simp add: u2_def)
    have f2: "a \<notin> set (ys @ zs)" "a \<notin> set (ca_pool u2)" "a < ca_fresh u2" using ul(3,4,5) by (simp_all add: u2_def)
    note fr = free_lru [OF i2 f2]
    define u3 where "u3 = (cache_freeNode a u2)\<lparr>ca_expirations := ca_expirations (cache_freeNode a u2) + 1\<rparr>"
    have "cache_removeExpiredNode a now s = (u3, True)"
      using True kv by (simp add: cache_removeExpiredNode_def Let_def x_def u3_def u2_def u_def del: One_nat_def)
    then have f: "cache_fetchValidNode k ig cm False now s = (count_miss cm u3, None)"
      using Some True by (simp add: cache_fetchValidNode_def x_def Let_def)
    have ne: "ca_expirations (cache_freeNode a u2) = ca_expirations s"
    proof -
      have "ca_expirations (cache_freeNode a u2) = lru_expirations (lru_view (cache_freeNode a u2) (ys @ zs))" by simp
      also have "\<dots> = lru_expirations (lru_view u (ys @ zs))" unfolding fr(2) by (simp add: u2_def)
      also have "\<dots> = ca_expirations s" unfolding ul(2) [simplified] by (simp add: lru_view_def)
      finally show ?thesis .
    qed
    have v3: "lru_view u3 (ys @ zs) = lru_expire e (lru_view s xs)"
    proof -
      have k: "le_key e = k" using kv(1) xs(4) by simp
      have fields: "ca_onExpire u = ca_onExpire s" "ca_expired u = ca_expired s"
        using arg_cong [OF ul(2), of lru_onExpire] arg_cong [OF ul(2), of lru_expired] by simp_all
      have v2: "lru_view u2 (ys @ zs) = (lru_view s xs)\<lparr>lru_entries := entries_of s (ys @ zs),
          lru_expired := (if ca_onExpire s then ca_expired s @ [(Some (le_key e), Some (le_value e))] else ca_expired s)\<rparr>"
        by (simp add: u2_def view_upd ul(2) fields xs(1))
      have "lru_view u3 (ys @ zs) = (lru_view u2 (ys @ zs))\<lparr>lru_expirations := ca_expirations s + 1\<rparr>"
        unfolding u3_def view_upd fr(2) ne ..
      also have "\<dots> = lru_expire e (lru_view s xs)"
        unfolding v2 lru_expire_def using xs(3) k by simp
      finally show ?thesis .
    qed
    have i3: "lru_inv u3 (ys @ zs)" using fr(1) by (simp add: u3_def)
    have e: "le_expiresAt e = x" by (simp add: e_def entry_of_def x_def)
    show ?thesis
    proof (rule that [OF f, of "ys @ zs"])
      show "lru_inv (count_miss cm u3) (ys @ zs)" using i3 by (simp add: count_miss_def)
      show "lru_fetch k ig cm now (lru_view s xs) = (lru_view (count_miss cm u3) (ys @ zs),
          map_option (\<lambda>b. entry_of (ca_heap (count_miss cm u3) b)) None)"
      proof -
        have "lru_fetch k ig cm now (lru_view s xs) = (lru_miss cm (lru_expire e (lru_view s xs)), None)"
          using xs(2) True e by (simp add: lru_fetch_def e_def [symmetric])
        moreover have "lru_view (count_miss cm u3) (ys @ zs) = lru_miss cm (lru_view u3 (ys @ zs))"
          by (simp add: count_miss_def lru_miss_def view_upd)
        ultimately show ?thesis by (simp add: v3)
      qed
    qed simp
  next
    case False
    have f: "cache_fetchValidNode k ig cm False now s = (s, Some a)"
      using Some False by (auto simp: cache_fetchValidNode_def x_def Let_def)
    show ?thesis
      by (rule that [OF f assms]) (use False Some xs(2) in \<open>auto simp: lru_fetch_def entry_of_def x_def\<close>)
  qed
qed

lemma refresh_lru:
  assumes i: "lru_inv s xs" and g: "jm_get k (ca_map s) = Some a"
  obtains t zs where "cache_moveToTail a s = Some t" "lru_inv t zs"
    "lru_view t zs = lru_refresh (entry_of (ca_heap s a)) (lru_view s xs)"
    "value_of t a = Some (le_value (entry_of (ca_heap s a)))"
proof -
  obtain ys zs where xs: "xs = ys @ a # zs" "lru_drop k (entries_of s xs) = entries_of s (ys @ zs)" "key_of s a = Some k"
    by (rule lookup_some [OF i g])
  obtain t where t: "cache_moveToTail a s = Some t" "lru_inv t (ys @ zs @ [a])" "value_of t a = value_of s a"
      "lru_view t (ys @ zs @ [a]) = (lru_view s (ys @ a # zs))\<lparr>lru_entries := entries_of s (ys @ zs @ [a])\<rparr>"
    by (rule moveToTail_lru [OF i [unfolded xs(1)]])
  have kv: "le_key (entry_of (ca_heap s a)) = k" "value_of s a = Some (le_value (entry_of (ca_heap s a)))"
    using node_entry [OF i, of a] xs(1,3) by simp_all
  show ?thesis
  proof (rule that [OF t(1,2)])
    show "lru_view t (ys @ zs @ [a]) = lru_refresh (entry_of (ca_heap s a)) (lru_view s xs)"
      using xs(2) by (simp add: t(4) lru_refresh_def kv(1) xs(1))
    show "value_of t a = Some (le_value (entry_of (ca_heap s a)))" using t(3) kv(2) by simp
  qed
qed

lemma get_lru:
  assumes "lru_refines s l"
  shows "\<exists>t. cache_get k now s = Some (t, snd (lru_get k now l)) \<and> lru_refines t (fst (lru_get k now l))"
proof -
  obtain xs where i: "lru_inv s xs" and l: "l = lru_view s xs" using assms by (auto simp: lru_refines_def)
  obtain t e zs where f: "cache_fetchValidNode k False True False now s = (t, e)" "lru_inv t zs"
      "lru_fetch k False True now l = (lru_view t zs, map_option (\<lambda>a. entry_of (ca_heap t a)) e)"
      and fa: "\<forall>a. e = Some a \<longrightarrow> jm_get k (ca_map t) = Some a \<and> t = s"
    by (rule fetch_lru [OF i, where k = k and ig = False and cm = True and now = now, folded l])
  show ?thesis
  proof (cases e)
    case None
    then show ?thesis using f by (auto simp: cache_get_def lru_get_def lru_refines_def)
  next
    case (Some a)
    obtain u ws where u: "cache_moveToTail a t = Some u" "lru_inv u ws"
        "lru_view u ws = lru_refresh (entry_of (ca_heap t a)) (lru_view t zs)"
        "value_of u a = Some (le_value (entry_of (ca_heap t a)))"
      by (rule refresh_lru [OF f(2)]) (use fa Some in auto)
    have "ca_hits u = ca_hits t" using arg_cong [OF u(3), of lru_hits] by (simp add: lru_refresh_def)
    moreover have "lru_inv (u\<lparr>ca_hits := Suc (ca_hits u)\<rparr>) ws" using u(2) by simp
    ultimately show ?thesis
      using Some f(1,3) u by (auto simp: cache_get_def lru_get_def lru_refines_def view_upd intro!: exI [of _ ws])
  qed
qed

lemma peek_lru:
  fixes k :: 'k and now :: rat and s :: "('k, 'v) cache"
  assumes "lru_refines s l"
  defines "r \<equiv> lru_fetch k False False now l"
  shows "snd (cache_peek k now s) = map_option le_value (snd r) \<and> lru_refines (fst (cache_peek k now s)) (fst r)"
proof -
  obtain xs where i: "lru_inv s xs" and l: "l = lru_view s xs" using assms by (auto simp: lru_refines_def)
  obtain t e zs where f: "cache_fetchValidNode k False False False now s = (t, e)" "lru_inv t zs"
      "r = (lru_view t zs, map_option (\<lambda>a. entry_of (ca_heap t a)) e)"
      and fa: "\<forall>a. e = Some a \<longrightarrow> jm_get k (ca_map t) = Some a \<and> t = s"
    by (rule fetch_lru [OF i, where k = k and ig = False and cm = False and now = now, folded l, folded r_def])
  show ?thesis
  proof (cases e)
    case None
    then show ?thesis using f by (auto simp: cache_peek_def lru_refines_def)
  next
    case (Some a)
    then have "a \<in> set zs" using fa lru_inv_parts(3) [OF f(2)] unfolding map_rep_def by blast
    then have "value_of t a = Some (le_value (entry_of (ca_heap t a)))" using node_entry [OF f(2)] by blast
    then show ?thesis using f Some by (auto simp: cache_peek_def lru_refines_def)
  qed
qed

lemma has_lru:
  fixes k :: 'k and now :: rat and ig :: bool and s :: "('k, 'v) cache"
  assumes "lru_refines s l"
  defines "r \<equiv> lru_fetch k ig False now l"
  shows "snd (cache_has k ig now s) = (snd r \<noteq> None) \<and> lru_refines (fst (cache_has k ig now s)) (fst r)"
proof -
  obtain xs where i: "lru_inv s xs" and l: "l = lru_view s xs" using assms by (auto simp: lru_refines_def)
  obtain t e zs where "cache_fetchValidNode k ig False False now s = (t, e)" "lru_inv t zs"
      "r = (lru_view t zs, map_option (\<lambda>a. entry_of (ca_heap t a)) e)"
    by (rule fetch_lru [OF i, where k = k and ig = ig and cm = False and now = now, folded l, folded r_def])
  then show ?thesis by (auto simp: cache_has_def lru_refines_def)
qed

lemma redate_lru:
  fixes x :: rat and s :: "('k, 'v) cache"
  assumes i: "lru_inv s xs" and g: "jm_get k (ca_map s) = Some a"
  defines "t \<equiv> node_upd a (\<lambda>n. n\<lparr>nd_expiresAt := x\<rparr>) s"
  shows "lru_inv t xs" "jm_get k (ca_map t) = Some a"
    "lru_refresh (entry_of (ca_heap t a)) (lru_view t xs)
       = lru_refresh ((entry_of (ca_heap s a))\<lparr>le_expiresAt := x\<rparr>) (lru_view s xs)"
proof -
  obtain ys zs where xs: "xs = ys @ a # zs" "lru_drop k (entries_of s xs) = entries_of s (ys @ zs)" "key_of s a = Some k"
    by (rule lookup_some [OF i g])
  note i' = i [unfolded xs(1)]
  obtain v where v: "value_of s a = Some v" using node_entry [OF i', of a] by auto
  have w: "0 \<le> nd_weight (ca_heap s a)" using lru_inv_parts(5) [OF i'] by (simp add: weight_rep_def)
  have t: "t = (node_upd a (\<lambda>n. n\<lparr>nd_value := Some v, nd_weight := nd_weight (ca_heap s a), nd_expiresAt := x\<rparr>) s)
      \<lparr>ca_currentWeight := ca_currentWeight s - nd_weight (ca_heap s a) + nd_weight (ca_heap s a)\<rparr>"
    using v by (simp add: t_def node_upd_def flip: v)
  note r = rewrite_lru [OF i' w, where v = v and e = x, folded t]
  show "lru_inv t xs" using r(1) xs(1) by simp
  show g2: "jm_get k (ca_map t) = Some a" using g by (simp add: t_def node_upd_def)
  have e: "entry_of (ca_heap t a) = (entry_of (ca_heap s a))\<lparr>le_expiresAt := x\<rparr>"
    by (simp add: t_def node_upd_def entry_of_def)
  have k: "le_key (entry_of (ca_heap s a)) = k" using xs(3) by (simp add: entry_of_def)
  obtain ys' zs' where xs': "xs = ys' @ a # zs'" "lru_drop k (entries_of t xs) = entries_of t (ys' @ zs')"
    by (rule lookup_some [OF \<open>lru_inv t xs\<close> g2])
  have "ys' = ys \<and> zs' = zs"
    using xs(1) xs'(1) lru_inv_parts(9) [OF i] by (metis append_Cons_eq_iff distinct_append distinct.simps(2) not_distinct_conv_prefix)
  then have d: "lru_drop k (entries_of t xs) = lru_drop k (entries_of s xs)"
    using xs xs' r(3) by simp
  show "lru_refresh (entry_of (ca_heap t a)) (lru_view t xs)
       = lru_refresh ((entry_of (ca_heap s a))\<lparr>le_expiresAt := x\<rparr>) (lru_view s xs)"
    unfolding lru_refresh_def e using d k r(2) xs(1) by (simp add: lru_view_def t_def node_upd_def)
qed

lemma touch_lru:
  assumes "lru_refines s l"
  shows "\<exists>t. cache_touch k ttl now s = Some (t, snd (lru_touch k ttl now l)) \<and> lru_refines t (fst (lru_touch k ttl now l))"
proof -
  obtain xs where i: "lru_inv s xs" and l: "l = lru_view s xs" using assms by (auto simp: lru_refines_def)
  obtain t e zs where f: "cache_fetchValidNode k False False False now s = (t, e)" "lru_inv t zs"
      "lru_fetch k False False now l = (lru_view t zs, map_option (\<lambda>a. entry_of (ca_heap t a)) e)"
      and fa: "\<forall>a. e = Some a \<longrightarrow> jm_get k (ca_map t) = Some a \<and> t = s"
    by (rule fetch_lru [OF i, where k = k and ig = False and cm = False and now = now, folded l])
  show ?thesis
  proof (cases e)
    case None
    then show ?thesis using f by (auto simp: cache_touch_def lru_touch_def lru_refines_def)
  next
    case (Some a)
    note g = fa [rule_format, OF Some, THEN conjunct1]
    show ?thesis
    proof (cases "ttl = JUndefined")
      case True
      obtain u ws where "cache_moveToTail a t = Some u" "lru_inv u ws"
          "lru_view u ws = lru_refresh (entry_of (ca_heap t a)) (lru_view t zs)"
        by (rule refresh_lru [OF f(2) g])
      then show ?thesis using f Some True by (auto simp: cache_touch_def lru_touch_def lru_refines_def)
    next
      case False
      show ?thesis
      proof (cases "cache_expiresAt ttl now")
        case (Inl err)
        then show ?thesis using f Some False by (auto simp: cache_touch_def lru_touch_def lru_refines_def)
      next
        case (Inr x)
        define t2 where "t2 = node_upd a (\<lambda>n. n\<lparr>nd_expiresAt := x\<rparr>) t"
        note r = redate_lru [OF f(2) g, of x, folded t2_def]
        obtain u ws where "cache_moveToTail a t2 = Some u" "lru_inv u ws"
            "lru_view u ws = lru_refresh (entry_of (ca_heap t2 a)) (lru_view t2 zs)"
          by (rule refresh_lru [OF r(1,2)])
        then show ?thesis using f Some False Inr r(3)
          by (auto simp: cache_touch_def lru_touch_def lru_refines_def t2_def)
      qed
    qed
  qed
qed

section \<open>Removing\<close>

lemma delete_lru:
  assumes "lru_refines s l"
  shows "snd (cache_delete k s) = snd (lru_delete k l) \<and> lru_refines (fst (cache_delete k s)) (fst (lru_delete k l))"
proof -
  obtain xs where i: "lru_inv s xs" and l: "l = lru_view s xs" using assms by (auto simp: lru_refines_def)
  define s1 where "s1 = fst (cache_abortInflight (Some k) s)"
  have i1: "lru_inv s1 xs" and l1: "l = lru_view s1 xs" using i l by (simp_all add: s1_def)
  have node: "(case jm_get k (ca_map s1) of Some a \<Rightarrow> Some a
     | None \<Rightarrow> (if ca_policy s1 = S3FIFO then or_else (jm_get k (ca_smallMap s1)) (jm_get k (ca_ghostMap s1)) else None))
     = jm_get k (ca_map s1)"
    using lru_inv_parts(7) [OF i1] by (simp split: option.splits)
  show ?thesis
  proof (cases "jm_get k (ca_map s1)")
    case None
    have "cache_delete k s = (s1, False)" unfolding cache_delete_def Let_def s1_def [symmetric] node using None by simp
    then show ?thesis using i1 lookup_none [OF i1 None] by (auto simp: lru_delete_def l1 lru_refines_def)
  next
    case (Some a)
    obtain ys zs where xs: "xs = ys @ a # zs" "lru_find k (entries_of s1 xs) = Some (entry_of (ca_heap s1 a))"
        "lru_drop k (entries_of s1 xs) = entries_of s1 (ys @ zs)" "key_of s1 a = Some k"
      by (rule lookup_some [OF i1 Some])
    define u where "u = cache_unlinkNode False a s1"
    note ul = unlink_lru [OF i1 [unfolded xs(1)], of False, folded u_def, simplified]
    define e where "e = entry_of (ca_heap s1 a)"
    have kv: "key_of u a = Some (le_key e)" "value_of u a = Some (le_value e)"
      using node_entry [OF i1, of a] xs(1) ul(6,7) by (simp_all add: e_def)
    define u2 where "u2 = cache_notifyEvict (Some (le_key e)) (Some (le_value e)) Deleted u"
    have i2: "lru_inv u2 (ys @ zs)" and f2: "a \<notin> set (ys @ zs)" "a \<notin> set (ca_pool u2)" "a < ca_fresh u2"
      using ul(1,3,4,5) by (simp_all add: u2_def)
    note fr = free_lru [OF i2 f2]
    have r: "cache_delete k s = (cache_freeNode a u2, True)"
      unfolding cache_delete_def Let_def s1_def [symmetric] node using Some kv by (simp add: u2_def u_def)
    have "lru_delete k l = (lru_view (cache_freeNode a u2) (ys @ zs), True)"
      unfolding fr(2) unfolding u2_def notify_view ul(2)
      using xs by (simp add: lru_delete_def l1 e_def)
    then show ?thesis using fr(1) r by (auto simp: lru_refines_def)
  qed
qed

lemma evict_count_lru:
  assumes "lru_inv s xs"
  shows "\<exists>t zs. evict_count n r s = (t, r + min n (length xs)) \<and> lru_inv t zs \<and> lru_view t zs = lru_pop n (lru_view s xs)"
  using assms
proof (induction n arbitrary: r s xs)
  case 0
  then show ?case by auto
next
  case (Suc n)
  show ?case
  proof (cases xs)
    case Nil
    then have "evict_count (Suc n) r s = (s, r)" using victim_lru(2) [OF Suc.prems] by simp
    moreover have "lru_pop (Suc n) (lru_view s xs) = lru_view s xs"
      by (simp add: Nil lru_pop_def lru_note_def lru_view_def)
    ultimately show ?thesis using Suc.prems Nil by auto
  next
    case (Cons a zs)
    note i = Suc.prems [unfolded Cons]
    have "evict_count (Suc n) r s = evict_count n (r + 1) (cache_evictAt True a s)"
      using victim_lru(2) [OF i] by simp
    moreover obtain t ws where "evict_count n (r + 1) (cache_evictAt True a s) = (t, r + 1 + min n (length zs))"
        "lru_inv t ws" "lru_view t ws = lru_pop n (lru_view (cache_evictAt True a s) zs)"
      using Suc.IH [OF evictAt_lru(1) [OF i], of "r + 1"] by blast
    moreover have "lru_pop n (lru_view (cache_evictAt True a s) zs) = lru_pop (Suc n) (lru_view s xs)"
      unfolding evictAt_lru(2) [OF i] Let_def Cons by (rule lru_pop_Suc [symmetric]) simp
    ultimately show ?thesis using Cons by auto
  qed
qed

lemma evict_lru:
  assumes "lru_refines s l"
  shows "snd (cache_evict c s) = snd (lru_evict c l) \<and> lru_refines (fst (cache_evict c s)) (fst (lru_evict c l))"
proof -
  obtain xs where i: "lru_inv s xs" and l: "l = lru_view s xs" using assms by (auto simp: lru_refines_def)
  show ?thesis
  proof (cases "\<exists>n. default_to (JNum (Fin 1)) c = JNum n \<and> is_integer n \<and> \<not> num_lt n (Fin 0)")
    case True
    then obtain n where n: "default_to (JNum (Fin 1)) c = JNum n" "is_integer n" "\<not> num_lt n (Fin 0)" by blast
    obtain t zs where "evict_count (nat \<lfloor>num_rat n\<rfloor>) 0 s = (t, 0 + min (nat \<lfloor>num_rat n\<rfloor>) (length xs))" "lru_inv t zs"
        "lru_view t zs = lru_pop (nat \<lfloor>num_rat n\<rfloor>) (lru_view s xs)"
      using evict_count_lru [OF i, of "nat \<lfloor>num_rat n\<rfloor>" 0] by blast
    then show ?thesis using n by (auto simp: cache_evict_def lru_evict_def Let_def settle_lru l lru_refines_def)
  next
    case False
    then show ?thesis using i
      by (auto simp: cache_evict_def lru_evict_def l lru_refines_def split: js_val.splits)
  qed
qed

lemma resize_lru:
  assumes "lru_refines s l"
  shows "\<exists>t. cache_resize m w s = Some (t, snd (lru_resize m w l)) \<and> lru_refines t (fst (lru_resize m w l))"
proof -
  obtain xs where i: "lru_inv s xs" and l: "l = lru_view s xs" using assms by (auto simp: lru_refines_def)
  show ?thesis
  proof (cases "resized m (ca_maxEntries s)")
    case (Inl e)
    then show ?thesis using assms by (simp add: cache_resize_def lru_resize_def l)
  next
    case m: (Inr m')
    show ?thesis
    proof (cases "resized w (ca_maxWeight s)")
      case (Inl e)
      have "lru_inv (s\<lparr>ca_maxEntries := m'\<rparr>) xs" using i by simp
      then show ?thesis using Inl m by (auto simp: cache_resize_def lru_resize_def l lru_refines_def view_upd)
    next
      case (Inr w')
      have i1: "lru_inv (s\<lparr>ca_maxEntries := m', ca_maxWeight := w'\<rparr>) xs" using i by simp
      obtain t zs where t: "cache_evictIfNeeded (s\<lparr>ca_maxEntries := m', ca_maxWeight := w'\<rparr>) = Some t" "lru_inv t zs"
          "lru_view t zs = lru_shed ((lru_view s xs)\<lparr>lru_maxEntries := m', lru_maxWeight := w'\<rparr>)"
        using evictIfNeeded_lru [OF i1] by (auto simp: view_upd)
      define u where "u = t\<lparr>ca_cleanupCursor := None, ca_cleanupCursorValid := False, ca_evictionCandidate := ca_head t\<rparr>"
      have "lru_inv u zs" "lru_view u zs = lru_view t zs"
        using t(2) by (simp_all add: u_def lru_inv_def lru_mode_def lru_list_def lru_view_def entries_of_def)
      then show ?thesis using t m Inr by (auto simp: cache_resize_def lru_resize_def l lru_refines_def u_def)
    qed
  qed
qed

end
