(* ===== verification/CacheRuns.thy ===== *)
theory CacheRuns
  imports CacheLru
begin

text \<open>
  Whole runs of the cache under its default policy: emptying it, walking it, a command for each
  operation, and the theorems that hold of every run of commands from the constructor on.
\<close>

section \<open>Clearing and walking\<close>

lemma free_all_lru:
  assumes "lseg (ca_heap s) p xs None" "distinct xs" "pool_rep (ca_pool s) (ca_fresh s) xs"
  shows "\<exists>h pool. free_all (first xs None) s = Some (s\<lparr>ca_heap := h, ca_pool := pool\<rparr>) \<and> pool_rep pool (ca_fresh s) []"
  using assms
proof (induction xs arbitrary: s p)
  case Nil
  have "s = s\<lparr>ca_heap := ca_heap s, ca_pool := ca_pool s\<rparr>" by simp
  then have "free_all None s = Some (s\<lparr>ca_heap := ca_heap s, ca_pool := ca_pool s\<rparr>)" by (subst free_all.simps) simp
  then show ?case using Nil.prems(3) by (intro exI [of _ "ca_heap s"] exI [of _ "ca_pool s"]) simp
next
  case (Cons a xs)
  define n where "n = (ca_heap s a)\<lparr>nd_key := None, nd_value := None, nd_weight := 0, nd_expiresAt := 0,
                 nd_prev := None, nd_next := None\<rparr>"
  define u where "u = s\<lparr>ca_heap := (ca_heap s)(a := n),
      ca_pool := (if num_lt (Fin (of_nat (length (ca_pool s)))) (ca_maxPoolSize s) then ca_pool s @ [a] else ca_pool s)\<rparr>"
  have f: "cache_freeNode a s = u"
    by (simp add: cache_freeNode_def node_upd_def Let_def n_def u_def)
  have l: "lseg (ca_heap u) (Some a) xs None" using Cons.prems by (simp add: u_def)
  have pr: "pool_rep (ca_pool u) (ca_fresh u) xs" using Cons.prems(2,3) by (auto simp: u_def pool_rep_def)
  obtain h pool where r: "free_all (first xs None) u = Some (u\<lparr>ca_heap := h, ca_pool := pool\<rparr>)" "pool_rep pool (ca_fresh u) []"
    using Cons.IH [OF l _ pr] Cons.prems(2) by auto
  have "free_all (first (a # xs) None) s = free_all (first xs None) u"
    using Cons.prems(1) by (subst free_all.simps) (simp add: f)
  then show ?case using r by (auto simp: u_def)
qed

lemma abort_all_lru:
  "lru_inv (abort_all ks s) xs = lru_inv s xs" "lru_view (abort_all ks s) xs = lru_view s xs"
  by (induction ks arbitrary: s) simp_all

lemma clear_lru:
  assumes "lru_refines s l"
  shows "\<exists>t. cache_clear s = Some t \<and> lru_refines t (l\<lparr>lru_entries := []\<rparr>)"
proof -
  obtain xs where i: "lru_inv s xs" and l: "l = lru_view s xs" using assms by (auto simp: lru_refines_def)
  define s0 where "s0 = abort_all (jm_keys (ca_inflight s)) s"
  have i0: "lru_inv s0 xs" and l0: "l = lru_view s0 xs" using i l by (simp_all add: s0_def abort_all_lru)
  note p = lru_inv_parts [OF i0]
  obtain h pool where r: "free_all (ca_head s0) s0 = Some (s0\<lparr>ca_heap := h, ca_pool := pool\<rparr>)" "pool_rep pool (ca_fresh s0) []"
    using free_all_lru [OF p(8,9,4)] unfolding p(10) by blast
  define t where "t = (s0\<lparr>ca_heap := h, ca_pool := pool\<rparr>)
           \<lparr>ca_head := None, ca_tail := None, ca_map := [], ca_smallMap := [], ca_ghostMap := [],
            ca_smallSize := 0, ca_ghostSize := 0, ca_smallHead := None, ca_smallTail := None,
            ca_ghostHead := None, ca_ghostTail := None, ca_sieveHand := None,
            ca_sketch := map_option sketch_clear (ca_sketch s0), ca_rejectedAdmission := 0, ca_currentWeight := 0,
            ca_cleanupCursor := None, ca_cleanupCursorValid := False, ca_evictionCandidate := None,
            ca_probationEnd := None, ca_inflight := []\<rparr>"
  have c: "cache_clear s = Some t"
    by (simp add: cache_clear_def s0_def [symmetric] r t_def)
  have "lru_inv t []"
    using p(1) r(2) by (simp add: t_def lru_inv_def lru_mode_def lru_list_def map_rep_def weight_rep_def jm_ok_def jm_get_def)
  moreover have "lru_view t [] = l\<lparr>lru_entries := []\<rparr>" unfolding l0 by (simp add: t_def lru_view_def)
  ultimately show ?thesis using c by (auto simp: lru_refines_def)
qed

lemma dispose_lru:
  assumes "lru_refines s l"
  shows "\<exists>t. cache_dispose s = Some t \<and> lru_refines t (l\<lparr>lru_disposed := True, lru_entries := []\<rparr>)"
proof -
  obtain xs where i: "lru_inv s xs" and l: "l = lru_view s xs" using assms by (auto simp: lru_refines_def)
  have "lru_refines (s\<lparr>ca_disposed := True\<rparr>) (l\<lparr>lru_disposed := True\<rparr>)"
    unfolding lru_refines_def by (rule exI [of _ xs]) (use i in \<open>simp add: l lru_view_def entries_of_def\<close>)
  from clear_lru [OF this] show ?thesis by (simp add: cache_dispose_def)
qed

lemma walk_next:
  assumes "lseg (ca_heap s) p xs None"
  shows "walk_entries False (length xs) (first xs None) s = map (\<lambda>a. (key_of s a, value_of s a)) xs"
  using assms by (induction xs arbitrary: p) auto

lemma walk_prev:
  assumes "lseg (ca_heap s) None xs n"
  shows "walk_entries True (length xs) (final None xs) s = rev (map (\<lambda>a. (key_of s a, value_of s a)) xs)"
  using assms by (induction xs arbitrary: n rule: rev_induct) auto

definition lru_pairs :: "('k, 'v) lru \<Rightarrow> ('k option \<times> 'v option) list" where
  "lru_pairs l = map (\<lambda>e. (Some (le_key e), Some (le_value e))) (lru_entries l)"

lemma entries_lru:
  assumes "lru_refines s l"
  shows "cache_entries mru s = (if mru then rev (lru_pairs l) else lru_pairs l)" "cache_size s = int (length (lru_entries l))"
proof -
  obtain xs where i: "lru_inv s xs" and l: "l = lru_view s xs" using assms by (auto simp: lru_refines_def)
  note p = lru_inv_parts [OF i]
  have e: "map (\<lambda>a. (key_of s a, value_of s a)) xs = lru_pairs l"
    using node_entry [OF i] by (auto simp: lru_pairs_def l entries_of_def)
  show "cache_entries mru s = (if mru then rev (lru_pairs l) else lru_pairs l)"
    using walk_next [OF p(8)] walk_prev [OF p(8)] by (simp add: cache_entries_def p(7,10,11,13) e)
  show "cache_size s = int (length (lru_entries l))" by (simp add: cache_size_def p(7,13) l)
qed

section \<open>Commands\<close>

datatype ('k, 'v) cache_cmd =
    CSet 'k 'v js_val js_val rat | CGet 'k rat | CPeek 'k rat | CHas 'k bool rat | CTouch 'k js_val rat
  | CDelete 'k | CEvict js_val | CResize js_val js_val | CClear | CDispose | CEntries bool | CSize

datatype ('k, 'v) cache_answer =
    AVal "'v option" | ABool bool | ANum int | AList "('k option \<times> 'v option) list" | ADone | AErr js_error

definition answer_of :: "('a \<Rightarrow> ('k, 'v) cache_answer) \<Rightarrow> 'a result \<Rightarrow> ('k, 'v) cache_answer" where
  "answer_of f r = (case r of Inl e \<Rightarrow> AErr e | Inr x \<Rightarrow> f x)"

fun cache_exec :: "('k, 'v) cache_cmd \<Rightarrow> ('k, 'v) cache \<Rightarrow> (('k, 'v) cache \<times> ('k, 'v) cache_answer) option" where
  "cache_exec (CSet k v ttl w now) s = map_option (apsnd (answer_of ABool)) (cache_set k v ttl w now s)"
| "cache_exec (CGet k now) s = map_option (apsnd AVal) (cache_get k now s)"
| "cache_exec (CPeek k now) s = Some (apsnd AVal (cache_peek k now s))"
| "cache_exec (CHas k ig now) s = Some (apsnd ABool (cache_has k ig now s))"
| "cache_exec (CTouch k ttl now) s = map_option (apsnd (answer_of ABool)) (cache_touch k ttl now s)"
| "cache_exec (CDelete k) s = Some (apsnd ABool (cache_delete k s))"
| "cache_exec (CEvict c) s = Some (apsnd (answer_of (ANum \<circ> int)) (cache_evict c s))"
| "cache_exec (CResize m w) s = map_option (apsnd (answer_of (\<lambda>_. ADone))) (cache_resize m w s)"
| "cache_exec CClear s = map_option (\<lambda>t. (t, ADone)) (cache_clear s)"
| "cache_exec CDispose s = map_option (\<lambda>t. (t, ADone)) (cache_dispose s)"
| "cache_exec (CEntries mru) s = Some (s, AList (cache_entries mru s))"
| "cache_exec CSize s = Some (s, ANum (cache_size s))"

fun lru_exec :: "('k, 'v) cache_cmd \<Rightarrow> ('k, 'v) lru \<Rightarrow> ('k, 'v) lru \<times> ('k, 'v) cache_answer" where
  "lru_exec (CSet k v ttl w now) l = apsnd (answer_of ABool) (lru_set k v ttl w now l)"
| "lru_exec (CGet k now) l = apsnd AVal (lru_get k now l)"
| "lru_exec (CPeek k now) l = apsnd (AVal \<circ> map_option le_value) (lru_fetch k False False now l)"
| "lru_exec (CHas k ig now) l = apsnd (\<lambda>e. ABool (e \<noteq> None)) (lru_fetch k ig False now l)"
| "lru_exec (CTouch k ttl now) l = apsnd (answer_of ABool) (lru_touch k ttl now l)"
| "lru_exec (CDelete k) l = apsnd ABool (lru_delete k l)"
| "lru_exec (CEvict c) l = apsnd (answer_of (ANum \<circ> int)) (lru_evict c l)"
| "lru_exec (CResize m w) l = apsnd (answer_of (\<lambda>_. ADone)) (lru_resize m w l)"
| "lru_exec CClear l = (l\<lparr>lru_entries := []\<rparr>, ADone)"
| "lru_exec CDispose l = (l\<lparr>lru_disposed := True, lru_entries := []\<rparr>, ADone)"
| "lru_exec (CEntries mru) l = (l, AList (if mru then rev (lru_pairs l) else lru_pairs l))"
| "lru_exec CSize l = (l, ANum (int (length (lru_entries l))))"

fun cache_run :: "('k, 'v) cache_cmd list \<Rightarrow> ('k, 'v) cache \<Rightarrow> (('k, 'v) cache \<times> ('k, 'v) cache_answer list) option" where
  "cache_run [] s = Some (s, [])"
| "cache_run (c # cs) s = do {(s1, a) \<leftarrow> cache_exec c s; (s2, as) \<leftarrow> cache_run cs s1; Some (s2, a # as)}"

fun lru_run :: "('k, 'v) cache_cmd list \<Rightarrow> ('k, 'v) lru \<Rightarrow> ('k, 'v) lru \<times> ('k, 'v) cache_answer list" where
  "lru_run [] l = (l, [])"
| "lru_run (c # cs) l = (let (l1, a) = lru_exec c l; (l2, as) = lru_run cs l1 in (l2, a # as))"

lemma exec_lru:
  assumes "lru_refines s l"
  shows "\<exists>t. cache_exec c s = Some (t, snd (lru_exec c l)) \<and> lru_refines t (fst (lru_exec c l))"
proof (cases c)
  case (CSet k v ttl w now)
  then show ?thesis using set_lru [OF assms, of k v ttl w now] by auto
next
  case (CGet k now)
  then show ?thesis using get_lru [OF assms, of k now] by auto
next
  case (CPeek k now)
  then show ?thesis using peek_lru [OF assms, of k now] by (auto simp: apsnd_def map_prod_def split: prod.splits)
next
  case (CHas k ig now)
  then show ?thesis using has_lru [OF assms, of k ig now] by (auto simp: apsnd_def map_prod_def split: prod.splits)
next
  case (CTouch k ttl now)
  then show ?thesis using touch_lru [OF assms, of k ttl now] by auto
next
  case (CDelete k)
  then show ?thesis using delete_lru [OF assms, of k] by (auto simp: apsnd_def map_prod_def split: prod.splits)
next
  case (CEvict n)
  then show ?thesis using evict_lru [OF assms, of n] by (auto simp: apsnd_def map_prod_def split: prod.splits)
next
  case (CResize m w)
  then show ?thesis using resize_lru [OF assms, of m w] by auto
next
  case CClear
  then show ?thesis using clear_lru [OF assms] by auto
next
  case CDispose
  then show ?thesis using dispose_lru [OF assms] by auto
next
  case (CEntries mru)
  then show ?thesis using entries_lru(1) [OF assms, of mru] assms by simp
next
  case CSize
  then show ?thesis using entries_lru(2) [OF assms] assms by simp
qed

lemma run_lru:
  assumes "lru_refines s l"
  shows "\<exists>t. cache_run cs s = Some (t, snd (lru_run cs l)) \<and> lru_refines t (fst (lru_run cs l))"
  using assms
proof (induction cs arbitrary: s l)
  case (Cons c cs)
  obtain u where u: "cache_exec c s = Some (u, snd (lru_exec c l))" "lru_refines u (fst (lru_exec c l))"
    using exec_lru [OF Cons.prems] by blast
  obtain t where "cache_run cs u = Some (t, snd (lru_run cs (fst (lru_exec c l))))" "lru_refines t (fst (lru_run cs (fst (lru_exec c l))))"
    using Cons.IH [OF u(2)] by blast
  then show ?case using u(1) by (auto simp: Let_def split_def)
qed simp

section \<open>From the constructor\<close>

lemma cache_limit_min:
  assumes "cache_limit name whole unbounded v = Inr n"
  shows "n \<noteq> NaN \<and> \<not> num_lt n (Fin 0)"
proof -
  have "is_nullish v \<and> JUndefined = JNum n \<or> n = PosInf \<or> (\<exists>r. n = Fin r \<and> 0 \<le> r)"
    using assertLimitRequired_cases [OF assms [unfolded cache_limit_def]] by (auto simp: limit_spec_def)
  then show ?thesis by auto
qed

lemma cache_new_parts:
  assumes "cache_new opts wfn mc sk lg rnd = Inr s"
  shows "\<exists>n. ca_head s = None \<and> ca_tail s = None \<and> ca_evictionCandidate s = None \<and> ca_cleanupCursor s = None
      \<and> ca_map s = [] \<and> ca_pool s = [0..<n] \<and> ca_fresh s = n \<and> ca_currentWeight s = 0"
    and "ca_maxEntries s \<noteq> NaN \<and> \<not> num_lt (ca_maxEntries s) (Fin 0) \<and> \<not> num_lt (ca_maxWeight s) (Fin 0)"
    and "\<not> ca_disposed s"
    and "\<exists>b w. window_size b (ca_maxEntries s) w = Inr (ca_windowSize s) \<and> (ca_sketch s = None \<longrightarrow> \<not> b)"
proof -
  have *: "(\<exists>v. cache_limit ''maxEntries'' True True v = Inr (ca_maxEntries s))
      \<and> (\<exists>v. cache_limit ''maxWeight'' False True v = Inr (ca_maxWeight s))
      \<and> (\<exists>b w. window_size b (ca_maxEntries s) w = Inr (ca_windowSize s) \<and> (ca_sketch s = None \<longrightarrow> \<not> b))
      \<and> (\<exists>n. ca_head s = None \<and> ca_tail s = None \<and> ca_evictionCandidate s = None \<and> ca_cleanupCursor s = None
      \<and> ca_map s = [] \<and> ca_pool s = [0..<n] \<and> ca_fresh s = n \<and> ca_currentWeight s = 0 \<and> \<not> ca_disposed s)"
    using assms unfolding cache_new_def Let_def
    apply (elim res_bindE if_InlE JNum_caseE Inr_eqE)
    apply hypsubst_thin
    apply (intro conjI)
    subgoal by (simp only: cache.simps) blast
    subgoal by (simp only: cache.simps) blast
    subgoal by (simp only: cache.simps) (auto split: if_splits elim: map_sum_InrE)
    subgoal by (rule exI) (intro conjI; (simp only: cache.simps)?; simp)
    done
  show "\<exists>n. ca_head s = None \<and> ca_tail s = None \<and> ca_evictionCandidate s = None \<and> ca_cleanupCursor s = None
      \<and> ca_map s = [] \<and> ca_pool s = [0..<n] \<and> ca_fresh s = n \<and> ca_currentWeight s = 0" "\<not> ca_disposed s"
    using * by blast+
  show "ca_maxEntries s \<noteq> NaN \<and> \<not> num_lt (ca_maxEntries s) (Fin 0) \<and> \<not> num_lt (ca_maxWeight s) (Fin 0)"
    using * cache_limit_min by blast
  show "\<exists>b w. window_size b (ca_maxEntries s) w = Inr (ca_windowSize s) \<and> (ca_sketch s = None \<longrightarrow> \<not> b)"
    using * by blast
qed

lemma new_lru:
  assumes "cache_new opts wfn mc sk lg rnd = Inr s" "ca_policy s = LRU" "ca_sketch s = None" "ca_missCost s = None"
  shows "lru_inv s []"
proof -
  note p = cache_new_parts [OF assms(1)]
  obtain n where n: "ca_head s = None" "ca_tail s = None" "ca_evictionCandidate s = None" "ca_cleanupCursor s = None"
      "ca_map s = []" "ca_pool s = [0..<n]" "ca_fresh s = n" "ca_currentWeight s = 0" using p(1) by blast
  obtain w where "window_size False (ca_maxEntries s) w = Inr (ca_windowSize s)" using p(4) assms(3) by auto
  then have "ca_windowSize s = Fin 0"
    using p(2) by (auto simp: window_size_def res_bind_Inr split: js_num.splits if_splits)
  then show ?thesis
    using assms(2-4) n
    by (simp add: lru_inv_def lru_mode_def lru_list_def map_rep_def pool_rep_def weight_rep_def jm_ok_def jm_get_def)
qed

section \<open>The limits\<close>

definition lru_within :: "('k, 'v) lru \<Rightarrow> bool" where
  "lru_within l \<longleftrightarrow> \<not> num_lt (lru_maxEntries l) (Fin 0) \<and> \<not> num_lt (lru_maxWeight l) (Fin 0)
     \<and> (\<forall>e\<in>set (lru_entries l). 0 \<le> le_weight e) \<and> \<not> lru_over (lru_maxEntries l) (lru_maxWeight l) (lru_entries l)"

lemma num_lt_Fin_mono: "\<not> num_lt m (Fin a) \<Longrightarrow> b \<le> a \<Longrightarrow> \<not> num_lt m (Fin b)"
  by (cases m) auto

lemma lru_over_mono:
  "\<not> lru_over m w es \<Longrightarrow> length fs \<le> length es \<Longrightarrow> lru_weight fs \<le> lru_weight es \<Longrightarrow> \<not> lru_over m w fs"
  unfolding lru_over_def using num_lt_Fin_mono by (metis of_nat_mono)

lemma keep_suffix: "\<exists>us. es = us @ lru_keep m w es"
proof (induction es)
  case (Cons e es)
  then obtain us where "es = us @ lru_keep m w es" by blast
  then show ?case by (cases "lru_over m w (e # es)") (auto intro: exI [of _ "e # us"])
qed simp

lemma drop_keep: "drop (length es - length (lru_keep m w es)) es = lru_keep m w es"
proof -
  obtain us where e: "es = us @ lru_keep m w es" using keep_suffix by blast
  then have "length es - length (lru_keep m w es) = length us" by (metis add_diff_cancel_right' length_append)
  then show ?thesis by (metis append_eq_conv_conj e)
qed

lemma keep_within: "lru_over m w (lru_keep m w es) \<Longrightarrow> lru_keep m w es = []"
  by (induction es) (auto split: if_splits)

lemma pop_simps [simp]:
  "lru_entries (lru_pop n l) = drop n (lru_entries l)" "lru_maxEntries (lru_pop n l) = lru_maxEntries l"
  "lru_maxWeight (lru_pop n l) = lru_maxWeight l"
  by (simp_all add: lru_pop_def)

lemma shed_simps [simp]:
  "lru_entries (lru_shed l) = lru_keep (lru_maxEntries l) (lru_maxWeight l) (lru_entries l)"
  "lru_maxEntries (lru_shed l) = lru_maxEntries l" "lru_maxWeight (lru_shed l) = lru_maxWeight l"
  by (simp_all add: lru_shed_def drop_keep)

lemma lru_weight_simps [simp]: "lru_weight [] = 0" "lru_weight (e # es) = le_weight e + lru_weight es"
    "lru_weight (es @ fs) = lru_weight es + lru_weight fs"
  by (simp_all add: lru_weight_def)

lemma lru_weight_nonneg: "\<forall>e\<in>set es. 0 \<le> le_weight e \<Longrightarrow> 0 \<le> lru_weight es"
  by (induction es) auto

lemma shed_within:
  assumes "\<not> num_lt (lru_maxEntries l) (Fin 0)" "\<not> num_lt (lru_maxWeight l) (Fin 0)" "\<forall>e\<in>set (lru_entries l). 0 \<le> le_weight e"
  shows "lru_within (lru_shed l)"
proof -
  obtain us where u: "lru_entries l = us @ lru_keep (lru_maxEntries l) (lru_maxWeight l) (lru_entries l)"
    using keep_suffix by blast
  have "\<forall>e\<in>set (lru_keep (lru_maxEntries l) (lru_maxWeight l) (lru_entries l)). 0 \<le> le_weight e"
    using assms(3) by (metis u Un_iff set_append)
  moreover have "\<not> lru_over (lru_maxEntries l) (lru_maxWeight l) (lru_keep (lru_maxEntries l) (lru_maxWeight l) (lru_entries l))"
  proof
    assume o: "lru_over (lru_maxEntries l) (lru_maxWeight l) (lru_keep (lru_maxEntries l) (lru_maxWeight l) (lru_entries l))"
    from keep_within [OF this] o have "lru_over (lru_maxEntries l) (lru_maxWeight l) ([] :: ('a, 'b) lru_entry list)" by simp
    then show False using assms(1,2) by (simp add: lru_over_def)
  qed
  ultimately show ?thesis using assms(1,2) by (simp add: lru_within_def)
qed

text \<open>A list of entries that is no longer and no heavier.\<close>

definition lighter :: "('k, 'v) lru_entry list \<Rightarrow> ('k, 'v) lru_entry list \<Rightarrow> bool" where
  "lighter fs es \<longleftrightarrow> length fs \<le> length es \<and> lru_weight fs \<le> lru_weight es \<and> (\<forall>e\<in>set fs. 0 \<le> le_weight e)"

lemma lighter_within:
  assumes "lru_within l" "lighter fs (lru_entries l)" "lru_entries l' = fs" "lru_maxEntries l' = lru_maxEntries l"
    "lru_maxWeight l' = lru_maxWeight l"
  shows "lru_within l'"
  using assms lru_over_mono [of "lru_maxEntries l" "lru_maxWeight l" "lru_entries l" fs]
  by (simp add: lru_within_def lighter_def)

lemma drop_lighter: "\<forall>e\<in>set es. 0 \<le> le_weight e \<Longrightarrow> lighter (lru_drop k es) es"
  by (induction es) (auto simp: lighter_def lru_drop_def le_SucI)

lemma take_out_lighter:
  assumes "\<forall>e\<in>set es. 0 \<le> le_weight e" "e \<in> set es" "le_key e = k" "le_weight f = le_weight e"
  shows "lighter (lru_drop k es @ [f]) es"
  using assms
proof (induction es)
  case (Cons g es)
  show ?case
  proof (cases "e \<in> set es")
    case True
    then show ?thesis using Cons by (auto simp: lighter_def lru_drop_def)
  next
    case False
    then have "g = e" using Cons.prems by auto
    then show ?thesis using drop_lighter [of es k] Cons.prems by (auto simp: lighter_def lru_drop_def)
  qed
qed simp

lemma suffix_lighter: "\<forall>e\<in>set es. 0 \<le> le_weight e \<Longrightarrow> lighter (drop n es) es"
proof (induction es arbitrary: n)
  case (Cons e es)
  then show ?case
  proof (cases n)
    case (Suc m)
    have "lighter (drop m es) es" using Cons by simp
    then show ?thesis using Cons.prems Suc by (auto simp: lighter_def)
  qed (auto simp: lighter_def)
qed (simp add: lighter_def)

lemma find_in: "lru_find k es = Some e \<Longrightarrow> e \<in> set es \<and> le_key e = k"
  by (auto simp: lru_find_def find_Some_iff)

lemma miss_simps [simp]:
  "lru_entries (lru_miss b l) = lru_entries l" "lru_maxEntries (lru_miss b l) = lru_maxEntries l"
  "lru_maxWeight (lru_miss b l) = lru_maxWeight l"
  by (simp_all add: lru_miss_def)

lemma fetch_within:
  assumes "lru_within l" "lru_fetch k ig cm now l = (l', e)"
  shows "lru_within l'" "e = Some x \<Longrightarrow> l' = l \<and> x \<in> set (lru_entries l) \<and> le_key x = k"
proof -
  have w: "\<forall>e\<in>set (lru_entries l). 0 \<le> le_weight e" using assms(1) by (simp add: lru_within_def)
  have m: "lru_within (lru_miss cm l)"
    using assms(1) by (simp add: lru_within_def)
  have x: "lru_within (lru_miss cm (lru_expire y l))" if "lru_find k (lru_entries l) = Some y" for y
    by (rule lighter_within [OF assms(1) drop_lighter [OF w, of "le_key y"]]) (simp_all add: lru_expire_def)
  show "lru_within l'" using assms m x by (auto simp: lru_fetch_def split: option.splits if_splits)
  show "e = Some x \<Longrightarrow> l' = l \<and> x \<in> set (lru_entries l) \<and> le_key x = k"
    using assms(2) find_in [of k "lru_entries l"] by (auto simp: lru_fetch_def split: option.splits if_splits)
qed

lemma refresh_within:
  assumes "lru_within l" "e \<in> set (lru_entries l)" "le_weight f = le_weight e" "le_key f = le_key e"
  shows "lru_within (lru_refresh f l)"
  by (rule lighter_within [OF assms(1) take_out_lighter [OF _ assms(2) refl assms(3)]])
    (use assms in \<open>simp_all add: lru_within_def lru_refresh_def\<close>)

lemma set_within:
  assumes "lru_within l"
  shows "lru_within (fst (lru_set k v ttl weight now l))"
proof -
  have weigh: "lru_within l1 \<and> (\<forall>w. r = Inr w \<longrightarrow> 0 \<le> w)" if "lru_weigh v weight l = (l1, r)" for l1 r
    using that assms
    by (cases "to_number weight") (auto simp: lru_weigh_def lru_within_def finite_or_0_def split: if_splits option.splits js_num.splits)
  have put: "lru_within (lru_put k v w e l1)" if "lru_within l1" "0 \<le> w" for w e l1
    unfolding lru_put_def by (rule shed_within) (use that in \<open>auto simp: lru_within_def lru_drop_def\<close>)
  have rej: "lru_within (lru_note why es (l1\<lparr>lru_rejected := n\<rparr>))" if "lru_within l1" for why es l1 n
    using that by (simp add: lru_within_def)
  show ?thesis
    using assms weigh put rej by (auto simp: lru_set_def split: sum.splits prod.splits)
qed

lemma resized_min: "resized v old = Inr n \<Longrightarrow> \<not> num_lt old (Fin 0) \<Longrightarrow> \<not> num_lt n (Fin 0)"
  by (cases "to_number v") (auto simp: resized_def split: js_num.splits)

lemma resize_within:
  assumes "lru_within l" "to_number w = Inr x"
  shows "lru_within (fst (lru_resize m w l))"
proof (cases "resized m (lru_maxEntries l)")
  case (Inl e)
  then show ?thesis using assms by (simp add: lru_resize_def)
next
  case m: (Inr m')
  have l: "\<not> num_lt (lru_maxEntries l) (Fin 0)" "\<not> num_lt (lru_maxWeight l) (Fin 0)" "\<forall>e\<in>set (lru_entries l). 0 \<le> le_weight e"
    using assms by (simp_all add: lru_within_def)
  show ?thesis
  proof (cases "resized w (lru_maxWeight l)")
    case (Inr w')
    have "lru_within (lru_shed (l\<lparr>lru_maxEntries := m', lru_maxWeight := w'\<rparr>))"
      by (rule shed_within) (use l resized_min [OF m] resized_min [OF Inr] in simp_all)
    then show ?thesis by (simp add: lru_resize_def m Inr)
  qed (use assms(2) in \<open>simp add: resized_def\<close>)
qed

text \<open>The commands after which a cache is within its limits: all but a \<open>resize\<close> whose second
  argument has no number, which throws when the first limit is already changed.\<close>

fun resize_converts :: "('k, 'v) cache_cmd \<Rightarrow> bool" where
  "resize_converts (CResize m w) = (case to_number w of Inl e \<Rightarrow> False | Inr n \<Rightarrow> True)"
| "resize_converts c = True"

lemma exec_within:
  assumes "lru_within l" "resize_converts c"
  shows "lru_within (fst (lru_exec c l))"
proof -
  have w: "\<forall>e\<in>set (lru_entries l). 0 \<le> le_weight e" using assms(1) by (simp add: lru_within_def)
  have empty: "lru_within l'" if "lru_entries l' = []" "lru_maxEntries l' = lru_maxEntries l" "lru_maxWeight l' = lru_maxWeight l" for l' :: "('a, 'b) lru"
    using that assms(1) by (simp add: lru_within_def lru_over_def)
  show ?thesis
  proof (cases c)
    case (CSet k v ttl wt now)
    then show ?thesis using set_within [OF assms(1)] by simp
  next
    case (CGet k now)
    have "lru_within (fst (lru_get k now l))"
    proof (cases "lru_fetch k False True now l")
      case (Pair l1 e)
      show ?thesis
      proof (cases e)
        case None
        then show ?thesis using fetch_within(1) [OF assms(1) Pair] by (simp add: lru_get_def Pair)
      next
        case (Some x)
        have "lru_within (lru_refresh x l1)"
          using fetch_within(1) [OF assms(1) Pair] fetch_within(2) [OF assms(1) Pair, where x = x] Some by (intro refresh_within [of _ x]) auto
        then show ?thesis by (simp add: lru_get_def Pair Some lru_within_def)
      qed
    qed
    then show ?thesis using CGet by simp
  next
    case (CPeek k now)
    then show ?thesis using fetch_within(1) [OF assms(1), where k = k and ig = False and cm = False and now = now] by (cases "lru_fetch k False False now l") simp
  next
    case (CHas k ig now)
    then show ?thesis using fetch_within(1) [OF assms(1), where k = k and ig = ig and cm = False and now = now] by (cases "lru_fetch k ig False now l") simp
  next
    case (CTouch k ttl now)
    have "lru_within (fst (lru_touch k ttl now l))"
    proof (cases "lru_fetch k False False now l")
      case (Pair l1 e)
      show ?thesis
      proof (cases e)
        case None
        then show ?thesis using fetch_within(1) [OF assms(1) Pair] by (simp add: lru_touch_def Pair)
      next
        case (Some x)
        have "lru_within l1" "\<And>y. lru_within (lru_refresh (x\<lparr>le_expiresAt := y\<rparr>) l1)" "lru_within (lru_refresh x l1)"
          using fetch_within(1) [OF assms(1) Pair] fetch_within(2) [OF assms(1) Pair, where x = x] Some by (auto intro: refresh_within [of _ x])
        then show ?thesis by (simp add: lru_touch_def Pair Some split: sum.split)
      qed
    qed
    then show ?thesis using CTouch by simp
  next
    case (CDelete k)
    have "lru_within (lru_note Deleted es (l\<lparr>lru_entries := lru_drop k (lru_entries l)\<rparr>))" for es
      by (rule lighter_within [OF assms(1) drop_lighter [OF w, of k]]) simp_all
    then have "lru_within (fst (lru_delete k l))"
      using assms(1) by (auto simp: lru_delete_def split: option.splits)
    then show ?thesis using CDelete by simp
  next
    case (CEvict n)
    have "lru_within (fst (lru_evict n l))"
      using assms(1) lighter_within [OF assms(1) suffix_lighter [OF w] pop_simps]
      by (auto simp: lru_evict_def Let_def split: js_val.splits)
    then show ?thesis using CEvict by simp
  next
    case (CResize m wt)
    then show ?thesis using assms resize_within [OF assms(1), where w = wt and m = m] by (auto split: sum.splits)
  qed (use assms(1) empty in simp_all)
qed

lemma run_within: "lru_within l \<Longrightarrow> list_all resize_converts cs \<Longrightarrow> lru_within (fst (lru_run cs l))"
proof (induction cs arbitrary: l)
  case (Cons c cs)
  then have "lru_within (fst (lru_run cs (fst (lru_exec c l))))" using exec_within [of l c] by simp
  then show ?case by (simp add: Let_def split_def)
qed simp

section \<open>What holds of every run\<close>

text \<open>The cache that the constructor makes for options that leave the policy at its default.\<close>

definition plain_cache :: "('k, 'v) cache \<Rightarrow> bool" where
  "plain_cache s \<longleftrightarrow> ca_policy s = LRU \<and> ca_sketch s = None \<and> ca_missCost s = None"

lemma plain_run:
  assumes "cache_new opts wfn mc sk lg rnd = Inr s" "plain_cache s"
  shows "\<exists>t. cache_run cs s = Some (t, snd (lru_run cs (lru_view s []))) \<and> lru_refines t (fst (lru_run cs (lru_view s [])))"
proof -
  have "lru_inv s []" using new_lru [OF assms(1)] assms(2) by (simp add: plain_cache_def)
  then show ?thesis by (intro run_lru) (auto simp: lru_refines_def)
qed

lemma new_within:
  assumes "cache_new opts wfn mc sk lg rnd = Inr s" "plain_cache s"
  shows "lru_within (lru_view s [])"
  using cache_new_parts(2) [OF assms(1)] by (simp add: lru_within_def lru_over_def)

section \<open>Example caches\<close>

definition demo_new :: "js_val \<Rightarrow> rat \<Rightarrow> (nat, nat) cache result" where
  "demo_new policy n = cache_new (JObj [(''maxEntries'', JNum (Fin n)), (''policy'', policy)])
     (\<lambda>v. Some (Fin 1)) (\<lambda>k v. None) (\<lambda>k. TextKey []) (\<lambda>r. r) 0"

definition demo_cache :: "js_val \<Rightarrow> rat \<Rightarrow> (nat, nat) cache" where
  "demo_cache policy n = projr (demo_new policy n)"

text \<open>A write at time 1 that never expires, and the answers and the end of a run.\<close>

definition put :: "nat \<Rightarrow> (nat, nat) cache_cmd" where
  "put k = CSet k (10 * k) (JNum PosInf) JNull 1"

definition answers :: "('k, 'v) cache_cmd list \<Rightarrow> ('k, 'v) cache \<Rightarrow> ('k, 'v) cache_answer list" where
  "answers cs s = (case cache_run cs s of None \<Rightarrow> [] | Some (t, as) \<Rightarrow> as)"

definition after :: "('k, 'v) cache_cmd list \<Rightarrow> ('k, 'v) cache \<Rightarrow> ('k, 'v) cache" where
  "after cs s = (case cache_run cs s of None \<Rightarrow> s | Some (t, as) \<Rightarrow> t)"

lemma run_after: "cache_run cs s \<noteq> None \<Longrightarrow> cache_run cs s = Some (after cs s, answers cs s)"
  by (auto simp: after_def answers_def)

abbreviation "demo \<equiv> demo_cache JUndefined 2"

lemma demo_lru: "cache_new (JObj [(''maxEntries'', JNum (Fin 2)), (''policy'', JUndefined)])
     (\<lambda>v. Some (Fin 1)) (\<lambda>k v. None) (\<lambda>k. TextKey []) (\<lambda>r. r) 0 = Inr demo"
proof -
  have "\<not> isl (demo_new JUndefined 2)" by code_simp
  then have "demo_new JUndefined 2 = Inr demo" by (simp add: demo_cache_def)
  then show ?thesis by (simp add: demo_new_def)
qed

lemma demo_plain: "plain_cache demo"
  by code_simp

text \<open>
  C22. The default policy is least recently used: whatever the options, the limits and the commands,
  a run from the constructor ends, and each call answers what a list of entries ordered by use
  would answer; the linked nodes, the map, the free list and the running weight always agree.
\<close>

theorem cache_runs_as_lru:
  assumes "cache_new opts wfn mc sk lg rnd = Inr s" "plain_cache s"
  shows "\<exists>t xs. cache_run cs s = Some (t, snd (lru_run cs (lru_view s []))) \<and> lru_inv t xs
    \<and> lru_view t xs = fst (lru_run cs (lru_view s []))"
  using plain_run [OF assms] by (auto simp: lru_refines_def)

theorem cache_runs_as_lru_witness:
  "map_option snd (cache_run [put 1, put 2, CGet 1 2, put 3, CGet 2 3, CEntries True] demo) =
     Some [ABool True, ABool True, AVal (Some 10), ABool True, AVal None, AList [(Some 3, Some 30), (Some 1, Some 10)]]"
proof -
  have "snd (lru_run [put 1, put 2, CGet 1 2, put 3, CGet 2 3, CEntries True] (lru_view demo [])) =
     [ABool True, ABool True, AVal (Some 10), ABool True, AVal None, AList [(Some 3, Some 30), (Some 1, Some 10)]]"
    by code_simp
  then show ?thesis
    using cache_runs_as_lru [OF demo_lru demo_plain, of "[put 1, put 2, CGet 1 2, put 3, CGet 2 3, CEntries True]"] by auto
qed

text \<open>
  C23. Under the default policy (least recently used, without the admission sketch and without
  \<open>missCost\<close>: \<open>plain_cache\<close>), after any commands that do not throw half-way through a \<open>resize\<close> the cache
  is within its limits: no more entries than \<open>maxEntries\<close>, no more weight than \<open>maxWeight\<close>, and the weight it
  keeps is not negative.
\<close>

theorem cache_within_limits:
  assumes "cache_new opts wfn mc sk lg rnd = Inr s" "plain_cache s" "list_all resize_converts cs"
  shows "\<exists>t as. cache_run cs s = Some (t, as) \<and> \<not> num_lt (ca_maxEntries t) (Fin (of_int (cache_size t)))
    \<and> \<not> num_lt (ca_maxWeight t) (Fin (ca_currentWeight t)) \<and> 0 \<le> ca_currentWeight t"
proof -
  obtain t where t: "cache_run cs s = Some (t, snd (lru_run cs (lru_view s [])))" "lru_refines t (fst (lru_run cs (lru_view s [])))"
    using plain_run [OF assms(1,2)] by blast
  obtain xs where x: "lru_inv t xs" "lru_view t xs = fst (lru_run cs (lru_view s []))" using t(2) by (auto simp: lru_refines_def)
  have "lru_within (lru_view t xs)" unfolding x(2) by (rule run_within [OF new_within [OF assms(1,2)] assms(3)])
  then have "\<not> num_lt (ca_maxEntries t) (Fin (of_nat (length xs)))" "\<not> num_lt (ca_maxWeight t) (Fin (ca_currentWeight t))"
      "0 \<le> ca_currentWeight t"
    using entries_weight [OF x(1)] lru_weight_nonneg [of "entries_of t xs"] by (simp_all add: lru_within_def lru_over_def)
  moreover have "cache_size t = int (length xs)" using lru_inv_parts(7,13) [OF x(1)] by (simp add: cache_size_def)
  ultimately show ?thesis using t(1) by auto
qed

theorem cache_within_limits_witness:
  "\<exists>t as. cache_run [put 1, put 2, put 3] demo = Some (t, as) \<and> \<not> num_lt (ca_maxEntries t) (Fin (of_int (cache_size t)))
    \<and> \<not> num_lt (ca_maxWeight t) (Fin (ca_currentWeight t)) \<and> 0 \<le> ca_currentWeight t"
  by (rule cache_within_limits [OF demo_lru demo_plain]) (simp add: put_def)

lemma keep_last: "\<not> lru_over m w [e] \<Longrightarrow> \<exists>ys. lru_keep m w (es @ [e]) = ys @ [e] \<and> set ys \<subseteq> set es"
  by (induction es) auto

lemma find_last: "\<forall>f\<in>set es. le_key f \<noteq> le_key e \<Longrightarrow> lru_find (le_key e) (es @ [e]) = Some e"
  by (induction es) (auto simp: lru_find_def)

lemma put_find:
  assumes "\<not> lru_over (lru_maxEntries l) (lru_maxWeight l) [\<lparr>le_key = k, le_value = v, le_weight = w, le_expiresAt = e\<rparr>]"
  shows "lru_find k (lru_entries (lru_put k v w e l)) = Some \<lparr>le_key = k, le_value = v, le_weight = w, le_expiresAt = e\<rparr>"
proof -
  obtain ys where ys: "lru_keep (lru_maxEntries l) (lru_maxWeight l) (lru_drop k (lru_entries l) @
      [\<lparr>le_key = k, le_value = v, le_weight = w, le_expiresAt = e\<rparr>]) = ys @ [\<lparr>le_key = k, le_value = v, le_weight = w, le_expiresAt = e\<rparr>]"
      "set ys \<subseteq> set (lru_drop k (lru_entries l))"
    using keep_last [OF assms] by blast
  have "\<forall>f\<in>set ys. le_key f \<noteq> k" using ys(2) by (auto simp: lru_drop_def)
  then show ?thesis
    using find_last [of ys "\<lparr>le_key = k, le_value = v, le_weight = w, le_expiresAt = e\<rparr>"] ys(1) by (simp add: lru_put_def)
qed

text \<open>
  C24. What is written is read: under the default policy (\<open>plain_cache\<close>: least recently used, without the
  admission sketch and without \<open>missCost\<close>), in any state that commands reach, a \<open>set\<close> that is not refused, of
  an entry that fits the limits by itself, makes the next \<open>get\<close> of the key before its expiry
  answer the value.
\<close>

theorem cache_get_after_set:
  assumes "cache_new opts wfn mc sk lg rnd = Inr s0" "plain_cache s0" "cache_run cs s0 = Some (s, as)"
    "cache_set k v ttl weight now s = Some (t, Inr True)"
    "cache_expiresAt (default_to (ca_defaultTTL s) ttl) now = Inr e" "e = 0 \<or> later < e"
    "snd (cache_computeWeight v weight s) = Inr w" "\<not> num_lt (ca_maxWeight s) (Fin w)" "\<not> num_lt (ca_maxEntries s) (Fin 1)"
  shows "\<exists>u. cache_get k later t = Some (u, Some v)"
proof -
  obtain l where r: "lru_refines s l" using plain_run [OF assms(1,2), of cs] assms(3) by auto
  then obtain xs where i: "lru_inv s xs" and l: "l = lru_view s xs" by (auto simp: lru_refines_def)
  have s: "lru_set k v ttl weight now l = (fst (lru_set k v ttl weight now l), Inr True)"
      and rt: "lru_refines t (fst (lru_set k v ttl weight now l))"
    using set_lru [OF r, of k v ttl weight now] assms(4) by (auto simp: prod_eq_iff)
  obtain l1 where w: "lru_weigh v weight l = (l1, Inr w)" and lim: "lru_maxEntries l1 = ca_maxEntries s" "lru_maxWeight l1 = ca_maxWeight s"
    using assms(7) by (auto simp: cache_computeWeight_def lru_weigh_def l split: if_splits option.splits)
  have put: "fst (lru_set k v ttl weight now l) = lru_put k v w e l1"
    using s assms(5) w by (auto simp: lru_set_def l split: if_splits)
  have "\<not> lru_over (lru_maxEntries l1) (lru_maxWeight l1) [\<lparr>le_key = k, le_value = v, le_weight = w, le_expiresAt = e\<rparr>]"
    using assms(8,9) by (simp add: lru_over_def lim)
  from put_find [OF this] have "snd (lru_get k later (lru_put k v w e l1)) = Some v"
    using assms(6) by (auto simp: lru_get_def lru_fetch_def)
  then show ?thesis using get_lru [OF rt, of k later] put by auto
qed

theorem cache_get_after_set_witness:
  "\<exists>t u. cache_set 5 50 (JNum (Fin 10)) JNull 1 (after [put 1, put 2] demo) = Some (t, Inr True)
     \<and> cache_get 5 8 t = Some (u, Some 50)"
proof -
  define s where "s = after [put 1, put 2] demo"
  have "\<not> Option.is_none (cache_run [put 1, put 2] demo)" by code_simp
  then have run: "cache_run [put 1, put 2] demo = Some (s, answers [put 1, put 2] demo)"
    unfolding s_def by (intro run_after) (auto simp: Option.is_none_def)
  have "map_option snd (cache_set 5 50 (JNum (Fin 10)) JNull 1 s) = Some (Inr True)" unfolding s_def by code_simp
  then obtain t where t: "cache_set 5 50 (JNum (Fin 10)) JNull 1 s = Some (t, Inr True)" by auto
  have e: "cache_expiresAt (default_to (ca_defaultTTL s) (JNum (Fin 10))) 1 = Inr 11" unfolding s_def by code_simp
  have w: "snd (cache_computeWeight 50 JNull s) = Inr 1" unfolding s_def by code_simp
  have l: "\<not> num_lt (ca_maxWeight s) (Fin 1)" "\<not> num_lt (ca_maxEntries s) (Fin 1)" unfolding s_def by code_simp+
  have "\<exists>u. cache_get 5 8 t = Some (u, Some 50)"
    by (rule cache_get_after_set [OF demo_lru demo_plain run t e _ w l]) simp
  then show ?thesis using t unfolding s_def by blast
qed

end
