(* ===== verification/CachePolicies.thy ===== *)
theory CachePolicies
  imports CacheRuns
begin

text \<open>
  Concrete runs of the cache: what the other policies, the incremental sweep and the fetches do.
\<close>

section \<open>Policies\<close>

text \<open>
  Under \<open>sieve\<close> the hand does not wrap: it runs from the head to the tail and stays there, so when
  every resident has been read the entry that is evicted to make room is the one just written; the
  write reports success and the next read of its key misses.
\<close>

theorem sieve_evicts_the_newcomer:
  "answers [put 1, put 2, put 3, CGet 1 2, CGet 2 2, CGet 3 2, put 4, CGet 4 3, CEntries False] (demo_cache (JStr ''sieve'') 3) =
     [ABool True, ABool True, ABool True, AVal (Some 10), AVal (Some 20), AVal (Some 30), ABool True, AVal None,
      AList [(Some 1, Some 10), (Some 2, Some 20), (Some 3, Some 30)]]"
  by code_simp

text \<open>
  Under \<open>s3fifo\<close> deleting an entry of the small queue unlinks it from the main list too, whose head
  and tail are then lost: its entries are still counted and still read by key, but no walk yields
  them and no eviction reaches them.
\<close>

theorem s3fifo_delete_loses_main:
  "answers [put 1, CGet 1 2, put 2, CGet 2 2, put 3, CEntries False, CDelete 3, CSize, CEntries False,
      CEvict (JNum (Fin 5)), CSize, CGet 1 3] (demo_cache (JStr ''s3fifo'') 10) =
     [ABool True, AVal (Some 10), ABool True, AVal (Some 20), ABool True,
      AList [(Some 1, Some 10), (Some 2, Some 20), (Some 3, Some 30)], ABool True, ANum 2, AList [],
      ANum 0, ANum 2, AVal (Some 10)]"
  by code_simp

text \<open>\<open>setMany\<close> looks for a key in the main map only: a key of the small queue gets a second node.\<close>

lemma setMany_duplicates:
  "map_option (\<lambda>(t, r). (cache_size t, cache_entries False t))
     (cache_setMany [(1, 11)] (JNum PosInf) JNull 2 (after [put 1] (demo_cache (JStr ''s3fifo'') 20)))
   = Some (2, [(Some 1, Some 10), (Some 1, Some 11)])"
  by code_simp

section \<open>The sweep\<close>

text \<open>
  A full sweep leaves its cursor at the head; when that entry is read it moves to the tail with
  the cursor, and the next full sweep looks at it alone: an expired entry is not removed.  The first
  sweep also reports three entries where it removed none: the number is of entries looked at.
\<close>

theorem sweep_misses_expired:
  defines "s0 \<equiv> after [put 1, CSet 2 20 (JNum (Fin 5)) JNull 1, put 3] (demo_cache JUndefined 10)"
  defines "r1 \<equiv> the (cache_cleanupExpired 2 s0)"
  defines "s1 \<equiv> fst (the (cache_get 1 3 (fst r1)))"
  defines "r2 \<equiv> the (cache_cleanupExpired 100 s1)"
  shows "snd r1 = 3 \<and> cache_size (fst r1) = 3 \<and> snd r2 = 1 \<and> cache_size (fst r2) = 3
    \<and> cache_entries False (fst r2) = [(Some 2, Some 20), (Some 3, Some 30), (Some 1, Some 10)]
    \<and> snd (the (cache_get 2 100 (fst r2))) = None"
  unfolding assms by code_simp

section \<open>Fetches\<close>

text \<open>
  A fetch that succeeds is counted as aborted: the step that releases its slot aborts its
  controller whatever the outcome, although the value was stored.
\<close>

theorem fetch_success_counts_aborted:
  assumes "cache_getOrSetAsync k swr now s = Some (t, Started)" "cache_fetchStores k v ttl weight later t = Some u"
    "jm_get k (ca_inflight u) = jm_get k (ca_inflight t)"
  shows "ca_refreshesAborted (cache_fetchReleases k u) = ca_refreshesAborted u + 1
    \<and> jm_get k (ca_inflight (cache_fetchReleases k u)) = None"
proof -
  have "jm_get k (ca_inflight t) = Some False"
    using assms(1) by (auto simp: cache_getOrSetAsync_def Let_def jm_set_get bind_eq_Some_conv split: option.splits if_splits)
  then show ?thesis using assms(3) by (simp add: cache_fetchReleases_def cache_abortInflight_def Let_def jm_delete_get)
qed

theorem fetch_success_counts_aborted_witness:
  "ca_refreshesAborted (cache_fetchReleases 7 (the (cache_fetchStores 7 70 (JNum PosInf) JNull 2
      (fst (the (cache_getOrSetAsync 7 False 1 demo)))))) = 1"
proof -
  define t where "t = fst (the (cache_getOrSetAsync 7 False 1 demo))"
  define u where "u = the (cache_fetchStores 7 70 (JNum PosInf) JNull 2 t)"
  have "map_option snd (cache_getOrSetAsync 7 False 1 demo) = Some Started" by code_simp
  then have t: "cache_getOrSetAsync 7 False 1 demo = Some (t, Started)" by (auto simp: t_def)
  have "\<not> Option.is_none (cache_fetchStores 7 70 (JNum PosInf) JNull 2 t)" unfolding t_def by code_simp
  then have u: "cache_fetchStores 7 70 (JNum PosInf) JNull 2 t = Some u" by (auto simp: u_def Option.is_none_def)
  have "jm_get 7 (ca_inflight u) = jm_get 7 (ca_inflight t)" unfolding u_def t_def by code_simp
  moreover have "ca_refreshesAborted u = 0" unfolding u_def t_def by code_simp
  ultimately show ?thesis using fetch_success_counts_aborted [OF t u] unfolding u_def t_def by simp
qed

end
