(* ===== verification/Retry.thy ===== *)
theory Retry
  imports JsMap LimiterClock
begin

text \<open>
  Retrying (\<open>src/helpers/powerRetry.js\<close>): the token bucket that rations retries, the validation of a
  call's options, the delays, the retry loop and the race of one attempt's legs.  What the attempted
  function, the hooks and the other users of a shared bucket do is an environment of the loop; the
  random draws are its arguments.
\<close>

section \<open>The budget\<close>

record retry_budget =
  rb_ratio :: rat
  rb_capacity :: rat
  rb_tokens :: rat
  rb_retries :: nat
  rb_refused :: nat
  rb_funded :: nat
  rb_executions :: nat
  rb_outcomes :: "(string, nat) js_map"

text \<open>\<open>options || {}\<close>.\<close>

definition or_empty :: "js_val \<Rightarrow> js_val" where
  "or_empty v = (if js_truthy v then v else JObj [])"

definition DEFAULT_RETRY_BUDGET_RATIO :: rat where "DEFAULT_RETRY_BUDGET_RATIO = 1 / 5"
definition DEFAULT_RETRY_BUDGET_CAPACITY :: rat where "DEFAULT_RETRY_BUDGET_CAPACITY = 10"
definition DEFAULT_RETRY_BASE_DELAY_MS :: rat where "DEFAULT_RETRY_BASE_DELAY_MS = 100"
definition DEFAULT_RETRY_MAX_DELAY_MS :: rat where "DEFAULT_RETRY_MAX_DELAY_MS = 10000"
definition DECORRELATED_JITTER_FACTOR :: rat where "DECORRELATED_JITTER_FACTOR = 3"

definition retry_limit :: "string \<Rightarrow> string \<Rightarrow> rat \<Rightarrow> bool \<Rightarrow> rat \<Rightarrow> js_val \<Rightarrow> rat result" where
  "retry_limit name cls least whole fallback v =
     map_sum id num_rat (assertLimitRequired v
       ((limit_spec name cls)\<lparr>sp_min := least, sp_integer := whole, sp_fallback := JNum (Fin fallback)\<rparr>))"

definition budget_new :: "js_val \<Rightarrow> retry_budget result" where
  "budget_new options0 =
     (let options = default_to (JObj []) options0; o' = or_empty options in
      res_bind (assertKnownOptions options [''ratio'', ''observability'', ''capacity''] ''PowerRetryBudget'') (\<lambda>_.
      res_bind (retry_limit ''ratio'' ''PowerRetryBudget'' 0 False DEFAULT_RETRY_BUDGET_RATIO
                  (default_to (JNum (Fin DEFAULT_RETRY_BUDGET_RATIO)) (get_prop ''ratio'' o'))) (\<lambda>ratio.
      if 1 < ratio then Inl (TypeErr ''PowerRetryBudget'' ''ratio'')
      else
      res_bind (retry_limit ''capacity'' ''PowerRetryBudget'' 1 True DEFAULT_RETRY_BUDGET_CAPACITY
                  (default_to (JNum (Fin DEFAULT_RETRY_BUDGET_CAPACITY)) (get_prop ''capacity'' o'))) (\<lambda>capacity.
        Inr \<lparr>rb_ratio = ratio, rb_capacity = capacity, rb_tokens = capacity, rb_retries = 0, rb_refused = 0,
          rb_funded = 0, rb_executions = 0, rb_outcomes = []\<rparr>))))"

definition budget_recordRequest :: "retry_budget \<Rightarrow> retry_budget" where
  "budget_recordRequest b =
     b\<lparr>rb_funded := rb_funded b + 1, rb_tokens := min (rb_capacity b) (rb_tokens b + rb_ratio b)\<rparr>"

definition budget_tryConsumeRetry :: "retry_budget \<Rightarrow> retry_budget \<times> bool" where
  "budget_tryConsumeRetry b =
     (if rb_tokens b < 1 then (b\<lparr>rb_refused := rb_refused b + 1\<rparr>, False)
      else (b\<lparr>rb_tokens := rb_tokens b - 1, rb_retries := rb_retries b + 1\<rparr>, True))"

text \<open>\<open>defaults[kind] ?? defaults.failure\<close>: the table is an object, so a kind that is the name of a
  method every object inherits is looked up there and is no number.\<close>

definition inherited_names :: "string list" where
  "inherited_names = [''constructor'', ''__defineGetter__'', ''__defineSetter__'', ''hasOwnProperty'', ''__lookupGetter__'',
     ''__lookupSetter__'', ''isPrototypeOf'', ''propertyIsEnumerable'', ''toString'', ''valueOf'', ''__proto__'', ''toLocaleString'']"

definition default_penalty :: "string \<Rightarrow> js_val" where
  "default_penalty kind =
     (case map_of [(''success'', 0), (''cancellation'', 0), (''timeout'', 1 / 2), (''throttled'', 1), (''failure'', 1 / 4)] kind of
        Some p \<Rightarrow> JNum (Fin p)
      | None \<Rightarrow> if kind \<in> set inherited_names then JFun 0 else JNum (Fin (1 / 4)))"

definition budget_recordOutcome :: "js_val \<Rightarrow> js_val \<Rightarrow> retry_budget \<Rightarrow> (retry_budget, rat) step" where
  "budget_recordOutcome kind0 penalty0 b =
     (let kind = (case kind0 of JStr k \<Rightarrow> k | _ \<Rightarrow> ''failure'');
          penalty = (if penalty0 = JUndefined then default_penalty kind else penalty0)
      in case penalty of
           JNum (Fin p) \<Rightarrow>
             if p < 0 then (b, Inl (TypeErr ''PowerRetryBudget'' ''penalty''))
             else
               (let b1 = b\<lparr>rb_tokens := max 0 (rb_tokens b - p),
                      rb_outcomes := jm_set kind (case jm_get kind (rb_outcomes b) of Some n \<Rightarrow> n + 1 | None \<Rightarrow> 1) (rb_outcomes b)\<rparr>
                in (b1, Inr (rb_tokens b1)))
         | _ \<Rightarrow> (b, Inl (TypeErr ''PowerRetryBudget'' ''penalty'')))"

definition budget_available :: "retry_budget \<Rightarrow> rat" where "budget_available b = rb_tokens b"


record budget_stats =
  bs_available :: rat
  bs_requests :: nat
  bs_retries :: nat
  bs_refused :: nat
  bs_executions :: nat
  bs_retryRate :: rat
  bs_refusalRate :: rat

definition budget_stats_of :: "retry_budget \<Rightarrow> budget_stats" where
  "budget_stats_of b = \<lparr>bs_available = rb_tokens b, bs_requests = rb_funded b, bs_retries = rb_retries b,
     bs_refused = rb_refused b, bs_executions = rb_executions b,
     bs_retryRate = (if 0 < rb_executions b then of_nat (rb_retries b) / of_nat (rb_executions b) else 0),
     bs_refusalRate = (if 0 < rb_funded b then of_nat (rb_refused b) / of_nat (rb_funded b) else 0)\<rparr>"

section \<open>Options of a run\<close>

datatype backoff = Exponential | Linear | Fixed | Decorrelated

definition validateBackoff :: "js_val \<Rightarrow> backoff result" where
  "validateBackoff v =
     (case v of
        JStr s \<Rightarrow>
          if s = ''exponential'' then Inr Exponential else if s = ''linear'' then Inr Linear
          else if s = ''fixed'' then Inr Fixed else if s = ''decorrelated'' then Inr Decorrelated
          else Inl (TypeErr ''PowerRetry'' ''backoff'')
      | _ \<Rightarrow> Inl (TypeErr ''PowerRetry'' ''backoff''))"

text \<open>The \<open>budget\<close> option: a bucket, or a value to build one from.\<close>

datatype budget_arg = Bucket retry_budget | Plain js_val

definition resolveBudget :: "budget_arg \<Rightarrow> retry_budget option result" where
  "resolveBudget arg =
     (case arg of
        Bucket b \<Rightarrow> Inr (Some b)
      | Plain v \<Rightarrow>
          (case v of
             JUndefined \<Rightarrow> Inr None
           | JNull \<Rightarrow> Inr None
           | JNum n \<Rightarrow> map_sum id Some (budget_new (JObj [(''ratio'', v)]))
           | JObj ps \<Rightarrow> map_sum id Some (budget_new v)
           | _ \<Rightarrow> Inl (TypeErr ''PowerRetry'' ''budget'')))"

record retry_cfg =
  rc_attempts :: nat
  rc_strategy :: backoff
  rc_base :: rat
  rc_cap :: rat
  rc_timeoutMs :: rat
  rc_hedgeMs :: rat
  rc_jitter :: bool

definition resolveRunOptions :: "js_val \<Rightarrow> retry_cfg result" where
  "resolveRunOptions options0 =
     (let o' = or_empty options0; opt = (\<lambda>name d. default_to d (get_prop name o')) in
      res_bind (map_sum id num_rat (assertLimitRequired (opt ''maxAttempts'' (JNum (Fin 3)))
          ((limit_spec ''maxAttempts'' ''PowerRetry'')\<lparr>sp_min := 1, sp_integer := True, sp_fallback := JNum (Fin 3),
             sp_invalidMessage := Some ''maxAttempts must be a positive finite number'',
             sp_minMessage := Some ''maxAttempts must be a positive finite number''\<rparr>))) (\<lambda>attempts.
      res_bind (validateBackoff (opt ''backoff'' (JStr ''exponential''))) (\<lambda>strategy.
      res_bind (retry_limit ''baseDelay'' ''PowerRetry'' 0 False DEFAULT_RETRY_BASE_DELAY_MS
                  (opt ''baseDelay'' (JNum (Fin DEFAULT_RETRY_BASE_DELAY_MS)))) (\<lambda>base.
      res_bind (retry_limit ''maxDelay'' ''PowerRetry'' 0 False DEFAULT_RETRY_MAX_DELAY_MS
                  (opt ''maxDelay'' (JNum (Fin DEFAULT_RETRY_MAX_DELAY_MS)))) (\<lambda>cap.
      res_bind (if is_nullish (get_prop ''attemptTimeout'' o') then Inr 0
                else retry_limit ''attemptTimeout'' ''PowerRetry'' 1 False 0 (get_prop ''attemptTimeout'' o')) (\<lambda>timeoutMs.
      res_bind (if is_nullish (opt ''hedgeDelay'' (JNum (Fin 0))) then Inr 0
                else retry_limit ''hedgeDelay'' ''PowerRetry'' 0 False 0 (opt ''hedgeDelay'' (JNum (Fin 0)))) (\<lambda>hedgeMs.
      (let jitter = js_truthy (opt ''jitter'' (JBool True)) in
       if strategy = Decorrelated \<and> \<not> jitter then Inl (TypeErr ''PowerRetry'' ''jitter'')
       else Inr \<lparr>rc_attempts = nat \<lfloor>attempts\<rfloor>, rc_strategy = strategy, rc_base = base, rc_cap = cap,
         rc_timeoutMs = timeoutMs, rc_hedgeMs = hedgeMs, rc_jitter = jitter\<rparr>))))))))"

section \<open>Delays\<close>

text \<open>\<open>calcDelay\<close>: the cursor of the decorrelated walk and the delay, for a draw of \<open>Math.random\<close>.\<close>

definition calcDelay :: "retry_cfg \<Rightarrow> nat \<Rightarrow> rat \<Rightarrow> rat \<Rightarrow> rat \<times> rat" where
  "calcDelay c attempt random decorrelated =
     (if rc_strategy c = Decorrelated then
        (let upper = max (rc_base c) (decorrelated * DECORRELATED_JITTER_FACTOR);
             next = min (rc_cap c) (rc_base c + random * (upper - rc_base c))
         in (next, of_int (js_round next)))
      else
        (let d0 = (case rc_strategy c of Linear \<Rightarrow> rc_base c * of_nat attempt | Fixed \<Rightarrow> rc_base c
                   | _ \<Rightarrow> rc_base c * 2 ^ (attempt - 1));
             d1 = (if rc_cap c < d0 then rc_cap c else d0)
         in (decorrelated, if rc_jitter c then of_int (js_round (d1 * (1 / 2 + random * (1 / 2)))) else d1)))"

section \<open>The retry loop\<close>

text \<open>
  The environment of a run, by attempt: its outcome, whether the circuit let it through, the hooks
  (\<open>None\<close> where one throws), the random draw, the abort signal before it and during the wait after
  it, and what the other users of the bucket do while the loop waits for it, for \<open>retryIf\<close> and for
  the delay.
\<close>

record ('v, 'e) retry_env =
  re_outcome :: "nat \<Rightarrow> 'e + 'v"
  re_called :: "nat \<Rightarrow> bool"
  re_circuitOpen :: "'e \<Rightarrow> bool"
  re_classify :: "('e \<Rightarrow> nat \<Rightarrow> (js_val \<times> js_val) option) option"
  re_retryIf :: "'e \<Rightarrow> bool option"
  re_retryAfter :: "('e \<Rightarrow> nat \<Rightarrow> js_num option) option"
  re_hedgeIf :: "bool option"
  re_random :: "nat \<Rightarrow> rat"
  re_aborted :: "nat \<Rightarrow> bool"
  re_sleepAborted :: "nat \<Rightarrow> bool"
  re_others :: "nat \<Rightarrow> nat \<Rightarrow> retry_budget \<Rightarrow> retry_budget"

datatype ('v, 'e) retry_end = Returned 'v | Threw "'e option" | AbortThrown

definition spend :: "retry_budget option \<Rightarrow> retry_budget option \<times> bool" where
  "spend b = (case b of None \<Rightarrow> (None, True) | Some x \<Rightarrow> (let (y, ok) = budget_tryConsumeRetry x in (Some y, ok)))"

text \<open>The token an attempt's hedge takes when it is armed.\<close>

definition arm_hedge :: "retry_cfg \<Rightarrow> ('v, 'e) retry_env \<Rightarrow> nat \<Rightarrow> retry_budget option \<Rightarrow> retry_budget option \<times> bool" where
  "arm_hedge c env attempt b =
     (if re_called env attempt \<and> 0 < rc_hedgeMs c \<and> attempt = 1 \<and> re_hedgeIf env = Some True then spend b else (b, False))"

definition classified :: "('v, 'e) retry_env \<Rightarrow> 'e \<Rightarrow> nat \<Rightarrow> retry_budget option \<Rightarrow> retry_budget option" where
  "classified env err attempt b =
     (case (b, re_classify env) of
        (Some x, Some f) \<Rightarrow> (case f err attempt of Some (kind, penalty) \<Rightarrow> Some (fst (budget_recordOutcome kind penalty x)) | None \<Rightarrow> b)
      | _ \<Rightarrow> b)"

definition suggested :: "retry_cfg \<Rightarrow> ('v, 'e) retry_env \<Rightarrow> 'e \<Rightarrow> nat \<Rightarrow> rat \<Rightarrow> rat" where
  "suggested c env err attempt delay =
     (case re_retryAfter env of
        None \<Rightarrow> delay
      | Some f \<Rightarrow> (case f err attempt of Some (Fin d) \<Rightarrow> if 0 \<le> d then min (rc_cap c) d else delay | _ \<Rightarrow> delay))"

fun retry_loop ::
  "retry_cfg \<Rightarrow> ('v, 'e) retry_env \<Rightarrow> nat \<Rightarrow> nat \<Rightarrow> retry_budget option \<Rightarrow> rat \<Rightarrow> 'e option \<Rightarrow>
     retry_budget option \<times> (nat \<times> 'e \<times> rat) list \<times> ('v, 'e) retry_end" where
  "retry_loop c env 0 attempt b dec lastErr = (b, [], Threw lastErr)"
| "retry_loop c env (Suc left) attempt b dec lastErr =
     (if re_aborted env attempt then (b, [], AbortThrown)
      else
        (let b1 = map_option (re_others env attempt 0) (fst (arm_hedge c env attempt b)) in
         case re_outcome env attempt of
           Inr v \<Rightarrow> (b1, [], Returned v)
         | Inl err \<Rightarrow>
             if re_circuitOpen env err then (b1, [], Threw (Some err))
             else
               (let b2 = map_option (re_others env attempt 1) (classified env err attempt b1) in
                if re_retryIf env err \<noteq> Some True \<or> left = 0 then (b2, [], Threw (Some err))
                else
                  (let (b3, ok) = spend b2 in
                   if \<not> ok then (b3, [], Threw (Some err))
                   else
                     (let (dec1, d) = calcDelay c attempt (re_random env attempt) dec;
                          delay = suggested c env err attempt d
                      in if re_sleepAborted env attempt then (b3, [(attempt, err, delay)], AbortThrown)
                         else
                           (let (b4, log, fin) = retry_loop c env left (attempt + 1) (map_option (re_others env attempt 2) b3) dec1 (Some err)
                            in (b4, (attempt, err, delay) # log, fin)))))))"

definition retry_run ::
  "js_val \<Rightarrow> budget_arg \<Rightarrow> ('v, 'e) retry_env \<Rightarrow> (retry_budget option \<times> (nat \<times> 'e \<times> rat) list \<times> ('v, 'e) retry_end) result" where
  "retry_run options budget env =
     res_bind (resolveRunOptions options) (\<lambda>c.
     res_bind (resolveBudget budget) (\<lambda>b.
       Inr (retry_loop c env (rc_attempts c) 1 (map_option budget_recordRequest b) (rc_base c) None)))"

definition budget_execute ::
  "js_val \<Rightarrow> ('v, 'e) retry_env \<Rightarrow> retry_budget \<Rightarrow> (retry_budget option \<times> (nat \<times> 'e \<times> rat) list \<times> ('v, 'e) retry_end) result" where
  "budget_execute options env b = retry_run options (Bucket (b\<lparr>rb_executions := rb_executions b + 1\<rparr>)) env"

section \<open>The race of an attempt\<close>

text \<open>
  The legs of one attempt: the first call, the hedge if it is armed, the timeout if there is one.
  A request leg's controller is \<open>None\<close> when the call got no signal.  When the race settles its timers
  are cleared and, if it timed out or the hedge was launched, the losing calls are aborted.
\<close>

record ('v, 'e) retry_race =
  ra_hedgeTimer :: bool
  ra_timer :: bool
  ra_hedgeLaunched :: bool
  ra_timedOut :: bool
  ra_winner :: "nat option"
  ra_result :: "('e + 'v) option"
  ra_controllers :: "bool option list"

datatype ('v, 'e) race_event = LegSettles nat "'e + 'v" | HedgeFires | TimeoutFires 'e

definition race_start :: "bool \<Rightarrow> bool \<Rightarrow> bool \<Rightarrow> ('v, 'e) retry_race" where
  "race_start timed hedging armed =
     \<lparr>ra_hedgeTimer = armed, ra_timer = timed, ra_hedgeLaunched = False, ra_timedOut = False, ra_winner = None,
      ra_result = None, ra_controllers = [if timed \<or> hedging then Some False else None]\<rparr>"

definition cancel_losers :: "('v, 'e) retry_race \<Rightarrow> ('v, 'e) retry_race" where
  "cancel_losers r =
     (if \<not> (ra_timedOut r \<or> ra_hedgeLaunched r) then r
      else r\<lparr>ra_controllers := map (\<lambda>i. if \<not> ra_timedOut r \<and> ra_winner r = Some i then ra_controllers r ! i
                 else map_option (\<lambda>_. True) (ra_controllers r ! i)) [0..<length (ra_controllers r)]\<rparr>)"

definition race_settles :: "nat \<Rightarrow> 'e + 'v \<Rightarrow> ('v, 'e) retry_race \<Rightarrow> ('v, 'e) retry_race" where
  "race_settles i out r =
     (if ra_winner r \<noteq> None then r
      else cancel_losers (r\<lparr>ra_winner := Some i, ra_result := Some out, ra_timer := False, ra_hedgeTimer := False\<rparr>))"

definition race_step :: "('v, 'e) race_event \<Rightarrow> ('v, 'e) retry_race \<Rightarrow> ('v, 'e) retry_race" where
  "race_step ev r =
     (case ev of
        LegSettles i out \<Rightarrow> if i < length (ra_controllers r) then race_settles i out r else r
      | HedgeFires \<Rightarrow>
          if ra_hedgeTimer r
          then r\<lparr>ra_hedgeTimer := False, ra_hedgeLaunched := True, ra_controllers := ra_controllers r @ [Some False]\<rparr> else r
      | TimeoutFires err \<Rightarrow>
          if ra_timer r
          then race_settles (if ra_hedgeTimer r \<or> ra_hedgeLaunched r then 2 else 1) (Inl err) (r\<lparr>ra_timedOut := True\<rparr>) else r)"

section \<open>The budget bounds the retries\<close>













section \<open>What a run returns\<close>










lemma retry_loop_success:
  assumes "re_outcome env (a + j) = Inr v" "\<forall>i<j. \<exists>e. re_outcome env (a + i) = Inl e" "j < n"
    and "\<forall>e. \<not> re_circuitOpen env e \<and> re_retryIf env e = Some True" "\<forall>i. \<not> re_aborted env i \<and> \<not> re_sleepAborted env i"
  shows "\<exists>waits. retry_loop c env n a None dec le = (None, waits, Returned v) \<and> length waits = j"
  using assms(1-3)
proof (induction n arbitrary: a j dec le)
  case (Suc n)
  have h: "fst (arm_hedge c env a None) = None" by (simp add: arm_hedge_def spend_def)
  have k: "classified env e a None = None" for e by (simp add: classified_def)
  show ?case
  proof (cases j)
    case 0
    then show ?thesis using Suc.prems assms(5) h by simp
  next
    case (Suc i)
    obtain err where err: "re_outcome env a = Inl err" using Suc.prems(2) Suc by (metis add.right_neutral zero_less_Suc)
    obtain dec1 d where cd: "calcDelay c a (re_random env a) dec = (dec1, d)" by fastforce
    have "re_outcome env ((a + 1) + i) = Inr v" "\<forall>m<i. \<exists>e. re_outcome env ((a + 1) + m) = Inl e" "i < n"
      using Suc.prems Suc by (auto simp: less_Suc_eq_0_disj)
    then obtain waits where w: "retry_loop c env n (a + 1) None dec1 (Some err) = (None, waits, Returned v)" "length waits = i"
      using Suc.IH [of "a + 1" i] by blast
    have "n \<noteq> 0" using \<open>i < n\<close> by simp
    then show ?thesis using err cd w assms(4,5) h k Suc by (simp add: Let_def spend_def)
  qed
qed simp

text \<open>
  Retrying reaches the first success: without a budget, an abort or a hook that declines, a run
  returns the value of the first attempt that succeeds within \<open>maxAttempts\<close>, after one wait for
  each attempt before it.
\<close>

theorem retry_returns_first_success:
  assumes "resolveRunOptions opts = Inr c" "1 \<le> k" "k \<le> rc_attempts c"
    "re_outcome env k = Inr v" "\<forall>i. 1 \<le> i \<and> i < k \<longrightarrow> (\<exists>e. re_outcome env i = Inl e)"
    "\<forall>e. \<not> re_circuitOpen env e \<and> re_retryIf env e = Some True" "\<forall>i. \<not> re_aborted env i \<and> \<not> re_sleepAborted env i"
  shows "\<exists>waits. retry_run opts (Plain JUndefined) env = Inr (None, waits, Returned v) \<and> length waits = k - 1"
proof -
  have "re_outcome env (1 + (k - 1)) = Inr v" "\<forall>i<k - 1. \<exists>e. re_outcome env (1 + i) = Inl e" "k - 1 < rc_attempts c"
    using assms(2-5) by auto
  from retry_loop_success [OF this assms(6,7), of c "rc_base c" None]
  show ?thesis using assms(1) by (auto simp: retry_run_def resolveBudget_def res_bind_def)
qed

text \<open>An environment whose first two attempts fail.\<close>

definition flaky :: "(nat, nat) retry_env" where
  "flaky = \<lparr>re_outcome = (\<lambda>i. if i < 3 then Inl i else Inr 7), re_called = (\<lambda>_. True), re_circuitOpen = (\<lambda>_. False),
     re_classify = None, re_retryIf = (\<lambda>_. Some True), re_retryAfter = None, re_hedgeIf = Some True,
     re_random = (\<lambda>_. 1 / 2), re_aborted = (\<lambda>_. False), re_sleepAborted = (\<lambda>_. False), re_others = (\<lambda>_ _ b. b)\<rparr>"

lemma default_cfg: "resolveRunOptions JUndefined = Inr \<lparr>rc_attempts = 3, rc_strategy = Exponential, rc_base = 100,
    rc_cap = 10000, rc_timeoutMs = 0, rc_hedgeMs = 0, rc_jitter = True\<rparr>"
  by code_simp



theorem retry_returns_first_success_witness:
  "\<exists>waits. retry_run JUndefined (Plain JUndefined) flaky = Inr (None, waits, Returned 7) \<and> length waits = 2"
  using retry_returns_first_success [OF default_cfg, of 3 flaky 7] by (auto simp: flaky_def)

text \<open>
  A hedge takes a token when it is armed, whether or not it is launched.
\<close>

lemma hedge_takes_token:
  assumes "re_called env 1" "0 < rc_hedgeMs c" "re_hedgeIf env = Some True" "1 \<le> rb_tokens b"
  shows "arm_hedge c env 1 (Some b) = (Some (b\<lparr>rb_tokens := rb_tokens b - 1, rb_retries := rb_retries b + 1\<rparr>), True)"
  using assms by (simp add: arm_hedge_def spend_def budget_tryConsumeRetry_def)

section \<open>The race settles once and stops the losers\<close>

definition race_run :: "('v, 'e) race_event list \<Rightarrow> ('v, 'e) retry_race \<Rightarrow> ('v, 'e) retry_race" where
  "race_run evs r = foldl (\<lambda>x ev. race_step ev x) r evs"

definition race_ok :: "('v, 'e) retry_race \<Rightarrow> bool" where
  "race_ok r \<longleftrightarrow>
     (ra_hedgeLaunched r \<longrightarrow> \<not> ra_hedgeTimer r) \<and> length (ra_controllers r) = (if ra_hedgeLaunched r then 2 else 1)
     \<and> (ra_winner r = None \<longleftrightarrow> ra_result r = None)
     \<and> (ra_winner r = None \<longrightarrow> \<not> ra_timedOut r \<and> (\<forall>x\<in>set (ra_controllers r). x \<noteq> Some True))
     \<and> (ra_winner r \<noteq> None \<longrightarrow> \<not> ra_timer r \<and> \<not> ra_hedgeTimer r
          \<and> (ra_timedOut r \<longrightarrow> (\<forall>x\<in>set (ra_controllers r). x \<noteq> Some False))
          \<and> (\<not> ra_timedOut r \<longrightarrow> (\<exists>i<length (ra_controllers r). ra_winner r = Some i \<and> ra_controllers r ! i \<noteq> Some True
               \<and> (\<forall>j<length (ra_controllers r). j \<noteq> i \<longrightarrow> ra_controllers r ! j \<noteq> Some False))))"

lemma race_ok_settledI:
  assumes "ra_winner r = Some i" "ra_result r \<noteq> None" "\<not> ra_timer r" "\<not> ra_hedgeTimer r"
    "length (ra_controllers r) = (if ra_hedgeLaunched r then 2 else 1)"
    "ra_timedOut r \<Longrightarrow> \<forall>x\<in>set (ra_controllers r). x \<noteq> Some False"
    "\<not> ra_timedOut r \<Longrightarrow> i < length (ra_controllers r) \<and> ra_controllers r ! i \<noteq> Some True"
    "\<And>j. \<not> ra_timedOut r \<Longrightarrow> j < length (ra_controllers r) \<Longrightarrow> j \<noteq> i \<Longrightarrow> ra_controllers r ! j \<noteq> Some False"
  shows "race_ok r"
proof -
  have w: "ra_winner r \<noteq> None" using assms(1) by simp
  show ?thesis unfolding race_ok_def
  proof (intro conjI impI)
    assume t: "\<not> ra_timedOut r"
    show "\<exists>i<length (ra_controllers r). ra_winner r = Some i \<and> ra_controllers r ! i \<noteq> Some True
       \<and> (\<forall>j<length (ra_controllers r). j \<noteq> i \<longrightarrow> ra_controllers r ! j \<noteq> Some False)"
      using assms(1) assms(7) [OF t] assms(8) [OF t] by blast
  qed (use w assms(2-6) in \<open>simp_all only: simp_thms\<close>)
qed

lemma race_settles_ok:
  assumes "ra_winner r = None" "length (ra_controllers r) = (if ra_hedgeLaunched r then 2 else 1)"
    "\<forall>x\<in>set (ra_controllers r). x \<noteq> Some True" "\<not> ra_timedOut r \<longrightarrow> i < length (ra_controllers r)"
  shows "race_ok (race_settles i out r)"
proof (cases "ra_timedOut r \<or> ra_hedgeLaunched r")
  case True
  define cs where "cs = map (\<lambda>j. if \<not> ra_timedOut r \<and> i = j then ra_controllers r ! j
                 else map_option (\<lambda>_. True) (ra_controllers r ! j)) [0..<length (ra_controllers r)]"
  have s: "race_settles i out r = r\<lparr>ra_winner := Some i, ra_result := Some out, ra_timer := False, ra_hedgeTimer := False, ra_controllers := cs\<rparr>"
    using assms(1) True by (auto simp: race_settles_def cancel_losers_def cs_def)
  have len: "length cs = length (ra_controllers r)" by (simp add: cs_def)
  have nth: "j < length cs \<Longrightarrow> cs ! j = (if \<not> ra_timedOut r \<and> i = j then ra_controllers r ! j else map_option (\<lambda>_. True) (ra_controllers r ! j))" for j
    by (simp add: cs_def)
  have all: "\<forall>x\<in>set cs. x \<noteq> Some False" if "ra_timedOut r"
    using that nth by (auto simp: in_set_conv_nth)
  have won: "i < length cs \<and> cs ! i \<noteq> Some True \<and> (\<forall>j<length cs. j \<noteq> i \<longrightarrow> cs ! j \<noteq> Some False)" if "\<not> ra_timedOut r"
  proof -
    have i: "i < length cs" using assms(4) that len by simp
    have "cs ! i = ra_controllers r ! i" using nth [OF i] that by simp
    then have "cs ! i \<noteq> Some True" using assms(3) i len by (metis nth_mem)
    moreover have "cs ! j \<noteq> Some False" if "j < length cs" "j \<noteq> i" for j
      using nth [OF that(1)] that(2) by (cases "ra_controllers r ! j") auto
    ultimately show ?thesis using i by blast
  qed
  show ?thesis
    unfolding s
  proof (rule race_ok_settledI [of _ i], goal_cases)
    case 5 show ?case using len assms(2) by simp
  next
    case 6 then show ?case using all by simp
  next
    case 7 then show ?case using won by simp
  next
    case (8 j) then show ?case using won by simp
  qed simp_all
next
  case False
  have s: "race_settles i out r = r\<lparr>ra_winner := Some i, ra_result := Some out, ra_timer := False, ra_hedgeTimer := False\<rparr>"
    using assms(1) False by (simp add: race_settles_def cancel_losers_def)
  have one: "length (ra_controllers r) = 1" using assms(2) False by simp
  have i: "i = 0" using False assms(4) one by simp
  have j: "j = i" if "j < length (ra_controllers r)" for j using that one i by simp
  have "ra_controllers r ! i \<in> set (ra_controllers r)" using one i by simp
  then have c: "ra_controllers r ! i \<noteq> Some True" using assms(3) by blast
  show ?thesis
    unfolding s
  proof (rule race_ok_settledI [of _ i], goal_cases)
    case 5 show ?case using assms(2) by simp
  next
    case 6 then show ?case using False by simp
  next
    case 7 show ?case using one i c by simp
  next
    case (8 j) then show ?case using j by simp
  qed simp_all
qed

lemma race_okD:
  assumes "race_ok r"
  shows "length (ra_controllers r) = (if ra_hedgeLaunched r then 2 else 1)" "ra_hedgeLaunched r \<Longrightarrow> \<not> ra_hedgeTimer r"
    "ra_winner r = None \<Longrightarrow> \<not> ra_timedOut r" "ra_winner r = None \<Longrightarrow> \<forall>x\<in>set (ra_controllers r). x \<noteq> Some True"
    "ra_winner r \<noteq> None \<Longrightarrow> \<not> ra_timer r" "ra_winner r \<noteq> None \<Longrightarrow> \<not> ra_hedgeTimer r"
    "ra_winner r = None \<longleftrightarrow> ra_result r = None"
proof -
  note p = assms [unfolded race_ok_def]
  note t = p [THEN conjunct2, THEN conjunct2, THEN conjunct2]
  show "length (ra_controllers r) = (if ra_hedgeLaunched r then 2 else 1)" by (rule p [THEN conjunct2, THEN conjunct1])
  show "ra_hedgeLaunched r \<Longrightarrow> \<not> ra_hedgeTimer r" by (rule p [THEN conjunct1, rule_format])
  show "ra_winner r = None \<longleftrightarrow> ra_result r = None" by (rule p [THEN conjunct2, THEN conjunct2, THEN conjunct1])
  show "ra_winner r = None \<Longrightarrow> \<not> ra_timedOut r" by (rule t [THEN conjunct1, THEN mp, THEN conjunct1])
  show "ra_winner r = None \<Longrightarrow> \<forall>x\<in>set (ra_controllers r). x \<noteq> Some True" by (rule t [THEN conjunct1, THEN mp, THEN conjunct2])
  show "ra_winner r \<noteq> None \<Longrightarrow> \<not> ra_timer r" by (rule t [THEN conjunct2, THEN mp, THEN conjunct1])
  show "ra_winner r \<noteq> None \<Longrightarrow> \<not> ra_hedgeTimer r" by (rule t [THEN conjunct2, THEN mp, THEN conjunct2, THEN conjunct1])
qed

lemma race_step_ok:
  assumes "race_ok r"
  shows "race_ok (race_step ev r)"
proof (cases ev)
  case (LegSettles i out)
  show ?thesis
  proof (cases "i < length (ra_controllers r) \<and> ra_winner r = None")
    case True
    have "race_ok (race_settles i out r)"
      by (rule race_settles_ok) (use True race_okD [OF assms] in blast)+
    then show ?thesis using True by (simp add: LegSettles race_step_def)
  next
    case False
    then have "race_step ev r = r" by (auto simp: LegSettles race_step_def race_settles_def)
    then show ?thesis using assms by simp
  qed
next
  case HedgeFires
  show ?thesis
  proof (cases "ra_hedgeTimer r")
    case True
    note d = race_okD [OF assms]
    have w: "ra_winner r = None" "\<not> ra_hedgeLaunched r" using d(2,6) True by blast+
    then show ?thesis using True d(1,3,4,7) by (simp add: HedgeFires race_step_def race_ok_def)
  qed (use assms in \<open>simp add: HedgeFires race_step_def\<close>)
next
  case (TimeoutFires err)
  show ?thesis
  proof (cases "ra_timer r")
    case True
    have w: "ra_winner r = None" using True race_okD(5) [OF assms] by blast
    have "race_ok (race_settles (if ra_hedgeTimer r \<or> ra_hedgeLaunched r then 2 else 1) (Inl err) (r\<lparr>ra_timedOut := True\<rparr>))"
      by (rule race_settles_ok) (use w race_okD(1,4) [OF assms] in simp_all)
    then show ?thesis using True by (simp add: TimeoutFires race_step_def)
  qed (use assms in \<open>simp add: TimeoutFires race_step_def\<close>)
qed

lemma race_start_ok: "race_ok (race_start timed hedging armed)"
  by (simp add: race_start_def race_ok_def)

lemma race_run_ok: "race_ok r \<Longrightarrow> race_ok (race_run evs r)"
  by (induction evs arbitrary: r) (simp_all add: race_run_def race_step_ok)

text \<open>
  Which settlement comes first, read off the events alone: \<open>calls\<close> calls are under way, the hedge is
  armed or not, and so is the timeout.  A call that has not been made cannot settle; a rejection
  counts as much as a value, and the timeout is a rejection.
\<close>

fun first_settled :: "bool \<Rightarrow> bool \<Rightarrow> nat \<Rightarrow> ('v, 'e) race_event list \<Rightarrow> (nat option \<times> ('e + 'v)) option" where
  "first_settled armed timed calls [] = None"
| "first_settled armed timed calls (LegSettles i out # evs) =
     (if i < calls then Some (Some i, out) else first_settled armed timed calls evs)"
| "first_settled armed timed calls (HedgeFires # evs) = first_settled False timed (if armed then calls + 1 else calls) evs"
| "first_settled armed timed calls (TimeoutFires err # evs) =
     (if timed then Some (None, Inl err) else first_settled armed timed calls evs)"

lemma race_step_done: "race_ok r \<Longrightarrow> ra_winner r \<noteq> None \<Longrightarrow> race_step ev r = r"
  using race_okD(5,6) [of r] by (cases ev) (simp_all add: race_step_def race_settles_def)

lemma race_run_done: "race_ok r \<Longrightarrow> ra_winner r \<noteq> None \<Longrightarrow> race_run evs r = r"
  by (induction evs) (simp_all add: race_run_def race_step_done)

lemma race_settles_result:
  "ra_winner r = None \<Longrightarrow> ra_result (race_settles i out r) = Some out \<and> ra_winner (race_settles i out r) = Some i
     \<and> ra_timedOut (race_settles i out r) = ra_timedOut r"
  by (simp add: race_settles_def cancel_losers_def)

lemma race_run_first:
  assumes "race_ok r" "ra_winner r = None"
  shows "ra_result (race_run evs r) = map_option snd (first_settled (ra_hedgeTimer r) (ra_timer r) (length (ra_controllers r)) evs)
    \<and> (\<forall>i out. first_settled (ra_hedgeTimer r) (ra_timer r) (length (ra_controllers r)) evs = Some (Some i, out) \<longrightarrow>
         ra_winner (race_run evs r) = Some i)
    \<and> (ra_timedOut (race_run evs r) \<longleftrightarrow>
         (\<exists>out. first_settled (ra_hedgeTimer r) (ra_timer r) (length (ra_controllers r)) evs = Some (None, out)))"
  using assms
proof (induction evs arbitrary: r)
  case Nil
  then show ?case using race_okD(3,7) [of r] by (simp add: race_run_def)
next
  case (Cons ev evs)
  let ?r = "race_step ev r"
  have run: "race_run (ev # evs) r = race_run evs ?r" by (simp add: race_run_def)
  have ok: "race_ok ?r" by (rule race_step_ok [OF Cons.prems(1)])
  have nt: "\<not> ra_timedOut r" using race_okD(3) [OF Cons.prems(1)] Cons.prems(2) by blast
  have stops: "race_run evs ?r = ?r" if "ra_winner ?r \<noteq> None" using race_run_done [OF ok that] .
  show ?case
  proof (cases ev)
    case (LegSettles i out)
    show ?thesis
    proof (cases "i < length (ra_controllers r)")
      case True
      then have "?r = race_settles i out r" using LegSettles by (simp add: race_step_def)
      then show ?thesis using race_settles_result [OF Cons.prems(2), of i out] stops LegSettles True nt run by simp
    next
      case False
      then have "?r = r" using LegSettles by (simp add: race_step_def)
      then show ?thesis using Cons.IH [OF Cons.prems] LegSettles False run by simp
    qed
  next
    case HedgeFires
    have w: "ra_winner ?r = None" "ra_timer ?r = ra_timer r" "\<not> ra_hedgeTimer ?r"
      "length (ra_controllers ?r) = (if ra_hedgeTimer r then length (ra_controllers r) + 1 else length (ra_controllers r))"
      using HedgeFires Cons.prems(2) by (simp_all add: race_step_def)
    show ?thesis using Cons.IH [OF ok w(1)] w HedgeFires run by simp
  next
    case (TimeoutFires err)
    show ?thesis
    proof (cases "ra_timer r")
      case True
      define k :: nat where "k = (if ra_hedgeTimer r \<or> ra_hedgeLaunched r then 2 else 1)"
      have "?r = race_settles k (Inl err) (r\<lparr>ra_timedOut := True\<rparr>)"
        using TimeoutFires True by (simp add: race_step_def k_def)
      then show ?thesis
        using race_settles_result [of "r\<lparr>ra_timedOut := True\<rparr>" k "Inl err"] Cons.prems(2) stops TimeoutFires True run by simp
    next
      case False
      then have "?r = r" using TimeoutFires by (simp add: race_step_def)
      then show ?thesis using Cons.IH [OF Cons.prems] TimeoutFires False run by simp
    qed
  qed
qed

text \<open>
  C26. An attempt settles with its first leg to settle, be it a value or a rejection: the result is
  that of the first event in which a call that was made settles or the armed timeout fires,
  and there is none before such an event.  From then on nothing changes: no timer is armed, no
  hedge is launched, no signal is aborted later.  If it was the timeout, every call made that has a signal is
  aborted; if it was a call, that call's signal is not aborted and every other call's is.
\<close>

theorem retry_race_cancels_losers:
  assumes "r = race_run evs (race_start timed hedging armed)"
  shows "case first_settled armed timed 1 evs of
     None \<Rightarrow> ra_result r = None
   | Some (leg, out) \<Rightarrow> ra_result r = Some out \<and> race_run later r = r \<and> \<not> ra_timer r \<and> \<not> ra_hedgeTimer r
       \<and> (case leg of
            None \<Rightarrow> \<forall>x \<in> set (ra_controllers r). x \<noteq> Some False
          | Some i \<Rightarrow> i < length (ra_controllers r) \<and> ra_controllers r ! i \<noteq> Some True
              \<and> (\<forall>j < length (ra_controllers r). j \<noteq> i \<longrightarrow> ra_controllers r ! j \<noteq> Some False))"
proof -
  have ok: "race_ok r" using race_run_ok [OF race_start_ok] assms by blast
  note f = race_run_first [OF race_start_ok [of timed hedging armed], of evs, folded assms]
  show ?thesis
  proof (cases "first_settled armed timed 1 evs")
    case None
    then show ?thesis using f by (simp add: race_start_def)
  next
    case (Some x)
    obtain leg out where x: "x = (leg, out)" by (cases x)
    have res: "ra_result r = Some out" "leg = None \<longleftrightarrow> ra_timedOut r" "\<And>i. leg = Some i \<Longrightarrow> ra_winner r = Some i"
      using f Some x by (simp_all add: race_start_def)
    have w: "ra_winner r \<noteq> None" using race_okD(7) [OF ok] res(1) by simp
    note q = ok [unfolded race_ok_def, THEN conjunct2, THEN conjunct2, THEN conjunct2, THEN conjunct2, THEN mp, OF w]
    show ?thesis using Some x res(1,2) race_run_done [OF ok w] q res(3) by (auto split: option.split)
  qed
qed

theorem retry_race_cancels_losers_witness:
  "let r = race_run [HedgeFires, LegSettles 1 (Inl 5)] (race_start False True True) :: (nat, nat) retry_race
   in ra_result (race_run [LegSettles 0 (Inr 9)] r) = Some (Inl 5) \<and> ra_controllers r = [Some True, Some False]"
proof -
  define r where "r = (race_run [HedgeFires, LegSettles 1 (Inl 5)] (race_start False True True) :: (nat, nat) retry_race)"
  have "ra_controllers r = [Some True, Some False]" unfolding r_def by code_simp
  then show ?thesis using retry_race_cancels_losers [OF r_def, of "[LegSettles 0 (Inr 9)]"]
    unfolding r_def [symmetric] Let_def by simp
qed

end
