(* ===== verification/Cron.thy ===== *)
theory Cron
  imports LimiterClock
begin

text \<open>
  The interval scheduler (\<open>src/helpers/powerCron.js\<close>).  The clock readings, the random draw and
  what the task does when it is called are arguments of the operations; the host's armed timers and
  the promises the task returned are part of the state, and their firing and settling are events.
\<close>

section \<open>State and construction\<close>

datatype catch_up = SkipMissed | CatchUp | RunOnce

text \<open>What \<open>onFire\<close> is told of a run.\<close>

record fire =
  fi_scheduledFor :: rat
  fi_ranAt :: rat
  fi_driftMs :: rat
  fi_missed :: rat

text \<open>
  \<open>cr_armed\<close> are the timeouts of the host that have neither fired nor been cleared, with their
  delays, \<open>cr_pending\<close> the runs whose promise has not settled, \<open>cr_fired\<close> the reports made so far.
\<close>

record cron =
  cr_intervalMs :: rat
  cr_maxCatchUp :: js_num
  cr_overlap :: bool
  cr_catchUp :: catch_up
  cr_jitter :: rat
  cr_runOnStart :: bool
  cr_timezone :: "string option"
  cr_timer :: "nat option"
  cr_running :: bool
  cr_nextAt :: rat
  cr_fireCount :: rat
  cr_totalDriftMs :: rat
  cr_runningTask :: bool
  cr_armed :: "(nat \<times> rat) list"
  cr_timers :: nat
  cr_pending :: "fire list"
  cr_fired :: "fire list"

definition MS_PER_MIN :: rat where "MS_PER_MIN = 60000"

definition cron_policy :: "js_val \<Rightarrow> catch_up" where
  "cron_policy v = (if v = JStr ''catch-up'' then CatchUp else if v = JStr ''run-once'' then RunOnce else SkipMissed)"

definition cron_jitter :: "js_val \<Rightarrow> rat result" where
  "cron_jitter v = map_sum id (\<lambda>n. case n of Fin r \<Rightarrow> min 1 (max 0 r) | _ \<Rightarrow> 0) (to_number v)"

definition cron_timezone :: "(string \<Rightarrow> bool) \<Rightarrow> js_val \<Rightarrow> string option result" where
  "cron_timezone known_zone tz =
     (if is_nullish tz then Inr None
      else case tz of
        JStr z \<Rightarrow> if z = [] then Inl (TypeErr ''PowerCron'' ''timezone'')
                 else if known_zone z then Inr (Some z) else Inl (RangeErr ''PowerCron'' ''timezone'')
      | _ \<Rightarrow> Inl (TypeErr ''PowerCron'' ''timezone''))"

text \<open>\<open>known_zone\<close> is what the host's \<open>Intl.DateTimeFormat\<close> accepts.\<close>

definition cron_new :: "(string \<Rightarrow> bool) \<Rightarrow> js_val \<Rightarrow> js_val \<Rightarrow> cron result" where
  "cron_new known_zone task options0 =
     (let options = default_to (JObj []) options0; o' = (\<lambda>name. get_prop name options) in
      res_bind (assertKnownOptions options [''intervalMs'', ''maxCatchUp'', ''overlap'', ''catchUp'', ''jitter'',
         ''runOnStart'', ''onError'', ''onFire'', ''unref'', ''now'', ''timezone''] ''PowerCron'') (\<lambda>_.
      res_bind (assertFunction task ''task'' ''PowerCron'' False) (\<lambda>_.
      if options = JNull then Inl NullOptions else
      res_bind (assertLimitRequired (o' ''intervalMs'') ((limit_spec ''intervalMs'' ''PowerCron'')
         \<lparr>sp_min := 10, sp_fallback := JNum (Fin MS_PER_MIN)\<rparr>)) (\<lambda>intervalMs.
      res_bind (assertLimitRequired (o' ''maxCatchUp'') ((limit_spec ''maxCatchUp'' ''PowerCron'')
         \<lparr>sp_allowInfinity := True, sp_fallback := JNum PosInf\<rparr>)) (\<lambda>maxCatchUp.
      res_bind (cron_jitter (o' ''jitter'')) (\<lambda>jitter.
      res_bind (cron_timezone known_zone (o' ''timezone'')) (\<lambda>timezone.
        Inr \<lparr>cr_intervalMs = num_rat intervalMs, cr_maxCatchUp = maxCatchUp, cr_overlap = js_truthy (o' ''overlap''),
          cr_catchUp = cron_policy (o' ''catchUp''), cr_jitter = jitter, cr_runOnStart = js_truthy (o' ''runOnStart''),
          cr_timezone = timezone, cr_timer = None, cr_running = False, cr_nextAt = 0, cr_fireCount = 0, cr_totalDriftMs = 0,
          cr_runningTask = False, cr_armed = [], cr_timers = 0, cr_pending = [], cr_fired = []\<rparr>)))))))"

definition cron_averageDriftMs :: "cron \<Rightarrow> rat" where
  "cron_averageDriftMs s = (if cr_fireCount s \<noteq> 0 then cr_totalDriftMs s / cr_fireCount s else 0)"

definition cron_nextRunAt :: "cron \<Rightarrow> rat option" where
  "cron_nextRunAt s = (if cr_running s then Some (cr_nextAt s) else None)"

section \<open>Arming and running\<close>

definition cron_jitterDelay :: "rat \<Rightarrow> cron \<Rightarrow> rat" where
  "cron_jitterDelay draw s = (if 0 < cr_jitter s then draw * cr_jitter s * cr_intervalMs s else 0)"

definition cron_arm :: "rat \<Rightarrow> rat \<Rightarrow> cron \<Rightarrow> cron" where
  "cron_arm now draw s =
     (if \<not> cr_running s then s
      else (let delay = min 2147483647 (max 0 (cr_nextAt s - now) + cron_jitterDelay draw s)
            in s\<lparr>cr_armed := cr_armed s @ [(cr_timers s, delay)], cr_timer := Some (cr_timers s), cr_timers := cr_timers s + 1\<rparr>))"

text \<open>
  One call of the task: the clock reading before it, what the call does to the scheduler itself,
  and how it ends: it returns, throws, or hands back a promise.
\<close>

datatype task_end = TaskReturned | TaskThrew | TaskPromised

record task_call =
  tc_ranAt :: rat
  tc_effect :: "cron \<Rightarrow> cron"
  tc_end :: task_end

definition cron_run :: "rat \<Rightarrow> rat \<Rightarrow> task_call \<Rightarrow> cron \<Rightarrow> cron" where
  "cron_run scheduledFor missed tc s =
     (let driftMs = max 0 (tc_ranAt tc - scheduledFor);
          f = \<lparr>fi_scheduledFor = scheduledFor, fi_ranAt = tc_ranAt tc, fi_driftMs = driftMs, fi_missed = missed\<rparr>;
          s1 = tc_effect tc (s\<lparr>cr_totalDriftMs := cr_totalDriftMs s + driftMs, cr_runningTask := True\<rparr>)
      in case tc_end tc of
           TaskReturned \<Rightarrow> s1\<lparr>cr_fired := cr_fired s1 @ [f], cr_runningTask := False\<rparr>
         | TaskThrew \<Rightarrow> s1\<lparr>cr_runningTask := False\<rparr>
         | TaskPromised \<Rightarrow> s1\<lparr>cr_pending := cr_pending s1 @ [f]\<rparr>)"

text \<open>The promise of the \<open>i\<close>-th pending run is fulfilled or rejected.\<close>

definition cron_settle :: "nat \<Rightarrow> bool \<Rightarrow> cron \<Rightarrow> cron" where
  "cron_settle i fulfilled s =
     (if i < length (cr_pending s) then
        s\<lparr>cr_pending := take i (cr_pending s) @ drop (Suc i) (cr_pending s),
          cr_fired := (if fulfilled then cr_fired s @ [cr_pending s ! i] else cr_fired s), cr_runningTask := False\<rparr>
      else s)"

text \<open>\<open>start\<close>: the readings of the clock for the target, the timer and the run on start.\<close>

definition cron_start :: "rat \<Rightarrow> rat \<Rightarrow> rat \<Rightarrow> rat \<Rightarrow> task_call \<Rightarrow> cron \<Rightarrow> cron" where
  "cron_start now armNow draw scheduledFor tc s =
     (if cr_running s then s
      else (let s1 = cron_arm armNow draw (s\<lparr>cr_running := True, cr_nextAt := now + cr_intervalMs s\<rparr>)
            in if cr_runOnStart s1 then cron_run scheduledFor 0 tc (s1\<lparr>cr_fireCount := cr_fireCount s1 + 1\<rparr>) else s1))"

definition cron_stop :: "cron \<Rightarrow> cron" where
  "cron_stop s =
     (let s1 = s\<lparr>cr_running := False, cr_runningTask := False\<rparr>
      in case cr_timer s1 of
           None \<Rightarrow> s1
         | Some t \<Rightarrow> s1\<lparr>cr_armed := filter (\<lambda>x. fst x \<noteq> t) (cr_armed s1), cr_timer := None\<rparr>)"

definition cron_runNow :: "rat \<Rightarrow> task_call \<Rightarrow> cron \<Rightarrow> cron" where
  "cron_runNow scheduledFor tc s = cron_run scheduledFor 0 tc (s\<lparr>cr_fireCount := cr_fireCount s + 1\<rparr>)"

definition cron_dispose :: "cron \<Rightarrow> cron" where
  "cron_dispose s = cron_stop s"

section \<open>The timer\<close>

definition missed_periods :: "rat \<Rightarrow> rat \<Rightarrow> rat \<Rightarrow> int" where
  "missed_periods now target intervalMs = max 0 \<lfloor>(now - target) / intervalMs\<rfloor>"

text \<open>The replays, oldest first; \<open>tcs i\<close> is the task's \<open>i\<close>-th call of this expiry.\<close>

fun cron_replay :: "rat \<Rightarrow> (nat \<Rightarrow> task_call) \<Rightarrow> nat \<Rightarrow> nat \<Rightarrow> cron \<Rightarrow> cron" where
  "cron_replay target tcs i 0 s = s"
| "cron_replay target tcs i (Suc n) s =
     cron_replay target tcs (Suc i) n
       (cron_run (target + of_nat i * cr_intervalMs s) 1 (tcs i) (s\<lparr>cr_fireCount := cr_fireCount s + 1\<rparr>))"

definition replayed_periods :: "rat \<Rightarrow> js_num \<Rightarrow> rat" where
  "replayed_periods missed limit = (case limit of Fin r \<Rightarrow> min missed r | _ \<Rightarrow> missed)"

definition cron_onTimer :: "rat \<Rightarrow> (nat \<Rightarrow> task_call) \<Rightarrow> rat \<Rightarrow> rat \<Rightarrow> cron \<Rightarrow> cron" where
  "cron_onTimer now tcs armNow draw s =
     (if \<not> cr_running s then s
      else
        (let target = cr_nextAt s; missed = missed_periods now target (cr_intervalMs s);
             after = target + of_int (missed + 1) * cr_intervalMs s
         in if \<not> cr_overlap s \<and> cr_runningTask s then cron_arm armNow draw (s\<lparr>cr_nextAt := after\<rparr>)
            else
              (let replayed = (if cr_catchUp s = CatchUp then replayed_periods (of_int missed) (cr_maxCatchUp s) else 0);
                   dropped = of_int missed - replayed;
                   n = nat \<lceil>replayed\<rceil>;
                   s1 = (if cr_catchUp s = CatchUp then cron_replay target tcs 0 n s
                         else if cr_catchUp s = RunOnce \<and> 0 < missed then s\<lparr>cr_fireCount := cr_fireCount s + of_int missed\<rparr>
                         else s);
                   s2 = cron_run target (if cr_catchUp s = CatchUp then dropped else of_int missed) (tcs n)
                          (s1\<lparr>cr_fireCount := cr_fireCount s1 + 1\<rparr>)
               in cron_arm armNow draw (s2\<lparr>cr_nextAt := after\<rparr>))))"

text \<open>A timeout of the host expires; it is one of those still armed.\<close>

definition cron_expire :: "nat \<Rightarrow> rat \<Rightarrow> (nat \<Rightarrow> task_call) \<Rightarrow> rat \<Rightarrow> rat \<Rightarrow> cron \<Rightarrow> cron" where
  "cron_expire t now tcs armNow draw s =
     (if t \<in> fst ` set (cr_armed s)
      then cron_onTimer now tcs armNow draw (s\<lparr>cr_armed := filter (\<lambda>x. fst x \<noteq> t) (cr_armed s), cr_timer := None\<rparr>)
      else s)"

section \<open>Runs of the scheduler\<close>

text \<open>A task that leaves the scheduler alone.\<close>

definition quiet :: "task_call \<Rightarrow> bool" where
  "quiet tc \<longleftrightarrow> (\<forall>s. tc_effect tc s = s)"

datatype cron_event =
    Expire nat rat "nat \<Rightarrow> task_call" rat rat
  | Settle nat bool
  | RunNow rat task_call

fun cron_step :: "cron_event \<Rightarrow> cron \<Rightarrow> cron" where
  "cron_step (Expire t now tcs armNow draw) s = cron_expire t now tcs armNow draw s"
| "cron_step (Settle i ok) s = cron_settle i ok s"
| "cron_step (RunNow sf tc) s = cron_runNow sf tc s"

fun quiet_event :: "cron_event \<Rightarrow> bool" where
  "quiet_event (Expire t now tcs armNow draw) = (\<forall>i. quiet (tcs i))"
| "quiet_event (Settle i ok) = True"
| "quiet_event (RunNow sf tc) = quiet tc"

definition cron_go :: "cron_event list \<Rightarrow> cron \<Rightarrow> cron" where
  "cron_go evs s = foldl (\<lambda>x ev. cron_step ev x) s evs"

text \<open>The runs the schedule did not ask for.\<close>

definition out_of_band :: "cron_event list \<Rightarrow> nat" where
  "out_of_band evs = length (filter (\<lambda>ev. case ev of RunNow _ _ \<Rightarrow> True | _ \<Rightarrow> False) evs)"

lemma cron_go_snoc: "cron_go (evs @ [ev]) s = cron_step ev (cron_go evs s)"
  by (simp add: cron_go_def)

lemma cron_run_keeps [simp]:
  assumes "quiet tc"
  shows "cr_nextAt (cron_run sf m tc s) = cr_nextAt s" "cr_running (cron_run sf m tc s) = cr_running s"
    "cr_armed (cron_run sf m tc s) = cr_armed s" "cr_timer (cron_run sf m tc s) = cr_timer s"
    "cr_timers (cron_run sf m tc s) = cr_timers s" "cr_fireCount (cron_run sf m tc s) = cr_fireCount s"
    "cr_intervalMs (cron_run sf m tc s) = cr_intervalMs s" "cr_overlap (cron_run sf m tc s) = cr_overlap s"
    "cr_catchUp (cron_run sf m tc s) = cr_catchUp s" "cr_maxCatchUp (cron_run sf m tc s) = cr_maxCatchUp s"
    "cr_jitter (cron_run sf m tc s) = cr_jitter s" "cr_runOnStart (cron_run sf m tc s) = cr_runOnStart s"
  using assms by (simp_all add: cron_run_def quiet_def Let_def split: task_end.split)

lemma cron_run_pending:
  assumes "quiet tc"
  shows "tc_end tc \<noteq> TaskPromised \<Longrightarrow> cr_pending (cron_run sf m tc s) = cr_pending s \<and> \<not> cr_runningTask (cron_run sf m tc s)"
    "tc_end tc = TaskPromised \<Longrightarrow> length (cr_pending (cron_run sf m tc s)) = Suc (length (cr_pending s)) \<and> cr_runningTask (cron_run sf m tc s)"
  using assms by (cases "tc_end tc"; simp add: cron_run_def quiet_def Let_def)+

lemma cron_replay_keeps [simp]:
  assumes "\<forall>i. quiet (tcs i)"
  shows "cr_nextAt (cron_replay t tcs i n s) = cr_nextAt s" "cr_running (cron_replay t tcs i n s) = cr_running s"
    "cr_armed (cron_replay t tcs i n s) = cr_armed s" "cr_timer (cron_replay t tcs i n s) = cr_timer s"
    "cr_timers (cron_replay t tcs i n s) = cr_timers s"
    "cr_intervalMs (cron_replay t tcs i n s) = cr_intervalMs s" "cr_overlap (cron_replay t tcs i n s) = cr_overlap s"
    "cr_catchUp (cron_replay t tcs i n s) = cr_catchUp s" "cr_maxCatchUp (cron_replay t tcs i n s) = cr_maxCatchUp s"
    "cr_jitter (cron_replay t tcs i n s) = cr_jitter s" "cr_runOnStart (cron_replay t tcs i n s) = cr_runOnStart s"
    "cr_fireCount (cron_replay t tcs i n s) = cr_fireCount s + of_nat n"
  using assms by (induction n arbitrary: i s) simp_all

lemma cron_arm_keeps [simp]:
  "cr_nextAt (cron_arm now draw s) = cr_nextAt s" "cr_running (cron_arm now draw s) = cr_running s"
  "cr_fireCount (cron_arm now draw s) = cr_fireCount s" "cr_intervalMs (cron_arm now draw s) = cr_intervalMs s"
  "cr_overlap (cron_arm now draw s) = cr_overlap s" "cr_catchUp (cron_arm now draw s) = cr_catchUp s"
  "cr_maxCatchUp (cron_arm now draw s) = cr_maxCatchUp s" "cr_pending (cron_arm now draw s) = cr_pending s"
  "cr_runningTask (cron_arm now draw s) = cr_runningTask s" "cr_runOnStart (cron_arm now draw s) = cr_runOnStart s"
  "cr_fired (cron_arm now draw s) = cr_fired s"
  by (simp_all add: cron_arm_def Let_def)

lemma cron_arm_one:
  "cr_running s \<Longrightarrow> cr_armed s = [] \<Longrightarrow>
     \<exists>d. cr_armed (cron_arm now draw s) = [(cr_timers s, d)] \<and> cr_timer (cron_arm now draw s) = Some (cr_timers s)"
  by (simp add: cron_arm_def Let_def)

text \<open>The next target is the first instant of the grid after the reading.\<close>

lemma missed_periods_next:
  assumes "0 < I"
  shows "now < target + of_int (missed_periods now target I + 1) * I"
    and "target \<le> now \<Longrightarrow> target + of_int (missed_periods now target I) * I \<le> now"
    and "0 \<le> missed_periods now target I"
proof -
  let ?q = "(now - target) / I"
  have q: "now = target + ?q * I" using assms by simp
  have "?q < of_int (missed_periods now target I + 1)" unfolding missed_periods_def by linarith
  then have "?q * I < of_int (missed_periods now target I + 1) * I" using assms by (rule mult_strict_right_mono)
  then show "now < target + of_int (missed_periods now target I + 1) * I" using q by linarith
  show "0 \<le> missed_periods now target I" by (simp add: missed_periods_def)
  assume "target \<le> now"
  then have "0 \<le> ?q" using assms by simp
  then have "of_int (missed_periods now target I) \<le> ?q" unfolding missed_periods_def by (simp add: max_def)
  then have "of_int (missed_periods now target I) * I \<le> ?q * I" using assms by (intro mult_right_mono) simp_all
  then show "target + of_int (missed_periods now target I) * I \<le> now" using q by linarith
qed

text \<open>What every quiet expiry does.\<close>

lemma cron_onTimer_keeps:
  assumes "cr_running s" "\<forall>i. quiet (tcs i)"
  shows "cr_nextAt (cron_onTimer now tcs armNow draw s)
      = cr_nextAt s + of_int (missed_periods now (cr_nextAt s) (cr_intervalMs s) + 1) * cr_intervalMs s"
    "cr_running (cron_onTimer now tcs armNow draw s)"
    "cr_intervalMs (cron_onTimer now tcs armNow draw s) = cr_intervalMs s"
    "cr_overlap (cron_onTimer now tcs armNow draw s) = cr_overlap s"
    "cr_catchUp (cron_onTimer now tcs armNow draw s) = cr_catchUp s"
    "cr_maxCatchUp (cron_onTimer now tcs armNow draw s) = cr_maxCatchUp s"
  using assms by (simp_all add: cron_onTimer_def Let_def)

lemma cron_onTimer_arms:
  assumes "cr_running s" "\<forall>i. quiet (tcs i)" "cr_armed s = []"
  shows "\<exists>d. cr_armed (cron_onTimer now tcs armNow draw s) = [(cr_timers s, d)]
    \<and> cr_timer (cron_onTimer now tcs armNow draw s) = Some (cr_timers s)"
  using assms by (simp add: cron_onTimer_def cron_arm_def Let_def)

definition counts_every_period :: "cron \<Rightarrow> bool" where
  "counts_every_period s \<longleftrightarrow> cr_overlap s \<and> (cr_catchUp s = RunOnce \<or> cr_catchUp s = CatchUp \<and> cr_maxCatchUp s = PosInf)"

lemma cron_onTimer_fires:
  assumes "cr_running s" "\<forall>i. quiet (tcs i)" "counts_every_period s"
  shows "cr_fireCount (cron_onTimer now tcs armNow draw s)
    = cr_fireCount s + of_int (missed_periods now (cr_nextAt s) (cr_intervalMs s) + 1)"
proof -
  have "0 \<le> missed_periods now (cr_nextAt s) (cr_intervalMs s)" by (simp add: missed_periods_def)
  then show ?thesis using assms
    by (auto simp: cron_onTimer_def Let_def counts_every_period_def replayed_periods_def)
qed

section \<open>The cadence\<close>

definition cron_ok :: "rat \<Rightarrow> rat \<Rightarrow> nat \<Rightarrow> cron \<Rightarrow> bool" where
  "cron_ok t0 I n s \<longleftrightarrow> cr_running s \<and> cr_intervalMs s = I \<and> (\<exists>t d. cr_armed s = [(t, d)] \<and> cr_timer s = Some t)
     \<and> (\<exists>k\<ge>1. cr_nextAt s = t0 + of_nat k * I \<and> (counts_every_period s \<longrightarrow> cr_fireCount s = of_nat (k - 1) + of_nat n))"

lemma cron_ok_more:
  assumes "cron_ok t0 I n s" "cr_running s' = cr_running s" "cr_intervalMs s' = cr_intervalMs s" "cr_armed s' = cr_armed s"
    "cr_timer s' = cr_timer s" "cr_nextAt s' = cr_nextAt s" "cr_fireCount s' = cr_fireCount s + of_nat m"
    "counts_every_period s' = counts_every_period s"
  shows "cron_ok t0 I (n + m) s'"
  using assms unfolding cron_ok_def by auto

lemma counts_cong:
  "cr_overlap s' = cr_overlap s \<Longrightarrow> cr_catchUp s' = cr_catchUp s \<Longrightarrow> cr_maxCatchUp s' = cr_maxCatchUp s
    \<Longrightarrow> counts_every_period s' = counts_every_period s"
  by (simp add: counts_every_period_def)

lemma cron_expire_ok:
  assumes ok: "cron_ok t0 I n s" and q: "\<forall>i. quiet (tcs i)"
  shows "cron_ok t0 I n (cron_expire t now tcs armNow draw s)"
proof (cases "t \<in> fst ` set (cr_armed s)")
  case False
  then show ?thesis using ok by (simp add: cron_expire_def)
next
  case True
  obtain d k where s: "cr_running s" "cr_intervalMs s = I" "cr_armed s = [(t, d)]" "1 \<le> k" "cr_nextAt s = t0 + of_nat k * I"
    "counts_every_period s \<longrightarrow> cr_fireCount s = of_nat (k - 1) + of_nat n"
    using ok True unfolding cron_ok_def by fastforce
  define s1 where "s1 = s\<lparr>cr_armed := [], cr_timer := None\<rparr>"
  have e: "cron_expire t now tcs armNow draw s = cron_onTimer now tcs armNow draw s1"
    using True s(3) by (simp add: cron_expire_def s1_def)
  have r: "cr_running s1" "cr_armed s1 = []" "cr_nextAt s1 = t0 + of_nat k * I" "cr_intervalMs s1 = I"
    "cr_fireCount s1 = cr_fireCount s" "counts_every_period s1 = counts_every_period s"
    using s by (simp_all add: s1_def counts_every_period_def)
  define m where "m = missed_periods now (cr_nextAt s) I"
  have m: "of_int m = of_nat (nat m)" "0 \<le> m" by (simp_all add: m_def missed_periods_def)
  note k = cron_onTimer_keeps [OF r(1) q, of now armNow draw]
  have "cr_nextAt (cron_onTimer now tcs armNow draw s1) = t0 + of_nat (k + nat m + 1) * I"
    using k(1) r(3,4) s(5) m by (simp add: m_def algebra_simps)
  moreover have "cr_fireCount (cron_onTimer now tcs armNow draw s1) = of_nat (k + nat m + 1 - 1) + of_nat n"
    if "counts_every_period (cron_onTimer now tcs armNow draw s1)"
  proof -
    have c: "counts_every_period s1" using that counts_cong [OF k(4-6)] by simp
    have "cr_fireCount s1 = of_nat (k - 1) + of_nat n" using s(6) r(5,6) c by simp
    then show ?thesis using cron_onTimer_fires [OF r(1) q c, of now armNow draw] r(3,4) s(4,5) m by (simp add: m_def of_nat_diff)
  qed
  ultimately show ?thesis
    unfolding e cron_ok_def using k(2,3) r(4) cron_onTimer_arms [OF r(1) q r(2), of now armNow draw]
    by (metis le_add2)
qed

lemma cron_settle_keeps [simp]:
  "cr_nextAt (cron_settle i ok s) = cr_nextAt s" "cr_running (cron_settle i ok s) = cr_running s"
  "cr_armed (cron_settle i ok s) = cr_armed s" "cr_timer (cron_settle i ok s) = cr_timer s"
  "cr_fireCount (cron_settle i ok s) = cr_fireCount s" "cr_intervalMs (cron_settle i ok s) = cr_intervalMs s"
  "cr_overlap (cron_settle i ok s) = cr_overlap s" "cr_catchUp (cron_settle i ok s) = cr_catchUp s"
  "cr_maxCatchUp (cron_settle i ok s) = cr_maxCatchUp s"
  by (simp_all add: cron_settle_def)

lemma cron_step_ok:
  assumes "cron_ok t0 I n s" "quiet_event ev"
  shows "cron_ok t0 I (n + out_of_band [ev]) (cron_step ev s)"
proof (cases ev)
  case (Expire t now tcs armNow draw)
  then show ?thesis using cron_expire_ok [OF assms(1)] assms(2) by (simp add: out_of_band_def)
next
  case (Settle i ok)
  then show ?thesis using assms(1)
    by (intro cron_ok_more) (simp_all add: out_of_band_def counts_every_period_def)
next
  case (RunNow sf tc)
  then show ?thesis using assms
    by (intro cron_ok_more) (simp_all add: out_of_band_def counts_every_period_def cron_runNow_def)
qed

lemma cron_go_ok:
  "cron_ok t0 I n s \<Longrightarrow> list_all quiet_event evs \<Longrightarrow> cron_ok t0 I (n + out_of_band evs) (cron_go evs s)"
proof (induction evs rule: rev_induct)
  case (snoc ev evs)
  have "cron_ok t0 I (n + out_of_band evs + out_of_band [ev]) (cron_step ev (cron_go evs s))"
    using snoc by (intro cron_step_ok) simp_all
  then show ?case by (simp add: cron_go_snoc out_of_band_def add.assoc)
qed (simp add: cron_go_def out_of_band_def)

text \<open>A new scheduler is idle.\<close>

lemma cron_new_parts:
  assumes "cron_new zones task opts = Inr s"
  shows "10 \<le> cr_intervalMs s \<and> \<not> cr_running s \<and> cr_armed s = [] \<and> cr_timer s = None \<and> cr_fireCount s = 0
    \<and> cr_pending s = [] \<and> \<not> cr_runningTask s"
proof -
  have i: "10 \<le> num_rat n"
    if "assertLimitRequired v ((limit_spec ''intervalMs'' ''PowerCron'')\<lparr>sp_min := 10, sp_fallback := JNum (Fin MS_PER_MIN)\<rparr>) = Inr n"
    for v n
    using that by (auto simp: assertLimitRequired_def assertLimit_def limit_spec_def num_rat_def MS_PER_MIN_def
      split: if_splits sum.splits js_val.splits js_num.splits)
  show ?thesis using assms unfolding cron_new_def Let_def
    by (elim res_bindE if_InlE Inr_eqE) (auto dest: i)
qed

lemma cron_start_ok:
  assumes "cron_new zones task opts = Inr s0" "quiet tc"
  shows "cron_ok t0 (cr_intervalMs s0) (if cr_runOnStart s0 then 1 else 0) (cron_start t0 armNow draw sf tc s0)"
proof -
  have s: "\<not> cr_running s0" "cr_armed s0 = []" "cr_fireCount s0 = 0" using cron_new_parts [OF assms(1)] by simp_all
  show ?thesis using s assms(2)
    by (auto simp: cron_ok_def cron_start_def cron_arm_def Let_def counts_every_period_def intro!: exI [of _ "1 :: nat"])
qed

text \<open>
  C28. The schedule does not drift: however late its timer fires, whatever the task does and however
  long its promises take, the target is on the grid of the start, exactly one timer is armed, and
  each expiry moves the target to the first instant of the grid after its reading of the clock.
  With overlap allowed, the policies that account for every period count each of them exactly once.
\<close>

theorem cron_cadence:
  assumes "cron_new zones task opts = Inr s0" "quiet tc" "list_all quiet_event evs"
    "cron_go evs (cron_start t0 armNow draw sf tc s0) = s"
  shows "\<exists>k t d. cr_nextAt s = t0 + of_nat k * cr_intervalMs s0 \<and> 1 \<le> k \<and> cr_armed s = [(t, d)] \<and> cr_timer s = Some t
    \<and> (counts_every_period s \<longrightarrow> cr_fireCount s = of_nat (k - 1 + out_of_band evs + (if cr_runOnStart s0 then 1 else 0)))
    \<and> (\<forall>now tcs armNow' draw'. (\<forall>i. quiet (tcs i)) \<longrightarrow>
         (let next = cr_nextAt (cron_expire t now tcs armNow' draw' s)
          in now < next \<and> (cr_nextAt s \<le> now \<longrightarrow> next - cr_intervalMs s0 \<le> now)))"
proof -
  have ok: "cron_ok t0 (cr_intervalMs s0) ((if cr_runOnStart s0 then 1 else 0) + out_of_band evs) s"
    using cron_go_ok [OF cron_start_ok [OF assms(1,2)] assms(3)] unfolding assms(4) [symmetric] .
  obtain k t d where p: "cr_running s" "cr_intervalMs s = cr_intervalMs s0" "cr_armed s = [(t, d)]" "cr_timer s = Some t"
    "1 \<le> k" "cr_nextAt s = t0 + of_nat k * cr_intervalMs s0"
    "counts_every_period s \<longrightarrow> cr_fireCount s = of_nat (k - 1) + of_nat ((if cr_runOnStart s0 then 1 else 0) + out_of_band evs)"
    using ok unfolding cron_ok_def by blast
  have I: "0 < cr_intervalMs s0" using cron_new_parts [OF assms(1)] by simp
  have n: "now < cr_nextAt (cron_expire t now tcs a w s)
      \<and> (cr_nextAt s \<le> now \<longrightarrow> cr_nextAt (cron_expire t now tcs a w s) - cr_intervalMs s0 \<le> now)"
    if "\<forall>i. quiet (tcs i)" for now tcs a w
  proof -
    have "cr_nextAt (cron_expire t now tcs a w s)
        = cr_nextAt s + of_int (missed_periods now (cr_nextAt s) (cr_intervalMs s0) + 1) * cr_intervalMs s0"
      using cron_onTimer_keeps(1) [of "s\<lparr>cr_armed := [], cr_timer := None\<rparr>" tcs now a w] p(1-4) that
      by (simp add: cron_expire_def)
    then show ?thesis using missed_periods_next [OF I, where now = now and target = "cr_nextAt s"] by (simp add: algebra_simps)
  qed
  have f: "counts_every_period s \<longrightarrow> cr_fireCount s = of_nat (k - 1 + out_of_band evs + (if cr_runOnStart s0 then 1 else 0))"
    using p(7) by auto
  show ?thesis using p(3-6) n f unfolding Let_def by blast
qed

text \<open>A task that returns at a given reading, and one that hands back a promise.\<close>

definition returns_at :: "rat \<Rightarrow> task_call" where
  "returns_at r = \<lparr>tc_ranAt = r, tc_effect = (\<lambda>s. s), tc_end = TaskReturned\<rparr>"

definition promises_at :: "rat \<Rightarrow> task_call" where
  "promises_at r = \<lparr>tc_ranAt = r, tc_effect = (\<lambda>s. s), tc_end = TaskPromised\<rparr>"

lemma quiet_examples [simp]: "quiet (returns_at r)" "quiet (promises_at r)"
  by (simp_all add: quiet_def returns_at_def promises_at_def)

definition cron_every10 :: "catch_up \<Rightarrow> bool \<Rightarrow> cron" where
  "cron_every10 policy overlap = \<lparr>cr_intervalMs = 10, cr_maxCatchUp = PosInf, cr_overlap = overlap, cr_catchUp = policy, cr_jitter = 0,
     cr_runOnStart = False, cr_timezone = None, cr_timer = None, cr_running = False, cr_nextAt = 0, cr_fireCount = 0,
     cr_totalDriftMs = 0, cr_runningTask = False, cr_armed = [], cr_timers = 0, cr_pending = [], cr_fired = []\<rparr>"

lemma cron_every10_new:
  "cron_new zones (JFun 0) (JObj [(''intervalMs'', JNum (Fin 10)), (''catchUp'', JStr ''catch-up''), (''overlap'', JBool True)])
     = Inr (cron_every10 CatchUp True)"
  "cron_new zones (JFun 0) (JObj [(''intervalMs'', JNum (Fin 10)), (''catchUp'', JStr ''run-once'')]) = Inr (cron_every10 RunOnce False)"
  "cron_new zones (JFun 0) (JObj [(''intervalMs'', JNum (Fin 10)), (''catchUp'', JStr ''catch-up'')]) = Inr (cron_every10 CatchUp False)"
  by code_simp+

theorem cron_cadence_witness:
  "let s = cron_go [Expire 0 35 (\<lambda>_. returns_at 35) 36 0] (cron_start 0 0 0 0 (returns_at 0) (cron_every10 CatchUp True))
   in \<exists>k. cr_nextAt s = of_nat k * 10 \<and> 1 \<le> k \<and> cr_fireCount s = of_nat (k - 1)"
proof -
  define s where "s = cron_go [Expire 0 35 (\<lambda>_. returns_at 35) 36 0] (cron_start 0 0 0 0 (returns_at 0) (cron_every10 CatchUp True))"
  have c: "counts_every_period s" unfolding s_def
    by (simp add: cron_go_def cron_start_def cron_arm_def cron_every10_def cron_expire_def cron_onTimer_def Let_def counts_every_period_def)
  show ?thesis
    using cron_cadence [OF cron_every10_new(1), of "returns_at 0" "[Expire 0 35 (\<lambda>_. returns_at 35) 36 0]" 0 0 0 0 s] c
    unfolding s_def [symmetric] Let_def by (fastforce simp: s_def out_of_band_def cron_every10_def)
qed

section \<open>Overlap\<close>

text \<open>With overlap off and at most one call of the task per expiry, a promise blocks the next call.\<close>

definition one_at_a_time :: "cron \<Rightarrow> bool" where
  "one_at_a_time s \<longleftrightarrow> \<not> cr_overlap s \<and> cr_catchUp s \<noteq> CatchUp \<and> length (cr_pending s) \<le> 1
     \<and> (cr_runningTask s \<longleftrightarrow> cr_pending s \<noteq> [])"

lemma cron_run_one:
  assumes "one_at_a_time s" "cr_pending s = []" "quiet tc"
  shows "one_at_a_time (cron_run sf m tc s)"
proof (cases "tc_end tc = TaskPromised")
  case True
  show ?thesis using cron_run_pending(2) [OF assms(3) True, of sf m s] assms by (auto simp: one_at_a_time_def)
next
  case False
  show ?thesis using cron_run_pending(1) [OF assms(3) False, of sf m s] assms by (auto simp: one_at_a_time_def)
qed

lemma one_at_a_time_cong:
  assumes "one_at_a_time s" "cr_overlap s' = cr_overlap s" "cr_catchUp s' = cr_catchUp s" "cr_pending s' = cr_pending s"
    "cr_runningTask s' = cr_runningTask s"
  shows "one_at_a_time s'"
  using assms by (simp add: one_at_a_time_def)

lemma cron_onTimer_one:
  assumes "one_at_a_time s" "\<forall>i. quiet (tcs i)"
  shows "one_at_a_time (cron_onTimer now tcs armNow draw s)"
proof (cases "cr_running s \<and> \<not> cr_runningTask s")
  case True
  let ?m = "missed_periods now (cr_nextAt s) (cr_intervalMs s)"
  define s1 where "s1 = (if cr_catchUp s = RunOnce \<and> 0 < ?m then s\<lparr>cr_fireCount := cr_fireCount s + of_int ?m\<rparr> else s)"
  define s2 where "s2 = s1\<lparr>cr_fireCount := cr_fireCount s1 + 1\<rparr>"
  have p: "cr_catchUp s \<noteq> CatchUp" "cr_pending s = []" "\<not> cr_runningTask s" "cr_running s"
    using assms(1) True by (auto simp: one_at_a_time_def)
  have "one_at_a_time s2" "cr_pending s2 = []"
    using p(2) assms(1) by (auto simp: s1_def s2_def intro: one_at_a_time_cong)
  then have "one_at_a_time (cron_run (cr_nextAt s) (of_int ?m) (tcs 0) s2)" by (rule cron_run_one) (simp add: assms(2))
  moreover have "cron_onTimer now tcs armNow draw s = cron_arm armNow draw
      (cron_run (cr_nextAt s) (of_int ?m) (tcs 0) s2\<lparr>cr_nextAt := cr_nextAt s + of_int (?m + 1) * cr_intervalMs s\<rparr>)"
    using p by (simp add: cron_onTimer_def Let_def s1_def s2_def)
  ultimately show ?thesis by (auto intro: one_at_a_time_cong)
next
  case False
  then have "cron_onTimer now tcs armNow draw s = s \<or> (\<exists>x. cron_onTimer now tcs armNow draw s = cron_arm armNow draw (s\<lparr>cr_nextAt := x\<rparr>))"
    using assms(1) by (auto simp: cron_onTimer_def Let_def one_at_a_time_def)
  then show ?thesis using assms(1) by (auto intro: one_at_a_time_cong)
qed

lemma cron_settle_one:
  assumes "one_at_a_time s"
  shows "one_at_a_time (cron_settle i ok s)"
proof (cases "i < length (cr_pending s)")
  case True
  then have "i = 0" "length (cr_pending s) = 1" using assms by (auto simp: one_at_a_time_def)
  then show ?thesis using assms by (auto simp: cron_settle_def one_at_a_time_def)
qed (use assms in \<open>simp add: cron_settle_def\<close>)

lemma cron_step_one:
  assumes "one_at_a_time s" "quiet_event ev" "out_of_band [ev] = 0"
  shows "one_at_a_time (cron_step ev s)"
proof (cases ev)
  case (Expire t now tcs armNow draw)
  have "one_at_a_time (s\<lparr>cr_armed := a, cr_timer := None\<rparr>)" for a using assms(1) by (auto intro: one_at_a_time_cong)
  then show ?thesis using assms(1,2) Expire by (simp add: cron_expire_def cron_onTimer_one)
qed (use assms in \<open>simp_all add: cron_settle_one out_of_band_def\<close>)

text \<open>
  C29. With overlap off and a policy that does not replay, the schedule never starts the task while a
  promise it returned is pending: as long as nobody calls \<open>runNow\<close> or \<open>stop\<close> at most one run is in
  flight, and the flag that blocks the timer is set exactly while it is.
\<close>

theorem cron_runs_one_at_a_time:
  assumes "cron_new zones task opts = Inr s0" "\<not> cr_overlap s0" "cr_catchUp s0 \<noteq> CatchUp" "quiet tc"
    "list_all quiet_event evs" "out_of_band evs = 0"
    "cron_go evs (cron_start t0 armNow draw sf tc s0) = s"
  shows "length (cr_pending s) \<le> 1 \<and> (cr_runningTask s \<longleftrightarrow> cr_pending s \<noteq> [])"
proof -
  have "one_at_a_time s0" using assms(2,3) cron_new_parts [OF assms(1)] by (simp add: one_at_a_time_def)
  moreover have "cr_pending s0 = []" "\<not> cr_running s0" using cron_new_parts [OF assms(1)] by simp_all
  ultimately have st: "one_at_a_time (cron_start t0 armNow draw sf tc s0)"
    unfolding cron_start_def Let_def by (auto intro!: cron_run_one assms(4) intro: one_at_a_time_cong)
  have "one_at_a_time (cron_go evs x)" if "one_at_a_time x" for x
    using assms(5,6) that
    by (induction evs rule: rev_induct)
      (simp add: cron_go_def, auto simp: cron_go_snoc out_of_band_def intro!: cron_step_one split: if_splits)
  then show ?thesis using st assms(7) unfolding one_at_a_time_def by blast
qed

theorem cron_runs_one_at_a_time_witness:
  "let s = cron_go [Expire 0 10 (\<lambda>_. promises_at 10) 10 0, Expire 1 20 (\<lambda>_. promises_at 20) 20 0]
             (cron_start 0 0 0 0 (returns_at 0) (cron_every10 RunOnce False))
   in length (cr_pending s) \<le> 1 \<and> (cr_runningTask s \<longleftrightarrow> cr_pending s \<noteq> [])"
  unfolding Let_def
  by (rule cron_runs_one_at_a_time [OF cron_every10_new(2), where tc = "returns_at 0"
        and evs = "[Expire 0 10 (\<lambda>_. promises_at 10) 10 0, Expire 1 20 (\<lambda>_. promises_at 20) 20 0]"])
    (simp_all add: cron_every10_def out_of_band_def)

text \<open>
  Replays do not look at the flag: a task that returns promises runs three times at once although
  overlap is off.  They are also one instant short: after 30 milliseconds on a 10 millisecond grid
  the runs for 10, 20, 30 and 40 are reported as 10, 20, 30 and 10 again.
\<close>

lemma cron_replays_overlap:
  "length (cr_pending (cron_go [Expire 0 30 (\<lambda>_. promises_at 30) 30 0] (cron_start 0 0 0 0 (returns_at 0) (cron_every10 CatchUp False)))) = 3"
  by code_simp

lemma cron_replays_repeat_target:
  "map fi_scheduledFor (cr_fired (cron_go [Expire 0 40 (\<lambda>_. returns_at 40) 40 0]
      (cron_start 0 0 0 0 (returns_at 0) (cron_every10 CatchUp False)))) = [10, 20, 30, 10]"
  by code_simp

text \<open>An expiry blocked by a running task moves the target on, and the next run reports no missed period.\<close>

lemma cron_blocked_period_unreported:
  "map fi_missed (cr_fired (cron_go [Expire 0 10 (\<lambda>_. promises_at 10) 10 0, Expire 1 20 (\<lambda>_. returns_at 20) 20 0, Settle 0 True,
      Expire 2 30 (\<lambda>_. returns_at 30) 30 0] (cron_start 0 0 0 0 (returns_at 0) (cron_every10 RunOnce False)))) = [0, 0]"
  by code_simp

text \<open>A delay is clamped to 2147483647 ms, and an early expiry runs the task.\<close>

lemma cron_long_interval_early:
  "let s = cron_start 0 0 0 0 (returns_at 0) ((cron_every10 SkipMissed False)\<lparr>cr_intervalMs := 3000000000\<rparr>)
   in cr_armed s = [(0, 2147483647)]
     \<and> length (cr_fired (cron_go [Expire 0 2147483647 (\<lambda>_. returns_at 2147483647) 2147483647 0] s)) = 1"
  by code_simp

end
