(* ===== verification/Bulkhead.thy ===== *)
theory Bulkhead
  imports PermitGate LimiterClock
begin

text \<open>
  The bulkhead (\<open>src/helpers/powerBulkhead.js\<close>): one permit gate per partition, the
  counters of admitted and active work, and \<open>drain\<close>.  The callbacks chained to a task's promises run
  later than the call that made them; each is an operation of its own, so the interleavings of the
  tasks are the orders of these operations.
\<close>

section \<open>State and construction\<close>

record bucket =
  bb_shed :: nat
  bb_gate :: gate

text \<open>
  A task waits for its permit, runs with a release callback, has left its partition but not yet its
  outermost \<open>finally\<close>, or is done.
\<close>

datatype phase = Waiting | Running nat | Leaving | Left

record btask =
  bt_partition :: nat
  bt_queued :: bool
  bt_tried :: bool
  bt_permit :: acquired
  bt_phase :: phase

record bulkhead =
  bk_partitions :: rat
  bk_maxConcurrency :: rat
  bk_queueCapacity :: rat
  bk_partitioner :: bool
  bk_nextPartition :: rat
  bk_activeCount :: int
  bk_outstanding :: int
  bk_shed :: nat
  bk_buckets :: "bucket list"
  bk_drainWaiters :: "nat queue"
  bk_tasks :: "btask list"
  bk_drains :: nat
  bk_drained :: "nat list"

definition DEFAULT_QUEUE_CAPACITY :: rat where "DEFAULT_QUEUE_CAPACITY = 100"

definition bulk_limit :: "string \<Rightarrow> rat \<Rightarrow> rat \<Rightarrow> js_val \<Rightarrow> rat result" where
  "bulk_limit name least fallback v =
     map_sum id num_rat (assertLimitRequired (default_to (JNum (Fin fallback)) v)
       ((limit_spec name ''PowerBulkhead'')\<lparr>sp_min := least, sp_fallback := JNum (Fin fallback)\<rparr>))"

definition bulk_new :: "bool \<Rightarrow> js_val \<Rightarrow> bulkhead result option" where
  "bulk_new partitioner options0 =
     (let options = default_to (JObj []) options0 in
      case res_bind (assertKnownOptions options [''partitions'', ''maxConcurrency'', ''queueCapacity'', ''observability'',
             ''partitioner'', ''onError'', ''onShed''] ''PowerBulkhead'') (\<lambda>_.
           res_bind (bulk_limit ''partitions'' 1 4 (get_prop ''partitions'' options)) (\<lambda>partitions.
           res_bind (bulk_limit ''maxConcurrency'' 1 1 (get_prop ''maxConcurrency'' options)) (\<lambda>maxConcurrency.
           res_bind (bulk_limit ''queueCapacity'' 0 DEFAULT_QUEUE_CAPACITY (get_prop ''queueCapacity'' options)) (\<lambda>queueCapacity.
             Inr (partitions, maxConcurrency, queueCapacity))))) of
        Inl e \<Rightarrow> Some (Inl e)
      | Inr (partitions, maxConcurrency, queueCapacity) \<Rightarrow>
          (case gate_new (JObj [(''capacity'', JNum (Fin maxConcurrency)), (''queueCapacity'', JNum (Fin queueCapacity))]) of
             None \<Rightarrow> None
           | Some (Inl e) \<Rightarrow> Some (Inl e)
           | Some (Inr g) \<Rightarrow>
               (case queue_new (JNum (Fin POWER_QUEUE_INITIAL_CAPACITY)) of
                  None \<Rightarrow> None
                | Some (Inl e) \<Rightarrow> Some (Inl e)
                | Some (Inr q) \<Rightarrow>
                    Some (Inr \<lparr>bk_partitions = partitions, bk_maxConcurrency = maxConcurrency, bk_queueCapacity = queueCapacity,
                      bk_partitioner = partitioner, bk_nextPartition = 0, bk_activeCount = 0, bk_outstanding = 0, bk_shed = 0,
                      bk_buckets = replicate (nat \<lfloor>partitions\<rfloor>) \<lparr>bb_shed = 0, bb_gate = g\<rparr>,
                      bk_drainWaiters = q, bk_tasks = [], bk_drains = 0, bk_drained = []\<rparr>))))"

section \<open>Choosing a partition\<close>

text \<open>\<open>_hashKey\<close> on the characters of a string below 256; the shift is a 32-bit one, the sum is not.\<close>

definition bulk_hashKey :: "string \<Rightarrow> int" where
  "bulk_hashKey value = foldl (\<lambda>hash c. to_int32 (32 * hash) + hash + of_char c) 5381 value mod 2 ^ 32"

text \<open>\<open>a % b\<close> for \<open>a\<close> at least zero and \<open>b\<close> positive.\<close>

definition js_rem :: "rat \<Rightarrow> rat \<Rightarrow> rat" where
  "js_rem a b = a - b * of_int \<lfloor>a / b\<rfloor>"

definition js_trunc :: "rat \<Rightarrow> int" where
  "js_trunc r = (if 0 \<le> r then \<lfloor>r\<rfloor> else \<lceil>r\<rceil>)"

text \<open>\<open>chosen\<close> is what the configured partitioner answers, as a number.\<close>

definition bulk_choosePartition :: "string option \<Rightarrow> js_num \<Rightarrow> bulkhead \<Rightarrow> bulkhead \<times> rat" where
  "bulk_choosePartition key chosen b =
     (if bk_partitioner b then
        (b, case chosen of Fin raw \<Rightarrow> js_rem (of_int \<bar>js_trunc raw\<bar>) (bk_partitions b) | _ \<Rightarrow> 0)
      else case key of
        Some k \<Rightarrow> (b, js_rem (of_int (bulk_hashKey k)) (bk_partitions b))
      | None \<Rightarrow> (b\<lparr>bk_nextPartition := js_rem (bk_nextPartition b + 1) (bk_partitions b)\<rparr>, bk_nextPartition b))"

text \<open>Reading \<open>_buckets[partition]\<close>; \<open>None\<close> is \<open>undefined\<close>.\<close>

definition bucket_index :: "rat \<Rightarrow> bulkhead \<Rightarrow> nat option" where
  "bucket_index r b =
     (if of_int \<lfloor>r\<rfloor> = r \<and> 0 \<le> r \<and> nat \<lfloor>r\<rfloor> < length (bk_buckets b) then Some (nat \<lfloor>r\<rfloor>) else None)"

definition bulk_gate :: "bulkhead \<Rightarrow> nat \<Rightarrow> gate" where
  "bulk_gate b p = bb_gate (bk_buckets b ! p)"

definition bulk_setGate :: "nat \<Rightarrow> gate \<Rightarrow> bulkhead \<Rightarrow> bulkhead" where
  "bulk_setGate p g b = b\<lparr>bk_buckets := (bk_buckets b)[p := (bk_buckets b ! p)\<lparr>bb_gate := g\<rparr>]\<rparr>"

section \<open>Draining\<close>

definition drain_wt :: "nat \<Rightarrow> js_val" where
  "drain_wt d = JUndefined"

text \<open>The loop of \<open>_resolveDrainWaitersIfIdle\<close>.\<close>

function bulk_resolveAll :: "bulkhead \<Rightarrow> bulkhead" where
  "bulk_resolveAll b =
     (if 0 < q_size (bk_drainWaiters b) then
        (let (q, x) = queue_shift drain_wt (bk_drainWaiters b) in
         bulk_resolveAll (b\<lparr>bk_drainWaiters := q,
           bk_drained := bk_drained b @ (case x of None \<Rightarrow> [] | Some d \<Rightarrow> [d])\<rparr>))
      else b)"
  by pat_completeness auto
termination
  by (relation "measure (\<lambda>b. nat (q_size (bk_drainWaiters b)))") (auto simp: queue_shift_def Let_def)

declare bulk_resolveAll.simps [simp del]

definition bulk_resolveDrainWaitersIfIdle :: "bulkhead \<Rightarrow> bulkhead" where
  "bulk_resolveDrainWaitersIfIdle b = (if bk_outstanding b \<noteq> 0 then b else bulk_resolveAll b)"

text \<open>\<open>drain\<close> names its promise; it is settled when its name is in \<open>bk_drained\<close>.\<close>

definition bulk_drain :: "bulkhead \<Rightarrow> (bulkhead, nat) step" where
  "bulk_drain b =
     (let d = bk_drains b; b1 = b\<lparr>bk_drains := d + 1\<rparr> in
      if bk_outstanding b = 0 then (b1\<lparr>bk_drained := bk_drained b @ [d]\<rparr>, Inr d)
      else case queue_push drain_wt d (bk_drainWaiters b) of
             (q, Inl e) \<Rightarrow> (b1\<lparr>bk_drainWaiters := q\<rparr>, Inl e)
           | (q, Inr _) \<Rightarrow> (b1\<lparr>bk_drainWaiters := q\<rparr>, Inr d))"

section \<open>Running tasks\<close>

datatype run_answer = RunRejected js_error | RunTask nat | RunRefused

definition bulk_weight :: "js_val \<Rightarrow> js_num result" where
  "bulk_weight v = assertLimitRequired v (weight_spec ''PowerBulkhead'')"

text \<open>
  \<open>run\<close>: its options are the arguments.  A \<open>null\<close> options object is refused before anything changes:
  the weight falls back to 1 and the read of \<open>partitionKey\<close> throws.
\<close>

definition bulk_run ::
  "bool \<Rightarrow> js_val \<Rightarrow> string option \<Rightarrow> js_num \<Rightarrow> bool option \<Rightarrow> bulkhead \<Rightarrow> (bulkhead, run_answer) step" where
  "bulk_run isfun weight key chosen signal b =
     (if \<not> isfun then (b, Inr (RunRejected (TypeErr ''PowerBulkhead'' ''task'')))
      else case bulk_weight weight of
        Inl e \<Rightarrow> (b, Inl e)
      | Inr w \<Rightarrow>
          (let (b1, r) = bulk_choosePartition key chosen b in
           case bucket_index r b1 of
             None \<Rightarrow> (b1, Inl (TypeErr ''PowerBulkhead'' ''bucket''))
           | Some p \<Rightarrow>
               (let g = bulk_gate b1 p in
                if g_capacity g < num_int w then (b1, Inr (RunRejected (TypeErr ''PowerBulkhead'' ''weight'')))
                else
                  (let willQueue = (g_available g < num_int w) in
                   if willQueue \<and> bk_queueCapacity b1 \<le> of_int (gate_pending g) then
                     (b1\<lparr>bk_shed := bk_shed b1 + 1,
                         bk_buckets := (bk_buckets b1)[p := (bk_buckets b1 ! p)\<lparr>bb_shed := bb_shed (bk_buckets b1 ! p) + 1\<rparr>]\<rparr>,
                      Inr (RunRejected (QueueFull ''PowerBulkhead'' (Fin (bk_queueCapacity b1)))))
                   else
                     (let b2 = b1\<lparr>bk_outstanding := bk_outstanding b1 + 1,
                            bk_activeCount := (if willQueue then bk_activeCount b1 else bk_activeCount b1 + 1)\<rparr>;
                          (g', permit) = gate_acquire (JNum w) signal g
                      in ((bulk_setGate p g' b2)\<lparr>bk_tasks := bk_tasks b2 @
                            [\<lparr>bt_partition = p, bt_queued = willQueue, bt_tried = False, bt_permit = permit, bt_phase = Waiting\<rparr>]\<rparr>,
                          Inr (RunTask (length (bk_tasks b2)))))))))"

text \<open>\<open>tryRun\<close>: \<open>RunRefused\<close> is \<open>null\<close>.\<close>

definition bulk_tryRun ::
  "bool \<Rightarrow> js_val \<Rightarrow> string option \<Rightarrow> js_num \<Rightarrow> bulkhead \<Rightarrow> (bulkhead, run_answer) step" where
  "bulk_tryRun isfun weight key chosen b =
     (if \<not> isfun then (b, Inl (TypeErr ''PowerBulkhead'' ''task''))
      else case bulk_weight weight of
        Inl e \<Rightarrow> (b, Inl e)
      | Inr w \<Rightarrow>
          (let (b1, r) = bulk_choosePartition key chosen b in
           case bucket_index r b1 of
             None \<Rightarrow> (b1, Inl (TypeErr ''PowerBulkhead'' ''bucket''))
           | Some p \<Rightarrow>
               (case gate_tryAcquire (JNum w) (bulk_gate b1 p) of
                  (g', Inl e) \<Rightarrow> (bulk_setGate p g' b1, Inl e)
                | (g', Inr None) \<Rightarrow> (bulk_setGate p g' b1, Inr RunRefused)
                | (g', Inr (Some l)) \<Rightarrow>
                    ((bulk_setGate p g' b1)\<lparr>bk_outstanding := bk_outstanding b1 + 1, bk_activeCount := bk_activeCount b1 + 1,
                       bk_tasks := bk_tasks b1 @ [\<lparr>bt_partition = p, bt_queued = False, bt_tried = True,
                         bt_permit = AcqGranted l, bt_phase = Running l\<rparr>]\<rparr>,
                     Inr (RunTask (length (bk_tasks b1)))))))"

text \<open>How a permit's promise stands: \<open>None\<close> while it is pending.\<close>

definition permit_state :: "gate \<Rightarrow> acquired \<Rightarrow> settlement option" where
  "permit_state g a =
     (case a of AcqGranted l \<Rightarrow> Some (Granted l) | AcqRejected e \<Rightarrow> Some (RejectedWith e) | AcqPending i \<Rightarrow> map_of (g_log g) i)"

definition set_phase :: "nat \<Rightarrow> phase \<Rightarrow> bulkhead \<Rightarrow> bulkhead" where
  "set_phase t ph b = b\<lparr>bk_tasks := (bk_tasks b)[t := (bk_tasks b ! t)\<lparr>bt_phase := ph\<rparr>]\<rparr>"

definition active_less :: "bulkhead \<Rightarrow> bulkhead" where
  "active_less b = b\<lparr>bk_activeCount := max 0 (bk_activeCount b - 1)\<rparr>"

text \<open>The reaction to the permit of task \<open>t\<close>: the task starts, or its promise is rejected.\<close>

definition bulk_permit :: "nat \<Rightarrow> bulkhead \<Rightarrow> bulkhead" where
  "bulk_permit t b =
     (if t < length (bk_tasks b) \<and> bt_phase (bk_tasks b ! t) = Waiting then
        (let x = bk_tasks b ! t in
         case permit_state (bulk_gate b (bt_partition x)) (bt_permit x) of
           None \<Rightarrow> b
         | Some (Granted l) \<Rightarrow>
             set_phase t (Running l) (if bt_queued x then b\<lparr>bk_activeCount := bk_activeCount b + 1\<rparr> else b)
         | Some (RejectedWith e) \<Rightarrow>
             set_phase t Leaving (bulk_resolveDrainWaitersIfIdle (if bt_queued x then b else active_less b)))
      else b)"

text \<open>The task settles: its permit is released; \<open>tryRun\<close> leaves at once, \<open>run\<close> has a \<open>finally\<close> to go.\<close>

definition bulk_taskDone :: "nat \<Rightarrow> bulkhead \<Rightarrow> bulkhead" where
  "bulk_taskDone t b =
     (if t < length (bk_tasks b) then
        (let x = bk_tasks b ! t; p = bt_partition x in
         case bt_phase x of
           Running l \<Rightarrow>
             (let b1 = active_less (bulk_setGate p (gate_callRelease l (bulk_gate b p)) b) in
              if bt_tried x
              then set_phase t Left (bulk_resolveDrainWaitersIfIdle (b1\<lparr>bk_outstanding := max 0 (bk_outstanding b1 - 1)\<rparr>))
              else set_phase t Leaving (bulk_resolveDrainWaitersIfIdle b1))
         | _ \<Rightarrow> b)
      else b)"

definition bulk_finally :: "nat \<Rightarrow> bulkhead \<Rightarrow> bulkhead" where
  "bulk_finally t b =
     (if t < length (bk_tasks b) \<and> bt_phase (bk_tasks b ! t) = Leaving then
        set_phase t Left (bulk_resolveDrainWaitersIfIdle (b\<lparr>bk_outstanding := max 0 (bk_outstanding b - 1)\<rparr>))
      else b)"

text \<open>The signal of a queued task aborts.\<close>

definition bulk_abort :: "nat \<Rightarrow> bulkhead \<Rightarrow> bulkhead" where
  "bulk_abort t b =
     (if t < length (bk_tasks b) then
        (let x = bk_tasks b ! t in
         case bt_permit x of
           AcqPending i \<Rightarrow> bulk_setGate (bt_partition x) (gate_abort i (bulk_gate b (bt_partition x))) b
         | _ \<Rightarrow> b)
      else b)"

text \<open>\<open>reset\<close>; \<open>available\<close> is \<open>Number(options.available)\<close>.\<close>

definition bulk_reset :: "js_num \<Rightarrow> bulkhead \<Rightarrow> bulkhead" where
  "bulk_reset available b =
     (let a = (case available of Fin r \<Rightarrow> of_int (max 0 \<lfloor>r\<rfloor>) | _ \<Rightarrow> bk_maxConcurrency b)
      in bulk_resolveDrainWaitersIfIdle
           (b\<lparr>bk_shed := 0,
              bk_buckets := map (\<lambda>x. \<lparr>bb_shed = 0, bb_gate = gate_reset (Some a) (bb_gate x)\<rparr>) (bk_buckets b)\<rparr>))"

definition bulk_dispose :: "js_num \<Rightarrow> bulkhead \<Rightarrow> bulkhead" where
  "bulk_dispose available b = bulk_reset available b"

section \<open>Queries\<close>

definition bulk_pending :: "bulkhead \<Rightarrow> int" where
  "bulk_pending b = foldl (\<lambda>total x. total + gate_pending (bb_gate x)) 0 (bk_buckets b)"

definition bulk_isFull :: "bulkhead \<Rightarrow> bool" where
  "bulk_isFull b \<longleftrightarrow> list_all (\<lambda>x. \<not> of_int (gate_pending (bb_gate x)) < bk_queueCapacity b) (bk_buckets b)"

record partition_stats =
  ps_active :: rat
  ps_pending :: int
  ps_saturated :: bool
  ps_shed :: nat

record bulk_stats =
  bs_active :: int
  bs_pending :: int
  bs_saturated :: bool
  bs_pressure :: rat
  bs_shed :: nat
  bs_partitionStates :: "partition_stats list"

definition bulk_stats_of :: "bulkhead \<Rightarrow> bulk_stats" where
  "bulk_stats_of b =
     \<lparr>bs_active = bk_activeCount b, bs_pending = bulk_pending b, bs_saturated = bulk_isFull b,
      bs_pressure = min 1 (max (of_int (bk_activeCount b) / max 1 (bk_maxConcurrency b))
                               (of_int (bulk_pending b) / max 1 (bk_queueCapacity b))),
      bs_shed = bk_shed b,
      bs_partitionStates = map (\<lambda>x. \<lparr>ps_active = max 0 (bk_maxConcurrency b - of_int (g_available (bb_gate x))),
          ps_pending = gate_pending (bb_gate x), ps_saturated = (bk_queueCapacity b \<le> of_int (gate_pending (bb_gate x))),
          ps_shed = bb_shed x\<rparr>) (bk_buckets b)\<rparr>"

section \<open>How a gate grows\<close>

definition log_leases :: "(nat \<times> settlement) list \<Rightarrow> nat list" where
  "log_leases lg = concat (map (\<lambda>x. case snd x of Granted l \<Rightarrow> [l] | RejectedWith e \<Rightarrow> []) lg)"

lemma log_leases_simps [simp]:
  "log_leases [] = []" "log_leases ((i, Granted l) # lg) = l # log_leases lg"
  "log_leases ((i, RejectedWith e) # lg) = log_leases lg" "log_leases (xs @ ys) = log_leases xs @ log_leases ys"
  by (simp_all add: log_leases_def)

lemma log_leases_rejected [simp]: "log_leases (map (\<lambda>x. (f x, RejectedWith e)) xs) = []"
  by (induction xs) simp_all

lemma log_leases_zip: "length is = length ls \<Longrightarrow> log_leases (zip is (map Granted ls)) = ls"
  by (induction "is" ls rule: list_induct2) simp_all

lemma log_leases_mem: "(i, Granted l) \<in> set lg \<Longrightarrow> l \<in> set (log_leases lg)"
  by (force simp: log_leases_def)

text \<open>
  From \<open>g\<close> to \<open>g'\<close> promises stay settled, new release callbacks are fresh and uncalled, and of the
  old ones at most \<open>rel\<close> is called.
\<close>

definition gate_grows :: "nat option \<Rightarrow> gate \<Rightarrow> gate \<Rightarrow> bool" where
  "gate_grows rel g g' \<longleftrightarrow>
     (\<exists>ys. g_log g' = g_log g @ ys \<and> distinct (log_leases ys)
        \<and> (\<forall>l\<in>set (log_leases ys). length (g_leases g) \<le> l \<and> l < length (g_leases g'))
        \<and> (\<forall>x\<in>set ys. fst x < length (g_entries g')))
     \<and> length (g_leases g) \<le> length (g_leases g') \<and> length (g_entries g) \<le> length (g_entries g')
     \<and> g_capacity g' = g_capacity g \<and> g_className g' = g_className g
     \<and> (\<forall>l<length (g_leases g'). if l < length (g_leases g) then l_weight (g_leases g' ! l) = l_weight (g_leases g ! l)
            \<and> (l_released (g_leases g' ! l) \<longrightarrow> l_released (g_leases g ! l) \<or> rel = Some l)
          else \<not> l_released (g_leases g' ! l))"

lemma gate_growsI:
  assumes "g_log g' = g_log g @ ys" "distinct (log_leases ys)"
    "\<forall>l\<in>set (log_leases ys). length (g_leases g) \<le> l \<and> l < length (g_leases g')"
    "g_leases g' = ls @ new" "length ls = length (g_leases g)" "\<forall>x\<in>set new. \<not> l_released x"
    "\<forall>l<length ls. l_weight (ls ! l) = l_weight (g_leases g ! l) \<and> (l_released (ls ! l) \<longrightarrow> l_released (g_leases g ! l) \<or> rel = Some l)"
    "length (g_entries g) \<le> length (g_entries g')" "g_capacity g' = g_capacity g" "g_className g' = g_className g"
    "\<forall>x\<in>set ys. fst x < length (g_entries g')"
  shows "gate_grows rel g g'"
  unfolding gate_grows_def
proof (intro conjI allI impI)
  show "\<exists>ys. g_log g' = g_log g @ ys \<and> distinct (log_leases ys)
        \<and> (\<forall>l\<in>set (log_leases ys). length (g_leases g) \<le> l \<and> l < length (g_leases g'))
        \<and> (\<forall>x\<in>set ys. fst x < length (g_entries g'))"
    using assms(1-3,11) by blast
  show "if l < length (g_leases g) then l_weight (g_leases g' ! l) = l_weight (g_leases g ! l)
            \<and> (l_released (g_leases g' ! l) \<longrightarrow> l_released (g_leases g ! l) \<or> rel = Some l)
          else \<not> l_released (g_leases g' ! l)" if "l < length (g_leases g')" for l
  proof (cases "l < length ls")
    case True
    then show ?thesis using assms(4,5,7) by (simp add: nth_append)
  next
    case False
    then have "g_leases g' ! l = new ! (l - length ls)" "l - length ls < length new" using assms(4) that by (simp_all add: nth_append)
    then show ?thesis using assms(5,6) False by simp
  qed
qed (use assms in simp_all)

lemma gate_grows_refl [simp]: "gate_grows rel g g"
  by (rule gate_growsI [where ys = "[]" and new = "[]" and ls = "g_leases g"]) simp_all

lemma gate_grows_same:
  assumes "g_log g' = g_log g @ ys" "log_leases ys = []" "g_leases g' = g_leases g" "length (g_entries g) \<le> length (g_entries g')"
    "g_capacity g' = g_capacity g" "g_className g' = g_className g" "\<forall>x\<in>set ys. fst x < length (g_entries g')"
  shows "gate_grows rel g g'"
  by (rule gate_growsI [where ys = ys and new = "[]" and ls = "g_leases g"]) (use assms in simp_all)

lemma gate_grows_grant: "gate_grows rel g (fst (gate_grant w g))"
  by (rule gate_growsI [where ys = "[]" and new = "[\<lparr>l_weight = w, l_released = False\<rparr>]" and ls = "g_leases g"])
    (simp_all add: gate_grant_def gate_makeRelease_def)

lemma gate_acquire_grows:
  assumes inv: "gate_inv ws g"
  shows "gate_grows rel g (fst (gate_acquire v sg g))"
proof (cases "assertLimitRequired v (weight_spec (g_className g))")
  case (Inl e)
  then show ?thesis by (simp add: gate_acquire_def)
next
  case (Inr n)
  from gate_acquire_effect [OF inv Inr, of sg] show ?thesis
  proof (elim disjE conjE exE)
    fix q' assume "fst (gate_acquire v sg g) = g\<lparr>g_waiters := q', g_entries := g_entries g @
         [\<lparr>e_cancelled = False, e_settled = False, e_listening = (sg \<noteq> None)\<rparr>]\<rparr>"
    then show ?thesis by (intro gate_grows_same [where ys = "[]"]) simp_all
  qed (simp_all add: gate_grows_grant)
qed

lemma gate_tryAcquire_grows: "gate_grows rel g (fst (gate_tryAcquire v g))"
  by (auto simp: gate_tryAcquire_def Let_def case_prod_unfold gate_grows_grant split: sum.split)

lemma gate_callRelease_grows:
  assumes inv: "gate_inv ws g"
  shows "gate_grows (Some l) g (gate_callRelease l g)"
proof (cases "l < length (g_leases g) \<and> \<not> l_released (g_leases g ! l)")
  case False
  then have "gate_callRelease l g = g" by (auto simp: gate_callRelease_def)
  then show ?thesis by simp
next
  case True
  let ?g' = "gate_callRelease l g" and ?n = "length (g_leases g)"
  obtain gr rest k where s: "serve_spec (\<lambda>i. e_cancelled (gate_entry g i)) (l_weight (g_leases g ! l)) ws = (gr, rest, k)"
    by (metis prod_cases3)
  let ?g0 = "g\<lparr>g_leases := (g_leases g)[l := (g_leases g ! l)\<lparr>l_released := True\<rparr>]\<rparr>"
  have r: "served_state gr rest k ?g0 (?g'\<lparr>g_available := g_available g, g_held := g_held g\<rparr>)"
    using gate_callRelease_spec [OF inv _ _ s] True by auto
  have f: "g_leases ?g' = (g_leases g)[l := (g_leases g ! l)\<lparr>l_released := True\<rparr>] @ map (\<lambda>x. \<lparr>l_weight = snd x, l_released = False\<rparr>) gr"
    "g_log ?g' = g_log g @ zip (map fst gr) (map Granted [?n..<?n + length gr])"
    "length (g_entries ?g') = length (g_entries g)" "g_capacity ?g' = g_capacity g" "g_className ?g' = g_className g"
    using r by (simp_all add: served_state_def same_config_def)
  have "set gr \<subseteq> set ws" using serve_spec_suffix [OF s] by auto
  then have ids: "\<forall>x\<in>set gr. fst x < length (g_entries g)" using inv by (auto simp: gate_inv_def)
  have "fst x \<in> fst ` set gr" if "x \<in> set (zip (map fst gr) (map Granted [?n..<?n + length gr]))" for x
    using set_zip_leftD [of "fst x" "snd x" "map fst gr"] that by simp
  then have ids': "\<forall>x\<in>set (zip (map fst gr) (map Granted [?n..<?n + length gr])). fst x < length (g_entries ?g')"
    using ids f(3) by fastforce
  show ?thesis
    by (rule gate_growsI [OF f(2) _ _ f(1) _ _ _ _ _ _ ids']) (use True in \<open>simp_all add: f log_leases_zip nth_list_update\<close>)
qed

lemma gate_abort_grows: "gate_grows rel g (gate_abort i g)"
proof -
  have e: "length (g_entries (gate_abort i g)) = length (g_entries g)" by (simp add: gate_abort_def)
  have "\<exists>ys. g_log (gate_abort i g) = g_log g @ ys \<and> log_leases ys = [] \<and> (\<forall>x\<in>set ys. fst x < length (g_entries g))"
    by (auto simp: gate_abort_def)
  then obtain ys where ys: "g_log (gate_abort i g) = g_log g @ ys" "log_leases ys = []" "\<forall>x\<in>set ys. fst x < length (g_entries g)" by blast
  show ?thesis by (rule gate_grows_same [OF ys(1,2)]) (simp_all add: gate_abort_def ys(3) [unfolded e [symmetric]] e [unfolded gate_abort_def] ys(3))
qed

lemma gate_reset_grows:
  assumes inv: "gate_inv ws g"
  shows "gate_grows rel g (gate_reset a g)"
proof (cases "g_resetInert g")
  case True
  then show ?thesis by (simp add: gate_reset_def)
next
  case False
  have rep: "queue_rep waiter_wt (g_waiters g) ws" using inv by (simp add: gate_inv_def)
  let ?g1 = "gate_rejectAll ResetError g" and ?ys = "map (\<lambda>x. (fst x, RejectedWith ResetError)) ws"
  have g1: "?g1 = g\<lparr>g_waiters := g_waiters ?g1, g_log := g_log g @ ?ys\<rparr>"
    using gate_rejectAll_spec [OF rep] by blast
  have "g_log ?g1 = g_log g @ ?ys" "g_leases ?g1 = g_leases g" "g_entries ?g1 = g_entries g" "g_capacity ?g1 = g_capacity g"
    "g_className ?g1 = g_className g"
    by (subst g1, simp)+
  then show ?thesis using False
    by (intro gate_grows_same [where ys = "?ys"])
      (use inv in \<open>simp_all add: gate_reset_def gate_inv_def Let_def split: option.split\<close>)
qed

text \<open>What an answer of \<open>acquire\<close> names is fresh.\<close>

lemma gate_acquire_granted:
  assumes "gate_acquire v sg g = (g', AcqGranted l)"
  shows "l = length (g_leases g) \<and> length (g_leases g') = Suc l \<and> g_log g' = g_log g"
  using assms by (auto simp: gate_acquire_def Let_def gate_grant_def gate_makeRelease_def split: sum.splits if_splits prod.splits)

lemma gate_acquire_pending:
  assumes "gate_acquire v sg g = (g', AcqPending i)"
  shows "i = length (g_entries g) \<and> length (g_entries g') = Suc i"
  using assms by (auto simp: gate_acquire_def Let_def gate_grant_def gate_makeRelease_def split: sum.splits if_splits prod.splits)

lemma gate_tryAcquire_granted:
  assumes "gate_tryAcquire v g = (g', Inr (Some l))"
  shows "l = length (g_leases g) \<and> length (g_leases g') = Suc l \<and> g_log g' = g_log g"
  using assms unfolding gate_tryAcquire_def Let_def
  by (auto simp: gate_grant_def gate_makeRelease_def split: sum.splits if_splits)

section \<open>The permits of the tasks\<close>

definition log_ok :: "gate \<Rightarrow> bool" where
  "log_ok g \<longleftrightarrow> distinct (log_leases (g_log g)) \<and> (\<forall>l\<in>set (log_leases (g_log g)). l < length (g_leases g))
     \<and> (\<forall>x\<in>set (g_log g). fst x < length (g_entries g))"

lemma log_ok_grows:
  assumes "log_ok g" "gate_grows rel g g'"
  shows "log_ok g'"
proof -
  obtain ys where y: "g_log g' = g_log g @ ys" "distinct (log_leases ys)"
    "\<forall>l\<in>set (log_leases ys). length (g_leases g) \<le> l \<and> l < length (g_leases g')" "length (g_leases g) \<le> length (g_leases g')"
    "\<forall>x\<in>set ys. fst x < length (g_entries g')" "length (g_entries g) \<le> length (g_entries g')"
    using assms(2) unfolding gate_grows_def by blast
  then show ?thesis using assms(1) unfolding log_ok_def by (simp add: ball_Un) (meson disjoint_iff leD less_le_trans)
qed

lemma log_once:
  "distinct (log_leases lg) \<Longrightarrow> (i, Granted l) \<in> set lg \<Longrightarrow> (j, Granted l) \<in> set lg \<Longrightarrow> i = j"
proof (induction lg)
  case (Cons x lg)
  obtain k s where x: "x = (k, s)" by (cases x)
  show ?case
    using Cons log_leases_mem [of _ l lg] by (cases s) (auto simp: x)
qed simp

lemma permit_state_keeps:
  "gate_grows rel g g' \<Longrightarrow> permit_state g a = Some x \<Longrightarrow> permit_state g' a = Some x"
  by (auto simp: permit_state_def gate_grows_def map_add_Some_iff split: acquired.splits)

lemma permit_state_new:
  assumes "gate_grows rel g g'" "permit_state g' a = Some (Granted l)"
  shows "permit_state g a = Some (Granted l) \<or> length (g_leases g) \<le> l \<and> l < length (g_leases g')"
proof -
  obtain ys where y: "g_log g' = g_log g @ ys"
    "\<forall>l\<in>set (log_leases ys). length (g_leases g) \<le> l \<and> l < length (g_leases g')"
    using assms(1) unfolding gate_grows_def by blast
  show ?thesis
  proof (cases a)
    case (AcqPending i)
    then have "map_of (g_log g) i = Some (Granted l) \<or> map_of ys i = Some (Granted l)"
      using assms(2) y(1) by (auto simp: permit_state_def map_add_Some_iff)
    then show ?thesis using y(2) log_leases_mem map_of_SomeD AcqPending by (fastforce simp: permit_state_def)
  qed (use assms(2) in \<open>simp_all add: permit_state_def\<close>)
qed

definition inside :: "btask \<Rightarrow> bool" where
  "inside t \<longleftrightarrow> bt_phase t \<noteq> Leaving \<and> bt_phase t \<noteq> Left"

definition task_gate :: "gate \<Rightarrow> btask \<Rightarrow> bool" where
  "task_gate g t \<longleftrightarrow>
     (case bt_permit t of AcqGranted l \<Rightarrow> l < length (g_leases g) \<and> l \<notin> set (log_leases (g_log g))
        | AcqPending i \<Rightarrow> i < length (g_entries g) | AcqRejected e \<Rightarrow> True)
     \<and> (inside t \<longrightarrow> (\<forall>l. permit_state g (bt_permit t) = Some (Granted l) \<longrightarrow> \<not> l_released (g_leases g ! l)))
     \<and> (\<forall>l. bt_phase t = Running l \<longrightarrow> permit_state g (bt_permit t) = Some (Granted l))"

lemma task_gate_lease:
  assumes "task_gate g t" "log_ok g" "permit_state g (bt_permit t) = Some (Granted l)"
  shows "l < length (g_leases g)"
  using assms log_leases_mem map_of_SomeD
  by (fastforce simp: task_gate_def log_ok_def permit_state_def split: acquired.splits)

lemma task_gate_grows:
  assumes t: "task_gate g t" "log_ok g" and gr: "gate_grows rel g g'"
    and rel: "\<And>l. rel = Some l \<Longrightarrow> inside t \<Longrightarrow> permit_state g (bt_permit t) \<noteq> Some (Granted l)"
  shows "task_gate g' t"
  unfolding task_gate_def
proof (intro conjI allI impI)
  obtain ys where y: "g_log g' = g_log g @ ys"
    "\<forall>l\<in>set (log_leases ys). length (g_leases g) \<le> l \<and> l < length (g_leases g')"
    "length (g_leases g) \<le> length (g_leases g')" "length (g_entries g) \<le> length (g_entries g')"
    using gr unfolding gate_grows_def by blast
  show "case bt_permit t of AcqGranted l \<Rightarrow> l < length (g_leases g') \<and> l \<notin> set (log_leases (g_log g'))
        | AcqPending i \<Rightarrow> i < length (g_entries g') | AcqRejected e \<Rightarrow> True"
    using t(1) y by (force simp: task_gate_def split: acquired.splits)
  have rl: "if l < length (g_leases g) then l_released (g_leases g' ! l) \<longrightarrow> l_released (g_leases g ! l) \<or> rel = Some l
      else \<not> l_released (g_leases g' ! l)" if "l < length (g_leases g')" for l
    using gr that unfolding gate_grows_def by (auto split: if_splits)
  show "\<not> l_released (g_leases g' ! l)" if "inside t" "permit_state g' (bt_permit t) = Some (Granted l)" for l
    using permit_state_new [OF gr that(2)]
  proof
    assume old: "permit_state g (bt_permit t) = Some (Granted l)"
    have "l < length (g_leases g)" by (rule task_gate_lease [OF t old])
    moreover have "\<not> l_released (g_leases g ! l)" using t(1) that(1) old by (simp add: task_gate_def)
    ultimately show ?thesis using rl [of l] rel [of l] that(1) old y(3) by (auto split: if_splits)
  next
    assume "length (g_leases g) \<le> l \<and> l < length (g_leases g')"
    then show ?thesis using rl [of l] by simp
  qed
  show "permit_state g' (bt_permit t) = Some (Granted l)" if "bt_phase t = Running l" for l
    using t(1) that permit_state_keeps [OF gr] by (simp add: task_gate_def)
qed

lemma permit_pending_mem: "permit_state g (AcqPending i) = Some (Granted l) \<Longrightarrow> (i, Granted l) \<in> set (g_log g)"
  by (simp add: permit_state_def map_of_SomeD)

definition permits_differ :: "btask \<Rightarrow> btask \<Rightarrow> bool" where
  "permits_differ t u \<longleftrightarrow> bt_partition t \<noteq> bt_partition u \<or> bt_permit t \<noteq> bt_permit u \<or> (\<exists>e. bt_permit t = AcqRejected e)"

lemma permits_differ_lease:
  assumes "permits_differ t u" "bt_partition t = bt_partition u" "task_gate g t" "task_gate g u" "log_ok g"
    "permit_state g (bt_permit t) = Some (Granted l)"
  shows "permit_state g (bt_permit u) \<noteq> Some (Granted l)"
proof
  assume u: "permit_state g (bt_permit u) = Some (Granted l)"
  have d: "distinct (log_leases (g_log g))" using assms(5) by (simp add: log_ok_def)
  have p: "bt_permit t \<noteq> bt_permit u" using assms(1,2,6) by (auto simp: permits_differ_def permit_state_def)
  show False
  proof (cases "bt_permit t")
    case (AcqGranted i)
    then have i: "i = l" "l \<notin> set (log_leases (g_log g))" using assms(3,6) by (auto simp: permit_state_def task_gate_def)
    show False using i p u AcqGranted permit_pending_mem [of g _ l] log_leases_mem by (cases "bt_permit u") (auto simp: permit_state_def)
  next
    case (AcqPending i)
    then have i: "(i, Granted l) \<in> set (g_log g)" using assms(6) permit_pending_mem by simp
    show False
    proof (cases "bt_permit u")
      case (AcqGranted j)
      then have "j = l" "l \<notin> set (log_leases (g_log g))" using assms(4) u by (auto simp: permit_state_def task_gate_def)
      then show False using log_leases_mem [OF i] by blast
    next
      case (AcqPending j)
      then have "(j, Granted l) \<in> set (g_log g)" using u permit_pending_mem by simp
      then have "i = j" by (rule log_once [OF d i])
      then show False using p AcqPending \<open>bt_permit t = AcqPending i\<close> by simp
    qed (use u in \<open>simp add: permit_state_def\<close>)
  qed (use assms(6) in \<open>simp add: permit_state_def\<close>)
qed

definition perm_inv :: "rat \<Rightarrow> bucket list \<Rightarrow> btask list \<Rightarrow> bool" where
  "perm_inv m bs ts \<longleftrightarrow>
     (\<forall>x\<in>set bs. (\<exists>ws. gate_inv ws (bb_gate x)) \<and> log_ok (bb_gate x) \<and> of_int (g_capacity (bb_gate x)) = m)
     \<and> (\<forall>t\<in>set ts. bt_partition t < length bs \<and> task_gate (bb_gate (bs ! bt_partition t)) t)
     \<and> (\<forall>i<length ts. \<forall>j<i. permits_differ (ts ! j) (ts ! i))"

lemma perm_inv_gate:
  "perm_inv m bs ts \<Longrightarrow> p < length bs \<Longrightarrow> (\<exists>ws. gate_inv ws (bb_gate (bs ! p))) \<and> log_ok (bb_gate (bs ! p)) \<and> of_int (g_capacity (bb_gate (bs ! p))) = m"
  by (simp add: perm_inv_def)

lemma perm_swap:
  assumes inv: "perm_inv m bs ts" and p: "p < length bs" and g: "gate_grows rel (bb_gate (bs ! p)) g'" "gate_inv ws g'"
    and rel: "\<And>l t. rel = Some l \<Longrightarrow> t \<in> set ts \<Longrightarrow> bt_partition t = p \<Longrightarrow> inside t \<Longrightarrow>
      permit_state (bb_gate (bs ! p)) (bt_permit t) \<noteq> Some (Granted l)"
    and b': "bb_gate b' = g'"
  shows "perm_inv m (bs[p := b']) ts"
proof -
  note old = perm_inv_gate [OF inv p]
  have new: "log_ok g'" "of_int (g_capacity g') = m"
    using log_ok_grows [OF _ g(1)] old g(1) by (auto simp: gate_grows_def)
  have "(\<exists>ws. gate_inv ws (bb_gate x)) \<and> log_ok (bb_gate x) \<and> of_int (g_capacity (bb_gate x)) = m" if "x \<in> set (bs[p := b'])" for x
    using set_update_subset_insert [of bs p b'] that inv new g(2) b' unfolding perm_inv_def by blast
  moreover have "bt_partition t < length (bs[p := b']) \<and> task_gate (bb_gate (bs[p := b'] ! bt_partition t)) t" if t: "t \<in> set ts" for t
  proof -
    have o: "bt_partition t < length bs" "task_gate (bb_gate (bs ! bt_partition t)) t" using inv t by (simp_all add: perm_inv_def)
    show ?thesis
    proof (cases "bt_partition t = p")
      case True
      have "task_gate g' t" by (rule task_gate_grows [OF _ _ g(1)]) (use o old rel t True in auto)
      then show ?thesis using True p b' by simp
    qed (use o in simp)
  qed
  ultimately show ?thesis using inv by (simp add: perm_inv_def)
qed

lemma perm_phase:
  assumes inv: "perm_inv m bs ts" and i: "i < length ts"
    and ph: "\<And>l. ph = Running l \<Longrightarrow> inside (ts ! i) \<and> permit_state (bb_gate (bs ! bt_partition (ts ! i))) (bt_permit (ts ! i)) = Some (Granted l)"
      "ph = Waiting \<Longrightarrow> inside (ts ! i)"
  shows "perm_inv m bs (ts[i := (ts ! i)\<lparr>bt_phase := ph\<rparr>])"
proof -
  let ?t = "(ts ! i)\<lparr>bt_phase := ph\<rparr>"
  have old: "bt_partition (ts ! i) < length bs" "task_gate (bb_gate (bs ! bt_partition (ts ! i))) (ts ! i)"
    using inv i by (simp_all add: perm_inv_def)
  have "inside ?t \<longrightarrow> inside (ts ! i)" using ph by (cases ph) (auto simp: inside_def)
  then have "task_gate (bb_gate (bs ! bt_partition ?t)) ?t" using old(2) ph by (auto simp: task_gate_def)
  then have "bt_partition t < length bs \<and> task_gate (bb_gate (bs ! bt_partition t)) t" if "t \<in> set (ts[i := ?t])" for t
    using set_update_subset_insert [of ts i ?t] that inv old(1) unfolding perm_inv_def by auto
  moreover have "permits_differ (ts[i := ?t] ! k) (ts[i := ?t] ! j)" if "j < length ts" "k < j" for j k
  proof -
    have "permits_differ (ts ! k) (ts ! j)" using inv that by (simp add: perm_inv_def)
    then show ?thesis using i that by (auto simp: nth_list_update permits_differ_def)
  qed
  ultimately show ?thesis using inv by (simp add: perm_inv_def)
qed

lemma perm_add:
  assumes inv: "perm_inv m bs ts" and p: "bt_partition t < length bs" "task_gate (bb_gate (bs ! bt_partition t)) t"
    and d: "\<And>u. u \<in> set ts \<Longrightarrow> permits_differ u t"
  shows "perm_inv m bs (ts @ [t])"
  using assms by (auto simp: perm_inv_def nth_append less_Suc_eq)

lemma perm_others:
  assumes inv: "perm_inv m bs ts" and i: "i < length ts" "permit_state (bb_gate (bs ! bt_partition (ts ! i))) (bt_permit (ts ! i)) = Some (Granted l)"
    and u: "j < length ts" "j \<noteq> i" "bt_partition (ts ! j) = bt_partition (ts ! i)"
  shows "permit_state (bb_gate (bs ! bt_partition (ts ! i))) (bt_permit (ts ! j)) \<noteq> Some (Granted l)"
proof -
  let ?g = "bb_gate (bs ! bt_partition (ts ! i))"
  have all: "bt_partition t < length bs \<and> task_gate (bb_gate (bs ! bt_partition t)) t" if "t \<in> set ts" for t
    using inv that by (simp add: perm_inv_def)
  have g: "task_gate ?g (ts ! i)" "task_gate ?g (ts ! j)" "bt_partition (ts ! i) < length bs"
    using all [OF nth_mem [OF i(1)]] all [OF nth_mem [OF u(1)]] u(3) by simp_all
  have lg: "log_ok ?g" using perm_inv_gate [OF inv g(3)] by simp
  have "permits_differ (ts ! i) (ts ! j) \<or> permits_differ (ts ! j) (ts ! i)"
    using inv i(1) u(1,2) by (cases "i < j") (simp_all add: perm_inv_def)
  then show ?thesis
    using permits_differ_lease [OF _ u(3) [symmetric] g(1,2) lg i(2)] permits_differ_lease [OF _ u(3) g(2,1) lg] i(2) by blast
qed

section \<open>The counters\<close>

definition is_active :: "btask \<Rightarrow> bool" where
  "is_active t \<longleftrightarrow> \<not> bt_queued t \<and> bt_phase t = Waiting \<or> (\<exists>l. bt_phase t = Running l)"

definition owed_task :: "btask \<Rightarrow> bool" where
  "owed_task t \<longleftrightarrow> bt_phase t \<noteq> Left"

definition bulk_inv :: "bulkhead \<Rightarrow> bool" where
  "bulk_inv b \<longleftrightarrow> perm_inv (bk_maxConcurrency b) (bk_buckets b) (bk_tasks b)
     \<and> bk_activeCount b = int (length (filter is_active (bk_tasks b)))
     \<and> bk_outstanding b = int (length (filter owed_task (bk_tasks b)))
     \<and> (\<exists>ds. queue_rep drain_wt (bk_drainWaiters b) ds \<and> (ds \<noteq> [] \<longrightarrow> bk_outstanding b \<noteq> 0))"

lemma filter_update_length:
  "i < length xs \<Longrightarrow> int (length (filter P (xs[i := y])))
     = int (length (filter P xs)) - (if P (xs ! i) then 1 else 0) + (if P y then 1 else 0)"
proof (induction xs arbitrary: i)
  case (Cons x xs)
  show ?case
  proof (cases i)
    case (Suc k)
    then show ?thesis using Cons.IH [of k] Cons.prems by (simp split: if_splits)
  qed simp
qed simp

lemma filter_member_pos: "i < length xs \<Longrightarrow> P (xs ! i) \<Longrightarrow> 1 \<le> int (length (filter P xs))"
  using nth_mem by (fastforce simp: filter_empty_conv Suc_le_eq)

lemma bulk_resolveAll_spec:
  "queue_rep drain_wt (bk_drainWaiters b) ds \<Longrightarrow>
     \<exists>q. bulk_resolveAll b = b\<lparr>bk_drainWaiters := q, bk_drained := bk_drained b @ ds\<rparr> \<and> queue_rep drain_wt q []"
proof (induction ds arbitrary: b)
  case Nil
  have "bulk_resolveAll b = b" using queue_rep_size [OF Nil] by (subst bulk_resolveAll.simps) simp
  then have "bulk_resolveAll b = b\<lparr>bk_drainWaiters := bk_drainWaiters b, bk_drained := bk_drained b @ []\<rparr>" by simp
  then show ?case using Nil by blast
next
  case (Cons d ds)
  have n: "0 < q_size (bk_drainWaiters b)" using queue_rep_size [OF Cons.prems] by simp
  obtain q where q: "queue_shift drain_wt (bk_drainWaiters b) = (q, Some d)" "queue_rep drain_wt q ds"
    using queue_shift_rep [OF Cons.prems] by blast
  from Cons.IH [of "b\<lparr>bk_drainWaiters := q, bk_drained := bk_drained b @ [d]\<rparr>"] q(2)
  show ?case using n q(1) by (subst bulk_resolveAll.simps) simp
qed

lemma bulk_resolve_spec:
  assumes "queue_rep drain_wt (bk_drainWaiters b) ds"
  shows "\<exists>q d ds'. bulk_resolveDrainWaitersIfIdle b = b\<lparr>bk_drainWaiters := q, bk_drained := bk_drained b @ d\<rparr>
    \<and> queue_rep drain_wt q ds' \<and> (ds' \<noteq> [] \<longrightarrow> bk_outstanding b \<noteq> 0) \<and> (d \<noteq> [] \<longrightarrow> bk_outstanding b = 0)"
proof (cases "bk_outstanding b = 0")
  case True
  then show ?thesis using bulk_resolveAll_spec [OF assms] by (auto simp: bulk_resolveDrainWaitersIfIdle_def)
next
  case False
  have "bulk_resolveDrainWaitersIfIdle b = b\<lparr>bk_drainWaiters := bk_drainWaiters b, bk_drained := bk_drained b @ []\<rparr>"
    using False by (simp add: bulk_resolveDrainWaitersIfIdle_def)
  then show ?thesis using assms False by blast
qed

text \<open>A task moves on, after the counters and the gates have been adjusted.\<close>

lemma bulk_moves:
  assumes "queue_rep drain_wt (bk_drainWaiters b) ds"
    and "perm_inv (bk_maxConcurrency b) (bk_buckets b) ((bk_tasks b)[t := (bk_tasks b ! t)\<lparr>bt_phase := ph\<rparr>])"
    and "bk_activeCount b = int (length (filter is_active ((bk_tasks b)[t := (bk_tasks b ! t)\<lparr>bt_phase := ph\<rparr>])))"
    and "bk_outstanding b = int (length (filter owed_task ((bk_tasks b)[t := (bk_tasks b ! t)\<lparr>bt_phase := ph\<rparr>])))"
  shows "bulk_inv (set_phase t ph (bulk_resolveDrainWaitersIfIdle b))"
    "\<exists>d. bk_drained (set_phase t ph (bulk_resolveDrainWaitersIfIdle b)) = bk_drained b @ d
       \<and> (d \<noteq> [] \<longrightarrow> bk_outstanding (set_phase t ph (bulk_resolveDrainWaitersIfIdle b)) = 0)"
proof -
  obtain q d ds' where r: "bulk_resolveDrainWaitersIfIdle b = b\<lparr>bk_drainWaiters := q, bk_drained := bk_drained b @ d\<rparr>"
    "queue_rep drain_wt q ds'" "ds' \<noteq> [] \<longrightarrow> bk_outstanding b \<noteq> 0" "d \<noteq> [] \<longrightarrow> bk_outstanding b = 0"
    using bulk_resolve_spec [OF assms(1)] by blast
  show "bulk_inv (set_phase t ph (bulk_resolveDrainWaitersIfIdle b))"
    using assms(2-4) r by (auto simp: bulk_inv_def set_phase_def)
  show "\<exists>d. bk_drained (set_phase t ph (bulk_resolveDrainWaitersIfIdle b)) = bk_drained b @ d
       \<and> (d \<noteq> [] \<longrightarrow> bk_outstanding (set_phase t ph (bulk_resolveDrainWaitersIfIdle b)) = 0)"
    using r by (simp add: set_phase_def)
qed

text \<open>The promises of \<open>drain\<close> an operation settles; when it settles one, nothing is outstanding.\<close>

definition drains_idle :: "bulkhead \<Rightarrow> bulkhead \<Rightarrow> bool" where
  "drains_idle b b' \<longleftrightarrow> bulk_inv b' \<and> bk_maxConcurrency b' = bk_maxConcurrency b
     \<and> length (bk_buckets b') = length (bk_buckets b)
     \<and> (\<exists>d. bk_drained b' = bk_drained b @ d \<and> (d \<noteq> [] \<longrightarrow> bk_outstanding b' = 0))"

lemma set_phase_keeps [simp]:
  "bk_maxConcurrency (set_phase t ph b) = bk_maxConcurrency b" "bk_buckets (set_phase t ph b) = bk_buckets b"
  by (simp_all add: set_phase_def)

lemma bulk_resolve_keeps:
  assumes "queue_rep drain_wt (bk_drainWaiters b) ds"
  shows "bk_maxConcurrency (bulk_resolveDrainWaitersIfIdle b) = bk_maxConcurrency b"
    "bk_buckets (bulk_resolveDrainWaitersIfIdle b) = bk_buckets b"
  using bulk_resolve_spec [OF assms] by auto

lemma bulk_moves_idle:
  assumes "queue_rep drain_wt (bk_drainWaiters b1) ds"
    and "perm_inv (bk_maxConcurrency b1) (bk_buckets b1) ((bk_tasks b1)[t := (bk_tasks b1 ! t)\<lparr>bt_phase := ph\<rparr>])"
    and "bk_activeCount b1 = int (length (filter is_active ((bk_tasks b1)[t := (bk_tasks b1 ! t)\<lparr>bt_phase := ph\<rparr>])))"
    and "bk_outstanding b1 = int (length (filter owed_task ((bk_tasks b1)[t := (bk_tasks b1 ! t)\<lparr>bt_phase := ph\<rparr>])))"
    and "bk_maxConcurrency b1 = bk_maxConcurrency b" "length (bk_buckets b1) = length (bk_buckets b)" "bk_drained b1 = bk_drained b"
  shows "drains_idle b (set_phase t ph (bulk_resolveDrainWaitersIfIdle b1))"
  using bulk_moves [OF assms(1-4)] bulk_resolve_keeps [OF assms(1)] assms(5-7) by (simp add: drains_idle_def)

lemma drains_idle_refl: "bulk_inv b \<Longrightarrow> drains_idle b b"
  by (auto simp: drains_idle_def)

lemma bulk_permit_ok:
  assumes inv: "bulk_inv b"
  shows "drains_idle b (bulk_permit t b)"
proof (cases "t < length (bk_tasks b) \<and> bt_phase (bk_tasks b ! t) = Waiting
    \<and> permit_state (bulk_gate b (bt_partition (bk_tasks b ! t))) (bt_permit (bk_tasks b ! t)) \<noteq> None")
  case False
  then have "bulk_permit t b = b" by (auto simp: bulk_permit_def Let_def)
  then show ?thesis using drains_idle_refl [OF inv] by simp
next
  case True
  let ?x = "bk_tasks b ! t"
  obtain st where st: "permit_state (bulk_gate b (bt_partition ?x)) (bt_permit ?x) = Some st" using True by blast
  have p: "perm_inv (bk_maxConcurrency b) (bk_buckets b) (bk_tasks b)" "bk_activeCount b = int (length (filter is_active (bk_tasks b)))"
    "bk_outstanding b = int (length (filter owed_task (bk_tasks b)))" using inv by (simp_all add: bulk_inv_def)
  obtain ds where ds: "queue_rep drain_wt (bk_drainWaiters b) ds" "ds \<noteq> [] \<longrightarrow> bk_outstanding b \<noteq> 0"
    using inv by (auto simp: bulk_inv_def)
  have w: "inside ?x" "owed_task ?x" "is_active ?x \<longleftrightarrow> \<not> bt_queued ?x" using True by (auto simp: inside_def owed_task_def is_active_def)
  show ?thesis
  proof (cases st)
    case (Granted l)
    define b1 where "b1 = (if bt_queued ?x then b\<lparr>bk_activeCount := bk_activeCount b + 1\<rparr> else b)"
    have b1: "bk_tasks b1 = bk_tasks b" "bk_buckets b1 = bk_buckets b" "bk_maxConcurrency b1 = bk_maxConcurrency b"
      "bk_outstanding b1 = bk_outstanding b" "bk_drainWaiters b1 = bk_drainWaiters b" "bk_drained b1 = bk_drained b"
      "bk_activeCount b1 = bk_activeCount b + (if bt_queued ?x then 1 else 0)" by (simp_all add: b1_def)
    have e: "bulk_permit t b = set_phase t (Running l) b1" using True st Granted by (simp add: bulk_permit_def Let_def b1_def)
    have pi: "perm_inv (bk_maxConcurrency b) (bk_buckets b) ((bk_tasks b)[t := ?x\<lparr>bt_phase := Running l\<rparr>])"
      by (rule perm_phase [OF p(1)]) (use True st Granted w in \<open>auto simp: bulk_gate_def\<close>)
    have c: "is_active (?x\<lparr>bt_phase := Running l\<rparr>)" "owed_task (?x\<lparr>bt_phase := Running l\<rparr>)" by (auto simp: is_active_def owed_task_def)
    have "bulk_inv (set_phase t (Running l) b1)"
      unfolding bulk_inv_def using pi p ds w c True by (auto simp: set_phase_def b1 filter_update_length)
    then show ?thesis by (simp add: e drains_idle_def b1 set_phase_def)
  next
    case (RejectedWith err)
    define b1 where "b1 = (if bt_queued ?x then b else active_less b)"
    have b1: "bk_tasks b1 = bk_tasks b" "bk_buckets b1 = bk_buckets b" "bk_maxConcurrency b1 = bk_maxConcurrency b"
      "bk_outstanding b1 = bk_outstanding b" "bk_drainWaiters b1 = bk_drainWaiters b" "bk_drained b1 = bk_drained b"
      "bk_activeCount b1 = (if bt_queued ?x then bk_activeCount b else max 0 (bk_activeCount b - 1))"
      by (simp_all add: b1_def active_less_def)
    have e: "bulk_permit t b = set_phase t Leaving (bulk_resolveDrainWaitersIfIdle b1)"
      using True st RejectedWith by (simp add: bulk_permit_def Let_def b1_def)
    have c: "\<not> is_active (?x\<lparr>bt_phase := Leaving\<rparr>)" "owed_task (?x\<lparr>bt_phase := Leaving\<rparr>)" by (auto simp: is_active_def owed_task_def)
    have pos: "\<not> bt_queued ?x \<Longrightarrow> 1 \<le> bk_activeCount b" using filter_member_pos [of t "bk_tasks b" is_active] True w p(2) by simp
    show ?thesis unfolding e
    proof (rule bulk_moves_idle)
      show "perm_inv (bk_maxConcurrency b1) (bk_buckets b1) ((bk_tasks b1)[t := (bk_tasks b1 ! t)\<lparr>bt_phase := Leaving\<rparr>])"
        unfolding b1 by (rule perm_phase [OF p(1)]) (use True in auto)
    qed (use ds p w c True pos in \<open>auto simp: b1 filter_update_length\<close>)
  qed
qed

lemma bulk_finally_ok:
  assumes inv: "bulk_inv b"
  shows "drains_idle b (bulk_finally t b)"
proof (cases "t < length (bk_tasks b) \<and> bt_phase (bk_tasks b ! t) = Leaving")
  case False
  then have "bulk_finally t b = b" by (auto simp: bulk_finally_def)
  then show ?thesis using drains_idle_refl [OF inv] by simp
next
  case True
  let ?x = "bk_tasks b ! t" and ?b1 = "b\<lparr>bk_outstanding := max 0 (bk_outstanding b - 1)\<rparr>"
  have p: "perm_inv (bk_maxConcurrency b) (bk_buckets b) (bk_tasks b)" "bk_activeCount b = int (length (filter is_active (bk_tasks b)))"
    "bk_outstanding b = int (length (filter owed_task (bk_tasks b)))" using inv by (simp_all add: bulk_inv_def)
  obtain ds where ds: "queue_rep drain_wt (bk_drainWaiters b) ds" using inv by (auto simp: bulk_inv_def)
  have w: "owed_task ?x" "\<not> is_active ?x" "\<not> is_active (?x\<lparr>bt_phase := Left\<rparr>)" "\<not> owed_task (?x\<lparr>bt_phase := Left\<rparr>)"
    using True by (auto simp: is_active_def owed_task_def)
  have pos: "1 \<le> bk_outstanding b" using filter_member_pos [of t "bk_tasks b" owed_task] True w p(3) by simp
  have "drains_idle b (set_phase t Left (bulk_resolveDrainWaitersIfIdle ?b1))"
  proof (rule bulk_moves_idle)
    show "perm_inv (bk_maxConcurrency ?b1) (bk_buckets ?b1) ((bk_tasks ?b1)[t := (bk_tasks ?b1 ! t)\<lparr>bt_phase := Left\<rparr>])"
      using perm_phase [OF p(1), of t Left] True by simp
  qed (use ds p w True pos in \<open>auto simp: filter_update_length\<close>)
  then show ?thesis using True by (simp add: bulk_finally_def)
qed

lemma bulk_taskDone_ok:
  assumes inv: "bulk_inv b"
  shows "drains_idle b (bulk_taskDone t b)"
proof (cases "t < length (bk_tasks b) \<and> (\<exists>l. bt_phase (bk_tasks b ! t) = Running l)")
  case False
  then have "bulk_taskDone t b = b" by (cases "bt_phase (bk_tasks b ! t)") (auto simp: bulk_taskDone_def Let_def)
  then show ?thesis using drains_idle_refl [OF inv] by simp
next
  case True
  let ?x = "bk_tasks b ! t" let ?p = "bt_partition ?x" let ?g = "bulk_gate b ?p"
  obtain l where l: "bt_phase ?x = Running l" using True by blast
  have p: "perm_inv (bk_maxConcurrency b) (bk_buckets b) (bk_tasks b)" "bk_activeCount b = int (length (filter is_active (bk_tasks b)))"
    "bk_outstanding b = int (length (filter owed_task (bk_tasks b)))" using inv by (simp_all add: bulk_inv_def)
  obtain ds where ds: "queue_rep drain_wt (bk_drainWaiters b) ds" using inv by (auto simp: bulk_inv_def)
  have x: "?p < length (bk_buckets b)" "permit_state ?g (bt_permit ?x) = Some (Granted l)"
    using p(1) True l by (auto simp: perm_inv_def task_gate_def bulk_gate_def)
  define ph where "ph = (if bt_tried ?x then Left else Leaving)"
  define b1 where "b1 = (let c = active_less (bulk_setGate ?p (gate_callRelease l ?g) b)
    in if bt_tried ?x then c\<lparr>bk_outstanding := max 0 (bk_outstanding c - 1)\<rparr> else c)"
  have b1: "bk_tasks b1 = bk_tasks b" "bk_buckets b1 = (bk_buckets b)[?p := (bk_buckets b ! ?p)\<lparr>bb_gate := gate_callRelease l ?g\<rparr>]"
    "bk_maxConcurrency b1 = bk_maxConcurrency b" "bk_drainWaiters b1 = bk_drainWaiters b" "bk_drained b1 = bk_drained b"
    "bk_activeCount b1 = max 0 (bk_activeCount b - 1)"
    "bk_outstanding b1 = (if bt_tried ?x then max 0 (bk_outstanding b - 1) else bk_outstanding b)"
    by (simp_all add: b1_def Let_def active_less_def bulk_setGate_def)
  have e: "bulk_taskDone t b = set_phase t ph (bulk_resolveDrainWaitersIfIdle b1)"
    using True l by (simp add: bulk_taskDone_def Let_def b1_def ph_def)
  have w: "owed_task ?x" "is_active ?x" "\<not> is_active (?x\<lparr>bt_phase := ph\<rparr>)" "owed_task (?x\<lparr>bt_phase := ph\<rparr>) \<longleftrightarrow> \<not> bt_tried ?x"
    using l by (auto simp: is_active_def owed_task_def ph_def)
  have pos: "1 \<le> bk_outstanding b" "1 \<le> bk_activeCount b"
    using filter_member_pos [of t "bk_tasks b"] True w p(2,3) by simp_all
  let ?ts = "(bk_tasks b)[t := ?x\<lparr>bt_phase := ph\<rparr>]"
  have out: "\<not> inside (?x\<lparr>bt_phase := ph\<rparr>)" by (simp add: inside_def ph_def)
  have pi: "perm_inv (bk_maxConcurrency b) (bk_buckets b) ?ts"
    by (rule perm_phase [OF p(1)]) (use True in \<open>auto simp: ph_def split: if_splits\<close>)
  obtain ws where ws: "gate_inv ws ?g" using perm_inv_gate [OF p(1) x(1)] by (auto simp: bulk_gate_def)
  obtain ws' where ws': "gate_inv ws' (gate_callRelease l ?g)" using gate_callRelease_inv [OF ws] by blast
  have pi': "perm_inv (bk_maxConcurrency b) ((bk_buckets b)[?p := (bk_buckets b ! ?p)\<lparr>bb_gate := gate_callRelease l ?g\<rparr>]) ?ts"
  proof (rule perm_swap [OF pi x(1) _ ws'])
    show "gate_grows (Some l) (bb_gate (bk_buckets b ! ?p)) (gate_callRelease l ?g)"
      using gate_callRelease_grows [OF ws] by (simp add: bulk_gate_def)
    fix l' u assume u: "Some l = Some l'" "u \<in> set ?ts" "bt_partition u = ?p" "inside u"
    obtain j where j: "j < length (bk_tasks b)" "u = ?ts ! j" using u(2) by (auto simp: in_set_conv_nth)
    have "j \<noteq> t" using u(4) j out True by auto
    then show "permit_state (bb_gate (bk_buckets b ! ?p)) (bt_permit u) \<noteq> Some (Granted l')"
      using perm_others [OF p(1), of t l j] True x(2) j u(1,3) by (simp add: bulk_gate_def)
  qed simp
  show ?thesis unfolding e
  proof (rule bulk_moves_idle)
    show "perm_inv (bk_maxConcurrency b1) (bk_buckets b1) ((bk_tasks b1)[t := (bk_tasks b1 ! t)\<lparr>bt_phase := ph\<rparr>])"
      using pi' by (simp add: b1)
  qed (use ds p w True pos in \<open>auto simp: b1 filter_update_length\<close>)
qed

text \<open>A gate changes while no task moves.\<close>

lemma bulk_swap_ok:
  assumes inv: "bulk_inv b" and p: "p < length (bk_buckets b)"
    and g: "gate_grows None (bulk_gate b p) g'" "gate_inv ws g'"
  shows "drains_idle b (bulk_setGate p g' b)"
proof -
  have "perm_inv (bk_maxConcurrency b) ((bk_buckets b)[p := (bk_buckets b ! p)\<lparr>bb_gate := g'\<rparr>]) (bk_tasks b)"
    by (rule perm_swap [OF _ p _ g(2)]) (use inv g(1) in \<open>auto simp: bulk_inv_def bulk_gate_def\<close>)
  then show ?thesis using inv by (auto simp: drains_idle_def bulk_inv_def bulk_setGate_def)
qed

lemma bulk_inv_gate:
  "bulk_inv b \<Longrightarrow> p < length (bk_buckets b) \<Longrightarrow> \<exists>ws. gate_inv ws (bulk_gate b p)"
  using perm_inv_gate by (auto simp: bulk_inv_def bulk_gate_def)

lemma bulk_abort_ok:
  assumes inv: "bulk_inv b"
  shows "drains_idle b (bulk_abort t b)"
proof (cases "t < length (bk_tasks b) \<and> (\<exists>i. bt_permit (bk_tasks b ! t) = AcqPending i)")
  case False
  then have "bulk_abort t b = b" by (auto simp: bulk_abort_def Let_def split: acquired.split)
  then show ?thesis using drains_idle_refl [OF inv] by simp
next
  case True
  let ?p = "bt_partition (bk_tasks b ! t)"
  have p: "?p < length (bk_buckets b)" using inv True by (auto simp: bulk_inv_def perm_inv_def)
  obtain ws where "gate_inv ws (bulk_gate b ?p)" using bulk_inv_gate [OF inv p] by blast
  then show ?thesis
    using True bulk_swap_ok [OF inv p gate_abort_grows gate_abort_inv] by (auto simp: bulk_abort_def Let_def)
qed

lemma bulk_drain_ok:
  assumes inv: "bulk_inv b"
  shows "drains_idle b (fst (bulk_drain b))"
proof (cases "bk_outstanding b = 0")
  case True
  then show ?thesis using inv by (simp add: bulk_drain_def Let_def drains_idle_def bulk_inv_def)
next
  case False
  obtain ds where ds: "queue_rep drain_wt (bk_drainWaiters b) ds" using inv by (auto simp: bulk_inv_def)
  have "\<exists>q ds'. fst (queue_push drain_wt (bk_drains b) (bk_drainWaiters b)) = q \<and> queue_rep drain_wt q ds'"
  proof (cases "length ds < 2 ^ 30")
    case True
    then show ?thesis using queue_push_rep [OF ds True, of "bk_drains b"] by auto
  next
    case False
    then have "length ds = 2 ^ 30"
      using queue_rep_length [OF ds] queue_shape_pos [OF queue_rep_shape [OF ds]] by simp
    then show ?thesis using queue_full_throws(1) [OF ds, of "bk_drains b"] ds by auto
  qed
  then show ?thesis using inv False
    by (auto simp: bulk_drain_def Let_def drains_idle_def bulk_inv_def split: prod.split sum.split)
qed

lemma perm_inv_reset:
  assumes "perm_inv m bs ts"
  shows "perm_inv m (map (\<lambda>x. \<lparr>bb_shed = 0, bb_gate = gate_reset a (bb_gate x)\<rparr>) bs) ts"
proof -
  have g: "(\<exists>ws. gate_inv ws (gate_reset a (bb_gate x))) \<and> log_ok (gate_reset a (bb_gate x))
      \<and> of_int (g_capacity (gate_reset a (bb_gate x))) = m \<and> gate_grows None (bb_gate x) (gate_reset a (bb_gate x))"
    if x: "x \<in> set bs" for x
  proof -
    obtain ws where ws: "gate_inv ws (bb_gate x)" "log_ok (bb_gate x)" "of_int (g_capacity (bb_gate x)) = m"
      using assms x by (auto simp: perm_inv_def)
    have gr: "gate_grows None (bb_gate x) (gate_reset a (bb_gate x))" by (rule gate_reset_grows [OF ws(1)])
    then have "g_capacity (gate_reset a (bb_gate x)) = g_capacity (bb_gate x)" by (simp add: gate_grows_def)
    then show ?thesis using gr ws gate_reset_inv [OF ws(1)] log_ok_grows [OF ws(2) gr] by simp
  qed
  have "task_gate (gate_reset a (bb_gate (bs ! bt_partition t))) t" if t: "t \<in> set ts" for t
  proof -
    have b: "bt_partition t < length bs" "task_gate (bb_gate (bs ! bt_partition t)) t" using assms t by (simp_all add: perm_inv_def)
    then have m: "bs ! bt_partition t \<in> set bs" by simp
    show ?thesis
      by (rule task_gate_grows [OF b(2) _ conjunct2 [OF conjunct2 [OF conjunct2 [OF g [OF m]]]]])
        (use assms m in \<open>auto simp: perm_inv_def\<close>)
  qed
  then show ?thesis using g assms by (auto simp: perm_inv_def)
qed

lemma bulk_reset_ok:
  assumes inv: "bulk_inv b"
  shows "drains_idle b (bulk_reset available b)"
proof -
  let ?a = "Some (case available of Fin r \<Rightarrow> of_int (max 0 \<lfloor>r\<rfloor>) | _ \<Rightarrow> bk_maxConcurrency b)"
  let ?b1 = "b\<lparr>bk_shed := 0, bk_buckets := map (\<lambda>x. \<lparr>bb_shed = 0, bb_gate = gate_reset ?a (bb_gate x)\<rparr>) (bk_buckets b)\<rparr>"
  obtain ds where ds: "queue_rep drain_wt (bk_drainWaiters ?b1) ds" using inv by (auto simp: bulk_inv_def)
  have "perm_inv (bk_maxConcurrency b) (bk_buckets ?b1) (bk_tasks b)"
    using perm_inv_reset [of _ _ _ ?a] inv by (simp add: bulk_inv_def)
  then show ?thesis using bulk_resolve_spec [OF ds] inv
    by (auto simp: bulk_reset_def Let_def drains_idle_def bulk_inv_def)
qed

text \<open>A task is admitted.\<close>

lemma bulk_admit_ok:
  assumes inv: "bulk_inv b" and p: "p < length (bk_buckets b)"
    and g: "gate_grows None (bulk_gate b p) g'" "gate_inv ws g'"
    and t: "bt_partition t = p" "task_gate g' t" "owed_task t"
    and fresh: "\<And>l. bt_permit t = AcqGranted l \<Longrightarrow> l = length (g_leases (bulk_gate b p))"
      "\<And>i. bt_permit t = AcqPending i \<Longrightarrow> i = length (g_entries (bulk_gate b p))"
  shows "drains_idle b ((bulk_setGate p g' b)\<lparr>bk_outstanding := bk_outstanding b + 1,
     bk_activeCount := bk_activeCount b + (if is_active t then 1 else 0), bk_tasks := bk_tasks b @ [t]\<rparr>)"
proof -
  have pi: "perm_inv (bk_maxConcurrency b) (bk_buckets b) (bk_tasks b)" using inv by (simp add: bulk_inv_def)
  let ?bs = "(bk_buckets b)[p := (bk_buckets b ! p)\<lparr>bb_gate := g'\<rparr>]"
  have sw: "perm_inv (bk_maxConcurrency b) ?bs (bk_tasks b)"
    by (rule perm_swap [OF pi p _ g(2)]) (use g(1) in \<open>auto simp: bulk_gate_def\<close>)
  have "perm_inv (bk_maxConcurrency b) ?bs (bk_tasks b @ [t])"
  proof (rule perm_add [OF sw])
    show "bt_partition t < length ?bs" "task_gate (bb_gate (?bs ! bt_partition t)) t" using t p by simp_all
    fix u assume u: "u \<in> set (bk_tasks b)"
    have "task_gate (bulk_gate b (bt_partition u)) u" using pi u by (simp add: perm_inv_def bulk_gate_def)
    then show "permits_differ u t" using fresh t(1)
      by (cases "bt_permit t") (auto simp: permits_differ_def task_gate_def split: acquired.splits)
  qed
  then show ?thesis using inv t(3) by (auto simp: drains_idle_def bulk_inv_def bulk_setGate_def)
qed

lemma bulk_inv_counters:
  "bulk_inv b \<Longrightarrow> bulk_inv (b\<lparr>bk_nextPartition := x\<rparr>)"
  by (auto simp: bulk_inv_def)

lemma bulk_choosePartition_keeps:
  "\<exists>x. fst (bulk_choosePartition key chosen b) = b\<lparr>bk_nextPartition := x\<rparr>"
proof -
  have "\<exists>x. b = b\<lparr>bk_nextPartition := x\<rparr>" by (rule exI [of _ "bk_nextPartition b"]) simp
  then show ?thesis by (auto simp: bulk_choosePartition_def split: option.split)
qed

lemma drains_idle_next:
  "drains_idle (b\<lparr>bk_nextPartition := x\<rparr>) b' \<Longrightarrow> drains_idle b b'"
  by (simp add: drains_idle_def)

lemma perm_inv_shed:
  assumes "perm_inv m bs ts"
  shows "perm_inv m (bs[p := (bs ! p)\<lparr>bb_shed := n\<rparr>]) ts"
proof (cases "p < length bs")
  case True
  have "bb_gate (bs[p := (bs ! p)\<lparr>bb_shed := n\<rparr>] ! q) = bb_gate (bs ! q)" for q
    using True by (cases "q = p") simp_all
  moreover have "(\<exists>ws. gate_inv ws (bb_gate x)) \<and> log_ok (bb_gate x) \<and> of_int (g_capacity (bb_gate x)) = m"
    if "x \<in> set (bs[p := (bs ! p)\<lparr>bb_shed := n\<rparr>])" for x
    using set_update_subset_insert [of bs p "(bs ! p)\<lparr>bb_shed := n\<rparr>"] that assms True unfolding perm_inv_def by auto
  ultimately show ?thesis using assms by (simp add: perm_inv_def)
qed (use assms in \<open>simp add: list_update_beyond\<close>)

lemma bucket_index_less: "bucket_index r b = Some p \<Longrightarrow> p < length (bk_buckets b)"
  by (simp add: bucket_index_def split: if_splits)

lemma gate_acquire_task:
  assumes "gate_inv ws g" "gate_acquire v sg g = (g', a)" "log_ok g"
    "bt_permit t = a" "bt_phase t = Waiting"
  shows "task_gate g' t"
proof (cases a)
  case (AcqGranted l)
  note f = gate_acquire_granted [OF assms(2) [unfolded AcqGranted]]
  have "gate_grows None g g'" using gate_acquire_grows [OF assms(1), of None v sg] assms(2) by simp
  then have "\<not> l_released (g_leases g' ! l)" using f by (auto simp: gate_grows_def split: if_splits dest!: spec [of _ l])
  then show ?thesis using assms(3-5) f AcqGranted by (auto simp: task_gate_def log_ok_def permit_state_def)
next
  case (AcqPending i)
  have gr: "gate_grows None g g'" using gate_acquire_grows [OF assms(1), of None v sg] assms(2) by simp
  have f: "i < length (g_entries g')" using gate_acquire_pending [OF assms(2) [unfolded AcqPending]] by simp
  have "g_log g' = g_log g \<and> g_leases g' = g_leases g"
    using assms(2) AcqPending
    by (auto simp: gate_acquire_def Let_def gate_grant_def gate_makeRelease_def split: sum.splits if_splits prod.splits)
  moreover have "permit_state g (AcqPending i) \<noteq> Some (Granted l)" for l
    using permit_pending_mem [of g i l] assms(3) gate_acquire_pending [OF assms(2) [unfolded AcqPending]]
    by (fastforce simp: log_ok_def)
  ultimately show ?thesis using assms(4,5) f AcqPending by (auto simp: task_gate_def permit_state_def)
qed (use assms(4,5) in \<open>simp add: task_gate_def permit_state_def\<close>)

lemma gate_acquire_fresh:
  assumes "gate_acquire v sg g = (g', a)"
  shows "a = AcqGranted l \<Longrightarrow> l = length (g_leases g)" "a = AcqPending i \<Longrightarrow> i = length (g_entries g)"
  using assms gate_acquire_granted gate_acquire_pending by blast+

lemma bulk_run_ok:
  assumes inv: "bulk_inv b"
  shows "drains_idle b (fst (bulk_run isfun weight key chosen signal b))"
proof -
  obtain b1 r where c: "bulk_choosePartition key chosen b = (b1, r)" by fastforce
  obtain y where y: "b1 = b\<lparr>bk_nextPartition := y\<rparr>" using bulk_choosePartition_keeps [of key chosen b] c by auto
  have i1: "bulk_inv b1" unfolding y by (rule bulk_inv_counters [OF inv])
  have keep: "drains_idle b1 b' \<Longrightarrow> drains_idle b b'" for b' unfolding y by (rule drains_idle_next)
  have refl: "drains_idle b b" "drains_idle b b1" using drains_idle_refl [OF inv] keep [OF drains_idle_refl [OF i1]] by simp_all
  show ?thesis
  proof (cases "bulk_weight weight")
    case (Inr w)
    show ?thesis
    proof (cases "bucket_index r b1")
      case (Some p)
      note p = bucket_index_less [OF Some]
      let ?g = "bulk_gate b1 p"
      consider (out) "\<not> isfun \<or> g_capacity ?g < num_int w"
        | (shed) "isfun" "\<not> g_capacity ?g < num_int w" "g_available ?g < num_int w" "bk_queueCapacity b1 \<le> of_int (gate_pending ?g)"
        | (go) "isfun" "\<not> g_capacity ?g < num_int w" "\<not> (g_available ?g < num_int w \<and> bk_queueCapacity b1 \<le> of_int (gate_pending ?g))"
        by blast
      then show ?thesis
      proof cases
        case out
        then show ?thesis using refl by (auto simp: bulk_run_def Let_def Inr Some c)
      next
        case shed
        have "drains_idle b1 (b1\<lparr>bk_shed := bk_shed b1 + 1,
            bk_buckets := (bk_buckets b1)[p := (bk_buckets b1 ! p)\<lparr>bb_shed := bb_shed (bk_buckets b1 ! p) + 1\<rparr>]\<rparr>)"
          using i1 perm_inv_shed [of "bk_maxConcurrency b1" "bk_buckets b1" "bk_tasks b1" p] by (auto simp: drains_idle_def bulk_inv_def)
        then show ?thesis using shed keep by (auto simp: bulk_run_def Let_def Inr Some c)
      next
        case go
        obtain g' a where a: "gate_acquire (JNum w) signal ?g = (g', a)" by fastforce
        define q where "q = (g_available ?g < num_int w)"
        define t where "t = \<lparr>bt_partition = p, bt_queued = q, bt_tried = False, bt_permit = a, bt_phase = Waiting\<rparr>"
        obtain ws where ws: "gate_inv ws ?g" using bulk_inv_gate [OF i1 p] by blast
        obtain ws' where ws': "gate_inv ws' g'" using gate_acquire_inv [OF ws, of "JNum w" signal] a by auto
        have gr: "gate_grows None ?g g'" using gate_acquire_grows [OF ws, of None "JNum w" signal] a by simp
        have lg: "log_ok ?g" using i1 perm_inv_gate [OF _ p] by (auto simp: bulk_inv_def bulk_gate_def)
        have tg: "task_gate g' t" by (rule gate_acquire_task [OF ws a lg]) (simp_all add: t_def)
        have ad: "drains_idle b1 ((bulk_setGate p g' b1)\<lparr>bk_outstanding := bk_outstanding b1 + 1,
            bk_activeCount := bk_activeCount b1 + (if is_active t then 1 else 0), bk_tasks := bk_tasks b1 @ [t]\<rparr>)"
          by (rule bulk_admit_ok [OF i1 p gr ws' _ tg])
            (use gate_acquire_fresh [OF a] in \<open>auto simp: t_def owed_task_def\<close>)
        have "fst (bulk_run isfun weight key chosen signal b) = (bulk_setGate p g' b1)\<lparr>bk_outstanding := bk_outstanding b1 + 1,
            bk_activeCount := bk_activeCount b1 + (if is_active t then 1 else 0), bk_tasks := bk_tasks b1 @ [t]\<rparr>"
          using go a by (auto simp: bulk_run_def Let_def Inr Some c t_def is_active_def bulk_setGate_def q_def)
        then show ?thesis using keep [OF ad] by simp
      qed
    qed (use refl in \<open>simp add: bulk_run_def Let_def Inr c\<close>)
  qed (use refl in \<open>simp add: bulk_run_def\<close>)
qed

lemma bulk_tryRun_ok:
  assumes inv: "bulk_inv b"
  shows "drains_idle b (fst (bulk_tryRun isfun weight key chosen b))"
proof -
  obtain b1 r where c: "bulk_choosePartition key chosen b = (b1, r)" by fastforce
  obtain y where y: "b1 = b\<lparr>bk_nextPartition := y\<rparr>" using bulk_choosePartition_keeps [of key chosen b] c by auto
  have i1: "bulk_inv b1" unfolding y by (rule bulk_inv_counters [OF inv])
  have keep: "drains_idle b1 b' \<Longrightarrow> drains_idle b b'" for b' unfolding y by (rule drains_idle_next)
  have refl: "drains_idle b b" "drains_idle b b1" using drains_idle_refl [OF inv] keep [OF drains_idle_refl [OF i1]] by simp_all
  show ?thesis
  proof (cases "bulk_weight weight")
    case (Inr w)
    show ?thesis
    proof (cases "bucket_index r b1")
      case (Some p)
      note p = bucket_index_less [OF Some]
      let ?g = "bulk_gate b1 p"
      obtain g' a where a: "gate_tryAcquire (JNum w) ?g = (g', a)" by fastforce
      obtain ws where ws: "gate_inv ws ?g" using bulk_inv_gate [OF i1 p] by blast
      have ws': "gate_inv ws g'" using gate_tryAcquire_inv [OF ws, of "JNum w"] a by simp
      have gr: "gate_grows None ?g g'" using gate_tryAcquire_grows [of None ?g "JNum w"] a by simp
      have lg: "log_ok ?g" using i1 perm_inv_gate [OF _ p] by (auto simp: bulk_inv_def bulk_gate_def)
      show ?thesis
      proof (cases "\<exists>l. a = Inr (Some l)")
        case True
        then obtain l where l: "a = Inr (Some l)" by blast
        note f = gate_tryAcquire_granted [OF a [unfolded l]]
        define t where "t = \<lparr>bt_partition = p, bt_queued = False, bt_tried = True, bt_permit = AcqGranted l, bt_phase = Running l\<rparr>"
        have "\<not> l_released (g_leases g' ! l)" using gr f by (auto simp: gate_grows_def split: if_splits dest!: spec [of _ l])
        then have tg: "task_gate g' t" using f lg by (auto simp: t_def task_gate_def permit_state_def log_ok_def)
        have "drains_idle b1 ((bulk_setGate p g' b1)\<lparr>bk_outstanding := bk_outstanding b1 + 1,
            bk_activeCount := bk_activeCount b1 + (if is_active t then 1 else 0), bk_tasks := bk_tasks b1 @ [t]\<rparr>)"
          by (rule bulk_admit_ok [OF i1 p gr ws' _ tg]) (use f in \<open>auto simp: t_def owed_task_def\<close>)
        moreover have "is_active t" by (simp add: t_def is_active_def)
        ultimately show ?thesis using keep refl a l
          by (simp add: bulk_tryRun_def Let_def Inr Some c t_def)
      next
        case False
        have "drains_idle b1 (bulk_setGate p g' b1)" by (rule bulk_swap_ok [OF i1 p gr ws'])
        then show ?thesis using keep refl a False
          by (cases a) (auto simp: bulk_tryRun_def Let_def Inr Some c split: option.split)
      qed
    qed (use refl in \<open>simp add: bulk_tryRun_def Let_def Inr c\<close>)
  qed (use refl in \<open>simp add: bulk_tryRun_def\<close>)
qed

section \<open>Runs of the bulkhead\<close>

datatype bulk_op =
    BRun bool js_val "string option" js_num "bool option"
  | BTryRun bool js_val "string option" js_num
  | BPermit nat
  | BTaskDone nat
  | BFinally nat
  | BAbort nat
  | BDrain
  | BReset js_num

fun bulk_step :: "bulk_op \<Rightarrow> bulkhead \<Rightarrow> bulkhead" where
  "bulk_step (BRun f w k c sg) b = fst (bulk_run f w k c sg b)"
| "bulk_step (BTryRun f w k c) b = fst (bulk_tryRun f w k c b)"
| "bulk_step (BPermit t) b = bulk_permit t b"
| "bulk_step (BTaskDone t) b = bulk_taskDone t b"
| "bulk_step (BFinally t) b = bulk_finally t b"
| "bulk_step (BAbort t) b = bulk_abort t b"
| "bulk_step BDrain b = fst (bulk_drain b)"
| "bulk_step (BReset a) b = bulk_reset a b"

definition bulk_go :: "bulk_op list \<Rightarrow> bulkhead \<Rightarrow> bulkhead" where
  "bulk_go ops b = foldl (\<lambda>x op. bulk_step op x) b ops"

lemma bulk_step_ok: "bulk_inv b \<Longrightarrow> drains_idle b (bulk_step op b)"
  by (cases op) (simp_all add: bulk_run_ok bulk_tryRun_ok bulk_permit_ok bulk_taskDone_ok bulk_finally_ok bulk_abort_ok
      bulk_drain_ok bulk_reset_ok)

lemma bulk_go_inv: "bulk_inv b \<Longrightarrow> bulk_inv (bulk_go ops b) \<and> bk_maxConcurrency (bulk_go ops b) = bk_maxConcurrency b
    \<and> length (bk_buckets (bulk_go ops b)) = length (bk_buckets b)"
proof (induction ops rule: rev_induct)
  case (snoc op ops)
  then show ?case using bulk_step_ok [of "bulk_go ops b" op] by (simp add: bulk_go_def drains_idle_def)
qed (simp add: bulk_go_def)

section \<open>From the constructor\<close>

lemma gate_new_capacity:
  assumes "gate_new (JObj [(''capacity'', JNum (Fin m)), (''queueCapacity'', qc)]) = Some (Inr g)"
  shows "of_int (g_capacity g) = m"
proof -
  obtain cls cname cap where c: "assertLimitRequired (JNum (Fin m)) ((limit_spec cname cls)\<lparr>sp_min := 1, sp_integer := True,
      sp_fallback := JNum (Fin 1)\<rparr>) = Inr cap" "g_capacity g = num_int cap"
    using gate_new_parts [OF assms] by auto
  have "cap = Fin m \<and> of_int \<lfloor>m\<rfloor> = m"
    using c(1) by (auto simp: assertLimitRequired_def assertLimit_def limit_spec_def simp del: of_int_floor_cancel split: if_splits)
  then show ?thesis using c(2) by (simp only: num_int_def js_num.case)
qed

lemma case_sum_SomeE:
  "(case r of Inl e \<Rightarrow> Some (Inl e) | Inr x \<Rightarrow> f x) = Some (Inr y) \<Longrightarrow> (\<And>x. r = Inr x \<Longrightarrow> f x = Some (Inr y) \<Longrightarrow> P) \<Longrightarrow> P"
  by (cases r) simp_all

lemma case_option_SomeE:
  "(case r of None \<Rightarrow> None | Some (Inl e) \<Rightarrow> Some (Inl e) | Some (Inr x) \<Rightarrow> f x) = Some (Inr y)
     \<Longrightarrow> (\<And>x. r = Some (Inr x) \<Longrightarrow> f x = Some (Inr y) \<Longrightarrow> P) \<Longrightarrow> P"
  by (simp split: option.splits sum.splits)

lemma bulk_new_parts:
  assumes "bulk_new part opts = Some (Inr b)"
  obtains m qc g q n where "gate_new (JObj [(''capacity'', JNum (Fin m)), (''queueCapacity'', JNum (Fin qc))]) = Some (Inr g)"
    "queue_new (JNum (Fin POWER_QUEUE_INITIAL_CAPACITY)) = Some (Inr q)" "bk_maxConcurrency b = m"
    "bk_buckets b = replicate n \<lparr>bb_shed = 0, bb_gate = g\<rparr>" "bk_drainWaiters b = q" "bk_tasks b = []"
    "bk_activeCount b = 0" "bk_outstanding b = 0"
  using assms unfolding bulk_new_def Let_def
proof (elim case_sum_SomeE, goal_cases)
  case (1 x)
  obtain pa m qc where x: "x = (pa, m, qc)" by (cases x)
  from 1(3) have *: "(case gate_new (JObj [(''capacity'', JNum (Fin m)), (''queueCapacity'', JNum (Fin qc))]) of
             None \<Rightarrow> None
           | Some (Inl e) \<Rightarrow> Some (Inl e)
           | Some (Inr g) \<Rightarrow>
               (case queue_new (JNum (Fin POWER_QUEUE_INITIAL_CAPACITY)) of
                  None \<Rightarrow> None
                | Some (Inl e) \<Rightarrow> Some (Inl e)
                | Some (Inr q) \<Rightarrow>
                    Some (Inr \<lparr>bk_partitions = pa, bk_maxConcurrency = m, bk_queueCapacity = qc,
                      bk_partitioner = part, bk_nextPartition = 0, bk_activeCount = 0, bk_outstanding = 0, bk_shed = 0,
                      bk_buckets = replicate (nat \<lfloor>pa\<rfloor>) \<lparr>bb_shed = 0, bb_gate = g\<rparr>,
                      bk_drainWaiters = q, bk_tasks = [], bk_drains = 0, bk_drained = []\<rparr>))) = Some (Inr b)" unfolding x by (simp only: prod.case)
  from * obtain g where g: "gate_new (JObj [(''capacity'', JNum (Fin m)), (''queueCapacity'', JNum (Fin qc))]) = Some (Inr g)"
    by (rule case_option_SomeE)
  obtain q where q: "queue_new (JNum (Fin POWER_QUEUE_INITIAL_CAPACITY)) = Some (Inr q :: nat queue result)"
    using * unfolding g by (auto elim: case_option_SomeE)
  show ?case
    by (rule 1(1) [OF g q, where n = "nat \<lfloor>pa\<rfloor>"]) (use * in \<open>auto simp: g q\<close>)
qed

lemma bulk_new_inv:
  assumes "bulk_new part opts = Some (Inr b)"
  shows "bulk_inv b"
proof -
  obtain m qc g q n where b: "gate_new (JObj [(''capacity'', JNum (Fin m)), (''queueCapacity'', JNum (Fin qc))]) = Some (Inr g)"
    "queue_new (JNum (Fin POWER_QUEUE_INITIAL_CAPACITY)) = Some (Inr q)" "bk_maxConcurrency b = m"
    "bk_buckets b = replicate n \<lparr>bb_shed = 0, bb_gate = g\<rparr>" "bk_drainWaiters b = q" "bk_tasks b = []"
    "bk_activeCount b = 0" "bk_outstanding b = 0"
    using bulk_new_parts [OF assms] by metis
  have "log_ok g" using gate_new_cases [OF b(1)] by (simp add: log_ok_def)
  then have "perm_inv m (bk_buckets b) []"
    using gate_new_inv [OF b(1)] gate_new_capacity [OF b(1)] b(4) by (auto simp: perm_inv_def)
  moreover obtain k where "q = queue_empty (2 ^ k) (replicate (nat (2 ^ k)) None)" "1 \<le> k" "k \<le> 30"
    using queue_new_ok [of POWER_QUEUE_INITIAL_CAPACITY, where 'a = nat] unfolding b(2) by (auto simp: POWER_QUEUE_INITIAL_CAPACITY_def)
  then have "queue_rep drain_wt q []" using queue_rep_empty by simp
  ultimately show ?thesis using b by (auto simp: bulk_inv_def)
qed

section \<open>Isolation\<close>

definition running_leases :: "nat \<Rightarrow> btask list \<Rightarrow> nat list" where
  "running_leases p ts =
     concat (map (\<lambda>t. if bt_partition t = p then (case bt_phase t of Running l \<Rightarrow> [l] | _ \<Rightarrow> []) else []) ts)"

text \<open>The weight of the tasks running in a partition.\<close>

definition bulk_load :: "bulkhead \<Rightarrow> nat \<Rightarrow> int" where
  "bulk_load b p = sum_list (map (\<lambda>l. l_weight (g_leases (bulk_gate b p) ! l)) (running_leases p (bk_tasks b)))"

lemma distinct_concat_map:
  "(\<forall>x\<in>set xs. distinct (f x)) \<Longrightarrow> (\<forall>i<length xs. \<forall>j<i. set (f (xs ! j)) \<inter> set (f (xs ! i)) = {}) \<Longrightarrow> distinct (concat (map f xs))"
proof (induction xs rule: rev_induct)
  case (snoc x xs)
  have "\<forall>i<length xs. \<forall>j<i. set (f (xs ! j)) \<inter> set (f (xs ! i)) = {}"
  proof (intro allI impI)
    fix i j assume "i < length xs" "j < i"
    then show "set (f (xs ! j)) \<inter> set (f (xs ! i)) = {}" using snoc.prems(2) [rule_format, of i j] by (simp add: nth_append)
  qed
  moreover have "set (f y) \<inter> set (f x) = {}" if "y \<in> set xs" for y
  proof -
    obtain j where "j < length xs" "xs ! j = y" using \<open>y \<in> set xs\<close> unfolding in_set_conv_nth by blast
    then show ?thesis using snoc.prems(2) [rule_format, of "length xs" j] by (simp add: nth_append)
  qed
  ultimately have d: "distinct (concat (map f xs))" "\<forall>y\<in>set xs. set (f y) \<inter> set (f x) = {}" "distinct (f x)"
    using snoc.IH snoc.prems(1) by simp_all
  then have "set (concat (map f xs)) \<inter> set (f x) = {}" by auto
  then show ?case using d(1,3) by simp
qed simp

lemma owed_sum: "owed ls = (\<Sum>l<length ls. if l_released (ls ! l) then 0 else l_weight (ls ! l))"
  by (simp add: owed_def sum_list_sum_nth atLeast0LessThan)

lemma leases_owed:
  assumes "distinct L" "\<forall>l\<in>set L. l < length ls \<and> \<not> l_released (ls ! l)" "\<forall>x\<in>set ls. 1 \<le> l_weight x"
  shows "sum_list (map (\<lambda>l. l_weight (ls ! l)) L) \<le> owed ls" "int (length L) \<le> sum_list (map (\<lambda>l. l_weight (ls ! l)) L)"
proof -
  have "sum_list (map (\<lambda>l. l_weight (ls ! l)) L) = (\<Sum>l\<in>set L. l_weight (ls ! l))"
    by (rule sum_list_distinct_conv_sum_set [OF assms(1)])
  also have "\<dots> = (\<Sum>l\<in>set L. if l_released (ls ! l) then 0 else l_weight (ls ! l))"
    using assms(2) by (intro sum.cong) simp_all
  also have "\<dots> \<le> owed ls" unfolding owed_sum
    using assms(2,3) by (intro sum_mono2) (auto intro: order_trans [of 0 "1 :: int"])
  finally show "sum_list (map (\<lambda>l. l_weight (ls ! l)) L) \<le> owed ls" .
  have "\<forall>l\<in>set L. 1 \<le> l_weight (ls ! l)" using assms(2,3) by simp
  then show "int (length L) \<le> sum_list (map (\<lambda>l. l_weight (ls ! l)) L)" by (induction L) auto
qed

lemma bulk_load_bound:
  assumes inv: "bulk_inv b" and p: "p < length (bk_buckets b)"
  shows "of_int (bulk_load b p) \<le> bk_maxConcurrency b" "int (length (running_leases p (bk_tasks b))) \<le> bulk_load b p"
proof -
  let ?g = "bulk_gate b p" and ?ts = "bk_tasks b"
  let ?f = "\<lambda>t. if bt_partition t = p then (case bt_phase t of Running l \<Rightarrow> [l] | _ \<Rightarrow> []) else []"
  have pi: "perm_inv (bk_maxConcurrency b) (bk_buckets b) ?ts" using inv by (simp add: bulk_inv_def)
  obtain ws where g: "gate_inv ws ?g" "log_ok ?g" "of_int (g_capacity ?g) = bk_maxConcurrency b"
    using perm_inv_gate [OF pi p] by (auto simp: bulk_gate_def)
  have run: "bt_partition (?ts ! i) = p \<and> bt_phase (?ts ! i) = Running l
      \<and> permit_state ?g (bt_permit (?ts ! i)) = Some (Granted l) \<and> l < length (g_leases ?g) \<and> \<not> l_released (g_leases ?g ! l)"
    if "i < length ?ts" "l \<in> set (?f (?ts ! i))" for i l
  proof -
    have t: "bt_partition (?ts ! i) = p" "bt_phase (?ts ! i) = Running l"
      using that(2) by (cases "bt_phase (?ts ! i)"; cases "bt_partition (?ts ! i) = p"; simp)+
    have "task_gate (bb_gate (bk_buckets b ! bt_partition (?ts ! i))) (?ts ! i)" using pi that(1) by (simp add: perm_inv_def)
    then have tg: "task_gate ?g (?ts ! i)" using t(1) by (simp add: bulk_gate_def)
    then have "permit_state ?g (bt_permit (?ts ! i)) = Some (Granted l)" using t(2) by (simp add: task_gate_def)
    then show ?thesis using t tg task_gate_lease [OF tg g(2)] by (auto simp: task_gate_def inside_def)
  qed
  have d: "distinct (running_leases p ?ts)" unfolding running_leases_def
  proof (rule distinct_concat_map)
    show "\<forall>x\<in>set ?ts. distinct (?f x)" by (simp split: phase.split)
    show "\<forall>i<length ?ts. \<forall>j<i. set (?f (?ts ! j)) \<inter> set (?f (?ts ! i)) = {}"
    proof (intro allI impI)
      fix i j assume ij: "i < length ?ts" "j < i"
      have False if l: "l \<in> set (?f (?ts ! j))" "l \<in> set (?f (?ts ! i))" for l
        using run [OF ij(1) l(2)] run [OF _ l(1)] ij perm_others [OF pi ij(1), of l j] by (auto simp: bulk_gate_def)
      then show "set (?f (?ts ! j)) \<inter> set (?f (?ts ! i)) = {}" by blast
    qed
  qed
  have m: "\<forall>l\<in>set (running_leases p ?ts). l < length (g_leases ?g) \<and> \<not> l_released (g_leases ?g ! l)"
  proof
    fix l assume "l \<in> set (running_leases p ?ts)"
    then obtain i where "i < length ?ts" "l \<in> set (?f (?ts ! i))"
    proof -
      assume l: "l \<in> set (running_leases p ?ts)" and th: "\<And>i. i < length ?ts \<Longrightarrow> l \<in> set (?f (?ts ! i)) \<Longrightarrow> thesis"
      obtain t where t: "t \<in> set ?ts" "l \<in> set (?f t)" using l unfolding running_leases_def set_concat set_map by blast
      obtain i where "i < length ?ts" "?ts ! i = t" using t(1) unfolding in_set_conv_nth by blast
      then show thesis using th t(2) by blast
    qed
    then show "l < length (g_leases ?g) \<and> \<not> l_released (g_leases ?g ! l)" using run by blast
  qed
  have w: "\<forall>x\<in>set (g_leases ?g). 1 \<le> l_weight x" "0 \<le> g_available ?g" "g_held ?g = owed (g_leases ?g)"
    "g_available ?g + g_held ?g \<le> g_capacity ?g" using g(1) by (simp_all add: gate_inv_def)
  have "bulk_load b p \<le> g_capacity ?g" using leases_owed(1) [OF d m w(1)] w by (simp add: bulk_load_def)
  then show "of_int (bulk_load b p) \<le> bk_maxConcurrency b" using g(3) by (metis of_int_le_iff)
  show "int (length (running_leases p ?ts)) \<le> bulk_load b p" using leases_owed(2) [OF d m w(1)] by (simp add: bulk_load_def)
qed

text \<open>
  C30. Partitions isolate: in every interleaving of calls, permits, settlements, aborts, drains and resets, no
  partition runs tasks of more weight (nor more tasks) than \<open>maxConcurrency\<close>, and the counters of active and
  outstanding tasks count exactly the tasks that hold or are certain of a permit and the tasks not done.
\<close>

theorem bulkhead_isolation:
  assumes "bulk_new part opts = Some (Inr b0)" "bulk_go ops b0 = b"
  shows "(\<forall>p<length (bk_buckets b0). of_int (bulk_load b p) \<le> bk_maxConcurrency b0
       \<and> int (length (running_leases p (bk_tasks b))) \<le> bulk_load b p)
     \<and> bk_activeCount b = int (length (filter is_active (bk_tasks b)))
     \<and> bk_outstanding b = int (length (filter owed_task (bk_tasks b)))"
proof -
  have i: "bulk_inv b" "bk_maxConcurrency b = bk_maxConcurrency b0" "length (bk_buckets b) = length (bk_buckets b0)"
    using bulk_go_inv [OF bulk_new_inv [OF assms(1)], of ops] assms(2) by simp_all
  then have c: "bk_activeCount b = int (length (filter is_active (bk_tasks b)))
     \<and> bk_outstanding b = int (length (filter owed_task (bk_tasks b)))" by (simp add: bulk_inv_def)
  have "of_int (bulk_load b p) \<le> bk_maxConcurrency b0 \<and> int (length (running_leases p (bk_tasks b))) \<le> bulk_load b p"
    if "p < length (bk_buckets b0)" for p
    using bulk_load_bound [OF i(1), of p] that i(2,3) by simp
  then show ?thesis using c by blast
qed

definition one_lane :: bulkhead where
  "one_lane = projr (the (bulk_new False (JObj [(''partitions'', JNum (Fin 1)), (''maxConcurrency'', JNum (Fin 1))])))"

lemma one_lane_new: "bulk_new False (JObj [(''partitions'', JNum (Fin 1)), (''maxConcurrency'', JNum (Fin 1))]) = Some (Inr one_lane)"
proof -
  have "case bulk_new False (JObj [(''partitions'', JNum (Fin 1)), (''maxConcurrency'', JNum (Fin 1))]) of Some (Inr b) \<Rightarrow> True | _ \<Rightarrow> False"
    by code_simp
  then show ?thesis by (auto simp: one_lane_def split: option.splits sum.splits)
qed

definition two_runs :: "bulk_op list" where
  "two_runs = [BRun True JUndefined None NaN None, BRun True JUndefined None NaN None, BPermit 0, BPermit 1, BDrain]"

theorem bulkhead_isolation_witness:
  "of_int (bulk_load (bulk_go two_runs one_lane) 0) \<le> bk_maxConcurrency one_lane \<and> running_leases 0 (bk_tasks (bulk_go two_runs one_lane)) = [0]
    \<and> bk_outstanding (bulk_go two_runs one_lane) = 2"
proof -
  have l: "0 < length (bk_buckets one_lane)" by code_simp
  have r: "running_leases 0 (bk_tasks (bulk_go two_runs one_lane)) = [0]" "bk_outstanding (bulk_go two_runs one_lane) = 2" by code_simp+
  show ?thesis using bulkhead_isolation [OF one_lane_new refl, of two_runs] l r by blast
qed

text \<open>
  C31. \<open>drain\<close> waits for everything and for nothing else: a step settles a promise of \<open>drain\<close> only
  when it leaves no task undone, and when no task is undone no such promise is waiting.
\<close>

theorem bulkhead_drain_exact:
  assumes "bulk_new part opts = Some (Inr b0)" "bulk_go ops b0 = b"
  shows "(bk_drained (bulk_step op b) \<noteq> bk_drained b \<longrightarrow> (\<forall>t\<in>set (bk_tasks (bulk_step op b)). bt_phase t = Left))
    \<and> ((\<forall>t\<in>set (bk_tasks b). bt_phase t = Left) \<longrightarrow> q_size (bk_drainWaiters b) = 0)"
proof -
  have i: "bulk_inv b" using bulk_go_inv [OF bulk_new_inv [OF assms(1)], of ops] assms(2) by simp
  note s = bulk_step_ok [OF i, of op]
  have "\<forall>t\<in>set (bk_tasks (bulk_step op b)). bt_phase t = Left" if "bk_drained (bulk_step op b) \<noteq> bk_drained b"
  proof -
    have "bk_outstanding (bulk_step op b) = 0" "bk_outstanding (bulk_step op b) = int (length (filter owed_task (bk_tasks (bulk_step op b))))"
      using s that by (auto simp: drains_idle_def bulk_inv_def)
    then show ?thesis by (auto simp: filter_empty_conv owed_task_def)
  qed
  moreover have "q_size (bk_drainWaiters b) = 0" if "\<forall>t\<in>set (bk_tasks b). bt_phase t = Left"
  proof -
    have "filter owed_task (bk_tasks b) = []" using that by (simp add: filter_empty_conv owed_task_def)
    then have "bk_outstanding b = 0" using i by (simp add: bulk_inv_def)
    then have "queue_rep drain_wt (bk_drainWaiters b) []" using i by (auto simp: bulk_inv_def)
    then show ?thesis by (simp add: queue_rep_size)
  qed
  ultimately show ?thesis by blast
qed

definition both_done :: "bulk_op list" where
  "both_done = two_runs @ [BTaskDone 0, BPermit 1, BFinally 0, BTaskDone 1]"

theorem bulkhead_drain_exact_witness:
  "bk_drained (bulk_go both_done one_lane) = [] \<and> bk_drained (bulk_step (BFinally 1) (bulk_go both_done one_lane)) = [0]
    \<and> list_all (\<lambda>t. bt_phase t = Left) (bk_tasks (bulk_step (BFinally 1) (bulk_go both_done one_lane)))"
proof -
  have d: "bk_drained (bulk_go both_done one_lane) = []" "bk_drained (bulk_step (BFinally 1) (bulk_go both_done one_lane)) = [0]"
    by code_simp+
  show ?thesis using bulkhead_drain_exact [OF one_lane_new refl, of "BFinally 1" both_done] d by (simp add: list_all_iff)
qed

text \<open>A call is decided by its own partition and touches no other.\<close>

lemma bulk_run_own_partition:
  assumes "bulk_weight weight = Inr w" "bulk_choosePartition key chosen b = (b1, r)" "bucket_index r b1 = Some p"
    "num_int w \<le> g_capacity (bulk_gate b1 p)"
    "num_int w \<le> g_available (bulk_gate b1 p) \<or> of_int (gate_pending (bulk_gate b1 p)) < bk_queueCapacity b1"
  shows "snd (bulk_run True weight key chosen signal b) = Inr (RunTask (length (bk_tasks b1)))
    \<and> (\<forall>q. q \<noteq> p \<longrightarrow> bk_buckets (fst (bulk_run True weight key chosen signal b)) ! q = bk_buckets b1 ! q)"
  using assms by (auto simp: bulk_run_def Let_def bulk_setGate_def split: prod.split)

section \<open>The hash\<close>

text \<open>The hash of a key is the usual multiplicative one, modulo the word size: the mixed 32-bit and exact sums agree.\<close>

lemma to_int32_mod: "to_int32 a mod 2 ^ 32 = a mod 2 ^ 32"
proof -
  have "take_bit 32 (signed_take_bit 31 a) = take_bit 32 a" by (simp add: take_bit_signed_take_bit)
  then show ?thesis by (simp add: to_int32_def take_bit_eq_mod)
qed

lemma bulk_hashKey_djb2:
  "bulk_hashKey key = foldl (\<lambda>h c. (33 * h + of_char c) mod 2 ^ 32) 5381 key"
proof (induction key rule: rev_induct)
  case (snoc c cs)
  let ?h = "foldl (\<lambda>hash c. to_int32 (32 * hash) + hash + of_char c) 5381 cs"
  have "(to_int32 (32 * ?h) + ?h + of_char c) mod 2 ^ 32 = (32 * ?h + ?h + of_char c) mod 2 ^ 32"
    by (intro mod_add_cong to_int32_mod refl)
  also have "32 * ?h + ?h = 33 * ?h" by simp
  also have "(33 * ?h + of_char c) mod 2 ^ 32 = (33 * (?h mod 2 ^ 32) + of_char c) mod 2 ^ 32"
    by (intro mod_add_cong refl) (simp only: mod_mult_right_eq)
  finally show ?case using snoc by (simp add: bulk_hashKey_def)
qed (simp add: bulk_hashKey_def)

section \<open>A fractional number of partitions\<close>

text \<open>The number of partitions may be fractional; then there are fewer buckets than indices, and a call can hit none.\<close>

lemma bulk_fractional_partitions:
  "case bulk_new False (JObj [(''partitions'', JNum (Fin (5 / 2)))]) of
     Some (Inr b) \<Rightarrow> snd (bulk_run True JUndefined None NaN None
       (bulk_go [BRun True JUndefined None NaN None, BRun True JUndefined None NaN None] b)) = Inl (TypeErr ''PowerBulkhead'' ''bucket'')
   | _ \<Rightarrow> False"
  by code_simp

end
