(* ===== verification/RateLimit.thy ===== *)
theory RateLimit
  imports SlidingWindow Throttle Gcra "HOL-Library.Word"
begin

unbundle bit_operations_syntax

text \<open>
  The composed rate limit (\<open>src/helpers/powerRateLimit.js\<close>) over legs.  A leg is an object
  with some of the methods of a limiter; the library's own limiters are legs built from their models.
  The legs of one composition are taken to be different objects.
\<close>

section \<open>Legs\<close>

text \<open>The methods of a leg; \<open>None\<close> is a method the object does not have.\<close>

record 's leg_ops =
  lo_available :: "(rat \<Rightarrow> 's \<Rightarrow> ('s, js_num) step) option"
  lo_tryConsume :: "(int \<Rightarrow> rat \<Rightarrow> 's \<Rightarrow> ('s, bool) step) option"
  lo_reserve :: "(int \<Rightarrow> 's \<Rightarrow> ('s, js_val) step) option"
  lo_release :: "(js_val \<Rightarrow> 's \<Rightarrow> ('s, unit) step) option"
  lo_rollback :: "(js_val \<Rightarrow> 's \<Rightarrow> ('s, unit) step) option"
  lo_addTokens :: "(js_val \<Rightarrow> 's \<Rightarrow> ('s, unit) step) option"
  lo_reset :: "('s \<Rightarrow> ('s, unit) step) option"

type_synonym 's leg = "'s leg_ops \<times> 's"

definition leg_checked :: "'s leg \<Rightarrow> bool" where
  "leg_checked l \<longleftrightarrow> lo_tryConsume (fst l) \<noteq> None \<or> lo_reserve (fst l) \<noteq> None"

text \<open>The loop over \<open>available\<close>: it stops at the first leg that has too little or throws.\<close>

datatype probe = TooFew | ProbeThrew | Enough bool

fun rl_probe :: "rat \<Rightarrow> int \<Rightarrow> 's leg list \<Rightarrow> 's leg list \<times> probe" where
  "rl_probe now want [] = ([], Enough True)"
| "rl_probe now want ((ops, s) # ls) =
     (case lo_available ops of
        None \<Rightarrow> (let (ls', r) = rl_probe now want ls in ((ops, s) # ls', case r of Enough _ \<Rightarrow> Enough False | _ \<Rightarrow> r))
      | Some f \<Rightarrow>
          (case f now s of
             (s', Inl e) \<Rightarrow> ((ops, s') # ls, ProbeThrew)
           | (s', Inr a) \<Rightarrow>
               if num_lt a (Fin (of_int want)) then ((ops, s') # ls, TooFew)
               else (let (ls', r) = rl_probe now want ls in ((ops, s') # ls', r))))"

text \<open>The plain loop over \<open>tryConsume\<close>.\<close>

fun rl_takeAll :: "rat \<Rightarrow> int \<Rightarrow> 's leg list \<Rightarrow> ('s leg list, bool) step" where
  "rl_takeAll now want [] = ([], Inr True)"
| "rl_takeAll now want ((ops, s) # ls) =
     (case lo_tryConsume ops of
        None \<Rightarrow> ((ops, s) # ls, Inl (TypeErr ''PowerRateLimit'' ''tryConsume''))
      | Some f \<Rightarrow>
          (case f want now s of
             (s', Inl e) \<Rightarrow> ((ops, s') # ls, Inl e)
           | (s', Inr ok) \<Rightarrow>
               if \<not> ok then ((ops, s') # ls, Inr False)
               else (let (ls', r) = rl_takeAll now want ls in ((ops, s') # ls', r))))"

text \<open>\<open>_undoCommit\<close>; what it throws is swallowed.\<close>

datatype commit = ByReserve js_val | ByConsume

definition rl_undoCommit :: "int \<Rightarrow> commit \<Rightarrow> 's leg \<Rightarrow> 's leg" where
  "rl_undoCommit want c l =
     (case l of (ops, s) \<Rightarrow>
        (case (c, lo_release ops) of
           (ByReserve token, Some f) \<Rightarrow> (ops, fst (f token s))
         | _ \<Rightarrow>
             (case lo_rollback ops of
                Some f \<Rightarrow> (ops, fst (f (JNum (Fin (of_int want))) s))
              | None \<Rightarrow>
                  (case lo_addTokens ops of
                     Some f \<Rightarrow> (ops, fst (f (JNum (Fin (of_int want))) s))
                   | None \<Rightarrow> (case lo_reset ops of Some f \<Rightarrow> (ops, fst (f s)) | None \<Rightarrow> (ops, s))))))"

text \<open>
  The committing loop: a leg that can reserve does, any other consumes; when one refuses or throws,
  those committed before it are undone, the last one first.
\<close>

fun rl_commit :: "rat \<Rightarrow> int \<Rightarrow> 's leg list \<Rightarrow> 's leg list \<times> bool" where
  "rl_commit now want [] = ([], True)"
| "rl_commit now want ((ops, s) # ls) =
     (let (s', c) =
        (case lo_reserve ops of
           Some f \<Rightarrow> (case f want s of (s', Inr token) \<Rightarrow> (s', if js_truthy token then Some (ByReserve token) else None)
                       | (s', Inl e) \<Rightarrow> (s', None))
         | None \<Rightarrow>
             (case lo_tryConsume ops of
                None \<Rightarrow> (s, None)
              | Some f \<Rightarrow> (case f want now s of (s', Inr True) \<Rightarrow> (s', Some ByConsume) | (s', _) \<Rightarrow> (s', None))))
      in case c of
           None \<Rightarrow> ((ops, s') # ls, False)
         | Some how \<Rightarrow>
             (let (ls', ok) = rl_commit now want ls in
              if ok then ((ops, s') # ls', True) else (rl_undoCommit want how (ops, s') # ls', False)))"

definition can_undo :: "'s leg \<Rightarrow> bool" where
  "can_undo l \<longleftrightarrow> lo_available (fst l) \<noteq> None \<or> lo_reserve (fst l) \<noteq> None \<or> lo_release (fst l) \<noteq> None
     \<or> lo_addTokens (fst l) \<noteq> None \<or> lo_rollback (fst l) \<noteq> None"

text \<open>\<open>_consumeIn\<close>: the legs, whether \<open>_legErrors\<close> is counted, and the answer.\<close>

definition rl_consumeIn :: "js_val \<Rightarrow> bool \<Rightarrow> rat \<Rightarrow> 's leg list \<Rightarrow> ('s leg list \<times> nat, bool) step" where
  "rl_consumeIn n atomic now legs =
     (case assertCount n ''n'' ''PowerRateLimit.tryConsume'' of
        Inl e \<Rightarrow> ((legs, 0), Inl e)
      | Inr want \<Rightarrow>
          if want = 0 then ((legs, 0), Inr True)
          else if \<not> list_all leg_checked legs then ((legs, 0), Inl (TypeErr ''PowerRateLimit'' ''limiter''))
          else
            (case rl_probe now want legs of
               (legs1, TooFew) \<Rightarrow> ((legs1, 0), Inr False)
             | (legs1, ProbeThrew) \<Rightarrow> ((legs1, 1), Inr False)
             | (legs1, Enough allHaveAvailable) \<Rightarrow>
                 if \<not> atomic \<or> allHaveAvailable then
                   (let (legs2, r) = rl_takeAll now want legs1 in ((legs2, 0), r))
                 else if \<not> list_all can_undo legs1 then ((legs1, 0), Inr False)
                 else (let (legs2, ok) = rl_commit now want legs1 in ((legs2, 0), Inr ok))))"

section \<open>The composition\<close>

datatype degrade = DegradeLocal | FailClosed

datatype path = PathShared | PathSharedDenied | PathLocal | PathFailClosed

text \<open>
  \<open>rl_slots\<close> is \<open>None\<close> for a composition without \<open>keyFn\<close>, whose legs are \<open>rl_limiters\<close>; a keyed one
  builds the legs of a slot on first use.
\<close>

record 's rate_limit =
  rl_limiters :: "'s leg list"
  rl_slots :: "'s leg list option list option"
  rl_atomicDefault :: bool
  rl_requests :: nat
  rl_rejected :: nat
  rl_legErrors :: nat
  rl_degrade :: degrade
  rl_lastPath :: "path option"

text \<open>\<open>_slotFor\<close>: the hash of the key picks the slot; \<open>build\<close> are the factories.\<close>

definition fnv1a :: "string \<Rightarrow> 32 word" where
  "fnv1a key = foldl (\<lambda>h c. (h XOR of_char c) * 16777619) 2166136261 key"

definition slot_index :: "nat \<Rightarrow> string \<Rightarrow> nat" where
  "slot_index buckets key = unat (fnv1a key) mod buckets"

definition rl_slotFor :: "(nat \<Rightarrow> 's leg list) \<Rightarrow> string \<Rightarrow> 's leg list option list \<Rightarrow> nat \<times> 's leg list" where
  "rl_slotFor build key slots =
     (let i = slot_index (length slots) key in (i, case slots ! i of Some legs \<Rightarrow> legs | None \<Rightarrow> build i))"

text \<open>The legs of a call, and putting them back.\<close>

definition rl_legs :: "(nat \<Rightarrow> 's leg list) \<Rightarrow> string \<Rightarrow> 's rate_limit \<Rightarrow> 's leg list" where
  "rl_legs build key r = (case rl_slots r of None \<Rightarrow> rl_limiters r | Some slots \<Rightarrow> snd (rl_slotFor build key slots))"

definition rl_setLegs :: "string \<Rightarrow> 's leg list \<Rightarrow> 's rate_limit \<Rightarrow> 's rate_limit" where
  "rl_setLegs key legs r =
     (case rl_slots r of
        None \<Rightarrow> r\<lparr>rl_limiters := legs\<rparr>
      | Some slots \<Rightarrow> r\<lparr>rl_slots := Some (slots[slot_index (length slots) key := Some legs])\<rparr>)"

definition rl_consume :: "(nat \<Rightarrow> 's leg list) \<Rightarrow> string \<Rightarrow> js_val \<Rightarrow> bool option \<Rightarrow> rat \<Rightarrow> 's rate_limit \<Rightarrow> ('s rate_limit, bool) step" where
  "rl_consume build key n atomic now r =
     (let ((legs, errs), res) = rl_consumeIn n (case atomic of None \<Rightarrow> rl_atomicDefault r | Some b \<Rightarrow> b) now (rl_legs build key r)
      in ((rl_setLegs key legs r)\<lparr>rl_legErrors := rl_legErrors r + errs\<rparr>, res))"

text \<open>
  What a shared counter answers to \<open>checkAndIncrement\<close>: \<open>None\<close> is a composition without one.
  \<open>SharedLater\<close> is a promise; its settlement is the later call \<open>rl_sharedSettled\<close>.
\<close>

datatype shared = SharedOk | SharedDenied | SharedThrew | SharedLater

definition rl_decide ::
  "(nat \<Rightarrow> 's leg list) \<Rightarrow> string \<Rightarrow> js_val \<Rightarrow> bool option \<Rightarrow> rat \<Rightarrow> shared option \<Rightarrow> 's rate_limit \<Rightarrow> ('s rate_limit, bool option) step" where
  "rl_decide build key n atomic now sh r =
     (let go = (\<lambda>x. let (x', res) = rl_consume build key n atomic now x in (x', map_sum id Some res)) in
      case sh of
        None \<Rightarrow> go r
      | Some SharedLater \<Rightarrow> (r, Inr None)
      | Some SharedDenied \<Rightarrow> (r\<lparr>rl_lastPath := Some PathSharedDenied\<rparr>, Inr (Some False))
      | Some SharedOk \<Rightarrow> go (r\<lparr>rl_lastPath := Some PathShared\<rparr>)
      | Some SharedThrew \<Rightarrow>
          (case rl_degrade r of
             FailClosed \<Rightarrow> (r\<lparr>rl_lastPath := Some PathFailClosed\<rparr>, Inr (Some False))
           | DegradeLocal \<Rightarrow> go (r\<lparr>rl_lastPath := Some PathLocal\<rparr>)))"

definition rl_tryConsume ::
  "(nat \<Rightarrow> 's leg list) \<Rightarrow> string \<Rightarrow> js_val \<Rightarrow> bool option \<Rightarrow> rat \<Rightarrow> shared option \<Rightarrow> 's rate_limit \<Rightarrow> ('s rate_limit, bool option) step" where
  "rl_tryConsume build key n0 atomic now sh r =
     (let n = default_to (JNum (Fin 1)) n0;
          (r1, res) = rl_decide build key n atomic now sh (r\<lparr>rl_requests := rl_requests r + 1\<rparr>)
      in (if res = Inr (Some False) then r1\<lparr>rl_rejected := rl_rejected r1 + 1\<rparr> else r1, res))"

text \<open>The promise of the shared counter settles; \<open>None\<close> is a rejection.\<close>

definition rl_sharedSettled ::
  "(nat \<Rightarrow> 's leg list) \<Rightarrow> string \<Rightarrow> js_val \<Rightarrow> bool option \<Rightarrow> rat \<Rightarrow> bool option \<Rightarrow> 's rate_limit \<Rightarrow> ('s rate_limit, bool) step" where
  "rl_sharedSettled build key n0 atomic now ok r =
     (let n = default_to (JNum (Fin 1)) n0;
          (r1, res) =
            (case ok of
               Some True \<Rightarrow> rl_consume build key n atomic now (r\<lparr>rl_lastPath := Some PathShared\<rparr>)
             | Some False \<Rightarrow> (r\<lparr>rl_lastPath := Some PathSharedDenied\<rparr>, Inr False)
             | None \<Rightarrow>
                 (case rl_degrade r of
                    FailClosed \<Rightarrow> (r\<lparr>rl_lastPath := Some PathFailClosed\<rparr>, Inr False)
                  | DegradeLocal \<Rightarrow> rl_consume build key n atomic now (r\<lparr>rl_lastPath := Some PathLocal\<rparr>)))
      in (if res = Inr False then r1\<lparr>rl_rejected := rl_rejected r1 + 1\<rparr> else r1, res))"

text \<open>\<open>available\<close>: the least of the legs; a leg without the method, or one that throws, answers 0.\<close>

definition num_min :: "js_num \<Rightarrow> js_num \<Rightarrow> js_num" where
  "num_min a b = (if a = NaN \<or> b = NaN then NaN else if num_lt b a then b else a)"

definition num_or_zero :: "js_num \<Rightarrow> js_num" where
  "num_or_zero n = (if n = NaN then Fin 0 else n)"

fun rl_least :: "rat \<Rightarrow> js_num \<Rightarrow> 's leg list \<Rightarrow> 's leg list \<times> js_num" where
  "rl_least now least [] = ([], if least = PosInf then Fin 0 else least)"
| "rl_least now least ((ops, s) # ls) =
     (case lo_available ops of
        None \<Rightarrow> ((ops, s) # ls, Fin 0)
      | Some f \<Rightarrow>
          (case f now s of
             (s', Inl e) \<Rightarrow> ((ops, s') # ls, Fin 0)
           | (s', Inr a) \<Rightarrow>
               (let (ls', v) = rl_least now (num_min least (num_or_zero a)) ls in ((ops, s') # ls', v))))"

definition rl_available :: "(nat \<Rightarrow> 's leg list) \<Rightarrow> string \<Rightarrow> rat \<Rightarrow> 's rate_limit \<Rightarrow> 's rate_limit \<times> js_num" where
  "rl_available build key now r =
     (let legs = rl_legs build key r in
      if legs = [] then (rl_setLegs key legs r, PosInf)
      else (let (legs', v) = rl_least now PosInf legs in (rl_setLegs key legs' r, v)))"

text \<open>\<open>reserve\<close>: \<open>Inr None\<close> is \<open>null\<close>, otherwise the token's \<open>n\<close>.\<close>

definition rl_reserve ::
  "(nat \<Rightarrow> 's leg list) \<Rightarrow> string \<Rightarrow> js_val \<Rightarrow> rat \<Rightarrow> shared option \<Rightarrow> 's rate_limit \<Rightarrow> ('s rate_limit, int option) step" where
  "rl_reserve build key n now sh r =
     (case assertCount (default_to (JNum (Fin 1)) n) ''n'' ''PowerRateLimit.reserve'' of
        Inl e \<Rightarrow> (r, Inl e)
      | Inr want \<Rightarrow>
          if want = 0 then (r, Inr (Some 0))
          else (case rl_tryConsume build key (JNum (Fin (of_int want))) (Some True) now sh r of
                  (r1, Inl e) \<Rightarrow> (r1, Inl e)
                | (r1, Inr None) \<Rightarrow> (r1, Inl (TypeErr ''PowerRateLimit'' ''reserve''))
                | (r1, Inr (Some ok)) \<Rightarrow> (r1, Inr (if ok then Some want else None))))"

definition rl_releaseCount :: "js_val \<Rightarrow> js_num result" where
  "rl_releaseCount v =
     (if is_nullish v then Inr (Fin 0)
      else case v of
        JObj ps \<Rightarrow> map_sum id num_or_zero (to_number (get_prop ''n'' v))
      | _ \<Rightarrow> map_sum id (\<lambda>n. case n of Fin q \<Rightarrow> Fin (of_int (max 0 \<lfloor>q\<rfloor>)) | PosInf \<Rightarrow> PosInf | _ \<Rightarrow> Fin 0) (to_number v))"

text \<open>One leg of \<open>release\<close>: the first of its methods that exists and does not throw.\<close>

definition rl_releaseLeg :: "js_val \<Rightarrow> js_num \<Rightarrow> 's leg \<Rightarrow> 's leg" where
  "rl_releaseLeg v n l =
     (let use = (\<lambda>m arg s. case m of None \<Rightarrow> (s, False) | Some f \<Rightarrow> (case f arg s of (s', Inl e) \<Rightarrow> (s', False) | (s', Inr _) \<Rightarrow> (s', True)));
          (ops, s) = l; (s1, d1) = use (lo_release ops) v s
      in if d1 then (ops, s1)
         else (let (s2, d2) = use (lo_rollback ops) (JNum n) s1 in
               if d2 then (ops, s2) else (ops, fst (use (lo_addTokens ops) (JNum n) s2))))"

definition rl_release :: "(nat \<Rightarrow> 's leg list) \<Rightarrow> string \<Rightarrow> js_val \<Rightarrow> 's rate_limit \<Rightarrow> ('s rate_limit, unit) step" where
  "rl_release build key v r =
     (case rl_releaseCount v of
        Inl e \<Rightarrow> (r, Inl e)
      | Inr n \<Rightarrow>
          if n = Fin 0 then (r, Inr ())
          else (rl_setLegs key (map (rl_releaseLeg v n) (rl_legs build key r)) r, Inr ()))"

definition reset_leg :: "'s leg \<Rightarrow> 's leg" where
  "reset_leg l = (case lo_reset (fst l) of None \<Rightarrow> l | Some f \<Rightarrow> (fst l, fst (f (snd l))))"

definition rl_reset :: "'s rate_limit \<Rightarrow> 's rate_limit" where
  "rl_reset r =
     (case rl_slots r of
        None \<Rightarrow> r\<lparr>rl_limiters := map reset_leg (rl_limiters r), rl_legErrors := 0\<rparr>
      | Some slots \<Rightarrow> r\<lparr>rl_slots := Some (map (map_option (map reset_leg)) slots), rl_legErrors := 0\<rparr>)"

definition rl_dispose :: "'s rate_limit \<Rightarrow> 's rate_limit" where
  "rl_dispose r =
     rl_reset (r\<lparr>rl_lastPath := None, rl_slots := map_option (map (\<lambda>_. None)) (rl_slots r)\<rparr>)"

definition rl_rejectionRate :: "'s rate_limit \<Rightarrow> rat" where
  "rl_rejectionRate r = (if 0 < rl_requests r then of_nat (rl_rejected r) / of_nat (rl_requests r) else 0)"

definition rl_builtSlots :: "'s rate_limit \<Rightarrow> nat" where
  "rl_builtSlots r = (case rl_slots r of None \<Rightarrow> 0 | Some slots \<Rightarrow> length (filter (\<lambda>x. x \<noteq> None) (map (map_option (\<lambda>_. ())) slots)))"

section \<open>Construction\<close>

text \<open>\<open>legs\<close> is \<open>None\<close> when the first argument is no array; \<open>factories\<close> says every entry is a function.\<close>

definition rl_new :: "'s leg list option \<Rightarrow> bool \<Rightarrow> js_val \<Rightarrow> 's rate_limit result" where
  "rl_new legs factories options0 =
     (let options = default_to (JObj []) options0; o' = (\<lambda>name. get_prop name options) in
      res_bind (assertKnownOptions options [''atomic'', ''keyFn'', ''buckets'', ''observability'', ''sharedState'', ''degrade''] ''PowerRateLimit'') (\<lambda>_.
      case legs of
        None \<Rightarrow> Inl (TypeErr ''PowerRateLimit'' ''limiters'')
      | Some ls \<Rightarrow>
          if options = JNull then Inl NullOptions
          else
            (let shared = js_truthy (o' ''sharedState'');
                 dg = (if js_truthy (o' ''degrade'') then o' ''degrade'' else JStr ''local'');
                 buckets = (if is_nullish (o' ''buckets'') then JNum (Fin 1024) else o' ''buckets'')
             in if shared \<and> (\<forall>f. get_prop ''checkAndIncrement'' (o' ''sharedState'') \<noteq> JFun f) then Inl (TypeErr ''PowerRateLimit'' ''sharedState'')
                else if shared \<and> dg \<noteq> JStr ''local'' \<and> dg \<noteq> JStr ''fail-closed'' then Inl (TypeErr ''PowerRateLimit'' ''degrade'')
                else if \<not> is_nullish (o' ''keyFn'') \<and> (\<forall>f. o' ''keyFn'' \<noteq> JFun f) then Inl (TypeErr ''PowerRateLimit'' ''keyFn'')
                else
                  (let base = \<lparr>rl_limiters = ls, rl_slots = None, rl_atomicDefault = js_truthy (o' ''atomic''), rl_requests = 0,
                         rl_rejected = 0, rl_legErrors = 0, rl_degrade = (if dg = JStr ''fail-closed'' then FailClosed else DegradeLocal),
                         rl_lastPath = None\<rparr>
                   in if is_nullish (o' ''keyFn'') then Inr base
                      else
                        (case buckets of
                           JNum n \<Rightarrow>
                             if \<not> is_integer n \<or> num_lt n (Fin 1) then Inl (TypeErr ''PowerRateLimit'' ''buckets'')
                             else if \<not> factories then Inl (TypeErr ''PowerRateLimit'' ''factories'')
                             else Inr (base\<lparr>rl_slots := Some (replicate (nat \<lfloor>num_rat n\<rfloor>) None)\<rparr>)
                         | _ \<Rightarrow> Inl (TypeErr ''PowerRateLimit'' ''buckets'')))))) "

section \<open>The library's limiters as legs\<close>

datatype limiter = LSliding sliding | LThrottle throttle | LGcra gcra

text \<open>
  The methods of the limiters as a composition calls them: with the time of the composition, beside
  the reading \<open>clk\<close> of the limiter's own clock.  Calling a method the class does not have throws.
\<close>

definition limiter_available :: "rat \<Rightarrow> rat \<Rightarrow> limiter \<Rightarrow> (limiter, js_num) step" where
  "limiter_available clk now l =
     (case l of
        LSliding s \<Rightarrow> (case the (sliding_available clk (Some now) s) of (s', r) \<Rightarrow> (LSliding s', map_sum id Fin r))
      | LThrottle s \<Rightarrow> (case throttle_available clk (Some now) s of (s', r) \<Rightarrow> (LThrottle s', Inr (Fin r)))
      | LGcra s \<Rightarrow> (l, Inr (Fin (of_int (gcra_available clk (Some now) s)))))"

definition limiter_tryConsume :: "rat \<Rightarrow> int \<Rightarrow> rat \<Rightarrow> limiter \<Rightarrow> (limiter, bool) step" where
  "limiter_tryConsume clk n now l =
     (let v = JNum (Fin (of_int n)) in
      case l of
        LSliding s \<Rightarrow> (case the (sliding_tryConsume v clk (Some now) s) of (s', r) \<Rightarrow> (LSliding s', r))
      | LThrottle s \<Rightarrow> (case throttle_tryConsume v clk (Some now) s of (s', r) \<Rightarrow> (LThrottle s', r))
      | LGcra s \<Rightarrow> (case gcra_tryConsume v clk (Some now) s of (s', r) \<Rightarrow> (LGcra s', r)))"

definition limiter_reserve :: "rat \<Rightarrow> int \<Rightarrow> limiter \<Rightarrow> (limiter, js_val) step" where
  "limiter_reserve clk n l =
     (case l of
        LThrottle s \<Rightarrow>
          (case throttle_reserve (JNum (Fin (of_int n))) clk None s of
             (s', r) \<Rightarrow> (LThrottle s', map_sum id (\<lambda>t. case t of None \<Rightarrow> JNull | Some m \<Rightarrow> JObj [(''n'', JNum (Fin (of_int m)))]) r))
      | _ \<Rightarrow> (l, Inl (TypeErr ''limiter'' ''reserve'')))"

definition limiter_release :: "js_val \<Rightarrow> limiter \<Rightarrow> (limiter, unit) step" where
  "limiter_release v l =
     (case l of
        LThrottle s \<Rightarrow> (case throttle_release v s of (s', r) \<Rightarrow> (LThrottle s', r))
      | _ \<Rightarrow> (l, Inl (TypeErr ''limiter'' ''release'')))"

definition limiter_addTokens :: "js_val \<Rightarrow> limiter \<Rightarrow> (limiter, unit) step" where
  "limiter_addTokens v l =
     (case l of
        LThrottle s \<Rightarrow> (case throttle_addTokens v s of (s', r) \<Rightarrow> (LThrottle s', r))
      | _ \<Rightarrow> (l, Inl (TypeErr ''limiter'' ''addTokens'')))"

definition limiter_reset :: "rat \<Rightarrow> limiter \<Rightarrow> (limiter, unit) step" where
  "limiter_reset clk l =
     (case l of
        LSliding s \<Rightarrow> (LSliding (sliding_reset s), Inr ())
      | LThrottle s \<Rightarrow> (case throttle_reset JUndefined clk s of (s', r) \<Rightarrow> (LThrottle s', r))
      | LGcra s \<Rightarrow> (LGcra (gcra_reset s), Inr ()))"

definition limiter_ops :: "rat \<Rightarrow> limiter \<Rightarrow> limiter leg_ops" where
  "limiter_ops clk l =
     (let bucket = (case l of LThrottle s \<Rightarrow> True | _ \<Rightarrow> False) in
      \<lparr>lo_available = Some (limiter_available clk), lo_tryConsume = Some (limiter_tryConsume clk),
       lo_reserve = (if bucket then Some (limiter_reserve clk) else None),
       lo_release = (if bucket then Some limiter_release else None),
       lo_rollback = (if bucket then Some limiter_release else None),
       lo_addTokens = (if bucket then Some limiter_addTokens else None),
       lo_reset = Some (limiter_reset clk)\<rparr>)"

definition limiter_leg :: "rat \<times> limiter \<Rightarrow> limiter leg" where
  "limiter_leg cl = (limiter_ops (fst cl) (snd cl), snd cl)"

section \<open>What a composition needs of a leg\<close>

text \<open>
  The contract: looking and taking do not throw, looking does not change what can be taken at the
  same instant, and what \<open>available\<close> announces is exactly what \<open>tryConsume\<close> grants.
\<close>

locale leg_contract =
  fixes avail :: "rat \<Rightarrow> 's \<Rightarrow> ('s, js_num) step"
    and take :: "int \<Rightarrow> rat \<Rightarrow> 's \<Rightarrow> ('s, bool) step"
    and ok :: "rat \<Rightarrow> 's \<Rightarrow> bool"
  assumes look: "ok now s \<Longrightarrow> \<exists>s' a. avail now s = (s', Inr a) \<and> ok now s'"
    and exact: "ok now s \<Longrightarrow> 0 < n \<Longrightarrow> avail now s = (s', Inr a) \<Longrightarrow>
       snd (take n now s) = Inr (\<not> num_lt a (Fin (of_int n))) \<and> snd (take n now s') = Inr (\<not> num_lt a (Fin (of_int n)))"

text \<open>A leg that keeps the contract at an instant, for a count.\<close>

definition lawful :: "rat \<Rightarrow> int \<Rightarrow> 's leg \<Rightarrow> bool" where
  "lawful now n l \<longleftrightarrow>
     (\<exists>f g s' a. lo_available (fst l) = Some f \<and> lo_tryConsume (fst l) = Some g \<and> f now (snd l) = (s', Inr a)
        \<and> snd (g n now (snd l)) = Inr (\<not> num_lt a (Fin (of_int n))) \<and> snd (g n now s') = Inr (\<not> num_lt a (Fin (of_int n))))"

context leg_contract
begin

lemma lawful_leg:
  assumes "ok now s" "0 < n" "lo_available ops = Some avail" "lo_tryConsume ops = Some take"
  shows "lawful now n (ops, s)"
  using look [OF assms(1)] exact [OF assms(1,2)] assms(3,4) by (fastforce simp: lawful_def)

end

text \<open>What a leg would answer alone, what looking leaves of it, and what taking leaves after a look.\<close>

definition leg_grants :: "rat \<Rightarrow> int \<Rightarrow> 's leg \<Rightarrow> bool" where
  "leg_grants now n l = (case lo_tryConsume (fst l) of None \<Rightarrow> False | Some g \<Rightarrow> snd (g n now (snd l)) = Inr True)"

definition looked :: "rat \<Rightarrow> 's leg \<Rightarrow> 's leg" where
  "looked now l = (case lo_available (fst l) of None \<Rightarrow> l | Some f \<Rightarrow> (fst l, fst (f now (snd l))))"

definition taken :: "rat \<Rightarrow> int \<Rightarrow> 's leg \<Rightarrow> 's leg" where
  "taken now n l = (case lo_tryConsume (fst l) of None \<Rightarrow> l | Some g \<Rightarrow> (fst l, fst (g n now (snd l))))"

lemma rl_probe_all:
  assumes "list_all (lawful now n) ls" "list_all (leg_grants now n) ls"
  shows "rl_probe now n ls = (map (looked now) ls, Enough True)"
  using assms
proof (induction ls)
  case (Cons l ls)
  obtain ops s where l: "l = (ops, s)" by (cases l)
  show ?case using Cons by (auto simp: l lawful_def leg_grants_def looked_def)
qed simp

lemma rl_probe_some:
  assumes "list_all (lawful now n) ls" "\<not> list_all (leg_grants now n) ls"
  shows "\<exists>ls'. rl_probe now n ls = (ls', TooFew) \<and> list_all2 (\<lambda>l l'. l' = l \<or> l' = looked now l) ls ls'"
  using assms
proof (induction ls)
  case (Cons l ls)
  obtain ops s where l: "l = (ops, s)" by (cases l)
  obtain f g s' a where c: "lo_available ops = Some f" "lo_tryConsume ops = Some g" "f now s = (s', Inr a)"
    "snd (g n now s) = Inr (\<not> num_lt a (Fin (of_int n)))"
    using Cons.prems(1) by (auto simp: l lawful_def)
  have lk: "looked now l = (ops, s')" using c by (simp add: l looked_def)
  show ?case
  proof (cases "num_lt a (Fin (of_int n))")
    case True
    have "list_all2 (\<lambda>l l'. l' = l \<or> l' = looked now l) ls ls" by (simp add: list_all2_same)
    then show ?thesis using True c lk by (simp add: l)
  next
    case False
    then have "leg_grants now n l" using c by (simp add: l leg_grants_def)
    then obtain ls' where "rl_probe now n ls = (ls', TooFew)" "list_all2 (\<lambda>l l'. l' = l \<or> l' = looked now l) ls ls'"
      using Cons by auto
    then show ?thesis using False c lk by (simp add: l)
  qed
qed simp

lemma rl_takeAll_all:
  assumes "list_all (lawful now n) ls" "list_all (leg_grants now n) ls"
  shows "rl_takeAll now n (map (looked now) ls) = (map (taken now n) (map (looked now) ls), Inr True)"
  using assms
proof (induction ls)
  case (Cons l ls)
  obtain ops s where l: "l = (ops, s)" by (cases l)
  obtain f g s' a where c: "lo_available ops = Some f" "lo_tryConsume ops = Some g" "f now s = (s', Inr a)"
    "snd (g n now s) = Inr (\<not> num_lt a (Fin (of_int n)))" "snd (g n now s') = Inr (\<not> num_lt a (Fin (of_int n)))"
    using Cons.prems(1) by (auto simp: l lawful_def)
  have lk: "looked now l = (ops, s')" using c by (simp add: l looked_def)
  have "snd (g n now s') = Inr True" using Cons.prems(2) c by (auto simp: l leg_grants_def)
  then show ?case using Cons c lk by (cases "g n now s'") (simp add: taken_def)
qed simp

section \<open>The limiters keep the contract\<close>

definition limiter_ok :: "rat \<Rightarrow> rat \<Rightarrow> limiter \<Rightarrow> bool" where
  "limiter_ok clk now l =
     (case l of
        LSliding s \<Rightarrow> (\<exists>t hist. sliding_rep s t hist \<and> t \<le> resolveLimiterNow clk (sw_nowExplicit s) (Some now))
      | LThrottle s \<Rightarrow> (\<exists>t. throttle_ok s t \<and> t \<le> resolveLimiterNow clk (th_nowExplicit s) (Some now))
      | LGcra s \<Rightarrow> gcra_ok s)"

lemma count_of_int: "0 \<le> n \<Longrightarrow> assertCount (default_to (JNum (Fin 1)) (JNum (Fin (of_int n)))) name site = Inr n"
  by (simp add: assertCount_def default_to_def)

lemma count_of_nat: "assertCount (default_to (JNum (Fin 1)) (JNum (Fin (of_nat n)))) name site = Inr (int n)"
  by (simp add: assertCount_def default_to_def)

lemma sliding_look:
  assumes rep: "sliding_rep s t hist" and t: "t \<le> resolveLimiterNow clk (sw_nowExplicit s) (Some now)"
  shows "\<exists>s'. sliding_available clk (Some now) s = Some (s', Inr (max 0 (sw_capacity s - rat_of_nat (in_last (sw_windowMs s)
      (resolveLimiterNow clk (sw_nowExplicit s) (Some now)) hist))))
    \<and> sliding_rep s' (resolveLimiterNow clk (sw_nowExplicit s) (Some now)) hist \<and> sw_capacity s' = sw_capacity s
    \<and> sw_windowMs s' = sw_windowMs s \<and> sw_nowExplicit s' = sw_nowExplicit s"
  using sliding_prune_rep [OF rep t] by (auto simp: sliding_available_def)

lemma sliding_grants:
  assumes "sliding_rep s t hist" "t \<le> resolveLimiterNow clk (sw_nowExplicit s) (Some now)" "0 < n"
  shows "snd (the (sliding_tryConsume (JNum (Fin (of_int n))) clk (Some now) s)) = Inr (of_int n \<le> max 0 (sw_capacity s
    - rat_of_nat (in_last (sw_windowMs s) (resolveLimiterNow clk (sw_nowExplicit s) (Some now)) hist)))"
proof -
  define m where "m = nat n"
  have m: "n = int m" "0 < m" using assms(3) by (simp_all add: m_def)
  have e: "(of_nat (in_last (sw_windowMs s) (resolveLimiterNow clk (sw_nowExplicit s) (Some now)) hist + m) \<le> sw_capacity s)
      \<longleftrightarrow> (rat_of_nat m \<le> max 0 (sw_capacity s - rat_of_nat (in_last (sw_windowMs s)
        (resolveLimiterNow clk (sw_nowExplicit s) (Some now)) hist)))"
    using m(2) by (auto simp: le_max_iff_disj)
  show ?thesis
    using sliding_tryConsume_rep [OF assms(1) refl assms(2) count_of_nat m(2), unfolded e] by (auto simp: m(1))
qed

lemma throttle_grants:
  assumes "0 < n"
  shows "snd (throttle_tryConsume (JNum (Fin (of_int n))) clk (Some now) s)
    = Inr (of_int n \<le> th_tokens (throttle_refill (resolveLimiterNow clk (th_nowExplicit s) (Some now)) s))"
  using assms by (simp add: throttle_tryConsume_def count_of_int throttle_take_def Let_def)

lemma gcra_grants:
  assumes "gcra_ok s" "0 < n"
  shows "snd (gcra_tryConsume (JNum (Fin (of_int n))) clk (Some now) s) = Inr (n \<le> gcra_available clk (Some now) s)"
  using gcra_tryConsume_step [OF assms(1) count_of_int assms(2) refl, of clk "Some now"] gcra_covers_iff [OF assms] assms(2)
  by (simp add: gcra_available_def Let_def)

lemma num_lt_Fin: "\<not> num_lt (Fin a) (Fin b) \<longleftrightarrow> b \<le> a"
  by (simp add: not_less)

lemma limiter_look:
  assumes "limiter_ok clk now l"
  shows "\<exists>l' a. limiter_available clk now l = (l', Inr a) \<and> limiter_ok clk now l'"
proof (cases l)
  case (LSliding s)
  then obtain t hist where r: "sliding_rep s t hist" "t \<le> resolveLimiterNow clk (sw_nowExplicit s) (Some now)"
    using assms by (auto simp: limiter_ok_def)
  show ?thesis using sliding_look [OF r] by (force simp: LSliding limiter_available_def limiter_ok_def)
next
  case (LThrottle s)
  then obtain t where r: "throttle_ok s t" "t \<le> resolveLimiterNow clk (th_nowExplicit s) (Some now)"
    using assms by (auto simp: limiter_ok_def)
  show ?thesis using throttle_refill_ok [OF r]
    by (auto simp: LThrottle limiter_available_def limiter_ok_def throttle_available_def Let_def throttle_refill_frame)
qed (use assms in \<open>simp add: limiter_available_def limiter_ok_def\<close>)

lemma limiter_exact:
  assumes ok: "limiter_ok clk now l" and n: "0 < n" and a: "limiter_available clk now l = (l', Inr a)"
  shows "snd (limiter_tryConsume clk n now l) = Inr (\<not> num_lt a (Fin (of_int n)))
    \<and> snd (limiter_tryConsume clk n now l') = Inr (\<not> num_lt a (Fin (of_int n)))"
proof (cases l)
  case (LSliding s)
  then obtain t hist where r: "sliding_rep s t hist" "t \<le> resolveLimiterNow clk (sw_nowExplicit s) (Some now)"
    using ok by (auto simp: limiter_ok_def)
  obtain s' where s': "sliding_available clk (Some now) s = Some (s', Inr (max 0 (sw_capacity s - rat_of_nat (in_last (sw_windowMs s)
      (resolveLimiterNow clk (sw_nowExplicit s) (Some now)) hist))))"
    "sliding_rep s' (resolveLimiterNow clk (sw_nowExplicit s) (Some now)) hist" "sw_capacity s' = sw_capacity s"
    "sw_windowMs s' = sw_windowMs s" "sw_nowExplicit s' = sw_nowExplicit s"
    using sliding_look [OF r] by blast
  have l': "l' = LSliding s'" "a = Fin (max 0 (sw_capacity s - rat_of_nat (in_last (sw_windowMs s)
      (resolveLimiterNow clk (sw_nowExplicit s) (Some now)) hist)))"
    using a s'(1) by (auto simp: LSliding limiter_available_def)
  have g: "snd (the (sliding_tryConsume (JNum (Fin (of_int n))) clk (Some now) s)) = Inr (\<not> num_lt a (Fin (of_int n)))"
    "snd (the (sliding_tryConsume (JNum (Fin (of_int n))) clk (Some now) s')) = Inr (\<not> num_lt a (Fin (of_int n)))"
    using sliding_grants [OF r n] sliding_grants [OF s'(2) _ n, of clk now] s'(3-5) unfolding l'(2) num_lt_Fin by simp_all
  have "snd (limiter_tryConsume clk n now (LSliding x)) = snd (the (sliding_tryConsume (JNum (Fin (of_int n))) clk (Some now) x))" for x
    by (simp add: limiter_tryConsume_def Let_def case_prod_unfold)
  then show ?thesis using g by (simp add: LSliding l')
next
  case (LThrottle s)
  then obtain t where r: "throttle_ok s t" "t \<le> resolveLimiterNow clk (th_nowExplicit s) (Some now)"
    using ok by (auto simp: limiter_ok_def)
  have l': "l' = LThrottle (throttle_refill (resolveLimiterNow clk (th_nowExplicit s) (Some now)) s)"
    "a = Fin (th_tokens (throttle_refill (resolveLimiterNow clk (th_nowExplicit s) (Some now)) s))"
    using a by (auto simp: LThrottle limiter_available_def throttle_available_def Let_def)
  have "snd (limiter_tryConsume clk n now (LThrottle x)) = snd (throttle_tryConsume (JNum (Fin (of_int n))) clk (Some now) x)" for x
    by (simp add: limiter_tryConsume_def Let_def case_prod_unfold)
  then show ?thesis
    by (simp add: LThrottle l' num_lt_Fin throttle_grants [OF n] throttle_refill_frame throttle_refill_twice [OF r order_refl] not_less)
next
  case (LGcra s)
  have l': "l' = LGcra s" "a = Fin (of_int (gcra_available clk (Some now) s))"
    using a by (auto simp: LGcra limiter_available_def)
  have "snd (limiter_tryConsume clk n now (LGcra x)) = snd (gcra_tryConsume (JNum (Fin (of_int n))) clk (Some now) x)" for x
    by (simp add: limiter_tryConsume_def Let_def case_prod_unfold)
  moreover have "gcra_ok s" using ok by (simp add: LGcra limiter_ok_def)
  ultimately show ?thesis by (simp add: LGcra l' num_lt_Fin gcra_grants [OF _ n] not_less)
qed

interpretation lib: leg_contract "limiter_available clk" "limiter_tryConsume clk" "limiter_ok clk" for clk
  by unfold_locales (use limiter_look limiter_exact in blast)+

lemma limiter_leg_lawful: "limiter_ok clk now l \<Longrightarrow> 0 < n \<Longrightarrow> lawful now n (limiter_leg (clk, l))"
  unfolding limiter_leg_def fst_conv snd_conv by (rule lib.lawful_leg) (simp_all add: limiter_ops_def Let_def)

section \<open>All or nothing\<close>

lemma rl_consumeIn_lawful:
  assumes n: "assertCount v ''n'' ''PowerRateLimit.tryConsume'' = Inr n" "0 < n" and law: "list_all (lawful now n) ls"
  shows "if list_all (leg_grants now n) ls then rl_consumeIn v atomic now ls = ((map (\<lambda>l. taken now n (looked now l)) ls, 0), Inr True)
    else \<exists>ls'. rl_consumeIn v atomic now ls = ((ls', 0), Inr False) \<and> list_all2 (\<lambda>l l'. l' = l \<or> l' = looked now l) ls ls'"
proof (cases "list_all (leg_grants now n) ls")
  case True
  have c: "list_all leg_checked ls" using law by (auto simp: list_all_iff lawful_def leg_checked_def)
  show ?thesis using True n c rl_probe_all [OF law True] rl_takeAll_all [OF law True]
    by (simp add: rl_consumeIn_def Let_def comp_def)
next
  case False
  have c: "list_all leg_checked ls" using law by (auto simp: list_all_iff lawful_def leg_checked_def)
  show ?thesis using False n c rl_probe_some [OF law False] by (auto simp: rl_consumeIn_def)
qed

text \<open>
  C32. A composition of the library's limiters is all or nothing: one call takes the count from every leg exactly when
  every leg alone would grant it at that instant; otherwise it is refused and no leg is charged, each being at most
  looked at.  This holds with and without \<open>atomic\<close>, keyed or not, whatever the slots of other keys hold.
\<close>

theorem ratelimit_all_or_nothing:
  assumes "rl_legs build key r = map limiter_leg cls" "\<forall>cl\<in>set cls. limiter_ok (fst cl) now (snd cl)"
    and "assertCount (default_to (JNum (Fin 1)) v) ''n'' ''PowerRateLimit.tryConsume'' = Inr n" "0 < n"
    and "legs = map limiter_leg cls"
  shows "if list_all (leg_grants now n) legs
    then rl_tryConsume build key v atomic now None r
      = (rl_setLegs key (map (\<lambda>l. taken now n (looked now l)) legs) (r\<lparr>rl_requests := rl_requests r + 1\<rparr>), Inr (Some True))
    else \<exists>legs'. rl_tryConsume build key v atomic now None r
      = (rl_setLegs key legs' (r\<lparr>rl_requests := rl_requests r + 1, rl_rejected := rl_rejected r + 1\<rparr>), Inr (Some False))
        \<and> list_all2 (\<lambda>l l'. l' = l \<or> l' = looked now l) legs legs'"
proof -
  have law: "list_all (lawful now n) legs"
    using assms(2,4) limiter_leg_lawful by (auto simp: assms(5) list_all_iff)
  have legs: "rl_legs build key (r\<lparr>rl_requests := rl_requests r + 1\<rparr>) = legs" using assms(1,5) by (simp add: rl_legs_def split: option.splits)
  have set: "(rl_setLegs key ls (r\<lparr>rl_requests := q\<rparr>))\<lparr>rl_legErrors := rl_legErrors r\<rparr> = rl_setLegs key ls (r\<lparr>rl_requests := q\<rparr>)"
    "(rl_setLegs key ls (r\<lparr>rl_requests := q\<rparr>))\<lparr>rl_rejected := rl_rejected r + 1\<rparr>
       = rl_setLegs key ls (r\<lparr>rl_requests := q, rl_rejected := rl_rejected r + 1\<rparr>)"
    "rl_rejected (rl_setLegs key ls (r\<lparr>rl_requests := q\<rparr>)) = rl_rejected r" for ls q
    by (cases r; simp add: rl_setLegs_def split: option.split)+
  have e: "rl_tryConsume build key v atomic now None r
      = (let ((ls, errs), res) = rl_consumeIn (default_to (JNum (Fin 1)) v) (case atomic of None \<Rightarrow> rl_atomicDefault r | Some b \<Rightarrow> b) now legs;
             r1 = (rl_setLegs key ls (r\<lparr>rl_requests := rl_requests r + 1\<rparr>))\<lparr>rl_legErrors := rl_legErrors r + errs\<rparr>
         in (if map_sum id Some res = Inr (Some False) then r1\<lparr>rl_rejected := rl_rejected r1 + 1\<rparr> else r1, map_sum id Some res))"
    by (simp add: rl_tryConsume_def rl_decide_def rl_consume_def legs [simplified] Let_def case_prod_unfold cong: option.case_cong)
  note c = rl_consumeIn_lawful [OF assms(3,4) law, of "case atomic of None \<Rightarrow> rl_atomicDefault r | Some b \<Rightarrow> b"]
  show ?thesis
  proof (cases "list_all (leg_grants now n) legs")
    case True
    then show ?thesis using c by (simp add: e Let_def set)
  next
    case False
    then obtain ls' where "rl_consumeIn (default_to (JNum (Fin 1)) v) (case atomic of None \<Rightarrow> rl_atomicDefault r | Some b \<Rightarrow> b) now legs
        = ((ls', 0), Inr False)" "list_all2 (\<lambda>l l'. l' = l \<or> l' = looked now l) legs ls'"
      using c by auto
    then show ?thesis using False by (auto simp: e Let_def set [simplified])
  qed
qed

text \<open>A bucket of 2 and a rate of 1 per 1000 with a burst of 2: three units are refused, two are taken from both.\<close>

definition two_legs :: "(rat \<times> limiter) list" where
  "two_legs = [(0, LThrottle (projr (throttle_new (JObj [(''capacity'', JNum (Fin 2))]) 0))),
     (0, LGcra (projr (gcra_new (JObj [(''rate'', JNum (Fin 1)), (''burst'', JNum (Fin 2))]))))]"

definition two_leg_limit :: "limiter rate_limit" where
  "two_leg_limit = projr (rl_new (Some (map limiter_leg two_legs)) False (JObj []))"

lemma two_legs_ok: "\<forall>cl\<in>set two_legs. limiter_ok (fst cl) 5 (snd cl)"
proof -
  have t: "throttle_new (JObj [(''capacity'', JNum (Fin 2))]) 0 = Inr (projr (throttle_new (JObj [(''capacity'', JNum (Fin 2))]) 0))"
    by code_simp
  have g: "gcra_ok (projr (gcra_new (JObj [(''rate'', JNum (Fin 1)), (''burst'', JNum (Fin 2))])))" by code_simp
  show ?thesis using throttle_new_ok [OF t] g
    by (auto simp: two_legs_def limiter_ok_def resolveLimiterNow_def intro!: exI [of _ "0 :: rat"])
qed

theorem ratelimit_all_or_nothing_witness:
  "snd (rl_tryConsume (\<lambda>_. []) [] (JNum (Fin 2)) None 5 None two_leg_limit) = Inr (Some True)
    \<and> snd (rl_tryConsume (\<lambda>_. []) [] (JNum (Fin 3)) None 5 None two_leg_limit) = Inr (Some False)"
proof -
  have r: "rl_legs (\<lambda>_. []) [] two_leg_limit = map limiter_leg two_legs"
    by (simp add: two_leg_limit_def rl_new_def Let_def assertKnownOptions_def default_to_def res_bind_def js_truthy_def rl_legs_def)
  have c: "assertCount (default_to (JNum (Fin 1)) (JNum (Fin 2))) ''n'' ''PowerRateLimit.tryConsume'' = Inr 2"
    "assertCount (default_to (JNum (Fin 1)) (JNum (Fin 3))) ''n'' ''PowerRateLimit.tryConsume'' = Inr 3" by code_simp+
  have g: "list_all (leg_grants 5 2) (map limiter_leg two_legs)" "\<not> list_all (leg_grants 5 3) (map limiter_leg two_legs)"
    by code_simp+
  show ?thesis
    using ratelimit_all_or_nothing [OF r two_legs_ok c(1) _ refl, of None] ratelimit_all_or_nothing [OF r two_legs_ok c(2) _ refl, of None] g
    by auto
qed

text \<open>A call for one key leaves the slots of the others as they are.\<close>

lemma ratelimit_keys_apart:
  assumes "rl_slots r = Some slots" "slot_index (length slots) key \<noteq> i"
  shows "\<exists>slots'. rl_slots (fst (rl_tryConsume build key v atomic now sh r)) = Some slots' \<and> length slots' = length slots \<and> slots' ! i = slots ! i"
proof -
  have c: "\<exists>slots'. rl_slots (fst (rl_consume build key n a now x)) = Some slots' \<and> length slots' = length slots \<and> slots' ! i = slots ! i"
    if "rl_slots x = Some slots" for x n a
    using assms(2) that by (simp add: rl_consume_def Let_def case_prod_unfold rl_setLegs_def)
  have d: "\<exists>slots'. rl_slots (fst (rl_decide build key n a now sh x)) = Some slots' \<and> length slots' = length slots \<and> slots' ! i = slots ! i"
    if "rl_slots x = Some slots" for x n a
    using c that by (auto simp: rl_decide_def Let_def case_prod_unfold that split: option.split shared.split degrade.split)
  show ?thesis using d [of "r\<lparr>rl_requests := rl_requests r + 1\<rparr>"] assms(1)
    by (simp add: rl_tryConsume_def Let_def case_prod_unfold)
qed

section \<open>What undoing and reserving get wrong\<close>

text \<open>
  A leg that can only \<open>reset\<close> is undone by forgetting everything: with four of its six units spent, a refused
  atomic call leaves it with all six.  The refusing leg offers \<open>reserve\<close> and nothing else.
\<close>

definition refusing_leg :: "limiter leg_ops" where
  "refusing_leg = \<lparr>lo_available = None, lo_tryConsume = None, lo_reserve = Some (\<lambda>n s. (s, Inr JNull)), lo_release = None,
     lo_rollback = None, lo_addTokens = None, lo_reset = None\<rparr>"

definition spent_gcra :: gcra where
  "spent_gcra = fst (gcra_tryConsume (JNum (Fin 4)) 0 None (projr (gcra_new (JObj [(''rate'', JNum (Fin 1)), (''burst'', JNum (Fin 5))]))))"

lemma refused_call_refills_leg:
  "gcra_available 0 None spent_gcra = 2 \<and>
   (case rl_consumeIn (JNum (Fin 1)) True 0 [limiter_leg (0, LGcra spent_gcra), (refusing_leg, LGcra spent_gcra)] of
      ((l # _, _), Inr False) \<Rightarrow> (case snd l of LGcra s \<Rightarrow> gcra_available 0 None s = 6 | _ \<Rightarrow> False)
    | _ \<Rightarrow> False)"
  by code_simp

text \<open>A leg with \<open>reserve\<close> and \<open>available\<close> passes the check of the legs but makes the plain loop throw.\<close>

lemma reserving_leg_throws:
  "snd (rl_consumeIn (JNum (Fin 1)) True 0 [(refusing_leg\<lparr>lo_available := Some (\<lambda>now s. (s, Inr (Fin 9)))\<rparr>, LGcra spent_gcra)])
     = Inl (TypeErr ''PowerRateLimit'' ''tryConsume'')"
  by code_simp

end
