(* ===== verification/Pool.thy ===== *)
theory Pool
  imports PriorityQueue JsMap
begin

text \<open>
  The core of the worker pool (\<open>src/helpers/powerPool.js\<close>): pending responses, the choice of a
  worker, dispatch, the task queue with its policies, replies, exits, resizing and shutdown.
  Worker objects outlive the \<open>workers\<close> array in the closures of their handlers, so they live
  in a store and are named by their id.  What the host does is an argument: whether a worker
  can be created, whether a \<open>postMessage\<close> to it throws, whether a message can be prepared for
  transfer, what a load balancer answers, and the clock.  The task queue is the heap, as
  with \<open>priorityAgingMs\<close> 0, the default.
\<close>

section \<open>State\<close>

datatype pool_error = PE_Duplicate | PE_Timeout | PE_Policy | PE_Dropped | PE_QueueFull
  | PE_Terminated | PE_Shutdown | PE_Deadline | PE_Aborted | PE_Adaptive | PE_Targeted
  | PE_NotReady | PE_Grow | PE_Post

datatype settled = Resolved nat | Rejected pool_error

text \<open>A pending response: its promise, whether its timer is armed, the worker it was sent to.\<close>

record pend =
  pn_promise :: nat
  pn_timer :: bool
  pn_worker :: "nat option"

record wk =
  w_tasks :: nat
  w_lastActive :: rat
  w_latency :: "rat option"
  w_starts :: "rat list"
  w_completed :: nat
  w_settled :: bool
  w_ever :: bool
  w_ready :: bool
  w_created :: rat

text \<open>
  A message, with what preparing, encoding and posting it will do: \<open>m_bypass\<close> says that the
  prepared form is a plain object with a live transfer list.
\<close>

record pmsg =
  m_id :: nat
  m_plain :: bool
  m_prepares :: bool
  m_bypass :: bool
  m_posts :: bool

record qitem =
  qi_msg :: pmsg
  qi_cid :: "string option"
  qi_priority :: js_val
  qi_deadline :: "rat option"
  qi_signal :: "nat option"
  qi_enqueuedAt :: rat

datatype queue_policy = Enqueue | DropOldest | DropNewest | Reject

text \<open>
  The fields are those of the pool, and three histories the code does not keep: \<open>po_log\<close> of the
  promises settled, \<open>po_posted\<close> of the messages posted (worker and message), and \<open>po_sent\<close> of the
  promises whose key a posted message carried (promise and worker).
\<close>

record pool =
  po_objs :: "nat \<Rightarrow> wk"
  po_workers :: "nat list"
  po_nextWorkerId :: nat
  po_queue :: "qitem pqueue"
  po_pending :: "(string, pend) js_map"
  po_promises :: nat
  po_log :: "(nat \<times> settled) list"
  po_listeners :: "(nat \<times> string) list"
  po_aborted :: "nat list"
  po_active :: nat
  po_minSize :: nat
  po_maxSize :: nat
  po_maxTasks :: js_num
  po_taskQueue :: bool
  po_policy :: queue_policy
  po_maxQueue :: js_num
  po_high :: js_num
  po_highCrossed :: bool
  po_paused :: bool
  po_nextIndex :: nat
  po_limit :: "rat option"
  po_readyOn :: bool
  po_readyTimeout :: rat
  po_idleTimeout :: js_num
  po_responseTimeout :: rat
  po_alpha :: rat
  po_ewma :: "rat option"
  po_isIdle :: bool
  po_idles :: nat
  po_busySince :: "rat option"
  po_busyTime :: rat
  po_terminated :: bool
  po_bootFails :: nat
  po_completed :: nat
  po_retiredTasks :: nat
  po_retiredCount :: nat
  po_posted :: "(nat \<times> nat) list"
  po_sent :: "(nat \<times> nat) list"

definition no_wk :: wk where
  "no_wk = \<lparr>w_tasks = 0, w_lastActive = 0, w_latency = None, w_starts = [], w_completed = 0,
     w_settled = True, w_ever = False, w_ready = False, w_created = 0\<rparr>"

text \<open>The task queue of \<open>_makeTaskQueue\<close>, and how the heap reads an item.\<close>

definition pool_makeTaskQueue :: "qitem pqueue" where
  "pool_makeTaskQueue = projr (pq_new JUndefined)"

definition qi_weight :: "qitem \<Rightarrow> js_val" where
  "qi_weight item = JUndefined"

section \<open>Pending responses\<close>

definition pool_cleanup :: "string \<Rightarrow> settled \<Rightarrow> pool \<Rightarrow> pool" where
  "pool_cleanup key r s =
     (case jm_get key (po_pending s) of
        None \<Rightarrow> s
      | Some e \<Rightarrow> s\<lparr>po_pending := jm_delete key (po_pending s),
                    po_log := po_log s @ [(pn_promise e, r)]\<rparr>)"

definition pool_cleanupOpt :: "string option \<Rightarrow> settled \<Rightarrow> pool \<Rightarrow> pool" where
  "pool_cleanupOpt key r s = (case key of None \<Rightarrow> s | Some k \<Rightarrow> pool_cleanup k r s)"

text \<open>\<open>timeout\<close> is \<open>Number(options.timeout)\<close>.\<close>

definition pool_createPending :: "string \<Rightarrow> js_num \<Rightarrow> pool \<Rightarrow> pool \<times> nat" where
  "pool_createPending key timeout s =
     (let s = pool_cleanup key (Rejected PE_Duplicate) s;
          perCall = (case timeout of Fin t \<Rightarrow> of_int (max 0 \<lfloor>t\<rfloor>) | _ \<Rightarrow> po_responseTimeout s);
          n = po_promises s
      in (s\<lparr>po_pending := jm_set key \<lparr>pn_promise = n, pn_timer = 0 < perCall, pn_worker = None\<rparr> (po_pending s),
            po_promises := n + 1\<rparr>, n))"

definition pool_timeout :: "string \<Rightarrow> pool \<Rightarrow> pool" where
  "pool_timeout key s =
     (case jm_get key (po_pending s) of
        Some e \<Rightarrow> if pn_timer e then pool_cleanup key (Rejected PE_Timeout) s else s
      | None \<Rightarrow> s)"

definition pool_markPending :: "string option \<Rightarrow> nat \<Rightarrow> pool \<Rightarrow> pool" where
  "pool_markPending key wid s =
     (case key of None \<Rightarrow> s
      | Some k \<Rightarrow> (case jm_get k (po_pending s) of None \<Rightarrow> s
          | Some e \<Rightarrow> s\<lparr>po_pending := jm_set k (e\<lparr>pn_worker := Some wid\<rparr>) (po_pending s)\<rparr>))"

definition pool_rejectForWorker :: "nat \<Rightarrow> pool \<Rightarrow> pool" where
  "pool_rejectForWorker wid s =
     fold (\<lambda>k. pool_cleanup k (Rejected PE_Terminated))
       (map fst (filter (\<lambda>(k, e). pn_worker e = Some wid) (po_pending s))) s"

definition pool_rejectAll :: "pool_error \<Rightarrow> pool \<Rightarrow> pool" where
  "pool_rejectAll e s = fold (\<lambda>k. pool_cleanup k (Rejected e)) (jm_keys (po_pending s)) s"

text \<open>An abort signal fires: its listeners run, once each.\<close>

definition pool_abort :: "nat \<Rightarrow> pool \<Rightarrow> pool" where
  "pool_abort sig s =
     (if sig \<in> set (po_aborted s) then s
      else
        (let mine = map snd (filter (\<lambda>p. fst p = sig) (po_listeners s));
             s = s\<lparr>po_aborted := sig # po_aborted s,
                   po_listeners := filter (\<lambda>p. fst p \<noteq> sig) (po_listeners s)\<rparr>
         in fold (\<lambda>k. pool_cleanup k (Rejected PE_Aborted)) mine s))"

text \<open>What an operation leaves alone.\<close>

lemma cleanup_frame [simp]:
  "po_objs (pool_cleanup k r s) = po_objs s" "po_workers (pool_cleanup k r s) = po_workers s"
  "po_nextWorkerId (pool_cleanup k r s) = po_nextWorkerId s" "po_queue (pool_cleanup k r s) = po_queue s"
  "po_promises (pool_cleanup k r s) = po_promises s" "po_active (pool_cleanup k r s) = po_active s" "po_maxTasks (pool_cleanup k r s) = po_maxTasks s"
  "po_taskQueue (pool_cleanup k r s) = po_taskQueue s" "po_maxQueue (pool_cleanup k r s) = po_maxQueue s"
  "po_policy (pool_cleanup k r s) = po_policy s" "po_aborted (pool_cleanup k r s) = po_aborted s"
  "po_terminated (pool_cleanup k r s) = po_terminated s" "po_minSize (pool_cleanup k r s) = po_minSize s"
  "po_maxSize (pool_cleanup k r s) = po_maxSize s" "po_readyOn (pool_cleanup k r s) = po_readyOn s" "po_high (pool_cleanup k r s) = po_high s"
  "po_limit (pool_cleanup k r s) = po_limit s" "po_paused (pool_cleanup k r s) = po_paused s"
  "po_sent (pool_cleanup k r s) = po_sent s"
  by (simp_all add: pool_cleanup_def Let_def split: option.splits prod.splits)

lemma cleanupOpt_frame [simp]:
  "po_objs (pool_cleanupOpt k r s) = po_objs s" "po_workers (pool_cleanupOpt k r s) = po_workers s"
  "po_nextWorkerId (pool_cleanupOpt k r s) = po_nextWorkerId s" "po_queue (pool_cleanupOpt k r s) = po_queue s"
  "po_promises (pool_cleanupOpt k r s) = po_promises s" "po_active (pool_cleanupOpt k r s) = po_active s"
  "po_maxTasks (pool_cleanupOpt k r s) = po_maxTasks s" "po_taskQueue (pool_cleanupOpt k r s) = po_taskQueue s"
  "po_maxQueue (pool_cleanupOpt k r s) = po_maxQueue s" "po_policy (pool_cleanupOpt k r s) = po_policy s"
  "po_aborted (pool_cleanupOpt k r s) = po_aborted s" "po_terminated (pool_cleanupOpt k r s) = po_terminated s"
  "po_minSize (pool_cleanupOpt k r s) = po_minSize s" "po_maxSize (pool_cleanupOpt k r s) = po_maxSize s"
  "po_readyOn (pool_cleanupOpt k r s) = po_readyOn s" "po_high (pool_cleanupOpt k r s) = po_high s" "po_limit (pool_cleanupOpt k r s) = po_limit s"
  "po_paused (pool_cleanupOpt k r s) = po_paused s"
  "po_sent (pool_cleanupOpt k r s) = po_sent s"
  by (simp_all add: pool_cleanupOpt_def Let_def split: option.splits prod.splits)

lemma cleanup_fold_frame [simp]:
  "po_objs (fold (\<lambda>k. pool_cleanup k r) ks s) = po_objs s" "po_workers (fold (\<lambda>k. pool_cleanup k r) ks s) = po_workers s"
  "po_nextWorkerId (fold (\<lambda>k. pool_cleanup k r) ks s) = po_nextWorkerId s" "po_queue (fold (\<lambda>k. pool_cleanup k r) ks s) = po_queue s"
  "po_promises (fold (\<lambda>k. pool_cleanup k r) ks s) = po_promises s" "po_active (fold (\<lambda>k. pool_cleanup k r) ks s) = po_active s"
  "po_maxTasks (fold (\<lambda>k. pool_cleanup k r) ks s) = po_maxTasks s" "po_taskQueue (fold (\<lambda>k. pool_cleanup k r) ks s) = po_taskQueue s"
  "po_maxQueue (fold (\<lambda>k. pool_cleanup k r) ks s) = po_maxQueue s" "po_policy (fold (\<lambda>k. pool_cleanup k r) ks s) = po_policy s"
  "po_aborted (fold (\<lambda>k. pool_cleanup k r) ks s) = po_aborted s" "po_terminated (fold (\<lambda>k. pool_cleanup k r) ks s) = po_terminated s"
  "po_minSize (fold (\<lambda>k. pool_cleanup k r) ks s) = po_minSize s" "po_maxSize (fold (\<lambda>k. pool_cleanup k r) ks s) = po_maxSize s"
  "po_readyOn (fold (\<lambda>k. pool_cleanup k r) ks s) = po_readyOn s" "po_high (fold (\<lambda>k. pool_cleanup k r) ks s) = po_high s"
  "po_limit (fold (\<lambda>k. pool_cleanup k r) ks s) = po_limit s" "po_paused (fold (\<lambda>k. pool_cleanup k r) ks s) = po_paused s"
  "po_sent (fold (\<lambda>k. pool_cleanup k r) ks s) = po_sent s"
  by (induction ks arbitrary: s) simp_all

lemma createPending_frame [simp]:
  "po_objs (fst (pool_createPending k t s)) = po_objs s" "po_workers (fst (pool_createPending k t s)) = po_workers s"
  "po_nextWorkerId (fst (pool_createPending k t s)) = po_nextWorkerId s" "po_queue (fst (pool_createPending k t s)) = po_queue s"
  "po_active (fst (pool_createPending k t s)) = po_active s" "po_maxTasks (fst (pool_createPending k t s)) = po_maxTasks s"
  "po_taskQueue (fst (pool_createPending k t s)) = po_taskQueue s" "po_maxQueue (fst (pool_createPending k t s)) = po_maxQueue s"
  "po_policy (fst (pool_createPending k t s)) = po_policy s" "po_aborted (fst (pool_createPending k t s)) = po_aborted s"
  "po_terminated (fst (pool_createPending k t s)) = po_terminated s" "po_minSize (fst (pool_createPending k t s)) = po_minSize s"
  "po_maxSize (fst (pool_createPending k t s)) = po_maxSize s" "po_readyOn (fst (pool_createPending k t s)) = po_readyOn s"
  "po_high (fst (pool_createPending k t s)) = po_high s" "po_limit (fst (pool_createPending k t s)) = po_limit s"
  "po_paused (fst (pool_createPending k t s)) = po_paused s"
  "po_sent (fst (pool_createPending k t s)) = po_sent s"
  by (simp_all add: pool_createPending_def Let_def split: option.splits prod.splits)

lemma timeout_frame [simp]:
  "po_objs (pool_timeout k s) = po_objs s" "po_workers (pool_timeout k s) = po_workers s" "po_nextWorkerId (pool_timeout k s) = po_nextWorkerId s"
  "po_queue (pool_timeout k s) = po_queue s" "po_promises (pool_timeout k s) = po_promises s" "po_active (pool_timeout k s) = po_active s"
  "po_maxTasks (pool_timeout k s) = po_maxTasks s" "po_taskQueue (pool_timeout k s) = po_taskQueue s" "po_maxQueue (pool_timeout k s) = po_maxQueue s"
  "po_policy (pool_timeout k s) = po_policy s" "po_aborted (pool_timeout k s) = po_aborted s" "po_terminated (pool_timeout k s) = po_terminated s"
  "po_minSize (pool_timeout k s) = po_minSize s" "po_maxSize (pool_timeout k s) = po_maxSize s" "po_readyOn (pool_timeout k s) = po_readyOn s"
  "po_high (pool_timeout k s) = po_high s" "po_limit (pool_timeout k s) = po_limit s" "po_paused (pool_timeout k s) = po_paused s"
  "po_sent (pool_timeout k s) = po_sent s"
  by (simp_all add: pool_timeout_def Let_def split: option.splits prod.splits)

lemma markPending_frame [simp]:
  "po_objs (pool_markPending k wid s) = po_objs s" "po_workers (pool_markPending k wid s) = po_workers s"
  "po_nextWorkerId (pool_markPending k wid s) = po_nextWorkerId s" "po_queue (pool_markPending k wid s) = po_queue s"
  "po_promises (pool_markPending k wid s) = po_promises s" "po_log (pool_markPending k wid s) = po_log s"
  "po_active (pool_markPending k wid s) = po_active s" "po_maxTasks (pool_markPending k wid s) = po_maxTasks s"
  "po_taskQueue (pool_markPending k wid s) = po_taskQueue s" "po_maxQueue (pool_markPending k wid s) = po_maxQueue s"
  "po_policy (pool_markPending k wid s) = po_policy s" "po_aborted (pool_markPending k wid s) = po_aborted s"
  "po_terminated (pool_markPending k wid s) = po_terminated s" "po_minSize (pool_markPending k wid s) = po_minSize s"
  "po_maxSize (pool_markPending k wid s) = po_maxSize s" "po_readyOn (pool_markPending k wid s) = po_readyOn s"
  "po_high (pool_markPending k wid s) = po_high s" "po_limit (pool_markPending k wid s) = po_limit s"
  "po_paused (pool_markPending k wid s) = po_paused s"
  "po_sent (pool_markPending k wid s) = po_sent s"
  by (simp_all add: pool_markPending_def Let_def split: option.splits prod.splits)

lemma rejectForWorker_frame [simp]:
  "po_objs (pool_rejectForWorker wid s) = po_objs s" "po_workers (pool_rejectForWorker wid s) = po_workers s"
  "po_nextWorkerId (pool_rejectForWorker wid s) = po_nextWorkerId s" "po_queue (pool_rejectForWorker wid s) = po_queue s"
  "po_promises (pool_rejectForWorker wid s) = po_promises s" "po_active (pool_rejectForWorker wid s) = po_active s"
  "po_maxTasks (pool_rejectForWorker wid s) = po_maxTasks s" "po_taskQueue (pool_rejectForWorker wid s) = po_taskQueue s"
  "po_maxQueue (pool_rejectForWorker wid s) = po_maxQueue s" "po_policy (pool_rejectForWorker wid s) = po_policy s"
  "po_aborted (pool_rejectForWorker wid s) = po_aborted s" "po_terminated (pool_rejectForWorker wid s) = po_terminated s"
  "po_minSize (pool_rejectForWorker wid s) = po_minSize s" "po_maxSize (pool_rejectForWorker wid s) = po_maxSize s"
  "po_readyOn (pool_rejectForWorker wid s) = po_readyOn s" "po_high (pool_rejectForWorker wid s) = po_high s"
  "po_limit (pool_rejectForWorker wid s) = po_limit s" "po_paused (pool_rejectForWorker wid s) = po_paused s"
  "po_sent (pool_rejectForWorker wid s) = po_sent s"
  by (simp_all add: pool_rejectForWorker_def Let_def split: option.splits prod.splits)

lemma rejectAll_frame [simp]:
  "po_objs (pool_rejectAll e s) = po_objs s" "po_workers (pool_rejectAll e s) = po_workers s"
  "po_nextWorkerId (pool_rejectAll e s) = po_nextWorkerId s" "po_queue (pool_rejectAll e s) = po_queue s"
  "po_promises (pool_rejectAll e s) = po_promises s" "po_active (pool_rejectAll e s) = po_active s" "po_maxTasks (pool_rejectAll e s) = po_maxTasks s"
  "po_taskQueue (pool_rejectAll e s) = po_taskQueue s" "po_maxQueue (pool_rejectAll e s) = po_maxQueue s"
  "po_policy (pool_rejectAll e s) = po_policy s" "po_aborted (pool_rejectAll e s) = po_aborted s"
  "po_terminated (pool_rejectAll e s) = po_terminated s" "po_minSize (pool_rejectAll e s) = po_minSize s"
  "po_maxSize (pool_rejectAll e s) = po_maxSize s" "po_readyOn (pool_rejectAll e s) = po_readyOn s" "po_high (pool_rejectAll e s) = po_high s"
  "po_limit (pool_rejectAll e s) = po_limit s" "po_paused (pool_rejectAll e s) = po_paused s"
  "po_sent (pool_rejectAll e s) = po_sent s"
  by (simp_all add: pool_rejectAll_def Let_def split: option.splits prod.splits)

lemma abort_frame [simp]:
  "po_objs (pool_abort sig s) = po_objs s" "po_workers (pool_abort sig s) = po_workers s" "po_nextWorkerId (pool_abort sig s) = po_nextWorkerId s"
  "po_queue (pool_abort sig s) = po_queue s" "po_promises (pool_abort sig s) = po_promises s" "po_active (pool_abort sig s) = po_active s"
  "po_maxTasks (pool_abort sig s) = po_maxTasks s" "po_taskQueue (pool_abort sig s) = po_taskQueue s" "po_maxQueue (pool_abort sig s) = po_maxQueue s"
  "po_policy (pool_abort sig s) = po_policy s" "po_terminated (pool_abort sig s) = po_terminated s" "po_minSize (pool_abort sig s) = po_minSize s"
  "po_maxSize (pool_abort sig s) = po_maxSize s" "po_readyOn (pool_abort sig s) = po_readyOn s" "po_high (pool_abort sig s) = po_high s"
  "po_limit (pool_abort sig s) = po_limit s" "po_paused (pool_abort sig s) = po_paused s"
  "po_sent (pool_abort sig s) = po_sent s"
  by (simp_all add: pool_abort_def Let_def split: option.splits prod.splits)

section \<open>Load and idleness\<close>

definition pool_updateIdle :: "pool \<Rightarrow> pool" where
  "pool_updateIdle s =
     (let allIdle = (po_active s = 0 \<and> pq_size (po_queue s) = 0) in
      if allIdle \<and> \<not> po_isIdle s then s\<lparr>po_isIdle := True, po_idles := po_idles s + 1\<rparr>
      else if \<not> allIdle \<and> po_isIdle s then s\<lparr>po_isIdle := False\<rparr> else s)"

definition pool_busyInterval :: "nat \<Rightarrow> nat \<Rightarrow> rat \<Rightarrow> pool \<Rightarrow> pool" where
  "pool_busyInterval before after now s =
     (case po_busySince s of
        Some since \<Rightarrow> if 0 < before \<and> after = 0
          then s\<lparr>po_busyTime := po_busyTime s + max 0 (now - since), po_busySince := None\<rparr> else s
      | None \<Rightarrow> if before = 0 \<and> 0 < after then s\<lparr>po_busySince := Some now\<rparr> else s)"

text \<open>Subtraction on naturals is the \<open>Math.max(0, ..)\<close> of the code.\<close>

definition pool_decrementActive :: "nat \<Rightarrow> rat \<Rightarrow> pool \<Rightarrow> pool" where
  "pool_decrementActive n now s =
     (let before = po_active s in
      pool_busyInterval before (before - n) now (s\<lparr>po_active := before - n\<rparr>))"

definition pool_setObj :: "nat \<Rightarrow> (wk \<Rightarrow> wk) \<Rightarrow> pool \<Rightarrow> pool" where
  "pool_setObj wid f s = s\<lparr>po_objs := (po_objs s)(wid := f (po_objs s wid))\<rparr>"

text \<open>What an operation leaves alone.\<close>

lemma updateIdle_frame [simp]:
  "po_objs (pool_updateIdle s) = po_objs s" "po_workers (pool_updateIdle s) = po_workers s" "po_nextWorkerId (pool_updateIdle s) = po_nextWorkerId s"
  "po_queue (pool_updateIdle s) = po_queue s" "po_pending (pool_updateIdle s) = po_pending s" "po_promises (pool_updateIdle s) = po_promises s"
  "po_log (pool_updateIdle s) = po_log s" "po_active (pool_updateIdle s) = po_active s" "po_maxTasks (pool_updateIdle s) = po_maxTasks s"
  "po_taskQueue (pool_updateIdle s) = po_taskQueue s" "po_maxQueue (pool_updateIdle s) = po_maxQueue s" "po_policy (pool_updateIdle s) = po_policy s"
  "po_aborted (pool_updateIdle s) = po_aborted s" "po_terminated (pool_updateIdle s) = po_terminated s"
  "po_minSize (pool_updateIdle s) = po_minSize s" "po_maxSize (pool_updateIdle s) = po_maxSize s" "po_readyOn (pool_updateIdle s) = po_readyOn s"
  "po_high (pool_updateIdle s) = po_high s" "po_limit (pool_updateIdle s) = po_limit s" "po_paused (pool_updateIdle s) = po_paused s"
  "po_sent (pool_updateIdle s) = po_sent s"
  by (simp_all add: pool_updateIdle_def Let_def split: option.splits prod.splits)

lemma busyInterval_frame [simp]:
  "po_objs (pool_busyInterval b a now s) = po_objs s" "po_workers (pool_busyInterval b a now s) = po_workers s"
  "po_nextWorkerId (pool_busyInterval b a now s) = po_nextWorkerId s" "po_queue (pool_busyInterval b a now s) = po_queue s"
  "po_pending (pool_busyInterval b a now s) = po_pending s" "po_promises (pool_busyInterval b a now s) = po_promises s"
  "po_log (pool_busyInterval b a now s) = po_log s" "po_active (pool_busyInterval b a now s) = po_active s"
  "po_maxTasks (pool_busyInterval b a now s) = po_maxTasks s" "po_taskQueue (pool_busyInterval b a now s) = po_taskQueue s"
  "po_maxQueue (pool_busyInterval b a now s) = po_maxQueue s" "po_policy (pool_busyInterval b a now s) = po_policy s"
  "po_aborted (pool_busyInterval b a now s) = po_aborted s" "po_terminated (pool_busyInterval b a now s) = po_terminated s"
  "po_minSize (pool_busyInterval b a now s) = po_minSize s" "po_maxSize (pool_busyInterval b a now s) = po_maxSize s"
  "po_readyOn (pool_busyInterval b a now s) = po_readyOn s" "po_high (pool_busyInterval b a now s) = po_high s"
  "po_limit (pool_busyInterval b a now s) = po_limit s" "po_paused (pool_busyInterval b a now s) = po_paused s"
  "po_sent (pool_busyInterval b a now s) = po_sent s"
  by (simp_all add: pool_busyInterval_def Let_def split: option.splits prod.splits)

lemma decrementActive_frame [simp]:
  "po_objs (pool_decrementActive n now s) = po_objs s" "po_workers (pool_decrementActive n now s) = po_workers s"
  "po_nextWorkerId (pool_decrementActive n now s) = po_nextWorkerId s" "po_queue (pool_decrementActive n now s) = po_queue s"
  "po_pending (pool_decrementActive n now s) = po_pending s" "po_promises (pool_decrementActive n now s) = po_promises s"
  "po_log (pool_decrementActive n now s) = po_log s" "po_maxTasks (pool_decrementActive n now s) = po_maxTasks s"
  "po_taskQueue (pool_decrementActive n now s) = po_taskQueue s" "po_maxQueue (pool_decrementActive n now s) = po_maxQueue s"
  "po_policy (pool_decrementActive n now s) = po_policy s" "po_aborted (pool_decrementActive n now s) = po_aborted s"
  "po_terminated (pool_decrementActive n now s) = po_terminated s" "po_minSize (pool_decrementActive n now s) = po_minSize s"
  "po_maxSize (pool_decrementActive n now s) = po_maxSize s" "po_readyOn (pool_decrementActive n now s) = po_readyOn s"
  "po_high (pool_decrementActive n now s) = po_high s" "po_limit (pool_decrementActive n now s) = po_limit s"
  "po_paused (pool_decrementActive n now s) = po_paused s"
  "po_sent (pool_decrementActive n now s) = po_sent s"
  by (simp_all add: pool_decrementActive_def Let_def split: option.splits prod.splits)

lemma setObj_frame [simp]:
  "po_workers (pool_setObj wid f s) = po_workers s" "po_nextWorkerId (pool_setObj wid f s) = po_nextWorkerId s"
  "po_queue (pool_setObj wid f s) = po_queue s" "po_pending (pool_setObj wid f s) = po_pending s" "po_promises (pool_setObj wid f s) = po_promises s"
  "po_log (pool_setObj wid f s) = po_log s" "po_active (pool_setObj wid f s) = po_active s" "po_maxTasks (pool_setObj wid f s) = po_maxTasks s"
  "po_taskQueue (pool_setObj wid f s) = po_taskQueue s" "po_maxQueue (pool_setObj wid f s) = po_maxQueue s"
  "po_policy (pool_setObj wid f s) = po_policy s" "po_aborted (pool_setObj wid f s) = po_aborted s"
  "po_terminated (pool_setObj wid f s) = po_terminated s" "po_minSize (pool_setObj wid f s) = po_minSize s"
  "po_maxSize (pool_setObj wid f s) = po_maxSize s" "po_readyOn (pool_setObj wid f s) = po_readyOn s" "po_high (pool_setObj wid f s) = po_high s"
  "po_limit (pool_setObj wid f s) = po_limit s" "po_paused (pool_setObj wid f s) = po_paused s"
  "po_sent (pool_setObj wid f s) = po_sent s"
  by (simp_all add: pool_setObj_def Let_def split: option.splits prod.splits)

section \<open>Workers\<close>

definition pool_addWorker :: "rat \<Rightarrow> pool \<Rightarrow> pool" where
  "pool_addWorker now s =
     (let wid = po_nextWorkerId s in
      s\<lparr>po_nextWorkerId := wid + 1,
        po_objs := (po_objs s)(wid := \<lparr>w_tasks = 0, w_lastActive = now, w_latency = None, w_starts = [],
          w_completed = 0, w_settled = False, w_ever = False, w_ready = \<not> po_readyOn s, w_created = now\<rparr>),
        po_workers := po_workers s @ [wid]\<rparr>)"

text \<open>Creating the host worker threw: the id is used up.\<close>

definition pool_addFailed :: "pool \<Rightarrow> pool" where
  "pool_addFailed s = s\<lparr>po_nextWorkerId := po_nextWorkerId s + 1\<rparr>"

text \<open>The refill loops; \<open>k\<close> is how many workers the host can still create.\<close>

fun pool_refill :: "nat \<Rightarrow> rat \<Rightarrow> pool \<Rightarrow> pool" where
  "pool_refill k now s =
     (if length (po_workers s) < po_minSize s \<and> length (po_workers s) < po_maxSize s then
        (case k of 0 \<Rightarrow> pool_addFailed s | Suc k' \<Rightarrow> pool_refill k' now (pool_addWorker now s))
      else s)"

declare pool_refill.simps [simp del]

definition pool_terminateWorker :: "nat \<Rightarrow> rat \<Rightarrow> pool \<Rightarrow> pool" where
  "pool_terminateWorker wid now s =
     (let w = po_objs s wid;
          s = (if 0 < w_tasks w then pool_decrementActive (w_tasks w) now s else s);
          s = pool_rejectForWorker wid (pool_setObj wid (\<lambda>w. w\<lparr>w_tasks := 0\<rparr>) s);
          s = pool_setObj wid (\<lambda>w. w\<lparr>w_settled := True\<rparr>) s
      in s\<lparr>po_retiredTasks := po_retiredTasks s + w_completed w, po_retiredCount := po_retiredCount s + 1\<rparr>)"

definition ready_overdue :: "rat \<Rightarrow> pool \<Rightarrow> nat \<Rightarrow> bool" where
  "ready_overdue now s wid \<longleftrightarrow>
     0 < po_readyTimeout s \<and> po_readyTimeout s \<le> now - w_created (po_objs s wid)"

definition pool_readyWorkers :: "rat \<Rightarrow> pool \<Rightarrow> pool \<times> nat list" where
  "pool_readyWorkers now s =
     (if \<not> po_readyOn s then (s, po_workers s)
      else
        (let s = fold (\<lambda>wid s. if \<not> w_ready (po_objs s wid) \<and> ready_overdue now s wid
                 then pool_setObj wid (\<lambda>w. w\<lparr>w_ready := True\<rparr>) s else s) (po_workers s) s
         in (s, filter (\<lambda>wid. w_ready (po_objs s wid)) (po_workers s))))"

definition wk_lat :: "wk \<Rightarrow> js_num" where
  "wk_lat w = (case w_latency w of None \<Rightarrow> PosInf | Some l \<Rightarrow> Fin l)"

fun least_loop :: "(nat \<Rightarrow> wk) \<Rightarrow> nat list \<Rightarrow> nat option \<Rightarrow> js_num \<Rightarrow> js_num \<Rightarrow> nat option" where
  "least_loop objs [] best bestTasks bestLat = best"
| "least_loop objs (wid # ids) best bestTasks bestLat =
     (let t = Fin (of_nat (w_tasks (objs wid))); lat = wk_lat (objs wid) in
      if num_lt t bestTasks \<or> t = bestTasks \<and> num_lt lat bestLat
      then least_loop objs ids (Some wid) t lat
      else least_loop objs ids best bestTasks bestLat)"

definition pool_findLeastLoaded :: "nat list \<Rightarrow> pool \<Rightarrow> nat option" where
  "pool_findLeastLoaded ids s = least_loop (po_objs s) ids None PosInf PosInf"

text \<open>What the caller's load balancer did: threw, answered \<open>null\<close>, named a worker, or anything else.\<close>

datatype lb_choice = LbThrew | LbNone | LbWorker nat | LbOther

definition pool_selectWorker :: "lb_choice option \<Rightarrow> rat \<Rightarrow> pool \<Rightarrow> pool \<times> nat option" where
  "pool_selectWorker lb now s =
     (if po_workers s = [] then (s, None)
      else
        (case pool_readyWorkers now s of (s, ready) \<Rightarrow>
           if ready = [] then (s, None)
           else case lb of
               None \<Rightarrow> (s, pool_findLeastLoaded ready s)
             | Some (LbWorker wid) \<Rightarrow>
                 (s, if wid \<in> set (po_workers s) then Some wid else pool_findLeastLoaded (po_workers s) s)
             | Some _ \<Rightarrow> (s, pool_findLeastLoaded (po_workers s) s)))"

text \<open>What an operation leaves alone.\<close>

lemma addWorker_frame [simp]:
  "po_queue (pool_addWorker now s) = po_queue s" "po_pending (pool_addWorker now s) = po_pending s"
  "po_promises (pool_addWorker now s) = po_promises s" "po_log (pool_addWorker now s) = po_log s" "po_active (pool_addWorker now s) = po_active s"
  "po_maxTasks (pool_addWorker now s) = po_maxTasks s" "po_taskQueue (pool_addWorker now s) = po_taskQueue s"
  "po_maxQueue (pool_addWorker now s) = po_maxQueue s" "po_policy (pool_addWorker now s) = po_policy s"
  "po_aborted (pool_addWorker now s) = po_aborted s" "po_terminated (pool_addWorker now s) = po_terminated s"
  "po_minSize (pool_addWorker now s) = po_minSize s" "po_maxSize (pool_addWorker now s) = po_maxSize s"
  "po_readyOn (pool_addWorker now s) = po_readyOn s" "po_high (pool_addWorker now s) = po_high s" "po_limit (pool_addWorker now s) = po_limit s"
  "po_paused (pool_addWorker now s) = po_paused s"
  "po_sent (pool_addWorker now s) = po_sent s"
  by (simp_all add: pool_addWorker_def Let_def split: option.splits prod.splits)

lemma addFailed_frame [simp]:
  "po_objs (pool_addFailed s) = po_objs s" "po_workers (pool_addFailed s) = po_workers s" "po_queue (pool_addFailed s) = po_queue s"
  "po_pending (pool_addFailed s) = po_pending s" "po_promises (pool_addFailed s) = po_promises s" "po_log (pool_addFailed s) = po_log s"
  "po_active (pool_addFailed s) = po_active s" "po_maxTasks (pool_addFailed s) = po_maxTasks s" "po_taskQueue (pool_addFailed s) = po_taskQueue s"
  "po_maxQueue (pool_addFailed s) = po_maxQueue s" "po_policy (pool_addFailed s) = po_policy s" "po_aborted (pool_addFailed s) = po_aborted s"
  "po_terminated (pool_addFailed s) = po_terminated s" "po_minSize (pool_addFailed s) = po_minSize s" "po_maxSize (pool_addFailed s) = po_maxSize s"
  "po_readyOn (pool_addFailed s) = po_readyOn s" "po_high (pool_addFailed s) = po_high s" "po_limit (pool_addFailed s) = po_limit s"
  "po_paused (pool_addFailed s) = po_paused s"
  "po_sent (pool_addFailed s) = po_sent s"
  by (simp_all add: pool_addFailed_def Let_def split: option.splits prod.splits)

lemma terminateWorker_frame [simp]:
  "po_workers (pool_terminateWorker wid now s) = po_workers s" "po_nextWorkerId (pool_terminateWorker wid now s) = po_nextWorkerId s"
  "po_queue (pool_terminateWorker wid now s) = po_queue s" "po_promises (pool_terminateWorker wid now s) = po_promises s"
  "po_maxTasks (pool_terminateWorker wid now s) = po_maxTasks s" "po_taskQueue (pool_terminateWorker wid now s) = po_taskQueue s"
  "po_maxQueue (pool_terminateWorker wid now s) = po_maxQueue s" "po_policy (pool_terminateWorker wid now s) = po_policy s"
  "po_aborted (pool_terminateWorker wid now s) = po_aborted s" "po_terminated (pool_terminateWorker wid now s) = po_terminated s"
  "po_minSize (pool_terminateWorker wid now s) = po_minSize s" "po_maxSize (pool_terminateWorker wid now s) = po_maxSize s"
  "po_readyOn (pool_terminateWorker wid now s) = po_readyOn s" "po_high (pool_terminateWorker wid now s) = po_high s"
  "po_limit (pool_terminateWorker wid now s) = po_limit s" "po_paused (pool_terminateWorker wid now s) = po_paused s"
  "po_sent (pool_terminateWorker wid now s) = po_sent s"
  by (simp_all add: pool_terminateWorker_def Let_def split: option.splits prod.splits)

lemma makeReady_frame [simp]:
  "po_workers (fold (\<lambda>wid s. if P wid s then pool_setObj wid f s else s) ids s) = po_workers s"
  "po_nextWorkerId (fold (\<lambda>wid s. if P wid s then pool_setObj wid f s else s) ids s) = po_nextWorkerId s"
  "po_queue (fold (\<lambda>wid s. if P wid s then pool_setObj wid f s else s) ids s) = po_queue s"
  "po_pending (fold (\<lambda>wid s. if P wid s then pool_setObj wid f s else s) ids s) = po_pending s"
  "po_promises (fold (\<lambda>wid s. if P wid s then pool_setObj wid f s else s) ids s) = po_promises s"
  "po_log (fold (\<lambda>wid s. if P wid s then pool_setObj wid f s else s) ids s) = po_log s"
  "po_active (fold (\<lambda>wid s. if P wid s then pool_setObj wid f s else s) ids s) = po_active s"
  "po_maxTasks (fold (\<lambda>wid s. if P wid s then pool_setObj wid f s else s) ids s) = po_maxTasks s"
  "po_taskQueue (fold (\<lambda>wid s. if P wid s then pool_setObj wid f s else s) ids s) = po_taskQueue s"
  "po_maxQueue (fold (\<lambda>wid s. if P wid s then pool_setObj wid f s else s) ids s) = po_maxQueue s"
  "po_policy (fold (\<lambda>wid s. if P wid s then pool_setObj wid f s else s) ids s) = po_policy s"
  "po_aborted (fold (\<lambda>wid s. if P wid s then pool_setObj wid f s else s) ids s) = po_aborted s"
  "po_terminated (fold (\<lambda>wid s. if P wid s then pool_setObj wid f s else s) ids s) = po_terminated s"
  "po_minSize (fold (\<lambda>wid s. if P wid s then pool_setObj wid f s else s) ids s) = po_minSize s"
  "po_maxSize (fold (\<lambda>wid s. if P wid s then pool_setObj wid f s else s) ids s) = po_maxSize s"
  "po_readyOn (fold (\<lambda>wid s. if P wid s then pool_setObj wid f s else s) ids s) = po_readyOn s"
  "po_high (fold (\<lambda>wid s. if P wid s then pool_setObj wid f s else s) ids s) = po_high s"
  "po_limit (fold (\<lambda>wid s. if P wid s then pool_setObj wid f s else s) ids s) = po_limit s"
  "po_paused (fold (\<lambda>wid s. if P wid s then pool_setObj wid f s else s) ids s) = po_paused s"
  "po_sent (fold (\<lambda>wid s. if P wid s then pool_setObj wid f s else s) ids s) = po_sent s"
  by (induction ids arbitrary: s) simp_all

lemma readyWorkers_frame [simp]:
  "po_workers (fst (pool_readyWorkers now s)) = po_workers s" "po_nextWorkerId (fst (pool_readyWorkers now s)) = po_nextWorkerId s"
  "po_queue (fst (pool_readyWorkers now s)) = po_queue s" "po_pending (fst (pool_readyWorkers now s)) = po_pending s"
  "po_promises (fst (pool_readyWorkers now s)) = po_promises s" "po_log (fst (pool_readyWorkers now s)) = po_log s"
  "po_active (fst (pool_readyWorkers now s)) = po_active s" "po_maxTasks (fst (pool_readyWorkers now s)) = po_maxTasks s"
  "po_taskQueue (fst (pool_readyWorkers now s)) = po_taskQueue s" "po_maxQueue (fst (pool_readyWorkers now s)) = po_maxQueue s"
  "po_policy (fst (pool_readyWorkers now s)) = po_policy s" "po_aborted (fst (pool_readyWorkers now s)) = po_aborted s"
  "po_terminated (fst (pool_readyWorkers now s)) = po_terminated s" "po_minSize (fst (pool_readyWorkers now s)) = po_minSize s"
  "po_maxSize (fst (pool_readyWorkers now s)) = po_maxSize s" "po_readyOn (fst (pool_readyWorkers now s)) = po_readyOn s"
  "po_high (fst (pool_readyWorkers now s)) = po_high s" "po_limit (fst (pool_readyWorkers now s)) = po_limit s"
  "po_paused (fst (pool_readyWorkers now s)) = po_paused s"
  "po_sent (fst (pool_readyWorkers now s)) = po_sent s"
  by (simp_all add: pool_readyWorkers_def Let_def split: option.splits prod.splits)

lemma selectWorker_frame [simp]:
  "po_workers (fst (pool_selectWorker lb now s)) = po_workers s" "po_nextWorkerId (fst (pool_selectWorker lb now s)) = po_nextWorkerId s"
  "po_queue (fst (pool_selectWorker lb now s)) = po_queue s" "po_pending (fst (pool_selectWorker lb now s)) = po_pending s"
  "po_promises (fst (pool_selectWorker lb now s)) = po_promises s" "po_log (fst (pool_selectWorker lb now s)) = po_log s"
  "po_active (fst (pool_selectWorker lb now s)) = po_active s" "po_maxTasks (fst (pool_selectWorker lb now s)) = po_maxTasks s"
  "po_taskQueue (fst (pool_selectWorker lb now s)) = po_taskQueue s" "po_maxQueue (fst (pool_selectWorker lb now s)) = po_maxQueue s"
  "po_policy (fst (pool_selectWorker lb now s)) = po_policy s" "po_aborted (fst (pool_selectWorker lb now s)) = po_aborted s"
  "po_terminated (fst (pool_selectWorker lb now s)) = po_terminated s" "po_minSize (fst (pool_selectWorker lb now s)) = po_minSize s"
  "po_maxSize (fst (pool_selectWorker lb now s)) = po_maxSize s" "po_readyOn (fst (pool_selectWorker lb now s)) = po_readyOn s"
  "po_high (fst (pool_selectWorker lb now s)) = po_high s" "po_limit (fst (pool_selectWorker lb now s)) = po_limit s"
  "po_paused (fst (pool_selectWorker lb now s)) = po_paused s"
  "po_sent (fst (pool_selectWorker lb now s)) = po_sent s"
  by (simp_all add: pool_selectWorker_def case_prod_beta split: option.splits lb_choice.splits)

section \<open>Dispatch\<close>

text \<open>\<open>worker.postMessage\<close> did not throw: what is booked on the worker and the pool.\<close>

definition pool_promiseOf :: "string option \<Rightarrow> pool \<Rightarrow> nat option" where
  "pool_promiseOf cid s = (case cid of None \<Rightarrow> None | Some k \<Rightarrow> map_option pn_promise (jm_get k (po_pending s)))"

definition pool_book :: "nat \<Rightarrow> nat \<Rightarrow> string option \<Rightarrow> rat \<Rightarrow> pool \<Rightarrow> pool" where
  "pool_book wid mid cid start s =
     (let s = s\<lparr>po_posted := po_posted s @ [(wid, mid)],
                 po_sent := po_sent s @ (case pool_promiseOf cid s of None \<Rightarrow> [] | Some n \<Rightarrow> [(n, wid)])\<rparr>;
          s = pool_setObj wid (\<lambda>w. w\<lparr>w_starts := w_starts w @ [start]\<rparr>) s;
          s = pool_markPending cid wid s;
          s = pool_setObj wid (\<lambda>w. w\<lparr>w_tasks := w_tasks w + 1, w_lastActive := start\<rparr>) s
      in s\<lparr>po_active := po_active s + 1\<rparr>)"

definition pool_watchSignal :: "nat option \<Rightarrow> string option \<Rightarrow> pool \<Rightarrow> pool" where
  "pool_watchSignal signal cid s =
     (case (signal, cid) of
        (Some sig, Some k) \<Rightarrow>
          (if sig \<in> set (po_aborted s) then pool_cleanup k (Rejected PE_Aborted) s
           else s\<lparr>po_listeners := po_listeners s @ [(sig, k)]\<rparr>)
      | _ \<Rightarrow> s)"

text \<open>The answer says whether the post went through; a throw leaves the state alone.\<close>

definition pool_dispatch :: "nat \<Rightarrow> pmsg \<Rightarrow> string option \<Rightarrow> rat \<Rightarrow> nat option \<Rightarrow> pool \<Rightarrow> pool \<times> bool" where
  "pool_dispatch wid msg cid start signal s =
     (if \<not> m_posts msg then (s, False)
      else
        (let before = po_active s;
             s = pool_book wid (m_id msg) cid start s;
             s = pool_busyInterval before (po_active s) start s
         in (pool_watchSignal signal cid s, True)))"

text \<open>What an operation leaves alone.\<close>

lemma book_frame [simp]:
  "po_workers (pool_book wid mid cid start s) = po_workers s" "po_nextWorkerId (pool_book wid mid cid start s) = po_nextWorkerId s"
  "po_queue (pool_book wid mid cid start s) = po_queue s" "po_promises (pool_book wid mid cid start s) = po_promises s"
  "po_log (pool_book wid mid cid start s) = po_log s" "po_maxTasks (pool_book wid mid cid start s) = po_maxTasks s"
  "po_taskQueue (pool_book wid mid cid start s) = po_taskQueue s" "po_maxQueue (pool_book wid mid cid start s) = po_maxQueue s"
  "po_policy (pool_book wid mid cid start s) = po_policy s" "po_aborted (pool_book wid mid cid start s) = po_aborted s"
  "po_terminated (pool_book wid mid cid start s) = po_terminated s" "po_minSize (pool_book wid mid cid start s) = po_minSize s"
  "po_maxSize (pool_book wid mid cid start s) = po_maxSize s" "po_readyOn (pool_book wid mid cid start s) = po_readyOn s"
  "po_high (pool_book wid mid cid start s) = po_high s" "po_limit (pool_book wid mid cid start s) = po_limit s"
  "po_paused (pool_book wid mid cid start s) = po_paused s"
  by (simp_all add: pool_book_def Let_def split: option.splits prod.splits)

lemma watchSignal_frame [simp]:
  "po_objs (pool_watchSignal sig cid s) = po_objs s" "po_workers (pool_watchSignal sig cid s) = po_workers s"
  "po_nextWorkerId (pool_watchSignal sig cid s) = po_nextWorkerId s" "po_queue (pool_watchSignal sig cid s) = po_queue s"
  "po_promises (pool_watchSignal sig cid s) = po_promises s" "po_active (pool_watchSignal sig cid s) = po_active s"
  "po_maxTasks (pool_watchSignal sig cid s) = po_maxTasks s" "po_taskQueue (pool_watchSignal sig cid s) = po_taskQueue s"
  "po_maxQueue (pool_watchSignal sig cid s) = po_maxQueue s" "po_policy (pool_watchSignal sig cid s) = po_policy s"
  "po_aborted (pool_watchSignal sig cid s) = po_aborted s" "po_terminated (pool_watchSignal sig cid s) = po_terminated s"
  "po_minSize (pool_watchSignal sig cid s) = po_minSize s" "po_maxSize (pool_watchSignal sig cid s) = po_maxSize s"
  "po_readyOn (pool_watchSignal sig cid s) = po_readyOn s" "po_high (pool_watchSignal sig cid s) = po_high s"
  "po_limit (pool_watchSignal sig cid s) = po_limit s" "po_paused (pool_watchSignal sig cid s) = po_paused s"
  "po_sent (pool_watchSignal sig cid s) = po_sent s"
  by (simp_all add: pool_watchSignal_def Let_def split: option.splits prod.splits)

lemma dispatch_frame [simp]:
  "po_workers (fst (pool_dispatch wid msg cid start sig s)) = po_workers s"
  "po_nextWorkerId (fst (pool_dispatch wid msg cid start sig s)) = po_nextWorkerId s"
  "po_queue (fst (pool_dispatch wid msg cid start sig s)) = po_queue s" "po_promises (fst (pool_dispatch wid msg cid start sig s)) = po_promises s"
  "po_maxTasks (fst (pool_dispatch wid msg cid start sig s)) = po_maxTasks s"
  "po_taskQueue (fst (pool_dispatch wid msg cid start sig s)) = po_taskQueue s"
  "po_maxQueue (fst (pool_dispatch wid msg cid start sig s)) = po_maxQueue s" "po_policy (fst (pool_dispatch wid msg cid start sig s)) = po_policy s"
  "po_aborted (fst (pool_dispatch wid msg cid start sig s)) = po_aborted s"
  "po_terminated (fst (pool_dispatch wid msg cid start sig s)) = po_terminated s"
  "po_minSize (fst (pool_dispatch wid msg cid start sig s)) = po_minSize s" "po_maxSize (fst (pool_dispatch wid msg cid start sig s)) = po_maxSize s"
  "po_readyOn (fst (pool_dispatch wid msg cid start sig s)) = po_readyOn s" "po_high (fst (pool_dispatch wid msg cid start sig s)) = po_high s"
  "po_limit (fst (pool_dispatch wid msg cid start sig s)) = po_limit s" "po_paused (fst (pool_dispatch wid msg cid start sig s)) = po_paused s"
  by (simp_all add: pool_dispatch_def Let_def split: option.splits prod.splits)

text \<open>What \<open>postMessage\<close> answers; \<open>PostRejected\<close> is a promise rejected before it was registered.\<close>

datatype posted = PostThrew | PostFalse | PostTrue | PostPromise nat | PostRejected pool_error

definition truthy_key :: "string option \<Rightarrow> bool" where
  "truthy_key cid = (case cid of None \<Rightarrow> False | Some k \<Rightarrow> k \<noteq> [])"

text \<open>
  The refusals: a caller who awaits a response has its promise rejected and gets it, any
  other gets \<open>false\<close>.
\<close>

definition pool_refuse :: "pool_error \<Rightarrow> bool \<Rightarrow> string option \<Rightarrow> nat \<Rightarrow> pool \<Rightarrow> pool \<times> posted" where
  "pool_refuse e want cid promise s =
     (if want \<and> truthy_key cid then (pool_cleanup (the cid) (Rejected e) s, PostPromise promise)
      else (s, PostFalse))"

definition pool_accepted :: "bool \<Rightarrow> nat \<Rightarrow> posted" where
  "pool_accepted want promise = (if want then PostPromise promise else PostTrue)"

definition pool_postToWorker :: "nat \<Rightarrow> pmsg \<Rightarrow> rat \<Rightarrow> bool \<Rightarrow> string option \<Rightarrow> nat \<Rightarrow> nat option
    \<Rightarrow> pool \<Rightarrow> pool \<times> posted" where
  "pool_postToWorker wid msg start want cid promise signal s =
     (if m_bypass msg then
        (if \<not> m_posts msg then pool_refuse PE_Post want cid promise s
         else
           (let s = pool_book wid (m_id msg) cid start s
            in (if po_isIdle s then pool_updateIdle s else s, pool_accepted want promise)))
      else
        (case pool_dispatch wid msg cid start signal s of
           (s, False) \<Rightarrow> pool_refuse PE_Post want cid promise s
         | (s, True) \<Rightarrow> (if po_isIdle s then pool_updateIdle s else s, pool_accepted want promise)))"

section \<open>The task queue\<close>

definition pool_shift :: "pool \<Rightarrow> pool \<times> qitem option" where
  "pool_shift s = (case pq_shift (po_queue s) of (q, item) \<Rightarrow> (s\<lparr>po_queue := q\<rparr>, item))"

text \<open>\<open>drop-oldest\<close>: one item leaves the queue and its response is rejected.\<close>

definition pool_dropOldest :: "pool \<Rightarrow> pool" where
  "pool_dropOldest s =
     (case pool_shift s of
        (s, None) \<Rightarrow> s
      | (s, Some item) \<Rightarrow> pool_cleanupOpt (qi_cid item) (Rejected PE_Dropped) s)"

fun pool_evict :: "nat \<Rightarrow> pool \<Rightarrow> pool" where
  "pool_evict 0 s = s"
| "pool_evict (Suc n) s = (if pq_size (po_queue s) = 0 then s else pool_evict n (pool_dropOldest s))"

definition pool_reserve :: "nat \<Rightarrow> pool \<Rightarrow> pool \<times> nat" where
  "pool_reserve wanted s =
     (case po_maxQueue s of
        Fin cap \<Rightarrow>
          (let room = \<lfloor>cap\<rfloor> - int (pq_size (po_queue s)) in
           if int wanted \<le> room then (s, wanted)
           else
             (let s = (if po_policy s = DropOldest then pool_evict (nat (int wanted - room)) s else s);
                  room = \<lfloor>cap\<rfloor> - int (pq_size (po_queue s))
              in (s, nat room)))
      | _ \<Rightarrow> (s, wanted))"

definition pool_crossHigh :: "pool \<Rightarrow> pool" where
  "pool_crossHigh s =
     (case po_high s of
        Fin h \<Rightarrow> if h < of_nat (pq_size (po_queue s)) \<and> \<not> po_highCrossed s
                  then s\<lparr>po_highCrossed := True\<rparr> else s
      | _ \<Rightarrow> s)"

text \<open>The end of \<open>_enqueueOrReject\<close>: the item is pushed.  A push that throws ends the post.\<close>

definition pool_push :: "qitem \<Rightarrow> bool \<Rightarrow> nat \<Rightarrow> pool \<Rightarrow> pool \<times> posted" where
  "pool_push item want promise s =
     (case pq_push qi_priority qi_weight item (po_queue s) of
        (q, Inl e) \<Rightarrow> (s\<lparr>po_queue := q\<rparr>, PostThrew)
      | (q, Inr n) \<Rightarrow>
          (let s = s\<lparr>po_queue := q\<rparr>;
               s = (case (qi_signal item, qi_cid item) of
                      (Some sig, Some k) \<Rightarrow>
                        if sig \<in> set (po_aborted s) then s
                        else s\<lparr>po_listeners := po_listeners s @ [(sig, k)]\<rparr>
                    | _ \<Rightarrow> s)
           in (pool_updateIdle (pool_crossHigh s), pool_accepted want promise)))"

definition pool_enqueueOrReject :: "qitem \<Rightarrow> bool \<Rightarrow> string option \<Rightarrow> nat \<Rightarrow> pool \<Rightarrow> pool \<times> posted" where
  "pool_enqueueOrReject item want cid promise s =
     (if po_policy s = Reject \<or> po_policy s = DropNewest \<and> 0 < pq_size (po_queue s)
      then pool_refuse PE_Policy want cid promise s
      else if po_policy s = DropOldest \<and> 0 < pq_size (po_queue s)
      then pool_push item want promise (pool_dropOldest s)
      else case pool_reserve 1 s of (s, room) \<Rightarrow>
        if room = 0 then pool_refuse PE_QueueFull want cid promise s
        else pool_push item want promise s)"

text \<open>What an operation leaves alone.\<close>

lemma shift_frame [simp]:
  "po_objs (fst (pool_shift s)) = po_objs s" "po_workers (fst (pool_shift s)) = po_workers s"
  "po_nextWorkerId (fst (pool_shift s)) = po_nextWorkerId s" "po_pending (fst (pool_shift s)) = po_pending s"
  "po_promises (fst (pool_shift s)) = po_promises s" "po_log (fst (pool_shift s)) = po_log s" "po_active (fst (pool_shift s)) = po_active s"
  "po_maxTasks (fst (pool_shift s)) = po_maxTasks s" "po_taskQueue (fst (pool_shift s)) = po_taskQueue s"
  "po_maxQueue (fst (pool_shift s)) = po_maxQueue s" "po_policy (fst (pool_shift s)) = po_policy s" "po_aborted (fst (pool_shift s)) = po_aborted s"
  "po_terminated (fst (pool_shift s)) = po_terminated s" "po_minSize (fst (pool_shift s)) = po_minSize s"
  "po_maxSize (fst (pool_shift s)) = po_maxSize s" "po_readyOn (fst (pool_shift s)) = po_readyOn s" "po_high (fst (pool_shift s)) = po_high s"
  "po_limit (fst (pool_shift s)) = po_limit s" "po_paused (fst (pool_shift s)) = po_paused s"
  "po_sent (fst (pool_shift s)) = po_sent s"
  by (simp_all add: pool_shift_def Let_def split: option.splits prod.splits)

lemma dropOldest_frame [simp]:
  "po_objs (pool_dropOldest s) = po_objs s" "po_workers (pool_dropOldest s) = po_workers s" "po_nextWorkerId (pool_dropOldest s) = po_nextWorkerId s"
  "po_promises (pool_dropOldest s) = po_promises s" "po_active (pool_dropOldest s) = po_active s" "po_maxTasks (pool_dropOldest s) = po_maxTasks s"
  "po_taskQueue (pool_dropOldest s) = po_taskQueue s" "po_maxQueue (pool_dropOldest s) = po_maxQueue s" "po_policy (pool_dropOldest s) = po_policy s"
  "po_aborted (pool_dropOldest s) = po_aborted s" "po_terminated (pool_dropOldest s) = po_terminated s"
  "po_minSize (pool_dropOldest s) = po_minSize s" "po_maxSize (pool_dropOldest s) = po_maxSize s" "po_readyOn (pool_dropOldest s) = po_readyOn s"
  "po_high (pool_dropOldest s) = po_high s" "po_limit (pool_dropOldest s) = po_limit s" "po_paused (pool_dropOldest s) = po_paused s"
  "po_sent (pool_dropOldest s) = po_sent s"
  by (simp_all add: pool_dropOldest_def case_prod_beta split: option.splits)

lemma pool_evict_frame [simp]:
  "po_objs (pool_evict n s) = po_objs s" "po_workers (pool_evict n s) = po_workers s" "po_nextWorkerId (pool_evict n s) = po_nextWorkerId s"
  "po_promises (pool_evict n s) = po_promises s" "po_active (pool_evict n s) = po_active s" "po_maxTasks (pool_evict n s) = po_maxTasks s"
  "po_taskQueue (pool_evict n s) = po_taskQueue s" "po_maxQueue (pool_evict n s) = po_maxQueue s" "po_policy (pool_evict n s) = po_policy s"
  "po_aborted (pool_evict n s) = po_aborted s" "po_terminated (pool_evict n s) = po_terminated s" "po_minSize (pool_evict n s) = po_minSize s"
  "po_maxSize (pool_evict n s) = po_maxSize s" "po_readyOn (pool_evict n s) = po_readyOn s" "po_high (pool_evict n s) = po_high s"
  "po_limit (pool_evict n s) = po_limit s" "po_paused (pool_evict n s) = po_paused s"
  "po_sent (pool_evict n s) = po_sent s"
  by (induction n s rule: pool_evict.induct) simp_all

lemma reserve_frame [simp]:
  "po_objs (fst (pool_reserve n s)) = po_objs s" "po_workers (fst (pool_reserve n s)) = po_workers s"
  "po_nextWorkerId (fst (pool_reserve n s)) = po_nextWorkerId s" "po_promises (fst (pool_reserve n s)) = po_promises s"
  "po_active (fst (pool_reserve n s)) = po_active s" "po_maxTasks (fst (pool_reserve n s)) = po_maxTasks s"
  "po_taskQueue (fst (pool_reserve n s)) = po_taskQueue s" "po_maxQueue (fst (pool_reserve n s)) = po_maxQueue s"
  "po_policy (fst (pool_reserve n s)) = po_policy s" "po_aborted (fst (pool_reserve n s)) = po_aborted s"
  "po_terminated (fst (pool_reserve n s)) = po_terminated s" "po_minSize (fst (pool_reserve n s)) = po_minSize s"
  "po_maxSize (fst (pool_reserve n s)) = po_maxSize s" "po_readyOn (fst (pool_reserve n s)) = po_readyOn s"
  "po_high (fst (pool_reserve n s)) = po_high s" "po_limit (fst (pool_reserve n s)) = po_limit s" "po_paused (fst (pool_reserve n s)) = po_paused s"
  "po_sent (fst (pool_reserve n s)) = po_sent s"
  by (simp_all add: pool_reserve_def Let_def split: js_num.splits prod.splits)

lemma crossHigh_frame [simp]:
  "po_objs (pool_crossHigh s) = po_objs s" "po_workers (pool_crossHigh s) = po_workers s" "po_nextWorkerId (pool_crossHigh s) = po_nextWorkerId s"
  "po_queue (pool_crossHigh s) = po_queue s" "po_pending (pool_crossHigh s) = po_pending s" "po_promises (pool_crossHigh s) = po_promises s"
  "po_log (pool_crossHigh s) = po_log s" "po_active (pool_crossHigh s) = po_active s" "po_maxTasks (pool_crossHigh s) = po_maxTasks s"
  "po_taskQueue (pool_crossHigh s) = po_taskQueue s" "po_maxQueue (pool_crossHigh s) = po_maxQueue s" "po_policy (pool_crossHigh s) = po_policy s"
  "po_aborted (pool_crossHigh s) = po_aborted s" "po_terminated (pool_crossHigh s) = po_terminated s" "po_minSize (pool_crossHigh s) = po_minSize s"
  "po_maxSize (pool_crossHigh s) = po_maxSize s" "po_readyOn (pool_crossHigh s) = po_readyOn s" "po_high (pool_crossHigh s) = po_high s"
  "po_limit (pool_crossHigh s) = po_limit s" "po_paused (pool_crossHigh s) = po_paused s"
  "po_sent (pool_crossHigh s) = po_sent s"
  by (simp_all add: pool_crossHigh_def Let_def split: js_num.splits prod.splits)

lemma push_frame [simp]:
  "po_objs (fst (pool_push item want p s)) = po_objs s" "po_workers (fst (pool_push item want p s)) = po_workers s"
  "po_nextWorkerId (fst (pool_push item want p s)) = po_nextWorkerId s" "po_pending (fst (pool_push item want p s)) = po_pending s"
  "po_promises (fst (pool_push item want p s)) = po_promises s" "po_log (fst (pool_push item want p s)) = po_log s"
  "po_active (fst (pool_push item want p s)) = po_active s" "po_maxTasks (fst (pool_push item want p s)) = po_maxTasks s"
  "po_taskQueue (fst (pool_push item want p s)) = po_taskQueue s" "po_maxQueue (fst (pool_push item want p s)) = po_maxQueue s"
  "po_policy (fst (pool_push item want p s)) = po_policy s" "po_aborted (fst (pool_push item want p s)) = po_aborted s"
  "po_terminated (fst (pool_push item want p s)) = po_terminated s" "po_minSize (fst (pool_push item want p s)) = po_minSize s"
  "po_maxSize (fst (pool_push item want p s)) = po_maxSize s" "po_readyOn (fst (pool_push item want p s)) = po_readyOn s"
  "po_high (fst (pool_push item want p s)) = po_high s" "po_limit (fst (pool_push item want p s)) = po_limit s"
  "po_paused (fst (pool_push item want p s)) = po_paused s"
  "po_sent (fst (pool_push item want p s)) = po_sent s"
  by (auto simp: pool_push_def Let_def split: prod.splits sum.splits option.splits)

text \<open>
  Both drains take items off the queue until one is neither past its deadline nor aborted.
\<close>

definition qi_live :: "rat \<Rightarrow> nat list \<Rightarrow> qitem \<Rightarrow> bool" where
  "qi_live now aborted item \<longleftrightarrow>
     (case qi_deadline item of None \<Rightarrow> True | Some d \<Rightarrow> now < d)
     \<and> (case qi_signal item of None \<Rightarrow> True | Some sig \<Rightarrow> sig \<notin> set aborted)"

definition qi_error :: "nat list \<Rightarrow> qitem \<Rightarrow> pool_error" where
  "qi_error aborted item =
     (case qi_signal item of Some sig \<Rightarrow> if sig \<in> set aborted then PE_Aborted else PE_Deadline
      | None \<Rightarrow> PE_Deadline)"

lemma pq_shift_size: "pq_size (fst (pq_shift q)) = pq_size q - 1"
  by (simp add: pq_shift_def Let_def)

lemma pq_shift_None: "pq_shift q = (q', None) \<longleftrightarrow> pq_size q = 0 \<and> q' = q"
  by (auto simp: pq_shift_def Let_def)

lemma pool_shift_size:
  "pool_shift s = (s', Some item) \<Longrightarrow> 0 < pq_size (po_queue s) \<and> pq_size (po_queue s') = pq_size (po_queue s) - 1"
  using pq_shift_size [of "po_queue s"] pq_shift_None [of "po_queue s"]
  by (auto simp: pool_shift_def pq_shift_def Let_def split: prod.splits if_splits)

function pool_nextLive :: "rat \<Rightarrow> pool \<Rightarrow> pool \<times> qitem option" where
  "pool_nextLive now s =
     (case pool_shift s of
        (s1, None) \<Rightarrow> (s1, None)
      | (s1, Some item) \<Rightarrow>
          if qi_live now (po_aborted s1) item then (s1, Some item)
          else pool_nextLive now
                 (pool_cleanupOpt (qi_cid item) (Rejected (qi_error (po_aborted s1) item)) s1))"
  by pat_completeness auto
termination
  by (relation "measure (\<lambda>(now, s). pq_size (po_queue s))") (auto dest!: sym [of _ "pool_shift _"] pool_shift_size)

declare pool_nextLive.simps [simp del]

section \<open>Posting a message\<close>

record popts =
  op_workerId :: "nat option"
  op_await :: bool
  op_cid :: "string option"
  op_timeout :: js_num
  op_deadline :: "js_num option"
  op_signal :: "nat option"
  op_priority :: js_val

definition pool_tasksBelow :: "nat \<Rightarrow> pool \<Rightarrow> bool" where
  "pool_tasksBelow wid s \<longleftrightarrow> num_lt (Fin (of_nat (w_tasks (po_objs s wid)))) (po_maxTasks s)"

definition pool_item :: "pmsg \<Rightarrow> bool \<Rightarrow> string option \<Rightarrow> rat \<Rightarrow> popts \<Rightarrow> qitem" where
  "pool_item msg want cid now opts =
     \<lparr>qi_msg = msg, qi_cid = (if want \<and> truthy_key cid then cid else None), qi_priority = op_priority opts,
      qi_deadline = (case op_deadline opts of Some (Fin d) \<Rightarrow> Some d | _ \<Rightarrow> None),
      qi_signal = op_signal opts, qi_enqueuedAt = now\<rparr>"

definition pool_prepareAndQueue :: "pmsg \<Rightarrow> bool \<Rightarrow> string option \<Rightarrow> nat \<Rightarrow> rat \<Rightarrow> popts \<Rightarrow> pool
    \<Rightarrow> pool \<times> posted" where
  "pool_prepareAndQueue msg want cid promise now opts s =
     (if \<not> m_prepares msg then (s, PostThrew)
      else pool_enqueueOrReject (pool_item msg want cid now opts) want cid promise s)"

definition pool_tryGrow :: "bool \<Rightarrow> pmsg \<Rightarrow> bool \<Rightarrow> string option \<Rightarrow> nat \<Rightarrow> rat \<Rightarrow> popts \<Rightarrow> pool
    \<Rightarrow> pool \<times> posted" where
  "pool_tryGrow spawns msg want cid promise now opts s =
     (if \<not> spawns then pool_refuse PE_Grow want cid promise (pool_addFailed s)
      else if \<not> m_prepares msg then (pool_addWorker now s, PostThrew)
      else pool_postToWorker (po_nextWorkerId s) msg now want cid promise (op_signal opts) (pool_addWorker now s))"

text \<open>The choice of the worker a post would like to use.\<close>

definition pool_candidate :: "lb_choice option \<Rightarrow> rat \<Rightarrow> popts \<Rightarrow> pool \<Rightarrow> pool \<times> nat option" where
  "pool_candidate lb now opts s =
     (case op_workerId opts of
        Some wid \<Rightarrow> (s, if wid \<in> set (po_workers s) then Some wid else None)
      | None \<Rightarrow>
          if length (po_workers s) = 1 \<and> po_maxTasks s = PosInf \<and> \<not> po_readyOn s
          then (s, Some (hd (po_workers s)))
          else pool_selectWorker lb now s)"

definition pool_adaptiveLimit :: "pool \<Rightarrow> nat option" where
  "pool_adaptiveLimit s = map_option (\<lambda>l. nat (max 1 \<lceil>l\<rceil>)) (po_limit s)"

text \<open>The round-robin fallback, when there is no queue; it passes no signal on.\<close>

definition pool_fallback :: "pmsg \<Rightarrow> bool \<Rightarrow> string option \<Rightarrow> nat \<Rightarrow> rat \<Rightarrow> pool \<Rightarrow> pool \<times> posted" where
  "pool_fallback msg want cid promise now s =
     (case pool_readyWorkers now s of (s, ready) \<Rightarrow>
        if ready = [] then pool_refuse PE_NotReady want cid promise s
        else
          (let idx = po_nextIndex s mod length ready;
               s = s\<lparr>po_nextIndex := (po_nextIndex s + 1) mod length ready\<rparr>
           in if \<not> m_prepares msg then pool_refuse PE_Post want cid promise s
              else pool_postToWorker (ready ! idx) msg now want cid promise None s))"

text \<open>\<open>_postMessageInner\<close> once the response is registered.\<close>

definition pool_route :: "bool \<Rightarrow> nat option \<Rightarrow> pmsg \<Rightarrow> bool \<Rightarrow> string option \<Rightarrow> nat \<Rightarrow> rat \<Rightarrow> popts \<Rightarrow> pool
    \<Rightarrow> pool \<times> posted" where
  "pool_route spawns least msg want cid promise now opts s =
     (if (case op_deadline opts of Some (Fin d) \<Rightarrow> d \<le> now | _ \<Rightarrow> False)
      then pool_refuse PE_Deadline want cid promise s
      else if (case pool_adaptiveLimit s of Some l \<Rightarrow> l \<le> po_active s | None \<Rightarrow> False)
      then (if po_taskQueue s then pool_prepareAndQueue msg want cid promise now opts s
            else pool_refuse PE_Adaptive want cid promise s)
      else if (case least of Some wid \<Rightarrow> pool_tasksBelow wid s | None \<Rightarrow> False)
      then (if \<not> m_prepares msg then pool_refuse PE_Post want cid promise s
            else pool_postToWorker (the least) msg now want cid promise (op_signal opts) s)
      else if op_workerId opts \<noteq> None then pool_refuse PE_Targeted want cid promise s
      else if length (po_workers s) < po_maxSize s
      then pool_tryGrow spawns msg want cid promise now opts s
      else if po_taskQueue s then pool_prepareAndQueue msg want cid promise now opts s
      else pool_fallback msg want cid promise now s)"

text \<open>\<open>fresh\<close> is the correlation id that \<open>_generateCorrelationId\<close> would answer.\<close>

definition pool_post :: "lb_choice option \<Rightarrow> bool \<Rightarrow> string \<Rightarrow> rat \<Rightarrow> pmsg \<Rightarrow> popts \<Rightarrow> pool \<Rightarrow> pool \<times> posted" where
  "pool_post lb spawns fresh now msg opts s =
     (if po_terminated s then (s, PostThrew)
      else if (case op_deadline opts of Some (Fin d) \<Rightarrow> False | Some _ \<Rightarrow> True | None \<Rightarrow> False) then (s, PostThrew)
      else case pool_candidate lb now opts s of (s, least) \<Rightarrow>
        (let want = (op_await opts \<or> op_cid opts \<noteq> None) in
         if (case op_signal opts of Some sig \<Rightarrow> sig \<in> set (po_aborted s) | None \<Rightarrow> False)
         then (s, if want then PostRejected PE_Aborted else PostFalse)
         else if \<not> want then pool_route spawns least msg False None 0 now opts s
         else if \<not> m_plain msg then (s, PostThrew)
         else
           (let cid = (case op_cid opts of Some c \<Rightarrow> c | None \<Rightarrow> fresh) in
            case pool_createPending cid (op_timeout opts) s of (s, promise) \<Rightarrow>
              pool_route spawns least msg True (Some cid) promise now opts s)))"

section \<open>Replies and the drains\<close>

text \<open>
  A reply: its correlation id, the response it carries and the duration it reports.  A payload
  that is \<open>null\<close> or \<open>undefined\<close> is \<open>None\<close>; its id can only be on the event.
\<close>

record reply =
  rs_cid :: "string option"
  rs_value :: "nat option"
  rs_duration :: "js_num option"

definition ewma_next :: "rat \<Rightarrow> rat \<Rightarrow> rat option \<Rightarrow> rat option" where
  "ewma_next alpha x old = Some (case old of None \<Rightarrow> x | Some e \<Rightarrow> alpha * x + (1 - alpha) * e)"

definition reply_latency :: "rat \<Rightarrow> reply \<Rightarrow> rat option \<Rightarrow> rat option" where
  "reply_latency now rs start =
     (case rs_duration rs of
        Some (Fin d) \<Rightarrow> Some (max 0 d)
      | _ \<Rightarrow> map_option (\<lambda>t. max 0 (now - t)) start)"

definition pool_recordLatency :: "nat \<Rightarrow> rat \<Rightarrow> reply \<Rightarrow> pool \<Rightarrow> pool" where
  "pool_recordLatency wid now rs s =
     (let w = po_objs s wid;
          start = (case w_starts w of [] \<Rightarrow> None | t # ts \<Rightarrow> Some t);
          alpha = (if po_alpha s = 0 then 1 / 5 else po_alpha s);
          s = pool_setObj wid (\<lambda>w. w\<lparr>w_starts := tl (w_starts w)\<rparr>) s
      in case reply_latency now rs start of
           None \<Rightarrow> s
         | Some x \<Rightarrow>
             (let s = pool_setObj wid (\<lambda>w. w\<lparr>w_latency := ewma_next alpha x (w_latency w),
                    w_completed := w_completed w + 1, w_ever := True\<rparr>) s
              in s\<lparr>po_ewma := ewma_next alpha x (po_ewma s), po_completed := po_completed s + 1\<rparr>))"

definition pool_uncrossHigh :: "pool \<Rightarrow> pool" where
  "pool_uncrossHigh s =
     (case po_high s of
        Fin h \<Rightarrow> if po_highCrossed s \<and> of_nat (pq_size (po_queue s)) \<le> h
                 then s\<lparr>po_highCrossed := False\<rparr> else s
      | _ \<Rightarrow> s\<lparr>po_highCrossed := False\<rparr>)"

text \<open>The inline drain: the worker that replied takes the next live item.\<close>

definition pool_inlineDrain :: "nat \<Rightarrow> rat \<Rightarrow> pool \<Rightarrow> pool" where
  "pool_inlineDrain wid now s =
     (if \<not> po_paused s \<and> 0 < pq_size (po_queue s) \<and> pool_tasksBelow wid s then
        pool_uncrossHigh
          (case pool_nextLive now s of
             (s, None) \<Rightarrow> s
           | (s, Some item) \<Rightarrow> fst (pool_dispatch wid (qi_msg item) (qi_cid item) now (qi_signal item) s))
      else s)"

text \<open>
  Settling the promise the reply is for: the test for a \<open>response\<close> property throws on a payload
  that is \<open>null\<close> or \<open>undefined\<close>, and the handler swallows the error.
\<close>

definition pool_resolve :: "reply \<Rightarrow> pool \<Rightarrow> pool" where
  "pool_resolve rs s = (case rs_value rs of None \<Rightarrow> s | Some v \<Rightarrow> pool_cleanupOpt (rs_cid rs) (Resolved v) s)"

definition pool_onMessage :: "nat \<Rightarrow> reply \<Rightarrow> rat \<Rightarrow> pool \<Rightarrow> pool" where
  "pool_onMessage wid rs now s =
     (if w_settled (po_objs s wid) then s
      else
        (let s = pool_setObj wid (\<lambda>w. w\<lparr>w_tasks := w_tasks w - 1\<rparr>) s;
             s = pool_decrementActive 1 now s;
             s = pool_setObj wid (\<lambda>w. w\<lparr>w_lastActive := now\<rparr>) s;
             s = pool_resolve rs s;
             s = pool_recordLatency wid now rs s
         in pool_updateIdle (pool_inlineDrain wid now s)))"

text \<open>
  \<open>_dispatchQueuedTasks\<close>: the loop over one worker's free slots.  \<open>slots\<close> and \<open>adaptive\<close> are
  \<open>remainingSlots\<close> and \<open>adaptiveSlots\<close>; the answer has the latter and whether anything went out.
\<close>

definition num_dec :: "js_num \<Rightarrow> js_num" where
  "num_dec n = (case n of Fin r \<Rightarrow> Fin (r - 1) | _ \<Rightarrow> n)"

lemma dispatched_queue: "pool_dispatch wid msg cid start sig s = (s', b) \<Longrightarrow> po_queue s' = po_queue s"
  using dispatch_frame(3) [of wid msg cid start sig s] by simp

lemma pool_nextLive_size:
  "pool_nextLive now s = (s', Some item) \<Longrightarrow> pq_size (po_queue s') < pq_size (po_queue s)"
proof (induction now s arbitrary: s' item rule: pool_nextLive.induct)
  case (1 now s)
  obtain s1 x where x: "pool_shift s = (s1, Some x)"
    using "1.prems" by (subst (asm) pool_nextLive.simps) (auto split: prod.splits option.splits)
  have z: "0 < pq_size (po_queue s)" "pq_size (po_queue s1) = pq_size (po_queue s) - 1"
    using pool_shift_size [OF x] by auto
  show ?case
  proof (cases "qi_live now (po_aborted s1) x")
    case True
    then have "s' = s1" using "1.prems" x by (subst (asm) pool_nextLive.simps) auto
    then show ?thesis using z by simp
  next
    case False
    then have "pool_nextLive now (pool_cleanupOpt (qi_cid x) (Rejected (qi_error (po_aborted s1) x)) s1) = (s', Some item)"
      using "1.prems" x by (subst (asm) pool_nextLive.simps) auto
    then have "pq_size (po_queue s') < pq_size (po_queue s1)"
      using "1.IH" [OF x [symmetric] refl False] by simp
    then show ?thesis using z by simp
  qed
qed


definition num_minus_nat :: "js_num \<Rightarrow> nat \<Rightarrow> js_num" where
  "num_minus_nat n k = (case n of Fin r \<Rightarrow> Fin (r - of_nat k) | _ \<Rightarrow> n)"

function pool_fillWorker :: "nat \<Rightarrow> js_num \<Rightarrow> js_num \<Rightarrow> bool \<Rightarrow> rat \<Rightarrow> pool \<Rightarrow> pool \<times> js_num \<times> bool" where
  "pool_fillWorker wid slots adaptive sent now s =
     (if num_lt (Fin 0) slots \<and> num_lt (Fin 0) adaptive \<and> 0 < pq_size (po_queue s) then
        (case pool_nextLive now s of
           (s1, None) \<Rightarrow> (s1, adaptive, sent)
         | (s1, Some item) \<Rightarrow>
             (case pool_dispatch wid (qi_msg item) (qi_cid item) now (qi_signal item) s1 of
                (s2, False) \<Rightarrow> (s2, adaptive, sent)
              | (s2, True) \<Rightarrow>
                  pool_fillWorker wid (num_dec slots) (num_dec adaptive) True now
                    (pool_setObj wid (\<lambda>w. w\<lparr>w_lastActive := now\<rparr>) s2)))
      else (s, adaptive, sent))"
  by pat_completeness auto
termination
proof (relation "measure (\<lambda>(wid, slots, adaptive, sent, now, s). pq_size (po_queue s))", goal_cases)
  case (2 wid slots adaptive sent now s)
  then show ?case
    by (auto dest!: sym [of "(_, Some _)"] pool_nextLive_size sym [of "(_, True)"] simp: dispatched_queue)
qed simp

declare pool_fillWorker.simps [simp del]

fun pool_fillWorkers :: "nat list \<Rightarrow> js_num \<Rightarrow> bool \<Rightarrow> rat \<Rightarrow> pool \<Rightarrow> pool \<times> bool" where
  "pool_fillWorkers [] adaptive sent now s = (s, sent)"
| "pool_fillWorkers (wid # ids) adaptive sent now s =
     (case pool_fillWorker wid (num_minus_nat (po_maxTasks s) (w_tasks (po_objs s wid))) adaptive sent now s of
        (s, adaptive, sent) \<Rightarrow> pool_fillWorkers ids adaptive sent now s)"

definition pool_dispatchQueued :: "rat \<Rightarrow> pool \<Rightarrow> pool" where
  "pool_dispatchQueued now s =
     (if po_paused s \<or> \<not> po_taskQueue s \<or> pq_size (po_queue s) = 0 then s
      else
        (let adaptive = (case pool_adaptiveLimit s of None \<Rightarrow> PosInf | Some l \<Rightarrow> Fin (of_nat (l - po_active s)))
         in case pool_readyWorkers now s of (s, ready) \<Rightarrow>
              (case pool_fillWorkers ready adaptive False now s of (s, sent) \<Rightarrow>
                 (let s = pool_uncrossHigh s in if sent then pool_updateIdle s else s))))"

definition pool_pause :: "pool \<Rightarrow> pool" where
  "pool_pause s = s\<lparr>po_paused := True\<rparr>"

definition pool_resume :: "rat \<Rightarrow> pool \<Rightarrow> pool" where
  "pool_resume now s = (if \<not> po_paused s then s else pool_dispatchQueued now (s\<lparr>po_paused := False\<rparr>))"

text \<open>A worker announces that its initialisation is done.\<close>

definition pool_onReady :: "nat \<Rightarrow> rat \<Rightarrow> pool \<Rightarrow> pool" where
  "pool_onReady wid now s =
     (if po_readyOn s \<and> \<not> w_ready (po_objs s wid)
      then pool_dispatchQueued now (pool_setObj wid (\<lambda>w. w\<lparr>w_ready := True\<rparr>) s) else s)"

section \<open>Exits, resizing and shutdown\<close>

definition MAX_CONSECUTIVE_BOOTSTRAP_FAILURES :: nat where
  "MAX_CONSECUTIVE_BOOTSTRAP_FAILURES = 3"

text \<open>\<open>k\<close> is how many workers the host can still create.\<close>

definition pool_onExit :: "nat \<Rightarrow> nat \<Rightarrow> rat \<Rightarrow> pool \<Rightarrow> pool" where
  "pool_onExit wid k now s =
     (let s = pool_terminateWorker wid now s;
          s = s\<lparr>po_workers := remove1 wid (po_workers s)\<rparr>;
          s = (if w_ever (po_objs s wid) then s\<lparr>po_bootFails := 0\<rparr> else s\<lparr>po_bootFails := po_bootFails s + 1\<rparr>)
      in if \<not> w_ever (po_objs s wid) \<and> MAX_CONSECUTIVE_BOOTSTRAP_FAILURES \<le> po_bootFails s \<or> po_terminated s
         then pool_updateIdle s else pool_updateIdle (pool_refill k now s))"

fun pool_popTo :: "nat \<Rightarrow> nat list \<Rightarrow> rat \<Rightarrow> pool \<Rightarrow> pool" where
  "pool_popTo n [] now s = s"
| "pool_popTo n (wid # rest) now s =
     (if n < length (po_workers s)
      then pool_popTo n rest now (pool_terminateWorker wid now (s\<lparr>po_workers := butlast (po_workers s)\<rparr>))
      else s)"

text \<open>The two forms of the argument: a number, or an object with \<open>minSize\<close> and \<open>maxSize\<close> (\<open>NaN\<close> if absent).\<close>

datatype resize_arg = ResizeTo js_num | ResizeObj js_num js_num

definition num_floor0 :: "rat \<Rightarrow> nat" where
  "num_floor0 r = nat \<lfloor>r\<rfloor>"

definition resize_bounds :: "resize_arg \<Rightarrow> pool \<Rightarrow> (nat \<times> nat) option" where
  "resize_bounds a s =
     (case a of
        ResizeTo (Fin v) \<Rightarrow> Some (po_minSize s, max (po_minSize s) (num_floor0 v))
      | ResizeTo _ \<Rightarrow> None
      | ResizeObj mn mx \<Rightarrow>
          (let newMin = (case mn of Fin v \<Rightarrow> num_floor0 v | _ \<Rightarrow> po_minSize s);
               newMax = (case mx of Fin v \<Rightarrow> max newMin (num_floor0 v) | _ \<Rightarrow> po_maxSize s)
           in Some (newMin, max newMin newMax)))"

definition pool_resize :: "resize_arg \<Rightarrow> nat \<Rightarrow> rat \<Rightarrow> pool \<Rightarrow> pool" where
  "pool_resize a k now s =
     (case resize_bounds a s of
        None \<Rightarrow> s
      | Some (mn, mx) \<Rightarrow>
          (let s = pool_refill k now (s\<lparr>po_minSize := mn, po_maxSize := mx\<rparr>)
           in pool_updateIdle (pool_popTo mx (rev (po_workers s)) now s)))"

definition pool_add :: "bool \<Rightarrow> rat \<Rightarrow> pool \<Rightarrow> pool" where
  "pool_add spawns now s =
     (if po_terminated s then s
      else if \<not> spawns then pool_addFailed s else pool_updateIdle (pool_addWorker now s))"

definition pool_remove :: "rat \<Rightarrow> pool \<Rightarrow> pool" where
  "pool_remove now s =
     (if po_workers s = [] then s
      else pool_updateIdle (pool_terminateWorker (last (po_workers s)) now (s\<lparr>po_workers := butlast (po_workers s)\<rparr>)))"

text \<open>The idle reaper walks the array from the end and fills a hole with the last worker.\<close>

fun pool_reapLoop :: "nat \<Rightarrow> rat \<Rightarrow> pool \<Rightarrow> pool" where
  "pool_reapLoop 0 now s = s"
| "pool_reapLoop (Suc i) now s =
     (let w = po_workers s ! i in
      if length (po_workers s) \<le> po_minSize s then s
      else if w_tasks (po_objs s w) = 0 \<and> num_lt (po_idleTimeout s) (Fin (now - w_lastActive (po_objs s w)))
      then
        (let s = pool_terminateWorker w now s;
             lst = last (po_workers s); init = butlast (po_workers s)
         in pool_reapLoop i now (s\<lparr>po_workers := (if i = length init then init else init[i := lst])\<rparr>))
      else pool_reapLoop i now s)"

definition pool_reap :: "rat \<Rightarrow> pool \<Rightarrow> pool" where
  "pool_reap now s =
     (if \<not> num_lt (Fin 0) (po_idleTimeout s) then s
      else pool_updateIdle (pool_reapLoop (length (po_workers s)) now s))"

definition pool_shutdown :: "rat \<Rightarrow> pool \<Rightarrow> pool" where
  "pool_shutdown now s =
     (if po_terminated s then s
      else
        (let s = pool_rejectAll PE_Shutdown (s\<lparr>po_terminated := True\<rparr>);
             s = fold (\<lambda>wid. pool_terminateWorker wid now) (po_workers s) s
         in pool_updateIdle (s\<lparr>po_workers := [], po_queue := pool_makeTaskQueue, po_highCrossed := False,
              po_active := 0\<rparr>)))"

section \<open>Construction and runs\<close>

text \<open>The validated options.\<close>

record pconf =
  cf_size :: nat
  cf_minSize :: nat
  cf_maxSize :: nat
  cf_lazy :: bool
  cf_maxTasks :: js_num
  cf_taskQueue :: bool
  cf_policy :: queue_policy
  cf_maxQueue :: js_num
  cf_high :: js_num
  cf_ready :: bool
  cf_readyTimeout :: rat
  cf_idleTimeout :: js_num
  cf_responseTimeout :: rat
  cf_alpha :: rat
  cf_limit :: "rat option"

fun pool_initial :: "nat \<Rightarrow> nat \<Rightarrow> rat \<Rightarrow> pool \<Rightarrow> pool" where
  "pool_initial 0 k now s = s"
| "pool_initial (Suc n) k now s =
     (case k of 0 \<Rightarrow> pool_addFailed s | Suc k' \<Rightarrow> pool_initial n k' now (pool_addWorker now s))"

definition pool_new :: "pconf \<Rightarrow> nat \<Rightarrow> rat \<Rightarrow> pool" where
  "pool_new c k now =
     (let mx = max (cf_minSize c) (cf_maxSize c) in
      pool_initial (if cf_lazy c then min (cf_minSize c) mx else min (max (cf_size c) (cf_minSize c)) mx) k now
      \<lparr>po_objs = (\<lambda>_. no_wk), po_workers = [], po_nextWorkerId = 0, po_queue = pool_makeTaskQueue,
       po_pending = [], po_promises = 0, po_log = [], po_listeners = [], po_aborted = [], po_active = 0,
       po_minSize = cf_minSize c, po_maxSize = mx, po_maxTasks = cf_maxTasks c,
       po_taskQueue = cf_taskQueue c, po_policy = cf_policy c, po_maxQueue = cf_maxQueue c,
       po_high = cf_high c, po_highCrossed = False, po_paused = False, po_nextIndex = 0,
       po_limit = cf_limit c, po_readyOn = cf_ready c, po_readyTimeout = cf_readyTimeout c,
       po_idleTimeout = cf_idleTimeout c, po_responseTimeout = cf_responseTimeout c, po_alpha = cf_alpha c,
       po_ewma = None, po_isIdle = True, po_idles = 0, po_busySince = None, po_busyTime = 0,
       po_terminated = False, po_bootFails = 0, po_completed = 0, po_retiredTasks = 0,
       po_retiredCount = 0, po_posted = [], po_sent = []\<rparr>)"

text \<open>
  What can happen to a pool.  A worker's handlers are detached when the pool terminates it,
  so readiness and exits come from workers in the array; a reply may still be under way.
  \<open>EvLimit\<close> is a tick of the adaptive limiter.
\<close>

datatype pool_event =
    EvPost "lb_choice option" bool string rat pmsg popts
  | EvReply nat reply rat
  | EvReady nat rat
  | EvExit nat nat rat
  | EvTimeout string
  | EvAbort nat
  | EvPause
  | EvResume rat
  | EvResize resize_arg nat rat
  | EvAdd bool rat
  | EvRemove rat
  | EvReap rat
  | EvLimit rat
  | EvShutdown rat

fun pool_step :: "pool_event \<Rightarrow> pool \<Rightarrow> pool" where
  "pool_step (EvPost lb spawns fresh now msg opts) s = fst (pool_post lb spawns fresh now msg opts s)"
| "pool_step (EvReply wid rs now) s = pool_onMessage wid rs now s"
| "pool_step (EvReady wid now) s = (if wid \<in> set (po_workers s) then pool_onReady wid now s else s)"
| "pool_step (EvExit wid k now) s = (if wid \<in> set (po_workers s) then pool_onExit wid k now s else s)"
| "pool_step (EvTimeout key) s = pool_timeout key s"
| "pool_step (EvAbort sig) s = pool_abort sig s"
| "pool_step EvPause s = pool_pause s"
| "pool_step (EvResume now) s = pool_resume now s"
| "pool_step (EvResize a k now) s = pool_resize a k now s"
| "pool_step (EvAdd spawns now) s = pool_add spawns now s"
| "pool_step (EvRemove now) s = pool_remove now s"
| "pool_step (EvReap now) s = pool_reap now s"
| "pool_step (EvLimit l) s = (if po_limit s = None then s else s\<lparr>po_limit := Some l\<rparr>)"
| "pool_step (EvShutdown now) s = pool_shutdown now s"

fun pool_run :: "pool_event list \<Rightarrow> pool \<Rightarrow> pool" where
  "pool_run [] s = s"
| "pool_run (e # es) s = pool_run es (pool_step e s)"

end
