(* ===== verification/PoolRuns.thy ===== *)
theory PoolRuns
  imports Pool
begin

text \<open>
  What the pool guarantees over any run: every response promise is settled once or still
  pending, a pending response is owed by a live worker, retired workers carry no load, the
  count of active tasks, the limit per worker and the bound of the queue.
\<close>

section \<open>What the drains preserve\<close>

lemma nextLive_preserves:
  assumes shift: "\<And>s. P s \<Longrightarrow> P (fst (pool_shift s))"
    and clean: "\<And>s k r. P s \<Longrightarrow> P (pool_cleanup k r s)"
  shows "P s \<Longrightarrow> P (fst (pool_nextLive now s))"
proof (induction now s rule: pool_nextLive.induct)
  case (1 now s)
  obtain s1 x where s1: "pool_shift s = (s1, x)" by (cases "pool_shift s")
  have P1: "P s1" using shift [OF "1.prems"] s1 by simp
  have opt: "P (pool_cleanupOpt k r s1)" for k r
    using P1 clean by (simp add: pool_cleanupOpt_def split: option.splits)
  show ?case
  proof (cases x)
    case None
    then show ?thesis using s1 P1 by (simp add: pool_nextLive.simps [of now s])
  next
    case (Some item)
    show ?thesis
    proof (cases "qi_live now (po_aborted s1) item")
      case True
      then show ?thesis using s1 Some P1 by (simp add: pool_nextLive.simps [of now s])
    next
      case False
      show ?thesis using s1 Some False "1.IH" [OF s1 [unfolded Some, symmetric] refl False opt]
        by (simp add: pool_nextLive.simps [of now s])
    qed
  qed
qed

text \<open>\<open>Q\<close> also speaks of the slots that are left.\<close>

lemma fillWorker_preserves:
  assumes live: "\<And>n s. Q n s \<Longrightarrow> Q n (fst (pool_nextLive now s))"
    and sent: "\<And>n s msg cid sig. Q n s \<Longrightarrow> num_lt (Fin 0) n \<Longrightarrow> m_posts msg \<Longrightarrow>
      Q (num_dec n) (pool_setObj wid (\<lambda>w. w\<lparr>w_lastActive := now\<rparr>) (fst (pool_dispatch wid msg cid now sig s)))"
  shows "Q slots s \<Longrightarrow> \<exists>n. Q n (fst (pool_fillWorker wid slots adaptive b now s))"
  using live sent
proof (induction wid slots adaptive b now s rule: pool_fillWorker.induct)
  case (1 wid slots adaptive b now s)
  have ?case
    if c: "num_lt (Fin 0) slots \<and> num_lt (Fin 0) adaptive \<and> 0 < pq_size (po_queue s)"
  proof -
    obtain s1 x where s1: "pool_nextLive now s = (s1, x)" by (cases "pool_nextLive now s")
    have Q1: "Q slots s1" using "1.prems"(2) [OF "1.prems"(1)] s1 by (metis fst_conv)
    show ?thesis
    proof (cases x)
      case None
      then show ?thesis using s1 c Q1 by (auto simp: pool_fillWorker.simps [of wid slots])
    next
      case (Some item)
      obtain s2 d where s2: "pool_dispatch wid (qi_msg item) (qi_cid item) now (qi_signal item) s1 = (s2, d)"
        (is "?d = _") by (cases ?d)
      show ?thesis
      proof (cases d)
        case False
        then have "s2 = s1" using s2 by (simp add: pool_dispatch_def Let_def split: if_splits)
        then show ?thesis using s1 s2 c Some False Q1 by (auto simp: pool_fillWorker.simps [of wid slots])
      next
        case True
        have "m_posts (qi_msg item)" using s2 True by (simp add: pool_dispatch_def split: if_splits)
        then have "Q (num_dec slots) (pool_setObj wid (\<lambda>w. w\<lparr>w_lastActive := now\<rparr>) s2)"
          using "1.prems"(3) [OF Q1, of "qi_msg item" "qi_cid item" "qi_signal item"] s2 c by simp
        then show ?thesis using s1 s2 c Some True
            "1.IH" [OF c s1 [unfolded Some, symmetric] refl s2 [unfolded True, symmetric] _ _ "1.prems"(2,3)]
          by (simp add: pool_fillWorker.simps [of wid slots])
      qed
    qed
  qed
  then show ?case using "1.prems"(1) by (cases "num_lt (Fin 0) slots \<and> num_lt (Fin 0) adaptive \<and> 0 < pq_size (po_queue s)")
      (auto simp: pool_fillWorker.simps [of wid slots])
qed

lemma nextLive_same:
  "po_objs (fst (pool_nextLive now s)) = po_objs s \<and> po_workers (fst (pool_nextLive now s)) =
   po_workers s \<and> po_nextWorkerId (fst (pool_nextLive now s)) = po_nextWorkerId s \<and>
   po_promises (fst (pool_nextLive now s)) = po_promises s \<and> po_active (fst (pool_nextLive now
   s)) = po_active s \<and> po_maxTasks (fst (pool_nextLive now s)) = po_maxTasks s \<and>
   po_taskQueue (fst (pool_nextLive now s)) = po_taskQueue s \<and> po_maxQueue (fst (pool_nextLive
   now s)) = po_maxQueue s \<and> po_policy (fst (pool_nextLive now s)) = po_policy s \<and>
   po_aborted (fst (pool_nextLive now s)) = po_aborted s \<and> po_terminated (fst (pool_nextLive
   now s)) = po_terminated s \<and> po_minSize (fst (pool_nextLive now s)) = po_minSize s \<and>
   po_maxSize (fst (pool_nextLive now s)) = po_maxSize s \<and> po_readyOn (fst (pool_nextLive now
   s)) = po_readyOn s \<and> po_high (fst (pool_nextLive now s)) = po_high s \<and> po_limit (fst
   (pool_nextLive now s)) = po_limit s \<and> po_paused (fst (pool_nextLive now s)) = po_paused s"
  by (rule nextLive_preserves [where P = "\<lambda>t. po_objs t = po_objs s \<and> po_workers t = po_workers s \<and> po_nextWorkerId t =
   po_nextWorkerId s \<and> po_promises t = po_promises s \<and> po_active t = po_active s \<and>
   po_maxTasks t = po_maxTasks s \<and> po_taskQueue t = po_taskQueue s \<and> po_maxQueue t =
   po_maxQueue s \<and> po_policy t = po_policy s \<and> po_aborted t = po_aborted s \<and>
   po_terminated t = po_terminated s \<and> po_minSize t = po_minSize s \<and> po_maxSize t =
   po_maxSize s \<and> po_readyOn t = po_readyOn s \<and> po_high t = po_high s \<and> po_limit t =
   po_limit s \<and> po_paused t = po_paused s"])
    simp_all

lemma nextLive_frame [simp]:
  "po_objs (fst (pool_nextLive now s)) = po_objs s" "po_workers (fst (pool_nextLive now s)) = po_workers s"
  "po_nextWorkerId (fst (pool_nextLive now s)) = po_nextWorkerId s" "po_promises (fst (pool_nextLive now s)) = po_promises s"
  "po_active (fst (pool_nextLive now s)) = po_active s" "po_maxTasks (fst (pool_nextLive now s)) = po_maxTasks s"
  "po_taskQueue (fst (pool_nextLive now s)) = po_taskQueue s" "po_maxQueue (fst (pool_nextLive now s)) = po_maxQueue s"
  "po_policy (fst (pool_nextLive now s)) = po_policy s" "po_aborted (fst (pool_nextLive now s)) = po_aborted s"
  "po_terminated (fst (pool_nextLive now s)) = po_terminated s" "po_minSize (fst (pool_nextLive now s)) = po_minSize s"
  "po_maxSize (fst (pool_nextLive now s)) = po_maxSize s" "po_readyOn (fst (pool_nextLive now s)) = po_readyOn s"
  "po_high (fst (pool_nextLive now s)) = po_high s" "po_limit (fst (pool_nextLive now s)) = po_limit s"
  "po_paused (fst (pool_nextLive now s)) = po_paused s"
  using nextLive_same [of now s] by blast+

lemma fillWorker_same:
  "po_workers (fst (pool_fillWorker wid slots adaptive b now s)) = po_workers s \<and>
   po_nextWorkerId (fst (pool_fillWorker wid slots adaptive b now s)) = po_nextWorkerId s \<and>
   po_promises (fst (pool_fillWorker wid slots adaptive b now s)) = po_promises s \<and> po_maxTasks
   (fst (pool_fillWorker wid slots adaptive b now s)) = po_maxTasks s \<and> po_taskQueue (fst
   (pool_fillWorker wid slots adaptive b now s)) = po_taskQueue s \<and> po_maxQueue (fst
   (pool_fillWorker wid slots adaptive b now s)) = po_maxQueue s \<and> po_policy (fst
   (pool_fillWorker wid slots adaptive b now s)) = po_policy s \<and> po_aborted (fst
   (pool_fillWorker wid slots adaptive b now s)) = po_aborted s \<and> po_terminated (fst
   (pool_fillWorker wid slots adaptive b now s)) = po_terminated s \<and> po_minSize (fst
   (pool_fillWorker wid slots adaptive b now s)) = po_minSize s \<and> po_maxSize (fst
   (pool_fillWorker wid slots adaptive b now s)) = po_maxSize s \<and> po_readyOn (fst
   (pool_fillWorker wid slots adaptive b now s)) = po_readyOn s \<and> po_high (fst (pool_fillWorker
   wid slots adaptive b now s)) = po_high s \<and> po_limit (fst (pool_fillWorker wid slots adaptive
   b now s)) = po_limit s \<and> po_paused (fst (pool_fillWorker wid slots adaptive b now s)) =
   po_paused s"
  using fillWorker_preserves [where Q = "\<lambda>n t. po_workers t = po_workers s \<and> po_nextWorkerId t = po_nextWorkerId s \<and> po_promises t =
   po_promises s \<and> po_maxTasks t = po_maxTasks s \<and> po_taskQueue t = po_taskQueue s \<and>
   po_maxQueue t = po_maxQueue s \<and> po_policy t = po_policy s \<and> po_aborted t = po_aborted s
   \<and> po_terminated t = po_terminated s \<and> po_minSize t = po_minSize s \<and> po_maxSize t =
   po_maxSize s \<and> po_readyOn t = po_readyOn s \<and> po_high t = po_high s \<and> po_limit t =
   po_limit s \<and> po_paused t = po_paused s"
    and slots = slots and s = s and wid = wid and now = now and adaptive = adaptive and b = b]
  by simp

lemma fillWorker_frame [simp]:
  "po_workers (fst (pool_fillWorker wid slots adaptive b now s)) = po_workers s"
  "po_nextWorkerId (fst (pool_fillWorker wid slots adaptive b now s)) = po_nextWorkerId s"
  "po_promises (fst (pool_fillWorker wid slots adaptive b now s)) = po_promises s"
  "po_maxTasks (fst (pool_fillWorker wid slots adaptive b now s)) = po_maxTasks s"
  "po_taskQueue (fst (pool_fillWorker wid slots adaptive b now s)) = po_taskQueue s"
  "po_maxQueue (fst (pool_fillWorker wid slots adaptive b now s)) = po_maxQueue s"
  "po_policy (fst (pool_fillWorker wid slots adaptive b now s)) = po_policy s"
  "po_aborted (fst (pool_fillWorker wid slots adaptive b now s)) = po_aborted s"
  "po_terminated (fst (pool_fillWorker wid slots adaptive b now s)) = po_terminated s"
  "po_minSize (fst (pool_fillWorker wid slots adaptive b now s)) = po_minSize s"
  "po_maxSize (fst (pool_fillWorker wid slots adaptive b now s)) = po_maxSize s"
  "po_readyOn (fst (pool_fillWorker wid slots adaptive b now s)) = po_readyOn s"
  "po_high (fst (pool_fillWorker wid slots adaptive b now s)) = po_high s" "po_limit (fst (pool_fillWorker wid slots adaptive b now s)) = po_limit s"
  "po_paused (fst (pool_fillWorker wid slots adaptive b now s)) = po_paused s"
  using fillWorker_same [of wid slots adaptive b now s] by blast+

section \<open>Every promise settles once\<close>

text \<open>
  The promises made so far are the pending ones and the settled ones, each exactly once.
\<close>

definition promise_ok :: "pool \<Rightarrow> bool" where
  "promise_ok s \<longleftrightarrow> jm_ok (po_pending s) \<and>
     mset (map (\<lambda>p. pn_promise (snd p)) (po_pending s)) + mset (map fst (po_log s)) = mset [0..<po_promises s]"

lemma jm_delete_new: "k \<notin> set (map fst m) \<Longrightarrow> jm_delete k m = m"
  by (auto simp: jm_delete_def filter_id_conv)

lemma mset_jm_delete:
  "jm_ok m \<Longrightarrow> jm_get k m = Some e \<Longrightarrow> mset m = add_mset (k, e) (mset (jm_delete k m))"
proof (induction m)
  case (Cons p m)
  show ?case
  proof (cases "fst p = k")
    case True
    then have "jm_delete k (p # m) = m"
      using Cons.prems(1) jm_delete_new [of k m] by (auto simp: jm_ok_def jm_delete_def)
    then show ?thesis using True Cons.prems(2) by (cases p) (auto simp: jm_get_def)
  next
    case False
    then show ?thesis using Cons by (auto simp: jm_get_def jm_ok_def jm_delete_def)
  qed
qed (simp add: jm_get_def)

lemma mset_jm_set_same:
  "jm_get k m = Some e \<Longrightarrow> pn_promise e' = pn_promise e \<Longrightarrow>
     image_mset (\<lambda>p. pn_promise (snd p)) (mset (jm_set k e' m)) = image_mset (\<lambda>p. pn_promise (snd p)) (mset m)"
proof (induction m)
  case (Cons p m)
  then show ?case by (cases p) (auto simp: jm_get_def split: if_splits)
qed (simp add: jm_get_def)

lemma promise_cleanup [simp]: "promise_ok s \<Longrightarrow> promise_ok (pool_cleanup k r s)"
  by (auto simp: promise_ok_def pool_cleanup_def js.ok_del mset_jm_delete split: option.splits
      dest!: mset_jm_delete)

lemma promise_cleanupOpt [simp]: "promise_ok s \<Longrightarrow> promise_ok (pool_cleanupOpt k r s)"
  by (auto simp: pool_cleanupOpt_def split: option.splits)

lemma promise_cleanup_fold [simp]: "promise_ok s \<Longrightarrow> promise_ok (fold (\<lambda>k. pool_cleanup k r) ks s)"
  by (induction ks arbitrary: s) auto

lemma cleanup_gone [simp]: "jm_get k (po_pending (pool_cleanup k r s)) = None"
  by (simp add: pool_cleanup_def jm_delete_get split: option.splits)

lemma promise_createPending [simp]: "promise_ok s \<Longrightarrow> promise_ok (fst (pool_createPending k t s))"
proof -
  assume "promise_ok s"
  then have "promise_ok (pool_cleanup k (Rejected PE_Duplicate) s)" (is "promise_ok ?s") by auto
  moreover have "\<not> jm_has k (po_pending ?s)" by (simp add: jm_has_get)
  ultimately show ?thesis
    by (simp add: promise_ok_def pool_createPending_def Let_def jm_set_new js.ok_put)
      (simp add: jm_ok_def jm_has_def rev_image_eqI)
qed

lemma promise_markPending [simp]: "promise_ok s \<Longrightarrow> promise_ok (pool_markPending k wid s)"
  by (auto simp: promise_ok_def pool_markPending_def js.ok_put mset_jm_set_same split: option.splits)

lemma promise_same:
  "po_pending t = po_pending s \<Longrightarrow> po_log t = po_log s \<Longrightarrow> po_promises t = po_promises s \<Longrightarrow>
     promise_ok t = promise_ok s"
  by (simp add: promise_ok_def)

lemma promise_unaffected [simp]:
  "promise_ok (pool_updateIdle s) = promise_ok s" "promise_ok (pool_busyInterval b a now s) = promise_ok s"
  "promise_ok (pool_decrementActive n now s) = promise_ok s" "promise_ok (pool_setObj wid f s) = promise_ok s"
  "promise_ok (pool_addWorker now s) = promise_ok s" "promise_ok (pool_addFailed s) = promise_ok s"
  "promise_ok (fst (pool_readyWorkers now s)) = promise_ok s"
  "promise_ok (fst (pool_selectWorker lb now s)) = promise_ok s"
  "promise_ok (fst (pool_shift s)) = promise_ok s" "promise_ok (pool_crossHigh s) = promise_ok s"
  "promise_ok (fst (pool_push item want p s)) = promise_ok s"
  by (rule promise_same; simp)+

lemma promise_updates [simp]:
  "promise_ok (s\<lparr>po_workers := ws\<rparr>) = promise_ok s" "promise_ok (s\<lparr>po_queue := q\<rparr>) = promise_ok s"
  "promise_ok (s\<lparr>po_active := n\<rparr>) = promise_ok s" "promise_ok (s\<lparr>po_posted := ps, po_sent := xs\<rparr>) = promise_ok s"
  "promise_ok (s\<lparr>po_listeners := l\<rparr>) = promise_ok s" "promise_ok (s\<lparr>po_aborted := ab\<rparr>) = promise_ok s"
  "promise_ok (s\<lparr>po_nextIndex := n\<rparr>) = promise_ok s" "promise_ok (s\<lparr>po_highCrossed := b\<rparr>) = promise_ok s"
  "promise_ok (s\<lparr>po_paused := b\<rparr>) = promise_ok s" "promise_ok (s\<lparr>po_bootFails := n\<rparr>) = promise_ok s"
  "promise_ok (s\<lparr>po_retiredTasks := n, po_retiredCount := m\<rparr>) = promise_ok s"
  "promise_ok (s\<lparr>po_ewma := e, po_completed := m\<rparr>) = promise_ok s"
  "promise_ok (s\<lparr>po_minSize := n, po_maxSize := m\<rparr>) = promise_ok s"
  "promise_ok (s\<lparr>po_limit := lm\<rparr>) = promise_ok s" "promise_ok (s\<lparr>po_terminated := b\<rparr>) = promise_ok s"
  by (simp_all add: promise_ok_def)

lemma promise_refuse [simp]: "promise_ok s \<Longrightarrow> promise_ok (fst (pool_refuse e want cid p s))"
  by (auto simp: pool_refuse_def)

lemma promise_dropOldest [simp]: "promise_ok s \<Longrightarrow> promise_ok (pool_dropOldest s)"
  by (auto simp: pool_dropOldest_def case_prod_beta split: option.splits)

lemma promise_evict [simp]: "promise_ok s \<Longrightarrow> promise_ok (pool_evict n s)"
  by (induction n s rule: pool_evict.induct) auto

lemma promise_reserve [simp]: "promise_ok s \<Longrightarrow> promise_ok (fst (pool_reserve n s))"
  by (auto simp: pool_reserve_def Let_def split: js_num.splits)

lemma promise_enqueue [simp]: "promise_ok s \<Longrightarrow> promise_ok (fst (pool_enqueueOrReject item want cid p s))"
  by (auto simp: pool_enqueueOrReject_def case_prod_beta)

section \<open>The queue stays within its cap\<close>

definition queue_ok :: "pool \<Rightarrow> bool" where
  "queue_ok s \<longleftrightarrow> (\<forall>c. po_maxQueue s = Fin c \<longrightarrow> pq_size (po_queue s) \<le> nat \<lfloor>c\<rfloor>)"

lemma queue_same:
  "po_queue t = po_queue s \<Longrightarrow> po_maxQueue t = po_maxQueue s \<Longrightarrow> queue_ok t = queue_ok s"
  by (simp add: queue_ok_def)

lemma pq_push_size:
  "pq_push prio wt x q = (q', r) \<Longrightarrow> pq_size q' = (case r of Inl e \<Rightarrow> pq_size q | Inr n \<Rightarrow> pq_size q + 1)"
  by (auto simp: pq_push_def pq_grow_def Let_def split: sum.splits if_splits prod.splits)

lemma push_size: "pq_size (po_queue (fst (pool_push item want p s))) \<le> pq_size (po_queue s) + 1"
proof -
  obtain q r where "pq_push qi_priority qi_weight item (po_queue s) = (q, r)" (is "?p = _") by (cases ?p)
  moreover from this have "pq_size q \<le> pq_size (po_queue s) + 1" by (auto dest!: pq_push_size split: sum.splits)
  ultimately show ?thesis by (auto simp: pool_push_def Let_def split: sum.splits option.splits)
qed

lemma shift_queue_size: "pq_size (po_queue (fst (pool_shift s))) = pq_size (po_queue s) - 1"
  using pq_shift_size [of "po_queue s"] by (simp add: pool_shift_def case_prod_beta)

lemma dropOldest_size: "pq_size (po_queue (pool_dropOldest s)) = pq_size (po_queue s) - 1"
  using shift_queue_size [of s] by (simp add: pool_dropOldest_def case_prod_beta split: option.splits)

lemma reserve_room:
  assumes "pool_reserve 1 s = (t, n)" "n \<noteq> 0" "po_maxQueue s = Fin c"
  shows "pq_size (po_queue t) + 1 \<le> nat \<lfloor>c\<rfloor>"
  using assms by (auto simp: pool_reserve_def Let_def split: if_splits)

lemma refuse_queue [simp]:
  "po_queue (fst (pool_refuse e want cid p s)) = po_queue s"
  "po_maxQueue (fst (pool_refuse e want cid p s)) = po_maxQueue s"
  by (simp_all add: pool_refuse_def)

lemma evict_size: "pq_size (po_queue (pool_evict n s)) \<le> pq_size (po_queue s)"
proof (induction n s rule: pool_evict.induct)
  case (2 n s)
  then show ?case using dropOldest_size [of s] by auto
qed simp

lemma reserve_size: "pq_size (po_queue (fst (pool_reserve n s))) \<le> pq_size (po_queue s)"
  by (auto simp: pool_reserve_def Let_def evict_size split: js_num.splits)

lemma queue_enqueue [simp]: "queue_ok s \<Longrightarrow> queue_ok (fst (pool_enqueueOrReject item want cid p s))"
proof -
  assume s: "queue_ok s"
  obtain t n where t: "pool_reserve 1 s = (t, n)" by (cases "pool_reserve 1 s")
  have mq: "po_maxQueue t = po_maxQueue s" and sz: "pq_size (po_queue t) \<le> pq_size (po_queue s)"
  proof -
    have "po_maxQueue (fst (pool_reserve 1 s)) = po_maxQueue s" by simp
    then show "po_maxQueue t = po_maxQueue s" unfolding t by simp
    show "pq_size (po_queue t) \<le> pq_size (po_queue s)" using reserve_size [of 1 s] unfolding t by simp
  qed
  have "queue_ok (fst (pool_push item want p (pool_dropOldest s)))" if "0 < pq_size (po_queue s)"
    using s that push_size [of item want p "pool_dropOldest s"] dropOldest_size [of s] by (auto simp: queue_ok_def)
  moreover have "queue_ok (fst (pool_push item want p t))" if "n \<noteq> 0"
    using reserve_room [OF t that] mq push_size [of item want p t] by (fastforce simp: queue_ok_def)
  moreover have "queue_ok t" using s mq sz by (fastforce simp: queue_ok_def)
  ultimately show ?thesis using s t
    by (auto simp: pool_enqueueOrReject_def queue_ok_def)
qed

lemma makeTaskQueue_size [simp]: "pq_size pool_makeTaskQueue = 0"
  by (simp add: pool_makeTaskQueue_def pq_new_def pq_new_arg_def pq_alloc_def assertLimitRequired_def
      assertLimit_def limit_spec_def new_array_def Let_def POWER_QUEUE_INITIAL_CAPACITY_def)

section \<open>Invariants of the promises and of the queue\<close>

text \<open>
  A predicate that depends only on the pending responses, the log and the queue, and that
  the operations which change those keep, is kept by every step of the pool.
\<close>

locale pool_invariant =
  fixes P :: "pool \<Rightarrow> bool"
  assumes same: "po_pending t = po_pending s \<Longrightarrow> po_log t = po_log s \<Longrightarrow> po_promises t = po_promises s \<Longrightarrow>
      po_queue t = po_queue s \<Longrightarrow> po_maxQueue t = po_maxQueue s \<Longrightarrow> po_sent t = po_sent s \<Longrightarrow> P t = P s"
    and cleanup [simp]: "P s \<Longrightarrow> P (pool_cleanup k r s)"
    and createPending [simp]: "P s \<Longrightarrow> P (fst (pool_createPending k timeout s))"
    and book [simp]: "P s \<Longrightarrow> P (pool_book wid mid cid start s)"
    and shift [simp]: "P s \<Longrightarrow> P (fst (pool_shift s))"
    and enqueue [simp]: "P s \<Longrightarrow> P (fst (pool_enqueueOrReject item want cid p s))"
    and fresh_queue [simp]: "P s \<Longrightarrow> P (s\<lparr>po_queue := pool_makeTaskQueue\<rparr>)"
begin

lemma keeps_cleanupOpt [simp]: "P s \<Longrightarrow> P (pool_cleanupOpt k r s)"
  by (simp add: pool_cleanupOpt_def split: option.splits)

lemma keeps_cleanup_fold [simp]: "P s \<Longrightarrow> P (fold (\<lambda>k. pool_cleanup k r) ks s)"
  by (induction ks arbitrary: s) simp_all

lemma keeps_unaffected [simp]:
  "P (pool_updateIdle s) = P s" "P (pool_busyInterval b a now s) = P s" "P (pool_decrementActive n now s) = P s"
  "P (pool_setObj wid f s) = P s" "P (pool_addWorker now s) = P s" "P (pool_addFailed s) = P s"
  "P (fst (pool_readyWorkers now s)) = P s" "P (fst (pool_selectWorker lb now s)) = P s"
  by (rule same; simp)+

lemma keeps_updates [simp]:
  "P (s\<lparr>po_workers := ws\<rparr>) = P s" "P (s\<lparr>po_active := n\<rparr>) = P s"
  "P (s\<lparr>po_listeners := l\<rparr>) = P s" "P (s\<lparr>po_aborted := ab\<rparr>) = P s"
  "P (s\<lparr>po_nextIndex := n\<rparr>) = P s" "P (s\<lparr>po_highCrossed := b\<rparr>) = P s"
  "P (s\<lparr>po_paused := b\<rparr>) = P s" "P (s\<lparr>po_bootFails := n\<rparr>) = P s"
  "P (s\<lparr>po_retiredTasks := n, po_retiredCount := m\<rparr>) = P s" "P (s\<lparr>po_ewma := e, po_completed := m\<rparr>) = P s"
  "P (s\<lparr>po_minSize := n, po_maxSize := m\<rparr>) = P s" "P (s\<lparr>po_limit := lm\<rparr>) = P s"
  "P (s\<lparr>po_terminated := b\<rparr>) = P s"
  by (rule same; simp)+

lemma keeps_reset [simp]:
  "P s \<Longrightarrow> P (s\<lparr>po_workers := ws, po_queue := pool_makeTaskQueue, po_highCrossed := b, po_active := n\<rparr>)"
proof -
  assume "P s"
  then have "P (s\<lparr>po_queue := pool_makeTaskQueue\<rparr>)" by simp
  then show ?thesis using same [of "s\<lparr>po_workers := ws, po_queue := pool_makeTaskQueue, po_highCrossed := b, po_active := n\<rparr>"
      "s\<lparr>po_queue := pool_makeTaskQueue\<rparr>"] by simp
qed

text \<open>The operations on the way of a post.\<close>

lemma keeps_watchSignal [simp]: "P s \<Longrightarrow> P (pool_watchSignal sig cid s)"
  by (auto simp: pool_watchSignal_def split: option.splits)

lemma keeps_dispatch [simp]: "P s \<Longrightarrow> P (fst (pool_dispatch wid msg cid start sig s))"
  by (auto simp: pool_dispatch_def Let_def)

lemma keeps_refuse [simp]: "P s \<Longrightarrow> P (fst (pool_refuse e want cid p s))"
  by (simp add: pool_refuse_def)

lemma keeps_postToWorker [simp]:
  "P s \<Longrightarrow> P (fst (pool_postToWorker wid msg start want cid p sig s))"
  by (auto simp: pool_postToWorker_def Let_def case_prod_beta split: bool.splits)

lemma keeps_prepareAndQueue [simp]:
  "P s \<Longrightarrow> P (fst (pool_prepareAndQueue msg want cid p now opts s))"
  by (auto simp: pool_prepareAndQueue_def)

lemma keeps_tryGrow [simp]:
  "P s \<Longrightarrow> P (fst (pool_tryGrow spawns msg want cid p now opts s))"
  by (auto simp: pool_tryGrow_def)

lemma keeps_fallback [simp]: "P s \<Longrightarrow> P (fst (pool_fallback msg want cid p now s))"
  by (auto simp: pool_fallback_def Let_def case_prod_beta)

lemma keeps_route [simp]:
  "P s \<Longrightarrow> P (fst (pool_route spawns least msg want cid p now opts s))"
  unfolding pool_route_def by (auto split: if_splits)

lemma keeps_candidate [simp]: "P (fst (pool_candidate lb now opts s)) = P s"
  by (auto simp: pool_candidate_def split: option.splits)

lemma keeps_post [simp]: "P s \<Longrightarrow> P (fst (pool_post lb spawns fresh now msg opts s))"
  by (auto simp: pool_post_def Let_def case_prod_beta split: option.splits js_num.splits)

text \<open>The drains, the retirement of workers and the other steps.\<close>

lemma keeps_nextLive [simp]: "P s \<Longrightarrow> P (fst (pool_nextLive now s))"
  by (rule nextLive_preserves [where P = P]) simp_all

lemma keeps_fillWorker [simp]: "P s \<Longrightarrow> P (fst (pool_fillWorker wid slots adaptive b now s))"
  using fillWorker_preserves [where Q = "\<lambda>n. P" and s = s and wid = wid and now = now
    and slots = slots and adaptive = adaptive and b = b] by simp

lemma keeps_fillWorkers [simp]: "P s \<Longrightarrow> P (fst (pool_fillWorkers ids adaptive b now s))"
  by (induction ids arbitrary: adaptive b s) (auto simp: case_prod_beta)

lemma keeps_uncrossHigh [simp]: "P (pool_uncrossHigh s) = P s"
  by (auto simp: pool_uncrossHigh_def split: js_num.splits)

lemma keeps_dispatchQueued [simp]: "P s \<Longrightarrow> P (pool_dispatchQueued now s)"
  by (auto simp: pool_dispatchQueued_def Let_def case_prod_beta)

lemma keeps_inlineDrain [simp]: "P s \<Longrightarrow> P (pool_inlineDrain wid now s)"
  by (auto simp: pool_inlineDrain_def case_prod_beta split: option.splits)

lemma keeps_recordLatency [simp]: "P (pool_recordLatency wid now rs s) = P s"
  by (auto simp: pool_recordLatency_def Let_def split: option.splits)

lemma keeps_resolve [simp]: "P s \<Longrightarrow> P (pool_resolve rs s)"
  by (simp add: pool_resolve_def split: option.splits)

lemma keeps_onMessage [simp]: "P s \<Longrightarrow> P (pool_onMessage wid rs now s)"
  by (auto simp: pool_onMessage_def Let_def)

lemma keeps_terminate [simp]: "P s \<Longrightarrow> P (pool_terminateWorker wid now s)"
  by (auto simp: pool_terminateWorker_def pool_rejectForWorker_def Let_def)

lemma keeps_terminate_fold [simp]:
  "P s \<Longrightarrow> P (fold (\<lambda>wid. pool_terminateWorker wid now) ids s)"
  by (induction ids arbitrary: s) auto

lemma keeps_refill [simp]: "P s \<Longrightarrow> P (pool_refill k now s)"
proof (induction k now s rule: pool_refill.induct)
  case (1 k now s)
  then show ?case by (subst pool_refill.simps) (auto split: nat.splits)
qed

lemma keeps_popTo [simp]: "P s \<Longrightarrow> P (pool_popTo n ws now s)"
  by (induction n ws now s rule: pool_popTo.induct) auto

lemma keeps_reapLoop [simp]: "P s \<Longrightarrow> P (pool_reapLoop i now s)"
  by (induction i now s rule: pool_reapLoop.induct) (auto simp: Let_def)

lemma keeps_step: "P s \<Longrightarrow> P (pool_step e s)"
  by (cases e)
    (auto simp: pool_onReady_def pool_onExit_def pool_timeout_def pool_abort_def pool_pause_def pool_resume_def
      pool_resize_def pool_add_def pool_remove_def pool_reap_def pool_shutdown_def pool_rejectAll_def Let_def
      split: option.splits)

lemma keeps_initial: "P s \<Longrightarrow> P (pool_initial n k now s)"
  by (induction n k now s rule: pool_initial.induct) (auto split: nat.splits)

lemma keeps_run: "P s \<Longrightarrow> P (pool_run es s)"
  by (induction es s rule: pool_run.induct) (simp_all add: keeps_step)

end

lemma promise_book [simp]: "promise_ok s \<Longrightarrow> promise_ok (pool_book wid mid cid start s)"
  by (simp add: pool_book_def Let_def)

interpretation promises: pool_invariant promise_ok
proof unfold_locales
  fix s t :: pool
  assume "po_pending t = po_pending s" "po_log t = po_log s" "po_promises t = po_promises s"
  then show "promise_ok t = promise_ok s" by (rule promise_same)
qed simp_all

interpretation bound: pool_invariant queue_ok
proof unfold_locales
  fix s t :: pool
  assume "po_queue t = po_queue s" "po_maxQueue t = po_maxQueue s"
  then show "queue_ok t = queue_ok s" by (rule queue_same)
next
  fix s k timeout
  assume "queue_ok s"
  then show "queue_ok (fst (pool_createPending k timeout s))"
    using queue_same [of "fst (pool_createPending k timeout s)" s] by simp
next
  fix s
  assume "queue_ok s"
  then show "queue_ok (fst (pool_shift s))" by (auto simp: queue_ok_def shift_queue_size)
qed (auto simp: queue_same [of "pool_cleanup _ _ _"] queue_same [of "pool_book _ _ _ _ _"] queue_ok_def [of "_\<lparr>po_queue := _\<rparr>"])

text \<open>
  A pending response knows its worker: the one a message with its key was last posted to since
  it was registered.
\<close>

definition sent_ok :: "pool \<Rightarrow> bool" where
  "sent_ok s \<longleftrightarrow> promise_ok s \<and> (\<forall>x \<in> set (po_sent s). fst x < po_promises s)
     \<and> (\<forall>k e. jm_get k (po_pending s) = Some e \<longrightarrow> pn_worker e = map_of (rev (po_sent s)) (pn_promise e))"

lemma get_in_set: "jm_get k m = Some e \<Longrightarrow> (k, e) \<in> set m"
  by (induction m) (auto simp: jm_get_def split: if_splits)

lemma pending_promises:
  assumes "promise_ok s" "jm_get k (po_pending s) = Some e"
  shows "pn_promise e < po_promises s" and "jm_get j (po_pending s) = Some f \<Longrightarrow> j \<noteq> k \<Longrightarrow> pn_promise f \<noteq> pn_promise e"
proof -
  let ?ps = "map (\<lambda>p. pn_promise (snd p)) (po_pending s)"
  have m: "mset (?ps @ map fst (po_log s)) = mset [0..<po_promises s]"
    using assms(1) by (simp add: promise_ok_def)
  have e: "(k, e) \<in> set (po_pending s)" by (rule get_in_set [OF assms(2)])
  then have "pn_promise e \<in> set (?ps @ map fst (po_log s))" by force
  then show "pn_promise e < po_promises s" using mset_eq_setD [OF m] by (metis atLeastLessThan_iff set_upt)
  have "distinct ?ps" using mset_eq_imp_distinct_iff [OF m] by simp
  then have inj: "inj_on (\<lambda>p. pn_promise (snd p)) (set (po_pending s))" by (simp add: distinct_map)
  then show "pn_promise f \<noteq> pn_promise e" if "jm_get j (po_pending s) = Some f" "j \<noteq> k"
    using inj_onD [OF inj, of "(j, f)" "(k, e)"] get_in_set [OF that(1)] e that(2) by auto
qed

lemma sent_cleanup: "sent_ok s \<Longrightarrow> sent_ok (pool_cleanup k r s)"
  by (auto simp: sent_ok_def) (auto simp: pool_cleanup_def jm_delete_get split: option.splits if_splits)

lemma sent_same:
  "po_pending t = po_pending s \<Longrightarrow> po_log t = po_log s \<Longrightarrow> po_promises t = po_promises s \<Longrightarrow> po_sent t = po_sent s \<Longrightarrow>
     sent_ok t = sent_ok s"
  by (simp add: sent_ok_def promise_same [of t s])

lemma sent_unaffected:
  "sent_ok (fst (pool_shift s)) = sent_ok s" "sent_ok (s\<lparr>po_queue := q\<rparr>) = sent_ok s"
  "sent_ok (fst (pool_push item want p s)) = sent_ok s"
  by (rule sent_same; simp)+

lemma sent_cleanupOpt: "sent_ok s \<Longrightarrow> sent_ok (pool_cleanupOpt k r s)"
  by (simp add: pool_cleanupOpt_def sent_cleanup split: option.splits)

lemma sent_dropOldest: "sent_ok s \<Longrightarrow> sent_ok (pool_dropOldest s)"
  by (simp add: pool_dropOldest_def case_prod_beta sent_cleanupOpt sent_unaffected split: option.splits)

lemma sent_evict: "sent_ok s \<Longrightarrow> sent_ok (pool_evict n s)"
  by (induction n s rule: pool_evict.induct) (simp_all add: sent_dropOldest)

lemma sent_enqueue: "sent_ok s \<Longrightarrow> sent_ok (fst (pool_enqueueOrReject item want cid p s))"
proof -
  assume s: "sent_ok s"
  then have "sent_ok (fst (pool_reserve 1 s))"
    by (simp add: pool_reserve_def Let_def sent_evict split: js_num.splits)
  then show ?thesis using s
    by (simp add: pool_enqueueOrReject_def pool_refuse_def case_prod_beta sent_cleanup sent_dropOldest sent_unaffected)
qed

lemma sent_createPending:
  assumes "sent_ok s"
  shows "sent_ok (fst (pool_createPending k t s))"
proof -
  define u where "u = pool_cleanup k (Rejected PE_Duplicate) s"
  have u: "sent_ok u" unfolding u_def by (rule sent_cleanup [OF assms])
  have "map_of (rev (po_sent u)) (po_promises u) = None"
    using u by (auto simp: sent_ok_def map_of_eq_None_iff)
  moreover have "promise_ok (fst (pool_createPending k t s))" using assms by (simp add: sent_ok_def)
  ultimately show ?thesis using u
    by (auto simp: sent_ok_def pool_createPending_def Let_def u_def [symmetric] jm_set_get split: if_splits)
qed

lemma sent_book:
  assumes "sent_ok s"
  shows "sent_ok (pool_book wid mid cid start s)"
proof (cases "pool_promiseOf cid s")
  case None
  then have "po_pending (pool_book wid mid cid start s) = po_pending s" "po_sent (pool_book wid mid cid start s) = po_sent s"
    by (auto simp: pool_book_def Let_def pool_promiseOf_def pool_markPending_def split: option.splits)
  then show ?thesis using assms by (simp add: sent_ok_def)
next
  case (Some n)
  obtain k e where k: "cid = Some k" "jm_get k (po_pending s) = Some e" "pn_promise e = n"
    using Some by (auto simp: pool_promiseOf_def split: option.splits)
  have p: "promise_ok s" using assms by (simp add: sent_ok_def)
  have "po_pending (pool_book wid mid cid start s) = jm_set k (e\<lparr>pn_worker := Some wid\<rparr>) (po_pending s)"
    "po_sent (pool_book wid mid cid start s) = po_sent s @ [(n, wid)]"
    using k Some by (simp_all add: pool_book_def Let_def pool_markPending_def)
  then show ?thesis
    using assms k pending_promises [OF p k(2)] unfolding sent_ok_def by (auto simp: jm_set_get split: if_splits)
qed

interpretation sent: pool_invariant sent_ok
proof unfold_locales
  fix s t :: pool
  assume "po_pending t = po_pending s" "po_log t = po_log s" "po_promises t = po_promises s" "po_sent t = po_sent s"
  then show "sent_ok t = sent_ok s" by (rule sent_same)
next
  fix s :: pool and item want cid p
  assume "sent_ok s"
  then show "sent_ok (fst (pool_enqueueOrReject item want cid p s))" by (rule sent_enqueue)
qed (simp_all add: sent_cleanup sent_createPending sent_book sent_unaffected)

text \<open>The queue is a heap that represents a list in dispatch order.\<close>

definition pool_heap :: "pool \<Rightarrow> bool" where
  "pool_heap s \<longleftrightarrow> (\<exists>es. pq_rep (po_queue s) es)"

lemma heap_same: "po_queue t = po_queue s \<Longrightarrow> pool_heap t = pool_heap s"
  by (simp add: pool_heap_def)

lemma heap_shift: "pool_heap s \<Longrightarrow> pool_heap (fst (pool_shift s))"
proof -
  assume "pool_heap s"
  then obtain es where "pq_rep (po_queue s) es" by (auto simp: pool_heap_def)
  then show ?thesis
    by (cases es) (auto simp: pool_heap_def pool_shift_def case_prod_beta pq_shift_empty dest!: pq_shift_rep)
qed

lemma heap_push: "pool_heap s \<Longrightarrow> pool_heap (fst (pool_push item want p s))"
proof -
  assume "pool_heap s"
  then have "\<exists>es. pq_rep (fst (pq_push qi_priority qi_weight item (po_queue s))) es"
    using pq_push_keeps by (auto simp: pool_heap_def)
  moreover have "po_queue (fst (pool_push item want p s)) = fst (pq_push qi_priority qi_weight item (po_queue s))"
    by (simp add: pool_push_def Let_def split: prod.split sum.split option.split)
  ultimately show ?thesis by (simp add: pool_heap_def)
qed

lemma heap_dropOldest: "pool_heap s \<Longrightarrow> pool_heap (pool_dropOldest s)"
  using heap_shift [of s] by (simp add: pool_dropOldest_def case_prod_beta pool_heap_def split: option.splits)

lemma heap_evict: "pool_heap s \<Longrightarrow> pool_heap (pool_evict n s)"
  by (induction n s rule: pool_evict.induct) (simp_all add: heap_dropOldest)

lemma heap_enqueue: "pool_heap s \<Longrightarrow> pool_heap (fst (pool_enqueueOrReject item want cid p s))"
proof -
  assume s: "pool_heap s"
  then have "pool_heap (fst (pool_reserve 1 s))"
    by (simp add: pool_reserve_def Let_def heap_evict split: js_num.splits)
  moreover have "pool_heap (fst (pool_refuse e want cid p t)) = pool_heap t" for e t
    by (simp add: pool_heap_def)
  ultimately show ?thesis using s
    by (simp add: pool_enqueueOrReject_def case_prod_beta heap_push heap_dropOldest)
qed

lemma makeTaskQueue_rep: "pq_rep pool_makeTaskQueue []"
proof -
  obtain q :: "qitem pqueue" where "pq_new JUndefined = Inr q"
    by (simp add: pq_new_def pq_new_arg_def pq_alloc_def assertLimitRequired_def assertLimit_def limit_spec_def
        new_array_def Let_def POWER_QUEUE_INITIAL_CAPACITY_def)
  then show ?thesis using pq_new_rep [of JUndefined q] by (simp add: pool_makeTaskQueue_def)
qed

lemma heap_makeTaskQueue: "po_queue s = pool_makeTaskQueue \<Longrightarrow> pool_heap s"
  using makeTaskQueue_rep by (auto simp: pool_heap_def)

interpretation heap: pool_invariant pool_heap
proof unfold_locales
  fix s t :: pool
  assume "po_queue t = po_queue s"
  then show "pool_heap t = pool_heap s" by (rule heap_same)
next
  fix s :: pool and item want cid p
  assume "pool_heap s"
  then show "pool_heap (fst (pool_enqueueOrReject item want cid p s))" by (rule heap_enqueue)
next
  fix s :: pool
  assume "pool_heap s"
  then show "pool_heap (fst (pool_shift s))" by (rule heap_shift)
next
  fix s :: pool
  show "pool_heap (s\<lparr>po_queue := pool_makeTaskQueue\<rparr>)" by (simp add: heap_makeTaskQueue)
qed (simp_all add: pool_heap_def)

lemma invariants_new: "pool_heap (pool_new c k now)" "sent_ok (pool_new c k now)" "promise_ok (pool_new c k now)" "queue_ok (pool_new c k now)"
  unfolding pool_new_def Let_def
  by (rule heap.keeps_initial sent.keeps_initial promises.keeps_initial bound.keeps_initial;
      simp add: sent_ok_def promise_ok_def jm_ok_def jm_get_def queue_ok_def heap_makeTaskQueue)+

section \<open>Load, ownership and the limit per worker\<close>

text \<open>
  \<open>st exact W s\<close>: the workers in \<open>W\<close> are the live ones, all others carry no task and are
  settled, pending responses are owed by workers in \<open>W\<close>, no worker is above the limit
  (when there is a queue), and the count of active tasks is at most, or exactly, the load.
\<close>

definition live_ok :: "nat set \<Rightarrow> pool \<Rightarrow> bool" where
  "live_ok W s \<longleftrightarrow> finite W \<and> (\<forall>w \<in> W. \<not> w_settled (po_objs s w) \<and> w < po_nextWorkerId s)
     \<and> (\<forall>w. w \<notin> W \<longrightarrow> w_settled (po_objs s w) \<and> w_tasks (po_objs s w) = 0)"

definition owner_ok :: "nat set \<Rightarrow> pool \<Rightarrow> bool" where
  "owner_ok W s \<longleftrightarrow> (\<forall>k e w. jm_get k (po_pending s) = Some e \<and> pn_worker e = Some w \<longrightarrow> w \<in> W)"

definition limit_ok :: "pool \<Rightarrow> bool" where
  "limit_ok s \<longleftrightarrow> (\<forall>r w. po_taskQueue s \<and> po_maxTasks s = Fin r \<longrightarrow> w_tasks (po_objs s w) \<le> nat (max 1 \<lceil>r\<rceil>))"

definition pool_load :: "nat set \<Rightarrow> pool \<Rightarrow> nat" where
  "pool_load W s = (\<Sum>w \<in> W. w_tasks (po_objs s w))"

definition load_ok :: "bool \<Rightarrow> nat set \<Rightarrow> pool \<Rightarrow> bool" where
  "load_ok exact W s \<longleftrightarrow> po_active s \<le> pool_load W s \<and> (exact \<longrightarrow> po_active s = pool_load W s)"

definition st :: "bool \<Rightarrow> nat set \<Rightarrow> pool \<Rightarrow> bool" where
  "st exact W s \<longleftrightarrow> live_ok W s \<and> owner_ok W s \<and> limit_ok s \<and> load_ok exact W s"

lemmas st_defs = st_def live_ok_def owner_ok_def limit_ok_def load_ok_def pool_load_def

lemma st_same:
  "po_objs t = po_objs s \<Longrightarrow> po_nextWorkerId t = po_nextWorkerId s \<Longrightarrow> po_pending t = po_pending s \<Longrightarrow>
     po_maxTasks t = po_maxTasks s \<Longrightarrow> po_taskQueue t = po_taskQueue s \<Longrightarrow> po_active t = po_active s \<Longrightarrow>
     st ex W t = st ex W s"
  by (simp add: st_defs)

lemma st_unaffected [simp]:
  "st ex W (pool_updateIdle s) = st ex W s" "st ex W (pool_busyInterval b a now s) = st ex W s"
  "st ex W (fst (pool_shift s)) = st ex W s" "st ex W (pool_crossHigh s) = st ex W s"
  "st ex W (fst (pool_push item want p s)) = st ex W s"
  by (rule st_same; simp)+

lemma st_updates [simp]:
  "st ex W (s\<lparr>po_workers := ws\<rparr>) = st ex W s" "st ex W (s\<lparr>po_queue := q\<rparr>) = st ex W s"
  "st ex W (s\<lparr>po_posted := ps, po_sent := xs\<rparr>) = st ex W s"
  "st ex W (s\<lparr>po_listeners := l\<rparr>) = st ex W s" "st ex W (s\<lparr>po_aborted := ab\<rparr>) = st ex W s"
  "st ex W (s\<lparr>po_nextIndex := n\<rparr>) = st ex W s" "st ex W (s\<lparr>po_highCrossed := b\<rparr>) = st ex W s"
  "st ex W (s\<lparr>po_paused := b\<rparr>) = st ex W s" "st ex W (s\<lparr>po_bootFails := n\<rparr>) = st ex W s"
  "st ex W (s\<lparr>po_retiredTasks := n, po_retiredCount := m\<rparr>) = st ex W s"
  "st ex W (s\<lparr>po_ewma := e, po_completed := m\<rparr>) = st ex W s"
  "st ex W (s\<lparr>po_minSize := n, po_maxSize := m\<rparr>) = st ex W s"
  "st ex W (s\<lparr>po_limit := lm\<rparr>) = st ex W s" "st ex W (s\<lparr>po_terminated := b\<rparr>) = st ex W s"
  by (simp_all add: st_defs)

lemma owner_cleanup: "owner_ok W s \<Longrightarrow> owner_ok W (pool_cleanup k r s)"
  by (auto simp: owner_ok_def pool_cleanup_def jm_delete_get split: option.splits if_splits)

lemma st_cleanup [simp]: "st ex W s \<Longrightarrow> st ex W (pool_cleanup k r s)"
  using owner_cleanup [of W s k r] by (simp add: st_def live_ok_def limit_ok_def load_ok_def pool_load_def)

lemma st_cleanupOpt [simp]: "st ex W s \<Longrightarrow> st ex W (pool_cleanupOpt k r s)"
  by (simp add: pool_cleanupOpt_def split: option.splits)

lemma st_cleanup_fold [simp]: "st ex W s \<Longrightarrow> st ex W (fold (\<lambda>k. pool_cleanup k r) ks s)"
  by (induction ks arbitrary: s) auto

lemma st_createPending [simp]: "st ex W s \<Longrightarrow> st ex W (fst (pool_createPending k t s))"
proof -
  assume "st ex W s"
  then have "st ex W (pool_cleanup k (Rejected PE_Duplicate) s)" by simp
  then show ?thesis
    by (simp add: pool_createPending_def Let_def st_def live_ok_def limit_ok_def load_ok_def pool_load_def)
      (auto simp: owner_ok_def jm_set_get)
qed

lemma st_markPending: "st ex W s \<Longrightarrow> wid \<in> W \<Longrightarrow> st ex W (pool_markPending k wid s)"
  by (auto simp: st_def live_ok_def limit_ok_def load_ok_def pool_load_def owner_ok_def pool_markPending_def
      jm_set_get split: option.splits if_splits)

text \<open>A change of a worker that leaves its tasks and its settlement alone.\<close>

lemma st_setObj [simp]:
  assumes "\<And>w. w_tasks (f w) = w_tasks w" "\<And>w. w_settled (f w) = w_settled w" "st ex W s"
  shows "st ex W (pool_setObj wid f s)"
proof -
  have "w_tasks (po_objs (pool_setObj wid f s) w) = w_tasks (po_objs s w)
    \<and> w_settled (po_objs (pool_setObj wid f s) w) = w_settled (po_objs s w)" for w
    using assms(1,2) by (simp add: pool_setObj_def)
  then show ?thesis using assms(3) by (simp add: st_defs)
qed

lemma below_ceiling: "of_nat t < (r :: rat) \<Longrightarrow> t < nat \<lceil>r\<rceil>"
proof -
  assume "of_nat t < r"
  then have "int t < \<lceil>r\<rceil>" by (simp add: less_ceiling_iff)
  then show ?thesis by linarith
qed

definition room :: "nat \<Rightarrow> pool \<Rightarrow> bool" where
  "room wid s \<longleftrightarrow> (\<forall>r. po_taskQueue s \<and> po_maxTasks s = Fin r \<longrightarrow> w_tasks (po_objs s wid) < nat (max 1 \<lceil>r\<rceil>))"

lemma room_below: "pool_tasksBelow wid s \<Longrightarrow> room wid s"
  by (auto simp: room_def pool_tasksBelow_def below_ceiling)

lemma load_add_one:
  "finite W \<Longrightarrow> wid \<in> W \<Longrightarrow> (\<Sum>w \<in> W. w_tasks ((objs(wid := x)) w)) + w_tasks (objs wid)
     = (\<Sum>w \<in> W. w_tasks (objs w)) + w_tasks x"
  by (simp add: sum.remove)

lemma st_add_task:
  assumes "st ex W s" "wid \<in> W" "room wid s" "po_objs t = (po_objs s)(wid := x)" "w_tasks x = w_tasks (po_objs s wid) + 1"
    "w_settled x = w_settled (po_objs s wid)" "po_active t = po_active s + 1"
    "po_nextWorkerId t = po_nextWorkerId s" "po_pending t = po_pending s"
    "po_maxTasks t = po_maxTasks s" "po_taskQueue t = po_taskQueue s"
  shows "st ex W t"
proof -
  have "finite W" using assms(1) by (simp add: st_defs)
  then have "pool_load W t = pool_load W s + 1"
    using load_add_one [OF _ assms(2), of "po_objs s" x] assms(4,5) unfolding pool_load_def by simp
  then show ?thesis using assms by (auto simp: st_def live_ok_def owner_ok_def limit_ok_def load_ok_def room_def)
qed

lemma st_book:
  assumes "st ex W s" "wid \<in> W" "room wid s"
  shows "st ex W (pool_book wid mid cid start s)"
proof -
  define s1 where "s1 = pool_markPending cid wid (pool_setObj wid (\<lambda>w. w\<lparr>w_starts := w_starts w @ [start]\<rparr>)
    (s\<lparr>po_posted := po_posted s @ [(wid, mid)],
       po_sent := po_sent s @ (case pool_promiseOf cid s of None \<Rightarrow> [] | Some n \<Rightarrow> [(n, wid)])\<rparr>))"
  have t: "pool_book wid mid cid start s =
      (pool_setObj wid (\<lambda>w. w\<lparr>w_tasks := w_tasks w + 1, w_lastActive := start\<rparr>) s1)\<lparr>po_active := po_active s1 + 1\<rparr>"
    by (simp add: pool_book_def Let_def s1_def)
  have "st ex W s1" unfolding s1_def using assms(1,2) by (intro st_markPending st_setObj) simp_all
  moreover have "room wid s1" using assms(3) by (simp add: room_def s1_def pool_setObj_def)
  ultimately show ?thesis unfolding t
    by (rule st_add_task [OF _ assms(2), where x = "(po_objs s1 wid)\<lparr>w_tasks := w_tasks (po_objs s1 wid) + 1, w_lastActive := start\<rparr>"])
      (simp_all add: pool_setObj_def)
qed

lemma st_watchSignal [simp]: "st ex W s \<Longrightarrow> st ex W (pool_watchSignal sig cid s)"
  by (auto simp: pool_watchSignal_def split: option.splits)

lemma st_dispatch:
  "st ex W s \<Longrightarrow> wid \<in> W \<Longrightarrow> room wid s \<Longrightarrow> st ex W (fst (pool_dispatch wid msg cid start sig s))"
  by (simp add: pool_dispatch_def Let_def st_book)

lemma st_refuse [simp]: "st ex W s \<Longrightarrow> st ex W (fst (pool_refuse e want cid p s))"
  by (simp add: pool_refuse_def)

lemma st_postToWorker:
  "st ex W s \<Longrightarrow> wid \<in> W \<Longrightarrow> room wid s \<Longrightarrow> st ex W (fst (pool_postToWorker wid msg start want cid p sig s))"
  by (simp add: pool_postToWorker_def Let_def case_prod_beta st_book st_dispatch split: bool.splits)

text \<open>A worker gains nothing and loses tasks: a reply, and its retirement.\<close>

lemma st_reply:
  assumes "st ex W s" "wid \<in> W" "ex \<longrightarrow> 0 < w_tasks (po_objs s wid)"
  shows "st ex W (pool_decrementActive 1 now (pool_setObj wid (\<lambda>w. w\<lparr>w_tasks := w_tasks w - 1\<rparr>) s))" (is "st ex W ?t")
proof -
  have fin: "finite W" using assms(1) by (simp add: st_defs)
  have "pool_load W ?t + w_tasks (po_objs s wid) = pool_load W s + (w_tasks (po_objs s wid) - 1)"
    using load_add_one [OF fin assms(2), of "po_objs s" "(po_objs s wid)\<lparr>w_tasks := w_tasks (po_objs s wid) - 1\<rparr>"]
    by (simp add: pool_load_def pool_setObj_def)
  moreover have "po_active ?t = po_active s - 1"
    by (simp add: pool_decrementActive_def Let_def pool_setObj_def)
  ultimately have "load_ok ex W ?t" using assms(1,3) by (auto simp: st_def load_ok_def)
  then show ?thesis using assms(1,2)
    by (simp add: st_def live_ok_def owner_ok_def limit_ok_def) (auto simp: pool_setObj_def intro: le_trans [OF diff_le_self])
qed

lemma cleanup_fold_get:
  "jm_get j (po_pending (fold (\<lambda>k. pool_cleanup k r) ks s)) = (if j \<in> set ks then None else jm_get j (po_pending s))"
proof (induction ks arbitrary: s)
  case (Cons k ks)
  have "jm_get j (po_pending (pool_cleanup k r s)) = (if j = k then None else jm_get j (po_pending s))"
    by (auto simp: pool_cleanup_def jm_delete_get split: option.splits)
  then show ?case using Cons by simp
qed simp

lemma rejectForWorker_owner:
  assumes "owner_ok W s"
  shows "owner_ok (W - {wid}) (pool_rejectForWorker wid s)"
proof -
  have "pn_worker e \<noteq> Some wid \<and> jm_get k (po_pending s) = Some e"
    if "jm_get k (po_pending (pool_rejectForWorker wid s)) = Some e" for k e
  proof -
    have e: "jm_get k (po_pending s) = Some e"
      "k \<notin> fst ` set (filter (\<lambda>(k, e). pn_worker e = Some wid) (po_pending s))"
      using that by (auto simp: pool_rejectForWorker_def cleanup_fold_get split: if_splits)
    then have "(k, e) \<notin> set (filter (\<lambda>(k, e). pn_worker e = Some wid) (po_pending s))" by (metis fst_conv imageI)
    then show ?thesis using e(1) get_in_set [OF e(1)] by simp
  qed
  then show ?thesis using assms by (fastforce simp: owner_ok_def)
qed

lemma st_terminate:
  assumes "st ex W s" "wid \<in> W"
  shows "st ex (W - {wid}) (pool_terminateWorker wid now s)"
proof -
  let ?t = "pool_terminateWorker wid now s" and ?n = "w_tasks (po_objs s wid)"
  have fin: "finite W" using assms(1) by (simp add: st_defs)
  have objs: "po_objs ?t = (po_objs s)(wid := (po_objs s wid)\<lparr>w_tasks := 0, w_settled := True\<rparr>)"
    by (simp add: pool_terminateWorker_def Let_def) (simp add: pool_setObj_def)
  have active: "po_active ?t = po_active s - ?n"
    by (simp add: pool_terminateWorker_def Let_def) (simp add: pool_decrementActive_def Let_def)
  have "pool_load (W - {wid}) ?t + ?n = pool_load W s"
    using fin assms(2) by (simp add: pool_load_def objs sum.remove)
  then have "load_ok ex (W - {wid}) ?t" using assms(1) active by (auto simp: st_def load_ok_def)
  moreover define u where "u = pool_setObj wid (\<lambda>w. w\<lparr>w_tasks := 0\<rparr>) (if 0 < ?n then pool_decrementActive ?n now s else s)"
  have "owner_ok W u" using assms(1) by (simp add: st_def owner_ok_def u_def)
  then have "owner_ok (W - {wid}) (pool_rejectForWorker wid u)" by (rule rejectForWorker_owner)
  then have "owner_ok (W - {wid}) ?t"
    by (simp add: owner_ok_def pool_terminateWorker_def Let_def u_def)
  ultimately show ?thesis using assms(1)
    by (auto simp: st_def live_ok_def limit_ok_def objs)
qed

section \<open>The steps keep the structure\<close>

definition struct :: "bool \<Rightarrow> pool \<Rightarrow> bool" where
  "struct exact s \<longleftrightarrow> distinct (po_workers s) \<and> st exact (set (po_workers s)) s"

lemma st_makeReady:
  "st ex W s \<Longrightarrow> st ex W (fold (\<lambda>wid s. if P wid s then pool_setObj wid (\<lambda>w. w\<lparr>w_ready := True\<rparr>) s else s) ids s)"
  by (induction ids arbitrary: s) simp_all

lemma st_readyWorkers [simp]: "st ex W s \<Longrightarrow> st ex W (fst (pool_readyWorkers now s))"
  by (simp add: pool_readyWorkers_def Let_def st_makeReady)

lemma readyWorkers_sub: "w \<in> set (snd (pool_readyWorkers now s)) \<Longrightarrow> w \<in> set (po_workers s)"
  by (auto simp: pool_readyWorkers_def Let_def split: if_splits)

lemma least_loop_in: "least_loop objs ids best bt bl = Some w \<Longrightarrow> w \<in> set ids \<or> best = Some w"
  by (induction objs ids best bt bl rule: least_loop.induct) (auto simp: Let_def split: if_splits)

lemma findLeast_in: "pool_findLeastLoaded ids s = Some w \<Longrightarrow> w \<in> set ids"
  using least_loop_in unfolding pool_findLeastLoaded_def by fastforce

lemma selectWorker_in: "snd (pool_selectWorker lb now s) = Some w \<Longrightarrow> w \<in> set (po_workers s)"
  by (auto simp: pool_selectWorker_def case_prod_beta readyWorkers_sub dest!: findLeast_in
      split: if_splits option.splits lb_choice.splits)

lemma st_selectWorker [simp]: "st ex W s \<Longrightarrow> st ex W (fst (pool_selectWorker lb now s))"
  by (simp add: pool_selectWorker_def case_prod_beta split: option.splits lb_choice.splits)

lemma st_candidate [simp]: "st ex W s \<Longrightarrow> st ex W (fst (pool_candidate lb now opts s))"
  by (simp add: pool_candidate_def split: option.splits)

lemma candidate_in: "snd (pool_candidate lb now opts s) = Some w \<Longrightarrow> w \<in> set (po_workers s)"
  using selectWorker_in [of lb now s w]
  by (cases "po_workers s") (auto simp: pool_candidate_def split: option.splits if_splits)

lemma struct_addWorker: "struct ex s \<Longrightarrow> struct ex (pool_addWorker now s)"
proof -
  assume s: "struct ex s"
  let ?n = "po_nextWorkerId s" and ?W = "set (po_workers s)"
  have n: "?n \<notin> ?W" and fin: "finite ?W" using s by (auto simp: struct_def st_defs)
  then have "pool_load (insert ?n ?W) (pool_addWorker now s) = pool_load ?W s"
    by (simp add: pool_load_def pool_addWorker_def Let_def) (rule sum.cong, auto)
  then show ?thesis using s n
    by (simp add: struct_def st_def live_ok_def owner_ok_def limit_ok_def load_ok_def)
      (auto simp: pool_addWorker_def Let_def)
qed

lemma struct_addFailed [simp]: "struct ex s \<Longrightarrow> struct ex (pool_addFailed s)"
  by (auto simp: struct_def st_defs pool_addFailed_def)

lemma room_new: "struct ex s \<Longrightarrow> room (po_nextWorkerId s) (pool_addWorker now s)"
  by (simp add: room_def pool_addWorker_def Let_def less_max_iff_disj)

lemma addWorker_in: "po_nextWorkerId s \<in> set (po_workers (pool_addWorker now s))"
  by (simp add: pool_addWorker_def Let_def)

text \<open>Operations that keep the array.\<close>

lemma struct_if_st: "po_workers t = po_workers s \<Longrightarrow> struct ex s \<Longrightarrow>
    (st ex (set (po_workers s)) s \<Longrightarrow> st ex (set (po_workers s)) t) \<Longrightarrow> struct ex t"
  by (simp add: struct_def)

lemma refuse_frame [simp]: "po_workers (fst (pool_refuse e want cid p s)) = po_workers s"
  by (simp add: pool_refuse_def)

lemma postToWorker_frame [simp]:
  "po_workers (fst (pool_postToWorker wid msg start want cid p sig s)) = po_workers s"
  by (simp add: pool_postToWorker_def Let_def case_prod_beta split: bool.splits)

lemma enqueue_frame [simp]: "po_workers (fst (pool_enqueueOrReject item want cid p s)) = po_workers s"
  by (simp add: pool_enqueueOrReject_def case_prod_beta)

lemma st_dropOldest [simp]: "st ex W s \<Longrightarrow> st ex W (pool_dropOldest s)"
  by (simp add: pool_dropOldest_def case_prod_beta split: option.splits)

lemma st_evict [simp]: "st ex W s \<Longrightarrow> st ex W (pool_evict n s)"
  by (induction n s rule: pool_evict.induct) simp_all

lemma st_reserve [simp]: "st ex W s \<Longrightarrow> st ex W (fst (pool_reserve n s))"
  by (simp add: pool_reserve_def Let_def split: js_num.splits)

lemma st_enqueue [simp]: "st ex W s \<Longrightarrow> st ex W (fst (pool_enqueueOrReject item want cid p s))"
  by (simp add: pool_enqueueOrReject_def case_prod_beta)

lemma struct_enqueue [simp]: "struct ex s \<Longrightarrow> struct ex (fst (pool_enqueueOrReject item want cid p s))"
  by (rule struct_if_st [where s = s]) simp_all

lemma struct_refuse [simp]: "struct ex s \<Longrightarrow> struct ex (fst (pool_refuse e want cid p s))"
  by (rule struct_if_st [where s = s]) simp_all

lemma struct_postToWorker:
  "struct ex s \<Longrightarrow> wid \<in> set (po_workers s) \<Longrightarrow> room wid s \<Longrightarrow>
     struct ex (fst (pool_postToWorker wid msg start want cid p sig s))"
  by (rule struct_if_st [where s = s]) (simp_all add: st_postToWorker)

lemma struct_prepareAndQueue [simp]:
  "struct ex s \<Longrightarrow> struct ex (fst (pool_prepareAndQueue msg want cid p now opts s))"
  by (simp add: pool_prepareAndQueue_def)

lemma struct_tryGrow [simp]:
  "struct ex s \<Longrightarrow> struct ex (fst (pool_tryGrow spawns msg want cid p now opts s))"
  by (simp add: pool_tryGrow_def struct_addWorker struct_postToWorker room_new addWorker_in)

lemma struct_fallback:
  assumes "struct ex s" "\<not> po_taskQueue s"
  shows "struct ex (fst (pool_fallback msg want cid p now s))"
proof (cases "snd (pool_readyWorkers now s) = []")
  case False
  define r where "r = snd (pool_readyWorkers now s)"
  define t where "t = fst (pool_readyWorkers now s)"
  have "struct ex t" unfolding t_def by (rule struct_if_st [OF _ assms(1)]) simp_all
  moreover have "\<not> po_taskQueue t" using assms(2) by (simp add: t_def)
  moreover have "r ! (n mod length r) \<in> set (po_workers s)" for n
    using readyWorkers_sub [of "r ! (n mod length r)" now s] False by (simp add: r_def)
  moreover have "po_workers t = po_workers s" by (simp add: t_def)
  moreover have "struct ex (u\<lparr>po_nextIndex := n\<rparr>) = struct ex u" "room w (u\<lparr>po_nextIndex := n\<rparr>) = room w u" for u n w
    by (simp_all add: struct_def room_def)
  moreover have "room w t" for w using \<open>\<not> po_taskQueue t\<close> by (simp add: room_def)
  ultimately show ?thesis using False
    by (simp add: pool_fallback_def Let_def case_prod_beta r_def [symmetric] t_def [symmetric] struct_postToWorker)
next
  case True
  have "struct ex (fst (pool_readyWorkers now s))" by (rule struct_if_st [OF _ assms(1)]) simp_all
  then show ?thesis using True by (simp add: pool_fallback_def Let_def case_prod_beta)
qed

lemma struct_route:
  assumes "struct ex s" "\<And>w. least = Some w \<Longrightarrow> w \<in> set (po_workers s)"
  shows "struct ex (fst (pool_route spawns least msg want cid p now opts s))"
  unfolding pool_route_def
  using assms by (auto simp: struct_fallback room_below struct_postToWorker split: option.splits)

lemma struct_post [simp]: "struct ex s \<Longrightarrow> struct ex (fst (pool_post lb spawns fresh now msg opts s))"
proof -
  assume s: "struct ex s"
  define t where "t = fst (pool_candidate lb now opts s)"
  have w: "po_workers t = po_workers s"
    by (simp add: t_def pool_candidate_def split: option.splits)
  have t: "struct ex t" unfolding t_def by (rule struct_if_st [OF _ s]) (simp_all add: w [unfolded t_def])
  have c: "struct ex (fst (pool_createPending k to t))" for k to
    by (rule struct_if_st [OF _ t]) simp_all
  show ?thesis using s t c w
    by (auto simp: pool_post_def Let_def case_prod_beta t_def [symmetric]
        intro!: struct_route dest: candidate_in split: option.splits js_num.splits)
qed

text \<open>The drains.\<close>

lemma st_nextLive [simp]: "st ex W s \<Longrightarrow> st ex W (fst (pool_nextLive now s))"
  by (rule nextLive_preserves [where P = "st ex W"]) simp_all

lemma st_uncrossHigh [simp]: "st ex W (pool_uncrossHigh s) = st ex W s"
  by (simp add: pool_uncrossHigh_def split: js_num.splits)

lemma dispatch_tasks:
  "m_posts msg \<Longrightarrow> w_tasks (po_objs (fst (pool_dispatch wid msg cid start sig s)) wid) = w_tasks (po_objs s wid) + 1"
  by (simp add: pool_dispatch_def pool_book_def pool_setObj_def Let_def)

definition slots_ok :: "nat \<Rightarrow> js_num \<Rightarrow> pool \<Rightarrow> bool" where
  "slots_ok wid n s \<longleftrightarrow> (\<forall>r. po_taskQueue s \<and> po_maxTasks s = Fin r \<longrightarrow>
     n = Fin (r - of_nat (w_tasks (po_objs s wid))))"

lemma slots_room: "slots_ok wid n s \<Longrightarrow> num_lt (Fin 0) n \<Longrightarrow> room wid s"
  by (auto simp: slots_ok_def room_def below_ceiling)

lemma st_fillWorker:
  assumes "st ex W s" "wid \<in> W" "slots_ok wid slots s"
  shows "st ex W (fst (pool_fillWorker wid slots adaptive b now s))"
proof -
  have "\<exists>n. st ex W (fst (pool_fillWorker wid slots adaptive b now s))
      \<and> slots_ok wid n (fst (pool_fillWorker wid slots adaptive b now s))"
  proof (rule fillWorker_preserves [where Q = "\<lambda>n s. st ex W s \<and> slots_ok wid n s"])
    fix n u
    assume "st ex W u \<and> slots_ok wid n u"
    then show "st ex W (fst (pool_nextLive now u)) \<and> slots_ok wid n (fst (pool_nextLive now u))"
      by (simp add: slots_ok_def)
  next
    fix n u cid sig and msg :: pmsg
    assume Q: "st ex W u \<and> slots_ok wid n u" and n: "num_lt (Fin 0) n" and p: "m_posts msg"
    let ?v = "pool_setObj wid (\<lambda>w. w\<lparr>w_lastActive := now\<rparr>) (fst (pool_dispatch wid msg cid now sig u))"
    have "st ex W (fst (pool_dispatch wid msg cid now sig u))"
      using Q assms(2) slots_room [OF _ n] by (simp add: st_dispatch)
    then have "st ex W ?v" by simp
    moreover have "w_tasks (po_objs ?v wid) = w_tasks (po_objs u wid) + 1"
      using dispatch_tasks [OF p] by (simp add: pool_setObj_def)
    then have "slots_ok wid (num_dec n) ?v" using Q by (auto simp: slots_ok_def num_dec_def)
    ultimately show "st ex W ?v \<and> slots_ok wid (num_dec n) ?v" ..
  next
    show "st ex W s \<and> slots_ok wid slots s" using assms by simp
  qed
  then show ?thesis by blast
qed

lemma slots_start: "slots_ok wid (num_minus_nat (po_maxTasks s) (w_tasks (po_objs s wid))) s"
  by (simp add: slots_ok_def num_minus_nat_def)

lemma fillWorkers_frame [simp]: "po_workers (fst (pool_fillWorkers ids adaptive b now s)) = po_workers s"
  by (induction ids arbitrary: adaptive b s) (simp_all add: case_prod_beta)

lemma st_fillWorkers:
  "st ex W s \<Longrightarrow> set ids \<subseteq> W \<Longrightarrow> st ex W (fst (pool_fillWorkers ids adaptive b now s))"
  by (induction ids arbitrary: adaptive b s) (simp_all add: case_prod_beta st_fillWorker slots_start)

lemma uncrossHigh_frame [simp]: "po_workers (pool_uncrossHigh s) = po_workers s"
  by (simp add: pool_uncrossHigh_def split: js_num.splits)

lemma struct_dispatchQueued [simp]: "struct ex s \<Longrightarrow> struct ex (pool_dispatchQueued now s)"
proof -
  assume s: "struct ex s"
  have "set (snd (pool_readyWorkers now s)) \<subseteq> set (po_workers s)" using readyWorkers_sub by blast
  then show ?thesis using s
    by (simp add: struct_def pool_dispatchQueued_def Let_def case_prod_beta st_fillWorkers)
qed

lemma struct_inlineDrain:
  assumes "struct ex s" "wid \<in> set (po_workers s)"
  shows "struct ex (pool_inlineDrain wid now s)"
proof -
  define t where "t = fst (pool_nextLive now s)"
  have "struct ex t" unfolding t_def by (rule struct_if_st [OF _ assms(1)]) simp_all
  moreover have "room wid t" if "pool_tasksBelow wid s"
    using room_below [OF that] by (simp add: room_def t_def)
  moreover have "po_workers t = po_workers s" by (simp add: t_def)
  ultimately show ?thesis using assms
    by (simp add: struct_def pool_inlineDrain_def case_prod_beta t_def [symmetric] st_dispatch split: option.splits)
qed

lemma recordLatency_frame [simp]: "po_workers (pool_recordLatency wid now rs s) = po_workers s"
  by (simp add: pool_recordLatency_def Let_def split: option.splits)

lemma st_recordLatency [simp]: "st ex W s \<Longrightarrow> st ex W (pool_recordLatency wid now rs s)"
  by (simp add: pool_recordLatency_def Let_def split: option.splits)

lemma struct_updateIdle [simp]: "struct ex (pool_updateIdle s) = struct ex s"
  by (simp add: struct_def)

lemma resolve_workers: "po_workers (pool_resolve rs s) = po_workers s"
  by (simp add: pool_resolve_def split: option.splits)

lemma struct_onMessage:
  assumes "struct ex s" "ex \<longrightarrow> w_settled (po_objs s wid) \<or> 0 < w_tasks (po_objs s wid)"
  shows "struct ex (pool_onMessage wid rs now s)"
proof (cases "w_settled (po_objs s wid)")
  case False
  then have wid: "wid \<in> set (po_workers s)" using assms(1) by (auto simp: struct_def st_defs)
  define t where "t = pool_decrementActive 1 now (pool_setObj wid (\<lambda>w. w\<lparr>w_tasks := w_tasks w - 1\<rparr>) s)"
  have "po_workers t = po_workers s" by (simp add: t_def)
  moreover have "st ex (set (po_workers s)) t"
    unfolding t_def using assms False wid by (intro st_reply) (simp_all add: struct_def)
  ultimately have t: "struct ex t" using assms(1) by (simp add: struct_def)
  then have "struct ex (pool_recordLatency wid now rs
      (pool_resolve rs (pool_setObj wid (\<lambda>w. w\<lparr>w_lastActive := now\<rparr>) t)))"
    by (intro struct_if_st [OF _ t]) (simp_all add: pool_resolve_def split: option.splits)
  then show ?thesis using False wid \<open>po_workers t = po_workers s\<close>
    by (simp add: pool_onMessage_def Let_def t_def [symmetric] struct_inlineDrain resolve_workers del: One_nat_def)
qed (simp add: pool_onMessage_def assms)

text \<open>Retirement.\<close>

lemma struct_terminate:
  assumes "struct ex s" "wid \<in> set (po_workers s)" "set ws = set (po_workers s) - {wid}" "distinct ws"
  shows "struct ex ((pool_terminateWorker wid now s)\<lparr>po_workers := ws\<rparr>)"
  using assms st_terminate [of ex "set (po_workers s)" s wid now] by (simp add: struct_def)

lemma terminate_workers_comm:
  "pool_terminateWorker wid now (s\<lparr>po_workers := ws\<rparr>) = (pool_terminateWorker wid now s)\<lparr>po_workers := ws\<rparr>"
proof -
  have c: "pool_cleanup k r (t\<lparr>po_workers := ws\<rparr>) = (pool_cleanup k r t)\<lparr>po_workers := ws\<rparr>" for k r t
    by (simp add: pool_cleanup_def split: option.splits)
  have "fold (\<lambda>k. pool_cleanup k r) ks (t\<lparr>po_workers := ws\<rparr>) = (fold (\<lambda>k. pool_cleanup k r) ks t)\<lparr>po_workers := ws\<rparr>"
    for ks r t by (induction ks arbitrary: t) (simp_all add: c)
  then have r: "pool_rejectForWorker wid (t\<lparr>po_workers := ws\<rparr>) = (pool_rejectForWorker wid t)\<lparr>po_workers := ws\<rparr>" for t
    by (simp add: pool_rejectForWorker_def)
  have o: "pool_setObj wid f (t\<lparr>po_workers := ws\<rparr>) = (pool_setObj wid f t)\<lparr>po_workers := ws\<rparr>" for f t
    by (simp add: pool_setObj_def)
  have d: "pool_decrementActive n now (t\<lparr>po_workers := ws\<rparr>) = (pool_decrementActive n now t)\<lparr>po_workers := ws\<rparr>" for n t
    by (simp add: pool_decrementActive_def pool_busyInterval_def Let_def split: option.splits)
  show ?thesis by (simp add: pool_terminateWorker_def Let_def r o d)
qed

lemma set_butlast: "distinct xs \<Longrightarrow> xs \<noteq> [] \<Longrightarrow> set (butlast xs) = set xs - {last xs}"
  by (induction xs rule: rev_induct) auto

lemma struct_popLast:
  "struct ex s \<Longrightarrow> po_workers s \<noteq> [] \<Longrightarrow>
     struct ex (pool_terminateWorker (last (po_workers s)) now (s\<lparr>po_workers := butlast (po_workers s)\<rparr>))"
  unfolding terminate_workers_comm
  by (rule struct_terminate) (auto simp: struct_def set_butlast distinct_butlast)

lemma struct_popTo: "struct ex s \<Longrightarrow> ws = rev (po_workers s) \<Longrightarrow> struct ex (pool_popTo n ws now s)"
proof (induction n ws now s rule: pool_popTo.induct)
  case (2 n wid rest now s)
  have p: "po_workers s = rev rest @ [wid]" using "2.prems"(2) by (metis rev.simps(2) rev_rev_ident)
  then have t: "struct ex (pool_terminateWorker wid now (s\<lparr>po_workers := butlast (po_workers s)\<rparr>))"
    using struct_popLast [OF "2.prems"(1), of now] by simp
  have "struct ex (pool_popTo n rest now (pool_terminateWorker wid now (s\<lparr>po_workers := butlast (po_workers s)\<rparr>)))"
    if "n < length (po_workers s)"
    by (rule "2.IH" [OF that t]) (simp add: p)
  then show ?case using "2.prems"(1) by simp
qed simp

lemma struct_reapLoop: "struct ex s \<Longrightarrow> i \<le> length (po_workers s) \<Longrightarrow> struct ex (pool_reapLoop i now s)"
proof (induction i now s rule: pool_reapLoop.induct)
  case (2 i now s)
  let ?w = "po_workers s ! i" and ?ws = "po_workers s"
  define new where "new = (if i = length (butlast ?ws) then butlast ?ws else (butlast ?ws)[i := last ?ws])"
  have d: "distinct ?ws" and i: "i < length ?ws" using "2.prems" by (simp_all add: struct_def)
  have "set new = set ?ws - {?w} \<and> distinct new"
  proof -
    obtain ys y where ws: "?ws = ys @ [y]" using i by (cases ?ws rule: rev_cases) auto
    show ?thesis
    proof (cases "i = length ys")
      case True
      then show ?thesis using d by (auto simp: new_def ws)
    next
      case False
      then have "i < length ys" using i ws by simp
      then show ?thesis using d
        by (auto simp: new_def ws nth_append distinct_list_update set_update_distinct)
    qed
  qed
  then have "struct ex ((pool_terminateWorker ?w now s)\<lparr>po_workers := new\<rparr>)"
    using "2.prems"(1) i by (intro struct_terminate) auto
  moreover have "length new = length ?ws - 1" by (simp add: new_def)
  ultimately show ?case using 2 i
    by (auto simp: Let_def new_def)
qed simp

lemma struct_refill: "struct ex s \<Longrightarrow> struct ex (pool_refill k now s)"
proof (induction k now s rule: pool_refill.induct)
  case (1 k now s)
  then show ?case by (subst pool_refill.simps) (auto simp: struct_addWorker split: nat.splits)
qed

lemma struct_updates [simp]:
  "struct ex (s\<lparr>po_paused := b\<rparr>) = struct ex s" "struct ex (s\<lparr>po_bootFails := n\<rparr>) = struct ex s"
  "struct ex (s\<lparr>po_minSize := n, po_maxSize := m\<rparr>) = struct ex s" "struct ex (s\<lparr>po_limit := lm\<rparr>) = struct ex s"
  by (simp_all add: struct_def)

lemma struct_onExit: "struct ex s \<Longrightarrow> wid \<in> set (po_workers s) \<Longrightarrow> struct ex (pool_onExit wid k now s)"
proof -
  assume s: "struct ex s" "wid \<in> set (po_workers s)"
  then have "struct ex ((pool_terminateWorker wid now s)\<lparr>po_workers := remove1 wid (po_workers s)\<rparr>)"
    by (intro struct_terminate) (auto simp: struct_def)
  then show ?thesis by (simp add: pool_onExit_def Let_def struct_refill)
qed

lemma st_terminate_fold:
  "st ex W s \<Longrightarrow> set ids \<subseteq> W \<Longrightarrow> distinct ids \<Longrightarrow>
     st ex (W - set ids) (fold (\<lambda>wid. pool_terminateWorker wid now) ids s)"
proof (induction ids arbitrary: s W)
  case (Cons a ids)
  then show ?case using st_terminate [of ex W s a now] Cons.IH [of "W - {a}" "pool_terminateWorker a now s"]
    by (auto simp: Diff_insert2 [symmetric] subset_Diff_insert)
qed simp

lemma struct_shutdown: "struct ex s \<Longrightarrow> struct ex (pool_shutdown now s)"
proof -
  assume s: "struct ex s"
  define t where "t = pool_rejectAll PE_Shutdown (s\<lparr>po_terminated := True\<rparr>)"
  define u where "u = fold (\<lambda>wid. pool_terminateWorker wid now) (po_workers s) t"
  have "st ex (set (po_workers s)) t" using s by (simp add: t_def pool_rejectAll_def struct_def)
  then have "st ex {} u" using s st_terminate_fold [of ex "set (po_workers s)" t "po_workers s" now]
    by (simp add: u_def struct_def)
  then have "po_active u = 0" by (simp add: st_defs)
  then have "u\<lparr>po_active := 0\<rparr> = u" by simp
  moreover have "po_workers t = po_workers s" by (simp add: t_def)
  ultimately show ?thesis using s \<open>st ex {} u\<close>
    by (simp add: pool_shutdown_def Let_def t_def [symmetric] u_def [symmetric] struct_def st_defs)
qed

text \<open>Replies come only from workers that owe one, or from retired ones.\<close>

fun solicited :: "pool_event \<Rightarrow> pool \<Rightarrow> bool" where
  "solicited (EvReply wid rs now) s = (w_settled (po_objs s wid) \<or> 0 < w_tasks (po_objs s wid))"
| "solicited e s = True"

lemma struct_step: "struct ex s \<Longrightarrow> (ex \<Longrightarrow> solicited e s) \<Longrightarrow> struct ex (pool_step e s)"
proof (cases e)
  case (EvReady wid now)
  assume s: "struct ex s"
  have "struct ex (pool_setObj wid (\<lambda>w. w\<lparr>w_ready := True\<rparr>) s)" by (rule struct_if_st [OF _ s]) simp_all
  then show ?thesis using s EvReady by (simp add: pool_onReady_def)
next
  case (EvTimeout key)
  assume s: "struct ex s"
  then show ?thesis using EvTimeout struct_if_st [of "pool_cleanup key (Rejected PE_Timeout) s" s]
    by (simp add: pool_timeout_def split: option.splits)
next
  case (EvAbort sig)
  assume s: "struct ex s"
  have "struct ex (pool_abort sig s)" by (rule struct_if_st [OF _ s]) (simp_all add: pool_abort_def Let_def)
  then show ?thesis using EvAbort by simp
next
  case (EvResize a k now)
  assume s: "struct ex s"
  then show ?thesis using EvResize
    by (simp add: pool_resize_def Let_def struct_popTo struct_refill split: option.splits)
qed (auto simp: struct_onMessage struct_onExit pool_pause_def pool_resume_def pool_add_def pool_remove_def
    pool_reap_def struct_addWorker struct_popLast struct_reapLoop struct_shutdown)

lemma struct_initial: "struct ex s \<Longrightarrow> struct ex (pool_initial n k now s)"
  by (induction n k now s rule: pool_initial.induct) (auto simp: struct_addWorker split: nat.splits)

lemma struct_new: "struct ex (pool_new c k now)"
  unfolding pool_new_def Let_def
  by (rule struct_initial) (simp add: struct_def st_defs no_wk_def jm_get_def)

fun solicited_run :: "pool_event list \<Rightarrow> pool \<Rightarrow> bool" where
  "solicited_run [] s = True"
| "solicited_run (e # es) s = (solicited e s \<and> solicited_run es (pool_step e s))"

lemma struct_run: "struct ex s \<Longrightarrow> (ex \<Longrightarrow> solicited_run es s) \<Longrightarrow> struct ex (pool_run es s)"
  by (induction es s rule: pool_run.induct) (auto simp: struct_step)

end
