(* ===== verification/Idempotency.thy ===== *)
theory Idempotency
  imports JsMap
begin

text \<open>
  The idempotency ledger of the worker pool (\<open>_idempotencyBegin\<close>, \<open>_idempotencySettle\<close>,
  \<open>_idempotencyRelease\<close>, \<open>_idempotencySweep\<close> and \<open>postMessage\<close> of
  \<open>src/helpers/powerPool.js\<close>).  A key is a string, as \<open>String()\<close> writes it, or absent; the
  outcome of the post itself is an argument of \<open>pool_postMessage\<close>.
\<close>

section \<open>State and operations\<close>

definition DEFAULT_IDEMPOTENCY_SWEEP_BATCH :: nat where
  "DEFAULT_IDEMPOTENCY_SWEEP_BATCH = 32"

text \<open>An entry is its \<open>settledAt\<close>; \<open>None\<close> marks a key whose post is in flight.\<close>

record idem =
  id_ttl :: rat
  id_ledger :: "(string, rat option) js_map option"
  id_lookups :: nat
  id_dupInFlight :: nat
  id_dupSettled :: nat
  id_expired :: nat
  id_size :: nat
  id_cursor :: "string option"

definition idem_new :: "rat \<Rightarrow> idem" where
  "idem_new ttl =
     \<lparr>id_ttl = ttl, id_ledger = (if 0 < ttl then Some [] else None), id_lookups = 0,
      id_dupInFlight = 0, id_dupSettled = 0, id_expired = 0, id_size = 0, id_cursor = None\<rparr>"

text \<open>\<open>due\<close>: the entry is settled and its time is up.\<close>

definition due :: "rat \<Rightarrow> rat \<Rightarrow> rat option \<Rightarrow> bool" where
  "due ttl now e = (case e of Some at_ \<Rightarrow> ttl \<le> now - at_ | None \<Rightarrow> False)"

text \<open>
  The loop over the keys: whether the cursor has been seen, the key to resume from, how many
  keys were examined, the ledger and the expiries so far; the last component of the answer is
  \<open>hitCapBeforeCursor\<close>.
\<close>

fun idem_scan :: "rat \<Rightarrow> rat \<Rightarrow> string option \<Rightarrow> string list \<Rightarrow> bool \<Rightarrow> string option \<Rightarrow> nat
    \<Rightarrow> (string, rat option) js_map \<Rightarrow> nat \<Rightarrow> string option \<times> (string, rat option) js_map \<times> nat \<times> bool" where
  "idem_scan now ttl cursor [] seen resume examined m expired = (resume, m, expired, False)"
| "idem_scan now ttl cursor (k # ks) seen resume examined m expired =
     (if \<not> seen \<and> cursor \<noteq> Some k then idem_scan now ttl cursor ks seen resume examined m expired
      else
        (let seen = True in
         if DEFAULT_IDEMPOTENCY_SWEEP_BATCH \<le> examined then (resume, m, expired, \<not> seen)
         else if (case jm_get k m of Some e \<Rightarrow> due ttl now e | None \<Rightarrow> False)
         then idem_scan now ttl cursor ks seen resume (examined + 1) (jm_delete k m) (expired + 1)
         else idem_scan now ttl cursor ks seen (Some k) (examined + 1) m expired))"

definition idem_sweep :: "rat \<Rightarrow> idem \<Rightarrow> idem" where
  "idem_sweep now s =
     (case id_ledger s of
        None \<Rightarrow> s\<lparr>id_cursor := None\<rparr>
      | Some m \<Rightarrow>
          if m = [] then s\<lparr>id_cursor := None\<rparr>
          else
            (let cursor = (case id_cursor s of Some c \<Rightarrow> if jm_has c m then Some c else None | None \<Rightarrow> None);
                 (resume, m', expired, hit) =
                   idem_scan now (id_ttl s) cursor (jm_keys m) (cursor = None) None 0 m (id_expired s);
                 resume' = (if hit then cursor else resume)
             in s\<lparr>id_ledger := Some m', id_expired := expired, id_cursor := resume',
                  id_size := length m'\<rparr>))"

definition idem_begin :: "string option \<Rightarrow> rat \<Rightarrow> idem \<Rightarrow> idem \<times> bool" where
  "idem_begin key now s =
     (let s = s\<lparr>id_lookups := id_lookups s + 1\<rparr> in
      case (key, id_ledger s) of
        (Some k, Some _) \<Rightarrow>
          (let s = idem_sweep now s; m = the (id_ledger s) in
           case jm_get k m of
             Some None \<Rightarrow> (s\<lparr>id_dupInFlight := id_dupInFlight s + 1\<rparr>, False)
           | Some (Some _) \<Rightarrow> (s\<lparr>id_dupSettled := id_dupSettled s + 1\<rparr>, False)
           | None \<Rightarrow> (let m' = jm_set k None m in (s\<lparr>id_ledger := Some m', id_size := length m'\<rparr>, True)))
      | _ \<Rightarrow> (s, True))"

definition idem_settle :: "string option \<Rightarrow> rat \<Rightarrow> idem \<Rightarrow> idem" where
  "idem_settle key now s =
     (case (key, id_ledger s) of
        (Some k, Some m) \<Rightarrow>
          (if jm_has k m then s\<lparr>id_ledger := Some (jm_set k (Some now) m), id_size := length m\<rparr> else s)
      | _ \<Rightarrow> s)"

definition idem_release :: "string option \<Rightarrow> idem \<Rightarrow> idem" where
  "idem_release key s =
     (case (key, id_ledger s) of
        (Some k, Some m) \<Rightarrow> (let m' = jm_delete k m in s\<lparr>id_ledger := Some m', id_size := length m'\<rparr>)
      | _ \<Rightarrow> s)"

text \<open>What \<open>_postMessageInner\<close> did: threw, answered \<open>false\<close>, or anything else.\<close>

datatype inner = InnerThrew | InnerFalse | InnerTook

text \<open>\<open>postMessage\<close>; the answer says whether the post was let through to \<open>_postMessageInner\<close>.\<close>

definition pool_postMessage :: "string option \<Rightarrow> rat \<Rightarrow> inner \<Rightarrow> idem \<Rightarrow> idem \<times> bool" where
  "pool_postMessage key now r s =
     (case id_ledger s of
        None \<Rightarrow> (s, True)
      | Some _ \<Rightarrow>
          (case idem_begin key now s of
             (s1, False) \<Rightarrow> (s1, False)
           | (s1, True) \<Rightarrow>
               ((if r = InnerTook then idem_settle key now s1 else idem_release key s1), True)))"

type_synonym post = "string option \<times> rat \<times> inner"

fun post_run :: "post list \<Rightarrow> idem \<Rightarrow> idem" where
  "post_run [] s = s"
| "post_run ((k, now, r) # ps) s = post_run ps (fst (pool_postMessage k now r s))"

section \<open>What a sweep removes\<close>

lemma idem_scan_ok:
  "idem_scan now ttl cursor ks seen resume examined m expired = (r, m', e', h) \<Longrightarrow> jm_ok m \<Longrightarrow>
     jm_ok m' \<and> \<not> h \<and> e' + length m' = expired + length m
     \<and> (\<forall>k. jm_get k m' = jm_get k m \<or> jm_get k m' = None \<and> (\<exists>e. jm_get k m = Some e \<and> due ttl now e))"
proof (induction now ttl cursor ks seen resume examined m expired rule: idem_scan.induct)
  case (1 now ttl cursor seen resume examined m expired)
  then show ?case by simp
next
  case (2 now ttl cursor k ks seen resume examined m expired)
  let ?due = "case jm_get k m of Some e \<Rightarrow> due ttl now e | None \<Rightarrow> False"
  consider (skip) "\<not> seen \<and> cursor \<noteq> Some k"
    | (cap) "\<not> (\<not> seen \<and> cursor \<noteq> Some k)" "DEFAULT_IDEMPOTENCY_SWEEP_BATCH \<le> examined"
    | (drop) "\<not> (\<not> seen \<and> cursor \<noteq> Some k)" "\<not> DEFAULT_IDEMPOTENCY_SWEEP_BATCH \<le> examined" ?due
    | (keep) "\<not> (\<not> seen \<and> cursor \<noteq> Some k)" "\<not> DEFAULT_IDEMPOTENCY_SWEEP_BATCH \<le> examined" "\<not> ?due"
    by blast
  then show ?case
  proof cases
    case skip
    then show ?thesis using 2 by simp
  next
    case cap
    then show ?thesis using "2.prems" by auto
  next
    case drop
    then obtain e where e: "jm_get k m = Some e" "due ttl now e" by (auto split: option.splits)
    have "Suc (length (jm_delete k m)) = length m"
      using e "2.prems"(2) by (intro jm_length_delete) (auto simp: jm_has_get)
    moreover have "idem_scan now ttl cursor ks True resume (examined + 1) (jm_delete k m) (expired + 1)
        = (r, m', e', h)"
      using "2.prems"(1) drop by simp
    ultimately show ?thesis
      using "2.IH"(2) [OF drop(1) refl drop(2,3)] "2.prems"(2) e
      by (simp add: js.get_del js.ok_del) metis
  next
    case keep
    have "idem_scan now ttl cursor ks True (Some k) (examined + 1) m expired = (r, m', e', h)"
      by (subst "2.prems"(1) [symmetric]) (simp only: idem_scan.simps keep if_False Let_def simp_thms)
    then show ?thesis using "2.IH"(3) [OF keep(1) refl keep(2,3)] "2.prems"(2) by blast
  qed
qed

section \<open>No key is applied twice within its time to live\<close>

text \<open>The ledger has one entry per key and the reported size is its own.\<close>

definition idem_ok :: "idem \<Rightarrow> bool" where
  "idem_ok s \<longleftrightarrow> (\<forall>m. id_ledger s = Some m \<longrightarrow> jm_ok m \<and> id_size s = length m)"

lemma idem_sweep_ok:
  assumes "idem_ok s" "id_ledger s = Some m"
  shows "\<exists>m'. id_ledger (idem_sweep now s) = Some m' \<and> idem_ok (idem_sweep now s)
     \<and> id_expired (idem_sweep now s) + length m' = id_expired s + length m
     \<and> (\<forall>k. jm_get k m' = jm_get k m
          \<or> jm_get k m' = None \<and> (\<exists>e. jm_get k m = Some e \<and> due (id_ttl s) now e))"
proof (cases "m = []")
  case True
  then show ?thesis using assms by (simp add: idem_sweep_def idem_ok_def)
next
  case False
  obtain r m' e' h where "idem_scan now (id_ttl s)
      (case id_cursor s of Some c \<Rightarrow> if jm_has c m then Some c else None | None \<Rightarrow> None) (jm_keys m)
      ((case id_cursor s of Some c \<Rightarrow> if jm_has c m then Some c else None | None \<Rightarrow> None) = None)
      None 0 m (id_expired s) = (r, m', e', h)" (is "?scan = _") by (cases ?scan)
  moreover from this have "jm_ok m' \<and> \<not> h \<and> e' + length m' = id_expired s + length m
     \<and> (\<forall>k. jm_get k m' = jm_get k m \<or> jm_get k m' = None \<and> (\<exists>e. jm_get k m = Some e \<and> due (id_ttl s) now e))"
    by (rule idem_scan_ok) (use assms in \<open>simp add: idem_ok_def\<close>)
  ultimately show ?thesis using assms(2) False by (auto simp: idem_sweep_def idem_ok_def Let_def)
qed


lemma idem_sweep_ttl [simp]: "id_ttl (idem_sweep now s) = id_ttl s"
  by (simp add: idem_sweep_def Let_def split: option.splits prod.splits)

text \<open>\<open>kept k a s\<close>: the ledger holds the key, settled at \<open>a\<close>.\<close>

definition kept :: "string \<Rightarrow> rat \<Rightarrow> idem \<Rightarrow> bool" where
  "kept k a s \<longleftrightarrow> (\<exists>m. id_ledger s = Some m \<and> jm_get k m = Some (Some a))"

lemma pool_postMessage_ok:
  assumes "idem_ok s"
  shows "idem_ok (fst (pool_postMessage key now r s)) \<and> id_ttl (fst (pool_postMessage key now r s)) = id_ttl s"
proof (cases "id_ledger s")
  case None
  then show ?thesis using assms by (simp add: pool_postMessage_def)
next
  case (Some m)
  define l where "l = s\<lparr>id_lookups := Suc (id_lookups s)\<rparr>"
  have l: "idem_ok l" "id_ledger l = Some m" "id_ttl l = id_ttl s" using assms Some by (auto simp: l_def idem_ok_def)
  obtain m' where "id_ledger (idem_sweep now l) = Some m'" "idem_ok (idem_sweep now l)"
    using idem_sweep_ok [OF l(1,2)] by blast
  then show ?thesis
    using l Some assms
    by (auto simp: pool_postMessage_def idem_begin_def l_def [symmetric] Let_def idem_ok_def idem_settle_def
        idem_release_def js.ok_put js.ok_del jm_length_set split: option.splits if_splits)
qed

lemma pool_postMessage_kept:
  assumes "idem_ok s" "kept k a s" "now - a < id_ttl s"
  shows "kept k a (fst (pool_postMessage key now r s)) \<and> \<not> snd (pool_postMessage (Some k) now r s)"
proof -
  obtain m where m: "id_ledger s = Some m" "jm_get k m = Some (Some a)" using assms(2) by (auto simp: kept_def)
  define l where "l = s\<lparr>id_lookups := Suc (id_lookups s)\<rparr>"
  have l: "idem_ok l" "id_ledger l = Some m" "id_ttl l = id_ttl s" using assms m by (auto simp: l_def idem_ok_def)
  obtain m' where m': "id_ledger (idem_sweep now l) = Some m'"
    and same: "\<And>j. jm_get j m' = jm_get j m
      \<or> jm_get j m' = None \<and> (\<exists>e. jm_get j m = Some e \<and> due (id_ttl l) now e)"
    using idem_sweep_ok [OF l(1,2)] by blast
  have k: "jm_get k m' = Some (Some a)" using same [of k] m(2) assms(3) l(3) by (auto simp: due_def)
  have "kept k a (fst (pool_postMessage key now r s))"
    using m' k m l(2)
    by (auto simp: pool_postMessage_def idem_begin_def l_def [symmetric] Let_def kept_def idem_settle_def
        idem_release_def js.get_put js.get_del split: option.splits if_splits)
  moreover have "\<not> snd (pool_postMessage (Some k) now r s)"
    using m' k m l(2) by (simp add: pool_postMessage_def idem_begin_def l_def [symmetric] Let_def)
  ultimately show ?thesis by blast
qed

lemma post_run_ok: "idem_ok s \<Longrightarrow> idem_ok (post_run ps s) \<and> id_ttl (post_run ps s) = id_ttl s"
  by (induction ps s rule: post_run.induct) (auto simp: pool_postMessage_ok)

lemma post_run_kept:
  "idem_ok s \<Longrightarrow> kept k a s \<Longrightarrow> \<forall>(key, now, r) \<in> set ps. now - a < id_ttl s \<Longrightarrow> kept k a (post_run ps s)"
  by (induction ps s rule: post_run.induct) (auto simp: pool_postMessage_ok pool_postMessage_kept)

lemma idem_new_ok [simp]: "idem_ok (idem_new ttl)" "id_ttl (idem_new ttl) = ttl"
  by (auto simp: idem_new_def idem_ok_def jm_ok_def)

lemma post_through_kept:
  assumes "id_ledger s = Some m" "pool_postMessage (Some k) t InnerTook s = (s', True)"
  shows "kept k t s'"
  using assms
  by (auto simp: pool_postMessage_def idem_begin_def Let_def kept_def idem_settle_def jm_has_get
      js.get_put split: prod.splits bool.splits option.splits if_splits)

lemma post_run_ledger: "id_ledger s = Some m \<Longrightarrow> idem_ok s \<Longrightarrow> \<exists>m'. id_ledger (post_run ps s) = Some m'"
proof (induction ps s arbitrary: m rule: post_run.induct)
  case (2 key now r ps s)
  define l where "l = s\<lparr>id_lookups := Suc (id_lookups s)\<rparr>"
  have l: "idem_ok l" "id_ledger l = Some m" using "2.prems" by (auto simp: l_def idem_ok_def)
  obtain m1 where "id_ledger (idem_sweep now l) = Some m1" using idem_sweep_ok [OF l] by blast
  then have "\<exists>m'. id_ledger (fst (pool_postMessage key now r s)) = Some m'"
    using "2.prems"(1) l(2)
    by (auto simp: pool_postMessage_def idem_begin_def l_def [symmetric] Let_def idem_settle_def
        idem_release_def split: option.splits)
  then show ?case using "2.IH" pool_postMessage_ok "2.prems"(2) by auto
qed simp

text \<open>
  C39. Once a post with an idempotency key was accepted, every later post with that key is
  refused until the key's time to live has passed, whatever was posted, refused, thrown
  or expired before and in between.
\<close>

theorem idempotency_at_most_once:
  assumes "0 < ttl" "pool_postMessage (Some k) t InnerTook (post_run before (idem_new ttl)) = (s, True)"
    "\<forall>(key, now, r) \<in> set between. now < t + ttl" "t' < t + ttl"
  shows "snd (pool_postMessage (Some k) t' r (post_run between s)) = False"
proof -
  let ?b = "post_run before (idem_new ttl)"
  have b: "idem_ok ?b" "id_ttl ?b = ttl" using post_run_ok [of "idem_new ttl" before] by simp_all
  have "id_ledger (idem_new ttl) = Some []" using assms(1) by (simp add: idem_new_def)
  then obtain m where "id_ledger ?b = Some m"
    using post_run_ledger [of "idem_new ttl" "[]" before] by auto
  then have k: "kept k t s" using post_through_kept assms(2) by blast
  have s: "idem_ok s" "id_ttl s = ttl"
    using pool_postMessage_ok [OF b(1), of "Some k" t InnerTook] assms(2) b(2) by simp_all
  have "kept k t (post_run between s)"
    by (rule post_run_kept) (use k s assms(3) in \<open>auto simp: algebra_simps\<close>)
  moreover have "idem_ok (post_run between s)" "id_ttl (post_run between s) = ttl"
    using post_run_ok [OF s(1), of between] s(2) by simp_all
  ultimately show ?thesis
    using pool_postMessage_kept [of "post_run between s" k t t' "Some k" r] assms(4) by (simp add: algebra_simps)
qed

theorem idempotency_at_most_once_witness:
  "snd (pool_postMessage (Some ''a'') 9 InnerTook
     (post_run [(Some ''b'', 3, InnerTook), (None, 8, InnerFalse)]
       (fst (pool_postMessage (Some ''a'') 2 InnerTook (post_run [(Some ''b'', 1, InnerThrew)] (idem_new 10)))))) = False"
  by (rule idempotency_at_most_once [where ttl = 10 and t = 2 and before = "[(Some ''b'', 1, InnerThrew)]"])
    (code_simp | simp)+

section \<open>Under steady traffic no key is ever forgotten\<close>

text \<open>Any three consecutive posts fall within one time to live.\<close>

definition steady :: "rat \<Rightarrow> rat list \<Rightarrow> bool" where
  "steady ttl ts \<longleftrightarrow>
     (\<forall>i < length ts. \<forall>j < length ts. i < j \<and> j \<le> i + 2 \<longrightarrow> ts ! j - ts ! i < ttl)"

definition remembered :: "(string \<times> rat) list \<Rightarrow> (string, rat option) js_map" where
  "remembered ps = map (\<lambda>(k, t). (k, Some t)) ps"

definition post_cursor :: "(string \<times> rat) list \<Rightarrow> string option" where
  "post_cursor ps = (if length ps < 2 then None else Some (fst (ps ! (length ps - 2))))"

lemma remembered_get:
  "distinct (map fst ps) \<Longrightarrow> (k, t) \<in> set ps \<Longrightarrow> jm_get k (remembered ps) = Some (Some t)"
  by (induction ps) (force simp: remembered_def jm_get_def)+

lemma remembered_keys [simp]: "jm_keys (remembered ps) = map fst ps"
  by (auto simp: remembered_def jm_keys_def)

lemma idem_scan_skip:
  "c \<notin> set ks \<Longrightarrow> idem_scan now ttl (Some c) (ks @ ks') False resume examined m expired
     = idem_scan now ttl (Some c) ks' False resume examined m expired"
  by (induction ks) auto

lemma idem_scan_last_two:
  assumes "distinct (map fst (qs @ [(a, ta), (b, tb)]))" "now - ta < ttl" "now - tb < ttl"
  shows "idem_scan now ttl (Some a) (map fst qs @ [a, b]) False None 0 (remembered (qs @ [(a, ta), (b, tb)])) e
     = (Some b, remembered (qs @ [(a, ta), (b, tb)]), e, False)"
proof -
  have "a \<notin> set (map fst qs)" using assms(1) by auto
  moreover have "jm_get a (remembered (qs @ [(a, ta), (b, tb)])) = Some (Some ta)"
    "jm_get b (remembered (qs @ [(a, ta), (b, tb)])) = Some (Some tb)"
    using assms(1) by (auto intro!: remembered_get)
  ultimately show ?thesis
    using assms(2,3) by (simp add: idem_scan_skip due_def DEFAULT_IDEMPOTENCY_SWEEP_BATCH_def)
qed

lemma steady_last:
  assumes "steady ttl (ts @ [t])" "i < length ts" "length ts \<le> i + 2"
  shows "t - ts ! i < ttl"
  using assms(1) [unfolded steady_def, rule_format, of i "length ts"] assms(2,3) by (simp add: nth_append)

lemma steady_butlast:
  assumes "steady ttl (ts @ [t])"
  shows "steady ttl ts"
  unfolding steady_def
proof (intro allI impI)
  fix i j
  assume "i < length ts" "j < length ts" "i < j \<and> j \<le> i + 2"
  then show "ts ! j - ts ! i < ttl"
    using assms [unfolded steady_def, rule_format, of i j] by (simp add: nth_append)
qed

lemma steady_sweep:
  assumes "distinct (map fst ps)" "steady (id_ttl s) (map snd ps @ [now])"
    "id_ledger s = Some (remembered ps)" "id_cursor s = post_cursor ps"
  shows "id_ledger (idem_sweep now s) = Some (remembered ps)"
    "id_cursor (idem_sweep now s) = (if ps = [] then None else Some (fst (last ps)))"
    "id_expired (idem_sweep now s) = id_expired s"
proof -
  consider "ps = []" | p where "ps = [p]" | qs a b where "ps = qs @ [a, b]"
    by (metis append_butlast_last_id append.assoc append_Cons append_Nil)
  then have "id_ledger (idem_sweep now s) = Some (remembered ps)
    \<and> id_cursor (idem_sweep now s) = (if ps = [] then None else Some (fst (last ps)))
    \<and> id_expired (idem_sweep now s) = id_expired s"
  proof cases
    case 1
    then show ?thesis using assms(3) by (simp add: idem_sweep_def remembered_def)
  next
    case (2 p)
    obtain k t where p: "p = (k, t)" by (cases p)
    have "now - t < id_ttl s" using steady_last [OF assms(2), of 0] 2 p by simp
    then show ?thesis using 2 p assms(3,4)
      by (simp add: idem_sweep_def remembered_def post_cursor_def jm_keys_def jm_get_def due_def
          DEFAULT_IDEMPOTENCY_SWEEP_BATCH_def)
  next
    case (3 qs a b)
    obtain k t k' t' where ab: "a = (k, t)" "b = (k', t')" by (cases a, cases b)
    have t: "now - t < id_ttl s" "now - t' < id_ttl s"
      using steady_last [OF assms(2), of "length qs"] steady_last [OF assms(2), of "Suc (length qs)"] 3 ab
      by (simp_all add: nth_append)
    have "id_cursor s = Some k" using assms(4) 3 ab by (simp add: post_cursor_def nth_append)
    moreover have "jm_has k (remembered ps)" using 3 ab by (simp add: jm_has_iff)
    moreover have "remembered ps \<noteq> []" using 3 by (simp add: remembered_def)
    moreover have "idem_scan now (id_ttl s) (Some k) (map fst ps) False None 0 (remembered ps) (id_expired s)
      = (Some k', remembered ps, id_expired s, False)"
      using idem_scan_last_two [of qs k t k' t'] assms(1) 3 ab t by simp
    ultimately show ?thesis using assms(3) 3 ab by (simp add: idem_sweep_def)
  qed
  then show "id_ledger (idem_sweep now s) = Some (remembered ps)"
    "id_cursor (idem_sweep now s) = (if ps = [] then None else Some (fst (last ps)))"
    "id_expired (idem_sweep now s) = id_expired s" by auto
qed


lemma jm_get_remembered_new: "k \<notin> set (map fst ps) \<Longrightarrow> jm_get k (remembered ps) = None"
  by (simp add: jm_get_None)

lemma jm_set_remembered:
  "k \<notin> set (map fst ps) \<Longrightarrow> jm_set k (Some t) (jm_set k None (remembered ps)) = remembered (ps @ [(k, t)])"
  by (induction ps) (auto simp: remembered_def)

lemma post_run_append: "post_run (xs @ ys) s = post_run ys (post_run xs s)"
  by (induction xs s rule: post_run.induct) simp_all

lemma steady_begin:
  assumes "distinct (map fst ps)" "steady (id_ttl s) (map snd ps @ [now])"
    "id_ledger s = Some (remembered ps)" "id_cursor s = post_cursor ps"
  shows "k \<in> set (map fst ps) \<Longrightarrow> snd (pool_postMessage (Some k) now r s) = False"
    and "k \<notin> set (map fst ps) \<Longrightarrow> id_ledger (fst (pool_postMessage (Some k) now InnerTook s)) = Some (remembered (ps @ [(k, now)]))
       \<and> id_cursor (fst (pool_postMessage (Some k) now InnerTook s)) = post_cursor (ps @ [(k, now)])
       \<and> id_expired (fst (pool_postMessage (Some k) now InnerTook s)) = id_expired s"
proof -
  define l where "l = s\<lparr>id_lookups := Suc (id_lookups s)\<rparr>"
  have l: "steady (id_ttl l) (map snd ps @ [now])" "id_ledger l = Some (remembered ps)" "id_cursor l = post_cursor ps"
    using assms by (simp_all add: l_def)
  note w = steady_sweep [OF assms(1) l]
  have c: "id_cursor (idem_sweep now l) = post_cursor (ps @ [(k, now)])"
    using w(2) by (cases ps rule: rev_cases) (simp_all add: post_cursor_def nth_append)
  show "snd (pool_postMessage (Some k) now r s) = False" if "k \<in> set (map fst ps)"
  proof -
    have "\<exists>t. (k, t) \<in> set ps" using that by auto
    then obtain t where "(k, t) \<in> set ps" by blast
    then show ?thesis using w(1) remembered_get [OF assms(1)] assms(3) l(2)
      by (simp add: pool_postMessage_def idem_begin_def l_def [symmetric] Let_def)
  qed
  show "id_ledger (fst (pool_postMessage (Some k) now InnerTook s)) = Some (remembered (ps @ [(k, now)]))
      \<and> id_cursor (fst (pool_postMessage (Some k) now InnerTook s)) = post_cursor (ps @ [(k, now)])
      \<and> id_expired (fst (pool_postMessage (Some k) now InnerTook s)) = id_expired s" if "k \<notin> set (map fst ps)"
    using w(1,3) c jm_get_remembered_new [OF that] jm_set_remembered [OF that, of now] assms(3) l(2)
    by (simp add: pool_postMessage_def idem_begin_def idem_settle_def l_def [symmetric] Let_def jm_has_get js.get_put)
      (simp add: l_def)
qed

text \<open>Every post of \<open>ps\<close> has a key of its own and is accepted.\<close>

definition taken :: "(string \<times> rat) list \<Rightarrow> post list" where
  "taken ps = map (\<lambda>(k, t). (Some k, t, InnerTook)) ps"

lemma steady_run:
  assumes "0 < ttl"
  shows "distinct (map fst ps) \<Longrightarrow> steady ttl (map snd ps) \<Longrightarrow>
    id_ledger (post_run (taken ps) (idem_new ttl)) = Some (remembered ps)
    \<and> id_cursor (post_run (taken ps) (idem_new ttl)) = post_cursor ps
    \<and> id_expired (post_run (taken ps) (idem_new ttl)) = 0"
proof (induction ps rule: rev_induct)
  case Nil
  then show ?case using assms by (simp add: taken_def idem_new_def remembered_def post_cursor_def)
next
  case (snoc p ps)
  obtain k t where p: "p = (k, t)" by (cases p)
  let ?s = "post_run (taken ps) (idem_new ttl)"
  have d: "distinct (map fst ps)" "k \<notin> set (map fst ps)" and st: "steady ttl (map snd ps @ [t])"
    using snoc.prems p by auto
  have IH: "id_ledger ?s = Some (remembered ps)" "id_cursor ?s = post_cursor ps" "id_expired ?s = 0"
    using snoc.IH [OF d(1) steady_butlast [OF st]] by auto
  have "id_ttl ?s = ttl" using post_run_ok [of "idem_new ttl" "taken ps"] by simp
  then show ?case
    using steady_begin(2) [OF d(1) _ IH(1,2) d(2), of t] st IH(3) p
    by (simp add: taken_def post_run_append)
qed

text \<open>
  While posts with fresh keys keep coming, any three consecutive ones within one time
  to live, the ledger forgets none of them: it grows by one entry per post and nothing
  expires, and a key is refused at the next post however long ago it was settled.
\<close>

theorem idempotency_never_forgets:
  assumes "0 < ttl" "distinct (map fst ps)" "steady ttl (map snd ps @ [now])" "k \<in> set (map fst ps)"
  shows "let s = post_run (taken ps) (idem_new ttl) in
    map_option length (id_ledger s) = Some (length ps) \<and> id_expired s = 0
    \<and> snd (pool_postMessage (Some k) now r s) = False"
proof -
  let ?s = "post_run (taken ps) (idem_new ttl)"
  note run = steady_run [OF assms(1,2) steady_butlast [OF assms(3)]]
  have "id_ttl ?s = ttl" using post_run_ok [of "idem_new ttl" "taken ps"] by simp
  then have "snd (pool_postMessage (Some k) now r ?s) = False"
    using steady_begin(1) [OF assms(2) _ _ _ assms(4)] run assms(3) by simp
  moreover have "length (remembered ps) = length ps" by (simp add: remembered_def)
  ultimately show ?thesis using run unfolding Let_def by simp
qed

theorem idempotency_never_forgets_witness:
  "let s = post_run (taken [(''a'', 0), (''b'', 4), (''c'', 8), (''d'', 12)]) (idem_new 10) in
    map_option length (id_ledger s) = Some 4 \<and> id_expired s = 0
    \<and> snd (pool_postMessage (Some ''a'') 16 InnerTook s) = False"
  using idempotency_never_forgets [of 10 "[(''a'', 0), (''b'', 4), (''c'', 8), (''d'', 12)]" 16 "''a''" InnerTook]
  by (simp add: steady_def numeral_nat less_Suc_eq all_conj_distrib)

end
