(* ===== verification/PoolService.thy ===== *)
theory PoolService
  imports PoolRuns Idempotency
begin

text \<open>
  What a client of the worker pool can rely on: the order of service, the choice of a worker,
  the accounting over runs and what shutdown leaves; and where the pool does less than that.
\<close>

section \<open>Order of service\<close>

lemma pool_shift_rep:
  assumes "pq_rep (po_queue s) (e # es)"
  shows "\<exists>q. pool_shift s = (s\<lparr>po_queue := q\<rparr>, Some (pe_item e)) \<and> pq_rep q es"
  using pq_shift_rep [OF assms] by (auto simp: pool_shift_def)



lemma cleanup_posted [simp]: "po_posted (pool_cleanup k r s) = po_posted s"
  by (simp add: pool_cleanup_def split: option.splits)

lemma cleanupOpt_posted [simp]: "po_posted (pool_cleanupOpt k r s) = po_posted s"
  by (simp add: pool_cleanupOpt_def split: option.splits)


lemma posted_same [simp]:
  "po_posted (pool_setObj wid f s) = po_posted s" "po_posted (pool_markPending cid wid s) = po_posted s"
  "po_posted (pool_busyInterval n m now s) = po_posted s" "po_posted (pool_watchSignal sig cid s) = po_posted s"
  by (simp_all add: pool_setObj_def pool_markPending_def pool_busyInterval_def pool_watchSignal_def split: option.splits)

lemma book_posted [simp]: "po_posted (pool_book wid mid cid start s) = po_posted s @ [(wid, mid)]"
  by (simp add: pool_book_def Let_def)






lemma uncrossHigh_same [simp]:
  "po_posted (pool_uncrossHigh s) = po_posted s" "po_queue (pool_uncrossHigh s) = po_queue s"
  "po_pending (pool_uncrossHigh s) = po_pending s"
  by (simp_all add: pool_uncrossHigh_def split: js_num.splits)


lemma log_same [simp]:
  "po_log (pool_setObj wid f s) = po_log s" "po_log (pool_uncrossHigh s) = po_log s"
  "po_log (pool_recordLatency wid now rs s) = po_log s"
  by (simp_all add: pool_setObj_def pool_uncrossHigh_def pool_recordLatency_def Let_def split: js_num.splits option.splits)



text \<open>The state in which a reply reaches the inline drain.\<close>

definition pool_replied :: "nat \<Rightarrow> reply \<Rightarrow> rat \<Rightarrow> pool \<Rightarrow> pool" where
  "pool_replied wid rs now s = pool_recordLatency wid now rs (pool_resolve rs
     (pool_setObj wid (\<lambda>w. w\<lparr>w_lastActive := now\<rparr>) (pool_decrementActive 1 now
       (pool_setObj wid (\<lambda>w. w\<lparr>w_tasks := w_tasks w - 1\<rparr>) s))))"

lemma updateIdle_posted [simp]: "po_posted (pool_updateIdle s) = po_posted s"
  by (simp add: pool_updateIdle_def Let_def)


lemma recordLatency_same [simp]:
  "po_queue (pool_recordLatency wid now rs s) = po_queue s" "po_posted (pool_recordLatency wid now rs s) = po_posted s"
  "po_paused (pool_recordLatency wid now rs s) = po_paused s" "po_aborted (pool_recordLatency wid now rs s) = po_aborted s"
  "po_maxTasks (pool_recordLatency wid now rs s) = po_maxTasks s"
  "w_tasks (po_objs (pool_recordLatency wid now rs s) v) = w_tasks (po_objs s v)"
  by (simp_all add: pool_recordLatency_def Let_def pool_setObj_def split: option.splits)

lemma replied_same [simp]:
  "po_queue (pool_replied wid rs now s) = po_queue s" "po_posted (pool_replied wid rs now s) = po_posted s"
  "po_paused (pool_replied wid rs now s) = po_paused s" "po_aborted (pool_replied wid rs now s) = po_aborted s"
  "po_maxTasks (pool_replied wid rs now s) = po_maxTasks s"
  "w_tasks (po_objs (pool_replied wid rs now s) wid) = w_tasks (po_objs s wid) - 1"
  by (simp_all add: pool_replied_def pool_resolve_def pool_decrementActive_def Let_def split: option.splits)
    (simp_all add: pool_setObj_def)



section \<open>The choice of a worker\<close>

text \<open>\<open>v\<close> is less loaded than \<open>w\<close>: fewer tasks, or as many and a lower latency.\<close>

definition less_loaded :: "pool \<Rightarrow> nat \<Rightarrow> nat \<Rightarrow> bool" where
  "less_loaded s v w \<longleftrightarrow> w_tasks (po_objs s v) < w_tasks (po_objs s w)
     \<or> w_tasks (po_objs s v) = w_tasks (po_objs s w) \<and> num_lt (wk_lat (po_objs s v)) (wk_lat (po_objs s w))"

lemma less_loaded_trans: "less_loaded s u v \<Longrightarrow> less_loaded s v w \<Longrightarrow> less_loaded s u w"
  by (auto simp: less_loaded_def wk_lat_def split: option.splits)

lemma less_loaded_irrefl: "\<not> less_loaded s w w"
  by (auto simp: less_loaded_def wk_lat_def split: option.splits)

lemma least_loop_fold:
  "least_loop (po_objs s) ids (Some b) (Fin (of_nat (w_tasks (po_objs s b)))) (wk_lat (po_objs s b))
     = Some (fold (\<lambda>v b. if less_loaded s v b then v else b) ids b)"
proof (induction ids arbitrary: b)
  case (Cons v ids)
  then show ?case using Cons [of v] Cons [of b] by (auto simp: less_loaded_def Let_def)
qed simp

lemma less_loaded_split: "less_loaded s u w \<Longrightarrow> less_loaded s u v \<or> less_loaded s v w"
  by (auto simp: less_loaded_def wk_lat_def split: option.splits)

lemma fold_least:
  "fold (\<lambda>v b. if less_loaded s v b then v else b) ids b \<in> insert b (set ids)
     \<and> (\<forall>v \<in> insert b (set ids). \<not> less_loaded s v (fold (\<lambda>v b. if less_loaded s v b then v else b) ids b))"
proof (induction ids arbitrary: b)
  case (Cons x ids)
  define c where "c = (if less_loaded s x b then x else b)"
  define r where "r = fold (\<lambda>v b. if less_loaded s v b then v else b) ids c"
  have IH: "r \<in> insert c (set ids)" "\<forall>v \<in> insert c (set ids). \<not> less_loaded s v r"
    unfolding r_def using Cons [of c] by blast+
  have "\<not> less_loaded s b r \<and> \<not> less_loaded s x r"
    using IH(2) less_loaded_trans [of s x b r] less_loaded_split [of s x r b] by (auto simp: c_def split: if_splits)
  moreover have "fold (\<lambda>v b. if less_loaded s v b then v else b) (x # ids) b = r"
    by (simp add: r_def c_def)
  moreover have "c \<in> {x, b}" by (simp add: c_def)
  ultimately show ?case using IH by auto
qed (simp add: less_loaded_irrefl)

text \<open>
  Among the candidates the pool picks one that none of them is less loaded than: fewest
  tasks and, among equals, the lowest moving latency; with no balancer that is among the ready
  workers, and nobody is picked only if none is ready.
\<close>

theorem pool_picks_least_loaded:
  "case pool_selectWorker None now s of
     (t, None) \<Rightarrow> snd (pool_readyWorkers now s) = []
   | (t, Some w) \<Rightarrow> w \<in> set (snd (pool_readyWorkers now s))
       \<and> \<not> (\<exists>v \<in> set (snd (pool_readyWorkers now s)). less_loaded t v w)"
proof (cases "po_workers s = [] \<or> snd (pool_readyWorkers now s) = []")
  case True
  moreover have "snd (pool_readyWorkers now s) = []" if "po_workers s = []"
    using that by (simp add: pool_readyWorkers_def)
  ultimately show ?thesis by (auto simp: pool_selectWorker_def case_prod_beta)
next
  case False
  obtain t ids where t: "pool_readyWorkers now s = (t, ids)" by (cases "pool_readyWorkers now s")
  obtain b bs where ids: "ids = b # bs" using False t by (cases ids) auto
  have "pool_findLeastLoaded ids t = Some (fold (\<lambda>v b. if less_loaded t v b then v else b) bs b)"
    by (simp add: pool_findLeastLoaded_def ids Let_def least_loop_fold)
  then show ?thesis using False t fold_least [of t bs b] by (auto simp: pool_selectWorker_def ids)
qed

section \<open>Runs\<close>

text \<open>
  C35. After any run of a pool, whatever is posted, answered, timed out, aborted, resized
  or lost: every response promise ever made is either pending, under one key, or has been
  settled exactly once.  The worker a pending response is owed by is the one a message with its
  key was last posted to, none if there was no such post, and it is still in the pool, so that no
  response is left behind by a retired worker; and the task queue is within its cap.
\<close>

theorem pool_settles_once:
  "let s = pool_run es (pool_new c k now) in
    mset (map (\<lambda>p. pn_promise (snd p)) (po_pending s)) + mset (map fst (po_log s)) = mset [0..<po_promises s]
    \<and> distinct (map fst (po_pending s))
    \<and> (\<forall>e \<in> snd ` set (po_pending s). pn_worker e = map_of (rev (po_sent s)) (pn_promise e)
         \<and> (\<forall>w. pn_worker e = Some w \<longrightarrow> w \<in> set (po_workers s)))
    \<and> (\<forall>cap. po_maxQueue s = Fin cap \<longrightarrow> pq_size (po_queue s) \<le> nat \<lfloor>cap\<rfloor>)"
proof -
  define s where "s = pool_run es (pool_new c k now)"
  have p: "promise_ok s" unfolding s_def by (rule promises.keeps_run) (rule invariants_new)
  have q: "queue_ok s" unfolding s_def by (rule bound.keeps_run) (rule invariants_new)
  have w: "sent_ok s" unfolding s_def by (rule sent.keeps_run) (rule invariants_new)
  have "struct False s" unfolding s_def by (rule struct_run) (simp_all add: struct_new)
  then have o: "owner_ok (set (po_workers s)) s" by (simp add: struct_def st_def)
  have "jm_get (fst x) (po_pending s) = Some (snd x)" if "x \<in> set (po_pending s)" for x
    using that p map_of_is_SomeI [of "po_pending s" "fst x" "snd x"] by (simp add: promise_ok_def jm_ok_def jm_get_def)
  then have "\<forall>e \<in> snd ` set (po_pending s). pn_worker e = map_of (rev (po_sent s)) (pn_promise e)
      \<and> (\<forall>w. pn_worker e = Some w \<longrightarrow> w \<in> set (po_workers s))"
    using o w unfolding owner_ok_def sent_ok_def by blast
  then show ?thesis using p q unfolding s_def [symmetric] Let_def by (simp add: promise_ok_def jm_ok_def queue_ok_def)
qed

text \<open>
  C36. As long as workers reply only to what they were sent, the number of active tasks is
  the sum of the tasks of the workers in the pool, a retired worker has none, and with the
  task queue on no worker ever has more than a finite \<open>maxTasksPerWorker\<close>, rounded up to a whole number
  and to 1 at least: a worker that was just added gets the task it was added for whatever the limit.
\<close>

theorem pool_accounts_for_tasks:
  assumes "solicited_run es (pool_new c k now)"
  shows "let s = pool_run es (pool_new c k now) in
    distinct (po_workers s) \<and> po_active s = (\<Sum>w \<leftarrow> po_workers s. w_tasks (po_objs s w))
    \<and> (\<forall>w. w \<notin> set (po_workers s) \<longrightarrow> w_tasks (po_objs s w) = 0)
    \<and> (\<forall>r w. po_taskQueue s \<and> po_maxTasks s = Fin r \<longrightarrow> w_tasks (po_objs s w) \<le> nat (max 1 \<lceil>r\<rceil>))"
proof -
  define s where "s = pool_run es (pool_new c k now)"
  have "struct True s" unfolding s_def by (rule struct_run) (simp_all add: struct_new assms)
  then have "distinct (po_workers s)" "po_active s = pool_load (set (po_workers s)) s"
    "\<forall>w. w \<notin> set (po_workers s) \<longrightarrow> w_tasks (po_objs s w) = 0" "limit_ok s"
    by (auto simp: struct_def st_def live_ok_def load_ok_def)
  then show ?thesis unfolding s_def [symmetric] Let_def
    by (simp add: pool_load_def limit_ok_def sum_list_distinct_conv_sum_set)
qed

text \<open>A small pool, a message and a reply for the examples.\<close>

definition one_worker :: pconf where
  "one_worker = \<lparr>cf_size = 1, cf_minSize = 1, cf_maxSize = 1, cf_lazy = True, cf_maxTasks = Fin 1,
     cf_taskQueue = True, cf_policy = Enqueue, cf_maxQueue = Fin 10, cf_high = PosInf, cf_ready = False,
     cf_readyTimeout = 0, cf_idleTimeout = PosInf, cf_responseTimeout = 100, cf_alpha = 0, cf_limit = None\<rparr>"

definition task :: "nat \<Rightarrow> pmsg" where
  "task n = \<lparr>m_id = n, m_plain = True, m_prepares = True, m_bypass = False, m_posts = True\<rparr>"

definition fire :: "rat \<Rightarrow> popts" where
  "fire p = \<lparr>op_workerId = None, op_await = False, op_cid = None, op_timeout = NaN, op_deadline = None,
     op_signal = None, op_priority = JNum (Fin p)\<rparr>"

definition ask :: "string \<Rightarrow> rat \<Rightarrow> popts" where
  "ask cid p = \<lparr>op_workerId = None, op_await = True, op_cid = Some cid, op_timeout = NaN, op_deadline = None,
     op_signal = None, op_priority = JNum (Fin p)\<rparr>"

definition answer :: "string \<Rightarrow> reply" where
  "answer cid = \<lparr>rs_cid = Some cid, rs_value = Some 7, rs_duration = None\<rparr>"

definition evTask :: "nat \<Rightarrow> popts \<Rightarrow> pool_event" where
  "evTask n opts = EvPost None True ''x'' 0 (task n) opts"

lemma example_run:
  "let s = pool_run [evTask 1 (ask ''a'' 0), evTask 2 (fire 1), evTask 3 (ask ''b'' 5), EvReply 0 (answer ''a'') 4]
        (pool_new one_worker 5 0)
   in po_posted s = [(0, 1), (0, 3)] \<and> po_log s = [(0, Resolved 7)] \<and> po_active s = 1 \<and> pq_size (po_queue s) = 1"
  by code_simp

theorem pool_settles_once_witness:
  "let s = pool_run [evTask 1 (ask ''a'' 0), evTask 2 (ask ''b'' 1), EvReply 0 (answer ''a'') 4] (pool_new one_worker 5 0) in
    map (\<lambda>p. (fst p, pn_promise (snd p))) (po_pending s) = [(''b'', 1)] \<and> po_posted s = [(0, 1), (0, 2)]
    \<and> map_of (rev (po_sent s)) 1 = Some 0 \<and> 0 \<in> set (po_workers s)"
proof -
  let ?evs = "[evTask 1 (ask ''a'' 0), evTask 2 (ask ''b'' 1), EvReply 0 (answer ''a'') 4]"
  define s where "s = pool_run ?evs (pool_new one_worker 5 0)"
  have "map (\<lambda>p. (fst p, pn_promise (snd p), pn_worker (snd p))) (po_pending s) = [(''b'', 1, Some 0)] \<and> po_posted s = [(0, 1), (0, 2)]"
    unfolding s_def by code_simp
  then obtain e where e: "po_pending s = [(''b'', e)]" "pn_promise e = 1" "pn_worker e = Some 0" "po_posted s = [(0, 1), (0, 2)]"
    by auto
  then show ?thesis using pool_settles_once [of ?evs one_worker 5 0] unfolding s_def [symmetric] Let_def by simp
qed

theorem pool_accounts_for_tasks_witness:
  "let s = pool_run [evTask 1 (ask ''a'' 0), evTask 2 (fire 1), EvReply 0 (answer ''a'') 4] (pool_new one_worker 5 0) in
    distinct (po_workers s) \<and> po_active s = (\<Sum>w \<leftarrow> po_workers s. w_tasks (po_objs s w))
    \<and> (\<forall>w. w \<notin> set (po_workers s) \<longrightarrow> w_tasks (po_objs s w) = 0)
    \<and> (\<forall>r w. po_taskQueue s \<and> po_maxTasks s = Fin r \<longrightarrow> w_tasks (po_objs s w) \<le> nat (max 1 \<lceil>r\<rceil>))"
proof (rule pool_accounts_for_tasks)
  show "solicited_run [evTask 1 (ask ''a'' 0), evTask 2 (fire 1), EvReply 0 (answer ''a'') 4] (pool_new one_worker 5 0)"
    by code_simp
qed


section \<open>Shutdown\<close>

lemma rejectAll_log:
  "jm_ok m \<Longrightarrow> po_pending s = m \<Longrightarrow> fold (\<lambda>k. pool_cleanup k r) (map fst m) s
     = s\<lparr>po_pending := [], po_log := po_log s @ map (\<lambda>p. (pn_promise (snd p), r)) m\<rparr>"
proof (induction m arbitrary: s)
  case (Cons p m)
  have "jm_delete (fst p) (p # m) = m"
    using Cons.prems(1) jm_delete_new [of "fst p" m] by (simp add: jm_delete_def jm_ok_def)
  then have "pool_cleanup (fst p) r s = s\<lparr>po_pending := m, po_log := po_log s @ [(pn_promise (snd p), r)]\<rparr>"
    using Cons.prems by (cases p) (simp add: pool_cleanup_def jm_get_def)
  then show ?case using Cons by (simp add: jm_ok_def)
qed simp

lemma rejectForWorker_none: "po_pending s = [] \<Longrightarrow> pool_rejectForWorker wid s = s"
  by (simp add: pool_rejectForWorker_def)

lemma terminate_none:
  "po_pending s = [] \<Longrightarrow> po_pending (pool_terminateWorker wid now s) = [] \<and> po_log (pool_terminateWorker wid now s) = po_log s"
  by (simp add: pool_terminateWorker_def Let_def rejectForWorker_none)

lemma terminate_fold_none:
  "po_pending s = [] \<Longrightarrow> po_pending (fold (\<lambda>wid. pool_terminateWorker wid now) ids s) = []
     \<and> po_log (fold (\<lambda>wid. pool_terminateWorker wid now) ids s) = po_log s"
  by (induction ids arbitrary: s) (simp_all add: terminate_none)

lemma terminate_fold_terminated:
  "po_terminated (fold (\<lambda>wid. pool_terminateWorker wid now) ids s) = po_terminated s"
  by (induction ids arbitrary: s) simp_all

text \<open>
  C38. Shutting down a pool, in whatever state a run has left it, rejects every response that
  is still pending, in the order they were asked for, and leaves no worker, no queued task and no
  active one; the pool then refuses every post.
\<close>

theorem pool_shutdown_settles_all:
  assumes "\<not> po_terminated (pool_run es (pool_new c k now))"
  shows "let s = pool_run es (pool_new c k now); t = pool_shutdown later s in
    po_pending t = [] \<and> po_log t = po_log s @ map (\<lambda>p. (pn_promise (snd p), Rejected PE_Shutdown)) (po_pending s)
    \<and> po_workers t = [] \<and> pq_size (po_queue t) = 0 \<and> po_active t = 0
    \<and> pool_post lb spawns fresh clock msg opts t = (t, PostThrew)"
proof -
  define s where "s = pool_run es (pool_new c k now)"
  have "promise_ok s" unfolding s_def by (rule promises.keeps_run) (rule invariants_new)
  then have "jm_ok (po_pending s)" by (simp add: promise_ok_def)
  then have r: "pool_rejectAll PE_Shutdown (s\<lparr>po_terminated := True\<rparr>)
      = s\<lparr>po_terminated := True, po_pending := [],
          po_log := po_log s @ map (\<lambda>p. (pn_promise (snd p), Rejected PE_Shutdown)) (po_pending s)\<rparr>" (is "_ = ?u")
    using rejectAll_log [of "po_pending s" "s\<lparr>po_terminated := True\<rparr>" "Rejected PE_Shutdown"]
    by (simp add: pool_rejectAll_def jm_keys_def)
  have "po_pending ?u = []" "po_workers ?u = po_workers s" by simp_all
  note f = terminate_fold_none [OF this(1), of later "po_workers s"]
    terminate_fold_terminated [of later "po_workers s" ?u]
  have "\<not> po_terminated s" using assms by (simp add: s_def)
  then show ?thesis using f unfolding s_def [symmetric] Let_def
    by (simp add: pool_shutdown_def Let_def r pool_post_def)
qed

theorem pool_shutdown_settles_all_witness:
  "let s = pool_run [evTask 1 (ask ''a'' 0), evTask 2 (ask ''b'' 0)] (pool_new one_worker 5 0); t = pool_shutdown 9 s in
    po_pending t = [] \<and> po_log t = po_log s @ map (\<lambda>p. (pn_promise (snd p), Rejected PE_Shutdown)) (po_pending s)
    \<and> po_workers t = [] \<and> pq_size (po_queue t) = 0 \<and> po_active t = 0
    \<and> pool_post None True ''y'' 10 (task 3) (fire 0) t = (t, PostThrew)"
proof (rule pool_shutdown_settles_all)
  show "\<not> po_terminated (pool_run [evTask 1 (ask ''a'' 0), evTask 2 (ask ''b'' 0)] (pool_new one_worker 5 0))"
    by code_simp
qed

section \<open>Where the pool does less\<close>

text \<open>
  \<open>drop-oldest\<close> drops the head of the heap, which is the item that would have been served next:
  here a task of priority 5 that arrived last gives way to one of priority 0, though the queue
  has room for ten.
\<close>

lemma drop_oldest_drops_best:
  "let s = pool_run [evTask 1 (fire 0), evTask 2 (fire 0), evTask 3 (fire 5)]
        ((pool_new one_worker 5 0)\<lparr>po_policy := DropOldest\<rparr>);
       t = pool_run [EvReply 0 (answer ''x'') 1, EvReply 0 (answer ''x'') 2, EvReply 0 (answer ''x'') 3] s
   in po_posted t = [(0, 1), (0, 3)] \<and> pq_size (po_queue s) = 1"
  by code_simp

lemma drop_oldest_takes_head: "pq_rep (po_queue s) (e # es) \<Longrightarrow> pq_rep (po_queue (pool_dropOldest s)) es"
  using pool_shift_rep [of s e es] by (auto simp: pool_dropOldest_def)

text \<open>
  A queued task whose post to the worker throws is gone from the queue, and its response stays
  pending: the drains only log the error.
\<close>

lemma failed_drain_loses_task:
  "let bad = (task 2)\<lparr>m_posts := False\<rparr>;
       s = pool_run [evTask 1 (fire 0), EvPost None True ''x'' 0 bad (ask ''b'' 0), EvReply 0 (answer ''x'') 1] (pool_new one_worker 5 0)
   in pq_size (po_queue s) = 0 \<and> po_posted s = [(0, 1)] \<and> map fst (po_pending s) = [''b''] \<and> po_log s = [] \<and> po_active s = 0"
  by code_simp

text \<open>
  A crash of the only worker leaves the queued tasks stranded: the replacement is idle, nothing
  drains the queue towards it, and later posts overtake what waits there.
\<close>

lemma exit_strands_queue:
  "let s = pool_run [evTask 1 (fire 0), evTask 2 (fire 0), EvExit 0 1 5] (pool_new one_worker 5 0) in
     po_workers s = [1] \<and> w_tasks (po_objs s 1) = 0 \<and> w_ready (po_objs s 1) \<and> pq_size (po_queue s) = 1
     \<and> po_posted (pool_run [evTask 3 (fire 0)] s) = [(0, 1), (1, 3)]"
  by code_simp

text \<open>
  A message nobody asked for, here from an idle worker, takes a task off the count: the pool
  reports itself idle while a task is running.
\<close>

lemma unsolicited_reply_miscounts:
  "let s = pool_run [EvAdd True 0, evTask 1 (ask ''a'' 0), EvReply 1 (answer ''z'') 3]
        (pool_new (one_worker\<lparr>cf_maxSize := 2\<rparr>) 5 0)
   in po_active s = 0 \<and> po_isIdle s \<and> w_tasks (po_objs s 0) = 1 \<and> map fst (po_pending s) = [''a'']"
  by code_simp

text \<open>A reply whose payload is \<open>null\<close> ends its task and leaves the response it is for pending.\<close>

lemma null_reply_leaves_promise:
  "let s = pool_run [evTask 1 (ask ''a'' 0), EvReply 0 ((answer ''a'')\<lparr>rs_value := None\<rparr>) 4] (pool_new one_worker 5 0)
   in map fst (po_pending s) = [''a''] \<and> po_log s = [] \<and> po_active s = 0"
  by code_simp

text \<open>
  A response whose id was taken over while its task was queued: the first task is posted under the
  second one's promise and its reply resolves that promise before the second task has run.
\<close>

lemma duplicate_id_resolves_wrong_task:
  "let s = pool_run [evTask 1 (fire 0), evTask 2 (ask ''a'' 0), evTask 3 (ask ''a'' 0), EvReply 0 (answer ''x'') 4,
          EvReply 0 (answer ''a'') 5] (pool_new one_worker 5 0)
   in po_log s = [(0, Rejected PE_Duplicate), (1, Resolved 7)] \<and> po_posted s = [(0, 1), (0, 2), (0, 3)]"
  by code_simp

text \<open>
  A plain message with a transfer list is posted past the wrapper, and that path neither opens
  the busy interval nor watches the abort signal.
\<close>

lemma bypass_ignores_signal:
  "let s = pool_run [EvPost None True ''x'' 0 ((task 1)\<lparr>m_bypass := True\<rparr>) ((ask ''a'' 0)\<lparr>op_signal := Some 7\<rparr>), EvAbort 7]
        (pool_new one_worker 5 0)
   in map fst (po_pending s) = [''a''] \<and> po_log s = [] \<and> po_busySince s = None \<and> po_active s = 1"
  by code_simp

text \<open>A balancer that declines hands the choice to the fallback, which looks at unready workers too.\<close>

lemma balancer_fallback_ignores_readiness:
  "let s = pool_run [EvReady 1 1, EvPost (Some LbNone) True ''x'' 2 (task 1) (fire 0)]
        (pool_new (one_worker\<lparr>cf_minSize := 2, cf_maxSize := 2, cf_ready := True\<rparr>) 5 0)
   in po_posted s = [(0, 1)] \<and> \<not> w_ready (po_objs s 0) \<and> w_ready (po_objs s 1)"
  by code_simp

text \<open>A message that cannot be prepared for the queue throws and leaves its response registered.\<close>

lemma failed_preparation_leaks_response:
  "let s = pool_run [evTask 1 (fire 0), EvPost None True ''x'' 0 ((task 2)\<lparr>m_prepares := False\<rparr>) (ask ''b'' 0)] (pool_new one_worker 5 0)
   in map fst (po_pending s) = [''b''] \<and> po_log s = [] \<and> pq_size (po_queue s) = 0"
  by code_simp

text \<open>
  How the ledger reads the answer of a post.  A post that is refused while its caller awaits a
  response answers with a rejected promise, so its key is settled although nothing was sent.
\<close>

definition posted_inner :: "posted \<Rightarrow> inner" where
  "posted_inner r = (case r of PostThrew \<Rightarrow> InnerThrew | PostFalse \<Rightarrow> InnerFalse | _ \<Rightarrow> InnerTook)"

lemma refused_post_keeps_key:
  "let s = pool_run [evTask 1 (fire 0)] ((pool_new one_worker 5 0)\<lparr>po_policy := Reject\<rparr>);
       r = pool_post None True ''x'' 1 (task 2) (ask ''b'' 0) s;
       l = fst (pool_postMessage (Some ''k'') 1 (posted_inner (snd r)) (idem_new 10))
   in po_posted (fst r) = po_posted s \<and> po_log (fst r) = [(0, Rejected PE_Policy)]
     \<and> snd (pool_postMessage (Some ''k'') 2 InnerTook l) = False"
  by code_simp

end
