(* ===== verification/Controllers.thy ===== *)
theory Controllers
  imports Options
begin

text \<open>
  The control loops that own no clock: the transfer function of \<open>src/helpers/powerServo.js\<close>, the
  bounded proposals of \<open>src/helpers/powerAdaptiveProposal.js\<close> and the brownout policy of
  \<open>src/helpers/powerBrownout.js\<close>.  A feedforward function is an argument of the constructor.
\<close>

section \<open>Arithmetic with infinities\<close>

fun num_add :: "js_num \<Rightarrow> js_num \<Rightarrow> js_num" where
  "num_add (Fin a) (Fin b) = Fin (a + b)"
| "num_add NaN b = NaN"
| "num_add a NaN = NaN"
| "num_add PosInf NegInf = NaN"
| "num_add NegInf PosInf = NaN"
| "num_add PosInf b = PosInf"
| "num_add NegInf b = NegInf"
| "num_add a PosInf = PosInf"
| "num_add a NegInf = NegInf"

fun num_neg :: "js_num \<Rightarrow> js_num" where
  "num_neg (Fin a) = Fin (- a)"
| "num_neg PosInf = NegInf"
| "num_neg NegInf = PosInf"
| "num_neg NaN = NaN"

text \<open>\<open>g * d\<close> for a finite gain other than 0.\<close>

definition num_scale :: "rat \<Rightarrow> js_num \<Rightarrow> js_num" where
  "num_scale g d = (case d of Fin r \<Rightarrow> Fin (g * r) | NaN \<Rightarrow> NaN | _ \<Rightarrow> if 0 < g then d else num_neg d)"

definition num_clamp :: "js_num \<Rightarrow> js_num \<Rightarrow> js_num \<Rightarrow> js_num" where
  "num_clamp v lo hi = (if num_lt v lo then lo else if num_lt hi v then hi else v)"

section \<open>PowerServo\<close>

text \<open>
  A feedforward function reads the measurement, the setpoint, the disturbance and the last output.
\<close>

type_synonym ff_fun = "rat \<Rightarrow> rat \<Rightarrow> js_num \<Rightarrow> js_num \<Rightarrow> js_val result"

datatype feedforward = FfNone | FfNumber js_num | FfFun ff_fun

record servo =
  sv_setpoint :: rat
  sv_kp :: rat
  sv_ki :: rat
  sv_kd :: rat
  sv_filter :: rat
  sv_min :: js_num
  sv_max :: js_num
  sv_feedforward :: feedforward
  sv_ffGain :: rat
  sv_dt :: rat
  sv_integral :: rat
  sv_previous :: "rat option"
  sv_derivative :: rat
  sv_output :: js_num
  sv_error :: rat
  sv_saturated :: bool

definition finite_or :: "js_val \<Rightarrow> rat \<Rightarrow> rat" where
  "finite_or v d = (case v of JNum (Fin r) \<Rightarrow> r | _ \<Rightarrow> d)"

definition servo_bound :: "js_val \<Rightarrow> js_num \<Rightarrow> js_num result" where
  "servo_bound v fallback =
     (if is_nullish v then Inr fallback
      else map_sum id (\<lambda>n. if n = NaN then fallback else n) (to_number v))"

definition servo_checkBound :: "js_val \<Rightarrow> string \<Rightarrow> js_num result" where
  "servo_checkBound v name = (case v of JNum n \<Rightarrow> if n = NaN then Inl (TypeErr ''PowerServo'' name) else Inr n
     | _ \<Rightarrow> Inl (TypeErr ''PowerServo'' name))"

definition servo_setMin :: "js_val \<Rightarrow> servo \<Rightarrow> (servo, unit) step" where
  "servo_setMin v s =
     (case servo_checkBound v ''min'' of
        Inl e \<Rightarrow> (s, Inl e)
      | Inr n \<Rightarrow> if num_lt (sv_max s) n then (s, Inl (RangeErr ''PowerServo'' ''min''))
                 else (s\<lparr>sv_min := n\<rparr>, Inr ()))"

definition servo_setMax :: "js_val \<Rightarrow> servo \<Rightarrow> (servo, unit) step" where
  "servo_setMax v s =
     (case servo_checkBound v ''max'' of
        Inl e \<Rightarrow> (s, Inl e)
      | Inr n \<Rightarrow> if num_lt n (sv_min s) then (s, Inl (RangeErr ''PowerServo'' ''max''))
                 else (s\<lparr>sv_max := n\<rparr>, Inr ()))"

definition servo_setSetpoint :: "js_val \<Rightarrow> servo \<Rightarrow> (servo, unit) step" where
  "servo_setSetpoint v s = (case v of JNum (Fin r) \<Rightarrow> (s\<lparr>sv_setpoint := r\<rparr>, Inr ())
     | _ \<Rightarrow> (s, Inl (TypeErr ''PowerServo'' ''setpoint'')))"

text \<open>The two tuning rules, on gain and period already read from the argument.\<close>

definition servo_tune :: "js_val \<Rightarrow> js_val \<Rightarrow> bool \<Rightarrow> servo \<Rightarrow> (servo, unit) step" where
  "servo_tune ku pu tyreus s =
     (case ku of
        JNum (Fin k) \<Rightarrow>
          (if k \<le> 0 then (s, Inl (TypeErr ''PowerServo.autoTune'' ''ku''))
           else case pu of
             JNum (Fin p) \<Rightarrow>
               (if p \<le> 0 then (s, Inl (TypeErr ''PowerServo.autoTune'' ''pu''))
                else if tyreus
                then (s\<lparr>sv_kp := 45 / 100 * k, sv_ki := (45 / 100 * k) / (22 / 10 * p),
                        sv_kd := (45 / 100 * k * p) / (63 / 10)\<rparr>, Inr ())
                else (s\<lparr>sv_kp := 6 / 10 * k, sv_ki := (12 / 10 * k) / p, sv_kd := 75 / 1000 * k * p\<rparr>, Inr ()))
           | _ \<Rightarrow> (s, Inl (TypeErr ''PowerServo.autoTune'' ''pu'')))
      | _ \<Rightarrow> (s, Inl (TypeErr ''PowerServo.autoTune'' ''ku'')))"

definition servo_reset :: "servo \<Rightarrow> servo" where
  "servo_reset s = s\<lparr>sv_integral := 0, sv_previous := None, sv_derivative := 0, sv_output := Fin 0,
     sv_error := 0, sv_saturated := False\<rparr>"

definition servo_feedforward :: "(nat \<Rightarrow> ff_fun) \<Rightarrow> js_val \<Rightarrow> feedforward result" where
  "servo_feedforward fns v =
     (case v of
        JUndefined \<Rightarrow> Inr FfNone
      | JNull \<Rightarrow> Inr FfNone
      | JFun i \<Rightarrow> Inr (FfFun (fns i))
      | JNum n \<Rightarrow> Inr (FfNumber n)
      | _ \<Rightarrow> Inl (TypeErr ''PowerServo'' ''feedforward''))"

definition servo_known_options :: "string list" where
  "servo_known_options = [''setpoint'', ''kp'', ''ki'', ''kd'', ''derivativeFilter'', ''min'', ''max'',
     ''feedforward'', ''feedforwardGain'', ''dt'', ''autoTune'']"

text \<open>The constructor on an object, without the \<open>autoTune\<close> option.\<close>

definition servo_new :: "(nat \<Rightarrow> ff_fun) \<Rightarrow> js_val \<Rightarrow> servo result" where
  "servo_new fns options =
     res_bind (assertKnownOptions options servo_known_options ''PowerServo'') (\<lambda>_.
     res_bind (servo_bound (get_prop ''min'' options) NegInf) (\<lambda>mn.
     res_bind (servo_bound (get_prop ''max'' options) PosInf) (\<lambda>mx.
     if num_lt mx mn then Inl (RangeErr ''PowerServo'' ''max'')
     else res_bind (servo_feedforward fns (get_prop ''feedforward'' options)) (\<lambda>ff.
     Inr \<lparr>sv_setpoint = finite_or (get_prop ''setpoint'' options) 0,
          sv_kp = finite_or (get_prop ''kp'' options) 0, sv_ki = finite_or (get_prop ''ki'' options) 0,
          sv_kd = finite_or (get_prop ''kd'' options) 0,
          sv_filter = max 0 (min (999 / 1000) (finite_or (get_prop ''derivativeFilter'' options) 0)),
          sv_min = mn, sv_max = mx, sv_feedforward = ff,
          sv_ffGain = finite_or (get_prop ''feedforwardGain'' options) 0,
          sv_dt = max 0 (finite_or (get_prop ''dt'' options) 1), sv_integral = 0, sv_previous = None,
          sv_derivative = 0, sv_output = Fin 0, sv_error = 0, sv_saturated = False\<rparr>))))"

definition servo_derive :: "rat \<Rightarrow> rat \<Rightarrow> servo \<Rightarrow> servo" where
  "servo_derive m h s =
     (let raw = (case sv_previous s of Some p \<Rightarrow> if 0 < h then (p - m) / h else 0 | None \<Rightarrow> 0);
          s = (if sv_kd s \<noteq> 0
               then s\<lparr>sv_derivative := (if sv_filter s = 0 then raw
                      else sv_derivative s + sv_filter s * (raw - sv_derivative s))\<rparr> else s)
      in s\<lparr>sv_previous := Some m\<rparr>)"

definition servo_ff :: "rat \<Rightarrow> js_num \<Rightarrow> servo \<Rightarrow> js_num result" where
  "servo_ff m disturbance s =
     (case sv_feedforward s of
        FfFun f \<Rightarrow>
          (case f m (sv_setpoint s) disturbance (sv_output s) of
             Inl e \<Rightarrow> Inl e
           | Inr (JNum (Fin c)) \<Rightarrow> Inr (Fin c)
           | Inr _ \<Rightarrow> Inl (TypeErr ''PowerServo'' ''feedforward''))
      | _ \<Rightarrow> Inr (if sv_ffGain s \<noteq> 0 then num_scale (sv_ffGain s) disturbance else Fin 0))"

text \<open>\<open>divideOrZero\<close>, for a divisor other than 0.\<close>

definition divideOrZero :: "js_num \<Rightarrow> rat \<Rightarrow> rat" where
  "divideOrZero n d = (case n of Fin r \<Rightarrow> r / d | _ \<Rightarrow> 0)"

definition servo_integrate :: "js_num \<Rightarrow> rat \<Rightarrow> rat \<Rightarrow> servo \<Rightarrow> servo" where
  "servo_integrate ff e h s =
     (if sv_ki s \<noteq> 0 then
        (let i = sv_integral s + e * h;
             contribution = Fin (sv_ki s * i);
             lo = num_add (num_add (sv_min s) (num_neg ff)) (Fin (- (sv_kp s * e)));
             hi = num_add (num_add (sv_max s) (num_neg ff)) (Fin (- (sv_kp s * e)))
         in s\<lparr>sv_integral := (if num_lt contribution lo then divideOrZero lo (sv_ki s)
                else if num_lt hi contribution then divideOrZero hi (sv_ki s) else i)\<rparr>)
      else s)"

definition servo_step :: "js_val \<Rightarrow> js_val \<Rightarrow> js_num \<Rightarrow> servo \<Rightarrow> (servo, js_num) step" where
  "servo_step measured dt disturbance s =
     (case measured of
        JNum (Fin m) \<Rightarrow>
          (let h = (if dt = JUndefined then sv_dt s else max 0 (finite_or dt 0));
               e = sv_setpoint s - m;
               s = servo_derive m h s;
               feedback = sv_kp s * e + sv_ki s * sv_integral s + sv_kd s * sv_derivative s
           in case servo_ff m disturbance s of
                Inl err \<Rightarrow> (s, Inl err)
              | Inr ff \<Rightarrow>
                  (let out = num_clamp (num_add ff (Fin feedback)) (sv_min s) (sv_max s);
                       s = servo_integrate ff e h s
                   in (s\<lparr>sv_output := out, sv_error := e,
                         sv_saturated := (out = sv_min s \<or> out = sv_max s) \<and> out \<noteq> NaN\<rparr>, Inr out)))
      | _ \<Rightarrow> (s, Inl (TypeErr ''PowerServo'' ''measured'')))"

section \<open>The loop stays within its bounds\<close>

definition servo_ok :: "servo \<Rightarrow> bool" where
  "servo_ok s \<longleftrightarrow> sv_min s \<noteq> NaN \<and> sv_min s \<noteq> PosInf \<and> sv_max s \<noteq> NaN \<and> sv_max s \<noteq> NegInf
     \<and> \<not> num_lt (sv_max s) (sv_min s)"

text \<open>The window of the integral's contribution, given the feedforward and the error of the step.\<close>

definition in_window :: "servo \<Rightarrow> rat \<Rightarrow> rat \<Rightarrow> bool" where
  "in_window s ff e \<longleftrightarrow>
     \<not> num_lt (Fin (ff + sv_kp s * e + sv_ki s * sv_integral s)) (sv_min s)
     \<and> \<not> num_lt (sv_max s) (Fin (ff + sv_kp s * e + sv_ki s * sv_integral s))"

lemma servo_derive_same [simp]:
  "sv_setpoint (servo_derive m h s) = sv_setpoint s" "sv_kp (servo_derive m h s) = sv_kp s"
  "sv_ki (servo_derive m h s) = sv_ki s" "sv_kd (servo_derive m h s) = sv_kd s"
  "sv_min (servo_derive m h s) = sv_min s" "sv_max (servo_derive m h s) = sv_max s"
  "sv_feedforward (servo_derive m h s) = sv_feedforward s" "sv_ffGain (servo_derive m h s) = sv_ffGain s"
  "sv_integral (servo_derive m h s) = sv_integral s" "sv_output (servo_derive m h s) = sv_output s"
  by (simp_all add: servo_derive_def Let_def)

lemma servo_integrate_same [simp]:
  "sv_setpoint (servo_integrate ff e h s) = sv_setpoint s" "sv_kp (servo_integrate ff e h s) = sv_kp s"
  "sv_ki (servo_integrate ff e h s) = sv_ki s" "sv_kd (servo_integrate ff e h s) = sv_kd s"
  "sv_min (servo_integrate ff e h s) = sv_min s" "sv_max (servo_integrate ff e h s) = sv_max s"
  "sv_feedforward (servo_integrate ff e h s) = sv_feedforward s" "sv_ffGain (servo_integrate ff e h s) = sv_ffGain s"
  by (simp_all add: servo_integrate_def Let_def)

lemma num_clamp_in: "v \<noteq> NaN \<Longrightarrow> lo \<noteq> NaN \<Longrightarrow> hi \<noteq> NaN \<Longrightarrow> \<not> num_lt hi lo \<Longrightarrow>
    num_clamp v lo hi \<noteq> NaN \<and> \<not> num_lt (num_clamp v lo hi) lo \<and> \<not> num_lt hi (num_clamp v lo hi)"
  by (cases v; cases lo; cases hi) (auto simp: num_clamp_def)

lemma servo_integrate_window:
  assumes "servo_ok s" "sv_ki s \<noteq> 0"
  shows "in_window (servo_integrate (Fin ff) e h s) ff e"
  using assms
  by (cases "sv_min s"; cases "sv_max s")
    (auto simp: servo_ok_def in_window_def servo_integrate_def Let_def divideOrZero_def)


lemma servo_integrate_off: "sv_ki s = 0 \<Longrightarrow> servo_integrate ff e h s = s"
  by (simp add: servo_integrate_def)

lemma servo_step_finite:
  assumes "servo_step (JNum (Fin m)) dt (Fin d) s = (s', Inr out)"
  shows "\<exists>ff h fb u. servo_ff m (Fin d) (servo_derive m h s) = Inr (Fin ff)
    \<and> out = num_clamp (Fin (ff + fb)) (sv_min s) (sv_max s)
    \<and> fb = sv_kp s * (sv_setpoint s - m) + sv_ki s * sv_integral s + sv_kd s * sv_derivative (servo_derive m h s)
    \<and> u = servo_integrate (Fin ff) (sv_setpoint s - m) h (servo_derive m h s)
    \<and> sv_integral s' = sv_integral u \<and> sv_kp s' = sv_kp s \<and> sv_ki s' = sv_ki s \<and> sv_min s' = sv_min s
    \<and> sv_max s' = sv_max s \<and> sv_setpoint s' = sv_setpoint s \<and> sv_kd s' = sv_kd s
    \<and> sv_feedforward s' = sv_feedforward s \<and> sv_ffGain s' = sv_ffGain s"
proof -
  define h where "h = (if dt = JUndefined then sv_dt s else max 0 (finite_or dt 0))"
  obtain n where n: "servo_ff m (Fin d) (servo_derive m h s) = Inr n"
    using assms by (auto simp: servo_step_def Let_def h_def [symmetric] split: sum.splits)
  have "\<exists>ff. n = Fin ff"
    using n by (auto simp: servo_ff_def num_scale_def split: feedforward.splits sum.splits js_val.splits js_num.splits if_splits)
  then obtain ff where ff: "n = Fin ff" by blast
  show ?thesis
    by (rule exI [of _ ff], rule exI [of _ h]) (use assms n ff in \<open>auto simp: servo_step_def Let_def h_def [symmetric]\<close>)
qed

lemma servo_ff_derive [simp]: "servo_ff m d (servo_derive m' h s) = servo_ff m d s"
  by (cases "sv_feedforward s") (simp_all add: servo_ff_def)

text \<open>The constructor's bounds are of this kind unless \<open>min\<close> is \<open>Infinity\<close> or \<open>max\<close> is \<open>-Infinity\<close>.\<close>

lemma servo_bound_number: "servo_bound v f = Inr n \<Longrightarrow> f \<noteq> NaN \<Longrightarrow> n \<noteq> NaN"
  by (cases "to_number v") (auto simp: servo_bound_def split: if_splits)

lemma servo_new_ok: "servo_new fns options = Inr s \<Longrightarrow> sv_min s \<noteq> PosInf \<Longrightarrow> sv_max s \<noteq> NegInf \<Longrightarrow> servo_ok s"
  by (auto simp: servo_new_def servo_ok_def dest!: res_bind_Inr [THEN iffD1] servo_bound_number split: if_splits)

text \<open>An integral that the window does not cut is the plain sum.\<close>

lemma servo_integrate_free:
  assumes "servo_ok s" "sv_ki s \<noteq> 0" "in_window (s\<lparr>sv_integral := sv_integral s + e * h\<rparr>) ff e"
  shows "sv_integral (servo_integrate (Fin ff) e h s) = sv_integral s + e * h"
  using assms
  by (cases "sv_min s"; cases "sv_max s") (auto simp: servo_ok_def in_window_def servo_integrate_def Let_def algebra_simps)

text \<open>
  With the integral in the window of the last step, and no derivative, less push than in that step
  takes the output off the upper bound, and more push takes it off the lower one.
\<close>

lemma servo_releases:
  assumes "servo_ok s" "in_window s ff e" "sv_kd s = 0" "num_lt (sv_min s) (sv_max s)"
    "servo_step (JNum (Fin m)) dt (Fin d) s = (s', Inr out)" "servo_ff m (Fin d) s = Inr (Fin ff')"
  shows "(ff' + sv_kp s * (sv_setpoint s - m) < ff + sv_kp s * e \<longrightarrow> num_lt out (sv_max s))
    \<and> (ff + sv_kp s * e < ff' + sv_kp s * (sv_setpoint s - m) \<longrightarrow> num_lt (sv_min s) out)"
proof -
  obtain ff1 h fb where st: "servo_ff m (Fin d) (servo_derive m h s) = Inr (Fin ff1)"
    "out = num_clamp (Fin (ff1 + fb)) (sv_min s) (sv_max s)"
    "fb = sv_kp s * (sv_setpoint s - m) + sv_ki s * sv_integral s + sv_kd s * sv_derivative (servo_derive m h s)"
    using servo_step_finite [OF assms(5)] by blast
  have "ff1 = ff'" using st(1) assms(6) by simp
  then show ?thesis using assms(1-4) st(2,3)
    by (cases "sv_min s"; cases "sv_max s") (auto simp: servo_ok_def in_window_def num_clamp_def)
qed

text \<open>
  C40. The loop cannot wind up.  The bounds leave room for a number (\<open>min\<close> is not \<open>Infinity\<close>,
  \<open>max\<close> is not \<open>-Infinity\<close>), the measurement and the disturbance are finite, and \<open>ff\<close> is the
  feedforward this step computes.  The step answers a number within the bounds.  With an integral gain, the
  integral it leaves is the plain sum where that fits, and in any case such that feedforward,
  proportional and integral terms of this very step add up to a value within the bounds.  So, without
  a derivative gain, however long the output was pinned: the first step whose feedforward and
  proportional terms push less is off the upper bound, and the first that pushes more is off the lower one.
\<close>

theorem servo_never_winds_up:
  assumes "servo_ok s" "servo_step (JNum (Fin m)) dt (Fin d) s = (s', Inr out)" "servo_ff m (Fin d) s = Inr (Fin ff)"
    and h: "h = (if dt = JUndefined then sv_dt s else max 0 (finite_or dt 0))" and e: "e = sv_setpoint s - m"
  shows "out \<noteq> NaN \<and> \<not> num_lt out (sv_min s) \<and> \<not> num_lt (sv_max s) out \<and> servo_ok s'
    \<and> (sv_ki s \<noteq> 0 \<longrightarrow> in_window s' ff e
       \<and> (in_window (s'\<lparr>sv_integral := sv_integral s + e * h\<rparr>) ff e \<longrightarrow> sv_integral s' = sv_integral s + e * h)
       \<and> (sv_kd s = 0 \<and> num_lt (sv_min s) (sv_max s) \<and> servo_ff m' (Fin d') s' = Inr (Fin ff')
            \<and> servo_step (JNum (Fin m')) dt' (Fin d') s' = (s'', Inr out') \<longrightarrow>
          (ff' + sv_kp s * (sv_setpoint s - m') < ff + sv_kp s * e \<longrightarrow> num_lt out' (sv_max s))
          \<and> (ff + sv_kp s * e < ff' + sv_kp s * (sv_setpoint s - m') \<longrightarrow> num_lt (sv_min s) out')))"
proof -
  let ?u = "servo_integrate (Fin ff) e h (servo_derive m h s)"
  have st: "sv_integral s' = sv_integral ?u" "sv_kp s' = sv_kp s" "sv_ki s' = sv_ki s" "sv_min s' = sv_min s"
      "sv_max s' = sv_max s" "sv_setpoint s' = sv_setpoint s" "sv_kd s' = sv_kd s"
    and out: "\<exists>fb. out = num_clamp (Fin (ff + fb)) (sv_min s) (sv_max s)"
    using assms(2,3) by (auto simp: servo_step_def Let_def h [symmetric] e)
  have ok: "servo_ok (servo_derive m h s)" "servo_ok s'" using assms(1) st by (simp_all add: servo_ok_def)
  have w: "in_window s' ff e" if "sv_ki s \<noteq> 0"
    using servo_integrate_window [OF ok(1), of ff e h] that st by (simp add: in_window_def)
  have "sv_integral s' = sv_integral s + e * h"
    if "sv_ki s \<noteq> 0" "in_window (s'\<lparr>sv_integral := sv_integral s + e * h\<rparr>) ff e"
    using servo_integrate_free [OF ok(1), of e h ff] that st by (simp add: in_window_def)
  moreover have "out \<noteq> NaN \<and> \<not> num_lt out (sv_min s) \<and> \<not> num_lt (sv_max s) out"
    using num_clamp_in [of _ "sv_min s" "sv_max s"] out assms(1) by (auto simp: servo_ok_def)
  ultimately show ?thesis using ok(2) w servo_releases [OF ok(2) w, of m' dt' d' s'' out' ff'] st by auto
qed

definition servo_example :: servo where
  "servo_example = \<lparr>sv_setpoint = 8, sv_kp = 1, sv_ki = 2, sv_kd = 0, sv_filter = 0, sv_min = Fin 0,
     sv_max = Fin 10, sv_feedforward = FfNone, sv_ffGain = 0, sv_dt = 1, sv_integral = 0, sv_previous = None,
     sv_derivative = 0, sv_output = Fin 0, sv_error = 0, sv_saturated = False\<rparr>"

text \<open>The sum would be 6; the window leaves 2, and the next step is off the bound.\<close>

definition servo_stepped :: servo where
  "servo_stepped = servo_example\<lparr>sv_previous := Some 2, sv_integral := 2, sv_output := Fin 6, sv_error := 6\<rparr>"

lemma servo_example_step: "servo_step (JNum (Fin 2)) JUndefined (Fin 0) servo_example = (servo_stepped, Inr (Fin 6))"
  by (simp add: servo_example_def servo_stepped_def servo_step_def servo_derive_def servo_ff_def servo_integrate_def
      num_clamp_def divideOrZero_def Let_def)

lemma servo_example_next: "snd (servo_step (JNum (Fin 3)) JUndefined (Fin 0) servo_stepped) = Inr (Fin 9)"
  by (simp add: servo_example_def servo_stepped_def servo_step_def servo_derive_def servo_ff_def servo_integrate_def
      num_clamp_def divideOrZero_def Let_def)

theorem servo_never_winds_up_witness:
  "in_window servo_stepped 0 6 \<and> sv_integral servo_stepped = 2 \<and> servo_ok servo_stepped
    \<and> snd (servo_step (JNum (Fin 3)) JUndefined (Fin 0) servo_stepped) = Inr (Fin 9) \<and> num_lt (Fin 9) (sv_max servo_example)"
proof -
  have s: "servo_ok servo_example" "sv_ki servo_example \<noteq> 0" "servo_ff 2 (Fin 0) servo_example = Inr (Fin 0)"
      "servo_ff 3 (Fin 0) servo_stepped = Inr (Fin 0)" "num_lt (sv_min servo_example) (sv_max servo_example)"
      "6 = sv_setpoint servo_example - 2" "sv_kd servo_example = 0" "sv_kp servo_example = 1" "sv_setpoint servo_example = 8"
    by (simp_all add: servo_ok_def servo_example_def servo_stepped_def servo_ff_def)
  obtain s'' where n: "servo_step (JNum (Fin 3)) JUndefined (Fin 0) servo_stepped = (s'', Inr (Fin 9))"
    using servo_example_next by (cases "servo_step (JNum (Fin 3)) JUndefined (Fin 0) servo_stepped") auto
  note w = servo_never_winds_up [OF s(1) servo_example_step s(3) refl s(6), of 3 0 0 JUndefined s'' "Fin 9"]
  have "servo_ok servo_stepped" "in_window servo_stepped 0 6" "num_lt (Fin 9) (sv_max servo_example)"
    using w s(2,4,5,7-9) n by simp_all
  then show ?thesis using n by (simp add: servo_stepped_def [THEN arg_cong, of sv_integral])
qed

text \<open>A disturbance that is not a number comes out as the output; a feedforward given as a number is ignored.\<close>

lemma servo_passes_nan:
  "snd (servo_step (JNum (Fin 2)) JUndefined NaN (servo_example\<lparr>sv_ffGain := 1\<rparr>)) = Inr NaN"
  by (simp add: servo_example_def servo_step_def servo_derive_def servo_ff_def num_scale_def num_clamp_def Let_def)

lemma servo_ignores_number:
  "sv_feedforward s = FfNumber n \<Longrightarrow> servo_ff m d s = servo_ff m d (s\<lparr>sv_feedforward := FfNone\<rparr>)"
  by (simp add: servo_ff_def)

section \<open>PowerAdaptiveProposal\<close>

datatype reason = ReasonInitial | ReasonCooldown | ReasonHysteresis | ReasonCongestion | ReasonRecovery
  | ReasonBound | ReasonRollback | ReasonGiven string

record proposal =
  pr_value :: rat
  pr_min :: rat
  pr_max :: rat
  pr_maxStep :: rat
  pr_hysteresis :: rat
  pr_cooldown :: rat
  pr_remaining :: rat
  pr_last :: reason
  pr_adjustments :: nat
  pr_reversals :: nat
  pr_peak :: rat
  pr_direction :: int

definition MAX_SAFE_INTEGER :: rat where
  "MAX_SAFE_INTEGER = 9007199254740991"

definition proposal_known_options :: "string list" where
  "proposal_known_options = [''initial'', ''min'', ''max'', ''maxStep'', ''hysteresis'', ''cooldown'']"

definition proposal_option :: "string \<Rightarrow> rat \<Rightarrow> js_val \<Rightarrow> js_val" where
  "proposal_option k d options = (case get_prop k options of JUndefined \<Rightarrow> JNum (Fin d) | v \<Rightarrow> v)"

definition proposal_new :: "js_val \<Rightarrow> proposal result" where
  "proposal_new options =
     res_bind (assertKnownOptions options proposal_known_options ''PowerAdaptiveProposal'') (\<lambda>_.
     if options = JNull then Inl NullOptions
     else case (proposal_option ''initial'' 1 options, proposal_option ''min'' 1 options,
         proposal_option ''max'' 100 options, proposal_option ''maxStep'' MAX_SAFE_INTEGER options,
         proposal_option ''hysteresis'' 0 options, proposal_option ''cooldown'' 0 options) of
       (JNum (Fin i), JNum (Fin mn), JNum (Fin mx), JNum (Fin st), JNum (Fin hy), JNum (Fin cd)) \<Rightarrow>
         (if mx < mn \<or> i < mn \<or> mx < i \<or> st < 0 \<or> hy < 0 \<or> cd < 0
          then Inl (RangeErr ''PowerAdaptiveProposal'' ''options'')
          else Inr \<lparr>pr_value = i, pr_min = mn, pr_max = mx, pr_maxStep = st, pr_hysteresis = hy,
            pr_cooldown = cd, pr_remaining = 0, pr_last = ReasonInitial, pr_adjustments = 0, pr_reversals = 0,
            pr_peak = 0, pr_direction = 0\<rparr>)
     | _ \<Rightarrow> Inl (TypeErr ''PowerAdaptiveProposal'' ''options''))"

definition proposal_result :: "bool \<Rightarrow> rat \<Rightarrow> proposal \<Rightarrow> proposal" where
  "proposal_result changed signal s =
     (let s = s\<lparr>pr_peak := max (pr_peak s) \<bar>signal\<bar>\<rparr>;
          d = (if 0 < signal then - 1 else 1)
      in if changed
         then s\<lparr>pr_reversals := (if pr_direction s \<noteq> 0 \<and> d \<noteq> pr_direction s then pr_reversals s + 1 else pr_reversals s),
                pr_direction := d, pr_adjustments := pr_adjustments s + 1\<rparr>
         else s)"

text \<open>The answer says whether the value changed.\<close>

definition proposal_propose :: "js_val \<Rightarrow> proposal \<Rightarrow> (proposal, bool) step" where
  "proposal_propose v s =
     (case v of
        JNum (Fin signal) \<Rightarrow>
          (if 0 < pr_remaining s
           then (proposal_result False signal (s\<lparr>pr_remaining := pr_remaining s - 1, pr_last := ReasonCooldown\<rparr>), Inr False)
           else if \<bar>signal\<bar> \<le> pr_hysteresis s
           then (proposal_result False signal (s\<lparr>pr_last := ReasonHysteresis\<rparr>), Inr False)
           else
             (let direction = (if 0 < signal then - 1 else 1);
                  delta = min (pr_maxStep s) \<bar>signal\<bar>;
                  nxt = min (pr_max s) (max (pr_min s) (pr_value s + direction * delta));
                  changed = (nxt \<noteq> pr_value s)
              in (proposal_result changed signal
                    (s\<lparr>pr_value := nxt, pr_remaining := (if changed then pr_cooldown s else 0),
                       pr_last := (if changed then if direction < 0 then ReasonCongestion else ReasonRecovery
                                   else ReasonBound)\<rparr>), Inr changed)))
      | _ \<Rightarrow> (s, Inl (TypeErr ''PowerAdaptiveProposal'' ''signal'')))"

definition proposal_rollback :: "js_val \<Rightarrow> proposal \<Rightarrow> (proposal, bool) step" where
  "proposal_rollback v s =
     (case (if v = JUndefined then JNum (Fin (pr_value s)) else v) of
        JNum (Fin r) \<Rightarrow>
          (if r < pr_min s \<or> pr_max s < r then (s, Inl (RangeErr ''PowerAdaptiveProposal'' ''rollback''))
           else (proposal_result True 0 (s\<lparr>pr_value := r, pr_remaining := pr_cooldown s, pr_last := ReasonRollback\<rparr>), Inr True))
      | _ \<Rightarrow> (s, Inl (RangeErr ''PowerAdaptiveProposal'' ''rollback'')))"

record prop_snapshot =
  ps_value :: rat
  ps_remaining :: rat
  ps_reason :: reason

definition proposal_snapshot :: "proposal \<Rightarrow> prop_snapshot" where
  "proposal_snapshot s = \<lparr>ps_value = pr_value s, ps_remaining = pr_remaining s, ps_reason = pr_last s\<rparr>"

text \<open>\<open>restore\<close> of a snapshot of version 1 with finite numbers and a reason.\<close>

definition proposal_restore :: "prop_snapshot \<Rightarrow> proposal \<Rightarrow> (proposal, unit) step" where
  "proposal_restore p s =
     (if ps_value p < pr_min s \<or> pr_max s < ps_value p \<or> \<not> is_integer (Fin (ps_remaining p))
         \<or> ps_remaining p < 0 \<or> pr_cooldown s < ps_remaining p
      then (s, Inl (RangeErr ''PowerAdaptiveProposal'' ''snapshot''))
      else (s\<lparr>pr_value := ps_value p, pr_remaining := ps_remaining p, pr_last := ps_reason p\<rparr>, Inr ()))"

datatype prop_cmd = Propose js_val | Rollback js_val | Restore prop_snapshot

fun proposal_run :: "prop_cmd list \<Rightarrow> proposal \<Rightarrow> proposal" where
  "proposal_run [] s = s"
| "proposal_run (Propose v # cs) s = proposal_run cs (fst (proposal_propose v s))"
| "proposal_run (Rollback v # cs) s = proposal_run cs (fst (proposal_rollback v s))"
| "proposal_run (Restore p # cs) s = proposal_run cs (fst (proposal_restore p s))"

definition proposal_ok :: "proposal \<Rightarrow> bool" where
  "proposal_ok s \<longleftrightarrow> pr_min s \<le> pr_value s \<and> pr_value s \<le> pr_max s \<and> 0 \<le> pr_maxStep s \<and> 0 \<le> pr_hysteresis s
     \<and> 0 \<le> pr_cooldown s \<and> pr_remaining s \<le> pr_cooldown s \<and> - 1 < pr_remaining s
     \<and> pr_reversals s \<le> pr_adjustments s \<and> (is_integer (Fin (pr_cooldown s)) \<longrightarrow> is_integer (Fin (pr_remaining s)))"

lemma is_integer_minus: "is_integer (Fin r) \<Longrightarrow> is_integer (Fin (r - 1))"
  by (metis floor_diff_one is_integer.simps(1) of_int_1 of_int_diff)

lemma proposal_result_ok: "proposal_ok s \<Longrightarrow> proposal_ok (proposal_result changed signal s)"
  by (simp add: proposal_ok_def proposal_result_def Let_def del: is_integer.simps)

lemma proposal_ok_last: "proposal_ok (s\<lparr>pr_last := r\<rparr>) = proposal_ok s"
  by (simp add: proposal_ok_def del: is_integer.simps)

lemma proposal_ok_cool:
  "proposal_ok s \<Longrightarrow> 0 < pr_remaining s \<Longrightarrow> proposal_ok (s\<lparr>pr_remaining := pr_remaining s - 1\<rparr>)"
  using is_integer_minus [of "pr_remaining s"] by (simp add: proposal_ok_def del: is_integer.simps)

lemma proposal_ok_move:
  "proposal_ok s \<Longrightarrow> pr_min s \<le> v \<Longrightarrow> v \<le> pr_max s \<Longrightarrow> k = pr_cooldown s \<or> k = 0 \<Longrightarrow>
     proposal_ok (s\<lparr>pr_value := v, pr_remaining := k\<rparr>)"
  by (elim disjE) (simp_all add: proposal_ok_def del: is_integer.simps, simp)

lemma proposal_ok_bounds: "proposal_ok s \<Longrightarrow> pr_min s \<le> pr_max s"
  by (simp add: proposal_ok_def)

lemma proposal_propose_ok:
  assumes "proposal_ok s"
  shows "proposal_ok (fst (proposal_propose v s))"
proof (cases v)
  case (JNum n)
  show ?thesis
  proof (cases n)
    case (Fin signal)
    let ?n = "min (pr_max s) (max (pr_min s) (pr_value s + (if 0 < signal then - 1 else 1) * min (pr_maxStep s) \<bar>signal\<bar>))"
    have "proposal_ok (s\<lparr>pr_value := ?n, pr_remaining := (if b then pr_cooldown s else 0)\<rparr>)" for b
      using proposal_ok_bounds [OF assms] by (intro proposal_ok_move assms) simp_all
    then show ?thesis using JNum Fin assms
      by (simp add: proposal_propose_def Let_def proposal_result_ok proposal_ok_last proposal_ok_cool)
  qed (simp_all add: proposal_propose_def JNum assms)
qed (simp_all add: proposal_propose_def assms)

lemma proposal_rollback_ok:
  assumes "proposal_ok s"
  shows "proposal_ok (fst (proposal_rollback v s))"
proof -
  have move: "proposal_ok (s\<lparr>pr_value := r, pr_remaining := pr_cooldown s\<rparr>)"
    if "\<not> (r < pr_min s \<or> pr_max s < r)" for r
    using that by (intro proposal_ok_move assms) simp_all
  have "proposal_ok (s\<lparr>pr_remaining := pr_cooldown s\<rparr>)"
    using move [of "pr_value s"] assms by (simp add: proposal_ok_def del: is_integer.simps)
  then show ?thesis using assms move
    by (simp add: proposal_rollback_def proposal_result_ok proposal_ok_last split: js_val.splits js_num.splits)
qed

lemma proposal_restore_ok: "proposal_ok s \<Longrightarrow> proposal_ok (fst (proposal_restore p s))"
  by (simp add: proposal_ok_def proposal_restore_def del: is_integer.simps)

lemma proposal_new_ok: "proposal_new options = Inr s \<Longrightarrow> proposal_ok s"
  by (auto simp: proposal_new_def proposal_ok_def dest!: res_bind_Inr [THEN iffD1]
      split: if_splits js_val.splits js_num.splits)

text \<open>
  Whatever is proposed, rolled back or restored, the value stays within the bounds; a
  proposal moves it by at most the step, and against the sign of the signal; and with a whole
  cooldown a snapshot of any reachable state restores it.
\<close>

theorem proposal_stays_bounded:
  assumes "proposal_new options = Inr s0"
  shows "let s = proposal_run cs s0; t = fst (proposal_propose (JNum (Fin signal)) s) in
    pr_min s \<le> pr_value s \<and> pr_value s \<le> pr_max s
    \<and> \<bar>pr_value t - pr_value s\<bar> \<le> min (pr_maxStep s) \<bar>signal\<bar> \<and> signal * (pr_value t - pr_value s) \<le> 0
    \<and> (is_integer (Fin (pr_cooldown s)) \<longrightarrow> proposal_restore (proposal_snapshot s) s = (s, Inr ()))"
proof -
  have run: "proposal_ok (proposal_run cs s)" if "proposal_ok s" for s
    using that by (induction cs s rule: proposal_run.induct)
      (simp_all add: proposal_propose_ok proposal_rollback_ok proposal_restore_ok)
  define s where "s = proposal_run cs s0"
  have ok: "proposal_ok s" unfolding s_def by (rule run) (rule proposal_new_ok [OF assms])
  have v: "pr_value (proposal_result c x u) = pr_value u" for c x u
    by (simp add: proposal_result_def Let_def)
  have "\<bar>pr_value (fst (proposal_propose (JNum (Fin signal)) s)) - pr_value s\<bar> \<le> min (pr_maxStep s) \<bar>signal\<bar>
      \<and> signal * (pr_value (fst (proposal_propose (JNum (Fin signal)) s)) - pr_value s) \<le> 0"
    using ok by (auto simp: proposal_propose_def proposal_ok_def Let_def v mult_le_0_iff)
  moreover have "0 \<le> pr_remaining s" if "is_integer (Fin (pr_cooldown s))"
  proof -
    have "is_integer (Fin (pr_remaining s))" "- 1 < pr_remaining s" using ok that by (simp_all add: proposal_ok_def)
    then have "- 1 < \<lfloor>pr_remaining s\<rfloor>" by (metis is_integer.simps(1) of_int_less_iff of_int_minus of_int_1)
    then have "(0 :: int) \<le> \<lfloor>pr_remaining s\<rfloor>" by presburger
    then show ?thesis by (metis of_int_0_le_iff of_int_floor_le order_trans)
  qed
  ultimately show ?thesis using ok unfolding s_def [symmetric] Let_def
    by (auto simp: proposal_ok_def proposal_restore_def proposal_snapshot_def)
qed

text \<open>With a cooldown that is not whole, a state may refuse its own snapshot.\<close>

lemma proposal_fractional_snapshot:
  "case proposal_new (JObj [(''cooldown'', JNum (Fin (3 / 2)))]) of
     Inr s \<Rightarrow> (let t = fst (proposal_propose (JNum (Fin (- 5))) s) in
       snd (proposal_restore (proposal_snapshot t) t) = Inl (RangeErr ''PowerAdaptiveProposal'' ''snapshot''))
   | Inl e \<Rightarrow> False"
  by code_simp

section \<open>PowerBrownout\<close>

record brownout_adaptive =
  ba_enabled :: bool
  ba_alpha :: rat
  ba_margin :: rat
  ba_min :: rat
  ba_max :: rat
  ba_increase :: rat
  ba_beta :: rat

record brownout =
  bo_base :: rat
  bo_adaptive :: brownout_adaptive
  bo_ewma :: "rat option"
  bo_threshold :: rat
  bo_disabled :: "string list"
  bo_pressure :: rat
  bo_decisions :: nat
  bo_shed :: nat

definition clamp_or :: "js_val \<Rightarrow> rat \<Rightarrow> rat \<Rightarrow> rat \<Rightarrow> rat" where
  "clamp_or v lo hi d = (case v of JNum (Fin r) \<Rightarrow> min hi (max lo r) | _ \<Rightarrow> d)"

definition brownout_normalizeAdaptive :: "js_val \<Rightarrow> brownout_adaptive" where
  "brownout_normalizeAdaptive option =
     (let cfg = (if option = JBool True then JObj [] else option) in
      case cfg of
        JObj ps \<Rightarrow> \<lparr>ba_enabled = (get_prop ''enabled'' cfg \<noteq> JBool False),
          ba_alpha = clamp_or (get_prop ''alpha'' cfg) (1 / 1000) 1 (2 / 10),
          ba_margin = clamp_or (get_prop ''margin'' cfg) (- 1) 1 (1 / 10),
          ba_min = clamp_or (get_prop ''min'' cfg) 0 1 0, ba_max = clamp_or (get_prop ''max'' cfg) 0 1 1,
          ba_increase = clamp_or (get_prop ''additiveIncrease'' cfg) 0 1 (5 / 100),
          ba_beta = clamp_or (get_prop ''beta'' cfg) (1 / 10) (99 / 100) (8 / 10)\<rparr>
      | _ \<Rightarrow> \<lparr>ba_enabled = False, ba_alpha = 2 / 10, ba_margin = 1 / 10, ba_min = 0, ba_max = 1,
               ba_increase = 5 / 100, ba_beta = 8 / 10\<rparr>)"

definition unit_number :: "js_val \<Rightarrow> rat option" where
  "unit_number v = (case v of JNum (Fin r) \<Rightarrow> if r < 0 \<or> 1 < r then None else Some r | _ \<Rightarrow> None)"

text \<open>The constructor on validated \<open>disabledKinds\<close>.\<close>

definition brownout_new :: "js_val \<Rightarrow> string list \<Rightarrow> brownout result" where
  "brownout_new options kinds =
     res_bind (assertKnownOptions options [''threshold'', ''disabledKinds'', ''adaptive''] ''PowerBrownout'') (\<lambda>_.
     case unit_number (case get_prop ''threshold'' options of JUndefined \<Rightarrow> JNum (Fin (8 / 10)) | v \<Rightarrow> v) of
       None \<Rightarrow> Inl (RangeErr ''PowerBrownout'' ''threshold'')
     | Some t \<Rightarrow> Inr \<lparr>bo_base = t, bo_adaptive = brownout_normalizeAdaptive (get_prop ''adaptive'' options),
         bo_ewma = None, bo_threshold = t, bo_disabled = remdups kinds, bo_pressure = 0, bo_decisions = 0, bo_shed = 0\<rparr>)"

definition brownout_setPressure :: "js_val \<Rightarrow> brownout \<Rightarrow> (brownout, unit) step" where
  "brownout_setPressure v s =
     (case unit_number v of
        None \<Rightarrow> (s, Inl (RangeErr ''PowerBrownout'' ''pressure''))
      | Some p \<Rightarrow>
          (let s = s\<lparr>bo_pressure := p\<rparr>; a = bo_adaptive s in
           if ba_enabled a then
             (let ewma = (case bo_ewma s of None \<Rightarrow> p | Some e \<Rightarrow> e * (1 - ba_alpha a) + p * ba_alpha a);
                  t = (if bo_threshold s \<le> p then max (ba_min a) (bo_threshold s * ba_beta a)
                       else min (ba_max a) (bo_threshold s + ba_increase a))
              in (s\<lparr>bo_ewma := Some ewma, bo_threshold := max (ba_min a) (min (ba_max a) t)\<rparr>, Inr ()))
           else (s, Inr ())))"

definition brownout_allows :: "string \<Rightarrow> brownout \<Rightarrow> brownout \<times> bool" where
  "brownout_allows kind s =
     (let allowed = (bo_pressure s < bo_threshold s \<and> kind \<notin> set (bo_disabled s))
      in (s\<lparr>bo_decisions := bo_decisions s + 1, bo_shed := (if allowed then bo_shed s else bo_shed s + 1)\<rparr>, allowed))"

definition brownout_disable :: "string \<Rightarrow> bool \<Rightarrow> brownout \<Rightarrow> brownout" where
  "brownout_disable kind disabled s =
     s\<lparr>bo_disabled := (if disabled then if kind \<in> set (bo_disabled s) then bo_disabled s else bo_disabled s @ [kind]
                       else filter (\<lambda>k. k \<noteq> kind) (bo_disabled s))\<rparr>"

definition brownout_active :: "brownout \<Rightarrow> bool" where
  "brownout_active s \<longleftrightarrow> bo_threshold s \<le> bo_pressure s"

definition brownout_setThreshold :: "js_val \<Rightarrow> brownout \<Rightarrow> (brownout, unit) step" where
  "brownout_setThreshold v s =
     (case unit_number v of None \<Rightarrow> (s, Inl (RangeErr ''PowerBrownout'' ''threshold''))
      | Some t \<Rightarrow> (s\<lparr>bo_threshold := t\<rparr>, Inr ()))"

text \<open>While a brownout is active nothing optional runs; the adaptive threshold keeps to its range.\<close>

lemma brownout_active_sheds: "brownout_active s \<Longrightarrow> \<not> snd (brownout_allows kind s)"
  by (simp add: brownout_active_def brownout_allows_def)

lemma brownout_adaptive_range:
  assumes "brownout_setPressure v s = (s', Inr ())" "ba_enabled (bo_adaptive s)"
    "ba_min (bo_adaptive s) \<le> ba_max (bo_adaptive s)"
  shows "ba_min (bo_adaptive s) \<le> bo_threshold s' \<and> bo_threshold s' \<le> ba_max (bo_adaptive s)"
  using assms by (auto simp: brownout_setPressure_def Let_def split: option.splits)

text \<open>The \<open>margin\<close> of the adaptive option has no effect.\<close>

lemma brownout_margin_unused:
  "snd (brownout_setPressure v s) = snd (brownout_setPressure v (s\<lparr>bo_adaptive := (bo_adaptive s)\<lparr>ba_margin := x\<rparr>\<rparr>))
   \<and> bo_threshold (fst (brownout_setPressure v s))
       = bo_threshold (fst (brownout_setPressure v (s\<lparr>bo_adaptive := (bo_adaptive s)\<lparr>ba_margin := x\<rparr>\<rparr>)))"
  by (auto simp: brownout_setPressure_def Let_def split: option.splits)

end
