(* ===== verification/Spec2Isabelle.thy ===== *)
theory Spec2Isabelle
  imports PermitGate PriorityQueue Sequencer SlidingWindow Throttle Gcra TtlMap MessageCodec Circuit
    Deduplication Latch Sketch CachePolicies Retry Cron Bulkhead RateLimit PoolService Controllers
begin

text \<open>
  A verification library for \<open>performance-helpers\<close>, a JavaScript library of concurrency,
  rate-limiting, caching and messaging helpers (\<open>src/helpers\<close>, \<open>src/utils\<close>).

  \<^bold>\<open>The program and its parts.\<close>  Every helper validates its options (\<open>utils/options.js\<close>),
  keeps its state in one object and offers synchronous operations; asynchronous ones
  split at the points where they wait.  The queue carries the gate and the sliding window, the
  gate carries the semaphore, the limiters share a clock convention, the cache asks the frequency
  sketch whom to admit, the bulkhead keeps one gate per partition, the composed rate limit calls the
  limiters, retry runs under its own budget, and the worker pool queues in the priority queue.

  \<^bold>\<open>Theories.\<close>
  \<^item> \<open>JsPrelude\<close>: JavaScript numbers (exact rationals with \<open>NaN\<close> and the infinities), values,
    errors as a datatype, \<open>Number(v)\<close>, the 32-bit operators, arrays with unwritten slots.
    An operation is a function to \<open>result\<close> (error or value) or \<open>step\<close> (state and result); one
    that may never return is wrapped in \<open>option\<close>.
  \<^item> \<open>Options\<close> (\<open>utils/options.js\<close>): the validators and the misspelling suggestion.  The table
    computed by \<open>levenshtein\<close> is the least number of edits; an unknown option is always named.
  \<^item> \<open>Fifo\<close>: the locale of a bounded first-in first-out queue, with what its clients prove once.
  \<^item> \<open>PowerQueue\<close> (\<open>helpers/powerQueue.js\<close>): the ring buffer; every operation refines one on
    lists, through \<open>queue_rep\<close>, and \<open>Fifo\<close> is interpreted on it.  Capacities go up to \<open>2 ^ 30\<close>,
    beyond which the code's 32-bit mask arithmetic no longer holds (proved).
  \<^item> \<open>PermitGate\<close> (\<open>helpers/powerPermitGate.js\<close>, \<open>helpers/powerSemaphore.js\<close>): weighted permits,
    waiters, release callbacks, \<open>release(count)\<close>, aborts and resets as steps of a run (\<open>gate_op\<close>); what is
    held against what the callbacks owe, service in order, no lost wake-up for unit weights.
  \<^item> \<open>PriorityQueue\<close> (\<open>helpers/powerPriorityQueue.js\<close>): the heap refines the list in dispatch order.
  \<^item> \<open>JsMap\<close>: the insertion-ordered \<open>Map\<close>, with the locale \<open>ordered_map\<close> of its laws.
  \<^item> \<open>Sequencer\<close> (\<open>helpers/powerSequencer.js\<close>): in-order delivery and reassembly of any permutation.
  \<^item> \<open>LimiterClock\<close> (\<open>utils/limiterClock.js\<close>): the clock of a call, and the locale \<open>rate_limiter\<close>,
    whose laws bound what any stretch of calls is granted.
  \<^item> \<open>SlidingWindow\<close> (\<open>helpers/powerSlidingWindow.js\<close>): at most \<open>capacity\<close> units in every window.
  \<^item> \<open>Throttle\<close> (\<open>helpers/powerThrottle.js\<close>) and \<open>Gcra\<close> (\<open>helpers/powerGCRA.js\<close>): both interpret
    \<open>rate_limiter\<close>; lazy refills add up, \<open>retryAfter\<close> is the exact boundary, a batch is its
    single calls.
  \<^item> \<open>TtlMap\<close> (\<open>helpers/powerTTLMap.js\<close>): entries with deadlines, their index, the cached earliest
    deadline and the recency order; the shortcuts never change an answer, the size is bounded, and the
    keys stand in the order of their last use in the history of the calls (\<open>ttl_history\<close>).
  \<^item> \<open>MessageCodec\<close> (\<open>helpers/powerMessageCodec.js\<close>, \<open>o2u8\<close> of \<open>helpers/powerBuffer.js\<close>): frames on
    bytes with the 32-bit length field, and the streaming decoder, which reads a stream the same
    however it is cut into chunks.
  \<^item> \<open>Circuit\<close> (\<open>helpers/powerCircuit.js\<close>): the breaker as a step relation over interleaved calls,
    its reachable states and its tripping.
  \<^item> \<open>Deduplication\<close> (\<open>helpers/powerDeduplication.js\<close>): the pruned, bounded table of recent keys
    refines one that never forgets, below capacity and on a forward clock.
  \<^item> \<open>Latch\<close> (\<open>helpers/powerLatch.js\<close>, \<open>helpers/powerDefer.js\<close>): deferreds that settle once, and the
    count-down latch with the timers and abort listeners of its waiters as steps.
  \<^item> \<open>Sketch\<close> (\<open>utils/smallLfu.js\<close>, \<open>utils/hyperLogLog.js\<close>): the count-min sketch on packed four-bit
    counters, whose estimate is the least column count and whose ageing halves every estimate, and
    the cardinality estimator, exact while sparse and independent of order once dense.
  \<^item> \<open>CacheNodes\<close>, \<open>Cache\<close> (\<open>helpers/cache/core.js\<close>): the cache as a heap of linked nodes with a map, a
    free list and four eviction policies: link surgery, eviction loops and the admission window in
    the first, the operations in the second.  \<open>CacheList\<close> and \<open>CacheRep\<close> relate the nodes to a list of
    addresses under the default policy, \<open>CacheLru\<close> shows that each operation refines one on a list of
    entries ordered by use, \<open>CacheRuns\<close> lifts this to whole runs from the constructor on, with the
    limits and the reads after writes, all under the default policy (\<open>plain_cache\<close>); \<open>CachePolicies\<close> runs the other policies, the sweep and the
    fetches.
  \<^item> \<open>Retry\<close> (\<open>helpers/powerRetry.js\<close>): the attempts of a run with their waits, the race of an attempt
    with its hedges, timeout and abort, settled by the first event that settles a leg (\<open>first_settled\<close>),
    and the retry budget.
  \<^item> \<open>Cron\<close> (\<open>helpers/powerCron.js\<close>): the timer, the catch-up policies and the runs of one task.
  \<^item> \<open>Bulkhead\<close> (\<open>helpers/powerBulkhead.js\<close>): partitions over the gates of \<open>PermitGate\<close>, their
    isolation and the promises that wait for a drain.
  \<^item> \<open>RateLimit\<close> (\<open>helpers/powerRateLimit.js\<close>): a composition of limiters, with the locale \<open>leg_contract\<close>
    of what a leg promises, interpreted on the limiters of the library.
  \<^item> \<open>Idempotency\<close>, \<open>Pool\<close> (\<open>helpers/powerPool.js\<close>): the ledger of idempotency keys, and the core of the
    worker pool over the heap of \<open>PriorityQueue\<close>: pending responses, the choice of a worker, dispatch,
    the queue policies, replies, exits, resizing and shutdown; the record also has three histories the
    code does not keep, of settlements, of posts, and of the promises posts were for.  \<open>PoolRuns\<close> has what every step keeps,
    with the locale \<open>pool_invariant\<close>; \<open>PoolService\<close> what a client can rely on, and where the pool
    does less.
  \<^item> \<open>Controllers\<close> (\<open>helpers/powerServo.js\<close>, \<open>helpers/powerAdaptiveProposal.js\<close>,
    \<open>helpers/powerBrownout.js\<close>): control loops without a clock and the bounds they keep.

  \<^bold>\<open>Correspondence.\<close>  A record has the fields of the object, in the order of its constructor; a
  definition \<open>part_method\<close> translates the method of that name, guards and early returns included;
  a loop is a recursive function beside it.  Recursions end by a measure; the two loops of the
  queue's sizing and the loops of the cache over its links may not end and then return \<open>None\<close>; the
  theorems state when they return.  No fuel is used.

  \<^bold>\<open>Bounds and assumptions.\<close>  Numbers are exact: rounding of doubles is outside the model, and
  the exact results (\<open>retryAfter\<close>, the refill sums) are about the formulas.  Clock readings,
  random draws and the order of events are arguments.  User callbacks are recorded as lists of
  their calls and are taken not to call back into the helper.  Capacities of queues are bounded
  by \<open>2 ^ 30\<close> and payloads by \<open>2 ^ 32\<close> bytes, where the code's 32-bit arithmetic ends.

  \<^bold>\<open>Not modelled.\<close>  Metrics registration, logging and message texts (output only); promise
  plumbing beyond the settle order of the modelled parts; transports, workers and timers (host
  objects).  Of the cache core: the deep comparison behind \<open>hasEqual\<close>, the timer of the sweep, and an
  iterator interleaved with writes.  Of the pool: encoding, batches, broadcast, stopThePress, draining
  and closing, the adaptive limiter, priority ageing and statistics.  The histogram rests on logarithms
  of doubles.  The scheduler, the event bus and the remaining helpers are not modelled.

  \<^bold>\<open>Plan.\<close>  What would come next: batches and draining of the pool, the scheduler and the
  subscriber sets.
\<close>

end
